(* ===== verification/Prelude.thy ===== *)
theory Prelude
  imports "HOL-Library.Word"
begin

unbundle bit_operations_syntax

text \<open>
  Shared vocabulary of the development.

  The machine integers: an unsigned 32-bit C value (\<open>unsigned\<close>, \<open>uint32_t\<close>, and an
  \<open>int\<close> that the code uses as a bag of bits) is a \<open>u32\<close>, a \<open>char\<close> or \<open>uint8_t\<close> is a
  \<open>u8\<close>.  Plain counters declared \<open>int\<close> are HOL \<open>int\<close>.

  The ways in which the simulators stop: a failed \<open>assert\<close>, a call of \<open>exit\<close>, an access
  outside an allocated buffer and a shift by at least the width of its operand are the
  values of \<open>fault\<close>; an operation that can stop returns \<open>fault + 'a\<close>.

  A simulator is a step function that consumes the pins of one tick and returns the new
  state and the driven pins; \<open>run\<close> iterates it.  The locales \<open>step_invariant\<close>,
  \<open>step_total\<close> and \<open>step_simulation\<close> are the contracts under which a fact about one
  tick becomes a fact about a whole run.
\<close>

type_synonym u8 = "8 word"
type_synonym u16 = "16 word"
type_synonym u32 = "32 word"
type_synonym u64 = "64 word"

section \<open>Faults and sequencing\<close>

datatype fault = Assertion | Exit | OutOfBounds | BadShift | BadConversion

definition rbind :: "'e + 'a \<Rightarrow> ('a \<Rightarrow> 'e + 'b) \<Rightarrow> 'e + 'b" where
  "rbind r f = (case r of Inl e \<Rightarrow> Inl e | Inr x \<Rightarrow> f x)"

definition c_assert :: "bool \<Rightarrow> fault + 'a \<Rightarrow> fault + 'a" where
  "c_assert b r = (if b then r else Inl Assertion)"

definition in_bounds :: "bool \<Rightarrow> fault + 'a \<Rightarrow> fault + 'a" where
  "in_bounds b r = (if b then r else Inl OutOfBounds)"

lemma rbind_simps [simp]:
  "rbind (Inl e) f = Inl e"
  "rbind (Inr x) f = f x"
  by (simp_all add: rbind_def)

lemma rbind_assoc [simp]: "rbind (rbind r f) g = rbind r (\<lambda>x. rbind (f x) g)"
  by (cases r) simp_all

lemma rbind_eq_Inr: "rbind r f = Inr y \<longleftrightarrow> (\<exists>x. r = Inr x \<and> f x = Inr y)"
  by (cases r) simp_all

lemma rbind_InrE [elim!]:
  assumes "rbind r f = Inr y"
  obtains x where "r = Inr x" and "f x = Inr y"
  using assms by (auto simp: rbind_eq_Inr)

lemma c_assert_simps [simp]:
  "c_assert True r = r"
  "c_assert False r = Inl Assertion"
  by (simp_all add: c_assert_def)

lemma in_bounds_simps [simp]:
  "in_bounds True r = r"
  "in_bounds False r = Inl OutOfBounds"
  by (simp_all add: in_bounds_def)

lemma c_assert_eq_Inr [simp]: "c_assert b r = Inr x \<longleftrightarrow> b \<and> r = Inr x"
  by (simp add: c_assert_def)

lemma in_bounds_eq_Inr [simp]: "in_bounds b r = Inr x \<longleftrightarrow> b \<and> r = Inr x"
  by (simp add: in_bounds_def)

lemma c_assert_bind: "rbind (c_assert b r) f = c_assert b (rbind r f)"
  by (simp add: c_assert_def)

lemma in_bounds_bind: "rbind (in_bounds b r) f = in_bounds b (rbind r f)"
  by (simp add: in_bounds_def)

lemma c_assert_cong: "(b \<Longrightarrow> r = r') \<Longrightarrow> c_assert b r = c_assert b r'"
  by (simp add: c_assert_def)

lemma rbind_cong: "(\<And>x. f x = g x) \<Longrightarrow> rbind r f = rbind r g"
  by (cases r) simp_all

lemma if_bind: "rbind (if b then r else r') f = (if b then rbind r f else rbind r' f)"
  by simp

lemma in_bounds_cong: "(b \<Longrightarrow> r = r') \<Longrightarrow> in_bounds b r = in_bounds b r'"
  by (simp add: in_bounds_def)

section \<open>Runs of a step function\<close>

fun run :: "('s \<Rightarrow> 'i \<Rightarrow> fault + 's \<times> 'o) \<Rightarrow> 's \<Rightarrow> 'i list \<Rightarrow> fault + 's \<times> 'o list" where
  "run f s [] = Inr (s, [])"
| "run f s (i # is) =
     rbind (f s i) (\<lambda>(s', x). rbind (run f s' is) (\<lambda>(s'', xs). Inr (s'', x # xs)))"

lemma run_append:
  "run f s (is @ js) =
     rbind (run f s is) (\<lambda>(s', xs). rbind (run f s' js) (\<lambda>(s'', ys). Inr (s'', xs @ ys)))"
proof (induction "is" arbitrary: s)
  case Nil
  show ?case by (cases "run f s js") (auto split: prod.splits)
next
  case (Cons i "is")
  show ?case
  proof (cases "f s i")
    case (Inr r)
    obtain s1 x where "r = (s1, x)" by force
    with Inr show ?thesis
      using Cons.IH by (cases "run f s1 is"; cases "run f (fst (projr (run f s1 is))) js") auto
  qed simp
qed

lemma run_append_Inr:
  assumes "run f s is = Inr (s', xs)" and "run f s' js = Inr (s'', ys)"
  shows "run f s (is @ js) = Inr (s'', xs @ ys)"
  using assms by (simp add: run_append)

lemma run_Cons_Inr:
  assumes "f s i = Inr (s', x)" and "run f s' is = Inr (s'', xs)"
  shows "run f s (i # is) = Inr (s'', x # xs)"
  using assms by simp

lemma run_append_InrE:
  assumes "run f s (is @ js) = Inr (s'', zs)"
  obtains s' xs ys where "run f s is = Inr (s', xs)" and "run f s' js = Inr (s'', ys)"
    and "zs = xs @ ys"
  using assms by (auto simp: run_append)

lemma run_length: "run f s is = Inr (s', xs) \<Longrightarrow> length xs = length is"
proof (induction "is" arbitrary: s xs)
  case Nil
  then show ?case by simp
next
  case (Cons i "is")
  then show ?case by (auto split: prod.splits)
qed

locale step_invariant =
  fixes step :: "'s \<Rightarrow> 'i \<Rightarrow> fault + 's \<times> 'o"
    and inv :: "'s \<Rightarrow> bool"
    and ok :: "'i \<Rightarrow> bool"
  assumes step_inv: "inv s \<Longrightarrow> ok i \<Longrightarrow> step s i = Inr (s', x) \<Longrightarrow> inv s'"
begin

lemma run_inv:
  assumes "inv s" and "list_all ok is" and "run step s is = Inr (s', xs)"
  shows "inv s'"
  using assms
proof (induction "is" arbitrary: s xs)
  case Nil
  then show ?case by simp
next
  case (Cons i "is")
  then show ?case by (auto split: prod.splits dest: step_inv)
qed

end

locale step_total = step_invariant +
  assumes step_returns: "inv s \<Longrightarrow> ok i \<Longrightarrow> \<exists>s' x. step s i = Inr (s', x)"
begin

lemma run_returns:
  assumes "inv s" and "list_all ok is"
  shows "\<exists>s' xs. run step s is = Inr (s', xs) \<and> inv s'"
  using assms
proof (induction "is" arbitrary: s)
  case Nil
  then show ?case by simp
next
  case (Cons i "is")
  from Cons.prems obtain s1 x where s1: "step s i = Inr (s1, x)"
    using step_returns by fastforce
  with Cons.prems have "inv s1" using step_inv by fastforce
  with Cons.IH Cons.prems obtain s2 xs where "run step s1 is = Inr (s2, xs)" "inv s2"
    by fastforce
  with s1 show ?case by simp
qed

end

locale step_simulation =
  fixes cstep :: "'s \<Rightarrow> 'i \<Rightarrow> fault + 's \<times> 'o"
    and astep :: "'a \<Rightarrow> 'i \<Rightarrow> fault + 'a \<times> 'p"
    and rel :: "'s \<Rightarrow> 'a \<Rightarrow> bool"
    and orel :: "'o \<Rightarrow> 'p \<Rightarrow> bool"
    and ok :: "'i \<Rightarrow> bool"
  assumes step_sim: "rel s a \<Longrightarrow> ok i \<Longrightarrow> astep a i = Inr (a', y) \<Longrightarrow>
    \<exists>s' x. cstep s i = Inr (s', x) \<and> rel s' a' \<and> orel x y"
begin

lemma run_sim:
  assumes "rel s a" and "list_all ok is" and "run astep a is = Inr (a', ys)"
  shows "\<exists>s' xs. run cstep s is = Inr (s', xs) \<and> rel s' a' \<and> list_all2 orel xs ys"
  using assms
proof (induction "is" arbitrary: s a ys)
  case Nil
  then show ?case by simp
next
  case (Cons i "is")
  from Cons.prems obtain a1 y zs where a1: "astep a i = Inr (a1, y)"
    and ys: "run astep a1 is = Inr (a', zs)" "ys = y # zs" by (auto split: prod.splits)
  from Cons.prems(1,2) a1 obtain s1 x where s1: "cstep s i = Inr (s1, x)" "rel s1 a1" "orel x y"
    using step_sim [of s a i a1 y] by auto
  from s1(2) Cons.prems(2) ys(1) obtain s2 xs
    where "run cstep s1 is = Inr (s2, xs)" "rel s2 a'" "list_all2 orel xs zs"
    using Cons.IH [of s1 a1 zs] by auto
  with s1 ys show ?case by simp
qed

end

text \<open>
  \<open>safe P r\<close>: the only way \<open>r\<close> can stop is a failed assertion, and a result satisfies \<open>P\<close>.
\<close>

definition safe :: "('a \<Rightarrow> bool) \<Rightarrow> fault + 'a \<Rightarrow> bool" where
  "safe P r \<longleftrightarrow> (case r of Inl e \<Rightarrow> e = Assertion | Inr x \<Rightarrow> P x)"

lemma safe_simps [simp]: "safe P (Inr x) = P x" "safe P (Inl e) \<longleftrightarrow> e = Assertion"
  by (simp_all add: safe_def)

lemma safe_rbind: "safe P r \<Longrightarrow> (\<And>x. P x \<Longrightarrow> safe Q (f x)) \<Longrightarrow> safe Q (rbind r f)"
  by (cases r) simp_all

lemma safe_c_assert: "(b \<Longrightarrow> safe P r) \<Longrightarrow> safe P (c_assert b r)"
  by (simp add: c_assert_def)

lemma safe_in_bounds: "b \<Longrightarrow> safe P r \<Longrightarrow> safe P (in_bounds b r)"
  by (simp add: in_bounds_def)

lemma safe_mono: "safe P r \<Longrightarrow> (\<And>x. P x \<Longrightarrow> Q x) \<Longrightarrow> safe Q r"
  by (cases r) simp_all

lemma safe_Inr: "safe P r \<Longrightarrow> r = Inr x \<Longrightarrow> P x"
  by simp

locale step_safe =
  fixes step :: "'s \<Rightarrow> 'i \<Rightarrow> fault + 's \<times> 'o"
    and inv :: "'s \<Rightarrow> bool"
    and ok :: "'i \<Rightarrow> bool"
  assumes step_is_safe: "inv s \<Longrightarrow> ok i \<Longrightarrow> safe (\<lambda>r. inv (fst r)) (step s i)"

sublocale step_safe \<subseteq> step_invariant
  using step_is_safe by unfold_locales (metis fst_conv safe_Inr)

context step_safe
begin

lemma run_is_safe:
  assumes "inv s" and "list_all ok is"
  shows "safe (\<lambda>r. inv (fst r)) (run step s is)"
  using assms
proof (induction "is" arbitrary: s)
  case Nil
  then show ?case by simp
next
  case (Cons i "is")
  have "safe (\<lambda>r. inv (fst r)) (step s i)" using Cons.prems step_is_safe by simp
  then show ?case
  proof (simp, elim safe_rbind)
    fix r :: "'s \<times> 'o" assume r: "inv (fst r)"
    then have "safe (\<lambda>r. inv (fst r)) (run step (fst r) is)" using Cons by simp
    then show "safe (\<lambda>r. inv (fst r)) (case r of (s', x) \<Rightarrow>
        rbind (run step s' is) (\<lambda>(s'', xs). Inr (s'', x # xs)))"
      by (cases r) (auto elim!: safe_rbind)
  qed
qed

end

section \<open>Bits and bytes\<close>

text \<open>
  \<open>shl1\<close> is the \<open>x << 1\<close> of the shift registers, kept folded so that the simplifier
  does not turn it into a multiplication.
\<close>

definition shl1 :: "u32 \<Rightarrow> u32" where
  "shl1 r = push_bit 1 r"

definition byte_bits :: "u8 \<Rightarrow> bool list" where
  "byte_bits b = [bit b 7, bit b 6, bit b 5, bit b 4, bit b 3, bit b 2, bit b 1, bit b 0]"

fun shift_in :: "u32 \<Rightarrow> bool list \<Rightarrow> u32" where
  "shift_in r [] = r"
| "shift_in r (b # bs) = shift_in (shl1 r OR of_bool b) bs"

definition byte_of_bits :: "bool list \<Rightarrow> u8" where
  "byte_of_bits bs = ucast (shift_in 0 bs)"

lemma bit_shl1: "bit (shl1 r) n \<longleftrightarrow> n < 32 \<and> n \<noteq> 0 \<and> bit r (n - 1)"
  by (simp only: shl1_def bit_push_bit_iff) (auto simp: Suc_le_eq)

lemma bit_low_mask: "bit (mask k :: 'a::len word) n \<longleftrightarrow> n < k \<and> n < LENGTH('a)"
  by (simp only: bit_mask_iff possible_bit_def) auto

text \<open>
  The simplifier turns a bit of a word numeral into a bit of the integer numeral, so that is
  the form the mask is stated for.
\<close>

lemma bit_0xff: "bit (0xff :: int) n \<longleftrightarrow> n < 8"
proof -
  have "bit (mask 8 :: int) n \<longleftrightarrow> n < 8" by (simp only: bit_mask_iff) simp
  then show ?thesis by (simp add: mask_eq_exp_minus_1)
qed

lemma unat_bound: "unat (x :: u32) < 2 ^ 32"
  using unsigned_less [of x, where 'a = nat] by simp

lemma unat_push_one: "n < 32 \<Longrightarrow> unat (push_bit n 1 :: u32) = 2 ^ n"
proof -
  assume n: "n < 32"
  then have "(2::nat) ^ n < 2 ^ 32" by (intro power_strict_increasing) simp_all
  moreover have "(push_bit n 1 :: u32) = of_nat (2 ^ n)" by simp
  ultimately show ?thesis by (simp only: unat_of_nat) simp
qed

lemma length_byte_bits [simp]: "length (byte_bits b) = 8"
  by (simp add: byte_bits_def)

lemma bit_shift_in:
  "n < 32 \<Longrightarrow> bit (shift_in r bs) n =
     (if n < length bs then rev bs ! n else bit r (n - length bs))"
proof (induction bs arbitrary: r)
  case Nil
  then show ?case by simp
next
  case (Cons b bs)
  consider "n < length bs" | "n = length bs" | "length bs < n" by linarith
  then show ?case
    using Cons by cases (auto simp: bit_simps bit_shl1 nth_append)
qed

lemma shift_in_append: "shift_in r (as @ bs) = shift_in (shift_in r as) bs"
  by (induction as arbitrary: r) simp_all

lemma nth_rev_byte_bits:
  assumes "n < 8"
  shows "rev (byte_bits b) ! n = bit b n"
proof -
  have "n \<in> set [0..<8]" using assms by simp
  also have "[0..<8] = [0, 1, 2, 3, 4, 5, 6, 7]" by (simp add: upt_rec)
  finally show ?thesis by (auto simp: byte_bits_def)
qed

lemma shift_in_byte: "shift_in r (byte_bits b) = push_bit 8 r OR ucast b"
proof (rule bit_word_eqI)
  fix n assume "n < LENGTH(32)"
  then have n: "n < 32" by simp
  have "\<not> bit b n" if "8 \<le> n" using that bit_imp_le_length [of b n] by auto
  with n show "bit (shift_in r (byte_bits b)) n = bit (push_bit 8 r OR ucast b) n"
    by (auto simp: bit_shift_in nth_rev_byte_bits bit_simps)
qed

lemma ucast_byte_word [simp]: "(ucast (ucast b :: u32) :: u8) = b"
  by (rule bit_word_eqI) (auto simp: bit_simps)

lemma byte_of_byte_bits [simp]: "byte_of_bits (byte_bits b) = b"
  by (simp add: byte_of_bits_def shift_in_byte)

text \<open>A register of eight bits, the most significant first in.\<close>

definition shift8 :: "u8 \<Rightarrow> bool list \<Rightarrow> u8" where
  "shift8 = foldl (\<lambda>r b. push_bit 1 r OR of_bool b)"

lemma bit_shift8:
  "n < 8 \<Longrightarrow> bit (shift8 r bs) n = (if n < length bs then rev bs ! n else bit r (n - length bs))"
proof (induction bs arbitrary: r)
  case Nil
  then show ?case by (simp add: shift8_def)
next
  case (Cons b bs)
  have "bit (push_bit 1 r OR of_bool b) m \<longleftrightarrow> (if m = 0 then b else bit r (m - 1))" if "m < 8" for m
    using that by (auto simp: bit_or_iff bit_push_bit_iff bit_of_bool_iff Suc_le_eq simp del: push_bit_Suc)
  moreover consider "n < length bs" | "n = length bs" | "length bs < n" by linarith
  moreover have "shift8 r (b # bs) = shift8 (push_bit 1 r OR of_bool b) bs" by (simp add: shift8_def)
  ultimately show ?case
    using Cons by cases (auto simp: nth_append)
qed

lemma shift8_snoc: "shift8 r (bs @ [b]) = push_bit 1 (shift8 r bs) OR of_bool b"
  by (simp add: shift8_def)

lemma shift8_byte: "shift8 r (byte_bits b) = b"
  by (rule bit_word_eqI) (simp add: bit_shift8 nth_rev_byte_bits)

end
