(* ===== verification/Byteswap.thy ===== *)
theory Byteswap
  imports Prelude
begin

text \<open>
  The byte-order helpers of \<open>sim/verilated/byteswap.cpp\<close> (the copy in
  \<open>sw/host/byteswap.cpp\<close> has the same bodies).  \<open>byteswap\<close> exchanges the byte order of a
  word, \<open>byteswapbuf\<close> does so for the first \<open>ln\<close> words of a buffer, \<open>buildword\<close> and
  \<open>buildswap\<close> read a big-endian and a little-endian word from four characters.  A read or a
  write past the end of the buffer is the fault \<open>OutOfBounds\<close>.
\<close>

definition byteswap :: "u32 \<Rightarrow> u32" where
  "byteswap v =
     (let r = v AND 0xff;
          r = push_bit 8 r; v = drop_bit 8 v;
          r = r OR (v AND 0xff);
          r = push_bit 8 r; v = drop_bit 8 v;
          r = r OR (v AND 0xff);
          r = push_bit 8 r; v = drop_bit 8 v;
          r = r OR (v AND 0xff)
      in r)"

fun byteswapbuf_from :: "nat \<Rightarrow> nat \<Rightarrow> u32 list \<Rightarrow> fault + u32 list" where
  "byteswapbuf_from 0 i buf = Inr buf"
| "byteswapbuf_from (Suc k) i buf =
     in_bounds (i < length buf) (byteswapbuf_from k (Suc i) (buf[i := byteswap (buf ! i)]))"

definition byteswapbuf :: "int \<Rightarrow> u32 list \<Rightarrow> fault + u32 list" where
  "byteswapbuf ln buf = byteswapbuf_from (nat ln) 0 buf"

definition buildword :: "u8 list \<Rightarrow> fault + u32" where
  "buildword p = in_bounds (4 \<le> length p)
     (let r = ucast (p ! 0); r = push_bit 8 r;
          r = r OR ucast (p ! 1); r = push_bit 8 r;
          r = r OR ucast (p ! 2); r = push_bit 8 r;
          r = r OR ucast (p ! 3)
      in Inr r)"

definition buildswap :: "u8 list \<Rightarrow> fault + u32" where
  "buildswap p = in_bounds (4 \<le> length p)
     (let r = ucast (p ! 3); r = push_bit 8 r;
          r = r OR ucast (p ! 2); r = push_bit 8 r;
          r = r OR ucast (p ! 1); r = push_bit 8 r;
          r = r OR ucast (p ! 0)
      in Inr r)"

section \<open>Bytes of a word\<close>

text \<open>\<open>byte_at k v\<close> is byte \<open>k\<close> of the word, byte 0 the least significant.\<close>

definition byte_at :: "nat \<Rightarrow> u32 \<Rightarrow> u8" where
  "byte_at k v = ucast (drop_bit (8 * k) v)"

definition word_of_bytes :: "u8 \<Rightarrow> u8 \<Rightarrow> u8 \<Rightarrow> u8 \<Rightarrow> u32" where
  "word_of_bytes a b c d =
     push_bit 24 (ucast a) OR push_bit 16 (ucast b) OR push_bit 8 (ucast c) OR ucast d"

lemma bit_byte_at: "bit (byte_at k v) n \<longleftrightarrow> n < 8 \<and> bit v (8 * k + n)"
  by (auto simp: byte_at_def bit_simps)

lemma bit_word_of_bytes:
  "n < 32 \<Longrightarrow> bit (word_of_bytes a b c d) n =
     (if n < 8 then bit d n else if n < 16 then bit c (n - 8)
      else if n < 24 then bit b (n - 16) else bit a (n - 24))"
  using bit_imp_le_length [of d n] bit_imp_le_length [of c "n - 8"]
    bit_imp_le_length [of b "n - 16"]
  by (auto simp: word_of_bytes_def bit_simps)

lemma word_of_bytes_byte_at: "word_of_bytes (byte_at 3 v) (byte_at 2 v) (byte_at 1 v) (byte_at 0 v) = v"
  by (rule bit_word_eqI) (auto simp: bit_word_of_bytes bit_byte_at)

lemma byte_at_word_of_bytes:
  "byte_at 0 (word_of_bytes a b c d) = d" "byte_at 1 (word_of_bytes a b c d) = c"
  "byte_at 2 (word_of_bytes a b c d) = b" "byte_at 3 (word_of_bytes a b c d) = a"
  by (auto intro!: bit_word_eqI simp: bit_word_of_bytes bit_byte_at)

lemma push8_or_eq:
  "push_bit 8 (push_bit 8 (push_bit 8 (ucast a) OR ucast b) OR ucast c) OR ucast d
     = word_of_bytes a b c d"
  by (simp add: word_of_bytes_def push_bit_or or.assoc)

lemma and_255_byte_at: "drop_bit (8 * k) v AND 0xff = (ucast (byte_at k v) :: u32)"
proof -
  have "drop_bit (8 * k) v AND 0xff = take_bit 8 (drop_bit (8 * k) v)"
    by (simp add: take_bit_eq_mask mask_eq_exp_minus_1)
  also have "\<dots> = ucast (byte_at k v)"
    by (rule bit_word_eqI) (auto simp: bit_simps bit_byte_at)
  finally show ?thesis .
qed

lemma byteswap_bytes:
  "byteswap v = word_of_bytes (byte_at 0 v) (byte_at 1 v) (byte_at 2 v) (byte_at 3 v)"
proof -
  have "v AND 0xff = ucast (byte_at 0 v)"
    and "drop_bit 8 v AND 0xff = ucast (byte_at 1 v)"
    and "drop_bit 8 (drop_bit 8 v) AND 0xff = ucast (byte_at 2 v)"
    and "drop_bit 8 (drop_bit 8 (drop_bit 8 v)) AND 0xff = ucast (byte_at 3 v)"
    using and_255_byte_at [of 0 v] and_255_byte_at [of 1 v] and_255_byte_at [of 2 v]
      and_255_byte_at [of 3 v] by (simp_all add: drop_bit_drop_bit)
  then show ?thesis by (simp only: byteswap_def Let_def push8_or_eq)
qed

lemma byteswap_word_of_bytes: "byteswap (word_of_bytes a b c d) = word_of_bytes d c b a"
  by (simp only: byteswap_bytes byte_at_word_of_bytes)

lemma byteswap_byteswap [simp]: "byteswap (byteswap v) = v"
  by (subst (2) byteswap_bytes) (simp only: byteswap_word_of_bytes word_of_bytes_byte_at)

lemma buildword_Cons [simp]: "buildword (a # b # c # d # p) = Inr (word_of_bytes a b c d)"
  by (simp add: buildword_def Let_def push8_or_eq [symmetric])

lemma buildswap_Cons [simp]: "buildswap (a # b # c # d # p) = Inr (word_of_bytes d c b a)"
  by (simp add: buildswap_def Let_def push8_or_eq [symmetric])

section \<open>Swapping a buffer\<close>

lemma byteswapbuf_from_eq:
  "i + k \<le> length buf \<Longrightarrow> byteswapbuf_from k i buf =
     Inr (take i buf @ map byteswap (take k (drop i buf)) @ drop (i + k) buf)"
proof (induction k arbitrary: i buf)
  case 0
  then show ?case by simp
next
  case (Suc k)
  then have "i < length buf" by simp
  then have "drop i buf = buf ! i # drop (Suc i) buf" by (simp add: Cons_nth_drop_Suc)
  with Suc \<open>i < length buf\<close> show ?case
    by (simp add: take_Suc_conv_app_nth nth_list_update drop_update_swap)
qed

lemma byteswapbuf_from_fault:
  "length buf < i + k \<Longrightarrow> i \<le> length buf \<Longrightarrow> byteswapbuf_from k i buf = Inl OutOfBounds"
proof (induction k arbitrary: i buf)
  case 0
  then show ?case by simp
next
  case (Suc k)
  then show ?case by (cases "i < length buf") auto
qed

lemma byteswapbuf_eq:
  "byteswapbuf ln buf =
     (if nat ln \<le> length buf
      then Inr (map byteswap (take (nat ln) buf) @ drop (nat ln) buf)
      else Inl OutOfBounds)"
  by (simp add: byteswapbuf_def byteswapbuf_from_eq byteswapbuf_from_fault)

text \<open>
  swapping the byte order of a buffer twice restores it, over any prefix of words that
  lies in the buffer, and a prefix that does not is a fault.
\<close>

theorem byteswapbuf_roundtrip:
  "rbind (byteswapbuf ln buf) (byteswapbuf ln) =
     (if nat ln \<le> length buf then Inr buf else Inl OutOfBounds)"
  by (simp add: byteswapbuf_eq o_def)

text \<open>
  the little-endian read is the byte swap of the big-endian read of the same
  characters, on every buffer (both fault on fewer than four characters).
\<close>

theorem buildswap_is_byteswap_buildword:
  "buildswap p = rbind (buildword p) (\<lambda>w. Inr (byteswap w))"
proof (cases "4 \<le> length p")
  case True
  then obtain a b c d q where "p = a # b # c # d # q"
    by (auto simp: numeral_eq_Suc Suc_le_length_iff)
  then show ?thesis by (simp add: byteswap_word_of_bytes)
next
  case False
  then show ?thesis by (simp add: buildswap_def buildword_def)
qed

end
