(* ===== verification/Twoc.thy ===== *)
theory Twoc
  imports Prelude
begin

text \<open>
  The two's complement helpers of \<open>sw/host/twoc.cpp\<close>.  A C \<open>long\<close> is an \<open>int\<close>: the
  functions mask, sign extend, shift right and add one, so on 64-bit arguments no
  intermediate leaves the 64-bit range.  A shift by a negative amount or by the width of the
  shifted operand or more (64 for a \<open>long\<close>, 32 for the \<open>int\<close> literal of the rounding
  mask, whose sign bit is not to be shifted into either) is undefined in C and is the fault
  \<open>BadShift\<close>.
\<close>

definition sbits :: "int \<Rightarrow> int \<Rightarrow> fault + int" where
  "sbits val bits =
     (if bits < 1 \<or> 63 < bits then Inl BadShift
      else let b = nat bits;
               r = val AND (push_bit b 1 - 1)
           in Inr (if r AND push_bit (b - 1) 1 \<noteq> 0 then r OR push_bit b (- 1) else r))"

definition sfits :: "int \<Rightarrow> int \<Rightarrow> fault + bool" where
  "sfits val bits = rbind (sbits val bits) (\<lambda>r. Inr (r = bits))"

definition ubits :: "int \<Rightarrow> int \<Rightarrow> fault + int" where
  "ubits val bits =
     (if bits < 0 \<or> 63 < bits then Inl BadShift
      else Inr (val AND (push_bit (nat bits) 1 - 1)))"

definition rndbits :: "int \<Rightarrow> int \<Rightarrow> int \<Rightarrow> fault + int" where
  "rndbits val bits_in bits_out =
     rbind (sbits val bits_in) (\<lambda>s.
       if bits_in = bits_out then Inr s
       else if bits_in - 1 = bits_out then
         rbind (sbits (drop_bit 1 val) bits_out) (\<lambda>t.
           Inr (if s AND 3 = 3 then t + 1 else t))
       else if bits_in - bits_out < 0 \<or> 31 < bits_in - bits_out then Inl BadShift
       else let k = nat (bits_in - bits_out) in
         rbind (sbits (drop_bit k val) bits_out) (\<lambda>t.
           Inr (if drop_bit (k - 1) s AND 1 = 0 then t
                else if s AND (push_bit (k - 1) 1 - 1) \<noteq> 0 then t + 1
                else if t AND 1 \<noteq> 0 then t + 1
                else t)))"

section \<open>Signed fields\<close>

lemma and_low_mask: "(val::int) AND (push_bit b 1 - 1) = take_bit b val"
  by (simp add: take_bit_eq_mask mask_eq_exp_minus_1)

lemma and_single_bit: "(r::int) AND push_bit n 1 \<noteq> 0 \<longleftrightarrow> bit r n"
  by (simp only: bit_iff_and_push_bit_not_eq_0)

lemma sbits_signed:
  assumes "1 \<le> bits" "bits \<le> 63"
  shows "sbits val bits = Inr (signed_take_bit (nat bits - 1) val)"
proof -
  define n where "n = nat bits - 1"
  with assms have b: "nat bits = Suc n" by simp
  have "signed_take_bit n val =
      (if bit val n then take_bit (Suc n) val OR push_bit (Suc n) (- 1) else take_bit (Suc n) val)"
    by (rule bit_eqI) (auto simp: bit_simps min_def not_le less_Suc_eq_le le_less)
  moreover have "bit (take_bit (Suc n) val) n = bit val n"
    by (simp add: bit_simps)
  ultimately show ?thesis
    using assms by (simp only: sbits_def Let_def and_low_mask and_single_bit b) simp
qed

lemma drop_bit_signed_take_bit:
  "drop_bit k (signed_take_bit (n + k) (v::int)) = signed_take_bit n (drop_bit k v)"
  by (rule bit_eqI) (auto simp: bit_simps min_def ac_simps)

text \<open>Round half to even, on the integers.\<close>

definition round_half_even :: "int \<Rightarrow> int \<Rightarrow> int" where
  "round_half_even s d =
     (let q = s div d; r = 2 * (s mod d)
      in if r < d then q else if d < r then q + 1 else if even q then q else q + 1)"

lemma round_half_even_two:
  "round_half_even s 2 = (if s AND 3 = 3 then s div 2 + 1 else s div 2)"
proof -
  have "s AND 3 = s mod 4"
    using take_bit_eq_mask [of 2 s] by (simp add: take_bit_eq_mod mask_eq_exp_minus_1)
  moreover have "s mod 4 = 3 \<longleftrightarrow> odd s \<and> odd (s div 2)" by presburger
  ultimately show ?thesis
    by (auto simp: round_half_even_def Let_def) presburger+
qed

lemma round_half_even_double:
  assumes "0 < h"
  shows "round_half_even s (2 * h) =
     (if even (s div h) then s div (2 * h)
      else if s mod h \<noteq> 0 then s div (2 * h) + 1
      else if odd (s div (2 * h)) then s div (2 * h) + 1 else s div (2 * h))"
proof -
  have q: "s div (2 * h) = s div h div 2"
    using assms by (simp add: zdiv_zmult2_eq mult.commute [of 2 h])
  have m: "s mod (2 * h) = h * (s div h mod 2) + s mod h"
    using assms by (simp add: zmod_zmult2_eq mult.commute [of 2 h])
  define a b where "a = s div h" and "b = s mod h"
  have "0 \<le> b" "b < h" using assms by (simp_all add: b_def)
  moreover have "a mod 2 = (if even a then 0 else 1)" by presburger
  ultimately show ?thesis
    unfolding round_half_even_def Let_def q m a_def [symmetric] b_def [symmetric] by auto
qed

text \<open>
  a successful \<open>sbits\<close> is the two's complement value of the low \<open>bits\<close> bits: the
  representative of the argument modulo \<open>2 ^ bits\<close> that lies in the signed range.
\<close>

theorem sbits_value:
  assumes "1 \<le> bits" "bits \<le> 63"
  shows "\<exists>r. sbits val bits = Inr r \<and> - (2 ^ (nat bits - 1)) \<le> r \<and> r < 2 ^ (nat bits - 1)
    \<and> r mod 2 ^ nat bits = val mod 2 ^ nat bits"
proof -
  define n where "n = nat bits - 1"
  with assms have b: "nat bits = Suc n" by simp
  have "take_bit (Suc n) (signed_take_bit n val) = take_bit (Suc n) val"
    by (simp add: take_bit_signed_take_bit)
  then show ?thesis
    using assms signed_take_bit_int_greater_eq_minus_exp [of n val]
      signed_take_bit_int_less_exp [of n val]
    by (simp add: sbits_signed b take_bit_eq_mod)
qed

theorem sbits_value_witness:
  "\<exists>r. sbits 0xfff 8 = Inr r \<and> - (2 ^ (nat 8 - 1)) \<le> r \<and> r < 2 ^ (nat 8 - 1)
    \<and> r mod 2 ^ nat 8 = (0xfff::int) mod 2 ^ nat 8"
  by (rule sbits_value) simp_all

text \<open>
  \<open>rndbits\<close> drops the low \<open>bits_in - bits_out\<close> bits of a signed field by rounding to
  the nearest value, ties to the even one.
\<close>

theorem rndbits_round_half_even:
  assumes "1 \<le> bits_out" "bits_out < bits_in" "bits_in \<le> 63" "bits_in - bits_out \<le> 31"
  shows "\<exists>s. sbits val bits_in = Inr s \<and>
    rndbits val bits_in bits_out = Inr (round_half_even s (2 ^ nat (bits_in - bits_out)))"
proof -
  define k where "k = nat (bits_in - bits_out) - 1"
  define n where "n = nat bits_out - 1"
  from assms have k: "nat (bits_in - bits_out) = Suc k" by (simp add: k_def)
  from assms have n: "nat bits_in - 1 = n + Suc k" by (simp add: k_def n_def)
  define s where "s = signed_take_bit (n + Suc k) val"
  have s: "sbits val bits_in = Inr s" using assms n by (simp only: sbits_signed s_def)
  have t: "sbits (drop_bit (Suc k) val) bits_out = Inr (s div 2 ^ Suc k)"
    using assms drop_bit_signed_take_bit [of "Suc k" n val]
    by (simp only: sbits_signed n_def [symmetric] s_def drop_bit_eq_div) 
  show ?thesis
  proof (cases "bits_in - 1 = bits_out")
    case True
    with k have "k = 0" by (simp add: k_def)
    with s t True assms show ?thesis
      by (auto simp: rndbits_def k round_half_even_two)
  next
    case False
    with assms k have "bits_in \<noteq> bits_out" "\<not> bits_in - bits_out < 0" "\<not> 31 < bits_in - bits_out"
      by auto
    moreover have "drop_bit k s AND 1 = 0 \<longleftrightarrow> even (s div 2 ^ k)"
      by (simp add: drop_bit_eq_div and_one_eq even_iff_mod_2_eq_zero)
    moreover have "s AND (push_bit k 1 - 1) = s mod 2 ^ k"
      by (simp only: and_low_mask take_bit_eq_mod)
    moreover have "s div 2 ^ Suc k AND 1 \<noteq> 0 \<longleftrightarrow> odd (s div 2 ^ Suc k)"
      by (simp add: and_one_eq even_iff_mod_2_eq_zero)
    ultimately show ?thesis
      using s t False round_half_even_double [of "2 ^ k" s]
      by (simp only: rndbits_def k Let_def rbind_simps if_False diff_Suc_1 power_Suc) simp
  qed
qed

theorem rndbits_round_half_even_witness:
  "\<exists>s. sbits 0x1c 8 = Inr s \<and> rndbits 0x1c 8 5 = Inr (round_half_even s (2 ^ nat (8 - 5)))"
  by (rule rndbits_round_half_even) simp_all

text \<open>
  \<open>sfits\<close> compares the extracted field with the number of bits and not with the value:
  at every width from 3 on it rejects the value 0, which fits, and accepts a value that needs
  more bits.
\<close>

theorem sfits_compares_width:
  assumes "3 \<le> bits" "bits \<le> 63"
  shows "sfits 0 bits = Inr False \<and> sfits (2 ^ nat bits + bits) bits = Inr True"
proof -
  define n where "n = nat bits - 1"
  with assms have b: "bits = int n + 1" and n: "2 \<le> n" by simp_all
  have small: "int n + 1 < 2 ^ n" using n
    by (induction n rule: dec_induct) simp_all
  have "signed_take_bit n (2 ^ Suc n + bits) = signed_take_bit n (take_bit (Suc n) (2 ^ Suc n + bits))"
    by (simp only: signed_take_bit_take_bit) simp
  also have "take_bit (Suc n) (2 ^ Suc n + bits) = take_bit (Suc n) bits"
    by (simp add: take_bit_eq_mod)
  also have "signed_take_bit n (take_bit (Suc n) bits) = signed_take_bit n bits"
    by (simp only: signed_take_bit_take_bit) simp
  also have "\<dots> = bits"
    using small by (intro signed_take_bit_int_eq_self) (simp_all add: b)
  finally have "signed_take_bit n (2 ^ Suc n + bits) = bits" .
  moreover have "nat bits = Suc n" using b by simp
  ultimately show ?thesis
    using assms by (simp add: sfits_def sbits_signed)
qed

theorem sfits_compares_width_witness:
  "sfits 0 8 = Inr False \<and> sfits (2 ^ nat 8 + 8) 8 = Inr True"
  by (rule sfits_compares_width) simp_all

end
