(* ===== verification/Udiv.thy ===== *)
theory Udiv
  imports Prelude "HOL-Library.Signed_Division"
begin

text \<open>
  The division of 64-bit integers in software, \<open>sw/zlib/udiv.c\<close> and \<open>umod.c\<close>, on which every
  \<open>/\<close> and \<open>%\<close> of two \<open>long\<close> values on the ZipCPU ends: \<open>unsigned long\<close> is a \<open>u64\<close>.  Of the two
  versions of \<open>cltz\<close> and \<open>zip_bitrev\<close> the one in C is modelled.

  The hardware divides 32-bit values; a division by zero traps, which is the value \<open>None\<close>.
\<close>

lemma unat64: "unat (x :: u64) < 2 ^ 64"
  using unsigned_less [of x, where 'a = nat] by simp

lemma unat_drop64: "unat (drop_bit n x) = unat x div 2 ^ n" for x :: u64
proof -
  have "take_bit 64 (unat x) = unat x" using unat64 by (rule take_bit_nat_eq_self)
  then show ?thesis by (simp only: unsigned_drop_bit_eq) (simp add: drop_bit_eq_div)
qed

lemma unat_push64: "unat x * 2 ^ n < 2 ^ 64 \<Longrightarrow> unat (push_bit n x) = unat x * 2 ^ n" for x :: u64
proof -
  assume "unat x * 2 ^ n < 2 ^ 64"
  moreover have "push_bit n x = of_nat (unat x * 2 ^ n)" by (simp add: push_bit_eq_mult)
  ultimately show "unat (push_bit n x) = unat x * 2 ^ n" by (simp only: unat_of_nat) simp
qed

section \<open>The code\<close>

fun bitrev_loop :: "nat \<Rightarrow> u32 \<Rightarrow> u32 \<Rightarrow> u32" where
  "bitrev_loop 0 r b = r"
| "bitrev_loop (Suc n) r b = bitrev_loop n (push_bit 1 r OR (b AND 1)) (drop_bit 1 b)"

definition zip_bitrev :: "u32 \<Rightarrow> u32" where
  "zip_bitrev a = bitrev_loop 32 0 a"

definition cltz_step :: "nat \<Rightarrow> nat \<times> u32 \<Rightarrow> nat \<times> u32" where
  "cltz_step k = (\<lambda>(cnt, hv). if hv AND mask k = 0 then (cnt + k, drop_bit k hv) else (cnt, hv))"

definition cltz :: "u64 \<Rightarrow> nat" where
  "cltz v =
     (let hv = ucast (drop_bit 32 v) :: u32;
          (cnt, hv) = (if hv = 0 then (32, ucast (v AND 0xffffffff)) else (0, hv));
          hv = zip_bitrev hv;
          (cnt, hv) = cltz_step 2 (cltz_step 4 (cltz_step 8 (cltz_step 16 (cnt, hv))))
      in if hv AND 1 = 0 then cnt + 1 else cnt)"

definition udiv32 :: "u32 \<Rightarrow> u32 \<Rightarrow> u32 option" where
  "udiv32 ia ib = (if ib = 0 then None else Some (ia div ib))"

function udiv_loop :: "u64 \<Rightarrow> u64 \<Rightarrow> u64 \<Rightarrow> u64 \<Rightarrow> u64" where
  "udiv_loop a b m r =
     (if 0 < m
      then let (r, a) = (if b \<le> a then (r OR m, a - b) else (r, a)) in udiv_loop a (drop_bit 1 b) (drop_bit 1 m) r
      else r)"
  by pat_completeness auto
termination
proof (relation "measure (\<lambda>(_, _, m, _). unat m)", goal_cases)
  case (2 a b m r x y z)
  have "unat (drop_bit 1 m) < unat m"
  proof -
    have "0 < unat m" using 2(1) by (simp add: word_less_nat_alt)
    then show ?thesis by (simp only: unat_drop64) simp
  qed
  then show ?case by simp
qed simp

declare udiv_loop.simps [simp del]

definition udivdi3 :: "u64 \<Rightarrow> u64 \<Rightarrow> u64 option" where
  "udivdi3 a b =
     (if a < b then Some 0
      else if drop_bit 32 b = 0 \<and> drop_bit 32 a = 0
      then map_option ucast (udiv32 (ucast a) (ucast b))
      else let la = cltz a; lb = cltz b; a = push_bit la a in
           if int lb - int la < 32 \<and> push_bit la b AND 0xffffffff = 0
           then let b = push_bit la b
                in map_option ucast (udiv32 (ucast (drop_bit 32 a)) (ucast (drop_bit 32 b)))
           else Some (udiv_loop a (push_bit lb b) (push_bit (lb - la) 1) 0))"

definition divdi3 :: "u64 \<Rightarrow> u64 \<Rightarrow> u64 option" where
  "divdi3 a b =
     (let (s, a) = (if sint a < 0 then (True, - a) else (False, a));
          (s, b) = (if sint b < 0 then (\<not> s, - b) else (s, b))
      in map_option (\<lambda>r. if s then - r else r) (udivdi3 a b))"

definition umoddi3 :: "u64 \<Rightarrow> u64 \<Rightarrow> u64 option" where
  "umoddi3 a b = map_option (\<lambda>r. a - r * b) (udivdi3 a b)"

section \<open>Leading zeros\<close>

lemma bit_bitrev_loop:
  "k \<le> 32 \<Longrightarrow> n < 32 \<Longrightarrow> bit (bitrev_loop k r b) n = (if n < k then bit b (k - 1 - n) else bit r (n - k))"
proof (induction k arbitrary: r b)
  case (Suc k)
  have o: "bit (b AND 1) m \<longleftrightarrow> m = 0 \<and> bit b 0" for m and b :: u32 by (auto simp: bit_and_iff bit_1_iff)
  consider "n < k" | "n = k" | "k < n" by linarith
  then show ?case
    using Suc by cases (auto simp: bit_or_iff bit_push_bit_iff bit_drop_bit_eq o Suc_diff_Suc simp del: push_bit_Suc)
qed simp

lemma bit_zip_bitrev: "n < 32 \<Longrightarrow> bit (zip_bitrev a) n = bit a (31 - n)"
  by (simp add: zip_bitrev_def bit_bitrev_loop)

definition lowest :: "u32 \<Rightarrow> nat \<Rightarrow> bool" where
  "lowest w n \<longleftrightarrow> bit w n \<and> (\<forall>m < n. \<not> bit w m)"

lemma lowest_exists: "w \<noteq> 0 \<Longrightarrow> \<exists>n < 32. lowest w n"
proof -
  assume "w \<noteq> 0"
  then obtain n where "bit w n" using bit_eqI [of w 0] by auto
  then have "lowest w (LEAST n. bit w n)" by (auto simp: lowest_def intro: LeastI dest: not_less_Least)
  moreover from this have "(LEAST n. bit w n) < 32" using bit_imp_le_length [of w] by (auto simp: lowest_def)
  ultimately show ?thesis by blast
qed

lemma cltz_step_lowest:
  assumes "lowest w n" "n < 2 * k" "k \<le> 32"
  shows "\<exists>c' w' n'. cltz_step k (c, w) = (c', w') \<and> lowest w' n' \<and> n' < k \<and> c' + n' = c + n"
proof (cases "w AND mask k = 0")
  case True
  have "\<not> bit (w AND mask k) n" using True by simp
  then have kn: "k \<le> n" using assms(1) bit_imp_le_length [of w n] by (auto simp: bit_and_iff bit_low_mask lowest_def not_less)
  have "lowest (drop_bit k w) (n - k)" using assms(1) kn by (auto simp: lowest_def bit_drop_bit_eq)
  then show ?thesis using True kn assms(2) by (intro exI [of _ "c + k"] exI [of _ "drop_bit k w"] exI [of _ "n - k"]) (simp add: cltz_step_def)
next
  case False
  then obtain m where m: "bit (w AND mask k) m" using bit_eqI [of "w AND mask k" 0] by auto
  then have "n < k" using assms(1) by (auto simp: bit_and_iff bit_low_mask lowest_def) (metis linorder_less_linear order.strict_trans)
  then show ?thesis using False assms(1) by (intro exI [of _ c] exI [of _ w] exI [of _ n]) (simp add: cltz_step_def)
qed

lemma cltz_lowest:
  assumes "lowest w n" "n < 32"
  shows "(case cltz_step 2 (cltz_step 4 (cltz_step 8 (cltz_step 16 (c, w)))) of (cnt, hv) \<Rightarrow> if hv AND 1 = 0 then cnt + 1 else cnt) = c + n"
proof -
  obtain c1 w1 n1 where 1: "cltz_step 16 (c, w) = (c1, w1)" "lowest w1 n1" "n1 < 16" "c1 + n1 = c + n"
    using cltz_step_lowest [OF assms(1), of 16 c] assms(2) by auto
  obtain c2 w2 n2 where 2: "cltz_step 8 (c1, w1) = (c2, w2)" "lowest w2 n2" "n2 < 8" "c2 + n2 = c + n"
    using cltz_step_lowest [OF 1(2), of 8 c1] 1(3,4) by auto
  obtain c3 w3 n3 where 3: "cltz_step 4 (c2, w2) = (c3, w3)" "lowest w3 n3" "n3 < 4" "c3 + n3 = c + n"
    using cltz_step_lowest [OF 2(2), of 4 c2] 2(3,4) by auto
  obtain c4 w4 n4 where 4: "cltz_step 2 (c3, w3) = (c4, w4)" "lowest w4 n4" "n4 < 2" "c4 + n4 = c + n"
    using cltz_step_lowest [OF 3(2), of 2 c3] 3(3,4) by auto
  have "w4 AND 1 = 0 \<longleftrightarrow> \<not> bit w4 0" by (auto simp: bit_0 and_one_eq even_iff_mod_2_eq_zero [symmetric] odd_iff_mod_2_eq_one)
  moreover have "bit w4 0 \<longleftrightarrow> n4 = 0" using 4(2) by (auto simp: lowest_def)
  ultimately show ?thesis using 1(1) 2(1) 3(1) 4 by auto
qed

text \<open>\<open>highest v h\<close>: the highest one of \<open>v\<close> is at \<open>h\<close>.\<close>

definition highest :: "u64 \<Rightarrow> nat \<Rightarrow> bool" where
  "highest v h \<longleftrightarrow> 2 ^ h \<le> unat v \<and> unat v < 2 ^ Suc h"

lemma bitrev_lowest:
  assumes "lowest (zip_bitrev w) n" "n < 32"
  shows "bit w (31 - n)" "31 - n < m \<Longrightarrow> \<not> bit w m"
proof -
  show "bit w (31 - n)" using assms by (simp add: lowest_def bit_zip_bitrev)
  assume m: "31 - n < m"
  show "\<not> bit w m"
  proof
    assume b: "bit w m"
    then have "m < 32" using bit_imp_le_length [of w m] by simp
    then have "bit (zip_bitrev w) (31 - m)" using b by (simp add: bit_zip_bitrev)
    moreover have "31 - m < n" using m \<open>m < 32\<close> assms(2) by simp
    ultimately show False using assms(1) by (auto simp: lowest_def)
  qed
qed

lemma bits_highest:
  assumes "bit v h" "\<And>m. h < m \<Longrightarrow> \<not> bit v m"
  shows "highest v h"
proof -
  have "v = take_bit (Suc h) v" by (rule bit_word_eqI) (use assms(2) in \<open>auto simp: bit_take_bit_iff not_less_eq [symmetric]\<close>)
  then have "unat v < 2 ^ Suc h" by (metis take_bit_nat_less_exp unsigned_take_bit_eq)
  moreover have "2 ^ h \<le> unat v"
  proof (rule ccontr)
    assume "\<not> 2 ^ h \<le> unat v"
    then have "unat v div 2 ^ h = 0" by simp
    moreover have "odd (unat v div 2 ^ h)" using assms(1) by (simp add: bit_iff_odd [symmetric] bit_unsigned_iff)
    ultimately show False by simp
  qed
  ultimately show ?thesis by (simp add: highest_def)
qed

lemma cltz_highest:
  assumes "v \<noteq> 0"
  shows "cltz v < 64" "highest v (63 - cltz v)"
proof -
  have lo: "bit (ucast (v AND 0xffffffff) :: u32) m \<longleftrightarrow> m < 32 \<and> bit v m" for m
  proof -
    have e: "(0xffffffff :: u64) = mask 32" by (simp add: mask_eq_exp_minus_1)
    show ?thesis unfolding e by (auto simp only: bit_ucast_iff bit_and_iff bit_low_mask) auto
  qed
  have hi: "bit (ucast (drop_bit 32 v) :: u32) m \<longleftrightarrow> m < 32 \<and> bit v (m + 32)" for m
    by (auto simp: bit_ucast_iff bit_drop_bit_eq add.commute)
  define hv where "hv = (ucast (drop_bit 32 v) :: u32)"
  define c where "c = (if hv = 0 then 32 else 0 :: nat)"
  define w where "w = (if hv = 0 then ucast (v AND 0xffffffff) else hv)"
  have w: "bit w m \<longleftrightarrow> m < 32 \<and> bit v (m + (32 - c))" for m using lo hi by (simp add: w_def c_def hv_def)
  have z: "\<not> bit v m" if "64 - c \<le> m" for m
  proof (cases "hv = 0")
    case True
    then have "\<not> bit hv (m - 32)" by simp
    then show ?thesis using that True hi [of "m - 32"] bit_imp_le_length [of v m] by (auto simp: c_def hv_def)
  next
    case False
    then show ?thesis using that bit_imp_le_length [of v m] by (auto simp: c_def)
  qed
  have "w \<noteq> 0"
  proof
    assume "w = 0"
    then have "\<not> (m < 32 \<and> bit v (m + (32 - c)))" for m using w [of m] by simp
    moreover obtain m where m: "bit v m" using assms bit_eqI [of v 0] by auto
    moreover have "hv = 0" using \<open>w = 0\<close> by (auto simp: w_def split: if_splits)
    moreover have "m < 64 - c" using z m not_less by blast
    ultimately show False by (auto simp: c_def)
  qed
  have "zip_bitrev w \<noteq> 0"
  proof
    assume e: "zip_bitrev w = 0"
    obtain m where "bit w m" using \<open>w \<noteq> 0\<close> bit_eqI [of w 0] by auto
    moreover from this have m: "m < 32" using w by blast
    from m have "31 - m < 32" "31 - (31 - m) = m" by simp_all
    ultimately show False using bit_zip_bitrev [of "31 - m" w] e by simp
  qed
  then obtain n where n: "n < 32" "lowest (zip_bitrev w) n" using lowest_exists by blast
  have "cltz v = c + n"
    using cltz_lowest [OF n(2,1), of c] unfolding cltz_def Let_def hv_def [symmetric] by (auto simp: w_def c_def split: if_splits)
  moreover have "c \<le> 32" by (simp add: c_def)
  ultimately show "cltz v < 64" "highest v (63 - cltz v)"
  proof -
    have "bit v (63 - (c + n))"
      using bitrev_lowest(1) [OF n(2,1)] w [of "31 - n"] n(1) \<open>c \<le> 32\<close> by (simp add: algebra_simps)
    moreover have "\<not> bit v m" if "63 - (c + n) < m" for m
    proof (cases "64 - c \<le> m")
      case False
      then have "31 - n < m - (32 - c)" "m - (32 - c) < 32" "m - (32 - c) + (32 - c) = m" using that n(1) \<open>c \<le> 32\<close> by linarith+
      then show ?thesis using bitrev_lowest(2) [OF n(2,1)] w [of "m - (32 - c)"] by auto
    qed (rule z)
    ultimately show "highest v (63 - cltz v)" using \<open>cltz v = c + n\<close> by (simp add: bits_highest)
  qed (use n(1) \<open>c \<le> 32\<close> in simp)
qed

section \<open>The quotient\<close>

definition one_at :: "nat \<Rightarrow> u64" where
  "one_at j = push_bit j 1"

lemma one_at_facts:
  assumes "j < 64"
  shows "bit (one_at j) n \<longleftrightarrow> n = j" "unat (one_at j) = 2 ^ j"
proof -
  show "bit (one_at j) n \<longleftrightarrow> n = j"
    using assms by (auto simp: one_at_def bit_push_bit_iff bit_1_iff simp del: push_bit_of_1)
  have "(2 :: nat) ^ j < 2 ^ 64" using assms by (intro power_strict_increasing) simp_all
  then show "unat (one_at j) = 2 ^ j" using unat_push64 [of 1 j] by (simp add: one_at_def del: push_bit_of_1)
qed

lemma one_at_shift: "j < 64 \<Longrightarrow> drop_bit 1 (one_at j) = (case j of 0 \<Rightarrow> 0 | Suc k \<Rightarrow> one_at k)"
  by (rule bit_word_eqI) (auto simp: bit_drop_bit_eq one_at_facts split: nat.split)

lemma or_low_bit:
  assumes "unat r mod 2 ^ Suc j = 0" "j < 64"
  shows "unat (r OR one_at j) = unat r + 2 ^ j" "unat (r OR one_at j) mod 2 ^ j = 0"
proof -
  have "take_bit (Suc j) (unat r) = 0" using assms(1) by (simp only: take_bit_eq_mod)
  then have "take_bit (Suc j) r = 0" by (metis unsigned_take_bit_eq unsigned_eq_0_iff)
  then have "\<not> bit (take_bit (Suc j) r) j" by simp
  then have "\<not> bit r j" by (simp add: bit_take_bit_iff)
  then have "r AND one_at j = 0" using assms(2) by (intro bit_word_eqI) (auto simp: bit_and_iff one_at_facts)
  then have "r OR one_at j = r + one_at j" by (simp add: disjunctive_add_eq_or)
  moreover have "unat r + 2 ^ j < 2 ^ 64"
  proof -
    obtain q where q: "unat r = 2 ^ Suc j * q" using assms(1) by (auto simp: mod_eq_0_iff_dvd dvd_def)
    have p: "(2 :: nat) ^ 64 = 2 ^ Suc j * 2 ^ (64 - Suc j)" using assms(2) by (simp only: power_add [symmetric]) simp
    then have "2 ^ Suc j * q < 2 ^ Suc j * (2 :: nat) ^ (64 - Suc j)" using unat64 [of r] q by metis
    then have "q < 2 ^ (64 - Suc j)" by (simp only: mult_less_cancel1)
    then have "2 ^ Suc j * (q + 1) \<le> (2 :: nat) ^ Suc j * 2 ^ (64 - Suc j)" by (intro mult_le_mono2) simp
    moreover have "2 ^ Suc j * (q + 1) = unat r + 2 ^ Suc j" using q by (simp add: algebra_simps)
    moreover have "(2 :: nat) ^ j < 2 ^ Suc j" by simp
    ultimately show ?thesis unfolding p by linarith
  qed
  ultimately show "unat (r OR one_at j) = unat r + 2 ^ j" by (simp add: unat_word_ariths one_at_facts(2) [OF assms(2)])
  then show "unat (r OR one_at j) mod 2 ^ j = 0"
    using assms(1) by (auto simp: mod_eq_0_iff_dvd dvd_def)
qed

lemma udiv_step:
  assumes "unat b = B * 2 ^ j" "0 < B" "unat a < B * 2 ^ Suc j" "unat r mod 2 ^ Suc j = 0" "j < 64"
  shows "\<exists>a' r'. udiv_loop a b (one_at j) r = udiv_loop a' (drop_bit 1 b) (drop_bit 1 (one_at j)) r'
    \<and> unat r' + unat a' div B = unat r + unat a div B \<and> unat a' < B * 2 ^ j \<and> unat r' mod 2 ^ j = 0"
proof (cases "b \<le> a")
  case True
  have m: "0 < one_at j" using one_at_facts(2) [OF assms(5)] by (simp add: word_less_nat_alt)
  have a: "unat (a - b) = unat a - B * 2 ^ j" using True assms(1) by (simp add: unat_sub_if' word_le_nat_alt)
  have le: "B * 2 ^ j \<le> unat a" using True assms(1) by (simp add: word_le_nat_alt)
  have "unat a div B = (unat a - B * 2 ^ j + B * 2 ^ j) div B" using le by simp
  also have "\<dots> = 2 ^ j + (unat a - B * 2 ^ j) div B" using assms(2) by (simp only: div_mult_self2)
  finally have "unat (r OR one_at j) + unat (a - b) div B = unat r + unat a div B"
    using or_low_bit(1) [OF assms(4,5)] a by simp
  moreover have "unat (a - b) < B * 2 ^ j" using a le assms(3) by simp
  moreover have "udiv_loop a b (one_at j) r = udiv_loop (a - b) (drop_bit 1 b) (drop_bit 1 (one_at j)) (r OR one_at j)"
    using True m by (subst udiv_loop.simps) simp
  ultimately show ?thesis
    using or_low_bit(2) [OF assms(4,5)] by (intro exI [of _ "a - b"] exI [of _ "r OR one_at j"] conjI)
next
  case False
  have "0 < one_at j" using one_at_facts(2) [OF assms(5)] by (simp add: word_less_nat_alt)
  then have "udiv_loop a b (one_at j) r = udiv_loop a (drop_bit 1 b) (drop_bit 1 (one_at j)) r"
    using False by (subst udiv_loop.simps) simp
  moreover have "unat a < B * 2 ^ j" using False assms(1) by (simp add: word_le_nat_alt)
  moreover have "unat r mod 2 ^ j = 0" using assms(4) by (auto simp: mod_eq_0_iff_dvd dvd_def)
  ultimately show ?thesis by (intro exI [of _ a] exI [of _ r] conjI) simp_all
qed

lemma udiv_loop_quotient:
  assumes "unat b = B * 2 ^ j" "0 < B" "unat a < B * 2 ^ Suc j" "unat r mod 2 ^ Suc j = 0" "j < 64"
  shows "unat (udiv_loop a b (one_at j) r) = unat r + unat a div B"
  using assms
proof (induction j arbitrary: a b r)
  case 0
  obtain a' r' where s: "udiv_loop a b (one_at 0) r = udiv_loop a' (drop_bit 1 b) (drop_bit 1 (one_at 0)) r'"
    "unat r' + unat a' div B = unat r + unat a div B" "unat a' < B" using udiv_step [OF 0] by auto
  moreover have "udiv_loop a' (drop_bit 1 b) 0 r' = r'" by (subst udiv_loop.simps) simp
  moreover have z: "drop_bit 1 (one_at 0) = 0" using one_at_shift [of 0] by (simp del: One_nat_def)
  ultimately show ?case by (simp del: One_nat_def)
next
  case (Suc j)
  obtain a' r' where s: "udiv_loop a b (one_at (Suc j)) r = udiv_loop a' (drop_bit 1 b) (one_at j) r'"
    "unat r' + unat a' div B = unat r + unat a div B" "unat a' < B * 2 ^ Suc j" "unat r' mod 2 ^ Suc j = 0"
    using udiv_step [OF Suc.prems] one_at_shift [OF Suc.prems(5)] by (auto simp del: One_nat_def)
  have "unat (drop_bit 1 b) = B * 2 ^ j" using Suc.prems(1) by (simp add: unat_drop64)
  from Suc.IH [OF this Suc.prems(2) s(3,4)] Suc.prems(5) s(1,2) show ?case by simp
qed

lemma highest_le:
  assumes "highest a ha" "highest b hb" "b \<le> a"
  shows "hb \<le> ha"
proof (rule ccontr)
  assume "\<not> hb \<le> ha"
  then have "(2 :: nat) ^ Suc ha \<le> 2 ^ hb" by (intro power_increasing) simp_all
  then show False using assms by (simp add: highest_def word_le_nat_alt)
qed

lemma cltz_shift:
  assumes "highest v (63 - c)" "c < 64" "k \<le> c"
  shows "unat (push_bit k v) = unat v * 2 ^ k" "unat v * 2 ^ c < 2 ^ 64" "2 ^ 63 \<le> unat v * 2 ^ c"
proof -
  have e: "Suc (63 - c) + c = 64" "63 - c + c = 63" using assms(2) by simp_all
  have "unat v * 2 ^ c < 2 ^ Suc (63 - c) * 2 ^ c" using assms(1) by (simp add: highest_def)
  then show c: "unat v * 2 ^ c < 2 ^ 64" by (simp only: power_add [symmetric] e)
  have "2 ^ (63 - c) * 2 ^ c \<le> unat v * 2 ^ c" using assms(1) by (simp add: highest_def)
  then show "2 ^ 63 \<le> unat v * 2 ^ c" by (simp only: power_add [symmetric] e)
  have "(2 :: nat) ^ k \<le> 2 ^ c" using assms(3) by (simp add: power_increasing)
  then have "unat v * 2 ^ k \<le> unat v * 2 ^ c" by simp
  then show "unat (push_bit k v) = unat v * 2 ^ k" using c by (intro unat_push64) (rule le_less_trans)
qed

lemma unat_low32: "unat (ucast x :: u32) = unat x mod 2 ^ 32" for x :: u64
  by (simp add: unsigned_ucast_eq take_bit_eq_mod)

lemma unat_wide: "unat (ucast y :: u64) = unat y" for y :: u32
proof -
  have "unat y < 2 ^ 64" using unat_bound [of y] by simp
  then show ?thesis by (simp add: unsigned_ucast_eq take_bit_nat_eq_self)
qed

lemma udiv32_wide:
  "ib \<noteq> 0 \<Longrightarrow> map_option ucast (udiv32 ia ib) = Some (q :: u64) \<longleftrightarrow> unat q = unat ia div unat ib"
  by (auto simp: udiv32_def unat_wide unat_div word_unat_eq_iff)

lemma unat_div64: "unat (a div b) = unat a div unat b" for a b :: u64
  by (simp add: unat_div)

lemma unat_mod64: "unat (a mod b) = unat a mod unat b" for a b :: u64
  by (simp add: unat_mod)

text \<open>The operands scaled so that the leading one of the dividend is at the top.\<close>

lemma udiv_scaled:
  fixes a b :: u64
  assumes "b \<noteq> 0" "b \<le> a"
  defines "la \<equiv> cltz a" and "lb \<equiv> cltz b"
  shows "la \<le> lb" "lb < 64" "unat (push_bit la a) = unat a * 2 ^ la" "unat (push_bit la b) = unat b * 2 ^ la"
    "unat (push_bit lb b) = unat b * 2 ^ lb" "2 ^ 63 \<le> unat b * 2 ^ lb" "unat a * 2 ^ la < 2 ^ 64"
proof -
  have a: "a \<noteq> 0"
  proof
    assume "a = 0"
    then have "b = 0" using assms(2) by simp
    then show False using assms(1) by simp
  qed
  note ha = cltz_highest [OF a] and hb = cltz_highest [OF assms(1)]
  have le: "63 - lb \<le> 63 - la" using highest_le [OF ha(2) hb(2) assms(2)] by (simp add: la_def lb_def)
  then show l: "la \<le> lb" using ha(1) hb(1) by (simp add: la_def lb_def)
  show "lb < 64" using hb(1) by (simp add: lb_def)
  show "unat (push_bit la a) = unat a * 2 ^ la" "unat a * 2 ^ la < 2 ^ 64"
    using cltz_shift [OF ha(2,1) order_refl] by (simp_all add: la_def)
  show "unat (push_bit la b) = unat b * 2 ^ la" "unat (push_bit lb b) = unat b * 2 ^ lb" "2 ^ 63 \<le> unat b * 2 ^ lb"
    using cltz_shift [OF hb(2,1)] l by (simp_all add: la_def lb_def)
qed

lemma div_high:
  fixes x y :: nat
  assumes "y mod 2 ^ 32 = 0" "0 < y"
  shows "x div y = (x div 2 ^ 32) div (y div 2 ^ 32)"
proof -
  obtain z where z: "y = 2 ^ 32 * z" using assms(1) by (auto simp: mod_eq_0_iff_dvd dvd_def)
  then show ?thesis by (simp add: div_mult2_eq)
qed

lemma udivdi3_small:
  assumes "b \<noteq> 0" "b \<le> a" "drop_bit 32 b = 0" "drop_bit 32 a = 0"
  shows "udivdi3 a b = Some (a div b)"
proof -
  have "unat a div 2 ^ 32 = 0" "unat b div 2 ^ 32 = 0" using assms(3,4) unat_drop64 [of 32 a] unat_drop64 [of 32 b] by (metis unsigned_0)+
  then have l: "unat a < 2 ^ 32" "unat b < 2 ^ 32" by (simp_all add: div_eq_0_iff)
  then have u: "unat (ucast a :: u32) = unat a" "unat (ucast b :: u32) = unat b" by (simp_all add: unat_low32)
  have "(ucast b :: u32) \<noteq> 0" using u(2) assms(1) by (metis unat_eq_0 unsigned_0)
  then have "map_option ucast (udiv32 (ucast a) (ucast b)) = Some (a div b)"
    unfolding udiv32_wide [OF \<open>ucast b \<noteq> 0\<close>] by (simp add: u unat_div64)
  moreover have "\<not> a < b" using assms(2) by simp
  ultimately show ?thesis using assms(3,4) by (simp add: udivdi3_def)
qed

text \<open>When the scaled divisor has no lower half, the quotient is that of the upper halves.\<close>

lemma high_quotient:
  fixes x y :: u64
  assumes "unat x div unat y = unat (a div b :: u64)" "unat y \<noteq> 0" "y AND 0xffffffff = 0"
  shows "map_option ucast (udiv32 (ucast (drop_bit 32 x)) (ucast (drop_bit 32 y))) = Some (a div b :: u64)"
proof -
  have "unat (y AND 0xffffffff) = unat y mod 2 ^ 32"
  proof -
    have e: "(0xffffffff :: u64) = mask 32" by (simp add: mask_eq_exp_minus_1)
    show ?thesis unfolding e take_bit_eq_mask [symmetric]
      by (simp only: unsigned_take_bit_eq) (simp only: take_bit_eq_mod)
  qed
  then have y: "unat y mod 2 ^ 32 = 0" "0 < unat y" using assms(2,3) by (simp_all only:) simp_all
  have h: "unat (ucast (drop_bit 32 z) :: u32) = unat z div 2 ^ 32" for z :: u64
  proof -
    have "unat z div 2 ^ 32 < 2 ^ 32" using unat64 [of z] by (intro less_mult_imp_div_less) simp
    then show ?thesis by (simp only: unat_low32 unat_drop64) simp
  qed
  have "unat y div 2 ^ 32 \<noteq> 0"
  proof
    assume "unat y div 2 ^ 32 = 0"
    then have "unat y < 2 ^ 32" by (simp add: div_eq_0_iff)
    then show False using y by simp
  qed
  then have nz: "(ucast (drop_bit 32 y) :: u32) \<noteq> 0" using h [of y] by (metis unsigned_0)
  have "unat (a div b) = unat (ucast (drop_bit 32 x) :: u32) div unat (ucast (drop_bit 32 y) :: u32)"
    unfolding assms(1) [symmetric] h by (rule div_high [OF y])
  then show ?thesis unfolding udiv32_wide [OF nz] by simp
qed

lemma long_quotient:
  assumes "b \<noteq> 0" "b \<le> a"
  shows "udiv_loop (push_bit (cltz a) a) (push_bit (cltz b) b) (push_bit (cltz b - cltz a) 1) 0 = a div b"
proof -
  define la lb where "la = cltz a" and "lb = cltz b"
  note sc = udiv_scaled [OF assms, folded la_def lb_def]
  have b0: "0 < unat b" using assms(1) by (simp add: unat_gt_0)
  let ?B = "unat b * 2 ^ la" and ?k = "lb - la"
  have b: "unat (push_bit lb b) = ?B * 2 ^ ?k"
  proof -
    have "(2 :: nat) ^ la * 2 ^ ?k = 2 ^ lb" using sc(1) by (simp only: power_add [symmetric]) simp
    then show ?thesis unfolding sc(5) by (metis mult.assoc)
  qed
  have "unat (push_bit la a) < ?B * 2 ^ Suc ?k"
  proof -
    have "(2 :: nat) ^ 64 = 2 * 2 ^ 63" by simp
    then have "unat a * 2 ^ la < 2 * (unat b * 2 ^ lb)" using sc(6,7) by linarith
    moreover have "?B * 2 ^ Suc ?k = 2 * (unat b * 2 ^ lb)" using b sc(5) by (simp only: power_Suc)
    ultimately show ?thesis using sc(3) by (simp only:)
  qed
  from udiv_loop_quotient [OF b _ this, of 0] b0 sc(2)
  have "unat (udiv_loop (push_bit la a) (push_bit lb b) (one_at ?k) 0) = unat (push_bit la a) div ?B" by simp
  also have "\<dots> = unat (a div b)" by (simp add: sc(3) unat_div64)
  finally show ?thesis unfolding la_def lb_def by (simp only: one_at_def word_unat_eq_iff)
qed

lemma udivdi3_correct:
  assumes "b \<noteq> 0"
  shows "udivdi3 a b = Some (a div b)"
proof (cases "a < b")
  case True
  then have "unat (a div b) = 0" by (simp add: unat_div64 word_less_nat_alt)
  then have "a div b = 0" by (simp only: unat_eq_0)
  then show ?thesis using True by (simp add: udivdi3_def)
next
  case ge: False
  then have ba: "b \<le> a" by simp
  note sc = udiv_scaled [OF assms ba]
  consider (small) "drop_bit 32 b = 0 \<and> drop_bit 32 a = 0"
    | (high) "\<not> (drop_bit 32 b = 0 \<and> drop_bit 32 a = 0)"
        "int (cltz b) - int (cltz a) < 32 \<and> push_bit (cltz a) b AND 0xffffffff = 0"
    | (long) "\<not> (drop_bit 32 b = 0 \<and> drop_bit 32 a = 0)"
        "\<not> (int (cltz b) - int (cltz a) < 32 \<and> push_bit (cltz a) b AND 0xffffffff = 0)"
    by blast
  then show ?thesis
  proof cases
    case small
    then show ?thesis using udivdi3_small [OF assms ba] by blast
  next
    case high
    have "unat (push_bit (cltz a) a) div unat (push_bit (cltz a) b) = unat (a div b)" by (simp add: unat_div64 sc(3,4))
    moreover have "unat (push_bit (cltz a) b) \<noteq> 0" using assms by (simp add: sc(4) unat_eq_0)
    ultimately have "map_option ucast (udiv32 (ucast (drop_bit 32 (push_bit (cltz a) a))) (ucast (drop_bit 32 (push_bit (cltz a) b))))
        = Some (a div b)" using high(2) by (intro high_quotient) simp_all
    then show ?thesis unfolding udivdi3_def Let_def if_not_P [OF ge] if_not_P [OF high(1)] if_P [OF high(2)] .
  next
    case long
    then show ?thesis
      unfolding udivdi3_def Let_def if_not_P [OF ge] if_not_P [OF long(1)] if_not_P [OF long(2)] by (simp only: long_quotient [OF assms ba])
  qed
qed

text \<open>C34: the software quotient of two unsigned 64-bit integers is their quotient, rounded down, for
  every dividend and every divisor but zero: on the short paths through the hardware's 32-bit
  division and on the long one through shifts and subtractions.\<close>

theorem udivdi3_div:
  assumes "b \<noteq> 0"
  shows "udivdi3 a b = Some (a div b)"
  using assms by (rule udivdi3_correct)

theorem udivdi3_div_witness: "udivdi3 0x123456789abcdef 0x1234567 = Some 0x100000079"
proof -
  have e: "(0x123456789abcdef :: u64) div 0x1234567 = 0x100000079" by (simp add: word_unat_eq_iff unat_div64)
  show ?thesis using udivdi3_div [of "0x1234567" "0x123456789abcdef"] unfolding e by simp
qed

text \<open>the software remainder of two unsigned 64-bit integers is their remainder, for every
  dividend and every divisor but zero.\<close>

theorem umoddi3_mod:
  assumes "b \<noteq> 0"
  shows "umoddi3 a b = Some (a mod b)"
  using assms by (simp add: umoddi3_def udivdi3_correct minus_div_mult_eq_mod)

theorem umoddi3_mod_witness: "umoddi3 0x123456789abcdef 0x1234567 = Some 0x40"
proof -
  have e: "(0x123456789abcdef :: u64) mod 0x1234567 = 0x40" by (simp add: word_unat_eq_iff unat_mod64)
  show ?thesis using umoddi3_mod [of "0x1234567" "0x123456789abcdef"] unfolding e by simp
qed

section \<open>Signed division\<close>

lemma word_of_unat: "int (unat w) = n \<Longrightarrow> w = word_of_int n"
  by auto

lemma abs_operand: "int (unat (if sint x < 0 then - x else x)) = \<bar>sint x\<bar>" for x :: u64
proof -
  have b: "- (2 ^ 63) \<le> sint x" "sint x < 2 ^ 63" using sint_greater_eq [of x] sint_less [of x] by simp_all
  have "int (unat w) = n" if "w = word_of_int n" "0 \<le> n" "n < 2 ^ 64" for w :: u64 and n
    using that by (simp add: uint_word_of_int)
  from this [of x "sint x"] this [of "- x" "- sint x"] b show ?thesis by auto
qed

text \<open>the software quotient of two signed 64-bit integers is the quotient rounded towards zero,
  as C has it, for every sign of the operands and every divisor but zero; the one quotient that does
  not fit, of the least integer by minus one, wraps.\<close>

theorem divdi3_div:
  assumes "b \<noteq> 0"
  shows "divdi3 a b = Some (word_of_int (sint a sdiv sint b))"
proof -
  define a' b' where "a' = (if sint a < 0 then - a else a)" and "b' = (if sint b < 0 then - b else b)"
  have "b' \<noteq> 0" using assms by (simp add: b'_def)
  then have d: "divdi3 a b = Some (if (sint a < 0) \<noteq> (sint b < 0) then - (a' div b') else a' div b')"
    using udivdi3_correct [of b' a'] unfolding a'_def b'_def divdi3_def by (auto simp: Let_def)
  have "int (unat (a' div b')) = \<bar>sint a\<bar> div \<bar>sint b\<bar>"
    by (simp only: unat_div64 zdiv_int a'_def b'_def abs_operand)
  then have q: "a' div b' = word_of_int (\<bar>sint a\<bar> div \<bar>sint b\<bar>)"
    by (rule word_of_unat)
  have "sint b \<noteq> 0" using assms by (metis signed_0 signed_word_eqI)
  then have "sint a sdiv sint b = (if (sint a < 0) \<noteq> (sint b < 0) then - (\<bar>sint a\<bar> div \<bar>sint b\<bar>) else \<bar>sint a\<bar> div \<bar>sint b\<bar>)"
    by (auto simp: signed_divide_int_def sgn_if)
  then show ?thesis unfolding d q by (simp add: word_of_int_minus)
qed

theorem divdi3_div_witness: "divdi3 (- 7) 2 = Some (- 3)"
proof -
  have "sint (- 7 :: u64) = - 7" "sint (2 :: u64) = 2" by simp_all
  then show ?thesis using divdi3_div [of 2 "- 7"] by (simp add: signed_divide_int_def)
qed

section \<open>Division by zero\<close>

text \<open>Only small dividends reach the trap of the hardware: a dividend of more than 32 bits goes down the
  long path, where every subtraction of zero succeeds.\<close>

lemma udivdi3_zero_small: "drop_bit 32 a = 0 \<Longrightarrow> udivdi3 a 0 = None"
  by (simp add: udivdi3_def udiv32_def)

lemma udivdi3_zero_large: "udivdi3 0x8000000000000000 0 = Some 0xffffffffffffffff"
  by code_simp

end
