(* ===== verification/TbClock.thy ===== *)
theory TbClock
  imports Prelude
begin

text \<open>
  The simulation clock \<open>TBCLOCK\<close> of \<open>sim/verilated/tbclock.h\<close>: picosecond counters, a
  positive edge every \<open>2 * m_increment_ps\<close> and a negative edge halfway.  The counters
  are naturals: the \<open>unsigned long\<close> of the source wraps after 2^64 ps, some 213 days of
  simulated time.
\<close>

record tbclock =
  m_increment_ps :: nat
  m_now_ps :: nat
  m_last_posedge_ps :: nat
  m_ticks :: nat

definition tbclock_set_interval_ps :: "nat \<Rightarrow> tbclock \<Rightarrow> fault + tbclock" where
  "tbclock_set_interval_ps interval c =
     (let c = c\<lparr>m_increment_ps := interval div 2\<rparr>
      in c_assert (0 < m_increment_ps c) (Inr c))"

text \<open>\<open>init\<close> leaves the tick counter as it is.\<close>

definition tbclock_init :: "nat \<Rightarrow> tbclock \<Rightarrow> fault + tbclock" where
  "tbclock_init interval c =
     rbind (tbclock_set_interval_ps interval c) (\<lambda>c.
       Inr (c\<lparr>m_now_ps := m_increment_ps c + 1, m_last_posedge_ps := 0\<rparr>))"

definition tbclock_default :: tbclock where
  "tbclock_default = \<lparr>m_increment_ps = 10000, m_now_ps = 10001, m_last_posedge_ps = 0, m_ticks = 0\<rparr>"

definition tbclock_time_to_edge :: "tbclock \<Rightarrow> fault + nat" where
  "tbclock_time_to_edge c =
     (if m_now_ps c < m_last_posedge_ps c then Inl Assertion
      else if m_now_ps c < m_last_posedge_ps c + m_increment_ps c
      then Inr (m_last_posedge_ps c + m_increment_ps c - m_now_ps c)
      else if m_now_ps c < m_last_posedge_ps c + 2 * m_increment_ps c
      then Inr (m_last_posedge_ps c + 2 * m_increment_ps c - m_now_ps c)
      else Inl Assertion)"

definition tbclock_advance :: "tbclock \<Rightarrow> nat \<Rightarrow> fault + tbclock \<times> nat" where
  "tbclock_advance c itime =
     c_assert (itime \<le> m_increment_ps c)
       (let c = c\<lparr>m_now_ps := m_now_ps c + itime\<rparr>
        in if m_last_posedge_ps c + 2 * m_increment_ps c \<le> m_now_ps c
           then Inr (c\<lparr>m_last_posedge_ps := m_last_posedge_ps c + 2 * m_increment_ps c,
                       m_ticks := m_ticks c + 1\<rparr>, 1)
           else if m_last_posedge_ps c + m_increment_ps c \<le> m_now_ps c
           then Inr (c, 0)
           else Inr (c, 1))"

definition tbclock_rising_edge :: "tbclock \<Rightarrow> bool" where
  "tbclock_rising_edge c \<longleftrightarrow> m_now_ps c = m_last_posedge_ps c"

definition tbclock_falling_edge :: "tbclock \<Rightarrow> bool" where
  "tbclock_falling_edge c \<longleftrightarrow> m_now_ps c = m_last_posedge_ps c + m_increment_ps c"

section \<open>The clock never loses an edge\<close>

definition tbclock_inv :: "tbclock \<Rightarrow> bool" where
  "tbclock_inv c \<longleftrightarrow> 0 < m_increment_ps c \<and> m_last_posedge_ps c \<le> m_now_ps c
     \<and> m_now_ps c < m_last_posedge_ps c + 2 * m_increment_ps c"

lemma tbclock_init_inv: "tbclock_init interval c = Inr c' \<Longrightarrow> 3 < interval \<Longrightarrow> tbclock_inv c'"
  by (auto simp: tbclock_init_def tbclock_set_interval_ps_def tbclock_inv_def Let_def)

lemma tbclock_advance_inv:
  "tbclock_inv c \<Longrightarrow> tbclock_advance c itime = Inr (c', v) \<Longrightarrow> tbclock_inv c'"
  by (auto simp: tbclock_advance_def tbclock_inv_def Let_def split: if_splits)

lemma tbclock_advance_returns:
  "itime \<le> m_increment_ps c \<Longrightarrow> \<exists>c' v. tbclock_advance c itime = Inr (c', v)"
  by (auto simp: tbclock_advance_def Let_def)

lemma tbclock_advance_increment:
  "tbclock_advance c itime = Inr (c', v) \<Longrightarrow> m_increment_ps c' = m_increment_ps c"
  by (auto simp: tbclock_advance_def Let_def split: if_splits)

text \<open>The step to the next edge, as the test bench takes it.\<close>

definition tbclock_next_edge :: "tbclock \<Rightarrow> unit \<Rightarrow> fault + tbclock \<times> nat" where
  "tbclock_next_edge c u = rbind (tbclock_time_to_edge c) (tbclock_advance c)"

interpretation tbclock: step_total tbclock_next_edge tbclock_inv "\<lambda>_. True"
proof
  fix s :: tbclock and i s' x
  assume "tbclock_inv s" "tbclock_next_edge s i = Inr (s', x)"
  then show "tbclock_inv s'"
    by (auto simp: tbclock_next_edge_def dest: tbclock_advance_inv)
next
  fix s :: tbclock and i
  assume "tbclock_inv s"
  then show "\<exists>s' x. tbclock_next_edge s i = Inr (s', x)"
    by (auto simp: tbclock_next_edge_def tbclock_inv_def tbclock_time_to_edge_def
        tbclock_advance_def Let_def)
qed

text \<open>
  from any consistent clock, walking from edge to edge never trips an assertion and
  keeps the clock consistent, for any number of edges.
\<close>

theorem tbclock_edges_never_lost:
  assumes "tbclock_inv c"
  shows "\<exists>c' vs. run tbclock_next_edge c (replicate n ()) = Inr (c', vs) \<and> tbclock_inv c'"
  using assms by (intro tbclock.run_returns) (simp_all add: list_all_iff)

theorem tbclock_edges_never_lost_witness:
  "tbclock_inv tbclock_default \<and>
   (\<exists>c' vs. run tbclock_next_edge tbclock_default (replicate 5 ()) = Inr (c', vs) \<and> tbclock_inv c')"
proof -
  have h: "tbclock_inv tbclock_default" by (simp add: tbclock_inv_def tbclock_default_def)
  show ?thesis using h tbclock_edges_never_lost [OF h, of 5] by blast
qed

lemma tbclock_next_edge_rising:
  assumes "0 < m_increment_ps c" "tbclock_rising_edge c"
  shows "tbclock_next_edge c u = Inr (c\<lparr>m_now_ps := m_now_ps c + m_increment_ps c\<rparr>, 0)"
  using assms
  by (simp add: tbclock_next_edge_def tbclock_rising_edge_def tbclock_time_to_edge_def
      tbclock_advance_def Let_def)

lemma tbclock_next_edge_falling:
  assumes "0 < m_increment_ps c" "tbclock_falling_edge c"
  shows "tbclock_next_edge c u = Inr (c\<lparr>m_now_ps := m_now_ps c + m_increment_ps c,
    m_last_posedge_ps := m_now_ps c + m_increment_ps c, m_ticks := m_ticks c + 1\<rparr>, 1)"
  using assms
  by (simp add: tbclock_next_edge_def tbclock_falling_edge_def tbclock_time_to_edge_def
      tbclock_advance_def Let_def algebra_simps)

text \<open>
  starting on a positive edge, \<open>2 * n\<close> edges take exactly \<open>n\<close> periods: the output
  alternates 0, 1, the tick counter grows by \<open>n\<close>, time by \<open>n\<close> periods, and the clock is
  on a positive edge again.
\<close>

theorem tbclock_period:
  assumes "0 < m_increment_ps c" "tbclock_rising_edge c"
  shows "run tbclock_next_edge c (replicate (2 * n) ()) =
    Inr (c\<lparr>m_now_ps := m_now_ps c + n * (2 * m_increment_ps c),
           m_last_posedge_ps := m_now_ps c + n * (2 * m_increment_ps c),
           m_ticks := m_ticks c + n\<rparr>,
         concat (replicate n [0, 1]))"
  using assms
proof (induction n arbitrary: c)
  case 0
  then show ?case by (simp add: tbclock_rising_edge_def)
next
  case (Suc n)
  let ?c1 = "c\<lparr>m_now_ps := m_now_ps c + m_increment_ps c\<rparr>"
  let ?c2 = "?c1\<lparr>m_now_ps := m_now_ps c + 2 * m_increment_ps c,
    m_last_posedge_ps := m_now_ps c + 2 * m_increment_ps c, m_ticks := m_ticks c + 1\<rparr>"
  have "tbclock_next_edge c () = Inr (?c1, 0)"
    using Suc.prems by (rule tbclock_next_edge_rising)
  moreover have "tbclock_next_edge ?c1 () = Inr (?c2, 1)"
    using Suc.prems tbclock_next_edge_falling [of ?c1 "()"]
    by (simp add: tbclock_rising_edge_def tbclock_falling_edge_def algebra_simps)
  moreover have "tbclock_rising_edge ?c2" by (simp add: tbclock_rising_edge_def)
  ultimately show ?case
    using Suc.prems Suc.IH [of ?c2] by (simp add: algebra_simps)
qed

theorem tbclock_period_witness:
  "run tbclock_next_edge \<lparr>m_increment_ps = 5, m_now_ps = 20, m_last_posedge_ps = 20, m_ticks = 2\<rparr>
      (replicate (2 * 3) ()) =
   Inr (\<lparr>m_increment_ps = 5, m_now_ps = 50, m_last_posedge_ps = 50, m_ticks = 5\<rparr>, [0, 1, 0, 1, 0, 1])"
  using tbclock_period [of "\<lparr>m_increment_ps = 5, m_now_ps = 20, m_last_posedge_ps = 20, m_ticks = 2\<rparr>" 3]
  by (simp add: tbclock_rising_edge_def numeral_eq_Suc)

end
