(* ===== verification/FlashSim.thy ===== *)
theory FlashSim
  imports Prelude
begin

text \<open>
  The simulated QSPI flash device, class \<open>FLASHSIM\<close> of \<open>sim/verilated/flashsim.cpp\<close> and
  \<open>flashsim.h\<close>: its state, its constructor and load functions, the pin-level tick
  \<open>operator()\<close> and the clock-and-delay wrapper \<open>simtick\<close>.

  The memory is a function from 32-bit addresses; only addresses below \<open>m_membytes\<close> belong
  to the allocated buffer, and an access elsewhere is the fault \<open>OutOfBounds\<close>.  The tick is
  split as the source's comments split it: the write/erase timer, the reaction to a raised
  chip select, the output pins, the input shift, the quad/dual idle states, the command byte
  and the bytes that follow a command.  The debugging printouts are not modelled.
\<close>

datatype qspif_state =
    QSPIF_IDLE | QSPIF_QUAD_READ_IDLE | QSPIF_RDSR | QSPIF_RDCR | QSPIF_WRSR | QSPIF_CLSR
  | QSPIF_RDID | QSPIF_RELEASE | QSPIF_SLOW_READ | QSPIF_FAST_READ | QSPIF_QUAD_READ_CMD
  | QSPIF_QUAD_READ | QSPIF_SECTOR_ERASE | QSPIF_PP | QSPIF_QPP | QSPIF_BULK_ERASE
  | QSPIF_DEEP_POWER_DOWN | QSPIF_DUAL_READ_IDLE | QSPIF_DUAL_READ_CMD | QSPIF_DUAL_READ
  | QSPIF_INVALID

datatype flash_mode = FM_SPI | FM_DSPI | FM_QSPI

record flash =
  m_state :: qspif_state
  m_mem :: "u32 \<Rightarrow> u8"
  m_pmem :: "u32 \<Rightarrow> u8"
  m_last_sck :: int
  m_write_count :: u32
  m_ireg :: u32
  m_oreg :: u32
  m_sreg :: u32
  m_addr :: u32
  m_count :: u32
  m_config :: u32
  m_mode_byte :: u32
  m_creg :: u32
  m_membytes :: u32
  m_memmask :: u32
  m_debug :: bool
  m_idle_throttle :: bool
  m_mode :: flash_mode
  CKDELAY :: nat
  RDDELAY :: nat
  NDUMMY :: u32
  m_ckdelay :: "u32 list option"
  m_rddelay :: "u32 list option"

abbreviation (input) QSPIF_WIP_FLAG :: u32 where "QSPIF_WIP_FLAG \<equiv> 0x0001"
abbreviation (input) QSPIF_WEL_FLAG :: u32 where "QSPIF_WEL_FLAG \<equiv> 0x0002"
abbreviation (input) QSPIF_DEEP_POWER_DOWN_FLAG :: u32 where "QSPIF_DEEP_POWER_DOWN_FLAG \<equiv> 0x0200"

section \<open>Constants\<close>

definition DEVID :: u32 where "DEVID = 0x01152340"
definition DEVESD :: u32 where "DEVESD = 0x014"
definition CLKRATE_HZ :: u32 where "CLKRATE_HZ = 100000000"
definition MICROSECONDS :: u32 where "MICROSECONDS = (CLKRATE_HZ + 1) div 1000000"
definition MILLISECONDS :: u32 where "MILLISECONDS = (CLKRATE_HZ + 1) div 1000"
definition SECONDS :: u32 where "SECONDS = CLKRATE_HZ"
definition tW :: u32 where "tW = 50 * MICROSECONDS"
definition tBE :: u32 where "tBE = 32 * SECONDS"
definition tDP :: u32 where "tDP = 10 * SECONDS"
definition tRES :: u32 where "tRES = 30 * SECONDS"
definition tPP :: u32 where "tPP = 12 * MICROSECONDS"
definition tSE :: u32 where "tSE = 15 * MILLISECONDS"

lemmas flash_times = tW_def tBE_def tDP_def tRES_def tPP_def tSE_def MICROSECONDS_def
  MILLISECONDS_def SECONDS_def CLKRATE_HZ_def

section \<open>Construction and loading\<close>

text \<open>
  The constructor writes into raw storage \<open>u\<close>: what it does not initialise (\<open>m_addr\<close>,
  \<open>m_count\<close>, \<open>m_config\<close>, the page buffer) keeps the indeterminate contents of \<open>u\<close>.
\<close>

definition flash_new :: "flash \<Rightarrow> nat \<Rightarrow> bool \<Rightarrow> nat \<Rightarrow> u32 \<Rightarrow> flash" where
  "flash_new u lglen debug rddelay ndummy =
     u\<lparr>m_debug := debug, CKDELAY := 0, RDDELAY := rddelay, NDUMMY := ndummy,
       m_membytes := push_bit lglen 1, m_memmask := push_bit lglen 1 - 1,
       m_state := QSPIF_IDLE, m_last_sck := 1, m_write_count := 0, m_ireg := 0, m_oreg := 0,
       m_sreg := 0x01c, m_creg := 0x001, m_mode := FM_SPI, m_mode_byte := 0,
       m_idle_throttle := False, m_rddelay := None, m_ckdelay := None,
       m_mem := (\<lambda>_. 0xff)\<rparr>"

text \<open>
  Loading a file at an address: \<open>None\<close> is a file that cannot be opened, \<open>Some bs\<close> its
  contents, of which \<open>fread\<close> takes what fits.  The closing loop runs from \<open>nr\<close>, the number
  of bytes read, and not from the address of the last byte read.
\<close>

definition flash_load_file :: "flash \<Rightarrow> u32 \<Rightarrow> u8 list option \<Rightarrow> flash" where
  "flash_load_file s addr file =
     (if m_membytes s \<le> addr then s
      else let len = unat (m_membytes s - addr);
               bs = (case file of None \<Rightarrow> [] | Some bs \<Rightarrow> take len bs);
               nr = length bs;
               mem = (\<lambda>a. if addr \<le> a \<and> unat (a - addr) < nr then bs ! unat (a - addr)
                          else m_mem s a)
           in s\<lparr>m_mem := (\<lambda>a. if nr \<le> unat a \<and> a < m_membytes s then 0xff else mem a)\<rparr>)"

definition flash_load_data :: "flash \<Rightarrow> u32 \<Rightarrow> u8 list \<Rightarrow> fault + flash" where
  "flash_load_data s offset bs =
     (let moff = offset AND m_memmask s
      in in_bounds (unat moff + length bs \<le> unat (m_membytes s))
           (Inr (s\<lparr>m_mem := (\<lambda>a. if moff \<le> a \<and> unat (a - moff) < length bs
                                then bs ! unat (a - moff) else m_mem s a)\<rparr>)))"

definition flash_deep_sleep :: "flash \<Rightarrow> bool" where
  "flash_deep_sleep s \<longleftrightarrow> m_sreg s AND QSPIF_DEEP_POWER_DOWN_FLAG \<noteq> 0"

definition flash_set_deep_sleep :: "flash \<Rightarrow> bool \<Rightarrow> flash \<times> bool" where
  "flash_set_deep_sleep s newval =
     (let s = (if newval then s\<lparr>m_sreg := m_sreg s OR QSPIF_DEEP_POWER_DOWN_FLAG\<rparr>
               else s\<lparr>m_sreg := m_sreg s AND NOT QSPIF_DEEP_POWER_DOWN_FLAG\<rparr>)
      in (s, flash_deep_sleep s))"

text \<open>The inline queries of the class.  \<open>write_in_progress\<close> is an OR, as written.\<close>

definition flash_write_protect :: "flash \<Rightarrow> bool" where
  "flash_write_protect s \<longleftrightarrow> m_sreg s AND QSPIF_WEL_FLAG = 0"

definition flash_write_in_progress :: "flash \<Rightarrow> bool" where
  "flash_write_in_progress s \<longleftrightarrow> m_sreg s OR QSPIF_WIP_FLAG \<noteq> 0"

definition flash_xip_mode :: "flash \<Rightarrow> bool" where
  "flash_xip_mode s \<longleftrightarrow> m_state s = QSPIF_QUAD_READ_IDLE"

definition flash_dual_mode :: "flash \<Rightarrow> bool" where
  "flash_dual_mode s \<longleftrightarrow> m_mode s = FM_DSPI"

definition flash_quad_mode :: "flash \<Rightarrow> bool" where
  "flash_quad_mode s \<longleftrightarrow> m_mode s = FM_QSPI"

definition flash_get_word :: "flash \<Rightarrow> u32 \<Rightarrow> fault + u32" where
  "flash_get_word s index =
     (let p = push_bit 2 index
      in in_bounds (unat p + 3 < unat (m_membytes s))
        (let v = ucast (m_mem s p);
             v = push_bit 8 v OR ucast (m_mem s (p + 1));
             v = push_bit 8 v OR ucast (m_mem s (p + 2));
             v = push_bit 8 v OR ucast (m_mem s (p + 3))
         in Inr v))"

definition flash_set_word :: "flash \<Rightarrow> u32 \<Rightarrow> u32 \<Rightarrow> fault + flash" where
  "flash_set_word s addr val =
     (let p = push_bit 2 addr
      in in_bounds (unat p + 3 < unat (m_membytes s))
        (Inr (s\<lparr>m_mem := (m_mem s)(p := ucast (drop_bit 24 val), p + 1 := ucast (drop_bit 16 val),
                                 p + 2 := ucast (drop_bit 8 val), p + 3 := ucast val)\<rparr>)))"

section \<open>One tick\<close>

subsection \<open>The write timer, the pins, the shift register\<close>

definition QOREG :: "u32 \<Rightarrow> flash \<Rightarrow> flash" where
  "QOREG a s = s\<lparr>m_oreg := (m_oreg s AND NOT 0xff) OR (a AND 0xff)\<rparr>"

definition flash_timer :: "flash \<Rightarrow> flash" where
  "flash_timer s =
     (if 0 < m_write_count s
      then let s = s\<lparr>m_write_count := m_write_count s - 1\<rparr>
           in if m_write_count s = 0 then s\<lparr>m_sreg := m_sreg s AND 0xfc\<rparr> else s
      else s)"

definition flash_out :: "flash \<Rightarrow> u32 \<Rightarrow> u32" where
  "flash_out s dat =
     (case m_mode s of
        FM_QSPI \<Rightarrow> drop_bit 8 (m_oreg s) AND 0xf
      | FM_DSPI \<Rightarrow> (drop_bit 8 (m_oreg s) AND 0x3) OR (dat AND 0xc)
      | FM_SPI \<Rightarrow> (if m_oreg s AND 0x100 \<noteq> 0 then 2 else 0) OR (dat AND 0xd))"

definition flash_shift :: "u32 \<Rightarrow> flash \<Rightarrow> flash" where
  "flash_shift dat s =
     (case m_mode s of
        FM_QSPI \<Rightarrow> s\<lparr>m_ireg := push_bit 4 (m_ireg s) OR (dat AND 0xf), m_count := m_count s + 4,
                    m_oreg := push_bit 4 (m_oreg s)\<rparr>
      | FM_DSPI \<Rightarrow> s\<lparr>m_ireg := push_bit 2 (m_ireg s) OR (dat AND 0x3), m_count := m_count s + 2,
                    m_oreg := push_bit 2 (m_oreg s)\<rparr>
      | FM_SPI \<Rightarrow> s\<lparr>m_ireg := shl1 (m_ireg s) OR (dat AND 1), m_count := m_count s + 1,
                    m_oreg := shl1 (m_oreg s)\<rparr>)"

subsection \<open>Chip select raised\<close>

text \<open>The page buffer is merged into the page of \<open>m_addr\<close>; programming only clears bits.\<close>

definition flash_program_page :: "flash \<Rightarrow> fault + flash" where
  "flash_program_page s =
     (let base = m_addr s AND NOT 0xff
      in in_bounds (unat base + 255 < unat (m_membytes s))
        (Inr (s\<lparr>m_mem := (\<lambda>a. if a AND NOT 0xff = base then m_mem s a AND m_pmem s (a AND 0xff)
                             else m_mem s a)\<rparr>)))"

definition flash_erase_sector :: "flash \<Rightarrow> fault + flash" where
  "flash_erase_sector s =
     (let s = s\<lparr>m_addr := m_addr s AND push_bit 16 (- 1)\<rparr>
      in in_bounds (unat (m_addr s) + 65535 < unat (m_membytes s))
        (Inr (s\<lparr>m_mem := (\<lambda>a. if a AND push_bit 16 (- 1) = m_addr s then 0xff else m_mem s a)\<rparr>)))"

definition flash_bulk_erase :: "flash \<Rightarrow> flash" where
  "flash_bulk_erase s = s\<lparr>m_mem := (\<lambda>a. if a < m_membytes s then 0xff else m_mem s a)\<rparr>"

text \<open>A write command starts its timer: no longer enabled, in progress.\<close>

definition flash_begin_write :: "u32 \<Rightarrow> flash \<Rightarrow> flash" where
  "flash_begin_write t s =
     s\<lparr>m_write_count := t, m_state := QSPIF_IDLE,
       m_sreg := (m_sreg s AND NOT QSPIF_WEL_FLAG) OR QSPIF_WIP_FLAG\<rparr>"

definition flash_end_read :: "qspif_state \<Rightarrow> flash \<Rightarrow> flash" where
  "flash_end_read idle s =
     (if m_mode_byte s AND 0xf0 \<noteq> 0xa0 then s\<lparr>m_mode := FM_SPI\<rparr> else s\<lparr>m_state := idle\<rparr>)"

definition flash_deselect_state :: "flash \<Rightarrow> fault + flash" where
  "flash_deselect_state s =
     (case m_state s of
        QSPIF_PP \<Rightarrow> rbind (flash_program_page (flash_begin_write tPP s)) (\<lambda>s. Inr (s\<lparr>m_mode := FM_SPI\<rparr>))
      | QSPIF_QPP \<Rightarrow> rbind (flash_program_page (flash_begin_write tPP s)) (\<lambda>s. Inr (s\<lparr>m_mode := FM_SPI\<rparr>))
      | QSPIF_SECTOR_ERASE \<Rightarrow> flash_erase_sector (flash_begin_write tSE s)
      | QSPIF_WRSR \<Rightarrow> Inr (flash_begin_write tW s)
      | QSPIF_CLSR \<Rightarrow> Inr (s\<lparr>m_state := QSPIF_IDLE, m_sreg := m_sreg s AND 0x9f\<rparr>)
      | QSPIF_BULK_ERASE \<Rightarrow> Inr (flash_bulk_erase (flash_begin_write tBE s))
      | QSPIF_DEEP_POWER_DOWN \<Rightarrow> Inr (s\<lparr>m_write_count := tDP, m_state := QSPIF_IDLE\<rparr>)
      | QSPIF_RELEASE \<Rightarrow> Inr (s\<lparr>m_write_count := tRES, m_state := QSPIF_IDLE\<rparr>)
      | QSPIF_QUAD_READ_CMD \<Rightarrow> Inr (flash_end_read QSPIF_QUAD_READ_IDLE s)
      | QSPIF_DUAL_READ_CMD \<Rightarrow> Inr (flash_end_read QSPIF_DUAL_READ_IDLE s)
      | QSPIF_QUAD_READ \<Rightarrow> Inr (flash_end_read QSPIF_QUAD_READ_IDLE s)
      | QSPIF_DUAL_READ \<Rightarrow> Inr (flash_end_read QSPIF_DUAL_READ_IDLE s)
      | _ \<Rightarrow> Inr s)"

definition flash_deselect :: "flash \<Rightarrow> fault + flash" where
  "flash_deselect s =
     rbind (flash_deselect_state (s\<lparr>m_last_sck := 1, m_ireg := 0, m_oreg := 0, m_count := 0\<rparr>))
       (\<lambda>s. Inr (s\<lparr>m_oreg := 0xfe\<rparr>))"

subsection \<open>Continued quad and dual reads\<close>

definition flash_read_idle :: "bool \<Rightarrow> qspif_state \<Rightarrow> flash \<Rightarrow> fault + flash" where
  "flash_read_idle mode_ok next s =
     c_assert (m_sreg s AND QSPIF_DEEP_POWER_DOWN_FLAG = 0)
       (c_assert mode_ok
         (let s = (if m_count s = 24
                   then s\<lparr>m_addr := m_ireg s AND m_memmask s, m_state := next\<rparr> else s)
          in Inr (s\<lparr>m_oreg := 0\<rparr>)))"

subsection \<open>The command byte\<close>

definition flash_write_command :: "qspif_state \<Rightarrow> flash \<Rightarrow> flash" where
  "flash_write_command st s =
     (if m_sreg s AND 0x203 \<noteq> 2 then s\<lparr>m_state := QSPIF_INVALID\<rparr> else s\<lparr>m_state := st\<rparr>)"

definition flash_command :: "flash \<Rightarrow> fault + flash" where
  "flash_command s =
     (let s = QOREG 0xa5 s; c = m_ireg s AND 0xff in
      if m_sreg s AND QSPIF_DEEP_POWER_DOWN_FLAG \<noteq> 0 \<and> c \<noteq> 0xab then Inr s
      else if c = 0x01 then Inr (flash_write_command QSPIF_WRSR s)
      else if c = 0x02 then Inr (flash_write_command QSPIF_PP s)
      else if c = 0x03 then Inr (s\<lparr>m_state := QSPIF_SLOW_READ\<rparr>)
      else if c = 0x04 then Inr (s\<lparr>m_state := QSPIF_IDLE, m_sreg := m_sreg s AND NOT QSPIF_WEL_FLAG\<rparr>)
      else if c = 0x05 then Inr (QOREG (m_sreg s) (s\<lparr>m_state := QSPIF_RDSR\<rparr>))
      else if c = 0x06 then Inr (s\<lparr>m_state := QSPIF_IDLE, m_sreg := m_sreg s OR QSPIF_WEL_FLAG\<rparr>)
      else if c = 0x0b then Inr (s\<lparr>m_state := QSPIF_FAST_READ\<rparr>)
      else if c = 0x30 then Inr (s\<lparr>m_state := QSPIF_CLSR\<rparr>)
      else if c = 0x32 then Inr (flash_write_command QSPIF_QPP s)
      else if c = 0x35 then Inr (QOREG (m_creg s) (s\<lparr>m_state := QSPIF_RDCR\<rparr>))
      else if c = 0x50 then Inr (QOREG 0 (s\<lparr>m_state := QSPIF_IDLE\<rparr>))
      else if c = 0x61 then Inr (QOREG 0 (s\<lparr>m_state := QSPIF_IDLE\<rparr>))
      else if c = 0x70 then Inr (QOREG 0 (s\<lparr>m_state := QSPIF_IDLE\<rparr>))
      else if c = 0x81 then Inr (QOREG 0 s)
      else if c = 0x9f then Inr (QOREG (drop_bit 24 DEVID AND 0xff) (s\<lparr>m_state := QSPIF_RDID\<rparr>))
      else if c = 0xab then
        Inr ((if m_sreg s AND QSPIF_DEEP_POWER_DOWN_FLAG \<noteq> 0
              then s\<lparr>m_sreg := m_sreg s AND NOT QSPIF_DEEP_POWER_DOWN_FLAG, m_write_count := tRES\<rparr>
              else s)\<lparr>m_state := QSPIF_RELEASE\<rparr>)
      else if c = 0xb9 then
        Inr (if m_sreg s AND 0x01 \<noteq> 0 then s\<lparr>m_state := QSPIF_INVALID\<rparr>
             else s\<lparr>m_sreg := m_sreg s OR QSPIF_DEEP_POWER_DOWN_FLAG, m_state := QSPIF_IDLE\<rparr>)
      else if c = 0xbb then Inr (s\<lparr>m_state := QSPIF_DUAL_READ_CMD, m_mode := FM_DSPI\<rparr>)
      else if c = 0xc7 then Inr (flash_write_command QSPIF_BULK_ERASE s)
      else if c = 0xd8 then Inr (flash_write_command QSPIF_SECTOR_ERASE s)
      else if c = 0xeb then Inr (s\<lparr>m_state := QSPIF_QUAD_READ_CMD, m_mode := FM_QSPI\<rparr>)
      else if c = 0x00 \<or> c = 0x31 \<or> c = 0xff then Inr (s\<lparr>m_state := QSPIF_IDLE, m_mode := FM_SPI\<rparr>)
      else Inl Assertion)"

subsection \<open>The bytes after the command\<close>

definition flash_fetch :: "flash \<Rightarrow> fault + flash" where
  "flash_fetch s =
     in_bounds (m_addr s < m_membytes s)
       (Inr ((QOREG (ucast (m_mem s (m_addr s))) s)\<lparr>m_addr := m_addr s + 1\<rparr>))"

definition flash_latch_addr :: "flash \<Rightarrow> flash" where
  "flash_latch_addr s = s\<lparr>m_addr := m_ireg s AND m_memmask s\<rparr>"

abbreviation (input) not_busy :: "flash \<Rightarrow> bool" where
  "not_busy s \<equiv> m_sreg s AND 0x01 = 0"

definition flash_page_byte :: "flash \<Rightarrow> flash" where
  "flash_page_byte s =
     s\<lparr>m_pmem := (m_pmem s)(m_addr s AND 0xff := ucast (m_ireg s AND 0xff)),
       m_addr := (m_addr s AND NOT 0xff) OR ((m_addr s + 1) AND 0xff)\<rparr>"

definition flash_id_byte :: "flash \<Rightarrow> fault + flash" where
  "flash_id_byte s =
     (let n = 32 - m_count s
      in if n < 32 then Inr (QOREG (drop_bit (unat n) DEVID) s) else Inl BadShift)"

definition flash_read_byte :: "flash \<Rightarrow> fault + flash" where
  "flash_read_byte s =
     (case m_state s of
        QSPIF_SLOW_READ \<Rightarrow>
          if m_count s = 32 then flash_fetch (flash_latch_addr s)
          else if 40 \<le> m_count s \<and> not_busy s then flash_fetch s
          else Inr (s\<lparr>m_oreg := 0\<rparr>)
      | QSPIF_FAST_READ \<Rightarrow>
          if m_count s = 32 then Inr (QOREG 0xc3 (flash_latch_addr s))
          else if 40 \<le> m_count s \<and> not_busy s then flash_fetch s
          else Inr (s\<lparr>m_oreg := 0\<rparr>)
      | QSPIF_DUAL_READ_CMD \<Rightarrow>
          if m_count s = 32 then Inr (flash_latch_addr s)
          else if m_count s = 40 \<and> not_busy s
          then flash_fetch (s\<lparr>m_mode_byte := m_ireg s AND 0xff\<rparr>)
          else if 40 < m_count s \<and> not_busy s then flash_fetch s
          else Inr (s\<lparr>m_oreg := 0\<rparr>)
      | QSPIF_QUAD_READ_CMD \<Rightarrow>
          if m_count s = 32 then Inr (flash_latch_addr s)
          else if m_count s = 40 then Inr (s\<lparr>m_mode_byte := m_ireg s AND 0xff\<rparr>)
          else if 32 + 4 * NDUMMY s < m_count s \<and> not_busy s then flash_fetch s
          else Inr (s\<lparr>m_oreg := 0\<rparr>)
      | QSPIF_DUAL_READ \<Rightarrow>
          flash_fetch (if m_count s = 32 then s\<lparr>m_mode_byte := m_ireg s AND 0xff\<rparr> else s)
      | QSPIF_QUAD_READ \<Rightarrow>
          if m_count s = 32 then Inr (s\<lparr>m_mode_byte := m_ireg s AND 0xff\<rparr>)
          else if 24 + 4 * NDUMMY s \<le> m_count s \<and> not_busy s then flash_fetch s
          else Inr (s\<lparr>m_oreg := 0\<rparr>)
      | _ \<Rightarrow> Inr s)"

definition flash_write_byte :: "flash \<Rightarrow> fault + flash" where
  "flash_write_byte s =
     (case m_state s of
        QSPIF_PP \<Rightarrow>
          Inr (if m_count s = 32 then (flash_latch_addr s)\<lparr>m_pmem := (\<lambda>_. 0xff)\<rparr>
               else if 40 \<le> m_count s then flash_page_byte s else s)
      | QSPIF_QPP \<Rightarrow>
          Inr (if m_count s = 32
               then (flash_latch_addr s)\<lparr>m_mode := FM_QSPI, m_pmem := (\<lambda>_. 0xff)\<rparr>
               else if 40 \<le> m_count s then flash_page_byte s else s)
      | QSPIF_SECTOR_ERASE \<Rightarrow>
          if m_count s = 32
          then let s = s\<lparr>m_addr := m_ireg s AND 0x0ffc000\<rparr>
               in c_assert (m_addr s AND 0xfc00000 = 0) (Inr s)
          else Inr s
      | _ \<Rightarrow> Inr s)"

definition flash_unthrottle :: "flash \<Rightarrow> flash" where
  "flash_unthrottle s =
     (if m_idle_throttle s \<and> m_state s \<noteq> QSPIF_IDLE then s\<lparr>m_idle_throttle := False\<rparr> else s)"

definition flash_byte :: "flash \<Rightarrow> fault + flash" where
  "flash_byte s =
     (let s = flash_unthrottle (QOREG 0 s)
      in case m_state s of
        QSPIF_IDLE \<Rightarrow> Inr (s\<lparr>m_idle_throttle := True\<rparr>)
      | QSPIF_WRSR \<Rightarrow>
          if m_count s = 16 then Inr (s\<lparr>m_sreg := (m_sreg s AND 0x61) OR (m_ireg s AND 0x9c)\<rparr>)
          else if m_count s = 24 then Inr (s\<lparr>m_creg := (m_creg s AND 0xfd) OR (m_ireg s AND 0x02)\<rparr>)
          else Inl Exit
      | QSPIF_CLSR \<Rightarrow> Inl Assertion
      | QSPIF_RDID \<Rightarrow> flash_id_byte s
      | QSPIF_RDSR \<Rightarrow> Inr (QOREG (m_sreg s) s)
      | QSPIF_RDCR \<Rightarrow> Inr (QOREG (m_creg s) s)
      | QSPIF_PP \<Rightarrow> flash_write_byte s
      | QSPIF_QPP \<Rightarrow> flash_write_byte s
      | QSPIF_SECTOR_ERASE \<Rightarrow> flash_write_byte s
      | QSPIF_RELEASE \<Rightarrow> Inr (if 32 \<le> m_count s then QOREG DEVESD s else s)
      | _ \<Rightarrow> flash_read_byte s)"

subsection \<open>operator() and simtick\<close>

definition flash_process :: "flash \<Rightarrow> fault + flash" where
  "flash_process s =
     (if m_state s = QSPIF_QUAD_READ_IDLE then flash_read_idle (flash_quad_mode s) QSPIF_QUAD_READ s
      else if m_state s = QSPIF_DUAL_READ_IDLE then flash_read_idle (flash_dual_mode s) QSPIF_DUAL_READ s
      else if m_count s = 8 then flash_command s
      else if m_count s AND 7 = 0 \<and> m_count s \<noteq> 0 then flash_byte s
      else Inr s)"

definition flash_tick :: "flash \<Rightarrow> int \<Rightarrow> int \<Rightarrow> u32 \<Rightarrow> fault + flash \<times> u32" where
  "flash_tick s csn sck dat =
     (let s = flash_timer s in
      if csn \<noteq> 0 then rbind (flash_deselect s) (\<lambda>s. Inr (s, dat))
      else if m_last_sck s = 0 \<or> sck = m_last_sck s
      then let s = s\<lparr>m_last_sck := sck\<rparr> in Inr (s, flash_out s dat)
      else rbind (flash_process (flash_shift dat s))
        (\<lambda>s. let s = s\<lparr>m_last_sck := sck\<rparr> in Inr (s, flash_out s dat)))"

definition flash_pins :: "int \<Rightarrow> u32 \<Rightarrow> u32 \<Rightarrow> u32" where
  "flash_pins md dat r =
     (if md = 0 \<or> md = 1 then (r AND 2) OR (dat AND 1) OR 0xc
      else if md = 2 then dat
      else if md = 3 then r
      else if md = 4 then (dat AND 3) OR 0xc
      else if md = 5 then (r AND 3) OR 0xc
      else r)"

text \<open>
  \<open>fresh\<close> is what the newly allocated read-delay line holds: the source leaves it
  uninitialised.
\<close>

definition flash_simtick ::
  "u32 list \<Rightarrow> flash \<Rightarrow> int \<Rightarrow> u32 \<Rightarrow> u32 \<Rightarrow> int \<Rightarrow> fault + flash \<times> u32" where
  "flash_simtick fresh s csn sck dat md =
     (let s = (if 0 < CKDELAY s \<and> m_ckdelay s = None
               then s\<lparr>m_ckdelay := Some (replicate (CKDELAY s) 0)\<rparr> else s);
          s = (if 0 < RDDELAY s \<and> m_rddelay s = None
               then s\<lparr>m_rddelay := Some (take (RDDELAY s) fresh)\<rparr> else s);
          (s, lclsck) = (case m_ckdelay s of
              Some (c # cs) \<Rightarrow> (s\<lparr>m_ckdelay := Some (map (\<lambda>x. x AND 1) cs @ [sck AND 1])\<rparr>, c)
            | _ \<Rightarrow> (s, sck))
      in rbind (flash_tick s csn (if lclsck \<noteq> 0 then 0 else 1) dat) (\<lambda>(s, _).
         rbind (flash_tick s csn 1 dat) (\<lambda>(s, r).
           let r = flash_pins md dat r
           in case m_rddelay s of
                Some (c # cs) \<Rightarrow> Inr (s\<lparr>m_rddelay := Some (cs @ [r])\<rparr>, c AND 0xf)
              | _ \<Rightarrow> Inr (s, r))))"

end
