(* ===== verification/FlashSpi.thy ===== *)
theory FlashSpi
  imports FlashSim Byteswap
begin

text \<open>
  From pins to bytes: eight clock periods of the flash simulator in SPI mode are one byte
  step.  \<open>flash_xfer\<close> drives the pins the way \<open>simtick\<close> does (clock low, clock high, data
  stable) and collects the eight output bits; \<open>flash_xfer_eq\<close> is the refinement of the
  pin-level model by a step that shifts a whole byte.  \<open>flash_transact\<close> is a whole
  transaction: bytes with the chip selected, then chip select raised.
\<close>

definition flash_spi_bit :: "flash \<Rightarrow> bool \<Rightarrow> fault + flash \<times> bool" where
  "flash_spi_bit s b =
     rbind (flash_tick s 0 0 (of_bool b)) (\<lambda>(s, _).
     rbind (flash_tick s 0 1 (of_bool b)) (\<lambda>(s, r). Inr (s, bit r 1)))"

definition flash_xfer :: "flash \<Rightarrow> u8 \<Rightarrow> fault + flash \<times> u8" where
  "flash_xfer s b =
     rbind (run flash_spi_bit s (byte_bits b)) (\<lambda>(s, outs). Inr (s, byte_of_bits outs))"

definition flash_transact :: "flash \<Rightarrow> u8 list \<Rightarrow> fault + flash \<times> u8 list" where
  "flash_transact s bs =
     rbind (run flash_xfer s bs) (\<lambda>(s, outs).
     rbind (flash_tick s 1 1 0) (\<lambda>(s, _). Inr (s, outs)))"

section \<open>Frame rules\<close>

lemma flash_timer_frame [simp]:
  "m_state (flash_timer s) = m_state s" "m_mem (flash_timer s) = m_mem s"
  "m_pmem (flash_timer s) = m_pmem s" "m_last_sck (flash_timer s) = m_last_sck s"
  "m_ireg (flash_timer s) = m_ireg s" "m_oreg (flash_timer s) = m_oreg s"
  "m_addr (flash_timer s) = m_addr s" "m_count (flash_timer s) = m_count s"
  "m_mode_byte (flash_timer s) = m_mode_byte s" "m_creg (flash_timer s) = m_creg s"
  "m_membytes (flash_timer s) = m_membytes s" "m_memmask (flash_timer s) = m_memmask s"
  "m_mode (flash_timer s) = m_mode s" "NDUMMY (flash_timer s) = NDUMMY s"
  by (simp_all add: flash_timer_def Let_def)

lemma flash_timer_idle [simp]: "m_write_count s = 0 \<Longrightarrow> flash_timer s = s"
  by (simp add: flash_timer_def)

lemma flash_timers_idle [simp]: "m_write_count s = 0 \<Longrightarrow> (flash_timer ^^ n) s = s"
  by (induction n) simp_all

lemma flash_timers_frame [simp]:
  "m_state ((flash_timer ^^ n) s) = m_state s" "m_mode ((flash_timer ^^ n) s) = m_mode s"
  "m_last_sck ((flash_timer ^^ n) s) = m_last_sck s"
  "m_ireg ((flash_timer ^^ n) s) = m_ireg s" "m_oreg ((flash_timer ^^ n) s) = m_oreg s"
  "m_count ((flash_timer ^^ n) s) = m_count s"
  by (induction n) simp_all

lemma QOREG_frame [simp]:
  "m_state (QOREG a s) = m_state s" "m_mem (QOREG a s) = m_mem s"
  "m_pmem (QOREG a s) = m_pmem s" "m_last_sck (QOREG a s) = m_last_sck s"
  "m_ireg (QOREG a s) = m_ireg s" "m_sreg (QOREG a s) = m_sreg s"
  "m_addr (QOREG a s) = m_addr s" "m_count (QOREG a s) = m_count s"
  "m_write_count (QOREG a s) = m_write_count s"
  "m_mode_byte (QOREG a s) = m_mode_byte s" "m_creg (QOREG a s) = m_creg s"
  "m_membytes (QOREG a s) = m_membytes s" "m_memmask (QOREG a s) = m_memmask s"
  "m_mode (QOREG a s) = m_mode s" "NDUMMY (QOREG a s) = NDUMMY s"
  "m_idle_throttle (QOREG a s) = m_idle_throttle s"
  by (simp_all add: QOREG_def)

lemma flash_unthrottle_frame [simp]:
  "m_state (flash_unthrottle s) = m_state s" "m_mem (flash_unthrottle s) = m_mem s"
  "m_pmem (flash_unthrottle s) = m_pmem s" "m_last_sck (flash_unthrottle s) = m_last_sck s"
  "m_ireg (flash_unthrottle s) = m_ireg s" "m_oreg (flash_unthrottle s) = m_oreg s"
  "m_sreg (flash_unthrottle s) = m_sreg s" "m_write_count (flash_unthrottle s) = m_write_count s"
  "m_addr (flash_unthrottle s) = m_addr s" "m_count (flash_unthrottle s) = m_count s"
  "m_mode_byte (flash_unthrottle s) = m_mode_byte s" "m_creg (flash_unthrottle s) = m_creg s"
  "m_membytes (flash_unthrottle s) = m_membytes s" "m_memmask (flash_unthrottle s) = m_memmask s"
  "m_mode (flash_unthrottle s) = m_mode s" "NDUMMY (flash_unthrottle s) = NDUMMY s"
  by (simp_all add: flash_unthrottle_def)

lemma QOREG_QOREG [simp]: "QOREG a (QOREG b s) = QOREG a s"
proof -
  have "((x AND NOT 0xff) OR (b AND 0xff)) AND NOT 0xff = x AND NOT (0xff::u32)" for x :: u32
    by (rule bit_word_eqI) (auto simp: bit_simps)
  then show ?thesis by (simp add: QOREG_def)
qed

section \<open>The byte step\<close>

definition flash_not_xip :: "flash \<Rightarrow> bool" where
  "flash_not_xip s \<longleftrightarrow> m_state s \<noteq> QSPIF_QUAD_READ_IDLE \<and> m_state s \<noteq> QSPIF_DUAL_READ_IDLE"

lemma flash_out_spi: "m_mode s = FM_SPI \<Longrightarrow> bit (flash_out s d) (Suc 0) \<longleftrightarrow> bit (m_oreg s) 8"
proof -
  have "m_oreg s AND 0x100 \<noteq> 0 \<longleftrightarrow> bit (m_oreg s) 8"
    using bit_iff_and_push_bit_not_eq_0 [of "m_oreg s" 8] by simp
  then show "m_mode s = FM_SPI \<Longrightarrow> ?thesis" by (auto simp: flash_out_def bit_simps)
qed

lemma and_1_of_bool [simp]: "of_bool b AND 1 = (of_bool b :: u32)"
  by (cases b) simp_all

text \<open>One bit in the middle of a byte only moves the shift registers.\<close>

definition flash_shift1 :: "flash \<Rightarrow> bool \<Rightarrow> flash" where
  "flash_shift1 s b =
     s\<lparr>m_ireg := shl1 (m_ireg s) OR of_bool b, m_count := m_count s + 1, m_oreg := shl1 (m_oreg s)\<rparr>"

lemma flash_timer_shift1: "flash_timer (flash_shift1 s b) = flash_shift1 (flash_timer s) b"
  by (simp add: flash_timer_def flash_shift1_def Let_def)

lemma flash_spi_bit_eq:
  assumes "m_mode s = FM_SPI" "m_last_sck s = 1"
  shows "flash_spi_bit s b =
    rbind (flash_process (flash_shift1 (flash_timer s) b)) (\<lambda>s'.
      let s'' = (flash_timer s')\<lparr>m_last_sck := 1\<rparr> in Inr (s'', bit (flash_out s'' (of_bool b)) 1))"
proof -
  have "flash_timer (s'\<lparr>m_last_sck := k\<rparr>) = (flash_timer s')\<lparr>m_last_sck := k\<rparr>" for s' k
    by (simp add: flash_timer_def Let_def)
  then show ?thesis
    using assms
    by (simp add: flash_spi_bit_def flash_tick_def Let_def flash_shift_def flash_shift1_def rbind_def
        split: sum.split)
qed

lemma flash_process_mid:
  assumes "flash_not_xip s" "m_count s AND 7 \<noteq> 0"
  shows "flash_process s = Inr s"
  using assms by (auto simp: flash_process_def flash_not_xip_def)

fun flash_shifts :: "flash \<Rightarrow> bool list \<Rightarrow> flash" where
  "flash_shifts s [] = s"
| "flash_shifts s (b # bs) = flash_shifts (flash_shift1 (flash_timer (flash_timer s)) b) bs"

lemma flash_shifts_eq:
  "flash_shifts s bs = ((flash_timer ^^ (2 * length bs)) s)
     \<lparr>m_ireg := shift_in (m_ireg s) bs, m_count := m_count s + of_nat (length bs),
      m_oreg := (shl1 ^^ length bs) (m_oreg s)\<rparr>"
proof (induction bs arbitrary: s)
  case Nil
  then show ?case by simp
next
  case (Cons b bs)
  have *: "(flash_timer ^^ k) (flash_shift1 t b) = flash_shift1 ((flash_timer ^^ k) t) b" for k t
    by (induction k) (simp_all add: flash_timer_shift1)
  have "(flash_timer ^^ (2 * length (b # bs))) s =
      (flash_timer ^^ (2 * length bs)) (flash_timer (flash_timer s))"
    by (simp add: funpow_swap1 [symmetric] funpow_add [symmetric] del: funpow.simps)
       (simp add: funpow_swap1)
  moreover have "flash_shifts s (b # bs) =
      (flash_shift1 ((flash_timer ^^ (2 * length bs)) (flash_timer (flash_timer s))) b)
        \<lparr>m_ireg := shift_in (shl1 (m_ireg s) OR of_bool b) bs,
         m_count := m_count s + 1 + of_nat (length bs),
         m_oreg := (shl1 ^^ length bs) (shl1 (m_oreg s))\<rparr>"
    by (simp only: flash_shifts.simps Cons *) (simp add: flash_shift1_def)
  ultimately show ?case
    by (simp add: flash_shift1_def funpow_swap1 add.assoc)
qed

lemma unat_and_7: "unat (c AND 7) = unat (c::u32) mod 8"
proof -
  have "c AND 7 = take_bit 3 c" by (simp add: take_bit_eq_mask mask_eq_exp_minus_1)
  then show ?thesis by (simp add: take_bit_eq_mod unat_mod_distrib)
qed

lemma and_7_add:
  fixes c :: u32
  assumes "unat (c AND 7) + k < 8"
  shows "unat ((c + of_nat k) AND 7) = unat (c AND 7) + k"
proof -
  have k: "k < 8" using assms by simp
  then have "unat (c + of_nat k) mod 8 = (unat c + k) mod 2 ^ 32 mod 8"
    by (simp add: unat_word_ariths unat_of_nat)
  also have "\<dots> = (unat c + k) mod 8" by (rule mod_mod_cancel) simp
  also have "\<dots> = (unat c mod 8 + k) mod 8" by (simp add: mod_add_left_eq)
  finally show ?thesis using assms by (simp add: unat_and_7)
qed

lemma flash_run_mid:
  assumes "m_mode s = FM_SPI" "m_last_sck s = 1" "flash_not_xip s"
    and "unat (m_count s AND 7) + length bs < 8"
  shows "run flash_spi_bit s bs =
    Inr (flash_shifts s bs, map (\<lambda>i. bit ((shl1 ^^ Suc i) (m_oreg s)) 8) [0..<length bs])"
  using assms
proof (induction bs arbitrary: s)
  case Nil
  then show ?case by simp
next
  case (Cons b bs)
  let ?s1 = "flash_shift1 (flash_timer s) b"
  let ?s2 = "flash_shift1 (flash_timer (flash_timer s)) b"
  have j: "unat ((m_count s + 1) AND 7) = unat (m_count s AND 7) + 1"
    using Cons.prems and_7_add [of "m_count s" 1] by simp
  then have nz: "m_count ?s1 AND 7 \<noteq> 0"
    by (auto simp: flash_shift1_def)
  have "flash_not_xip ?s1" using Cons.prems by (simp add: flash_not_xip_def flash_shift1_def)
  then have "flash_process ?s1 = Inr ?s1" using nz by (rule flash_process_mid)
  moreover have "(flash_timer ?s1)\<lparr>m_last_sck := 1\<rparr> = ?s2"
    using Cons.prems by (simp add: flash_timer_shift1) (simp add: flash_shift1_def)
  moreover have "bit (flash_out ?s2 (of_bool b)) 1 = bit (shl1 (m_oreg s)) 8"
    using Cons.prems by (simp add: flash_out_spi flash_shift1_def)
  ultimately have bit: "flash_spi_bit s b = Inr (?s2, bit (shl1 (m_oreg s)) 8)"
    using Cons.prems by (simp add: flash_spi_bit_eq Let_def)
  have "run flash_spi_bit ?s2 bs =
    Inr (flash_shifts ?s2 bs, map (\<lambda>i. bit ((shl1 ^^ Suc i) (m_oreg ?s2)) 8) [0..<length bs])"
    using Cons.prems j by (intro Cons.IH) (auto simp: flash_shift1_def flash_not_xip_def)
  moreover have "m_oreg ?s2 = shl1 (m_oreg s)" by (simp add: flash_shift1_def)
  moreover have "[0..<length (b # bs)] = 0 # map Suc [0..<length bs]"
    by (simp add: map_Suc_upt upt_conv_Cons del: upt_Suc)
  ultimately show ?case
    using bit by (simp add: funpow_swap1 o_def del: upt_Suc)
qed

text \<open>
  A whole byte: the first seven bits only shift, the eighth hands the byte to the command
  decoder.  What comes out on the data line meanwhile is the byte that was waiting in the
  output register, its last bit as the decoder leaves it.
\<close>

definition flash_load_byte :: "flash \<Rightarrow> u8 \<Rightarrow> flash" where
  "flash_load_byte s b =
     ((flash_timer ^^ 15) s)\<lparr>m_ireg := push_bit 8 (m_ireg s) OR ucast b, m_count := m_count s + 8,
       m_oreg := push_bit 8 (m_oreg s)\<rparr>"

definition flash_after_byte :: "flash \<Rightarrow> u8 \<Rightarrow> flash \<Rightarrow> flash \<times> u8" where
  "flash_after_byte s b s' =
     (let s'' = (flash_timer s')\<lparr>m_last_sck := 1\<rparr>
      in (s'', byte_of_bits (butlast (byte_bits (ucast (m_oreg s))) @
                [bit (flash_out s'' (of_bool (bit b 0))) 1])))"

lemma shl1_funpow: "(shl1 ^^ n) r = push_bit n r"
  by (induction n) (simp_all add: shl1_def push_bit_push_bit del: push_bit_Suc)

lemma byte_bits_butlast:
  "butlast (byte_bits b) @ [bit b 0] = byte_bits b"
  by (simp add: byte_bits_def)

lemma flash_out_bits:
  "map (\<lambda>i. bit ((shl1 ^^ Suc i) r) 8) [0..<7] = butlast (byte_bits (ucast r))"
  by (simp only: shl1_funpow) (simp add: byte_bits_def upt_rec bit_simps del: push_bit_Suc)

lemma flash_xfer_eq:
  assumes "m_mode s = FM_SPI" "m_last_sck s = 1" "flash_not_xip s" "m_count s AND 7 = 0"
  shows "flash_xfer s b =
    rbind (flash_process (flash_load_byte s b)) (\<lambda>s'. Inr (flash_after_byte s b s'))"
proof -
  let ?bs = "butlast (byte_bits b)"
  let ?s7 = "flash_shifts s ?bs"
  have len: "length ?bs = 7" by simp
  have s7: "?s7 = ((flash_timer ^^ 14) s)\<lparr>m_ireg := shift_in (m_ireg s) ?bs,
      m_count := m_count s + 7, m_oreg := (shl1 ^^ 7) (m_oreg s)\<rparr>"
    by (simp add: flash_shifts_eq)
  have run7: "run flash_spi_bit s ?bs = Inr (?s7, butlast (byte_bits (ucast (m_oreg s))))"
  proof -
    have "run flash_spi_bit s ?bs =
      Inr (?s7, map (\<lambda>i. bit ((shl1 ^^ Suc i) (m_oreg s)) 8) [0..<length ?bs])"
      using assms by (intro flash_run_mid) simp_all
    then show ?thesis by (simp only: len flash_out_bits)
  qed
  have ireg: "shl1 (shift_in (m_ireg s) ?bs) OR of_bool (bit b 0) = push_bit 8 (m_ireg s) OR ucast b"
    using shift_in_append [of "m_ireg s" ?bs "[bit b 0]"] byte_bits_butlast [of b]
    by (simp add: shift_in_byte)
  have timer: "flash_timer ((flash_timer ^^ 14) s) = (flash_timer ^^ 15) s"
    by (simp add: numeral_eq_Suc)
  have load: "flash_shift1 (flash_timer ?s7) (bit b 0) = flash_load_byte s b"
  proof -
    have "flash_timer ?s7 = ((flash_timer ^^ 15) s)\<lparr>m_ireg := shift_in (m_ireg s) ?bs,
      m_count := m_count s + 7, m_oreg := (shl1 ^^ 7) (m_oreg s)\<rparr>"
      unfolding s7 timer [symmetric] by (simp add: flash_timer_def Let_def)
    moreover have "shl1 ((shl1 ^^ 7) (m_oreg s)) = push_bit 8 (m_oreg s)"
      using shl1_funpow [of 8 "m_oreg s"] by (simp add: numeral_eq_Suc)
    ultimately show ?thesis
      using ireg by (simp add: flash_shift1_def flash_load_byte_def)
  qed
  have "flash_spi_bit ?s7 (bit b 0) =
    rbind (flash_process (flash_load_byte s b)) (\<lambda>s'.
      let s'' = (flash_timer s')\<lparr>m_last_sck := 1\<rparr>
      in Inr (s'', bit (flash_out s'' (of_bool (bit b 0))) 1))"
  proof -
    have m: "m_mode ?s7 = FM_SPI" "m_last_sck ?s7 = 1" using assms by (simp_all add: s7)
    show ?thesis by (simp only: flash_spi_bit_eq [OF m] load)
  qed
  then have "run flash_spi_bit s (?bs @ [bit b 0]) =
    rbind (flash_process (flash_load_byte s b)) (\<lambda>s'.
      let s'' = (flash_timer s')\<lparr>m_last_sck := 1\<rparr>
      in Inr (s'', butlast (byte_bits (ucast (m_oreg s))) @
        [bit (flash_out s'' (of_bool (bit b 0))) 1]))"
    by (simp only: run_append run7) (simp add: Let_def)
  then show ?thesis
    by (simp add: flash_xfer_def byte_bits_butlast flash_after_byte_def Let_def)
qed

end
