(* ===== verification/FlashProps.thy ===== *)
theory FlashProps
  imports FlashSpi
begin

text \<open>
  What the simulated flash promises over its SPI pins: reads return memory, a page program
  clears bits of one page, a sector erase sets one sector, nothing else changes memory, and
  the writes are refused unless the write-enable latch is set.
\<close>

text \<open>
  A device ready for a command: deselected, in SPI mode, no write running, not asleep, with
  a memory of \<open>2 ^ lg\<close> bytes.
\<close>

definition flash_wf :: "nat \<Rightarrow> flash \<Rightarrow> bool" where
  "flash_wf lg s \<longleftrightarrow> 16 \<le> lg \<and> lg \<le> 24 \<and> m_membytes s = push_bit lg 1 \<and> m_memmask s = mask lg"

definition flash_ready :: "flash \<Rightarrow> bool" where
  "flash_ready s \<longleftrightarrow> m_mode s = FM_SPI \<and> m_last_sck s = 1 \<and> m_count s = 0 \<and> flash_not_xip s
     \<and> m_write_count s = 0 \<and> m_sreg s AND 0x201 = 0"

definition flash_addr :: "flash \<Rightarrow> u8 \<Rightarrow> u8 \<Rightarrow> u8 \<Rightarrow> u32" where
  "flash_addr s a2 a1 a0 = word_of_bytes 0 a2 a1 a0 AND m_memmask s"

section \<open>Byte steps of an idle device\<close>

definition flash_fill :: "flash \<Rightarrow> u8 \<Rightarrow> flash" where
  "flash_fill s b = s\<lparr>m_ireg := push_bit 8 (m_ireg s) OR ucast b, m_count := m_count s + 8,
     m_oreg := push_bit 8 (m_oreg s)\<rparr>"

lemma flash_load_byte_idle: "m_write_count s = 0 \<Longrightarrow> flash_load_byte s b = flash_fill s b"
  by (simp add: flash_load_byte_def flash_fill_def)

lemma flash_xfer_step:
  assumes "m_mode s = FM_SPI" "m_last_sck s = 1" "flash_not_xip s" "m_count s AND 7 = 0"
    and "m_write_count s = 0" "flash_process (flash_fill s b) = Inr s'"
    and "m_write_count s' = 0" "m_last_sck s' = 1"
  shows "\<exists>x. flash_xfer s b = Inr (s', x) \<and>
    (m_mode s' = FM_SPI \<and> bit (m_oreg s') 8 = bit (m_oreg s) 0 \<longrightarrow> x = ucast (m_oreg s))"
proof -
  let ?x = "byte_of_bits (butlast (byte_bits (ucast (m_oreg s))) @
                [bit (flash_out s' (of_bool (bit b 0))) 1])"
  have sck: "s'\<lparr>m_last_sck := 1\<rparr> = s'" using assms(8) by (cases s') simp
  have "flash_xfer s b = Inr (flash_after_byte s b s')"
    using assms(5,6) flash_xfer_eq [OF assms(1-4), of b] by (simp add: flash_load_byte_idle)
  also have "flash_after_byte s b s' = (s', ?x)"
    by (simp only: flash_after_byte_def Let_def flash_timer_idle [OF assms(7)] sck)
  finally have "flash_xfer s b = Inr (s', ?x)" .
  moreover
  have "?x = ucast (m_oreg s)"
    if "m_mode s' = FM_SPI" "bit (m_oreg s') 8 = bit (m_oreg s) 0"
  proof -
    have "bit (flash_out s' (of_bool (bit b 0))) 1 = bit (ucast (m_oreg s) :: u8) 0"
      using that by (simp add: flash_out_spi bit_simps)
    then show ?thesis by (simp only: byte_bits_butlast byte_of_byte_bits)
  qed
  ultimately show ?thesis by blast
qed

text \<open>
  The phase of a transaction after \<open>c\<close> bits: the state is \<open>st\<close>, the input register holds
  \<open>i\<close>, everything that outlives the transaction is as in \<open>s0\<close>.
\<close>

definition flash_phase :: "flash \<Rightarrow> qspif_state \<Rightarrow> u32 \<Rightarrow> u32 \<Rightarrow> flash \<Rightarrow> bool" where
  "flash_phase s0 st i c s \<longleftrightarrow>
     m_state s = st \<and> m_ireg s = i \<and> m_count s = c \<and> m_mode s = FM_SPI \<and> m_last_sck s = 1
     \<and> m_write_count s = 0 \<and> m_mem s = m_mem s0 \<and> m_sreg s = m_sreg s0
     \<and> m_membytes s = m_membytes s0 \<and> m_memmask s = m_memmask s0"

definition addressed :: "qspif_state \<Rightarrow> bool" where
  "addressed st \<longleftrightarrow> st \<in> {QSPIF_SLOW_READ, QSPIF_FAST_READ, QSPIF_PP, QSPIF_SECTOR_ERASE}"

lemma addressedE:
  assumes "addressed st"
  obtains "st = QSPIF_SLOW_READ" | "st = QSPIF_FAST_READ" | "st = QSPIF_PP"
    | "st = QSPIF_SECTOR_ERASE"
  using assms by (auto simp: addressed_def)

lemma addressed_not_xip: "addressed (m_state s) \<Longrightarrow> flash_not_xip s"
  by (auto simp: addressed_def flash_not_xip_def)

lemma flash_fill_frame [simp]:
  "m_state (flash_fill s b) = m_state s" "m_mode (flash_fill s b) = m_mode s"
  "m_count (flash_fill s b) = m_count s + 8" "m_sreg (flash_fill s b) = m_sreg s"
  "m_ireg (flash_fill s b) = push_bit 8 (m_ireg s) OR ucast b"
  "m_mem (flash_fill s b) = m_mem s" "m_addr (flash_fill s b) = m_addr s"
  "m_membytes (flash_fill s b) = m_membytes s" "m_memmask (flash_fill s b) = m_memmask s"
  "m_write_count (flash_fill s b) = m_write_count s"
  "m_last_sck (flash_fill s b) = m_last_sck s" "m_pmem (flash_fill s b) = m_pmem s"
  "m_oreg (flash_fill s b) = push_bit 8 (m_oreg s)"
  by (simp_all add: flash_fill_def)

text \<open>The first two address bytes only move through the input register.\<close>

definition flash_addr_step :: "flash \<Rightarrow> flash" where
  "flash_addr_step s =
     (let s' = flash_unthrottle (QOREG 0 s)
      in if m_state s = QSPIF_PP \<or> m_state s = QSPIF_SECTOR_ERASE then s' else s'\<lparr>m_oreg := 0\<rparr>)"

lemma flash_byte_addr:
  assumes "addressed (m_state s)" "m_count s = 16 \<or> m_count s = 24"
  shows "flash_byte s = Inr (flash_addr_step s)"
  using assms
  by (cases rule: addressedE)
     (auto simp: flash_byte_def flash_read_byte_def flash_write_byte_def flash_addr_step_def Let_def)

lemma flash_process_byte:
  "flash_not_xip s \<Longrightarrow> m_count s AND 7 = 0 \<Longrightarrow> m_count s \<noteq> 0 \<Longrightarrow> m_count s \<noteq> 8 \<Longrightarrow>
    flash_process s = flash_byte s"
  by (simp add: flash_process_def flash_not_xip_def)

lemma flash_phase_addr_step:
  assumes "flash_phase s0 st i c s" "addressed st" "c = 8 \<or> c = 16"
  shows "\<exists>s' x. flash_xfer s b = Inr (s', x) \<and> flash_phase s0 st (push_bit 8 i OR ucast b) (c + 8) s'"
proof -
  let ?t = "flash_addr_step (flash_fill s b)"
  have st: "m_state s = st" "m_count s = c" "m_mode s = FM_SPI" "m_last_sck s = 1" "m_write_count s = 0"
    using assms by (simp_all add: flash_phase_def)
  have xip: "flash_not_xip s" "flash_not_xip (flash_fill s b)"
    using assms(2) st by (simp_all add: addressed_not_xip)
  have "flash_process (flash_fill s b) = flash_byte (flash_fill s b)"
    using assms(3) st xip by (intro flash_process_byte) auto
  also have "\<dots> = Inr ?t"
    using assms(2,3) st by (intro flash_byte_addr) auto
  finally have proc: "flash_process (flash_fill s b) = Inr ?t" .
  have ph: "flash_phase s0 st (push_bit 8 i OR ucast b) (c + 8) ?t"
    using assms(1) by (simp add: flash_phase_def flash_addr_step_def Let_def)
  then obtain x where "flash_xfer s b = Inr (?t, x)"
    using flash_xfer_step [of s b ?t] proc st xip assms(3) unfolding flash_phase_def by auto
  with ph show ?thesis by blast
qed

lemma flash_ready_command:
  assumes "flash_ready s" "flash_process (flash_fill s b) = Inr s'" "flash_phase s st i 8 s'"
  shows "\<exists>x. flash_xfer s b = Inr (s', x)"
  using assms flash_xfer_step [of s b s'] by (auto simp: flash_ready_def flash_phase_def)

lemma and_eq_0_parts:
  "x AND 0x201 = 0 \<longleftrightarrow> x AND 0x200 = 0 \<and> x AND 1 = (0::u32)"
proof -
  have "x AND 0x201 = (x AND 0x200) OR (x AND 1)"
    by (simp flip: bit.conj_disj_distrib)
  then show ?thesis by (simp add: or_eq_0_iff)
qed

lemma command_byte: "(push_bit 8 i OR ucast (b::u8)) AND 0xff = (ucast b :: u32)"
proof -
  have "(push_bit 8 i OR ucast b) AND (0xff::u32) = take_bit 8 (push_bit 8 i OR ucast b)"
    by (simp add: take_bit_eq_mask mask_eq_exp_minus_1)
  also have "\<dots> = ucast b"
    by (rule bit_word_eqI) (auto simp: bit_simps dest: bit_imp_le_length)
  finally show ?thesis .
qed

lemma flash_process_command:
  assumes "flash_ready s"
  shows "flash_process (flash_fill s b) = flash_command (flash_fill s b)"
  using assms by (auto simp: flash_process_def flash_ready_def flash_not_xip_def)

end
