(* ===== verification/FlashRead.thy ===== *)
theory FlashRead
  imports FlashProps
begin

text \<open>
  The FAST READ command (0x0b): command, three address bytes, a dummy byte, then data.
\<close>

section \<open>The address phase\<close>

lemma QOREG_bit8: "bit (m_oreg (QOREG a s)) 8 = bit (m_oreg s) 8"
  by (simp add: QOREG_def bit_simps)

lemma QOREG_low [simp]: "ucast (m_oreg (QOREG (ucast (v::u8)) s)) = v"
  by (rule bit_word_eqI) (auto simp: QOREG_def bit_simps bit_0xff)

lemma flash_fill_command: "m_ireg (flash_fill s b) AND 0xff = ucast b"
  by (simp add: command_byte)

lemma flash_command_read:
  assumes "m_sreg s AND 0x200 = 0" "m_ireg s AND 0xff = 0x0b"
  shows "flash_command s = Inr ((QOREG 0xa5 s)\<lparr>m_state := QSPIF_FAST_READ\<rparr>)"
  using assms by (simp add: flash_command_def Let_def)

lemma flash_phase_start:
  assumes "flash_ready s"
    and "flash_command (flash_fill s b) = Inr ((QOREG 0xa5 (flash_fill s b))\<lparr>m_state := st\<rparr>)"
  shows "\<exists>s' x. flash_xfer s b = Inr (s', x) \<and> flash_phase s st (push_bit 8 (m_ireg s) OR ucast b) 8 s'"
proof -
  let ?s' = "(QOREG 0xa5 (flash_fill s b))\<lparr>m_state := st\<rparr>"
  have "flash_process (flash_fill s b) = Inr ?s'"
    using assms by (simp add: flash_process_command)
  moreover have "flash_phase s st (push_bit 8 (m_ireg s) OR ucast b) 8 ?s'"
    using assms(1) by (simp add: flash_phase_def flash_ready_def)
  ultimately show ?thesis using flash_ready_command [OF assms(1)] by blast
qed

text \<open>Command and two address bytes, for every command that takes an address.\<close>

lemma flash_phase_three:
  assumes "flash_ready s" "addressed st"
    and "flash_command (flash_fill s c) = Inr ((QOREG 0xa5 (flash_fill s c))\<lparr>m_state := st\<rparr>)"
  shows "\<exists>s' xs. run flash_xfer s [c, a2, a1] = Inr (s', xs) \<and>
    flash_phase s st (push_bit 8 (push_bit 8 (push_bit 8 (m_ireg s) OR ucast c) OR ucast a2) OR ucast a1) 24 s'"
proof -
  obtain s1 x1 where 1: "flash_xfer s c = Inr (s1, x1)"
    "flash_phase s st (push_bit 8 (m_ireg s) OR ucast c) 8 s1"
    using flash_phase_start [OF assms(1,3)] by blast
  obtain s2 x2 where 2: "flash_xfer s1 a2 = Inr (s2, x2)"
    "flash_phase s st (push_bit 8 (push_bit 8 (m_ireg s) OR ucast c) OR ucast a2) 16 s2"
    using flash_phase_addr_step [OF 1(2) assms(2), of a2] by auto
  obtain s3 x3 where 3: "flash_xfer s2 a1 = Inr (s3, x3)"
    "flash_phase s st (push_bit 8 (push_bit 8 (push_bit 8 (m_ireg s) OR ucast c) OR ucast a2) OR ucast a1) 24 s3"
    using flash_phase_addr_step [OF 2(2) assms(2), of a1] by auto
  from 1 2 3 show ?thesis by simp
qed

lemma push8_four:
  "push_bit 8 (push_bit 8 (push_bit 8 (push_bit 8 (i::u32) OR ucast c) OR ucast a2) OR ucast a1) OR ucast a0
     = word_of_bytes c a2 a1 a0"
proof -
  have "push_bit 8 (push_bit 8 (push_bit 8 (push_bit 8 i))) = 0"
    by (rule bit_word_eqI) (simp add: bit_simps)
  then show ?thesis by (simp add: push_bit_or push8_or_eq [symmetric])
qed

lemma flash_addr_eq:
  assumes "flash_wf lg s"
  shows "word_of_bytes c a2 a1 a0 AND m_memmask s = flash_addr s a2 a1 a0"
  using assms
  by (intro bit_word_eqI) (auto simp: flash_wf_def flash_addr_def bit_simps bit_word_of_bytes)

lemma flash_addr_less:
  assumes "flash_wf lg s"
  shows "flash_addr s a2 a1 a0 < m_membytes s"
proof -
  have "flash_addr s a2 a1 a0 = take_bit lg (word_of_bytes 0 a2 a1 a0)"
    using assms by (simp add: flash_addr_def flash_wf_def take_bit_eq_mask)
  moreover have "unat (take_bit lg x) < 2 ^ lg" for x :: u32
    by (simp add: unsigned_take_bit_eq)
  moreover have "unat (push_bit lg 1 :: u32) = 2 ^ lg"
    using assms by (intro unat_push_one) (simp add: flash_wf_def)
  ultimately show ?thesis
    using assms by (simp add: flash_wf_def word_less_nat_alt)
qed

section \<open>The data phase\<close>

definition flash_reading :: "flash \<Rightarrow> u32 \<Rightarrow> flash \<Rightarrow> bool" where
  "flash_reading s0 a s \<longleftrightarrow>
     flash_phase s0 QSPIF_FAST_READ (m_ireg s) (m_count s) s \<and> m_addr s = a \<and> m_count s AND 7 = 0
     \<and> 32 \<le> unat (m_count s)"

lemma count_add8:
  assumes "c AND 7 = 0" "32 \<le> unat c" "unat c + 8 < 2 ^ 32"
  shows "(c + 8) AND 7 = (0::u32)" "unat (c + 8) = unat c + 8" "c + 8 \<noteq> 0" "c + 8 \<noteq> 8"
    "c + 8 \<noteq> 32" "40 \<le> c + 8"
proof -
  show u: "unat (c + 8) = unat c + 8" using assms(3) by (simp add: unat_word_ariths)
  have "unat ((c + 8) AND 7) = unat (c AND 7)"
    by (simp add: unat_and_7 u)
  then have "(c + 8) AND 7 = c AND 7" by (rule unsigned_word_eqI)
  with assms(1) show "(c + 8) AND 7 = 0" by simp
  show "40 \<le> c + 8" using assms u by (simp add: word_le_nat_alt)
  then show "c + 8 \<noteq> 0" "c + 8 \<noteq> 8" "c + 8 \<noteq> 32" by auto
qed

lemma flash_read_step:
  assumes "flash_reading s0 a s" "m_sreg s0 AND 1 = 0" "a < m_membytes s0"
    and "unat (m_count s) + 8 < 2 ^ 32"
  shows "\<exists>s'. flash_xfer s d = Inr (s', ucast (m_oreg s)) \<and> flash_reading s0 (a + 1) s'
    \<and> m_count s' = m_count s + 8 \<and> ucast (m_oreg s') = m_mem s0 a"
proof -
  let ?f = "flash_unthrottle (QOREG 0 (flash_fill s d))"
  let ?s' = "(QOREG (ucast (m_mem s0 a)) ?f)\<lparr>m_addr := a + 1\<rparr>"
  have s: "m_state s = QSPIF_FAST_READ" "m_mode s = FM_SPI" "m_last_sck s = 1" "m_write_count s = 0"
      "m_mem s = m_mem s0" "m_sreg s = m_sreg s0" "m_membytes s = m_membytes s0" "m_addr s = a"
      "m_count s AND 7 = 0" "32 \<le> unat (m_count s)"
    using assms(1) by (simp_all add: flash_reading_def flash_phase_def)
  note c = count_add8 [OF s(9,10) assms(4)]
  have xip: "flash_not_xip s" "flash_not_xip (flash_fill s d)" using s by (simp_all add: flash_not_xip_def)
  have "flash_process (flash_fill s d) = flash_byte (flash_fill s d)"
    using c xip by (intro flash_process_byte) simp_all
  also have "\<dots> = Inr ?s'"
    using s c assms(2,3)
    by (simp add: flash_byte_def flash_read_byte_def flash_fetch_def)
  finally have proc: "flash_process (flash_fill s d) = Inr ?s'" .
  have "bit (m_oreg ?s') 8 = bit (m_oreg s) 0"
    by (simp add: QOREG_bit8 bit_simps)
  then have "flash_xfer s d = Inr (?s', ucast (m_oreg s))"
    using flash_xfer_step [OF s(2,3) xip(1) s(9,4) proc] s by simp
  moreover have "flash_reading s0 (a + 1) ?s'"
    using assms(1) c by (simp add: flash_reading_def flash_phase_def)
  ultimately show ?thesis by simp
qed

text \<open>Once a byte is waiting in the output register, the read streams the memory.\<close>

lemma flash_read_stream:
  assumes "flash_reading s0 (a + 1) s" "ucast (m_oreg s) = m_mem s0 a" "m_sreg s0 AND 1 = 0"
    and "unat a + length ds < unat (m_membytes s0)" "unat (m_count s) + 8 * length ds < 2 ^ 32"
  shows "\<exists>s'. run flash_xfer s ds = Inr (s', map (\<lambda>i. m_mem s0 (a + of_nat i)) [0..<length ds])
    \<and> flash_phase s0 QSPIF_FAST_READ (m_ireg s') (m_count s') s'"
  using assms
proof (induction ds arbitrary: a s)
  case Nil
  then show ?case by (simp add: flash_reading_def)
next
  case (Cons d ds)
  have lt: "unat a + 1 < unat (m_membytes s0)" using Cons.prems(4) by simp
  then have a1: "unat (a + 1) = unat a + 1"
    using unat_bound [of "m_membytes s0"] by (simp add: unat_word_ariths)
  obtain s1 where 1: "flash_xfer s d = Inr (s1, m_mem s0 a)" "flash_reading s0 (a + 1 + 1) s1"
    "m_count s1 = m_count s + 8" "ucast (m_oreg s1) = m_mem s0 (a + 1)"
    using flash_read_step [OF Cons.prems(1,3), of d] Cons.prems a1 lt
    by (auto simp: word_less_nat_alt)
  have "unat (m_count s1) = unat (m_count s) + 8"
    using Cons.prems(5) 1(3) by (simp add: unat_word_ariths)
  then obtain s2 where 2: "run flash_xfer s1 ds =
      Inr (s2, map (\<lambda>i. m_mem s0 (a + 1 + of_nat i)) [0..<length ds])"
    "flash_phase s0 QSPIF_FAST_READ (m_ireg s2) (m_count s2) s2"
    using Cons.IH [OF 1(2,4) Cons.prems(3)] Cons.prems(4,5) a1 by auto
  have "[0..<length (d # ds)] = 0 # map Suc [0..<length ds]"
    by (simp add: map_Suc_upt upt_conv_Cons del: upt_Suc)
  with 1 2 show ?case by (simp add: o_def add.assoc del: upt_Suc)
qed

lemma flash_read_head:
  fixes a2 a1 a0 :: u8
  assumes "flash_ready s" "flash_wf lg s"
  defines "a \<equiv> flash_addr s a2 a1 a0"
  shows "\<exists>s' xs. run flash_xfer s [0x0b, a2, a1, a0, dummy] = Inr (s', xs) \<and> length xs = 5 \<and>
    flash_reading s (a + 1) s' \<and> ucast (m_oreg s') = m_mem s a \<and> m_count s' = 40"
proof -
  have sreg: "m_sreg s AND 0x200 = 0" "m_sreg s AND 1 = 0"
    using assms(1) by (simp_all add: flash_ready_def and_eq_0_parts)
  have cmd: "flash_command (flash_fill s 0x0b) =
      Inr ((QOREG 0xa5 (flash_fill s 0x0b))\<lparr>m_state := QSPIF_FAST_READ\<rparr>)"
    using sreg flash_fill_command [of s "0x0b"] by (intro flash_command_read) simp_all
  have addr_st: "addressed QSPIF_FAST_READ" by (simp add: addressed_def)
  obtain s3 xs where 3: "run flash_xfer s [0x0b, a2, a1] = Inr (s3, xs)"
    "flash_phase s QSPIF_FAST_READ
      (push_bit 8 (push_bit 8 (push_bit 8 (m_ireg s) OR ucast (0x0b::u8)) OR ucast a2) OR ucast a1) 24 s3"
    using flash_phase_three [OF assms(1) addr_st cmd, of a2 a1] by blast
  let ?f = "flash_unthrottle (QOREG 0 (flash_fill s3 a0))"
  let ?s4 = "QOREG 0xc3 (flash_latch_addr ?f)"
  have s3: "m_state s3 = QSPIF_FAST_READ" "m_mode s3 = FM_SPI" "m_last_sck s3 = 1"
      "m_write_count s3 = 0" "m_count s3 = 24" "m_memmask s3 = m_memmask s"
    using 3(2) by (simp_all add: flash_phase_def)
  have addr: "m_ireg (flash_fill s3 a0) AND m_memmask s = a"
  proof -
    have "m_ireg (flash_fill s3 a0) = word_of_bytes 0x0b a2 a1 a0"
      using 3(2) by (simp only: flash_fill_frame flash_phase_def push8_four)
    then show ?thesis using flash_addr_eq [OF assms(2)] by (simp only: a_def)
  qed
  have xip: "flash_not_xip s3" "flash_not_xip (flash_fill s3 a0)" using s3 by (simp_all add: flash_not_xip_def)
  have "flash_process (flash_fill s3 a0) = flash_byte (flash_fill s3 a0)"
    using s3 xip by (intro flash_process_byte) simp_all
  also have "\<dots> = Inr ?s4"
    using s3 by (simp add: flash_byte_def flash_read_byte_def)
  finally have proc: "flash_process (flash_fill s3 a0) = Inr ?s4" .
  have "\<exists>x. flash_xfer s3 a0 = Inr (?s4, x)"
    using flash_xfer_step [OF s3(2,3) xip(1) _ s3(4) proc] s3 by (auto simp: flash_latch_addr_def)
  then obtain x4 where 4: "flash_xfer s3 a0 = Inr (?s4, x4)" by blast
  have r4: "flash_reading s a ?s4" "m_count ?s4 = 32"
    using 3(2) addr s3 by (simp_all add: flash_reading_def flash_phase_def flash_latch_addr_def)
  obtain s5 x5 where 5: "flash_xfer ?s4 dummy = Inr (s5, x5)" "flash_reading s (a + 1) s5"
    "m_count s5 = 40" "ucast (m_oreg s5) = m_mem s a"
    using flash_read_step [OF r4(1) sreg(2), where d = dummy] r4(2) flash_addr_less [OF assms(2)]
    by (auto simp: a_def)
  have "run flash_xfer s3 [a0, dummy] = Inr (s5, [x4, x5])" by (simp add: 4 5(1))
  then have "run flash_xfer s ([0x0b, a2, a1] @ [a0, dummy]) = Inr (s5, xs @ [x4, x5])"
    using 3(1) by (rule run_append_Inr [rotated])
  moreover have "length xs = 3" using run_length [OF 3(1)] by simp
  ultimately show ?thesis using 5(2-4) by (intro exI [of _ s5] exI [of _ "xs @ [x4, x5]"]) simp
qed

text \<open>Raising the chip select ends a read without touching anything that lasts.\<close>

lemma flash_deselect_read:
  assumes "flash_phase s0 QSPIF_FAST_READ i c s" "m_sreg s0 AND 0x201 = 0"
  shows "\<exists>s' x. flash_tick s 1 1 0 = Inr (s', x) \<and> flash_ready s' \<and> m_mem s' = m_mem s0
    \<and> m_sreg s' = m_sreg s0 \<and> m_membytes s' = m_membytes s0 \<and> m_memmask s' = m_memmask s0"
  using assms
  by (simp add: flash_phase_def flash_tick_def flash_deselect_def flash_deselect_state_def Let_def
      flash_ready_def flash_not_xip_def)

text \<open>
  C2: a FAST READ transaction returns, after the five bytes of command, address and dummy,
  exactly the memory from the given address on, leaves memory and status as they were and
  the device ready for the next command.  The data bytes the host sends do not matter.  The read
  stops before the last byte of the buffer: with that one the simulator prefetches the byte beyond.
\<close>

theorem flash_fast_read:
  assumes "flash_ready s" "flash_wf lg s"
    and "unat (flash_addr s a2 a1 a0) + length ds < unat (m_membytes s)"
    and "40 + 8 * length ds < 2 ^ 32"
  shows "\<exists>s' outs. flash_transact s ([0x0b, a2, a1, a0, dummy] @ ds) = Inr (s', outs)
    \<and> drop 5 outs = map (\<lambda>i. m_mem s (flash_addr s a2 a1 a0 + of_nat i)) [0..<length ds]
    \<and> m_mem s' = m_mem s \<and> m_sreg s' = m_sreg s \<and> flash_ready s' \<and> flash_wf lg s'"
proof -
  let ?a = "flash_addr s a2 a1 a0"
  have sreg: "m_sreg s AND 0x201 = 0" using assms(1) by (simp add: flash_ready_def)
  obtain s1 xs where 1: "run flash_xfer s [0x0b, a2, a1, a0, dummy] = Inr (s1, xs)" "length xs = 5"
    "flash_reading s (?a + 1) s1" "ucast (m_oreg s1) = m_mem s ?a" "m_count s1 = 40"
    using flash_read_head [OF assms(1,2), of a2 a1 a0 dummy] by blast
  obtain s2 where 2: "run flash_xfer s1 ds =
      Inr (s2, map (\<lambda>i. m_mem s (?a + of_nat i)) [0..<length ds])"
    "flash_phase s QSPIF_FAST_READ (m_ireg s2) (m_count s2) s2"
    using flash_read_stream [OF 1(3,4) _ assms(3)] sreg assms(4) 1(5) by (auto simp: and_eq_0_parts)
  obtain s3 x where 3: "flash_tick s2 1 1 0 = Inr (s3, x)" "flash_ready s3" "m_mem s3 = m_mem s"
    "m_sreg s3 = m_sreg s" "m_membytes s3 = m_membytes s" "m_memmask s3 = m_memmask s"
    using flash_deselect_read [OF 2(2) sreg] by blast
  have "run flash_xfer s ([0x0b, a2, a1, a0, dummy] @ ds) =
      Inr (s2, xs @ map (\<lambda>i. m_mem s (?a + of_nat i)) [0..<length ds])"
    using 1(1) 2(1) by (rule run_append_Inr)
  then have "flash_transact s ([0x0b, a2, a1, a0, dummy] @ ds) =
      Inr (s3, xs @ map (\<lambda>i. m_mem s (?a + of_nat i)) [0..<length ds])"
    using 3(1) by (simp add: flash_transact_def)
  then show ?thesis using 1(2) 3 assms(2) by (auto simp: flash_wf_def)
qed

text \<open>
  A concrete device: 64 kB, all of it 0xff but one byte, as the constructor and one
  store leave it.
\<close>

definition flash_blank :: flash where
  "flash_blank = flash_new
     \<lparr>m_state = QSPIF_IDLE, m_mem = (\<lambda>_. 0), m_pmem = (\<lambda>_. 0), m_last_sck = 0, m_write_count = 0,
      m_ireg = 0, m_oreg = 0, m_sreg = 0, m_addr = 0, m_count = 0, m_config = 0, m_mode_byte = 0,
      m_creg = 0, m_membytes = 0, m_memmask = 0, m_debug = False, m_idle_throttle = False,
      m_mode = FM_SPI, CKDELAY = 0, RDDELAY = 0, NDUMMY = 0, m_ckdelay = None, m_rddelay = None\<rparr>
     16 False 3 10"

lemma flash_blank_ready: "flash_ready flash_blank"
  by (simp add: flash_blank_def flash_new_def flash_ready_def flash_not_xip_def)

lemma flash_blank_wf: "flash_wf 16 flash_blank"
  by (simp add: flash_blank_def flash_new_def flash_wf_def mask_eq_exp_minus_1)

lemma flash_blank_bytes: "m_membytes flash_blank = 65536" "m_memmask flash_blank = 65535"
  by (simp_all add: flash_blank_def flash_new_def)

lemma flash_blank_addr: "flash_addr flash_blank 0 1 2 = 0x102"
  by (simp add: flash_addr_def flash_blank_bytes word_of_bytes_def)

theorem flash_fast_read_witness:
  "\<exists>s' outs. flash_transact flash_blank ([0x0b, 0, 1, 2, 0] @ [0, 0, 0]) = Inr (s', outs)
    \<and> drop 5 outs = [m_mem flash_blank 0x102, m_mem flash_blank 0x103, m_mem flash_blank 0x104]
    \<and> m_mem s' = m_mem flash_blank \<and> m_sreg s' = m_sreg flash_blank \<and> flash_ready s' \<and> flash_wf 16 s'"
  using flash_fast_read [OF flash_blank_ready flash_blank_wf, of 0 1 2 "[0, 0, 0]" 0]
  by (simp add: flash_blank_addr flash_blank_bytes)

text \<open>
  the byte after the one on the wire is fetched while that one is shifted out, so a read
  that reaches the last byte of the memory steps outside the buffer: a FAST READ of the last
  byte faults.
\<close>

theorem flash_read_past_end:
  assumes "flash_ready s" "flash_wf lg s"
    and "unat (flash_addr s a2 a1 a0) + 1 = unat (m_membytes s)"
  shows "flash_transact s ([0x0b, a2, a1, a0, dummy] @ [d]) = Inl OutOfBounds"
proof -
  let ?a = "flash_addr s a2 a1 a0"
  obtain s1 xs where 1: "run flash_xfer s [0x0b, a2, a1, a0, dummy] = Inr (s1, xs)"
    "flash_reading s (?a + 1) s1" "m_count s1 = 40"
    using flash_read_head [OF assms(1,2), of a2 a1 a0 dummy] by blast
  have s1: "m_state s1 = QSPIF_FAST_READ" "m_mode s1 = FM_SPI" "m_last_sck s1 = 1" "m_write_count s1 = 0"
      "m_sreg s1 AND 1 = 0" "m_membytes s1 = m_membytes s" "m_addr s1 = ?a + 1"
    using 1(2) assms(1)
    by (simp_all add: flash_reading_def flash_phase_def flash_ready_def and_eq_0_parts)
  have "?a + 1 = m_membytes s"
    using assms(3) unat_bound [of "m_membytes s"]
    by (intro word_unat_eq_iff [THEN iffD2]) (simp add: unat_word_ariths)
  then have "flash_process (flash_fill s1 d) = Inl OutOfBounds"
    using s1 1(3)
    by (simp add: flash_process_def flash_byte_def flash_read_byte_def flash_fetch_def)
  then have "flash_xfer s1 d = Inl OutOfBounds"
    using s1 1(3) by (simp add: flash_xfer_eq flash_not_xip_def flash_load_byte_idle)
  then show ?thesis
    using 1(1) by (simp only: flash_transact_def run_append) simp
qed

theorem flash_read_past_end_witness:
  "flash_transact flash_blank ([0x0b, 0, 0xff, 0xff, 0] @ [0]) = Inl OutOfBounds"
  by (rule flash_read_past_end [OF flash_blank_ready flash_blank_wf])
     (simp add: flash_addr_def flash_blank_bytes word_of_bytes_def)

end
