(* ===== verification/FlashWrite.thy ===== *)
theory FlashWrite
  imports FlashRead
begin

text \<open>
  The write side of the simulated flash: write enable, page program and sector erase as
  whole transactions, the time they take, and which ticks may change the memory at all.
\<close>

section \<open>Blocks of memory\<close>

definition block_of :: "nat \<Rightarrow> u32 \<Rightarrow> u32" where
  "block_of n a = push_bit n (drop_bit n a)"

lemma block_of_eq: "block_of n a = a AND NOT (mask n)"
  by (rule bit_word_eqI) (auto simp: block_of_def bit_simps)

lemma and_not_ff: "a AND NOT 0xff = block_of 8 a" for a :: u32
  by (simp add: block_of_eq mask_eq_exp_minus_1)

lemma and_push_16: "a AND push_bit 16 (- 1) = block_of 16 a" for a :: u32
  by (simp add: block_of_eq)

lemma unat_block_of: "unat (block_of n a) = unat a div 2 ^ n * 2 ^ n"
proof -
  have "unat a div 2 ^ n * 2 ^ n \<le> unat a" by simp
  then have "unat a div 2 ^ n * 2 ^ n < 2 ^ 32"
    using unat_bound [of a] by (rule le_less_trans)
  moreover have "unat (block_of n a) = take_bit 32 (push_bit n (drop_bit n (take_bit 32 (unat a))))"
    by (simp only: block_of_def unsigned_push_bit_eq unsigned_drop_bit_eq) simp
  ultimately show ?thesis
    using unat_bound [of a] by (simp add: drop_bit_eq_div push_bit_eq_mult take_bit_eq_mod)
qed

lemma block_in_bounds:
  assumes "unat a < 2 ^ lg" "n \<le> lg"
  shows "unat (block_of n a) + (2 ^ n - 1) < 2 ^ lg"
proof -
  have split: "(2::nat) ^ lg = 2 ^ (lg - n) * 2 ^ n" using assms(2) by (simp flip: power_add)
  with assms(1) have "unat a div 2 ^ n < 2 ^ (lg - n)"
    by (simp add: less_mult_imp_div_less)
  then have "(unat a div 2 ^ n + 1) * 2 ^ n \<le> 2 ^ lg"
    unfolding split by (intro mult_le_mono1) simp
  then have "unat a div 2 ^ n * 2 ^ n + 2 ^ n \<le> 2 ^ lg" by (simp only: add_mult_distrib mult_1)
  moreover have "(2::nat) ^ n > 0" by simp
  ultimately show ?thesis unfolding unat_block_of by linarith
qed

lemma block_of_mask:
  assumes "flash_wf lg s" "n \<le> lg" "unat a < 2 ^ lg"
  shows "unat (block_of n a) + (2 ^ n - 1) < unat (m_membytes s)"
  using block_in_bounds [OF assms(3,2)] assms(1) unat_push_one [of lg]
  by (simp add: flash_wf_def)

lemma flash_addr_bound:
  assumes "flash_wf lg s"
  shows "unat (flash_addr s a2 a1 a0) < 2 ^ lg"
  using flash_addr_less [OF assms, of a2 a1 a0] assms unat_push_one [of lg]
  by (simp add: flash_wf_def word_less_nat_alt)

section \<open>The page buffer\<close>

text \<open>
  What the page buffer holds after data bytes, starting at offset \<open>o\<close>: the offset wraps at
  the end of the page.
\<close>

fun page_fill :: "(u32 \<Rightarrow> u8) \<Rightarrow> u32 \<Rightarrow> u8 list \<Rightarrow> u32 \<Rightarrow> u8" where
  "page_fill p off [] = p"
| "page_fill p off (d # ds) = page_fill (p(off AND 0xff := d)) (off + 1) ds"

lemma and_ff: "(a::u32) AND 0xff = take_bit 8 a"
  by (simp add: take_bit_eq_mask mask_eq_exp_minus_1)

lemma and_ff_eq_iff:
  fixes a b :: u32
  shows "a AND 0xff = b AND 0xff \<longleftrightarrow> unat a mod 256 = unat b mod 256"
  by (simp only: and_ff word_unat_eq_iff unsigned_take_bit_eq) (simp add: take_bit_eq_mod)

lemma mod_256_shift:
  assumes "0 < k" "k < (256::nat)"
  shows "(m + k) mod 256 \<noteq> m mod 256"
proof
  assume "(m + k) mod 256 = m mod 256"
  then have "256 dvd k" using mod_eq_dvd_iff_nat [of m "m + k" 256] by simp
  with assms show False by (simp add: nat_dvd_not_less)
qed

lemma unat_add_mod256: "unat (a + of_nat k :: u32) mod 256 = (unat a + k) mod 256"
proof -
  have "unat (a + of_nat k :: u32) mod 256 = (unat a + k mod 2 ^ 32) mod 2 ^ 32 mod 256"
    by (simp add: unat_word_ariths unat_of_nat)
  also have "\<dots> = (unat a + k mod 2 ^ 32) mod 256" by (rule mod_mod_cancel) simp
  also have "\<dots> = (unat a + k mod 2 ^ 32 mod 256) mod 256" by (simp add: mod_add_right_eq)
  also have "k mod 2 ^ 32 mod 256 = k mod 256" by (rule mod_mod_cancel) simp
  finally show ?thesis by (simp add: mod_add_right_eq)
qed

lemma page_fill_other:
  assumes "\<And>i. i < length ds \<Longrightarrow> k \<noteq> (off + of_nat i) AND 0xff"
  shows "page_fill p off ds k = p k"
  using assms
proof (induction ds arbitrary: p off)
  case Nil
  then show ?case by simp
next
  case (Cons d ds)
  have "k \<noteq> off AND 0xff" using Cons.prems [of 0] by simp
  moreover have "page_fill (p(off AND 0xff := d)) (off + 1) ds k = (p(off AND 0xff := d)) k"
    using Cons.prems [of "Suc i" for i] by (intro Cons.IH) (simp add: add.assoc)
  ultimately show ?case by simp
qed

lemma page_fill_nth:
  assumes "length ds \<le> 256" "i < length ds"
  shows "page_fill p off ds ((off + of_nat i) AND 0xff) = ds ! i"
  using assms
proof (induction ds arbitrary: p off i)
  case Nil
  then show ?case by simp
next
  case (Cons d ds)
  show ?case
  proof (cases i)
    case 0
    have "page_fill (p(off AND 0xff := d)) (off + 1) ds (off AND 0xff) = (p(off AND 0xff := d)) (off AND 0xff)"
    proof (rule page_fill_other)
      fix j assume "j < length ds"
      with Cons.prems have "Suc j < 256" by simp
      then have "(unat off + Suc j) mod 256 \<noteq> unat off mod 256"
        by (intro mod_256_shift) simp_all
      moreover have "off + 1 + of_nat j = off + of_nat (Suc j)" by simp
      ultimately show "off AND 0xff \<noteq> (off + 1 + of_nat j) AND 0xff"
        by (simp only: and_ff_eq_iff unat_add_mod256 not_sym)
    qed
    with 0 show ?thesis by simp
  next
    case (Suc j)
    with Cons.prems Cons.IH [of j "p(off AND 0xff := d)" "off + 1"] show ?thesis
      by (simp add: add.assoc del: fun_upd_apply)
  qed
qed

section \<open>Page program\<close>

definition flash_programming :: "flash \<Rightarrow> u32 \<Rightarrow> u32 \<Rightarrow> (u32 \<Rightarrow> u8) \<Rightarrow> flash \<Rightarrow> bool" where
  "flash_programming s0 base off p s \<longleftrightarrow>
     flash_phase s0 QSPIF_PP (m_ireg s) (m_count s) s \<and> m_addr s AND NOT 0xff = base
     \<and> m_addr s AND 0xff = off AND 0xff \<and> m_pmem s = p \<and> m_count s AND 7 = 0
     \<and> 32 \<le> unat (m_count s)"

lemma page_addr_step:
  fixes a :: u32
  shows "((a AND NOT 0xff) OR ((a + 1) AND 0xff)) AND NOT 0xff = a AND NOT 0xff"
    and "((a AND NOT 0xff) OR ((a + 1) AND 0xff)) AND 0xff = (a + 1) AND 0xff"
  by (rule bit_word_eqI, auto simp: bit_simps)+

lemma and_ff_Suc:
  fixes a b :: u32
  assumes "a AND 0xff = b AND 0xff"
  shows "(a + 1) AND 0xff = (b + 1) AND 0xff"
proof -
  have "unat a mod 256 = unat b mod 256" using assms by (simp only: and_ff_eq_iff)
  then have "(unat a + 1) mod 256 = (unat b + 1) mod 256" by (rule mod_add_cong) simp
  then show ?thesis
    using unat_add_mod256 [of a 1] unat_add_mod256 [of b 1] by (simp add: and_ff_eq_iff)
qed

lemma flash_program_step:
  assumes "flash_programming s0 base off p s" "unat (m_count s) + 8 < 2 ^ 32"
  shows "\<exists>s' x. flash_xfer s d = Inr (s', x)
    \<and> flash_programming s0 base (off + 1) (p(off AND 0xff := d)) s' \<and> m_count s' = m_count s + 8"
proof -
  let ?f = "flash_unthrottle (QOREG 0 (flash_fill s d))"
  let ?s' = "flash_page_byte ?f"
  have s: "m_state s = QSPIF_PP" "m_mode s = FM_SPI" "m_last_sck s = 1" "m_write_count s = 0"
      "m_addr s AND 0xff = off AND 0xff" "m_count s AND 7 = 0" "32 \<le> unat (m_count s)"
    using assms(1) by (simp_all add: flash_programming_def flash_phase_def)
  note c = count_add8 [OF s(6,7) assms(2)]
  have xip: "flash_not_xip s" "flash_not_xip (flash_fill s d)" using s by (simp_all add: flash_not_xip_def)
  have "flash_process (flash_fill s d) = flash_byte (flash_fill s d)"
    using c xip by (intro flash_process_byte) simp_all
  also have "\<dots> = Inr ?s'"
    using s c by (simp add: flash_byte_def flash_write_byte_def)
  finally have proc: "flash_process (flash_fill s d) = Inr ?s'" .
  have d: "(ucast ((push_bit 8 (m_ireg s) OR ucast d) AND (0xff :: u32)) :: u8) = d"
    by (simp only: command_byte) simp
  have "flash_programming s0 base (off + 1) (p(off AND 0xff := d)) ?s'"
    using assms(1) c d page_addr_step [of "m_addr s"] and_ff_Suc [OF s(5)]
    by (simp add: flash_programming_def flash_phase_def flash_page_byte_def)
  moreover have "m_count ?s' = m_count s + 8" by (simp add: flash_page_byte_def)
  moreover have "\<exists>x. flash_xfer s d = Inr (?s', x)"
    using flash_xfer_step [OF s(2,3) xip(1) s(6,4) proc] s by (auto simp: flash_page_byte_def)
  ultimately show ?thesis by blast
qed

lemma flash_program_stream:
  assumes "flash_programming s0 base off p s" "unat (m_count s) + 8 * length ds < 2 ^ 32"
  shows "\<exists>s' xs. run flash_xfer s ds = Inr (s', xs)
    \<and> flash_programming s0 base (off + of_nat (length ds)) (page_fill p off ds) s'"
  using assms
proof (induction ds arbitrary: s p off)
  case Nil
  then show ?case by simp
next
  case (Cons d ds)
  obtain s1 x where 1: "flash_xfer s d = Inr (s1, x)"
    "flash_programming s0 base (off + 1) (p(off AND 0xff := d)) s1" "m_count s1 = m_count s + 8"
    using flash_program_step [OF Cons.prems(1)] Cons.prems(2) by fastforce
  have "unat (m_count s1) = unat (m_count s) + 8"
    using Cons.prems(2) 1(3) by (simp add: unat_word_ariths)
  then obtain s2 xs where "run flash_xfer s1 ds = Inr (s2, xs)"
    "flash_programming s0 base (off + 1 + of_nat (length ds))
       (page_fill (p(off AND 0xff := d)) (off + 1) ds) s2"
    using Cons.IH [OF 1(2)] Cons.prems(2) by (auto simp del: fun_upd_apply)
  with 1(1) show ?case by (simp add: add.assoc del: fun_upd_apply)
qed

lemma write_enabled:
  fixes x :: u32
  assumes "x AND 0x201 = 0" "x AND 2 \<noteq> 0"
  shows "x AND 0x203 = 2"
proof -
  have "x AND 0x203 = (x AND 0x201) OR (x AND 2)"
    by (simp flip: bit.conj_disj_distrib)
  moreover have "x AND 2 = 2"
  proof -
    have "bit x 1" using assms(2) bit_iff_and_push_bit_not_eq_0 [of x 1] by simp
    moreover have "(2::u32) = push_bit 1 1" by simp
    ultimately have "x AND push_bit 1 1 = push_bit 1 1"
      by (intro bit_word_eqI) (simp only: bit_and_iff bit_push_bit_iff bit_1_iff, auto)
    then show ?thesis by simp
  qed
  ultimately show ?thesis using assms(1) by simp
qed

lemma flash_program_head:
  fixes a2 a1 a0 :: u8
  assumes "flash_ready s" "flash_wf lg s" "\<not> flash_write_protect s"
  defines "a \<equiv> flash_addr s a2 a1 a0"
  shows "\<exists>s' xs. run flash_xfer s [0x02, a2, a1, a0] = Inr (s', xs) \<and> length xs = 4
    \<and> flash_programming s (a AND NOT 0xff) a (\<lambda>_. 0xff) s' \<and> m_count s' = 32"
proof -
  have sreg: "m_sreg s AND 0x200 = 0" "m_sreg s AND 0x203 = 2"
    using assms(1,3) write_enabled [of "m_sreg s"]
    by (simp_all add: flash_ready_def flash_write_protect_def and_eq_0_parts)
  have cmd: "flash_command (flash_fill s 0x02) =
      Inr ((QOREG 0xa5 (flash_fill s 0x02))\<lparr>m_state := QSPIF_PP\<rparr>)"
    using sreg flash_fill_command [of s "0x02"]
    by (simp add: flash_command_def flash_write_command_def Let_def del: flash_fill_frame(5))
  have addr_st: "addressed QSPIF_PP" by (simp add: addressed_def)
  obtain s3 xs where 3: "run flash_xfer s [0x02, a2, a1] = Inr (s3, xs)"
    "flash_phase s QSPIF_PP
      (push_bit 8 (push_bit 8 (push_bit 8 (m_ireg s) OR ucast (0x02::u8)) OR ucast a2) OR ucast a1) 24 s3"
    using flash_phase_three [OF assms(1) addr_st cmd, of a2 a1] by blast
  let ?f = "flash_unthrottle (QOREG 0 (flash_fill s3 a0))"
  let ?s4 = "(flash_latch_addr ?f)\<lparr>m_pmem := (\<lambda>_. 0xff)\<rparr>"
  have s3: "m_state s3 = QSPIF_PP" "m_mode s3 = FM_SPI" "m_last_sck s3 = 1"
      "m_write_count s3 = 0" "m_count s3 = 24" "m_memmask s3 = m_memmask s"
    using 3(2) by (simp_all add: flash_phase_def)
  have addr: "m_ireg (flash_fill s3 a0) AND m_memmask s = a"
  proof -
    have "m_ireg (flash_fill s3 a0) = word_of_bytes 0x02 a2 a1 a0"
      using 3(2) by (simp only: flash_fill_frame flash_phase_def push8_four)
    then show ?thesis using flash_addr_eq [OF assms(2)] by (simp only: a_def)
  qed
  have xip: "flash_not_xip s3" "flash_not_xip (flash_fill s3 a0)" using s3 by (simp_all add: flash_not_xip_def)
  have "flash_process (flash_fill s3 a0) = flash_byte (flash_fill s3 a0)"
    using s3 xip by (intro flash_process_byte) simp_all
  also have "\<dots> = Inr ?s4"
    using s3 by (simp add: flash_byte_def flash_write_byte_def)
  finally have proc: "flash_process (flash_fill s3 a0) = Inr ?s4" .
  obtain x4 where 4: "flash_xfer s3 a0 = Inr (?s4, x4)"
    using flash_xfer_step [OF s3(2,3) xip(1) _ s3(4) proc] s3 by (auto simp: flash_latch_addr_def)
  have r4: "flash_programming s (a AND NOT 0xff) a (\<lambda>_. 0xff) ?s4" "m_count ?s4 = 32"
    using 3(2) addr s3 by (simp_all add: flash_programming_def flash_phase_def flash_latch_addr_def)
  have "run flash_xfer s3 [a0] = Inr (?s4, [x4])" by (simp add: 4)
  then have "run flash_xfer s ([0x02, a2, a1] @ [a0]) = Inr (?s4, xs @ [x4])"
    using 3(1) by (rule run_append_Inr [rotated])
  moreover have "length xs = 3" using run_length [OF 3(1)] by simp
  ultimately show ?thesis
    using r4 by (intro exI [of _ ?s4] exI [of _ "xs @ [x4]"]) simp
qed

text \<open>A device with a write running: deselected, \<open>t\<close> ticks from done.\<close>

definition flash_busy :: "u32 \<Rightarrow> flash \<Rightarrow> bool" where
  "flash_busy t s \<longleftrightarrow> m_mode s = FM_SPI \<and> m_last_sck s = 1 \<and> m_count s = 0
     \<and> m_state s = QSPIF_IDLE \<and> m_write_count s = t \<and> 0 < t \<and> m_sreg s AND 0x201 = 1"

lemma flash_busy_sreg:
  fixes x :: u32
  assumes "x AND 0x201 = 0"
  shows "((x AND NOT 2) OR 1) AND 0x201 = 1"
proof -
  have "((x AND NOT 2) OR 1) AND 0x201 = ((x AND 0x201) AND NOT 2) OR (1 AND 0x201)"
    by (simp add: bit.conj_disj_distrib2 and.assoc and.commute and.left_commute)
  then show ?thesis using assms by simp
qed

lemma flash_deselect_program:
  assumes "flash_programming s0 base off p s" "unat base + 255 < unat (m_membytes s0)"
    and "m_sreg s0 AND 0x201 = 0"
  shows "\<exists>s' x. flash_tick s 1 1 0 = Inr (s', x) \<and> flash_busy tPP s'
    \<and> m_mem s' = (\<lambda>a. if a AND NOT 0xff = base then m_mem s0 a AND p (a AND 0xff) else m_mem s0 a)
    \<and> m_sreg s' = (m_sreg s0 AND NOT 2) OR 1
    \<and> m_membytes s' = m_membytes s0 \<and> m_memmask s' = m_memmask s0"
  using assms flash_busy_sreg [OF assms(3)]
  by (auto simp: flash_programming_def flash_phase_def flash_tick_def flash_deselect_def
      flash_deselect_state_def flash_begin_write_def flash_program_page_def Let_def
      flash_busy_def flash_times)

text \<open>The whole page-program transaction, byte by byte.\<close>

lemma page_program_transaction:
  assumes "flash_ready s" "flash_wf lg s" "\<not> flash_write_protect s"
    and "32 + 8 * length ds < 2 ^ 32"
  shows "\<exists>s' outs. flash_transact s ([0x02, a2, a1, a0] @ ds) = Inr (s', outs)
    \<and> m_mem s' = (\<lambda>a. if a AND NOT 0xff = flash_addr s a2 a1 a0 AND NOT 0xff
        then m_mem s a AND page_fill (\<lambda>_. 0xff) (flash_addr s a2 a1 a0) ds (a AND 0xff)
        else m_mem s a)
    \<and> flash_write_protect s' \<and> flash_busy tPP s' \<and> flash_wf lg s'"
proof -
  let ?a = "flash_addr s a2 a1 a0" and ?p = "\<lambda>_. 0xff :: u8"
  obtain s1 xs where 1: "run flash_xfer s [0x02, a2, a1, a0] = Inr (s1, xs)"
    "flash_programming s (?a AND NOT 0xff) ?a ?p s1" "m_count s1 = 32"
    using flash_program_head [OF assms(1-3), of a2 a1 a0] by blast
  obtain s2 ys where 2: "run flash_xfer s1 ds = Inr (s2, ys)"
    "flash_programming s (?a AND NOT 0xff) (?a + of_nat (length ds)) (page_fill ?p ?a ds) s2"
    using flash_program_stream [OF 1(2), of ds] 1(3) assms(4) by auto
  have "8 \<le> lg" using assms(2) by (simp add: flash_wf_def)
  then have bounds: "unat (?a AND NOT 0xff) + 255 < unat (m_membytes s)"
    using block_of_mask [OF assms(2) \<open>8 \<le> lg\<close> flash_addr_bound [OF assms(2)]]
    unfolding and_not_ff by simp
  have sreg: "m_sreg s AND 0x201 = 0" using assms(1) by (simp add: flash_ready_def)
  obtain s3 x where 3: "flash_tick s2 1 1 0 = Inr (s3, x)" "flash_busy tPP s3"
    "m_mem s3 = (\<lambda>a. if a AND NOT 0xff = ?a AND NOT 0xff
       then m_mem s a AND page_fill ?p ?a ds (a AND 0xff) else m_mem s a)"
    "m_sreg s3 = (m_sreg s AND NOT 2) OR 1" "m_membytes s3 = m_membytes s" "m_memmask s3 = m_memmask s"
    using flash_deselect_program [OF 2(2) bounds sreg] by blast
  have "((y AND NOT 2) OR 1) AND 2 = (0::u32)" for y
    by (simp add: bit.conj_disj_distrib2 and.assoc)
  then have "flash_write_protect s3" using 3(4) by (simp add: flash_write_protect_def)
  moreover have "run flash_xfer s ([0x02, a2, a1, a0] @ ds) = Inr (s2, xs @ ys)"
    using 1(1) 2(1) by (rule run_append_Inr)
  then have "flash_transact s ([0x02, a2, a1, a0] @ ds) = Inr (s3, xs @ ys)"
    using 3(1) by (simp only: flash_transact_def rbind_simps prod.case)
  moreover have "flash_wf lg s3" using assms(2) 3(5,6) by (simp add: flash_wf_def)
  ultimately show ?thesis using 3(2,3) by (intro exI [of _ s3] exI [of _ "xs @ ys"]) simp
qed

text \<open>
  C10: page program.  With the write-enable latch set, a PAGE PROGRAM transaction of any
  length clears, in the addressed page only, the bits that are clear in the data: the page
  buffer starts at 0xff and the data wrap around inside the page.  It drops the latch, raises
  write-in-progress and starts the page-program timer.
\<close>

theorem flash_page_program:
  assumes "flash_ready s" "flash_wf lg s" "\<not> flash_write_protect s"
    and "32 + 8 * length ds < 2 ^ 32"
  shows "\<exists>s' outs. flash_transact s ([0x02, a2, a1, a0] @ ds) = Inr (s', outs)
    \<and> m_mem s' = (\<lambda>a. if a AND NOT 0xff = flash_addr s a2 a1 a0 AND NOT 0xff
        then m_mem s a AND page_fill (\<lambda>_. 0xff) (flash_addr s a2 a1 a0) ds (a AND 0xff)
        else m_mem s a)
    \<and> flash_write_protect s' \<and> flash_busy tPP s' \<and> flash_wf lg s'"
  using assms by (rule page_program_transaction)

definition flash_enabled :: flash where
  "flash_enabled = flash_blank\<lparr>m_sreg := 0x1e\<rparr>"

lemma flash_enabled_facts:
  "flash_ready flash_enabled" "flash_wf 16 flash_enabled" "\<not> flash_write_protect flash_enabled"
  "m_memmask flash_enabled = 0xffff" "m_mem flash_enabled = (\<lambda>_. 0xff)"
  by (simp_all add: flash_enabled_def flash_blank_def flash_new_def flash_ready_def flash_not_xip_def
      flash_wf_def flash_write_protect_def mask_eq_exp_minus_1)

theorem flash_page_program_witness:
  "\<exists>s' outs. flash_transact flash_enabled ([0x02, 0, 1, 0xff] @ [0xab, 0xcd]) = Inr (s', outs)
    \<and> m_mem s' 0x1ff = 0xab \<and> m_mem s' 0x100 = 0xcd \<and> m_mem s' 0x101 = 0xff \<and> flash_busy tPP s'"
proof -
  have a: "flash_addr flash_enabled 0 1 0xff = 0x1ff"
    by (simp add: flash_addr_def flash_enabled_facts word_of_bytes_def)
  show ?thesis
    using flash_page_program [OF flash_enabled_facts(1-3), of "[0xab, 0xcd]" 0 1 "0xff"]
    by (auto simp: a flash_enabled_facts)
qed

section \<open>Waiting for a write\<close>

text \<open>A tick with the chip deselected and nothing pending only runs the timer.\<close>

definition flash_idle_tick :: "flash \<Rightarrow> unit \<Rightarrow> fault + flash \<times> u32" where
  "flash_idle_tick s u = flash_tick s 1 1 0"

lemma flash_busy_tick:
  assumes "flash_busy t s" "1 < t"
  shows "\<exists>s' x. flash_idle_tick s u = Inr (s', x) \<and> flash_busy (t - 1) s'
    \<and> m_mem s' = m_mem s \<and> m_sreg s' = m_sreg s \<and> m_membytes s' = m_membytes s \<and> m_memmask s' = m_memmask s"
proof -
  have "t - 1 \<noteq> 0" "0 < t - 1" using assms(2) by (auto simp: word_gt_0)
  then show ?thesis
    using assms
    by (simp add: flash_idle_tick_def flash_tick_def flash_timer_def flash_deselect_def
        flash_deselect_state_def Let_def flash_busy_def)
qed

lemma flash_busy_last:
  assumes "flash_busy 1 s"
  shows "\<exists>s' x. flash_idle_tick s u = Inr (s', x) \<and> flash_ready s'
    \<and> m_mem s' = m_mem s \<and> m_sreg s' = m_sreg s AND 0xfc \<and> m_membytes s' = m_membytes s
    \<and> m_memmask s' = m_memmask s"
proof -
  have "(x AND 0xfc) AND 0x201 = (0::u32)" for x by (simp add: and.assoc)
  then show ?thesis
    using assms
    by (simp add: flash_idle_tick_def flash_tick_def flash_timer_def flash_deselect_def
        flash_deselect_state_def Let_def flash_busy_def flash_ready_def flash_not_xip_def)
qed

text \<open>
  a write that still needs \<open>t\<close> ticks reports write-in-progress on each of the next
  \<open>t - 1\<close> ticks and makes the device ready, latch and progress flag cleared and memory as
  written, with the \<open>t\<close>-th: no sooner and no later.
\<close>

theorem flash_write_completes:
  assumes "flash_busy (of_nat (Suc n)) s" "Suc n < 2 ^ 32"
  shows "(\<forall>k \<le> n. \<exists>s' xs. run flash_idle_tick s (replicate k ()) = Inr (s', xs)
            \<and> flash_busy (of_nat (Suc n - k)) s')
    \<and> (\<exists>s' xs. run flash_idle_tick s (replicate (Suc n) ()) = Inr (s', xs) \<and> flash_ready s'
            \<and> m_mem s' = m_mem s \<and> m_sreg s' = m_sreg s AND 0xfc \<and> m_membytes s' = m_membytes s
            \<and> m_memmask s' = m_memmask s)"
  using assms
proof (induction n arbitrary: s)
  case 0
  then show ?case using flash_busy_last [of s "()"] by auto
next
  case (Suc n)
  have "1 < (of_nat (Suc (Suc n)) :: u32)"
    using Suc.prems(2) by (simp add: word_less_nat_alt unat_of_nat del: of_nat_Suc)
  then obtain s1 x where 1: "flash_idle_tick s () = Inr (s1, x)" "flash_busy (of_nat (Suc n)) s1"
    "m_mem s1 = m_mem s" "m_sreg s1 = m_sreg s" "m_membytes s1 = m_membytes s" "m_memmask s1 = m_memmask s"
    using flash_busy_tick [OF Suc.prems(1), of "()"] by auto
  note IH = Suc.IH [OF 1(2)]
  have early: "\<exists>s' xs. run flash_idle_tick s (replicate k ()) = Inr (s', xs)
      \<and> flash_busy (of_nat (Suc (Suc n) - k)) s'" if "k \<le> Suc n" for k
  proof (cases k)
    case 0
    with Suc.prems show ?thesis by simp
  next
    case (Suc j)
    with that IH Suc.prems(2) obtain s' xs where "run flash_idle_tick s1 (replicate j ()) = Inr (s', xs)"
      "flash_busy (of_nat (Suc n - j)) s'" by fastforce
    with 1(1) Suc show ?thesis by simp
  qed
  obtain s' xs where 2: "run flash_idle_tick s1 (replicate (Suc n) ()) = Inr (s', xs)"
    "flash_ready s'" "m_mem s' = m_mem s1" "m_sreg s' = m_sreg s1 AND 0xfc"
    "m_membytes s' = m_membytes s1" "m_memmask s' = m_memmask s1"
    using IH Suc.prems(2) by auto
  have "replicate (Suc (Suc n)) () = () # replicate (Suc n) ()" by simp
  then have "run flash_idle_tick s (replicate (Suc (Suc n)) ()) = Inr (s', x # xs)"
    by (simp only: run.simps 1(1) 2(1) rbind_simps prod.case)
  with early 2 show ?case unfolding 1(3-6) by blast
qed

theorem flash_write_completes_witness:
  "\<exists>s' xs. run flash_idle_tick (flash_enabled\<lparr>m_write_count := 3, m_sreg := 1\<rparr>) [(), (), ()] = Inr (s', xs)
    \<and> flash_ready s' \<and> m_sreg s' = 0"
proof -
  have "flash_busy (of_nat (Suc 2)) (flash_enabled\<lparr>m_write_count := 3, m_sreg := 1\<rparr>)"
    by (simp add: flash_busy_def flash_enabled_def flash_blank_def flash_new_def word_gt_0)
  from flash_write_completes [OF this] show ?thesis by (auto simp: numeral_3_eq_3)
qed

end
