(* ===== verification/FlashSafe.thy ===== *)
theory FlashSafe
  imports FlashWrite
begin

text \<open>
  Sector erase as a whole transaction, and what any tick, whatever the pins have done since power-up, may
  change: the geometry never, the memory only when chip select is raised in a write state, and then
  only inside the device once the address is complete, a write state only entered under the write-enable
  latch.
\<close>

section \<open>Sector erase\<close>

lemma flash_erase_head:
  assumes "flash_ready s" "\<not> flash_write_protect s"
  shows "\<exists>s' xs i. run flash_xfer s [0xd8, a2, a1] = Inr (s', xs) \<and> length xs = 3
    \<and> flash_phase s QSPIF_SECTOR_ERASE i 24 s'
    \<and> push_bit 8 i OR ucast a0 = word_of_bytes 0xd8 a2 a1 a0"
proof -
  have sreg: "m_sreg s AND 0x200 = 0" "m_sreg s AND 0x203 = 2"
    using assms write_enabled [of "m_sreg s"]
    by (simp_all add: flash_ready_def flash_write_protect_def and_eq_0_parts)
  have cmd: "flash_command (flash_fill s 0xd8) =
      Inr ((QOREG 0xa5 (flash_fill s 0xd8))\<lparr>m_state := QSPIF_SECTOR_ERASE\<rparr>)"
    using sreg flash_fill_command [of s "0xd8"]
    by (simp add: flash_command_def flash_write_command_def Let_def del: flash_fill_frame(5))
  have addr_st: "addressed QSPIF_SECTOR_ERASE" by (simp add: addressed_def)
  obtain s3 xs where 3: "run flash_xfer s [0xd8, a2, a1] = Inr (s3, xs)"
    "flash_phase s QSPIF_SECTOR_ERASE
      (push_bit 8 (push_bit 8 (push_bit 8 (m_ireg s) OR ucast (0xd8::u8)) OR ucast a2) OR ucast a1) 24 s3"
    using flash_phase_three [OF assms(1) addr_st cmd, of a2 a1] by blast
  moreover have "length xs = 3" using run_length [OF 3(1)] by simp
  ultimately show ?thesis by (blast intro: push8_four)
qed

text \<open>The last address byte of a sector erase latches the address or fails the assertion.\<close>

lemma flash_erase_addr_byte:
  fixes a0 :: u8
  assumes "flash_phase s0 QSPIF_SECTOR_ERASE i 24 s"
  defines "e \<equiv> (push_bit 8 i OR ucast a0) AND 0x0ffc000"
  defines "f \<equiv> flash_unthrottle (QOREG 0 (flash_fill s a0))"
  shows "flash_process (flash_fill s a0) =
    (if e AND 0xfc00000 = 0 then Inr (f\<lparr>m_addr := e\<rparr>) else Inl Assertion)"
proof -
  have s: "m_state s = QSPIF_SECTOR_ERASE" "m_count s = 24" "m_ireg s = i"
    using assms(1) by (simp_all add: flash_phase_def)
  then have xip: "flash_not_xip (flash_fill s a0)" by (simp add: flash_not_xip_def)
  have "flash_process (flash_fill s a0) = flash_byte (flash_fill s a0)"
    using s xip by (intro flash_process_byte) simp_all
  also have "\<dots> = c_assert (e AND 0xfc00000 = 0) (Inr (f\<lparr>m_addr := e\<rparr>))"
    using s by (simp add: flash_byte_def flash_write_byte_def e_def f_def Let_def)
  finally show ?thesis by (simp add: c_assert_def)
qed

lemma flash_deselect_erase:
  assumes "m_state s = QSPIF_SECTOR_ERASE" "m_mode s = FM_SPI" "m_write_count s = 0"
    and "unat (block_of 16 (m_addr s)) + 65535 < unat (m_membytes s)" "m_sreg s AND 0x201 = 0"
  shows "\<exists>s' x. flash_tick s 1 1 0 = Inr (s', x) \<and> flash_busy tSE s'
    \<and> m_mem s' = (\<lambda>a. if block_of 16 a = block_of 16 (m_addr s) then 0xff else m_mem s a)
    \<and> m_sreg s' = (m_sreg s AND NOT 2) OR 1
    \<and> m_membytes s' = m_membytes s \<and> m_memmask s' = m_memmask s"
  using assms flash_busy_sreg [OF assms(5)]
  by (auto simp: flash_tick_def flash_deselect_def flash_deselect_state_def flash_begin_write_def
      flash_erase_sector_def Let_def flash_busy_def flash_times and_push_16 simp flip: and_push_16)

lemma erase_addr_block:
  "block_of 16 (word_of_bytes c a2 a1 a0 AND 0x0ffc000) = block_of 16 (word_of_bytes 0 a2 a1 a0)"
proof -
  have m: "(0x0ffc000 :: u32) = push_bit 14 (mask 10)" by (simp add: mask_eq_exp_minus_1)
  show ?thesis
    unfolding m
    by (rule bit_word_eqI) (auto simp: block_of_def bit_simps bit_word_of_bytes simp del: push_bit_numeral)
qed

lemma bit_4mb: "bit (0xc00000 :: u32) n \<longleftrightarrow> n = 22 \<or> n = 23"
proof -
  have m: "(0xc00000 :: u32) = push_bit 22 (mask 2)" by (simp add: mask_eq_exp_minus_1)
  show ?thesis
    unfolding m by (simp only: bit_push_bit_iff bit_low_mask) auto
qed

lemma and_4mb: "w AND 0xc00000 = 0 \<longleftrightarrow> \<not> bit w 23 \<and> \<not> bit w 22" for w :: u32
proof
  assume "w AND 0xc00000 = 0"
  then have "\<not> bit (w AND 0xc00000) n" for n by simp
  then have "\<not> (bit w n \<and> (n = 22 \<or> n = 23))" for n by (simp only: bit_and_iff bit_4mb) blast
  then show "\<not> bit w 23 \<and> \<not> bit w 22" by blast
next
  assume "\<not> bit w 23 \<and> \<not> bit w 22"
  then have "bit (w AND 0xc00000) n \<longleftrightarrow> bit (0 :: u32) n" for n
    by (simp only: bit_and_iff bit_4mb) auto
  then show "w AND 0xc00000 = 0" by (intro bit_word_eqI)
qed

lemma erase_addr_ok:
  "(word_of_bytes c a2 a1 a0 AND 0x0ffc000) AND 0xfc00000 = 0 \<longleftrightarrow> \<not> bit a2 7 \<and> \<not> bit a2 6"
proof -
  have "(0x0ffc000 :: u32) AND 0xfc00000 = 0xc00000" by simp
  then have "(word_of_bytes c a2 a1 a0 AND 0x0ffc000) AND 0xfc00000 = word_of_bytes c a2 a1 a0 AND 0xc00000"
    by (simp only: and.assoc)
  then show ?thesis by (simp add: and_4mb bit_word_of_bytes)
qed

text \<open>The whole sector-erase transaction.\<close>

lemma sector_erase_transaction:
  assumes "flash_ready s" "flash_wf lg s" "\<not> flash_write_protect s" "\<not> bit a2 7" "\<not> bit a2 6"
    and "unat (word_of_bytes 0 a2 a1 a0) < 2 ^ lg"
  shows "\<exists>s' outs. flash_transact s [0xd8, a2, a1, a0] = Inr (s', outs)
    \<and> m_mem s' = (\<lambda>a. if block_of 16 a = block_of 16 (word_of_bytes 0 a2 a1 a0) then 0xff
        else m_mem s a)
    \<and> flash_write_protect s' \<and> flash_busy tSE s' \<and> flash_wf lg s'"
proof -
  obtain s3 xs i where 3: "run flash_xfer s [0xd8, a2, a1] = Inr (s3, xs)"
    "flash_phase s QSPIF_SECTOR_ERASE i 24 s3" "push_bit 8 i OR ucast a0 = word_of_bytes 0xd8 a2 a1 a0"
    using flash_erase_head [OF assms(1,3), of a2 a1 a0] by blast
  let ?e = "word_of_bytes 0xd8 a2 a1 a0 AND 0x0ffc000"
  let ?s4 = "(flash_unthrottle (QOREG 0 (flash_fill s3 a0)))\<lparr>m_addr := ?e\<rparr>"
  have s3: "m_state s3 = QSPIF_SECTOR_ERASE" "m_mode s3 = FM_SPI" "m_last_sck s3 = 1"
      "m_write_count s3 = 0" "m_count s3 = 24" "m_mem s3 = m_mem s" "m_sreg s3 = m_sreg s"
      "m_membytes s3 = m_membytes s" "m_memmask s3 = m_memmask s"
    using 3(2) by (simp_all add: flash_phase_def)
  have ok: "?e AND 0xfc00000 = 0" using assms(4,5) erase_addr_ok by blast
  have proc: "flash_process (flash_fill s3 a0) = Inr ?s4"
    using flash_erase_addr_byte [OF 3(2), of a0] unfolding 3(3) by (simp only: ok simp_thms if_True)
  have "flash_not_xip s3" using s3 by (simp add: flash_not_xip_def)
  then obtain x4 where 4: "flash_xfer s3 a0 = Inr (?s4, x4)"
    using flash_xfer_step [OF s3(2,3) _ _ s3(4) proc] s3 by auto
  have sreg: "m_sreg s AND 0x201 = 0" using assms(1) by (simp add: flash_ready_def)
  have "16 \<le> lg" using assms(2) by (simp add: flash_wf_def)
  then have "unat (block_of 16 ?e) + 65535 < unat (m_membytes s)"
    using block_of_mask [OF assms(2) _ assms(6), of 16] by (simp add: erase_addr_block)
  then obtain s5 x where 5: "flash_tick ?s4 1 1 0 = Inr (s5, x)" "flash_busy tSE s5"
    "m_mem s5 = (\<lambda>a. if block_of 16 a = block_of 16 ?e then 0xff else m_mem s a)"
    "m_sreg s5 = (m_sreg s AND NOT 2) OR 1" "m_membytes s5 = m_membytes s" "m_memmask s5 = m_memmask s"
  proof -
    have "m_mem ?s4 = m_mem s" "m_addr ?s4 = ?e" using s3 by simp_all
    then show thesis
      using flash_deselect_erase [of ?s4] s3 sreg \<open>unat (block_of 16 ?e) + 65535 < _\<close> that by force
  qed
  have "((y AND NOT 2) OR 1) AND 2 = (0::u32)" for y
    by (simp add: bit.conj_disj_distrib2 and.assoc)
  then have "flash_write_protect s5" using 5(4) by (simp add: flash_write_protect_def)
  moreover have "run flash_xfer s3 [a0] = Inr (?s4, [x4])" by (simp add: 4)
  then have "run flash_xfer s ([0xd8, a2, a1] @ [a0]) = Inr (?s4, xs @ [x4])"
    using 3(1) by (rule run_append_Inr [rotated])
  then have "flash_transact s [0xd8, a2, a1, a0] = Inr (s5, xs @ [x4])"
    using 5(1) by (simp only: append.simps flash_transact_def rbind_simps prod.case)
  moreover have "flash_wf lg s5" using assms(2) 5(5,6) by (simp add: flash_wf_def)
  ultimately show ?thesis using 5(2,3) unfolding erase_addr_block by blast
qed

text \<open>
  C20: sector erase.  With the write-enable latch set, a SECTOR ERASE transaction to an address
  below 4 MB and inside the device sets the 64 kB block of that address to 0xff and nothing
  else, drops the latch, raises write-in-progress and starts the sector-erase timer.
\<close>

theorem flash_sector_erase:
  assumes "flash_ready s" "flash_wf lg s" "\<not> flash_write_protect s" "\<not> bit a2 7" "\<not> bit a2 6"
    and "unat (word_of_bytes 0 a2 a1 a0) < 2 ^ lg"
  shows "\<exists>s' outs. flash_transact s [0xd8, a2, a1, a0] = Inr (s', outs)
    \<and> m_mem s' = (\<lambda>a. if block_of 16 a = block_of 16 (word_of_bytes 0 a2 a1 a0) then 0xff
        else m_mem s a)
    \<and> flash_write_protect s' \<and> flash_busy tSE s' \<and> flash_wf lg s'"
  using assms by (rule sector_erase_transaction)

theorem flash_sector_erase_witness:
  "\<exists>s' outs. flash_transact flash_enabled [0xd8, 0, 1, 0xff] = Inr (s', outs)
    \<and> m_mem s' = (\<lambda>a. if block_of 16 a = block_of 16 (word_of_bytes 0 0 1 0xff) then 0xff
        else m_mem flash_enabled a)
    \<and> flash_write_protect s' \<and> flash_busy tSE s' \<and> flash_wf 16 s'"
  by (rule flash_sector_erase [OF flash_enabled_facts(1-3)]) (simp_all add: word_of_bytes_def)

text \<open>
  a sector erase at 4 MB or above stops the simulation: the address is masked to bits
  14 to 23 and an assertion requires bits 22 to 27 to be clear, though the device may have
  16 MB.
\<close>

theorem flash_sector_erase_high:
  assumes "flash_ready s" "\<not> flash_write_protect s" "bit a2 7 \<or> bit a2 6"
  shows "flash_transact s [0xd8, a2, a1, a0] = Inl Assertion"
proof -
  obtain s3 xs i where 3: "run flash_xfer s [0xd8, a2, a1] = Inr (s3, xs)"
    "flash_phase s QSPIF_SECTOR_ERASE i 24 s3" "push_bit 8 i OR ucast a0 = word_of_bytes 0xd8 a2 a1 a0"
    using flash_erase_head [OF assms(1,2), of a2 a1 a0] by blast
  have s3: "m_state s3 = QSPIF_SECTOR_ERASE" "m_mode s3 = FM_SPI" "m_last_sck s3 = 1"
      "m_write_count s3 = 0" "m_count s3 = 24"
    using 3(2) by (simp_all add: flash_phase_def)
  then have "flash_not_xip s3" by (simp add: flash_not_xip_def)
  have "\<not> (word_of_bytes 0xd8 a2 a1 a0 AND 0x0ffc000) AND 0xfc00000 = 0"
    using assms(3) erase_addr_ok by blast
  then have "flash_process (flash_fill s3 a0) = Inl Assertion"
    using flash_erase_addr_byte [OF 3(2), of a0] unfolding 3(3) by (simp only: if_False)
  then have "flash_xfer s3 a0 = Inl Assertion"
    using flash_xfer_eq [OF s3(2,3) \<open>flash_not_xip s3\<close>] s3 by (simp add: flash_load_byte_idle)
  then have "run flash_xfer s ([0xd8, a2, a1] @ [a0]) = Inl Assertion"
    using 3(1) by (simp only: run_append run.simps rbind_simps prod.case)
  then show ?thesis by (simp only: append.simps flash_transact_def rbind_simps)
qed

theorem flash_sector_erase_high_witness:
  "flash_transact flash_enabled [0xd8, 0x40, 0, 0] = Inl Assertion"
  by (rule flash_sector_erase_high [OF flash_enabled_facts(1,3)]) simp

section \<open>Who may write the memory\<close>

definition flash_writing :: "qspif_state \<Rightarrow> bool" where
  "flash_writing st \<longleftrightarrow> st \<in> {QSPIF_PP, QSPIF_QPP, QSPIF_SECTOR_ERASE, QSPIF_BULK_ERASE}"

definition flash_same_store :: "flash \<Rightarrow> flash \<Rightarrow> bool" where
  "flash_same_store s s' \<longleftrightarrow> m_mem s' = m_mem s \<and> m_membytes s' = m_membytes s \<and> m_memmask s' = m_memmask s"

definition flash_entry_ok :: "flash \<Rightarrow> flash \<Rightarrow> bool" where
  "flash_entry_ok s s' \<longleftrightarrow>
     (flash_writing (m_state s') \<longrightarrow> m_state s' = m_state s \<or> m_sreg s AND 0x203 = 2)"

lemmas flash_frame_defs = flash_same_store_def flash_entry_ok_def flash_writing_def

lemma flash_write_command_safe:
  "flash_same_store s (flash_write_command st s) \<and> flash_entry_ok s (flash_write_command st s)"
  by (simp add: flash_write_command_def flash_frame_defs)

lemma flash_command_safe:
  assumes "flash_command s = Inr s'"
  shows "flash_same_store s s' \<and> flash_entry_ok s s'"
  using assms flash_write_command_safe [of "QOREG 0xa5 s"]
  by (auto simp: flash_command_def Let_def flash_frame_defs split: if_splits)

lemma flash_fetch_safe:
  "flash_fetch s = Inr s' \<Longrightarrow> flash_same_store s s' \<and> m_state s' = m_state s"
  by (auto simp: flash_fetch_def flash_frame_defs)

lemma flash_read_byte_safe:
  "flash_read_byte s = Inr s' \<Longrightarrow> flash_same_store s s' \<and> m_state s' = m_state s"
  by (cases "m_state s")
     (auto simp: flash_read_byte_def flash_latch_addr_def flash_same_store_def
       split: if_splits dest!: flash_fetch_safe)

lemma flash_write_byte_safe:
  "flash_write_byte s = Inr s' \<Longrightarrow> flash_same_store s s' \<and> m_state s' = m_state s"
  by (cases "m_state s")
     (auto simp: flash_write_byte_def flash_latch_addr_def flash_page_byte_def flash_same_store_def Let_def
       split: if_splits)

lemma flash_byte_safe:
  assumes "flash_byte s = Inr s'"
  shows "flash_same_store s s' \<and> m_state s' = m_state s"
proof -
  let ?f = "flash_unthrottle (QOREG 0 s)"
  have f: "flash_same_store s ?f" "m_state ?f = m_state s" by (simp_all add: flash_same_store_def)
  consider "flash_read_byte ?f = Inr s'" | "flash_write_byte ?f = Inr s'"
    | "flash_same_store s s' \<and> m_state s' = m_state s"
    using assms by (cases "m_state s")
      (auto simp: flash_byte_def flash_id_byte_def flash_same_store_def Let_def split: if_splits)
  then show ?thesis
    using f by cases (auto simp: flash_same_store_def dest!: flash_read_byte_safe flash_write_byte_safe)
qed

lemma flash_process_safe:
  assumes "flash_process s = Inr s'"
  shows "flash_same_store s s' \<and> flash_entry_ok s s'"
  using assms flash_command_safe [of s s'] flash_byte_safe [of s s']
  by (auto simp: flash_process_def flash_read_idle_def flash_frame_defs Let_def split: if_splits)

text \<open>
  What raising chip select does to one memory cell, by the state it finds.  An erase of a
  sector or of the device sets cells to 0xff; a program ANDs the page buffer into one page.
\<close>

definition flash_cell_after :: "flash \<Rightarrow> u32 \<Rightarrow> u8" where
  "flash_cell_after s a =
     (if m_state s \<in> {QSPIF_PP, QSPIF_QPP} \<and> block_of 8 a = block_of 8 (m_addr s)
      then m_mem s a AND m_pmem s (a AND 0xff)
      else if m_state s = QSPIF_SECTOR_ERASE \<and> block_of 16 a = block_of 16 (m_addr s) then 0xff
      else if m_state s = QSPIF_BULK_ERASE \<and> a < m_membytes s then 0xff
      else m_mem s a)"

definition flash_in_store :: "flash \<Rightarrow> flash \<Rightarrow> bool" where
  "flash_in_store s s' \<longleftrightarrow> m_membytes s' = m_membytes s \<and> m_memmask s' = m_memmask s
     \<and> (\<forall>a. m_membytes s \<le> a \<longrightarrow> m_mem s' a = m_mem s a)"

lemma block_of_le:
  fixes a :: u32
  assumes "block_of n a = b" "n \<le> 32"
  shows "unat a \<le> unat b + (2 ^ n - 1)"
proof -
  have "unat a = unat b + unat a mod 2 ^ n"
    using assms(1) unat_block_of [of n a] by (metis div_mult_mod_eq)
  moreover have "unat a mod 2 ^ n \<le> 2 ^ n - 1" by (simp add: Suc_leI flip: less_Suc_eq_le)
  ultimately show ?thesis by linarith
qed

lemma block_outside:
  fixes a :: u32
  assumes "unat b + (2 ^ n - 1) < unat m" "m \<le> a" "n \<le> 32"
  shows "block_of n a \<noteq> b"
  using block_of_le [of n a b] assms by (auto simp: word_le_nat_alt)

lemma and_block_masks: "a AND - 256 = block_of 8 a" "a AND NOT (mask 16) = block_of 16 a" for a :: u32
  using and_not_ff [of a] by (simp_all add: block_of_eq)

lemma flash_program_page_safe:
  assumes "flash_program_page s = Inr s'"
  shows "s' = s\<lparr>m_mem := (\<lambda>a. if block_of 8 a = block_of 8 (m_addr s) then m_mem s a AND m_pmem s (a AND 0xff)
      else m_mem s a)\<rparr>"
    and "unat (block_of 8 (m_addr s)) + (2 ^ 8 - 1) < unat (m_membytes s)"
  using assms by (auto simp: flash_program_page_def Let_def and_block_masks)

lemma flash_erase_sector_safe:
  assumes "flash_erase_sector s = Inr s'"
  shows "s' = s\<lparr>m_addr := block_of 16 (m_addr s),
      m_mem := (\<lambda>a. if block_of 16 a = block_of 16 (m_addr s) then 0xff else m_mem s a)\<rparr>"
    and "unat (block_of 16 (m_addr s)) + (2 ^ 16 - 1) < unat (m_membytes s)"
  using assms by (auto simp: flash_erase_sector_def Let_def and_block_masks cong: if_cong)

lemma flash_begin_write_frame [simp]:
  "m_mem (flash_begin_write t s) = m_mem s" "m_addr (flash_begin_write t s) = m_addr s"
  "m_pmem (flash_begin_write t s) = m_pmem s" "m_membytes (flash_begin_write t s) = m_membytes s"
  "m_memmask (flash_begin_write t s) = m_memmask s" "m_state (flash_begin_write t s) = QSPIF_IDLE"
  by (simp_all add: flash_begin_write_def)

lemma flash_deselect_state_safe:
  assumes "flash_deselect_state s = Inr s'"
  shows "m_mem s' = flash_cell_after s \<and> flash_in_store s s' \<and> flash_entry_ok s s'"
proof (cases "m_state s \<in> {QSPIF_PP, QSPIF_QPP}")
  case True
  then obtain t where t: "flash_program_page (flash_begin_write tPP s) = Inr t"
    and s': "s' = t\<lparr>m_mode := FM_SPI\<rparr>"
    using assms by (auto simp: flash_deselect_state_def)
  show ?thesis
    using True flash_program_page_safe [OF t] block_outside [OF flash_program_page_safe(2) [OF t]]
    by (auto simp: s' flash_cell_after_def flash_in_store_def flash_entry_ok_def flash_writing_def)
next
  case other: False
  show ?thesis
  proof (cases "m_state s = QSPIF_SECTOR_ERASE")
    case True
    then have e: "flash_erase_sector (flash_begin_write tSE s) = Inr s'"
      using assms by (simp add: flash_deselect_state_def)
    show ?thesis
      using True flash_erase_sector_safe [OF e] block_outside [OF flash_erase_sector_safe(2) [OF e]]
      by (auto simp: flash_cell_after_def flash_in_store_def flash_entry_ok_def flash_writing_def)
  next
    case False
    with other assms show ?thesis
      by (cases "m_state s")
         (auto simp: flash_deselect_state_def flash_begin_write_def flash_bulk_erase_def flash_end_read_def
           flash_cell_after_def flash_in_store_def flash_entry_ok_def flash_writing_def split: if_splits)
  qed
qed

lemma flash_deselect_safe:
  assumes "flash_deselect s = Inr s'"
  shows "m_mem s' = flash_cell_after s \<and> flash_in_store s s' \<and> flash_entry_ok s s'"
proof -
  let ?u = "s\<lparr>m_last_sck := 1, m_ireg := 0, m_oreg := 0, m_count := 0\<rparr>"
  obtain t where t: "flash_deselect_state ?u = Inr t" "s' = t\<lparr>m_oreg := 0xfe\<rparr>"
    using assms by (auto simp: flash_deselect_def)
  have "flash_cell_after ?u = flash_cell_after s" by (simp add: flash_cell_after_def fun_eq_iff)
  with flash_deselect_state_safe [OF t(1)] t(2) show ?thesis
    by (auto simp: flash_in_store_def flash_entry_ok_def)
qed

lemma flash_shift_frame [simp]:
  "m_state (flash_shift d s) = m_state s" "m_mem (flash_shift d s) = m_mem s"
  "m_membytes (flash_shift d s) = m_membytes s" "m_memmask (flash_shift d s) = m_memmask s"
  "m_sreg (flash_shift d s) = m_sreg s"
  by (simp_all add: flash_shift_def split: flash_mode.split)

text \<open>One tick: what it may change, if it does not fault.\<close>

lemma flash_tick_discipline:
  assumes "flash_tick s csn sck dat = Inr (s', r)"
  shows "m_mem s' = (if csn \<noteq> 0 then flash_cell_after s else m_mem s)
    \<and> flash_in_store s s'
    \<and> (flash_writing (m_state s') \<longrightarrow>
         m_state s' = m_state s \<or> m_sreg (flash_timer s) AND 0x203 = 2)"
proof -
  have cell: "flash_cell_after (flash_timer s) = flash_cell_after s"
    by (simp add: flash_cell_after_def fun_eq_iff)
  consider (off) "csn \<noteq> 0" | (hold) "csn = 0" "m_last_sck s = 0 \<or> sck = m_last_sck s"
    | (rise) "csn = 0" "\<not> (m_last_sck s = 0 \<or> sck = m_last_sck s)" by blast
  then show ?thesis
  proof cases
    case off
    with assms have "flash_deselect (flash_timer s) = Inr s'" by (auto simp: flash_tick_def Let_def)
    from flash_deselect_safe [OF this] off cell show ?thesis
      by (auto simp: flash_in_store_def flash_entry_ok_def)
  next
    case hold
    with assms have "s' = (flash_timer s)\<lparr>m_last_sck := sck\<rparr>" by (auto simp: flash_tick_def Let_def)
    with hold show ?thesis by (simp add: flash_in_store_def flash_entry_ok_def)
  next
    case rise
    with assms obtain t where t: "flash_process (flash_shift dat (flash_timer s)) = Inr t"
      and s': "s' = t\<lparr>m_last_sck := sck\<rparr>" by (auto simp: flash_tick_def Let_def)
    from flash_process_safe [OF t] rise s' show ?thesis
      by (auto simp: flash_in_store_def flash_entry_ok_def flash_same_store_def)
  qed
qed

section \<open>Whole runs\<close>

definition flash_pin_step :: "flash \<Rightarrow> int \<times> int \<times> u32 \<Rightarrow> fault + flash \<times> u32" where
  "flash_pin_step s p = (case p of (csn, sck, dat) \<Rightarrow> flash_tick s csn sck dat)"

text \<open>
  From power-up on, whatever the pins do, the count moves by the width of the mode, so that it meets 32,
  where the address is latched; a program's address then stays inside the device and an erase's below
  4 MB.  \<open>flash_geometry\<close> is what the constructor fixed.
\<close>

definition flash_geometry :: "nat \<Rightarrow> flash \<Rightarrow> bool" where
  "flash_geometry lg s \<longleftrightarrow> flash_wf lg s
     \<and> (m_mode s = FM_QSPI \<longrightarrow> 4 dvd unat (m_count s)) \<and> (m_mode s = FM_DSPI \<longrightarrow> 2 dvd unat (m_count s))"

definition flash_addr_in :: "nat \<Rightarrow> flash \<Rightarrow> bool" where
  "flash_addr_in lg s \<longleftrightarrow>
     (m_state s \<in> {QSPIF_PP, QSPIF_QPP} \<longrightarrow> take_bit lg (m_addr s) = m_addr s)
     \<and> (m_state s = QSPIF_SECTOR_ERASE \<longrightarrow> take_bit 22 (m_addr s) = m_addr s)"

definition flash_latched :: "nat \<Rightarrow> flash \<Rightarrow> bool" where
  "flash_latched lg s \<longleftrightarrow> flash_geometry lg s \<and> (32 \<le> unat (m_count s) \<longrightarrow> flash_addr_in lg s)"

definition flash_latching :: "nat \<Rightarrow> flash \<Rightarrow> bool" where
  "flash_latching lg s \<longleftrightarrow> flash_geometry lg s \<and> (32 < unat (m_count s) \<longrightarrow> flash_addr_in lg s)"

lemmas flash_latch_defs = flash_latched_def flash_latching_def flash_geometry_def flash_addr_in_def

lemma flash_timer_latched: "flash_latched lg (flash_timer s) = flash_latched lg s"
  by (simp add: flash_latch_defs flash_wf_def)

text \<open>A shift moves the count by the width of the mode, so it does not jump over 32.\<close>

lemma count_step:
  assumes "d \<in> {1, 2, 4}" "d dvd unat (c :: u32)"
  shows "d dvd unat (c + of_nat d)" "32 < unat (c + of_nat d) \<Longrightarrow> 32 \<le> unat c"
proof -
  have d: "unat (of_nat d :: u32) = d" using assms(1) by auto
  have "d dvd 2 ^ 32" using assms(1) by auto
  then show "d dvd unat (c + of_nat d)" using assms(2) by (simp add: unat_word_ariths d dvd_mod)
  show "32 \<le> unat c" if "32 < unat (c + of_nat d)"
  proof (rule ccontr)
    assume "\<not> 32 \<le> unat c"
    then have "unat (c + of_nat d) = unat c + d" using assms(1) by (auto simp: unat_word_ariths d)
    then have "32 < unat c + d" "unat c < 32" using that \<open>\<not> 32 \<le> unat c\<close> by simp_all
    then show False using assms by (auto simp: dvd_def)
  qed
qed

lemma flash_shift_latching:
  assumes "flash_latched lg s"
  shows "flash_latching lg (flash_shift d s)"
proof -
  have "m_addr (flash_shift d s) = m_addr s" "m_mode (flash_shift d s) = m_mode s"
    by (simp_all add: flash_shift_def split: flash_mode.split)
  moreover have "m_count (flash_shift d s) = m_count s + of_nat (case m_mode s of FM_QSPI \<Rightarrow> 4 | FM_DSPI \<Rightarrow> 2 | FM_SPI \<Rightarrow> 1)"
    by (simp add: flash_shift_def split: flash_mode.split)
  ultimately show ?thesis
    using assms count_step [of 4 "m_count s"] count_step [of 2 "m_count s"] count_step [of 1 "m_count s"]
    by (cases "m_mode s") (auto simp: flash_latch_defs flash_wf_def)
qed

lemma take_bit_latch: "m_memmask s = mask lg \<Longrightarrow> take_bit lg (m_addr (flash_latch_addr s)) = m_addr (flash_latch_addr s)"
  by (simp add: flash_latch_addr_def flip: take_bit_eq_mask)

lemma take_bit_page:
  fixes a :: u32
  assumes "take_bit lg a = a" "8 \<le> lg"
  shows "take_bit lg ((a AND NOT 0xff) OR (b AND 0xff)) = (a AND NOT 0xff) OR (b AND 0xff)"
proof (rule bit_word_eqI)
  fix n :: nat
  have ff: "(0xff :: u32) = mask 8" by (simp add: mask_eq_exp_minus_1)
  have "bit a n \<longleftrightarrow> n < lg \<and> bit a n" using assms(1) by (metis bit_take_bit_iff)
  then show "bit (take_bit lg ((a AND NOT 0xff) OR (b AND 0xff))) n = bit ((a AND NOT 0xff) OR (b AND 0xff)) n"
    using assms(2) unfolding ff by (auto simp: bit_simps)
qed

lemma take_bit_erase:
  fixes a :: u32
  assumes "a AND 0xfc00000 = 0" "a = i AND 0x0ffc000"
  shows "take_bit 22 a = a"
proof -
  have "(i AND 0x0ffc000) AND 0xfc00000 = i AND 0xc00000" by (simp add: and.assoc)
  then have top: "i AND 0xc00000 = 0" using assms by simp
  have "i AND 0x0ffc000 = (i AND 0x3fc000) OR (i AND 0xc00000)"
    by (simp flip: bit.conj_disj_distrib)
  then have "a = i AND 0x3fc000" using assms(2) top by simp
  moreover have "(0x3fc000 :: u32) AND mask 22 = 0x3fc000" by (simp add: mask_eq_exp_minus_1)
  ultimately show ?thesis by (simp add: take_bit_eq_mask and.assoc)
qed

text \<open>Where the count has reached 32 in a write state, the byte step latches the address or moves it in its page.\<close>

lemma flash_write_byte_latched:
  assumes "flash_write_byte s = Inr s'" "flash_latching lg s" "m_count s AND 7 = 0"
  shows "flash_latched lg s'"
proof -
  have 40: "32 \<le> unat (m_count s) \<Longrightarrow> m_count s \<noteq> 32 \<Longrightarrow> 40 \<le> m_count s"
  proof -
    assume c: "32 \<le> unat (m_count s)" "m_count s \<noteq> 32"
    have "unat (m_count s AND 7) = unat (m_count s) mod 8" by (rule unat_and_7)
    then have "8 dvd unat (m_count s)" using assms(3) by (simp add: dvd_eq_mod_eq_0)
    moreover have "unat (m_count s) \<noteq> 32" using c(2) by (auto simp: word_unat_eq_iff)
    ultimately show "40 \<le> m_count s" using c(1) unfolding word_le_nat_alt by simp presburger
  qed
  have wf: "m_memmask s = mask lg" "8 \<le> lg" using assms(2) by (simp_all add: flash_latch_defs flash_wf_def)
  have g: "flash_geometry lg s" using assms(2) by (simp add: flash_latching_def)
  consider (program) "m_state s \<in> {QSPIF_PP, QSPIF_QPP}" | (erase) "m_state s = QSPIF_SECTOR_ERASE"
    | (other) "m_state s \<notin> {QSPIF_PP, QSPIF_QPP, QSPIF_SECTOR_ERASE}" by blast
  then show ?thesis
  proof cases
    case program
    have "m_count s' = m_count s" "flash_geometry lg s'" "m_state s' = m_state s"
      using assms(1) program g
      by (auto simp: flash_write_byte_def flash_latch_addr_def flash_page_byte_def flash_geometry_def flash_wf_def
        split: if_split_asm)
    moreover have "take_bit lg (m_addr s') = m_addr s'" if c: "32 \<le> unat (m_count s)"
    proof (cases "m_count s = 32")
      case True
      then have "m_addr s' = m_addr (flash_latch_addr s)" using assms(1) program by (auto simp: flash_write_byte_def)
      then show ?thesis using take_bit_latch [OF wf(1)] by simp
    next
      case False
      then have "s' = flash_page_byte s" using assms(1) program 40 [OF c] by (auto simp: flash_write_byte_def)
      moreover have "32 < unat (m_count s)" using c False by (auto simp: word_unat_eq_iff)
      then have "take_bit lg (m_addr s) = m_addr s" using assms(2) program by (auto simp: flash_latching_def flash_addr_in_def)
      ultimately show ?thesis using take_bit_page [OF _ wf(2)] by (simp add: flash_page_byte_def)
    qed
    ultimately show ?thesis using program by (auto simp: flash_latched_def flash_addr_in_def)
  next
    case erase
    have "m_count s' = m_count s" "flash_geometry lg s'" "m_state s' = m_state s"
      using assms(1) erase g by (auto simp: flash_write_byte_def flash_geometry_def flash_wf_def Let_def split: if_split_asm)
    moreover have "take_bit 22 (m_addr s') = m_addr s'" if c: "32 \<le> unat (m_count s)"
    proof (cases "m_count s = 32")
      case True
      then have "m_addr s' = m_ireg s AND 0x0ffc000" "m_addr s' AND 0xfc00000 = 0"
        using assms(1) erase by (auto simp: flash_write_byte_def Let_def)
      then show ?thesis by (intro take_bit_erase)
    next
      case False
      then have "s' = s" using assms(1) erase by (simp add: flash_write_byte_def)
      moreover have "32 < unat (m_count s)" using c False by (auto simp: word_unat_eq_iff)
      ultimately show ?thesis using assms(2) erase by (auto simp: flash_latching_def flash_addr_in_def)
    qed
    ultimately show ?thesis using erase by (auto simp: flash_latched_def flash_addr_in_def)
  next
    case other
    then have "s' = s" using assms(1) by (cases "m_state s") (auto simp: flash_write_byte_def)
    then show ?thesis using other g by (simp add: flash_latched_def flash_addr_in_def)
  qed
qed

lemma flash_read_byte_latch: "flash_read_byte s = Inr s' \<Longrightarrow> m_count s' = m_count s \<and> m_mode s' = m_mode s"
  by (cases "m_state s") (auto simp: flash_read_byte_def flash_latch_addr_def flash_fetch_def split: if_splits)

lemma flash_byte_latched:
  assumes "flash_byte s = Inr s'" "flash_latching lg s" "m_count s AND 7 = 0"
  shows "flash_latched lg s'"
proof -
  let ?f = "flash_unthrottle (QOREG 0 s)"
  have f: "flash_latching lg ?f" "m_count ?f = m_count s" "m_state ?f = m_state s"
    using assms(2) by (simp_all add: flash_latch_defs flash_wf_def)
  show ?thesis
  proof (cases "m_state s \<in> {QSPIF_PP, QSPIF_QPP, QSPIF_SECTOR_ERASE}")
    case True
    then have "flash_write_byte ?f = Inr s'" using assms(1) by (auto simp: flash_byte_def)
    moreover have "m_count ?f AND 7 = 0" using f(2) assms(3) by (simp only:)
    ultimately show ?thesis using f(1) by (intro flash_write_byte_latched)
  next
    case False
    have "m_state s' = m_state s" "flash_same_store s s'" using flash_byte_safe [OF assms(1)] by simp_all
    moreover have "m_count s' = m_count s \<and> m_mode s' = m_mode s"
      using assms(1) False f(3)
      by (cases "m_state s") (auto simp: flash_byte_def flash_id_byte_def Let_def split: if_splits dest!: flash_read_byte_latch)
    ultimately show ?thesis using False assms(2) by (auto simp: flash_latch_defs flash_wf_def flash_same_store_def)
  qed
qed

lemma flash_command_latched:
  assumes "flash_command s = Inr s'" "flash_latching lg s" "m_count s = 8"
  shows "flash_latched lg s'"
proof -
  have "flash_same_store s s'" using flash_command_safe [OF assms(1)] by simp
  moreover have "m_count s' = 8"
    using assms(1,3) by (auto simp: flash_command_def flash_write_command_def Let_def split: if_splits)
  ultimately show ?thesis using assms(2) by (simp add: flash_latch_defs flash_wf_def flash_same_store_def)
qed

lemma flash_process_latched:
  assumes "flash_process s = Inr s'" "flash_latching lg s"
  shows "flash_latched lg s'"
proof -
  have idle_step: "flash_latched lg s'" if "flash_read_idle b st s = Inr s'" "\<not> flash_writing st" "\<not> flash_writing (m_state s)" for b st
    using that assms(2)
    by (auto simp: flash_read_idle_def flash_latch_defs flash_wf_def flash_writing_def Let_def split: if_splits)
  have 32: "32 < unat (m_count s)" if "32 \<le> unat (m_count s)" "\<not> (m_count s AND 7 = 0 \<and> m_count s \<noteq> 0)"
  proof -
    have "m_count s \<noteq> 32" using that(2) by auto
    then show ?thesis using that(1) by (auto simp: word_unat_eq_iff)
  qed
  show ?thesis
  proof (cases "m_state s = QSPIF_QUAD_READ_IDLE \<or> m_state s = QSPIF_DUAL_READ_IDLE")
    case True
    then have "flash_read_idle (flash_quad_mode s) QSPIF_QUAD_READ s = Inr s' \<or> flash_read_idle (flash_dual_mode s) QSPIF_DUAL_READ s = Inr s'"
      using assms(1) by (auto simp: flash_process_def)
    then show ?thesis using True idle_step by (auto simp: flash_writing_def)
  next
    case False
    then have "flash_command s = Inr s' \<and> m_count s = 8 \<or> flash_byte s = Inr s' \<and> m_count s AND 7 = 0
        \<or> s' = s \<and> \<not> (m_count s AND 7 = 0 \<and> m_count s \<noteq> 0)"
      using assms(1) by (simp add: flash_process_def split: if_split_asm)
    then show ?thesis
      using flash_command_latched [OF _ assms(2)] flash_byte_latched [OF _ assms(2)] 32 assms(2)
      unfolding flash_latched_def flash_latching_def by blast
  qed
qed

text \<open>Raising chip select clears the count.\<close>

lemma flash_deselect_latched:
  assumes "flash_deselect s = Inr s'" "flash_latched lg s"
  shows "flash_latched lg s'"
proof -
  have "m_count s' = 0"
    using assms(1)
    by (cases "m_state s")
       (auto simp: flash_deselect_def flash_deselect_state_def flash_program_page_def flash_erase_sector_def
         flash_begin_write_def flash_bulk_erase_def flash_end_read_def Let_def)
  moreover have "flash_in_store s s'" using flash_deselect_safe [OF assms(1)] by simp
  ultimately show ?thesis using assms(2) by (simp add: flash_latch_defs flash_wf_def flash_in_store_def)
qed

lemma flash_tick_latched:
  assumes "flash_tick s csn sck dat = Inr (s', r)" "flash_latched lg s"
  shows "flash_latched lg s'"
proof -
  have t: "flash_latched lg (flash_timer s)" using assms(2) by (simp add: flash_timer_latched)
  have sck: "flash_latched lg (u\<lparr>m_last_sck := k\<rparr>) = flash_latched lg u" for u k by (simp add: flash_latch_defs flash_wf_def)
  show ?thesis
    using assms(1) t flash_deselect_latched [OF _ t] flash_process_latched [OF _ flash_shift_latching [OF t]]
    by (auto simp: flash_tick_def Let_def sck split: if_splits)
qed

interpretation flash_pins: step_invariant flash_pin_step "flash_latched lg" "\<lambda>_. True" for lg
  by unfold_locales (auto simp: flash_pin_step_def intro: flash_tick_latched split: prod.splits)

lemma flash_new_latched: "16 \<le> lg \<Longrightarrow> lg \<le> 24 \<Longrightarrow> flash_latched lg (flash_new u lg debug rddelay ndummy)"
  by (simp add: flash_latch_defs flash_wf_def flash_new_def mask_eq_exp_minus_1 push_bit_eq_mult)

text \<open>A latched address keeps the write it starts inside the device.\<close>

lemma flash_deselect_returns:
  assumes "flash_wf lg s" "m_state s \<in> {QSPIF_PP, QSPIF_QPP} \<Longrightarrow> take_bit lg (m_addr s) = m_addr s"
    and "m_state s = QSPIF_SECTOR_ERASE \<Longrightarrow> take_bit 22 (m_addr s) = m_addr s \<and> 22 \<le> lg"
  shows "\<exists>s'. flash_deselect s = Inr s'"
proof -
  have less: "unat (m_addr s) < 2 ^ n" if "take_bit n (m_addr s) = m_addr s" for n
    using that by (metis take_bit_nat_less_exp unsigned_take_bit_eq)
  have prog: "unat (block_of 8 (m_addr s)) + 255 < unat (m_membytes s)" if "m_state s \<in> {QSPIF_PP, QSPIF_QPP}"
    using block_of_mask [OF assms(1) _ less [OF assms(2) [OF that]], of 8] assms(1) by (simp add: flash_wf_def)
  have er: "unat (block_of 16 (m_addr s)) + 65535 < unat (m_membytes s)" if "m_state s = QSPIF_SECTOR_ERASE"
  proof -
    have "unat (m_addr s) < 2 ^ 22" using less assms(3) [OF that] by blast
    also have "(2 :: nat) ^ 22 \<le> 2 ^ lg" using assms(3) [OF that] by (intro power_increasing) simp_all
    finally show ?thesis using block_of_mask [OF assms(1), of 16] assms(1) by (simp add: flash_wf_def)
  qed
  show ?thesis
    using prog er
    by (cases "m_state s")
       (auto simp: flash_deselect_def flash_deselect_state_def flash_program_page_def flash_erase_sector_def
         and_block_masks Let_def)
qed

text \<open>
  Chip select raised right after a program command: no address has been given, and the page buffer is
  merged into the page the last command left.  After a read of the last byte that page is the one
  beyond the buffer, and the source writes there.
\<close>

lemma flash_program_without_address:
  assumes "flash_ready s" "\<not> flash_write_protect s" "unat (m_membytes s) \<le> unat (block_of 8 (m_addr s)) + 255"
  shows "flash_transact s [0x02] = Inl OutOfBounds"
proof -
  have sreg: "m_sreg s AND 0x200 = 0" "m_sreg s AND 0x203 = 2"
    using assms(1,2) write_enabled [of "m_sreg s"]
    by (simp_all add: flash_ready_def flash_write_protect_def and_eq_0_parts)
  let ?t = "(QOREG 0xa5 (flash_fill s 0x02))\<lparr>m_state := QSPIF_PP\<rparr>"
  have s: "m_mode s = FM_SPI" "m_last_sck s = 1" "flash_not_xip s" "m_count s AND 7 = 0" "m_write_count s = 0"
    using assms(1) by (simp_all add: flash_ready_def)
  have "flash_command (flash_fill s 0x02) = Inr ?t"
    using sreg flash_fill_command [of s "0x02"]
    by (simp add: flash_command_def flash_write_command_def Let_def del: flash_fill_frame(5))
  then have "flash_process (flash_fill s 0x02) = Inr ?t" using flash_process_command [OF assms(1)] by simp
  then obtain x where "flash_xfer s 0x02 = Inr (?t, x)" using flash_xfer_step [OF s, of "0x02" ?t] s by auto
  moreover have "flash_tick ?t 1 1 0 = Inl OutOfBounds"
    using assms(3) s(5)
    by (simp add: flash_tick_def flash_deselect_def flash_deselect_state_def flash_program_page_def and_block_masks Let_def)
  ultimately show ?thesis by (simp add: flash_transact_def)
qed

text \<open>An erase masks its address to 4 MB and not to the device: beyond a smaller device's end the source writes outside.\<close>

lemma flash_erase_small_device:
  assumes "m_state s = QSPIF_SECTOR_ERASE" "unat (m_membytes s) \<le> unat (block_of 16 (m_addr s)) + 65535" "csn \<noteq> 0"
  shows "flash_tick s csn sck dat = Inl OutOfBounds"
  using assms by (simp add: flash_tick_def flash_deselect_def flash_deselect_state_def flash_erase_sector_def and_block_masks Let_def)

text \<open>
  C13: the write discipline of the flash, from power-up, whatever the pins have done for any number of
  ticks, on a device of 64 kB to 16 MB.  In the next tick a cell of the memory changes only with chip
  select raised, and then only as the state of the command says (\<open>flash_cell_after\<close>); a program or an
  erase state is entered only with the write-enable latch set, no write running and the device awake.
  Raising chip select once the address of the command is complete always returns, without a fault and
  with everything beyond the buffer as it was: the page programmed lies inside the device, and so does the
  sector erased when the device has the 4 MB that the erase's own check allows.  A chip select
  raised before the address is complete writes wherever the last command left the address
  (\<open>flash_program_without_address\<close>), and on a smaller device an erase leaves the buffer
  (\<open>flash_erase_small_device\<close>): both are faults of the model.
\<close>

theorem flash_write_discipline:
  assumes "run flash_pin_step (flash_new u lg debug rddelay ndummy) ps = Inr (s, xs)" "16 \<le> lg" "lg \<le> 24"
  shows "(\<forall>s' r. flash_tick s csn sck dat = Inr (s', r) \<longrightarrow>
      m_mem s' = (if csn \<noteq> 0 then flash_cell_after s else m_mem s)
      \<and> (flash_writing (m_state s') \<longrightarrow> m_state s' = m_state s \<or> m_sreg (flash_timer s) AND 0x203 = 2))
    \<and> (csn \<noteq> 0 \<and> (m_state s \<in> {QSPIF_PP, QSPIF_QPP} \<longrightarrow> 32 \<le> m_count s)
        \<and> (m_state s = QSPIF_SECTOR_ERASE \<longrightarrow> 32 \<le> m_count s \<and> 22 \<le> lg) \<longrightarrow>
      (\<exists>s'. flash_tick s csn sck dat = Inr (s', dat) \<and> m_membytes s' = push_bit lg 1
        \<and> (\<forall>a. push_bit lg 1 \<le> a \<longrightarrow> m_mem s' a = m_mem s a)))"
proof -
  have lat: "flash_latched lg s"
    using flash_pins.run_inv [OF flash_new_latched [OF assms(2,3)] _ assms(1)] by (simp add: list_all_iff)
  have "\<exists>s'. flash_tick s csn sck dat = Inr (s', dat) \<and> m_membytes s' = push_bit lg 1
      \<and> (\<forall>a. push_bit lg 1 \<le> a \<longrightarrow> m_mem s' a = m_mem s a)"
    if csn: "csn \<noteq> 0" and at: "m_state s \<in> {QSPIF_PP, QSPIF_QPP} \<longrightarrow> 32 \<le> m_count s"
      "m_state s = QSPIF_SECTOR_ERASE \<longrightarrow> 32 \<le> m_count s \<and> 22 \<le> lg"
  proof -
    have "flash_wf lg (flash_timer s)" "m_membytes s = push_bit lg 1" using lat by (simp_all add: flash_latch_defs flash_wf_def)
    moreover obtain s' where s': "flash_deselect (flash_timer s) = Inr s'"
      using flash_deselect_returns [of lg "flash_timer s"] at lat
      by (auto simp: flash_latch_defs flash_wf_def word_le_nat_alt)
    moreover have tick: "flash_tick s csn sck dat = Inr (s', dat)" using csn s' by (simp add: flash_tick_def Let_def)
    ultimately show ?thesis using flash_tick_discipline [OF tick] by (auto simp: flash_in_store_def)
  qed
  then show ?thesis using flash_tick_discipline [of s csn sck dat] by blast
qed

text \<open>A program command with its address and one byte of data, clocked in from power-up.\<close>

definition flash_pin_byte :: "u8 \<Rightarrow> (int \<times> int \<times> u32) list" where
  "flash_pin_byte b = concat (map (\<lambda>x. [(0, 0, of_bool x), (0, 1, of_bool x)]) (byte_bits b))"

definition flash_program_pins :: "(int \<times> int \<times> u32) list" where
  "flash_program_pins = [(1, 1, 0)] @ flash_pin_byte 0x06 @ [(1, 1, 0)]
     @ concat (map flash_pin_byte [0x02, 0xff, 0xff, 0xf0, 0x5a])"

lemma flash_program_pins_run:
  "case run flash_pin_step (flash_new flash_blank 24 False 0 6) flash_program_pins of
     Inr (s, xs) \<Rightarrow> m_state s = QSPIF_PP \<and> m_count s = 40 \<and> m_addr s = 0xfffff1
   | Inl _ \<Rightarrow> False"
  by code_simp

theorem flash_write_discipline_witness:
  "\<exists>s xs s'. run flash_pin_step (flash_new flash_blank 24 False 0 6) flash_program_pins = Inr (s, xs)
    \<and> m_state s = QSPIF_PP \<and> flash_tick s 1 1 0 = Inr (s', 0) \<and> m_mem s' = flash_cell_after s
    \<and> (\<forall>a. push_bit 24 1 \<le> a \<longrightarrow> m_mem s' a = m_mem s a)"
proof -
  obtain s xs where run: "run flash_pin_step (flash_new flash_blank 24 False 0 6) flash_program_pins = Inr (s, xs)"
    "m_state s = QSPIF_PP" "m_count s = 40"
    using flash_program_pins_run by (auto split: sum.splits)
  have "(1 :: int) \<noteq> 0 \<and> (m_state s \<in> {QSPIF_PP, QSPIF_QPP} \<longrightarrow> 32 \<le> m_count s)
      \<and> (m_state s = QSPIF_SECTOR_ERASE \<longrightarrow> 32 \<le> m_count s \<and> 22 \<le> (24 :: nat))"
    using run(2,3) by simp
  with flash_write_discipline [OF run(1), of 1 1 0] obtain s' where "flash_tick s 1 1 0 = Inr (s', 0)"
    "\<forall>a. push_bit 24 1 \<le> a \<longrightarrow> m_mem s' a = m_mem s a" "m_mem s' = flash_cell_after s" by fastforce
  then show ?thesis using run(1,2) by blast
qed

section \<open>Loading an image\<close>

text \<open>
  \<open>load(addr, fname)\<close>.  At address 0 the memory becomes the file followed by erased bytes.
  At an address at or beyond the length of the file, the loop that erases the rest starts too
  low and wipes the image just loaded: every byte from the file's length on reads 0xff.
\<close>

theorem flash_load_file_contents:
  assumes "addr < m_membytes s" "length bs \<le> unat (m_membytes s - addr)" "a < m_membytes s"
  shows "(addr = 0 \<longrightarrow> m_mem (flash_load_file s addr (Some bs)) a
            = (if unat a < length bs then bs ! unat a else 0xff))
    \<and> (length bs \<le> unat addr \<and> addr \<le> a \<longrightarrow> m_mem (flash_load_file s addr (Some bs)) a = 0xff)"
proof -
  have "unat (m_membytes s - addr) = unat (m_membytes s) - unat addr"
    using assms(1) by (simp add: unat_sub word_le_nat_alt word_less_nat_alt)
  then show ?thesis
    using assms by (auto simp: flash_load_file_def Let_def word_le_nat_alt word_less_nat_alt not_le)
qed

theorem flash_load_file_contents_witness:
  "m_mem (flash_load_file flash_blank 4 (Some [1, 2])) 5 = 0xff
    \<and> m_mem (flash_load_file flash_blank 0 (Some [1, 2])) 1 = 2"
proof -
  have n: "m_membytes flash_blank = 0x10000" by (simp add: flash_blank_def flash_new_def)
  show ?thesis
    using flash_load_file_contents [of 4 flash_blank "[1, 2]" 5]
      flash_load_file_contents [of 0 flash_blank "[1, 2]" 1]
    by (simp add: n)
qed

end
