(* ===== verification/EnetCtrl.thy ===== *)
theory EnetCtrl
  imports Prelude
begin

text \<open>
  The simulated management interface of the Ethernet PHY, class \<open>ENETCTRLSIM\<close> of
  \<open>sim/verilated/enetctrlsim.cpp\<close>: an MDIO slave with 32 registers.  It watches the clock
  and data pins, synchronises on a preamble of ones at a regular clock, collects a frame bit
  by bit, answers a read by shifting a register out and performs a write.

  \<open>m_datareg\<close> and \<open>m_outreg\<close> are bags of bits and so words, the other \<open>int\<close> fields are
  integers.  The tick counter is not reduced modulo its width: it is cleared at every rising
  edge.  The printouts are not modelled.
\<close>

section \<open>State and operations\<close>

record enet =
  m_consecutive_clocks :: int
  m_lastout :: int
  m_tickcount :: int
  m_ticks_per_clock :: int
  m_lastclk :: int
  TICKS_PER_CLOCK :: int
  PHY_ADDR :: u32
  m_mem :: "u32 list"
  m_synched :: bool
  m_datareg :: u32
  m_halfword :: int
  m_outreg :: u32

definition ENET_MEMWORDS :: nat where "ENET_MEMWORDS = 32"

definition enet_new :: enet where
  "enet_new = \<lparr>m_consecutive_clocks = 0, m_lastout = 0, m_tickcount = 0, m_ticks_per_clock = 0,
     m_lastclk = 0, TICKS_PER_CLOCK = 4, PHY_ADDR = 1, m_mem = replicate ENET_MEMWORDS 0,
     m_synched = False, m_datareg = - 1, m_halfword = 0, m_outreg = - 1\<rparr>"

definition enet_reset :: "int \<Rightarrow> enet \<Rightarrow> enet" where
  "enet_reset clk s =
     s\<lparr>m_consecutive_clocks := 0, m_synched := False, m_lastout := 1, m_datareg := - 1,
       m_lastclk := clk\<rparr>"

text \<open>A rising clock edge counts ones and checks that the clock is regular.\<close>

definition enet_posedge :: "int \<Rightarrow> enet \<Rightarrow> enet" where
  "enet_posedge data s =
     (let s = (if data \<noteq> 0 \<and> m_consecutive_clocks s < 128
               then s\<lparr>m_consecutive_clocks := m_consecutive_clocks s + 1\<rparr>
               else if data = 0 then s\<lparr>m_consecutive_clocks := 0\<rparr> else s);
          s = (if m_tickcount s \<noteq> m_ticks_per_clock s \<or> m_ticks_per_clock s < TICKS_PER_CLOCK s
               then s\<lparr>m_consecutive_clocks := 0, m_synched := False\<rparr> else s)
      in s\<lparr>m_ticks_per_clock := m_tickcount s, m_tickcount := 0\<rparr>)"

definition enet_resync :: "enet \<Rightarrow> enet" where
  "enet_resync s =
     (if 32 < m_consecutive_clocks s
      then s\<lparr>m_synched := True, m_lastout := 1, m_halfword := 0, m_datareg := - 1\<rparr> else s)"

definition enet_half_command :: "enet \<Rightarrow> fault + enet" where
  "enet_half_command s =
     (let s = s\<lparr>m_halfword := 1\<rparr>;
          cmd = drop_bit 12 (m_datareg s) AND 0x0f;
          phy = drop_bit 7 (m_datareg s) AND 0x01f
      in if cmd = 6 \<and> phy = PHY_ADDR s
         then let addr = unat (drop_bit 2 (m_datareg s) AND 0x01f)
              in in_bounds (addr < length (m_mem s))
                   (Inr (s\<lparr>m_outreg := push_bit 15 (m_mem s ! addr AND 0x0ffff) OR 0x80007fff\<rparr>))
         else Inr s)"

definition enet_full_command :: "enet \<Rightarrow> fault + enet" where
  "enet_full_command s =
     (let s = s\<lparr>m_halfword := 0\<rparr>;
          cmd = drop_bit 28 (m_datareg s) AND 0x0f;
          phy = drop_bit 23 (m_datareg s) AND 0x01f
      in rbind
           (if cmd = 5 \<and> phy = PHY_ADDR s
            then c_assert (m_datareg s AND 0x010000 = 0)
                   (let addr = unat (drop_bit 18 (m_datareg s) AND 0x1f)
                    in in_bounds (addr < length (m_mem s))
                         (Inr (s\<lparr>m_mem := (m_mem s)[addr := m_datareg s AND 0x0ffff]\<rparr>)))
            else Inr s)
           (\<lambda>s. Inr (s\<lparr>m_datareg := - 1\<rparr>)))"

definition enet_data_bit :: "int \<Rightarrow> enet \<Rightarrow> fault + enet" where
  "enet_data_bit data s =
     (let s = s\<lparr>m_datareg := shl1 (m_datareg s) OR of_int (data mod 2)\<rparr>
      in if m_halfword s = 0 \<and> m_datareg s AND 0x8000 = 0 then enet_half_command s
         else if m_halfword s \<noteq> 0 \<and> m_halfword s < 16 then Inr (s\<lparr>m_halfword := m_halfword s + 1\<rparr>)
         else if m_halfword s \<noteq> 0 then enet_full_command s
         else Inr s)"

definition enet_output :: "int \<Rightarrow> enet \<Rightarrow> int" where
  "enet_output data s = (if m_outreg s AND 0x40000000 \<noteq> 0 then data AND 1 else 0)"

definition enet_tick :: "enet \<Rightarrow> int \<times> int \<times> int \<Rightarrow> fault + enet \<times> int" where
  "enet_tick s p =
     (case p of (in_reset, clk, data) \<Rightarrow>
       let posedge = (clk \<noteq> 0 \<and> m_lastclk s = 0);
           negedge = (clk = 0 \<and> m_lastclk s \<noteq> 0);
           s = s\<lparr>m_tickcount := m_tickcount s + 1\<rparr>
       in if in_reset \<noteq> 0 then Inr (enet_reset clk s, 1)
          else let s = (if posedge then enet_posedge data s else s);
                   s = enet_resync s
               in rbind
                    (if posedge \<and> m_synched s then enet_data_bit data s
                     else if negedge then Inr (s\<lparr>m_outreg := shl1 (m_outreg s) OR 1\<rparr>)
                     else Inr s)
                    (\<lambda>s. Inr (s\<lparr>m_lastclk := clk\<rparr>, enet_output data s)))"

definition enet_index :: "enet \<Rightarrow> int \<Rightarrow> fault + u32" where
  "enet_index s i =
     (let k = nat (i AND int ENET_MEMWORDS - 1)
      in in_bounds (k < length (m_mem s)) (Inr (m_mem s ! k AND 0x0ffff)))"

section \<open>The registers stay registers\<close>

definition enet_wf :: "enet \<Rightarrow> bool" where
  "enet_wf s \<longleftrightarrow> length (m_mem s) = ENET_MEMWORDS \<and> (\<forall>r \<in> set (m_mem s). r < 0x10000)
     \<and> 0 \<le> m_halfword s \<and> m_halfword s \<le> 16
     \<and> 0 \<le> m_consecutive_clocks s \<and> m_consecutive_clocks s \<le> 128"

lemma enet_new_wf: "enet_wf enet_new"
  by (simp add: enet_wf_def enet_new_def)

lemma enet_wf_frame [simp]:
  "enet_wf (s\<lparr>m_outreg := o'\<rparr>) = enet_wf s" "enet_wf (s\<lparr>m_lastclk := c\<rparr>) = enet_wf s"
  "enet_wf (s\<lparr>m_tickcount := t\<rparr>) = enet_wf s"
  by (simp_all add: enet_wf_def)

lemma and_1f_less: "unat (x AND 0x1f :: u32) < 32"
proof -
  have "x AND 0x1f = take_bit 5 x" by (simp add: take_bit_eq_mask mask_eq_exp_minus_1)
  then have "unat (x AND 0x1f) = take_bit 5 (unat x)" by (simp add: unsigned_take_bit_eq)
  then show ?thesis by (simp add: take_bit_eq_mod)
qed

lemma and_ffff_less: "x AND 0xffff < (0x10000 :: u32)"
proof -
  have "x AND 0xffff = take_bit 16 x" by (simp add: take_bit_eq_mask mask_eq_exp_minus_1)
  then have "unat (x AND 0xffff) = take_bit 16 (unat x)" by (simp add: unsigned_take_bit_eq)
  then show ?thesis by (simp add: take_bit_eq_mod word_less_nat_alt)
qed

lemma enet_half_command_wf:
  "enet_wf s \<Longrightarrow> enet_half_command s = Inr s' \<Longrightarrow> enet_wf s'"
  by (auto simp: enet_half_command_def enet_wf_def Let_def split: if_splits)

lemma enet_half_command_ok:
  "enet_wf s \<Longrightarrow> \<exists>s'. enet_half_command s = Inr s'"
  using and_1f_less by (auto simp: enet_half_command_def enet_wf_def Let_def ENET_MEMWORDS_def)

lemma enet_full_command_wf:
  assumes "enet_wf s" "enet_full_command s = Inr s'"
  shows "enet_wf s'"
  using assms and_ffff_less [of "m_datareg s"]
  by (auto simp: enet_full_command_def enet_wf_def Let_def split: if_splits dest!: set_update_subset_insert [THEN subsetD])

lemma enet_data_bit_wf:
  assumes "enet_wf s" "enet_data_bit d s = Inr s'"
  shows "enet_wf s'"
  using assms
  by (auto simp: enet_data_bit_def Let_def split: if_splits
      elim!: enet_half_command_wf [rotated] enet_full_command_wf [rotated]) (auto simp: enet_wf_def)

lemma enet_posedge_wf: "enet_wf s \<Longrightarrow> enet_wf (enet_posedge d s)"
  by (auto simp: enet_posedge_def enet_wf_def Let_def)

lemma enet_resync_wf: "enet_wf s \<Longrightarrow> enet_wf (enet_resync s)"
  by (auto simp: enet_resync_def enet_wf_def)

lemma enet_tick_wf:
  assumes "enet_wf s" "enet_tick s p = Inr (s', x)"
  shows "enet_wf s'"
proof -
  obtain r clk d where p: "p = (r, clk, d)" by (cases p)
  let ?t = "s\<lparr>m_tickcount := m_tickcount s + 1\<rparr>"
  let ?u = "enet_resync (if clk \<noteq> 0 \<and> m_lastclk s = 0 then enet_posedge d ?t else ?t)"
  have "enet_wf ?t" using assms(1) by (simp add: enet_wf_def)
  then have u: "enet_wf ?u" by (simp add: enet_resync_wf enet_posedge_wf)
  show ?thesis
  proof (cases "r = 0")
    case False
    with assms p show ?thesis by (auto simp: enet_tick_def Let_def enet_reset_def enet_wf_def)
  next
    case True
    with assms(2) p obtain v where v: "s' = v\<lparr>m_lastclk := clk\<rparr>"
      and "enet_data_bit d ?u = Inr v \<or> v = ?u\<lparr>m_outreg := shl1 (m_outreg ?u) OR 1\<rparr> \<or> v = ?u"
      by (auto simp: enet_tick_def Let_def split: if_splits)
    with u have "enet_wf v" by (auto dest: enet_data_bit_wf)
    with v show ?thesis by simp
  qed
qed

interpretation enet: step_invariant enet_tick enet_wf "\<lambda>_. True"
  by unfold_locales (rule enet_tick_wf)

text \<open>
  from power up, whatever the clock, data and reset pins do, the PHY keeps 32 registers of
  16 bits, and its bit counter and preamble counter stay in range.
\<close>

theorem enet_registers:
  assumes "run enet_tick enet_new ps = Inr (s, xs)"
  shows "enet_wf s"
  using enet.run_inv [OF enet_new_wf _ assms] by (simp add: list_all_iff)

theorem enet_registers_witness:
  "\<exists>s xs. run enet_tick enet_new [(0, 1, 1), (1, 0, 0)] = Inr (s, xs) \<and> enet_wf s"
proof -
  have "\<exists>s xs. run enet_tick enet_new [(0, 1, 1), (1, 0, 0)] = Inr (s, xs)"
    by (simp add: enet_tick_def Let_def enet_new_def enet_posedge_def enet_resync_def enet_reset_def)
  then show ?thesis using enet_registers by blast
qed

section \<open>Clock periods\<close>

text \<open>
  The bus master's side: one bit is a clock period of \<open>L\<close> ticks low and \<open>H\<close> ticks high with
  the data stable; the value read back is that of the last tick.
\<close>

definition enet_clock :: "nat \<Rightarrow> nat \<Rightarrow> enet \<Rightarrow> bool \<Rightarrow> fault + enet \<times> int" where
  "enet_clock L H s b =
     rbind (run enet_tick s (replicate L (0, 0, of_bool b) @ replicate H (0, 1, of_bool b)))
       (\<lambda>(s, xs). Inr (s, last xs))"

definition enet_settled :: "enet \<Rightarrow> bool" where
  "enet_settled s \<longleftrightarrow> (32 < m_consecutive_clocks s \<longrightarrow>
     m_synched s \<and> m_lastout s = 1 \<and> m_halfword s = 0 \<and> m_datareg s = - 1)"

lemma enet_resync_settled: "enet_settled s \<Longrightarrow> enet_resync s = s"
  by (cases s) (auto simp: enet_settled_def enet_resync_def)

lemma enet_settled_frame [simp]:
  "enet_settled (s\<lparr>m_tickcount := t\<rparr>) = enet_settled s"
  "enet_settled (s\<lparr>m_lastclk := t\<rparr>) = enet_settled s"
  "enet_settled (s\<lparr>m_outreg := g\<rparr>) = enet_settled s"
  by (simp_all add: enet_settled_def)

lemma enet_tick_hold:
  assumes "enet_settled s" "m_lastclk s = clk"
  shows "enet_tick s (0, clk, d) = Inr (s\<lparr>m_tickcount := m_tickcount s + 1\<rparr>, enet_output d s)"
  using assms
  by (auto simp: enet_tick_def Let_def enet_resync_settled enet_output_def)

lemma enet_run_hold:
  assumes "enet_settled s" "m_lastclk s = clk"
  shows "run enet_tick s (replicate n (0, clk, d)) =
    Inr (s\<lparr>m_tickcount := m_tickcount s + int n\<rparr>, replicate n (enet_output d s))"
  using assms
proof (induction n arbitrary: s)
  case 0
  then show ?case by simp
next
  case (Suc n)
  let ?s = "s\<lparr>m_tickcount := m_tickcount s + 1\<rparr>"
  have "run enet_tick ?s (replicate n (0, clk, d)) =
      Inr (?s\<lparr>m_tickcount := m_tickcount ?s + int n\<rparr>, replicate n (enet_output d ?s))"
    using Suc.prems by (intro Suc.IH) simp_all
  then show ?case
    using Suc.prems by (simp add: enet_tick_hold enet_output_def add.assoc)
qed

lemma enet_run_low:
  assumes "enet_settled s" "m_lastclk s = 1" "0 < L"
  shows "\<exists>xs. run enet_tick s (replicate L (0, 0, d)) =
    Inr (s\<lparr>m_tickcount := m_tickcount s + int L, m_outreg := shl1 (m_outreg s) OR 1, m_lastclk := 0\<rparr>, xs)"
proof -
  obtain n where n: "L = Suc n" using assms(3) gr0_implies_Suc by blast
  let ?s = "s\<lparr>m_tickcount := m_tickcount s + 1, m_outreg := shl1 (m_outreg s) OR 1, m_lastclk := 0\<rparr>"
  have "enet_tick s (0, 0, d) = Inr (?s, enet_output d ?s)"
    using assms by (simp add: enet_tick_def Let_def enet_resync_settled enet_output_def)
  moreover have "run enet_tick ?s (replicate n (0, 0, d)) =
      Inr (?s\<lparr>m_tickcount := m_tickcount ?s + int n\<rparr>, replicate n (enet_output d ?s))"
    using assms by (intro enet_run_hold) simp_all
  ultimately show ?thesis by (auto simp: n algebra_simps)
qed

text \<open>A rising edge while the clock is regular, and the rest of the high phase.\<close>

definition enet_rise :: "bool \<Rightarrow> enet \<Rightarrow> enet" where
  "enet_rise b s = enet_resync (s\<lparr>m_consecutive_clocks :=
     (if b then (if m_consecutive_clocks s < 128 then m_consecutive_clocks s + 1 else m_consecutive_clocks s)
      else 0), m_outreg := shl1 (m_outreg s) OR 1, m_tickcount := 0, m_lastclk := 0\<rparr>)"

definition enet_regular :: "nat \<Rightarrow> nat \<Rightarrow> enet \<Rightarrow> bool" where
  "enet_regular L H s \<longleftrightarrow> 0 < L \<and> 0 < H \<and> m_lastclk s = 1 \<and> m_tickcount s = int H - 1
     \<and> m_ticks_per_clock s = int L + int H \<and> TICKS_PER_CLOCK s \<le> int L + int H \<and> enet_settled s"

lemma enet_tick_rise:
  assumes "m_lastclk u = 0" "enet_resync (enet_posedge d (u\<lparr>m_tickcount := m_tickcount u + 1\<rparr>)) = w"
    and "(if m_synched w then enet_data_bit d w else Inr w) = Inr t"
  shows "enet_tick u (0, 1, d) = Inr (t\<lparr>m_lastclk := 1\<rparr>, enet_output d t)"
  using assms by (auto simp: enet_tick_def Let_def enet_output_def split: if_splits)

lemma enet_clock_eq:
  assumes "enet_regular L H s"
    and t: "(if m_synched (enet_rise b s) then enet_data_bit (of_bool b) (enet_rise b s)
          else Inr (enet_rise b s)) = Inr t"
    and "enet_settled t" "m_tickcount t = 0"
  shows "enet_clock L H s b =
    Inr (t\<lparr>m_lastclk := 1, m_tickcount := int H - 1\<rparr>, enet_output (of_bool b) t)"
proof -
  let ?d = "of_bool b :: int"
  let ?u = "s\<lparr>m_tickcount := m_tickcount s + int L, m_outreg := shl1 (m_outreg s) OR 1, m_lastclk := 0\<rparr>"
  let ?t = "t\<lparr>m_lastclk := 1\<rparr>"
  have s: "0 < L" "0 < H" "m_lastclk s = 1" "m_tickcount s = int H - 1"
      "m_ticks_per_clock s = int L + int H" "TICKS_PER_CLOCK s \<le> int L + int H" "enet_settled s"
    using assms(1) by (simp_all add: enet_regular_def)
  obtain n where n: "H = Suc n" using s(2) gr0_implies_Suc by blast
  obtain xs where low: "run enet_tick s (replicate L (0, 0, ?d)) = Inr (?u, xs)"
    using enet_run_low [OF s(7,3,1)] by blast
  have "enet_posedge ?d (?u\<lparr>m_tickcount := m_tickcount ?u + 1\<rparr>) =
      ?u\<lparr>m_tickcount := 0, m_consecutive_clocks :=
       (if b then (if m_consecutive_clocks s < 128 then m_consecutive_clocks s + 1 else m_consecutive_clocks s)
        else 0)\<rparr>"
    using s by (cases s) (simp add: enet_posedge_def Let_def)
  then have rise: "enet_resync (enet_posedge ?d (?u\<lparr>m_tickcount := m_tickcount ?u + 1\<rparr>)) = enet_rise b s"
    by (cases s) (simp add: enet_rise_def cong: if_cong)
  have "enet_tick ?u (0, 1, ?d) = Inr (?t, enet_output ?d t)"
    by (rule enet_tick_rise [OF _ rise t]) simp
  moreover have "run enet_tick ?t (replicate n (0, 1, ?d)) =
      Inr (?t\<lparr>m_tickcount := m_tickcount ?t + int n\<rparr>, replicate n (enet_output ?d ?t))"
    using assms(3) by (intro enet_run_hold) simp_all
  ultimately have "run enet_tick ?u (replicate H (0, 1, ?d)) =
      Inr (?t\<lparr>m_tickcount := int n\<rparr>, replicate (Suc n) (enet_output ?d t))"
    using assms(4) by (simp add: n enet_output_def)
  from run_append_Inr [OF low this] show ?thesis
    by (simp add: enet_clock_def n)
qed

section \<open>Frames\<close>

text \<open>A synchronised PHY in the middle of a frame, at the end of a clock period.\<close>

definition enet_in :: "nat \<Rightarrow> nat \<Rightarrow> u32 \<Rightarrow> int \<Rightarrow> int \<Rightarrow> u32 \<Rightarrow> u32 \<Rightarrow> u32 list \<Rightarrow> enet \<Rightarrow> bool" where
  "enet_in L H p c hw dr og mm s \<longleftrightarrow> enet_regular L H s \<and> m_synched s \<and> PHY_ADDR s = p
     \<and> m_consecutive_clocks s = c \<and> m_halfword s = hw \<and> m_datareg s = dr \<and> m_outreg s = og \<and> m_mem s = mm"

lemma enet_data_bit_frame:
  assumes "enet_data_bit d s = Inr t"
  shows "m_tickcount t = m_tickcount s" "m_ticks_per_clock t = m_ticks_per_clock s"
    "m_consecutive_clocks t = m_consecutive_clocks s" "TICKS_PER_CLOCK t = TICKS_PER_CLOCK s"
    "PHY_ADDR t = PHY_ADDR s" "m_synched t = m_synched s" "m_lastclk t = m_lastclk s"
  using assms
  by (auto simp: enet_data_bit_def enet_half_command_def enet_full_command_def Let_def split: if_splits)

lemma enet_rise_in:
  assumes "enet_in L H p c hw dr og mm s" "(if b then c + 1 else 0) \<le> 32"
  shows "enet_rise b s = s\<lparr>m_consecutive_clocks := (if b then c + 1 else 0),
    m_outreg := shl1 og OR 1, m_tickcount := 0, m_lastclk := 0\<rparr>"
  using assms by (auto simp: enet_in_def enet_rise_def enet_resync_def)

lemma enet_output_bit: "enet_output (of_bool b) t = of_bool (b \<and> bit (m_outreg t) 30)"
proof -
  have "m_outreg t AND 0x40000000 \<noteq> 0 \<longleftrightarrow> bit (m_outreg t) 30"
    using bit_iff_and_push_bit_not_eq_0 [of "m_outreg t" 30] by simp
  then show ?thesis by (cases b) (auto simp: enet_output_def)
qed

lemma enet_in_step:
  assumes "enet_in L H p c hw dr og mm s" "(if b then c + 1 else 0) = c'" "c' \<le> 32"
    and "enet_data_bit (of_bool b) (enet_rise b s) = Inr t"
  shows "\<exists>s'. enet_clock L H s b = Inr (s', of_bool (b \<and> bit (m_outreg t) 30))
    \<and> enet_in L H p c' (m_halfword t) (m_datareg t) (m_outreg t) (m_mem t) s'"
proof -
  let ?s = "t\<lparr>m_lastclk := 1, m_tickcount := int H - 1\<rparr>"
  have rise: "enet_rise b s = s\<lparr>m_consecutive_clocks := c', m_outreg := shl1 og OR 1,
      m_tickcount := 0, m_lastclk := 0\<rparr>"
    using enet_rise_in [OF assms(1), of b] assms(2,3) by simp
  have t: "m_tickcount t = 0" "m_consecutive_clocks t = c'" "m_synched t"
    "m_ticks_per_clock t = m_ticks_per_clock s" "TICKS_PER_CLOCK t = TICKS_PER_CLOCK s" "PHY_ADDR t = p"
    using enet_data_bit_frame [OF assms(4)] assms(1) unfolding rise by (simp_all add: enet_in_def)
  have set: "enet_settled t" using t(2) assms(3) by (simp add: enet_settled_def)
  have "m_synched (enet_rise b s)" using assms(1) unfolding rise by (simp add: enet_in_def)
  with assms(4) have "(if m_synched (enet_rise b s) then enet_data_bit (of_bool b) (enet_rise b s)
      else Inr (enet_rise b s)) = Inr t" by simp
  from enet_clock_eq [OF _ this set t(1)] assms(1)
  have "enet_clock L H s b = Inr (?s, of_bool (b \<and> bit (m_outreg t) 30))"
    by (simp add: enet_output_bit enet_in_def)
  moreover have "enet_in L H p c' (m_halfword t) (m_datareg t) (m_outreg t) (m_mem t) ?s"
    using assms(1) t set by (simp add: enet_in_def enet_regular_def)
  ultimately show ?thesis by blast
qed

lemma and_8000: "x AND 0x8000 = 0 \<longleftrightarrow> \<not> bit x 15" for x :: u32
  using bit_iff_and_push_bit_not_eq_0 [of x 15] by simp

lemma of_int_of_bool_mod [simp]: "of_int (of_bool b mod 2) = (of_bool b :: u32)"
  by (cases b) simp_all

text \<open>Bits that are only collected, before the first half of the frame is complete.\<close>

lemma enet_collect_step:
  assumes "enet_in L H p c 0 dr og mm s" "(if b then c + 1 else 0) = c'" "c' \<le> 32"
    and "bit (shl1 dr OR of_bool b) 15"
  shows "\<exists>s'. enet_clock L H s b = Inr (s', of_bool (b \<and> bit (shl1 og OR 1) 30))
    \<and> enet_in L H p c' 0 (shl1 dr OR of_bool b) (shl1 og OR 1) mm s'"
proof -
  let ?t = "(enet_rise b s)\<lparr>m_datareg := shl1 dr OR of_bool b\<rparr>"
  have rise: "enet_rise b s = s\<lparr>m_consecutive_clocks := c', m_outreg := shl1 og OR 1,
      m_tickcount := 0, m_lastclk := 0\<rparr>"
    using enet_rise_in [OF assms(1), of b] assms(2,3) by simp
  have "enet_data_bit (of_bool b) (enet_rise b s) = Inr ?t"
    using assms(1,4) unfolding rise enet_data_bit_def Let_def
    by (simp add: enet_in_def and_8000)
  from enet_in_step [OF assms(1-3) this] show ?thesis
    using assms(1) unfolding rise by (simp add: enet_in_def)
qed

lemma enet_count_step:
  assumes "enet_in L H p c hw dr og mm s" "(if b then c + 1 else 0) = c'" "c' \<le> 32" "0 < hw" "hw < 16"
  shows "\<exists>s'. enet_clock L H s b = Inr (s', of_bool (b \<and> bit (shl1 og OR 1) 30))
    \<and> enet_in L H p c' (hw + 1) (shl1 dr OR of_bool b) (shl1 og OR 1) mm s'"
proof -
  let ?t = "(enet_rise b s)\<lparr>m_datareg := shl1 dr OR of_bool b, m_halfword := hw + 1\<rparr>"
  have rise: "enet_rise b s = s\<lparr>m_consecutive_clocks := c', m_outreg := shl1 og OR 1,
      m_tickcount := 0, m_lastclk := 0\<rparr>"
    using enet_rise_in [OF assms(1), of b] assms(2,3) by simp
  have "enet_data_bit (of_bool b) (enet_rise b s) = Inr ?t"
    using assms(1,4,5) unfolding rise enet_data_bit_def Let_def
    by (simp add: enet_in_def)
  from enet_in_step [OF assms(1-3) this] show ?thesis
    using assms(1) unfolding rise by (simp add: enet_in_def)
qed

text \<open>What the master reads while the PHY only collects or counts.\<close>

fun enet_reads :: "u32 \<Rightarrow> bool list \<Rightarrow> int list" where
  "enet_reads og [] = []"
| "enet_reads og (b # bs) = of_bool (b \<and> bit (shl1 og OR 1) 30) # enet_reads (shl1 og OR 1) bs"

lemma enet_collect_run:
  assumes "enet_in L H p c 0 dr og mm s" "0 \<le> c" "c + int (length bs) \<le> 32"
    and "\<And>n. n < length bs \<Longrightarrow> bit (shift_in dr (take (Suc n) bs)) 15"
  shows "\<exists>s' c'. run (enet_clock L H) s bs = Inr (s', enet_reads og bs) \<and> 0 \<le> c' \<and> c' \<le> c + int (length bs)
    \<and> enet_in L H p c' 0 (shift_in dr bs) (shift_in og (replicate (length bs) True)) mm s'"
  using assms
proof (induction bs arbitrary: s c dr og)
  case Nil
  then show ?case by auto
next
  case (Cons b bs)
  let ?c = "if b then c + 1 else 0"
  have c: "?c \<le> 32" using Cons.prems(2,3) by simp
  have "bit (shl1 dr OR of_bool b) 15" using Cons.prems(4) [of 0] by simp
  then obtain s1 where 1: "enet_clock L H s b = Inr (s1, of_bool (b \<and> bit (shl1 og OR 1) 30))"
    "enet_in L H p ?c 0 (shl1 dr OR of_bool b) (shl1 og OR 1) mm s1"
    using enet_collect_step [OF Cons.prems(1) refl c] by blast
  have "\<exists>s' c'. run (enet_clock L H) s1 bs = Inr (s', enet_reads (shl1 og OR 1) bs) \<and> 0 \<le> c'
      \<and> c' \<le> ?c + int (length bs) \<and> enet_in L H p c' 0 (shift_in (shl1 dr OR of_bool b) bs)
         (shift_in (shl1 og OR 1) (replicate (length bs) True)) mm s'"
    using Cons.prems(2,3) Cons.prems(4) [of "Suc n" for n] by (intro Cons.IH 1(2)) auto
  with 1(1) Cons.prems(2) show ?case by (fastforce split: if_splits)
qed

lemma enet_count_run:
  assumes "enet_in L H p c hw dr og mm s" "0 \<le> c" "c + int (length bs) \<le> 32"
    and "0 < hw" "hw + int (length bs) \<le> 16"
  shows "\<exists>s' c'. run (enet_clock L H) s bs = Inr (s', enet_reads og bs) \<and> 0 \<le> c' \<and> c' \<le> c + int (length bs)
    \<and> enet_in L H p c' (hw + int (length bs)) (shift_in dr bs) (shift_in og (replicate (length bs) True)) mm s'"
  using assms
proof (induction bs arbitrary: s c dr og hw)
  case Nil
  then show ?case by auto
next
  case (Cons b bs)
  let ?c = "if b then c + 1 else 0"
  have c: "?c \<le> 32" "hw < 16" using Cons.prems(2,3,5) by simp_all
  obtain s1 where 1: "enet_clock L H s b = Inr (s1, of_bool (b \<and> bit (shl1 og OR 1) 30))"
    "enet_in L H p ?c (hw + 1) (shl1 dr OR of_bool b) (shl1 og OR 1) mm s1"
    using enet_count_step [OF Cons.prems(1) refl c(1) Cons.prems(4) c(2)] by blast
  have "\<exists>s' c'. run (enet_clock L H) s1 bs = Inr (s', enet_reads (shl1 og OR 1) bs) \<and> 0 \<le> c'
      \<and> c' \<le> ?c + int (length bs) \<and> enet_in L H p c' (hw + 1 + int (length bs)) (shift_in (shl1 dr OR of_bool b) bs)
         (shift_in (shl1 og OR 1) (replicate (length bs) True)) mm s'"
    using Cons.prems(2-5) by (intro Cons.IH 1(2)) auto
  with 1(1) Cons.prems(2) show ?case by (fastforce simp: add.assoc split: if_splits)
qed

lemma length_enet_reads [simp]: "length (enet_reads og bs) = length bs"
  by (induction bs arbitrary: og) simp_all

lemma enet_reads_nth:
  "j < length bs \<Longrightarrow> j < 29 \<Longrightarrow> enet_reads og bs ! j = of_bool (bs ! j \<and> bit og (29 - j))"
proof (induction bs arbitrary: og j)
  case Nil
  then show ?case by simp
next
  case (Cons b bs)
  have step: "bit (shl1 og OR 1) (Suc n) = bit og n" if "n < 31" for n
    using that by (simp add: bit_simps bit_shl1)
  show ?case
  proof (cases j)
    case 0
    then show ?thesis using step [of 29] by simp
  next
    case (Suc i)
    moreover have "29 - i = Suc (29 - Suc i)" using Suc Cons.prems by simp
    ultimately show ?thesis using Cons.IH [of i "shl1 og OR 1"] Cons.prems step [of "29 - Suc i"] by simp
  qed
qed

text \<open>The fields of a frame, most significant bit first on the wire.\<close>

definition frame_bits :: "u32 \<Rightarrow> bool list" where
  "frame_bits v = map (\<lambda>i. bit v (31 - i)) [0..<32]"

definition frame_cmd :: "u32 \<Rightarrow> u32" where "frame_cmd v = drop_bit 28 v AND 0x0f"
definition frame_phy :: "u32 \<Rightarrow> u32" where "frame_phy v = drop_bit 23 v AND 0x01f"
definition frame_reg :: "u32 \<Rightarrow> nat" where "frame_reg v = unat (drop_bit 18 v AND 0x1f)"

lemma length_frame_bits [simp]: "length (frame_bits v) = 32"
  by (simp add: frame_bits_def)

lemma frame_bits_nth: "i < 32 \<Longrightarrow> frame_bits v ! i = bit v (31 - i)"
  by (simp add: frame_bits_def)

lemma bit_frame:
  assumes "n \<le> 32" "k < 32"
  shows "bit (shift_in (- 1) (take n (frame_bits v))) k = (if k < n then bit v (k + (32 - n)) else True)"
proof (cases "k < n")
  case True
  have "rev (take n (frame_bits v)) ! k = frame_bits v ! (n - Suc k)"
    using True assms by (simp add: rev_nth)
  also have "\<dots> = bit v (31 - (n - Suc k))" using True assms by (intro frame_bits_nth) simp
  also have "31 - (n - Suc k) = k + (32 - n)" using True assms by simp
  finally show ?thesis using True assms by (simp add: bit_shift_in)
next
  case False
  with assms show ?thesis by (simp add: bit_shift_in)
qed

lemma and_0f: "x AND 0x0f = take_bit 4 x" for x :: u32
  by (simp add: take_bit_eq_mask mask_eq_exp_minus_1)

lemma and_1f: "x AND 0x1f = take_bit 5 x" for x :: u32
  by (simp add: take_bit_eq_mask mask_eq_exp_minus_1)

lemma half_frame_fields:
  fixes v :: u32
  defines "d \<equiv> shift_in (- 1) (take 16 (frame_bits v))"
  shows "drop_bit 12 d AND 0x0f = frame_cmd v" "drop_bit 7 d AND 0x01f = frame_phy v"
    "unat (drop_bit 2 d AND 0x01f) = frame_reg v"
proof -
  have bits: "bit d k = bit v (k + 16)" if "k < 16" for k
    using that bit_frame [of 16 k v] by (simp add: d_def)
  show "drop_bit 12 d AND 0x0f = frame_cmd v"
    unfolding frame_cmd_def and_0f by (rule bit_word_eqI) (auto simp: bit_simps bits add.commute)
  show "drop_bit 7 d AND 0x01f = frame_phy v"
    unfolding frame_phy_def and_1f by (rule bit_word_eqI) (auto simp: bit_simps bits add.commute)
  have "drop_bit 2 d AND 0x01f = drop_bit 18 v AND 0x01f"
    unfolding and_1f by (rule bit_word_eqI) (auto simp: bit_simps bits add.commute)
  then show "unat (drop_bit 2 d AND 0x01f) = frame_reg v" by (simp add: frame_reg_def)
qed

lemma full_frame: "shift_in (- 1) (frame_bits v) = v"
  using bit_frame [of 32 _ v] by (intro bit_word_eqI) simp

lemma enet_half_step:
  assumes "enet_in L H p c 0 dr og mm s" "(if b then c + 1 else 0) = c'" "c' \<le> 32" "length mm = 32"
    and d: "shl1 dr OR of_bool b = shift_in (- 1) (take 16 (frame_bits v))" and "\<not> bit v 31"
  defines "og' \<equiv> (if frame_cmd v = 6 \<and> frame_phy v = p
     then push_bit 15 (mm ! frame_reg v AND 0xffff) OR 0x80007fff else shl1 og OR 1)"
  shows "\<exists>s'. enet_clock L H s b = Inr (s', of_bool (b \<and> bit og' 30))
    \<and> enet_in L H p c' 1 (shl1 dr OR of_bool b) og' mm s'"
proof -
  let ?t = "(enet_rise b s)\<lparr>m_datareg := shl1 dr OR of_bool b, m_halfword := 1, m_outreg := og'\<rparr>"
  have rise: "enet_rise b s = s\<lparr>m_consecutive_clocks := c', m_outreg := shl1 og OR 1,
      m_tickcount := 0, m_lastclk := 0\<rparr>"
    using enet_rise_in [OF assms(1), of b] assms(2,3) by simp
  have s: "m_halfword s = 0" "m_datareg s = dr" "m_mem s = mm" "PHY_ADDR s = p"
    using assms(1) by (simp_all add: enet_in_def)
  have "\<not> bit (shl1 dr OR of_bool b) 15" using assms(6) bit_frame [of 16 15 v] unfolding d by simp
  then have "enet_data_bit (of_bool b) (enet_rise b s) =
      enet_half_command ((enet_rise b s)\<lparr>m_datareg := shl1 dr OR of_bool b\<rparr>)"
    using s unfolding rise enet_data_bit_def Let_def by (simp add: and_8000)
  also have "\<dots> = Inr ?t"
  proof -
    have "frame_reg v < 32" using and_1f_less by (simp add: frame_reg_def)
    then show ?thesis
      using s assms(4) unfolding rise enet_half_command_def Let_def
      by (simp add: d half_frame_fields og'_def)
  qed
  finally have "enet_data_bit (of_bool b) (enet_rise b s) = Inr ?t" .
  from enet_in_step [OF assms(1-3) this] show ?thesis
    using s unfolding rise by simp
qed

lemma enet_full_step:
  assumes "enet_in L H p c 16 dr og mm s" "(if b then c + 1 else 0) = c'" "c' \<le> 32" "length mm = 32"
    and d: "shl1 dr OR of_bool b = v"
    and "frame_cmd v = 5 \<and> frame_phy v = p \<longrightarrow> \<not> bit v 16"
  shows "\<exists>s' x. enet_clock L H s b = Inr (s', x)
    \<and> enet_in L H p c' 0 (- 1) (shl1 og OR 1)
        (if frame_cmd v = 5 \<and> frame_phy v = p then mm[frame_reg v := v AND 0xffff] else mm) s'"
proof -
  let ?mm = "if frame_cmd v = 5 \<and> frame_phy v = p then mm[frame_reg v := v AND 0xffff] else mm"
  let ?t = "(enet_rise b s)\<lparr>m_datareg := - 1, m_halfword := 0, m_mem := ?mm\<rparr>"
  have rise: "enet_rise b s = s\<lparr>m_consecutive_clocks := c', m_outreg := shl1 og OR 1,
      m_tickcount := 0, m_lastclk := 0\<rparr>"
    using enet_rise_in [OF assms(1), of b] assms(2,3) by simp
  have s: "m_halfword s = 16" "m_datareg s = dr" "m_mem s = mm" "PHY_ADDR s = p"
    using assms(1) by (simp_all add: enet_in_def)
  have "v AND 0x10000 = 0 \<longleftrightarrow> \<not> bit v 16"
    using bit_iff_and_push_bit_not_eq_0 [of v 16] by simp
  with assms(6) have ok: "frame_cmd v = 5 \<and> frame_phy v = p \<longrightarrow> v AND 0x10000 = 0" by blast
  have reg: "frame_reg v < 32" using and_1f_less by (simp add: frame_reg_def)
  have "enet_data_bit (of_bool b) (enet_rise b s) =
      enet_full_command ((enet_rise b s)\<lparr>m_datareg := v\<rparr>)"
    using s unfolding rise enet_data_bit_def Let_def by (simp add: d)
  also have "\<dots> = Inr ?t"
    using s ok reg assms(4) unfolding rise enet_full_command_def Let_def
    by (cases s) (simp add: frame_cmd_def [symmetric] frame_phy_def [symmetric] frame_reg_def [symmetric])
  finally have "enet_data_bit (of_bool b) (enet_rise b s) = Inr ?t" .
  from enet_in_step [OF assms(1-3) this] show ?thesis
    using s unfolding rise by auto
qed

text \<open>A synchronised PHY between frames.\<close>

definition enet_ready :: "nat \<Rightarrow> nat \<Rightarrow> enet \<Rightarrow> bool" where
  "enet_ready L H s \<longleftrightarrow> enet_regular L H s \<and> m_synched s \<and> m_halfword s = 0 \<and> m_datareg s = - 1
     \<and> length (m_mem s) = 32"

lemma frame_bits_split:
  "frame_bits v = bit v 31 # take 14 (drop 1 (frame_bits v)) @
     bit v 16 # take 15 (drop 16 (frame_bits v)) @ [bit v 0]"
  (is "_ = ?r")
proof (rule nth_equalityI)
  fix i assume i: "i < length (frame_bits v)"
  consider "i = 0" | "0 < i" "i < 15" | "i = 15" | "15 < i" "i < 31" | "i = 31"
    using i by fastforce
  then show "frame_bits v ! i = ?r ! i"
    by cases (auto simp: nth_append nth_Cons' frame_bits_nth)
qed simp

lemma take_frame_bits:
  "n \<le> 14 \<Longrightarrow> bit v 31 # take n (take 14 (drop 1 (frame_bits v))) = take (Suc n) (frame_bits v)"
  "bit v 31 # take 14 (drop 1 (frame_bits v)) @ [bit v 16] = take 16 (frame_bits v)"
  by (subst (2) frame_bits_split, simp)+

lemma bit_read_word:
  assumes "i < 16"
  shows "bit (push_bit 15 (m AND 0xffff) OR (0x80007fff :: u32)) (15 + i) = bit (m :: u32) i"
proof -
  have "(0x80007fff :: u32) = push_bit 31 1 OR mask 15" by (simp add: mask_eq_exp_minus_1)
  moreover have "m AND 0xffff = take_bit 16 m" by (simp add: take_bit_eq_mask mask_eq_exp_minus_1)
  ultimately show ?thesis
    using assms by (simp only: bit_or_iff bit_push_bit_iff bit_take_bit_iff bit_low_mask bit_1_iff) auto
qed

text \<open>The two halves of a frame, and the bits that a read puts on the wire.\<close>

lemma enet_first_half:
  assumes "enet_ready L H s" "\<not> bit v 31"
  shows "\<exists>s' c og xs. run (enet_clock L H) s (take 16 (frame_bits v)) = Inr (s', xs @ [of_bool (bit v 16 \<and> bit og 30)])
    \<and> length xs = 15 \<and> 0 \<le> c \<and> c \<le> 15
    \<and> enet_in L H (PHY_ADDR s) c 1 (shift_in (- 1) (take 16 (frame_bits v))) og (m_mem s) s'
    \<and> (frame_cmd v = 6 \<and> frame_phy v = PHY_ADDR s
        \<longrightarrow> og = push_bit 15 (m_mem s ! frame_reg v AND 0xffff) OR 0x80007fff)"
proof -
  let ?bs = "frame_bits v" and ?p = "PHY_ADDR s" and ?mm = "m_mem s"
  let ?b14 = "take 14 (drop 1 ?bs)"
  have len: "length ?mm = 32" using assms(1) by (simp add: enet_ready_def)
  have "enet_in L H ?p (m_consecutive_clocks s) 0 (- 1) (m_outreg s) ?mm s"
    using assms(1) by (simp add: enet_ready_def enet_in_def)
  then obtain s1 x1 og where 1: "enet_clock L H s (bit v 31) = Inr (s1, x1)"
    "enet_in L H ?p 0 0 (shl1 (- 1) OR of_bool (bit v 31)) og ?mm s1"
    using enet_collect_step [of L H ?p "m_consecutive_clocks s" "- 1" "m_outreg s" ?mm s "bit v 31" 0] assms(2)
    by (simp add: bit_shl1) blast
  have "bit (shift_in (shl1 (- 1) OR of_bool (bit v 31)) (take (Suc n) ?b14)) 15" if "n < length ?b14" for n
  proof -
    have "shift_in (shl1 (- 1) OR of_bool (bit v 31)) (take (Suc n) ?b14) = shift_in (- 1) (take (Suc (Suc n)) ?bs)"
      using that by (subst take_frame_bits(1) [symmetric]) simp_all
    then show ?thesis using that bit_frame [of "Suc (Suc n)" 15 v] by simp
  qed
  with enet_collect_run [OF 1(2), of ?b14] obtain s2 c2 og2 xs2 where
    2: "run (enet_clock L H) s1 ?b14 = Inr (s2, xs2)" "0 \<le> c2" "c2 \<le> 14"
    "enet_in L H ?p c2 0 (shift_in (shl1 (- 1) OR of_bool (bit v 31)) ?b14) og2 ?mm s2" by auto
  have d16: "shl1 (shift_in (shl1 (- 1) OR of_bool (bit v 31)) ?b14) OR of_bool (bit v 16)
      = shift_in (- 1) (take 16 ?bs)"
    by (simp only: take_frame_bits(2) [symmetric] shift_in.simps shift_in_append)
  define og3 where "og3 = (if frame_cmd v = 6 \<and> frame_phy v = ?p
     then push_bit 15 (?mm ! frame_reg v AND 0xffff) OR 0x80007fff else shl1 og2 OR 1)"
  let ?c3 = "if bit v 16 then c2 + 1 else 0"
  have c3: "0 \<le> ?c3" "?c3 \<le> 15" "?c3 \<le> 32" using 2(2,3) by simp_all
  from enet_half_step [OF 2(4) refl c3(3) len d16 assms(2)] obtain s3 where
    3: "enet_clock L H s2 (bit v 16) = Inr (s3, of_bool (bit v 16 \<and> bit og3 30))"
    "enet_in L H ?p ?c3 1 (shift_in (- 1) (take 16 ?bs)) og3 ?mm s3"
    unfolding og3_def [symmetric] d16 by blast
  have "run (enet_clock L H) s (take 16 ?bs) = Inr (s3, x1 # xs2 @ [of_bool (bit v 16 \<and> bit og3 30)])"
    by (subst take_frame_bits(2) [symmetric])
      (rule run_Cons_Inr, rule 1(1), rule run_append_Inr, rule 2(1), rule run_Cons_Inr, rule 3(1), rule run.simps(1))
  moreover have "length (x1 # xs2) = 15" using run_length [OF 2(1)] by simp
  ultimately show ?thesis
    using c3(1,2) 3(2) by (intro exI [of _ s3] exI [of _ ?c3] exI [of _ og3] exI [of _ "x1 # xs2"]) (simp add: og3_def)
qed

lemma enet_second_half:
  assumes "enet_in L H p c 1 (shift_in (- 1) (take 16 (frame_bits v))) og mm s" "0 \<le> c" "c \<le> 15" "length mm = 32"
    and "frame_cmd v = 5 \<and> frame_phy v = p \<longrightarrow> \<not> bit v 16"
  shows "\<exists>s' x. run (enet_clock L H) s (drop 16 (frame_bits v)) = Inr (s', enet_reads og (take 15 (drop 16 (frame_bits v))) @ [x])
    \<and> enet_ready L H s' \<and> PHY_ADDR s' = p
    \<and> m_mem s' = (if frame_cmd v = 5 \<and> frame_phy v = p then mm[frame_reg v := v AND 0xffff] else mm)"
proof -
  let ?bs = "frame_bits v"
  let ?b15 = "take 15 (drop 16 ?bs)"
  obtain s4 c4 og4 where 4: "run (enet_clock L H) s ?b15 = Inr (s4, enet_reads og ?b15)" "0 \<le> c4" "c4 \<le> 30"
    "enet_in L H p c4 16 (shift_in (shift_in (- 1) (take 16 ?bs)) ?b15) og4 mm s4"
    using enet_count_run [OF assms(1,2), of ?b15] assms(3) by fastforce
  have "drop 16 (bit v 31 # take 14 (drop 1 ?bs) @ bit v 16 # ?b15 @ [bit v 0]) = ?b15 @ [bit v 0]" by simp
  then have split: "drop 16 ?bs = ?b15 @ [bit v 0]" by (simp only: frame_bits_split [symmetric])
  then have "take 16 ?bs @ ?b15 @ [bit v 0] = ?bs" by (metis append_take_drop_id)
  then have d32: "shl1 (shift_in (shift_in (- 1) (take 16 ?bs)) ?b15) OR of_bool (bit v 0) = v"
    using full_frame [of v] shift_in_append [of "- 1" "take 16 ?bs" "?b15 @ [bit v 0]"]
    by (simp only: shift_in_append shift_in.simps)
  have "(if bit v 0 then c4 + 1 else 0) \<le> 32" using 4(2,3) by simp
  from enet_full_step [OF 4(4) refl this assms(4) d32 assms(5)] obtain s5 x5 c5 og5 where
    5: "enet_clock L H s4 (bit v 0) = Inr (s5, x5)"
    "enet_in L H p c5 0 (- 1) og5 (if frame_cmd v = 5 \<and> frame_phy v = p then mm[frame_reg v := v AND 0xffff] else mm) s5"
    by blast
  have "run (enet_clock L H) s (drop 16 ?bs) = Inr (s5, enet_reads og ?b15 @ [x5])"
    by (subst split) (rule run_append_Inr, rule 4(1), rule run_Cons_Inr, rule 5(1), rule run.simps(1))
  then show ?thesis using 5(2) assms(4) by (auto simp: enet_ready_def enet_in_def)
qed

lemma enet_read_bits:
  assumes "og = push_bit 15 (m AND 0xffff) OR 0x80007fff" "length xs = 15" "k \<le> 15"
  shows "(xs @ [of_bool (bit v 16 \<and> bit og 30)] @ enet_reads og (take 15 (drop 16 (frame_bits v))) @ [x]) ! (15 + k)
    = of_bool (bit v (16 - k) \<and> bit m (15 - k))"
proof -
  have og: "bit og (15 + i) = bit m i" if "i < 16" for i using that bit_read_word by (simp add: assms(1))
  show ?thesis
  proof (cases k)
    case 0
    with assms(2) og [of 15] show ?thesis by (simp add: nth_append)
  next
    case (Suc j)
    with assms(3) have j: "j < 15" by simp
    let ?b15 = "take 15 (drop 16 (frame_bits v))"
    have "?b15 ! j = bit v (15 - j)" using j by (simp add: frame_bits_nth)
    moreover have "bit og (29 - j) = bit m (14 - j)" using j og [of "14 - j"] by simp
    moreover have "enet_reads og ?b15 ! j = of_bool (?b15 ! j \<and> bit og (29 - j))"
      using j by (intro enet_reads_nth) simp_all
    ultimately show ?thesis using Suc j assms(2) by (simp add: nth_append)
  qed
qed

text \<open>
  C9: an MDIO frame.  A synchronised PHY that receives the 32 bits of \<open>v\<close>, starting with the
  start bit 0, at any regular clock, performs the command: a write of its own address stores
  the low half of the frame in the addressed register, anything else leaves the registers
  alone; and during a read of its own address the master reads, wherever it leaves the line
  high, the bits of the register, most significant first, from the second turnaround bit on.
  The PHY is then ready for the next frame.
\<close>

theorem enet_mdio_frame:
  assumes "enet_ready L H s" "\<not> bit v 31"
    and "frame_cmd v = 5 \<and> frame_phy v = PHY_ADDR s \<longrightarrow> \<not> bit v 16"
  shows "\<exists>s' outs. run (enet_clock L H) s (frame_bits v) = Inr (s', outs)
    \<and> enet_ready L H s' \<and> PHY_ADDR s' = PHY_ADDR s
    \<and> m_mem s' = (if frame_cmd v = 5 \<and> frame_phy v = PHY_ADDR s
         then (m_mem s)[frame_reg v := v AND 0xffff] else m_mem s)
    \<and> (frame_cmd v = 6 \<and> frame_phy v = PHY_ADDR s \<longrightarrow>
         (\<forall>k \<le> 15. outs ! (15 + k) = of_bool (bit v (16 - k) \<and> bit (m_mem s ! frame_reg v) (15 - k))))"
proof -
  let ?b15 = "take 15 (drop 16 (frame_bits v))"
  obtain s1 c og xs where 1: "run (enet_clock L H) s (take 16 (frame_bits v)) = Inr (s1, xs @ [of_bool (bit v 16 \<and> bit og 30)])"
      "length xs = 15" "0 \<le> c" "c \<le> 15"
      "enet_in L H (PHY_ADDR s) c 1 (shift_in (- 1) (take 16 (frame_bits v))) og (m_mem s) s1"
      "frame_cmd v = 6 \<and> frame_phy v = PHY_ADDR s \<longrightarrow> og = push_bit 15 (m_mem s ! frame_reg v AND 0xffff) OR 0x80007fff"
    using enet_first_half [OF assms(1,2)] by blast
  have "length (m_mem s) = 32" using assms(1) by (simp add: enet_ready_def)
  then obtain s2 x where 2: "run (enet_clock L H) s1 (drop 16 (frame_bits v)) = Inr (s2, enet_reads og ?b15 @ [x])"
      "enet_ready L H s2" "PHY_ADDR s2 = PHY_ADDR s"
      "m_mem s2 = (if frame_cmd v = 5 \<and> frame_phy v = PHY_ADDR s then (m_mem s)[frame_reg v := v AND 0xffff] else m_mem s)"
    using enet_second_half [OF 1(5,3,4) _ assms(3)] by blast
  have "run (enet_clock L H) s (frame_bits v) =
      Inr (s2, xs @ [of_bool (bit v 16 \<and> bit og 30)] @ enet_reads og ?b15 @ [x])"
    using run_append_Inr [OF 1(1) 2(1)] by simp
  then show ?thesis using 1(2,6) 2(2-4) enet_read_bits by blast
qed

section \<open>Synchronising\<close>

lemma enet_preamble_step:
  assumes "enet_regular L H s" "\<not> m_synched s" "0 \<le> m_consecutive_clocks s" "m_consecutive_clocks s \<le> 32"
  shows "\<exists>s' x. enet_clock L H s True = Inr (s', x) \<and> enet_regular L H s'
    \<and> m_consecutive_clocks s' = m_consecutive_clocks s + 1 \<and> m_mem s' = m_mem s \<and> PHY_ADDR s' = PHY_ADDR s
    \<and> (if m_consecutive_clocks s = 32 then m_synched s' \<and> m_halfword s' = 0 \<and> m_datareg s' = - 1
       else \<not> m_synched s')"
proof (cases "m_consecutive_clocks s = 32")
  case True
  have ones: "shl1 (- 1) OR 1 = - 1" by (rule bit_word_eqI) (auto simp: bit_simps bit_shl1)
  have "enet_data_bit 1 (enet_rise True s) = Inr (enet_rise True s)"
    using True ones by (simp add: enet_rise_def enet_resync_def enet_data_bit_def Let_def)
  moreover have "m_synched (enet_rise True s)" "enet_settled (enet_rise True s)"
      "m_tickcount (enet_rise True s) = 0"
    using True by (simp_all add: enet_rise_def enet_resync_def enet_settled_def)
  ultimately show ?thesis
    using enet_clock_eq [OF assms(1), of True "enet_rise True s"] assms(1) True
    by (auto simp: enet_regular_def enet_rise_def enet_resync_def enet_settled_def)
next
  case False
  with assms(4) have rise: "enet_rise True s = s\<lparr>m_consecutive_clocks := m_consecutive_clocks s + 1,
      m_outreg := shl1 (m_outreg s) OR 1, m_tickcount := 0, m_lastclk := 0\<rparr>"
    by (auto simp: enet_rise_def enet_resync_def)
  have "enet_settled (enet_rise True s)" "m_tickcount (enet_rise True s) = 0" "\<not> m_synched (enet_rise True s)"
    using False assms(2,4) unfolding rise by (simp_all add: enet_settled_def)
  then show ?thesis
    using enet_clock_eq [OF assms(1), of True "enet_rise True s"] assms(1,2) False
    by (auto simp: enet_regular_def rise)
qed

text \<open>
  a preamble synchronises.  A PHY that has lost synchronisation becomes ready for a frame
  after exactly as many ones, at a regular clock, as its counter is short of 33.
\<close>

theorem enet_preamble:
  assumes "enet_regular L H s" "\<not> m_synched s" "0 \<le> m_consecutive_clocks s" "length (m_mem s) = 32"
    and "m_consecutive_clocks s + int n = 33" "0 < n"
  shows "\<exists>s' xs. run (enet_clock L H) s (replicate n True) = Inr (s', xs) \<and> enet_ready L H s'
    \<and> m_mem s' = m_mem s \<and> PHY_ADDR s' = PHY_ADDR s"
  using assms
proof (induction n arbitrary: s)
  case 0
  then show ?case by simp
next
  case (Suc n)
  have le: "m_consecutive_clocks s \<le> 32" using Suc.prems(5) by simp
  obtain s1 x where 1: "enet_clock L H s True = Inr (s1, x)" "enet_regular L H s1"
    "m_consecutive_clocks s1 = m_consecutive_clocks s + 1" "m_mem s1 = m_mem s" "PHY_ADDR s1 = PHY_ADDR s"
    "if m_consecutive_clocks s = 32 then m_synched s1 \<and> m_halfword s1 = 0 \<and> m_datareg s1 = - 1
       else \<not> m_synched s1"
    using enet_preamble_step [OF Suc.prems(1-3) le] by blast
  show ?case
  proof (cases "n = 0")
    case True
    with 1 Suc.prems show ?thesis by (simp add: enet_ready_def)
  next
    case False
    then have "\<not> m_synched s1" using 1(6) Suc.prems(5) by auto
    then have "\<exists>s' xs. run (enet_clock L H) s1 (replicate n True) = Inr (s', xs) \<and> enet_ready L H s'
        \<and> m_mem s' = m_mem s1 \<and> PHY_ADDR s' = PHY_ADDR s1"
      using 1 Suc.prems False by (intro Suc.IH) simp_all
    with 1 show ?thesis by auto
  qed
qed

definition enet_example :: enet where
  "enet_example = enet_new\<lparr>m_lastclk := 1, m_tickcount := 1, m_ticks_per_clock := 4,
     m_consecutive_clocks := 31, m_mem := (replicate 32 0)[3 := 0xbeef]\<rparr>"

lemma enet_example_regular: "enet_regular 2 2 enet_example"
  by (simp add: enet_regular_def enet_example_def enet_new_def enet_settled_def)

theorem enet_preamble_witness:
  "\<exists>s' xs. run (enet_clock 2 2) enet_example [True, True] = Inr (s', xs) \<and> enet_ready 2 2 s'"
  using enet_preamble [OF enet_example_regular, of 2]
  by (auto simp: enet_example_def enet_new_def numeral_2_eq_2)

theorem enet_mdio_frame_witness:
  "\<exists>s' outs. run (enet_clock 2 2) (enet_example\<lparr>m_synched := True\<rparr>) (frame_bits 0x508e1234) = Inr (s', outs)
    \<and> m_mem s' ! 3 = 0x1234"
proof -
  have "enet_ready 2 2 (enet_example\<lparr>m_synched := True\<rparr>)"
    using enet_example_regular
    by (simp add: enet_ready_def enet_regular_def enet_settled_def enet_example_def enet_new_def)
  from enet_mdio_frame [OF this, of "0x508e1234"] show ?thesis
    by (auto simp: frame_cmd_def frame_phy_def frame_reg_def enet_example_def enet_new_def)
qed

end
