(* ===== verification/MemSim.thy ===== *)
theory MemSim
  imports Byteswap
begin

text \<open>
  The simulated Wishbone memory, class \<open>MEMSIM\<close> of \<open>sim/verilated/memsim.cpp\<close>: a memory of
  words behind a pipeline of fixed delay, kept as a ring buffer of acknowledgements and data.

  \<open>NWRDWIDTH\<close> is 1 in the source, so each of its loops over \<open>k < NWRDWIDTH\<close> is one
  iteration.  The array indices are masked to the size of the array, except in the second
  \<open>load\<close>, where a range beyond the end is the fault \<open>OutOfBounds\<close>.  The debugging printouts
  are not modelled.
\<close>

section \<open>State and operations\<close>

definition NWRDWIDTH :: u32 where "NWRDWIDTH = 1"

record memsim =
  m_mem :: "u32 \<Rightarrow> u32"
  m_len :: u32
  m_mask :: u32
  m_head :: u32
  m_tail :: u32
  m_delay_mask :: u32
  m_delay :: u32
  m_fifo_ack :: "u32 \<Rightarrow> int"
  m_fifo_data :: "u32 \<Rightarrow> u32"

text \<open>
  The doubling loops of the constructor.  With a bound above \<open>2 ^ 31\<close> the variable becomes 0
  and the loop does not end, which is the value \<open>None\<close>.
\<close>

partial_function (option) double_until :: "u32 \<Rightarrow> u32 \<Rightarrow> u32 option" where
  "double_until n nxt = (if nxt < n then double_until n (shl1 nxt) else Some nxt)"

text \<open>\<open>mem0\<close> and \<open>data0\<close> are the indeterminate contents of the new arrays.\<close>

definition memsim_new :: "(u32 \<Rightarrow> u32) \<Rightarrow> (u32 \<Rightarrow> u32) \<Rightarrow> u32 \<Rightarrow> u32 \<Rightarrow> memsim option" where
  "memsim_new mem0 data0 nwords delay =
     (case (double_until (nwords * NWRDWIDTH) 1, double_until delay 1) of
        (Some nxt, Some n) \<Rightarrow>
          Some \<lparr>m_mem = mem0, m_len = nxt, m_mask = nxt - 1, m_head = 0, m_tail = (0 - delay) AND (n - 1),
                m_delay_mask = n - 1, m_delay = delay, m_fifo_ack = (\<lambda>_. 0), m_fifo_data = data0\<rparr>
      | _ \<Rightarrow> None)"

text \<open>
  \<open>load\<close> of a file, given as the words of its contents in host byte order (\<open>None\<close> when it
  cannot be opened), and of a buffer of words.
\<close>

definition memsim_load_file :: "memsim \<Rightarrow> u32 list option \<Rightarrow> memsim" where
  "memsim_load_file s file =
     (let ws = (case file of None \<Rightarrow> [] | Some ws \<Rightarrow> map byteswap (take (unat (m_len s)) ws))
      in s\<lparr>m_mem := (\<lambda>a. if unat a < length ws then ws ! unat a
                        else if a < m_len s then 0 else m_mem s a)\<rparr>)"

definition memsim_load_data :: "memsim \<Rightarrow> u32 \<Rightarrow> u32 list \<Rightarrow> fault + memsim" where
  "memsim_load_data s addr ws =
     in_bounds (unat addr + length ws \<le> unat (m_len s))
       (Inr (s\<lparr>m_mem := (\<lambda>a. if addr \<le> a \<and> unat (a - addr) < length ws
                            then byteswap (ws ! unat (a - addr)) else m_mem s a)\<rparr>))"

definition memsim_index :: "memsim \<Rightarrow> u32 \<Rightarrow> u32" where
  "memsim_index s addr = m_mem s (addr AND m_mask s)"

text \<open>The word stored by a write: only the selected bytes change.\<close>

definition memsim_merge :: "u32 \<Rightarrow> u32 \<Rightarrow> u32 \<Rightarrow> u32" where
  "memsim_merge memv dat wbsel =
     (let dsel = wbsel AND 0x0f in
      if dsel = 0x0f then dat
      else let sel = (if dsel AND 8 \<noteq> 0 then 0xff000000 else 0)
                  OR (if dsel AND 4 \<noteq> 0 then 0x00ff0000 else 0)
                  OR (if dsel AND 2 \<noteq> 0 then 0x0000ff00 else 0)
                  OR (if dsel AND 1 \<noteq> 0 then 0x000000ff else 0)
           in (memv AND NOT sel) OR (dat AND sel))"

record wb_in =
  wb_cyc :: bool
  wb_stb :: bool
  wb_we :: bool
  wb_addr :: u32
  wb_data :: u32
  wb_sel :: u16

text \<open>The outputs are stall, acknowledge and, when it is assigned at all, the data.\<close>

definition memsim_apply :: "memsim \<Rightarrow> wb_in \<Rightarrow> fault + memsim \<times> (int \<times> int \<times> u32 option)" where
  "memsim_apply s i =
     (let addr = wb_addr i * NWRDWIDTH; wbsel = ucast (wb_sel i) AND 0x0ffff in
      if \<not> wb_cyc i
      then Inr (s\<lparr>m_head := 0, m_tail := (0 - m_delay s) AND m_delay_mask s,
                 m_fifo_ack := (\<lambda>k. if k < m_delay_mask s + 1 then 0 else m_fifo_ack s k)\<rparr>, (0, 0, None))
      else let s = s\<lparr>m_head := m_head s + 1\<rparr>;
               s = s\<lparr>m_tail := (m_head s - m_delay s) AND m_delay_mask s\<rparr>;
               s = s\<lparr>m_head := m_head s AND m_delay_mask s\<rparr>;
               ack = m_fifo_ack s (m_tail s);
               s = s\<lparr>m_fifo_ack := (m_fifo_ack s)(m_head s := 0)\<rparr>;
               dat = m_fifo_data s (m_tail s);
               s = (if wb_stb i
                    then let s = s\<lparr>m_fifo_ack := (m_fifo_ack s)(m_head s := 1)\<rparr>;
                             a = addr AND m_mask s
                         in if wb_we i
                            then s\<lparr>m_mem := (m_mem s)(a := memsim_merge (m_mem s a) (wb_data i) wbsel)\<rparr>
                            else s\<lparr>m_fifo_data := (m_fifo_data s)(m_head s := m_mem s a)\<rparr>
                    else s)
           in Inr (s, (0, ack, Some dat)))"

section \<open>Construction\<close>

lemma double_until_power:
  assumes "unat n \<le> 2 ^ m" "m < 32" "k \<le> m"
  shows "\<exists>j. k \<le> j \<and> j \<le> m \<and> double_until n (push_bit k 1) = Some (push_bit j 1) \<and> unat n \<le> 2 ^ j
    \<and> (\<forall>i. k \<le> i \<and> i < j \<longrightarrow> 2 ^ i < unat n)"
  using assms(3)
proof (induction "m - k" arbitrary: k)
  case 0
  with assms have "\<not> push_bit k 1 < n"
    using unat_push_one [of k] by (simp add: word_less_nat_alt not_less del: push_bit_of_1)
  with 0 assms show ?case by (subst double_until.simps) (auto simp del: push_bit_of_1)
next
  case (Suc d)
  have k: "unat (push_bit k 1 :: u32) = 2 ^ k" using Suc.prems assms(2) by (intro unat_push_one) simp
  show ?case
  proof (cases "push_bit k 1 < n")
    case True
    have "shl1 (push_bit k 1) = push_bit (Suc k) 1"
      by (simp only: shl1_def push_bit_push_bit) simp
    moreover obtain j where "Suc k \<le> j" "j \<le> m" "double_until n (push_bit (Suc k) 1) = Some (push_bit j 1)"
      "unat n \<le> 2 ^ j" "\<forall>i. Suc k \<le> i \<and> i < j \<longrightarrow> 2 ^ i < unat n"
    proof -
      have "d = m - Suc k" "Suc k \<le> m" using Suc.hyps(2) Suc.prems by simp_all
      from Suc.hyps(1) [OF this] show thesis using that by blast
    qed
    moreover have "2 ^ k < unat n" using True k by (simp only: word_less_nat_alt)
    moreover have "double_until n (push_bit k 1) = double_until n (shl1 (push_bit k 1))"
      using True by (subst double_until.simps) (simp only: if_True)
    moreover have "\<forall>i. k \<le> i \<and> i < j \<longrightarrow> 2 ^ i < unat n"
      using \<open>\<forall>i. Suc k \<le> i \<and> i < j \<longrightarrow> 2 ^ i < unat n\<close> \<open>2 ^ k < unat n\<close>
      by (metis Suc_leI le_neq_implies_less)
    ultimately show ?thesis using Suc_leD by metis
  next
    case False
    with k have "unat n \<le> 2 ^ k" by (simp only: word_less_nat_alt not_less)
    with False Suc.prems show ?thesis
      by (intro exI [of _ k]) (subst double_until.simps, simp del: push_bit_of_1)
  qed
qed

text \<open>
  the constructor terminates for every size up to \<open>2 ^ 31\<close> and then allocates the least
  power of two of words that holds \<open>nwords\<close>, and the least power of two of delay slots that
  holds the delay, with no request pending.
\<close>

theorem memsim_new_sizes:
  assumes "unat nwords \<le> 2 ^ 31" "unat delay \<le> 2 ^ 31"
  shows "\<exists>s j k. memsim_new mem0 data0 nwords delay = Some s
    \<and> unat (m_len s) = 2 ^ j \<and> m_mask s = mask j \<and> unat nwords \<le> 2 ^ j \<and> (0 < j \<longrightarrow> 2 ^ (j - 1) < unat nwords)
    \<and> m_delay_mask s = mask k \<and> k < 32 \<and> unat delay \<le> 2 ^ k \<and> (0 < k \<longrightarrow> 2 ^ (k - 1) < unat delay)
    \<and> m_delay s = delay \<and> (\<forall>p. m_fifo_ack s p = 0)"
proof -
  have one: "push_bit 0 (1 :: u32) = 1" by simp
  obtain j where j: "j \<le> 31" "double_until nwords 1 = Some (push_bit j 1)" "unat nwords \<le> 2 ^ j"
    "\<forall>i. 0 \<le> i \<and> i < j \<longrightarrow> 2 ^ i < unat nwords"
    using double_until_power [OF assms(1), of 0] unfolding one by auto
  obtain k where k: "k \<le> 31" "double_until delay 1 = Some (push_bit k 1)" "unat delay \<le> 2 ^ k"
    "\<forall>i. 0 \<le> i \<and> i < k \<longrightarrow> 2 ^ i < unat delay"
    using double_until_power [OF assms(2), of 0] unfolding one by auto
  have mask: "push_bit n (1 :: u32) - 1 = mask n" for n by (simp add: mask_eq_exp_minus_1)
  let ?s = "\<lparr>m_mem = mem0, m_len = push_bit j 1, m_mask = push_bit j 1 - 1, m_head = 0,
    m_tail = (0 - delay) AND (push_bit k 1 - 1), m_delay_mask = push_bit k 1 - 1, m_delay = delay,
    m_fifo_ack = (\<lambda>_. 0), m_fifo_data = data0\<rparr>"
  have "memsim_new mem0 data0 nwords delay = Some ?s"
    using j(2) k(2) by (simp add: memsim_new_def NWRDWIDTH_def del: push_bit_of_1)
  moreover have "unat (push_bit j (1 :: u32)) = 2 ^ j" using j(1) by (intro unat_push_one) simp
  ultimately show ?thesis
    using j k by (intro exI [of _ ?s] exI [of _ j] exI [of _ k]) (simp add: mask del: push_bit_of_1)
qed

theorem memsim_new_sizes_witness:
  "\<exists>s. memsim_new (\<lambda>_. 0) (\<lambda>_. 0) 1000 27 = Some s \<and> m_delay s = 27"
  using memsim_new_sizes [of 1000 27 "\<lambda>_. 0" "\<lambda>_. 0"] by auto

section \<open>Byte selects\<close>

lemma bit_byte_masks:
  "bit (0xff000000 :: u32) n \<longleftrightarrow> 24 \<le> n \<and> n < 32" "bit (0x00ff0000 :: u32) n \<longleftrightarrow> 16 \<le> n \<and> n < 24"
  "bit (0x0000ff00 :: u32) n \<longleftrightarrow> 8 \<le> n \<and> n < 16" "bit (0x000000ff :: u32) n \<longleftrightarrow> n < 8"
proof -
  have m: "(0xff000000 :: u32) = push_bit 24 (mask 8)" "(0x00ff0000 :: u32) = push_bit 16 (mask 8)"
    "(0x0000ff00 :: u32) = push_bit 8 (mask 8)" "(0xff :: u32) = mask 8"
    by (simp_all add: mask_eq_exp_minus_1)
  show "bit (0xff000000 :: u32) n \<longleftrightarrow> 24 \<le> n \<and> n < 32" "bit (0x00ff0000 :: u32) n \<longleftrightarrow> 16 \<le> n \<and> n < 24"
    "bit (0x0000ff00 :: u32) n \<longleftrightarrow> 8 \<le> n \<and> n < 16" "bit (0x000000ff :: u32) n \<longleftrightarrow> n < 8"
    unfolding m by (simp_all only: bit_push_bit_iff bit_low_mask) auto
qed

lemma and_power_bits:
  "x AND 8 \<noteq> 0 \<longleftrightarrow> bit x 3" "x AND 4 \<noteq> 0 \<longleftrightarrow> bit x 2" "x AND 2 \<noteq> 0 \<longleftrightarrow> bit x 1" "x AND 1 \<noteq> 0 \<longleftrightarrow> bit x 0"
  for x :: u32
  using bit_iff_and_push_bit_not_eq_0 [of x 3] bit_iff_and_push_bit_not_eq_0 [of x 2]
    bit_iff_and_push_bit_not_eq_0 [of x 1] bit_iff_and_push_bit_not_eq_0 [of x 0] by simp_all

lemma bit_if_0: "bit (if c then x else 0) n \<longleftrightarrow> c \<and> bit x n"
  by simp

lemma div8_cases:
  fixes n :: nat
  assumes "n < 32"
  shows "P (n div 8) \<longleftrightarrow> (24 \<le> n \<and> P 3) \<or> (16 \<le> n \<and> n < 24 \<and> P 2) \<or> (8 \<le> n \<and> n < 16 \<and> P 1) \<or> (n < 8 \<and> P 0)"
proof -
  consider "n < 8" | "8 \<le> n" "n < 16" | "16 \<le> n" "n < 24" | "24 \<le> n" by linarith
  then show ?thesis
  proof cases
    case 1
    then have "n div 8 = 0" by simp
    with 1 show ?thesis by simp
  next
    case 2
    then have "n div 8 = 1" by simp
    with 2 show ?thesis by simp
  next
    case 3
    then have "n div 8 = 2" by simp
    with 3 show ?thesis by simp
  next
    case 4
    with assms have "n div 8 = 3" by simp
    with 4 show ?thesis by simp
  qed
qed

lemma bit_memsim_merge:
  assumes "n < 32"
  shows "bit (memsim_merge memv dat sel) n = (if bit sel (n div 8) then bit dat n else bit memv n)"
proof -
  have m: "(0x0f :: u32) = mask 4" by (simp add: mask_eq_exp_minus_1)
  have dsel: "bit (sel AND 0x0f) k = bit sel k" if "k < 4" for k
    using that unfolding m by (simp only: bit_and_iff bit_low_mask) auto
  have "n div 8 < 4" using assms by simp
  have full: "bit sel (n div 8)" if "sel AND 0x0f = 0x0f"
    using dsel [OF \<open>n div 8 < 4\<close>] that \<open>n div 8 < 4\<close> unfolding m by (simp only: bit_low_mask) auto
  show ?thesis
  proof (cases "sel AND 0x0f = 0x0f")
    case True
    with full show ?thesis by (simp add: memsim_merge_def Let_def)
  next
    case False
    have d: "bit (sel AND 0x0f) 3 = bit sel 3" "bit (sel AND 0x0f) 2 = bit sel 2"
        "bit (sel AND 0x0f) 1 = bit sel 1" "bit (sel AND 0x0f) 0 = bit sel 0"
      by (rule dsel, simp)+
    from False show ?thesis
      unfolding memsim_merge_def Let_def
      by (simp only: if_False and_power_bits bit_or_iff bit_and_iff bit_not_iff bit_if_0 bit_byte_masks d
          div8_cases [OF assms, of "bit sel"]) (use assms in \<open>auto simp: possible_bit_def\<close>)
  qed
qed

text \<open>
  byte selects.  A write replaces exactly the bytes whose select bit is set.
\<close>

theorem memsim_merge_bytes:
  assumes "k < 4"
  shows "byte_at k (memsim_merge memv dat sel) = (if bit sel k then byte_at k dat else byte_at k memv)"
proof (rule bit_word_eqI)
  fix n assume "n < LENGTH(8)"
  then have "n < 8" by simp
  moreover from this have "8 * k + n < 32" "(8 * k + n) div 8 = k" using assms by simp_all
  ultimately show "bit (byte_at k (memsim_merge memv dat sel)) n =
      bit (if bit sel k then byte_at k dat else byte_at k memv) n"
    by (simp add: bit_byte_at bit_memsim_merge)
qed

theorem memsim_merge_bytes_witness:
  "byte_at 2 (memsim_merge 0x11223344 0xaabbccdd 0x4) = 0xbb"
  using memsim_merge_bytes [of 2 "0x11223344" "0xaabbccdd" "0x4"]
  by (simp add: byte_at_def)

section \<open>The pipeline\<close>

text \<open>
  The specification: an atomic memory and a queue of the last \<open>d\<close> ticks.  A queue entry is
  \<open>None\<close> for a tick without a request, \<open>Some None\<close> for a write and \<open>Some (Some v)\<close> for a read
  of \<open>v\<close>; each tick appends its own entry and answers the oldest.
\<close>

definition wb_request :: "u32 \<Rightarrow> (u32 \<Rightarrow> u32) \<Rightarrow> wb_in \<Rightarrow> u32 option option" where
  "wb_request k mm i =
     (if \<not> wb_stb i then None else Some (if wb_we i then None else Some (mm (wb_addr i AND k))))"

definition wb_update :: "u32 \<Rightarrow> (u32 \<Rightarrow> u32) \<Rightarrow> wb_in \<Rightarrow> u32 \<Rightarrow> u32" where
  "wb_update k mm i =
     (if wb_stb i \<and> wb_we i
      then mm(wb_addr i AND k := memsim_merge (mm (wb_addr i AND k)) (wb_data i) (ucast (wb_sel i)))
      else mm)"

definition mem_spec :: "u32 \<Rightarrow> (u32 \<Rightarrow> u32) \<times> u32 option option list \<Rightarrow> wb_in
    \<Rightarrow> fault + ((u32 \<Rightarrow> u32) \<times> u32 option option list) \<times> u32 option option" where
  "mem_spec k st i =
     (let q = snd st @ [wb_request k (fst st) i] in Inr ((wb_update k (fst st) i, tl q), hd q))"

fun wb_requests :: "u32 \<Rightarrow> (u32 \<Rightarrow> u32) \<Rightarrow> wb_in list \<Rightarrow> u32 option option list" where
  "wb_requests k mm [] = []"
| "wb_requests k mm (i # is) = wb_request k mm i # wb_requests k (wb_update k mm i) is"

definition wb_memory :: "u32 \<Rightarrow> (u32 \<Rightarrow> u32) \<Rightarrow> wb_in list \<Rightarrow> u32 \<Rightarrow> u32" where
  "wb_memory k mm is = foldl (wb_update k) mm is"

lemma length_wb_requests [simp]: "length (wb_requests k mm is) = length is"
  by (induction "is" arbitrary: mm) simp_all

lemma mem_spec_run:
  "run (mem_spec k) (mm, q) is = Inr ((wb_memory k mm is, drop (length is) (q @ wb_requests k mm is)),
     take (length is) (q @ wb_requests k mm is))"
proof (induction "is" arbitrary: mm q)
  case Nil
  then show ?case by (simp add: wb_memory_def)
next
  case (Cons i "is")
  let ?q = "q @ [wb_request k mm i]"
  let ?r = "tl ?q @ wb_requests k (wb_update k mm i) is"
  have "?q = hd ?q # tl ?q" by simp
  then have eq: "q @ wb_requests k mm (i # is) = hd ?q # ?r"
    by (metis append.assoc append_Cons append_Nil wb_requests.simps(2))
  have "mem_spec k (mm, q) i = Inr ((wb_update k mm i, tl ?q), hd ?q)" by (simp add: mem_spec_def Let_def)
  then have "run (mem_spec k) (mm, q) (i # is) =
      Inr ((wb_memory k (wb_update k mm i) is, drop (length is) ?r), hd ?q # take (length is) ?r)"
    by (simp only: run.simps rbind_simps prod.case Cons.IH)
  then show ?case
    unfolding eq by (simp add: wb_memory_def)
qed

text \<open>
  How the ring holds the queue: entry \<open>i\<close> of the queue is \<open>d - 1 - i\<close> slots behind the head.
\<close>

definition slot_holds :: "memsim \<Rightarrow> u32 \<Rightarrow> u32 option option \<Rightarrow> bool" where
  "slot_holds s p r \<longleftrightarrow> m_fifo_ack s p = (if r = None then 0 else 1)
     \<and> (\<forall>v. r = Some (Some v) \<longrightarrow> m_fifo_data s p = v)"

definition memsim_rel :: "nat \<Rightarrow> nat \<Rightarrow> memsim \<Rightarrow> (u32 \<Rightarrow> u32) \<times> u32 option option list \<Rightarrow> bool" where
  "memsim_rel n d s st \<longleftrightarrow> m_mem s = fst st \<and> length (snd st) = d \<and> 0 < d \<and> d \<le> 2 ^ n \<and> n < 32
     \<and> m_delay s = of_nat d \<and> m_delay_mask s = mask n
     \<and> (\<forall>i < d. slot_holds s ((m_head s - of_nat (d - 1 - i)) AND mask n) (snd st ! i))"

definition wb_answer :: "int \<times> int \<times> u32 option \<Rightarrow> u32 option option \<Rightarrow> bool" where
  "wb_answer x r \<longleftrightarrow> (case x of (stall, ack, dat) \<Rightarrow> stall = 0 \<and> ack = (if r = None then 0 else 1)
     \<and> (\<forall>v. r = Some (Some v) \<longrightarrow> dat = Some v))"

lemma word_take_bit_diff: "take_bit n (take_bit n x - take_bit n y) = take_bit n (x - y)" for x y :: u32
  by transfer (simp only: take_bit_diff)

lemma mask_sub:
  fixes x y :: u32
  shows "((x AND mask n) - y) AND mask n = (x - y) AND mask n"
proof -
  have "take_bit n (take_bit n x - y) = take_bit n (take_bit n (take_bit n x) - take_bit n y)"
    by (simp only: word_take_bit_diff)
  also have "\<dots> = take_bit n (take_bit n x - take_bit n y)" by simp
  also have "\<dots> = take_bit n (x - y)" by (rule word_take_bit_diff)
  finally show ?thesis by (simp add: take_bit_eq_mask)
qed

lemma slots_distinct:
  fixes x :: u32
  assumes "0 < j" "j < 2 ^ n" "n < 32"
  shows "(x - of_nat j) AND mask n \<noteq> x AND mask n"
proof
  assume "(x - of_nat j) AND mask n = x AND mask n"
  then have eq: "take_bit n (x - of_nat j) = take_bit n x" by (simp add: take_bit_eq_mask)
  have "(of_nat j :: u32) = x - (x - of_nat j)" by simp
  then have "take_bit n (of_nat j :: u32) = take_bit n (x - (x - of_nat j))" by (rule arg_cong)
  also have "\<dots> = take_bit n (take_bit n x - take_bit n (x - of_nat j))" by (simp only: word_take_bit_diff)
  also have "\<dots> = 0" by (simp add: eq)
  finally have z: "take_bit n (of_nat j :: u32) = 0" .
  have j32: "j < 2 ^ 32" using assms(2,3) by (meson less_trans one_less_numeral_iff power_strict_increasing semiring_norm(76))
  have "unat (take_bit n (of_nat j :: u32)) = take_bit n (unat (of_nat j :: u32))"
    by (rule unsigned_take_bit_eq)
  also have "unat (of_nat j :: u32) = j" using j32 by (simp add: unat_of_nat)
  also have "take_bit n j = j" using assms(2) by (simp add: take_bit_eq_mod)
  finally show False using z assms(1) by simp
qed

text \<open>One tick with the bus cycle active.\<close>

definition memsim_write :: "memsim \<Rightarrow> wb_in \<Rightarrow> u32 \<Rightarrow> memsim" where
  "memsim_write s i h = s\<lparr>m_head := h, m_tail := (m_head s + 1 - m_delay s) AND m_delay_mask s,
     m_fifo_ack := (m_fifo_ack s)(h := (if wb_stb i then 1 else 0)),
     m_mem := wb_update (m_mask s) (m_mem s) i,
     m_fifo_data := (if wb_stb i \<and> \<not> wb_we i
       then (m_fifo_data s)(h := m_mem s (wb_addr i AND m_mask s)) else m_fifo_data s)\<rparr>"

lemma memsim_merge_sel: "memsim_merge memv dat (ucast (sel :: u16) AND 0xffff) = memsim_merge memv dat (ucast sel)"
proof -
  have "(ucast sel :: u32) AND 0xffff = take_bit 16 (ucast sel)"
    by (simp add: take_bit_eq_mask mask_eq_exp_minus_1)
  also have "\<dots> = ucast sel" by (rule bit_word_eqI) (auto simp: bit_simps dest: bit_imp_le_length)
  finally show ?thesis by simp
qed

lemma memsim_apply_eq:
  fixes s :: memsim
  assumes "wb_cyc i"
  defines "tl' \<equiv> (m_head s + 1 - m_delay s) AND m_delay_mask s"
  shows "memsim_apply s i = Inr (memsim_write s i ((m_head s + 1) AND m_delay_mask s),
    (0, m_fifo_ack s tl', Some (m_fifo_data s tl')))"
  using assms
  by (cases s) (auto simp: memsim_apply_def memsim_write_def wb_update_def Let_def NWRDWIDTH_def memsim_merge_sel)

lemma slot_holds_write_other:
  "p \<noteq> h \<Longrightarrow> slot_holds (memsim_write s i h) p r = slot_holds s p r"
  by (simp add: slot_holds_def memsim_write_def)

lemma slot_holds_write_same:
  "slot_holds (memsim_write s i h) h (wb_request (m_mask s) (m_mem s) i)"
  by (simp add: slot_holds_def memsim_write_def wb_request_def)

lemma memsim_rel_step:
  assumes rel: "memsim_rel n d s st" and cyc: "wb_cyc i"
    and spec: "mem_spec (m_mask s) st i = Inr (st', r)"
  shows "\<exists>s' x. memsim_apply s i = Inr (s', x) \<and> memsim_rel n d s' st' \<and> m_mask s' = m_mask s \<and> wb_answer x r"
proof -
  obtain mm q where st: "st = (mm, q)" by (cases st)
  let ?h = "(m_head s + 1) AND mask n" and ?q = "q @ [wb_request (m_mask s) mm i]"
  let ?s = "memsim_write s i ?h"
  have rel': "m_mem s = mm" "length q = d" "0 < d" "d \<le> 2 ^ n" "n < 32" "m_delay s = of_nat d"
    "m_delay_mask s = mask n" and slots: "\<And>j. j < d \<Longrightarrow> slot_holds s ((m_head s - of_nat (d - 1 - j)) AND mask n) (q ! j)"
    using rel by (simp_all add: memsim_rel_def st)
  have st': "st' = (wb_update (m_mask s) mm i, tl ?q)" and r: "r = hd ?q"
    using spec by (simp_all add: mem_spec_def Let_def st)
  have q: "q \<noteq> []" "hd ?q = q ! 0" using rel'(2,3) by (auto simp: hd_append hd_conv_nth)
  have nth: "tl ?q ! j = (if Suc j < d then q ! Suc j else wb_request (m_mask s) mm i)" if "j < d" for j
    using that rel'(2) q(1) by (auto simp: nth_tl nth_append)
  have new: "slot_holds ?s ((m_head ?s - of_nat (d - 1 - j)) AND mask n) (tl ?q ! j)" if j: "j < d" for j
  proof (cases "Suc j < d")
    case True
    have idx: "d - 1 - j = Suc (d - 1 - Suc j)" using True by simp
    have "(m_head ?s - of_nat (d - 1 - j)) AND mask n = (m_head s + 1 - of_nat (d - 1 - j)) AND mask n"
      by (simp add: memsim_write_def mask_sub)
    moreover have "m_head s + 1 - of_nat (d - 1 - j) = m_head s - of_nat (d - 1 - Suc j)"
      by (subst idx) (simp add: algebra_simps)
    moreover have "(m_head s + 1 - of_nat (d - 1 - j)) AND mask n \<noteq> ?h"
      using True rel'(4,5) by (intro slots_distinct) simp_all
    ultimately show ?thesis
      using slots [OF True] nth [OF j] True by (simp only: slot_holds_write_other if_True simp_thms not_False_eq_True)
  next
    case False
    with j have "d - 1 - j = 0" by simp
    then have "(m_head ?s - of_nat (d - 1 - j)) AND mask n = ?h" by (simp add: memsim_write_def and.assoc)
    then show ?thesis
      using slot_holds_write_same [of s i ?h] nth [OF j] False rel'(1) by simp
  qed
  have oldest: "m_head s - of_nat (d - 1) = m_head s + 1 - m_delay s"
    using rel'(3,6) by (simp add: of_nat_diff)
  have "slot_holds s ((m_head s - of_nat (d - 1)) AND mask n) r"
    using slots [OF rel'(3)] r q(2) by simp
  then have out: "slot_holds s ((m_head s + 1 - m_delay s) AND m_delay_mask s) r"
    unfolding oldest rel'(7) .
  have "memsim_rel n d ?s st'"
    using rel' new by (simp add: memsim_rel_def st' memsim_write_def)
  then show ?thesis
    using out memsim_apply_eq [OF cyc, of s] rel'(7)
    by (auto simp: wb_answer_def slot_holds_def memsim_write_def)
qed

interpretation memsim: step_simulation memsim_apply "mem_spec k"
  "\<lambda>s st. memsim_rel n d s st \<and> m_mask s = k" wb_answer wb_cyc for k n d
proof
  fix s st i st' r
  assume "memsim_rel n d s st \<and> m_mask s = k" "wb_cyc i" "mem_spec k st i = Inr (st', r)"
  then show "\<exists>s' x. memsim_apply s i = Inr (s', x) \<and> (memsim_rel n d s' st' \<and> m_mask s' = k) \<and> wb_answer x r"
    using memsim_rel_step [of n d s st i st' r] by auto
qed

text \<open>
  C4: the pipelined memory refines an atomic memory.  While the bus cycle lasts, from a memory
  with no request pending and a delay of \<open>d\<close> ticks, every tick answers the request of \<open>d\<close>
  ticks before: no acknowledge if there was none, and for a read the word that the memory
  held when the read was issued, after all earlier writes; the contents are those of the
  writes applied in order.  The bus never stalls.
\<close>

theorem memsim_refines_memory:
  assumes "memsim_rel n d s (mm, replicate d None)" "\<forall>i \<in> set is. wb_cyc i"
  shows "\<exists>s' xs. run memsim_apply s is = Inr (s', xs)
    \<and> m_mem s' = wb_memory (m_mask s) mm is
    \<and> list_all2 wb_answer xs (take (length is) (replicate d None @ wb_requests (m_mask s) mm is))"
  using memsim.run_sim [of n d s "(mm, replicate d None)" "m_mask s" "is"] assms
  by (auto simp: mem_spec_run list_all_iff memsim_rel_def)

text \<open>Dropping the bus cycle empties the pipeline, which gives such a state.\<close>

lemma memsim_idle_rel:
  assumes "m_delay s = of_nat d" "m_delay_mask s = mask n" "0 < d" "d \<le> 2 ^ n" "n < 32" "\<not> wb_cyc i"
  shows "\<exists>s'. memsim_apply s i = Inr (s', (0, 0, None)) \<and> memsim_rel n d s' (m_mem s, replicate d None)
    \<and> m_mask s' = m_mask s"
proof -
  have "p AND mask n < mask n + 1" for p :: u32
  proof -
    have "p AND mask n = take_bit n p" by (simp add: take_bit_eq_mask)
    moreover have "unat (take_bit n p) < 2 ^ n" by (simp only: unsigned_take_bit_eq take_bit_nat_less_exp)
    moreover have "unat (mask n + 1 :: u32) = 2 ^ n"
      using unat_push_one [OF assms(5)] by (simp add: mask_eq_exp_minus_1)
    ultimately show ?thesis by (simp only: word_less_nat_alt)
  qed
  then show ?thesis
    using assms by (simp add: memsim_apply_def Let_def memsim_rel_def slot_holds_def)
qed

definition memsim_example :: memsim where
  "memsim_example = \<lparr>m_mem = (\<lambda>_. 7), m_len = 1024, m_mask = 1023, m_head = 0, m_tail = 2,
     m_delay_mask = 3, m_delay = 2, m_fifo_ack = (\<lambda>_. 0), m_fifo_data = (\<lambda>_. 0)\<rparr>"

definition memsim_example_bus :: "wb_in list" where
  "memsim_example_bus = (let idle = \<lparr>wb_cyc = True, wb_stb = False, wb_we = False, wb_addr = 0, wb_data = 0, wb_sel = 0\<rparr>
    in [idle\<lparr>wb_stb := True, wb_we := True, wb_addr := 5, wb_data := 9, wb_sel := 0xf\<rparr>,
        idle\<lparr>wb_stb := True, wb_addr := 5\<rparr>, idle, idle])"

theorem memsim_refines_memory_witness:
  "\<exists>s' xs. run memsim_apply memsim_example memsim_example_bus = Inr (s', xs)
    \<and> wb_answer (xs ! 2) (Some None) \<and> wb_answer (xs ! 3) (Some (Some 9))"
proof -
  have rel: "memsim_rel 2 2 memsim_example (\<lambda>_. 7, replicate 2 None)"
    by (auto simp: memsim_rel_def memsim_example_def slot_holds_def mask_eq_exp_minus_1)
  have cyc: "\<forall>i \<in> set memsim_example_bus. wb_cyc i" by (simp add: memsim_example_bus_def Let_def)
  have out: "take (length memsim_example_bus) (replicate 2 None @ wb_requests (m_mask memsim_example) (\<lambda>_. 7) memsim_example_bus)
      = [None, None, Some None, Some (Some 9)]"
  proof -
    have "wb_requests 1023 (\<lambda>_. 7) memsim_example_bus = [Some None, Some (Some 9), None, None]"
      by (simp add: memsim_example_bus_def Let_def wb_request_def wb_update_def memsim_merge_def)
    then show ?thesis by (simp add: memsim_example_def memsim_example_bus_def Let_def numeral_2_eq_2)
  qed
  obtain s' xs where "run memsim_apply memsim_example memsim_example_bus = Inr (s', xs)"
    and all: "list_all2 wb_answer xs [None, None, Some None, Some (Some 9)]"
    using memsim_refines_memory [OF rel cyc] unfolding out by blast
  then show ?thesis
    using list_all2_nthD2 [OF all, of 2] list_all2_nthD2 [OF all, of 3] by simp
qed

end
