(* ===== verification/Uart.thy ===== *)
theory Uart
  imports Prelude
begin

text \<open>
  The simulated serial port, class \<open>UARTSIM\<close> of \<open>sim/verilated/uartsim.cpp\<close>: a receiver that
  samples the transmit wire of the design in the middle of each bit, and a transmitter that
  drives its receive wire, at the baud rate and format of a 29-bit setup register.

  The file descriptors belong to the operating system: what \<open>accept\<close>, \<open>poll\<close> with \<open>recv\<close> or
  \<open>read\<close>, and \<open>send\<close> or \<open>write\<close> answer at a tick is an argument of the tick.  \<open>poll\<close> never
  reports a negative descriptor as readable.  \<open>m_rx_changectr\<close> is not reduced modulo its
  width, so a line is assumed not to be idle for \<open>2 ^ 31\<close> ticks.
\<close>

section \<open>State\<close>

datatype uart_state = IDLE | DATA

record uart_line =
  m_setup :: u32
  m_nparity :: nat
  m_fixdp :: nat
  m_evenp :: nat
  m_nbits :: nat
  m_nstop :: nat
  m_baud_counts :: int
  m_rx_baudcounter :: int
  m_rx_state :: uart_state
  m_rx_busy :: int
  m_rx_changectr :: int
  m_last_tx :: int
  m_tx_baudcounter :: int
  m_tx_state :: uart_state
  m_tx_busy :: int
  m_rx_data :: u32
  m_tx_data :: u32

record uart = uart_line +
  m_skt :: int
  m_conrd :: int
  m_conwr :: int

definition uart_setup :: "u32 \<Rightarrow> 'a uart_line_scheme \<Rightarrow> 'a uart_line_scheme" where
  "uart_setup isetup s =
     (if isetup \<noteq> m_setup s
      then s\<lparr>m_setup := isetup, m_baud_counts := uint (isetup AND 0x0ffffff),
             m_nbits := 8 - unat (drop_bit 28 isetup AND 3), m_nstop := unat (drop_bit 27 isetup AND 1) + 1,
             m_nparity := unat (drop_bit 26 isetup AND 1), m_fixdp := unat (drop_bit 25 isetup AND 1),
             m_evenp := unat (drop_bit 24 isetup AND 1)\<rparr>
      else s)"

text \<open>
  The constructor, into raw storage \<open>u\<close>; \<open>skt\<close> is the descriptor that \<open>setup_listener\<close>
  obtains.  \<open>m_setup\<close> is compared before it is ever written.
\<close>

definition uart_new :: "uart \<Rightarrow> int \<Rightarrow> int \<Rightarrow> uart" where
  "uart_new u port skt =
     (let s = u\<lparr>m_conrd := - 1, m_conwr := - 1, m_skt := - 1\<rparr>;
          s = (if port = 0 then s\<lparr>m_conrd := 0, m_conwr := 1\<rparr> else s\<lparr>m_skt := skt\<rparr>);
          s = uart_setup 25 s
      in s\<lparr>m_rx_baudcounter := 0, m_tx_baudcounter := 0, m_rx_state := IDLE, m_tx_state := IDLE\<rparr>)"

text \<open>\<open>kill\<close> with the descriptors it closes, in order.\<close>

definition uart_kill :: "uart \<Rightarrow> uart \<times> int list" where
  "uart_kill s =
     (let s = (if m_conrd s = 0 then s\<lparr>m_conwr := - 1\<rparr> else s);
          s = (if m_conwr s = 1 then s\<lparr>m_conwr := - 1\<rparr> else s);
          closed = (if 0 \<le> m_conrd s then [m_conrd s] else [])
            @ (if 0 \<le> m_conwr s \<and> m_conwr s \<noteq> m_conrd s then [m_conwr s] else [])
            @ (if 0 \<le> m_skt s then [m_skt s] else [])
      in (s\<lparr>m_conrd := - 1, m_conwr := - 1, m_skt := - 1\<rparr>, closed))"

section \<open>The receiver\<close>

definition uart_change :: "int \<Rightarrow> 'a uart_line_scheme \<Rightarrow> 'a uart_line_scheme" where
  "uart_change i_tx s =
     (if i_tx = 0 \<and> m_last_tx s \<noteq> 0 then s\<lparr>m_rx_changectr := 0\<rparr>
      else s\<lparr>m_rx_changectr := m_rx_changectr s + 1\<rparr>)\<lparr>m_last_tx := i_tx\<rparr>"

definition uart_rx_char :: "'a uart_line_scheme \<Rightarrow> u8" where
  "uart_rx_char s = ucast (drop_bit (32 - m_nbits s - m_nstop s - m_nparity s) (m_rx_data s) AND 0x0ff)"

text \<open>One tick of the receiver: the character it completes, if any.\<close>

definition uart_rx :: "int \<Rightarrow> 'a uart_line_scheme \<Rightarrow> 'a uart_line_scheme \<times> u8 option" where
  "uart_rx i_tx s =
     (if m_rx_state s = IDLE
      then (if i_tx = 0
            then s\<lparr>m_rx_state := DATA,
                   m_rx_baudcounter := m_baud_counts s + m_baud_counts s div 2 - 1 - m_rx_changectr s,
                   m_rx_busy := 0, m_rx_data := 0\<rparr>
            else s, None)
      else if m_rx_baudcounter s \<le> 0
      then if 2 ^ (m_nbits s + m_nparity s + m_nstop s - 1) \<le> m_rx_busy s
           then (s\<lparr>m_rx_state := IDLE, m_rx_baudcounter := m_baud_counts s - 1\<rparr>, Some (uart_rx_char s))
           else (s\<lparr>m_rx_busy := 2 * m_rx_busy s + 1,
                   m_rx_data := push_bit 31 (of_int (i_tx mod 2)) OR drop_bit 1 (m_rx_data s),
                   m_rx_baudcounter := m_baud_counts s - 1\<rparr>, None)
      else (s\<lparr>m_rx_baudcounter := m_rx_baudcounter s - 1\<rparr>, None))"

section \<open>The transmitter\<close>

definition uart_parity :: "'a uart_line_scheme \<Rightarrow> u32 \<Rightarrow> u32" where
  "uart_parity s dat =
     (if m_fixdp s \<noteq> 0 then of_nat (m_evenp s)
      else let p = drop_bit 1 dat AND 0x0ff;
               p = p XOR drop_bit 4 p;
               p = p XOR drop_bit 2 p;
               p = p XOR drop_bit 1 p;
               p = p AND 1
           in p XOR of_nat (m_evenp s))"

definition uart_tx_load :: "u8 \<Rightarrow> 'a uart_line_scheme \<Rightarrow> 'a uart_line_scheme" where
  "uart_tx_load c s =
     (let dat = push_bit (m_nbits s + m_nparity s + 1) (- 1) OR (push_bit 1 (ucast c) AND 0x01fe);
          dat = (if m_nparity s \<noteq> 0
                 then dat OR push_bit (m_nbits s + m_nparity s) (uart_parity s dat) else dat)
      in s\<lparr>m_tx_data := dat, m_tx_busy := 2 ^ (m_nbits s + m_nparity s + m_nstop s + 1) - 1,
           m_tx_state := DATA, m_tx_baudcounter := m_baud_counts s - 1\<rparr>)"

definition uart_wire :: "'a uart_line_scheme \<Rightarrow> int" where
  "uart_wire s = uint (m_tx_data s AND 1)"

definition uart_tx_tick :: "'a uart_line_scheme \<Rightarrow> 'a uart_line_scheme \<times> int" where
  "uart_tx_tick s =
     (if m_tx_baudcounter s \<le> 0
      then let s = s\<lparr>m_tx_data := drop_bit 1 (m_tx_data s), m_tx_busy := m_tx_busy s div 2\<rparr>;
               s = (if m_tx_busy s = 0 then s\<lparr>m_tx_state := IDLE\<rparr>
                    else s\<lparr>m_tx_baudcounter := m_baud_counts s - 1\<rparr>)
           in (s, uart_wire s)
      else let s = s\<lparr>m_tx_baudcounter := m_tx_baudcounter s - 1\<rparr> in (s, uart_wire s))"

section \<open>One tick\<close>

datatype read_event = NotReady | Got u8 | EndOfFile | ReadFailed

record uart_in =
  i_tx :: int
  accepted :: "int option"
  written :: bool
  readable :: read_event

definition uart_accept :: "int option \<Rightarrow> uart \<Rightarrow> uart" where
  "uart_accept a s =
     (if m_conrd s < 0 \<and> m_conwr s < 0 \<and> 0 \<le> m_skt s
      then (case a of Some fd \<Rightarrow> s\<lparr>m_conrd := fd, m_conwr := fd\<rparr> | None \<Rightarrow> s) else s)"

definition uart_deliver :: "bool \<Rightarrow> u8 option \<Rightarrow> uart \<Rightarrow> uart \<times> u8 list" where
  "uart_deliver ok c s =
     (case c of None \<Rightarrow> (s, [])
      | Some b \<Rightarrow> if 0 \<le> m_conwr s
                  then if ok then (s, [b]) else (s\<lparr>m_conrd := - 1, m_conwr := - 1\<rparr>, [])
                  else (s, []))"

definition uart_fetch :: "bool \<Rightarrow> read_event \<Rightarrow> uart \<Rightarrow> uart \<times> int" where
  "uart_fetch network ev s =
     (case (if 0 \<le> m_conrd s then ev else NotReady) of
        NotReady \<Rightarrow> (s, 1)
      | Got c \<Rightarrow> (uart_tx_load c s, 0)
      | EndOfFile \<Rightarrow> (if network then s\<lparr>m_conrd := - 1, m_conwr := - 1\<rparr> else s, 1)
      | ReadFailed \<Rightarrow> (if network then s\<lparr>m_conrd := - 1, m_conwr := - 1\<rparr> else s\<lparr>m_conrd := - 1\<rparr>, 1))"

definition uart_rawtick :: "bool \<Rightarrow> uart \<Rightarrow> uart_in \<Rightarrow> fault + uart \<times> (int \<times> u8 list)" where
  "uart_rawtick network s i =
     (let s = (if network then uart_accept (accepted i) s else s);
          s = uart_change (i_tx i) s;
          (s, c) = uart_rx (i_tx i) s;
          (s, out) = uart_deliver (written i) c s;
          (s, o_rx) = (if m_tx_state s = IDLE \<and> (network \<or> 0 \<le> m_conrd s) then uart_fetch network (readable i) s
                       else uart_tx_tick s)
      in Inr (s, (o_rx, out)))"

definition uart_tick :: "uart \<Rightarrow> uart_in \<Rightarrow> fault + uart \<times> (int \<times> u8 list)" where
  "uart_tick s i = uart_rawtick (0 \<le> m_skt s) s i"

definition uart_tick_setup :: "u32 \<Rightarrow> uart \<Rightarrow> uart_in \<Rightarrow> fault + uart \<times> (int \<times> u8 list)" where
  "uart_tick_setup isetup s i = uart_tick (uart_setup isetup s) i"

lemma uart_tick_returns: "\<exists>s' x. uart_tick s i = Inr (s', x)"
  by (simp add: uart_tick_def uart_rawtick_def Let_def split: prod.splits)

interpretation uart: step_total uart_tick "\<lambda>_. True" "\<lambda>_. True"
  using uart_tick_returns by unfold_locales simp_all

lemma uart_run_returns: "\<exists>s' xs. run uart_tick s is = Inr (s', xs)"
proof -
  have "list_all (\<lambda>_. True) is" by (simp add: list_all_iff)
  from uart.run_returns [OF TrueI this, of s] show ?thesis by blast
qed

section \<open>Frame rules\<close>

text \<open>
  The receiver and the transmitter share the format and nothing else.
\<close>

definition uart_fmt :: "'a uart_line_scheme \<Rightarrow> nat \<times> nat \<times> nat \<times> nat \<times> nat \<times> int" where
  "uart_fmt s = (m_nbits s, m_nparity s, m_nstop s, m_fixdp s, m_evenp s, m_baud_counts s)"

definition rx_view :: "'a uart_line_scheme \<Rightarrow> uart_state \<times> int \<times> int \<times> u32 \<times> int \<times> int" where
  "rx_view s = (m_rx_state s, m_rx_baudcounter s, m_rx_busy s, m_rx_data s, m_rx_changectr s, m_last_tx s)"

definition tx_view :: "'a uart_line_scheme \<Rightarrow> uart_state \<times> int \<times> int \<times> u32" where
  "tx_view s = (m_tx_state s, m_tx_baudcounter s, m_tx_busy s, m_tx_data s)"

lemmas uart_views = uart_fmt_def rx_view_def tx_view_def

definition uart_rx_tick :: "int \<Rightarrow> 'a uart_line_scheme \<Rightarrow> 'a uart_line_scheme \<times> u8 option" where
  "uart_rx_tick w s = uart_rx w (uart_change w s)"

definition uart_tx_choice :: "u8 option \<Rightarrow> 'a uart_line_scheme \<Rightarrow> 'a uart_line_scheme \<times> int" where
  "uart_tx_choice c s =
     (if m_tx_state s = IDLE then (case c of None \<Rightarrow> (s, 1) | Some b \<Rightarrow> (uart_tx_load b s, 0))
      else uart_tx_tick s)"

lemma uart_change_frame [simp]:
  "uart_fmt (uart_change w s) = uart_fmt s" "tx_view (uart_change w s) = tx_view s"
  "uart.more (uart_change w u) = uart.more u"
  "m_skt (uart_change w u) = m_skt u" "m_conrd (uart_change w u) = m_conrd u" "m_conwr (uart_change w u) = m_conwr u"
  by (simp_all add: uart_change_def uart_views)

lemma uart_rx_frame [simp]:
  "uart_fmt (fst (uart_rx w s)) = uart_fmt s" "tx_view (fst (uart_rx w s)) = tx_view s"
  "m_skt (fst (uart_rx w u)) = m_skt u" "m_conrd (fst (uart_rx w u)) = m_conrd u" "m_conwr (fst (uart_rx w u)) = m_conwr u"
  by (simp_all add: uart_rx_def uart_views)

lemma uart_tx_load_frame [simp]:
  "uart_fmt (uart_tx_load c s) = uart_fmt s" "rx_view (uart_tx_load c s) = rx_view s"
  "m_skt (uart_tx_load c u) = m_skt u" "m_conrd (uart_tx_load c u) = m_conrd u" "m_conwr (uart_tx_load c u) = m_conwr u"
  by (simp_all add: uart_tx_load_def uart_views Let_def)

lemma uart_tx_tick_frame [simp]:
  "uart_fmt (fst (uart_tx_tick s)) = uart_fmt s" "rx_view (fst (uart_tx_tick s)) = rx_view s"
  "m_skt (fst (uart_tx_tick u)) = m_skt u" "m_conrd (fst (uart_tx_tick u)) = m_conrd u"
  "m_conwr (fst (uart_tx_tick u)) = m_conwr u"
  by (simp_all add: uart_tx_tick_def uart_views Let_def)

lemma uart_tx_tick_pair: "uart_tx_tick s = (s', w) \<Longrightarrow> uart_fmt s' = uart_fmt s \<and> rx_view s' = rx_view s"
  by (metis fst_conv uart_tx_tick_frame(1,2))

lemma uart_tx_tick_conn: "uart_tx_tick s = (s', w) \<Longrightarrow> m_conrd s' = m_conrd s \<and> m_conwr s' = m_conwr s"
  by (metis fst_conv uart_tx_tick_frame(4,5))

text \<open>A connected port whose environment reports no error.\<close>

definition uart_open :: "uart \<Rightarrow> bool" where
  "uart_open s \<longleftrightarrow> 0 \<le> m_conrd s \<and> 0 \<le> m_conwr s"

definition uart_clean :: "uart_in \<Rightarrow> bool" where
  "uart_clean i \<longleftrightarrow> written i \<and> readable i \<noteq> EndOfFile \<and> readable i \<noteq> ReadFailed"

definition event_char :: "read_event \<Rightarrow> u8 option" where
  "event_char ev = (case ev of Got c \<Rightarrow> Some c | _ \<Rightarrow> None)"

definition chars_out :: "u8 option \<Rightarrow> u8 list" where
  "chars_out c = (case c of None \<Rightarrow> [] | Some b \<Rightarrow> [b])"

lemma uart_tick_clean:
  assumes "uart_open s" "uart_clean i" "uart_rx_tick (i_tx i) s = (s1, c)"
    and "uart_tx_choice (event_char (readable i)) s1 = (s2, w)"
  shows "uart_tick s i = Inr (s2, (w, chars_out c)) \<and> uart_open s2"
proof -
  have s1: "0 \<le> m_conrd s1" "0 \<le> m_conwr s1"
    using assms(1,3) uart_rx_frame(4,5) [of "i_tx i" "uart_change (i_tx i) s"]
    by (simp_all add: uart_open_def uart_rx_tick_def)
  then have "uart_deliver (written i) c s1 = (s1, chars_out c)"
    using assms(2) by (simp add: uart_deliver_def chars_out_def uart_clean_def split: option.split)
  moreover have "uart_accept (accepted i) s = s" using assms(1) by (simp add: uart_accept_def uart_open_def)
  moreover have "(if m_tx_state s1 = IDLE then uart_fetch n (readable i) s1 else uart_tx_tick s1) = (s2, w)" for n
    using assms(2,4) s1
    by (auto simp: uart_tx_choice_def uart_fetch_def event_char_def uart_clean_def split: read_event.splits if_splits)
  moreover have "uart_open s2"
  proof -
    have "m_conrd s2 = m_conrd s1 \<and> m_conwr s2 = m_conwr s1"
      using assms(4)
      by (auto simp: uart_tx_choice_def split: if_splits option.splits dest!: uart_tx_tick_conn)
    with s1 show ?thesis by (simp add: uart_open_def)
  qed
  ultimately show ?thesis
    using assms(3) s1 by (auto simp: uart_tick_def uart_rawtick_def Let_def uart_rx_tick_def split: prod.splits)
qed

lemma uart_tx_choice_frame:
  "uart_tx_choice c s = (s', w) \<Longrightarrow> uart_fmt s' = uart_fmt s \<and> rx_view s' = rx_view s"
  by (auto simp: uart_tx_choice_def split: if_splits option.splits dest!: uart_tx_tick_pair)

lemma uart_rx_tick_frame:
  "uart_rx_tick w s = (s', c) \<Longrightarrow> uart_fmt s' = uart_fmt s \<and> tx_view s' = tx_view s"
  using uart_rx_frame(1,2) [of w "uart_change w s"] by (simp add: uart_rx_tick_def)

section \<open>Reception\<close>

definition uart_ok :: "'a uart_line_scheme \<Rightarrow> bool" where
  "uart_ok s \<longleftrightarrow> 5 \<le> m_nbits s \<and> m_nbits s \<le> 8 \<and> m_nparity s \<le> 1 \<and> 1 \<le> m_nstop s \<and> m_nstop s \<le> 2
     \<and> 1 \<le> m_baud_counts s"

definition uart_len :: "'a uart_line_scheme \<Rightarrow> nat" where
  "uart_len s = m_nbits s + m_nparity s + m_nstop s"

lemma uart_fmt_cong:
  assumes "uart_fmt s = uart_fmt t"
  shows "uart_ok s = uart_ok t" "uart_len s = uart_len t" "m_baud_counts s = m_baud_counts t"
    "m_nbits s = m_nbits t" "m_nparity s = m_nparity t" "m_nstop s = m_nstop t"
  using assms by (simp_all add: uart_fmt_def uart_ok_def uart_len_def)

text \<open>
  In the middle of a character: \<open>c\<close> ticks before the next sample, \<open>k\<close> samples taken, their
  bits in \<open>dat\<close>.
\<close>

definition rx_at :: "nat \<Rightarrow> nat \<Rightarrow> u32 \<Rightarrow> 'a uart_line_scheme \<Rightarrow> bool" where
  "rx_at c k dat s \<longleftrightarrow> m_rx_state s = DATA \<and> m_rx_baudcounter s = int c \<and> m_rx_busy s = 2 ^ k - 1
     \<and> m_rx_data s = dat"

definition rx_shift :: "bool \<Rightarrow> u32 \<Rightarrow> u32" where
  "rx_shift b dat = push_bit 31 (of_bool b) OR drop_bit 1 dat"

lemma rx_at_view: "rx_view s = rx_view t \<Longrightarrow> rx_at c k dat s = rx_at c k dat t"
  by (simp add: rx_at_def rx_view_def)

lemma rx_tick_wait:
  assumes "rx_at (Suc c) k dat s"
  shows "\<exists>s'. uart_rx_tick w s = (s', None) \<and> rx_at c k dat s'"
  using assms by (auto simp: rx_at_def uart_rx_tick_def uart_rx_def uart_change_def)

lemma of_int_mod_2: "(of_int (w mod 2) :: u32) = of_bool (odd w)"
  by (cases "odd w") (simp_all add: odd_iff_mod_2_eq_one even_iff_mod_2_eq_zero)

lemma rx_tick_sample:
  assumes "rx_at 0 k dat s" "k < uart_len s" "uart_ok s"
  shows "\<exists>s'. uart_rx_tick w s = (s', None) \<and> rx_at (nat (m_baud_counts s) - 1) (Suc k) (rx_shift (odd w) dat) s'"
proof -
  have "(2::int) ^ k \<le> 2 ^ (uart_len s - 1)" using assms(2) by (intro power_increasing) simp_all
  then have "\<not> 2 ^ (m_nbits s + m_nparity s + m_nstop s - 1) \<le> (2 ^ k - 1 :: int)" by (simp add: uart_len_def)
  moreover have "int (nat (m_baud_counts s) - 1) = m_baud_counts s - 1" using assms(3) by (auto simp: uart_ok_def)
  ultimately show ?thesis
    using assms(1) by (simp add: rx_at_def uart_rx_tick_def uart_rx_def uart_change_def rx_shift_def of_int_mod_2)
qed

lemma rx_tick_last:
  assumes "rx_at 0 (uart_len s) dat s" "uart_ok s"
  shows "\<exists>s'. uart_rx_tick w s = (s', Some (ucast (drop_bit (32 - uart_len s) dat AND 0xff))) \<and> m_rx_state s' = IDLE"
proof -
  have "0 < uart_len s" using assms(2) by (simp add: uart_ok_def uart_len_def)
  then have "(2::int) ^ (uart_len s - 1) < 2 ^ uart_len s" by (intro power_strict_increasing) simp_all
  then have "2 ^ (m_nbits s + m_nparity s + m_nstop s - 1) \<le> (2 ^ uart_len s - 1 :: int)" by (simp add: uart_len_def)
  moreover have "32 - m_nbits s - m_nstop s - m_nparity s = 32 - uart_len s" by (simp add: uart_len_def)
  ultimately show ?thesis
    using assms(1) by (simp add: rx_at_def uart_rx_tick_def uart_rx_def uart_change_def uart_rx_char_def)
qed

lemma rx_tick_start:
  assumes "m_rx_state s = IDLE" "m_last_tx s \<noteq> 0" "uart_ok s"
  shows "\<exists>s'. uart_rx_tick 0 s = (s', None)
    \<and> rx_at (nat (m_baud_counts s + m_baud_counts s div 2) - 1) 0 0 s'"
proof -
  have "1 \<le> m_baud_counts s" using assms(3) by (simp add: uart_ok_def)
  then have "1 \<le> m_baud_counts s + m_baud_counts s div 2" by simp
  then have "int (nat (m_baud_counts s + m_baud_counts s div 2) - 1) = m_baud_counts s + m_baud_counts s div 2 - 1"
    by simp
  with assms show ?thesis by (simp add: rx_at_def uart_rx_tick_def uart_rx_def uart_change_def)
qed

text \<open>One tick of the whole port, seen from the receiver.\<close>

lemma uart_tick_rx:
  assumes "uart_open s" "uart_clean i" "uart_rx_tick (i_tx i) s = (s1, c)"
  shows "\<exists>s' w. uart_tick s i = Inr (s', (w, chars_out c)) \<and> uart_open s' \<and> uart_fmt s' = uart_fmt s
    \<and> rx_view s' = rx_view s1"
proof -
  obtain s2 w where 2: "uart_tx_choice (event_char (readable i)) s1 = (s2, w)" by force
  show ?thesis
    using uart_tick_clean [OF assms 2] uart_tx_choice_frame [OF 2] uart_rx_tick_frame [OF assms(3)] by auto
qed

fun rx_bits :: "bool list \<Rightarrow> u32 \<Rightarrow> u32" where
  "rx_bits [] dat = dat"
| "rx_bits (b # bs) dat = rx_bits bs (rx_shift b dat)"

lemma uart_receive_run:
  assumes "uart_open s" "uart_ok s" "rx_at c k dat s" "k + m = uart_len s"
    and "\<forall>i \<in> set is. uart_clean i" "length is = c + m * nat (m_baud_counts s) + 1"
  shows "\<exists>s' outs. run uart_tick s is = Inr (s', outs)
    \<and> concat (map snd outs) = [ucast (drop_bit (32 - uart_len s) (rx_bits
         (map (\<lambda>j. odd (i_tx (is ! (c + j * nat (m_baud_counts s))))) [0..<m]) dat) AND 0xff)]
    \<and> uart_open s' \<and> uart_fmt s' = uart_fmt s \<and> m_rx_state s' = IDLE"
  using assms
proof (induction "is" arbitrary: s c k m dat)
  case Nil
  then show ?case by simp
next
  case (Cons i "is")
  let ?B = "nat (m_baud_counts s)"
  have clean: "uart_clean i" "\<forall>i \<in> set is. uart_clean i" using Cons.prems(5) by simp_all
  have B: "0 < ?B" using Cons.prems(2) by (simp add: uart_ok_def)
  consider (wait) d where "c = Suc d" | (sample) l where "c = 0" "m = Suc l" | (last) "c = 0" "m = 0"
    by (metis not0_implies_Suc)
  then show ?case
  proof cases
    case wait
    obtain s1 where 1: "uart_rx_tick (i_tx i) s = (s1, None)" "rx_at d k dat s1"
      using rx_tick_wait Cons.prems(3) wait by blast
    obtain s2 w where 2: "uart_tick s i = Inr (s2, (w, []))" "uart_open s2" "uart_fmt s2 = uart_fmt s"
      "rx_view s2 = rx_view s1"
      using uart_tick_rx [OF Cons.prems(1) clean(1) 1(1)] by (auto simp: chars_out_def)
    note fmt = uart_fmt_cong [OF 2(3)]
    have at: "rx_at d k dat s2" using 1(2) 2(4) rx_at_view by metis
    have "length is = d + m * nat (m_baud_counts s2) + 1" using Cons.prems(6) wait fmt(3) by simp
    from Cons.IH [OF 2(2) _ at _ clean(2) this] obtain s' outs where "run uart_tick s2 is = Inr (s', outs)"
      "concat (map snd outs) = [ucast (drop_bit (32 - uart_len s) (rx_bits
         (map (\<lambda>j. odd (i_tx (is ! (d + j * ?B)))) [0..<m]) dat) AND 0xff)]"
      "uart_open s'" "uart_fmt s' = uart_fmt s" "m_rx_state s' = IDLE"
      using Cons.prems(2,4) fmt 2(3) by auto
    then show ?thesis using 2(1) wait by simp
  next
    case sample
    obtain s1 where 1: "uart_rx_tick (i_tx i) s = (s1, None)"
      "rx_at (?B - 1) (Suc k) (rx_shift (odd (i_tx i)) dat) s1"
      using rx_tick_sample [of k dat s "i_tx i"] Cons.prems(2-4) sample by auto
    obtain s2 w where 2: "uart_tick s i = Inr (s2, (w, []))" "uart_open s2" "uart_fmt s2 = uart_fmt s"
      "rx_view s2 = rx_view s1"
      using uart_tick_rx [OF Cons.prems(1) clean(1) 1(1)] by (auto simp: chars_out_def)
    note fmt = uart_fmt_cong [OF 2(3)]
    have at: "rx_at (?B - 1) (Suc k) (rx_shift (odd (i_tx i)) dat) s2" using 1(2) 2(4) rx_at_view by metis
    have len: "length is = (?B - 1) + l * nat (m_baud_counts s2) + 1"
      using Cons.prems(6) sample fmt(3) B by simp
    from Cons.IH [OF 2(2) _ at _ clean(2) len] obtain s' outs where 3: "run uart_tick s2 is = Inr (s', outs)"
      "concat (map snd outs) = [ucast (drop_bit (32 - uart_len s) (rx_bits
         (map (\<lambda>j. odd (i_tx (is ! (?B - 1 + j * ?B)))) [0..<l]) (rx_shift (odd (i_tx i)) dat)) AND 0xff)]"
      "uart_open s'" "uart_fmt s' = uart_fmt s" "m_rx_state s' = IDLE"
      using Cons.prems(2,4) sample fmt 2(3) by auto
    have idx: "(i # is) ! (c + Suc j * ?B) = is ! (?B - 1 + j * ?B)" for j
      using B sample(1) by (cases ?B) (simp_all add: ac_simps)
    have "map (\<lambda>j. odd (i_tx ((i # is) ! (c + j * ?B)))) [0..<m] =
        odd (i_tx i) # map (\<lambda>j. odd (i_tx (is ! (?B - 1 + j * ?B)))) [0..<l]"
      unfolding sample(2) upt_conv_Cons [OF zero_less_Suc] map_Suc_upt [symmetric] list.map map_map comp_def idx
      by (simp add: sample(1))
    then show ?thesis using 2(1) 3 by simp
  next
    case last
    obtain s1 where 1: "uart_rx_tick (i_tx i) s = (s1, Some (ucast (drop_bit (32 - uart_len s) dat AND 0xff)))"
      "m_rx_state s1 = IDLE"
      using rx_tick_last [of s dat "i_tx i"] Cons.prems(2-4) last by auto
    obtain s2 w where 2: "uart_tick s i = Inr (s2, (w, [ucast (drop_bit (32 - uart_len s) dat AND 0xff)]))"
      "uart_open s2" "uart_fmt s2 = uart_fmt s" "rx_view s2 = rx_view s1"
      using uart_tick_rx [OF Cons.prems(1) clean(1) 1(1)] by (auto simp: chars_out_def)
    have "is = []" using Cons.prems(6) last by simp
    moreover have "m_rx_state s2 = IDLE" using 2(4) 1(2) by (simp add: rx_view_def)
    ultimately show ?thesis using 2 last by simp
  qed
qed

lemma bit_rx_bits:
  assumes "length bs \<le> 32" "n < 32"
  shows "bit (rx_bits bs dat) n =
    (if 32 - length bs \<le> n then bs ! (n + length bs - 32) else bit dat (n + length bs))"
  using assms
proof (induction bs arbitrary: dat)
  case Nil
  then show ?case by simp
next
  case (Cons b bs)
  have shift: "bit (rx_shift b dat) k = (if k = 31 then b else bit dat (Suc k))" if "k < 32" for k
    using that bit_imp_le_length [of dat "Suc k"] by (auto simp: rx_shift_def bit_simps)
  consider "32 - length bs \<le> n" | "n + length bs = 31" | "n + length bs < 31"
    using Cons.prems by linarith
  then show ?case
  proof cases
    case 1
    then have "n + length (b # bs) - 32 = Suc (n + length bs - 32)" "31 - length bs \<le> n"
      using Cons.prems by simp_all
    with 1 Cons show ?thesis by simp
  next
    case 2
    then have "\<not> 32 - length bs \<le> n" "32 - length (b # bs) \<le> n" "n + length (b # bs) - 32 = 0"
      using Cons.prems by auto
    with 2 Cons shift [of 31] show ?thesis by simp
  next
    case 3
    then have "\<not> 32 - length bs \<le> n" "\<not> 32 - length (b # bs) \<le> n" by auto
    with 3 Cons shift [of "n + length bs"] show ?thesis by simp
  qed
qed

lemma bit_rx_char:
  assumes "length bs = L" "0 < L" "L \<le> 11" "j < 8"
  shows "bit (ucast (drop_bit (32 - L) (rx_bits bs 0) AND 0xff) :: u8) j \<longleftrightarrow> j < L \<and> bs ! j"
proof -
  have "drop_bit (32 - L) (rx_bits bs 0) AND 0xff = take_bit 8 (drop_bit (32 - L) (rx_bits bs 0))"
    by (simp add: take_bit_eq_mask mask_eq_exp_minus_1)
  moreover have "bit (rx_bits bs 0) (32 - L + j) \<longleftrightarrow> j < L \<and> bs ! j"
  proof (cases "j < L")
    case True
    define k where "k = 32 - L"
    have "k + L = 32" using assms(3) by (simp add: k_def)
    then have "k + j < 32" "k + j + L - 32 = j" "32 - L \<le> k + j" using True by simp_all
    then have "bit (rx_bits bs 0) (k + j) = bs ! j" using bit_rx_bits [of bs "k + j" 0] assms(1,3) by simp
    with True show ?thesis by (simp add: k_def)
  next
    case False
    then have "LENGTH(32) \<le> 32 - L + j" by simp
    with False show ?thesis using bit_imp_le_length not_le by blast
  qed
  ultimately show ?thesis using assms(4) by (simp add: bit_simps)
qed

lemma uart_len_bounds: "uart_ok s \<Longrightarrow> m_nbits s < uart_len s \<and> 0 < uart_len s \<and> uart_len s \<le> 11"
  by (auto simp: uart_ok_def uart_len_def)

text \<open>
  reception.  From a falling edge on an idle line, a port with \<open>L\<close> bits of data, parity
  and stop at \<open>B\<close> ticks a bit reports exactly one character, at tick \<open>(L + 1) B + B/2\<close>, whose
  bit \<open>j\<close> is the level of the line in the middle of bit \<open>j\<close>: at tick \<open>(j + 1) B + B/2\<close>.  What
  the line does between the samples does not matter.
\<close>

theorem uart_receives:
  assumes "uart_open s" "uart_ok s" "m_rx_state s = IDLE" "m_last_tx s \<noteq> 0"
    and "uart_clean i" "\<forall>i \<in> set is. uart_clean i" "i_tx i = 0"
    and "length is = nat (m_baud_counts s) + nat (m_baud_counts s) div 2 + uart_len s * nat (m_baud_counts s)"
  shows "\<exists>s' outs ch. run uart_tick s (i # is) = Inr (s', outs) \<and> concat (map snd outs) = [ch]
    \<and> (\<forall>j < 8. bit ch j \<longleftrightarrow> j < uart_len s \<and>
         odd (i_tx ((i # is) ! (nat (m_baud_counts s) + nat (m_baud_counts s) div 2 + j * nat (m_baud_counts s)))))
    \<and> m_rx_state s' = IDLE"
proof -
  let ?B = "nat (m_baud_counts s)"
  let ?c = "?B + ?B div 2 - 1" and ?L = "uart_len s"
  have B: "0 < ?B" using assms(2) by (auto simp: uart_ok_def)
  have "nat (m_baud_counts s + m_baud_counts s div 2) = ?B + ?B div 2"
    using B by (simp add: nat_add_distrib nat_div_distrib)
  then obtain s1 where 1: "uart_rx_tick (i_tx i) s = (s1, None)" "rx_at ?c 0 0 s1"
    using rx_tick_start [OF assms(3,4,2)] assms(7) by auto
  obtain s2 w where 2: "uart_tick s i = Inr (s2, (w, []))" "uart_open s2" "uart_fmt s2 = uart_fmt s"
    "rx_view s2 = rx_view s1"
    using uart_tick_rx [OF assms(1,5) 1(1)] by (auto simp: chars_out_def)
  note fmt = uart_fmt_cong [OF 2(3)]
  have at: "rx_at ?c 0 0 s2" using 1(2) 2(4) rx_at_view by metis
  have len: "length is = ?c + ?L * nat (m_baud_counts s2) + 1" using assms(8) fmt(3) B by simp
  let ?bs = "map (\<lambda>j. odd (i_tx (is ! (?c + j * ?B)))) [0..<?L]"
  let ?ch = "ucast (drop_bit (32 - ?L) (rx_bits ?bs 0) AND 0xff) :: u8"
  from uart_receive_run [OF 2(2) _ at _ assms(6) len] obtain s' outs where
    3: "run uart_tick s2 is = Inr (s', outs)" "concat (map snd outs) = [?ch]" "m_rx_state s' = IDLE"
    using assms(2) fmt by auto
  have "bit ?ch j \<longleftrightarrow> j < ?L \<and> odd (i_tx ((i # is) ! (?B + ?B div 2 + j * ?B)))" if "j < 8" for j
  proof -
    have "bit ?ch j \<longleftrightarrow> j < ?L \<and> ?bs ! j"
      using uart_len_bounds [OF assms(2)] that by (intro bit_rx_char) simp_all
    moreover have "(i # is) ! (?B + ?B div 2 + j * ?B) = is ! (?c + j * ?B)"
      using B by (simp add: nth_Cons')
    ultimately show ?thesis by auto
  qed
  moreover have "run uart_tick s (i # is) = Inr (s', (w, []) # outs)"
    using 2(1) 3(1) by (rule run_Cons_Inr)
  ultimately show ?thesis using 3(2,3)
    by (intro exI [of _ s'] exI [of _ "(w, []) # outs"] exI [of _ ?ch]) simp
qed

section \<open>Transmission\<close>

definition tx_at :: "nat \<Rightarrow> nat \<Rightarrow> u32 \<Rightarrow> 'a uart_line_scheme \<Rightarrow> bool" where
  "tx_at c m dat s \<longleftrightarrow> m_tx_state s = DATA \<and> m_tx_baudcounter s = int c \<and> m_tx_busy s = 2 ^ (m + 1) - 1
     \<and> m_tx_data s = dat"

lemma tx_at_view: "tx_view s = tx_view t \<Longrightarrow> tx_at c m dat s = tx_at c m dat t"
  by (simp add: tx_at_def tx_view_def)

lemma uart_wire_bit: "uart_wire s = of_bool (bit (m_tx_data s) 0)"
proof -
  have "m_tx_data s AND 1 = of_bool (bit (m_tx_data s) 0)" by (simp add: and_one_eq bit_0 odd_iff_mod_2_eq_one)
  then show ?thesis by (simp add: uart_wire_def)
qed

lemma tx_tick_hold:
  assumes "tx_at (Suc c) m dat s"
  shows "\<exists>s'. uart_tx_tick s = (s', of_bool (bit dat 0)) \<and> tx_at c m dat s'"
  using assms by (simp add: tx_at_def uart_tx_tick_def uart_wire_bit)

lemma busy_half: "(2 ^ Suc n - 1 :: int) div 2 = 2 ^ n - 1"
  by simp

lemma tx_tick_shift:
  assumes "tx_at 0 (Suc m) dat s" "uart_ok s"
  shows "\<exists>s'. uart_tx_tick s = (s', of_bool (bit dat 1)) \<and> tx_at (nat (m_baud_counts s) - 1) m (drop_bit 1 dat) s'"
proof -
  have "m_tx_busy s div 2 = 2 ^ (m + 1) - 1"
    using assms(1) busy_half [of "m + 1"] by (simp add: tx_at_def)
  moreover have "(2::int) ^ (m + 1) - 1 \<noteq> 0"
  proof -
    have "(1::int) \<le> 2 ^ m" by simp
    then show ?thesis unfolding power_add power_one_right by linarith
  qed
  moreover have "int (nat (m_baud_counts s) - 1) = m_baud_counts s - 1" using assms(2) by (auto simp: uart_ok_def)
  ultimately show ?thesis
    using assms(1) by (simp add: tx_at_def uart_tx_tick_def uart_wire_bit Let_def bit_simps)
qed

lemma tx_tick_done:
  assumes "tx_at 0 0 dat s"
  shows "\<exists>s'. uart_tx_tick s = (s', of_bool (bit dat 1)) \<and> m_tx_state s' = IDLE"
  using assms by (simp add: tx_at_def uart_tx_tick_def uart_wire_bit Let_def bit_simps)

lemma uart_tick_tx:
  assumes "uart_open s" "uart_clean i" "m_tx_state s = DATA"
    and "\<And>t. tx_view t = tx_view s \<Longrightarrow> uart_fmt t = uart_fmt s \<Longrightarrow> \<exists>t'. uart_tx_tick t = (t', w) \<and> P t'"
  shows "\<exists>s' out. uart_tick s i = Inr (s', (w, out)) \<and> uart_open s' \<and> uart_fmt s' = uart_fmt s \<and> P s'"
proof -
  obtain s1 c where 1: "uart_rx_tick (i_tx i) s = (s1, c)" by force
  note fr = uart_rx_tick_frame [OF 1]
  then obtain s2 where 2: "uart_tx_tick s1 = (s2, w)" "P s2" using assms(4) [of s1] by blast
  have "m_tx_state s1 \<noteq> IDLE" using fr assms(3) by (simp add: tx_view_def)
  then have "uart_tx_choice (event_char (readable i)) s1 = (s2, w)" using 2(1) by (simp add: uart_tx_choice_def)
  from uart_tick_clean [OF assms(1,2) 1 this] uart_tx_choice_frame [OF this] fr 2(2) show ?thesis by auto
qed

lemma div_period:
  assumes "0 < B"
  shows "Suc u div B = (if u < B - 1 then 0 else Suc ((u - (B - 1)) div B))"
proof (cases "u < B - 1")
  case True
  then show ?thesis by simp
next
  case False
  then have u: "Suc u = (u - (B - 1)) + B" using assms by simp
  have "((u - (B - 1)) + B) div B = Suc ((u - (B - 1)) div B)"
    using assms div_add_self2 [of B "u - (B - 1)"] by simp
  then have "Suc u div B = Suc ((u - (B - 1)) div B)" by (simp only: u [symmetric])
  with False show ?thesis by simp
qed

lemma uart_send_run:
  assumes "uart_open s" "uart_ok s" "tx_at c m dat s" "\<forall>i \<in> set is. uart_clean i"
    and "length is = c + m * nat (m_baud_counts s) + 1"
  shows "\<exists>s' outs. run uart_tick s is = Inr (s', outs) \<and> m_tx_state s' = IDLE
    \<and> (\<forall>t < length is. fst (outs ! t) =
         of_bool (bit dat (if t < c then 0 else Suc ((t - c) div nat (m_baud_counts s)))))"
  using assms
proof (induction "is" arbitrary: s c m dat)
  case Nil
  then show ?case by simp
next
  case (Cons i "is")
  let ?B = "nat (m_baud_counts s)"
  have clean: "uart_clean i" "\<forall>i \<in> set is. uart_clean i" using Cons.prems(4) by simp_all
  have B: "0 < ?B" using Cons.prems(2) by (auto simp: uart_ok_def)
  have data: "m_tx_state s = DATA" using Cons.prems(3) by (simp add: tx_at_def)
  consider (wait) d where "c = Suc d" | (shift) l where "c = 0" "m = Suc l" | (final) "c = 0" "m = 0"
    by (metis not0_implies_Suc)
  then show ?case
  proof cases
    case wait
    have "\<exists>t'. uart_tx_tick t = (t', of_bool (bit dat 0)) \<and> tx_at d m dat t'"
      if "tx_view t = tx_view s" for t
      using tx_tick_hold [of d m dat t] Cons.prems(3) wait tx_at_view [OF that, of c m dat] by blast
    from uart_tick_tx [OF Cons.prems(1) clean(1) data this] obtain s2 out where
      2: "uart_tick s i = Inr (s2, (of_bool (bit dat 0), out))" "uart_open s2" "uart_fmt s2 = uart_fmt s"
        "tx_at d m dat s2" by blast
    note fmt = uart_fmt_cong [OF 2(3)]
    have "length is = d + m * nat (m_baud_counts s2) + 1" using Cons.prems(5) wait fmt(3) by simp
    from Cons.IH [OF 2(2) _ 2(4) clean(2) this] obtain s' outs where
      3: "run uart_tick s2 is = Inr (s', outs)" "m_tx_state s' = IDLE"
        "\<forall>t < length is. fst (outs ! t) = of_bool (bit dat (if t < d then 0 else Suc ((t - d) div ?B)))"
      using Cons.prems(2) fmt by auto
    have "fst (((of_bool (bit dat 0), out) # outs) ! t) =
        of_bool (bit dat (if t < c then 0 else Suc ((t - c) div ?B)))" if "t < length (i # is)" for t
      using that 3(3) wait by (cases t) simp_all
    with run_Cons_Inr [of uart_tick, OF 2(1) 3(1)] 3(2) show ?thesis by blast
  next
    case shift
    have "\<exists>t'. uart_tx_tick t = (t', of_bool (bit dat 1)) \<and> tx_at (?B - 1) l (drop_bit 1 dat) t'"
      if "tx_view t = tx_view s" "uart_fmt t = uart_fmt s" for t
      using tx_tick_shift [of l dat t] that Cons.prems(2,3) shift uart_fmt_cong [OF that(2)] tx_at_view [OF that(1)]
      by simp
    from uart_tick_tx [OF Cons.prems(1) clean(1) data this] obtain s2 out where
      2: "uart_tick s i = Inr (s2, (of_bool (bit dat 1), out))" "uart_open s2" "uart_fmt s2 = uart_fmt s"
        "tx_at (?B - 1) l (drop_bit 1 dat) s2" by blast
    note fmt = uart_fmt_cong [OF 2(3)]
    have "length is = (?B - 1) + l * nat (m_baud_counts s2) + 1" using Cons.prems(5) shift fmt(3) B by simp
    from Cons.IH [OF 2(2) _ 2(4) clean(2) this] obtain s' outs where
      3: "run uart_tick s2 is = Inr (s', outs)" "m_tx_state s' = IDLE"
        "\<forall>t < length is. fst (outs ! t) =
           of_bool (bit (drop_bit 1 dat) (if t < ?B - 1 then 0 else Suc ((t - (?B - 1)) div ?B)))"
      using Cons.prems(2) fmt by auto
    have "fst (((of_bool (bit dat 1), out) # outs) ! t) =
        of_bool (bit dat (if t < c then 0 else Suc ((t - c) div ?B)))" if "t < length (i # is)" for t
    proof (cases t)
      case 0
      with shift show ?thesis by simp
    next
      case (Suc u)
      with that shift 3(3) show ?thesis by (simp add: bit_simps div_period [OF B])
    qed
    with run_Cons_Inr [of uart_tick, OF 2(1) 3(1)] 3(2) show ?thesis by blast
  next
    case final
    have "\<exists>t'. uart_tx_tick t = (t', of_bool (bit dat 1)) \<and> m_tx_state t' = IDLE"
      if "tx_view t = tx_view s" for t
      using tx_tick_done [of dat t] Cons.prems(3) final tx_at_view [OF that, of c m dat] by blast
    from uart_tick_tx [OF Cons.prems(1) clean(1) data this] obtain s2 out where
      2: "uart_tick s i = Inr (s2, (of_bool (bit dat 1), out))" "m_tx_state s2 = IDLE" by blast
    have "is = []" using Cons.prems(5) final by simp
    with 2 final show ?thesis by simp
  qed
qed

text \<open>The frame on the wire: a start bit, the data, the parity if there is one, the stop bits.\<close>

definition uart_frame :: "'a uart_line_scheme \<Rightarrow> u8 \<Rightarrow> u32" where
  "uart_frame s c = m_tx_data (uart_tx_load c s)"

lemma bit_data_mask: "bit (0x1fe :: u32) n \<longleftrightarrow> 1 \<le> n \<and> n \<le> 8"
proof -
  have m: "(0x1fe :: u32) = push_bit 1 (mask 8)" by (simp add: mask_eq_exp_minus_1)
  show ?thesis
    unfolding m by (simp only: bit_push_bit_iff bit_low_mask) auto
qed

lemma bit_ones: "bit (push_bit k (- 1) :: u32) n \<longleftrightarrow> k \<le> n \<and> n < 32"
  by (auto simp: bit_simps)

lemma bit_char: "bit (push_bit 1 (ucast (c :: u8)) AND (0x1fe :: u32)) n \<longleftrightarrow> 1 \<le> n \<and> n \<le> 8 \<and> bit c (n - 1)"
  by (simp only: bit_and_iff bit_data_mask bit_push_bit_iff bit_ucast_iff) auto

lemma uart_frame_bits:
  assumes "uart_ok s"
  shows "\<not> bit (uart_frame s c) 0"
    and "j < m_nbits s \<Longrightarrow> bit (uart_frame s c) (Suc j) = bit c j"
    and "m_nbits s + m_nparity s < n \<Longrightarrow> n < 32 \<Longrightarrow> bit (uart_frame s c) n"
proof -
  obtain p where f: "uart_frame s c = (push_bit (m_nbits s + m_nparity s + 1) (- 1) OR (push_bit 1 (ucast c) AND 0x01fe))
      OR (if m_nparity s \<noteq> 0 then push_bit (m_nbits s + m_nparity s) p else 0)"
  proof -
    let ?d = "push_bit (m_nbits s + m_nparity s + 1) (- 1) OR (push_bit 1 (ucast c) AND 0x01fe) :: u32"
    have "uart_frame s c = (if m_nparity s \<noteq> 0 then ?d OR push_bit (m_nbits s + m_nparity s) (uart_parity s ?d) else ?d)"
      by (simp only: uart_frame_def uart_tx_load_def Let_def) simp
    then show thesis using that [of "uart_parity s ?d"] by (cases "m_nparity s = 0") simp_all
  qed
  have b: "bit (uart_frame s c) n \<longleftrightarrow> (m_nbits s + m_nparity s + 1 \<le> n \<and> n < 32) \<or> (1 \<le> n \<and> n \<le> 8 \<and> bit c (n - 1))
      \<or> (m_nparity s \<noteq> 0 \<and> bit (push_bit (m_nbits s + m_nparity s) p) n)" for n
    unfolding f by (cases "m_nparity s = 0") (simp_all only: bit_or_iff bit_ones bit_char if_True if_False bit_0_eq, auto)
  have s: "5 \<le> m_nbits s" "m_nbits s \<le> 8" using assms by (simp_all add: uart_ok_def)
  show "\<not> bit (uart_frame s c) 0" using s by (simp add: b bit_push_bit_iff)
  show "bit (uart_frame s c) (Suc j) = bit c j" if "j < m_nbits s"
    using that s by (simp add: b bit_push_bit_iff) auto
  show "bit (uart_frame s c) n" if "m_nbits s + m_nparity s < n" "n < 32"
    using that by (simp add: b)
qed

text \<open>
  transmission.  An idle port that reads a character drives, for the \<open>(L + 1) B\<close> ticks from
  that one on, each bit of the frame for exactly \<open>B\<close> ticks: the start bit 0, the data bits
  least significant first, the parity bit, the stop bits; it is idle again one tick later.
  Characters that arrive meanwhile are not read.
\<close>

theorem uart_sends:
  assumes "uart_open s" "uart_ok s" "m_tx_state s = IDLE" "uart_clean i" "readable i = Got c"
    and "\<forall>i \<in> set is. uart_clean i" "length is = (uart_len s + 1) * nat (m_baud_counts s)"
  shows "\<exists>s' outs. run uart_tick s (i # is) = Inr (s', outs) \<and> m_tx_state s' = IDLE
    \<and> (\<forall>t \<le> length is. fst (outs ! t) = of_bool (bit (uart_frame s c) (t div nat (m_baud_counts s))))
    \<and> \<not> bit (uart_frame s c) 0 \<and> (\<forall>j < m_nbits s. bit (uart_frame s c) (Suc j) = bit c j)
    \<and> (\<forall>j < m_nstop s. bit (uart_frame s c) (Suc (m_nbits s + m_nparity s + j)))"
proof -
  let ?B = "nat (m_baud_counts s)" and ?L = "uart_len s"
  have B: "0 < ?B" using assms(2) by (auto simp: uart_ok_def)
  obtain s1 r where 1: "uart_rx_tick (i_tx i) s = (s1, r)" by force
  note fr = uart_rx_tick_frame [OF 1]
  have "m_tx_state s1 = IDLE" using fr assms(3) by (simp add: tx_view_def)
  then have ch: "uart_tx_choice (event_char (readable i)) s1 = (uart_tx_load c s1, 0)"
    using assms(5) by (simp add: uart_tx_choice_def event_char_def)
  have frame: "m_tx_data (uart_tx_load c s1) = uart_frame s c"
    using fr by (simp add: uart_frame_def uart_tx_load_def uart_parity_def uart_fmt_def Let_def)
  from uart_tick_clean [OF assms(1,4) 1 ch] have
    2: "uart_tick s i = Inr (uart_tx_load c s1, (0, chars_out r))" "uart_open (uart_tx_load c s1)" by blast+
  let ?s = "uart_tx_load c s1"
  have "uart_fmt ?s = uart_fmt s" using fr by simp
  note fmt = uart_fmt_cong [OF this]
  have at: "tx_at (?B - 1) ?L (uart_frame s c) ?s"
    unfolding tx_at_def frame using fr B
    by (simp add: uart_tx_load_def uart_fmt_def uart_len_def Let_def)
  have len: "length is = (?B - 1) + ?L * nat (m_baud_counts ?s) + 1" using assms(7) fmt(3) B by simp
  from uart_send_run [OF 2(2) _ at assms(6) len] obtain s' outs where
    3: "run uart_tick ?s is = Inr (s', outs)" "m_tx_state s' = IDLE"
      "\<forall>t < length is. fst (outs ! t) = of_bool (bit (uart_frame s c)
         (if t < ?B - 1 then 0 else Suc ((t - (?B - 1)) div ?B)))"
    using assms(2) fmt by auto
  have "fst (((0, chars_out r) # outs) ! t) = of_bool (bit (uart_frame s c) (t div ?B))" if "t \<le> length is" for t
  proof (cases t)
    case 0
    then show ?thesis using uart_frame_bits(1) [OF assms(2)] by simp
  next
    case (Suc u)
    with that 3(3) show ?thesis by (simp add: div_period [OF B])
  qed
  moreover have "bit (uart_frame s c) (Suc (m_nbits s + m_nparity s + j))" if "j < m_nstop s" for j
    using that assms(2) by (intro uart_frame_bits(3)) (auto simp: uart_ok_def)
  moreover have "run uart_tick s (i # is) = Inr (s', (0, chars_out r) # outs)" using 2(1) 3(1) by (rule run_Cons_Inr)
  ultimately show ?thesis
    using 3(2) uart_frame_bits(1,2) [OF assms(2)] by (intro exI [of _ s'] exI [of _ "(0, chars_out r) # outs"]) blast
qed

text \<open>The middle of bit \<open>j\<close> after the start bit, and the character that the samples make.\<close>

lemma mid_sample:
  assumes "0 < B" "j < L"
  shows "(B + B div 2 + j * B) div B = Suc j" "B + B div 2 + j * B \<le> (L + 1) * (B :: nat)"
proof -
  have "B + B div 2 + j * B = B div 2 + Suc j * B" by simp
  also have "\<dots> div B = Suc j + B div 2 div B" using assms(1) by (intro div_mult_self1) simp
  also have "B div 2 div B = 0" using assms(1) by simp
  finally show "(B + B div 2 + j * B) div B = Suc j" by simp
  have "Suc j * B \<le> L * B" using assms(2) by (intro mult_le_mono1) simp
  moreover have "B div 2 \<le> B" by simp
  ultimately show "B + B div 2 + j * B \<le> (L + 1) * B" by simp
qed

lemma sampled_char:
  fixes ch c :: u8
  assumes "uart_ok a" "\<And>j. j < 8 \<Longrightarrow> j < uart_len a \<Longrightarrow> bit ch j \<longleftrightarrow> bit (uart_frame a c) (Suc j)"
  shows "take_bit (m_nbits a) ch = take_bit (m_nbits a) c"
    and "m_nparity a = 0 \<Longrightarrow> m_nbits a < 8 \<Longrightarrow> bit ch (m_nbits a)"
proof -
  have fa: "m_nbits a \<le> 8" "m_nbits a < uart_len a" using assms(1) uart_len_bounds [OF assms(1)] by (auto simp: uart_ok_def)
  show "take_bit (m_nbits a) ch = take_bit (m_nbits a) c"
  proof (rule bit_word_eqI)
    fix n assume n: "n < LENGTH(8)"
    show "bit (take_bit (m_nbits a) ch) n = bit (take_bit (m_nbits a) c) n"
      using n fa assms(2) [of n] uart_frame_bits(2) [OF assms(1), of n c] by (auto simp: bit_take_bit_iff)
  qed
  show "bit ch (m_nbits a)" if "m_nparity a = 0" "m_nbits a < 8"
    using that fa assms(2) [of "m_nbits a"] uart_frame_bits(3) [OF assms(1), of "Suc (m_nbits a)" c] by simp
qed

text \<open>
  C7: the link.  If the wire of one port drives another port of the same format, then the
  receiver reports exactly one character whose low \<open>m_nbits\<close> bits are those of the character
  sent; with fewer than eight bits and no parity the next bit is the stop bit, not masked out.
\<close>

theorem uart_link:
  assumes "uart_open a" "uart_ok a" "m_tx_state a = IDLE" "uart_clean i" "readable i = Got c"
    and "\<forall>i \<in> set is. uart_clean i" "length is = (uart_len a + 1) * nat (m_baud_counts a)"
    and "run uart_tick a (i # is) = Inr (a', outs)"
    and "uart_open b" "uart_fmt b = uart_fmt a" "m_rx_state b = IDLE" "m_last_tx b \<noteq> 0"
    and "\<forall>j \<in> set js. uart_clean j" "length js = length outs + nat (m_baud_counts a) div 2"
    and "\<forall>t < length outs. i_tx (js ! t) = fst (outs ! t)"
  shows "\<exists>b' xs ch. run uart_tick b js = Inr (b', xs) \<and> concat (map snd xs) = [ch]
    \<and> take_bit (m_nbits a) ch = take_bit (m_nbits a) c
    \<and> (m_nparity a = 0 \<and> m_nbits a < 8 \<longrightarrow> bit ch (m_nbits a))"
proof -
  let ?B = "nat (m_baud_counts a)" and ?L = "uart_len a" and ?f = "uart_frame a c"
  have B: "0 < ?B" using assms(2) by (auto simp: uart_ok_def)
  obtain wire: "\<forall>t \<le> length is. fst (outs ! t) = of_bool (bit ?f (t div ?B))"
    using uart_sends [OF assms(1-7)] assms(8) by auto
  have lo: "length outs = Suc (length is)" using run_length [OF assms(8)] by simp
  note fmt = uart_fmt_cong [OF assms(10)]
  obtain j0 js' where js: "js = j0 # js'" using assms(14) lo by (cases js) auto
  have "i_tx (js ! 0) = 0"
    using assms(15) lo wire uart_frame_bits(1) [OF assms(2), of c] by simp
  then have j0: "i_tx j0 = 0" by (simp add: js)
  have clean: "uart_clean j0" "\<forall>j \<in> set js'. uart_clean j" using assms(13) by (simp_all add: js)
  have "length js' = ?B + ?B div 2 + ?L * ?B" using assms(7,14) lo by (simp add: js)
  then obtain b' xs ch where r: "run uart_tick b js = Inr (b', xs)" "concat (map snd xs) = [ch]"
    and bits: "\<And>j. j < 8 \<Longrightarrow> bit ch j \<longleftrightarrow> j < ?L \<and> odd (i_tx (js ! (?B + ?B div 2 + j * ?B)))"
    using uart_receives [OF assms(9) _ assms(11,12) clean j0] assms(2) fmt by (auto simp: js)
  have "bit ch j \<longleftrightarrow> bit ?f (Suc j)" if "j < 8" "j < ?L" for j
  proof -
    let ?t = "?B + ?B div 2 + j * ?B"
    have "?t div ?B = Suc j" "?t \<le> length is" using mid_sample [OF B that(2)] unfolding assms(7) by simp_all
    moreover from this have "i_tx (js ! ?t) = fst (outs ! ?t)" using assms(15) lo by simp
    ultimately show ?thesis using bits [OF that(1)] that(2) wire by simp
  qed
  note char = sampled_char [OF assms(2) this]
  show ?thesis
    using r char by (intro exI [of _ b'] exI [of _ xs] exI [of _ ch]) simp
qed

section \<open>Examples\<close>

text \<open>Two ports at 8N1 and two ticks a bit, connected to an open descriptor.\<close>

definition uart_example :: uart where
  "uart_example = \<lparr>m_setup = 2, m_nparity = 0, m_fixdp = 0, m_evenp = 0, m_nbits = 8, m_nstop = 1,
     m_baud_counts = 2, m_rx_baudcounter = 0, m_rx_state = IDLE, m_rx_busy = 0, m_rx_changectr = 0,
     m_last_tx = 1, m_tx_baudcounter = 0, m_tx_state = IDLE, m_tx_busy = 0, m_rx_data = 0,
     m_tx_data = 0, m_skt = - 1, m_conrd = 0, m_conwr = 1\<rparr>"

definition uart_quiet :: "int \<Rightarrow> uart_in" where
  "uart_quiet w = \<lparr>i_tx = w, accepted = None, written = True, readable = NotReady\<rparr>"

lemma uart_example_facts:
  "uart_open uart_example" "uart_ok uart_example" "m_tx_state uart_example = IDLE"
  "m_rx_state uart_example = IDLE" "m_last_tx uart_example \<noteq> 0" "uart_len uart_example = 9"
  "m_baud_counts uart_example = 2" "m_nbits uart_example = 8" "m_nparity uart_example = 0"
  "uart_clean (uart_quiet w)" "uart_clean (uart_quiet w\<lparr>readable := Got c\<rparr>)" "i_tx (uart_quiet w) = w"
  by (simp_all add: uart_example_def uart_open_def uart_ok_def uart_len_def uart_clean_def uart_quiet_def)

theorem uart_receives_witness:
  "\<exists>s' outs ch. run uart_tick uart_example (uart_quiet 0 # replicate 21 (uart_quiet 1)) = Inr (s', outs)
    \<and> concat (map snd outs) = [ch] \<and> bit ch 7"
proof -
  have clean: "uart_clean (uart_quiet 0)" "\<forall>i \<in> set (replicate 21 (uart_quiet 1)). uart_clean i" "i_tx (uart_quiet 0) = 0"
    by (simp_all add: uart_example_facts)
  have len: "length (replicate 21 (uart_quiet 1)) = nat (m_baud_counts uart_example) + nat (m_baud_counts uart_example) div 2
      + uart_len uart_example * nat (m_baud_counts uart_example)"
    by (simp add: uart_example_facts)
  obtain s' outs ch where r: "run uart_tick uart_example (uart_quiet 0 # replicate 21 (uart_quiet 1)) = Inr (s', outs)"
    "concat (map snd outs) = [ch]"
    and bits: "\<forall>j < 8. bit ch j \<longleftrightarrow> j < uart_len uart_example \<and> odd (i_tx ((uart_quiet 0 # replicate 21 (uart_quiet 1)) !
        (nat (m_baud_counts uart_example) + nat (m_baud_counts uart_example) div 2 + j * nat (m_baud_counts uart_example))))"
    using uart_receives [OF uart_example_facts(1,2,4,5) clean(1,2,3) len] by blast
  have "bit ch 7" using bits [rule_format, of 7] by (simp add: uart_example_facts)
  with r show ?thesis by blast
qed

theorem uart_sends_witness:
  "\<exists>s' outs. run uart_tick uart_example ((uart_quiet 1)\<lparr>readable := Got 0x41\<rparr> # replicate 20 (uart_quiet 1)) = Inr (s', outs)
    \<and> m_tx_state s' = IDLE \<and> fst (outs ! 2) = 1"
proof -
  let ?i = "(uart_quiet 1)\<lparr>readable := Got 0x41\<rparr>" and ?is = "replicate 20 (uart_quiet 1)"
  have send: "uart_clean ?i" "readable ?i = Got 0x41" "\<forall>i \<in> set ?is. uart_clean i"
    "length ?is = (uart_len uart_example + 1) * nat (m_baud_counts uart_example)"
    by (simp_all add: uart_example_facts)
  obtain s' outs where r: "run uart_tick uart_example (?i # ?is) = Inr (s', outs)" "m_tx_state s' = IDLE"
    and w: "\<forall>t \<le> length ?is. fst (outs ! t) = of_bool (bit (uart_frame uart_example 0x41) (t div nat (m_baud_counts uart_example)))"
    using uart_sends [OF uart_example_facts(1-3) send] by blast
  have "bit (uart_frame uart_example 0x41) (Suc 0)"
    using uart_frame_bits(2) [OF uart_example_facts(2), of 0 "0x41"] by (simp add: uart_example_facts)
  then have "fst (outs ! 2) = 1" using w [rule_format, of 2] by (simp add: uart_example_facts)
  with r show ?thesis by blast
qed

theorem uart_link_witness:
  "\<exists>a' outs b' xs. run uart_tick uart_example ((uart_quiet 1)\<lparr>readable := Got 0x41\<rparr> # replicate 20 (uart_quiet 1)) = Inr (a', outs)
    \<and> run uart_tick uart_example (map (\<lambda>x. uart_quiet (fst x)) outs @ [uart_quiet 1]) = Inr (b', xs)
    \<and> concat (map snd xs) = [0x41]"
proof -
  let ?i = "(uart_quiet 1)\<lparr>readable := Got 0x41\<rparr>" and ?is = "replicate 20 (uart_quiet 1)"
  have send: "uart_clean ?i" "readable ?i = Got 0x41" "\<forall>i \<in> set ?is. uart_clean i"
    "length ?is = (uart_len uart_example + 1) * nat (m_baud_counts uart_example)"
    by (simp_all add: uart_example_facts)
  have "\<exists>a' outs. run uart_tick uart_example (?i # ?is) = Inr (a', outs)"
    by (rule uart_run_returns)
  then obtain a' outs where 1: "run uart_tick uart_example (?i # ?is) = Inr (a', outs)" by blast
  let ?js = "map (\<lambda>x. uart_quiet (fst x)) outs @ [uart_quiet 1]"
  have js: "\<forall>j \<in> set ?js. uart_clean j" "length ?js = length outs + nat (m_baud_counts uart_example) div 2"
    "\<forall>t < length outs. i_tx (?js ! t) = fst (outs ! t)"
    by (auto simp: uart_example_facts nth_append)
  from uart_link [OF uart_example_facts(1-3) send 1 uart_example_facts(1) refl uart_example_facts(4,5) js]
  obtain b' xs ch where "run uart_tick uart_example ?js = Inr (b', xs)" "concat (map snd xs) = [ch]"
    "take_bit 8 ch = take_bit 8 (0x41 :: u8)" by (auto simp: uart_example_facts)
  moreover have "ch = 0x41" using \<open>take_bit 8 ch = _\<close> by (simp add: take_bit_word_eq_self)
  ultimately show ?thesis using 1 by blast
qed

end
