(* ===== verification/SdSpi.thy ===== *)
theory SdSpi
  imports Byteswap
begin

text \<open>
  The simulated SD card in SPI mode, class \<open>SDSPISIM\<close> of \<open>sim/verilated/sdspisim.cpp\<close>: its
  registers, the CRCs, the command interpreter and the pin-level tick.

  A \<open>char\<close> is a \<open>u8\<close>; where the source lets a \<open>char\<close> extend its sign into an \<open>unsigned\<close>, so
  does the model (\<open>scast\<close>).  The backing file is its contents and the position of the file
  pointer.  \<open>m_devblocks\<close>, an \<open>unsigned long\<close>, is a natural number.  The debugging printouts
  are not modelled.
\<close>

section \<open>State\<close>

datatype reset_states =
    SDSPI_POWERUP_RESET | SDSPI_CMD0_IDLE | SDSPI_RCVD_CMD8 | SDSPI_RCVD_ACMD41
  | SDSPI_RESET_COMPLETE | SDSPI_IN_OPERATION

definition SDSPI_RSPLEN :: nat where "SDSPI_RSPLEN = 8"
definition SDSPI_MAXBLKLEN :: nat where "SDSPI_MAXBLKLEN = 1 + 2048 + 2"
definition SDSPI_CSDLEN :: nat where "SDSPI_CSDLEN = 16"
definition SDSPI_CIDLEN :: nat where "SDSPI_CIDLEN = 16"
definition SD_MICROSECONDS :: int where "SD_MICROSECONDS = 80"
definition SD_MILLISECONDS :: int where "SD_MILLISECONDS = SD_MICROSECONDS * 1000"
definition tRESET :: int where "tRESET = 4 * SD_MILLISECONDS"
definition LGSECTOR_SIZE :: nat where "LGSECTOR_SIZE = 9"
definition SECTOR_SIZE :: nat where "SECTOR_SIZE = 2 ^ LGSECTOR_SIZE"
definition CCS :: int where "CCS = 1"

record sdspi =
  m_dev :: "(u8 list \<times> nat) option"
  m_devblocks :: nat
  m_last_sck :: int
  m_delay :: int
  m_mosi :: int
  m_busy :: bool
  m_debug :: bool
  m_block_address :: bool
  m_altcmd_flag :: bool
  m_syncd :: bool
  m_host_supports_high_capacity :: bool
  m_reading_data :: bool
  m_have_token :: bool
  m_reset_state :: reset_states
  m_cmdidx :: int
  m_bitpos :: u32
  m_rspidx :: nat
  m_rspdly :: int
  m_blkdly :: int
  m_blklen :: int
  m_blkidx :: nat
  m_last_miso :: int
  m_powerup_busy :: int
  m_rxloc :: nat
  m_cmdbuf :: "u8 list"
  m_dat_out :: u8
  m_dat_in :: u8
  m_rspbuf :: "u8 list"
  m_block_buf :: "u8 list"
  m_csd :: "u8 list"
  m_cid :: "u8 list"

section \<open>Checksums\<close>

text \<open>The loops of \<open>cmdcrc\<close> and \<open>blockcrc\<close>: eight shifts of a register with taps per byte.\<close>

definition crc_shift :: "u32 \<Rightarrow> u32 \<Rightarrow> u32 \<Rightarrow> u32" where
  "crc_shift msb taps fill = (if fill AND msb \<noteq> 0 then push_bit 1 fill XOR taps else push_bit 1 fill)"

fun cmdcrc_loop :: "u8 list \<Rightarrow> u32 \<Rightarrow> u32" where
  "cmdcrc_loop [] fill = fill"
| "cmdcrc_loop (b # bs) fill = cmdcrc_loop bs ((crc_shift 0x80 0x12 ^^ 8) (fill XOR scast b))"

definition cmdcrc :: "nat \<Rightarrow> u8 list \<Rightarrow> fault + u32" where
  "cmdcrc len buf = in_bounds (len \<le> length buf)
     (Inr ((cmdcrc_loop (take len buf) 0 AND 0x0fe) OR 1))"

definition check_cmdcrc :: "u8 list \<Rightarrow> fault + bool" where
  "check_cmdcrc buf = rbind (cmdcrc 5 buf) (\<lambda>fill.
     in_bounds (5 < length buf) (Inr (fill = ucast (buf ! 5))))"

fun blockcrc_loop :: "u8 list \<Rightarrow> u32 \<Rightarrow> u32" where
  "blockcrc_loop [] fill = fill"
| "blockcrc_loop (b # bs) fill =
     blockcrc_loop bs ((crc_shift 0x8000 0x1021 ^^ 8) (fill XOR push_bit 8 (ucast b)))"

definition blockcrc :: "nat \<Rightarrow> u8 list \<Rightarrow> fault + u32" where
  "blockcrc len buf = in_bounds (len \<le> length buf) (Inr (blockcrc_loop (take len buf) 0 AND 0x0ffff))"

definition add_block_crc :: "nat \<Rightarrow> u8 list \<Rightarrow> fault + u8 list" where
  "add_block_crc len buf = rbind (blockcrc len (drop 1 buf)) (\<lambda>fill.
     in_bounds (len + 2 < length buf)
       (Inr (buf[len + 1 := ucast (drop_bit 8 fill), len + 2 := ucast fill])))"

section \<open>The registers\<close>

definition sd_OCR :: "sdspi \<Rightarrow> u32" where
  "sd_OCR s = (let ocr = 0x00ff80;
                   ocr = (if CCS \<noteq> 0 then ocr OR 0x400000 else ocr)
               in if m_powerup_busy s \<noteq> 0 then ocr OR 0x800000 else ocr)"

definition LEXAR_CSD :: "u8 list" where
  "LEXAR_CSD = [0x40, 0x0e, 0x00, 0x32, 0xdb, 0x79, 0x00, 0x01, 0xd7, 0x03, 0x7f, 0x80, 0x0a, 0x40, 0x00]"

definition LEXAR_CID :: "u8 list" where
  "LEXAR_CID = [0x9c, 0x53, 0x4f, 0x4c, 0x58, 0x36, 0x34, 0x47, 0x10, 0x29, 0x80, 0x03, 0x7b, 0x01, 0x38]"

definition sd_CSD :: "sdspi \<Rightarrow> fault + sdspi" where
  "sd_CSD s =
     (let n = of_nat (m_devblocks s) :: u32;
          csd = LEXAR_CSD[7 := ucast (drop_bit 16 n AND 0x3f), 8 := ucast (drop_bit 8 n), 9 := ucast n]
      in rbind (cmdcrc 15 csd) (\<lambda>c. Inr (s\<lparr>m_csd := csd @ [ucast c]\<rparr>)))"

definition sd_CID :: "sdspi \<Rightarrow> fault + sdspi" where
  "sd_CID s = rbind (cmdcrc 15 LEXAR_CID) (\<lambda>c. Inr (s\<lparr>m_cid := LEXAR_CID @ [ucast c]\<rparr>))"

definition sd_CSD_at :: "sdspi \<Rightarrow> int \<Rightarrow> fault + u8" where
  "sd_CSD_at s index = c_assert (0 \<le> index) (c_assert (index < int SDSPI_CSDLEN)
     (in_bounds (nat index < length (m_csd s)) (Inr (m_csd s ! nat index))))"

definition sd_CID_at :: "sdspi \<Rightarrow> int \<Rightarrow> fault + u8" where
  "sd_CID_at s index = c_assert (0 \<le> index) (c_assert (index < int SDSPI_CIDLEN)
     (in_bounds (nat index < length (m_cid s)) (Inr (m_cid s ! nat index))))"

text \<open>
  The constructor, into raw storage \<open>u\<close>; \<open>m_devblocks\<close> is used by \<open>CSD()\<close> before anything
  sets it.
\<close>

definition sd_new :: "sdspi \<Rightarrow> bool \<Rightarrow> fault + sdspi" where
  "sd_new u debug =
     rbind (sd_CSD (u\<lparr>m_dev := None, m_last_sck := 1, m_block_address := (CCS = 1),
                      m_host_supports_high_capacity := False, m_powerup_busy := - 1,
                      m_reset_state := SDSPI_POWERUP_RESET\<rparr>)) (\<lambda>s.
     rbind (sd_CID s) (\<lambda>s.
     Inr (s\<lparr>m_reading_data := False, m_have_token := False, m_debug := debug\<rparr>)))"

definition sd_load :: "sdspi \<Rightarrow> u8 list option \<Rightarrow> sdspi" where
  "sd_load s file =
     (case file of None \<Rightarrow> s\<lparr>m_dev := None\<rparr>
      | Some bs \<Rightarrow> s\<lparr>m_dev := Some (bs, 0), m_devblocks := length bs div 2 ^ LGSECTOR_SIZE\<rparr>)"

text \<open>A field of the CSD register, not implemented.\<close>

definition sd_read_bitfield :: "int \<Rightarrow> int \<Rightarrow> int \<Rightarrow> u8 list \<Rightarrow> u32" where
  "sd_read_bitfield offset bits ln bitfield = 0"

section \<open>Files and buffers\<close>

definition file_read :: "u8 list \<Rightarrow> nat \<Rightarrow> nat \<Rightarrow> u8 list" where
  "file_read f pos n = take n (drop pos f)"

definition file_write :: "u8 list \<Rightarrow> nat \<Rightarrow> u8 list \<Rightarrow> u8 list" where
  "file_write f pos bs = take pos f @ replicate (pos - length f) 0 @ bs @ drop (pos + length bs) f"

definition buf_copy :: "u8 list \<Rightarrow> nat \<Rightarrow> u8 list \<Rightarrow> fault + u8 list" where
  "buf_copy buf k bs =
     in_bounds (k + length bs \<le> length buf) (Inr (take k buf @ bs @ drop (k + length bs) buf))"

definition sd_seek :: "u32 \<Rightarrow> sdspi \<Rightarrow> fault + sdspi" where
  "sd_seek arg s =
     (case m_dev s of None \<Rightarrow> Inr s
      | Some (f, pos) \<Rightarrow>
          if m_block_address s
          then c_assert (unat arg < m_devblocks s)
                 (Inr (s\<lparr>m_dev := Some (f, unat (push_bit LGSECTOR_SIZE arg))\<rparr>))
          else c_assert (unat arg < m_devblocks s * 2 ^ 9) (Inr (s\<lparr>m_dev := Some (f, unat arg)\<rparr>)))"

section \<open>The commands\<close>

text \<open>Answering with a block: the start token, the bytes, the CRC.\<close>

definition sd_send_block :: "u8 list \<Rightarrow> u8 list \<Rightarrow> nat \<Rightarrow> sdspi \<Rightarrow> fault + sdspi" where
  "sd_send_block buf bs n s =
     rbind (buf_copy (buf[0 := 0xfe]) 1 bs) (\<lambda>buf.
     rbind (add_block_crc n buf) (\<lambda>buf.
     Inr (s\<lparr>m_block_buf := buf, m_blklen := int n, m_blkidx := 0\<rparr>)))"

definition sd_acmd41 :: "u32 \<Rightarrow> sdspi \<Rightarrow> fault + sdspi" where
  "sd_acmd41 arg s =
     c_assert (m_reset_state s \<in> {SDSPI_RCVD_CMD8, SDSPI_RCVD_ACMD41, SDSPI_RESET_COMPLETE})
       (let s = (if m_powerup_busy s < 0 \<or> tRESET < m_powerup_busy s then s\<lparr>m_powerup_busy := tRESET\<rparr> else s)
        in c_assert (arg AND 0xbfffffff = 0)
          (Inr (s\<lparr>m_rspbuf := (m_rspbuf s)[0 := (if m_powerup_busy s \<noteq> 0 then 1 else 0)], m_rspdly := 2,
                  m_host_supports_high_capacity := (m_cmdbuf s ! 1 AND 0x40 \<noteq> 0),
                  m_reset_state := (if m_powerup_busy s \<noteq> 0 then SDSPI_RCVD_ACMD41
                                    else SDSPI_RESET_COMPLETE)\<rparr>)))"

definition sd_acmd51 :: "sdspi \<Rightarrow> fault + sdspi" where
  "sd_acmd51 s = rbind (sd_send_block (m_block_buf s) (take 8 (m_csd s)) 8 s)
     (\<lambda>s. Inr (s\<lparr>m_blkdly := 0, m_dat_out := 0\<rparr>))"

definition sd_alt_command :: "nat \<Rightarrow> u32 \<Rightarrow> sdspi \<Rightarrow> fault + sdspi" where
  "sd_alt_command cmd arg s =
     rbind (if cmd = 41 then sd_acmd41 arg s else if cmd = 51 then sd_acmd51 s else Inl Assertion)
       (\<lambda>s. Inr (s\<lparr>m_altcmd_flag := False\<rparr>))"

definition sd_respond :: "u8 list \<Rightarrow> int \<Rightarrow> sdspi \<Rightarrow> fault + sdspi" where
  "sd_respond bs dly s = rbind (buf_copy (m_rspbuf s) 0 bs) (\<lambda>r. Inr (s\<lparr>m_rspbuf := r, m_rspdly := dly\<rparr>))"

definition sd_respond_keep :: "u8 list \<Rightarrow> sdspi \<Rightarrow> fault + sdspi" where
  "sd_respond_keep bs s = rbind (buf_copy (m_rspbuf s) 0 bs) (\<lambda>r. Inr (s\<lparr>m_rspbuf := r\<rparr>))"

definition sd_cmd8 :: "u32 \<Rightarrow> sdspi \<Rightarrow> fault + sdspi" where
  "sd_cmd8 arg s =
     c_assert (arg AND 0xfffff000 = 0)
       (rbind (sd_respond [0, 0, 0, if arg AND 0x0f00 = 0x0100 then 1 else 0, ucast (arg AND 0xff)] 4 s) (\<lambda>s.
        c_assert (m_reset_state s \<in> {SDSPI_CMD0_IDLE, SDSPI_RCVD_CMD8})
          (Inr (s\<lparr>m_reset_state := SDSPI_RCVD_CMD8\<rparr>))))"

definition sd_cmd_register :: "u8 list \<Rightarrow> sdspi \<Rightarrow> fault + sdspi" where
  "sd_cmd_register reg s =
     c_assert (m_reset_state s = SDSPI_IN_OPERATION)
       (rbind (sd_respond_keep [0] s) (\<lambda>s.
        rbind (sd_send_block (replicate SDSPI_MAXBLKLEN 0xff) (take 16 reg) 16 s) (\<lambda>s.
        Inr (s\<lparr>m_blkdly := 60\<rparr>))))"

definition sd_cmd17 :: "u32 \<Rightarrow> sdspi \<Rightarrow> fault + sdspi" where
  "sd_cmd17 arg s =
     c_assert (m_reset_state s = SDSPI_IN_OPERATION)
       (rbind (sd_respond_keep [0] s) (\<lambda>s.
        rbind (sd_seek arg s) (\<lambda>s.
        let (bs, s) = (case m_dev s of
              None \<Rightarrow> (replicate SECTOR_SIZE 0, s)
            | Some (f, pos) \<Rightarrow> let bs = file_read f pos SECTOR_SIZE
                              in (bs, s\<lparr>m_dev := Some (f, pos + length bs)\<rparr>))
        in rbind (sd_send_block (replicate SDSPI_MAXBLKLEN 0xff) bs SECTOR_SIZE s) (\<lambda>s.
           Inr (s\<lparr>m_blkdly := 60\<rparr>)))))"

definition sd_cmd24 :: "u32 \<Rightarrow> sdspi \<Rightarrow> fault + sdspi" where
  "sd_cmd24 arg s =
     rbind (sd_seek arg s) (\<lambda>s. Inr (s\<lparr>m_reading_data := True, m_have_token := False, m_dat_out := 0\<rparr>))"

definition sd_cmd58 :: "sdspi \<Rightarrow> fault + sdspi" where
  "sd_cmd58 s =
     (let ocr = sd_OCR s in
      rbind (sd_respond [ucast (drop_bit 24 ocr), ucast (drop_bit 16 ocr), ucast (drop_bit 8 ocr), ucast ocr] 4 s) (\<lambda>s.
      Inr (if m_reset_state s = SDSPI_RESET_COMPLETE then s\<lparr>m_reset_state := SDSPI_IN_OPERATION\<rparr> else s)))"

definition sd_std_command :: "nat \<Rightarrow> u32 \<Rightarrow> sdspi \<Rightarrow> fault + sdspi" where
  "sd_std_command cmd arg s =
     (let s = s\<lparr>m_altcmd_flag := False, m_rspbuf := replicate SDSPI_RSPLEN 0xff\<rparr> in
      if cmd = 0 then rbind (sd_respond [1] 4 s) (\<lambda>s. Inr (s\<lparr>m_reset_state := SDSPI_CMD0_IDLE\<rparr>))
      else if cmd = 1 then
        c_assert (arg AND 0xbfffffff = 0)
          (rbind (sd_respond [2] 4 s) (\<lambda>s.
           Inr (s\<lparr>m_host_supports_high_capacity := (m_cmdbuf s ! 1 AND 0x40 \<noteq> 0)\<rparr>)))
      else if cmd = 8 then sd_cmd8 arg s
      else if cmd = 9 then sd_cmd_register (m_csd s) s
      else if cmd = 10 then sd_cmd_register (m_cid s) s
      else if cmd = 13 then
        c_assert (m_reset_state s = SDSPI_IN_OPERATION) (sd_respond [0, 0] 4 s)
      else if cmd = 17 then sd_cmd17 arg s
      else if cmd = 24 then sd_cmd24 arg s
      else if cmd = 55 then rbind (sd_respond [0] 2 s) (\<lambda>s. Inr (s\<lparr>m_altcmd_flag := True\<rparr>))
      else if cmd = 58 then sd_cmd58 s
      else Inl Assertion)"

definition sd_command :: "sdspi \<Rightarrow> fault + sdspi" where
  "sd_command s =
     (let s = s\<lparr>m_rspidx := 0, m_blkdly := 0, m_blkidx := SDSPI_MAXBLKLEN\<rparr>;
          arg = word_of_bytes (m_cmdbuf s ! 1) (m_cmdbuf s ! 2) (m_cmdbuf s ! 3) (m_cmdbuf s ! 4);
          cmd = unat (m_cmdbuf s ! 0 AND 0x3f)
      in rbind (check_cmdcrc (m_cmdbuf s)) (\<lambda>ok.
           c_assert ok
             (rbind (if m_altcmd_flag s then sd_alt_command cmd arg s else sd_std_command cmd arg s) (\<lambda>s.
              Inr (s\<lparr>m_cmdidx := m_cmdidx s + 1, m_blklen := m_blklen s + 3\<rparr>)))))"

section \<open>One byte\<close>

definition sd_write_done :: "sdspi \<Rightarrow> fault + sdspi" where
  "sd_write_done s =
     rbind (blockcrc SECTOR_SIZE (m_block_buf s)) (\<lambda>crc.
     let rxcrc = push_bit 8 (ucast (m_block_buf s ! SECTOR_SIZE)) OR ucast (m_block_buf s ! (SECTOR_SIZE + 1));
         s = s\<lparr>m_reading_data := False, m_have_token := False\<rparr>
     in if rxcrc = crc
        then Inr (case m_dev s of None \<Rightarrow> s\<lparr>m_dat_out := 5\<rparr>
              | Some (f, pos) \<Rightarrow> s\<lparr>m_dat_out := 5,
                  m_dev := Some (file_write f pos (take SECTOR_SIZE (m_block_buf s)), pos + SECTOR_SIZE)\<rparr>)
        else Inl Assertion)"

definition sd_data_byte :: "sdspi \<Rightarrow> fault + sdspi" where
  "sd_data_byte s =
     (if m_have_token s
      then in_bounds (m_rxloc s < length (m_block_buf s))
             (let s = s\<lparr>m_block_buf := (m_block_buf s)[m_rxloc s := m_dat_in s], m_rxloc := m_rxloc s + 1\<rparr>
              in if SECTOR_SIZE + 2 \<le> m_rxloc s then sd_write_done s else Inr s)
      else Inr (if m_dat_in s = 0xfe then s\<lparr>m_have_token := True, m_rxloc := 0\<rparr> else s))"

definition sd_byte :: "sdspi \<Rightarrow> fault + sdspi" where
  "sd_byte s =
     (let s = s\<lparr>m_dat_out := 0xff\<rparr> in
      if m_reading_data s then sd_data_byte s
      else if m_cmdidx s < 6 then
        c_assert (m_cmdidx s = 0 \<longrightarrow> m_dat_in s AND 0xc0 = 0x40)
          (in_bounds (nat (m_cmdidx s) < length (m_cmdbuf s))
            (Inr (s\<lparr>m_cmdbuf := (m_cmdbuf s)[nat (m_cmdidx s) := m_dat_in s], m_cmdidx := m_cmdidx s + 1\<rparr>)))
      else if m_cmdidx s = 6 then sd_command s
      else if 0 < m_rspdly s then
        c_assert (m_dat_in s = 0xff)
          (Inr ((if m_busy s then s\<lparr>m_dat_out := 0\<rparr> else s)\<lparr>m_rspdly := m_rspdly s - 1\<rparr>))
      else if m_rspidx s < SDSPI_RSPLEN then
        c_assert (m_dat_in s = 0xff)
          (in_bounds (m_rspidx s < length (m_rspbuf s))
            (Inr (s\<lparr>m_dat_out := m_rspbuf s ! m_rspidx s, m_rspidx := m_rspidx s + 1\<rparr>)))
      else if 0 < m_blkdly s then
        c_assert (m_dat_in s = 0xff) (Inr (s\<lparr>m_blkdly := m_blkdly s - 1\<rparr>))
      else if m_blkidx s < SDSPI_MAXBLKLEN then
        c_assert (m_dat_in s = 0xff)
          (in_bounds (m_blkidx s < length (m_block_buf s))
            (Inr (s\<lparr>m_dat_out := m_block_buf s ! m_blkidx s, m_blkidx := m_blkidx s + 1\<rparr>)))
      else Inr s)"

section \<open>One tick\<close>

definition sd_deselect :: "int \<Rightarrow> sdspi \<Rightarrow> sdspi" where
  "sd_deselect sck s =
     s\<lparr>m_delay := 0, m_cmdidx := 0, m_rspidx := 0, m_bitpos := 0, m_busy := False, m_last_sck := sck,
       m_syncd := False, m_last_miso := 1, m_dat_out := 0xff\<rparr>"

definition sd_falling :: "int \<Rightarrow> sdspi \<Rightarrow> fault + sdspi \<times> int" where
  "sd_falling sck s =
     (let s = s\<lparr>m_last_sck := sck, m_bitpos := m_bitpos s + 1,
               m_dat_in := push_bit 1 (m_dat_in s) OR of_int (m_mosi s)\<rparr>
      in rbind (if m_bitpos s AND 7 = 0 then sd_byte s else Inr s) (\<lambda>s.
           let result = (if m_dat_out s AND 0x80 \<noteq> 0 then 1 else 0)
           in Inr (s\<lparr>m_dat_out := push_bit 1 (m_dat_out s), m_delay := 0, m_last_miso := result\<rparr>, result)))"

definition sd_tick :: "sdspi \<Rightarrow> int \<times> int \<times> int \<Rightarrow> fault + sdspi \<times> int" where
  "sd_tick s p =
     (case p of (csn, sck, mosi) \<Rightarrow>
       let s = s\<lparr>m_delay := m_delay s + 1\<rparr>;
           s = (if 0 < m_powerup_busy s then s\<lparr>m_powerup_busy := m_powerup_busy s - 1\<rparr> else s)
       in if csn \<noteq> 0 then Inr (sd_deselect sck s, 0)
          else if sck = m_last_sck s then Inr (s\<lparr>m_last_sck := sck\<rparr>, m_last_miso s)
          else if m_last_sck s = 0
          then let s = s\<lparr>m_mosi := mosi, m_syncd := True, m_last_sck := sck\<rparr> in Inr (s, m_last_miso s)
          else if \<not> m_syncd s then Inr (s\<lparr>m_last_sck := sck\<rparr>, m_last_miso s)
          else sd_falling sck s)"

end
