(* ===== verification/SdCrc.thy ===== *)
theory SdCrc
  imports SdSpi
begin

text \<open>
  The two checksums of the SD card.  The locale \<open>linear_crc\<close> is the contract they share: a
  register whose step is linear over exclusive or and loses no nonzero state once a byte has
  been shifted.  Under it the checksum of two messages differs whenever the messages differ
  in one byte by an error that the register sees.  The contract is discharged for the 16-bit
  block CRC, which sees every error, and for the command CRC, which sees every single bit.

  The code keeps the registers in 32 bits; the bits above the width never come back down, so
  the low part is the register of the contract.
\<close>

section \<open>Linear checksums\<close>

lemma xor_eq_0: "a XOR b = 0 \<longleftrightarrow> a = b" for a b :: "'w::len word"
proof
  assume "a XOR b = 0"
  then have "(a XOR b) XOR b = b" by simp
  then show "a = b" by (simp add: xor.assoc)
qed simp

locale linear_crc =
  fixes step :: "'w::len word \<Rightarrow> 'w word"
    and enter :: "u8 \<Rightarrow> 'w word"
    and ok :: "'w word \<Rightarrow> bool"
  assumes step_xor: "step (a XOR b) = step a XOR step b"
    and enter_xor: "enter (x XOR y) = enter x XOR enter y"
    and step_ok: "ok (step a)"
    and step_zero: "ok a \<Longrightarrow> step a = 0 \<Longrightarrow> a = 0"
begin

definition absorb :: "'w word \<Rightarrow> u8 \<Rightarrow> 'w word" where
  "absorb r b = (step ^^ 8) (r XOR enter b)"

definition checksum :: "u8 list \<Rightarrow> 'w word" where
  "checksum bs = foldl absorb 0 bs"

definition seen :: "u8 \<Rightarrow> bool" where
  "seen e \<longleftrightarrow> (step ^^ 8) (enter e) \<noteq> 0"

lemma zero: "step 0 = 0" "enter 0 = 0"
  using step_xor [of 0 0] enter_xor [of 0 0] by simp_all

lemma steps_xor: "(step ^^ n) (a XOR b) = (step ^^ n) a XOR (step ^^ n) b"
  by (induction n) (simp_all add: step_xor)

lemma steps_ok: "ok ((step ^^ Suc n) a)"
  by (simp add: step_ok)

lemma steps_nonzero: "ok a \<Longrightarrow> a \<noteq> 0 \<Longrightarrow> (step ^^ n) a \<noteq> 0 \<and> ok ((step ^^ n) a)"
  by (induction n) (auto simp: step_ok dest: step_zero)

lemma absorb_xor: "absorb r b XOR absorb r' b' = (step ^^ 8) ((r XOR r') XOR enter (b XOR b'))"
  by (simp add: absorb_def enter_xor steps_xor ac_simps)

lemma absorb_ok: "ok (absorb r b)"
  using steps_ok [of 7 "r XOR enter b"] by (simp add: absorb_def numeral_eq_Suc)

lemma fold_differs:
  assumes "ok (r XOR r')" "r \<noteq> r'"
  shows "foldl absorb r bs \<noteq> foldl absorb r' bs"
  using assms
proof (induction bs arbitrary: r r')
  case Nil
  then show ?case by simp
next
  case (Cons b bs)
  have "absorb r b XOR absorb r' b = (step ^^ 8) (r XOR r')" by (simp add: absorb_xor zero)
  moreover have "r XOR r' \<noteq> 0" using Cons.prems(2) by (simp add: xor_eq_0)
  ultimately have "ok (absorb r b XOR absorb r' b)" "absorb r b XOR absorb r' b \<noteq> 0"
    using steps_nonzero [OF Cons.prems(1)] by simp_all
  then show ?case using Cons.IH by (auto simp: xor_eq_0)
qed

lemma detects:
  assumes "seen (x XOR y)"
  shows "checksum (as @ x # bs) \<noteq> checksum (as @ y # bs)"
proof -
  let ?r = "foldl absorb 0 as"
  have "absorb ?r x XOR absorb ?r y = (step ^^ 8) (enter (x XOR y))" by (simp add: absorb_xor)
  moreover have "ok ((step ^^ 8) (enter (x XOR y)))"
    using steps_ok [of 7 "enter (x XOR y)"] by (simp add: numeral_eq_Suc)
  moreover have "(step ^^ 8) (enter (x XOR y)) \<noteq> 0" using assms by (simp add: seen_def)
  ultimately have "ok (absorb ?r x XOR absorb ?r y)" "absorb ?r x \<noteq> absorb ?r y"
    by (auto simp: xor_eq_0)
  then show ?thesis using fold_differs by (simp add: checksum_def)
qed

end

section \<open>The registers of the code\<close>

definition reg_step :: "'w::len word \<Rightarrow> 'w word \<Rightarrow> 'w word" where
  "reg_step taps r = (if bit r (LENGTH('w) - 1) then push_bit 1 r XOR taps else push_bit 1 r)"

definition crc7_step :: "u8 \<Rightarrow> u8" where "crc7_step = reg_step 0x12"

definition crc16_step :: "u16 \<Rightarrow> u16" where "crc16_step = reg_step 0x1021"

definition crc16_enter :: "u8 \<Rightarrow> u16" where "crc16_enter b = push_bit 8 (ucast b)"

lemma reg_step_xor: "reg_step t (a XOR b) = reg_step t a XOR reg_step t b"
proof (rule bit_word_eqI)
  fix n assume "n < LENGTH('a)"
  then show "bit (reg_step t (a XOR b)) n = bit (reg_step t a XOR reg_step t b) n"
    by (cases "bit a (LENGTH('a) - 1)"; cases "bit b (LENGTH('a) - 1)")
       (simp_all add: reg_step_def bit_xor_iff bit_push_bit_iff, auto)
qed

text \<open>After a step the command register is even, and no even register but 0 steps to 0.\<close>

lemma bit_times_2: "bit (a * 2) n \<longleftrightarrow> n < LENGTH('w) \<and> n \<noteq> 0 \<and> bit a (n - 1)" for a :: "'w::len word"
proof -
  have "a * 2 = push_bit 1 a" by simp
  then show ?thesis by (simp only: bit_push_bit_iff) (auto simp: Suc_le_eq)
qed

lemma even_reg_step: "even (crc7_step a)"
proof -
  have "\<not> bit (crc7_step a) 0"
    by (auto simp: crc7_step_def reg_step_def bit_xor_iff bit_times_2)
  then show ?thesis by (simp add: bit_0)
qed

lemma shift_zero:
  fixes a :: "'w::len word"
  assumes "push_bit 1 a = 0" "\<not> bit a (LENGTH('w) - 1)"
  shows "a = 0"
proof (rule bit_word_eqI)
  fix n assume n: "n < LENGTH('w)"
  show "bit a n = bit 0 n"
  proof (cases "n = LENGTH('w) - 1")
    case True
    with assms(2) show ?thesis by simp
  next
    case False
    have "\<not> bit (push_bit 1 a) (Suc n)" using assms(1) by simp
    with n False show ?thesis by (auto simp: bit_times_2)
  qed
qed

lemma crc7_step_zero:
  assumes "even a" "crc7_step a = 0"
  shows "a = 0"
proof (cases "bit a 7")
  case True
  have eq: "crc7_step a = a * 2 XOR 0x12" using True by (simp add: crc7_step_def reg_step_def)
  have "bit (a * 2 XOR 0x12) 1 = bit (0 :: u8) 1" unfolding eq [symmetric] assms(2) ..
  moreover have "bit (0x12 :: u8) 1" by simp
  ultimately have "bit a 0" by (simp only: bit_xor_iff bit_times_2) simp
  with assms(1) show ?thesis by (simp add: bit_0)
next
  case False
  then have "crc7_step a = push_bit 1 a" by (simp add: crc7_step_def reg_step_def)
  then have "push_bit 1 a = 0" unfolding assms(2) ..
  then show ?thesis by (rule shift_zero) (use False in simp)
qed

lemma crc16_step_zero:
  assumes "crc16_step a = 0"
  shows "a = 0"
proof (cases "bit a 15")
  case True
  have eq: "crc16_step a = a * 2 XOR 0x1021" using True by (simp add: crc16_step_def reg_step_def)
  have "bit (a * 2 XOR 0x1021) 0 = bit (0 :: u16) 0" unfolding eq [symmetric] assms ..
  moreover have "bit (0x1021 :: u16) 0" by simp
  ultimately show ?thesis by (simp only: bit_xor_iff bit_times_2) simp
next
  case False
  then have "crc16_step a = push_bit 1 a" by (simp add: crc16_step_def reg_step_def)
  then have "push_bit 1 a = 0" unfolding assms ..
  then show ?thesis by (rule shift_zero) (use False in simp)
qed

interpretation crc7: linear_crc crc7_step "\<lambda>b. b" even
proof
  show "crc7_step (a XOR b) = crc7_step a XOR crc7_step b" for a b
    by (simp add: crc7_step_def reg_step_xor)
  show "x XOR y = x XOR y" for x y :: u8 ..
  show "even (crc7_step a)" for a by (rule even_reg_step)
  show "even a \<Longrightarrow> crc7_step a = 0 \<Longrightarrow> a = 0" for a by (rule crc7_step_zero)
qed

interpretation crc16: linear_crc crc16_step crc16_enter "\<lambda>_. True"
proof
  show "crc16_step (a XOR b) = crc16_step a XOR crc16_step b" for a b
    by (simp add: crc16_step_def reg_step_xor)
  show "crc16_enter (x XOR y) = crc16_enter x XOR crc16_enter y" for x y
    by (rule bit_word_eqI) (auto simp: crc16_enter_def bit_simps)
  show "crc16_step a = 0 \<Longrightarrow> a = 0" for a by (rule crc16_step_zero)
qed simp

lemma crc16_seen:
  assumes "e \<noteq> 0"
  shows "crc16.seen e"
proof -
  have "crc16_enter e \<noteq> 0"
  proof
    assume z: "crc16_enter e = 0"
    have "e = 0"
    proof (rule bit_word_eqI)
      fix n assume n: "n < LENGTH(8)"
      have "\<not> bit (crc16_enter e) (n + 8)" using z by simp
      with n show "bit e n = bit 0 n" by (simp add: crc16_enter_def bit_simps)
    qed
    with assms show False by simp
  qed
  then show ?thesis using crc16.steps_nonzero [of "crc16_enter e" 8] by (simp add: crc16.seen_def)
qed

lemma funpow8: "(f ^^ 8) x = f (f (f (f (f (f (f (f x)))))))"
  by (simp add: numeral_eq_Suc)

lemma crc7_seen_bit:
  assumes "k < 8"
  shows "crc7.seen (push_bit k 1)"
proof -
  have "k \<in> set [0..<8]" using assms by simp
  also have "[0..<8] = [0, 1, 2, 3, 4, 5, 6, 7]" by (simp add: upt_rec)
  finally have "k = 0 \<or> k = 1 \<or> k = 2 \<or> k = 3 \<or> k = 4 \<or> k = 5 \<or> k = 6 \<or> k = 7" by simp
  then show ?thesis
    unfolding crc7.seen_def unfolding funpow8 crc7_step_def by (elim disjE) (simp_all add: reg_step_def)
qed

section \<open>The code computes them\<close>

lemma and_power_bit: "x AND push_bit k 1 \<noteq> 0 \<longleftrightarrow> bit x k" for x :: u32
  using bit_iff_and_push_bit_not_eq_0 [of x k] by blast

lemma crc_shift_7: "(ucast (crc_shift 0x80 0x12 f) :: u8) = crc7_step (ucast f)"
proof -
  have "f AND 0x80 \<noteq> 0 \<longleftrightarrow> bit f 7" using and_power_bit [of f 7] by simp
  moreover have "(ucast (push_bit 1 f XOR 0x12) :: u8) = push_bit 1 (ucast f) XOR 0x12"
    "(ucast (push_bit 1 f) :: u8) = push_bit 1 (ucast f)"
    by (rule bit_word_eqI, auto simp: bit_simps bit_times_2)+
  ultimately show ?thesis
    by (simp only: crc_shift_def crc7_step_def reg_step_def bit_ucast_iff) simp
qed

lemma crc_shift_16: "(ucast (crc_shift 0x8000 0x1021 f) :: u16) = crc16_step (ucast f)"
proof -
  have "f AND 0x8000 \<noteq> 0 \<longleftrightarrow> bit f 15" using and_power_bit [of f 15] by simp
  moreover have "(ucast (push_bit 1 f XOR 0x1021) :: u16) = push_bit 1 (ucast f) XOR 0x1021"
    "(ucast (push_bit 1 f) :: u16) = push_bit 1 (ucast f)"
    by (rule bit_word_eqI, auto simp: bit_simps bit_times_2)+
  ultimately show ?thesis
    by (simp only: crc_shift_def crc16_step_def reg_step_def bit_ucast_iff) simp
qed

lemma crc_shifts_7: "(ucast ((crc_shift 0x80 0x12 ^^ n) f) :: u8) = (crc7_step ^^ n) (ucast f)"
  by (induction n) (simp_all add: crc_shift_7)

lemma crc_shifts_16: "(ucast ((crc_shift 0x8000 0x1021 ^^ n) f) :: u16) = (crc16_step ^^ n) (ucast f)"
  by (induction n) (simp_all add: crc_shift_16)

lemma cmdcrc_loop_crc7: "(ucast (cmdcrc_loop bs fill) :: u8) = foldl crc7.absorb (ucast fill) bs"
proof (induction bs arbitrary: fill)
  case Nil
  then show ?case by simp
next
  case (Cons b bs)
  have "(ucast (fill XOR scast b) :: u8) = ucast fill XOR b"
  proof (rule bit_word_eqI)
    fix n assume "n < LENGTH(8)"
    then have "n = 7 \<or> n < 7" by auto
    then show "bit (ucast (fill XOR scast b) :: u8) n = bit (ucast fill XOR b) n"
      by (auto simp: bit_simps min_def)
  qed
  then show ?case by (simp add: Cons.IH crc7.absorb_def crc_shifts_7)
qed

lemma blockcrc_loop_crc16: "(ucast (blockcrc_loop bs fill) :: u16) = foldl crc16.absorb (ucast fill) bs"
proof (induction bs arbitrary: fill)
  case Nil
  then show ?case by simp
next
  case (Cons b bs)
  have "(ucast (fill XOR push_bit 8 (ucast b)) :: u16) = ucast fill XOR crc16_enter b"
    by (rule bit_word_eqI) (auto simp: crc16_enter_def bit_simps)
  then show ?case by (simp add: Cons.IH crc16.absorb_def crc_shifts_16)
qed

lemma checksum_even: "even (crc7.checksum bs)"
proof (cases bs rule: rev_cases)
  case Nil
  then show ?thesis by (simp add: crc7.checksum_def)
next
  case (snoc as b)
  then show ?thesis using crc7.absorb_ok [of "foldl crc7.absorb 0 as" b] by (simp add: crc7.checksum_def)
qed

lemma cmdcrc_checksum:
  assumes "len \<le> length buf"
  shows "cmdcrc len buf = Inr (ucast (crc7.checksum (take len buf) OR 1))"
proof -
  let ?f = "cmdcrc_loop (take len buf) 0"
  have c: "(ucast ?f :: u8) = crc7.checksum (take len buf)"
    by (simp add: cmdcrc_loop_crc7 crc7.checksum_def)
  have m: "(0xfe :: u32) = push_bit 1 (mask 7)" by (simp add: mask_eq_exp_minus_1)
  have "(?f AND 0xfe) OR 1 = ucast ((ucast ?f :: u8) OR 1)"
    unfolding m
    by (rule bit_word_eqI) (simp only: bit_or_iff bit_and_iff bit_push_bit_iff bit_low_mask bit_ucast_iff bit_1_iff, auto)
  with assms show ?thesis by (simp add: cmdcrc_def c)
qed

lemma blockcrc_checksum:
  assumes "len \<le> length buf"
  shows "blockcrc len buf = Inr (ucast (crc16.checksum (take len buf)))"
proof -
  let ?f = "blockcrc_loop (take len buf) 0"
  have c: "(ucast ?f :: u16) = crc16.checksum (take len buf)"
    by (simp add: blockcrc_loop_crc16 crc16.checksum_def)
  have m: "(0xffff :: u32) = mask 16" by (simp add: mask_eq_exp_minus_1)
  have "?f AND 0xffff = ucast (ucast ?f :: u16)"
    unfolding m by (rule bit_word_eqI) (simp only: bit_and_iff bit_low_mask bit_ucast_iff, auto)
  with assms show ?thesis by (simp add: blockcrc_def c)
qed

section \<open>Errors detected\<close>

lemma ucast_half_word: "(ucast (ucast (h :: u16) :: u32) :: u16) = h"
  by (rule bit_word_eqI) (auto simp: bit_simps)

lemma take_update:
  assumes "i < n" "n \<le> length xs"
  shows "take n (xs[i := x]) = take i xs @ x # take (n - Suc i) (drop (Suc i) xs)"
proof -
  have "n - i = Suc (n - Suc i)" using assms(1) by simp
  with assms show ?thesis by (simp add: upd_conv_take_nth_drop min_def)
qed

lemma crc7_differs:
  assumes "i < n" "n \<le> length buf" "k < 8"
  shows "crc7.checksum (take n (buf[i := buf ! i XOR push_bit k 1])) \<noteq> crc7.checksum (take n buf)"
proof -
  let ?b = "buf ! i" and ?e = "push_bit k 1 :: u8"
  have split: "take n (buf[i := x]) = take i buf @ x # take (n - Suc i) (drop (Suc i) buf)" for x
    using assms(1,2) by (rule take_update)
  have "crc7.seen ((?b XOR ?e) XOR ?b)" using crc7_seen_bit [OF assms(3)] by (simp add: xor.commute flip: xor.assoc)
  from crc7.detects [OF this] show ?thesis
    using split [of "?b XOR ?e"] split [of ?b] by simp
qed

lemma crc16_differs:
  assumes "i < n" "n \<le> length buf" "x \<noteq> buf ! i"
  shows "crc16.checksum (take n (buf[i := x])) \<noteq> crc16.checksum (take n buf)"
proof -
  have split: "take n (buf[i := y]) = take i buf @ y # take (n - Suc i) (drop (Suc i) buf)" for y
    using assms(1,2) by (rule take_update)
  have "x XOR buf ! i \<noteq> 0" using assms(3) by (simp add: xor_eq_0)
  then have "crc16.seen (x XOR buf ! i)" by (rule crc16_seen)
  from crc16.detects [OF this] show ?thesis
    using split [of x] split [of "buf ! i"] by simp
qed

text \<open>
  the command CRC.  A command that the card accepts is refused after any one of its 48
  bits is flipped.
\<close>

theorem sd_command_crc_bit_error:
  assumes "length c = 6" "check_cmdcrc c = Inr True" "i < 6" "k < 8"
  shows "check_cmdcrc (c[i := c ! i XOR push_bit k 1]) = Inr False"
proof -
  let ?e = "push_bit k 1 :: u8" and ?c = "c[i := c ! i XOR push_bit k 1]"
  have bit_e: "bit ?e k" using assms(4) by (simp only: bit_push_bit_iff) simp
  have "?e \<noteq> 0"
  proof
    assume "?e = 0"
    with bit_e have "bit (0 :: u8) k" by (simp only:)
    then show False by simp
  qed
  have e: "c ! i XOR ?e \<noteq> c ! i"
  proof
    assume "c ! i XOR ?e = c ! i"
    then have "c ! i XOR (c ! i XOR ?e) = c ! i XOR c ! i" by simp
    then have "?e = 0" by (simp only: xor.assoc [symmetric] xor_self_eq xor.left_neutral)
    with \<open>?e \<noteq> 0\<close> show False by contradiction
  qed
  have ok: "(ucast (crc7.checksum (take 5 c) OR 1) :: u32) = ucast (c ! 5)"
    using assms(1,2) by (simp add: check_cmdcrc_def cmdcrc_checksum)
  then have c5: "crc7.checksum (take 5 c) OR 1 = c ! 5"
    by (metis ucast_byte_word)
  have new: "check_cmdcrc ?c = Inr (crc7.checksum (take 5 ?c) OR 1 = ?c ! 5)"
    using assms(1) by (auto simp: check_cmdcrc_def cmdcrc_checksum) (metis ucast_byte_word)
  show ?thesis
  proof (cases "i = 5")
    case True
    then have "take 5 ?c = take 5 c" "?c ! 5 = c ! 5 XOR ?e" using assms(1) by simp_all
    with new c5 e True show ?thesis by simp
  next
    case False
    with assms(3) have i: "i < 5" by simp
    then have "crc7.checksum (take 5 ?c) \<noteq> crc7.checksum (take 5 c)"
      using assms(1,4) by (intro crc7_differs) simp_all
    moreover have "x OR 1 = y OR 1 \<Longrightarrow> even x \<Longrightarrow> even y \<Longrightarrow> x = y" for x y :: u8
    proof (rule bit_word_eqI)
      fix n assume "x OR 1 = y OR 1" "even x" "even y"
      then have "bit (x OR 1) n = bit (y OR 1) n" "\<not> bit x 0" "\<not> bit y 0" by (simp_all add: bit_0)
      then show "bit x n = bit y n" by (cases "n = 0") (simp_all add: bit_or_iff bit_1_iff)
    qed
    ultimately have "crc7.checksum (take 5 ?c) OR 1 \<noteq> crc7.checksum (take 5 c) OR 1"
      using checksum_even by blast
    moreover have "?c ! 5 = c ! 5" using i by simp
    ultimately show ?thesis using new c5 by simp
  qed
qed

theorem sd_command_crc_bit_error_witness:
  "check_cmdcrc ([0x40, 0, 0, 0, 0, 0x95] [0 := 0x41]) = Inr False"
proof -
  have "check_cmdcrc [0x40, 0, 0, 0, 0, 0x95] = Inr True"
    by (simp add: check_cmdcrc_def cmdcrc_def funpow8 crc_shift_def)
  from sd_command_crc_bit_error [OF _ this, of 0 0] show ?thesis by simp
qed

text \<open>
  the block CRC.  Changing any one of the bytes under the checksum, in any way, changes the
  checksum.
\<close>

theorem sd_blockcrc_byte_error:
  assumes "i < len" "len \<le> length buf" "x \<noteq> buf ! i"
  shows "blockcrc len (buf[i := x]) \<noteq> blockcrc len buf"
proof -
  have "crc16.checksum (take len (buf[i := x])) \<noteq> crc16.checksum (take len buf)"
    using assms by (rule crc16_differs)
  moreover have "(ucast (a :: u16) :: u32) = ucast b \<longleftrightarrow> a = b" for a b
    by (metis ucast_half_word)
  ultimately show ?thesis using assms(2) by (simp add: blockcrc_checksum)
qed

theorem sd_blockcrc_byte_error_witness:
  "blockcrc 2 ([0x31, 0x32] [1 := 0x33]) \<noteq> blockcrc 2 [0x31, 0x32]"
  by (rule sd_blockcrc_byte_error) simp_all

end
