(* ===== verification/SdBlock.thy ===== *)
theory SdBlock
  imports SdCrc
begin

text \<open>
  The SD card over its SPI pins and as a block device: the order of the reset sequence, the
  byte protocol of a command, and the contents of the backing file after a block is written
  and of the answer when it is read.
\<close>

section \<open>The reset sequence\<close>

definition reset_rank :: "reset_states \<Rightarrow> nat" where
  "reset_rank r = (case r of SDSPI_POWERUP_RESET \<Rightarrow> 0 | SDSPI_CMD0_IDLE \<Rightarrow> 1 | SDSPI_RCVD_CMD8 \<Rightarrow> 2
     | SDSPI_RCVD_ACMD41 \<Rightarrow> 3 | SDSPI_RESET_COMPLETE \<Rightarrow> 4 | SDSPI_IN_OPERATION \<Rightarrow> 5)"

lemma reset_rank_inj: "reset_rank a = reset_rank b \<Longrightarrow> a = b"
  by (cases a; cases b) (simp_all add: reset_rank_def)

text \<open>The states in the order of their declaration.\<close>

instantiation reset_states :: linorder
begin

definition less_eq_reset_states :: "reset_states \<Rightarrow> reset_states \<Rightarrow> bool" where
  "a \<le> b \<longleftrightarrow> reset_rank a \<le> reset_rank b"

definition less_reset_states :: "reset_states \<Rightarrow> reset_states \<Rightarrow> bool" where
  "a < b \<longleftrightarrow> reset_rank a < reset_rank b"

instance
  by standard (auto simp: less_eq_reset_states_def less_reset_states_def dest: reset_rank_inj)

end

lemmas reset_order = less_eq_reset_states_def less_reset_states_def reset_rank_def

text \<open>The transitions the card allows, by command number.\<close>

inductive reset_step :: "reset_states \<Rightarrow> reset_states \<Rightarrow> bool" where
  stay: "reset_step r r"
| go_idle: "reset_step r SDSPI_CMD0_IDLE"
| send_if_cond: "r \<in> {SDSPI_CMD0_IDLE, SDSPI_RCVD_CMD8} \<Longrightarrow> reset_step r SDSPI_RCVD_CMD8"
| op_cond: "r \<in> {SDSPI_RCVD_CMD8, SDSPI_RCVD_ACMD41, SDSPI_RESET_COMPLETE} \<Longrightarrow>
    r' \<in> {SDSPI_RCVD_ACMD41, SDSPI_RESET_COMPLETE} \<Longrightarrow> reset_step r r'"
| read_ocr: "reset_step SDSPI_RESET_COMPLETE SDSPI_IN_OPERATION"

inductive_cases reset_stepE: "reset_step r r'"
inductive_simps reset_step_in_operation: "reset_step r SDSPI_IN_OPERATION"

lemma buf_copy_frame: "buf_copy buf k bs = Inr buf' \<Longrightarrow> length buf' = length buf"
  by (auto simp: buf_copy_def)

lemma sd_respond_reset: "sd_respond bs d s = Inr s' \<Longrightarrow> m_reset_state s' = m_reset_state s"
  by (auto simp: sd_respond_def)

lemma sd_respond_keep_reset: "sd_respond_keep bs s = Inr s' \<Longrightarrow> m_reset_state s' = m_reset_state s"
  by (auto simp: sd_respond_keep_def)

lemma sd_send_block_reset: "sd_send_block buf bs n s = Inr s' \<Longrightarrow> m_reset_state s' = m_reset_state s"
  by (auto simp: sd_send_block_def)

lemma sd_seek_reset: "sd_seek arg s = Inr s' \<Longrightarrow> m_reset_state s' = m_reset_state s"
  by (auto simp: sd_seek_def split: option.splits if_splits)

lemmas sd_resets = sd_respond_reset sd_respond_keep_reset sd_send_block_reset sd_seek_reset

lemma sd_alt_command_reset:
  "sd_alt_command cmd arg s = Inr s' \<Longrightarrow> reset_step (m_reset_state s) (m_reset_state s')"
  by (auto simp: sd_alt_command_def sd_acmd41_def sd_acmd51_def Let_def split: if_splits
      dest!: sd_resets intro: reset_step.intros)

lemma sd_cmd17_reset: "sd_cmd17 arg s = Inr s' \<Longrightarrow> m_reset_state s' = m_reset_state s"
  by (auto simp: sd_cmd17_def Let_def split: option.splits dest!: sd_resets)

lemma sd_std_command_reset:
  assumes "sd_std_command cmd arg s = Inr s'"
  shows "reset_step (m_reset_state s) (m_reset_state s')"
proof -
  have "m_reset_state s' = m_reset_state s
      \<or> m_reset_state s' = SDSPI_CMD0_IDLE
      \<or> (m_reset_state s \<in> {SDSPI_CMD0_IDLE, SDSPI_RCVD_CMD8} \<and> m_reset_state s' = SDSPI_RCVD_CMD8)
      \<or> (m_reset_state s = SDSPI_RESET_COMPLETE \<and> m_reset_state s' = SDSPI_IN_OPERATION)"
    using assms unfolding sd_std_command_def Let_def
    by (auto simp: sd_cmd8_def sd_cmd_register_def sd_cmd24_def sd_cmd58_def Let_def
        split: if_splits dest!: sd_resets sd_cmd17_reset)
  then show ?thesis by (auto intro: reset_step.intros)
qed

lemma sd_command_reset: "sd_command s = Inr s' \<Longrightarrow> reset_step (m_reset_state s) (m_reset_state s')"
  by (auto simp: sd_command_def Let_def split: if_splits dest!: sd_alt_command_reset sd_std_command_reset)

lemma sd_data_byte_reset: "sd_data_byte s = Inr s' \<Longrightarrow> m_reset_state s' = m_reset_state s"
  by (auto simp: sd_data_byte_def sd_write_done_def Let_def split: if_splits option.splits)

lemma sd_byte_reset: "sd_byte s = Inr s' \<Longrightarrow> reset_step (m_reset_state s) (m_reset_state s')"
  by (auto simp: sd_byte_def Let_def split: if_splits dest!: sd_data_byte_reset sd_command_reset
      intro: reset_step.stay)

lemma sd_tick_reset:
  assumes "sd_tick s p = Inr (s', x)"
  shows "reset_step (m_reset_state s) (m_reset_state s')"
proof -
  obtain csn sck mosi where p: "p = (csn, sck, mosi)" by (cases p)
  show ?thesis
    using assms
    by (auto simp: p sd_tick_def sd_falling_def sd_deselect_def Let_def split: if_splits
        dest!: sd_byte_reset intro: reset_step.stay)
qed

text \<open>The reset sequence cannot jump over receiving CMD8 nor over completion.\<close>

lemma reset_cut:
  assumes "reset_step r r'" "goal \<in> {SDSPI_RCVD_CMD8, SDSPI_RESET_COMPLETE}" "r < goal" "goal \<le> r'"
  shows "r' = goal"
  using assms by (elim reset_stepE) (auto simp: reset_order)

lemma sd_run_crosses:
  assumes "run sd_tick s ps = Inr (s', xs)" "goal \<in> {SDSPI_RCVD_CMD8, SDSPI_RESET_COMPLETE}"
    and "m_reset_state s < goal" "goal \<le> m_reset_state s'"
  shows "\<exists>qs rs s1 ys zs. ps = qs @ rs \<and> run sd_tick s qs = Inr (s1, ys) \<and> m_reset_state s1 = goal
    \<and> run sd_tick s1 rs = Inr (s', zs)"
  using assms
proof (induction ps arbitrary: s xs)
  case Nil
  then show ?case by (auto simp: reset_order)
next
  case (Cons p ps)
  from Cons.prems(1) obtain s1 x ys where 1: "sd_tick s p = Inr (s1, x)" "run sd_tick s1 ps = Inr (s', ys)"
    by (auto split: prod.splits)
  show ?case
  proof (cases "m_reset_state s1 < goal")
    case True
    from Cons.IH [OF 1(2) Cons.prems(2) True Cons.prems(4)] obtain qs rs s2 ys' zs where
      2: "ps = qs @ rs" "run sd_tick s1 qs = Inr (s2, ys')" "m_reset_state s2 = goal" "run sd_tick s2 rs = Inr (s', zs)"
      by blast
    have "run sd_tick s (p # qs) = Inr (s2, x # ys')" using 1(1) 2(2) by (rule run_Cons_Inr)
    with 2 show ?thesis by (metis append_Cons)
  next
    case False
    then have "m_reset_state s1 = goal"
      using reset_cut [OF sd_tick_reset [OF 1(1)] Cons.prems(2,3)] by simp
    moreover have "run sd_tick s [p] = Inr (s1, [x])" using 1(1) by simp
    ultimately show ?thesis using 1(2) by (metis append_Cons append_Nil)
  qed
qed

text \<open>
  C32: the reset sequence.  Whatever is driven on the pins, a card that has not yet received
  CMD8 and ends up in operation has, in between and in this order, received CMD8 and completed
  its reset.
\<close>

theorem sd_reset_sequence:
  assumes "run sd_tick s ps = Inr (s', xs)" "m_reset_state s < SDSPI_RCVD_CMD8"
    and "m_reset_state s' = SDSPI_IN_OPERATION"
  shows "\<exists>p1 p2 p3 s1 s2 y1 y2 y3. ps = p1 @ p2 @ p3
    \<and> run sd_tick s p1 = Inr (s1, y1) \<and> m_reset_state s1 = SDSPI_RCVD_CMD8
    \<and> run sd_tick s1 p2 = Inr (s2, y2) \<and> m_reset_state s2 = SDSPI_RESET_COMPLETE
    \<and> run sd_tick s2 p3 = Inr (s', y3)"
proof -
  have le: "SDSPI_RCVD_CMD8 \<le> m_reset_state s'" "SDSPI_RESET_COMPLETE \<le> m_reset_state s'"
    "SDSPI_RCVD_CMD8 < SDSPI_RESET_COMPLETE" using assms(3) by (simp_all add: reset_order)
  obtain p1 rs s1 y1 zs where 1: "ps = p1 @ rs" "run sd_tick s p1 = Inr (s1, y1)" "m_reset_state s1 = SDSPI_RCVD_CMD8"
    "run sd_tick s1 rs = Inr (s', zs)"
    using sd_run_crosses [OF assms(1) _ assms(2) le(1)] by blast
  have "m_reset_state s1 < SDSPI_RESET_COMPLETE" using 1(3) le(3) by simp
  from sd_run_crosses [OF 1(4) _ this le(2)] 1 show ?thesis by blast
qed

section \<open>Memory safety\<close>

definition sd_wf :: "sdspi \<Rightarrow> bool" where
  "sd_wf s \<longleftrightarrow> length (m_cmdbuf s) = 8 \<and> length (m_rspbuf s) = SDSPI_RSPLEN
     \<and> length (m_block_buf s) = SDSPI_MAXBLKLEN \<and> length (m_csd s) = SDSPI_CSDLEN
     \<and> length (m_cid s) = SDSPI_CIDLEN \<and> 0 \<le> m_cmdidx s
     \<and> (m_reading_data s \<and> m_have_token s \<longrightarrow> m_rxloc s < SECTOR_SIZE + 2)"

lemmas sd_sizes = SDSPI_RSPLEN_def SDSPI_MAXBLKLEN_def SDSPI_CSDLEN_def SDSPI_CIDLEN_def SECTOR_SIZE_def
  LGSECTOR_SIZE_def

lemma safe_buf_copy:
  "k + length bs \<le> length buf \<Longrightarrow> safe (\<lambda>b. length b = length buf) (buf_copy buf k bs)"
  by (simp add: buf_copy_def)

lemma safe_respond:
  assumes "sd_wf s" "length bs \<le> SDSPI_RSPLEN"
  shows "safe sd_wf (sd_respond bs d s)" "safe sd_wf (sd_respond_keep bs s)"
  using assms by (auto simp: sd_respond_def sd_respond_keep_def sd_wf_def buf_copy_def)

lemma safe_add_block_crc:
  "n + 2 < length buf \<Longrightarrow> safe (\<lambda>b. length b = length buf) (add_block_crc n buf)"
  by (auto simp: add_block_crc_def blockcrc_def in_bounds_def)

lemma safe_send_block:
  assumes "sd_wf s" "length buf = SDSPI_MAXBLKLEN" "length bs \<le> 2050" "n \<le> 2048"
  shows "safe sd_wf (sd_send_block buf bs n s)"
  using assms
  by (auto simp: sd_send_block_def buf_copy_def add_block_crc_def blockcrc_def sd_wf_def sd_sizes)

lemma safe_seek: "sd_wf s \<Longrightarrow> safe sd_wf (sd_seek arg s)"
  by (auto simp: sd_seek_def sd_wf_def c_assert_def split: option.split)

lemma sd_wf_frame [simp]:
  "sd_wf (s\<lparr>m_rspdly := a\<rparr>) = sd_wf s" "sd_wf (s\<lparr>m_reset_state := r\<rparr>) = sd_wf s"
  "sd_wf (s\<lparr>m_blkdly := a\<rparr>) = sd_wf s" "sd_wf (s\<lparr>m_dat_out := d\<rparr>) = sd_wf s"
  "sd_wf (s\<lparr>m_altcmd_flag := b\<rparr>) = sd_wf s" "sd_wf (s\<lparr>m_dev := v\<rparr>) = sd_wf s"
  "sd_wf (s\<lparr>m_powerup_busy := a\<rparr>) = sd_wf s" "sd_wf (s\<lparr>m_host_supports_high_capacity := b\<rparr>) = sd_wf s"
  "sd_wf (s\<lparr>m_blklen := a\<rparr>) = sd_wf s" "sd_wf (s\<lparr>m_rspidx := n\<rparr>) = sd_wf s"
  "sd_wf (s\<lparr>m_blkidx := n\<rparr>) = sd_wf s" "sd_wf (s\<lparr>m_delay := a\<rparr>) = sd_wf s"
  "sd_wf (s\<lparr>m_last_sck := a\<rparr>) = sd_wf s" "sd_wf (s\<lparr>m_mosi := a\<rparr>) = sd_wf s"
  "sd_wf (s\<lparr>m_syncd := b\<rparr>) = sd_wf s" "sd_wf (s\<lparr>m_bitpos := w\<rparr>) = sd_wf s"
  "sd_wf (s\<lparr>m_dat_in := d\<rparr>) = sd_wf s" "sd_wf (s\<lparr>m_last_miso := a\<rparr>) = sd_wf s"
  "sd_wf (s\<lparr>m_busy := b\<rparr>) = sd_wf s"
  by (simp_all add: sd_wf_def)

lemma safe_acmd41: "sd_wf s \<Longrightarrow> safe sd_wf (sd_acmd41 arg s)"
  by (auto simp: sd_acmd41_def Let_def intro!: safe_c_assert) (auto simp: sd_wf_def)

lemma safe_acmd51: "sd_wf s \<Longrightarrow> safe sd_wf (sd_acmd51 s)"
  unfolding sd_acmd51_def
  by (rule safe_rbind [OF safe_send_block]) (auto simp: sd_wf_def)

lemma safe_alt_command: "sd_wf s \<Longrightarrow> safe sd_wf (sd_alt_command cmd arg s)"
  unfolding sd_alt_command_def
  by (rule safe_rbind [where P = sd_wf]) (auto simp: safe_acmd41 safe_acmd51)

lemma safe_cmd8: "sd_wf s \<Longrightarrow> safe sd_wf (sd_cmd8 arg s)"
  unfolding sd_cmd8_def
  by (intro safe_c_assert safe_rbind [OF safe_respond(1)]) (auto simp: SDSPI_RSPLEN_def intro!: safe_c_assert)

lemma safe_cmd_register: "sd_wf s \<Longrightarrow> safe sd_wf (sd_cmd_register reg s)"
  unfolding sd_cmd_register_def
  by (intro safe_c_assert safe_rbind [OF safe_respond(2)] safe_rbind [OF safe_send_block])
     (auto simp: SDSPI_RSPLEN_def)

lemma safe_cmd17: "sd_wf s \<Longrightarrow> safe sd_wf (sd_cmd17 arg s)"
  unfolding sd_cmd17_def
proof (intro safe_c_assert safe_rbind [OF safe_respond(2)] safe_rbind [OF safe_seek])
  fix t assume "sd_wf t"
  then show "safe sd_wf (let (bs, s) = (case m_dev t of None \<Rightarrow> (replicate SECTOR_SIZE 0, t)
        | Some (f, pos) \<Rightarrow> let bs = file_read f pos SECTOR_SIZE in (bs, t\<lparr>m_dev := Some (f, pos + length bs)\<rparr>))
      in rbind (sd_send_block (replicate SDSPI_MAXBLKLEN 0xff) bs SECTOR_SIZE s) (\<lambda>s. Inr (s\<lparr>m_blkdly := 60\<rparr>)))"
    by (cases "m_dev t")
       (auto simp: Let_def sd_sizes file_read_def intro!: safe_rbind [OF safe_send_block])
qed (auto simp: SDSPI_RSPLEN_def)

lemma safe_cmd58: "sd_wf s \<Longrightarrow> safe sd_wf (sd_cmd58 s)"
  unfolding sd_cmd58_def Let_def
  by (rule safe_rbind [OF safe_respond(1)]) (auto simp: SDSPI_RSPLEN_def)

lemma safe_cmd24: "sd_wf s \<Longrightarrow> safe sd_wf (sd_cmd24 arg s)"
  unfolding sd_cmd24_def
  by (rule safe_rbind [OF safe_seek]) (auto simp: sd_wf_def)

lemma safe_std_command:
  assumes "sd_wf s"
  shows "safe sd_wf (sd_std_command cmd arg s)"
proof -
  let ?s = "s\<lparr>m_altcmd_flag := False, m_rspbuf := replicate SDSPI_RSPLEN 0xff\<rparr>"
  have s: "sd_wf ?s" using assms by (simp add: sd_wf_def)
  have r: "safe sd_wf (rbind (sd_respond bs d ?s) f)" if "length bs \<le> 8" "\<And>t. sd_wf t \<Longrightarrow> safe sd_wf (f t)" for bs d f
    using that s by (intro safe_rbind [OF safe_respond(1)]) (simp_all add: SDSPI_RSPLEN_def)
  have r13: "safe sd_wf (sd_respond [0, 0] 4 ?s)" using s by (intro safe_respond) (simp_all add: SDSPI_RSPLEN_def)
  show ?thesis
    unfolding sd_std_command_def Let_def
    using safe_cmd8 [OF s] safe_cmd_register [OF s] safe_cmd17 [OF s] safe_cmd24 [OF s] safe_cmd58 [OF s] r13
    by (auto intro!: safe_c_assert r)
qed

lemma safe_command:
  assumes "sd_wf s"
  shows "safe sd_wf (sd_command s)"
proof -
  let ?s = "s\<lparr>m_rspidx := 0, m_blkdly := 0, m_blkidx := SDSPI_MAXBLKLEN\<rparr>"
  have s: "sd_wf ?s" using assms by simp
  have crc: "safe (\<lambda>_. True) (check_cmdcrc (m_cmdbuf ?s))"
    using assms by (simp add: check_cmdcrc_def cmdcrc_def sd_wf_def)
  have fin: "sd_wf (t\<lparr>m_cmdidx := m_cmdidx t + 1, m_blklen := m_blklen t + 3\<rparr>)" if "sd_wf t" for t
    using that by (simp add: sd_wf_def)
  show ?thesis
    unfolding sd_command_def Let_def
    by (rule safe_rbind [OF crc], rule safe_c_assert, rule safe_rbind [where P = sd_wf])
       (use s fin safe_alt_command safe_std_command in \<open>auto simp del: sd_wf_frame\<close>)
qed

lemma safe_data_byte:
  assumes "sd_wf s" "m_reading_data s"
  shows "safe sd_wf (sd_data_byte s)"
proof (cases "m_have_token s")
  case True
  let ?s = "s\<lparr>m_block_buf := (m_block_buf s)[m_rxloc s := m_dat_in s], m_rxloc := m_rxloc s + 1\<rparr>"
  have len: "m_rxloc s < length (m_block_buf s)" "length (m_block_buf s) = 2051" "m_rxloc s < 514"
    using assms True by (simp_all add: sd_wf_def sd_sizes)
  have "safe sd_wf (sd_write_done ?s)"
    using assms len
    by (auto simp: sd_write_done_def blockcrc_def sd_sizes Let_def sd_wf_def split: option.split)
  moreover have "sd_wf ?s" if "\<not> 514 \<le> m_rxloc s + 1"
    using that assms by (simp add: sd_wf_def sd_sizes)
  ultimately show ?thesis
    using True len(1) by (auto simp: sd_data_byte_def Let_def sd_sizes)
next
  case False
  then show ?thesis using assms by (auto simp: sd_data_byte_def sd_wf_def sd_sizes)
qed

lemma safe_byte:
  assumes "sd_wf s"
  shows "safe sd_wf (sd_byte s)"
proof -
  let ?s = "s\<lparr>m_dat_out := 0xff\<rparr>"
  have s: "sd_wf ?s" using assms by simp
  have "safe sd_wf (sd_data_byte ?s)" if "m_reading_data s" using that s by (intro safe_data_byte) simp_all
  moreover have "safe sd_wf (sd_command ?s)" using s by (rule safe_command)
  moreover have "sd_wf (?s\<lparr>m_cmdbuf := (m_cmdbuf s)[n := d], m_cmdidx := m_cmdidx s + 1\<rparr>)" for n d
    using assms by (simp add: sd_wf_def)
  moreover have "nat (m_cmdidx s) < length (m_cmdbuf s)" if "m_cmdidx s < 6"
    using that assms by (simp add: sd_wf_def nat_less_iff)
  ultimately show ?thesis
    using assms unfolding sd_byte_def Let_def
    by (auto intro!: safe_c_assert safe_in_bounds) (auto simp: sd_wf_def)
qed

lemma safe_sd_tick:
  assumes "sd_wf s"
  shows "safe (\<lambda>r. sd_wf (fst r)) (sd_tick s p)"
proof -
  obtain csn sck mosi where p: "p = (csn, sck, mosi)" by (cases p)
  have fall: "safe (\<lambda>r. sd_wf (fst r)) (sd_falling sck t)" if "sd_wf t" for t
    unfolding sd_falling_def Let_def
    by (rule safe_rbind [where P = sd_wf]) (use that in \<open>auto intro!: safe_byte\<close>)
  have "sd_wf (sd_deselect sck t)" if "sd_wf t" for t using that by (simp add: sd_deselect_def sd_wf_def)
  with assms fall show ?thesis by (simp add: p sd_tick_def Let_def)
qed

interpretation sd: step_safe sd_tick sd_wf "\<lambda>_. True"
  by unfold_locales (rule safe_sd_tick)

text \<open>
  C33: memory safety.  From a well-formed state, with buffers of their sizes and indices in range
  (\<open>m_cmdidx\<close> too, which the constructor leaves unset), whatever is driven on the pins, and whatever is
  in the backing file, the card reads and writes inside its command, response and block buffers: a run either returns
  or stops at a failed assertion.
\<close>

theorem sd_memory_safe:
  assumes "sd_wf s"
  shows "(\<exists>s' xs. run sd_tick s ps = Inr (s', xs) \<and> sd_wf s') \<or> run sd_tick s ps = Inl Assertion"
proof -
  have "safe (\<lambda>r. sd_wf (fst r)) (run sd_tick s ps)"
    using sd.run_is_safe [OF assms, of ps] by (simp add: list_all_iff)
  then show ?thesis by (cases "run sd_tick s ps") auto
qed

end
