(* ===== verification/SdRead.thy ===== *)
theory SdRead
  imports SdBlock
begin

text \<open>
  Commands and blocks of the SD card at the level of bytes: what the card answers, byte by
  byte, is a stream fixed by the command; reading a block streams the contents of the backing
  file with its checksum; writing a block with a good checksum stores it.
\<close>

section \<open>Bytes in, bytes out\<close>

definition sd_feed :: "sdspi \<Rightarrow> u8 \<Rightarrow> fault + sdspi \<times> u8" where
  "sd_feed s b = rbind (sd_byte (s\<lparr>m_dat_in := b\<rparr>)) (\<lambda>s. Inr (s, m_dat_out s))"

text \<open>What is still to be sent: a delay, the response, another delay, the block.\<close>

definition sd_stream :: "sdspi \<Rightarrow> u8 list" where
  "sd_stream s = replicate (nat (m_rspdly s)) 0xff @ drop (m_rspidx s) (m_rspbuf s)
     @ replicate (nat (m_blkdly s)) 0xff @ drop (m_blkidx s) (m_block_buf s)"

definition sd_answering :: "sdspi \<Rightarrow> bool" where
  "sd_answering s \<longleftrightarrow> sd_wf s \<and> 6 < m_cmdidx s \<and> \<not> m_reading_data s \<and> \<not> m_busy s"

definition sd_same_card :: "sdspi \<Rightarrow> sdspi \<Rightarrow> bool" where
  "sd_same_card s s' \<longleftrightarrow> m_dev s' = m_dev s \<and> m_devblocks s' = m_devblocks s \<and> m_reset_state s' = m_reset_state s
     \<and> m_block_address s' = m_block_address s \<and> m_altcmd_flag s' = m_altcmd_flag s"

lemma sd_same_card_trans: "sd_same_card s t \<Longrightarrow> sd_same_card t u \<Longrightarrow> sd_same_card s u"
  by (simp add: sd_same_card_def)

lemma sd_answer_step:
  assumes "sd_answering s" "sd_stream s = b # bs"
  shows "\<exists>s'. sd_feed s 0xff = Inr (s', b) \<and> sd_answering s' \<and> sd_stream s' = bs \<and> sd_same_card s s'"
proof -
  have s: "sd_wf s" "6 < m_cmdidx s" "\<not> m_reading_data s" "\<not> m_busy s"
    using assms(1) by (simp_all add: sd_answering_def)
  have len: "length (m_rspbuf s) = SDSPI_RSPLEN" "length (m_block_buf s) = SDSPI_MAXBLKLEN"
    using s(1) by (simp_all add: sd_wf_def)
  let ?u = "s\<lparr>m_dat_in := 0xff, m_dat_out := 0xff\<rparr>"
  consider (delay) "0 < m_rspdly s"
    | (response) "m_rspdly s \<le> 0" "m_rspidx s < SDSPI_RSPLEN"
    | (gap) "m_rspdly s \<le> 0" "SDSPI_RSPLEN \<le> m_rspidx s" "0 < m_blkdly s"
    | (block) "m_rspdly s \<le> 0" "SDSPI_RSPLEN \<le> m_rspidx s" "m_blkdly s \<le> 0" by linarith
  then show ?thesis
  proof cases
    case delay
    let ?t = "?u\<lparr>m_rspdly := m_rspdly s - 1\<rparr>"
    have "nat (m_rspdly s) = Suc (nat (m_rspdly s - 1))" using delay by simp
    then have "b = 0xff" "sd_stream ?t = bs" using assms(2) by (simp_all add: sd_stream_def)
    moreover have "sd_feed s 0xff = Inr (?t, 0xff)"
      using s delay by (simp add: sd_feed_def sd_byte_def Let_def)
    ultimately show ?thesis using s by (auto simp: sd_answering_def sd_same_card_def)
  next
    case response
    let ?t = "?u\<lparr>m_dat_out := m_rspbuf s ! m_rspidx s, m_rspidx := m_rspidx s + 1\<rparr>"
    have "drop (m_rspidx s) (m_rspbuf s) = m_rspbuf s ! m_rspidx s # drop (m_rspidx s + 1) (m_rspbuf s)"
      using response(2) len(1) by (simp add: Cons_nth_drop_Suc)
    then have "b = m_rspbuf s ! m_rspidx s" "sd_stream ?t = bs" using assms(2) response by (simp_all add: sd_stream_def)
    moreover have "sd_feed s 0xff = Inr (?t, m_rspbuf s ! m_rspidx s)"
      using s response len by (simp add: sd_feed_def sd_byte_def Let_def)
    ultimately show ?thesis using s by (auto simp: sd_answering_def sd_same_card_def)
  next
    case gap
    let ?t = "?u\<lparr>m_blkdly := m_blkdly s - 1\<rparr>"
    have "nat (m_blkdly s) = Suc (nat (m_blkdly s - 1))" using gap by simp
    then have "b = 0xff" "sd_stream ?t = bs" using assms(2) gap len by (simp_all add: sd_stream_def)
    moreover have "sd_feed s 0xff = Inr (?t, 0xff)"
      using s gap by (simp add: sd_feed_def sd_byte_def Let_def)
    ultimately show ?thesis using s by (auto simp: sd_answering_def sd_same_card_def)
  next
    case block
    let ?t = "?u\<lparr>m_dat_out := m_block_buf s ! m_blkidx s, m_blkidx := m_blkidx s + 1\<rparr>"
    have st: "drop (m_blkidx s) (m_block_buf s) = b # bs" using assms(2) block len by (simp add: sd_stream_def)
    then have idx: "m_blkidx s < SDSPI_MAXBLKLEN" using len(2) by (metis drop_all list.distinct(1) not_le)
    then have "b = m_block_buf s ! m_blkidx s" "sd_stream ?t = bs"
      using st block len Cons_nth_drop_Suc [of "m_blkidx s" "m_block_buf s"] by (simp_all add: sd_stream_def)
    moreover have "sd_feed s 0xff = Inr (?t, m_block_buf s ! m_blkidx s)"
      using s block idx len by (simp add: sd_feed_def sd_byte_def Let_def)
    ultimately show ?thesis using s by (auto simp: sd_answering_def sd_same_card_def)
  qed
qed

lemma sd_answer_run:
  assumes "sd_answering s" "n \<le> length (sd_stream s)"
  shows "\<exists>s'. run sd_feed s (replicate n 0xff) = Inr (s', take n (sd_stream s)) \<and> sd_answering s'
    \<and> sd_stream s' = drop n (sd_stream s) \<and> sd_same_card s s'"
  using assms
proof (induction n arbitrary: s)
  case 0
  then show ?case by (simp add: sd_same_card_def)
next
  case (Suc n)
  then obtain b bs where st: "sd_stream s = b # bs" by (cases "sd_stream s") auto
  obtain s1 where 1: "sd_feed s 0xff = Inr (s1, b)" "sd_answering s1" "sd_stream s1 = bs" "sd_same_card s s1"
    using sd_answer_step [OF Suc.prems(1) st] by blast
  obtain s2 where "run sd_feed s1 (replicate n 0xff) = Inr (s2, take n bs)" "sd_answering s2"
    "sd_stream s2 = drop n bs" "sd_same_card s1 s2"
    using Suc.IH [OF 1(2)] 1(3) Suc.prems(2) st by auto
  with 1 st show ?case by (auto dest: sd_same_card_trans)
qed

section \<open>Sending a command\<close>

definition sd_idle :: "sdspi \<Rightarrow> bool" where
  "sd_idle s \<longleftrightarrow> sd_wf s \<and> m_cmdidx s = 0 \<and> \<not> m_reading_data s \<and> \<not> m_busy s \<and> m_rspdly s = 0"

lemma sd_collect_run:
  assumes "sd_wf s" "\<not> m_reading_data s" "m_cmdidx s = int k" "k + length bs \<le> 6"
    and "k = 0 \<longrightarrow> bs \<noteq> [] \<longrightarrow> hd bs AND 0xc0 = 0x40"
  shows "\<exists>d. run sd_feed s bs = Inr (s\<lparr>m_cmdbuf := take k (m_cmdbuf s) @ bs @ drop (k + length bs) (m_cmdbuf s),
      m_cmdidx := int (k + length bs), m_dat_in := fst d, m_dat_out := snd d\<rparr>, replicate (length bs) 0xff)"
  using assms
proof (induction bs arbitrary: s k)
  case Nil
  then show ?case
    by (intro exI [of _ "(m_dat_in s, m_dat_out s)"]) (simp add: sd_wf_def)
next
  case (Cons b bs)
  let ?s = "s\<lparr>m_dat_in := b, m_dat_out := 0xff, m_cmdbuf := (m_cmdbuf s)[k := b], m_cmdidx := int (Suc k)\<rparr>"
  have len: "length (m_cmdbuf s) = 8" using Cons.prems(1) by (simp add: sd_wf_def)
  have feed: "sd_feed s b = Inr (?s, 0xff)"
    using Cons.prems len by (simp add: sd_feed_def sd_byte_def Let_def)
  have "sd_wf ?s" using Cons.prems(1) by (simp add: sd_wf_def)
  then obtain d where "run sd_feed ?s bs = Inr (?s\<lparr>m_cmdbuf := take (Suc k) (m_cmdbuf ?s) @ bs @ drop (Suc k + length bs) (m_cmdbuf ?s),
      m_cmdidx := int (Suc k + length bs), m_dat_in := fst d, m_dat_out := snd d\<rparr>, replicate (length bs) 0xff)"
    using Cons.IH [of ?s "Suc k"] Cons.prems by auto
  moreover have "take (Suc k) (m_cmdbuf ?s) = take k (m_cmdbuf s) @ [b]"
    using len Cons.prems(4) by (simp add: take_Suc_conv_app_nth)
  ultimately show ?case using feed len Cons.prems(4) by auto
qed

lemma check_cmdcrc_append: "length c = 6 \<Longrightarrow> check_cmdcrc (c @ r) = check_cmdcrc c"
  by (simp add: check_cmdcrc_def cmdcrc_def nth_append)

lemma sd_send_command:
  fixes x :: u8
  assumes "sd_idle s" "\<not> m_altcmd_flag s" "length c = 6" "c ! 0 AND 0xc0 = 0x40" "check_cmdcrc c = Inr True"
    and "\<And>d cb. sd_std_command (unat (c ! 0 AND 0x3f)) (word_of_bytes (c ! 1) (c ! 2) (c ! 3) (c ! 4))
        (s\<lparr>m_cmdbuf := c @ cb, m_cmdidx := 6, m_dat_in := d, m_dat_out := 0xff, m_rspidx := 0, m_blkdly := 0,
           m_blkidx := SDSPI_MAXBLKLEN\<rparr>) = Inr (g d cb)"
  defines "t \<equiv> g x (drop 6 (m_cmdbuf s))"
  shows "run sd_feed s (c @ [x]) = Inr (t\<lparr>m_cmdidx := m_cmdidx t + 1, m_blklen := m_blklen t + 3\<rparr>,
    replicate 6 0xff @ [m_dat_out t])"
proof -
  let ?cb = "drop 6 (m_cmdbuf s)"
  have s: "sd_wf s" "m_cmdidx s = 0" "\<not> m_reading_data s" using assms(1) by (simp_all add: sd_idle_def)
  have "c \<noteq> []" using assms(3) by auto
  then have hd: "hd c = c ! 0" "c \<noteq> []" by (simp_all add: hd_conv_nth)
  obtain d where 1: "run sd_feed s c = Inr (s\<lparr>m_cmdbuf := c @ ?cb, m_cmdidx := 6,
      m_dat_in := fst d, m_dat_out := snd d\<rparr>, replicate 6 0xff)"
    using sd_collect_run [OF s(1,3), of 0 c] s(2) assms(3,4) hd by auto
  let ?t = "s\<lparr>m_cmdbuf := c @ ?cb, m_cmdidx := 6, m_dat_in := x, m_dat_out := 0xff, m_rspidx := 0,
     m_blkdly := 0, m_blkidx := SDSPI_MAXBLKLEN\<rparr>"
  have nth: "(c @ ?cb) ! 0 = c ! 0" "(c @ ?cb) ! Suc 0 = c ! Suc 0" "(c @ ?cb) ! 2 = c ! 2" "(c @ ?cb) ! 3 = c ! 3"
    "(c @ ?cb) ! 4 = c ! 4" using assms(3) by (simp_all add: nth_append)
  have "sd_command (s\<lparr>m_cmdbuf := c @ ?cb, m_cmdidx := 6, m_dat_in := x, m_dat_out := 0xff\<rparr>) =
      Inr ((g x ?cb)\<lparr>m_cmdidx := m_cmdidx (g x ?cb) + 1, m_blklen := m_blklen (g x ?cb) + 3\<rparr>)"
    unfolding sd_command_def Let_def using assms(2,5) assms(6) [of x ?cb]
    by (simp add: check_cmdcrc_append [OF assms(3)] nth del: nth_append)
  then have "run sd_feed (s\<lparr>m_cmdbuf := c @ ?cb, m_cmdidx := 6, m_dat_in := fst d, m_dat_out := snd d\<rparr>) [x] =
      Inr ((g x ?cb)\<lparr>m_cmdidx := m_cmdidx (g x ?cb) + 1, m_blklen := m_blklen (g x ?cb) + 3\<rparr>, [m_dat_out (g x ?cb)])"
    using s(3) by (simp add: sd_feed_def sd_byte_def Let_def)
  from run_append_Inr [OF 1 this] show ?thesis by (simp only: t_def)
qed

section \<open>Reading a block\<close>

definition sd_frame :: "u8 list \<Rightarrow> u8 list" where
  "sd_frame bs = (let crc = blockcrc_loop bs 0 AND 0xffff
     in 0xfe # bs @ [ucast (drop_bit 8 crc), ucast crc])"

lemma sd_send_block_eq:
  assumes "length bs = n" "n + 3 \<le> SDSPI_MAXBLKLEN"
  shows "sd_send_block (replicate SDSPI_MAXBLKLEN 0xff) bs n s =
    Inr (s\<lparr>m_block_buf := sd_frame bs @ replicate (SDSPI_MAXBLKLEN - (n + 3)) 0xff, m_blklen := int n, m_blkidx := 0\<rparr>)"
proof -
  define r where "r = SDSPI_MAXBLKLEN - (n + 3)"
  have m: "SDSPI_MAXBLKLEN = Suc (n + Suc (Suc r))" using assms(2) by (simp add: r_def)
  have buf: "buf_copy ((replicate SDSPI_MAXBLKLEN 0xff)[0 := 0xfe]) 1 bs =
      Inr (0xfe # bs @ [0xff, 0xff] @ replicate r 0xff)"
  proof -
    have "drop n (replicate (n + k) x) = replicate k x" for k and x :: u8 by (simp add: drop_replicate)
    from this [of "Suc (Suc r)" "0xff"] show ?thesis
      using assms(1) unfolding m by (simp add: buf_copy_def)
  qed
  have "add_block_crc n (0xfe # bs @ [0xff, 0xff] @ replicate r 0xff) = Inr (sd_frame bs @ replicate r 0xff)"
    using assms(1) by (simp add: add_block_crc_def blockcrc_def sd_frame_def Let_def list_update_append)
  then show ?thesis
    unfolding sd_send_block_def buf by (simp add: r_def)
qed

lemma unat_shift_block:
  assumes "unat (a :: u32) < 2 ^ 23"
  shows "unat (push_bit LGSECTOR_SIZE a) = 512 * unat a"
proof -
  have "unat (push_bit 9 a) = take_bit 32 (push_bit 9 (unat a))" by (simp only: unsigned_push_bit_eq) simp
  also have "\<dots> = unat a * 512"
    using assms by (simp add: take_bit_eq_mod push_bit_eq_mult)
  finally show ?thesis by (simp add: LGSECTOR_SIZE_def)
qed

lemma cmd_bytes: "(0x51 :: u8) AND 0xc0 = 0x40" "unat ((0x51 :: u8) AND 0x3f) = 17"
  "(0x58 :: u8) AND 0xc0 = 0x40" "unat ((0x58 :: u8) AND 0x3f) = 24"
  by simp_all

lemma sd_seek_block:
  assumes "m_dev s = Some (f, pos)" "m_block_address s" "unat arg < m_devblocks s" "unat arg < 2 ^ 23"
  shows "sd_seek arg s = Inr (s\<lparr>m_dev := Some (f, 512 * unat arg)\<rparr>)"
  using assms by (simp add: sd_seek_def unat_shift_block)

lemma sd_read_command:
  assumes "sd_idle s" "m_reset_state s = SDSPI_IN_OPERATION" "\<not> m_altcmd_flag s"
    and "m_dev s = Some (f, pos)" "m_block_address s" "length (take 512 (drop (512 * unat arg) f)) = 512"
    and "length c = 6" "c ! 0 = 0x51" "check_cmdcrc c = Inr True"
    and "arg = word_of_bytes (c ! 1) (c ! 2) (c ! 3) (c ! 4)" "unat arg < m_devblocks s" "unat arg < 2 ^ 23"
  shows "\<exists>t. run sd_feed s (c @ [0xff]) = Inr (t, replicate 7 0xff) \<and> sd_answering t
    \<and> sd_stream t = 0 # replicate 67 0xff @ sd_frame (take 512 (drop (512 * unat arg) f)) @ replicate 1536 0xff
    \<and> m_dev t = Some (f, 512 * unat arg + 512) \<and> m_reset_state t = SDSPI_IN_OPERATION"
proof -
  let ?bs = "take 512 (drop (512 * unat arg) f)" and ?p = "512 * unat arg" and ?cb = "drop 6 (m_cmdbuf s)"
  note len = assms(6)
  have wf: "sd_wf s" "m_cmdidx s = 0" "\<not> m_reading_data s" "\<not> m_busy s" "m_rspdly s = 0"
    using assms(1) by (simp_all add: sd_idle_def)
  define g where "g d cb = s\<lparr>m_cmdbuf := c @ cb, m_cmdidx := 6, m_dat_in := d, m_dat_out := 0xff, m_rspidx := 0,
     m_blkidx := 0, m_altcmd_flag := False, m_rspbuf := 0 # replicate 7 0xff, m_dev := Some (f, ?p + 512),
     m_block_buf := sd_frame ?bs @ replicate (SDSPI_MAXBLKLEN - (512 + 3)) 0xff, m_blklen := 512,
     m_blkdly := 60\<rparr>" for d cb
  have seek: "sd_seek arg t = Inr (t\<lparr>m_dev := Some (f, ?p)\<rparr>)"
    if "m_dev t = Some (f, pos)" "m_block_address t" "m_devblocks t = m_devblocks s" for t
    using that assms(11,12) by (intro sd_seek_block) simp_all
  have cmd: "sd_std_command (unat (c ! 0 AND 0x3f)) (word_of_bytes (c ! 1) (c ! 2) (c ! 3) (c ! 4))
      (s\<lparr>m_cmdbuf := c @ cb, m_cmdidx := 6, m_dat_in := d, m_dat_out := 0xff, m_rspidx := 0, m_blkdly := 0,
         m_blkidx := SDSPI_MAXBLKLEN\<rparr>) = Inr (g d cb)" for d cb
  proof -
    have send: "sd_send_block (replicate SDSPI_MAXBLKLEN 0xff) ?bs 512 t =
        Inr (t\<lparr>m_block_buf := sd_frame ?bs @ replicate (SDSPI_MAXBLKLEN - (512 + 3)) 0xff, m_blklen := 512, m_blkidx := 0\<rparr>)" for t
      using sd_send_block_eq [OF len, of t] by (simp add: SDSPI_MAXBLKLEN_def)
    have sector: "SECTOR_SIZE = 512" by (simp add: SECTOR_SIZE_def LGSECTOR_SIZE_def)
    have keep: "sd_respond_keep [0] t = Inr (t\<lparr>m_rspbuf := 0 # replicate 7 0xff\<rparr>)"
      if "m_rspbuf t = replicate SDSPI_RSPLEN 0xff" for t
      using that by (simp add: sd_respond_keep_def buf_copy_def SDSPI_RSPLEN_def)
    have "length f - 512 * unat arg \<ge> 512" using len by simp
    then have pos: "min (length f - 512 * unat arg) 512 = 512" by simp
    show ?thesis
      unfolding assms(8) cmd_bytes assms(10) [symmetric] sd_std_command_def Let_def
      by (simp add: sd_cmd17_def keep seek assms(2,4,5) file_read_def sector send pos g_def)
  qed
  have "c ! 0 AND 0xc0 = 0x40" using assms(8) cmd_bytes(1) by simp
  from sd_send_command [OF assms(1,3,7) this assms(9) cmd, of "0xff"] have
    run: "run sd_feed s (c @ [0xff]) = Inr ((g 0xff ?cb)\<lparr>m_cmdidx := m_cmdidx (g 0xff ?cb) + 1,
      m_blklen := m_blklen (g 0xff ?cb) + 3\<rparr>, replicate 6 0xff @ [m_dat_out (g 0xff ?cb)])"
    by simp
  let ?t = "(g 0xff ?cb)\<lparr>m_cmdidx := m_cmdidx (g 0xff ?cb) + 1, m_blklen := m_blklen (g 0xff ?cb) + 3\<rparr>"
  have "length (sd_frame ?bs) = 515" using len by (simp add: sd_frame_def Let_def)
  then have "sd_answering ?t"
    using wf assms(7) by (simp add: sd_answering_def g_def sd_wf_def SDSPI_RSPLEN_def SDSPI_MAXBLKLEN_def)
  moreover have "sd_stream ?t = 0 # replicate 67 0xff @ sd_frame ?bs @ replicate 1536 0xff"
    using wf(5) by (simp add: sd_stream_def g_def SDSPI_MAXBLKLEN_def flip: replicate_add append_assoc)
  moreover have "replicate 6 0xff @ [m_dat_out (g 0xff ?cb)] = replicate 7 0xff"
    by (simp add: g_def numeral_eq_Suc)
  moreover have "m_dev ?t = Some (f, ?p + 512)" "m_reset_state ?t = SDSPI_IN_OPERATION"
    using assms(2) by (simp_all add: g_def)
  ultimately show ?thesis using run by (intro exI [of _ ?t]) simp
qed

text \<open>
  C12: reading a block.  An idle card in operation that is sent a READ_SINGLE_BLOCK with a good
  checksum, and then clocked, answers the response 0, seven filler bytes, a gap of 60 bytes,
  and then the start token, the 512 bytes of the block of the backing file and their CRC.  The
  file is unchanged.  Blocks are numbered below \<open>2 ^ 23\<close>, beyond which the offset wraps.
\<close>

theorem sd_read_block:
  assumes "sd_idle s" "m_reset_state s = SDSPI_IN_OPERATION" "\<not> m_altcmd_flag s"
    and "m_dev s = Some (f, pos)" "m_block_address s" "m_devblocks s * 512 \<le> length f"
    and "length c = 6" "c ! 0 = 0x51" "check_cmdcrc c = Inr True"
    and "arg = word_of_bytes (c ! 1) (c ! 2) (c ! 3) (c ! 4)" "unat arg < m_devblocks s" "unat arg < 2 ^ 23"
  shows "\<exists>s' pos'. run sd_feed s (c @ [0xff] @ replicate 583 0xff) = Inr (s',
      replicate 7 0xff @ [0] @ replicate 67 0xff @ sd_frame (take 512 (drop (512 * unat arg) f)))
    \<and> m_dev s' = Some (f, pos') \<and> m_reset_state s' = SDSPI_IN_OPERATION"
proof -
  let ?bs = "take 512 (drop (512 * unat arg) f)"
  have "512 * unat arg + 512 \<le> m_devblocks s * 512" using assms(11) by simp
  then have len: "length ?bs = 512" using assms(6) by simp
  obtain t where 1: "run sd_feed s (c @ [0xff]) = Inr (t, replicate 7 0xff)" "sd_answering t"
      "sd_stream t = 0 # replicate 67 0xff @ sd_frame ?bs @ replicate 1536 0xff"
      "m_dev t = Some (f, 512 * unat arg + 512)" "m_reset_state t = SDSPI_IN_OPERATION"
    using sd_read_command [OF assms(1-5) len assms(7-12)] by blast
  have frame: "length (sd_frame ?bs) = 515" using len by (simp add: sd_frame_def Let_def)
  from sd_answer_run [OF 1(2), of 583] obtain s' where
    2: "run sd_feed t (replicate 583 0xff) = Inr (s', take 583 (sd_stream t))" "sd_same_card t s'"
    unfolding 1(3) using frame by auto
  have "take 583 (sd_stream t) = 0 # replicate 67 0xff @ sd_frame ?bs" unfolding 1(3) using frame by simp
  then show ?thesis
    using run_append_Inr [OF 1(1) 2(1)] 2(2) 1(4,5) by (auto simp: sd_same_card_def)
qed

text \<open>
  the byte offset of a block is computed in 32 bits.  On a card of more than \<open>2 ^ 23\<close>
  blocks, which passes the assertion on the block number, the offset wraps: block
  \<open>2 ^ 23 + n\<close> is block \<open>n\<close>.
\<close>

theorem sd_block_offset_wraps:
  assumes "m_dev s = Some (f, pos)" "m_block_address s" "unat arg < m_devblocks s"
  shows "sd_seek arg s = Inr (s\<lparr>m_dev := Some (f, (512 * unat arg) mod 2 ^ 32)\<rparr>)"
proof -
  have "unat (push_bit 9 arg) = take_bit 32 (push_bit 9 (unat arg))"
    by (simp only: unsigned_push_bit_eq) simp
  also have "\<dots> = (512 * unat arg) mod 2 ^ 32"
    by (simp add: take_bit_eq_mod push_bit_eq_mult mult.commute)
  finally show ?thesis using assms by (simp add: sd_seek_def LGSECTOR_SIZE_def)
qed

section \<open>Writing a block\<close>

definition sd_waiting :: "sdspi \<Rightarrow> bool" where
  "sd_waiting s \<longleftrightarrow> sd_wf s \<and> m_reading_data s \<and> \<not> m_have_token s"

lemma sd_wait_run:
  assumes "sd_waiting s" "\<forall>b \<in> set w. b \<noteq> 0xfe"
  shows "\<exists>d outs. run sd_feed s w = Inr (s\<lparr>m_dat_in := fst d, m_dat_out := snd d\<rparr>, outs)"
  using assms
proof (induction w arbitrary: s)
  case Nil
  then show ?case by (intro exI [of _ "(m_dat_in s, m_dat_out s)"]) simp
next
  case (Cons b w)
  let ?s = "s\<lparr>m_dat_in := b, m_dat_out := 0xff\<rparr>"
  have "sd_feed s b = Inr (?s, 0xff)"
    using Cons.prems by (simp add: sd_feed_def sd_byte_def sd_data_byte_def sd_waiting_def Let_def)
  moreover have "sd_waiting ?s" using Cons.prems(1) by (simp add: sd_waiting_def sd_wf_def)
  with Cons obtain d outs where "run sd_feed ?s w = Inr (?s\<lparr>m_dat_in := fst d, m_dat_out := snd d\<rparr>, outs)"
    by fastforce
  ultimately show ?case by (auto intro!: exI [of _ d])
qed

lemma sd_data_run:
  assumes "m_reading_data s" "m_have_token s" "m_rxloc s = k" "k + length bs < 514"
    and "length (m_block_buf s) = SDSPI_MAXBLKLEN"
  shows "\<exists>d outs. run sd_feed s bs = Inr (s\<lparr>m_block_buf := take k (m_block_buf s) @ bs @ drop (k + length bs) (m_block_buf s),
      m_rxloc := k + length bs, m_dat_in := fst d, m_dat_out := snd d\<rparr>, outs)"
  using assms
proof (induction bs arbitrary: s k)
  case Nil
  then show ?case by (intro exI [of _ "(m_dat_in s, m_dat_out s)"]) simp
next
  case (Cons b bs)
  let ?s = "s\<lparr>m_dat_in := b, m_dat_out := 0xff, m_block_buf := (m_block_buf s)[k := b], m_rxloc := Suc k\<rparr>"
  have k: "k < length (m_block_buf s)" using Cons.prems(4,5) by (simp add: SDSPI_MAXBLKLEN_def)
  have "sd_feed s b = Inr (?s, 0xff)"
    using Cons.prems k by (simp add: sd_feed_def sd_byte_def sd_data_byte_def Let_def sd_sizes)
  moreover obtain d outs where "run sd_feed ?s bs = Inr (?s\<lparr>m_block_buf := take (Suc k) (m_block_buf ?s) @ bs @ drop (Suc k + length bs) (m_block_buf ?s),
      m_rxloc := Suc k + length bs, m_dat_in := fst d, m_dat_out := snd d\<rparr>, outs)"
    using Cons.IH [of ?s "Suc k"] Cons.prems by auto
  moreover have "take (Suc k) (m_block_buf ?s) = take k (m_block_buf s) @ [b]"
    using k by (simp add: take_Suc_conv_app_nth)
  ultimately show ?case by (auto intro!: exI [of _ d])
qed

lemma crc_bytes:
  fixes x :: u32
  defines "c \<equiv> x AND 0xffff"
  shows "push_bit 8 (ucast (ucast (drop_bit 8 c) :: u8)) OR ucast (ucast c :: u8) = c"
proof -
  have m: "(0xffff :: u32) = mask 16" by (simp add: mask_eq_exp_minus_1)
  show ?thesis
    unfolding c_def m
    by (rule bit_word_eqI)
       (auto simp only: bit_or_iff bit_and_iff bit_push_bit_iff bit_drop_bit_eq bit_ucast_iff bit_low_mask o_apply
         split: if_splits, auto)
qed

lemma file_write_block:
  assumes "512 * n + 512 \<le> length f" "length d = 512"
  shows "take 512 (drop (512 * n) (file_write f (512 * n) d)) = d"
    and "m \<noteq> n \<Longrightarrow> take 512 (drop (512 * m) (file_write f (512 * n) d)) = take 512 (drop (512 * m) f)"
    and "length (file_write f (512 * n) d) = length f"
proof -
  have w: "file_write f (512 * n) d = take (512 * n) f @ d @ drop (512 * n + 512) f"
    using assms by (simp add: file_write_def)
  show len: "length (file_write f (512 * n) d) = length f" using assms by (simp add: w)
  show "take 512 (drop (512 * n) (file_write f (512 * n) d)) = d" using assms by (simp add: w)
  show "take 512 (drop (512 * m) (file_write f (512 * n) d)) = take 512 (drop (512 * m) f)" if "m \<noteq> n"
  proof (rule nth_equalityI)
    show "length (take 512 (drop (512 * m) (file_write f (512 * n) d))) = length (take 512 (drop (512 * m) f))"
      using len by simp
    fix i assume "i < length (take 512 (drop (512 * m) (file_write f (512 * n) d)))"
    then have i: "i < 512" "512 * m + i < length f" using len by (simp_all add: less_diff_conv add.commute)
    have "512 * m + i < 512 * n \<or> 512 * n + 512 \<le> 512 * m + i"
    proof (cases "m < n")
      case True
      then have "512 * Suc m \<le> 512 * n" by (intro mult_le_mono2) simp
      with i(1) show ?thesis by simp
    next
      case False
      with that have "512 * Suc n \<le> 512 * m" by (intro mult_le_mono2) simp
      then show ?thesis by simp
    qed
    then have "file_write f (512 * n) d ! (512 * m + i) = f ! (512 * m + i)"
      using assms i by (auto simp: w nth_append)
    then show "take 512 (drop (512 * m) (file_write f (512 * n) d)) ! i = take 512 (drop (512 * m) f) ! i"
      using i len by simp
  qed
qed

text \<open>The data phase of a write: anything but a token, the token, the block and its CRC.\<close>

lemma sd_write_data:
  assumes "sd_waiting t" "m_dev t = Some (f, p)" "\<forall>b \<in> set w. b \<noteq> 0xfe" "length d = 512"
  shows "\<exists>t' outs. run sd_feed t (w @ sd_frame d) = Inr (t', outs @ [5])
    \<and> m_dev t' = Some (file_write f p d, p + 512) \<and> \<not> m_reading_data t'"
proof -
  let ?crc = "blockcrc_loop d 0 AND 0xffff"
  let ?hi = "ucast (drop_bit 8 ?crc) :: u8" and ?lo = "ucast ?crc :: u8"
  have t: "m_reading_data t" "\<not> m_have_token t" "length (m_block_buf t) = SDSPI_MAXBLKLEN"
    using assms(1) by (simp_all add: sd_waiting_def sd_wf_def)
  from sd_wait_run [OF assms(1,3)] obtain e o2 where
    2: "run sd_feed t w = Inr (t\<lparr>m_dat_in := fst e, m_dat_out := snd e\<rparr>, o2)" by blast
  let ?t3 = "t\<lparr>m_dat_in := 0xfe, m_dat_out := 0xff, m_have_token := True, m_rxloc := 0\<rparr>"
  have 3: "run sd_feed (t\<lparr>m_dat_in := fst e, m_dat_out := snd e\<rparr>) [0xfe] = Inr (?t3, [0xff])"
    using t by (simp add: sd_feed_def sd_byte_def sd_data_byte_def Let_def)
  have "m_reading_data ?t3" "m_have_token ?t3" "m_rxloc ?t3 = 0" "0 + length (d @ [?hi]) < 514"
      "length (m_block_buf ?t3) = SDSPI_MAXBLKLEN"
    using assms(4) t by simp_all
  from sd_data_run [OF this] obtain e4 o4 where
    4: "run sd_feed ?t3 (d @ [?hi]) = Inr (?t3\<lparr>m_block_buf := (d @ [?hi]) @ drop 513 (m_block_buf t),
      m_rxloc := 513, m_dat_in := fst e4, m_dat_out := snd e4\<rparr>, o4)"
    using assms(4) by auto
  let ?t4 = "?t3\<lparr>m_block_buf := (d @ [?hi]) @ drop 513 (m_block_buf t),
      m_rxloc := 513, m_dat_in := fst e4, m_dat_out := snd e4\<rparr>"
  have y: "drop 513 (m_block_buf t) = m_block_buf t ! 513 # drop 514 (m_block_buf t)"
    using t(3) Cons_nth_drop_Suc [of 513 "m_block_buf t"] by (simp add: SDSPI_MAXBLKLEN_def)
  obtain t5 where 5: "run sd_feed ?t4 [?lo] = Inr (t5, [5])" "m_dev t5 = Some (file_write f p d, p + 512)"
      "\<not> m_reading_data t5"
    using assms(2,4) t(1) crc_bytes [of ?crc]
    by (simp add: sd_feed_def sd_byte_def sd_data_byte_def sd_write_done_def blockcrc_def sd_sizes y Let_def
        list_update_append nth_append)
  note run = run_append_Inr [OF 2 run_append_Inr [OF 3 run_append_Inr [OF 4 5(1)]]]
  have split: "w @ [0xfe] @ (d @ [?hi]) @ [?lo] = w @ sd_frame d" by (simp add: sd_frame_def Let_def)
  show ?thesis
    using run 5(2,3) unfolding split by (intro exI [of _ t5] exI [of _ "o2 @ [0xff] @ o4"]) simp
qed

lemma sd_write_command:
  assumes "sd_idle s" "\<not> m_altcmd_flag s" "m_dev s = Some (f, pos)" "m_block_address s"
    and "length c = 6" "c ! 0 = 0x58" "check_cmdcrc c = Inr True"
    and "arg = word_of_bytes (c ! 1) (c ! 2) (c ! 3) (c ! 4)" "unat arg < m_devblocks s" "unat arg < 2 ^ 23"
  shows "\<exists>t outs. run sd_feed s (c @ [0xff]) = Inr (t, outs) \<and> sd_waiting t \<and> m_dev t = Some (f, 512 * unat arg)"
proof -
  define g where "g x cb = s\<lparr>m_cmdbuf := c @ cb, m_cmdidx := 6, m_dat_in := x, m_rspidx := 0, m_blkdly := 0,
     m_blkidx := SDSPI_MAXBLKLEN, m_altcmd_flag := False, m_rspbuf := replicate SDSPI_RSPLEN 0xff,
     m_dev := Some (f, 512 * unat arg), m_reading_data := True, m_have_token := False, m_dat_out := 0\<rparr>" for x cb
  have cmd: "sd_std_command (unat (c ! 0 AND 0x3f)) (word_of_bytes (c ! 1) (c ! 2) (c ! 3) (c ! 4))
      (s\<lparr>m_cmdbuf := c @ cb, m_cmdidx := 6, m_dat_in := x, m_dat_out := 0xff, m_rspidx := 0, m_blkdly := 0,
         m_blkidx := SDSPI_MAXBLKLEN\<rparr>) = Inr (g x cb)" for x cb
    unfolding assms(6) cmd_bytes assms(8) [symmetric] sd_std_command_def Let_def
    using assms(3,4,9,10) by (simp add: sd_cmd24_def sd_seek_block g_def)
  have "c ! 0 AND 0xc0 = 0x40" using assms(6) cmd_bytes(3) by simp
  from sd_send_command [OF assms(1,2,5) this assms(7) cmd, of "0xff"] show ?thesis
    using assms(1,5) by (auto simp: g_def sd_waiting_def sd_wf_def sd_idle_def)
qed

text \<open>
  C11: writing a block.  An idle card that is sent a WRITE_BLOCK with a good checksum, then any
  filler, the start token, 512 bytes and their CRC, answers 5 (data accepted) and stores the
  bytes in that block of the backing file: the block reads back as written, every other block
  and the length of the file are unchanged.  Blocks are numbered below \<open>2 ^ 23\<close>, as for reading.
\<close>

theorem sd_write_block:
  assumes "sd_idle s" "\<not> m_altcmd_flag s"
    and "m_dev s = Some (f, pos)" "m_block_address s" "m_devblocks s * 512 \<le> length f"
    and "length c = 6" "c ! 0 = 0x58" "check_cmdcrc c = Inr True"
    and "arg = word_of_bytes (c ! 1) (c ! 2) (c ! 3) (c ! 4)" "unat arg < m_devblocks s" "unat arg < 2 ^ 23"
    and "\<forall>b \<in> set w. b \<noteq> 0xfe" "length d = 512"
  shows "\<exists>s' outs f' pos'. run sd_feed s (c @ [0xff] @ w @ sd_frame d) = Inr (s', outs @ [5])
    \<and> m_dev s' = Some (f', pos') \<and> \<not> m_reading_data s' \<and> length f' = length f
    \<and> take 512 (drop (512 * unat arg) f') = d
    \<and> (\<forall>m. m \<noteq> unat arg \<longrightarrow> take 512 (drop (512 * m) f') = take 512 (drop (512 * m) f))"
proof -
  obtain t o1 where 1: "run sd_feed s (c @ [0xff]) = Inr (t, o1)" "sd_waiting t" "m_dev t = Some (f, 512 * unat arg)"
    using sd_write_command [OF assms(1-4,6-11)] by blast
  obtain t' o2 where 2: "run sd_feed t (w @ sd_frame d) = Inr (t', o2 @ [5])"
      "m_dev t' = Some (file_write f (512 * unat arg) d, 512 * unat arg + 512)" "\<not> m_reading_data t'"
    using sd_write_data [OF 1(2,3) assms(12,13)] by blast
  have "512 * unat arg + 512 \<le> length f" using assms(5,10) by simp
  note fw = file_write_block [OF this assms(13)]
  show ?thesis
    using run_append_Inr [OF 1(1) 2(1)] 2(2,3)
    by (intro exI [of _ t'] exI [of _ "o1 @ o2"] exI [of _ "file_write f (512 * unat arg) d"] exI conjI) (use fw in simp_all)
qed

end
