(* ===== verification/SdPins.thy ===== *)
theory SdPins
  imports SdRead
begin

text \<open>
  From pins to bytes for the SD card: sixteen ticks with the clock low and high eight times
  are one byte step, whose answer is the byte prepared by the step before.  The byte steps of
  the other theories are therefore runs of the pins.
\<close>

section \<open>The interpreter does not see the pins\<close>

definition sd_pins :: "int \<Rightarrow> int \<Rightarrow> int \<Rightarrow> bool \<Rightarrow> u32 \<Rightarrow> int \<Rightarrow> sdspi \<Rightarrow> sdspi" where
  "sd_pins sck dly mosi sync bp miso s =
     s\<lparr>m_last_sck := sck, m_delay := dly, m_mosi := mosi, m_syncd := sync, m_bitpos := bp, m_last_miso := miso\<rparr>"

definition pinless :: "(sdspi \<Rightarrow> fault + sdspi) \<Rightarrow> bool" where
  "pinless f \<longleftrightarrow> (\<forall>sck dly mosi sync bp miso s.
     f (sd_pins sck dly mosi sync bp miso s) = rbind (f s) (\<lambda>t. Inr (sd_pins sck dly mosi sync bp miso t)))"

lemma pinlessI:
  "(\<And>sck dly mosi sync bp miso s. f (sd_pins sck dly mosi sync bp miso s) =
     rbind (f s) (\<lambda>t. Inr (sd_pins sck dly mosi sync bp miso t))) \<Longrightarrow> pinless f"
  by (simp add: pinless_def)

lemma pinlessD:
  "pinless f \<Longrightarrow> f (sd_pins sck dly mosi sync bp miso s) =
     rbind (f s) (\<lambda>t. Inr (sd_pins sck dly mosi sync bp miso t))"
  by (simp add: pinless_def)

lemma sd_pins_frame [simp]:
  "m_dev (sd_pins a b c d e f s) = m_dev s" "m_devblocks (sd_pins a b c d e f s) = m_devblocks s"
  "m_busy (sd_pins a b c d e f s) = m_busy s" "m_block_address (sd_pins a b c d e f s) = m_block_address s"
  "m_altcmd_flag (sd_pins a b c d e f s) = m_altcmd_flag s"
  "m_reading_data (sd_pins a b c d e f s) = m_reading_data s" "m_have_token (sd_pins a b c d e f s) = m_have_token s"
  "m_reset_state (sd_pins a b c d e f s) = m_reset_state s" "m_cmdidx (sd_pins a b c d e f s) = m_cmdidx s"
  "m_rspidx (sd_pins a b c d e f s) = m_rspidx s" "m_rspdly (sd_pins a b c d e f s) = m_rspdly s"
  "m_blkdly (sd_pins a b c d e f s) = m_blkdly s" "m_blklen (sd_pins a b c d e f s) = m_blklen s"
  "m_blkidx (sd_pins a b c d e f s) = m_blkidx s" "m_powerup_busy (sd_pins a b c d e f s) = m_powerup_busy s"
  "m_rxloc (sd_pins a b c d e f s) = m_rxloc s" "m_cmdbuf (sd_pins a b c d e f s) = m_cmdbuf s"
  "m_dat_out (sd_pins a b c d e f s) = m_dat_out s" "m_dat_in (sd_pins a b c d e f s) = m_dat_in s"
  "m_rspbuf (sd_pins a b c d e f s) = m_rspbuf s" "m_block_buf (sd_pins a b c d e f s) = m_block_buf s"
  "m_csd (sd_pins a b c d e f s) = m_csd s" "m_cid (sd_pins a b c d e f s) = m_cid s"
  by (simp_all add: sd_pins_def)

lemma sd_pins_update [simp]:
  "(sd_pins a b c d e f s)\<lparr>m_dev := v1\<rparr> = sd_pins a b c d e f (s\<lparr>m_dev := v1\<rparr>)"
  "(sd_pins a b c d e f s)\<lparr>m_busy := v2\<rparr> = sd_pins a b c d e f (s\<lparr>m_busy := v2\<rparr>)"
  "(sd_pins a b c d e f s)\<lparr>m_altcmd_flag := v3\<rparr> = sd_pins a b c d e f (s\<lparr>m_altcmd_flag := v3\<rparr>)"
  "(sd_pins a b c d e f s)\<lparr>m_host_supports_high_capacity := v4\<rparr> = sd_pins a b c d e f (s\<lparr>m_host_supports_high_capacity := v4\<rparr>)"
  "(sd_pins a b c d e f s)\<lparr>m_reading_data := v5\<rparr> = sd_pins a b c d e f (s\<lparr>m_reading_data := v5\<rparr>)"
  "(sd_pins a b c d e f s)\<lparr>m_have_token := v6\<rparr> = sd_pins a b c d e f (s\<lparr>m_have_token := v6\<rparr>)"
  "(sd_pins a b c d e f s)\<lparr>m_reset_state := v7\<rparr> = sd_pins a b c d e f (s\<lparr>m_reset_state := v7\<rparr>)"
  "(sd_pins a b c d e f s)\<lparr>m_cmdidx := v8\<rparr> = sd_pins a b c d e f (s\<lparr>m_cmdidx := v8\<rparr>)"
  "(sd_pins a b c d e f s)\<lparr>m_rspidx := v9\<rparr> = sd_pins a b c d e f (s\<lparr>m_rspidx := v9\<rparr>)"
  "(sd_pins a b c d e f s)\<lparr>m_rspdly := v10\<rparr> = sd_pins a b c d e f (s\<lparr>m_rspdly := v10\<rparr>)"
  "(sd_pins a b c d e f s)\<lparr>m_blkdly := v11\<rparr> = sd_pins a b c d e f (s\<lparr>m_blkdly := v11\<rparr>)"
  "(sd_pins a b c d e f s)\<lparr>m_blklen := v12\<rparr> = sd_pins a b c d e f (s\<lparr>m_blklen := v12\<rparr>)"
  "(sd_pins a b c d e f s)\<lparr>m_blkidx := v13\<rparr> = sd_pins a b c d e f (s\<lparr>m_blkidx := v13\<rparr>)"
  "(sd_pins a b c d e f s)\<lparr>m_powerup_busy := v14\<rparr> = sd_pins a b c d e f (s\<lparr>m_powerup_busy := v14\<rparr>)"
  "(sd_pins a b c d e f s)\<lparr>m_rxloc := v15\<rparr> = sd_pins a b c d e f (s\<lparr>m_rxloc := v15\<rparr>)"
  "(sd_pins a b c d e f s)\<lparr>m_cmdbuf := v16\<rparr> = sd_pins a b c d e f (s\<lparr>m_cmdbuf := v16\<rparr>)"
  "(sd_pins a b c d e f s)\<lparr>m_dat_out := v17\<rparr> = sd_pins a b c d e f (s\<lparr>m_dat_out := v17\<rparr>)"
  "(sd_pins a b c d e f s)\<lparr>m_dat_in := v18\<rparr> = sd_pins a b c d e f (s\<lparr>m_dat_in := v18\<rparr>)"
  "(sd_pins a b c d e f s)\<lparr>m_rspbuf := v19\<rparr> = sd_pins a b c d e f (s\<lparr>m_rspbuf := v19\<rparr>)"
  "(sd_pins a b c d e f s)\<lparr>m_block_buf := v20\<rparr> = sd_pins a b c d e f (s\<lparr>m_block_buf := v20\<rparr>)"
  by (simp_all add: sd_pins_def)

declare c_assert_bind [simp] in_bounds_bind [simp]

lemma pinless_respond: "pinless (sd_respond bs d)" "pinless (sd_respond_keep bs)"
  by (auto intro!: pinlessI rbind_cong simp: sd_respond_def sd_respond_keep_def)

lemma pinless_seek: "pinless (sd_seek arg)"
  by (rule pinlessI) (auto simp: sd_seek_def split: option.split)

lemma pinless_send_block: "pinless (sd_send_block buf bs n)"
  by (rule pinlessI) (simp add: sd_send_block_def)

lemmas pinless_rules = pinless_respond [THEN pinlessD] pinless_seek [THEN pinlessD] pinless_send_block [THEN pinlessD]

lemma pinless_acmd: "pinless (sd_acmd41 arg)" "pinless sd_acmd51"
  by (rule pinlessI, simp add: sd_acmd41_def Let_def)
     (rule pinlessI, simp add: sd_acmd51_def pinless_rules)

lemma pinless_cmd8: "pinless (sd_cmd8 arg)"
  by (rule pinlessI) (simp add: sd_cmd8_def pinless_rules)

lemma pinless_cmd17: "pinless (sd_cmd17 arg)"
  by (rule pinlessI)
     (auto simp: sd_cmd17_def pinless_rules Let_def intro!: c_assert_cong rbind_cong split: option.split)

lemma pinless_cmd24: "pinless (sd_cmd24 arg)"
  by (rule pinlessI) (simp add: sd_cmd24_def pinless_rules)

lemma sd_OCR_pins [simp]: "sd_OCR (sd_pins a b c d e f s) = sd_OCR s"
  by (simp add: sd_OCR_def)

lemma pinless_cmd58: "pinless sd_cmd58"
  by (rule pinlessI) (auto simp: sd_cmd58_def pinless_rules Let_def intro!: rbind_cong)

lemma pinless_register: "sd_cmd_register reg (sd_pins a b c d e f s) =
    rbind (sd_cmd_register reg s) (\<lambda>t. Inr (sd_pins a b c d e f t))"
  by (simp add: sd_cmd_register_def pinless_rules)

lemma pinless_std_command: "pinless (sd_std_command cmd arg)"
proof (rule pinlessI)
  fix a b c d e f s
  show "sd_std_command cmd arg (sd_pins a b c d e f s) = rbind (sd_std_command cmd arg s) (\<lambda>t. Inr (sd_pins a b c d e f t))"
    unfolding sd_std_command_def Let_def if_bind sd_pins_update sd_pins_frame
    by (simp add: pinless_rules pinless_cmd8 [THEN pinlessD] pinless_register pinless_cmd17 [THEN pinlessD]
        pinless_cmd24 [THEN pinlessD] pinless_cmd58 [THEN pinlessD])
qed

lemma pinless_alt_command: "pinless (sd_alt_command cmd arg)"
  by (rule pinlessI)
     (simp add: sd_alt_command_def if_bind pinless_acmd [THEN pinlessD])

lemma pinless_command: "pinless sd_command"
  by (rule pinlessI)
     (auto simp: sd_command_def Let_def if_bind pinless_alt_command [THEN pinlessD] pinless_std_command [THEN pinlessD]
       intro!: rbind_cong c_assert_cong)

lemma pinless_write_done: "pinless sd_write_done"
proof (rule pinlessI)
  fix a b c d e f s
  show "sd_write_done (sd_pins a b c d e f s) = rbind (sd_write_done s) (\<lambda>t. Inr (sd_pins a b c d e f t))"
    unfolding sd_write_done_def Let_def sd_pins_frame sd_pins_update
    by (cases "blockcrc SECTOR_SIZE (m_block_buf s)"; cases "m_dev s") auto
qed

lemma pinless_data_byte: "pinless sd_data_byte"
proof (rule pinlessI)
  fix a b c d e f s
  show "sd_data_byte (sd_pins a b c d e f s) = rbind (sd_data_byte s) (\<lambda>t. Inr (sd_pins a b c d e f t))"
    unfolding sd_data_byte_def Let_def sd_pins_frame sd_pins_update pinless_write_done [THEN pinlessD]
    by (simp add: if_bind)
qed

lemma pinless_byte: "pinless sd_byte"
proof (rule pinlessI)
  fix a b c d e f s
  show "sd_byte (sd_pins a b c d e f s) = rbind (sd_byte s) (\<lambda>t. Inr (sd_pins a b c d e f t))"
    unfolding sd_byte_def Let_def sd_pins_update sd_pins_frame pinless_data_byte [THEN pinlessD]
      pinless_command [THEN pinlessD] if_bind
    by simp
qed

section \<open>Sixteen ticks\<close>

definition sd_bit :: "sdspi \<Rightarrow> bool \<Rightarrow> fault + sdspi \<times> bool" where
  "sd_bit s b = rbind (sd_tick s (0, 1, of_bool b)) (\<lambda>(s, x). rbind (sd_tick s (0, 0, of_bool b)) (\<lambda>(s, _). Inr (s, x \<noteq> 0)))"

definition sd_xfer :: "sdspi \<Rightarrow> u8 \<Rightarrow> fault + sdspi \<times> u8" where
  "sd_xfer s b = rbind (run sd_bit s (byte_bits b)) (\<lambda>(s, bs). Inr (s, byte_of_bits bs))"

definition sd_age :: "nat \<Rightarrow> sdspi \<Rightarrow> sdspi" where
  "sd_age n s = s\<lparr>m_powerup_busy := (if 0 < m_powerup_busy s then max 0 (m_powerup_busy s - int n) else m_powerup_busy s)\<rparr>"

text \<open>
  The byte step the pins implement: time passes, the byte is interpreted, and the answer on
  the wire is the one prepared before.
\<close>

definition sd_wire_byte :: "sdspi \<Rightarrow> u8 \<Rightarrow> fault + sdspi \<times> u8" where
  "sd_wire_byte s b = rbind (sd_feed (sd_age 16 s) b) (\<lambda>(t, _). Inr (t, m_dat_out s))"

text \<open>A bit that does not complete a byte.\<close>

definition sd_shift1 :: "sdspi \<Rightarrow> bool \<Rightarrow> sdspi" where
  "sd_shift1 s b = (sd_age 2 s)\<lparr>m_last_sck := 0, m_mosi := of_bool b, m_syncd := True, m_bitpos := m_bitpos s + 1,
     m_dat_in := push_bit 1 (m_dat_in s) OR of_bool b, m_dat_out := push_bit 1 (m_dat_out s), m_delay := 0,
     m_last_miso := of_bool (bit (m_dat_out s) 7)\<rparr>"

lemma and_80: "x AND 0x80 \<noteq> 0 \<longleftrightarrow> bit x 7" for x :: u8
  using bit_iff_and_push_bit_not_eq_0 [of x 7] by simp

lemma sd_bit_mid:
  assumes "m_last_sck s = 0" "(m_bitpos s + 1) AND 7 \<noteq> 0"
  shows "sd_bit s b = Inr (sd_shift1 s b, m_last_miso s \<noteq> 0)"
  using assms
  by (cases s) (auto simp: sd_bit_def sd_tick_def sd_falling_def sd_shift1_def sd_age_def Let_def and_80)

definition sd_byte_in :: "sdspi \<Rightarrow> bool \<Rightarrow> sdspi" where
  "sd_byte_in s b = (sd_shift1 s b)\<lparr>m_dat_out := m_dat_out s, m_delay := m_delay s + 2, m_last_miso := m_last_miso s\<rparr>"

lemma sd_bit_last:
  assumes "m_last_sck s = 0" "(m_bitpos s + 1) AND 7 = 0"
  shows "sd_bit s b = rbind (sd_byte (sd_byte_in s b))
    (\<lambda>t. Inr (t\<lparr>m_dat_out := push_bit 1 (m_dat_out t), m_delay := 0, m_last_miso := of_bool (bit (m_dat_out t) 7)\<rparr>,
      m_last_miso s \<noteq> 0))"
proof -
  define t where "t = s\<lparr>m_delay := m_delay s + 1, m_powerup_busy := (if 0 < m_powerup_busy s then m_powerup_busy s - 1 else m_powerup_busy s),
     m_mosi := of_bool b, m_syncd := True, m_last_sck := 1\<rparr>"
  have 1: "sd_tick s (0, 1, of_bool b) = Inr (t, m_last_miso s)"
    using assms by (cases s) (simp add: sd_tick_def t_def Let_def)
  have t: "m_last_sck t = 1" "m_syncd t" "m_bitpos t = m_bitpos s" by (simp_all add: t_def)
  have "sd_tick t (0, 0, of_bool b) = rbind (sd_byte (sd_byte_in s b))
      (\<lambda>t. Inr (t\<lparr>m_dat_out := push_bit 1 (m_dat_out t), m_delay := 0,
        m_last_miso := of_bool (bit (m_dat_out t) 7)\<rparr>, of_bool (bit (m_dat_out t) 7)))"
  proof -
    define u where "u = (if 0 < m_powerup_busy t then t\<lparr>m_delay := m_delay t + 1, m_powerup_busy := m_powerup_busy t - 1\<rparr>
       else t\<lparr>m_delay := m_delay t + 1\<rparr>)"
    have u: "m_bitpos u = m_bitpos s" "m_dat_in u = m_dat_in s" "m_mosi u = of_bool b"
      by (simp_all add: u_def t_def)
    have "sd_tick t (0, 0, of_bool b) = sd_falling 0 u"
      using t by (simp add: sd_tick_def u_def Let_def)
    moreover have "u\<lparr>m_last_sck := 0, m_bitpos := m_bitpos u + 1, m_dat_in := push_bit 1 (m_dat_in u) OR of_int (m_mosi u)\<rparr> =
        sd_byte_in s b"
      by (cases s) (auto simp: u_def t_def sd_byte_in_def sd_shift1_def sd_age_def)
    ultimately show ?thesis
      using assms(2) u(1) by (simp add: sd_falling_def Let_def and_80 of_bool_def cong: if_cong)
  qed
  then show ?thesis unfolding sd_bit_def 1 by (cases "sd_byte (sd_byte_in s b)") simp_all
qed

text \<open>The card \<open>k\<close> bits into a byte; \<open>a\<close> is the card as the byte steps see it.\<close>

definition sd_at :: "sdspi \<Rightarrow> u32 \<Rightarrow> nat \<Rightarrow> int \<times> int \<times> bool \<times> bool \<Rightarrow> u8 \<Rightarrow> sdspi" where
  "sd_at a bp k p x = sd_pins 0 (fst p) (fst (snd p)) (fst (snd (snd p))) (bp + of_nat k) (of_bool (bit (m_dat_out a) (7 - k)))
     ((sd_age (2 * k) a)\<lparr>m_dat_out := push_bit k (push_bit 1 (m_dat_out a) OR of_bool (snd (snd (snd p)))), m_dat_in := x\<rparr>)"

definition sd_on_wire :: "sdspi \<Rightarrow> sdspi \<Rightarrow> bool" where
  "sd_on_wire s a \<longleftrightarrow> (\<exists>bp p x. s = sd_at a bp 0 p x \<and> bp AND 7 = 0)"

lemma bitpos_mod:
  fixes bp n :: u32
  assumes "bp AND 7 = 0"
  shows "(bp + n) AND 7 = n AND 7"
proof -
  have m: "(7 :: u32) = mask 3" by (simp add: mask_eq_exp_minus_1)
  have "take_bit 3 (bp + n) = take_bit 3 (take_bit 3 bp + n)" 
    by transfer (simp add: take_bit_eq_mod mod_simps)
  then show ?thesis using assms unfolding m take_bit_eq_mask [symmetric] by simp
qed

lemma sd_age_add: "sd_age m (sd_age n s) = sd_age (n + m) s"
  by (cases s) (auto simp: sd_age_def max_def)

lemma sd_at_bit:
  assumes "bp AND 7 = 0" "k < 7"
  shows "sd_bit (sd_at a bp k p x) b =
     Inr (sd_at a bp (Suc k) (0, of_bool b, True, snd (snd (snd p))) (push_bit 1 x OR of_bool b), bit (m_dat_out a) (7 - k))"
proof -
  have "(of_nat (Suc k) :: u32) AND 7 \<noteq> 0"
  proof -
    have "k \<in> {0, 1, 2, 3, 4, 5, 6}" using assms(2) by auto
    then show ?thesis by auto
  qed
  then have "(m_bitpos (sd_at a bp k p x) + 1) AND 7 \<noteq> 0"
    using bitpos_mod [OF assms(1), of "of_nat (Suc k)"] by (simp add: sd_at_def sd_pins_def ac_simps)
  moreover have "m_last_sck (sd_at a bp k p x) = 0" by (simp add: sd_at_def sd_pins_def)
  ultimately have "sd_bit (sd_at a bp k p x) b =
      Inr (sd_shift1 (sd_at a bp k p x) b, m_last_miso (sd_at a bp k p x) \<noteq> 0)"
    by (intro sd_bit_mid)
  moreover have "sd_shift1 (sd_at a bp k p x) b = sd_at a bp (Suc k) (0, of_bool b, True, snd (snd (snd p))) (push_bit 1 x OR of_bool b)"
  proof -
    have "bit (push_bit k (push_bit 1 (m_dat_out a) OR of_bool e)) 7 = bit (m_dat_out a) (7 - Suc k)" for e
      using assms(2) by (auto simp add: bit_push_bit_iff bit_or_iff bit_of_bool_iff numeral_eq_Suc simp del: push_bit_Suc)
    moreover have "push_bit 1 (push_bit k d) = push_bit (Suc k) d" for d :: u8
      by (simp only: push_bit_push_bit) simp
    moreover have "sd_age 2 (sd_age (2 * k) a) = sd_age (2 * Suc k) a"
      by (simp add: sd_age_add)
    moreover have "sd_age 2 (sd_pins a1 a2 a3 a4 a5 a6 (t\<lparr>m_dat_out := y, m_dat_in := z\<rparr>)) =
        sd_pins a1 a2 a3 a4 a5 a6 ((sd_age 2 t)\<lparr>m_dat_out := y, m_dat_in := z\<rparr>)" for a1 a2 a3 a4 a5 a6 t y z
      by (cases t) (simp add: sd_age_def sd_pins_def)
    ultimately show ?thesis
      unfolding sd_shift1_def sd_at_def by (simp add: sd_pins_def del: push_bit_Suc push_bit_numeral)
  qed
  moreover have "(m_last_miso (sd_at a bp k p x) \<noteq> 0) = bit (m_dat_out a) (7 - k)"
    by (simp add: sd_at_def sd_pins_def)
  ultimately show ?thesis by simp
qed

lemma sd_at_byte:
  assumes "bp AND 7 = 0"
  shows "sd_bit (sd_at a bp 7 p x) b =
     rbind (sd_byte ((sd_age 16 a)\<lparr>m_dat_in := push_bit 1 x OR of_bool b\<rparr>))
       (\<lambda>t. Inr (sd_at t (bp + 8) 0 (0, of_bool b, True, False) (m_dat_in t), bit (m_dat_out a) 0))"
proof -
  let ?c = "(sd_age 16 a)\<lparr>m_dat_in := push_bit 1 x OR of_bool b\<rparr>"
  have "(m_bitpos (sd_at a bp 7 p x) + 1) AND 7 = 0"
    using bitpos_mod [OF assms, of 8] by (simp add: sd_at_def sd_pins_def add.commute)
  moreover have "m_last_sck (sd_at a bp 7 p x) = 0" by (simp add: sd_at_def sd_pins_def)
  ultimately have 1: "sd_bit (sd_at a bp 7 p x) b = rbind (sd_byte (sd_byte_in (sd_at a bp 7 p x) b))
    (\<lambda>t. Inr (t\<lparr>m_dat_out := push_bit 1 (m_dat_out t), m_delay := 0, m_last_miso := of_bool (bit (m_dat_out t) 7)\<rparr>,
      m_last_miso (sd_at a bp 7 p x) \<noteq> 0))"
    by (intro sd_bit_last)
  have in_eq: "sd_byte_in (sd_at a bp 7 p x) b = sd_pins 0 (fst p + 2) (of_bool b) True (bp + 8)
      (of_bool (bit (m_dat_out a) 0)) (?c\<lparr>m_dat_out := push_bit 7 (push_bit 1 (m_dat_out a) OR of_bool (snd (snd (snd p))))\<rparr>)"
    by (cases a) (auto simp: sd_byte_in_def sd_shift1_def sd_at_def sd_pins_def sd_age_def)
  have "sd_byte (c\<lparr>m_dat_out := d\<rparr>) = sd_byte c" for c d by (simp add: sd_byte_def)
  then have 2: "sd_byte (sd_byte_in (sd_at a bp 7 p x) b) =
      rbind (sd_byte ?c) (\<lambda>t. Inr (sd_pins 0 (fst p + 2) (of_bool b) True (bp + 8) (of_bool (bit (m_dat_out a) 0)) t))"
    unfolding in_eq pinless_byte [THEN pinlessD] by simp
  define P where "P = sd_pins 0 (fst p + 2) (of_bool b) True (bp + 8) (of_bool (bit (m_dat_out a) 0))"
  have 3: "(P t)\<lparr>m_dat_out := push_bit 1 (m_dat_out (P t)), m_delay := 0, m_last_miso := of_bool (bit (m_dat_out (P t)) 7)\<rparr> =
      sd_at t (bp + 8) 0 (0, of_bool b, True, False) (m_dat_in t)" for t
    by (cases t) (simp add: P_def sd_pins_def sd_age_def sd_at_def del: sd_pins_update)
  have 4: "m_last_miso (sd_at a bp 7 p x) \<noteq> 0 \<longleftrightarrow> bit (m_dat_out a) 0" by (simp add: sd_at_def sd_pins_def)
  have 5: "rbind (rbind r (\<lambda>t. Inr (P t))) (\<lambda>t. Inr (F t, B)) = rbind r (\<lambda>t. Inr (F (P t), B))" for r F B
    by (cases r) simp_all
  show ?thesis unfolding 1 2 4 P_def [symmetric] 5 3 ..
qed

lemma sd_xfer_wire:
  assumes "bp AND 7 = 0"
  shows "sd_xfer (sd_at a bp 0 p x) b =
     rbind (sd_feed (sd_age 16 a) b) (\<lambda>(t, _). Inr (sd_at t (bp + 8) 0 (0, of_bool (bit b 0), True, False) (m_dat_in t), m_dat_out a))"
proof -
  let ?bs = "butlast (byte_bits b)"
  have bb: "byte_bits c = butlast (byte_bits c) @ [bit c 0]" for c by (simp add: byte_bits_def)
  have x: "push_bit 1 (shift8 x ?bs) OR of_bool (bit b 0) = b"
    by (simp only: shift8_snoc [symmetric] bb [symmetric] shift8_byte)
  have 7: "run sd_bit (sd_at a bp 0 p x) ?bs =
     Inr (sd_at a bp 7 (0, of_bool (bit b 1), True, snd (snd (snd p))) (shift8 x ?bs), butlast (byte_bits (m_dat_out a)))"
    by (simp add: byte_bits_def sd_at_bit [OF assms] shift8_def eval_nat_numeral del: push_bit_Suc)
  have "run sd_bit (sd_at a bp 0 p x) (?bs @ [bit b 0]) =
      rbind (sd_bit (sd_at a bp 7 (0, of_bool (bit b 1), True, snd (snd (snd p))) (shift8 x ?bs)) (bit b 0))
        (\<lambda>(t, o1). Inr (t, butlast (byte_bits (m_dat_out a)) @ [o1]))"
    unfolding run_append 7 by (cases "sd_bit (sd_at a bp 7 (0, of_bool (bit b 1), True, snd (snd (snd p))) (shift8 x ?bs)) (bit b 0)") auto
  moreover note bb [of b, symmetric] bb [of "m_dat_out a", symmetric]
  ultimately show ?thesis
    unfolding sd_xfer_def sd_at_byte [OF assms] x sd_feed_def
    by (cases "sd_byte ((sd_age 16 a)\<lparr>m_dat_in := b\<rparr>)") simp_all
qed

lemma sd_wire_step:
  assumes "sd_on_wire s a" "sd_wire_byte a b = Inr (a', y)"
  shows "\<exists>s' x. sd_xfer s b = Inr (s', x) \<and> sd_on_wire s' a' \<and> x = y"
proof -
  obtain bp p x where s: "s = sd_at a bp 0 p x" "bp AND 7 = 0" using assms(1) by (auto simp: sd_on_wire_def)
  obtain z where z: "sd_feed (sd_age 16 a) b = Inr (a', z)" "y = m_dat_out a"
    using assms(2) by (auto simp: sd_wire_byte_def split: prod.splits)
  have "(bp + 8) AND 7 = 0" using bitpos_mod [OF s(2), of 8] by simp
  then have "sd_on_wire (sd_at a' (bp + 8) 0 q w) a'" for q w unfolding sd_on_wire_def by blast
  then show ?thesis using z by (simp add: s(1) sd_xfer_wire [OF s(2)])
qed

interpretation sd_pin_level: step_simulation sd_xfer sd_wire_byte sd_on_wire "(=)" "\<lambda>_. True"
  by unfold_locales (rule sd_wire_step)

text \<open>Selecting the card starts a byte: both views agree.\<close>

lemma sd_select_on_wire:
  assumes "sd_on_wire s a"
  shows "\<exists>s'. sd_tick s (1, 0, 0) = Inr (s', 0) \<and> sd_on_wire s' (sd_deselect 0 (sd_age 1 a))"
proof -
  obtain bp p x where s: "s = sd_at a bp 0 p x" using assms by (auto simp: sd_on_wire_def)
  have "push_bit 1 0xff OR of_bool True = (0xff :: u8)" by simp
  then have "sd_tick s (1, 0, 0) = Inr (sd_at (sd_deselect 0 (sd_age 1 a)) 0 0 (0, fst (snd p), False, True) x, 0)"
    unfolding s
    by (cases a) (auto simp: sd_tick_def sd_deselect_def sd_at_def sd_pins_def sd_age_def max_def)
  moreover have "sd_on_wire (sd_at b 0 0 q x) b" for b q unfolding sd_on_wire_def by (intro exI conjI) (rule refl, simp)
  ultimately show ?thesis by blast
qed

lemma sd_pins_refine:
  assumes "sd_on_wire s a" "run sd_wire_byte a bs = Inr (a', ys)"
  shows "\<exists>s'. run sd_xfer s bs = Inr (s', ys) \<and> sd_on_wire s' a'"
proof -
  have "list_all (\<lambda>_. True) bs" by (simp add: list_all_iff)
  from sd_pin_level.run_sim [OF assms(1) this assms(2)] show ?thesis by (simp add: list.rel_eq)
qed

text \<open>
  C14: the pins implement the bytes.  For every sequence of bytes, clocking them in bit by bit
  (two ticks a bit, on the clock's rising and falling edge, most significant bit first)
  returns, one byte late, the bytes the command interpreter prepares, and leaves the card in
  the corresponding state.
\<close>

theorem sd_pins_refine_bytes:
  assumes "sd_on_wire s a" "run sd_wire_byte a bs = Inr (a', ys)"
  shows "\<exists>s'. run sd_xfer s bs = Inr (s', ys) \<and> sd_on_wire s' a'"
  using assms by (rule sd_pins_refine)


section \<open>Scripts of pin values\<close>

definition pin_byte :: "u8 \<Rightarrow> (int \<times> int \<times> int) list" where
  "pin_byte b = concat (map (\<lambda>x. [(0, 1, of_bool x), (0, 0, of_bool x)]) (byte_bits b))"

definition sd_frame_pins :: "u8 list \<Rightarrow> (int \<times> int \<times> int) list" where
  "sd_frame_pins bs = (1, 0, 0) # concat (map pin_byte bs)"

lemma sd_bit_pins:
  "run sd_bit s bits = Inr (s', ys) \<Longrightarrow>
   \<exists>xs. run sd_tick s (concat (map (\<lambda>x. [(0, 1, of_bool x), (0, 0, of_bool x)]) bits)) = Inr (s', xs)"
proof (induction bits arbitrary: s ys)
  case (Cons b bits)
  then obtain t y zs where 1: "sd_bit s b = Inr (t, y)" "run sd_bit t bits = Inr (s', zs)"
    by (auto split: prod.splits)
  then obtain xs where 2: "run sd_tick t (concat (map (\<lambda>x. [(0, 1, of_bool x), (0, 0, of_bool x)]) bits)) = Inr (s', xs)"
    using Cons.IH by blast
  obtain t1 y1 y2 where 3: "sd_tick s (0, 1, of_bool b) = Inr (t1, y1)" "sd_tick t1 (0, 0, of_bool b) = Inr (t, y2)"
    using 1(1) by (auto simp: sd_bit_def split: prod.splits)
  have "run sd_tick s [(0, 1, of_bool b), (0, 0, of_bool b)] = Inr (t, [y1, y2])" using 3 by simp
  from run_append_Inr [OF this 2] show ?case by auto
qed simp

lemma sd_xfer_pins:
  "run sd_xfer s bs = Inr (s', ys) \<Longrightarrow> \<exists>xs. run sd_tick s (concat (map pin_byte bs)) = Inr (s', xs)"
proof (induction bs arbitrary: s ys)
  case (Cons b bs)
  then obtain t y zs where 1: "sd_xfer s b = Inr (t, y)" "run sd_xfer t bs = Inr (s', zs)"
    by (auto split: prod.splits)
  then obtain xs where 2: "run sd_tick t (concat (map pin_byte bs)) = Inr (s', xs)" using Cons.IH by blast
  obtain ws where "run sd_bit s (byte_bits b) = Inr (t, ws)" using 1(1) by (auto simp: sd_xfer_def split: prod.splits)
  then obtain vs where 3: "run sd_tick s (pin_byte b) = Inr (t, vs)" using sd_bit_pins unfolding pin_byte_def by blast
  from run_append_Inr [OF 3 2] show ?case by auto
qed simp

text \<open>A sequence of frames, the card deselected before each, as byte steps and on the pins.\<close>

fun sd_frames :: "sdspi \<Rightarrow> u8 list list \<Rightarrow> fault + sdspi" where
  "sd_frames a [] = Inr a"
| "sd_frames a (c # cs) = rbind (run sd_wire_byte (sd_deselect 0 (sd_age 1 a)) c) (\<lambda>(a', _). sd_frames a' cs)"

lemma sd_frames_run:
  assumes "sd_on_wire s a" "sd_frames a cs = Inr a'"
  shows "\<exists>s' xs. run sd_tick s (concat (map sd_frame_pins cs)) = Inr (s', xs) \<and> sd_on_wire s' a'"
  using assms
proof (induction cs arbitrary: s a)
  case (Cons c cs)
  then obtain a1 ys where 1: "run sd_wire_byte (sd_deselect 0 (sd_age 1 a)) c = Inr (a1, ys)" "sd_frames a1 cs = Inr a'"
    by (auto split: prod.splits)
  obtain s0 where 0: "sd_tick s (1, 0, 0) = Inr (s0, 0)" "sd_on_wire s0 (sd_deselect 0 (sd_age 1 a))"
    using sd_select_on_wire [OF Cons.prems(1)] by blast
  obtain s1 where s1: "run sd_xfer s0 c = Inr (s1, ys)" "sd_on_wire s1 a1"
    using sd_pins_refine [OF 0(2) 1(1)] by blast
  obtain xs where xs: "run sd_tick s0 (concat (map pin_byte c)) = Inr (s1, xs)" using sd_xfer_pins [OF s1(1)] by blast
  have 2: "run sd_tick s (sd_frame_pins c) = Inr (s1, 0 # xs)"
    unfolding sd_frame_pins_def using 0(1) xs by (rule run_Cons_Inr)
  obtain s' zs where 3: "run sd_tick s1 (concat (map sd_frame_pins cs)) = Inr (s', zs)" "sd_on_wire s' a'"
    using Cons.IH [OF s1(2) 1(2)] by blast
  from run_append_Inr [OF 2 3(1)] 3(2) show ?case by auto
qed simp

lemma sd_on_wire_reset: "sd_on_wire s a \<Longrightarrow> m_reset_state s = m_reset_state a"
  by (auto simp: sd_on_wire_def sd_at_def sd_age_def)

section \<open>A concrete card\<close>

definition sd_raw :: sdspi where
  "sd_raw = \<lparr>m_dev = None, m_devblocks = 0, m_last_sck = 0, m_delay = 0, m_mosi = 0,
     m_busy = False, m_debug = False, m_block_address = True, m_altcmd_flag = False, m_syncd = False,
     m_host_supports_high_capacity = False, m_reading_data = False, m_have_token = False,
     m_reset_state = SDSPI_CMD0_IDLE, m_cmdidx = 0, m_bitpos = 0, m_rspidx = 0, m_rspdly = 0, m_blkdly = 0,
     m_blklen = 0, m_blkidx = 0, m_last_miso = 1, m_powerup_busy = 0, m_rxloc = 0, m_cmdbuf = [0, 0, 0, 0, 0, 0, 0, 0],
     m_dat_out = 0xff, m_dat_in = 0, m_rspbuf = [0, 0, 0, 0, 0, 0, 0, 0], m_block_buf = [],
     m_csd = [], m_cid = []\<rparr>"

definition sd_reset_script :: "u8 list list" where
  "sd_reset_script =
     [[0x48, 0, 0, 0x01, 0xaa, 0x87, 0xff], [0x77, 0, 0, 0, 0, 0x65, 0xff],
      [0x69, 0x40, 0, 0, 0, 0x77, 0xff], [0x7a, 0, 0, 0, 0, 0xfd, 0xff]]"

lemma sd_script_crcs:
  "check_cmdcrc [0x48, 0, 0, 0x01, 0xaa, 0x87, 0, 0] = Inr True" "check_cmdcrc [0x77, 0, 0, 0, 0, 0x65, 0, 0] = Inr True"
  "check_cmdcrc [0x69, 0x40, 0, 0, 0, 0x77, 0, 0] = Inr True" "check_cmdcrc [0x7a, 0, 0, 0, 0, 0xfd, 0, 0] = Inr True"
  by (simp_all add: check_cmdcrc_def cmdcrc_def funpow8 crc_shift_def)

lemmas sd_eval = sd_wire_byte_def sd_feed_def sd_byte_def sd_age_def sd_deselect_def Let_def
  sd_command_def sd_std_command_def sd_alt_command_def sd_cmd8_def sd_cmd58_def sd_acmd41_def
  sd_respond_def sd_OCR_def CCS_def tRESET_def SD_MILLISECONDS_def SD_MICROSECONDS_def
  buf_copy_def SDSPI_RSPLEN_def word_of_bytes_def

lemma list_update_numeral [simp]: "(x # xs)[numeral k := y] = x # xs[pred_numeral k := y]"
  by (simp add: numeral_eq_Suc)

lemma sd_reset_run:
  "\<exists>a. sd_frames sd_raw sd_reset_script = Inr a \<and> m_reset_state a = SDSPI_IN_OPERATION"
  by (simp add: sd_reset_script_def sd_raw_def sd_eval sd_script_crcs)

lemma sd_raw_on_wire: "\<exists>s. sd_on_wire s sd_raw"
proof -
  have "sd_on_wire (sd_at sd_raw 0 0 (0, 0, False, False) 0) sd_raw"
    unfolding sd_on_wire_def by (intro exI conjI) (rule refl, simp)
  then show ?thesis by blast
qed

theorem sd_reset_sequence_witness:
  "\<exists>s ps p1 p2 p3 s1 s2 s' y1 y2 y3. m_reset_state s = SDSPI_CMD0_IDLE \<and> ps = concat (map sd_frame_pins sd_reset_script)
    \<and> ps = p1 @ p2 @ p3
    \<and> run sd_tick s p1 = Inr (s1, y1) \<and> m_reset_state s1 = SDSPI_RCVD_CMD8
    \<and> run sd_tick s1 p2 = Inr (s2, y2) \<and> m_reset_state s2 = SDSPI_RESET_COMPLETE
    \<and> run sd_tick s2 p3 = Inr (s', y3) \<and> m_reset_state s' = SDSPI_IN_OPERATION"
proof -
  obtain a where a: "sd_frames sd_raw sd_reset_script = Inr a" "m_reset_state a = SDSPI_IN_OPERATION"
    using sd_reset_run by blast
  obtain s where s: "sd_on_wire s sd_raw" using sd_raw_on_wire by blast
  obtain s' xs where run: "run sd_tick s (concat (map sd_frame_pins sd_reset_script)) = Inr (s', xs)" "sd_on_wire s' a"
    using sd_frames_run [OF s a(1)] by blast
  have "m_reset_state s = SDSPI_CMD0_IDLE" using sd_on_wire_reset [OF s] by (simp add: sd_raw_def)
  moreover have "m_reset_state s' = SDSPI_IN_OPERATION" using sd_on_wire_reset [OF run(2)] a(2) by simp
  moreover have "m_reset_state s < SDSPI_RCVD_CMD8" using calculation(1) by (simp add: reset_order)
  ultimately show ?thesis using sd_reset_sequence [OF run(1)] by blast
qed

theorem sd_pins_refine_bytes_witness:
  "\<exists>s s' a' ys. run sd_xfer s [0x48, 0] = Inr (s', ys) \<and> length ys = 2 \<and> sd_on_wire s' a' \<and> m_cmdidx s' = 2"
proof -
  obtain s where s: "sd_on_wire s sd_raw" using sd_raw_on_wire by blast
  have "\<exists>a' ys. run sd_wire_byte sd_raw [0x48, 0] = Inr (a', ys) \<and> length ys = 2 \<and> m_cmdidx a' = 2"
    by (simp add: sd_raw_def sd_eval)
  then obtain a' ys where a: "run sd_wire_byte sd_raw [0x48, 0] = Inr (a', ys)" "length ys = 2" "m_cmdidx a' = 2" by blast
  from sd_pins_refine_bytes [OF s a(1)] obtain s' where s': "run sd_xfer s [0x48, 0] = Inr (s', ys)" "sd_on_wire s' a'" by blast
  then have "m_cmdidx s' = m_cmdidx a'" by (auto simp: sd_on_wire_def sd_at_def sd_age_def)
  with a(3) have "m_cmdidx s' = 2" by simp
  with s' a(2) show ?thesis by blast
qed

definition sd_example :: sdspi where
  "sd_example = sd_raw\<lparr>m_dev := Some (replicate 1024 0x5a, 0), m_devblocks := 2, m_reset_state := SDSPI_IN_OPERATION,
     m_block_buf := replicate SDSPI_MAXBLKLEN 0, m_csd := replicate SDSPI_CSDLEN 0, m_cid := replicate SDSPI_CIDLEN 0\<rparr>"

lemma sd_example_idle: "sd_idle sd_example"
  by (simp add: sd_idle_def sd_wf_def sd_example_def sd_raw_def SDSPI_RSPLEN_def)

theorem sd_memory_safe_witness:
  "(\<exists>s' xs. run sd_tick sd_example [(0, 1, 1), (0, 0, 1)] = Inr (s', xs) \<and> sd_wf s')
    \<or> run sd_tick sd_example [(0, 1, 1), (0, 0, 1)] = Inl Assertion"
  by (rule sd_memory_safe) (use sd_example_idle in \<open>simp add: sd_idle_def\<close>)

lemma sd_example_crcs:
  "check_cmdcrc [0x51, 0, 0, 0, 1, 0x47] = Inr True" "check_cmdcrc [0x58, 0, 0, 0, 1, 0x7d] = Inr True"
  by (simp_all add: check_cmdcrc_def cmdcrc_def funpow8 crc_shift_def)

theorem sd_read_block_witness:
  "\<exists>s' pos'. run sd_feed sd_example ([0x51, 0, 0, 0, 1, 0x47] @ [0xff] @ replicate 583 0xff) = Inr (s',
      replicate 7 0xff @ [0] @ replicate 67 0xff @ sd_frame (take 512 (drop (512 * unat (1 :: u32)) (replicate 1024 0x5a))))
    \<and> m_dev s' = Some (replicate 1024 0x5a, pos') \<and> m_reset_state s' = SDSPI_IN_OPERATION"
  by (rule sd_read_block [OF sd_example_idle _ _ _ _ _ _ _ sd_example_crcs(1)])
     (simp_all add: sd_example_def sd_raw_def word_of_bytes_def)

theorem sd_block_offset_wraps_witness:
  "sd_seek 0x800001 (sd_raw\<lparr>m_dev := Some ([], 0), m_devblocks := 2 ^ 24\<rparr>) =
     Inr (sd_raw\<lparr>m_dev := Some ([], 512), m_devblocks := 2 ^ 24\<rparr>)"
proof -
  let ?s = "sd_raw\<lparr>m_dev := Some ([], 0), m_devblocks := 2 ^ 24\<rparr>"
  have "m_dev ?s = Some ([], 0)" "m_block_address ?s" "unat (0x800001 :: u32) < m_devblocks ?s"
    by (simp_all add: sd_raw_def)
  from sd_block_offset_wraps [OF this] show ?thesis by simp
qed

theorem sd_write_block_witness:
  "\<exists>s' outs f' pos'. run sd_feed sd_example ([0x58, 0, 0, 0, 1, 0x7d] @ [0xff] @ [0xff] @ sd_frame (replicate 512 0x3c)) = Inr (s', outs @ [5])
    \<and> m_dev s' = Some (f', pos') \<and> \<not> m_reading_data s' \<and> length f' = length (replicate 1024 (0x5a :: u8))
    \<and> take 512 (drop (512 * unat (1 :: u32)) f') = replicate 512 0x3c
    \<and> (\<forall>m. m \<noteq> unat (1 :: u32) \<longrightarrow> take 512 (drop (512 * m) f') = take 512 (drop (512 * m) (replicate 1024 (0x5a :: u8))))"
  by (rule sd_write_block [OF sd_example_idle _ _ _ _ _ _ sd_example_crcs(2)])
     (simp_all add: sd_example_def sd_raw_def word_of_bytes_def)

end
