(* ===== verification/OledSim.thy ===== *)
theory OledSim
  imports Prelude
begin

text \<open>
  The simulated OLED display, class \<open>OLEDSIM\<close> of \<open>sim/verilated/oledsim.cpp\<close>: the power and
  reset pins, the SPI bytes gathered into a message, and the commands and pixels that messages are.

  Drawing is done by the Cairo library on an off-screen image.  The image \<open>m_pix\<close> is kept as the
  sequence of the fills drawn on it, each with its colour and its rectangle; a colour component, a
  \<open>double\<close> in the code, is the quotient the code computes it from.  The requests to redraw a part
  of the window, which concern the window toolkit only, are left out.

  The buffer of the message, the position in it and the counter of reset clocks are not set by the
  constructor: what they hold then is an argument of \<open>oled_new\<close>.
\<close>

section \<open>State\<close>

definition OLED_HEIGHT :: int where "OLED_HEIGHT = 64"
definition OLED_WIDTH :: int where "OLED_WIDTH = 96"
definition tMINRESET :: int where "tMINRESET = 3 * 81"

datatype oled_state = OLED_OFF | OLED_RESET | OLED_VIO | OLED_POWERED
datatype oled_format = OLED_65kCLR | OLED_256CLR

datatype shade = Ratio int int
datatype fill = Fill (fill_rgb: "shade \<times> shade \<times> shade") (fill_x: int) (fill_y: int) (fill_w: int) (fill_h: int)

record oled =
  m_pix :: "fill list"
  m_state :: oled_state
  m_reset_clocks :: int
  m_last_csn :: bool
  m_last_sck :: bool
  m_last_dcn :: bool
  m_idx :: int
  m_bitpos :: int
  m_data :: "u8 list"
  m_vaddr_inc :: bool
  m_locked :: bool
  m_format :: oled_format
  m_col_start :: int
  m_col_end :: int
  m_col :: int
  m_row_start :: int
  m_row_end :: int
  m_row :: int
  m_display_start_row :: int

definition oled_new :: "int \<Rightarrow> int \<Rightarrow> int \<Rightarrow> u8 list \<Rightarrow> oled" where
  "oled_new clocks idx bitpos buf =
     \<lparr>m_pix = [], m_state = OLED_OFF, m_reset_clocks = clocks, m_last_csn = True, m_last_sck = True, m_last_dcn = True,
      m_idx = idx, m_bitpos = bitpos, m_data = buf, m_vaddr_inc = False, m_locked = True, m_format = OLED_65kCLR,
      m_col_start = 0, m_col_end = 95, m_col = 0, m_row_start = 0, m_row_end = 63, m_row = 0, m_display_start_row = 0\<rparr>"

definition black :: "shade \<times> shade \<times> shade" where
  "black = (Ratio 0 1, Ratio 0 1, Ratio 0 1)"

definition dark_gray :: "shade \<times> shade \<times> shade" where
  "dark_gray = (Ratio 1 10, Ratio 1 10, Ratio 1 10)"

definition oled_on_realize :: "oled \<Rightarrow> oled" where
  "oled_on_realize s = s\<lparr>m_pix := [Fill black 0 0 OLED_WIDTH OLED_HEIGHT]\<rparr>"

definition clear_to :: "shade \<times> shade \<times> shade \<Rightarrow> oled \<Rightarrow> oled" where
  "clear_to v s = s\<lparr>m_pix := m_pix s @ [Fill v 0 0 OLED_WIDTH OLED_HEIGHT]\<rparr>"

definition set_gddram :: "int \<Rightarrow> int \<Rightarrow> shade \<times> shade \<times> shade \<Rightarrow> oled \<Rightarrow> oled" where
  "set_gddram col row rgb s = s\<lparr>m_pix := m_pix s @ [Fill rgb col row 1 1]\<rparr>"

section \<open>The window\<close>

text \<open>
  The sizes asked of the window toolkit, minimal and natural.  A quotient of C that is negative
  differs from the one below, but both are below 1 then, and the factor is 1.
\<close>

definition preferred_width :: "int \<times> int" where
  "preferred_width = (OLED_WIDTH, OLED_WIDTH * 2)"

definition preferred_height :: "int \<times> int" where
  "preferred_height = (OLED_HEIGHT, OLED_HEIGHT * 2)"

definition preferred_width_for_height :: "int \<Rightarrow> int \<times> int" where
  "preferred_width_for_height h =
     (let k = (h + OLED_HEIGHT div 2) div OLED_HEIGHT; k = (if k \<le> 0 then 1 else k) in (OLED_WIDTH, OLED_WIDTH * k))"

definition preferred_height_for_width :: "int \<Rightarrow> int \<times> int" where
  "preferred_height_for_width w =
     (let k = (w + OLED_WIDTH div 2) div OLED_WIDTH; k = (if k \<le> 0 then 1 else k) in (OLED_HEIGHT, OLED_HEIGHT * k))"

text \<open>What is shown in a window of a given size: the image, scaled, or a plain colour.\<close>

datatype view = Image "fill list" shade shade | Plain "shade \<times> shade \<times> shade"

definition oled_on_draw :: "int \<Rightarrow> int \<Rightarrow> oled \<Rightarrow> view" where
  "oled_on_draw width height s =
     (if m_state s = OLED_POWERED then Image (m_pix s) (Ratio width OLED_WIDTH) (Ratio height OLED_HEIGHT)
      else if m_state s = OLED_VIO \<or> m_state s = OLED_RESET then Plain dark_gray
      else Plain black)"

section \<open>Messages\<close>

text \<open>A message of pixel data.\<close>

definition oled_pixel :: "int \<Rightarrow> u8 list \<Rightarrow> oled \<Rightarrow> fault + oled" where
  "oled_pixel len data s =
     rbind (if m_format s = OLED_65kCLR
            then c_assert (len = 2)
              (let r = uint (drop_bit 3 (data ! 0) AND 0x1f);
                   g = uint ((push_bit 3 (data ! 0) AND 0x38) OR (drop_bit 5 (data ! 1) AND 7));
                   b = uint (data ! 1 AND 0x1f)
               in Inr (Ratio r 31, Ratio g 63, Ratio b 31))
            else Inr black)
       (\<lambda>rgb.
        let s = set_gddram (m_col s) (m_row s) rgb s in
        if \<not> m_vaddr_inc s
        then let s = s\<lparr>m_col := m_col s + 1\<rparr> in
             if m_col s > m_col_end s
             then let s = s\<lparr>m_col := m_col_start s, m_row := m_row s + 1\<rparr> in
                  Inr (if m_row s > m_row_end s then s\<lparr>m_row := m_row_start s\<rparr> else s)
             else Inr s
        else let s = s\<lparr>m_row := m_row s + 1\<rparr> in
             if m_row s > m_row_end s
             then let s = s\<lparr>m_row := m_row_start s, m_col := m_col s + 1\<rparr> in
                  Inr (if m_col s > m_col_end s then s\<lparr>m_col := m_col_start s\<rparr> else s)
             else Inr s)"

definition oled_unlock :: "int \<Rightarrow> u8 list \<Rightarrow> oled \<Rightarrow> oled" where
  "oled_unlock len data s =
     (if len = 2 \<and> data ! 0 = 0xfd \<and> data ! 1 = 0x12 then s\<lparr>m_locked := False\<rparr> else s)"

text \<open>A command; \<open>0xbc\<close> and \<open>0xbd\<close> fall through to \<open>0xbe\<close>.\<close>

definition oled_command :: "int \<Rightarrow> u8 list \<Rightarrow> oled \<Rightarrow> fault + oled" where
  "oled_command len data s =
     (let c = data ! 0 in
      if c = 0x15
      then c_assert (len = 3) (c_assert (data ! 1 \<le> 95) (c_assert (data ! 2 \<le> 95)
             (let s = s\<lparr>m_col_start := uint (data ! 1), m_col_end := uint (data ! 2)\<rparr> in
              c_assert (m_col_end s \<ge> m_col_start s) (Inr (s\<lparr>m_col := m_col_start s\<rparr>)))))
      else if c = 0x75
      then c_assert (len = 3) (c_assert (data ! 1 \<le> 63) (c_assert (data ! 2 \<le> 63)
             (c_assert (m_row_end s \<ge> m_row_start s)
               (Inr (s\<lparr>m_row_start := uint (data ! 1), m_row_end := uint (data ! 2)\<rparr>)))))
      else if c \<in> {0x81, 0x82, 0x83, 0x87, 0x8a, 0x8b, 0x8c} then c_assert (len = 2) (Inr s)
      else if c = 0xa0
      then c_assert (len = 2)
             (let s = s\<lparr>m_vaddr_inc := (data ! 1 AND 1 \<noteq> 0)\<rparr> in
              Inr (if data ! 1 AND 0xc0 = 0 then s\<lparr>m_format := OLED_256CLR\<rparr>
                   else if data ! 1 AND 0xc0 = 0x40 then s\<lparr>m_format := OLED_65kCLR\<rparr> else s))
      else if c \<in> {0xa1, 0xa2} then c_assert (len = 2) (Inr s)
      else if c \<in> {0xa4, 0xa5, 0xa6, 0xa7} then c_assert (len = 1) (Inr s)
      else if c = 0xa8 then c_assert (len = 2) (Inr s)
      else if c = 0xab then c_assert (len = 6) (Inr s)
      else if c = 0xad then c_assert (len = 2) (c_assert (data ! 1 AND 0xfe = 0x8e) (Inr s))
      else if c \<in> {0xac, 0xae, 0xaf} then c_assert (len = 1) (Inr s)
      else if c = 0xb0 then c_assert (len = 2 \<and> (data ! 1 = 0x1a \<or> data ! 1 = 0x0b)) (Inr s)
      else if c \<in> {0xb1, 0xb3} then c_assert (len = 2) (Inr s)
      else if c = 0xb8 then Inl Assertion
      else if c = 0xb9 then c_assert (len = 1) (Inr s)
      else if c = 0xbb then c_assert (len = 2) (Inr s)
      else if c \<in> {0xbc, 0xbd} then c_assert (len = 1) (c_assert (len = 2) (Inr s))
      else if c = 0xbe then c_assert (len = 2) (Inr s)
      else if c = 0xe3 then c_assert (len = 1) (Inr s)
      else if c = 0xfd then c_assert (len = 2) (Inr (if data ! 1 = 0x16 then s\<lparr>m_locked := True\<rparr> else s))
      else if c = 0x21 then c_assert (len = 8) (Inr s)
      else if c = 0x22 then c_assert (len = 11) (Inr s)
      else if c = 0x23 then c_assert (len = 7) (Inr s)
      else if c \<in> {0x24, 0x25} then c_assert (len = 5) (Inr s)
      else if c = 0x26 then c_assert (len = 2) (c_assert (data ! 1 AND 0x10 = 0) (Inr s))
      else if c = 0x27 then c_assert (len = 6) (Inr s)
      else if c \<in> {0x2e, 0x2f} then c_assert (len = 1) (Inr s)
      else Inl Assertion)"

definition do_command :: "bool \<Rightarrow> int \<Rightarrow> u8 list \<Rightarrow> oled \<Rightarrow> fault + oled" where
  "do_command dcn len data s =
     c_assert (0 < len) (c_assert (len \<le> 11)
       (if dcn then oled_pixel len data s
        else if m_locked s then Inr (oled_unlock len data s)
        else oled_command len data s))"

section \<open>Pins\<close>

definition oled_end :: "oled \<Rightarrow> fault + oled" where
  "oled_end s =
     c_assert (0 < m_idx s) (c_assert (m_bitpos s AND 7 = 0)
       (rbind (do_command (m_last_dcn s) (m_idx s) (m_data s) s) (\<lambda>s.
        let s = s\<lparr>m_bitpos := 0, m_idx := 0, m_data := replicate 8 0 @ drop 8 (m_data s)\<rparr> in
        c_assert (m_last_sck s) (Inr s))))"

definition oled_shift :: "bool \<Rightarrow> oled \<Rightarrow> fault + oled" where
  "oled_shift mosi s =
     in_bounds (0 \<le> m_idx s \<and> m_idx s < 16)
       (let i = nat (m_idx s);
            s = s\<lparr>m_bitpos := m_bitpos s + 1, m_data := (m_data s)[i := push_bit 1 (m_data s ! i) OR of_bool mosi]\<rparr>;
            s = (if m_bitpos s \<ge> 8 then s\<lparr>m_idx := m_idx s + 1, m_bitpos := m_bitpos s AND 7\<rparr> else s)
        in c_assert (m_idx s < 3 + 4 + 4) (Inr s))"

definition handle_io :: "bool \<Rightarrow> bool \<Rightarrow> bool \<Rightarrow> bool \<Rightarrow> oled \<Rightarrow> fault + oled" where
  "handle_io csn sck dcn mosi s =
     rbind (if csn
            then rbind (if \<not> m_last_csn s then oled_end s else Inr s) (\<lambda>s.
                 c_assert sck (Inr (s\<lparr>m_bitpos := 0, m_idx := 0\<rparr>)))
            else c_assert (m_last_csn s \<longrightarrow> sck \<and> m_last_sck s)
                 (if sck \<and> \<not> m_last_sck s then oled_shift mosi s else Inr s))
       (\<lambda>s. Inr (s\<lparr>m_last_csn := csn, m_last_sck := sck, m_last_dcn := dcn\<rparr>))"

record oled_pins =
  p_iopwr :: bool
  p_rstn :: bool
  p_dpwr :: bool
  p_csn :: bool
  p_sck :: bool
  p_dcn :: bool
  p_mosi :: bool

definition oled_tick :: "oled \<Rightarrow> oled_pins \<Rightarrow> fault + oled \<times> unit" where
  "oled_tick s i =
     rbind
       (if \<not> p_iopwr i
        then let s = (if m_state s \<noteq> OLED_OFF then clear_to black (s\<lparr>m_state := OLED_OFF\<rparr>) else s)
             in c_assert (\<not> p_dpwr i) (Inr s)
        else if \<not> p_rstn i
        then let s = (if m_state s \<noteq> OLED_RESET
                      then (clear_to dark_gray (s\<lparr>m_state := OLED_RESET, m_locked := True\<rparr>))\<lparr>m_reset_clocks := 0\<rparr> else s);
                 s = (if m_reset_clocks s < tMINRESET then s\<lparr>m_reset_clocks := m_reset_clocks s + 1\<rparr> else s)
             in c_assert (p_csn i) (c_assert (p_sck i) (Inr s))
        else if p_dpwr i
        then rbind (if m_state s \<noteq> OLED_POWERED then c_assert (p_csn i) (Inr (s\<lparr>m_state := OLED_POWERED\<rparr>)) else Inr s)
               (handle_io (p_csn i) (p_sck i) (p_dcn i) (p_mosi i))
        else handle_io (p_csn i) (p_sck i) (p_dcn i) (p_mosi i) (s\<lparr>m_state := OLED_VIO\<rparr>))
       (\<lambda>s. Inr (s, ()))"

section \<open>What is drawn is on the screen\<close>

definition on_screen :: "fill \<Rightarrow> bool" where
  "on_screen f \<longleftrightarrow> 0 \<le> fill_x f \<and> 0 \<le> fill_y f \<and> fill_x f + fill_w f \<le> OLED_WIDTH \<and> fill_y f + fill_h f \<le> OLED_HEIGHT"

definition oled_wf :: "oled \<Rightarrow> bool" where
  "oled_wf s \<longleftrightarrow> length (m_data s) = 16 \<and> 0 \<le> m_idx s \<and> m_idx s < 11 \<and> 0 \<le> m_bitpos s \<and> m_bitpos s < 8
     \<and> 0 \<le> m_col_start s \<and> m_col_start s \<le> m_col s \<and> m_col s \<le> m_col_end s \<and> m_col_end s \<le> 95
     \<and> 0 \<le> m_row_start s \<and> m_row_start s \<le> 63 \<and> 0 \<le> m_row s \<and> m_row s \<le> 63 \<and> 0 \<le> m_row_end s \<and> m_row_end s \<le> 63
     \<and> list_all on_screen (m_pix s)"

lemma oled_wf_pixel: "oled_wf s \<Longrightarrow> safe oled_wf (oled_pixel len data s)"
  by (auto simp: oled_pixel_def Let_def set_gddram_def oled_wf_def on_screen_def OLED_WIDTH_def OLED_HEIGHT_def
      intro!: safe_rbind [where P = "\<lambda>_. True"] safe_c_assert)

lemma uint_le_95: "x \<le> 95 \<Longrightarrow> uint x \<le> 95" "x \<le> 63 \<Longrightarrow> uint x \<le> 63" for x :: u8
  by (simp_all add: word_le_def)

lemma safe_if: "safe P x \<Longrightarrow> safe P y \<Longrightarrow> safe P (if b then x else y)"
  by simp

lemma oled_wf_command:
  assumes "oled_wf s"
  shows "safe oled_wf (oled_command len data s)"
  unfolding oled_command_def Let_def
  using assms
  by (intro safe_if safe_c_assert) (auto simp: oled_wf_def dest: uint_le_95)

lemma oled_wf_do_command: "oled_wf s \<Longrightarrow> safe oled_wf (do_command dcn len data s)"
  unfolding do_command_def
  by (intro safe_c_assert safe_if oled_wf_pixel oled_wf_command) (auto simp: oled_unlock_def oled_wf_def)

lemma oled_wf_frame [simp]:
  "oled_wf (s\<lparr>m_last_csn := a\<rparr>) = oled_wf s" "oled_wf (s\<lparr>m_last_sck := b\<rparr>) = oled_wf s"
  "oled_wf (s\<lparr>m_last_dcn := c\<rparr>) = oled_wf s" "oled_wf (s\<lparr>m_state := d\<rparr>) = oled_wf s"
  "oled_wf (s\<lparr>m_locked := e\<rparr>) = oled_wf s" "oled_wf (s\<lparr>m_reset_clocks := f\<rparr>) = oled_wf s"
  by (simp_all add: oled_wf_def)

lemma oled_wf_clear [simp]: "oled_wf (clear_to v s) = oled_wf s"
  by (simp add: oled_wf_def clear_to_def on_screen_def)

lemma oled_wf_idle: "oled_wf s \<Longrightarrow> oled_wf (s\<lparr>m_bitpos := 0, m_idx := 0\<rparr>)"
  by (simp add: oled_wf_def)

lemma oled_wf_end: "oled_wf s \<Longrightarrow> safe oled_wf (oled_end s)"
  unfolding oled_end_def Let_def
  by (intro safe_c_assert safe_rbind [OF oled_wf_do_command]) (auto simp: oled_wf_def)

lemma oled_wf_shift: "oled_wf s \<Longrightarrow> safe oled_wf (oled_shift b s)"
  unfolding oled_shift_def Let_def
  by (intro safe_in_bounds safe_c_assert) (auto simp: oled_wf_def)

lemma oled_wf_io: "oled_wf s \<Longrightarrow> safe oled_wf (handle_io c k d b s)"
  unfolding handle_io_def
  by (intro safe_rbind [where P = oled_wf and Q = oled_wf] safe_if safe_c_assert oled_wf_shift oled_wf_end)
     (auto intro: oled_wf_idle)

lemma oled_wf_tick: "oled_wf s \<Longrightarrow> safe (\<lambda>r. oled_wf (fst r)) (oled_tick s i)"
  unfolding oled_tick_def Let_def
  by (rule safe_rbind [where P = oled_wf]) (auto simp: intro!: safe_c_assert safe_if oled_wf_io safe_rbind [where P = oled_wf])

interpretation oled_safe: step_safe oled_tick oled_wf "\<lambda>_. True"
  by unfold_locales (rule oled_wf_tick)

text \<open>from power up, with the position in the message anywhere the constructor may have left it
  inside the buffer, whatever the pins do, the simulator can only stop at a failed assertion: it
  never writes outside the buffer of the message.  And everything it has drawn lies on the screen.\<close>

theorem oled_draws_on_screen:
  assumes "length buf = 16" "0 \<le> idx" "idx < 11" "0 \<le> bitpos" "bitpos < 8"
  shows "safe (\<lambda>(s, _). list_all on_screen (m_pix s) \<and> 0 \<le> m_idx s \<and> m_idx s < int (length (m_data s)))
           (run oled_tick (oled_on_realize (oled_new clocks idx bitpos buf)) pins)"
proof -
  have "oled_wf (oled_on_realize (oled_new clocks idx bitpos buf))"
    using assms by (simp add: oled_wf_def oled_on_realize_def oled_new_def on_screen_def)
  then have "safe (\<lambda>r. oled_wf (fst r)) (run oled_tick (oled_on_realize (oled_new clocks idx bitpos buf)) pins)"
    by (rule oled_safe.run_is_safe) (simp add: list_all_iff)
  then show ?thesis by (rule safe_mono) (auto simp: oled_wf_def)
qed

section \<open>Messages on the pins\<close>

definition oled_io :: "bool \<Rightarrow> bool \<Rightarrow> bool \<Rightarrow> bool \<Rightarrow> bool \<Rightarrow> oled_pins" where
  "oled_io pwr cs ck dc b =
     \<lparr>p_iopwr = True, p_rstn = True, p_dpwr = pwr, p_csn = cs, p_sck = ck, p_dcn = dc, p_mosi = b\<rparr>"

definition oled_bit :: "bool \<Rightarrow> bool \<Rightarrow> bool \<Rightarrow> oled_pins list" where
  "oled_bit pwr dc b = [oled_io pwr False False dc b, oled_io pwr False True dc b]"

definition oled_byte :: "bool \<Rightarrow> bool \<Rightarrow> u8 \<Rightarrow> oled_pins list" where
  "oled_byte pwr dc c = concat (map (oled_bit pwr dc) (byte_bits c))"

definition oled_msg :: "bool \<Rightarrow> bool \<times> u8 list \<Rightarrow> oled_pins list" where
  "oled_msg pwr m =
     oled_io pwr False True (fst m) False # concat (map (oled_byte pwr (fst m)) (snd m)) @ [oled_io pwr True True (fst m) False]"

text \<open>A device that is powered, out of reset and not selected.\<close>

definition oled_ready :: "bool \<Rightarrow> oled \<Rightarrow> bool" where
  "oled_ready pwr s \<longleftrightarrow> m_state s = (if pwr then OLED_POWERED else OLED_VIO) \<and> m_last_csn s \<and> m_last_sck s
     \<and> m_idx s = 0 \<and> m_bitpos s = 0 \<and> length (m_data s) = 16"

text \<open>In the middle of a message: \<open>i\<close> bytes and \<open>j\<close> bits in, with \<open>x\<close> in the byte being received.\<close>

definition oled_at :: "oled \<Rightarrow> nat \<Rightarrow> nat \<Rightarrow> u8 \<Rightarrow> bool \<Rightarrow> oled" where
  "oled_at s i j x dc = s\<lparr>m_idx := int i, m_bitpos := int j, m_data := (m_data s)[i := x],
     m_last_csn := False, m_last_sck := True, m_last_dcn := dc\<rparr>"

lemma oled_at_bit:
  assumes "m_state s = (if pwr then OLED_POWERED else OLED_VIO)" "length (m_data s) = 16" "i < 11" "j < 7"
  shows "run oled_tick (oled_at s i j x d) (oled_bit pwr dc b) =
     Inr (oled_at s i (Suc j) (push_bit 1 x OR of_bool b) dc, [(), ()])"
  using assms
  by (simp add: oled_bit_def oled_tick_def oled_io_def handle_io_def oled_at_def oled_shift_def Let_def del: push_bit_Suc)

lemma oled_at_last:
  assumes "m_state s = (if pwr then OLED_POWERED else OLED_VIO)" "length (m_data s) = 16" "i < 10"
  shows "run oled_tick (oled_at s i 7 x d) (oled_bit pwr dc b) =
     Inr (oled_at (s\<lparr>m_data := (m_data s)[i := push_bit 1 x OR of_bool b]\<rparr>) (Suc i) 0 (m_data s ! Suc i) dc, [(), ()])"
proof -
  have "(m_data s)[i := y, Suc i := m_data s ! Suc i] = (m_data s)[i := y]" for y
    by (simp add: list_update_swap [of i "Suc i"])
  with assms show ?thesis
    by (cases s) (auto simp: oled_bit_def oled_tick_def oled_io_def handle_io_def oled_at_def oled_shift_def Let_def
        simp del: push_bit_Suc)
qed

lemma oled_at_bits:
  assumes "m_state s = (if pwr then OLED_POWERED else OLED_VIO)" "length (m_data s) = 16" "i < 11" "j + length bs \<le> 7"
  shows "\<exists>us. run oled_tick (oled_at s i j y d) (concat (map (oled_bit pwr dc) bs)) =
      Inr (oled_at s i (j + length bs) (shift8 y bs) (if bs = [] then d else dc), us)"
  using assms(4)
proof (induction bs arbitrary: j y d)
  case Nil
  then show ?case by (simp add: shift8_def)
next
  case (Cons b bs)
  note one = oled_at_bit [OF assms(1-3), of j y d dc b]
  obtain us where "run oled_tick (oled_at s i (Suc j) (push_bit 1 y OR of_bool b) dc) (concat (map (oled_bit pwr dc) bs)) =
      Inr (oled_at s i (Suc j + length bs) (shift8 (push_bit 1 y OR of_bool b) bs) dc, us)"
    using Cons.IH [of "Suc j" "push_bit 1 y OR of_bool b" dc] Cons.prems by auto
  with one Cons.prems show ?case
    by (simp only: list.map concat.simps run_append rbind_simps prod.case) (simp add: shift8_def del: push_bit_Suc)
qed

text \<open>All but the last bit of a byte.\<close>

lemma oled_at_seven:
  assumes "m_state s = (if pwr then OLED_POWERED else OLED_VIO)" "length (m_data s) = 16" "i < 11"
  shows "\<exists>us. run oled_tick (oled_at s i 0 x d) (oled_byte pwr dc c) =
     rbind (run oled_tick (oled_at s i 7 (shift8 x (butlast (byte_bits c))) dc) (oled_bit pwr dc (bit c 0)))
       (\<lambda>(t, vs). Inr (t, us @ vs))"
proof -
  let ?bs = "butlast (byte_bits c)"
  have bb: "byte_bits c = ?bs @ [bit c 0]" "length ?bs = 7" by (simp_all add: byte_bits_def)
  have ne: "?bs \<noteq> []" using bb(2) by force
  obtain us where "run oled_tick (oled_at s i 0 x d) (concat (map (oled_bit pwr dc) ?bs)) = Inr (oled_at s i 7 (shift8 x ?bs) dc, us)"
    using oled_at_bits [OF assms, of 0 ?bs x d dc] bb(2) ne by auto
  then show ?thesis unfolding oled_byte_def by (subst bb(1)) (auto simp: run_append)
qed

lemma oled_at_byte:
  assumes "m_state s = (if pwr then OLED_POWERED else OLED_VIO)" "length (m_data s) = 16" "i < 10"
  shows "\<exists>us. run oled_tick (oled_at s i 0 x d) (oled_byte pwr dc c) =
     Inr (oled_at (s\<lparr>m_data := (m_data s)[i := c]\<rparr>) (Suc i) 0 (m_data s ! Suc i) dc, us)"
proof -
  have "byte_bits c = butlast (byte_bits c) @ [bit c 0]" by (simp add: byte_bits_def)
  then have "push_bit 1 (shift8 x (butlast (byte_bits c))) OR of_bool (bit c 0) = c"
    using shift8_byte [of x c] shift8_snoc [of x "butlast (byte_bits c)" "bit c 0"] by simp
  then show ?thesis
    using oled_at_seven [OF assms(1,2), of i x d dc c] assms(3) oled_at_last [OF assms, of _ dc dc "bit c 0"] by auto
qed

lemma oled_at_bytes:
  assumes "m_state s = (if pwr then OLED_POWERED else OLED_VIO)" "length (m_data s) = 16" "i + length cs \<le> 10"
  shows "\<exists>us. run oled_tick (oled_at s i 0 (m_data s ! i) d) (concat (map (oled_byte pwr dc) cs)) =
     Inr (oled_at (s\<lparr>m_data := take i (m_data s) @ cs @ drop (i + length cs) (m_data s)\<rparr>) (i + length cs) 0
           (m_data s ! (i + length cs)) (if cs = [] then d else dc), us)"
  using assms
proof (induction cs arbitrary: s i d)
  case Nil
  then show ?case by simp
next
  case (Cons c cs)
  let ?t = "s\<lparr>m_data := (m_data s)[i := c]\<rparr>"
  have i: "i < 10" "i < length (m_data s)" "Suc i + length cs \<le> 10" using Cons.prems by simp_all
  obtain us where one: "run oled_tick (oled_at s i 0 (m_data s ! i) d) (oled_byte pwr dc c) =
      Inr (oled_at ?t (Suc i) 0 (m_data ?t ! Suc i) dc, us)"
    using oled_at_byte [OF Cons.prems(1,2) i(1), of "m_data s ! i" d dc c] by (auto simp del: One_nat_def)
  obtain vs where "run oled_tick (oled_at ?t (Suc i) 0 (m_data ?t ! Suc i) dc) (concat (map (oled_byte pwr dc) cs)) =
      Inr (oled_at (?t\<lparr>m_data := take (Suc i) (m_data ?t) @ cs @ drop (Suc i + length cs) (m_data ?t)\<rparr>) (Suc i + length cs) 0
        (m_data ?t ! (Suc i + length cs)) (if cs = [] then dc else dc), vs)"
    using Cons.IH [of ?t "Suc i" dc] Cons.prems i by auto
  moreover have "take (Suc i) (m_data ?t) = take i (m_data s) @ [c]" using i(2) by (simp add: take_Suc_conv_app_nth)
  moreover have "drop (Suc i + length cs) (m_data ?t) = drop (Suc i + length cs) (m_data s)" by simp
  moreover have "m_data ?t ! (Suc i + length cs) = m_data s ! (Suc i + length cs)" by simp
  ultimately show ?case using one by (simp add: run_append)
qed

text \<open>What is not read between two messages.\<close>

definition oled_scrub :: "oled \<Rightarrow> oled" where
  "oled_scrub s = s\<lparr>m_idx := 0, m_bitpos := 0, m_data := replicate 16 0, m_last_csn := True, m_last_sck := True, m_last_dcn := False\<rparr>"

text \<open>The device as an interpreter of messages.\<close>

definition oled_message :: "oled \<Rightarrow> bool \<times> u8 list \<Rightarrow> fault + oled \<times> unit" where
  "oled_message s m =
     c_assert (length (snd m) < 11) (rbind (do_command (fst m) (int (length (snd m))) (snd m) s) (\<lambda>s. Inr (s, ())))"

definition oled_send :: "bool \<Rightarrow> oled \<Rightarrow> bool \<times> u8 list \<Rightarrow> fault + oled \<times> unit" where
  "oled_send pwr s m = rbind (run oled_tick s (oled_msg pwr m)) (\<lambda>(s, _). Inr (s, ()))"

definition oled_shows :: "bool \<Rightarrow> oled \<Rightarrow> oled \<Rightarrow> bool" where
  "oled_shows pwr s a \<longleftrightarrow> oled_ready pwr s \<and> oled_scrub s = oled_scrub a"

definition oled_scratch :: "int \<Rightarrow> int \<Rightarrow> u8 list \<Rightarrow> bool \<Rightarrow> bool \<Rightarrow> bool \<Rightarrow> oled \<Rightarrow> oled" where
  "oled_scratch i j dt c k d s = s\<lparr>m_idx := i, m_bitpos := j, m_data := dt, m_last_csn := c, m_last_sck := k, m_last_dcn := d\<rparr>"

lemma oled_scratch_frame [simp]:
  "m_pix (oled_scratch i j dt c k d s) = m_pix s" "m_format (oled_scratch i j dt c k d s) = m_format s"
  "m_locked (oled_scratch i j dt c k d s) = m_locked s" "m_vaddr_inc (oled_scratch i j dt c k d s) = m_vaddr_inc s"
  "m_col (oled_scratch i j dt c k d s) = m_col s" "m_col_start (oled_scratch i j dt c k d s) = m_col_start s"
  "m_col_end (oled_scratch i j dt c k d s) = m_col_end s" "m_row (oled_scratch i j dt c k d s) = m_row s"
  "m_row_start (oled_scratch i j dt c k d s) = m_row_start s" "m_row_end (oled_scratch i j dt c k d s) = m_row_end s"
  by (simp_all add: oled_scratch_def)

lemma oled_scratch_update [simp]:
  "(oled_scratch i j dt c k d s)\<lparr>m_pix := p\<rparr> = oled_scratch i j dt c k d (s\<lparr>m_pix := p\<rparr>)"
  "(oled_scratch i j dt c k d s)\<lparr>m_format := f\<rparr> = oled_scratch i j dt c k d (s\<lparr>m_format := f\<rparr>)"
  "(oled_scratch i j dt c k d s)\<lparr>m_locked := l\<rparr> = oled_scratch i j dt c k d (s\<lparr>m_locked := l\<rparr>)"
  "(oled_scratch i j dt c k d s)\<lparr>m_vaddr_inc := l\<rparr> = oled_scratch i j dt c k d (s\<lparr>m_vaddr_inc := l\<rparr>)"
  "(oled_scratch i j dt c k d s)\<lparr>m_col := x\<rparr> = oled_scratch i j dt c k d (s\<lparr>m_col := x\<rparr>)"
  "(oled_scratch i j dt c k d s)\<lparr>m_col_start := x\<rparr> = oled_scratch i j dt c k d (s\<lparr>m_col_start := x\<rparr>)"
  "(oled_scratch i j dt c k d s)\<lparr>m_col_end := x\<rparr> = oled_scratch i j dt c k d (s\<lparr>m_col_end := x\<rparr>)"
  "(oled_scratch i j dt c k d s)\<lparr>m_row := x\<rparr> = oled_scratch i j dt c k d (s\<lparr>m_row := x\<rparr>)"
  "(oled_scratch i j dt c k d s)\<lparr>m_row_start := x\<rparr> = oled_scratch i j dt c k d (s\<lparr>m_row_start := x\<rparr>)"
  "(oled_scratch i j dt c k d s)\<lparr>m_row_end := x\<rparr> = oled_scratch i j dt c k d (s\<lparr>m_row_end := x\<rparr>)"
  by (simp_all add: oled_scratch_def)

lemma if_same: "x = x' \<Longrightarrow> y = y' \<Longrightarrow> (if b then x else y) = (if b then x' else y')"
  by simp

lemma c_assert_same: "b = b' \<Longrightarrow> (b' \<Longrightarrow> r = r') \<Longrightarrow> c_assert b r = c_assert b' r'"
  by (simp add: c_assert_def)

lemma oled_pixel_scratch:
  "oled_pixel n xs (oled_scratch i j dt c k d s) = rbind (oled_pixel n xs s) (\<lambda>s. Inr (oled_scratch i j dt c k d s))"
  by (simp add: oled_pixel_def set_gddram_def Let_def c_assert_bind)

lemma oled_command_scratch:
  "oled_command n xs (oled_scratch i j dt c k d s) = rbind (oled_command n xs s) (\<lambda>s. Inr (oled_scratch i j dt c k d s))"
  unfolding oled_command_def Let_def c_assert_bind if_bind rbind_simps
  by (intro if_same c_assert_same refl) simp_all

lemma do_command_scratch:
  "do_command d' n xs (oled_scratch i j dt c k d s) = rbind (do_command d' n xs s) (\<lambda>s. Inr (oled_scratch i j dt c k d s))"
  unfolding do_command_def c_assert_bind if_bind oled_pixel_scratch oled_command_scratch
  by (simp add: oled_unlock_def)

lemma oled_command_cong:
  assumes "\<forall>k < n. xs ! k = ys ! k" "0 < n"
  shows "oled_command (int n) xs s = oled_command (int n) ys s"
proof -
  have "xs ! 0 = ys ! 0" "1 < n \<Longrightarrow> xs ! 1 = ys ! 1" "2 < n \<Longrightarrow> xs ! 2 = ys ! 2" using assms by simp_all
  then show ?thesis
    unfolding oled_command_def Let_def by (simp only:) (intro if_same c_assert_same refl; auto)
qed

lemma do_command_cong:
  assumes "\<forall>k < n. xs ! k = ys ! k"
  shows "do_command d (int n) xs s = do_command d (int n) ys s"
proof (cases "0 < n")
  case True
  have "oled_pixel (int n) xs s = oled_pixel (int n) ys s"
    using assms by (simp add: oled_pixel_def Let_def c_assert_def)
  moreover have "oled_unlock (int n) xs s = oled_unlock (int n) ys s" using assms by (auto simp: oled_unlock_def)
  ultimately show ?thesis using oled_command_cong [OF assms True] by (simp add: do_command_def)
qed (simp add: do_command_def)

lemma do_command_state: "do_command d n xs s = Inr t \<Longrightarrow> m_state t = m_state s"
proof -
  have "safe (\<lambda>t. m_state t = m_state s) (oled_command n xs s)"
    unfolding oled_command_def Let_def by (intro safe_if safe_c_assert) simp_all
  moreover have "safe (\<lambda>t. m_state t = m_state s) (oled_pixel n xs s)"
    by (auto simp: oled_pixel_def Let_def set_gddram_def intro!: safe_rbind [where P = "\<lambda>_. True"] safe_c_assert)
  ultimately have "safe (\<lambda>t. m_state t = m_state s) (do_command d n xs s)"
    unfolding do_command_def by (intro safe_if safe_c_assert) (simp_all add: oled_unlock_def)
  then show "do_command d n xs s = Inr t \<Longrightarrow> ?thesis" by simp
qed

lemma oled_scrub_scratch: "oled_scrub s = oled_scratch 0 0 (replicate 16 0) True True False s"
  by (simp add: oled_scrub_def oled_scratch_def)

lemma oled_scrub_eq:
  "oled_scrub s = oled_scrub a \<Longrightarrow> s = oled_scratch (m_idx s) (m_bitpos s) (m_data s) (m_last_csn s) (m_last_sck s) (m_last_dcn s) a"
  by (cases s; cases a) (simp add: oled_scrub_def oled_scratch_def)

lemma oled_scratch_scratch [simp]: "oled_scratch i j dt c k d (oled_scratch i' j' dt' c' k' d' s) = oled_scratch i j dt c k d s"
  by (simp add: oled_scratch_def)

lemma oled_tick_on:
  "m_state s = (if pwr then OLED_POWERED else OLED_VIO) \<Longrightarrow>
   oled_tick s (oled_io pwr c k d b) = rbind (handle_io c k d b s) (\<lambda>s. Inr (s, ()))"
  by (cases s) (simp add: oled_tick_def oled_io_def)

lemma oled_send_eq:
  assumes "oled_ready pwr s" "length cs < 11" "cs \<noteq> []"
  shows "oled_send pwr s (dc, cs) = rbind (do_command dc (int (length cs)) cs s)
     (\<lambda>t. Inr (oled_scratch 0 0 (replicate 8 0 @ drop 8 (cs @ drop (length cs) (m_data s))) True True dc t, ()))"
proof -
  let ?n = "length cs" and ?d = "cs @ drop (length cs) (m_data s)"
  have s: "m_state s = (if pwr then OLED_POWERED else OLED_VIO)" "m_last_csn s" "m_last_sck s" "m_idx s = 0" "m_bitpos s = 0"
    "length (m_data s) = 16" using assms(1) by (simp_all add: oled_ready_def)
  have 1: "oled_tick s (oled_io pwr False True dc False) = Inr (oled_at s 0 0 (m_data s ! 0) dc, ())"
    using s by (cases s) (simp add: oled_tick_on handle_io_def oled_at_def)
  obtain us where 2: "run oled_tick (oled_at s 0 0 (m_data s ! 0) dc) (concat (map (oled_byte pwr dc) cs)) =
      Inr (oled_at (s\<lparr>m_data := ?d\<rparr>) ?n 0 (m_data s ! ?n) dc, us)"
    using oled_at_bytes [OF s(1,6), of 0 cs dc dc] assms(2) by auto
  have 3: "oled_at (s\<lparr>m_data := ?d\<rparr>) ?n 0 (m_data s ! ?n) dc = oled_scratch (int ?n) 0 ?d False True dc s"
  proof -
    have "?d ! ?n = m_data s ! ?n" using s(6) assms(2) by (simp add: nth_append)
    then have "?d[?n := m_data s ! ?n] = ?d" by (metis list_update_id)
    then show ?thesis by (simp add: oled_at_def oled_scratch_def)
  qed
  have 4: "do_command dc (int ?n) ?d s = do_command dc (int ?n) cs s"
    by (rule do_command_cong) (simp add: nth_append)
  have "oled_tick (oled_scratch (int ?n) 0 ?d False True dc s) (oled_io pwr True True dc False) =
      rbind (do_command dc (int ?n) cs s) (\<lambda>t. Inr (oled_scratch 0 0 (replicate 8 0 @ drop 8 ?d) True True dc t, ()))"
  proof -
    let ?t = "oled_scratch (int ?n) 0 ?d False True dc s"
    have f: "m_state ?t = m_state s" "\<not> m_last_csn ?t" "m_idx ?t = int ?n" "m_bitpos ?t = 0" "m_last_dcn ?t = dc" "m_data ?t = ?d"
      by (simp_all add: oled_scratch_def)
    have "oled_tick ?t (oled_io pwr True True dc False) = rbind (handle_io True True dc False ?t) (\<lambda>s. Inr (s, ()))"
      using f(1) s(1) by (intro oled_tick_on) simp
    also have "oled_end ?t = rbind (do_command dc (int ?n) cs s) (\<lambda>t. Inr (oled_scratch 0 0 (replicate 8 0 @ drop 8 ?d) False True dc t))"
      using assms(3) by (simp add: oled_end_def f do_command_scratch 4) (rule rbind_cong, simp add: oled_scratch_def)
    ultimately show ?thesis by (simp add: handle_io_def f) (rule rbind_cong, simp add: oled_scratch_def)
  qed
  then show ?thesis
    using 2 by (simp add: oled_send_def oled_msg_def 1 run_append 3)
qed

lemma oled_shows_send:
  assumes "oled_shows pwr s a" "oled_message a m = Inr (a', y)"
  shows "\<exists>s' x. oled_send pwr s m = Inr (s', x) \<and> oled_shows pwr s' a' \<and> x = y"
proof -
  obtain dc cs where m: "m = (dc, cs)" by force
  have n: "length cs < 11" "do_command dc (int (length cs)) cs a = Inr a'" "cs \<noteq> []"
    using assms(2) by (auto simp: oled_message_def m do_command_def)
  have r: "oled_ready pwr s" "oled_scrub s = oled_scrub a" using assms(1) by (simp_all add: oled_shows_def)
  define t where "t = oled_scratch (m_idx s) (m_bitpos s) (m_data s) (m_last_csn s) (m_last_sck s) (m_last_dcn s) a'"
  have t: "do_command dc (int (length cs)) cs s = Inr t"
    unfolding t_def by (subst oled_scrub_eq [OF r(2)]) (simp add: do_command_scratch n(2))
  define u where "u = oled_scratch 0 0 (replicate 8 0 @ drop 8 (cs @ drop (length cs) (m_data s))) True True dc t"
  have "oled_send pwr s m = Inr (u, ())" using oled_send_eq [OF r(1) n(1,3)] t by (simp add: m u_def)
  moreover have "oled_ready pwr u"
    using r(1) n(1) do_command_state [OF t] by (simp add: oled_ready_def u_def oled_scratch_def)
  moreover have "oled_scrub u = oled_scrub a'" by (simp add: u_def t_def oled_scrub_scratch)
  ultimately show ?thesis by (auto simp: oled_shows_def)
qed

interpretation oled_powered: step_simulation "oled_send True" oled_message "oled_shows True" "(=)" "\<lambda>_. True"
  by unfold_locales (use oled_shows_send in blast)

interpretation oled_vio: step_simulation "oled_send False" oled_message "oled_shows False" "(=)" "\<lambda>_. True"
  by unfold_locales (use oled_shows_send in blast)

lemma run_oled_send:
  "run (oled_send pwr) s ms = Inr (s', us) \<Longrightarrow> \<exists>vs. run oled_tick s (concat (map (oled_msg pwr) ms)) = Inr (s', vs)"
proof (induction ms arbitrary: s us)
  case (Cons m ms)
  then obtain t where t: "oled_send pwr s m = Inr (t, ())" "\<exists>us. run (oled_send pwr) t ms = Inr (s', us)"
    by (auto split: prod.splits)
  then obtain ws vs where "run oled_tick s (oled_msg pwr m) = Inr (t, ws)" "run oled_tick t (concat (map (oled_msg pwr) ms)) = Inr (s', vs)"
    using Cons.IH by (fastforce simp: oled_send_def split: prod.splits)
  then show ?case by (simp add: run_append)
qed simp

lemma oled_run_messages:
  assumes "oled_ready pwr s" "run oled_message s ms = Inr (a, us)"
  shows "\<exists>s' vs. run oled_tick s (concat (map (oled_msg pwr) ms)) = Inr (s', vs) \<and> oled_ready pwr s' \<and> oled_scrub s' = oled_scrub a"
proof -
  have s: "oled_shows pwr s s" using assms(1) by (simp add: oled_shows_def)
  have "\<exists>s' vs. run (oled_send pwr) s ms = Inr (s', vs) \<and> oled_shows pwr s' a \<and> list_all2 (=) vs us"
  proof (cases pwr)
    case True
    then show ?thesis using oled_powered.run_sim [OF _ _ assms(2)] s by (simp add: list_all_iff)
  next
    case False
    then show ?thesis using oled_vio.run_sim [OF _ _ assms(2)] s by (simp add: list_all_iff)
  qed
  then show ?thesis using run_oled_send by (fastforce simp: oled_shows_def)
qed

section \<open>Painting\<close>

definition rgb565 :: "u8 \<times> u8 \<Rightarrow> shade \<times> shade \<times> shade" where
  "rgb565 p = (Ratio (uint (drop_bit 3 (fst p) AND 0x1f)) 31,
     Ratio (uint ((push_bit 3 (fst p) AND 0x38) OR (drop_bit 5 (snd p) AND 7))) 63, Ratio (uint (snd p AND 0x1f)) 31)"

text \<open>The place of the \<open>k\<close>-th pixel of a window painted row by row, or column by column.\<close>

definition raster :: "bool \<Rightarrow> oled \<Rightarrow> nat \<Rightarrow> int \<times> int" where
  "raster vert s k =
     (let w = m_col_end s - m_col_start s + 1; h = m_row_end s - m_row_start s + 1 in
      if vert then (m_col_start s + (int k div h) mod w, m_row_start s + int k mod h)
      else (m_col_start s + int k mod w, m_row_start s + (int k div w) mod h))"

definition painted :: "oled \<Rightarrow> nat \<Rightarrow> u8 \<times> u8 \<Rightarrow> fill" where
  "painted s k p = (case raster (m_vaddr_inc s) s k of (x, y) \<Rightarrow> Fill (rgb565 p) x y 1 1)"

lemma wrap_step:
  fixes k w :: int
  assumes "0 < w"
  shows "(k + 1) mod w = (if k mod w + 1 = w then 0 else k mod w + 1)"
    "(k + 1) div w = (if k mod w + 1 = w then k div w + 1 else k div w)"
proof -
  have b: "0 \<le> k mod w" "k mod w < w" using assms by simp_all
  have e: "k + 1 = w * (k div w) + (k mod w + 1)" by simp
  show "(k + 1) mod w = (if k mod w + 1 = w then 0 else k mod w + 1)"
  proof (cases "k mod w + 1 = w")
    case True
    then have "k + 1 = w * (k div w + 1)" using e by (simp add: algebra_simps)
    then show ?thesis using True by simp
  next
    case False
    then show ?thesis using e b by (simp only: if_False) (rule int_mod_pos_eq [of _ _ "k div w"], simp_all)
  qed
  show "(k + 1) div w = (if k mod w + 1 = w then k div w + 1 else k div w)"
  proof (cases "k mod w + 1 = w")
    case True
    then have "k + 1 = w * (k div w + 1)" using e by (simp add: algebra_simps)
    then show ?thesis using True assms by simp
  next
    case False
    then show ?thesis using e b by (simp only: if_False) (rule int_div_pos_eq [of _ _ _ "k mod w + 1"], simp_all)
  qed
qed

definition paint_at :: "oled \<Rightarrow> nat \<Rightarrow> fill list \<Rightarrow> oled" where
  "paint_at s k ps = s\<lparr>m_pix := ps, m_col := fst (raster (m_vaddr_inc s) s k), m_row := snd (raster (m_vaddr_inc s) s k)\<rparr>"

lemma raster_step:
  assumes "m_col_start s \<le> m_col_end s" "m_row_start s \<le> m_row_end s"
  shows "raster v s (Suc k) = (case raster v s k of (x, y) \<Rightarrow>
     if \<not> v then if x + 1 > m_col_end s then (m_col_start s, if y + 1 > m_row_end s then m_row_start s else y + 1) else (x + 1, y)
     else if y + 1 > m_row_end s then (if x + 1 > m_col_end s then m_col_start s else x + 1, m_row_start s) else (x, y + 1))"
proof -
  define w where "w = m_col_end s - m_col_start s + 1"
  define h where "h = m_row_end s - m_row_start s + 1"
  have w: "0 < w" "m_col_end s = m_col_start s + w - 1" and h: "0 < h" "m_row_end s = m_row_start s + h - 1"
    using assms by (simp_all add: w_def h_def)
  have b: "x mod w < w" "x mod h < h" for x using w(1) h(1) by simp_all
  have c: "m_col_end s \<le> m_col_start s + x mod w \<longleftrightarrow> x mod w + 1 = w"
      "m_row_end s \<le> m_row_start s + x mod h \<longleftrightarrow> x mod h + 1 = h" for x
    using b [of x] unfolding w(2) h(2) by linarith+
  have n: "int (Suc k) = int k + 1" by simp
  show ?thesis
    unfolding raster_def Let_def w_def [symmetric] h_def [symmetric] n wrap_step [OF w(1), of "int k"] wrap_step [OF h(1), of "int k"]
    by (cases v; cases "int k mod w + 1 = w"; cases "int k mod h + 1 = h";
        cases "(int k div w) mod h + 1 = h"; cases "(int k div h) mod w + 1 = w")
       (simp_all add: c wrap_step [OF w(1)] wrap_step [OF h(1)])
qed

lemma oled_paint_step:
  assumes "m_format s = OLED_65kCLR" "m_col_start s \<le> m_col_end s" "m_row_start s \<le> m_row_end s"
  shows "oled_message (paint_at s k ps) (True, [fst p, snd p]) = Inr (paint_at s (Suc k) (ps @ [painted s k p]), ())"
proof -
  show ?thesis
    using raster_step [OF assms(2,3), of "m_vaddr_inc s" k] assms(1)
    by (cases "m_vaddr_inc s")
       (simp_all add: oled_message_def do_command_def oled_pixel_def paint_at_def painted_def Let_def set_gddram_def rgb565_def
         case_prod_beta)
qed

lemma oled_paint_run:
  assumes "m_format s = OLED_65kCLR" "m_col_start s \<le> m_col_end s" "m_row_start s \<le> m_row_end s"
  shows "\<exists>us. run oled_message (paint_at s k ps) (map (\<lambda>p. (True, [fst p, snd p])) px) =
     Inr (paint_at s (k + length px) (ps @ map2 (painted s) [k..<k + length px] px), us)"
proof (induction px arbitrary: k ps)
  case (Cons p px)
  obtain us where "run oled_message (paint_at s (Suc k) (ps @ [painted s k p])) (map (\<lambda>p. (True, [fst p, snd p])) px) =
      Inr (paint_at s (Suc k + length px) ((ps @ [painted s k p]) @ map2 (painted s) [Suc k..<Suc k + length px] px), us)"
    using Cons.IH by blast
  moreover have "[k..<k + length (p # px)] = k # [Suc k..<Suc k + length px]" by (subst upt_conv_Cons) simp_all
  ultimately show ?case using oled_paint_step [OF assms] by simp
qed simp

text \<open>C19: pixels sent to a display that is at the start of its window, each as a message of two
  bytes on the SPI pins, are painted on successive pixels of the window, row by row, or column by
  column when the vertical increment is selected, and again from the start when the window is
  full; each in its own 5-6-5 colour, with nothing else painted.\<close>

theorem oled_paints_window:
  assumes "oled_ready pwr s" "m_format s = OLED_65kCLR" "m_col_start s \<le> m_col_end s" "m_row_start s \<le> m_row_end s"
    "m_col s = m_col_start s" "m_row s = m_row_start s"
  shows "\<exists>s' us. run oled_tick s (concat (map (\<lambda>p. oled_msg pwr (True, [fst p, snd p])) px)) = Inr (s', us)
    \<and> oled_ready pwr s' \<and> m_pix s' = m_pix s @ map2 (painted s) [0..<length px] px
    \<and> (m_col s', m_row s') = raster (m_vaddr_inc s) s (length px)"
proof -
  have s: "paint_at s 0 (m_pix s) = s" using assms(5,6) by (cases s) (simp add: paint_at_def raster_def Let_def)
  obtain us where "run oled_message s (map (\<lambda>p. (True, [fst p, snd p])) px) =
      Inr (paint_at s (length px) (m_pix s @ map2 (painted s) [0..<length px] px), us)"
    using oled_paint_run [OF assms(2-4), of 0 "m_pix s" px] s by auto
  from oled_run_messages [OF assms(1) this] obtain s' vs where
    s': "run oled_tick s (concat (map (\<lambda>p. oled_msg pwr (True, [fst p, snd p])) px)) = Inr (s', vs)" "oled_ready pwr s'"
    "oled_scrub s' = oled_scrub (paint_at s (length px) (m_pix s @ map2 (painted s) [0..<length px] px))"
    by (auto simp: o_def)
  let ?a = "paint_at s (length px) (m_pix s @ map2 (painted s) [0..<length px] px)"
  have "m_pix s' = m_pix ?a" "m_col s' = m_col ?a" "m_row s' = m_row ?a"
    using arg_cong [OF s'(3), of m_pix] arg_cong [OF s'(3), of m_col] arg_cong [OF s'(3), of m_row]
    by (simp_all add: oled_scrub_def)
  with s'(1,2) show ?thesis by (auto simp: paint_at_def)
qed

section \<open>Errors\<close>

text \<open>the command that sets the rows of the window checks the order of the rows that were set
  before and not that of the new ones, and does not move the current row.  A window with its last
  row above its first is accepted, and from then on no row command is.\<close>

theorem oled_row_window_order:
  assumes "\<not> m_locked s" "m_row_start s \<le> m_row_end s" "a \<le> 63" "b \<le> 63"
  shows "\<exists>t. oled_message s (False, [0x75, a, b]) = Inr (t, ()) \<and> m_row_start t = uint a \<and> m_row_end t = uint b
      \<and> m_row t = m_row s \<and> (\<forall>a' b'. b < a \<longrightarrow> oled_message t (False, [0x75, a', b']) = Inl Assertion)"
  using assms
  by (simp add: oled_message_def do_command_def oled_command_def Let_def c_assert_def word_less_def not_le)

lemma oled_at_full:
  assumes "m_state s = (if pwr then OLED_POWERED else OLED_VIO)" "length (m_data s) = 16"
  shows "run oled_tick (oled_at s 10 7 x d) (oled_bit pwr dc b) = Inl Assertion"
  using assms
  by (cases s) (auto simp: oled_bit_def oled_tick_def oled_io_def handle_io_def oled_at_def oled_shift_def Let_def
      simp del: push_bit_Suc)

text \<open>the buffer check refuses the eleventh byte of a message, so the command of eleven bytes,
  which draws a rectangle, always stops the simulator although \<open>do_command\<close> knows it.\<close>

theorem oled_eleven_bytes_fail:
  assumes "oled_ready pwr s" "length cs = 11"
  shows "run oled_tick s (oled_msg pwr (dc, cs)) = Inl Assertion
    \<and> (\<not> m_locked s \<and> cs ! 0 = 0x22 \<longrightarrow> do_command False 11 cs s = Inr s)"
proof (intro conjI impI)
  have s: "m_state s = (if pwr then OLED_POWERED else OLED_VIO)" "m_last_csn s" "m_last_sck s" "m_idx s = 0" "m_bitpos s = 0"
    "length (m_data s) = 16" using assms(1) by (simp_all add: oled_ready_def)
  obtain bs c where cs: "cs = bs @ [c]" "length bs = 10" using assms(2) by (cases cs rule: rev_cases) simp_all
  let ?t = "s\<lparr>m_data := bs @ drop 10 (m_data s)\<rparr>"
  have "oled_tick s (oled_io pwr False True dc False) = Inr (oled_at s 0 0 (m_data s ! 0) dc, ())"
    using s by (cases s) (simp add: oled_tick_on handle_io_def oled_at_def)
  moreover obtain us where "run oled_tick (oled_at s 0 0 (m_data s ! 0) dc) (concat (map (oled_byte pwr dc) bs)) =
      Inr (oled_at ?t 10 0 (m_data s ! 10) dc, us)"
    using oled_at_bytes [OF s(1,6), of 0 bs dc dc] cs(2) by auto
  moreover have "run oled_tick (oled_at ?t 10 0 (m_data s ! 10) dc) (oled_byte pwr dc c) = Inl Assertion"
    using oled_at_seven [of ?t pwr 10 "m_data s ! 10" dc dc c] oled_at_full [of ?t pwr _ dc dc "bit c 0"] s(1,6) cs(2) by auto
  ultimately show "run oled_tick s (oled_msg pwr (dc, cs)) = Inl Assertion"
    by (simp add: oled_msg_def cs(1) run_append)
next
  assume "\<not> m_locked s \<and> cs ! 0 = 0x22"
  then show "do_command False 11 cs s = Inr s" by (simp add: do_command_def oled_command_def)
qed

section \<open>Concrete runs\<close>

definition oled_example :: oled where
  "oled_example = (oled_new 0 0 0 (replicate 16 0))\<lparr>m_state := OLED_POWERED, m_locked := False\<rparr>"

theorem oled_draws_on_screen_witness:
  "safe (\<lambda>(s, _). list_all on_screen (m_pix s) \<and> 0 \<le> m_idx s \<and> m_idx s < int (length (m_data s)))
     (run oled_tick (oled_on_realize (oled_new 0 7 3 (replicate 16 0xff))) (oled_msg True (True, [1, 2])))"
  by (rule oled_draws_on_screen) simp_all

theorem oled_paints_window_witness:
  "\<exists>s' us. run oled_tick (oled_example\<lparr>m_col_end := 1\<rparr>) (concat (map (\<lambda>p. oled_msg True (True, [fst p, snd p]))
      [(0xf8, 0x00), (0x07, 0xe0), (0x00, 0x1f)])) = Inr (s', us)
    \<and> m_pix s' = [Fill (Ratio 31 31, Ratio 0 63, Ratio 0 31) 0 0 1 1, Fill (Ratio 0 31, Ratio 63 63, Ratio 0 31) 1 0 1 1,
                  Fill (Ratio 0 31, Ratio 0 63, Ratio 31 31) 0 1 1 1]
    \<and> (m_col s', m_row s') = (1, 1)"
proof -
  have c: "rgb565 (0xf8, 0x00) = (Ratio 31 31, Ratio 0 63, Ratio 0 31)" "rgb565 (0x07, 0xe0) = (Ratio 0 31, Ratio 63 63, Ratio 0 31)"
    "rgb565 (0x00, 0x1f) = (Ratio 0 31, Ratio 0 63, Ratio 31 31)" by code_simp+
  have "oled_ready True (oled_example\<lparr>m_col_end := 1\<rparr>)" by (simp add: oled_ready_def oled_example_def oled_new_def)
  then show ?thesis
    using oled_paints_window [of True "oled_example\<lparr>m_col_end := 1\<rparr>" "[(0xf8, 0x00), (0x07, 0xe0), (0x00, 0x1f)]"]
    by (auto simp: oled_example_def oled_new_def painted_def raster_def Let_def c eval_nat_numeral)
qed

theorem oled_row_window_order_witness:
  "\<exists>t. oled_message oled_example (False, [0x75, 9, 5]) = Inr (t, ()) \<and> m_row_start t = 9 \<and> m_row_end t = 5
     \<and> oled_message t (False, [0x75, 0, 63]) = Inl Assertion"
  using oled_row_window_order [of oled_example 9 5] by (auto simp: oled_example_def oled_new_def)

theorem oled_eleven_bytes_fail_witness:
  "run oled_tick oled_example (oled_msg True (False, 0x22 # replicate 10 0)) = Inl Assertion
     \<and> do_command False 11 (0x22 # replicate 10 0) oled_example = Inr oled_example"
  using oled_eleven_bytes_fail [of True oled_example "0x22 # replicate 10 0" False]
  by (simp add: oled_ready_def oled_example_def oled_new_def)

end
