(* ===== verification/DblUart.thy ===== *)
theory DblUart
  imports Uart
begin

text \<open>
  The serial port shared by a command and a console connection, class \<open>DBLUARTSIM\<close> of
  \<open>sim/verilated/dbluartsim.cpp\<close>: the eighth bit of a character on the wire tells which of the two
  it belongs to.  Its receiver and transmitter are those of \<open>UARTSIM\<close>, the definitions of
  theory \<open>Uart\<close>.

  What \<open>accept\<close>, \<open>recv\<close> and \<open>send\<close> answer during a tick is an argument of it; \<open>poll\<close> is taken not to
  fail and never reports a negative descriptor.  What the port does to the outside, bytes accepted
  by a connection, text printed and descriptors closed, is the list it returns.
\<close>

section \<open>State\<close>

definition DBLPIPEBUFLEN :: int where "DBLPIPEBUFLEN = 256"

record dbluart = uart_line +
  d_skt :: int
  m_console :: int
  m_cmd :: int
  m_con :: int
  m_conbuf :: "u8 list"
  m_cmdbuf :: "u8 list"
  m_rxbuf :: "u8 list"
  m_cmdline :: "u8 list"
  m_ilen :: int
  m_rxpos :: int
  m_cmdpos :: int
  m_conpos :: int
  m_cllen :: int
  m_copy :: bool

datatype dbl_out = Sent int "u8 list" | Printed "u8 list" | Closed int | Shut int

text \<open>
  The environment during a tick.  \<open>rd_cmd\<close> and \<open>rd_con\<close> are what is waiting on a connection that
  \<open>poll\<close> reports as readable; no byte at all stands for an end of file or an error.  A \<open>send\<close> of
  \<open>n\<close> bytes returns \<open>snd_cmd n\<close> or \<open>snd_con n\<close>.
\<close>

record dbl_in =
  d_tx :: int
  acc_cmd :: "int option"
  acc_con :: "int option"
  rd_cmd :: "u8 list option"
  rd_con :: "u8 list option"
  snd_cmd :: "nat \<Rightarrow> int"
  snd_con :: "nat \<Rightarrow> int"

type_synonym 'a dbl = "fault + dbluart \<times> 'a"

definition c_string :: "u8 list \<Rightarrow> u8 list" where
  "c_string bs = takeWhile (\<lambda>c. c \<noteq> 0) bs"

definition store_bytes :: "u8 list \<Rightarrow> nat \<Rightarrow> u8 list \<Rightarrow> u8 list" where
  "store_bytes xs k buf = take k buf @ xs @ drop (k + length xs) buf"

text \<open>The constructor, into raw storage, with the two listening sockets.\<close>

definition dbl_new :: "dbluart \<Rightarrow> int \<Rightarrow> int \<Rightarrow> bool \<Rightarrow> dbluart" where
  "dbl_new u skt console copy =
     (let s = u\<lparr>m_copy := copy, m_con := - 1, m_cmd := - 1, d_skt := skt, m_console := console,
                m_rxpos := 0, m_cmdpos := 0, m_conpos := 0, m_ilen := 0\<rparr>;
          s = uart_setup 25 s
      in s\<lparr>m_rx_baudcounter := 0, m_tx_baudcounter := 0, m_rx_state := IDLE, m_tx_state := IDLE, m_cllen := 0\<rparr>)"

text \<open>\<open>"\n[SIM] Connection-Closed\n"\<close>\<close>

definition SIM_CLOSED :: "u8 list" where
  "SIM_CLOSED = [0x0a, 0x5b, 0x53, 0x49, 0x4d, 0x5d, 0x20, 0x43, 0x6f, 0x6e, 0x6e, 0x65, 0x63, 0x74, 0x69, 0x6f, 0x6e,
     0x2d, 0x43, 0x6c, 0x6f, 0x73, 0x65, 0x64, 0x0a]"

text \<open>
  \<open>kill\<close>; the last argument is the count \<open>write\<close> returns.  What is read after the shutdown is
  thrown away.
\<close>

definition dbl_kill :: "dbl_in \<Rightarrow> int \<Rightarrow> dbluart \<Rightarrow> dbluart \<times> dbl_out list" where
  "dbl_kill i nw s =
     (let o1 = (if 0 \<le> m_con s
                then (if 0 < m_conpos s
                      then [Sent (m_con s) (take (nat (snd_con i (nat (m_conpos s)))) (take (nat (m_conpos s)) (m_conbuf s)))] else [])
                  @ [Sent (m_con s) (take (nat nw) SIM_CLOSED)] @ (if 0 < nw then [Shut (m_con s)] else []) else []);
          o2 = (if 0 \<le> d_skt s then [Closed (d_skt s)] else []);
          o3 = (if 0 \<le> m_console s then [Closed (m_console s)] else []);
          o4 = (if 0 \<le> m_cmd s
                then (if 0 < m_cmdpos s
                      then [Sent (m_cmd s) (take (nat (snd_cmd i (nat (m_cmdpos s)))) (take (nat (m_cmdpos s)) (m_cmdbuf s)))] else [])
                  @ [Shut (m_cmd s)] else [])
      in (s\<lparr>m_con := - 1, d_skt := - 1, m_console := - 1, m_cmd := - 1\<rparr>, o1 @ o2 @ o3 @ o4))"

section \<open>Connections\<close>

definition dbl_poll_accept :: "dbl_in \<Rightarrow> dbluart \<Rightarrow> dbluart" where
  "dbl_poll_accept i s =
     (let s = (if m_cmd s < 0 \<and> 0 \<le> d_skt s then (case acc_cmd i of Some fd \<Rightarrow> s\<lparr>m_cmd := fd\<rparr> | None \<Rightarrow> s) else s)
      in if m_con s < 0 \<and> 0 \<le> m_console s then (case acc_con i of Some fd \<Rightarrow> s\<lparr>m_con := fd\<rparr> | None \<Rightarrow> s) else s)"

text \<open>The echo of a command line, character by character.\<close>

definition echo_line :: "u8 list \<Rightarrow> u8 list \<Rightarrow> dbl_out" where
  "echo_line line tail = Printed ([0x3c, 0x20] @ c_string line @ tail)"

definition cmd_echo :: "u8 \<Rightarrow> dbluart \<Rightarrow> dbl_out list dbl" where
  "cmd_echo c s =
     in_bounds (0 \<le> m_cllen s \<and> m_cllen s < DBLPIPEBUFLEN)
       (let s = s\<lparr>m_cmdline := (m_cmdline s)[nat (m_cllen s) := c]\<rparr>;
            (s, o1) = (if c \<noteq> 0x0d
                       then if c = 0x0a
                            then let s = s\<lparr>m_cmdline := (m_cmdline s)[nat (m_cllen s) := 0]\<rparr>
                                 in (s\<lparr>m_cllen := 0\<rparr>, [echo_line (m_cmdline s) [0x0a]])
                            else (s\<lparr>m_cllen := m_cllen s + 1\<rparr>, [])
                       else (s, []))
        in if 64 \<le> m_cllen s
           then in_bounds (m_cllen s + 1 < DBLPIPEBUFLEN)
                  (let s = s\<lparr>m_cmdline := (m_cmdline s)[nat (m_cllen s + 1) := 0]\<rparr>
                   in Inr (s\<lparr>m_cllen := 0\<rparr>, o1 @ [echo_line (m_cmdline s) [0x0a]]))
           else Inr (s, o1))"

fun cmd_echoes :: "u8 list \<Rightarrow> dbluart \<Rightarrow> dbl_out list dbl" where
  "cmd_echoes [] s = Inr (s, [])"
| "cmd_echoes (c # cs) s =
     rbind (cmd_echo c s) (\<lambda>(s, o1). rbind (cmd_echoes cs s) (\<lambda>(s, o2). Inr (s, o1 @ o2)))"

text \<open>\<open>" [CLOSED]\n"\<close>\<close>

definition CLOSED_MARK :: "u8 list" where
  "CLOSED_MARK = [0x20, 0x5b, 0x43, 0x4c, 0x4f, 0x53, 0x45, 0x44, 0x5d, 0x0a]"

text \<open>What is read of one connection, after the bytes already in the buffer.\<close>

definition dbl_recv_cmd :: "u8 list \<Rightarrow> dbluart \<Rightarrow> dbl_out list dbl" where
  "dbl_recv_cmd avail s =
     in_bounds (0 \<le> m_ilen s \<and> m_ilen s \<le> DBLPIPEBUFLEN)
       (let bs = take (nat (DBLPIPEBUFLEN - m_ilen s)) avail in
        rbind (cmd_echoes bs s) (\<lambda>(s, o1).
        in_bounds (0 \<le> m_cllen s \<and> m_cllen s < DBLPIPEBUFLEN)
          (let s = s\<lparr>m_rxbuf := store_bytes (map (\<lambda>c. c OR 0x80) bs) (nat (m_ilen s)) (m_rxbuf s),
                     m_cmdline := (m_cmdline s)[nat (m_cllen s) := 0]\<rparr>
           in if bs = []
              then Inr (s\<lparr>m_cllen := 0, m_cmd := - 1\<rparr>, o1 @ [echo_line (m_cmdline s) CLOSED_MARK, Closed (m_cmd s)])
              else Inr (s\<lparr>m_ilen := m_ilen s + int (length bs)\<rparr>, o1))))"

definition dbl_recv_con :: "u8 list \<Rightarrow> dbluart \<Rightarrow> dbl_out list dbl" where
  "dbl_recv_con avail s =
     in_bounds (0 \<le> m_ilen s \<and> m_ilen s \<le> DBLPIPEBUFLEN)
       (let bs = take (nat (DBLPIPEBUFLEN - m_ilen s)) avail;
            s = s\<lparr>m_rxbuf := store_bytes bs (nat (m_ilen s)) (m_rxbuf s)\<rparr>
        in if bs = [] then Inr (s\<lparr>m_con := - 1\<rparr>, [Closed (m_con s)])
           else Inr (s\<lparr>m_ilen := m_ilen s + int (length bs)\<rparr>, []))"

definition dbl_poll_read :: "dbl_in \<Rightarrow> dbluart \<Rightarrow> dbl_out list dbl" where
  "dbl_poll_read i s =
     (if m_cmd s < 0 \<and> m_con s < 0 then Inr (s, [])
      else let rc = (if 0 \<le> m_cmd s then rd_cmd i else None);
               rn = (if 0 \<le> m_con s then rd_con i else None)
           in if rc = None \<and> rn = None then Inr (s, [])
              else rbind (case rc of None \<Rightarrow> Inr (s, []) | Some bs \<Rightarrow> dbl_recv_cmd bs s) (\<lambda>(s, o1).
                   rbind (if rc \<noteq> None \<and> 0 \<le> m_cmd s \<and> m_ilen s = DBLPIPEBUFLEN then Inr (s, [])
                          else case rn of None \<Rightarrow> Inr (s, []) | Some bs \<Rightarrow> dbl_recv_con bs s) (\<lambda>(s, o2).
                   Inr (s\<lparr>m_rxpos := 0\<rparr>, o1 @ o2))))"

section \<open>Characters\<close>

text \<open>A character from the wire: to the command line being gathered, or to the console.\<close>

definition dbl_sort :: "u8 \<Rightarrow> dbluart \<Rightarrow> fault + dbluart" where
  "dbl_sort ch s =
     (if ch AND 0x80 \<noteq> 0
      then in_bounds (0 \<le> m_cmdpos s \<and> m_cmdpos s < DBLPIPEBUFLEN)
             (Inr (s\<lparr>m_cmdbuf := (m_cmdbuf s)[nat (m_cmdpos s) := ch AND 0x7f], m_cmdpos := m_cmdpos s + 1\<rparr>))
      else in_bounds (0 \<le> m_conpos s \<and> m_conpos s < DBLPIPEBUFLEN)
             (Inr (s\<lparr>m_conbuf := (m_conbuf s)[nat (m_conpos s) := ch AND 0x7f], m_conpos := m_conpos s + 1\<rparr>)))"

definition dbl_flush_cmd :: "dbl_in \<Rightarrow> dbluart \<Rightarrow> dbl_out list dbl" where
  "dbl_flush_cmd i s =
     (if 0 < m_cmdpos s \<and> (m_cmdbuf s ! nat (m_cmdpos s - 1) = 0x0a \<or> m_cmdpos s \<ge> DBLPIPEBUFLEN - 2)
      then let bs = take (nat (m_cmdpos s)) (m_cmdbuf s);
               snt = (if 0 \<le> m_cmd s then snd_cmd i (length bs) else m_cmdpos s);
               o1 = (if 0 \<le> m_cmd s then [Sent (m_cmd s) (take (nat snt) bs)] else []);
               (s, o2) = (if snt < 0 then (s\<lparr>m_cmd := - 1\<rparr>, [Closed (m_cmd s)]) else (s, []))
           in in_bounds (m_cmdpos s < DBLPIPEBUFLEN)
                (let s = s\<lparr>m_cmdbuf := (m_cmdbuf s)[nat (m_cmdpos s) := 0]\<rparr>;
                     o3 = (if m_copy s then [Printed ([0x3e, 0x20] @ c_string (m_cmdbuf s))] else [])
                 in Inr (s\<lparr>m_cmdpos := 0\<rparr>, o1 @ o2 @ o3))
      else Inr (s, []))"

definition dbl_send_con :: "dbl_in \<Rightarrow> dbluart \<Rightarrow> dbluart \<times> dbl_out list" where
  "dbl_send_con i s =
     (if 0 \<le> m_con s \<and> 0 < m_conpos s
      then let snt = snd_con i 1;
               o1 = [Sent (m_con s) (take (nat snt) [m_conbuf s ! nat (m_conpos s - 1)])];
               (s, o2) = (if snt < 0 then (s\<lparr>m_con := - 1\<rparr>, [Closed (m_con s)]) else (s, []))
           in (s\<lparr>m_conpos := 0\<rparr>, o1 @ o2)
      else (s, []))"

definition dbl_print_con :: "dbluart \<Rightarrow> dbl_out list dbl" where
  "dbl_print_con s =
     (if 0 < m_conpos s \<and> (m_conbuf s ! nat (m_conpos s - 1) = 0x0a \<or> m_conpos s \<ge> DBLPIPEBUFLEN - 2)
      then in_bounds (m_conpos s < DBLPIPEBUFLEN)
             (let s = s\<lparr>m_conbuf := (m_conbuf s)[nat (m_conpos s) := 0]\<rparr>
              in Inr (s\<lparr>m_conpos := 0\<rparr>, [Printed (c_string (m_conbuf s))]))
      else Inr (s, []))"

definition dbl_received :: "dbl_in \<Rightarrow> u8 \<Rightarrow> dbluart \<Rightarrow> dbl_out list dbl" where
  "dbl_received i ch s =
     rbind (dbl_sort ch s) (\<lambda>s.
     rbind (dbl_flush_cmd i s) (\<lambda>(s, o1).
     case dbl_send_con i s of (s, o2) \<Rightarrow>
     rbind (dbl_print_con s) (\<lambda>(s, o3). Inr (s, o1 @ o2 @ o3))))"

text \<open>The next character for the wire, or \<open>-1\<close>.\<close>

definition dbl_next :: "dbluart \<Rightarrow> dbl_in \<Rightarrow> fault + dbluart \<times> (int \<times> dbl_out list)" where
  "dbl_next s i =
     rbind (if m_ilen s = 0 then dbl_poll_read i s else Inr (s, [])) (\<lambda>(s, os).
     if m_ilen s \<le> 0 then Inr (s, (- 1, os))
     else in_bounds (0 \<le> m_rxpos s \<and> m_rxpos s < DBLPIPEBUFLEN)
            (Inr (s\<lparr>m_rxpos := m_rxpos s + 1, m_ilen := m_ilen s - 1\<rparr>, (uint (m_rxbuf s ! nat (m_rxpos s)), os))))"

section \<open>One tick\<close>

definition dbl_tick :: "dbluart \<Rightarrow> dbl_in \<Rightarrow> fault + dbluart \<times> (int \<times> dbl_out list)" where
  "dbl_tick s i =
     (let s = dbl_poll_accept i s;
          s = uart_change (d_tx i) s;
          (s, c) = uart_rx (d_tx i) s
      in rbind (case c of None \<Rightarrow> Inr (s, []) | Some ch \<Rightarrow> dbl_received i ch s) (\<lambda>(s, o1).
         if m_tx_state s = IDLE
         then rbind (dbl_next s i) (\<lambda>(s, ch, o2).
              if 0 \<le> ch then Inr (uart_tx_load (word_of_int ch) s, (0, o1 @ o2)) else Inr (s, (1, o1 @ o2)))
         else case uart_tx_tick s of (s, o_rx) \<Rightarrow> Inr (s, (o_rx, o1))))"

definition dbl_tick_setup :: "u32 \<Rightarrow> dbluart \<Rightarrow> dbl_in \<Rightarrow> fault + dbluart \<times> (int \<times> dbl_out list)" where
  "dbl_tick_setup isetup s i = dbl_tick (uart_setup isetup s) i"

section \<open>The buffers\<close>

definition dbl_wf :: "dbluart \<Rightarrow> bool" where
  "dbl_wf s \<longleftrightarrow> length (m_conbuf s) = 256 \<and> length (m_cmdbuf s) = 256 \<and> length (m_rxbuf s) = 256 \<and> length (m_cmdline s) = 256
     \<and> 0 \<le> m_ilen s \<and> 0 \<le> m_rxpos s \<and> m_rxpos s + m_ilen s \<le> 256
     \<and> 0 \<le> m_cmdpos s \<and> m_cmdpos s < 254 \<and> 0 \<le> m_conpos s \<and> m_conpos s < 254 \<and> 0 \<le> m_cllen s \<and> m_cllen s < 64"

lemma length_store_bytes: "k + length xs \<le> length buf \<Longrightarrow> length (store_bytes xs k buf) = length buf"
  by (simp add: store_bytes_def)

definition sound :: "('a \<Rightarrow> bool) \<Rightarrow> fault + 'a \<Rightarrow> bool" where
  "sound P r \<longleftrightarrow> (\<exists>x. r = Inr x \<and> P x)"

lemma sound_simps [simp]: "sound P (Inr x) = P x" "\<not> sound P (Inl e)"
  by (simp_all add: sound_def)

lemma sound_rbind: "sound P r \<Longrightarrow> (\<And>x. P x \<Longrightarrow> sound Q (f x)) \<Longrightarrow> sound Q (rbind r f)"
  by (cases r) simp_all

lemma sound_bind:
  assumes "sound (\<lambda>r. P (fst r)) r" "\<And>s x. P s \<Longrightarrow> sound Q (f s x)"
  shows "sound Q (rbind r (\<lambda>(s, x). f s x))"
  using assms(1) by (rule sound_rbind) (auto intro: assms(2))

lemma sound_in_bounds: "b \<Longrightarrow> sound P r \<Longrightarrow> sound P (in_bounds b r)"
  by simp

lemma cmd_echo_sound: "dbl_wf s \<Longrightarrow> sound (\<lambda>r. dbl_wf (fst r) \<and> m_ilen (fst r) = m_ilen s) (cmd_echo c s)"
  by (auto simp: cmd_echo_def Let_def dbl_wf_def DBLPIPEBUFLEN_def)

lemma cmd_echoes_sound: "dbl_wf s \<Longrightarrow> sound (\<lambda>r. dbl_wf (fst r) \<and> m_ilen (fst r) = m_ilen s) (cmd_echoes cs s)"
proof (induction cs arbitrary: s)
  case (Cons c cs)
  show ?case unfolding cmd_echoes.simps
    using cmd_echo_sound [OF Cons.prems, of c] by (rule sound_rbind) (auto intro!: sound_rbind [OF Cons.IH])
qed simp

lemma dbl_recv_cmd_sound:
  assumes "dbl_wf s" "m_ilen s = 0"
  shows "sound (\<lambda>r. dbl_wf ((fst r)\<lparr>m_rxpos := 0\<rparr>)) (dbl_recv_cmd bs s)"
proof -
  have "sound (\<lambda>r. dbl_wf (fst r) \<and> m_ilen (fst r) = 0) (cmd_echoes (take 256 bs) s)"
    using cmd_echoes_sound [OF assms(1)] assms(2) by simp
  then show ?thesis
    unfolding dbl_recv_cmd_def Let_def
    using assms(2)
    by (auto simp: DBLPIPEBUFLEN_def dbl_wf_def length_store_bytes intro!: sound_rbind)
qed

lemma dbl_recv_con_sound:
  assumes "dbl_wf (s\<lparr>m_rxpos := 0\<rparr>)"
  shows "sound (\<lambda>r. dbl_wf ((fst r)\<lparr>m_rxpos := 0\<rparr>)) (dbl_recv_con bs s)"
  using assms
  by (auto simp: dbl_recv_con_def Let_def DBLPIPEBUFLEN_def dbl_wf_def length_store_bytes min_def)

lemma dbl_wf_rxpos: "dbl_wf s \<Longrightarrow> m_ilen s = 0 \<Longrightarrow> dbl_wf (s\<lparr>m_rxpos := 0\<rparr>)"
  by (simp add: dbl_wf_def)

lemma dbl_poll_read_sound:
  assumes "dbl_wf s" "m_ilen s = 0"
  shows "sound (\<lambda>r. dbl_wf (fst r)) (dbl_poll_read i s)"
proof -
  let ?P = "\<lambda>t. dbl_wf (t\<lparr>m_rxpos := 0\<rparr>)"
  have c: "sound (\<lambda>r. ?P (fst r)) (case x of None \<Rightarrow> Inr (s, []) | Some bs \<Rightarrow> dbl_recv_cmd bs s)" for x
    using assms by (cases x) (simp_all add: dbl_wf_rxpos dbl_recv_cmd_sound)
  have n: "sound (\<lambda>r. ?P (fst r)) (if b then Inr (t, []) else case x of None \<Rightarrow> Inr (t, []) | Some bs \<Rightarrow> dbl_recv_con bs t)"
    if "?P t" for b x t using that by (cases x) (simp_all add: dbl_recv_con_sound)
  show ?thesis
  proof (cases "m_cmd s < 0 \<and> m_con s < 0 \<or> (if 0 \<le> m_cmd s then rd_cmd i else None) = None \<and> (if 0 \<le> m_con s then rd_con i else None) = None")
    case True
    then show ?thesis using assms by (auto simp: dbl_poll_read_def)
  next
    case False
    then show ?thesis
      unfolding dbl_poll_read_def Let_def
      by (simp only: de_Morgan_disj if_False simp_thms) (intro sound_bind [where P = ?P, OF c] sound_bind [where P = ?P, OF n]; simp)
  qed
qed

lemma dbl_received_sound:
  assumes "dbl_wf s"
  shows "sound (\<lambda>r. dbl_wf (fst r)) (dbl_received i ch s)"
proof -
  let ?pre = "\<lambda>t. dbl_wf (t\<lparr>m_cmdpos := 0, m_conpos := 0\<rparr>) \<and> 0 \<le> m_cmdpos t \<and> m_cmdpos t < 255 \<and> 0 \<le> m_conpos t \<and> m_conpos t < 255"
  let ?mid = "\<lambda>t. dbl_wf (t\<lparr>m_conpos := 0\<rparr>) \<and> 0 \<le> m_conpos t \<and> m_conpos t < 255"
  have 1: "sound ?pre (dbl_sort ch s)" using assms by (auto simp: dbl_sort_def dbl_wf_def DBLPIPEBUFLEN_def)
  have 2: "?pre t \<Longrightarrow> sound (\<lambda>r. ?mid (fst r)) (dbl_flush_cmd i t)" for t
    by (auto simp: dbl_flush_cmd_def Let_def dbl_wf_def DBLPIPEBUFLEN_def)
  have 3: "?mid t \<Longrightarrow> ?mid (fst (dbl_send_con i t))" for t
    by (auto simp: dbl_send_con_def Let_def dbl_wf_def)
  have 4: "?mid t \<Longrightarrow> sound (\<lambda>r. dbl_wf (fst r)) (dbl_print_con t)" for t
    by (auto simp: dbl_print_con_def Let_def dbl_wf_def DBLPIPEBUFLEN_def)
  show ?thesis
    unfolding dbl_received_def
  proof (rule sound_rbind [OF 1], rule sound_bind [where P = ?mid], erule 2)
    fix t o1 assume "?mid t"
    then have "?mid (fst (dbl_send_con i t))" by (rule 3)
    then show "sound (\<lambda>r. dbl_wf (fst r)) (case dbl_send_con i t of (s, o2) \<Rightarrow>
        rbind (dbl_print_con s) (\<lambda>(s, o3). Inr (s, o1 @ o2 @ o3)))"
      by (cases "dbl_send_con i t") (simp only: prod.case fst_conv, rule sound_bind [where P = dbl_wf], erule 4, simp)
  qed
qed

lemma dbl_next_sound: "dbl_wf s \<Longrightarrow> sound (\<lambda>r. dbl_wf (fst r)) (dbl_next s i)"
proof -
  assume s: "dbl_wf s"
  then have "sound (\<lambda>r. dbl_wf (fst r)) (if m_ilen s = 0 then dbl_poll_read i s else Inr (s, []))"
    by (simp add: dbl_poll_read_sound)
  then show ?thesis
    unfolding dbl_next_def by (rule sound_rbind) (auto simp: dbl_wf_def DBLPIPEBUFLEN_def)
qed

lemma dbl_wf_line [simp]:
  "dbl_wf (uart_change w s) = dbl_wf s" "dbl_wf (fst (uart_rx w s)) = dbl_wf s" "dbl_wf (uart_tx_load c s) = dbl_wf s"
  "dbl_wf (fst (uart_tx_tick s)) = dbl_wf s" "dbl_wf (dbl_poll_accept i s) = dbl_wf s" "dbl_wf (uart_setup u s) = dbl_wf s"
  by (auto simp: dbl_wf_def uart_change_def uart_rx_def uart_tx_load_def uart_tx_tick_def dbl_poll_accept_def uart_setup_def
      Let_def split: option.splits)

lemma dbl_tick_sound:
  assumes "dbl_wf s"
  shows "sound (\<lambda>r. dbl_wf (fst r)) (dbl_tick s i)"
proof -
  let ?t = "uart_change (d_tx i) (dbl_poll_accept i s)"
  obtain t c where t: "uart_rx (d_tx i) ?t = (t, c)" by force
  then have wf: "dbl_wf t" using assms dbl_wf_line(2) [of "d_tx i" ?t] by simp
  have c: "sound (\<lambda>r. dbl_wf (fst r)) (case c of None \<Rightarrow> Inr (t, []) | Some ch \<Rightarrow> dbl_received i ch t)"
    using wf by (cases c) (simp_all add: dbl_received_sound)
  have tx: "dbl_wf x \<Longrightarrow> uart_tx_tick x = (y, z) \<Longrightarrow> dbl_wf y" for x y :: dbluart and z
    using dbl_wf_line(4) [of x] by simp
  show ?thesis
    unfolding dbl_tick_def Let_def t prod.case
  proof (rule sound_bind [where P = dbl_wf, OF c])
    fix x o1 assume x: "dbl_wf x"
    have "sound (\<lambda>r. dbl_wf (fst r)) (rbind (dbl_next x i) (\<lambda>(s, ch, o2).
        if 0 \<le> ch then Inr (uart_tx_load (word_of_int ch) s, 0, o1 @ o2) else Inr (s, 1, o1 @ o2)))"
      by (rule sound_rbind [OF dbl_next_sound [OF x]]) (auto split: prod.splits)
    then show "sound (\<lambda>r. dbl_wf (fst r)) (if m_tx_state x = IDLE
        then rbind (dbl_next x i) (\<lambda>(s, ch, o2). if 0 \<le> ch then Inr (uart_tx_load (word_of_int ch) s, 0, o1 @ o2) else Inr (s, 1, o1 @ o2))
        else case uart_tx_tick x of (s, o_rx) \<Rightarrow> Inr (s, o_rx, o1))"
      using x by (auto split: prod.splits dest: tx)
  qed
qed

interpretation dbl: step_total dbl_tick dbl_wf "\<lambda>_. True"
proof unfold_locales
  show "\<exists>s' x. dbl_tick s i = Inr (s', x)" if "dbl_wf s" for s i
    using dbl_tick_sound [OF that, of i] by (auto simp: sound_def)
  show "dbl_wf s'" if "dbl_wf s" "dbl_tick s i = Inr (s', x)" for s i s' x
    using dbl_tick_sound [OF that(1), of i] that(2) by simp
qed

text \<open>whatever arrives on the wire and on the two connections, and whatever \<open>accept\<close> and \<open>send\<close>
  answer, the port never leaves its four buffers: from construction on every run of ticks
  returns, with at most 253 characters gathered on each side and at most 256 waiting.\<close>

theorem dbl_run_returns:
  assumes "length (m_conbuf u) = 256" "length (m_cmdbuf u) = 256" "length (m_rxbuf u) = 256" "length (m_cmdline u) = 256"
  shows "\<exists>s xs. run dbl_tick (dbl_new u skt console copy) is = Inr (s, xs)
    \<and> m_cmdpos s < 254 \<and> m_conpos s < 254 \<and> m_rxpos s + m_ilen s \<le> 256 \<and> m_cllen s < 64"
proof -
  have "dbl_wf (dbl_new u skt console copy)" using assms by (simp add: dbl_new_def Let_def) (simp add: dbl_wf_def uart_setup_def)
  from dbl.run_returns [OF this, of "is"] show ?thesis by (auto simp: list_all_iff dbl_wf_def)
qed

section \<open>Characters for the wire\<close>

definition pending :: "dbluart \<Rightarrow> u8 list" where
  "pending s = take (nat (m_ilen s)) (drop (nat (m_rxpos s)) (m_rxbuf s))"

lemma length_pending: "dbl_wf s \<Longrightarrow> length (pending s) = nat (m_ilen s)"
  unfolding pending_def dbl_wf_def length_take length_drop by linarith

lemma dbl_next_pending:
  assumes "dbl_wf s" "pending s = b # bs"
  shows "\<exists>s'. dbl_next s i = Inr (s', (uint b, [])) \<and> dbl_wf s' \<and> pending s' = bs"
proof -
  have n: "nat (m_ilen s) = Suc (length bs)" using length_pending [OF assms(1)] assms(2) by simp
  have w: "0 \<le> m_rxpos s" "m_rxpos s + m_ilen s \<le> 256" "length (m_rxbuf s) = 256" using assms(1) by (simp_all add: dbl_wf_def)
  then have r: "nat (m_rxpos s) < length (m_rxbuf s)" using n by linarith
  have d: "drop (nat (m_rxpos s)) (m_rxbuf s) = m_rxbuf s ! nat (m_rxpos s) # drop (Suc (nat (m_rxpos s))) (m_rxbuf s)"
    using r by (simp add: Cons_nth_drop_Suc)
  have b: "m_rxbuf s ! nat (m_rxpos s) = b" "take (length bs) (drop (Suc (nat (m_rxpos s))) (m_rxbuf s)) = bs"
    using assms(2) unfolding pending_def n d by simp_all
  have k: "nat (m_rxpos s + 1) = Suc (nat (m_rxpos s))" "nat (m_ilen s - 1) = length bs" using w(1) n by linarith+
  let ?t = "s\<lparr>m_rxpos := m_rxpos s + 1, m_ilen := m_ilen s - 1\<rparr>"
  have "dbl_next s i = Inr (?t, (uint b, []))"
    using n w r b(1) by (simp add: dbl_next_def DBLPIPEBUFLEN_def) linarith
  moreover have "pending ?t = bs" using b(2) k by (simp add: pending_def)
  moreover have "dbl_wf ?t" using assms(1) n by (simp add: dbl_wf_def)
  ultimately show ?thesis by blast
qed

lemma dbl_next_run:
  assumes "dbl_wf s" "pending s = bs" "length is = length bs"
  shows "\<exists>s' xs. run dbl_next s is = Inr (s', xs) \<and> map fst xs = map uint bs \<and> dbl_wf s' \<and> pending s' = []"
  using assms
proof (induction bs arbitrary: s "is")
  case (Cons b bs)
  then obtain i js where i: "is = i # js" "length js = length bs" by (cases "is") auto
  obtain t where t: "dbl_next s i = Inr (t, (uint b, []))" "dbl_wf t" "pending t = bs"
    using dbl_next_pending [OF Cons.prems(1,2)] by blast
  from Cons.IH [OF t(2,3) i(2)] t(1) i(1) show ?case by auto
qed simp

lemma cmd_echoes_frame:
  assumes "dbl_wf s"
  shows "\<exists>t o1. cmd_echoes cs s = Inr (t, o1) \<and> dbl_wf t \<and> m_ilen t = m_ilen s \<and> m_rxbuf t = m_rxbuf s \<and> m_cmd t = m_cmd s
    \<and> m_con t = m_con s"
  using assms
proof (induction cs arbitrary: s)
  case (Cons c cs)
  have "\<exists>t o1. cmd_echo c s = Inr (t, o1) \<and> dbl_wf t \<and> m_ilen t = m_ilen s \<and> m_rxbuf t = m_rxbuf s \<and> m_cmd t = m_cmd s \<and> m_con t = m_con s"
    using Cons.prems by (auto simp: cmd_echo_def Let_def dbl_wf_def DBLPIPEBUFLEN_def)
  with Cons.IH show ?case by fastforce
qed simp

lemma dbl_poll_read_pending:
  assumes "dbl_wf s" "m_ilen s = 0" "0 \<le> m_cmd s" "0 \<le> m_con s" "rd_cmd i = Some cs" "rd_con i = Some ds" "cs \<noteq> []" "ds \<noteq> []"
    "length cs + length ds \<le> 256"
  shows "\<exists>t o1. dbl_poll_read i s = Inr (t, o1) \<and> dbl_wf t \<and> pending t = map (\<lambda>c. c OR 0x80) cs @ ds"
proof -
  let ?cs = "map (\<lambda>c. c OR 0x80) cs"
  obtain t o1 where t: "cmd_echoes cs s = Inr (t, o1)" "dbl_wf t" "m_ilen t = 0" "m_rxbuf t = m_rxbuf s" "m_cmd t = m_cmd s"
    "m_con t = m_con s" using cmd_echoes_frame [OF assms(1), of cs] assms(2) by auto
  have l: "length cs \<le> 256" "length ds \<le> 256 - length cs" "length cs < 256" using assms(8,9) by (cases ds; simp)+
  define u where "u = t\<lparr>m_rxbuf := store_bytes ?cs 0 (m_rxbuf t), m_cmdline := (m_cmdline t)[nat (m_cllen t) := 0], m_ilen := int (length cs)\<rparr>"
  have u: "dbl_recv_cmd cs s = Inr (u, o1)"
    using t l(1) assms(1,2,7) by (simp add: dbl_recv_cmd_def DBLPIPEBUFLEN_def Let_def u_def dbl_wf_def)
  define v where "v = u\<lparr>m_rxbuf := store_bytes ds (length cs) (m_rxbuf u), m_ilen := int (length cs + length ds)\<rparr>"
  have v: "dbl_recv_con ds u = Inr (v, [])"
    using l assms(8) by (simp add: dbl_recv_con_def DBLPIPEBUFLEN_def Let_def v_def u_def nat_diff_distrib)
  have r: "dbl_poll_read i s = Inr (v\<lparr>m_rxpos := 0\<rparr>, o1)"
    using assms(3-6) u v l(3) by (simp add: dbl_poll_read_def u_def DBLPIPEBUFLEN_def)
  have "sound (\<lambda>r. dbl_wf (fst r)) (dbl_poll_read i s)" using assms(1,2) by (rule dbl_poll_read_sound)
  then have "dbl_wf (v\<lparr>m_rxpos := 0\<rparr>)" unfolding r by simp
  moreover have "pending (v\<lparr>m_rxpos := 0\<rparr>) = ?cs @ ds"
    using t(2) l by (simp add: pending_def v_def u_def store_bytes_def dbl_wf_def nat_int_add)
  ultimately show ?thesis using r by blast
qed

text \<open>bytes waiting on both connections, as many as the buffer holds, are all handed to the
  transmitter by as many calls of \<open>next\<close>, each once: those of the command connection first, in
  order and marked with the eighth bit, then those of the console, in order and as they are.\<close>

theorem dbl_next_order:
  assumes "dbl_wf s" "m_ilen s = 0" "0 \<le> m_cmd s" "0 \<le> m_con s" "rd_cmd i = Some cs" "rd_con i = Some ds" "cs \<noteq> []" "ds \<noteq> []"
    "length cs + length ds \<le> 256" "Suc (length is) = length cs + length ds"
  shows "\<exists>s' xs. run dbl_next s (i # is) = Inr (s', xs)
    \<and> map fst xs = map (\<lambda>c. uint (c OR 0x80)) cs @ map uint ds \<and> m_ilen s' = 0"
proof -
  obtain t o1 where t: "dbl_poll_read i s = Inr (t, o1)" "dbl_wf t" "pending t = map (\<lambda>c. c OR 0x80) cs @ ds"
    using dbl_poll_read_pending [OF assms(1-9)] by blast
  obtain b bs where b: "map (\<lambda>c. c OR 0x80) cs @ ds = b # bs" using assms(7) by (cases cs) auto
  obtain u where u: "dbl_next t i = Inr (u, (uint b, []))" "dbl_wf u" "pending u = bs"
    using dbl_next_pending [OF t(2)] t(3) b by metis
  have l: "length is = length bs" using arg_cong [OF b, of length] assms(10) by simp
  obtain s' xs where s': "run dbl_next u is = Inr (s', xs)" "map fst xs = map uint bs" "dbl_wf s'" "pending s' = []"
    using dbl_next_run [OF u(2,3) l] by blast
  have "m_ilen t \<noteq> 0" using length_pending [OF t(2)] t(3) b by auto
  then have "dbl_next s i = Inr (u, (uint b, o1))"
    using u(1) t(1) assms(2) by (auto simp: dbl_next_def split: if_splits)
  moreover have "map (\<lambda>c. uint (c OR 0x80)) cs @ map uint ds = uint b # map uint bs"
    using arg_cong [OF b, of "map uint"] by (simp add: o_def)
  moreover have "m_ilen s' = 0" using length_pending [OF s'(3)] s'(3,4) by (simp add: dbl_wf_def)
  ultimately show ?thesis using s'(1,2) by auto
qed

section \<open>Characters from the wire\<close>

fun sent_to :: "int \<Rightarrow> dbl_out list \<Rightarrow> u8 list" where
  "sent_to fd [] = []"
| "sent_to fd (Sent f bs # os) = (if f = fd then bs else []) @ sent_to fd os"
| "sent_to fd (x # os) = sent_to fd os"

lemma sent_to_append [simp]: "sent_to fd (xs @ ys) = sent_to fd xs @ sent_to fd ys"
  by (induction fd xs rule: sent_to.induct) auto

definition dbl_open :: "dbluart \<Rightarrow> bool" where
  "dbl_open s \<longleftrightarrow> dbl_wf s \<and> 0 \<le> m_cmd s \<and> 0 \<le> m_con s \<and> m_cmd s \<noteq> m_con s \<and> m_conpos s = 0"

definition gathered :: "dbluart \<Rightarrow> u8 list" where
  "gathered s = take (nat (m_cmdpos s)) (m_cmdbuf s)"

lemma dbl_flush_open:
  assumes "0 \<le> m_cmdpos s" "m_cmdpos s \<le> 254" "length (m_cmdbuf s) = 256" "0 \<le> m_cmd s" "\<forall>n. snd_cmd i n = int n"
  shows "\<exists>o1. dbl_flush_cmd i s = Inr (if 0 < m_cmdpos s \<and> (last (gathered s) = 0x0a \<or> 254 \<le> m_cmdpos s)
        then s\<lparr>m_cmdbuf := (m_cmdbuf s)[nat (m_cmdpos s) := 0], m_cmdpos := 0\<rparr> else s, o1)
    \<and> o1 = (if 0 < m_cmdpos s \<and> (last (gathered s) = 0x0a \<or> 254 \<le> m_cmdpos s)
        then Sent (m_cmd s) (gathered s) # (if m_copy s then [Printed ([0x3e, 0x20] @ c_string ((m_cmdbuf s)[nat (m_cmdpos s) := 0]))] else [])
        else [])"
proof -
  have l: "length (gathered s) = nat (m_cmdpos s)" using assms(1-3) by (simp add: gathered_def)
  have "last (gathered s) = m_cmdbuf s ! nat (m_cmdpos s - 1)" if "0 < m_cmdpos s"
  proof -
    have "gathered s \<noteq> []" using l that by auto
    then have "last (gathered s) = gathered s ! (nat (m_cmdpos s) - 1)" by (simp add: last_conv_nth l)
    also have "\<dots> = m_cmdbuf s ! (nat (m_cmdpos s) - 1)" using that by (simp add: gathered_def)
    also have "nat (m_cmdpos s) - 1 = nat (m_cmdpos s - 1)" using that by linarith
    finally show ?thesis .
  qed
  then show ?thesis
    using assms l by (auto simp: dbl_flush_cmd_def Let_def DBLPIPEBUFLEN_def gathered_def [symmetric])
qed

lemma dbl_received_open:
  assumes "dbl_open s" "\<forall>n. snd_cmd i n = int n" "\<forall>n. snd_con i n = int n"
  shows "\<exists>s' os. dbl_received i ch s = Inr (s', os) \<and> dbl_open s' \<and> m_cmd s' = m_cmd s \<and> m_con s' = m_con s
    \<and> sent_to (m_cmd s) os @ gathered s' = gathered s @ (if ch AND 0x80 \<noteq> 0 then [ch AND 0x7f] else [])
    \<and> sent_to (m_con s) os = (if ch AND 0x80 \<noteq> 0 then [] else [ch AND 0x7f])
    \<and> (\<forall>bs. Sent (m_cmd s) bs \<in> set os \<longrightarrow> last bs = 0x0a \<or> length bs = 254)"
proof -
  have wf: "dbl_wf s" and o: "0 \<le> m_cmd s" "0 \<le> m_con s" "m_cmd s \<noteq> m_con s" "m_conpos s = 0"
    using assms(1) by (simp_all add: dbl_open_def)
  then have w: "length (m_conbuf s) = 256" "length (m_cmdbuf s) = 256" "0 \<le> m_cmdpos s" "m_cmdpos s < 254" by (simp_all add: dbl_wf_def)
  define t where "t = (if ch AND 0x80 \<noteq> 0
    then s\<lparr>m_cmdbuf := (m_cmdbuf s)[nat (m_cmdpos s) := ch AND 0x7f], m_cmdpos := m_cmdpos s + 1\<rparr>
    else s\<lparr>m_conbuf := (m_conbuf s)[0 := ch AND 0x7f], m_conpos := 1\<rparr>)"
  have t: "dbl_sort ch s = Inr t" using w o(4) by (simp add: dbl_sort_def t_def DBLPIPEBUFLEN_def)
  have tf: "m_cmd t = m_cmd s" "m_con t = m_con s" "0 \<le> m_cmdpos t" "m_cmdpos t \<le> 254" "length (m_cmdbuf t) = 256"
    using w by (simp_all add: t_def)
  have g: "gathered t = gathered s @ (if ch AND 0x80 \<noteq> 0 then [ch AND 0x7f] else [])"
    using w by (simp add: t_def gathered_def nat_add_distrib take_Suc_conv_app_nth)
  define full where "full \<longleftrightarrow> 0 < m_cmdpos t \<and> (last (gathered t) = 0x0a \<or> 254 \<le> m_cmdpos t)"
  define u where "u = (if full then t\<lparr>m_cmdbuf := (m_cmdbuf t)[nat (m_cmdpos t) := 0], m_cmdpos := 0\<rparr> else t)"
  obtain o1 where u: "dbl_flush_cmd i t = Inr (u, o1)"
    and o1: "o1 = (if full then Sent (m_cmd t) (gathered t) #
      (if m_copy t then [Printed ([0x3e, 0x20] @ c_string ((m_cmdbuf t)[nat (m_cmdpos t) := 0]))] else []) else [])"
    using dbl_flush_open [of t i] tf(1,3-5) o(1) assms(2) by (auto simp: full_def u_def)
  define v where "v = u\<lparr>m_conpos := 0\<rparr>"
  define o2 where "o2 = (if ch AND 0x80 \<noteq> 0 then [] else [Sent (m_con s) [ch AND 0x7f]])"
  have uf: "m_con u = m_con s" "m_cmd u = m_cmd s" "m_conpos u = (if ch AND 0x80 \<noteq> 0 then 0 else 1)"
    "ch AND 0x80 = 0 \<Longrightarrow> m_conbuf u ! 0 = ch AND 0x7f"
    using o(4) w by (simp_all add: u_def t_def)
  have v: "dbl_send_con i u = (v, o2)"
    using uf o(2) assms(3) by (auto simp: dbl_send_con_def Let_def v_def o2_def)
  have r: "dbl_received i ch s = Inr (v, o1 @ o2)"
    by (simp add: dbl_received_def t u v dbl_print_con_def v_def)
  have "sound (\<lambda>r. dbl_wf (fst r)) (dbl_received i ch s)" using wf by (rule dbl_received_sound)
  then have "dbl_open v" using o uf(1,2) unfolding r by (simp add: dbl_open_def v_def)
  moreover have "sent_to (m_cmd s) (o1 @ o2) @ gathered v = gathered t"
    using o(3) tf(1) by (simp add: o1 o2_def v_def u_def gathered_def)
  moreover have "sent_to (m_con s) (o1 @ o2) = (if ch AND 0x80 \<noteq> 0 then [] else [ch AND 0x7f])"
    using o(3) tf(1) by (simp add: o1 o2_def)
  moreover have "\<forall>bs. Sent (m_cmd s) bs \<in> set (o1 @ o2) \<longrightarrow> last bs = 0x0a \<or> length bs = 254"
  proof -
    have "length (gathered t) = nat (m_cmdpos t)" using tf(3-5) by (simp add: gathered_def)
    then show ?thesis using o(3) tf(1,4) by (auto simp: o1 o2_def full_def)
  qed
  moreover have "m_cmd v = m_cmd s" "m_con v = m_con s" using uf by (simp_all add: v_def)
  ultimately show ?thesis unfolding g using r by blast
qed

text \<open>The characters of a stream with, or without, the eighth bit, and that bit cleared.\<close>

definition side :: "bool \<Rightarrow> u8 list \<Rightarrow> u8 list" where
  "side c chs = map (\<lambda>ch. ch AND 0x7f) (filter (\<lambda>ch. (ch AND 0x80 \<noteq> 0) = c) chs)"

lemma side_simps [simp]:
  "side c [] = []"
  "side c (ch # chs) = (if (ch AND 0x80 \<noteq> 0) = c then [ch AND 0x7f] else []) @ side c chs"
  by (simp_all add: side_def)

definition in_lines :: "int \<Rightarrow> dbl_out list \<Rightarrow> bool" where
  "in_lines fd os \<longleftrightarrow> (\<forall>bs. Sent fd bs \<in> set os \<longrightarrow> last bs = 0x0a \<or> length bs = 254)"

definition sends_all :: "dbl_in \<Rightarrow> bool" where
  "sends_all i \<longleftrightarrow> (\<forall>n. snd_cmd i n = int n) \<and> (\<forall>n. snd_con i n = int n)"

text \<open>C15: with both connections open and accepting what they are sent, no character from the wire is
  lost, duplicated, reordered or misdirected: the bytes sent to the command connection, with
  those still gathered, are the characters that have the eighth bit, and those sent to the
  console the others, all with that bit cleared.  Commands leave in lines, cut only at 254
  characters.\<close>

theorem dbl_demultiplexes:
  assumes "dbl_open s" "m_cmdpos s = 0" "\<forall>x \<in> set ics. sends_all (fst x)"
  shows "\<exists>s' oss. run (\<lambda>s (i, ch). dbl_received i ch s) s ics = Inr (s', oss)
    \<and> sent_to (m_cmd s) (concat oss) @ gathered s' = side True (map snd ics)
    \<and> sent_to (m_con s) (concat oss) = side False (map snd ics) \<and> in_lines (m_cmd s) (concat oss)"
proof -
  have "\<exists>s' oss. run (\<lambda>s (i, ch). dbl_received i ch s) s ics = Inr (s', oss)
    \<and> sent_to (m_cmd s) (concat oss) @ gathered s' = gathered s @ side True (map snd ics)
    \<and> sent_to (m_con s) (concat oss) = side False (map snd ics) \<and> in_lines (m_cmd s) (concat oss)"
    using assms(1,3)
  proof (induction ics arbitrary: s)
    case Nil
    then show ?case by (simp add: in_lines_def)
  next
    case (Cons x ics)
    obtain i ch where x: "x = (i, ch)" by force
    have "sends_all i" using Cons.prems(2) by (simp add: x)
    then obtain t o1 where t: "dbl_received i ch s = Inr (t, o1)" "dbl_open t" "m_cmd t = m_cmd s" "m_con t = m_con s"
      "sent_to (m_cmd s) o1 @ gathered t = gathered s @ (if ch AND 0x80 \<noteq> 0 then [ch AND 0x7f] else [])"
      "sent_to (m_con s) o1 = (if ch AND 0x80 \<noteq> 0 then [] else [ch AND 0x7f])" "in_lines (m_cmd s) o1"
      using dbl_received_open [OF Cons.prems(1), of i ch] unfolding sends_all_def in_lines_def by blast
    obtain s' oss where s': "run (\<lambda>s (i, ch). dbl_received i ch s) t ics = Inr (s', oss)"
      "sent_to (m_cmd s) (concat oss) @ gathered s' = gathered t @ side True (map snd ics)"
      "sent_to (m_con s) (concat oss) = side False (map snd ics)" "in_lines (m_cmd s) (concat oss)"
      using Cons.IH [OF t(2)] Cons.prems(2) unfolding t(3,4) by auto
    have "sent_to (m_cmd s) (concat (o1 # oss)) @ gathered s' = (sent_to (m_cmd s) o1 @ gathered t) @ side True (map snd ics)"
      using s'(2) by simp
    also have "\<dots> = gathered s @ side True (map snd (x # ics))" unfolding t(5) by (simp add: x)
    finally have 1: "sent_to (m_cmd s) (concat (o1 # oss)) @ gathered s' = gathered s @ side True (map snd (x # ics))" .
    have 2: "sent_to (m_con s) (concat (o1 # oss)) = side False (map snd (x # ics))" using s'(3) t(6) by (simp add: x)
    have 3: "in_lines (m_cmd s) (concat (o1 # oss))" using s'(4) t(7) by (auto simp: in_lines_def)
    have "run (\<lambda>s (i, ch). dbl_received i ch s) s (x # ics) = Inr (s', o1 # oss)" using t(1) s'(1) by (simp add: x)
    with 1 2 3 show ?case by blast
  qed
  moreover have "gathered s = []" using assms(2) by (simp add: gathered_def)
  ultimately show ?thesis by simp
qed

section \<open>Concrete runs\<close>

definition dbl_example :: dbluart where
  "dbl_example = (dbl_new \<lparr>m_setup = 0, m_nparity = 0, m_fixdp = 0, m_evenp = 0, m_nbits = 0, m_nstop = 0, m_baud_counts = 0,
     m_rx_baudcounter = 0, m_rx_state = IDLE, m_rx_busy = 0, m_rx_changectr = 0, m_last_tx = 1, m_tx_baudcounter = 0,
     m_tx_state = IDLE, m_tx_busy = 0, m_rx_data = 0, m_tx_data = 0, d_skt = 0, m_console = 0, m_cmd = 0, m_con = 0,
     m_conbuf = replicate 256 0, m_cmdbuf = replicate 256 0, m_rxbuf = replicate 256 0, m_cmdline = replicate 256 0,
     m_ilen = 0, m_rxpos = 0, m_cmdpos = 0, m_conpos = 0, m_cllen = 0, m_copy = False\<rparr> 3 4 True)\<lparr>m_cmd := 5, m_con := 6\<rparr>"

definition dbl_in_example :: dbl_in where
  "dbl_in_example = \<lparr>d_tx = 1, acc_cmd = None, acc_con = None, rd_cmd = Some [0x41, 0x42], rd_con = Some [0x43],
     snd_cmd = int, snd_con = int\<rparr>"

lemma dbl_example_facts:
  "dbl_wf dbl_example" "m_ilen dbl_example = 0" "m_cmd dbl_example = 5" "m_con dbl_example = 6" "m_cmdpos dbl_example = 0"
  "m_conpos dbl_example = 0"
  by (simp_all add: dbl_example_def dbl_new_def uart_setup_def Let_def dbl_wf_def)

theorem dbl_run_returns_witness:
  "\<exists>s xs. run dbl_tick (dbl_new dbl_example 3 4 True) [dbl_in_example, dbl_in_example] = Inr (s, xs)
    \<and> m_cmdpos s < 254 \<and> m_conpos s < 254 \<and> m_rxpos s + m_ilen s \<le> 256 \<and> m_cllen s < 64"
  by (rule dbl_run_returns) (use dbl_example_facts(1) in \<open>simp_all add: dbl_wf_def\<close>)

theorem dbl_next_order_witness:
  "\<exists>s' xs. run dbl_next dbl_example [dbl_in_example, dbl_in_example, dbl_in_example] = Inr (s', xs)
    \<and> map fst xs = [0xc1, 0xc2, 0x43] \<and> m_ilen s' = 0"
  using dbl_next_order [of dbl_example dbl_in_example "[0x41, 0x42]" "[0x43]" "[dbl_in_example, dbl_in_example]"] dbl_example_facts
  by (simp add: dbl_in_example_def)

theorem dbl_demultiplexes_witness:
  "\<exists>s' oss. run (\<lambda>s (i, ch). dbl_received i ch s) dbl_example [(dbl_in_example, 0xc1), (dbl_in_example, 0x43), (dbl_in_example, 0x8a)]
      = Inr (s', oss)
    \<and> sent_to 5 (concat oss) @ gathered s' = [0x41, 0x0a] \<and> sent_to 6 (concat oss) = [0x43] \<and> in_lines 5 (concat oss)"
proof -
  have "sends_all dbl_in_example" by (simp add: sends_all_def dbl_in_example_def)
  moreover have "dbl_open dbl_example" using dbl_example_facts by (simp add: dbl_open_def)
  ultimately show ?thesis
    using dbl_demultiplexes [of dbl_example "[(dbl_in_example, 0xc1), (dbl_in_example, 0x43), (dbl_in_example, 0x8a)]"] dbl_example_facts
    by simp
qed

end
