(* ===== verification/TtyBus.thy ===== *)
theory TtyBus
  imports Prelude
begin

text \<open>
  The host's debugging bus over a character stream, class \<open>TTYBUS\<close> of \<open>sw/host/ttybus.cpp\<close>:
  the six-bit character code, the encoding of addresses, writes and read requests with their
  compression, and the decoder of the answers.

  The stream below it, class \<open>LLCOMMSI\<close> of \<open>sw/host/llcomms.cpp\<close>, is the bytes written and
  the events still to come from the other end: a burst of bytes, a moment at which nothing is
  waiting, or the end of the stream.  A \<open>read\<close> returns at most one burst.

  An operation returns its value and the new state, or the C++ exception or the stop that ends
  it and the state it leaves.  \<open>m_buf\<close> is scratch memory: every operation reads from it only
  what it has put there, so its contents are the lists passed along, and only its length,
  against which every write is checked at its terminating zero, is kept.
\<close>

section \<open>The stream\<close>

datatype rx_event = Burst "u8 list" | Pause | Hangup

record llcomms =
  ll_rx :: "rx_event list"
  ll_tx :: "u8 list"
  ll_total_nread :: nat
  ll_total_nwrit :: nat

text \<open>
  \<open>Blocked\<close> is the outcome of waiting for input that never comes, \<open>Bus_error\<close> the exception
  \<open>BUSERR\<close>, and \<open>Read_failure\<close> and \<open>Write_failure\<close> the exceptions of the stream.
\<close>

datatype tty_error = Bus_error u32 | Read_failure | Write_failure | Blocked | Stop fault

fun ll_take :: "nat \<Rightarrow> rx_event list \<Rightarrow> tty_error + u8 list \<times> rx_event list" where
  "ll_take n [] = Inl Blocked"
| "ll_take n (Pause # es) = ll_take n es"
| "ll_take n (Hangup # es) = Inl Read_failure"
| "ll_take n (Burst bs # es) =
     (if bs = [] then ll_take n es
      else Inr (take n bs, if n < length bs then Burst (drop n bs) # es else es))"

definition ll_read :: "nat \<Rightarrow> llcomms \<Rightarrow> tty_error + u8 list \<times> llcomms" where
  "ll_read n d =
     rbind (ll_take n (ll_rx d)) (\<lambda>(bs, es).
       if bs = [] then Inl Read_failure
       else Inr (bs, d\<lparr>ll_rx := es, ll_total_nread := ll_total_nread d + length bs\<rparr>))"

definition ll_write :: "u8 list \<Rightarrow> llcomms \<Rightarrow> tty_error + llcomms" where
  "ll_write bs d =
     (if bs = [] then Inl Write_failure
      else Inr (d\<lparr>ll_tx := ll_tx d @ bs, ll_total_nwrit := ll_total_nwrit d + length bs\<rparr>))"

text \<open>Polling: is anything waiting now?  A pause that has been seen is over.\<close>

fun ll_poll_events :: "rx_event list \<Rightarrow> bool \<times> rx_event list" where
  "ll_poll_events [] = (False, [])"
| "ll_poll_events (Pause # es) = (False, es)"
| "ll_poll_events (Hangup # es) = (True, Hangup # es)"
| "ll_poll_events (Burst bs # es) = (if bs = [] then ll_poll_events es else (True, Burst bs # es))"

definition ll_poll :: "llcomms \<Rightarrow> bool \<times> llcomms" where
  "ll_poll d = (let (b, es) = ll_poll_events (ll_rx d) in (b, d\<lparr>ll_rx := es\<rparr>))"

definition ll_available :: "llcomms \<Rightarrow> bool \<times> llcomms" where
  "ll_available d = ll_poll d"

section \<open>State\<close>

definition TTYC_IDLE :: u8 where "TTYC_IDLE = 0x30"
definition TTYC_BUSY :: u8 where "TTYC_BUSY = 0x31"
definition TTYC_WRITE :: u8 where "TTYC_WRITE = 0x32"
definition TTYC_RESET :: u8 where "TTYC_RESET = 0x33"
definition TTYC_INT :: u8 where "TTYC_INT = 0x34"
definition TTYC_ERR :: u8 where "TTYC_ERR = 0x35"
definition MAXRDLEN :: nat where "MAXRDLEN = 1024"
definition MAXWRLEN :: nat where "MAXWRLEN = 32"

record ttybus =
  m_total_nread :: nat
  m_dev :: llcomms
  m_interrupt_flag :: bool
  m_decode_err :: bool
  m_addr_set :: bool
  m_bus_err :: bool
  m_lastaddr :: u32
  m_buflen :: int
  m_wrloaded :: bool
  m_rdaddr :: int
  m_wraddr :: int
  m_readtbl :: "u32 list"
  m_writetbl :: "u32 list"

type_synonym 'a tty = "tty_error \<times> ttybus + 'a \<times> ttybus"

definition stop :: "ttybus \<Rightarrow> fault + 'a \<Rightarrow> tty_error \<times> ttybus + 'a" where
  "stop s r = (case r of Inl e \<Rightarrow> Inl (Stop e, s) | Inr x \<Rightarrow> Inr x)"

definition fail_in :: "ttybus \<Rightarrow> tty_error + 'a \<Rightarrow> tty_error \<times> ttybus + 'a" where
  "fail_in s r = (case r of Inl e \<Rightarrow> Inl (e, s) | Inr x \<Rightarrow> Inr x)"

lemma stop_simps [simp]: "stop s (Inr x) = Inr x" "stop s (Inl e) = Inl (Stop e, s)"
  by (simp_all add: stop_def)

lemma fail_in_simps [simp]: "fail_in s (Inr x) = Inr x" "fail_in s (Inl e) = Inl (e, s)"
  by (simp_all add: fail_in_def)

definition bufalloc :: "int \<Rightarrow> ttybus \<Rightarrow> ttybus" where
  "bufalloc len s = (if 0 < m_buflen s \<and> len \<le> m_buflen s then s
     else s\<lparr>m_buflen := (len AND (- 0x3f)) + 0x40\<rparr>)"

text \<open>The constructor, with the tables as the allocator left them.\<close>

definition ttybus_new :: "llcomms \<Rightarrow> u32 \<Rightarrow> u32 list \<Rightarrow> u32 list \<Rightarrow> ttybus" where
  "ttybus_new dev lastaddr rtbl wtbl =
     (let s = bufalloc 64 \<lparr>m_total_nread = 0, m_dev = dev, m_interrupt_flag = False, m_decode_err = False,
                m_addr_set = False, m_bus_err = False, m_lastaddr = lastaddr, m_buflen = 0, m_wrloaded = False,
                m_rdaddr = 0, m_wraddr = 0, m_readtbl = rtbl, m_writetbl = wtbl\<rparr>
      in s\<lparr>m_bus_err := False, m_decode_err := False, m_wrloaded := False, m_rdaddr := 0, m_wraddr := 0\<rparr>)"

section \<open>The character code\<close>

definition charenc :: "int \<Rightarrow> fault + u8" where
  "charenc v =
     (if v < 10 then Inr (0x30 + word_of_int v)
      else if v < 10 + 26 then Inr (0x41 - 10 + word_of_int v)
      else if v < 10 + 26 + 26 then Inr (0x61 - 10 - 26 + word_of_int v)
      else if v = 0x3e then Inr 0x40
      else if v = 0x3f then Inr 0x25
      else c_assert (v AND NOT 0x3f = 0) (Inr 0))"

definition chardec :: "u8 \<Rightarrow> u32" where
  "chardec b =
     (if 0x30 \<le> b \<and> b \<le> 0x39 then ucast b - 0x30
      else if 0x41 \<le> b \<and> b \<le> 0x5a then ucast b - 0x41 + 10
      else if 0x61 \<le> b \<and> b \<le> 0x7a then ucast b - 0x61 + 36
      else if b = 0x40 then 0x3e
      else if b = 0x25 then 0x3f
      else 0x100)"

definition code_char :: "u8 \<Rightarrow> bool" where
  "code_char b \<longleftrightarrow> chardec b AND NOT 0x3f = 0"

fun charencs :: "int list \<Rightarrow> fault + u8 list" where
  "charencs [] = Inr []"
| "charencs (v # vs) = rbind (charenc v) (\<lambda>c. rbind (charencs vs) (\<lambda>cs. Inr (c # cs)))"

text \<open>The \<open>k\<close>-th six bits of a word, and the value of a sequence of six-bit characters.\<close>

definition six :: "nat \<Rightarrow> u32 \<Rightarrow> int" where
  "six k w = uint (drop_bit (6 * k) w AND 0x3f)"

definition encode :: "int \<Rightarrow> u32 \<Rightarrow> fault + u8 list" where
  "encode hb val =
     charencs [push_bit 2 hb OR uint (drop_bit 30 val AND 3), six 4 val, six 3 val, six 2 val, six 1 val, six 0 val]"

fun sixes :: "u32 \<Rightarrow> u8 list \<Rightarrow> u32" where
  "sixes val [] = val"
| "sixes val (c # cs) = sixes (push_bit 6 val OR (chardec c AND 0x3f)) cs"

definition decodestr :: "u8 list \<Rightarrow> fault + u32" where
  "decodestr buf = in_bounds (6 \<le> length buf)
     (Inr (sixes (chardec (buf ! 0) AND 3) [buf ! 1, buf ! 2, buf ! 3, buf ! 4, buf ! 5]))"

definition decodehex :: "u8 \<Rightarrow> int" where
  "decodehex hx =
     (if 0x30 \<le> hx \<and> hx \<le> 0x39 then uint hx - 0x30
      else if 0x41 \<le> hx \<and> hx \<le> 0x5a then uint hx - 0x41 + 10
      else if 0x61 \<le> hx \<and> hx \<le> 0x7a then uint hx - 0x61 + 10
      else 0)"

section \<open>Reading characters of the code\<close>

text \<open>
  \<open>lclreadcode\<close> drops what is not a character of the code, with a copy that takes its source
  from the place the destination should be.
\<close>

fun lcl_copy :: "nat list \<Rightarrow> nat \<Rightarrow> nat \<Rightarrow> u8 list \<Rightarrow> u8 list \<times> nat" where
  "lcl_copy [] dp ret buf = (buf, ret)"
| "lcl_copy (sp # sps) dp ret buf =
     (if \<not> code_char (buf ! sp) then lcl_copy sps dp (ret - 1) buf
      else lcl_copy sps (dp + 1) ret (buf[sp := buf ! dp]))"

definition lclreadcode :: "nat \<Rightarrow> ttybus \<Rightarrow> (u8 list \<times> nat) tty" where
  "lclreadcode len s =
     rbind (fail_in s (ll_read len (m_dev s))) (\<lambda>(buf, d).
       let nr = length buf in
       Inr (lcl_copy [0..<nr] 0 nr buf, s\<lparr>m_dev := d, m_total_nread := m_total_nread s + nr\<rparr>))"

fun rx_size :: "rx_event list \<Rightarrow> nat" where
  "rx_size [] = 0"
| "rx_size (Burst bs # es) = Suc (length bs) + rx_size es"
| "rx_size (e # es) = Suc (rx_size es)"

abbreviation tty_size :: "ttybus \<Rightarrow> nat" where
  "tty_size s \<equiv> rx_size (ll_rx (m_dev s))"

lemma ll_take_size: "ll_take n es = Inr (bs, es') \<Longrightarrow> bs \<noteq> [] \<Longrightarrow> rx_size es' < rx_size es"
proof (induction n es rule: ll_take.induct)
  case (4 n bs es)
  then show ?case by (cases "bs = []"; cases n) (auto split: if_splits)
qed auto

lemma lclreadcode_size: "lclreadcode len s = Inr (r, s') \<Longrightarrow> tty_size s' < tty_size s"
  by (auto simp: lclreadcode_def fail_in_def ll_read_def Let_def split: sum.splits prod.splits if_splits
      dest!: ll_take_size)

text \<open>\<open>do nr += lclreadcode(&m_buf[nr], n-nr); while (nr < n);\<close>\<close>

function read_codes :: "nat \<Rightarrow> u8 list \<Rightarrow> ttybus \<Rightarrow> u8 list tty" where
  "read_codes n buf s =
     (case lclreadcode (n - length buf) s of
        Inl e \<Rightarrow> Inl e
      | Inr ((bs, nr), s') \<Rightarrow>
          let buf' = buf @ take nr bs in
          if length buf' < n then read_codes n buf' s' else Inr (buf', s'))"
  by pat_completeness auto
termination
  by (relation "measure (\<lambda>(_, _, s). tty_size s)") (auto dest: lclreadcode_size)

declare read_codes.simps [simp del]

section \<open>Decoding the answers\<close>

text \<open>An address, in full or compressed, from its characters.\<close>

definition decode_addr6 :: "u8 list \<Rightarrow> u32" where
  "decode_addr6 buf = sixes (chardec (buf ! 0) AND 3) (take 5 (drop 1 buf))"

definition decode_addr :: "u8 list \<Rightarrow> u32" where
  "decode_addr buf = sixes (chardec (buf ! 1)) (drop 2 buf)"

text \<open>The status characters below 6.\<close>

definition status_char :: "u32 \<Rightarrow> ttybus \<Rightarrow> unit tty" where
  "status_char sixbits s =
     (if sixbits = 3 \<or> sixbits = 5 then Inl (Bus_error 0, s\<lparr>m_bus_err := True\<rparr>)
      else if sixbits = 4 then Inr ((), s\<lparr>m_interrupt_flag := True\<rparr>)
      else Inr ((), s))"

text \<open>
  One answer with data, its first character \<open>c\<close> already read; a character that starts none
  returns \<open>val\<close>.
\<close>

definition read_data :: "u8 \<Rightarrow> u32 \<Rightarrow> ttybus \<Rightarrow> u32 tty" where
  "read_data c val s =
     (let sixbits = chardec c;
          inc = (\<lambda>s. s\<lparr>m_lastaddr := m_lastaddr s + (if sixbits AND 1 \<noteq> 0 then 4 else 0)\<rparr>)
      in if sixbits AND 0x3e = 0x06
         then Inr (m_readtbl s ! nat ((m_rdaddr s - 1) AND 0x3ff), inc s)
         else if sixbits AND 0x30 = 0x10
         then rbind (read_codes 2 [c] s) (\<lambda>(buf, s).
                let idx = uint (push_bit 6 (drop_bit 1 (chardec (buf ! 0)) AND 7) OR (chardec (buf ! 1) AND 0x3f)) + 2 + 8
                in Inr (m_readtbl s ! nat ((m_rdaddr s - idx) AND 0x3ff), inc s))
         else if sixbits AND 0x30 = 0x20
         then let idx = uint (drop_bit 1 sixbits AND 7) + 2
              in Inr (m_readtbl s ! nat ((m_rdaddr s - idx) AND 0x3ff), inc s)
         else if sixbits AND 0x38 = 0x38
         then rbind (read_codes 6 [c] s) (\<lambda>(buf, s).
                let val = sixes (drop_bit 1 (chardec (buf ! 0)) AND 3) (drop 1 buf)
                in Inr (val, inc (s\<lparr>m_readtbl := (m_readtbl s)[nat (m_rdaddr s) := val],
                                   m_rdaddr := (m_rdaddr s + 1) AND 0x3ff\<rparr>)))
         else Inr (val, s))"

text \<open>An address among the answers; \<open>readword\<close> keeps it and \<open>readidle\<close> does not.\<close>

definition read_addr :: "u8 \<Rightarrow> ttybus \<Rightarrow> u32 tty" where
  "read_addr c s =
     (let sixbits = chardec c in
      if sixbits AND 0x3c = 0x08
      then rbind (read_codes 6 [c] s) (\<lambda>(buf, s). Inr (decode_addr6 buf, s))
      else rbind (read_codes (unat (sixbits AND 3) + 2) [c] s) (\<lambda>(buf, s). Inr (decode_addr buf, s)))"

lemma read_codes_size: "read_codes n buf s = Inr (r, s') \<Longrightarrow> tty_size s' < tty_size s"
proof (induction n buf s arbitrary: r s' rule: read_codes.induct)
  case (1 n buf s)
  obtain bs nr s1 where l: "lclreadcode (n - length buf) s = Inr ((bs, nr), s1)"
    using "1.prems" by (subst (asm) read_codes.simps) (auto split: sum.splits)
  have less: "tty_size s1 < tty_size s" using l by (rule lclreadcode_size)
  show ?case
  proof (cases "length (buf @ take nr bs) < n")
    case True
    then have "read_codes n (buf @ take nr bs) s1 = Inr (r, s')"
      using "1.prems" l by (subst (asm) read_codes.simps) (simp add: Let_def)
    from "1.IH" [OF l refl refl refl True this] less show ?thesis by simp
  next
    case False
    then show ?thesis using "1.prems" l less by (subst (asm) read_codes.simps) (simp add: Let_def)
  qed
qed

lemma status_char_size: "status_char c s = Inr (r, s') \<Longrightarrow> tty_size s' = tty_size s"
  by (auto simp: status_char_def split: if_splits)

lemma read_addr_size: "read_addr c s = Inr (r, s') \<Longrightarrow> tty_size s' < tty_size s"
  by (auto simp: read_addr_def Let_def split: if_splits dest!: read_codes_size)

text \<open>What the characters before the data do: \<open>Inl\<close> the data starts here.\<close>

definition read_control :: "u8 \<Rightarrow> ttybus \<Rightarrow> u32 option tty" where
  "read_control c s =
     (let sixbits = chardec c in
      if \<not> code_char c then Inr (None, s)
      else if sixbits < 6 then rbind (status_char sixbits s) (\<lambda>(_, s). Inr (None, s))
      else rbind (read_addr c s) (\<lambda>(v, s). Inr (Some v, s)))"

definition starts_data :: "u8 \<Rightarrow> bool" where
  "starts_data c \<longleftrightarrow> code_char c \<and> \<not> chardec c < 6 \<and> chardec c AND 0x3c \<noteq> 0x08 \<and> chardec c AND 0x3c \<noteq> 0x0c"

lemma read_control_size: "read_control c s = Inr (r, s') \<Longrightarrow> tty_size s' \<le> tty_size s"
  by (auto simp: read_control_def Let_def split: if_splits dest!: status_char_size read_addr_size)

function readword_from :: "u32 \<Rightarrow> ttybus \<Rightarrow> u32 tty" where
  "readword_from val s =
     (case read_codes 1 [] s of
        Inl e \<Rightarrow> Inl e
      | Inr (buf, s') \<Rightarrow>
          if starts_data (buf ! 0) then read_data (buf ! 0) val s'
          else (case read_control (buf ! 0) s' of
                  Inl e \<Rightarrow> Inl e
                | Inr (None, s'') \<Rightarrow> readword_from val s''
                | Inr (Some v, s'') \<Rightarrow> readword_from v (s''\<lparr>m_addr_set := True, m_lastaddr := push_bit 2 v\<rparr>)))"
  by pat_completeness auto
termination
  by (relation "measure (\<lambda>(_, s). tty_size s)")
     (auto dest!: read_codes_size read_control_size)

declare readword_from.simps [simp del]

definition readword :: "ttybus \<Rightarrow> u32 tty" where
  "readword s = readword_from 0 s"

lemma ll_available_size: "ll_available d = (b, d') \<Longrightarrow> rx_size (ll_rx d') \<le> rx_size (ll_rx d)"
proof -
  have "rx_size (snd (ll_poll_events es)) \<le> rx_size es" for es
    by (induction es rule: ll_poll_events.induct) auto
  then show "ll_available d = (b, d') \<Longrightarrow> ?thesis"
    by (auto simp: ll_available_def ll_poll_def Let_def split: prod.splits) (metis snd_conv)
qed

text \<open>
  \<open>readidle\<close>: while something is waiting, and the first character read is one of the code, a
  second character is read and looked at.
\<close>

function readidle :: "ttybus \<Rightarrow> unit tty" where
  "readidle s =
     (case ll_available (m_dev s) of (ready, d) \<Rightarrow>
       let s = s\<lparr>m_dev := d\<rparr> in
       if \<not> ready then Inr ((), s)
       else (case lclreadcode 1 s of
          Inl e \<Rightarrow> Inl e
        | Inr ((_, nr), s) \<Rightarrow>
            if nr = 0 then Inr ((), s)
            else (case lclreadcode 1 s of
               Inl e \<Rightarrow> Inl e
             | Inr ((buf, _), s) \<Rightarrow>
                 if starts_data (buf ! 0) then rbind (read_data (buf ! 0) 0 s) (\<lambda>(_, s). Inr ((), s))
                 else (case read_control (buf ! 0) s of
                    Inl e \<Rightarrow> Inl e
                  | Inr (_, s) \<Rightarrow> readidle s))))"
  by pat_completeness auto

termination
proof (relation "measure (\<lambda>s. tty_size s)", goal_cases)
  case (2 s x y xa b xb ya xc yb ba xd yc xe yd bb xf ye)
  have "rx_size (ll_rx y) \<le> tty_size s" using 2(1) by (rule ll_available_size [OF sym])
  moreover have "tty_size ya < rx_size (ll_rx y)" using lclreadcode_size [of 1 xa xb ya] 2(2,4,5) by simp
  moreover have "tty_size yc < tty_size ya" using lclreadcode_size [of 1 ya xd yc] 2(8,9) by simp
  moreover have "tty_size ye \<le> tty_size yc" using read_control_size [of _ yc xf ye] 2(12,13) by simp
  ultimately show ?case by simp
qed simp

declare readidle.simps [simp del]

section \<open>Addresses\<close>

text \<open>A terminating zero at \<open>ptr\<close>, the end of the characters \<open>out\<close> in the buffer.\<close>

definition terminate :: "ttybus \<Rightarrow> u8 list \<Rightarrow> fault + u8 list" where
  "terminate s out = in_bounds (int (length out) < m_buflen s) (Inr out)"

text \<open>
  The difference to the last address, an \<open>int\<close> computed from an unsigned shift: never
  negative.
\<close>

definition diff_code :: "u32 \<Rightarrow> fault + u8 list" where
  "diff_code d =
     (let diffaddr = uint d in
      if - 32 \<le> diffaddr \<and> diffaddr < 32 then charencs [0x09, six 0 d]
      else if - 2048 \<le> diffaddr \<and> diffaddr < 2048 then charencs [0x0b, six 1 d, six 0 d]
      else if - (2 ^ 17) \<le> diffaddr \<and> diffaddr < 2 ^ 17 then charencs [0x0d, six 2 d, six 1 d, six 0 d]
      else if - (2 ^ 23) \<le> diffaddr \<and> diffaddr < 2 ^ 23 then charencs [0x0f, six 3 d, six 2 d, six 1 d, six 0 d]
      else Inr [])"

definition addr_code :: "u32 \<Rightarrow> u8 list \<Rightarrow> fault + u8 list" where
  "addr_code addr out =
     (let n = length out in
      if addr \<le> 0x3f \<and> (n = 0 \<or> 2 \<le> n) then charencs [0x08, uint addr]
      else if addr \<le> 0x0fff \<and> (n = 0 \<or> 3 \<le> n) then charencs [0x0a, six 1 addr, six 0 addr]
      else if addr \<le> 0x03ffff \<and> (n = 0 \<or> 4 \<le> n) then charencs [0x0c, six 2 addr, six 1 addr, six 0 addr]
      else if addr \<le> 0x0ffffff \<and> (n = 0 \<or> 5 \<le> n)
      then charencs [0x0e, six 3 addr, six 2 addr, six 1 addr, six 0 addr]
      else if n = 0 then encode 0 addr
      else Inr out)"

definition encode_address :: "u32 \<Rightarrow> ttybus \<Rightarrow> u8 list tty" where
  "encode_address a s =
     (if a AND 3 \<noteq> 0 then Inl (Bus_error a, s)
      else if m_addr_set s \<and> a = m_lastaddr s then Inr ([], s)
      else rbind (stop s (if m_addr_set s
                          then rbind (diff_code (drop_bit 2 (a - m_lastaddr s))) (terminate s)
                          else Inr [])) (\<lambda>out.
           rbind (stop s (rbind (addr_code (drop_bit 2 a) out) (terminate s))) (\<lambda>out.
           Inr (out, s\<lparr>m_rdaddr := 0\<rparr>))))"

section \<open>Writing\<close>

text \<open>The search for a value already sent: its distance in the table, or 0.\<close>

fun wr_search :: "nat list \<Rightarrow> u32 \<Rightarrow> ttybus \<Rightarrow> int" where
  "wr_search [] val s = 0"
| "wr_search (i # is) val s =
     (let tstaddr = (m_wraddr s - int i) AND 0xff in
      if \<not> m_wrloaded s \<and> m_wraddr s < tstaddr then 0
      else if m_writetbl s ! nat tstaddr = val then (m_wraddr s - tstaddr) AND 0xff
      else wr_search is val s)"

text \<open>The first character of a write: two bits, whether to increment, and the kind.\<close>

definition write_head :: "int \<Rightarrow> int \<Rightarrow> int \<Rightarrow> int" where
  "write_head base q p = push_bit 1 q + (if p \<noteq> 0 then 1 else 0) + base"

definition write_word :: "int \<Rightarrow> u32 \<Rightarrow> ttybus \<Rightarrow> u8 list tty" where
  "write_word p val s =
     (let caddr = wr_search [1..<256] val s;
          adv = (\<lambda>s. if p = 1 then s\<lparr>m_lastaddr := m_lastaddr s + 4\<rparr> else s)
      in if caddr \<noteq> 0
         then rbind (stop s (charencs [write_head 0x10 (drop_bit 6 caddr AND 3) p, caddr AND 0x3f]))
                (\<lambda>cs. Inr (cs, adv s))
         else rbind (stop s (charencs [write_head 0x18 (uint (drop_bit 30 val AND 3)) p,
                       six 4 val, six 3 val, six 2 val, six 1 val, six 0 val]))
                (\<lambda>cs. let wr = (m_wraddr s + 1) AND 0xff
                 in Inr (cs, adv (s\<lparr>m_writetbl := (m_writetbl s)[nat (m_wraddr s) := val], m_wraddr := wr,
                                   m_wrloaded := (if wr = 0 then True else m_wrloaded s)\<rparr>))))"

fun write_words :: "int \<Rightarrow> u32 list \<Rightarrow> u8 list \<Rightarrow> ttybus \<Rightarrow> u8 list tty" where
  "write_words p [] out s = Inr (out, s)"
| "write_words p (v # vs) out s =
     rbind (write_word p v s) (\<lambda>(cs, s). write_words p vs (out @ cs) s)"

definition dev_write :: "u8 list \<Rightarrow> ttybus \<Rightarrow> unit tty" where
  "dev_write out s = rbind (fail_in s (ll_write out (m_dev s))) (\<lambda>d. Inr ((), s\<lparr>m_dev := d\<rparr>))"

text \<open>The loop of \<open>writev\<close>, over the words still to be sent.\<close>

function writev_loop :: "int \<Rightarrow> u32 list \<Rightarrow> u8 list \<Rightarrow> ttybus \<Rightarrow> unit tty" where
  "writev_loop p ws out s =
     (if ws = [] then Inr ((), s)
      else let ln = min (length ws) MAXWRLEN in
        rbind (write_words p (take ln ws) out s) (\<lambda>(out, s).
        let out = (if ln = length ws then out @ [0x0a] else out) in
        rbind (stop s (terminate s out)) (\<lambda>out.
        rbind (dev_write out s) (\<lambda>(_, s).
        rbind (readidle s) (\<lambda>(_, s).
        writev_loop p (drop ln ws) [] s)))))"
  by pat_completeness auto
termination
  by (relation "measure (\<lambda>(_, ws, _). length ws)") (auto simp: MAXWRLEN_def)

declare writev_loop.simps [simp del]

definition writev :: "u32 \<Rightarrow> int \<Rightarrow> int \<Rightarrow> u32 list \<Rightarrow> ttybus \<Rightarrow> unit tty" where
  "writev a p len buf s =
     (let s = bufalloc ((len + 2) * 6) s in
      rbind (encode_address a s) (\<lambda>(out, s).
      let s = s\<lparr>m_lastaddr := a, m_addr_set := True\<rparr> in
      rbind (stop s (in_bounds (nat len \<le> length buf) (Inr (take (nat len) buf)))) (\<lambda>ws.
      rbind (writev_loop p ws out s) (\<lambda>(_, s). readidle s))))"

definition writeio :: "u32 \<Rightarrow> u32 \<Rightarrow> ttybus \<Rightarrow> unit tty" where
  "writeio a v s = rbind (writev a 0 1 [v] s) (\<lambda>(_, s). Inr ((), s\<lparr>m_lastaddr := a, m_addr_set := True\<rparr>))"

definition writez :: "u32 \<Rightarrow> int \<Rightarrow> u32 list \<Rightarrow> ttybus \<Rightarrow> unit tty" where
  "writez a len buf s = writev a 0 len buf s"

definition writei :: "u32 \<Rightarrow> int \<Rightarrow> u32 list \<Rightarrow> ttybus \<Rightarrow> unit tty" where
  "writei a len buf s = writev a 1 len buf s"

section \<open>Reading\<close>

definition readcmd :: "int \<Rightarrow> int \<Rightarrow> fault + u8 list" where
  "readcmd inc len =
     (let i = (if inc \<noteq> 0 then 1 else 0) in
      c_assert (len < 520) (c_assert (0 < len)
        (if len \<le> 8 then charencs [0x20 + push_bit 1 ((len - 1) AND 7) + i]
         else charencs [0x30 + (drop_bit 5 (len - 9) AND 0x0e) + i, (len - 9) AND 0x3f])))"

definition READAHEAD :: int where "READAHEAD = int (MAXRDLEN div 2)"
definition READBLOCK :: int where "READBLOCK = (if 512 < MAXRDLEN div 2 then 512 else int (MAXRDLEN div 2))"

definition next_nrd :: "int \<Rightarrow> int \<Rightarrow> int \<Rightarrow> int" where
  "next_nrd len cmdrd nread =
     (let nrd = len - cmdrd;
          nrd = (if READBLOCK < nrd then READBLOCK else nrd)
      in if READAHEAD + READBLOCK < cmdrd - nread + nrd then READAHEAD + READBLOCK - (cmdrd - nread) else nrd)"

text \<open>The \<open>do\<close> loop that issues read commands; it returns the characters and \<open>cmdrd\<close>.\<close>

function read_cmds :: "int \<Rightarrow> int \<Rightarrow> int \<Rightarrow> int \<Rightarrow> u8 list \<Rightarrow> fault + u8 list \<times> int" where
  "read_cmds inc len nread cmdrd out =
     (let nrd = next_nrd len cmdrd nread in
      case readcmd inc nrd of
        Inl e \<Rightarrow> Inl e
      | Inr cs \<Rightarrow>
          if cmdrd + nrd - nread < READAHEAD + READBLOCK \<and> cmdrd + nrd < len
          then read_cmds inc len nread (cmdrd + nrd) (out @ cs) else Inr (out @ cs, cmdrd + nrd))"
  by pat_completeness auto
termination
  by (relation "measure (\<lambda>(_, len, _, cmdrd, _). nat (len - cmdrd))")
     (auto simp: readcmd_def Let_def)

declare read_cmds.simps [simp del]

text \<open>
  \<open>n\<close> words, appended to those already read; the \<open>catch\<close> of \<open>readv\<close> turns the exception into
  one for the address of the word.
\<close>

fun read_words :: "u32 \<Rightarrow> int \<Rightarrow> nat \<Rightarrow> u32 list \<Rightarrow> ttybus \<Rightarrow> u32 list tty" where
  "read_words a inc 0 got s = Inr (got, s)"
| "read_words a inc (Suc n) got s =
     (case readword s of
        Inl (Bus_error b, s') \<Rightarrow> Inl (Bus_error (a + (if inc \<noteq> 0 then push_bit 2 (of_nat (length got)) else 0)), s')
      | Inl e \<Rightarrow> Inl e
      | Inr (v, s') \<Rightarrow> read_words a inc n (got @ [v]) s')"

lemma read_cmds_progress:
  "read_cmds inc len nread cmdrd out = Inr (out', c) \<Longrightarrow> cmdrd < c"
proof (induction inc len nread cmdrd out rule: read_cmds.induct)
  case (1 inc len nread cmdrd out)
  show ?case
    using "1.prems" "1.IH"
    by (subst (asm) read_cmds.simps)
       (fastforce simp: Let_def readcmd_def c_assert_def split: sum.splits if_splits)
qed

function readv_loop :: "u32 \<Rightarrow> int \<Rightarrow> int \<Rightarrow> int \<Rightarrow> u32 list \<Rightarrow> u8 list \<Rightarrow> ttybus \<Rightarrow> u32 list tty" where
  "readv_loop a inc len cmdrd got out s =
     (if \<not> cmdrd < len then Inr (got, s)
      else (case read_cmds inc len (int (length got)) cmdrd out of
         Inl e \<Rightarrow> Inl (Stop e, s)
       | Inr (out, cmdrd') \<Rightarrow>
           (case rbind (stop s (terminate s (out @ [0x0a]))) (\<lambda>out.
                 rbind (dev_write out s) (\<lambda>(_, s).
                 read_words a inc (nat (cmdrd' - READAHEAD - int (length got))) got s)) of
              Inl e \<Rightarrow> Inl e
            | Inr (got, s) \<Rightarrow> readv_loop a inc len cmdrd' got [] s)))"
  by pat_completeness auto
termination
  by (relation "measure (\<lambda>(_, _, len, cmdrd, _). nat (len - cmdrd))") (auto dest: read_cmds_progress)

declare readv_loop.simps [simp del]

definition readv :: "u32 \<Rightarrow> int \<Rightarrow> int \<Rightarrow> ttybus \<Rightarrow> u32 list tty" where
  "readv a inc len s =
     (if len \<le> 0 then Inr ([], s)
      else rbind (encode_address a s) (\<lambda>(out, s).
           rbind (readv_loop a inc len 0 [] out s) (\<lambda>(got, s).
           rbind (read_words a inc (nat len - length got) got s) (\<lambda>(got, s).
           if m_lastaddr s \<noteq> a + (if inc \<noteq> 0 then push_bit 2 (word_of_int len) else 0)
           then (if m_lastaddr s = (if a + word_of_int inc \<noteq> 0 then push_bit 2 (word_of_int len) else 0)
                 then Inl (Stop Exit, s) else Inl (Stop Assertion, s))
           else Inr (got, s)))))"

definition readi :: "u32 \<Rightarrow> int \<Rightarrow> ttybus \<Rightarrow> u32 list tty" where
  "readi a len s = readv a 1 len s"

definition readz :: "u32 \<Rightarrow> int \<Rightarrow> ttybus \<Rightarrow> u32 list tty" where
  "readz a len s = readv a 0 len s"

definition readio :: "u32 \<Rightarrow> ttybus \<Rightarrow> u32 tty" where
  "readio a s =
     (case readv a 0 1 s of
        Inl (Bus_error b, s') \<Rightarrow> Inl (Bus_error a, s')
      | Inl e \<Rightarrow> Inl e
      | Inr (vs, s') \<Rightarrow> if m_lastaddr s' \<noteq> a then Inl (Stop Exit, s'\<lparr>m_addr_set := False\<rparr>) else Inr (vs ! 0, s'))"

section \<open>Interrupts\<close>

definition tty_poll :: "ttybus \<Rightarrow> bool" where "tty_poll s = m_interrupt_flag s"
definition tty_bus_err :: "ttybus \<Rightarrow> bool" where "tty_bus_err s = m_bus_err s"
definition tty_reset_err :: "ttybus \<Rightarrow> ttybus" where "tty_reset_err s = s\<lparr>m_bus_err := False\<rparr>"
definition tty_clear :: "ttybus \<Rightarrow> ttybus" where "tty_clear s = s\<lparr>m_interrupt_flag := False\<rparr>"

definition tty_usleep :: "ttybus \<Rightarrow> unit tty" where
  "tty_usleep s =
     (case ll_poll (m_dev s) of (ready, d) \<Rightarrow>
       let s = s\<lparr>m_dev := d\<rparr> in
       if \<not> ready then Inr ((), s)
       else rbind (fail_in s (ll_read 16 (m_dev s))) (\<lambda>(buf, d).
              Inr ((), s\<lparr>m_dev := d, m_interrupt_flag := (m_interrupt_flag s \<or> TTYC_INT \<in> set buf)\<rparr>)))"

lemma ll_poll_pause: "ll_poll_events es = (False, es') \<Longrightarrow> es' \<noteq> [] \<Longrightarrow> rx_size es' < rx_size es"
  by (induction es rule: ll_poll_events.induct) (auto split: if_splits)

lemma tty_usleep_size:
  assumes "tty_usleep s = Inr (u, s')" "ll_rx (m_dev s') \<noteq> []"
  shows "tty_size s' < tty_size s"
proof -
  obtain ready es where p: "ll_poll_events (ll_rx (m_dev s)) = (ready, es)" by (cases "ll_poll_events (ll_rx (m_dev s))")
  have le: "rx_size es \<le> tty_size s"
    using p ll_available_size [of "m_dev s"] by (simp add: ll_available_def ll_poll_def)
  show ?thesis
  proof (cases ready)
    case True
    then show ?thesis
      using assms(1) p le
      by (auto simp: tty_usleep_def ll_poll_def fail_in_def ll_read_def Let_def split: sum.splits if_splits dest!: ll_take_size)
  next
    case False
    then show ?thesis
      using assms p by (auto simp: tty_usleep_def ll_poll_def dest!: ll_poll_pause)
  qed
qed

text \<open>\<open>wait\<close>; with nothing ever to come it does not return.\<close>

function tty_wait :: "ttybus \<Rightarrow> unit tty" where
  "tty_wait s =
     (case tty_usleep s of
        Inl e \<Rightarrow> Inl e
      | Inr (_, s') \<Rightarrow>
          if m_interrupt_flag s' then Inr ((), s')
          else if ll_rx (m_dev s') = [] then Inl (Blocked, s')
          else tty_wait s')"
  by pat_completeness auto

termination
  by (relation "measure tty_size") (auto dest: tty_usleep_size)

declare tty_wait.simps [simp del]

end
