(* ===== verification/TtyIdle.thy ===== *)
theory TtyIdle
  imports TtyBus
begin

text \<open>
  What \<open>readidle\<close> does to the characters a board sends of its own accord while it is written to:
  acknowledgements, errors, interrupts and idle marks, and characters outside the code (\<open>wbuexec.v\<close>
  sends addresses and data for reads only).  It changes
  nothing that a write depends on, but it can fail: it discards every other character unseen and,
  after an odd one, waits for one more.
\<close>

section \<open>What is still to come\<close>

fun rx_bytes :: "rx_event list \<Rightarrow> u8 list" where
  "rx_bytes [] = []"
| "rx_bytes (Burst bs # es) = bs @ rx_bytes es"
| "rx_bytes (e # es) = rx_bytes es"

text \<open>A character that carries no data and no address, and a board that will only send such.\<close>

definition notice :: "u8 \<Rightarrow> bool" where
  "notice c \<longleftrightarrow> \<not> code_char c \<or> chardec c < 6"

definition only_notices :: "ttybus \<Rightarrow> bool" where
  "only_notices s \<longleftrightarrow> (\<forall>c \<in> set (rx_bytes (ll_rx (m_dev s))). notice c)"

text \<open>
  \<open>readidle\<close> takes a character of the code and then one more: the characters pair up when every
  one of the code has a partner that is no error.
\<close>

fun in_pairs :: "u8 list \<Rightarrow> bool" where
  "in_pairs [] = True"
| "in_pairs [c] = (\<not> code_char c)"
| "in_pairs (c # d # cs) =
     (if code_char c then \<not> (code_char d \<and> chardec d \<in> {3, 5}) \<and> in_pairs cs else in_pairs (d # cs))"

lemma in_pairs_noise: "\<not> code_char c \<Longrightarrow> in_pairs (c # cs) = in_pairs cs"
  by (cases cs) simp_all

definition paired :: "ttybus \<Rightarrow> bool" where
  "paired s \<longleftrightarrow> Hangup \<notin> set (ll_rx (m_dev s)) \<and> in_pairs (rx_bytes (ll_rx (m_dev s)))"

text \<open>What hearing the board changes, and how an operation ends.\<close>

definition heard :: "ttybus \<Rightarrow> ttybus \<Rightarrow> bool" where
  "heard s s' \<longleftrightarrow> s\<lparr>m_dev := m_dev s', m_total_nread := m_total_nread s', m_interrupt_flag := m_interrupt_flag s',
      m_bus_err := m_bus_err s'\<rparr> = s' \<and> ll_tx (m_dev s') = ll_tx (m_dev s)"

lemma heard_refl: "heard s s"
  by (simp add: heard_def)

lemma heard_trans: "heard s t \<Longrightarrow> heard t u \<Longrightarrow> heard s u"
  by (cases s; cases t; cases u) (simp add: heard_def)

fun ended :: "'a tty \<Rightarrow> tty_error option \<times> ttybus" where
  "ended (Inl (e, s)) = (Some e, s)"
| "ended (Inr (x, s)) = (None, s)"

definition idle_end :: "tty_error option \<Rightarrow> bool" where
  "idle_end e \<longleftrightarrow> e \<in> {None, Some Blocked, Some Read_failure, Some (Bus_error 0)}"

section \<open>One character\<close>

lemma ll_take_one:
  "ll_take 1 es = Inl Blocked \<and> rx_bytes es = [] \<or> ll_take 1 es = Inl Read_failure \<and> Hangup \<in> set es
   \<or> (\<exists>c es'. ll_take 1 es = Inr ([c], es') \<and> rx_bytes es = c # rx_bytes es' \<and> (Hangup \<in> set es' \<longleftrightarrow> Hangup \<in> set es))"
proof (induction es)
  case (Cons e es)
  show ?case
  proof (cases e)
    case (Burst bs)
    then show ?thesis using Cons by (cases bs; cases "tl bs") auto
  qed (use Cons in auto)
qed simp

lemma lclreadcode_one:
  "(\<exists>e. lclreadcode 1 s = Inl (e, s) \<and> idle_end (Some e) \<and> (rx_bytes (ll_rx (m_dev s)) = [] \<or> Hangup \<in> set (ll_rx (m_dev s))))
   \<or> (\<exists>c s'. lclreadcode 1 s = Inr (([c], if code_char c then 1 else 0), s') \<and> heard s s'
       \<and> rx_bytes (ll_rx (m_dev s)) = c # rx_bytes (ll_rx (m_dev s')) \<and> (Hangup \<in> set (ll_rx (m_dev s')) \<longleftrightarrow> Hangup \<in> set (ll_rx (m_dev s))))"
  using ll_take_one [of "ll_rx (m_dev s)"]
  by (auto simp: lclreadcode_def ll_read_def fail_in_def idle_end_def heard_def)

lemma ll_poll_same:
  "ll_poll_events es = (b, es') \<Longrightarrow> rx_bytes es' = rx_bytes es \<and> (Hangup \<in> set es' \<longleftrightarrow> Hangup \<in> set es)
     \<and> (b \<and> Hangup \<notin> set es \<longrightarrow> rx_bytes es \<noteq> [])"
  by (induction es rule: ll_poll_events.induct) (auto split: if_split_asm)

lemma available_same:
  assumes "ll_available (m_dev s) = (b, d)"
  shows "heard s (s\<lparr>m_dev := d\<rparr>)" "rx_bytes (ll_rx d) = rx_bytes (ll_rx (m_dev s))"
    "Hangup \<in> set (ll_rx d) \<longleftrightarrow> Hangup \<in> set (ll_rx (m_dev s))"
    "b \<Longrightarrow> Hangup \<notin> set (ll_rx d) \<Longrightarrow> rx_bytes (ll_rx d) \<noteq> []"
  using assms ll_poll_same [of "ll_rx (m_dev s)"]
  by (auto simp: ll_available_def ll_poll_def heard_def split: prod.splits)

text \<open>A notice is no data and no address.\<close>

lemma notice_control:
  assumes "notice c"
  shows "\<not> starts_data c"
    "ended (read_control c s) = (if code_char c \<and> chardec c \<in> {3, 5} then (Some (Bus_error 0), s\<lparr>m_bus_err := True\<rparr>)
       else (None, if code_char c \<and> chardec c = 4 then s\<lparr>m_interrupt_flag := True\<rparr> else s))"
  using assms by (auto simp: notice_def starts_data_def read_control_def status_char_def Let_def)

section \<open>The loop\<close>

definition idled :: "ttybus \<Rightarrow> tty_error option \<Rightarrow> ttybus \<Rightarrow> bool" where
  "idled s e s' \<longleftrightarrow> heard s s' \<and> only_notices s' \<and> idle_end e \<and> (paired s \<longrightarrow> e = None \<and> paired s')"

lemma idledI:
  assumes "heard s t" "idled t e s'" "paired s \<Longrightarrow> paired t"
  shows "idled s e s'"
  using assms heard_trans by (auto simp: idled_def)

text \<open>The state after the partner of a character of the code: what it says, and what is to come.\<close>

definition partner_ok :: "ttybus \<Rightarrow> bool" where
  "partner_ok t \<longleftrightarrow> Hangup \<notin> set (ll_rx (m_dev t)) \<and> (\<exists>d cs. rx_bytes (ll_rx (m_dev t)) = d # cs
     \<and> \<not> (code_char d \<and> chardec d \<in> {3, 5}) \<and> in_pairs cs)"

lemma paired_code:
  assumes "paired s" "code_char c" "rx_bytes (ll_rx (m_dev s)) = c # rx_bytes (ll_rx (m_dev t))"
    and "Hangup \<in> set (ll_rx (m_dev t)) \<longleftrightarrow> Hangup \<in> set (ll_rx (m_dev s))"
  shows "partner_ok t"
  using assms by (cases "rx_bytes (ll_rx (m_dev t))") (auto simp: paired_def partner_ok_def split: if_split_asm)

definition second_char :: "(ttybus \<Rightarrow> unit tty) \<Rightarrow> ttybus \<Rightarrow> unit tty" where
  "second_char k t = (case lclreadcode 1 t of
       Inl e \<Rightarrow> Inl e
     | Inr ((buf, _), s) \<Rightarrow>
         if starts_data (buf ! 0) then rbind (read_data (buf ! 0) 0 s) (\<lambda>(_, s). Inr ((), s))
         else (case read_control (buf ! 0) s of Inl e \<Rightarrow> Inl e | Inr (_, s) \<Rightarrow> k s))"

lemma second_char_notice:
  assumes "only_notices t"
  shows "(\<exists>e u. second_char k t = Inl (e, u) \<and> heard t u \<and> only_notices u \<and> idle_end (Some e) \<and> \<not> partner_ok t)
    \<or> (\<exists>u. second_char k t = k u \<and> heard t u \<and> only_notices u \<and> tty_size u < tty_size t \<and> (partner_ok t \<longrightarrow> paired u))"
proof -
  consider e where "lclreadcode 1 t = Inl (e, t)" "idle_end (Some e)" "rx_bytes (ll_rx (m_dev t)) = [] \<or> Hangup \<in> set (ll_rx (m_dev t))"
    | x u where "lclreadcode 1 t = Inr (([x], if code_char x then 1 else 0), u)" "heard t u"
      "rx_bytes (ll_rx (m_dev t)) = x # rx_bytes (ll_rx (m_dev u))" "Hangup \<in> set (ll_rx (m_dev u)) \<longleftrightarrow> Hangup \<in> set (ll_rx (m_dev t))"
    using lclreadcode_one [of t] by auto
  then show ?thesis
  proof cases
    case 1
    then show ?thesis using assms heard_refl by (auto simp: second_char_def partner_ok_def)
  next
    case 2
    let ?v = "if code_char x \<and> chardec x = 4 then u\<lparr>m_interrupt_flag := True\<rparr> else u"
    have nx: "notice x" "only_notices u" using assms 2(3) by (simp_all add: only_notices_def)
    note c = notice_control(2) [OF nx(1), of u]
    have hv: "heard t ?v" "heard t (u\<lparr>m_bus_err := True\<rparr>)" using 2(2) by (cases t; cases u; simp add: heard_def)+
    show ?thesis
    proof (cases "code_char x \<and> chardec x \<in> {3, 5}")
      case True
      then have "read_control x u = Inl (Bus_error 0, u\<lparr>m_bus_err := True\<rparr>)" using c by (cases "read_control x u") auto
      then have "second_char k t = Inl (Bus_error 0, u\<lparr>m_bus_err := True\<rparr>)"
        using 2(1) notice_control(1) [OF nx(1)] by (simp add: second_char_def)
      then show ?thesis using True hv(2) nx(2) 2(3) by (auto simp: only_notices_def idle_end_def partner_ok_def)
    next
      case False
      then have "\<exists>y. read_control x u = Inr (y, ?v)" using c by (cases "read_control x u") auto
      then have "second_char k t = k ?v" using 2(1) notice_control(1) [OF nx(1)] by (auto simp: second_char_def)
      moreover have "only_notices ?v" "tty_size ?v < tty_size t" using nx(2) lclreadcode_size [OF 2(1)] by (simp_all add: only_notices_def)
      moreover have "partner_ok t \<longrightarrow> paired ?v" using 2(3,4) by (auto simp: partner_ok_def paired_def)
      ultimately show ?thesis using hv(1) by blast
    qed
  qed
qed

lemma readidle_notices:
  assumes "only_notices s"
  shows "\<exists>e s'. ended (readidle s) = (e, s') \<and> idled s e s'"
  using assms
proof (induction "tty_size s" arbitrary: s rule: less_induct)
  case less
  obtain b d where av: "ll_available (m_dev s) = (b, d)" by (cases "ll_available (m_dev s)")
  let ?s = "s\<lparr>m_dev := d\<rparr>"
  note same = available_same [OF av]
  have n: "only_notices ?s" using less.prems same(2) by (simp add: only_notices_def)
  have p: "paired s \<Longrightarrow> paired ?s" using same(2,3) by (simp add: paired_def)
  have r: "readidle s = (if \<not> b then Inr ((), ?s) else case lclreadcode 1 ?s of Inl e \<Rightarrow> Inl e
      | Inr ((_, nr), s) \<Rightarrow> if nr = 0 then Inr ((), s) else second_char readidle s)"
    unfolding second_char_def readidle.simps [of s] av by (simp only: prod.case Let_def)
  show ?case
  proof (cases b)
    case False
    then show ?thesis using r same(1) n p by (simp add: idled_def idle_end_def)
  next
    case True
    consider e where "lclreadcode 1 ?s = Inl (e, ?s)" "idle_end (Some e)" "rx_bytes (ll_rx d) = [] \<or> Hangup \<in> set (ll_rx d)"
      | c t where "lclreadcode 1 ?s = Inr (([c], if code_char c then 1 else 0), t)" "heard ?s t"
        "rx_bytes (ll_rx d) = c # rx_bytes (ll_rx (m_dev t))" "Hangup \<in> set (ll_rx (m_dev t)) \<longleftrightarrow> Hangup \<in> set (ll_rx d)"
      using lclreadcode_one [of ?s] by auto
    then show ?thesis
    proof cases
      case 1
      moreover have "\<not> paired s" using 1(3) same(3,4) True by (auto simp: paired_def)
      ultimately show ?thesis using r True same(1) n by (simp add: idled_def)
    next
      case 2
      have nt: "only_notices t" "heard s t" using n 2(3) heard_trans [OF same(1) 2(2)] by (simp_all add: only_notices_def)
      have size: "tty_size t < tty_size s" using lclreadcode_size [OF 2(1)] ll_available_size [OF av] by simp
      show ?thesis
      proof (cases "code_char c")
        case False
        then have "paired s \<Longrightarrow> paired t" using p 2(3,4) in_pairs_noise [OF False] by (simp add: paired_def)
        then show ?thesis using r True False 2(1) nt by (simp add: idled_def idle_end_def)
      next
        case code: True
        then have rs: "readidle s = second_char readidle t" using r True 2(1) by simp
        have ok: "partner_ok t" if "paired s" using paired_code [OF p [OF that] code, of t] 2(3,4) by simp
        from second_char_notice [OF nt(1), of readidle] show ?thesis
        proof (elim disjE exE conjE)
          fix e u assume "second_char readidle t = Inl (e, u)" "heard t u" "only_notices u" "idle_end (Some e)" "\<not> partner_ok t"
          then show ?thesis using rs ok heard_trans [OF nt(2)] by (auto simp: idled_def)
        next
          fix u assume u: "second_char readidle t = readidle u" "heard t u" "only_notices u" "tty_size u < tty_size t"
            "partner_ok t \<longrightarrow> paired u"
          have "tty_size u < tty_size s" using u(4) size by simp
          then obtain e s' where "ended (readidle u) = (e, s')" "idled u e s'" using less.hyps [OF _ u(3)] by blast
          then show ?thesis using rs u(1,5) ok idledI [OF heard_trans [OF nt(2) u(2)]] by auto
        qed
      qed
    qed
  qed
qed

end
