(* ===== verification/TtyBoard.thy ===== *)
theory TtyBoard
  imports TtyIdle
begin

text \<open>
  The other end of the debugging bus: what the board does with the characters it is sent, after
  \<open>wbutohex.v\<close>, \<open>wbureadcw.v\<close>, \<open>wbudecompress.v\<close> and \<open>wbuexec.v\<close> of \<open>rtl/wbubus\<close>, without
  their timing, and the proof that \<open>TTYBUS\<close> speaks its language: the board performs exactly the
  writes that were asked for, whatever notices it sends meanwhile.
\<close>

section \<open>The receiver of the board\<close>

definition wbutohex :: "u8 \<Rightarrow> u32 option" where
  "wbutohex b =
     (if 0x30 \<le> b \<and> b \<le> 0x39 then Some (ucast (b AND 0xf))
      else if 0x41 \<le> b \<and> b \<le> 0x5a then Some (((ucast b AND 0x3f) - 1 + 0x0a) AND 0x3f)
      else if 0x61 \<le> b \<and> b \<le> 0x7a then Some (((ucast b AND 0x3f) + 3) AND 0x3f)
      else if b = 0x40 then Some 0x3e
      else if b = 0x25 then Some 0x3f
      else None)"

definition cw_len :: "u32 \<Rightarrow> nat" where
  "cw_len c =
     (if drop_bit 4 c = 3 then 2
      else if drop_bit 4 c = 2 then 1
      else if drop_bit 3 c = 2 then 2
      else if drop_bit 3 c = 1 then 2 + unat (drop_bit 1 c AND 3)
      else 6)"

fun join :: "u32 \<Rightarrow> u32 list \<Rightarrow> u32" where
  "join v [] = v"
| "join v (c # cs) = join (push_bit 6 v OR c) cs"

record board =
  cw :: "u32 list"
  wr_addr :: u8
  compression_tbl :: "u8 \<Rightarrow> u32"
  wb_addr :: u32
  bus_writes :: "(u32 \<times> u32) list"
  bus_reads :: "(u32 \<times> nat \<times> bool) list"

definition sext :: "nat \<Rightarrow> u32 \<Rightarrow> u32" where
  "sext n v = (if 0 < n \<and> bit v (n - 1) then v OR NOT (mask n) else v)"

definition bus_write :: "u32 \<Rightarrow> u32 \<Rightarrow> board \<Rightarrow> board" where
  "bus_write c v b = b\<lparr>bus_writes := bus_writes b @ [(wb_addr b, v)],
     wb_addr := wb_addr b + (if bit c 0 then 1 else 0)\<rparr>"

text \<open>
  One codeword.  The entry of the table at \<open>wr_addr\<close> is overwritten by every codeword, and kept
  by those that write a value in full.
\<close>

definition board_exec :: "u32 list \<Rightarrow> board \<Rightarrow> board" where
  "board_exec w b =
     (let c = w ! 0;
          v = join (drop_bit 1 c AND 3) (drop 1 w);
          tbl = (compression_tbl b)(wr_addr b := v);
          b' = b\<lparr>compression_tbl := tbl\<rparr>
      in if drop_bit 3 c = 3 then bus_write c v (b'\<lparr>wr_addr := wr_addr b + 1\<rparr>)
         else if drop_bit 3 c = 2
         then bus_write c (tbl (wr_addr b - ucast (push_bit 6 (drop_bit 1 c AND 3) OR w ! 1))) b'
         else if drop_bit 3 c = 1
         then (let n = 6 * (length w - 1); x = join 0 (drop 1 w)
               in b'\<lparr>wb_addr := (if bit c 0 then wb_addr b + sext n x else x)\<rparr>)
         else if drop_bit 2 c = 0 then b'\<lparr>wb_addr := join (c AND 3) (drop 1 w)\<rparr>
         else if c = 0x2e then b'
         else if drop_bit 5 c = 1
         then (let n = (if bit c 4 then 9 + unat (push_bit 6 (drop_bit 1 c AND 7) OR w ! 1)
                        else 1 + unat (drop_bit 1 c AND 7))
               in b'\<lparr>bus_reads := bus_reads b @ [(wb_addr b, n, bit c 0)],
                     wb_addr := wb_addr b + (if bit c 0 then of_nat n else 0)\<rparr>)
         else b')"

definition board_char :: "board \<Rightarrow> u8 \<Rightarrow> board" where
  "board_char b ch =
     (case wbutohex ch of
        None \<Rightarrow> b\<lparr>cw := []\<rparr>
      | Some h \<Rightarrow> let w = cw b @ [h] in
          if length w = cw_len (w ! 0) then board_exec w (b\<lparr>cw := []\<rparr>) else b\<lparr>cw := w\<rparr>)"

definition board_run :: "board \<Rightarrow> u8 list \<Rightarrow> board" where
  "board_run = foldl board_char"

lemma board_run_simps [simp]:
  "board_run b [] = b"
  "board_run b (c # cs) = board_run (board_char b c) cs"
  "board_run b (cs @ ds) = board_run (board_run b cs) ds"
  by (simp_all add: board_run_def)

section \<open>The character code\<close>

definition sixchar :: "int \<Rightarrow> u8" where
  "sixchar v = (if v < 10 then 0x30 + word_of_int v else if v < 36 then 55 + word_of_int v
     else if v < 62 then 61 + word_of_int v else if v = 62 then 0x40 else 0x25)"

lemma charenc_table:
  "list_all (\<lambda>v. charenc v = Inr (sixchar v) \<and> wbutohex (sixchar v) = Some (word_of_int v)
     \<and> chardec (sixchar v) = word_of_int v) [0..63]"
  by code_simp

lemma charenc_six:
  assumes "0 \<le> v" "v < 64"
  shows "charenc v = Inr (sixchar v) \<and> wbutohex (sixchar v) = Some (word_of_int v)
    \<and> chardec (sixchar v) = word_of_int v"
  using charenc_table assms by (simp add: list_all_iff)

lemma charencs_six:
  "\<forall>v \<in> set vs. 0 \<le> v \<and> v < 64 \<Longrightarrow> charencs vs = Inr (map sixchar vs)"
  by (induction vs) (simp_all add: charenc_six)

lemma wbutohex_table:
  "list_all (\<lambda>n. wbutohex (word_of_int n) = (if code_char (word_of_int n) then Some (chardec (word_of_int n)) else None)) [0..255]"
  by code_simp

lemma wbutohex_chardec: "wbutohex c = (if code_char c then Some (chardec c) else None)"
proof -
  have "uint c \<in> set [0..255]" using uint_lt2p [of c] by simp
  then have "wbutohex (word_of_int (uint c)) =
      (if code_char (word_of_int (uint c)) then Some (chardec (word_of_int (uint c))) else None)"
    using wbutohex_table unfolding list_all_iff by blast
  then show ?thesis by simp
qed

section \<open>Codewords on the wire\<close>

definition sixes_ok :: "int list \<Rightarrow> bool" where
  "sixes_ok vs \<longleftrightarrow> (\<forall>v \<in> set vs. 0 \<le> v \<and> v < 64)"

lemma sixes_ok_simps [simp]: "sixes_ok []" "sixes_ok (v # vs) \<longleftrightarrow> 0 \<le> v \<and> v < 64 \<and> sixes_ok vs"
  by (auto simp: sixes_ok_def)

lemma charencs_ok: "sixes_ok vs \<Longrightarrow> charencs vs = Inr (map sixchar vs)"
  by (rule charencs_six) (simp add: sixes_ok_def)

lemma board_run_word:
  assumes "sixes_ok vs" "vs \<noteq> []" "length w + length vs = cw_len ((w @ map word_of_int vs) ! 0)"
  shows "board_run (b\<lparr>cw := w\<rparr>) (map sixchar vs) = board_exec (w @ map word_of_int vs) (b\<lparr>cw := []\<rparr>)"
  using assms
proof (induction vs arbitrary: w)
  case (Cons v vs)
  have hex: "wbutohex (sixchar v) = Some (word_of_int v)" using Cons.prems(1) by (simp add: charenc_six)
  let ?h = "(w @ [word_of_int v]) ! 0"
  have head: "(w @ map word_of_int (v # vs)) ! 0 = ?h" by (cases w) simp_all
  note len = Cons.prems(3) [unfolded head]
  have b: "board_run (b\<lparr>cw := w\<rparr>) (map sixchar (v # vs)) = board_run (board_char (b\<lparr>cw := w\<rparr>) (sixchar v)) (map sixchar vs)"
    by simp
  have c: "board_char (b\<lparr>cw := w\<rparr>) (sixchar v) =
      (if Suc (length w) = cw_len ?h then board_exec (w @ [word_of_int v]) (b\<lparr>cw := []\<rparr>) else b\<lparr>cw := w @ [word_of_int v]\<rparr>)"
    using hex by (simp add: board_char_def Let_def)
  show ?case
  proof (cases "vs = []")
    case True
    then show ?thesis using len unfolding b c by simp
  next
    case False
    then have "Suc (length w) \<noteq> cw_len ?h" using len by (cases vs) simp_all
    moreover have "board_run (b\<lparr>cw := w @ [word_of_int v]\<rparr>) (map sixchar vs) =
        board_exec ((w @ [word_of_int v]) @ map word_of_int vs) (b\<lparr>cw := []\<rparr>)"
    proof (rule Cons.IH)
      show "sixes_ok vs" "vs \<noteq> []" using Cons.prems(1) False by simp_all
      show "length (w @ [word_of_int v]) + length vs = cw_len (((w @ [word_of_int v]) @ map word_of_int vs) ! 0)"
        using len by (cases w) simp_all
    qed
    ultimately show ?thesis unfolding b c by simp
  qed
qed simp

lemma board_run_codeword:
  assumes "sixes_ok vs" "vs \<noteq> []" "length vs = cw_len (word_of_int (vs ! 0))" "cw b = []"
  shows "board_run b (map sixchar vs) = board_exec (map word_of_int vs) b"
proof -
  have "b\<lparr>cw := []\<rparr> = b" using assms(4) by (cases b) simp
  with board_run_word [of vs "[]" b] assms show ?thesis by (cases vs) simp_all
qed

section \<open>Six bits at a time\<close>

lemma word_six: "word_of_int (six k w) = drop_bit (6 * k) w AND 0x3f"
  by (simp add: six_def)

lemma six_range [simp]: "0 \<le> six k w" "six k w < 64"
proof -
  have m: "(0x3f :: u32) = mask 6" by (simp add: mask_eq_exp_minus_1)
  have "uint (take_bit 6 (drop_bit (6 * k) w)) = take_bit 6 (uint (drop_bit (6 * k) w))"
    by (simp add: unsigned_take_bit_eq)
  then show "six k w < 64" unfolding six_def m take_bit_eq_mask [symmetric] by (simp add: take_bit_eq_mod)
qed (simp add: six_def)

lemma join_six: "push_bit 6 (drop_bit (6 * Suc k) w) OR (drop_bit (6 * k) w AND 0x3f) = drop_bit (6 * k) w" for w :: u32
proof -
  have m: "(0x3f :: u32) = mask 6" by (simp add: mask_eq_exp_minus_1)
  show ?thesis
    unfolding m
    by (rule bit_word_eqI)
       (auto simp only: bit_or_iff bit_push_bit_iff bit_and_iff bit_drop_bit_eq bit_low_mask o_apply,
        auto simp: not_less)
qed

lemma join_step:
  "m = 6 * Suc k \<Longrightarrow> join (drop_bit m w) (word_of_int (six k w) # cs) = join (drop_bit (6 * k) w) cs"
  by (simp only: join.simps word_six join_six)

lemma join_full:
  "join (drop_bit 30 w) [word_of_int (six 4 w), word_of_int (six 3 w), word_of_int (six 2 w), word_of_int (six 1 w), word_of_int (six 0 w)] = w"
  by (simp add: join_step del: join.simps(2))

lemma drop_bit_small: "unat w < 2 ^ m \<Longrightarrow> drop_bit m w = 0" for w :: u32
proof -
  assume w: "unat w < 2 ^ m"
  have "take_bit 32 (unat w) = unat w" using unat_bound by (rule take_bit_nat_eq_self)
  then have "unat (drop_bit m w) = drop_bit m (unat w)" by (simp only: unsigned_drop_bit_eq) simp
  with w show ?thesis by (simp add: drop_bit_eq_div unat_eq_0)
qed

lemma join_small:
  "unat w < 2 ^ 6 \<Longrightarrow> join 0 [word_of_int (six 0 w)] = w"
  "unat w < 2 ^ 12 \<Longrightarrow> join 0 [word_of_int (six 1 w), word_of_int (six 0 w)] = w"
  "unat w < 2 ^ 18 \<Longrightarrow> join 0 [word_of_int (six 2 w), word_of_int (six 1 w), word_of_int (six 0 w)] = w"
  "unat w < 2 ^ 24 \<Longrightarrow> join 0 [word_of_int (six 3 w), word_of_int (six 2 w), word_of_int (six 1 w), word_of_int (six 0 w)] = w"
  using join_step [of 6 0 w "[]"] join_step [of 12 1 w] join_step [of 18 2 w] join_step [of 24 3 w]
  by (simp_all add: drop_bit_small join_step del: join.simps(2))

lemma top_two: "drop_bit 30 v AND 3 = drop_bit 30 v" for v :: u32
proof -
  have m: "(3 :: u32) = mask 2" by (simp add: mask_eq_exp_minus_1)
  show ?thesis unfolding m
    by (rule bit_word_eqI) (auto simp only: bit_and_iff bit_drop_bit_eq bit_low_mask o_apply, auto dest: bit_imp_le_length)
qed

lemma top_two_range: "uint (drop_bit 30 v AND 3) \<in> {0, 1, 2, 3}" for v :: u32
proof -
  have m: "(3 :: u32) = mask 2" by (simp add: mask_eq_exp_minus_1)
  have "uint (take_bit 2 (drop_bit 30 v)) = take_bit 2 (uint (drop_bit 30 v))" by (simp add: unsigned_take_bit_eq)
  then have "uint (drop_bit 30 v AND 3) < 4" unfolding m take_bit_eq_mask [symmetric] by (simp add: take_bit_eq_mod)
  moreover have "x \<in> {0, 1, 2, 3}" if "0 \<le> x" "x < 4" for x :: int using that by simp presburger
  ultimately show ?thesis by (simp only: uint_ge_0)
qed

text \<open>The first character of a write: its two bits and the increment.\<close>

lemma write_head_table:
  "list_all (\<lambda>q. list_all (\<lambda>p. list_all (\<lambda>base. let h = write_head base q p; c = word_of_int h :: u32 in
     drop_bit 3 c = (if base = 0x18 then 3 else 2) \<and> drop_bit 1 c AND 3 = word_of_int q \<and> (bit c 0 \<longleftrightarrow> p = 1)
     \<and> cw_len c = (if base = 0x18 then 6 else 2) \<and> 0 \<le> h \<and> h < 64)
     [0x10, 0x18]) [0, 1]) [0, 1, 2, 3]"
  by code_simp

lemma write_head_code:
  assumes "q \<in> {0, 1, 2, 3 :: int}" "p = 0 \<or> p = 1" "base \<in> {0x10, 0x18 :: int}"
  shows "drop_bit 3 (word_of_int (write_head base q p) :: u32) = (if base = 0x18 then 3 else 2)"
    "drop_bit 1 (word_of_int (write_head base q p) :: u32) AND 3 = word_of_int q"
    "bit (word_of_int (write_head base q p) :: u32) 0 \<longleftrightarrow> p = 1"
    "cw_len (word_of_int (write_head base q p)) = (if base = 0x18 then 6 else 2)"
    "0 \<le> write_head base q p" "write_head base q p < 64"
proof -
  have "q \<in> set [0, 1, 2, 3]" "p \<in> set [0, 1]" "base \<in> set [0x10, 0x18]" using assms by simp_all
  note t = write_head_table [unfolded list_all_iff Let_def, rule_format, OF this]
  from t show "drop_bit 3 (word_of_int (write_head base q p) :: u32) = (if base = 0x18 then 3 else 2)"
    "drop_bit 1 (word_of_int (write_head base q p) :: u32) AND 3 = word_of_int q"
    "bit (word_of_int (write_head base q p) :: u32) 0 \<longleftrightarrow> p = 1"
    "cw_len (word_of_int (write_head base q p)) = (if base = 0x18 then 6 else 2)"
    "0 \<le> write_head base q p" "write_head base q p < 64" by blast+
qed

lemma caddr_table:
  "list_all (\<lambda>k. drop_bit 6 k AND 3 \<in> {0, 1, 2, 3} \<and> 0 \<le> k AND 0x3f \<and> k AND 0x3f < 64
     \<and> (ucast (push_bit 6 (word_of_int (drop_bit 6 k AND 3)) OR word_of_int (k AND 0x3f) :: u32) :: u8) = word_of_int k) [0..255]"
  by code_simp

lemma caddr_code:
  assumes "0 \<le> k" "k < 256"
  shows "drop_bit 6 k AND 3 \<in> {0, 1, 2, 3}" "0 \<le> k AND 0x3f" "k AND 0x3f < 64"
    "ucast (push_bit 6 (word_of_int (drop_bit 6 k AND 3)) OR word_of_int (k AND 0x3f) :: u32) = (word_of_int k :: u8)"
  using caddr_table assms unfolding list_all_iff by auto

section \<open>Host and board in step\<close>

text \<open>
  The host's table and the board's hold the same values at the same distance, for the distances
  the host uses, and the host knows the board's address.
\<close>

definition tbl_sync :: "ttybus \<Rightarrow> board \<Rightarrow> bool" where
  "tbl_sync s b \<longleftrightarrow> 0 \<le> m_wraddr s \<and> m_wraddr s < 256 \<and> 256 \<le> length (m_writetbl s)
     \<and> (\<forall>k. 1 \<le> k \<and> k \<le> 255 \<and> (m_wrloaded s \<or> k \<le> m_wraddr s) \<longrightarrow>
          m_writetbl s ! nat ((m_wraddr s - k) mod 256) = compression_tbl b (wr_addr b - word_of_int k))"

definition addr_sync :: "ttybus \<Rightarrow> board \<Rightarrow> bool" where
  "addr_sync s b \<longleftrightarrow> cw b = [] \<and> (m_addr_set s \<longrightarrow> m_lastaddr s AND 3 = 0 \<and> wb_addr b = drop_bit 2 (m_lastaddr s))"

lemma and_ff_int: "x AND 0xff = x mod 256" for x :: int
proof -
  have m: "(0xff :: int) = mask 8" by (simp add: mask_eq_exp_minus_1)
  show ?thesis unfolding m take_bit_eq_mask [symmetric] by (simp add: take_bit_eq_mod)
qed

lemma wr_search_found:
  assumes "wr_search is val s = k" "k \<noteq> 0" "\<forall>i \<in> set is. 1 \<le> i \<and> i \<le> 255" "0 \<le> m_wraddr s" "m_wraddr s < 256"
  shows "1 \<le> k \<and> k \<le> 255 \<and> (m_wrloaded s \<or> k \<le> m_wraddr s) \<and> m_writetbl s ! nat ((m_wraddr s - k) mod 256) = val"
  using assms
proof (induction "is")
  case (Cons i "is")
  let ?t = "(m_wraddr s - int i) mod 256"
  have i: "1 \<le> int i" "int i \<le> 255" using Cons.prems(3) by auto
  then have d: "(m_wraddr s - ?t) mod 256 = int i" by (simp add: mod_diff_right_eq)
  show ?case
  proof (cases "\<not> m_wrloaded s \<and> m_wraddr s < ?t")
    case True
    then show ?thesis using Cons.prems(1,2) by (simp add: and_ff_int Let_def)
  next
    case False
    show ?thesis
    proof (cases "m_writetbl s ! nat ?t = val")
      case True
      have "k = int i" using Cons.prems(1) False True d by (simp add: and_ff_int Let_def)
      moreover have "int i \<le> m_wraddr s" if "?t \<le> m_wraddr s"
      proof (rule ccontr)
        assume "\<not> int i \<le> m_wraddr s"
        then have "?t = (m_wraddr s - int i + 256) mod 256" by simp
        also have "\<dots> = m_wraddr s - int i + 256"
          using i Cons.prems(4) \<open>\<not> int i \<le> m_wraddr s\<close> by (intro mod_pos_pos_trivial) auto
        finally have "?t = m_wraddr s - int i + 256" .
        with that i show False by simp
      qed
      ultimately show ?thesis using i True False by auto
    next
      case no: False
      then have "wr_search is val s = k" using Cons.prems(1) False by (simp add: and_ff_int Let_def)
      with Cons show ?thesis by simp
    qed
  qed
qed simp

lemma and_3: "x AND 3 = take_bit 2 x" for x :: u32
  by (simp add: take_bit_eq_mask mask_eq_exp_minus_1)

lemma aligned_add: "(x + 4 * n) AND 3 = x AND 3" for x n :: u32
proof -
  have "take_bit 2 (x + 4 * n) = take_bit 2 x"
    by transfer (simp add: take_bit_eq_mod)
  then show ?thesis by (simp add: and_3)
qed

lemma unat_word_addr: "unat (drop_bit 2 x) = unat x div 4" for x :: u32
proof -
  have "take_bit 32 (unat x) = unat x" using unat_bound by (rule take_bit_nat_eq_self)
  then show ?thesis by (simp only: unsigned_drop_bit_eq) (simp add: drop_bit_eq_div)
qed

lemma word_addr_add:
  fixes x :: u32
  assumes "unat x + 4 * n < 2 ^ 32"
  shows "drop_bit 2 (x + 4 * of_nat n) = drop_bit 2 x + of_nat n"
proof -
  have "unat (x + 4 * of_nat n) = unat x + 4 * n"
  proof -
    have "x + 4 * of_nat n = of_nat (unat x + 4 * n)" by simp
    then show ?thesis using assms by (simp only: unat_of_nat) simp
  qed
  then have "unat (drop_bit 2 (x + 4 * of_nat n)) = unat x div 4 + n" by (simp add: unat_word_addr)
  then have "(of_nat (unat (drop_bit 2 (x + 4 * of_nat n))) :: u32) = of_nat (unat (drop_bit 2 x) + n)"
    by (simp only: unat_word_addr)
  then show ?thesis by simp
qed

lemma byte_distance: "a - word_of_int k \<noteq> a" if "1 \<le> k" "k \<le> 255" for a :: u8
proof
  assume "a - word_of_int k = a"
  then have "(word_of_int k :: u8) = 0" by simp
  then have "k mod 256 = 0" by (simp add: word_of_int_eq_0_iff dvd_eq_mod_eq_0)
  then show False using that by (simp add: mod_pos_pos_trivial)
qed

lemma tbl_sync_raw:
  assumes "tbl_sync s b"
  shows "tbl_sync (s\<lparr>m_writetbl := (m_writetbl s)[nat (m_wraddr s) := v], m_wraddr := (m_wraddr s + 1) mod 256,
      m_wrloaded := (if (m_wraddr s + 1) mod 256 = 0 then True else m_wrloaded s)\<rparr>)
    (b\<lparr>compression_tbl := (compression_tbl b)(wr_addr b := v), wr_addr := wr_addr b + 1\<rparr>)"
proof -
  let ?w = "m_wraddr s"
  have w: "0 \<le> ?w" "?w < 256" "256 \<le> length (m_writetbl s)" using assms by (auto simp: tbl_sync_def)
  have "(m_writetbl s)[nat ?w := v] ! nat (((?w + 1) mod 256 - k) mod 256) =
      ((compression_tbl b)(wr_addr b := v)) (wr_addr b + 1 - word_of_int k)"
    if k: "1 \<le> k" "k \<le> 255" "(if (?w + 1) mod 256 = 0 then True else m_wrloaded s) \<or> k \<le> (?w + 1) mod 256" for k
  proof (cases "k = 1")
    case True
    then have "((?w + 1) mod 256 - k) mod 256 = ?w" using w by (simp add: mod_diff_left_eq)
    then show ?thesis using True w by simp
  next
    case False
    have i: "((?w + 1) mod 256 - k) mod 256 = (?w - (k - 1)) mod 256" by (simp add: mod_diff_left_eq algebra_simps)
    have "(?w - (k - 1)) mod 256 \<noteq> ?w"
    proof
      assume "(?w - (k - 1)) mod 256 = ?w"
      then have "(?w - (k - 1)) mod 256 = ?w mod 256" using w by simp
      then have "(256 :: int) dvd ?w - (k - 1) - ?w" by (simp only: mod_eq_dvd_iff)
      moreover have "?w - (k - 1) - ?w = - (k - 1)" by simp
      ultimately have "(256 :: int) dvd k - 1" by (simp only: dvd_minus_iff)
      moreover have "0 < k - 1" using k(1) False by simp
      ultimately have "256 \<le> k - 1" by (rule zdvd_imp_le)
      then show False using k(2) by simp
    qed
    then have "nat ((?w - (k - 1)) mod 256) \<noteq> nat ?w" using w by (simp add: nat_eq_iff)
    moreover have "m_wrloaded s \<or> k - 1 \<le> ?w"
    proof (cases "?w = 255")
      case True
      with k(2) show ?thesis by simp
    next
      case False
      with w have "(?w + 1) mod 256 = ?w + 1" by (intro mod_pos_pos_trivial) auto
      with k(3) w show ?thesis by auto
    qed
    then have "m_writetbl s ! nat ((?w - (k - 1)) mod 256) = compression_tbl b (wr_addr b - word_of_int (k - 1))"
      using assms k False unfolding tbl_sync_def by simp
    moreover have "wr_addr b - word_of_int (k - 1) \<noteq> wr_addr b"
      using k(1,2) False by (intro byte_distance) auto
    moreover have e: "wr_addr b + 1 - word_of_int k = wr_addr b - word_of_int (k - 1)" by simp
    ultimately show ?thesis unfolding i e by simp
  qed
  with w show ?thesis by (simp add: tbl_sync_def)
qed

lemma tbl_sync_scratch:
  assumes "tbl_sync s b"
  shows "tbl_sync s (b\<lparr>compression_tbl := (compression_tbl b)(wr_addr b := v)\<rparr>)"
proof -
  show ?thesis using assms byte_distance by (simp add: tbl_sync_def)
qed

section \<open>One word written\<close>

definition same_link :: "ttybus \<Rightarrow> ttybus \<Rightarrow> bool" where
  "same_link s s' \<longleftrightarrow> m_dev s' = m_dev s \<and> m_buflen s' = m_buflen s"

lemma tbl_sync_frame [simp]:
  "tbl_sync s (bus_write c v b) = tbl_sync s b" "tbl_sync (s\<lparr>m_lastaddr := x\<rparr>) b = tbl_sync s b"
  "tbl_sync s (b\<lparr>wb_addr := x\<rparr>) = tbl_sync s b" "tbl_sync (s\<lparr>m_rdaddr := y\<rparr>) b = tbl_sync s b"
  "tbl_sync (s\<lparr>m_addr_set := z\<rparr>) b = tbl_sync s b" "tbl_sync (s\<lparr>m_dev := d\<rparr>) b = tbl_sync s b"
  "tbl_sync (s\<lparr>m_buflen := n\<rparr>) b = tbl_sync s b"
  by (simp_all add: tbl_sync_def bus_write_def)

text \<open>
  What sending one word achieves: the board writes it at the current address, and both sides move on by
  \<open>p\<close> words.  The two codes for a word differ in the characters and in what they do to the tables only.
\<close>

definition word_written :: "int \<Rightarrow> u32 \<Rightarrow> ttybus \<Rightarrow> board \<Rightarrow> u8 list \<Rightarrow> ttybus \<Rightarrow> bool" where
  "word_written p v s b cs s' \<longleftrightarrow> length cs \<le> 6 \<and> cs \<noteq> [] \<and> same_link s s'
    \<and> m_addr_set s' \<and> m_lastaddr s' = m_lastaddr s + 4 * word_of_int p
    \<and> tbl_sync s' (board_run b cs) \<and> addr_sync s' (board_run b cs)
    \<and> bus_writes (board_run b cs) = bus_writes b @ [(drop_bit 2 (m_lastaddr s), v)]"

definition moved_on :: "int \<Rightarrow> ttybus \<Rightarrow> ttybus" where
  "moved_on p t = (if p = 1 then t\<lparr>m_lastaddr := m_lastaddr t + 4\<rparr> else t)"

lemma word_writtenI:
  assumes "addr_sync s b" "m_addr_set s" "p = 0 \<or> p = 1" "unat (m_lastaddr s) + 4 * nat p < 2 ^ 32"
    and "m_lastaddr t = m_lastaddr s" "same_link s t" "m_addr_set t"
    and "cw b' = []" "wb_addr b' = wb_addr b" "bus_writes b' = bus_writes b" "bit h 0 \<longleftrightarrow> p = 1"
    and "tbl_sync t (bus_write h v b')" "board_run b cs = bus_write h v b'" "length cs \<le> 6" "cs \<noteq> []"
  shows "word_written p v s b cs (moved_on p t)"
proof -
  have al: "m_lastaddr s AND 3 = 0" and wb: "wb_addr b = drop_bit 2 (m_lastaddr s)"
    using assms(1,2) by (auto simp: addr_sync_def)
  have adv: "m_lastaddr (moved_on p t) = m_lastaddr s + 4 * word_of_int p" "same_link s (moved_on p t)"
      "m_addr_set (moved_on p t)" "tbl_sync (moved_on p t) (bus_write h v b')"
    using assms(3,5-7,12) by (auto simp: moved_on_def same_link_def)
  have "drop_bit 2 (m_lastaddr s + 4 * of_nat (nat p)) = drop_bit 2 (m_lastaddr s) + of_nat (nat p)"
    using assms(4) by (rule word_addr_add)
  moreover have "of_nat (nat p) = (word_of_int p :: u32)" using assms(3) by auto
  ultimately have "addr_sync (moved_on p t) (bus_write h v b')"
    using adv(1) assms(3,8,9,11) al wb by (auto simp: addr_sync_def bus_write_def aligned_add [of _ 1, simplified])
  moreover have "bus_writes (bus_write h v b') = bus_writes b @ [(drop_bit 2 (m_lastaddr s), v)]"
    using assms(9,10) wb by (simp add: bus_write_def)
  ultimately show ?thesis using adv assms(13-15) by (simp add: word_written_def)
qed

text \<open>A word the table has: two characters that refer to it.\<close>

lemma write_word_found:
  assumes "tbl_sync s b" "addr_sync s b" "m_addr_set s" "p = 0 \<or> p = 1" "unat (m_lastaddr s) + 4 * nat p < 2 ^ 32"
    and "wr_search [1..<256] v s = k" "k \<noteq> 0"
  shows "\<exists>cs s'. write_word p v s = Inr (cs, s') \<and> word_written p v s b cs s'"
proof -
  have c: "cw b = []" using assms(2) by (simp add: addr_sync_def)
  have "\<forall>i \<in> set [1..<256]. 1 \<le> i \<and> i \<le> 255" by auto
  from wr_search_found [OF assms(6,7) this] assms(1)
  have k: "1 \<le> k" "k \<le> 255" "m_wrloaded s \<or> k \<le> m_wraddr s" "m_writetbl s ! nat ((m_wraddr s - k) mod 256) = v"
    by (auto simp: tbl_sync_def)
  have k256: "0 \<le> k" "k < 256" using k by auto
  define q where "q = drop_bit 6 k AND 3"
  define h where "h = write_head 0x10 q p"
  note q = caddr_code [OF k256, folded q_def]
  note h = write_head_code [OF q(1) assms(4), where base = "0x10", folded h_def]
  define vs where "vs = [h, k AND 0x3f]"
  have ok: "sixes_ok vs" using q(2,3) h(5,6) by (simp add: vs_def)
  define b' where "b' = b\<lparr>compression_tbl := (compression_tbl b)(wr_addr b := join (word_of_int q) [word_of_int (k AND 0x3f)])\<rparr>"
  have "board_run b (map sixchar vs) = board_exec (map word_of_int vs) b"
    using ok h(4) c by (intro board_run_codeword) (simp_all add: vs_def)
  also have "\<dots> = bus_write (word_of_int h) v b'"
  proof -
    have "wr_addr b - word_of_int k \<noteq> wr_addr b" using k(1,2) by (rule byte_distance)
    moreover have "compression_tbl b (wr_addr b - word_of_int k) = v"
      using assms(1) k unfolding tbl_sync_def by metis
    ultimately show ?thesis using h(1,2) q(4) by (simp add: board_exec_def Let_def vs_def b'_def del: join.simps)
  qed
  finally have run: "board_run b (map sixchar vs) = bus_write (word_of_int h) v b'" .
  have enc: "charencs [write_head 0x10 (drop_bit 6 k AND 3) p, k AND 0x3f] = Inr (map sixchar vs)"
    using charencs_ok [OF ok] by (simp only: vs_def h_def q_def)
  have "write_word p v s = Inr (map sixchar vs, moved_on p s)"
    unfolding write_word_def Let_def assms(6) enc using assms(7) by (simp add: moved_on_def)
  moreover have "word_written p v s b (map sixchar vs) (moved_on p s)"
    by (rule word_writtenI [OF assms(2-5) _ _ _ _ _ _ h(3) _ run])
      (use assms(3) c tbl_sync_scratch [OF assms(1)] in \<open>simp_all add: b'_def vs_def same_link_def\<close>)
  ultimately show ?thesis by blast
qed

text \<open>Any other word: six characters, and both sides enter it in their tables.\<close>

lemma write_word_raw:
  assumes "tbl_sync s b" "addr_sync s b" "m_addr_set s" "p = 0 \<or> p = 1" "unat (m_lastaddr s) + 4 * nat p < 2 ^ 32"
    and "wr_search [1..<256] v s = 0"
  shows "\<exists>cs s'. write_word p v s = Inr (cs, s') \<and> word_written p v s b cs s'"
proof -
  have c: "cw b = []" using assms(2) by (simp add: addr_sync_def)
  define q where "q = uint (drop_bit 30 v AND 3)"
  define h where "h = write_head 0x18 q p"
  note h = write_head_code [OF top_two_range [of v, folded q_def] assms(4), where base = "0x18", folded h_def]
  define vs where "vs = [h, six 4 v, six 3 v, six 2 v, six 1 v, six 0 v]"
  have ok: "sixes_ok vs" using h(5,6) by (simp add: vs_def)
  define b' where "b' = b\<lparr>compression_tbl := (compression_tbl b)(wr_addr b := v), wr_addr := wr_addr b + 1\<rparr>"
  define t where "t = s\<lparr>m_writetbl := (m_writetbl s)[nat (m_wraddr s) := v], m_wraddr := (m_wraddr s + 1) mod 256,
    m_wrloaded := (if (m_wraddr s + 1) mod 256 = 0 then True else m_wrloaded s)\<rparr>"
  have "board_run b (map sixchar vs) = board_exec (map word_of_int vs) b"
    using ok h(4) c by (intro board_run_codeword) (simp_all add: vs_def)
  also have "\<dots> = bus_write (word_of_int h) v b'"
  proof -
    have "(word_of_int q :: u32) = drop_bit 30 v" by (simp add: q_def top_two)
    with h(1,2) join_full [of v] show ?thesis
      by (simp add: board_exec_def Let_def vs_def b'_def del: join.simps)
  qed
  finally have run: "board_run b (map sixchar vs) = bus_write (word_of_int h) v b'" .
  have enc: "charencs [write_head 0x18 (uint (drop_bit 30 v AND 3)) p, six 4 v, six 3 v, six 2 v, six 1 v, six 0 v] =
      Inr (map sixchar vs)"
    using charencs_ok [OF ok] by (simp only: vs_def h_def q_def)
  have "write_word p v s = Inr (map sixchar vs, moved_on p t)"
    unfolding write_word_def Let_def assms(6) enc by (simp add: moved_on_def t_def and_ff_int)
  moreover have "word_written p v s b (map sixchar vs) (moved_on p t)"
    by (rule word_writtenI [OF assms(2-5) _ _ _ _ _ _ h(3) _ run])
      (use assms(3) c tbl_sync_raw [OF assms(1)] in \<open>simp_all add: b'_def t_def vs_def same_link_def\<close>)
  ultimately show ?thesis by blast
qed

lemma write_word_board:
  assumes "tbl_sync s b" "addr_sync s b" "m_addr_set s" "p = 0 \<or> p = 1" "unat (m_lastaddr s) + 4 * nat p < 2 ^ 32"
  shows "\<exists>cs s'. write_word p v s = Inr (cs, s') \<and> length cs \<le> 6 \<and> cs \<noteq> [] \<and> same_link s s'
    \<and> m_addr_set s' \<and> m_lastaddr s' = m_lastaddr s + 4 * word_of_int p
    \<and> tbl_sync s' (board_run b cs) \<and> addr_sync s' (board_run b cs)
    \<and> bus_writes (board_run b cs) = bus_writes b @ [(drop_bit 2 (m_lastaddr s), v)]"
  using write_word_found [OF assms refl, of v] write_word_raw [OF assms, of v]
  by (cases "wr_search [1..<256] v s = 0") (simp_all add: word_written_def)

section \<open>The address\<close>

lemma sext_small: "unat v < 2 ^ (n - 1) \<Longrightarrow> 0 < n \<Longrightarrow> sext n v = v"
proof -
  assume v: "unat v < 2 ^ (n - 1)"
  have "bit v (n - 1) = bit (drop_bit (n - 1) v) 0" by (simp add: bit_drop_bit_eq)
  also have "\<dots> = False" using drop_bit_small [OF v] by simp
  finally show ?thesis by (simp add: sext_def)
qed

definition scratch :: "u32 \<Rightarrow> board \<Rightarrow> board" where
  "scratch x b = b\<lparr>compression_tbl := (compression_tbl b)(wr_addr b := x)\<rparr>"

lemma scratch_frame [simp]:
  "bus_writes (scratch x b) = bus_writes b" "bus_reads (scratch x b) = bus_reads b" "cw (scratch x b) = cw b" "wb_addr (scratch x b) = wb_addr b"
  "tbl_sync s b \<Longrightarrow> tbl_sync s (scratch x b)"
  by (simp_all add: scratch_def tbl_sync_scratch)

text \<open>An address codeword of \<open>n\<close> digits, relative or absolute.\<close>

lemma board_addr:
  assumes "ds = [six 0 d] \<and> n = 1 \<or> ds = [six 1 d, six 0 d] \<and> n = 2 \<or> ds = [six 2 d, six 1 d, six 0 d] \<and> n = 3
      \<or> ds = [six 3 d, six 2 d, six 1 d, six 0 d] \<and> n = 4"
    and "unat d < 2 ^ (6 * n - (if rel then 1 else 0))" "cw b = []"
  shows "\<exists>x. board_run b (map sixchar ((6 + 2 * int n + of_bool rel) # ds)) =
      (scratch x b)\<lparr>wb_addr := (if rel then wb_addr b + d else d)\<rparr>"
    and "charencs ((6 + 2 * int n + of_bool rel) # ds) = Inr (map sixchar ((6 + 2 * int n + of_bool rel) # ds))"
proof -
  let ?h = "6 + 2 * int n + of_bool rel" and ?c = "6 + 2 * of_nat n + of_bool rel :: u32"
  have n: "n \<in> {1, 2, 3, 4}" "length ds = n" "ds \<noteq> []" "sixes_ok ds" using assms(1) by auto
  have c: "drop_bit 3 ?c = 1" "bit ?c 0 = rel" "cw_len ?c = Suc n" "word_of_int ?h = ?c" "0 \<le> ?h" "?h < 64"
    using n(1) by (auto simp: cw_len_def)
  have d: "unat d < 2 ^ (6 * n)"
    using assms(2) by (rule less_le_trans) (intro power_increasing, auto)
  have join: "join 0 (map word_of_int ds) = d"
    using assms(1) d by (auto simp: join_small simp del: join.simps One_nat_def)
  have "sext (6 * n) d = d" if rel using that assms(2) n(1) by (intro sext_small) auto
  moreover have ok: "sixes_ok (?h # ds)" using c(5,6) n(4) by simp
  moreover have "board_run b (map sixchar (?h # ds)) = board_exec (map word_of_int (?h # ds)) b"
    using ok assms(3) n c(3,4) by (intro board_run_codeword) simp_all
  ultimately have "board_run b (map sixchar (?h # ds)) =
      (scratch (join (drop_bit 1 ?c AND 3) (map word_of_int ds)) b)\<lparr>wb_addr := (if rel then wb_addr b + d else d)\<rparr>"
    using c join n(2) by (simp add: board_exec_def Let_def scratch_def)
  then show "\<exists>x. board_run b (map sixchar (?h # ds)) =
      (scratch x b)\<lparr>wb_addr := (if rel then wb_addr b + d else d)\<rparr>" by blast
  show "charencs (?h # ds) = Inr (map sixchar (?h # ds))" using ok by (rule charencs_ok)
qed

text \<open>The full address, of six digits.\<close>

lemma board_full_addr:
  assumes "drop_bit 30 a = 0" "cw b = []"
  shows "\<exists>cs x. encode 0 a = Inr cs \<and> length cs = 6 \<and> board_run b cs = (scratch x b)\<lparr>wb_addr := a\<rparr>"
proof -
  have h: "push_bit 2 0 OR uint (drop_bit 30 a AND 3) = 0" using assms(1) by simp
  let ?vs = "[0, six 4 a, six 3 a, six 2 a, six 1 a, six 0 a]"
  have ok: "sixes_ok ?vs" by simp
  have "board_run b (map sixchar ?vs) = board_exec (map word_of_int ?vs) b"
    using ok assms(2) by (intro board_run_codeword) (simp_all add: cw_len_def)
  also have "\<dots> = (scratch (join (drop_bit 1 0 AND 3) (map word_of_int (tl ?vs))) b)\<lparr>wb_addr := a\<rparr>"
  proof -
    have "join 0 (map word_of_int (tl ?vs)) = a" using join_full [of a] assms(1) by (simp del: join.simps One_nat_def)
    moreover have "drop 1 (x # xs) = xs" for x and xs :: "u32 list" by simp
    ultimately show ?thesis by (simp add: board_exec_def Let_def scratch_def del: join.simps One_nat_def)
  qed
  finally have "board_run b (map sixchar ?vs) = (scratch (join (drop_bit 1 0 AND 3) (map word_of_int (tl ?vs))) b)\<lparr>wb_addr := a\<rparr>" .
  moreover have "encode 0 a = Inr (map sixchar ?vs)" unfolding encode_def h using ok by (rule charencs_ok)
  moreover have "length (map sixchar ?vs) = 6" by simp
  ultimately show ?thesis by blast
qed

definition addr_done :: "u32 \<Rightarrow> board \<Rightarrow> u8 list \<Rightarrow> bool" where
  "addr_done a b cs \<longleftrightarrow> length cs \<le> 6 \<and> (\<exists>x. board_run b cs = (scratch x b)\<lparr>wb_addr := a\<rparr>)"

lemma addr_doneI:
  assumes "ds = [six 0 d] \<and> n = 1 \<or> ds = [six 1 d, six 0 d] \<and> n = 2 \<or> ds = [six 2 d, six 1 d, six 0 d] \<and> n = 3
      \<or> ds = [six 3 d, six 2 d, six 1 d, six 0 d] \<and> n = 4"
    and "unat d < 2 ^ (6 * n - (if rel then 1 else 0))" "cw b = []" "a = (if rel then wb_addr b + d else d)"
    and "h = 6 + 2 * int n + of_bool rel"
  shows "\<exists>cs. charencs (h # ds) = Inr cs \<and> length cs = Suc n \<and> addr_done a b cs"
proof -
  have "length ds = n" "n \<le> 4" using assms(1) by auto
  then show ?thesis
    using board_addr [OF assms(1-3)] unfolding assms(4,5) addr_done_def by auto
qed

lemma uint_unat_less: "uint d < int m \<longleftrightarrow> unat d < m" for d :: u32
  by (simp only: unat_eq_nat_uint nat_less_iff [OF uint_ge_0])

lemma diff_code_done:
  assumes "cw b = []"
  shows "diff_code d = Inr [] \<and> 2 ^ 23 \<le> unat d
     \<or> (\<exists>cs. diff_code d = Inr cs \<and> addr_done (wb_addr b + d) b cs
        \<and> (length cs = 2 \<and> unat d < 32 \<or> length cs = 3 \<and> unat d < 2048 \<or> length cs = 4 \<and> unat d < 2 ^ 17
           \<or> length cs = 5 \<and> unat d < 2 ^ 23))"
proof -
  have pos: "- m \<le> uint d" if "0 \<le> m" for m using that uint_ge_0 [of d] by linarith
  note i = addr_doneI [where b = b and d = d and rel = True, OF _ _ assms]
  consider "unat d < 32" | "32 \<le> unat d" "unat d < 2048" | "2048 \<le> unat d" "unat d < 2 ^ 17"
    | "2 ^ 17 \<le> unat d" "unat d < 2 ^ 23" | "2 ^ 23 \<le> unat d" by linarith
  then show ?thesis
  proof cases
    case 1
    then have "uint d < 32" using uint_unat_less [of d 32] by simp
    then have "diff_code d = charencs [0x09, six 0 d]" using pos by (simp add: diff_code_def Let_def)
    with i [of "[six 0 d]" 1 _ 9] 1 show ?thesis by auto
  next
    case 2
    then have "\<not> uint d < 32" "uint d < 2048" using uint_unat_less [of d 32] uint_unat_less [of d 2048] by simp_all
    then have "diff_code d = charencs [0x0b, six 1 d, six 0 d]" using pos by (simp add: diff_code_def Let_def)
    with i [of "[six 1 d, six 0 d]" 2 _ "0x0b"] 2 show ?thesis by auto
  next
    case 3
    then have "\<not> uint d < 32" "\<not> uint d < 2048" "uint d < 2 ^ 17"
      using uint_unat_less [of d 32] uint_unat_less [of d 2048] uint_unat_less [of d "2 ^ 17"] by simp_all
    then have "diff_code d = charencs [0x0d, six 2 d, six 1 d, six 0 d]" using pos by (simp add: diff_code_def Let_def)
    with i [of "[six 2 d, six 1 d, six 0 d]" 3 _ "0x0d"] 3 show ?thesis by auto
  next
    case 4
    then have "\<not> uint d < 32" "\<not> uint d < 2048" "\<not> uint d < 2 ^ 17" "uint d < 2 ^ 23"
      using uint_unat_less [of d 32] uint_unat_less [of d 2048] uint_unat_less [of d "2 ^ 17"]
        uint_unat_less [of d "2 ^ 23"] by simp_all
    then have "diff_code d = charencs [0x0f, six 3 d, six 2 d, six 1 d, six 0 d]" using pos by (simp add: diff_code_def Let_def)
    with i [of "[six 3 d, six 2 d, six 1 d, six 0 d]" 4 _ "0x0f"] 4 show ?thesis by auto
  next
    case 5
    then have "\<not> uint d < 32" "\<not> uint d < 2048" "\<not> uint d < 2 ^ 17" "\<not> uint d < 2 ^ 23"
      using uint_unat_less [of d 32] uint_unat_less [of d 2048] uint_unat_less [of d "2 ^ 17"]
        uint_unat_less [of d "2 ^ 23"] by simp_all
    with 5 show ?thesis by (simp add: diff_code_def Let_def)
  qed
qed

lemma addr_code_done:
  assumes "cw b = []" "drop_bit 30 a = 0"
    and out: "out = [] \<or> addr_done a b out \<and> length out \<in> {2, 3, 4, 5}
      \<or> length out = 2 \<and> unat a < 64 \<or> length out = 3 \<and> unat a < 2 ^ 12
      \<or> length out = 4 \<and> unat a < 2 ^ 18 \<or> length out = 5 \<and> unat a < 2 ^ 24"
  shows "\<exists>cs. addr_code a out = Inr cs \<and> addr_done a b cs"
proof -
  let ?n = "length out"
  note i = addr_doneI [where b = b and d = a and rel = False, OF _ _ assms(1)]
  have le: "a \<le> 0x3f \<longleftrightarrow> unat a < 64" "a \<le> 0x0fff \<longleftrightarrow> unat a < 2 ^ 12" "a \<le> 0x03ffff \<longleftrightarrow> unat a < 2 ^ 18"
    "a \<le> 0x0ffffff \<longleftrightarrow> unat a < 2 ^ 24" by (auto simp: word_le_nat_alt)
  have small: "charencs [0x08, uint a] = charencs [0x08, six 0 a]" if "unat a < 64"
  proof -
    have "drop_bit 6 a = 0" using that drop_bit_small [of a 6] by simp
    then have "a AND 0x3f = a" using join_six [of 0 a] by simp
    then show ?thesis by (simp add: six_def)
  qed
  consider "unat a < 64 \<and> (?n = 0 \<or> 2 \<le> ?n)"
    | "\<not> (unat a < 64 \<and> (?n = 0 \<or> 2 \<le> ?n))" "unat a < 2 ^ 12 \<and> (?n = 0 \<or> 3 \<le> ?n)"
    | "\<not> (unat a < 64 \<and> (?n = 0 \<or> 2 \<le> ?n))" "\<not> (unat a < 2 ^ 12 \<and> (?n = 0 \<or> 3 \<le> ?n))"
      "unat a < 2 ^ 18 \<and> (?n = 0 \<or> 4 \<le> ?n)"
    | "\<not> (unat a < 64 \<and> (?n = 0 \<or> 2 \<le> ?n))" "\<not> (unat a < 2 ^ 12 \<and> (?n = 0 \<or> 3 \<le> ?n))"
      "\<not> (unat a < 2 ^ 18 \<and> (?n = 0 \<or> 4 \<le> ?n))" "unat a < 2 ^ 24 \<and> (?n = 0 \<or> 5 \<le> ?n)"
    | "\<not> (unat a < 64 \<and> (?n = 0 \<or> 2 \<le> ?n))" "\<not> (unat a < 2 ^ 12 \<and> (?n = 0 \<or> 3 \<le> ?n))"
      "\<not> (unat a < 2 ^ 18 \<and> (?n = 0 \<or> 4 \<le> ?n))" "\<not> (unat a < 2 ^ 24 \<and> (?n = 0 \<or> 5 \<le> ?n))" by blast
  then show ?thesis
  proof cases
    case 1
    then have "addr_code a out = charencs [0x08, six 0 a]" unfolding addr_code_def Let_def le using small by simp
    with i [of "[six 0 a]" 1 _ 8] 1 show ?thesis by auto
  next
    case 2
    then have "addr_code a out = charencs [0x0a, six 1 a, six 0 a]"
      by (simp only: addr_code_def Let_def le simp_thms if_True if_False)
    with i [of "[six 1 a, six 0 a]" 2 _ "0x0a"] 2 show ?thesis by auto
  next
    case 3
    then have "addr_code a out = charencs [0x0c, six 2 a, six 1 a, six 0 a]"
      by (simp only: addr_code_def Let_def le simp_thms if_True if_False)
    with i [of "[six 2 a, six 1 a, six 0 a]" 3 _ "0x0c"] 3 show ?thesis by auto
  next
    case 4
    then have "addr_code a out = charencs [0x0e, six 3 a, six 2 a, six 1 a, six 0 a]"
      by (simp only: addr_code_def Let_def le simp_thms if_True if_False)
    with i [of "[six 3 a, six 2 a, six 1 a, six 0 a]" 4 _ "0x0e"] 4 show ?thesis by auto
  next
    case 5
    then have r: "addr_code a out = (if ?n = 0 then encode 0 a else Inr out)" by (simp only: addr_code_def Let_def le simp_thms if_True if_False)
    show ?thesis
    proof (cases "?n = 0")
      case True
      with r board_full_addr [OF assms(2,1)] show ?thesis by (fastforce simp: addr_done_def)
    next
      case False
      with 5 out have "addr_done a b out" by auto
      with r False show ?thesis by simp
    qed
  qed
qed

text \<open>
  \<open>encode_address\<close> leaves the board at the address, also when the difference wraps: then the
  address itself is small, and preferred.
\<close>

lemma aligned_unat: "x AND 3 = 0 \<longleftrightarrow> unat x mod 4 = 0" for x :: u32
proof -
  have "unat (take_bit 2 x) = take_bit 2 (unat x)" by (simp add: unsigned_take_bit_eq)
  then show ?thesis by (simp add: and_3 take_bit_eq_mod flip: unat_eq_0)
qed

lemma addr_diff:
  fixes a l :: u32
  assumes "a AND 3 = 0" "l AND 3 = 0"
  shows "l \<le> a \<Longrightarrow> drop_bit 2 l + drop_bit 2 (a - l) = drop_bit 2 a"
    and "\<not> l \<le> a \<Longrightarrow> unat (drop_bit 2 a) \<le> unat (drop_bit 2 (a - l))"
proof -
  assume le: "l \<le> a"
  then have ul: "unat l \<le> unat a" by (simp add: word_le_nat_alt)
  have n: "unat (a - l) = unat a - unat l" using le by (rule unat_sub)
  define n where "n = (unat a - unat l) div 4"
  have "unat a mod 4 = 0" "unat l mod 4 = 0" using assms by (simp_all add: aligned_unat)
  then have n4: "4 * n = unat a - unat l" unfolding n_def by (simp add: dvd_diff_nat mod_0_imp_dvd)
  have "drop_bit 2 (a - l) = of_nat (unat (drop_bit 2 (a - l)))" by simp
  also have "unat (drop_bit 2 (a - l)) = n" by (simp only: unat_word_addr n n_def)
  finally have d: "drop_bit 2 (a - l) = of_nat n" .
  have "unat l + 4 * n < 2 ^ 32" using n4 ul unat_bound [of a] by simp
  then have "drop_bit 2 (l + 4 * of_nat n) = drop_bit 2 l + of_nat n" by (rule word_addr_add)
  moreover have "l + 4 * of_nat n = a"
  proof -
    have "l + 4 * of_nat n = of_nat (unat l + 4 * n)" by simp
    also have "\<dots> = of_nat (unat a)" using n4 ul by simp
    finally show ?thesis by simp
  qed
  ultimately show "drop_bit 2 l + drop_bit 2 (a - l) = drop_bit 2 a" unfolding d by simp
next
  assume "\<not> l \<le> a"
  then have "unat (a - l) = unat a + 2 ^ 32 - unat l" by (simp add: unat_sub_if' word_le_nat_alt)
  then have "unat a \<le> unat (a - l)" using unat_bound [of l] by simp
  then show "unat (drop_bit 2 a) \<le> unat (drop_bit 2 (a - l))" unfolding unat_word_addr by (rule div_le_mono)
qed

lemma encode_address_board:
  assumes "tbl_sync s b" "addr_sync s b" "a AND 3 = 0" "6 < m_buflen s"
  shows "\<exists>cs s'. encode_address a s = Inr (cs, s') \<and> length cs \<le> 6 \<and> same_link s s'
    \<and> tbl_sync s' (board_run b cs) \<and> cw (board_run b cs) = [] \<and> wb_addr (board_run b cs) = drop_bit 2 a
    \<and> bus_writes (board_run b cs) = bus_writes b \<and> bus_reads (board_run b cs) = bus_reads b"
proof (cases "m_addr_set s \<and> a = m_lastaddr s")
  case True
  with assms show ?thesis by (simp add: encode_address_def addr_sync_def same_link_def)
next
  case False
  let ?a = "drop_bit 2 a"
  have c: "cw b = []" using assms(2) by (simp add: addr_sync_def)
  have a: "unat ?a < 2 ^ 30" using unat_bound [of a] by (simp add: unat_word_addr less_mult_imp_div_less)
  then have a30: "drop_bit 30 ?a = 0" by (rule drop_bit_small)
  have "\<exists>out. (if m_addr_set s then rbind (diff_code (drop_bit 2 (a - m_lastaddr s))) (terminate s) else Inr []) = Inr out
      \<and> (out = [] \<or> addr_done ?a b out \<and> length out \<in> {2, 3, 4, 5}
      \<or> length out = 2 \<and> unat ?a < 64 \<or> length out = 3 \<and> unat ?a < 2 ^ 12
      \<or> length out = 4 \<and> unat ?a < 2 ^ 18 \<or> length out = 5 \<and> unat ?a < 2 ^ 24)"
  proof (cases "m_addr_set s")
    case True
    let ?l = "m_lastaddr s" and ?d = "drop_bit 2 (a - m_lastaddr s)"
    have l: "wb_addr b = drop_bit 2 ?l" using assms(2) True by (simp add: addr_sync_def)
    have al: "?l AND 3 = 0" using assms(2) True by (simp add: addr_sync_def)
    note d = diff_code_done [OF c, of ?d]
    show ?thesis
    proof (cases "?l \<le> a")
      case le: True
      have "wb_addr b + ?d = ?a" unfolding l using assms(3) al le by (rule addr_diff)
      note d [unfolded this]
      then show ?thesis using True assms(4) by (auto simp: terminate_def)
    next
      case False
      with assms(3) al have "unat ?a \<le> unat ?d" by (rule addr_diff)
      with d show ?thesis using True assms(4) by (auto simp: terminate_def)
    qed
  qed simp
  then obtain out where out: "(if m_addr_set s then rbind (diff_code (drop_bit 2 (a - m_lastaddr s))) (terminate s) else Inr []) = Inr out"
      "out = [] \<or> addr_done ?a b out \<and> length out \<in> {2, 3, 4, 5}
      \<or> length out = 2 \<and> unat ?a < 64 \<or> length out = 3 \<and> unat ?a < 2 ^ 12
      \<or> length out = 4 \<and> unat ?a < 2 ^ 18 \<or> length out = 5 \<and> unat ?a < 2 ^ 24" by blast
  obtain cs where cs: "addr_code ?a out = Inr cs" "addr_done ?a b cs"
    using addr_code_done [OF c a30 out(2)] by blast
  then obtain x where x: "board_run b cs = (scratch x b)\<lparr>wb_addr := ?a\<rparr>" "length cs \<le> 6" by (auto simp: addr_done_def)
  have "encode_address a s = Inr (cs, s\<lparr>m_rdaddr := 0\<rparr>)"
    unfolding encode_address_def if_not_P [OF False] out(1)
    using assms(3,4) cs(1) x(2) by (simp add: terminate_def)
  moreover have "tbl_sync (s\<lparr>m_rdaddr := 0\<rparr>) (board_run b cs)" using assms(1) by (simp add: x)
  ultimately show ?thesis using c x by (simp add: same_link_def)
qed

section \<open>A whole write\<close>

text \<open>The writes asked for: the word address of each, and its value.\<close>

fun write_log :: "int \<Rightarrow> u32 \<Rightarrow> u32 list \<Rightarrow> (u32 \<times> u32) list" where
  "write_log p a [] = []"
| "write_log p a (v # vs) = (drop_bit 2 a, v) # write_log p (a + 4 * word_of_int p) vs"

lemma write_log_append:
  "write_log p a (vs @ ws) = write_log p a vs @ write_log p (a + 4 * word_of_int p * of_nat (length vs)) ws"
  by (induction vs arbitrary: a) (simp_all add: algebra_simps)

lemma last_addr_steps:
  fixes l :: u32
  assumes "p = 0 \<or> p = 1" "unat l + 4 * nat p * (n + m) < 2 ^ 32"
  shows "unat (l + 4 * word_of_int p * of_nat n) + 4 * nat p * m < 2 ^ 32"
proof -
  have p: "word_of_int p = (of_nat (nat p) :: u32)" using assms(1) by auto
  have "l + 4 * of_nat (nat p) * of_nat n = of_nat (unat l + 4 * nat p * n)" by simp
  then have "unat (l + 4 * word_of_int p * of_nat n) = (unat l + 4 * nat p * n) mod 2 ^ 32"
    unfolding p by (simp only: unat_of_nat) simp
  moreover have "unat l + 4 * nat p * n < 2 ^ 32" using assms(2) by (simp add: algebra_simps)
  ultimately show ?thesis using assms(2) by (simp add: algebra_simps)
qed

lemma write_words_board:
  assumes "tbl_sync s (board_run b out)" "addr_sync s (board_run b out)" "m_addr_set s" "p = 0 \<or> p = 1"
    and "unat (m_lastaddr s) + 4 * nat p * length ws < 2 ^ 32"
  shows "\<exists>cs s'. write_words p ws out s = Inr (out @ cs, s') \<and> length cs \<le> 6 * length ws \<and> (ws \<noteq> [] \<longrightarrow> cs \<noteq> [])
    \<and> same_link s s' \<and> m_addr_set s' \<and> m_lastaddr s' = m_lastaddr s + 4 * word_of_int p * of_nat (length ws)
    \<and> tbl_sync s' (board_run b (out @ cs)) \<and> addr_sync s' (board_run b (out @ cs))
    \<and> bus_writes (board_run b (out @ cs)) = bus_writes (board_run b out) @ write_log p (m_lastaddr s) ws"
  using assms
proof (induction ws arbitrary: s out)
  case (Cons v vs)
  have "unat (m_lastaddr s) + 4 * nat p < 2 ^ 32"
    using Cons.prems(5) by (cases "length vs") simp_all
  from write_word_board [OF Cons.prems(1-4) this, of v] obtain cs1 s1 where
    1: "write_word p v s = Inr (cs1, s1)" "length cs1 \<le> 6" "cs1 \<noteq> []" "same_link s s1" "m_addr_set s1"
      "m_lastaddr s1 = m_lastaddr s + 4 * word_of_int p" "tbl_sync s1 (board_run b (out @ cs1))"
      "addr_sync s1 (board_run b (out @ cs1))"
      "bus_writes (board_run b (out @ cs1)) = bus_writes (board_run b out) @ [(drop_bit 2 (m_lastaddr s), v)]"
    by auto
  have "unat (m_lastaddr s1) + 4 * nat p * length vs < 2 ^ 32"
    unfolding 1(6) using last_addr_steps [of p "m_lastaddr s" 1 "length vs"] Cons.prems(4,5) by simp
  from Cons.IH [OF 1(7,8,5) Cons.prems(4) this] obtain cs2 s2 where
    2: "write_words p vs (out @ cs1) s1 = Inr ((out @ cs1) @ cs2, s2)" "length cs2 \<le> 6 * length vs" "same_link s1 s2"
      "m_addr_set s2" "m_lastaddr s2 = m_lastaddr s1 + 4 * word_of_int p * of_nat (length vs)"
      "tbl_sync s2 (board_run b ((out @ cs1) @ cs2))" "addr_sync s2 (board_run b ((out @ cs1) @ cs2))"
      "bus_writes (board_run b ((out @ cs1) @ cs2)) = bus_writes (board_run b (out @ cs1)) @ write_log p (m_lastaddr s1) vs"
    by blast
  have "write_words p (v # vs) out s = Inr (out @ (cs1 @ cs2), s2)" using 1(1) 2(1) by simp
  moreover have "length (cs1 @ cs2) \<le> 6 * length (v # vs)" using 1(2) 2(2) by simp
  moreover have "cs1 @ cs2 \<noteq> []" using 1(3) by simp
  moreover have "same_link s s2" using 1(4) 2(3) by (simp add: same_link_def)
  moreover have "m_lastaddr s2 = m_lastaddr s + 4 * word_of_int p * of_nat (length (v # vs))"
    using 1(6) 2(5) by (simp add: algebra_simps)
  moreover have "bus_writes (board_run b (out @ (cs1 @ cs2))) =
      bus_writes (board_run b out) @ write_log p (m_lastaddr s) (v # vs)" using 1(6,9) 2(8) by simp
  moreover have "tbl_sync s2 (board_run b (out @ (cs1 @ cs2)))" "addr_sync s2 (board_run b (out @ (cs1 @ cs2)))"
    using 2(6,7) by simp_all
  ultimately show ?case using 2(4) by blast
qed (auto simp: same_link_def)

text \<open>A board that says nothing at all.\<close>

definition quiet :: "ttybus \<Rightarrow> bool" where
  "quiet s \<longleftrightarrow> (\<forall>e \<in> set (ll_rx (m_dev s)). e = Pause)"

text \<open>What \<open>readidle\<close> hears leaves host and board in step.\<close>

lemma heard_frame:
  assumes "heard s s'"
  shows "tbl_sync s' b = tbl_sync s b" "addr_sync s' b = addr_sync s b" "m_addr_set s' = m_addr_set s"
    "m_lastaddr s' = m_lastaddr s" "m_buflen s' = m_buflen s" "ll_tx (m_dev s') = ll_tx (m_dev s)"
  using assms by (cases s; cases s'; simp add: heard_def tbl_sync_def addr_sync_def)+

lemma addr_sync_frame [simp]:
  "addr_sync (s\<lparr>m_dev := d\<rparr>) b = addr_sync s b" "addr_sync (s\<lparr>m_buflen := n\<rparr>) b = addr_sync s b"
  by (simp_all add: addr_sync_def)

lemma board_newline: "cw b = [] \<Longrightarrow> board_char b 0x0a = b"
  by (cases b) (simp add: board_char_def wbutohex_def)

lemma same_link_size: "same_link s s' \<Longrightarrow> m_buflen s' = m_buflen s" "same_link s s' \<Longrightarrow> m_dev s' = m_dev s"
  by (simp_all add: same_link_def)

lemma notices_dev: "m_dev s' = m_dev s \<Longrightarrow> only_notices s' = only_notices s \<and> paired s' = paired s"
  by (simp add: only_notices_def paired_def)

text \<open>One block of the loop: its words, the newline after the last; then the answers are thrown away.\<close>

lemma writev_block_board:
  assumes "tbl_sync s (board_run b out)" "addr_sync s (board_run b out)" "m_addr_set s" "p = 0 \<or> p = 1"
    and "unat (m_lastaddr s) + 4 * nat p * length ws < 2 ^ 32" "ws \<noteq> []"
    and "int (length out) + 6 * int (length ws) + 1 < m_buflen s"
  defines "n \<equiv> min (length ws) MAXWRLEN"
  shows "\<exists>cs s'. writev_loop p ws out s = rbind (readidle s') (\<lambda>(_, s). writev_loop p (drop n ws) [] s)
    \<and> ll_tx (m_dev s') = ll_tx (m_dev s) @ out @ cs \<and> ll_rx (m_dev s') = ll_rx (m_dev s)
    \<and> m_addr_set s' \<and> m_buflen s' = m_buflen s \<and> m_lastaddr s' = m_lastaddr s + 4 * word_of_int p * of_nat n
    \<and> tbl_sync s' (board_run b (out @ cs)) \<and> addr_sync s' (board_run b (out @ cs))
    \<and> bus_writes (board_run b (out @ cs)) = bus_writes (board_run b out) @ write_log p (m_lastaddr s) (take n ws)"
proof -
  have n: "0 < n" "n \<le> length ws" "length (take n ws) = n" using assms(6) by (auto simp: n_def MAXWRLEN_def)
  have "4 * nat p * length (take n ws) \<le> 4 * nat p * length ws" using n by (intro mult_le_mono2) simp
  then have "unat (m_lastaddr s) + 4 * nat p * length (take n ws) < 2 ^ 32" using assms(5) by linarith
  moreover have "take n ws \<noteq> []" using n(1,2) by auto
  ultimately obtain cs1 s1 where
    1: "write_words p (take n ws) out s = Inr (out @ cs1, s1)" "length cs1 \<le> 6 * n" "cs1 \<noteq> []" "same_link s s1" "m_addr_set s1"
      "m_lastaddr s1 = m_lastaddr s + 4 * word_of_int p * of_nat n" "tbl_sync s1 (board_run b (out @ cs1))"
      "addr_sync s1 (board_run b (out @ cs1))"
      "bus_writes (board_run b (out @ cs1)) = bus_writes (board_run b out) @ write_log p (m_lastaddr s) (take n ws)"
    using write_words_board [OF assms(1-4), of "take n ws"] n(3) by metis
  define nl where "nl = (if n = length ws then [0x0a] else [] :: u8 list)"
  define t where "t = out @ cs1 @ nl"
  have outeq: "(if n = length ws then (out @ cs1) @ [0x0a] else out @ cs1) = t" by (simp add: t_def nl_def)
  have nl: "board_run b t = board_run b (out @ cs1)"
    using 1(8) by (simp add: board_newline addr_sync_def t_def nl_def)
  have "length cs1 \<le> 6 * length ws" using 1(2) n(2) by linarith
  then have len: "int (length t) < m_buflen s1"
    using assms(7) same_link_size [OF 1(4)] by (auto simp: t_def nl_def)
  define s2 where "s2 = s1\<lparr>m_dev := (m_dev s1)\<lparr>ll_tx := ll_tx (m_dev s1) @ t, ll_total_nwrit := ll_total_nwrit (m_dev s1) + length t\<rparr>\<rparr>"
  have w: "dev_write t s1 = Inr ((), s2)" using 1(3) by (simp add: dev_write_def ll_write_def t_def s2_def)
  have "terminate s1 t = Inr t" using len by (simp add: terminate_def)
  then have "writev_loop p ws out s = rbind (readidle s2) (\<lambda>(_, s). writev_loop p (drop n ws) [] s)"
    by (subst writev_loop.simps)
       (simp only: if_not_P [OF assms(6)] Let_def n_def [symmetric] 1(1) rbind_simps prod.case outeq stop_simps w)
  moreover have "ll_tx (m_dev s2) = ll_tx (m_dev s) @ t" "ll_rx (m_dev s2) = ll_rx (m_dev s)" "m_buflen s2 = m_buflen s"
    using same_link_size [OF 1(4)] by (simp_all add: s2_def)
  moreover have "m_addr_set s2" "m_lastaddr s2 = m_lastaddr s + 4 * word_of_int p * of_nat n"
      "tbl_sync s2 (board_run b t)" "addr_sync s2 (board_run b t)"
    using 1(5-8) nl by (simp_all add: s2_def)
  moreover have "bus_writes (board_run b t) = bus_writes (board_run b out) @ write_log p (m_lastaddr s) (take n ws)"
    using 1(9) nl by simp
  ultimately show ?thesis unfolding t_def by (intro exI [of _ "cs1 @ nl"] exI [of _ s2]) simp
qed

text \<open>
  How far a loop over \<open>n\<close> words gets when it ends with \<open>e\<close>: to the end, unless hearing the board fails,
  and then to the end of a block of 32.
\<close>

definition gets_to :: "nat \<Rightarrow> tty_error option \<Rightarrow> nat \<Rightarrow> bool" where
  "gets_to n e k \<longleftrightarrow> k \<le> n \<and> (k = n \<or> e \<noteq> None \<and> 0 < k \<and> MAXWRLEN dvd k)"

lemma gets_to_rest: "gets_to (m - n) e k \<Longrightarrow> n = min m MAXWRLEN \<Longrightarrow> gets_to m e (n + k)"
  by (cases "m \<le> MAXWRLEN") (auto simp: gets_to_def)

lemma writev_loop_board:
  assumes "tbl_sync s (board_run b out)" "addr_sync s (board_run b out)" "m_addr_set s" "p = 0 \<or> p = 1"
    and "unat (m_lastaddr s) + 4 * nat p * length ws < 2 ^ 32" "only_notices s" "ws \<noteq> [] \<or> out = []"
    and "int (length out) + 6 * int (length ws) + 1 < m_buflen s"
  shows "\<exists>cs s' k e. ended (writev_loop p ws out s) = (e, s') \<and> ll_tx (m_dev s') = ll_tx (m_dev s) @ out @ cs
    \<and> gets_to (length ws) e k \<and> only_notices s' \<and> idle_end e \<and> (paired s \<longrightarrow> e = None \<and> paired s')
    \<and> m_addr_set s' \<and> m_lastaddr s' = m_lastaddr s + 4 * word_of_int p * of_nat k
    \<and> tbl_sync s' (board_run b (out @ cs)) \<and> addr_sync s' (board_run b (out @ cs))
    \<and> bus_writes (board_run b (out @ cs)) = bus_writes (board_run b out) @ write_log p (m_lastaddr s) (take k ws)"
  using assms
proof (induction "length ws" arbitrary: ws s out b rule: less_induct)
  case less
  show ?case
  proof (cases "ws = []")
    case True
    then have "writev_loop p ws out s = Inr ((), s)" by (subst writev_loop.simps) simp
    then show ?thesis using less.prems True by (intro exI [of _ "[]"] exI [of _ s] exI [of _ 0] exI [of _ None])
      (simp add: gets_to_def idle_end_def)
  next
    case False
    define n where "n = min (length ws) MAXWRLEN"
    have n: "0 < n" "n \<le> length ws" using False by (auto simp: n_def MAXWRLEN_def)
    obtain cs1 s1 where
      1: "writev_loop p ws out s = rbind (readidle s1) (\<lambda>(_, s). writev_loop p (drop n ws) [] s)"
        "ll_tx (m_dev s1) = ll_tx (m_dev s) @ out @ cs1" "ll_rx (m_dev s1) = ll_rx (m_dev s)"
        "m_addr_set s1" "m_buflen s1 = m_buflen s" "m_lastaddr s1 = m_lastaddr s + 4 * word_of_int p * of_nat n"
        "tbl_sync s1 (board_run b (out @ cs1))" "addr_sync s1 (board_run b (out @ cs1))"
        "bus_writes (board_run b (out @ cs1)) = bus_writes (board_run b out) @ write_log p (m_lastaddr s) (take n ws)"
      using writev_block_board [OF less.prems(1-5) False less.prems(8), folded n_def] by blast
    have "only_notices s1" "paired s1 = paired s" using less.prems(6) 1(3) by (simp_all add: only_notices_def paired_def)
    then obtain e t where t: "ended (readidle s1) = (e, t)" "heard s1 t" "only_notices t" "idle_end e" "paired s \<longrightarrow> e = None \<and> paired t"
      using readidle_notices [of s1] by (auto simp: idled_def)
    note h = heard_frame [OF t(2)]
    let ?b = "board_run b (out @ cs1)"
    show ?thesis
    proof (cases e)
      case (Some x)
      then have "ended (writev_loop p ws out s) = (Some x, t)" using t(1) 1(1) by (cases "readidle s1") auto
      moreover have "gets_to (length ws) (Some x) n" using n by (auto simp: gets_to_def n_def min_def)
      ultimately show ?thesis
        using Some t(3-5) 1 h by (intro exI [of _ cs1] exI [of _ t] exI [of _ n] exI [of _ "Some x"]) simp
    next
      case None
      then have w: "writev_loop p ws out s = writev_loop p (drop n ws) [] t" using t(1) 1(1) by (cases "readidle s1") auto
      have "length (drop n ws) < length ws" using n by simp
      moreover have "unat (m_lastaddr t) + 4 * nat p * length (drop n ws) < 2 ^ 32"
        using last_addr_steps [of p "m_lastaddr s" n "length (drop n ws)"] less.prems(4,5) n(2) 1(6) h(4) by simp
      moreover have "int (length ([] :: u8 list)) + 6 * int (length (drop n ws)) + 1 < m_buflen t"
        using less.prems(8) 1(5) h(5) by simp
      ultimately obtain cs2 s' k e' where
        2: "ended (writev_loop p (drop n ws) [] t) = (e', s')" "ll_tx (m_dev s') = ll_tx (m_dev t) @ [] @ cs2"
          "gets_to (length (drop n ws)) e' k" "only_notices s'" "idle_end e'" "paired t \<longrightarrow> e' = None \<and> paired s'" "m_addr_set s'"
          "m_lastaddr s' = m_lastaddr t + 4 * word_of_int p * of_nat k"
          "tbl_sync s' (board_run ?b ([] @ cs2))" "addr_sync s' (board_run ?b ([] @ cs2))"
          "bus_writes (board_run ?b ([] @ cs2)) = bus_writes (board_run ?b []) @ write_log p (m_lastaddr t) (take k (drop n ws))"
        using less.hyps [of "drop n ws" t ?b "[]"] less.prems(4) t(3) 1(4,7,8) h by auto
      have "gets_to (length ws) e' (n + k)" using 2(3) by (intro gets_to_rest) (simp_all add: n_def)
      moreover have "m_lastaddr s' = m_lastaddr s + 4 * word_of_int p * of_nat (n + k)"
        using 1(6) 2(8) h(4) by (simp add: distrib_left add.assoc)
      moreover have "write_log p (m_lastaddr s) (take (n + k) ws) = write_log p (m_lastaddr s) (take n ws) @ write_log p (m_lastaddr t) (take k (drop n ws))"
        using write_log_append [of p "m_lastaddr s" "take n ws" "take k (drop n ws)"] 1(6) n h(4) by (simp add: take_add)
      ultimately show ?thesis
        using w t(5) 1(2,9) 2 h(6) by (intro exI [of _ "cs1 @ cs2"] exI [of _ s'] exI [of _ "n + k"] exI [of _ e']) simp
    qed
  qed
qed

lemma bufalloc_enough:
  assumes "0 \<le> n"
  shows "n < m_buflen (bufalloc n s) + 1" "\<not> (0 < m_buflen s \<and> n \<le> m_buflen s) \<Longrightarrow> n < m_buflen (bufalloc n s)"
proof -
  have "n AND (- 0x3f) = n - (n AND 0x3e)"
  proof -
    have "(n AND NOT m) + (n AND m) = n" for m
    proof -
      have "(n AND NOT m) + (n AND m) = (n AND NOT m) OR (n AND m)"
        by (rule disjunctive_add_eq_or) (auto simp: bit_eq_iff bit_and_iff bit_not_iff)
      also have "\<dots> = n" by (rule bit_eqI) (auto simp: bit_or_iff bit_and_iff bit_not_iff)
      finally show ?thesis .
    qed
    from this [of "0x3e"] show ?thesis by simp
  qed
  moreover have "n AND 0x3e \<le> 0x3e" by (rule AND_upper2) simp
  ultimately have "n < (n AND (- 0x3f)) + 0x40" by linarith
  then show "n < m_buflen (bufalloc n s) + 1" "\<not> (0 < m_buflen s \<and> n \<le> m_buflen s) \<Longrightarrow> n < m_buflen (bufalloc n s)"
    by (auto simp: bufalloc_def)
qed


definition tty_example :: ttybus where
  "tty_example = ttybus_new \<lparr>ll_rx = [], ll_tx = [], ll_total_nread = 0, ll_total_nwrit = 0\<rparr> 0
     (replicate 1024 0) (replicate 512 0)"

definition board_example :: board where
  "board_example = \<lparr>cw = [], wr_addr = 0, compression_tbl = (\<lambda>_. 0), wb_addr = 0, bus_writes = [], bus_reads = []\<rparr>"

text \<open>A board that acknowledges: in pairs, and with an odd acknowledgement for which the host then waits.\<close>

definition tty_acked :: "rx_event list \<Rightarrow> ttybus" where
  "tty_acked es = tty_example\<lparr>m_dev := (m_dev tty_example)\<lparr>ll_rx := es\<rparr>\<rparr>"


end
