(* ===== verification/TtyRead.thy ===== *)
theory TtyRead
  imports TtyBoard
begin

text \<open>
  Decoding what the board answers: the codewords of \<open>wbuexec.v\<close> as compressed by
  \<open>wbucompress.v\<close> and spelled by \<open>wbudeword.v\<close> and \<open>wbusixchar.v\<close>, arriving in bursts cut anywhere.
\<close>

section \<open>Codewords of the answer\<close>

text \<open>
  Data is sent in full or as a reference: to the last value, to one of the 2nd to 9th last, or
  to one of the 10th to 521st last, among those sent in full.
\<close>

datatype rdata = Raw u32 | Last | Near nat | Far nat

datatype control = Noise u8 | Status int | Address u32 | Address_short nat u32

definition inc_bit :: "bool \<Rightarrow> int" where "inc_bit i = (if i then 1 else 0)"

fun data_codes :: "rdata \<Rightarrow> bool \<Rightarrow> int list" where
  "data_codes (Raw v) i = [0x38 + push_bit 1 (uint (drop_bit 30 v)) + inc_bit i, six 4 v, six 3 v, six 2 v, six 1 v, six 0 v]"
| "data_codes Last i = [0x06 + inc_bit i]"
| "data_codes (Near k) i = [0x20 + push_bit 1 (int k - 2) + inc_bit i]"
| "data_codes (Far k) i = [0x10 + push_bit 1 (drop_bit 6 (int k - 10)) + inc_bit i, (int k - 10) AND 0x3f]"

fun control_chars :: "control \<Rightarrow> u8 list" where
  "control_chars (Noise c) = [c]"
| "control_chars (Status v) = [sixchar v]"
| "control_chars (Address w) =
     map sixchar [0x08 + uint (drop_bit 30 w), six 4 w, six 3 w, six 2 w, six 1 w, six 0 w]"
| "control_chars (Address_short n w) = map sixchar ((0x0b + int n) # map (\<lambda>k. six k w) (rev [0..<n]))"

fun data_ok :: "rdata \<Rightarrow> u32 list \<Rightarrow> bool" where
  "data_ok (Raw v) hist = True"
| "data_ok Last hist = (1 \<le> length hist)"
| "data_ok (Near k) hist = (2 \<le> k \<and> k \<le> 9 \<and> k \<le> length hist)"
| "data_ok (Far k) hist = (10 \<le> k \<and> k \<le> 521 \<and> k \<le> length hist)"

fun data_value :: "rdata \<Rightarrow> u32 list \<Rightarrow> u32" where
  "data_value (Raw v) hist = v"
| "data_value Last hist = hist ! 0"
| "data_value (Near k) hist = hist ! (k - 1)"
| "data_value (Far k) hist = hist ! (k - 1)"

fun data_hist :: "rdata \<Rightarrow> u32 list \<Rightarrow> u32 list" where
  "data_hist (Raw v) hist = v # hist"
| "data_hist d hist = hist"

text \<open>The controls that do not end the read.\<close>

fun control_ok :: "control \<Rightarrow> bool" where
  "control_ok (Noise c) = (\<not> code_char c)"
| "control_ok (Status v) = (v \<in> {0, 1, 2, 4})"
| "control_ok (Address w) = True"
| "control_ok (Address_short n w) = (1 \<le> n \<and> n \<le> 4 \<and> unat w < 2 ^ (6 * n))"

fun control_addr :: "control \<Rightarrow> u32 \<Rightarrow> u32" where
  "control_addr (Address w) a = push_bit 2 w"
| "control_addr (Address_short n w) a = push_bit 2 w"
| "control_addr c a = a"

definition control_int :: "control \<Rightarrow> bool \<Rightarrow> bool" where
  "control_int c b \<longleftrightarrow> b \<or> c = Status 4"

section \<open>Bursts\<close>

definition waiting :: "ttybus \<Rightarrow> u8 list \<Rightarrow> bool" where
  "waiting s bs \<longleftrightarrow> Hangup \<notin> set (ll_rx (m_dev s)) \<and> rx_bytes (ll_rx (m_dev s)) = bs"

lemma ll_take_bytes:
  assumes "Hangup \<notin> set es" "rx_bytes es \<noteq> []" "0 < n"
  shows "\<exists>k es'. 0 < k \<and> k \<le> n \<and> k \<le> length (rx_bytes es) \<and> ll_take n es = Inr (take k (rx_bytes es), es')
    \<and> rx_bytes es' = drop k (rx_bytes es) \<and> Hangup \<notin> set es'"
  using assms
proof (induction n es rule: ll_take.induct)
  case (4 n bs es)
  show ?case
  proof (cases "bs = []")
    case False
    then show ?thesis
      using 4(2-4) by (intro exI [of _ "min n (length bs)"] exI [of _ "if n < length bs then Burst (drop n bs) # es else es"])
        (auto simp: min_def)
  qed (use 4 in auto)
qed auto

lemma lcl_copy_valid:
  "\<forall>c \<in> set buf. code_char c \<Longrightarrow> n = length buf \<Longrightarrow> lcl_copy [d..<n] d r buf = (buf, r)"
proof (induction "n - d" arbitrary: d)
  case (Suc k)
  then have "[d..<n] = d # [Suc d..<n]" by (simp add: upt_conv_Cons)
  with Suc show ?case by simp
qed simp

text \<open>What a read of the stream changes.\<close>

definition rx_left :: "ttybus \<Rightarrow> ttybus \<Rightarrow> bool" where
  "rx_left s s' \<longleftrightarrow> s\<lparr>m_dev := m_dev s', m_total_nread := m_total_nread s'\<rparr> = s' \<and> ll_tx (m_dev s') = ll_tx (m_dev s)"

lemma rx_left_refl: "rx_left s s"
  by (simp add: rx_left_def)

lemma rx_left_trans: "rx_left s t \<Longrightarrow> rx_left t u \<Longrightarrow> rx_left s u"
  by (cases s; cases t; cases u) (simp add: rx_left_def)

lemma rx_left_frame:
  assumes "rx_left s s'"
  shows "m_readtbl s' = m_readtbl s" "m_rdaddr s' = m_rdaddr s" "m_lastaddr s' = m_lastaddr s"
    "m_interrupt_flag s' = m_interrupt_flag s" "m_addr_set s' = m_addr_set s" "ll_tx (m_dev s') = ll_tx (m_dev s)"
    "m_buflen s' = m_buflen s" "m_bus_err s' = m_bus_err s"
  using assms by (cases s; cases s'; simp add: rx_left_def)+

lemma lclreadcode_valid:
  assumes "waiting s (cs @ rest)" "cs \<noteq> []" "\<forall>c \<in> set cs. code_char c"
  shows "\<exists>k s'. 0 < k \<and> k \<le> length cs \<and> lclreadcode (length cs) s = Inr ((take k cs, k), s')
    \<and> waiting s' (drop k cs @ rest) \<and> rx_left s s'"
proof -
  have w: "Hangup \<notin> set (ll_rx (m_dev s))" "rx_bytes (ll_rx (m_dev s)) = cs @ rest" using assms(1) by (auto simp: waiting_def)
  then obtain k es where k: "0 < k" "k \<le> length cs" "ll_take (length cs) (ll_rx (m_dev s)) = Inr (take k cs, es)"
    "rx_bytes es = drop k cs @ rest" "Hangup \<notin> set es"
    using ll_take_bytes [of "ll_rx (m_dev s)" "length cs"] assms(2) by fastforce
  have "\<forall>c \<in> set (take k cs). code_char c" using assms(3) by (meson in_set_takeD)
  then have "lcl_copy [0..<k] 0 k (take k cs) = (take k cs, k)" using k(2) by (intro lcl_copy_valid) simp_all
  with k show ?thesis
    by (intro exI [of _ k]) (auto simp: lclreadcode_def ll_read_def Let_def waiting_def rx_left_def min_absorb2)
qed

lemma read_codes_valid:
  assumes "waiting s (cs @ rest)" "cs \<noteq> []" "\<forall>c \<in> set cs. code_char c" "n = length buf + length cs"
  shows "\<exists>s'. read_codes n buf s = Inr (buf @ cs, s') \<and> waiting s' rest \<and> rx_left s s'"
  using assms
proof (induction "length cs" arbitrary: cs buf s rule: less_induct)
  case less
  then obtain k t where k: "0 < k" "k \<le> length cs" "lclreadcode (length cs) s = Inr ((take k cs, k), t)"
    "waiting t (drop k cs @ rest)" "rx_left s t" using lclreadcode_valid by blast
  show ?case
  proof (cases "k = length cs")
    case True
    then show ?thesis using k less.prems(4) by (subst read_codes.simps) (simp add: Let_def)
  next
    case False
    let ?cs = "drop k cs"
    have "length ?cs < length cs" "?cs \<noteq> []" "\<forall>c \<in> set ?cs. code_char c" "n = length (buf @ take k cs) + length ?cs"
      using k(1,2) False less.prems(3,4) by (auto dest: in_set_dropD)
    from less.hyps [OF this(1) k(4) this(2-4)] obtain s' where
      "read_codes n (buf @ take k cs) t = Inr ((buf @ take k cs) @ ?cs, s')" "waiting s' rest" "rx_left t s'" by blast
    then show ?thesis
      using k less.prems(4) False rx_left_trans [OF k(5)] by (subst read_codes.simps) (auto simp: Let_def)
  qed
qed

lemma read_codes_noise:
  assumes "waiting s (n # rest)" "\<not> code_char n"
  shows "\<exists>t. read_codes 1 [] s = read_codes 1 [] t \<and> waiting t rest \<and> rx_left s t"
proof -
  have w: "Hangup \<notin> set (ll_rx (m_dev s))" "rx_bytes (ll_rx (m_dev s)) = n # rest"
    using assms(1) by (auto simp: waiting_def)
  then obtain es where es: "ll_take 1 (ll_rx (m_dev s)) = Inr ([n], es)" "rx_bytes es = rest" "Hangup \<notin> set es"
    using ll_take_bytes [of "ll_rx (m_dev s)" 1] by (auto simp: le_Suc_eq)
  obtain t where t: "lclreadcode 1 s = Inr (([n], 0), t)" "waiting t rest" "rx_left s t"
    using es assms(2) by (auto simp: lclreadcode_def ll_read_def waiting_def rx_left_def)
  then show ?thesis by (intro exI [of _ t]) (subst read_codes.simps, auto simp: Let_def)
qed

section \<open>Controls\<close>

lemma code_char_sixchar [simp]: "0 \<le> v \<Longrightarrow> v < 64 \<Longrightarrow> code_char (sixchar v)"
  using charenc_six [of v] wbutohex_chardec [of "sixchar v"] by (auto split: if_splits)

lemma chardec_sixchar [simp]: "0 \<le> v \<Longrightarrow> v < 64 \<Longrightarrow> chardec (sixchar v) = word_of_int v"
  by (simp add: charenc_six)

lemma word_and_six_table: "list_all (\<lambda>v. word_of_int v AND 0x3f = (word_of_int v :: u32)) [0..63]"
  by code_simp

lemma word_and_six: "0 \<le> v \<Longrightarrow> v < 64 \<Longrightarrow> word_of_int v AND 0x3f = (word_of_int v :: u32)"
  using word_and_six_table unfolding list_all_iff by auto

lemma sixes_join: "sixes_ok vs \<Longrightarrow> sixes x (map sixchar vs) = join x (map word_of_int vs)"
  by (induction vs arbitrary: x) (simp_all add: word_and_six)

text \<open>The class of a first character, read off its six bits.\<close>

lemma starts_table:
  "list_all (\<lambda>v. starts_data (sixchar v) = (v \<in> {6, 7} \<or> 16 \<le> v)
     \<and> (word_of_int v < (6 :: u32) \<longleftrightarrow> v < 6)
     \<and> (word_of_int v AND 0x3c = (0x08 :: u32) \<longleftrightarrow> 8 \<le> v \<and> v < 12)) [0..63]"
  by code_simp

lemma starts_sixchar:
  assumes "0 \<le> v" "v < 64"
  shows "starts_data (sixchar v) = (v \<in> {6, 7} \<or> 16 \<le> v)" "word_of_int v < (6 :: u32) \<longleftrightarrow> v < 6"
    "word_of_int v AND 0x3c = (0x08 :: u32) \<longleftrightarrow> 8 \<le> v \<and> v < 12"
  using starts_table assms unfolding list_all_iff by auto

lemma top_range: "0 \<le> uint (drop_bit 30 w)" "uint (drop_bit 30 w) < 4" for w :: u32
  using top_two_range [of w] unfolding top_two by auto

lemma address_head:
  "list_all (\<lambda>q. (word_of_int (0x08 + q) AND 3 :: u32) = word_of_int q) [0..3]"
  by code_simp

lemma read_address:
  assumes "waiting s (tl (control_chars (Address w)) @ rest)"
  shows "\<exists>s'. read_control (hd (control_chars (Address w))) s = Inr (Some w, s') \<and> waiting s' rest \<and> rx_left s s'"
proof -
  let ?q = "uint (drop_bit 30 w)" and ?vs = "[six 4 w, six 3 w, six 2 w, six 1 w, six 0 w]"
  let ?c = "sixchar (0x08 + ?q)"
  have h: "0 \<le> 0x08 + ?q" "0x08 + ?q < 64" "0x08 + ?q < 12" "8 \<le> 0x08 + ?q" using top_range [of w] by linarith+
  have "\<forall>c \<in> set (map sixchar ?vs). code_char c" by auto
  from read_codes_valid [OF _ _ this, of s rest 6 "[?c]"] assms obtain s' where
    s': "read_codes 6 [?c] s = Inr (?c # map sixchar ?vs, s')" "waiting s' rest" "rx_left s s'" by auto
  have q3: "(word_of_int (0x08 + ?q) AND 3 :: u32) = drop_bit 30 w"
  proof -
    have "?q \<in> set [0..3]" using top_range [of w] by auto
    then have "(word_of_int (0x08 + ?q) AND 3 :: u32) = word_of_int ?q"
      using address_head unfolding list_all_iff by blast
    also have "\<dots> = drop_bit 30 w" by (rule word_of_int_uint)
    finally show ?thesis .
  qed
  have "sixes (word_of_int (0x08 + ?q) AND 3) (map sixchar ?vs) = w"
    using sixes_join [of ?vs] join_full [of w] unfolding q3 by simp
  then have "decode_addr6 (?c # map sixchar ?vs) = w"
    using h by (simp add: decode_addr6_def chardec_sixchar)
  moreover have "\<not> word_of_int (0x08 + ?q) < (6 :: u32)" "word_of_int (0x08 + ?q) AND 0x3c = (0x08 :: u32)"
    using starts_sixchar(2,3) [OF h(1,2)] h by linarith+
  ultimately have "read_control ?c s = Inr (Some w, s')"
    using s'(1) h unfolding read_control_def read_addr_def Let_def chardec_sixchar [OF h(1,2)] by simp
  with s' show ?thesis by (intro exI [of _ s']) simp
qed

lemma short_head:
  "list_all (\<lambda>n. unat (word_of_int (0x0b + n) AND 3 :: u32) + 2 = nat n + 1) [1..4]"
  by code_simp

lemma read_address_short:
  assumes "waiting s (tl (control_chars (Address_short n w)) @ rest)" "1 \<le> n" "n \<le> 4" "unat w < 2 ^ (6 * n)"
  shows "\<exists>s'. read_control (hd (control_chars (Address_short n w))) s = Inr (Some w, s') \<and> waiting s' rest \<and> rx_left s s'"
proof -
  let ?vs = "map (\<lambda>k. six k w) (rev [0..<n])" and ?h = "0x0b + int n"
  let ?c = "sixchar ?h"
  have h: "0 \<le> ?h" "?h < 64" "\<not> ?h < 12" using assms(2,3) by simp_all
  have vs: "\<forall>c \<in> set (map sixchar ?vs). code_char c" "sixes_ok ?vs" "length ?vs = n"
    by (auto simp: sixes_ok_def)
  have "waiting s (map sixchar ?vs @ rest)" using assms(1) by simp
  from read_codes_valid [OF this _ vs(1), of "n + 1" "[?c]"] assms(2) obtain s' where
    s': "read_codes (n + 1) [?c] s = Inr ([?c] @ map sixchar ?vs, s')" "waiting s' rest" "rx_left s s'" by auto
  have "int n \<in> set [1..4]" using assms(2,3) by simp
  then have len: "unat (word_of_int ?h AND 3 :: u32) + 2 = n + 1"
    using short_head unfolding list_all_iff by (metis nat_int)
  have "join 0 (map word_of_int ?vs) = w"
  proof -
    have "n = 1 \<or> n = 2 \<or> n = 3 \<or> n = 4" using assms(2,3) by linarith
    then show ?thesis
    proof -
      have u: "[0..<1] = [0 :: nat]" "[0..<2] = [0, 1 :: nat]" "[0..<3] = [0, 1, 2 :: nat]" "[0..<4] = [0, 1, 2, 3 :: nat]"
        by (simp_all add: upt_rec)
      show ?thesis
        using \<open>n = 1 \<or> n = 2 \<or> n = 3 \<or> n = 4\<close> assms(4)
        by (elim disjE) (simp_all add: u join_small del: join.simps One_nat_def upt_rec_numeral)
    qed
  qed
  then have join: "sixes 0 (map sixchar ?vs) = w" using sixes_join [OF vs(2)] by simp
  have dec: "decode_addr (?c # map sixchar ?vs) = w"
  proof -
    obtain v us where v: "?vs = v # us" using assms(2) by (cases ?vs) auto
    then have r: "0 \<le> v" "v < 64" using vs(2) by simp_all
    have "sixes (chardec (sixchar v)) (map sixchar us) = sixes 0 (map sixchar (v # us))"
      using r by (simp add: word_and_six)
    with join show ?thesis unfolding v by (simp add: decode_addr_def)
  qed
  show ?thesis
  proof (intro exI conjI)
    have "read_addr ?c s = Inr (w, s')"
      using s'(1) dec starts_sixchar(3) [OF h(1,2)] h unfolding read_addr_def Let_def chardec_sixchar [OF h(1,2)] len
      by simp
    then show "read_control (hd (control_chars (Address_short n w))) s = Inr (Some w, s')"
      using h starts_sixchar(2) [OF h(1,2)] by (simp add: read_control_def Let_def)
  qed (fact s'(2), fact s'(3))
qed

lemma read_status:
  assumes "v \<in> {0, 1, 2, 4}"
  shows "read_control (sixchar v) s = Inr (None, s\<lparr>m_interrupt_flag := control_int (Status v) (m_interrupt_flag s)\<rparr>)"
proof -
  have "0 \<le> v" "v < 64" using assms by auto
  then show ?thesis using assms by (auto simp: read_control_def status_char_def Let_def control_int_def)
qed

section \<open>Data\<close>

text \<open>The host's table holds the values the board has sent in full, the newest at distance 1.\<close>

definition read_sync :: "ttybus \<Rightarrow> u32 list \<Rightarrow> bool" where
  "read_sync s hist \<longleftrightarrow> length (m_readtbl s) = 1024 \<and> 0 \<le> m_rdaddr s \<and> m_rdaddr s < 1024
     \<and> (\<forall>k. 1 \<le> k \<and> k \<le> 1023 \<and> k \<le> length hist \<longrightarrow>
          m_readtbl s ! nat ((m_rdaddr s - int k) mod 1024) = hist ! (k - 1))"

lemma and_3ff: "x AND 0x3ff = x mod 1024" for x :: int
proof -
  have m: "(0x3ff :: int) = mask 10" by (simp add: mask_eq_exp_minus_1)
  show ?thesis unfolding m take_bit_eq_mask [symmetric] by (simp add: take_bit_eq_mod)
qed

lemma read_sync_frame: "rx_left s s' \<Longrightarrow> read_sync s' hist = read_sync s hist"
  by (simp add: read_sync_def rx_left_frame)

lemma read_sync_update [simp]:
  "read_sync (s\<lparr>m_lastaddr := x\<rparr>) hist = read_sync s hist" "read_sync (s\<lparr>m_interrupt_flag := y\<rparr>) hist = read_sync s hist"
  "read_sync (s\<lparr>m_addr_set := z\<rparr>) hist = read_sync s hist"
  by (simp_all add: read_sync_def)

lemma read_sync_raw:
  assumes "read_sync s hist"
  shows "read_sync (s\<lparr>m_readtbl := (m_readtbl s)[nat (m_rdaddr s) := v], m_rdaddr := (m_rdaddr s + 1) mod 1024\<rparr>) (v # hist)"
proof -
  let ?r = "m_rdaddr s"
  have r: "length (m_readtbl s) = 1024" "0 \<le> ?r" "?r < 1024" using assms by (auto simp: read_sync_def)
  have "(m_readtbl s)[nat ?r := v] ! nat (((?r + 1) mod 1024 - int k) mod 1024) = (v # hist) ! (k - 1)"
    if k: "1 \<le> k" "k \<le> 1023" "k \<le> length (v # hist)" for k
  proof (cases "k = 1")
    case True
    then have "((?r + 1) mod 1024 - int k) mod 1024 = ?r" using r by (simp add: mod_diff_left_eq)
    then show ?thesis using True r by simp
  next
    case False
    let ?j = "k - 1"
    have i: "((?r + 1) mod 1024 - int k) mod 1024 = (?r - int ?j) mod 1024"
      using k(1) by (simp add: mod_diff_left_eq algebra_simps of_nat_diff)
    have "(?r - int ?j) mod 1024 \<noteq> ?r"
    proof
      assume "(?r - int ?j) mod 1024 = ?r"
      then have "(?r - int ?j) mod 1024 = ?r mod 1024" using r by simp
      then have "(1024 :: int) dvd ?r - int ?j - ?r" by (simp only: mod_eq_dvd_iff)
      then have "(1024 :: int) dvd int ?j" by (simp add: dvd_minus_iff)
      moreover have "0 < int ?j" using k(1) False by simp
      ultimately have "1024 \<le> int ?j" by (rule zdvd_imp_le)
      then show False using k(2) by simp
    qed
    then have "nat ((?r - int ?j) mod 1024) \<noteq> nat ?r" using r by (simp add: nat_eq_iff)
    moreover have "m_readtbl s ! nat ((?r - int ?j) mod 1024) = hist ! (?j - 1)"
      using assms k False unfolding read_sync_def by (intro assms [unfolded read_sync_def, THEN conjunct2, THEN conjunct2, THEN conjunct2, rule_format]) auto
    ultimately show ?thesis using k(1) False unfolding i by (simp add: nth_Cons')
  qed
  with r show ?thesis by (simp add: read_sync_def)
qed

lemma last_table:
  "list_all (\<lambda>i. let v = 0x06 + inc_bit i; w = word_of_int v :: u32 in
     w AND 0x3e = 0x06 \<and> (w AND 1 \<noteq> 0) = i \<and> 0 \<le> v \<and> v < 64) [False, True]"
  by code_simp

lemma near_table:
  "list_all (\<lambda>k. list_all (\<lambda>i. let v = 0x20 + push_bit 1 (int k - 2) + inc_bit i; w = word_of_int v :: u32 in
     w AND 0x3e \<noteq> 0x06 \<and> w AND 0x30 = 0x20 \<and> uint (drop_bit 1 w AND 7) + 2 = int k \<and> (w AND 1 \<noteq> 0) = i
     \<and> 0 \<le> v \<and> v < 64) [False, True]) [2, 3, 4, 5, 6, 7, 8, 9]"
  by code_simp

lemma far_table:
  "list_all (\<lambda>q. list_all (\<lambda>i. let v = 0x10 + push_bit 1 q + inc_bit i; w = word_of_int v :: u32 in
     w AND 0x3e \<noteq> 0x06 \<and> w AND 0x30 = 0x10 \<and> drop_bit 1 w AND 7 = word_of_int q \<and> (w AND 1 \<noteq> 0) = i
     \<and> 0 \<le> v \<and> v < 64) [False, True]) [0..7]"
  by code_simp

lemma raw_table:
  "list_all (\<lambda>q. list_all (\<lambda>i. let v = 0x38 + push_bit 1 q + inc_bit i; w = word_of_int v :: u32 in
     w AND 0x3e \<noteq> 0x06 \<and> w AND 0x30 \<noteq> 0x10 \<and> w AND 0x30 \<noteq> 0x20 \<and> w AND 0x38 = 0x38
     \<and> drop_bit 1 w AND 3 = word_of_int q \<and> (w AND 1 \<noteq> 0) = i \<and> 0 \<le> v \<and> v < 64) [False, True]) [0..3]"
  by code_simp

definition advance :: "bool \<Rightarrow> ttybus \<Rightarrow> ttybus" where
  "advance i s = s\<lparr>m_lastaddr := m_lastaddr s + (if i then 4 else 0)\<rparr>"

lemma read_sync_advance [simp]: "read_sync (advance i s) hist = read_sync s hist"
  by (simp add: advance_def)

lemma waiting_update [simp]:
  "waiting (advance i s) bs = waiting s bs" "waiting (s\<lparr>m_addr_set := x\<rparr>) bs = waiting s bs"
  "waiting (s\<lparr>m_lastaddr := y\<rparr>) bs = waiting s bs"
  "waiting (s\<lparr>m_interrupt_flag := z\<rparr>) bs = waiting s bs" "waiting (s\<lparr>m_readtbl := tb\<rparr>) bs = waiting s bs"
  "waiting (s\<lparr>m_rdaddr := r\<rparr>) bs = waiting s bs"
  by (simp_all add: waiting_def advance_def)

lemma uint_small: "0 \<le> k \<Longrightarrow> k < 2 ^ 32 \<Longrightarrow> uint (word_of_int k :: u32) = k"
  by (simp add: unsigned_of_int take_bit_int_eq_self)

lemma far_index:
  assumes "0 \<le> K" "K < 512"
  shows "drop_bit 6 K \<in> set [0..7]"
    "uint (push_bit 6 (word_of_int (drop_bit 6 K)) OR (word_of_int (K AND 0x3f) AND 0x3f) :: u32) = K"
proof -
  let ?w = "word_of_int K :: u32"
  have m: "(0x3f :: int) = mask 6" by (simp add: mask_eq_exp_minus_1)
  have u: "uint ?w = K" using assms by (intro uint_small) simp_all
  have r: "0 \<le> K AND 0x3f" "K AND 0x3f < 64" unfolding m take_bit_eq_mask [symmetric] by (simp_all add: take_bit_eq_mod)
  have "0 \<le> K div 64" "K div 64 \<le> 7" using assms by presburger+
  then show "drop_bit 6 K \<in> set [0..7]" by (simp add: drop_bit_eq_div)
  have d: "word_of_int (drop_bit 6 K) = drop_bit 6 ?w"
  proof -
    have "take_bit 32 K = K" using assms by (intro take_bit_int_eq_self) simp_all
    then have "uint (drop_bit 6 ?w) = drop_bit 6 K" using assms by (simp add: unsigned_drop_bit_eq unsigned_of_int)
    then show ?thesis by (metis word_of_int_uint)
  qed
  have "uint (?w AND 0x3f) = K AND 0x3f" using u by (simp add: uint_and)
  then have "word_of_int (K AND 0x3f) = ?w AND 0x3f" by (metis word_of_int_uint)
  with join_six [of 0 ?w] u show "uint (push_bit 6 (word_of_int (drop_bit 6 K)) OR (word_of_int (K AND 0x3f) AND 0x3f) :: u32) = K"
    unfolding d by (simp add: and.assoc)
qed

text \<open>A character of the code, read by \<open>read_codes\<close> and put in the table's place.\<close>

definition rx_data :: "rdata \<Rightarrow> bool \<Rightarrow> u32 list \<Rightarrow> ttybus \<Rightarrow> u8 list \<Rightarrow> (u32 \<times> ttybus) \<Rightarrow> bool" where
  "rx_data d i hist s rest r \<longleftrightarrow> fst r = data_value d hist \<and> waiting (snd r) rest \<and> read_sync (snd r) (data_hist d hist)
     \<and> m_lastaddr (snd r) = m_lastaddr s + (if i then 4 else 0) \<and> m_interrupt_flag (snd r) = m_interrupt_flag s
     \<and> m_bus_err (snd r) = m_bus_err s \<and> ll_tx (m_dev (snd r)) = ll_tx (m_dev s)"

lemma table_back:
  "read_sync s hist \<Longrightarrow> 1 \<le> k \<Longrightarrow> k \<le> 1023 \<Longrightarrow> k \<le> length hist \<Longrightarrow>
   m_readtbl s ! nat ((m_rdaddr s - int k) AND 0x3ff) = hist ! (k - 1)"
  unfolding and_3ff by (simp add: read_sync_def)

lemma read_data_last:
  assumes "read_sync s hist" "data_ok Last hist" "waiting s rest"
  shows "\<exists>r. read_data (sixchar (hd (data_codes Last i))) val s = Inr r \<and> rx_data Last i hist s rest r"
proof -
  define v where "v = 0x06 + inc_bit i"
  define w where "w = (word_of_int v :: u32)"
  have "i \<in> set [False, True]" by (cases i) simp_all
  then have w: "w AND 0x3e = 0x06" "(w AND 1 \<noteq> 0) = i" "0 \<le> v" "v < 64"
    using last_table unfolding list_all_iff Let_def v_def w_def by blast+
  have "read_data (sixchar v) val s = Inr (m_readtbl s ! nat ((m_rdaddr s - 1) AND 0x3ff), advance i s)"
    unfolding read_data_def Let_def chardec_sixchar [OF w(3,4)] w_def [symmetric] w(1,2) advance_def by simp
  moreover have "m_readtbl s ! nat ((m_rdaddr s - 1) AND 0x3ff) = hist ! 0" using table_back [of s hist 1] assms by simp
  ultimately show ?thesis using assms by (auto simp: rx_data_def v_def advance_def)
qed

lemma read_data_near:
  assumes "read_sync s hist" "data_ok (Near k) hist" "waiting s rest"
  shows "\<exists>r. read_data (sixchar (hd (data_codes (Near k) i))) val s = Inr r \<and> rx_data (Near k) i hist s rest r"
proof -
  define v where "v = 0x20 + push_bit 1 (int k - 2) + inc_bit i"
  define w where "w = (word_of_int v :: u32)"
  have k: "2 \<le> k" "k \<le> 9" "k \<le> length hist" using assms(2) by simp_all
  have "k = 2 \<or> k = 3 \<or> k = 4 \<or> k = 5 \<or> k = 6 \<or> k = 7 \<or> k = 8 \<or> k = 9" using k(1,2) by linarith
  then have "k \<in> set [2, 3, 4, 5, 6, 7, 8, 9]" by (simp only: list.set insert_iff) auto
  moreover have "i \<in> set [False, True]" by (cases i) simp_all
  ultimately have w: "w AND 0x3e \<noteq> 0x06" "w AND 0x30 = 0x20" "uint (drop_bit 1 w AND 7) + 2 = int k"
    "(w AND 1 \<noteq> 0) = i" "0 \<le> v" "v < 64"
    using near_table unfolding list_all_iff Let_def v_def w_def by blast+
  have n: "\<not> w AND 0x30 = 0x10" using w(2) by simp
  have "read_data (sixchar v) val s = Inr (m_readtbl s ! nat ((m_rdaddr s - int k) AND 0x3ff), advance i s)"
    unfolding read_data_def Let_def chardec_sixchar [OF w(5,6)] w_def [symmetric] w(3,4) advance_def
    using w(1,2) n by simp
  moreover have "m_readtbl s ! nat ((m_rdaddr s - int k) AND 0x3ff) = hist ! (k - 1)" using assms k by (intro table_back) simp_all
  ultimately show ?thesis using assms by (auto simp: rx_data_def v_def advance_def)
qed

lemma read_data_far:
  assumes "read_sync s hist" "data_ok (Far k) hist" "waiting s (map sixchar (tl (data_codes (Far k) i)) @ rest)"
  shows "\<exists>r. read_data (sixchar (hd (data_codes (Far k) i))) val s = Inr r \<and> rx_data (Far k) i hist s rest r"
proof -
  define K where "K = int k - 10"
  define v where "v = 0x10 + push_bit 1 (drop_bit 6 K) + inc_bit i"
  define x where "x = sixchar (K AND 0x3f)"
  define w where "w = (word_of_int v :: u32)"
  have k: "10 \<le> k" "k \<le> 521" "k \<le> length hist" using assms(2) by simp_all
  then have K: "0 \<le> K" "K < 512" by (simp_all add: K_def)
  have "i \<in> set [False, True]" by (cases i) simp_all
  then have w: "w AND 0x3e \<noteq> 0x06" "w AND 0x30 = 0x10" "drop_bit 1 w AND 7 = word_of_int (drop_bit 6 K)"
    "(w AND 1 \<noteq> 0) = i" "0 \<le> v" "v < 64"
    using far_table far_index(1) [OF K] unfolding list_all_iff Let_def v_def w_def by blast+
  have r: "0 \<le> K AND 0x3f" "K AND 0x3f < 64"
  proof -
    have m: "(0x3f :: int) = mask 6" by (simp add: mask_eq_exp_minus_1)
    show "0 \<le> K AND 0x3f" "K AND 0x3f < 64" unfolding m take_bit_eq_mask [symmetric] by (simp_all add: take_bit_eq_mod)
  qed
  have "waiting s ([x] @ rest)" using assms(3) by (simp add: x_def K_def)
  from read_codes_valid [OF this, of 2 "[sixchar v]"] r obtain t where
    t: "read_codes 2 [sixchar v] s = Inr ([sixchar v, x], t)" "waiting t rest" "rx_left s t" by (auto simp: x_def)
  have idx: "uint (push_bit 6 (word_of_int (drop_bit 6 K)) OR (word_of_int (K AND 0x3f) AND 0x3f) :: u32) + 2 + 8 = int k"
    using far_index(2) [OF K] by (simp add: K_def)
  have "read_data (sixchar v) val s = Inr (m_readtbl t ! nat ((m_rdaddr t - int k) AND 0x3ff), advance i t)"
    unfolding read_data_def Let_def chardec_sixchar [OF w(5,6)] w_def [symmetric] t(1) advance_def w(4)
    using w(1,2) by (simp only: if_True if_False simp_thms rbind_simps prod.case nth_Cons_0 nth_Cons_Suc One_nat_def
        chardec_sixchar [OF w(5,6)] chardec_sixchar [OF r] x_def w_def [symmetric] w(3) [unfolded One_nat_def] idx)
  moreover have "m_readtbl t ! nat ((m_rdaddr t - int k) AND 0x3ff) = hist ! (k - 1)"
    using assms(1) k read_sync_frame [OF t(3)] by (intro table_back) simp_all
  ultimately show ?thesis
    using assms(1) t(2) rx_left_frame [OF t(3)] read_sync_frame [OF t(3)]
    by (auto simp: rx_data_def v_def K_def advance_def)
qed

lemma read_data_raw:
  assumes "read_sync s hist" "waiting s (map sixchar (tl (data_codes (Raw v) i)) @ rest)"
  shows "\<exists>r. read_data (sixchar (hd (data_codes (Raw v) i))) val s = Inr r \<and> rx_data (Raw v) i hist s rest r"
proof -
  define q where "q = uint (drop_bit 30 v)"
  define h where "h = 0x38 + push_bit 1 q + inc_bit i"
  define w where "w = (word_of_int h :: u32)"
  define vs where "vs = [six 4 v, six 3 v, six 2 v, six 1 v, six 0 v]"
  have "q \<in> set [0..3]" using top_range [of v] by (simp add: q_def)
  moreover have "i \<in> set [False, True]" by (cases i) simp_all
  ultimately have w: "w AND 0x3e \<noteq> 0x06" "w AND 0x30 \<noteq> 0x10" "w AND 0x30 \<noteq> 0x20" "w AND 0x38 = 0x38"
    "drop_bit 1 w AND 3 = word_of_int q" "(w AND 1 \<noteq> 0) = i" "0 \<le> h" "h < 64"
    using raw_table unfolding list_all_iff Let_def h_def w_def by blast+
  have ok: "sixes_ok vs" "length vs = 5" by (simp_all add: vs_def)
  then have cs: "\<forall>c \<in> set (map sixchar vs). code_char c" by (simp add: vs_def)
  have "waiting s (map sixchar vs @ rest)" using assms(2) by (simp add: vs_def)
  from read_codes_valid [OF this _ cs, of 6 "[sixchar h]"] obtain t where
    t: "read_codes 6 [sixchar h] s = Inr (sixchar h # map sixchar vs, t)" "waiting t rest" "rx_left s t"
    using ok(2) by (fastforce simp: vs_def)
  have q: "word_of_int q = drop_bit 30 v" unfolding q_def by (rule word_of_int_uint)
  have val: "sixes (drop_bit 1 w AND 3) (map sixchar vs) = v"
    using sixes_join [OF ok(1)] join_full [of v] unfolding w(5) q by (simp add: vs_def del: join.simps)
  have "drop 1 (c # cs) = cs" for c and cs :: "u8 list" by simp
  then have "read_data (sixchar h) val s = Inr (v, advance i (t\<lparr>m_readtbl := (m_readtbl t)[nat (m_rdaddr t) := v],
                                   m_rdaddr := (m_rdaddr t + 1) AND 0x3ff\<rparr>))"
    unfolding read_data_def Let_def chardec_sixchar [OF w(7,8)] w_def [symmetric] t(1) advance_def w(6)
    using w(1-4) by (simp only: if_True if_False simp_thms rbind_simps prod.case nth_Cons_0
        chardec_sixchar [OF w(7,8)] w_def [symmetric] val)
  moreover have "read_sync t hist" using assms(1) read_sync_frame [OF t(3)] by simp
  ultimately show ?thesis
    using t(2) rx_left_frame [OF t(3)] read_sync_raw [of t hist v]
    by (auto simp: rx_data_def h_def q_def advance_def and_3ff)
qed

lemma read_data_decodes:
  assumes "read_sync s hist" "data_ok d hist" "waiting s (map sixchar (tl (data_codes d i)) @ rest)"
  shows "\<exists>r. read_data (sixchar (hd (data_codes d i))) val s = Inr r \<and> rx_data d i hist s rest r"
proof (cases d)
  case (Raw v) then show ?thesis using assms(1,3) read_data_raw [of s hist v i rest] by simp
next
  case Last then show ?thesis using assms read_data_last [of s hist rest i] by simp
next
  case (Near k) then show ?thesis using assms read_data_near [of s hist k rest i] by simp
next
  case (Far k) then show ?thesis using assms read_data_far [of s hist k i rest] by blast
qed

text \<open>The first character of the data is one that starts data.\<close>

lemma data_head:
  assumes "data_ok d hist"
  shows "0 \<le> hd (data_codes d i)" "hd (data_codes d i) < 64" "hd (data_codes d i) \<in> {6, 7} \<or> 16 \<le> hd (data_codes d i)"
proof -
  have "0 \<le> hd (data_codes d i) \<and> hd (data_codes d i) < 64 \<and> (hd (data_codes d i) \<in> {6, 7} \<or> 16 \<le> hd (data_codes d i))"
  proof (cases d)
    case (Raw v) then show ?thesis using top_range [of v] by (auto simp: inc_bit_def push_bit_eq_mult)
  next
    case (Far k)
    then have "0 \<le> (int k - 10) div 64" "(int k - 10) div 64 \<le> 7" using assms by (simp_all, presburger+)
    then show ?thesis using Far by (auto simp: inc_bit_def push_bit_eq_mult drop_bit_eq_div)
  qed (use assms in \<open>auto simp: inc_bit_def push_bit_eq_mult\<close>)
  then show "0 \<le> hd (data_codes d i)" "hd (data_codes d i) < 64" "hd (data_codes d i) \<in> {6, 7} \<or> 16 \<le> hd (data_codes d i)"
    by simp_all
qed

lemma data_codes_split: "data_codes d i = hd (data_codes d i) # tl (data_codes d i)"
  by (cases d) simp_all

lemma control_head:
  assumes "control_ok c" "\<And>n. c \<noteq> Noise n"
  shows "\<exists>v. hd (control_chars c) = sixchar v \<and> 0 \<le> v \<and> v < 64 \<and> v \<notin> {6, 7} \<and> v < 16"
proof (cases c)
  case (Address w) then have "hd (control_chars c) = sixchar (8 + uint (drop_bit 30 w))" by simp
  moreover have "8 + uint (drop_bit 30 w) < 16" "8 \<le> 8 + uint (drop_bit 30 w)" using top_range [of w] by linarith+
  moreover have "0 \<le> x \<and> x < 64 \<and> x \<notin> {6, 7} \<and> x < 16" if "8 \<le> x" "x < 16" for x :: int using that by auto
  ultimately show ?thesis by blast
next
  case (Address_short n w) then show ?thesis using assms(1) by (intro exI [of _ "11 + int n"]) simp
qed (use assms in auto)

text \<open>One control among the answers: where the decoder is after it.\<close>

lemma readword_control:
  assumes "waiting s (control_chars c @ rest)" "control_ok c"
  shows "\<exists>val' t. readword_from val s = readword_from val' t \<and> waiting t rest
    \<and> m_readtbl t = m_readtbl s \<and> m_rdaddr t = m_rdaddr s \<and> m_lastaddr t = control_addr c (m_lastaddr s)
    \<and> m_interrupt_flag t = control_int c (m_interrupt_flag s) \<and> m_bus_err t = m_bus_err s
    \<and> ll_tx (m_dev t) = ll_tx (m_dev s)"
proof (cases "\<exists>n. c = Noise n")
  case True
  then obtain n where c: "c = Noise n" by blast
  obtain t where t: "read_codes 1 [] s = read_codes 1 [] t" "waiting t rest" "rx_left s t"
    using read_codes_noise [of s n rest] assms unfolding c by auto
  have "readword_from val s = readword_from val t"
    by (subst (1 2) readword_from.simps) (simp only: t(1))
  then show ?thesis using t(2) rx_left_frame [OF t(3)] unfolding c by (auto simp: control_int_def)
next
  case False
  then obtain v where v: "hd (control_chars c) = sixchar v" "0 \<le> v" "v < 64" "v \<notin> {6, 7}" "v < 16"
    using control_head [OF assms(2)] by blast
  have ne: "control_chars c = sixchar v # tl (control_chars c)" using v(1) False by (cases c) auto
  have "waiting s ([sixchar v] @ tl (control_chars c) @ rest)" using assms(1) by (subst (asm) ne) simp
  from read_codes_valid [OF this, of 1 "[]"] v obtain s1 where
    s1: "read_codes 1 [] s = Inr ([sixchar v], s1)" "waiting s1 (tl (control_chars c) @ rest)" "rx_left s s1" by auto
  have nd: "\<not> starts_data (sixchar v)" using starts_sixchar(1) [OF v(2,3)] v(4,5) by simp
  note step = readword_from.simps [of val s] s1(1) nd v(1) sum.case prod.case nth_Cons_0 if_False
  show ?thesis
  proof (cases c)
    case (Status x)
    then have "read_control (sixchar v) s1 = Inr (None, s1\<lparr>m_interrupt_flag := control_int c (m_interrupt_flag s1)\<rparr>)"
      using read_status [of x s1] assms(2) v(1) by simp
    then have "readword_from val s = readword_from val (s1\<lparr>m_interrupt_flag := control_int c (m_interrupt_flag s1)\<rparr>)"
      unfolding step by (simp add: nd)
    then show ?thesis using s1(2) rx_left_frame [OF s1(3)] Status
      by (intro exI [of _ val] exI [of _ "s1\<lparr>m_interrupt_flag := control_int c (m_interrupt_flag s1)\<rparr>"]) simp
  next
    case (Address w)
    then obtain s2 where s2: "read_control (sixchar v) s1 = Inr (Some w, s2)" "waiting s2 rest" "rx_left s1 s2"
      using read_address [of s1 w rest] s1(2) v(1) by auto
    then have "readword_from val s = readword_from w (s2\<lparr>m_addr_set := True, m_lastaddr := push_bit 2 w\<rparr>)"
      unfolding step by (simp add: nd)
    then show ?thesis using s2(2) rx_left_frame [OF rx_left_trans [OF s1(3) s2(3)]] Address
      by (intro exI [of _ w] exI [of _ "s2\<lparr>m_addr_set := True, m_lastaddr := push_bit 2 w\<rparr>"]) (simp add: control_int_def)
  next
    case (Address_short n w)
    then obtain s2 where s2: "read_control (sixchar v) s1 = Inr (Some w, s2)" "waiting s2 rest" "rx_left s1 s2"
      using read_address_short [of s1 n w rest] s1(2) v(1) assms(2) by auto
    then have "readword_from val s = readword_from w (s2\<lparr>m_addr_set := True, m_lastaddr := push_bit 2 w\<rparr>)"
      unfolding step by (simp add: nd)
    then show ?thesis using s2(2) rx_left_frame [OF rx_left_trans [OF s1(3) s2(3)]] Address_short
      by (intro exI [of _ w] exI [of _ "s2\<lparr>m_addr_set := True, m_lastaddr := push_bit 2 w\<rparr>"]) (simp add: control_int_def)
  qed (use False in simp)
qed

text \<open>whatever bursts it arrives in, and after any number of characters that are not of the
  code, idle and busy notices, write acknowledgements, interrupts and addresses, in full or
  compressed, the answer to a read is decoded to the value the board sent: one sent in full, or
  the one of its last 521 such values it refers to.  The host's table follows the board's, its
  address is the last one sent plus the increment of the answer, an interrupt is noted, and the
  characters after the answer are left in the stream.\<close>

theorem tty_readword_decodes:
  assumes "waiting s (concat (map control_chars ctl) @ map sixchar (data_codes d i) @ rest)"
    "list_all control_ok ctl" "data_ok d hist" "read_sync s hist"
  shows "\<exists>s'. readword s = Inr (data_value d hist, s') \<and> waiting s' rest \<and> read_sync s' (data_hist d hist)
    \<and> m_lastaddr s' = fold control_addr ctl (m_lastaddr s) + (if i then 4 else 0)
    \<and> m_interrupt_flag s' = fold control_int ctl (m_interrupt_flag s)
    \<and> m_bus_err s' = m_bus_err s \<and> ll_tx (m_dev s') = ll_tx (m_dev s)"
proof -
  have "\<exists>s'. readword_from val s = Inr (data_value d hist, s') \<and> waiting s' rest \<and> read_sync s' (data_hist d hist)
    \<and> m_lastaddr s' = fold control_addr ctl (m_lastaddr s) + (if i then 4 else 0)
    \<and> m_interrupt_flag s' = fold control_int ctl (m_interrupt_flag s)
    \<and> m_bus_err s' = m_bus_err s \<and> ll_tx (m_dev s') = ll_tx (m_dev s)" for val
    using assms
  proof (induction ctl arbitrary: s val)
    case Nil
    let ?v = "hd (data_codes d i)"
    note h = data_head [OF Nil.prems(3), of i]
    have "waiting s ([sixchar ?v] @ map sixchar (tl (data_codes d i)) @ rest)"
      using Nil.prems(1) by (subst (asm) data_codes_split) simp
    from read_codes_valid [OF this, of 1 "[]"] h obtain t where
      t: "read_codes 1 [] s = Inr ([sixchar ?v], t)" "waiting t (map sixchar (tl (data_codes d i)) @ rest)" "rx_left s t"
      by auto
    have "read_sync t hist" using Nil.prems(4) read_sync_frame [OF t(3)] by simp
    from read_data_decodes [OF this Nil.prems(3) t(2)] obtain r where
      r: "read_data (sixchar ?v) val t = Inr r" "rx_data d i hist t rest r" by blast
    have "readword_from val s = Inr r"
      using starts_sixchar(1) [OF h(1,2)] h(3) r(1) by (subst readword_from.simps) (simp add: t(1) del: One_nat_def)
    then show ?case using r(2) rx_left_frame [OF t(3)] by (cases r) (auto simp: rx_data_def)
  next
    case (Cons c ctl)
    have "waiting s (control_chars c @ concat (map control_chars ctl) @ map sixchar (data_codes d i) @ rest)" "control_ok c"
      using Cons.prems(1,2) by simp_all
    from readword_control [OF this, of val] obtain val' t where t: "readword_from val s = readword_from val' t"
      "waiting t (concat (map control_chars ctl) @ map sixchar (data_codes d i) @ rest)"
      "m_readtbl t = m_readtbl s" "m_rdaddr t = m_rdaddr s" "m_lastaddr t = control_addr c (m_lastaddr s)"
      "m_interrupt_flag t = control_int c (m_interrupt_flag s)" "m_bus_err t = m_bus_err s"
      "ll_tx (m_dev t) = ll_tx (m_dev s)"
      by blast
    have "read_sync t hist" using Cons.prems(4) t(3,4) by (simp add: read_sync_def)
    with Cons.IH [OF t(2) _ Cons.prems(3), of val'] Cons.prems(2) show ?case unfolding t(1) by (simp add: t(5-))
  qed
  then show ?thesis by (simp add: readword_def)
qed

text \<open>
  Two bursts holding a newline, an interrupt, the address \<open>5\<close>, and a reference to the last
  value sent, then the first character of the next answer.
\<close>

definition tty_read_example :: ttybus where
  "tty_read_example = ttybus_new \<lparr>ll_rx = [Burst [0x0a, 0x34], Pause, Burst [0x43, 0x35, 0x37, 0x75]], ll_tx = [],
     ll_total_nread = 0, ll_total_nwrit = 0\<rparr> 0 (replicate 1023 0 @ [0x1234]) (replicate 256 0)"

theorem tty_readword_decodes_witness:
  "\<exists>s'. readword tty_read_example = Inr (0x1234, s') \<and> waiting s' [0x75] \<and> m_lastaddr s' = 24 \<and> m_interrupt_flag s'"
proof -
  let ?s = tty_read_example
  let ?ctl = "[Noise 0x0a, Status 4, Address_short 1 5]"
  have "sixchar 4 = 0x34" "sixchar 12 = 0x43" "sixchar 5 = 0x35" "sixchar 7 = 0x37" by code_simp+
  then have w: "waiting ?s (concat (map control_chars ?ctl) @ map sixchar (data_codes Last True) @ [0x75])"
    by (simp add: waiting_def tty_read_example_def ttybus_new_def bufalloc_def Let_def inc_bit_def six_def)
  have c: "list_all control_ok ?ctl"
  proof -
    have "\<not> code_char 0x0a" by code_simp
    then show ?thesis by simp
  qed
  have "\<And>k. 1 \<le> k \<Longrightarrow> k \<le> Suc 0 \<Longrightarrow> k = Suc 0" by linarith
  then have h: "read_sync ?s [0x1234]"
    by (auto simp: read_sync_def tty_read_example_def ttybus_new_def bufalloc_def Let_def nth_append)
  show ?thesis
    using tty_readword_decodes [OF w c _ h] by (auto simp: control_int_def tty_read_example_def ttybus_new_def bufalloc_def Let_def)
qed

end
