(* ===== verification/FlashDrvr.thy ===== *)
theory FlashDrvr
  imports Byteswap
begin

text \<open>
  The flash driver of the host, \<open>sw/host/flashdrvr.cpp\<close>, which reaches the flash through the
  debugging bus.  The bus is the abstract class \<open>DEVBUS\<close> of \<open>devbus.h\<close>: a record \<open>devbus\<close>
  of its operations, an argument of every function, over a state \<open>'d\<close> of the board.

  A routine that polls may never return: its value is then \<open>None\<close>.  The flash is present
  (\<open>FLASH_ACCESS\<close>), has a quad interface (\<open>QSPI_FLASH\<close>) and no attached scope.

  Two values in \<open>write\<close> are indeterminate and arguments of the model: the bytes of \<open>sbuf\<close> that
  nothing has written, and the inner variable \<open>len\<close>, which occurs in its own initialiser.
\<close>

section \<open>The bus\<close>

record 'd devbus =
  bus_writeio :: "u32 \<Rightarrow> u32 \<Rightarrow> 'd \<Rightarrow> fault + 'd"
  bus_readio :: "u32 \<Rightarrow> 'd \<Rightarrow> fault + 'd \<times> u32"
  bus_readi :: "u32 \<Rightarrow> nat \<Rightarrow> 'd \<Rightarrow> fault + 'd \<times> u32 list"

text \<open>Calls that may fault and may not return.\<close>

definition obind :: "('e + 'a) option \<Rightarrow> ('a \<Rightarrow> ('e + 'b) option) \<Rightarrow> ('e + 'b) option" where
  "obind m f = Option.bind m (\<lambda>r. case r of Inl e \<Rightarrow> Some (Inl e) | Inr x \<Rightarrow> f x)"

lemma obind_simps [simp]:
  "obind None f = None"
  "obind (Some (Inl e)) f = Some (Inl e)"
  "obind (Some (Inr x)) f = f x"
  by (simp_all add: obind_def)

lemma obind_mono [partial_function_mono]:
  assumes "mono_option B" and "\<And>y. mono_option (\<lambda>f. C y f)"
  shows "mono_option (\<lambda>f. obind (B f) (\<lambda>y. C y f))"
  unfolding obind_def
proof (rule bind_mono [OF assms(1)])
  fix r
  show "mono_option (\<lambda>f. case r of Inl e \<Rightarrow> Some (Inl e) | Inr x \<Rightarrow> C x f)"
    using assms(2) by (cases r) (simp_all add: option.const_mono)
qed

section \<open>Registers, commands, sizes\<close>

definition R_FLASHCFG :: u32 where "R_FLASHCFG = 0x01000000"
definition R_FLASH :: u32 where "R_FLASH = 0x09000000"
definition FLASHBASE :: u32 where "FLASHBASE = 0x09000000"
definition FLASHLEN :: u32 where "FLASHLEN = 0x01000000"
definition FLASH_NDUMMY :: nat where "FLASH_NDUMMY = 6"
definition SZPAGEB :: u32 where "SZPAGEB = 256"
definition PGLENB :: u32 where "PGLENB = 256"
definition SZPAGEW :: nat where "SZPAGEW = 64"
definition NPAGES :: nat where "NPAGES = 256"
definition SECTORSZB :: u32 where "SECTORSZB = of_nat NPAGES * SZPAGEB"
definition SECTOROF :: "u32 \<Rightarrow> u32" where "SECTOROF a = a AND 0xffff0000"
definition PAGEOF :: "u32 \<Rightarrow> u32" where "PAGEOF a = a AND 0xffffff00"

definition MICRON_FLASHID :: u32 where "MICRON_FLASHID = 0x20ba1810"
definition CFG_USERMODE :: u32 where "CFG_USERMODE = push_bit 12 1"
definition CFG_QSPEED :: u32 where "CFG_QSPEED = push_bit 11 1"
definition CFG_WEDIR :: u32 where "CFG_WEDIR = push_bit 9 1"
definition CFG_USER_CS_n :: u32 where "CFG_USER_CS_n = push_bit 8 1"

definition F_RESET :: u32 where "F_RESET = CFG_USERMODE OR 0x0ff"
definition F_EMPTY :: u32 where "F_EMPTY = CFG_USERMODE OR 0x000"
definition F_PP :: u32 where "F_PP = CFG_USERMODE OR 0x002"
definition F_WRDI :: u32 where "F_WRDI = CFG_USERMODE OR 0x004"
definition F_RDSR1 :: u32 where "F_RDSR1 = CFG_USERMODE OR 0x005"
definition F_WREN :: u32 where "F_WREN = CFG_USERMODE OR 0x006"
definition F_SE :: u32 where "F_SE = CFG_USERMODE OR 0x0d8"
definition F_END :: u32 where "F_END = CFG_USERMODE OR CFG_USER_CS_n"

section \<open>Commands through the configuration register\<close>

fun cfg_writes :: "'d devbus \<Rightarrow> u32 list \<Rightarrow> 'd \<Rightarrow> fault + 'd" where
  "cfg_writes B [] d = Inr d"
| "cfg_writes B (v # vs) d = rbind (bus_writeio B R_FLASHCFG v d) (cfg_writes B vs)"

definition take_offline :: "'d devbus \<Rightarrow> 'd \<Rightarrow> fault + 'd" where
  "take_offline B = cfg_writes B ([F_END] @ replicate 6 F_RESET @ [F_END])"

definition restore_quadio :: "'d devbus \<Rightarrow> u32 \<Rightarrow> 'd \<Rightarrow> fault + 'd" where
  "restore_quadio B m_id = cfg_writes B
     ([F_END] @
      (if MICRON_FLASHID = m_id
       then [F_WREN, F_END, CFG_USERMODE OR 0x81, CFG_USERMODE OR 0xf3, F_END] else []) @
      [CFG_USERMODE OR 0xeb] @
      replicate 3 (CFG_USERMODE OR CFG_QSPEED OR CFG_WEDIR) @
      [CFG_USERMODE OR CFG_QSPEED OR CFG_WEDIR OR 0xa0] @
      replicate ((FLASH_NDUMMY - 2) div 2) (CFG_USERMODE OR CFG_QSPEED) @
      [CFG_USERMODE OR CFG_QSPEED] @
      [CFG_USERMODE, CFG_USER_CS_n])"

definition place_online :: "'d devbus \<Rightarrow> u32 \<Rightarrow> 'd \<Rightarrow> fault + 'd" where
  "place_online B m_id d = restore_quadio B m_id d"

definition id_byte :: "'d devbus \<Rightarrow> u32 \<Rightarrow> 'd \<Rightarrow> fault + 'd \<times> u32" where
  "id_byte B r d =
     rbind (bus_writeio B R_FLASHCFG (CFG_USERMODE OR 0x00) d) (\<lambda>d.
     rbind (bus_readio B R_FLASHCFG d) (\<lambda>(d, v). Inr (d, push_bit 8 r OR (v AND 0x0ff))))"

definition flashid :: "'d devbus \<Rightarrow> u32 \<Rightarrow> 'd \<Rightarrow> fault + 'd \<times> u32" where
  "flashid B m_id d =
     (if m_id \<noteq> 0 then Inr (d, m_id)
      else rbind (take_offline B d) (\<lambda>d.
           rbind (cfg_writes B [CFG_USERMODE OR 0x9f] d) (\<lambda>d.
           rbind (id_byte B 0 d) (\<lambda>(d, r).
           rbind (id_byte B r d) (\<lambda>(d, r).
           rbind (id_byte B r d) (\<lambda>(d, r).
           rbind (id_byte B r d) (\<lambda>(d, r).
           rbind (place_online B r d) (\<lambda>d. Inr (d, r)))))))))"

partial_function (option) flwait_loop :: "'d devbus \<Rightarrow> 'd \<Rightarrow> (fault + 'd) option" where
  "flwait_loop B d =
     obind (Some (bus_writeio B R_FLASHCFG F_EMPTY d)) (\<lambda>d.
     obind (Some (bus_readio B R_FLASHCFG d)) (\<lambda>(d, sr).
       if sr AND 1 \<noteq> 0 then flwait_loop B d else Some (Inr d)))"

definition flwait :: "'d devbus \<Rightarrow> 'd \<Rightarrow> (fault + 'd) option" where
  "flwait B d =
     obind (Some (cfg_writes B [F_END, F_RDSR1] d)) (\<lambda>d.
     obind (flwait_loop B d) (\<lambda>d.
     Some (cfg_writes B [F_END] d)))"

text \<open>The three address bytes that follow a command.\<close>

definition cfg_addr :: "u32 \<Rightarrow> u32 list" where
  "cfg_addr a = [CFG_USERMODE OR (drop_bit 16 a AND 0x0ff), CFG_USERMODE OR (drop_bit 8 a AND 0x0ff),
     CFG_USERMODE OR (a AND 0x0ff)]"

section \<open>Erasing a sector\<close>

fun verify_pages :: "'d devbus \<Rightarrow> u32 \<Rightarrow> nat \<Rightarrow> 'd \<Rightarrow> fault + 'd \<times> bool" where
  "verify_pages B a 0 d = Inr (d, True)"
| "verify_pages B a (Suc n) d =
     rbind (bus_readi B a SZPAGEW d) (\<lambda>(d, page).
       if list_all (\<lambda>w. w = 0xffffffff) page then verify_pages B (a + SZPAGEB) n d else Inr (d, False))"

definition erase_sector :: "'d devbus \<Rightarrow> u32 \<Rightarrow> u32 \<Rightarrow> bool \<Rightarrow> 'd \<Rightarrow> (fault + 'd \<times> bool) option" where
  "erase_sector B m_id sector verify_erase d =
     (let flashaddr = sector AND 0x0ffffff in
      obind (Some (take_offline B d)) (\<lambda>d.
      obind (Some (cfg_writes B ([F_END, F_WREN, F_END] @ [F_SE] @ cfg_addr flashaddr @ [F_END]) d)) (\<lambda>d.
      obind (flwait B d) (\<lambda>d.
      obind (Some (place_online B m_id d)) (\<lambda>d.
      if verify_erase then Some (verify_pages B (R_FLASH + flashaddr) NPAGES d)
      else Some (Inr (d, True)))))))"

section \<open>Programming a page\<close>

text \<open>A pointer into the caller's data is the list of the bytes from it on.\<close>

fun page_words :: "u8 list \<Rightarrow> nat \<Rightarrow> fault + u32 list" where
  "page_words p 0 = Inr []"
| "page_words p (Suc n) =
     rbind (buildword p) (\<lambda>v. rbind (page_words (drop 4 p) n) (\<lambda>vs. Inr (v # vs)))"

definition page_program ::
  "'d devbus \<Rightarrow> u32 \<Rightarrow> u32 \<Rightarrow> u32 \<Rightarrow> u8 list \<Rightarrow> bool \<Rightarrow> 'd \<Rightarrow> (fault + 'd \<times> bool) option" where
  "page_program B m_id addr len data verify_write d =
     (let flashaddr = addr AND 0x0ffffff in
      obind (Some (take_offline B d)) (\<lambda>d.
      obind (Some (c_assert (0 < len) (c_assert (len \<le> PGLENB)
               (c_assert (PAGEOF addr = PAGEOF (addr + len - 1)) (page_words data ((unat len + 3) div 4)))))) (\<lambda>bswapd.
      if list_all (\<lambda>v. v = 0xffffffff) bswapd
      then obind (Some (place_online B m_id d)) (\<lambda>d. Some (Inr (d, True)))
      else obind (Some (cfg_writes B ([F_END, F_WREN, F_END] @ [F_PP] @ cfg_addr flashaddr @
                 map (\<lambda>b. CFG_USERMODE OR CFG_WEDIR OR ucast b) (take (unat len) data) @ [F_END]) d)) (\<lambda>d.
           obind (flwait B d) (\<lambda>d.
           obind (Some (place_online B m_id d)) (\<lambda>d.
           if verify_write
           then obind (Some (bus_readi B addr (unat (drop_bit 2 len)) d)) (\<lambda>(d, buf).
                  Some (Inr (d, buf = take (unat (drop_bit 2 len)) bswapd)))
           else Some (Inr (d, True))))))))"

section \<open>Writing a range\<close>

definition verify_config :: bool where
  "verify_config = True"

text \<open>The bytes in memory of an array of \<open>uint32_t\<close> on the host, which is little-endian.\<close>

definition host_bytes :: "u32 list \<Rightarrow> u8 list" where
  "host_bytes ws = concat (map (\<lambda>w. [byte_at 0 w, byte_at 1 w, byte_at 2 w, byte_at 3 w]) ws)"

text \<open>The current contents of the part of sector \<open>s\<close> to be written; \<open>junk\<close> is what the buffer held.\<close>

definition read_sector :: "'d devbus \<Rightarrow> u8 list \<Rightarrow> u32 \<Rightarrow> u32 \<Rightarrow> 'd \<Rightarrow> fault + 'd \<times> u8 list" where
  "read_sector B junk base ln d =
     (let n = unat (drop_bit 2 ln) in
      rbind (bus_readi B base n d) (\<lambda>(d, ws).
      rbind (byteswapbuf (int n) ws) (\<lambda>ws. Inr (d, host_bytes ws @ drop (4 * n) junk))))"

fun scan_sector :: "u32 \<Rightarrow> u32 \<Rightarrow> u8 list \<Rightarrow> u8 list \<Rightarrow> u32 \<Rightarrow> fault + bool \<times> u32" where
  "scan_sector base i [] dp newv = Inr (False, newv)"
| "scan_sector base i (b # sbuf) dp newv =
     (case dp of [] \<Rightarrow> Inl OutOfBounds
      | x # dp \<Rightarrow>
          if b AND x \<noteq> x then Inr (True, (i AND - 4) + base)
          else scan_sector base (i + 1) sbuf dp (if b \<noteq> x \<and> newv = 0 then (i AND - 4) + base else newv))"

text \<open>\<open>stale p\<close> is what the inner \<open>len\<close> holds when it is read to initialise itself.\<close>

partial_function (option) write_pages ::
  "'d devbus \<Rightarrow> (u32 \<Rightarrow> u32) \<Rightarrow> u32 \<Rightarrow> u32 \<Rightarrow> u32 \<Rightarrow> u8 list \<Rightarrow> bool \<Rightarrow> u32 \<Rightarrow> u32 \<Rightarrow> 'd
     \<Rightarrow> (fault + 'd \<times> bool) option" where
  "write_pages B stale m_id addr len data verify s p d =
     (if p < s + SECTORSZB \<and> p < addr + len
      then let start = p; ln = addr + stale p - start;
               ln = (if PAGEOF (start + ln - 1) \<noteq> PAGEOF start then PAGEOF (start + PGLENB) - start else ln)
           in obind (page_program B m_id start ln (drop (unat (p - addr)) data) verify d) (\<lambda>(d, ok).
              if ok then write_pages B stale m_id addr len data verify s (PAGEOF (p + PGLENB)) d
              else Some (Inr (d, False)))
      else Some (Inr (d, True)))"

definition write_sector ::
  "'d devbus \<Rightarrow> (u32 \<Rightarrow> u8 list) \<Rightarrow> (u32 \<Rightarrow> u32) \<Rightarrow> u32 \<Rightarrow> u32 \<Rightarrow> u32 \<Rightarrow> u8 list \<Rightarrow> bool \<Rightarrow> u32 \<Rightarrow> 'd
     \<Rightarrow> (fault + 'd \<times> bool) option" where
  "write_sector B junk stale m_id addr len data verify s d =
     (let base = (if s < addr then addr else s);
          ln = (if s + SECTORSZB < addr + len then s + SECTORSZB else addr + len) - base in
      obind (Some (read_sector B (junk s) base ln d)) (\<lambda>(d, sbuf).
      obind (Some (scan_sector base 0 (take (unat ln) sbuf) (drop (unat (base - addr)) data) 0)) (\<lambda>(need_erase, newv).
      if newv = 0 then Some (Inr (d, True))
      else if \<not> need_erase then write_pages B stale m_id addr len data verify s newv d
      else obind (erase_sector B m_id s verify d) (\<lambda>(d, ok).
           if \<not> ok then Some (Inr (d, False))
           else write_pages B stale m_id addr len data verify s (if s < addr then addr else s) d))))"

partial_function (option) write_sectors ::
  "'d devbus \<Rightarrow> (u32 \<Rightarrow> u8 list) \<Rightarrow> (u32 \<Rightarrow> u32) \<Rightarrow> u32 \<Rightarrow> u32 \<Rightarrow> u32 \<Rightarrow> u8 list \<Rightarrow> bool \<Rightarrow> u32 \<Rightarrow> 'd
     \<Rightarrow> (fault + 'd \<times> bool) option" where
  "write_sectors B junk stale m_id addr len data verify s d =
     (if s < SECTOROF (addr + len + SECTORSZB - 1)
      then obind (write_sector B junk stale m_id addr len data verify s d) (\<lambda>(d, ok).
           if ok then write_sectors B junk stale m_id addr len data verify (s + SECTORSZB) d
           else Some (Inr (d, False)))
      else Some (Inr (d, True)))"

definition flash_write ::
  "'d devbus \<Rightarrow> (u32 \<Rightarrow> u8 list) \<Rightarrow> (u32 \<Rightarrow> u32) \<Rightarrow> u32 \<Rightarrow> u32 \<Rightarrow> u32 \<Rightarrow> u8 list \<Rightarrow> bool \<Rightarrow> 'd
     \<Rightarrow> (fault + 'd \<times> u32 \<times> bool) option" where
  "flash_write B junk stale m_id addr len data verify d =
     obind (Some (flashid B m_id d)) (\<lambda>(d, m_id).
     obind (Some (c_assert (FLASHBASE \<le> addr) (c_assert (addr + len \<le> FLASHBASE + FLASHLEN) (Inr ())))) (\<lambda>_.
     if \<not> verify_config then Some (Inr (d, m_id, False))
     else
     obind (write_sectors B junk stale m_id addr len data verify (SECTOROF addr) d) (\<lambda>(d, ok).
     if \<not> ok then Some (Inr (d, m_id, False))
     else
     obind (Some (rbind (take_offline B d) (cfg_writes B [F_WRDI, F_END]))) (\<lambda>d.
     obind (Some (place_online B m_id d)) (\<lambda>d. Some (Inr (d, m_id, True)))))))"

end
