(* ===== verification/FlashDrvrSpec.thy ===== *)
theory FlashDrvrSpec
  imports FlashDrvr FlashWrite
begin

text \<open>
  What the flash driver promises, under the contract of the board it drives: the locale
  \<open>flash_board\<close> says what each sequence of bus operations the driver performs does to a flash
  behind a configuration register and a memory window.  The contract is on the memory of the flash,
  indexed by bus address.
\<close>

section \<open>Addresses\<close>

lemma unat_PAGEOF: "unat (PAGEOF a) = unat a div 256 * 256"
proof -
  have "(0xffffff00 :: u32) = NOT (mask 8)" by (simp add: mask_eq_exp_minus_1 word_unat_eq_iff)
  then have "PAGEOF a = block_of 8 a" by (simp only: PAGEOF_def block_of_eq)
  then show ?thesis by (simp add: unat_block_of)
qed

lemma unat_SECTOROF: "unat (SECTOROF a) = unat a div 65536 * 65536"
proof -
  have "(0xffff0000 :: u32) = NOT (mask 16)" by (simp add: mask_eq_exp_minus_1 word_unat_eq_iff)
  then have "SECTOROF a = block_of 16 a" by (simp only: SECTOROF_def block_of_eq)
  then show ?thesis by (simp add: unat_block_of)
qed

lemma SECTORSZB_eq: "SECTORSZB = 65536"
  by (simp add: SECTORSZB_def NPAGES_def SZPAGEB_def)

lemma unat_plus: "unat a + unat b < 2 ^ 32 \<Longrightarrow> unat (a + b) = unat a + unat b" for a b :: u32
  by (simp add: unat_word_ariths)

lemma unat_minus: "b \<le> a \<Longrightarrow> unat (a - b) = unat a - unat b" for a b :: u32
  by (simp add: unat_sub_if' word_le_nat_alt)

lemma unat_drop32: "unat (drop_bit n x) = unat x div 2 ^ n" for x :: u32
proof -
  have "take_bit 32 (unat x) = unat x" using unat_bound by (rule take_bit_nat_eq_self)
  then show ?thesis by (simp only: unsigned_drop_bit_eq) (simp add: drop_bit_eq_div)
qed

text \<open>Where the flash starts on the bus, as a number.\<close>

abbreviation flash_lo :: nat where "flash_lo \<equiv> 0x09000000"

section \<open>The contract\<close>

datatype flash_phase_of = Offline | Online | Busy | Polling | Polled

text \<open>The bytes of memory as words on the bus, big-endian.\<close>

definition mem_word :: "(nat \<Rightarrow> u8) \<Rightarrow> nat \<Rightarrow> u32" where
  "mem_word m a = word_of_bytes (m a) (m (a + 1)) (m (a + 2)) (m (a + 3))"

definition erased :: "nat \<Rightarrow> (nat \<Rightarrow> u8) \<Rightarrow> nat \<Rightarrow> u8" where
  "erased a m = (\<lambda>i. if i div 65536 = a div 65536 then 0xff else m i)"

definition programmed :: "nat \<Rightarrow> u8 list \<Rightarrow> (nat \<Rightarrow> u8) \<Rightarrow> nat \<Rightarrow> u8" where
  "programmed a bs m = (\<lambda>i. if a \<le> i \<and> i < a + length bs then m i AND bs ! (i - a) else m i)"

definition stored :: "nat \<Rightarrow> u8 list \<Rightarrow> (nat \<Rightarrow> u8) \<Rightarrow> nat \<Rightarrow> u8" where
  "stored a bs m = (\<lambda>i. if a \<le> i \<and> i < a + length bs then bs ! (i - a) else m i)"

definition page_fits :: "nat \<Rightarrow> nat \<Rightarrow> bool" where
  "page_fits a n \<longleftrightarrow> 0 < n \<and> a mod 256 + n \<le> 256"

lemma programmed_stored:
  assumes "\<And>i. i < length bs \<Longrightarrow> m (a + i) AND bs ! i = bs ! i"
  shows "programmed a bs m = stored a bs m"
proof
  fix i
  show "programmed a bs m i = stored a bs m i"
    using assms [of "i - a"] by (auto simp: programmed_def stored_def)
qed

lemma and_ones: "x AND 0xff = x" "0xff AND x = x" for x :: u8
proof -
  have ff: "(0xff :: u8) = - 1" by (simp add: word_unat_eq_iff unsigned_minus_1_eq_mask mask_eq_exp_minus_1)
  show "x AND 0xff = x" "0xff AND x = x" unfolding ff by (rule and.right_neutral, rule and.left_neutral)
qed

lemma stored_blank:
  assumes "\<And>i. i < length bs \<Longrightarrow> m (a + i) AND bs ! i = bs ! i" "\<And>i. i < length bs \<Longrightarrow> bs ! i = 0xff"
  shows "stored a bs m = m"
proof
  fix i
  show "stored a bs m i = m i"
    using assms(1) [of "i - a"] assms(2) [of "i - a"] by (auto simp: stored_def and_ones)
qed

section \<open>The words of a page\<close>

lemma page_asserts:
  assumes "page_fits (unat a) (unat len)" "unat a + unat len < 2 ^ 32"
  shows "0 < len" "len \<le> PGLENB" "PAGEOF a = PAGEOF (a + len - 1)"
proof -
  have l: "0 < unat len" "unat len \<le> 256" using assms(1) by (auto simp: page_fits_def)
  then show "0 < len" "len \<le> PGLENB" by (simp_all add: word_less_nat_alt word_le_nat_alt PGLENB_def)
  have s: "unat (a + len) = unat a + unat len" using assms(2) by (rule unat_plus)
  then have "1 \<le> a + len" using l(1) by (simp add: word_le_nat_alt)
  then have "unat (a + len - 1) = unat a + (unat len - 1)" using l(1) s by (simp add: unat_minus)
  moreover have "(unat a + (unat len - 1)) div 256 = unat a div 256"
  proof -
    have "unat a + (unat len - 1) = 256 * (unat a div 256) + (unat a mod 256 + (unat len - 1))" by simp
    moreover have "(unat a mod 256 + (unat len - 1)) div 256 = 0"
      using assms(1) by (intro div_less) (auto simp: page_fits_def)
    ultimately show ?thesis by (metis add.right_neutral div_mult_self4 zero_neq_numeral)
  qed
  ultimately show "PAGEOF a = PAGEOF (a + len - 1)" by (simp add: word_unat_eq_iff unat_PAGEOF)
qed

lemma less_4_cases: assumes "(k :: nat) < 4" obtains "k = 0" | "k = 1" | "k = 2" | "k = 3"
  using assms by linarith

lemma buildword_mem: "4 \<le> length p \<Longrightarrow> buildword p = Inr (mem_word ((!) p) 0)"
proof -
  assume "4 \<le> length p"
  then obtain a b c d q where "p = a # b # c # d # q" by (auto simp: Suc_le_length_iff numeral_eq_Suc)
  then show ?thesis by (simp add: mem_word_def)
qed

lemma mem_word_cong:
  assumes "\<And>j. j < 4 \<Longrightarrow> m (a + j) = m' (b + j)"
  shows "mem_word m a = mem_word m' b"
  using assms [of 0] assms [of 1] assms [of 2] assms [of 3] by (simp add: mem_word_def)

lemma page_words_eq:
  "4 * n \<le> length p \<Longrightarrow> page_words p n = Inr (map (\<lambda>k. mem_word ((!) p) (4 * k)) [0..<n])"
proof (induction n arbitrary: p)
  case (Suc n)
  have "[0..<Suc n] = 0 # map Suc [0..<n]" by (simp add: map_Suc_upt upt_conv_Cons del: upt_Suc)
  moreover have "page_words (drop 4 p) n = Inr (map (\<lambda>k. mem_word ((!) p) (4 + 4 * k)) [0..<n])"
  proof -
    have "mem_word ((!) (drop 4 p)) (4 * k) = mem_word ((!) p) (4 + 4 * k)" for k
      using Suc.prems by (intro mem_word_cong) (simp add: add.assoc)
    then show ?thesis using Suc.IH [of "drop 4 p"] Suc.prems by simp
  qed
  ultimately show ?case using Suc.prems by (simp add: buildword_mem o_def del: upt_Suc)
qed simp

lemma mem_word_blank: "mem_word m a = 0xffffffff \<Longrightarrow> k < 4 \<Longrightarrow> m (a + k) = 0xff"
proof -
  assume w: "mem_word m a = 0xffffffff" and k: "k < 4"
  have b: "byte_at j 0xffffffff = 0xff" if "j < 4" for j
    using that by (cases rule: less_4_cases) (simp_all add: byte_at_def)
  have "m a = 0xff" "m (a + 1) = 0xff" "m (a + 2) = 0xff" "m (a + 3) = 0xff"
    using w byte_at_word_of_bytes [of "m a" "m (a + 1)" "m (a + 2)" "m (a + 3)"] b [of 0] b [of 1] b [of 2] b [of 3]
    by (simp_all add: mem_word_def)
  then show "m (a + k) = 0xff" by (cases rule: less_4_cases [OF k]) simp_all
qed

lemma blank_words:
  assumes "list_all (\<lambda>w. w = 0xffffffff) (map (\<lambda>k. mem_word m (4 * k)) [0..<n])" "i < 4 * n"
  shows "m i = 0xff"
proof -
  have "mem_word m (4 * (i div 4)) = 0xffffffff" using assms by (auto simp: list_all_iff)
  then show ?thesis using mem_word_blank [of m "4 * (i div 4)" "i mod 4"] by simp
qed

section \<open>The scan of a sector\<close>

definition mark :: "u32 \<Rightarrow> u32 \<Rightarrow> u32" where
  "mark base i = (i AND - 4) + base"

lemma unat_mark:
  assumes "k < 65536" "unat base + 65536 \<le> 2 ^ 32"
  shows "unat (mark base (of_nat k)) = unat base + k div 4 * 4"
proof -
  have "(- 4 :: u32) = NOT (mask 2)" by (simp add: mask_eq_exp_minus_1)
  then have "(of_nat k :: u32) AND - 4 = block_of 2 (of_nat k)" by (simp only: block_of_eq)
  moreover have "unat (of_nat k :: u32) = k" using assms(1) by (simp add: unat_of_nat)
  ultimately have u: "unat ((of_nat k :: u32) AND - 4) = k div 4 * 4" by (simp add: unat_block_of)
  have "k div 4 * 4 < 65536" using assms(1) by (rule order.strict_trans1 [rotated]) simp
  then show ?thesis using u assms(2) by (simp add: mark_def unat_plus)
qed

lemma scan_erase:
  assumes "length bs \<le> length dp" "k < length bs" "bs ! k AND dp ! k \<noteq> dp ! k"
  shows "\<exists>j < length bs. scan_sector base i bs dp newv = Inr (True, mark base (i + of_nat j))"
  using assms
proof (induction bs arbitrary: i dp newv k)
  case (Cons b bs)
  then obtain x ds where dp: "dp = x # ds" by (cases dp) auto
  show ?case
  proof (cases "b AND x = x")
    case False
    then show ?thesis by (intro exI [of _ 0]) (simp add: dp mark_def)
  next
    case True
    then obtain k' where "k = Suc k'" using Cons.prems(3) dp by (cases k) auto
    then obtain j where "j < length bs" "scan_sector base (i + 1) bs ds (if b \<noteq> x \<and> newv = 0 then (i AND - 4) + base else newv)
        = Inr (True, mark base (i + 1 + of_nat j))"
      using Cons.IH [of ds k'] Cons.prems dp by auto
    then show ?thesis using True by (intro exI [of _ "Suc j"]) (simp add: dp add.assoc)
  qed
qed simp

lemma scan_marked:
  assumes "length bs \<le> length dp" "\<And>k. k < length bs \<Longrightarrow> bs ! k AND dp ! k = dp ! k" "newv \<noteq> 0"
  shows "scan_sector base i bs dp newv = Inr (False, newv)"
  using assms
proof (induction bs arbitrary: i dp)
  case (Cons b bs)
  then obtain x ds where dp: "dp = x # ds" by (cases dp) auto
  have "bs ! k AND ds ! k = ds ! k" if "k < length bs" for k using Cons.prems(2) [of "Suc k"] that dp by simp
  then show ?case using Cons.IH [of ds "i + 1"] Cons.prems(1,3) Cons.prems(2) [of 0] dp by simp
qed simp

lemma scan_equal: "length bs \<le> length dp \<Longrightarrow> bs = take (length bs) dp \<Longrightarrow> scan_sector base i bs dp 0 = Inr (False, 0)"
proof (induction bs arbitrary: i dp)
  case (Cons b bs)
  then show ?case by (cases dp) auto
qed simp

lemma scan_differs:
  assumes "length bs \<le> length dp" "\<And>k. k < length bs \<Longrightarrow> bs ! k AND dp ! k = dp ! k"
    and "j < length bs" "bs ! j \<noteq> dp ! j" "\<And>k. k < j \<Longrightarrow> bs ! k = dp ! k" "mark base (i + of_nat j) \<noteq> 0"
  shows "scan_sector base i bs dp 0 = Inr (False, mark base (i + of_nat j))"
  using assms
proof (induction bs arbitrary: i dp j)
  case (Cons b bs)
  then obtain x ds where dp: "dp = x # ds" by (cases dp) auto
  have keep: "bs ! k AND ds ! k = ds ! k" if "k < length bs" for k using Cons.prems(2) [of "Suc k"] that dp by simp
  have len: "length bs \<le> length ds" "b AND x = x" using Cons.prems(1) Cons.prems(2) [of 0] dp by simp_all
  show ?case
  proof (cases j)
    case 0
    then show ?thesis
      using scan_marked [OF len(1) keep, of "mark base i"] len(2) Cons.prems(4,6) dp by (simp add: mark_def)
  next
    case (Suc j')
    have "bs ! k = ds ! k" if "k < j'" for k using Cons.prems(5) [of "Suc k"] that dp Suc by simp
    moreover have "b = x" using Cons.prems(5) [of 0] dp Suc by simp
    ultimately show ?thesis
      using Cons.IH [OF len(1) keep, of j' "i + 1"] Cons.prems(3,4,6) Suc dp by (simp add: add.assoc)
  qed
qed simp

section \<open>What a write leaves\<close>

definition must_erase :: "nat \<Rightarrow> u8 list \<Rightarrow> (nat \<Rightarrow> u8) \<Rightarrow> nat \<Rightarrow> bool" where
  "must_erase a bs m q \<longleftrightarrow> (\<exists>k < length bs. (a + k) div 65536 = q \<and> m (a + k) AND bs ! k \<noteq> bs ! k)"

definition written :: "nat \<Rightarrow> u8 list \<Rightarrow> (nat \<Rightarrow> u8) \<Rightarrow> nat \<Rightarrow> u8" where
  "written a bs m = (\<lambda>i. if a \<le> i \<and> i < a + length bs then bs ! (i - a)
     else if must_erase a bs m (i div 65536) then 0xff else m i)"

lemma written_cong:
  assumes "\<And>j. j div 65536 = i div 65536 \<Longrightarrow> m j = m' j"
  shows "written a bs m i = written a bs m' i"
proof -
  have "must_erase a bs m (i div 65536) = must_erase a bs m' (i div 65536)"
    using assms by (auto simp: must_erase_def)
  then show ?thesis using assms by (simp add: written_def)
qed

lemma written_apart:
  assumes "\<And>k. k < length bs \<Longrightarrow> (a + k) div 65536 \<noteq> i div 65536"
  shows "written a bs m i = m i"
proof -
  have "\<not> (a \<le> i \<and> i < a + length bs)"
  proof
    assume i: "a \<le> i \<and> i < a + length bs"
    then have "i - a < length bs" by linarith
    then show False using assms [of "i - a"] i by simp
  qed
  then show ?thesis using assms by (auto simp: written_def must_erase_def)
qed

lemma sector_iff: "65536 dvd s \<Longrightarrow> i div 65536 = s div 65536 \<longleftrightarrow> s \<le> i \<and> i < s + 65536" for i s :: nat
  by (auto simp: dvd_def)

lemma must_erase_range:
  assumes "65536 dvd s"
  shows "must_erase a bs m (s div 65536) \<longleftrightarrow>
    (\<exists>i. max a s \<le> i \<and> i < min (s + 65536) (a + length bs) \<and> m i AND bs ! (i - a) \<noteq> bs ! (i - a))"
proof
  assume "must_erase a bs m (s div 65536)"
  then obtain k where "k < length bs" "s \<le> a + k" "a + k < s + 65536" "m (a + k) AND bs ! k \<noteq> bs ! k"
    by (auto simp: must_erase_def sector_iff [OF assms])
  then show "\<exists>i. max a s \<le> i \<and> i < min (s + 65536) (a + length bs) \<and> m i AND bs ! (i - a) \<noteq> bs ! (i - a)"
    by (intro exI [of _ "a + k"]) simp
next
  assume "\<exists>i. max a s \<le> i \<and> i < min (s + 65536) (a + length bs) \<and> m i AND bs ! (i - a) \<noteq> bs ! (i - a)"
  then obtain i where "max a s \<le> i" "i < min (s + 65536) (a + length bs)" "m i AND bs ! (i - a) \<noteq> bs ! (i - a)" by blast
  then show "must_erase a bs m (s div 65536)"
    unfolding must_erase_def sector_iff [OF assms] by (intro exI [of _ "i - a"]) auto
qed

lemma written_sector:
  assumes "65536 dvd s" "s \<le> i" "i < s + 65536"
  shows "written a bs m i = (if max a s \<le> i \<and> i < min (s + 65536) (a + length bs) then bs ! (i - a)
    else if must_erase a bs m (s div 65536) then 0xff else m i)"
  using assms sector_iff [OF assms(1), of i] by (auto simp: written_def)

lemma sector_clip:
  assumes "unat s + 65536 < 2 ^ 32" "unat a + unat len < 2 ^ 32" "unat b \<le> min (unat s + 65536) (unat a + unat len)"
  shows "unat b + unat ((if s + SECTORSZB < a + len then s + SECTORSZB else a + len) - b) = min (unat s + 65536) (unat a + unat len)"
proof -
  have "unat (s + SECTORSZB) = unat s + 65536" "unat (a + len) = unat a + unat len"
    using assms by (simp_all add: unat_plus SECTORSZB_eq)
  then have "unat (if s + SECTORSZB < a + len then s + SECTORSZB else a + len) = min (unat s + 65536) (unat a + unat len)"
    by (simp add: word_less_nat_alt)
  then show ?thesis using assms(3) by (subst unat_minus) (simp_all add: word_le_nat_alt)
qed

lemma sector_fours:
  fixes s a l :: nat
  assumes "65536 dvd s" "4 dvd a" "4 dvd l"
  shows "4 dvd max a s" "4 dvd min (s + 65536) (a + l)"
proof -
  have "4 dvd s" using assms(1) by (rule dvd_trans [rotated]) simp
  then show "4 dvd max a s" "4 dvd min (s + 65536) (a + l)" using assms(2,3) by (simp_all add: max_def min_def)
qed

lemma first_difference:
  "length bs \<le> length dp \<Longrightarrow> bs \<noteq> take (length bs) dp \<Longrightarrow>
    \<exists>j < length bs. bs ! j \<noteq> dp ! j \<and> (\<forall>k < j. bs ! k = dp ! k)"
proof (induction bs arbitrary: dp)
  case (Cons b bs)
  then obtain x ds where dp: "dp = x # ds" by (cases dp) auto
  show ?case
  proof (cases "b = x")
    case True
    then obtain j where "j < length bs" "bs ! j \<noteq> ds ! j" "\<forall>k < j. bs ! k = ds ! k"
      using Cons.IH [of ds] Cons.prems dp by auto
    then show ?thesis using True dp by (intro exI [of _ "Suc j"]) (auto simp: less_Suc_eq_0_disj)
  next
    case False
    then show ?thesis using dp by (intro exI [of _ 0]) simp
  qed
qed simp

lemma scan_range:
  assumes "unat b \<le> e" "e \<le> unat b + 65536" "unat b + 65536 \<le> 2 ^ 32" "0 < unat b" "4 dvd unat b"
    and "a \<le> unat b" "e \<le> a + length data"
  shows "\<exists>nv. scan_sector b 0 (map m [unat b..<e]) (drop (unat b - a) data) 0 =
      Inr (\<exists>i. unat b \<le> i \<and> i < e \<and> m i AND data ! (i - a) \<noteq> data ! (i - a), nv)
    \<and> ((\<exists>i. unat b \<le> i \<and> i < e \<and> m i AND data ! (i - a) \<noteq> data ! (i - a)) \<and> nv \<noteq> 0
      \<or> nv = 0 \<and> (\<forall>i. unat b \<le> i \<and> i < e \<longrightarrow> m i = data ! (i - a))
      \<or> nv \<noteq> 0 \<and> unat b \<le> unat nv \<and> unat nv \<le> e \<and> 4 dvd unat nv
        \<and> (\<forall>i. unat b \<le> i \<and> i < unat nv \<longrightarrow> m i = data ! (i - a)))"
proof -
  let ?bs = "map m [unat b..<e]" and ?dp = "drop (unat b - a) data"
  have len: "length ?bs = e - unat b" "length ?bs \<le> length ?dp" using assms(6,7) by simp_all
  have at: "?bs ! k = m (unat b + k)" "?dp ! k = data ! (unat b + k - a)" if "k < e - unat b" for k
  proof -
    have "unat b + k < e" using that by simp
    then show "?bs ! k = m (unat b + k)" by simp
    have "unat b - a \<le> length data" "unat b - a + k = unat b + k - a" using assms(1,6,7) by simp_all
    then show "?dp ! k = data ! (unat b + k - a)" by (metis nth_drop)
  qed
  have mark: "unat (mark b (of_nat k)) = unat b + k div 4 * 4" "mark b (of_nat k) \<noteq> 0" if "k < e - unat b" for k
  proof -
    show u: "unat (mark b (of_nat k)) = unat b + k div 4 * 4" using that assms(2,3) by (intro unat_mark) auto
    show "mark b (of_nat k) \<noteq> 0" using u assms(4) by (metis add_is_0 less_not_refl unsigned_0)
  qed
  show ?thesis
  proof (cases "\<exists>i. unat b \<le> i \<and> i < e \<and> m i AND data ! (i - a) \<noteq> data ! (i - a)")
    case True
    then obtain i where i: "unat b \<le> i" "i < e" "m i AND data ! (i - a) \<noteq> data ! (i - a)" by blast
    then have "?bs ! (i - unat b) AND ?dp ! (i - unat b) \<noteq> ?dp ! (i - unat b)" using at [of "i - unat b"] by simp
    then obtain j where "j < e - unat b" "scan_sector b 0 ?bs ?dp 0 = Inr (True, mark b (of_nat j))"
      using scan_erase [OF len(2), of "i - unat b" b 0 0] diff_less_mono [OF i(2,1)] unfolding len(1) add_0 by blast
    then show ?thesis using True mark(2) by auto
  next
    case False
    then have keep: "?bs ! k AND ?dp ! k = ?dp ! k" if "k < length ?bs" for k
    proof -
      have k: "k < e - unat b" using that len(1) by simp
      then have "unat b \<le> unat b + k" "unat b + k < e" by simp_all
      then have "m (unat b + k) AND data ! (unat b + k - a) = data ! (unat b + k - a)" using False by blast
      then show ?thesis by (simp only: at [OF k])
    qed
    have no: "(\<exists>i. unat b \<le> i \<and> i < e \<and> m i AND data ! (i - a) \<noteq> data ! (i - a)) = False" using False by simp
    show ?thesis
    proof (cases "?bs = take (length ?bs) ?dp")
      case True
      have "m i = data ! (i - a)" if "unat b \<le> i" "i < e" for i
      proof -
        have k: "i - unat b < e - unat b" using that by simp
        have "?bs ! (i - unat b) = take (length ?bs) ?dp ! (i - unat b)" using True by (rule arg_cong)
        also have "\<dots> = ?dp ! (i - unat b)" using k len(1) by (intro nth_take) simp
        finally show ?thesis using at [OF k] that(1) by simp
      qed
      then show ?thesis unfolding scan_equal [OF len(2) True] no by auto
    next
      case differs: False
      then obtain j where j: "j < length ?bs" "?bs ! j \<noteq> ?dp ! j" "\<And>k. k < j \<Longrightarrow> ?bs ! k = ?dp ! k"
        using first_difference [OF len(2)] by blast
      then have u: "unat (mark b (of_nat j)) = unat b + j div 4 * 4" "mark b (of_nat j) \<noteq> 0" using mark [of j] len(1) by simp_all
      have "scan_sector b 0 ?bs ?dp 0 = Inr (False, mark b (of_nat j))"
        using scan_differs [OF len(2) keep j] u(2) by simp
      moreover have "m i = data ! (i - a)" if "unat b \<le> i" "i < unat (mark b (of_nat j))" for i
      proof -
        have "j div 4 * 4 \<le> j" by simp
        then have ij: "i - unat b < j" using that u(1) by linarith
        then have k: "i - unat b < e - unat b" using j(1) len(1) by simp
        have "m (unat b + (i - unat b)) = data ! (unat b + (i - unat b) - a)" using j(3) [OF ij] unfolding at [OF k] .
        then show ?thesis using that(1) by simp
      qed
      moreover have "unat (mark b (of_nat j)) \<le> e"
      proof -
        have "j div 4 * 4 \<le> j" by simp
        then show ?thesis using j(1) len(1) unfolding u(1) by linarith
      qed
      ultimately show ?thesis using u assms(5) unfolding no by auto
    qed
  qed
qed

section \<open>Words and host bytes\<close>

lemma host_bytes_swapped:
  "host_bytes (map byteswap (map (\<lambda>k. mem_word m (a + 4 * k)) [0..<n])) = map m [a..<a + 4 * n]"
proof (induction n)
  case (Suc n)
  have "byte_at 0 (byteswap (mem_word m b)) = m b" "byte_at 1 (byteswap (mem_word m b)) = m (b + 1)"
    "byte_at 2 (byteswap (mem_word m b)) = m (b + 2)" "byte_at 3 (byteswap (mem_word m b)) = m (b + 3)" for b
    by (simp_all only: mem_word_def byteswap_word_of_bytes byte_at_word_of_bytes)
  moreover have "[b..<b + 4] = [b, b + 1, b + 2, b + 3]" for b by (simp add: upt_rec)
  then have "[a..<a + 4 * n + 4] = [a..<a + 4 * n] @ [a + 4 * n, a + 4 * n + 1, a + 4 * n + 2, a + 4 * n + 3]"
    by (simp only: upt_add_eq_append [OF le_add1])
  then have "[a..<a + 4 * Suc n] = [a..<a + 4 * n] @ [a + 4 * n, a + 4 * n + 1, a + 4 * n + 2, a + 4 * n + 3]"
    by (simp only: mult_Suc_right add.assoc add.commute [of 4])
  ultimately show ?case using Suc.IH by (simp add: host_bytes_def)
qed (simp add: host_bytes_def)

section \<open>Clipping at the end of a page\<close>

definition page_clip :: "u32 \<Rightarrow> u32 \<Rightarrow> u32" where
  "page_clip p ln = (if PAGEOF (p + ln - 1) \<noteq> PAGEOF p then PAGEOF (p + PGLENB) - p else ln)"

lemma unat_next_page: "unat p + 256 < 2 ^ 32 \<Longrightarrow> unat (PAGEOF (p + PGLENB)) = unat p div 256 * 256 + 256"
  by (simp add: unat_PAGEOF unat_plus PGLENB_def div_add_self2)

lemma page_end: "x - x mod 256 = x div 256 * 256" for x :: nat
  by (simp add: minus_mod_eq_div_mult)

lemma unat_page_clip:
  assumes "unat p < e" "e + 256 < 2 ^ 32" "unat ln = e - unat p"
  shows "unat (page_clip p ln) = min e (unat p div 256 * 256 + 256) - unat p"
proof -
  have s: "unat (p + ln) = e" using assms by (simp add: unat_plus)
  then have "1 \<le> p + ln" using assms(1) by (simp add: word_le_nat_alt)
  then have last: "unat (p + ln - 1) = e - 1" using s by (simp add: unat_minus)
  have same: "PAGEOF (p + ln - 1) = PAGEOF p \<longleftrightarrow> (e - 1) div 256 = unat p div 256"
    by (simp add: word_unat_eq_iff unat_PAGEOF last)
  show ?thesis
  proof (cases "(e - 1) div 256 = unat p div 256")
    case True
    then have "e \<le> unat p div 256 * 256 + 256" using dividend_less_div_times [of 256 "e - 1"] assms(1) by simp
    then show ?thesis using same True assms(3) by (simp add: page_clip_def)
  next
    case False
    moreover have "unat p div 256 \<le> (e - 1) div 256" using assms(1) by (intro div_le_mono) simp
    ultimately have "Suc (unat p div 256) \<le> (e - 1) div 256" by simp
    then have "Suc (unat p div 256) * 256 \<le> (e - 1) div 256 * 256" by (intro mult_le_mono1)
    also have "\<dots> \<le> e - 1" by simp
    finally have "unat p div 256 * 256 + 256 \<le> e" by simp
    moreover have nxt: "unat (PAGEOF (p + PGLENB)) = unat p div 256 * 256 + 256"
      using assms(1,2) by (intro unat_next_page) simp
    moreover have "p \<le> PAGEOF (p + PGLENB)"
      unfolding word_le_nat_alt nxt by (rule less_imp_le) (use dividend_less_div_times [of 256 "unat p"] in simp)
    ultimately show ?thesis using same False by (simp add: page_clip_def unat_minus)
  qed
qed

text \<open>
  The inner length of \<open>write_pages\<close> is computed from the variable's own indeterminate value.  It comes
  out right for a range when, at every place a page may start, the clip to the page leaves the length
  that the length of the whole range gives.
\<close>

definition inner_length_fits :: "u32 \<Rightarrow> u32 \<Rightarrow> (u32 \<Rightarrow> u32) \<Rightarrow> bool" where
  "inner_length_fits a len stale \<longleftrightarrow>
     (\<forall>p. a \<le> p \<and> p < a + len \<longrightarrow> page_clip p (a + stale p - p) = page_clip p (a + len - p))"

lemma inner_length_fits_len [simp]: "inner_length_fits a len (\<lambda>_. len)"
  by (simp add: inner_length_fits_def)

text \<open>\<open>hi\<close> is the end of the part of the flash that may be used.\<close>

locale flash_board =
  fixes B :: "'d devbus" and phase :: "flash_phase_of \<Rightarrow> 'd \<Rightarrow> bool"
    and mem :: "'d \<Rightarrow> nat \<Rightarrow> u8" and left :: "'d \<Rightarrow> nat" and hi :: nat
  assumes hi: "hi \<le> 0x0a000000" "65536 dvd hi"
    and offline: "phase Offline d \<or> phase Online d \<Longrightarrow>
      \<exists>d'. take_offline B d = Inr d' \<and> phase Offline d' \<and> mem d' = mem d"
    and online: "phase Offline d \<Longrightarrow> \<exists>d'. restore_quadio B m_id d = Inr d' \<and> phase Online d' \<and> mem d' = mem d"
    and erase: "phase Offline d \<Longrightarrow> flash_lo \<le> unat a \<Longrightarrow> unat a < hi \<Longrightarrow>
      \<exists>d'. cfg_writes B ([F_END, F_WREN, F_END] @ [F_SE] @ cfg_addr (a AND 0x0ffffff) @ [F_END]) d = Inr d'
        \<and> phase Busy d' \<and> mem d' = erased (unat a) (mem d)"
    and program: "phase Offline d \<Longrightarrow> flash_lo \<le> unat a \<Longrightarrow> unat a < hi \<Longrightarrow> page_fits (unat a) (length bs) \<Longrightarrow>
      \<exists>d'. cfg_writes B ([F_END, F_WREN, F_END] @ [F_PP] @ cfg_addr (a AND 0x0ffffff) @
             map (\<lambda>b. CFG_USERMODE OR CFG_WEDIR OR ucast b) bs @ [F_END]) d = Inr d'
        \<and> phase Busy d' \<and> mem d' = programmed (unat a) bs (mem d)"
    and status: "phase Busy d \<Longrightarrow> \<exists>d'. cfg_writes B [F_END, F_RDSR1] d = Inr d' \<and> phase Polling d' \<and> mem d' = mem d"
    and poll: "phase Polling d \<Longrightarrow>
      \<exists>d1 d' sr. bus_writeio B R_FLASHCFG F_EMPTY d = Inr d1 \<and> bus_readio B R_FLASHCFG d1 = Inr (d', sr)
        \<and> mem d' = mem d \<and> (if sr AND 1 \<noteq> 0 then phase Polling d' \<and> left d' < left d else phase Polled d')"
    and finish: "phase Polled d \<Longrightarrow> \<exists>d'. cfg_writes B [F_END] d = Inr d' \<and> phase Offline d' \<and> mem d' = mem d"
    and disable: "phase Offline d \<Longrightarrow> \<exists>d'. cfg_writes B [F_WRDI, F_END] d = Inr d' \<and> phase Offline d' \<and> mem d' = mem d"
    and read: "phase Online d \<Longrightarrow> flash_lo \<le> unat a \<Longrightarrow> unat a + 4 * n \<le> hi \<Longrightarrow> 4 dvd unat a \<Longrightarrow>
      \<exists>d'. bus_readi B a n d = Inr (d', map (\<lambda>k. mem_word (mem d) (unat a + 4 * k)) [0..<n])
        \<and> phase Online d' \<and> mem d' = mem d"
begin

text \<open>Polling ends, and leaves the memory alone.\<close>

lemma flwait_loop_returns:
  assumes "phase Polling d"
  shows "\<exists>d'. flwait_loop B d = Some (Inr d') \<and> phase Polled d' \<and> mem d' = mem d"
  using assms
proof (induction "left d" arbitrary: d rule: less_induct)
  case less
  obtain d1 d' sr where p: "bus_writeio B R_FLASHCFG F_EMPTY d = Inr d1" "bus_readio B R_FLASHCFG d1 = Inr (d', sr)"
    "mem d' = mem d" "if sr AND 1 \<noteq> 0 then phase Polling d' \<and> left d' < left d else phase Polled d'"
    using poll [OF less.prems] by blast
  have step: "flwait_loop B d = (if sr AND 1 \<noteq> 0 then flwait_loop B d' else Some (Inr d'))"
    using p(1,2) by (subst flwait_loop.simps) simp
  show ?case
  proof (cases "sr AND 1 \<noteq> 0")
    case True
    then show ?thesis using less.hyps [of d'] p(3,4) step by auto
  next
    case False
    then show ?thesis using p(3,4) step by simp
  qed
qed

lemma flwait_returns:
  assumes "phase Busy d"
  shows "\<exists>d'. flwait B d = Some (Inr d') \<and> phase Offline d' \<and> mem d' = mem d"
proof -
  obtain d1 where 1: "cfg_writes B [F_END, F_RDSR1] d = Inr d1" "phase Polling d1" "mem d1 = mem d"
    using status [OF assms] by blast
  obtain d2 where 2: "flwait_loop B d1 = Some (Inr d2)" "phase Polled d2" "mem d2 = mem d1"
    using flwait_loop_returns [OF 1(2)] by blast
  obtain d3 where 3: "cfg_writes B [F_END] d2 = Inr d3" "phase Offline d3" "mem d3 = mem d2"
    using finish [OF 2(2)] by blast
  have "flwait B d = Some (Inr d3)" unfolding flwait_def 1(1) obind_simps 2(1) 3(1) ..
  then show ?thesis using 1(3) 2(3) 3(2,3) by simp
qed

section \<open>Erasing\<close>

lemma verify_pages_erased:
  assumes "phase Online d" "flash_lo \<le> unat a" "unat a + 256 * n \<le> hi" "4 dvd unat a"
    and "\<And>i. unat a \<le> i \<Longrightarrow> i < unat a + 256 * n \<Longrightarrow> mem d i = 0xff"
  shows "\<exists>d'. verify_pages B a n d = Inr (d', True) \<and> phase Online d' \<and> mem d' = mem d"
  using assms
proof (induction n arbitrary: a d)
  case (Suc n)
  obtain d1 where 1: "bus_readi B a 64 d = Inr (d1, map (\<lambda>k. mem_word (mem d) (unat a + 4 * k)) [0..<64])"
    "phase Online d1" "mem d1 = mem d" using read [of d a 64] Suc.prems by auto
  have "mem_word (mem d) (unat a + 4 * k) = 0xffffffff" if "k < 64" for k
    using that Suc.prems(5) by (simp add: mem_word_def word_of_bytes_def)
  then have page: "list_all (\<lambda>w. w = 0xffffffff) (map (\<lambda>k. mem_word (mem d) (unat a + 4 * k)) [0..<64])"
    by (simp add: list_all_iff)
  have a: "unat (a + SZPAGEB) = unat a + 256"
    using Suc.prems(3) hi(1) by (simp add: unat_plus SZPAGEB_def)
  have "4 dvd unat a + 256" using Suc.prems(4) by presburger
  then obtain d2 where 2: "verify_pages B (a + SZPAGEB) n d1 = Inr (d2, True)" "phase Online d2" "mem d2 = mem d1"
    using Suc.IH [OF 1(2), of "a + SZPAGEB"] Suc.prems(2,3,5) unfolding a 1(3) by auto
  have "verify_pages B a (Suc n) d = Inr (d2, True)"
    using 1(1) page 2(1) by (simp only: verify_pages.simps SZPAGEW_def rbind_simps prod.case if_True)
  then show ?case using 1(3) 2(2,3) by simp
qed simp

lemma flash_part: "flash_lo \<le> unat a \<Longrightarrow> unat a < 0x0a000000 \<Longrightarrow> R_FLASH + (a AND 0x0ffffff) = a" for a :: u32
proof -
  assume a: "flash_lo \<le> unat a" "unat a < 0x0a000000"
  have "a AND 0x0ffffff = take_bit 24 a" by (simp add: take_bit_eq_mask mask_eq_exp_minus_1)
  then have "unat (a AND 0x0ffffff) = unat a mod 2 ^ 24"
    by (simp only: unsigned_take_bit_eq) (simp only: take_bit_eq_mod)
  moreover have "unat a mod 2 ^ 24 = unat a - flash_lo" using a by (simp add: mod_if le_mod_geq)
  ultimately have "unat (a AND 0x0ffffff) = unat a - flash_lo" by simp
  then show "R_FLASH + (a AND 0x0ffffff) = a"
    using a by (simp add: word_unat_eq_iff unat_plus R_FLASH_def)
qed

lemma erase_sector_erases:
  assumes "phase Offline d \<or> phase Online d" "flash_lo \<le> unat s" "unat s + 65536 \<le> hi" "65536 dvd unat s"
  shows "\<exists>d'. erase_sector B m_id s verify d = Some (Inr (d', True)) \<and> phase Online d' \<and> mem d' = erased (unat s) (mem d)"
proof -
  obtain d1 where 1: "take_offline B d = Inr d1" "phase Offline d1" "mem d1 = mem d"
    using offline [OF assms(1)] by blast
  obtain d2 where 2: "cfg_writes B ([F_END, F_WREN, F_END] @ [F_SE] @ cfg_addr (s AND 0x0ffffff) @ [F_END]) d1 = Inr d2"
    "phase Busy d2" "mem d2 = erased (unat s) (mem d1)"
    using erase [OF 1(2) assms(2)] assms(3) by (meson add_le_cancel_left le_less_trans less_add_same_cancel1 less_le_trans zero_less_numeral)
  obtain d3 where 3: "flwait B d2 = Some (Inr d3)" "phase Offline d3" "mem d3 = mem d2" using flwait_returns [OF 2(2)] by blast
  obtain d4 where 4: "place_online B m_id d3 = Inr d4" "phase Online d4" "mem d4 = mem d3"
    using online [OF 3(2)] unfolding place_online_def by blast
  have m: "mem d4 = erased (unat s) (mem d)" using 1(3) 2(3) 3(3) 4(3) by simp
  have "4 dvd unat s" using assms(4) by (rule dvd_trans [rotated]) simp
  moreover have "mem d4 i = 0xff" if "unat s \<le> i" "i < unat s + 256 * 256" for i
  proof -
    obtain q where "unat s = 65536 * q" using assms(4) by (auto simp: dvd_def)
    then have "i div 65536 = unat s div 65536" using that by auto
    then show ?thesis by (simp add: m erased_def)
  qed
  ultimately obtain d5 where 5: "verify_pages B s 256 d4 = Inr (d5, True)" "phase Online d5" "mem d5 = mem d4"
    using verify_pages_erased [OF 4(2) assms(2), of 256] assms(3) by auto
  have s: "R_FLASH + (s AND 0x0ffffff) = s" using assms(2,3) hi(1) by (intro flash_part) auto
  have "erase_sector B m_id s verify d = Some (Inr (if verify then d5 else d4, True))"
    unfolding erase_sector_def Let_def 1(1) obind_simps 2(1) 3(1) 4(1) s NPAGES_def 5(1) by simp
  then show ?thesis using 4(2) 5(2,3) m by auto
qed

section \<open>Programming\<close>

lemma page_program_stores:
  assumes "phase Offline d \<or> phase Online d" "flash_lo \<le> unat a" "unat a + unat len \<le> hi"
    and "page_fits (unat a) (unat len)" "4 dvd unat a" "4 dvd unat len" "unat len \<le> length data"
    and "\<And>i. i < unat len \<Longrightarrow> mem d (unat a + i) AND data ! i = data ! i"
  shows "\<exists>d'. page_program B m_id a len data verify d = Some (Inr (d', True)) \<and> phase Online d'
    \<and> mem d' = stored (unat a) (take (unat len) data) (mem d)"
proof -
  let ?bs = "take (unat len) data" and ?n = "unat len div 4" and ?flash = "a AND 0x0ffffff"
  let ?ws = "map (\<lambda>k. mem_word ((!) data) (4 * k)) [0..<?n]"
  obtain d1 where 1: "take_offline B d = Inr d1" "phase Offline d1" "mem d1 = mem d"
    using offline [OF assms(1)] by blast
  have len: "4 * ?n = unat len" "(unat len + 3) div 4 = ?n" using assms(6) by auto
  have words: "c_assert (0 < len) (c_assert (len \<le> PGLENB)
      (c_assert (PAGEOF a = PAGEOF (a + len - 1)) (page_words data ((unat len + 3) div 4)))) = Inr ?ws"
    using page_words_eq [of ?n data] page_asserts [OF assms(4)] assms(3,7) hi(1) unfolding len by simp
  have shift: "unat (drop_bit 2 len) = ?n" by (simp add: unat_drop32)
  show ?thesis
  proof (cases "list_all (\<lambda>v. v = 0xffffffff) ?ws")
    case True
    obtain d2 where 2: "place_online B m_id d1 = Inr d2" "phase Online d2" "mem d2 = mem d1"
      using online [OF 1(2)] unfolding place_online_def by blast
    have "data ! i = 0xff" if "i < unat len" for i
      using blank_words [OF True, of i] that len(1) by simp
    then have "stored (unat a) ?bs (mem d) = mem d" using assms(7,8) by (intro stored_blank) auto
    moreover have "page_program B m_id a len data verify d = Some (Inr (d2, True))"
      unfolding page_program_def Let_def 1(1) obind_simps words 2(1) by (simp only: True if_True)
    ultimately show ?thesis using 1(3) 2(2,3) by auto
  next
    case False
    have "page_fits (unat a) (length ?bs)" "unat a < hi" using assms(3,4,7) by (auto simp: page_fits_def)
    then obtain d2 where 2: "cfg_writes B ([F_END, F_WREN, F_END] @ [F_PP] @ cfg_addr ?flash @
        map (\<lambda>b. CFG_USERMODE OR CFG_WEDIR OR ucast b) ?bs @ [F_END]) d1 = Inr d2"
      "phase Busy d2" "mem d2 = programmed (unat a) ?bs (mem d1)"
      using program [OF 1(2) assms(2)] by blast
    obtain d3 where 3: "flwait B d2 = Some (Inr d3)" "phase Offline d3" "mem d3 = mem d2"
      using flwait_returns [OF 2(2)] by blast
    obtain d4 where 4: "place_online B m_id d3 = Inr d4" "phase Online d4" "mem d4 = mem d3"
      using online [OF 3(2)] unfolding place_online_def by blast
    have m: "mem d4 = stored (unat a) ?bs (mem d)"
      unfolding 4(3) 3(3) 2(3) 1(3) using assms(7,8) by (intro programmed_stored) simp
    obtain d5 where 5: "bus_readi B a ?n d4 = Inr (d5, map (\<lambda>k. mem_word (mem d4) (unat a + 4 * k)) [0..<?n])"
      "phase Online d5" "mem d5 = mem d4"
      using read [OF 4(2) assms(2) _ assms(5), of ?n] assms(3) len(1) by auto
    have "mem_word (mem d4) (unat a + 4 * k) = mem_word ((!) data) (4 * k)" if "k < ?n" for k
    proof -
      have "mem d4 (unat a + j) = data ! j" if "j < unat len" for j
        using that assms(7) by (simp add: m stored_def)
      then show ?thesis using that len(1) by (intro mem_word_cong) (simp add: add.assoc)
    qed
    then have same: "map (\<lambda>k. mem_word (mem d4) (unat a + 4 * k)) [0..<?n] = take ?n ?ws" by simp
    have "page_program B m_id a len data verify d = Some (Inr (if verify then d5 else d4, True))"
      unfolding page_program_def Let_def 1(1) obind_simps words 2(1) 3(1) 4(1) shift 5(1) prod.case same
      by (simp only: False if_False) simp
    then show ?thesis using 4(2) 5(2,3) m by auto
  qed
qed

section \<open>The pages of a sector\<close>

text \<open>One turn of the loop: the part of the range in the page of \<open>p\<close>.\<close>

lemma write_page_stores:
  assumes "phase Online d" "flash_lo \<le> unat s" "65536 dvd unat s" "unat s + 65536 \<le> hi"
    and "flash_lo \<le> unat a" "unat a + unat len \<le> hi" "4 dvd unat a" "4 dvd unat len" "length data = unat len"
    and "unat s \<le> unat p" "unat a \<le> unat p" "4 dvd unat p" "unat p < min (unat s + 65536) (unat a + unat len)"
    and keep: "\<forall>i. unat p \<le> i \<and> i < min (unat s + 65536) (unat a + unat len) \<longrightarrow>
      mem d i AND data ! (i - unat a) = data ! (i - unat a)"
  defines "N \<equiv> unat p div 256 * 256 + 256"
  shows "unat (PAGEOF (p + PGLENB)) = N" "unat p < N" "N \<le> unat s + 65536"
    and "\<exists>d1. page_program B m_id p (page_clip p (a + len - p)) (drop (unat (p - a)) data) verify d = Some (Inr (d1, True))
      \<and> phase Online d1
      \<and> mem d1 = (\<lambda>i. if unat p \<le> i \<and> i < min (unat a + unat len) N then data ! (i - unat a) else mem d i)"
proof -
  let ?E = "min (unat s + 65536) (unat a + unat len)"
  have se: "unat (a + len) = unat a + unat len" using assms(6) hi(1) by (simp add: unat_plus)
  show N: "unat (PAGEOF (p + PGLENB)) = N" using assms(4,6,13) hi(1) unfolding N_def by (intro unat_next_page) simp
  show pN: "unat p < N" unfolding N_def using dividend_less_div_times [of 256 "unat p"] by simp
  show Ns: "N \<le> unat s + 65536"
  proof -
    obtain q where "unat s = 65536 * q" using assms(3) by (auto simp: dvd_def)
    moreover from this have "unat p div 256 < 256 * q + 256" using assms(13) by (simp add: less_mult_imp_div_less)
    ultimately show ?thesis by (simp add: N_def)
  qed
  define ln where "ln = page_clip p (a + len - p)"
  have "unat (a + len - p) = unat a + unat len - unat p" using assms(13) se by (simp add: unat_minus word_le_nat_alt)
  then have ln: "unat ln = min (unat a + unat len) N - unat p"
    using assms(6,13) hi(1) unfolding ln_def N_def by (intro unat_page_clip) auto
  let ?data = "drop (unat (p - a)) data"
  have off: "unat (p - a) = unat p - unat a" using assms(11) by (simp add: unat_minus word_le_nat_alt)
  have fits: "page_fits (unat p) (unat ln)"
  proof -
    have "N + unat p mod 256 = unat p + 256" by (simp add: N_def)
    moreover have "0 < unat ln" "unat ln \<le> N - unat p" using assms(13) pN by (simp_all add: ln)
    ultimately show ?thesis using pN by (simp add: page_fits_def)
  qed
  have four: "4 dvd unat ln" unfolding ln using assms(7,8,12) by (auto simp: N_def min_def)
  have fin: "unat p + unat ln = min (unat a + unat len) N" using ln assms(13) pN by simp
  obtain d1 where 1: "page_program B m_id p ln ?data verify d = Some (Inr (d1, True))" "phase Online d1"
    "mem d1 = stored (unat p) (take (unat ln) ?data) (mem d)"
  proof -
    have "mem d (unat p + i) AND ?data ! i = ?data ! i" if "i < unat ln" for i
    proof -
      have "unat p + i < unat p + unat ln" using that by simp
      then have "unat p + i < min (unat a + unat len) N" by (simp only: fin)
      then have "unat p + i < ?E" using Ns by simp
      moreover have "?data ! i = data ! (unat p - unat a + i)"
      proof -
        have "unat p - unat a \<le> length data" using assms(9,13) by (simp add: le_diff_conv)
        then show ?thesis unfolding off by (rule nth_drop)
      qed
      moreover have "unat p - unat a + i = unat p + i - unat a" using assms(11) by simp
      ultimately show ?thesis using keep [rule_format, of "unat p + i", OF conjI, OF le_add1] by (simp only:)
    qed
    moreover have "unat ln \<le> length ?data" using fin assms(9,11,13) by (simp add: off)
    moreover have "flash_lo \<le> unat p" "unat p + unat ln \<le> hi" using assms(2,5,6,10,11) fin by auto
    ultimately show thesis
      using page_program_stores [of d p ln ?data m_id verify] assms(1,12) fits four that by blast
  qed
  have m1: "mem d1 = (\<lambda>i. if unat p \<le> i \<and> i < min (unat a + unat len) N then data ! (i - unat a) else mem d i)"
    using fin assms(9,11,13) by (auto simp: 1(3) stored_def off fun_eq_iff)
  then show "\<exists>d1. page_program B m_id p (page_clip p (a + len - p)) (drop (unat (p - a)) data) verify d = Some (Inr (d1, True))
      \<and> phase Online d1
      \<and> mem d1 = (\<lambda>i. if unat p \<le> i \<and> i < min (unat a + unat len) N then data ! (i - unat a) else mem d i)"
    using 1(1,2) unfolding ln_def by blast
qed

lemma write_pages_stores:
  assumes "phase Online d" "flash_lo \<le> unat s" "65536 dvd unat s" "unat s + 65536 \<le> hi"
    and "flash_lo \<le> unat a" "unat a + unat len \<le> hi" "4 dvd unat a" "4 dvd unat len" "length data = unat len"
    and "inner_length_fits a len stale" "unat s \<le> unat p" "unat a \<le> unat p" "4 dvd unat p"
    and "\<And>i. unat p \<le> i \<Longrightarrow> i < min (unat s + 65536) (unat a + unat len) \<Longrightarrow>
      mem d i AND data ! (i - unat a) = data ! (i - unat a)"
  shows "\<exists>d'. write_pages B stale m_id a len data verify s p d = Some (Inr (d', True)) \<and> phase Online d'
    \<and> mem d' = (\<lambda>i. if unat p \<le> i \<and> i < min (unat s + 65536) (unat a + unat len) then data ! (i - unat a) else mem d i)"
  using assms(1,11-14)
proof (induction "min (unat s + 65536) (unat a + unat len) - unat p" arbitrary: p d rule: less_induct)
  case less
  let ?E = "min (unat s + 65536) (unat a + unat len)"
  have se: "unat (s + SECTORSZB) = unat s + 65536" "unat (a + len) = unat a + unat len"
    using assms(4,6) hi(1) by (simp_all add: unat_plus SECTORSZB_eq)
  have loop: "p < s + SECTORSZB \<and> p < a + len \<longleftrightarrow> unat p < ?E" by (simp add: word_less_nat_alt se)
  show ?case
  proof (cases "unat p < ?E")
    case False
    then have "write_pages B stale m_id a len data verify s p d = Some (Inr (d, True))"
      using loop by (subst write_pages.simps) (simp only: if_False)
    moreover have "mem d = (\<lambda>i. if unat p \<le> i \<and> i < ?E then data ! (i - unat a) else mem d i)"
      using False by (auto simp: fun_eq_iff)
    ultimately show ?thesis using less.prems(1) by auto
  next
    case True
    define N where "N = unat p div 256 * 256 + 256"
    have keep: "\<forall>i. unat p \<le> i \<and> i < ?E \<longrightarrow> mem d i AND data ! (i - unat a) = data ! (i - unat a)"
      using less.prems(5) by blast
    note page = write_page_stores [OF less.prems(1) assms(2-9) less.prems(2-4) True keep]
    have N: "unat (PAGEOF (p + PGLENB)) = N" and pN: "unat p < N" and Ns: "N \<le> unat s + 65536"
      unfolding N_def by (fact page)+
    obtain d1 where 1: "page_program B m_id p (page_clip p (a + len - p)) (drop (unat (p - a)) data) verify d = Some (Inr (d1, True))"
      "phase Online d1"
      and m1: "mem d1 = (\<lambda>i. if unat p \<le> i \<and> i < min (unat a + unat len) N then data ! (i - unat a) else mem d i)"
      using page(4) [of m_id verify] unfolding N_def by blast
    obtain d2 where 2: "write_pages B stale m_id a len data verify s (PAGEOF (p + PGLENB)) d1 = Some (Inr (d2, True))"
      "phase Online d2" "mem d2 = (\<lambda>i. if N \<le> i \<and> i < ?E then data ! (i - unat a) else mem d1 i)"
    proof -
      have "mem d1 i AND data ! (i - unat a) = data ! (i - unat a)" if "N \<le> i" "i < ?E" for i
        using that less.prems(5) [of i] pN by (simp add: m1)
      moreover have "unat s \<le> N" "unat a \<le> N" "4 dvd N" using pN less.prems(2,3) by (simp_all add: N_def)
      moreover have "?E - N < ?E - unat p" using pN True by (rule diff_less_mono2)
      ultimately show thesis
        using less.hyps [of "PAGEOF (p + PGLENB)" d1] 1(2) that unfolding N by blast
    qed
    have "write_pages B stale m_id a len data verify s p d = Some (Inr (d2, True))"
    proof -
      have "page_clip p (a + stale p - p) = page_clip p (a + len - p)"
        using assms(10) True loop less.prems(3) unfolding inner_length_fits_def by (simp add: word_le_nat_alt)
      then have clip: "(let start = p; ln = a + stale p - start
          in if PAGEOF (start + ln - 1) \<noteq> PAGEOF start then PAGEOF (start + PGLENB) - start else ln) = page_clip p (a + len - p)"
        by (simp add: page_clip_def Let_def)
      show ?thesis
        using True loop 1(1) 2(1) clip [unfolded Let_def] by (subst write_pages.simps) (simp add: Let_def)
    qed
    moreover have "mem d2 = (\<lambda>i. if unat p \<le> i \<and> i < ?E then data ! (i - unat a) else mem d i)"
      using pN Ns by (auto simp: 2(3) m1 fun_eq_iff)
    ultimately show ?thesis using 2(2) by blast
  qed
qed

section \<open>A sector\<close>

lemma read_sector_reads:
  assumes "phase Online d" "flash_lo \<le> unat b" "unat b + unat ln \<le> hi" "4 dvd unat b" "4 dvd unat ln"
  shows "\<exists>d'. read_sector B junk b ln d = Inr (d', map (mem d) [unat b..<unat b + unat ln] @ drop (unat ln) junk)
    \<and> phase Online d' \<and> mem d' = mem d"
proof -
  have n: "unat (drop_bit 2 ln) = unat ln div 4" "4 * (unat ln div 4) = unat ln" using assms(5) by (simp_all add: unat_drop32)
  obtain d' where "bus_readi B b (unat ln div 4) d = Inr (d', map (\<lambda>k. mem_word (mem d) (unat b + 4 * k)) [0..<unat ln div 4])"
    "phase Online d'" "mem d' = mem d" using read [OF assms(1,2) _ assms(4), of "unat ln div 4"] assms(3) n(2) by auto
  moreover have "byteswapbuf (int (length ws)) ws = Inr (map byteswap ws)" for ws
    by (simp add: byteswapbuf_def byteswapbuf_from_eq)
  from this [of "map (\<lambda>k. mem_word (mem d) (unat b + 4 * k)) [0..<unat ln div 4]"]
  have "byteswapbuf (int (unat ln div 4)) (map (\<lambda>k. mem_word (mem d) (unat b + 4 * k)) [0..<unat ln div 4]) =
    Inr (map byteswap (map (\<lambda>k. mem_word (mem d) (unat b + 4 * k)) [0..<unat ln div 4]))" by (simp only: length_map length_upt diff_zero)
  ultimately show ?thesis
    by (simp only: read_sector_def Let_def n rbind_simps prod.case host_bytes_swapped) simp
qed

text \<open>The part of a sector that the range covers, and what reading and scanning it finds.\<close>

lemma sector_range:
  assumes "65536 dvd unat s" "unat s + 65536 \<le> hi" "unat a + unat len \<le> hi" "4 dvd unat a" "4 dvd unat len"
    and "unat s < unat a + unat len" "unat a < unat s + 65536"
  defines "base \<equiv> if s < a then a else s"
  defines "ln \<equiv> (if s + SECTORSZB < a + len then s + SECTORSZB else a + len) - base"
  shows "unat base = max (unat a) (unat s)" "unat base + unat ln = min (unat s + 65536) (unat a + unat len)"
    and "4 dvd unat base" "4 dvd unat ln"
proof -
  show base: "unat base = max (unat a) (unat s)" by (auto simp: base_def word_less_nat_alt max_def)
  have bE: "unat base \<le> min (unat s + 65536) (unat a + unat len)" using assms(6,7) by (auto simp: base)
  show e: "unat base + unat ln = min (unat s + 65536) (unat a + unat len)"
    using sector_clip [of s a len base] assms(2,3) hi(1) bE unfolding ln_def by simp
  show "4 dvd unat base" "4 dvd unat ln"
    using sector_fours [OF assms(1,4,5)] e base by (metis dvd_add_right_iff max_def)+
qed

lemma sector_scanned:
  assumes "phase Online d" "flash_lo \<le> unat s" "65536 dvd unat s" "unat s + 65536 \<le> hi"
    and "flash_lo \<le> unat a" "unat a + unat len \<le> hi" "length data = unat len"
    and "unat s < unat a + unat len" "unat a < unat s + 65536"
    and base: "unat base = max (unat a) (unat s)" and e: "unat base + unat ln = min (unat s + 65536) (unat a + unat len)"
    and four: "4 dvd unat base" "4 dvd unat ln"
  shows "\<exists>d1 buf nv. read_sector B junk base ln d = Inr (d1, buf) \<and> phase Online d1 \<and> mem d1 = mem d
    \<and> scan_sector base 0 (take (unat ln) buf) (drop (unat (base - a)) data) 0 = Inr (must_erase (unat a) data (mem d) (unat s div 65536), nv)
    \<and> (must_erase (unat a) data (mem d) (unat s div 65536) \<and> nv \<noteq> 0
      \<or> nv = 0 \<and> (\<forall>i. unat base \<le> i \<and> i < min (unat s + 65536) (unat a + unat len) \<longrightarrow> mem d i = data ! (i - unat a))
      \<or> nv \<noteq> 0 \<and> unat base \<le> unat nv \<and> unat nv \<le> min (unat s + 65536) (unat a + unat len) \<and> 4 dvd unat nv
        \<and> (\<forall>i. unat base \<le> i \<and> i < unat nv \<longrightarrow> mem d i = data ! (i - unat a)))"
proof -
  let ?E = "min (unat s + 65536) (unat a + unat len)" and ?m = "mem d"
  have bE: "unat base \<le> ?E" using assms(8,9) by (auto simp: base)
  obtain d1 where 1: "read_sector B junk base ln d = Inr (d1, map ?m [unat base..<?E] @ drop (unat ln) junk)"
    "phase Online d1" "mem d1 = ?m"
  proof -
    have "flash_lo \<le> unat base" "unat base + unat ln \<le> hi" using assms(2,4) unfolding e by (simp_all add: base)
    then show thesis using read_sector_reads [OF assms(1) _ _ four, of junk] that unfolding e by blast
  qed
  have sbuf: "take (unat ln) (map ?m [unat base..<?E] @ drop (unat ln) junk) = map ?m [unat base..<?E]"
    using e by (simp flip: e)
  have off: "unat (base - a) = unat base - unat a" using base by (simp add: unat_minus word_le_nat_alt)
  have range: "(\<exists>i. unat base \<le> i \<and> i < ?E \<and> ?m i AND data ! (i - unat a) \<noteq> data ! (i - unat a)) \<longleftrightarrow>
      must_erase (unat a) data ?m (unat s div 65536)"
    using must_erase_range [OF assms(3), of "unat a" data ?m] by (simp only: base assms(7))
  have "?E \<le> unat base + 65536" "unat base + 65536 \<le> 2 ^ 32" "0 < unat base" "unat a \<le> unat base" "?E \<le> unat a + length data"
    using base assms(2,4,6,7) hi(1) by auto
  from scan_range [OF bE this(1-3) four(1) this(4,5), of ?m] obtain nv where
    scan: "scan_sector base 0 (map ?m [unat base..<?E]) (drop (unat base - unat a) data) 0 =
      Inr (must_erase (unat a) data ?m (unat s div 65536), nv)"
    and nv: "must_erase (unat a) data ?m (unat s div 65536) \<and> nv \<noteq> 0
      \<or> nv = 0 \<and> (\<forall>i. unat base \<le> i \<and> i < ?E \<longrightarrow> ?m i = data ! (i - unat a))
      \<or> nv \<noteq> 0 \<and> unat base \<le> unat nv \<and> unat nv \<le> ?E \<and> 4 dvd unat nv
        \<and> (\<forall>i. unat base \<le> i \<and> i < unat nv \<longrightarrow> ?m i = data ! (i - unat a))"
    unfolding range by blast
  show ?thesis
    by (intro exI conjI, rule 1(1), rule 1(2), rule 1(3), unfold sbuf off, rule scan, rule nv)
qed

lemma write_sector_writes:
  assumes "phase Online d" "flash_lo \<le> unat s" "65536 dvd unat s" "unat s + 65536 \<le> hi"
    and "flash_lo \<le> unat a" "unat a + unat len \<le> hi" "4 dvd unat a" "4 dvd unat len" "length data = unat len"
    and "unat s < unat a + unat len" "unat a < unat s + 65536" "inner_length_fits a len stale"
  shows "\<exists>d'. write_sector B junk stale m_id a len data verify s d = Some (Inr (d', True)) \<and> phase Online d'
    \<and> mem d' = (\<lambda>i. if i div 65536 = unat s div 65536 then written (unat a) data (mem d) i else mem d i)"
proof -
  define base where "base = (if s < a then a else s)"
  define ln where "ln = (if s + SECTORSZB < a + len then s + SECTORSZB else a + len) - base"
  let ?E = "min (unat s + 65536) (unat a + unat len)" and ?m = "mem d" and ?erase = "must_erase (unat a) data (mem d) (unat s div 65536)"
  let ?result = "\<lambda>i. if i div 65536 = unat s div 65536 then written (unat a) data ?m i else ?m i"
  note range = sector_range [OF assms(3,4,6-8,10,11), folded base_def, folded ln_def]
  note base = range(1) and four = range(3)
  obtain d1 buf nv where 1: "read_sector B (junk s) base ln d = Inr (d1, buf)" "phase Online d1" "mem d1 = ?m"
    and scan: "scan_sector base 0 (take (unat ln) buf) (drop (unat (base - a)) data) 0 = Inr (?erase, nv)"
    and nv: "?erase \<and> nv \<noteq> 0 \<or> nv = 0 \<and> (\<forall>i. unat base \<le> i \<and> i < ?E \<longrightarrow> ?m i = data ! (i - unat a))
      \<or> nv \<noteq> 0 \<and> unat base \<le> unat nv \<and> unat nv \<le> ?E \<and> 4 dvd unat nv
        \<and> (\<forall>i. unat base \<le> i \<and> i < unat nv \<longrightarrow> ?m i = data ! (i - unat a))"
    using sector_scanned [OF assms(1-6,9-11) range, of "junk s"] by blast
  note write_unfold = write_sector_def Let_def base_def [symmetric] ln_def [symmetric] 1(1) obind_simps prod.case scan
  note inq = sector_iff [OF assms(3)]
  note written = written_sector [OF assms(3), of _ "unat a" data ?m, unfolded assms(9), folded base]
  note pages = write_pages_stores [OF _ assms(2-9,12)]
  have keep: "?erase \<or> ?m i AND data ! (i - unat a) = data ! (i - unat a)" if "unat base \<le> i" "i < ?E" for i
    using must_erase_range [OF assms(3), of "unat a" data ?m] that unfolding base assms(9) by blast
  consider (erase) "?erase" "nv \<noteq> 0" | (same) "\<not> ?erase" "nv = 0" | (first) "\<not> ?erase" "nv \<noteq> 0"
  proof -
    have "nv \<noteq> 0" if "?erase" using nv that must_erase_range [OF assms(3), of "unat a" data ?m] unfolding base assms(9) by auto
    then show thesis using that by blast
  qed
  then show ?thesis
  proof cases
    case erase
    obtain d2 where 2: "erase_sector B m_id s verify d1 = Some (Inr (d2, True))" "phase Online d2" "mem d2 = erased (unat s) ?m"
      using erase_sector_erases [OF _ assms(2,4,3), of d1 m_id verify] 1(2,3) by auto
    have "mem d2 i AND data ! (i - unat a) = data ! (i - unat a)" if "unat base \<le> i" "i < ?E" for i
      using that base by (simp add: 2(3) erased_def inq and_ones)
    then obtain d3 where 3: "write_pages B stale m_id a len data verify s base d2 = Some (Inr (d3, True))" "phase Online d3"
      "mem d3 = (\<lambda>i. if unat base \<le> i \<and> i < ?E then data ! (i - unat a) else mem d2 i)"
      using pages [OF 2(2) _ _ four, of m_id verify] base by auto
    have "write_sector B junk stale m_id a len data verify s d = Some (Inr (d3, True))"
      unfolding write_unfold using erase 2(1) 3(1) by simp
    moreover have "mem d3 = ?result" using erase by (auto simp: fun_eq_iff 3(3) 2(3) erased_def inq written base)
    ultimately show ?thesis using 3(2) by blast
  next
    case same
    have "write_sector B junk stale m_id a len data verify s d = Some (Inr (d1, True))"
      unfolding write_unfold using same by simp
    moreover have "mem d1 = ?result" using same nv by (auto simp: fun_eq_iff 1(3) inq written base)
    ultimately show ?thesis using 1(2) by blast
  next
    case first
    then have at: "unat base \<le> unat nv" "unat nv \<le> ?E" "4 dvd unat nv"
      "\<forall>i. unat base \<le> i \<and> i < unat nv \<longrightarrow> ?m i = data ! (i - unat a)" using nv by auto
    have "mem d1 i AND data ! (i - unat a) = data ! (i - unat a)" if "unat nv \<le> i" "i < ?E" for i
      using keep [of i] first that at(1) 1(3) by auto
    then obtain d3 where 3: "write_pages B stale m_id a len data verify s nv d1 = Some (Inr (d3, True))" "phase Online d3"
      "mem d3 = (\<lambda>i. if unat nv \<le> i \<and> i < ?E then data ! (i - unat a) else mem d1 i)"
      using pages [OF 1(2) _ _ at(3), of m_id verify] at(1) base by auto
    have "write_sector B junk stale m_id a len data verify s d = Some (Inr (d3, True))"
      unfolding write_unfold using first 3(1) by simp
    moreover have "mem d3 = ?result" using first(1) at by (auto simp: fun_eq_iff 3(3) 1(3) inq written base)
    ultimately show ?thesis using 3(2) by blast
  qed
qed

section \<open>The whole range\<close>

lemma write_sectors_writes:
  assumes "phase Online d" "flash_lo \<le> unat a" "unat a + unat len \<le> hi" "4 dvd unat a" "4 dvd unat len"
    and "length data = unat len" "flash_lo \<le> unat s" "65536 dvd unat s" "unat a < unat s + 65536" "unat s \<le> hi + 65536"
    and "inner_length_fits a len stale"
  shows "\<exists>d'. write_sectors B junk stale m_id a len data verify s d = Some (Inr (d', True)) \<and> phase Online d'
    \<and> mem d' = (\<lambda>i. if unat s \<le> i then written (unat a) data (mem d) i else mem d i)"
  using assms(1,7-10)
proof (induction "hi + 65536 - unat s" arbitrary: s d rule: less_induct)
  case less
  let ?L = "unat a + unat len"
  have lim: "unat (SECTOROF (a + len + SECTORSZB - 1)) = (?L + 65535) div 65536 * 65536"
  proof -
    have "unat (a + len + SECTORSZB) = ?L + 65536" using assms(3) hi(1) by (simp add: unat_plus SECTORSZB_eq)
    moreover from this have "1 \<le> a + len + SECTORSZB" by (simp add: word_le_nat_alt)
    ultimately show ?thesis by (simp add: unat_SECTOROF unat_minus)
  qed
  obtain q where q: "unat s = 65536 * q" using less.prems(3) by (auto simp: dvd_def)
  have loop: "s < SECTOROF (a + len + SECTORSZB - 1) \<longleftrightarrow> unat s < ?L"
  proof -
    have "q < (?L + 65535) div 65536 \<longleftrightarrow> Suc q * 65536 \<le> ?L + 65535"
      unfolding Suc_le_eq [symmetric] by (rule less_eq_div_iff_mult_less_eq) simp
    then show ?thesis unfolding word_less_nat_alt lim q by (simp add: Suc_le_eq mult.commute)
  qed
  show ?case
  proof (cases "unat s < ?L")
    case False
    have "write_sectors B junk stale m_id a len data verify s d = Some (Inr (d, True))"
      using False loop by (subst write_sectors.simps) simp
    moreover have "written (unat a) data (mem d) i = mem d i" if "unat s \<le> i" for i
    proof (rule written_apart)
      fix k assume "k < length data"
      then have "unat a + k < 65536 * q" using False assms(6) q by simp
      then have "(unat a + k) div 65536 < q" by (simp add: less_mult_imp_div_less mult.commute)
      moreover have "q \<le> i div 65536" using that q by (simp add: less_eq_div_iff_mult_less_eq mult.commute)
      ultimately show "(unat a + k) div 65536 \<noteq> i div 65536" by simp
    qed
    then have "mem d = (\<lambda>i. if unat s \<le> i then written (unat a) data (mem d) i else mem d i)" by (auto simp: fun_eq_iff)
    ultimately show ?thesis using less.prems(1) by blast
  next
    case True
    have room: "unat s + 65536 \<le> hi"
    proof -
      obtain h where h: "hi = 65536 * h" using hi(2) by (auto simp: dvd_def)
      then have "65536 * q < 65536 * h" using True assms(3) q by linarith
      then have "65536 * Suc q \<le> 65536 * h" by (intro mult_le_mono2) simp
      then show ?thesis by (simp add: q h)
    qed
    then have next_s: "unat (s + SECTORSZB) = unat s + 65536" using hi(1) by (simp add: unat_plus SECTORSZB_eq)
    obtain d1 where 1: "write_sector B junk stale m_id a len data verify s d = Some (Inr (d1, True))" "phase Online d1"
      "mem d1 = (\<lambda>i. if i div 65536 = unat s div 65536 then written (unat a) data (mem d) i else mem d i)"
      using write_sector_writes [OF less.prems(1-3) room assms(2-6) True less.prems(4) assms(11)] by blast
    have "65536 dvd unat s + 65536" "unat a < unat s + 65536 + 65536" "unat s + 65536 \<le> hi + 65536"
      "hi + 65536 - (unat s + 65536) < hi + 65536 - unat s" "flash_lo \<le> unat s + 65536"
      using less.prems room by simp_all
    then obtain d2 where 2: "write_sectors B junk stale m_id a len data verify (s + SECTORSZB) d1 = Some (Inr (d2, True))"
      "phase Online d2" "mem d2 = (\<lambda>i. if unat s + 65536 \<le> i then written (unat a) data (mem d1) i else mem d1 i)"
      using less.hyps [of "s + SECTORSZB" d1] 1(2) unfolding next_s by blast
    have "write_sectors B junk stale m_id a len data verify s d = Some (Inr (d2, True))"
      using True loop 1(1) 2(1) by (subst write_sectors.simps) simp
    moreover have "mem d2 = (\<lambda>i. if unat s \<le> i then written (unat a) data (mem d) i else mem d i)"
    proof
      fix i
      note inq = sector_iff [OF less.prems(3)]
      have "written (unat a) data (mem d1) i = written (unat a) data (mem d) i" if "unat s + 65536 \<le> i"
        using that inq [of i] by (intro written_cong) (auto simp: 1(3))
      then show "mem d2 i = (if unat s \<le> i then written (unat a) data (mem d) i else mem d i)"
        using inq [of i] by (auto simp: 2(3) 1(3))
    qed
    ultimately show ?thesis using 2(2) by blast
  qed
qed

lemma flash_write_finish:
  assumes "write_sectors B junk stale m_id a len data verify (SECTOROF a) d = Some (Inr (d1, True))" "phase Online d1"
    and "m_id \<noteq> 0" "flash_lo \<le> unat a" "unat a + unat len \<le> hi"
  shows "\<exists>d'. flash_write B junk stale m_id a len data verify d = Some (Inr (d', m_id, True)) \<and> phase Online d' \<and> mem d' = mem d1"
proof -
  obtain d2 where 2: "take_offline B d1 = Inr d2" "phase Offline d2" "mem d2 = mem d1" using offline assms(2) by blast
  obtain d3 where 3: "cfg_writes B [F_WRDI, F_END] d2 = Inr d3" "phase Offline d3" "mem d3 = mem d2" using disable [OF 2(2)] by blast
  obtain d4 where 4: "place_online B m_id d3 = Inr d4" "phase Online d4" "mem d4 = mem d3"
    using online [OF 3(2)] unfolding place_online_def by blast
  have "FLASHBASE \<le> a" "a + len \<le> FLASHBASE + FLASHLEN"
    using assms(4,5) hi(1) by (simp_all add: word_le_nat_alt FLASHBASE_def FLASHLEN_def unat_plus)
  then have "flash_write B junk stale m_id a len data verify d = Some (Inr (d4, m_id, True))"
    unfolding flash_write_def flashid_def using assms(1,3) 2(1) 3(1) 4(1) by (simp add: verify_config_def)
  then show ?thesis using 4(2,3) 3(3) 2(3) by auto
qed

text \<open>Whenever the uninitialised variable leaves the lengths that are meant.\<close>

lemma flash_write_writes:
  assumes "phase Online d" "m_id \<noteq> 0" "flash_lo \<le> unat a" "unat a + unat len \<le> hi" "4 dvd unat a" "4 dvd unat len"
    and "length data = unat len" "inner_length_fits a len stale"
  shows "\<exists>d'. flash_write B junk stale m_id a len data verify d = Some (Inr (d', m_id, True)) \<and> phase Online d'
    \<and> mem d' = written (unat a) data (mem d)"
proof -
  have s: "unat (SECTOROF a) = unat a div 65536 * 65536" by (rule unat_SECTOROF)
  have al: "unat a < unat a div 65536 * 65536 + 65536" using dividend_less_div_times [of 65536 "unat a"] by simp
  have "flash_lo div 65536 \<le> unat a div 65536" using assms(3) by (rule div_le_mono)
  then have "flash_lo \<le> unat (SECTOROF a)" "65536 dvd unat (SECTOROF a)" "unat a < unat (SECTOROF a) + 65536"
      "unat (SECTOROF a) \<le> hi + 65536"
    using al assms(4) unfolding s by simp_all
  then obtain d1 where 1: "write_sectors B junk stale m_id a len data verify (SECTOROF a) d = Some (Inr (d1, True))"
    "phase Online d1" "mem d1 = (\<lambda>i. if unat (SECTOROF a) \<le> i then written (unat a) data (mem d) i else mem d i)"
    using write_sectors_writes [OF assms(1,3-7) _ _ _ _ assms(8)] by blast
  have "written (unat a) data (mem d) i = mem d i" if "\<not> unat (SECTOROF a) \<le> i" for i
  proof (rule written_apart)
    fix k assume "k < length data"
    have "i div 65536 < unat a div 65536" using that unfolding s by (simp add: not_le less_mult_imp_div_less)
    also have "\<dots> \<le> (unat a + k) div 65536" by (rule div_le_mono) simp
    finally show "(unat a + k) div 65536 \<noteq> i div 65536" by simp
  qed
  then have "mem d1 = written (unat a) data (mem d)" by (auto simp: fun_eq_iff 1(3))
  then show ?thesis using flash_write_finish [OF 1(1,2) assms(2-4)] by auto
qed

section \<open>What the uninitialised length can do\<close>

text \<open>Eight bytes for an erased sector: when the variable happens to give four, only four are written,
  and the routine, verifying, still reports success.\<close>

lemma flash_write_short:
  assumes "phase Online d" "m_id \<noteq> 0" "flash_lo \<le> unat a" "unat a + 65536 \<le> hi" "65536 dvd unat a"
    and "length data = 8" "data ! 0 \<noteq> 0xff" "\<And>i. unat a \<le> i \<Longrightarrow> i < unat a + 8 \<Longrightarrow> mem d i = 0xff"
  shows "\<exists>d'. flash_write B junk (\<lambda>p. p - a + 4) m_id a 8 data verify d = Some (Inr (d', m_id, True))
    \<and> mem d' = stored (unat a) (take 4 data) (mem d)"
proof -
  obtain q where q: "unat a = 65536 * q" using assms(5) by (auto simp: dvd_def)
  have u: "unat (a + n) = unat a + unat n" if "unat n \<le> 65544" for n using that assms(4) hi(1) by (intro unat_plus) simp
  have u8: "unat (a + 8) = unat a + 8" "unat (a + SECTORSZB) = unat a + 65536" "unat (a + PGLENB) = unat a + 256"
    by (simp_all add: u SECTORSZB_eq PGLENB_def)
  have al: "4 dvd unat a" "SECTOROF a = a" by (simp_all add: word_unat_eq_iff unat_SECTOROF q)
  have page: "unat (PAGEOF (a + PGLENB)) = unat a + 256" unfolding unat_PAGEOF u8 by (simp add: q)
  have lim: "unat (SECTOROF (a + 8 + SECTORSZB - 1)) = unat a + 65536"
  proof -
    have "a + 8 + SECTORSZB - 1 = a + 65543" by (simp add: SECTORSZB_eq)
    then show ?thesis by (simp only:) (simp add: unat_SECTOROF u q)
  qed
  have last: "\<not> a + SECTORSZB < SECTOROF (a + 8 + SECTORSZB - 1)" "a < SECTOROF (a + 8 + SECTORSZB - 1)"
    unfolding word_less_nat_alt lim u8 by simp_all
  have a0: "a \<noteq> 0" using assms(3) by auto
  obtain d1 where 1: "read_sector B (junk a) a 8 d = Inr (d1, map (mem d) [unat a..<unat a + unat (8 :: u32)] @ drop (unat (8 :: u32)) (junk a))"
    "phase Online d1" "mem d1 = mem d"
    using read_sector_reads [OF assms(1,3) _ al(1), of 8 "junk a"] assms(4) by auto
  have sbuf: "map (mem d) [unat a..<unat a + 8] = replicate 8 0xff"
    using assms(8) by (intro nth_equalityI) auto
  have scan: "scan_sector a 0 (replicate 8 0xff) data 0 = Inr (False, a)"
    using scan_differs [of "replicate 8 0xff" data 0 a 0] assms(6,7) a0 by (simp add: mark_def and_ones)
  obtain d2 where 2: "page_program B m_id a 4 data verify d1 = Some (Inr (d2, True))" "phase Online d2"
    "mem d2 = stored (unat a) (take (unat (4 :: u32)) data) (mem d1)"
    using page_program_stores [OF _ assms(3) _ _ al(1), of d1 4 data m_id verify] 1(2,3) assms(4,6,8) q
    by (auto simp: page_fits_def and_ones)
  have clip: "PAGEOF (3 + a) = PAGEOF a"
  proof -
    have "(65536 * q + 3) div 256 = 256 * q" by presburger
    then show ?thesis by (simp add: add.commute [of 3] word_unat_eq_iff unat_PAGEOF u q)
  qed
  have over: "\<not> PAGEOF (a + PGLENB) < a + 8" "a < a + 8" "a < a + SECTORSZB" by (simp_all add: word_less_nat_alt u8 page)
  have "write_pages B (\<lambda>p. p - a + 4) m_id a 8 data verify a (PAGEOF (a + PGLENB)) d2 = Some (Inr (d2, True))"
    using over(1) by (subst write_pages.simps) simp
  then have pages: "write_pages B (\<lambda>p. p - a + 4) m_id a 8 data verify a a d1 = Some (Inr (d2, True))"
    using 2(1) over clip by (subst write_pages.simps) (simp add: Let_def)
  have "(if a + SECTORSZB < a + 8 then a + SECTORSZB else a + 8) - a = 8" by (simp add: word_less_nat_alt u8)
  then have "write_sector B junk (\<lambda>p. p - a + 4) m_id a 8 data verify a d = Some (Inr (d2, True))"
    using 1(1) a0 pages by (simp add: write_sector_def Let_def sbuf scan)
  moreover have "write_sectors B junk (\<lambda>p. p - a + 4) m_id a 8 data verify (a + SECTORSZB) d2 = Some (Inr (d2, True))"
    by (subst write_sectors.simps) (simp only: last if_False)
  ultimately have "write_sectors B junk (\<lambda>p. p - a + 4) m_id a 8 data verify (SECTOROF a) d = Some (Inr (d2, True))"
    unfolding al(2) by (subst write_sectors.simps) (simp only: last if_True obind_simps prod.case)
  then show ?thesis using flash_write_finish [of junk _ m_id a 8 data verify d d2] 2(2,3) 1(3) assms(2-4) by auto
qed

end

end
