(* ===== verification/FlashQspi.thy ===== *)
theory FlashQspi
  imports FlashSafe
begin

text \<open>
  The flash simulator in quad mode, a byte in two clocks: the continued quad read (XIP) with its
  address, mode byte, dummy cycles and data, the quad read command that starts it, and the way
  out of it.  \<open>q_clock\<close> drives the pins for one clock the way \<open>simtick\<close> does, whatever the mode.
\<close>

section \<open>Clocks\<close>

definition q_clock :: "flash \<Rightarrow> u32 \<Rightarrow> fault + flash \<times> u32" where
  "q_clock s dat = rbind (flash_tick s 0 0 dat) (\<lambda>(s, _). flash_tick s 0 1 dat)"

definition q_deselect :: "flash \<Rightarrow> fault + flash" where
  "q_deselect s = rbind (flash_tick s 1 1 0) (\<lambda>(s, _). rbind (flash_tick s 1 1 0) (\<lambda>(s, _). Inr s))"

text \<open>What the controller samples: the second data line, or all four.\<close>

definition q_bit :: "flash \<Rightarrow> u32 \<Rightarrow> fault + flash \<times> bool" where
  "q_bit s dat = rbind (q_clock s dat) (\<lambda>(s, r). Inr (s, bit r 1))"

definition nibbles :: "u8 \<Rightarrow> u32 list" where
  "nibbles b = [drop_bit 4 (ucast b), ucast b AND 0xf]"

definition q_xfer :: "flash \<Rightarrow> u8 \<Rightarrow> fault + flash \<times> u8" where
  "q_xfer s b =
     rbind (q_clock s (drop_bit 4 (ucast b))) (\<lambda>(s, x).
     rbind (q_clock s (ucast b AND 0xf)) (\<lambda>(s, y).
       Inr (s, ucast (push_bit 4 (x AND 0xf) OR (y AND 0xf)))))"

lemma q_clock_eq:
  assumes "m_last_sck s = 1"
  shows "q_clock s dat = rbind (flash_process (flash_shift dat (flash_timer s))) (\<lambda>s'.
    let s'' = (flash_timer s')\<lparr>m_last_sck := 1\<rparr> in Inr (s'', flash_out s'' dat))"
proof -
  have "flash_timer (s'\<lparr>m_last_sck := k\<rparr>) = (flash_timer s')\<lparr>m_last_sck := k\<rparr>" for s' k
    by (simp add: flash_timer_def Let_def)
  then show ?thesis
    using assms by (simp add: q_clock_def flash_tick_def Let_def rbind_def split: sum.split)
qed

lemma run_q_bit: "run q_bit s ns = rbind (run q_clock s ns) (\<lambda>(s, rs). Inr (s, map (\<lambda>r. bit r 1) rs))"
proof (induction ns arbitrary: s)
  case (Cons n ns)
  show ?case
    by (cases "q_clock s n"; cases "run q_clock (fst (projr (q_clock s n))) ns")
      (auto simp: q_bit_def [of s n] Cons.IH split: prod.splits)
qed simp

lemma run_q_xfer:
  "run q_xfer s bs = Inr (s', os) \<Longrightarrow> \<exists>rs. run q_clock s (concat (map nibbles bs)) = Inr (s', rs)"
proof (induction bs arbitrary: s os)
  case (Cons b bs)
  then obtain s1 x s2 y os' where 1: "q_clock s (drop_bit 4 (ucast b)) = Inr (s1, x)"
    "q_clock s1 (ucast b AND 0xf) = Inr (s2, y)" "run q_xfer s2 bs = Inr (s', os')"
    by (auto simp: q_xfer_def [of s b] split: prod.splits)
  obtain rs where "run q_clock s2 (concat (map nibbles bs)) = Inr (s', rs)" using Cons.IH [OF 1(3)] by blast
  then show ?case using 1(1,2) by (simp add: nibbles_def [of b])
qed simp

section \<open>SPI mode\<close>

lemma flash_out_bit1: "bit (flash_out s d) (Suc 0) = bit (flash_out s d') (Suc 0)"
  by (cases "m_mode s") (auto simp: flash_out_def bit_simps)

lemma and_1_bit: "dat AND 1 = (of_bool (bit dat 0) :: u32)"
  by (rule bit_word_eqI) (auto simp: bit_simps bit_1_iff)

lemma q_bit_spi:
  assumes "m_mode s = FM_SPI" "m_last_sck s = 1"
  shows "q_bit s dat = flash_spi_bit s (bit dat 0)"
proof -
  have "flash_shift dat (flash_timer s) = flash_shift1 (flash_timer s) (bit dat 0)"
    using assms(1) by (simp add: flash_shift_def flash_shift1_def and_1_bit)
  then show ?thesis
    unfolding q_bit_def q_clock_eq [OF assms(2)] flash_spi_bit_eq [OF assms]
    using flash_out_bit1 [of _ dat "of_bool (bit dat 0)"]
    by (cases "flash_process (flash_shift1 (flash_timer s) (bit dat 0))") (simp_all add: Let_def)
qed

lemma q_bits_mid:
  assumes "m_mode s = FM_SPI" "m_last_sck s = 1" "flash_not_xip s" "unat (m_count s AND 7) + length ns < 8"
  shows "run q_bit s ns = run flash_spi_bit s (map (\<lambda>n. bit n 0) ns)"
  using assms
proof (induction ns arbitrary: s)
  case (Cons n ns)
  let ?b = "bit n 0"
  let ?s1 = "flash_shift1 (flash_timer (flash_timer s)) ?b"
  obtain x where one: "flash_spi_bit s ?b = Inr (?s1, x)"
    using flash_run_mid [of s "[?b]"] Cons.prems by (auto split: prod.splits)
  have "unat ((m_count s + 1) AND 7) = unat (m_count s AND 7) + 1"
    using Cons.prems and_7_add [of "m_count s" 1] by simp
  then have "run q_bit ?s1 ns = run flash_spi_bit ?s1 (map (\<lambda>n. bit n 0) ns)"
    using Cons.prems by (intro Cons.IH) (auto simp: flash_shift1_def flash_not_xip_def)
  then show ?case using Cons.prems(1,2) one by (simp add: q_bit_spi)
qed simp

lemma q_spi_byte:
  assumes "m_mode s = FM_SPI" "m_last_sck s = 1" "flash_not_xip s" "m_count s AND 7 = 0"
    and "map (\<lambda>n. bit n 0) ns = byte_bits b"
  shows "rbind (run q_bit s ns) (\<lambda>(s, bs). Inr (s, byte_of_bits bs)) = flash_xfer s b"
proof -
  have "length ns = 8" using arg_cong [OF assms(5), of length] by simp
  then obtain n where ns: "ns = butlast ns @ [n]" by (metis append_butlast_last_id list.size(3) zero_neq_numeral)
  let ?bs = "map (\<lambda>n. bit n 0) (butlast ns)"
  let ?s7 = "flash_shifts s ?bs"
  have len: "length (butlast ns) = 7" using \<open>length ns = 8\<close> by simp
  have 7: "run flash_spi_bit s ?bs = Inr (?s7, map (\<lambda>i. bit ((shl1 ^^ Suc i) (m_oreg s)) 8) [0..<length ?bs])"
    using assms len by (intro flash_run_mid) simp_all
  have q7: "run q_bit s (butlast ns) = run flash_spi_bit s ?bs" using assms len by (intro q_bits_mid) simp_all
  have "m_mode ?s7 = FM_SPI" "m_last_sck ?s7 = 1" using assms(1,2) by (simp_all add: flash_shifts_eq)
  then have "q_bit ?s7 n = flash_spi_bit ?s7 (bit n 0)" by (rule q_bit_spi)
  then have "run q_bit s (butlast ns @ [n]) = run flash_spi_bit s (?bs @ [bit n 0])"
    by (simp only: run_append q7 7 rbind_simps prod.case run.simps)
  moreover have "map (\<lambda>n. bit n 0) ns = ?bs @ [bit n 0]" by (subst ns) simp
  ultimately have "run q_bit s ns = run flash_spi_bit s (map (\<lambda>n. bit n 0) ns)" by (simp only: ns [symmetric])
  then show ?thesis by (simp only: flash_xfer_def assms(5))
qed

section \<open>Quad mode\<close>

lemma flash_process_quad:
  "flash_not_xip s \<Longrightarrow> m_count s AND 7 = 0 \<Longrightarrow> m_count s \<noteq> 0 \<Longrightarrow> m_count s \<noteq> 8 \<Longrightarrow> flash_process s = flash_byte s"
  by (rule flash_process_byte)

text \<open>The input of a byte in quad mode, and its first half.\<close>

definition q_half :: "flash \<Rightarrow> u8 \<Rightarrow> flash" where
  "q_half s b = s\<lparr>m_ireg := push_bit 4 (m_ireg s) OR drop_bit 4 (ucast b), m_count := m_count s + 4,
     m_oreg := push_bit 4 (m_oreg s)\<rparr>"

lemma nibble_and: "(drop_bit 4 (ucast (b :: u8)) :: u32) AND 0xf = drop_bit 4 (ucast b)"
proof -
  have "(drop_bit 4 (ucast b) :: u32) AND 0xf = take_bit 4 (drop_bit 4 (ucast b))" by (simp add: take_bit_eq_mask mask_eq_exp_minus_1)
  also have "\<dots> = drop_bit 4 (ucast b)" by (rule bit_word_eqI) (auto simp: bit_simps dest: bit_imp_le_length)
  finally show ?thesis .
qed

lemma bit_0xf: "bit (0xf :: int) n \<longleftrightarrow> n < 4"
proof -
  have "bit (mask 4 :: int) n \<longleftrightarrow> n < 4" by (simp only: bit_mask_iff) simp
  then show ?thesis by (simp add: mask_eq_exp_minus_1)
qed

lemma bit_0xf0: "bit (0xf0 :: int) n \<longleftrightarrow> 4 \<le> n \<and> n < 8"
proof -
  have "(0xf0 :: int) = push_bit 4 (mask 4)" by (simp add: mask_eq_exp_minus_1)
  then show ?thesis by (simp only: bit_push_bit_iff bit_mask_iff) auto
qed

lemma nibble_join: "push_bit 4 (push_bit 4 i OR drop_bit 4 (ucast (b :: u8))) OR (ucast b AND 0xf) = (push_bit 8 i OR ucast b :: u32)"
  by (rule bit_word_eqI) (auto simp: bit_simps bit_0xf)

lemma nibbles_out:
  "(ucast (push_bit 4 (drop_bit 8 (push_bit 4 x) AND 0xf) OR (drop_bit 8 (push_bit 8 x) AND 0xf)) :: u8) = ucast (x :: u32)"
  by (rule bit_word_eqI) (auto simp: bit_simps bit_0xf bit_0xf0)

lemma q_xfer_eq:
  assumes "m_mode s = FM_QSPI" "m_last_sck s = 1" "m_write_count s = 0"
    and "flash_process (q_half s b) = Inr h" "m_mode h = FM_QSPI" "m_last_sck h = 1" "m_write_count h = 0"
    and "flash_process (flash_shift (ucast b AND 0xf) h) = Inr s'" "m_last_sck s' = 1" "m_write_count s' = 0"
  shows "\<exists>x. q_xfer s b = Inr (s', x) \<and>
    (m_mode s' = FM_QSPI \<longrightarrow> x = ucast (push_bit 4 (drop_bit 8 (m_oreg h) AND 0xf) OR (drop_bit 8 (m_oreg s') AND 0xf)))"
proof -
  have sck: "t\<lparr>m_last_sck := 1\<rparr> = t" if "m_last_sck t = 1" for t :: flash using that by (cases t) simp
  have "flash_shift (drop_bit 4 (ucast b)) s = q_half s b"
    using assms(1) by (simp add: flash_shift_def q_half_def nibble_and)
  then have 1: "q_clock s (drop_bit 4 (ucast b)) = Inr (h, drop_bit 8 (m_oreg h) AND 0xf)"
    unfolding q_clock_eq [OF assms(2)] using assms sck [of h] by (simp add: flash_out_def Let_def)
  have 2: "q_clock h (ucast b AND 0xf) = Inr (s', flash_out s' (ucast b AND 0xf))"
    unfolding q_clock_eq [OF assms(6)] flash_timer_idle [OF assms(7)] assms(8) rbind_simps Let_def
      flash_timer_idle [OF assms(10)] sck [OF assms(9)] ..
  show ?thesis by (simp add: q_xfer_def 1 2 flash_out_def and.assoc)
qed

lemma flash_fill_more [simp]:
  "NDUMMY (flash_fill s b) = NDUMMY s" "m_mode_byte (flash_fill s b) = m_mode_byte s"
  by (simp_all add: flash_fill_def)

text \<open>The phase of a quad read after \<open>c\<close> bits, everything that lasts being as in \<open>s0\<close>.\<close>

definition q_at :: "flash \<Rightarrow> qspif_state \<Rightarrow> u32 \<Rightarrow> flash \<Rightarrow> bool" where
  "q_at s0 st c s \<longleftrightarrow> m_state s = st \<and> m_count s = c \<and> m_mode s = FM_QSPI \<and> m_last_sck s = 1 \<and> m_write_count s = 0
     \<and> m_mem s = m_mem s0 \<and> m_sreg s = m_sreg s0 \<and> m_membytes s = m_membytes s0 \<and> m_memmask s = m_memmask s0
     \<and> NDUMMY s = NDUMMY s0"

lemma q_half_frame [simp]:
  "m_state (q_half s b) = m_state s" "m_mode (q_half s b) = m_mode s" "m_last_sck (q_half s b) = m_last_sck s"
  "m_write_count (q_half s b) = m_write_count s" "m_count (q_half s b) = m_count s + 4"
  "m_oreg (q_half s b) = push_bit 4 (m_oreg s)" "m_sreg (q_half s b) = m_sreg s"
  by (simp_all add: q_half_def)

lemma q_fill: "m_mode s = FM_QSPI \<Longrightarrow> flash_shift (ucast b AND 0xf) (q_half s b) = flash_fill s b"
  using nibble_join [of "m_ireg s" b]
  by (cases s) (simp add: flash_shift_def q_half_def flash_fill_def and.assoc push_bit_push_bit push_bit_or del: push_bit_numeral)

text \<open>A byte of a read that has left the idle state goes to the byte decoder.\<close>

lemma q_byte_step:
  assumes "q_at s0 st c s" "flash_not_xip s" "c AND 7 = 0" "8 \<le> unat c" "unat c + 8 < 2 ^ 32"
    and "flash_byte (flash_fill s b) = Inr s'" "q_at s0 st' (c + 8) s'"
  shows "\<exists>x. q_xfer s b = Inr (s', x) \<and> (drop_bit 8 (m_oreg s') = drop_bit 8 (push_bit 8 (m_oreg s)) \<longrightarrow> x = ucast (m_oreg s))"
proof -
  have s: "m_mode s = FM_QSPI" "m_last_sck s = 1" "m_write_count s = 0" "m_count s = c" using assms(1) by (simp_all add: q_at_def)
  have c4: "(c + 4) AND 7 \<noteq> 0"
  proof -
    have "unat ((c + 4) AND 7) = 4" using and_7_add [of c 4] assms(3) by simp
    then show ?thesis by auto
  qed
  have c8: "(c + 8) AND 7 = 0" "c + 8 \<noteq> 0" "c + 8 \<noteq> 8"
  proof -
    have u: "unat (c + 8) = unat c + 8" using assms(5) by (simp add: unat_word_ariths)
    then show "c + 8 \<noteq> 0" "c + 8 \<noteq> 8" using assms(4) by auto
    have "unat ((c + 8) AND 7) = 0" using assms(3) unat_and_7 [of c] by (simp add: unat_and_7 u)
    then show "(c + 8) AND 7 = 0" by (simp only: unat_eq_0)
  qed
  have h: "flash_process (q_half s b) = Inr (q_half s b)"
    using assms(2) s c4 by (intro flash_process_mid) (simp_all add: flash_not_xip_def)
  have "flash_process (flash_fill s b) = flash_byte (flash_fill s b)"
    using assms(2) s c8 by (intro flash_process_byte) (simp_all add: flash_not_xip_def)
  then have "flash_process (flash_shift (ucast b AND 0xf) (q_half s b)) = Inr s'" using assms(6) by (simp add: q_fill [OF s(1)])
  moreover have s': "m_last_sck s' = 1" "m_write_count s' = 0" "m_mode s' = FM_QSPI" using assms(7) by (simp_all add: q_at_def)
  ultimately obtain x where x: "q_xfer s b = Inr (s', x)"
    "x = ucast (push_bit 4 (drop_bit 8 (m_oreg (q_half s b)) AND 0xf) OR (drop_bit 8 (m_oreg s') AND 0xf))"
    using q_xfer_eq [OF s(1-3) h] s by auto
  have "x = ucast (m_oreg s)" if "drop_bit 8 (m_oreg s') = drop_bit 8 (push_bit 8 (m_oreg s))"
    using x(2) nibbles_out [of "m_oreg s"] that by simp
  then show ?thesis using x(1) by blast
qed

subsection \<open>The address of a continued read\<close>

lemma q_shift_oreg: "flash_shift d (s\<lparr>m_oreg := 0\<rparr>) = (flash_shift d s)\<lparr>m_oreg := 0\<rparr>"
  by (cases "m_mode s") (simp_all add: flash_shift_def shl1_def)

lemma q_idle_byte:
  assumes "q_at s0 QSPIF_QUAD_READ_IDLE c s" "m_sreg s0 AND 0x200 = 0" "c = 0 \<or> c = 8 \<or> c = 16"
  shows "\<exists>s' x. q_xfer s b = Inr (s', x) \<and> m_ireg s' = push_bit 8 (m_ireg s) OR ucast b \<and>
    (if c = 16 then q_at s0 QSPIF_QUAD_READ 24 s' \<and> m_addr s' = (push_bit 8 (m_ireg s) OR ucast b) AND m_memmask s0
     else q_at s0 QSPIF_QUAD_READ_IDLE (c + 8) s')"
proof -
  let ?h = "(q_half s b)\<lparr>m_oreg := 0\<rparr>" and ?f = "(flash_fill s b)\<lparr>m_oreg := 0\<rparr>"
  let ?s' = "if c = 16 then ?f\<lparr>m_addr := m_ireg ?f AND m_memmask s0, m_state := QSPIF_QUAD_READ\<rparr> else ?f"
  have s: "m_state s = QSPIF_QUAD_READ_IDLE" "m_mode s = FM_QSPI" "m_last_sck s = 1" "m_write_count s = 0" "m_count s = c"
      "m_sreg s AND 0x200 = 0" "m_memmask s = m_memmask s0"
    using assms(1,2) by (simp_all add: q_at_def)
  have h: "flash_process (q_half s b) = Inr ?h"
    using s assms(3) by (auto simp: flash_process_def flash_read_idle_def flash_quad_mode_def)
  have f: "flash_shift (ucast b AND 0xf) ?h = ?f" by (simp add: q_shift_oreg q_fill [OF s(2)])
  have s': "flash_process ?f = Inr ?s'"
    using s assms(3) by (auto simp: flash_process_def flash_read_idle_def flash_quad_mode_def)
  then have s'f: "flash_process (flash_shift (ucast b AND 0xf) ?h) = Inr ?s'" unfolding f .
  have "m_mode ?h = FM_QSPI" "m_last_sck ?h = 1" "m_write_count ?h = 0" "m_last_sck ?s' = 1" "m_write_count ?s' = 0"
    using s by simp_all
  then have "\<exists>x. q_xfer s b = Inr (?s', x)" using q_xfer_eq [OF s(2-4) h _ _ _ s'f] by blast
  then show ?thesis using assms(1,3) by (auto simp: q_at_def)
qed

lemma q_address:
  assumes "q_at s0 QSPIF_QUAD_READ_IDLE 0 s" "m_ireg s = 0" "m_sreg s0 AND 0x200 = 0"
  shows "\<exists>s' xs. run q_xfer s [a2, a1, a0] = Inr (s', xs) \<and> q_at s0 QSPIF_QUAD_READ 24 s' \<and> m_addr s' = flash_addr s0 a2 a1 a0"
proof -
  obtain s1 x1 where 1: "q_xfer s a2 = Inr (s1, x1)" "m_ireg s1 = ucast a2" "q_at s0 QSPIF_QUAD_READ_IDLE 8 s1"
    using q_idle_byte [OF assms(1,3), of a2] assms(2) by auto
  obtain s2 x2 where 2: "q_xfer s1 a1 = Inr (s2, x2)" "m_ireg s2 = push_bit 8 (ucast a2) OR ucast a1" "q_at s0 QSPIF_QUAD_READ_IDLE 16 s2"
    using q_idle_byte [OF 1(3) assms(3), of a1] 1(2) by auto
  obtain s3 x3 where 3: "q_xfer s2 a0 = Inr (s3, x3)" "q_at s0 QSPIF_QUAD_READ 24 s3"
    "m_addr s3 = (push_bit 8 (push_bit 8 (ucast a2) OR ucast a1) OR ucast a0) AND m_memmask s0"
    using q_idle_byte [OF 2(3) assms(3), of a0] 2(2) by auto
  have "push_bit 8 (push_bit 8 (ucast a2) OR ucast a1) OR ucast a0 = word_of_bytes 0 a2 a1 a0"
    using push8_or_eq [of 0 a2 a1 a0] by simp
  then have "m_addr s3 = flash_addr s0 a2 a1 a0" using 3(3) by (simp add: flash_addr_def)
  then show ?thesis using 1(1) 2(1) 3(1,2) by simp
qed

subsection \<open>The bytes after the address\<close>

lemma drop_QOREG: "drop_bit 8 (m_oreg (QOREG a s)) = drop_bit 8 (m_oreg s)"
proof (rule bit_word_eqI)
  fix n
  show "bit (drop_bit 8 (m_oreg (QOREG a s))) n = bit (drop_bit 8 (m_oreg s)) n"
    unfolding bit_drop_bit_eq o_def using bit_imp_le_length [of "m_oreg s" "8 + n"]
    by (auto simp: QOREG_def bit_simps bit_0xff)
qed

lemma q_fill_command: "m_ireg (flash_unthrottle (QOREG 0 (flash_fill s b))) AND 0xff = ucast b"
  using flash_fill_command [of s b] by simp

lemma q_byte_next:
  assumes "q_at s0 st c s" "st = QSPIF_QUAD_READ \<or> st = QSPIF_QUAD_READ_CMD" "c AND 7 = 0" "8 \<le> unat c" "unat c + 8 < 2 ^ 32"
    and "flash_read_byte (flash_unthrottle (QOREG 0 (flash_fill s b))) = Inr s'" "q_at s0 st (c + 8) s'"
  shows "\<exists>x. q_xfer s b = Inr (s', x) \<and> (drop_bit 8 (m_oreg s') = drop_bit 8 (push_bit 8 (m_oreg s)) \<longrightarrow> x = ucast (m_oreg s))"
proof -
  have "m_state s = st" using assms(1) by (simp add: q_at_def)
  then have "flash_byte (flash_fill s b) = Inr s'" "flash_not_xip s"
    using assms(2,6) by (auto simp: flash_byte_def flash_not_xip_def)
  then show ?thesis using q_byte_step assms(1,3-5,7) by blast
qed

text \<open>A byte of the address of a quad read command, or a dummy byte.\<close>

lemma q_dummy:
  assumes "q_at s0 st c s" "NDUMMY s0 = 6" "(st, c) \<in> {(QSPIF_QUAD_READ, 32), (QSPIF_QUAD_READ_CMD, 8),
    (QSPIF_QUAD_READ_CMD, 16), (QSPIF_QUAD_READ_CMD, 40), (QSPIF_QUAD_READ_CMD, 48)}"
  shows "\<exists>s' x. q_xfer s b = Inr (s', x) \<and> q_at s0 st (c + 8) s' \<and> m_addr s' = m_addr s \<and> m_mode_byte s' = m_mode_byte s
    \<and> m_ireg s' = push_bit 8 (m_ireg s) OR ucast b"
proof -
  let ?t = "flash_unthrottle (QOREG 0 (flash_fill s b))"
  let ?s' = "?t\<lparr>m_oreg := 0\<rparr>"
  have t: "m_state ?t = st" "m_count ?t = c + 8" "NDUMMY ?t = 6" using assms(1,2) by (simp_all add: q_at_def)
  have c: "c AND 7 = 0" "8 \<le> unat c" "unat c + 8 < 2 ^ 32" "st = QSPIF_QUAD_READ \<or> st = QSPIF_QUAD_READ_CMD"
    using assms(3) by auto
  have q: "q_at s0 st (c + 8) ?s'" using assms(1) by (simp add: q_at_def)
  consider "st = QSPIF_QUAD_READ" "c = 32" | "st = QSPIF_QUAD_READ_CMD" "c = 8" | "st = QSPIF_QUAD_READ_CMD" "c = 16"
    | "st = QSPIF_QUAD_READ_CMD" "c = 40" | "st = QSPIF_QUAD_READ_CMD" "c = 48" using assms(3) by blast
  then have r: "flash_read_byte ?t = Inr ?s'"
    by cases (simp_all only: flash_read_byte_def t qspif_state.case, simp_all)
  obtain x where "q_xfer s b = Inr (?s', x)" using q_byte_next [OF assms(1) c(4,1-3) r q] by blast
  then show ?thesis using q by (intro exI [of _ ?s'] exI [of _ x]) simp
qed

lemma q_mode_byte:
  assumes "q_at s0 st c s" "st = QSPIF_QUAD_READ \<and> c = 24 \<or> st = QSPIF_QUAD_READ_CMD \<and> c = 32"
  shows "\<exists>s' x. q_xfer s b = Inr (s', x) \<and> q_at s0 st (c + 8) s' \<and> m_addr s' = m_addr s \<and> m_mode_byte s' = ucast b"
proof -
  let ?t = "flash_unthrottle (QOREG 0 (flash_fill s b))"
  let ?s' = "?t\<lparr>m_mode_byte := ucast b\<rparr>"
  have s: "m_state s = st" "m_count s = c" using assms(1) by (simp_all add: q_at_def)
  have q: "q_at s0 st (c + 8) ?s'" using assms(1) by (simp add: q_at_def flash_fill_def)
  have r: "flash_read_byte ?t = Inr ?s'"
    using assms(2) s q_fill_command [of s b] by (auto simp: flash_read_byte_def flash_fill_def)
  then obtain x where "q_xfer s b = Inr (?s', x)" using q_byte_next [OF assms(1) _ _ _ _ r q] assms(2) by auto
  then show ?thesis using q by (intro exI [of _ ?s'] exI [of _ x]) (simp add: flash_fill_def)
qed

lemma q_latch:
  assumes "q_at s0 QSPIF_QUAD_READ_CMD 24 s"
  shows "\<exists>s' x. q_xfer s b = Inr (s', x) \<and> q_at s0 QSPIF_QUAD_READ_CMD 32 s'
    \<and> m_addr s' = (push_bit 8 (m_ireg s) OR ucast b) AND m_memmask s0"
proof -
  let ?t = "flash_unthrottle (QOREG 0 (flash_fill s b))"
  let ?s' = "flash_latch_addr ?t"
  have s: "m_state s = QSPIF_QUAD_READ_CMD" "m_count s = 24" "m_memmask s = m_memmask s0" using assms by (simp_all add: q_at_def)
  have q: "q_at s0 QSPIF_QUAD_READ_CMD (24 + 8) ?s'" using assms by (simp add: q_at_def flash_fill_def flash_latch_addr_def)
  have r: "flash_read_byte ?t = Inr ?s'" using s by (simp add: flash_read_byte_def flash_fill_def)
  then obtain x where "q_xfer s b = Inr (?s', x)" using q_byte_next [OF assms _ _ _ _ r q] by auto
  then show ?thesis using q s(3) by (intro exI [of _ ?s'] exI [of _ x]) (simp add: flash_fill_def flash_latch_addr_def)
qed

lemma q_fetch:
  assumes "q_at s0 st c s" "NDUMMY s0 = 6" "st = QSPIF_QUAD_READ \<and> 40 \<le> unat c \<or> st = QSPIF_QUAD_READ_CMD \<and> 56 \<le> unat c"
    and "c AND 7 = 0" "unat c + 8 < 2 ^ 32" "m_sreg s0 AND 1 = 0" "m_addr s < m_membytes s0"
  shows "\<exists>s'. q_xfer s b = Inr (s', ucast (m_oreg s)) \<and> q_at s0 st (c + 8) s' \<and> m_addr s' = m_addr s + 1
    \<and> m_mode_byte s' = m_mode_byte s \<and> ucast (m_oreg s') = m_mem s0 (m_addr s)"
proof -
  let ?t = "flash_unthrottle (QOREG 0 (flash_fill s b))"
  let ?s' = "(QOREG (ucast (m_mem s0 (m_addr s))) ?t)\<lparr>m_addr := m_addr s + 1\<rparr>"
  have s: "m_state s = st" "m_count s = c" "NDUMMY s = 6" "m_sreg s AND 1 = 0" "m_mem s = m_mem s0" "m_membytes s = m_membytes s0"
    using assms(1,2,6) by (simp_all add: q_at_def)
  have q: "q_at s0 st (c + 8) ?s'" using assms(1) by (simp add: q_at_def flash_fill_def)
  have u: "unat (c + 8) = unat c + 8" using assms(5) by (simp add: unat_word_ariths)
  then have c: "st = QSPIF_QUAD_READ \<Longrightarrow> 48 \<le> c + 8" "st = QSPIF_QUAD_READ_CMD \<Longrightarrow> 56 < c + 8" "40 < unat (c + 8)"
    using assms(3) by (auto simp: word_le_nat_alt word_less_nat_alt)
  then have n: "c + 8 \<noteq> 32" "c + 8 \<noteq> 40" by auto
  have "flash_fetch ?t = Inr ?s'" using s assms(7) by (simp add: flash_fetch_def flash_fill_def)
  then have r: "flash_read_byte ?t = Inr ?s'"
    using s c(1,2) n assms(3) by (auto simp: flash_read_byte_def flash_fill_def)
  have "8 \<le> unat c" using assms(3) by auto
  moreover have "drop_bit 8 (m_oreg ?s') = drop_bit 8 (push_bit 8 (m_oreg s))"
    by (simp add: drop_QOREG)
  ultimately have "q_xfer s b = Inr (?s', ucast (m_oreg s))"
    using q_byte_next [OF assms(1) _ assms(4) _ assms(5) r q] assms(3) by auto
  then show ?thesis using q by (intro exI [of _ ?s']) simp
qed

text \<open>From then on a byte of memory comes out for every byte clocked in.\<close>

lemma and_7_step: "(c :: u32) AND 7 = 0 \<Longrightarrow> unat c + 8 < 2 ^ 32 \<Longrightarrow> (c + 8) AND 7 = 0 \<and> unat (c + 8) = unat c + 8"
proof -
  assume c: "c AND 7 = 0" "unat c + 8 < 2 ^ 32"
  then have u: "unat (c + 8) = unat c + 8" by (simp add: unat_word_ariths)
  then have "unat ((c + 8) AND 7) = 0" using c(1) unat_and_7 [of c] by (simp add: unat_and_7)
  then show ?thesis using u by (simp add: unat_eq_0)
qed

lemma q_stream:
  assumes "q_at s0 st c s" "NDUMMY s0 = 6" "st = QSPIF_QUAD_READ \<and> 40 \<le> unat c \<or> st = QSPIF_QUAD_READ_CMD \<and> 56 \<le> unat c"
    and "c AND 7 = 0" "unat c + 8 * length bs < 2 ^ 32" "m_sreg s0 AND 1 = 0"
    and "unat (m_addr s) + length bs \<le> unat (m_membytes s0)"
  shows "\<exists>s' c'. run q_xfer s bs =
      Inr (s', take (length bs) (ucast (m_oreg s) # map (\<lambda>i. m_mem s0 (m_addr s + of_nat i)) [0..<length bs]))
    \<and> q_at s0 st c' s' \<and> m_mode_byte s' = m_mode_byte s"
  using assms
proof (induction bs arbitrary: c s)
  case (Cons b bs)
  have lt: "m_addr s < m_membytes s0" using Cons.prems(7) by (simp add: word_less_nat_alt)
  have c8: "unat c + 8 < 2 ^ 32" using Cons.prems(5) by simp
  obtain s1 where 1: "q_xfer s b = Inr (s1, ucast (m_oreg s))" "q_at s0 st (c + 8) s1" "m_addr s1 = m_addr s + 1"
    "m_mode_byte s1 = m_mode_byte s" "ucast (m_oreg s1) = m_mem s0 (m_addr s)"
    using q_fetch [OF Cons.prems(1-4) c8 Cons.prems(6) lt] by blast
  have c: "(c + 8) AND 7 = 0" "unat (c + 8) = unat c + 8" using and_7_step [OF Cons.prems(4) c8] by simp_all
  have a: "unat (m_addr s1) = unat (m_addr s) + 1"
    using lt unat_bound [of "m_membytes s0"] by (simp add: 1(3) unat_word_ariths word_less_nat_alt)
  obtain s2 c' where 2: "run q_xfer s1 bs =
      Inr (s2, take (length bs) (ucast (m_oreg s1) # map (\<lambda>i. m_mem s0 (m_addr s1 + of_nat i)) [0..<length bs]))"
    "q_at s0 st c' s2" "m_mode_byte s2 = m_mode_byte s1"
    using Cons.IH [OF 1(2) Cons.prems(2) _ c(1) _ Cons.prems(6)] Cons.prems(3,5,7) c(2) a by auto
  have "[0..<Suc (length bs)] = 0 # map Suc [0..<length bs]" by (simp add: map_Suc_upt upt_conv_Cons del: upt_Suc)
  then have "take (length (b # bs)) (ucast (m_oreg s) # map (\<lambda>i. m_mem s0 (m_addr s + of_nat i)) [0..<length (b # bs)])
    = ucast (m_oreg s) # take (length bs) (ucast (m_oreg s1) # map (\<lambda>i. m_mem s0 (m_addr s1 + of_nat i)) [0..<length bs])"
    by (simp add: 1(3,5) o_def add.assoc del: upt_Suc)
  then show ?case using 1(1,4) 2 by auto
qed auto

section \<open>Chip select\<close>

text \<open>States in which raising chip select starts nothing.\<close>

definition q_quiet :: "flash \<Rightarrow> bool" where
  "q_quiet s \<longleftrightarrow> m_state s \<in> {QSPIF_IDLE, QSPIF_RDSR}
     \<or> m_state s \<in> {QSPIF_QUAD_READ, QSPIF_QUAD_READ_CMD} \<and> m_mode_byte s AND 0xf0 \<noteq> 0xa0"

definition q_same :: "flash \<Rightarrow> flash \<Rightarrow> bool" where
  "q_same s0 s \<longleftrightarrow> m_mem s = m_mem s0 \<and> m_membytes s = m_membytes s0 \<and> m_memmask s = m_memmask s0 \<and> NDUMMY s = NDUMMY s0"

lemmas deselect_defs = q_deselect_def flash_tick_def flash_deselect_def flash_deselect_state_def flash_end_read_def Let_def

lemma q_deselect_ready:
  assumes "q_quiet s" "m_mode s = FM_SPI" "m_write_count s = 0" "m_sreg s AND 0x201 = 0"
  shows "\<exists>s'. q_deselect s = Inr s' \<and> flash_ready s' \<and> q_quiet s' \<and> q_same s s' \<and> m_sreg s' = m_sreg s
    \<and> m_state s' = m_state s"
  using assms by (auto simp: q_quiet_def deselect_defs flash_ready_def flash_not_xip_def q_same_def)

lemma q_deselect_xip:
  assumes "q_at s0 QSPIF_QUAD_READ_IDLE c s"
  shows "\<exists>s'. q_deselect s = Inr s' \<and> q_at s0 QSPIF_QUAD_READ_IDLE 0 s' \<and> m_ireg s' = 0"
  using assms by (simp add: deselect_defs q_at_def)

lemma q_deselect_stay:
  assumes "q_at s0 st c s" "st = QSPIF_QUAD_READ \<or> st = QSPIF_QUAD_READ_CMD" "m_mode_byte s = 0xa0"
  shows "\<exists>s'. q_deselect s = Inr s' \<and> q_at s0 QSPIF_QUAD_READ_IDLE 0 s' \<and> m_ireg s' = 0"
  using assms by (auto simp: deselect_defs q_at_def)

lemma q_deselect_leave:
  assumes "q_at s0 QSPIF_QUAD_READ c s" "m_mode_byte s AND 0xf0 \<noteq> 0xa0" "m_sreg s0 AND 0x201 = 0"
  shows "\<exists>s'. q_deselect s = Inr s' \<and> flash_ready s' \<and> q_quiet s' \<and> q_same s0 s' \<and> m_sreg s' = m_sreg s0"
  using assms by (auto simp: q_quiet_def deselect_defs flash_ready_def flash_not_xip_def q_same_def q_at_def)

section \<open>The three uses of quad mode\<close>

text \<open>A continued read: address, mode byte, dummy cycles, then the memory.\<close>

lemma q_xip_read:
  assumes "q_at s0 QSPIF_QUAD_READ_IDLE 0 s" "m_ireg s = 0" "m_sreg s0 AND 0x201 = 0" "NDUMMY s0 = 6"
    and "unat (flash_addr s0 a2 a1 a0) + n < unat (m_membytes s0)" "n < 2 ^ 28"
  shows "\<exists>s' os s''. run q_xfer s ([a2, a1, a0, 0xa0, 0, 0] @ replicate n 0) = Inr (s', os) \<and> q_deselect s' = Inr s''
    \<and> drop 6 os = map (\<lambda>i. m_mem s0 (flash_addr s0 a2 a1 a0 + of_nat i)) [0..<n]
    \<and> q_at s0 QSPIF_QUAD_READ_IDLE 0 s'' \<and> m_ireg s'' = 0"
proof -
  have sreg: "m_sreg s0 AND 0x200 = 0" "m_sreg s0 AND 1 = 0" using assms(3) by (simp_all add: and_eq_0_parts)
  obtain s1 xs where 1: "run q_xfer s [a2, a1, a0] = Inr (s1, xs)" "q_at s0 QSPIF_QUAD_READ 24 s1" "m_addr s1 = flash_addr s0 a2 a1 a0"
    using q_address [OF assms(1,2) sreg(1)] by blast
  obtain s2 x2 where 2: "q_xfer s1 0xa0 = Inr (s2, x2)" "q_at s0 QSPIF_QUAD_READ 32 s2" "m_addr s2 = m_addr s1" "m_mode_byte s2 = 0xa0"
    using q_mode_byte [OF 1(2), of "0xa0"] by auto
  obtain s3 x3 where 3: "q_xfer s2 0 = Inr (s3, x3)" "q_at s0 QSPIF_QUAD_READ 40 s3" "m_addr s3 = m_addr s2" "m_mode_byte s3 = m_mode_byte s2"
    using q_dummy [OF 2(2) assms(4), of 0] by auto
  obtain s4 c where 4: "run q_xfer s3 (replicate (Suc n) 0) =
      Inr (s4, take (Suc n) (ucast (m_oreg s3) # map (\<lambda>i. m_mem s0 (m_addr s3 + of_nat i)) [0..<Suc n]))"
    "q_at s0 QSPIF_QUAD_READ c s4" "m_mode_byte s4 = m_mode_byte s3"
    using q_stream [OF 3(2) assms(4) _ _ _ sreg(2), of "replicate (Suc n) 0"] assms(5,6) 1(3) 2(3) 3(3) by auto
  obtain s5 where 5: "q_deselect s4 = Inr s5" "q_at s0 QSPIF_QUAD_READ_IDLE 0 s5" "m_ireg s5 = 0"
    using q_deselect_stay [OF 4(2)] 4(3) 3(4) 2(4) by auto
  let ?os = "take (Suc n) (ucast (m_oreg s3) # map (\<lambda>i. m_mem s0 (m_addr s3 + of_nat i)) [0..<Suc n])"
  have "run q_xfer s1 [0xa0, 0] = Inr (s3, [x2, x3])" by (simp add: 2(1) 3(1))
  then have "run q_xfer s1 ([0xa0, 0] @ replicate (Suc n) 0) = Inr (s4, [x2, x3] @ ?os)" using 4(1) by (rule run_append_Inr)
  with 1(1) have "run q_xfer s ([a2, a1, a0] @ ([0xa0, 0] @ replicate (Suc n) 0)) = Inr (s4, xs @ ([x2, x3] @ ?os))"
    by (rule run_append_Inr)
  moreover have "[a2, a1, a0] @ ([0xa0, 0] @ replicate (Suc n) 0) = [a2, a1, a0, 0xa0, 0, 0] @ replicate n 0" by simp
  ultimately have r: "run q_xfer s ([a2, a1, a0, 0xa0, 0, 0] @ replicate n 0) = Inr (s4, xs @ ([x2, x3] @ ?os))" by (simp only:)
  have "drop 6 (xs @ ([x2, x3] @ ?os)) = map (\<lambda>i. m_mem s0 (m_addr s3 + of_nat i)) [0..<n]"
    using run_length [OF 1(1)] by simp
  then have "drop 6 (xs @ ([x2, x3] @ ?os)) = map (\<lambda>i. m_mem s0 (flash_addr s0 a2 a1 a0 + of_nat i)) [0..<n]"
    using 1(3) 2(3) 3(3) by simp
  then show ?thesis using r 5 by blast
qed

text \<open>Clocks of the reset command, as a device in continued read sees them: an address, a mode byte that
  ends the mode, and data.\<close>

lemma q_leave:
  assumes "q_at s0 QSPIF_QUAD_READ_IDLE 0 s" "m_ireg s = 0" "m_sreg s0 AND 0x201 = 0" "NDUMMY s0 = 6"
    and "unat (flash_addr s0 a2 a1 a0) + length bs \<le> unat (m_membytes s0)" "length bs < 2 ^ 28" "b AND 0xf0 \<noteq> 0xa0"
  shows "\<exists>s' os s''. run q_xfer s ([a2, a1, a0, b, b'] @ bs) = Inr (s', os) \<and> q_deselect s' = Inr s''
    \<and> flash_ready s'' \<and> q_quiet s'' \<and> q_same s0 s''"
proof -
  have sreg: "m_sreg s0 AND 0x200 = 0" "m_sreg s0 AND 1 = 0" using assms(3) by (simp_all add: and_eq_0_parts)
  obtain s1 xs where 1: "run q_xfer s [a2, a1, a0] = Inr (s1, xs)" "q_at s0 QSPIF_QUAD_READ 24 s1" "m_addr s1 = flash_addr s0 a2 a1 a0"
    using q_address [OF assms(1,2) sreg(1)] by blast
  obtain s2 x2 where 2: "q_xfer s1 b = Inr (s2, x2)" "q_at s0 QSPIF_QUAD_READ 32 s2" "m_addr s2 = m_addr s1" "m_mode_byte s2 = ucast b"
    using q_mode_byte [OF 1(2), of b] by auto
  obtain s3 x3 where 3: "q_xfer s2 b' = Inr (s3, x3)" "q_at s0 QSPIF_QUAD_READ 40 s3" "m_addr s3 = m_addr s2" "m_mode_byte s3 = m_mode_byte s2"
    using q_dummy [OF 2(2) assms(4), of b'] by auto
  obtain s4 c ys where 4: "run q_xfer s3 bs = Inr (s4, ys)" "q_at s0 QSPIF_QUAD_READ c s4" "m_mode_byte s4 = m_mode_byte s3"
    using q_stream [OF 3(2) assms(4) _ _ _ sreg(2), of bs] assms(5,6) 1(3) 2(3) 3(3) by auto
  have "(ucast b AND 0xf0 :: u32) \<noteq> 0xa0"
  proof
    assume "(ucast b AND 0xf0 :: u32) = 0xa0"
    then have "(ucast (ucast b AND 0xf0 :: u32) :: u8) = ucast (0xa0 :: u32)" by (rule arg_cong)
    moreover have "(ucast (ucast b AND 0xf0 :: u32) :: u8) = b AND 0xf0"
      by (rule bit_word_eqI) (auto simp: bit_simps bit_0xf0)
    ultimately show False using assms(7) by simp
  qed
  then have mode: "m_mode_byte s4 AND 0xf0 \<noteq> 0xa0" using 2(4) 3(4) 4(3) by simp
  obtain s5 where 5: "q_deselect s4 = Inr s5" "flash_ready s5" "q_quiet s5" "q_same s0 s5"
    using q_deselect_leave [OF 4(2) mode assms(3)] by blast
  have "run q_xfer s1 [b, b'] = Inr (s3, [x2, x3])" by (simp add: 2(1) 3(1))
  then have "run q_xfer s1 ([b, b'] @ bs) = Inr (s4, [x2, x3] @ ys)" using 4(1) by (rule run_append_Inr)
  with 1(1) have "run q_xfer s ([a2, a1, a0] @ ([b, b'] @ bs)) = Inr (s4, xs @ ([x2, x3] @ ys))"
    by (rule run_append_Inr)
  then show ?thesis using 5 by simp
qed

text \<open>The quad read command at address 0, with the mode byte that keeps the mode.\<close>

lemma q_enter:
  assumes "flash_ready s" "flash_wf lg s" "NDUMMY s = 6" "5 + length bs \<le> unat (m_membytes s)" "length bs < 2 ^ 28"
  shows "\<exists>s1 x s' os s''. flash_xfer s 0xeb = Inr (s1, x) \<and> run q_xfer s1 ([0, 0, 0, 0xa0, 0, 0] @ bs) = Inr (s', os)
    \<and> q_deselect s' = Inr s'' \<and> q_at s QSPIF_QUAD_READ_IDLE 0 s'' \<and> m_ireg s'' = 0"
proof -
  let ?f = "flash_fill s 0xeb"
  let ?s1 = "(QOREG 0xa5 ?f)\<lparr>m_state := QSPIF_QUAD_READ_CMD, m_mode := FM_QSPI\<rparr>"
  have r: "m_mode s = FM_SPI" "m_last_sck s = 1" "flash_not_xip s" "m_count s = 0" "m_write_count s = 0" "m_sreg s AND 0x201 = 0"
    using assms(1) by (simp_all add: flash_ready_def)
  then have sreg: "m_sreg s AND 0x200 = 0" "m_sreg s AND 1 = 0" by (simp_all add: and_eq_0_parts)
  have "flash_command ?f = Inr ?s1"
    using sreg flash_fill_command [of s "0xeb"] by (simp add: flash_command_def Let_def del: flash_fill_frame(5))
  then have "flash_process ?f = Inr ?s1" using assms(1) by (simp add: flash_process_command)
  then obtain x where 0: "flash_xfer s 0xeb = Inr (?s1, x)" using flash_xfer_step [of s "0xeb" ?s1] r by auto
  have 1: "q_at s QSPIF_QUAD_READ_CMD 8 ?s1" "m_ireg ?s1 = push_bit 8 (m_ireg s) OR ucast (0xeb :: u8)"
    using r by (simp_all add: q_at_def)
  obtain s2 x2 where 2: "q_xfer ?s1 0 = Inr (s2, x2)" "q_at s QSPIF_QUAD_READ_CMD 16 s2" "m_ireg s2 = push_bit 8 (m_ireg ?s1) OR ucast (0 :: u8)"
    using q_dummy [OF 1(1) assms(3), of 0] by auto
  obtain s3 x3 where 3: "q_xfer s2 0 = Inr (s3, x3)" "q_at s QSPIF_QUAD_READ_CMD 24 s3" "m_ireg s3 = push_bit 8 (m_ireg s2) OR ucast (0 :: u8)"
    using q_dummy [OF 2(2) assms(3), of 0] by auto
  obtain s4 x4 where 4: "q_xfer s3 0 = Inr (s4, x4)" "q_at s QSPIF_QUAD_READ_CMD 32 s4"
    "m_addr s4 = (push_bit 8 (m_ireg s3) OR ucast (0 :: u8)) AND m_memmask s"
    using q_latch [OF 3(2), of 0] by blast
  have "push_bit 8 (m_ireg s3) OR ucast (0 :: u8) = word_of_bytes 0xeb 0 0 0"
    using push8_four [of "m_ireg s" "0xeb" 0 0 0] by (simp only: 1(2) 2(3) 3(3))
  then have a: "m_addr s4 = 0" using 4(3) flash_addr_eq [OF assms(2), of "0xeb" 0 0 0] by (simp add: flash_addr_def word_of_bytes_def)
  obtain s5 x5 where 5: "q_xfer s4 0xa0 = Inr (s5, x5)" "q_at s QSPIF_QUAD_READ_CMD 40 s5" "m_addr s5 = m_addr s4" "m_mode_byte s5 = 0xa0"
    using q_mode_byte [OF 4(2), of "0xa0"] by auto
  obtain s6 x6 where 6: "q_xfer s5 0 = Inr (s6, x6)" "q_at s QSPIF_QUAD_READ_CMD 48 s6" "m_addr s6 = m_addr s5" "m_mode_byte s6 = m_mode_byte s5"
    using q_dummy [OF 5(2) assms(3), of 0] by auto
  obtain s7 x7 where 7: "q_xfer s6 0 = Inr (s7, x7)" "q_at s QSPIF_QUAD_READ_CMD 56 s7" "m_addr s7 = m_addr s6" "m_mode_byte s7 = m_mode_byte s6"
    using q_dummy [OF 6(2) assms(3), of 0] by auto
  obtain s8 c ys where 8: "run q_xfer s7 bs = Inr (s8, ys)" "q_at s QSPIF_QUAD_READ_CMD c s8" "m_mode_byte s8 = m_mode_byte s7"
    using q_stream [OF 7(2) assms(3) _ _ _ sreg(2), of bs] assms(4,5) a 5(3) 6(3) 7(3) by auto
  obtain s9 where 9: "q_deselect s8 = Inr s9" "q_at s QSPIF_QUAD_READ_IDLE 0 s9" "m_ireg s9 = 0"
    using q_deselect_stay [OF 8(2)] 8(3) 7(4) 6(4) 5(4) by auto
  have "run q_xfer ?s1 [0, 0, 0, 0xa0, 0, 0] = Inr (s7, [x2, x3, x4, x5, x6, x7])"
    by (simp add: 2(1) 3(1) 4(1) 5(1) 6(1) 7(1))
  then have "run q_xfer ?s1 ([0, 0, 0, 0xa0, 0, 0] @ bs) = Inr (s8, [x2, x3, x4, x5, x6, x7] @ ys)"
    using 8(1) by (rule run_append_Inr)
  then show ?thesis using 0 9 by blast
qed

section \<open>Bytes on the serial line\<close>

text \<open>Where a byte on the serial line is a step of the simulator.\<close>

definition q_spi :: "flash \<Rightarrow> bool" where
  "q_spi s \<longleftrightarrow> m_mode s = FM_SPI \<and> m_last_sck s = 1 \<and> flash_not_xip s \<and> m_state s \<noteq> QSPIF_QPP \<and> m_count s AND 7 = 0"

lemma q_spi_command:
  assumes "flash_command s = Inr t" "m_ireg s AND 0xff \<notin> {0xbb, 0xeb, 0x32}"
    and "m_mode s = FM_SPI" "flash_not_xip s" "m_state s \<noteq> QSPIF_QPP"
  shows "m_mode t = FM_SPI \<and> flash_not_xip t \<and> m_state t \<noteq> QSPIF_QPP \<and> m_count t = m_count s"
  using assms by (simp add: flash_command_def flash_write_command_def flash_not_xip_def Let_def split: if_split_asm; auto)

lemma q_spi_byte_keeps:
  assumes "flash_byte s = Inr t" "m_mode s = FM_SPI" "flash_not_xip s" "m_state s \<noteq> QSPIF_QPP"
  shows "m_mode t = FM_SPI \<and> flash_not_xip t \<and> m_state t \<noteq> QSPIF_QPP \<and> m_count t = m_count s"
  using assms
  by (cases "m_state s")
    (auto simp: flash_byte_def flash_read_byte_def flash_write_byte_def flash_not_xip_def flash_fetch_def flash_latch_addr_def
       flash_page_byte_def flash_id_byte_def Let_def split: if_split_asm)

lemma q_spi_step:
  assumes "q_spi s" "flash_xfer s b = Inr (s', x)" "m_count s = 0 \<longrightarrow> b \<notin> {0xbb, 0xeb, 0x32}" "unat (m_count s) + 8 < 2 ^ 32"
  shows "q_spi s' \<and> m_count s' = m_count s + 8"
proof -
  have s: "m_mode s = FM_SPI" "m_last_sck s = 1" "flash_not_xip s" "m_count s AND 7 = 0" "m_state s \<noteq> QSPIF_QPP"
    using assms(1) by (simp_all add: q_spi_def)
  let ?l = "flash_load_byte s b"
  have l: "m_mode ?l = FM_SPI" "flash_not_xip ?l" "m_state ?l \<noteq> QSPIF_QPP" "m_count ?l = m_count s + 8"
    using s by (simp_all add: flash_load_byte_def flash_not_xip_def)
  obtain t where t: "flash_process ?l = Inr t" "s' = (flash_timer t)\<lparr>m_last_sck := 1\<rparr>"
    using assms(2) flash_xfer_eq [OF s(1-4)] by (auto simp: flash_after_byte_def Let_def)
  have "m_mode t = FM_SPI \<and> flash_not_xip t \<and> m_state t \<noteq> QSPIF_QPP \<and> m_count t = m_count ?l"
  proof (cases "m_count ?l = 8")
    case True
    then have "flash_command ?l = Inr t" using t(1) l(2) by (simp add: flash_process_def flash_not_xip_def)
    moreover have "m_count s = 0" using True l(4) by simp
    then have "b \<notin> {0xbb, 0xeb, 0x32}" using assms(3) by simp
    then have "m_ireg ?l AND 0xff \<notin> {0xbb, 0xeb, 0x32}"
    proof -
      have "m_ireg ?l AND 0xff = ucast b" by (simp add: flash_load_byte_def command_byte)
      moreover have "ucast b \<noteq> (ucast c :: u32)" if "b \<noteq> c" for c :: u8
        using that ucast_byte_word [of b] ucast_byte_word [of c] by metis
      from this [of "0xbb"] this [of "0xeb"] this [of "0x32"] have "ucast b \<notin> {0xbb, 0xeb, 0x32 :: u32}"
        using \<open>b \<notin> {0xbb, 0xeb, 0x32}\<close> by simp
      ultimately show ?thesis by simp
    qed
    ultimately show ?thesis using q_spi_command l(1-3) by blast
  next
    case False
    have "flash_process ?l = flash_byte ?l"
      using False l and_7_step [OF s(4) assms(4)] assms(4)
      by (intro flash_process_byte) (auto simp: unat_eq_0 [symmetric] simp del: unat_eq_0)
    then show ?thesis using q_spi_byte_keeps t(1) l(1-3) by simp
  qed
  then show ?thesis using t(2) l(4) and_7_step [OF s(4) assms(4)] by (simp add: q_spi_def flash_not_xip_def)
qed

end
