(* ===== verification/FlashBoard.thy ===== *)
theory FlashBoard
  imports FlashDrvrSpec FlashQspi
begin

text \<open>
  A board for the flash driver: the simulated flash behind a transaction-level abstraction of its
  controller (\<open>rtl/qflexpress.v\<close>), with the register and the memory window the driver uses.  The
  contract \<open>flash_board\<close> is interpreted on it, so that what the driver promises holds of the driver and
  the simulator run together.
\<close>

section \<open>The controller\<close>

text \<open>The last byte received, and whether the controller is in its configuration mode.\<close>

record board =
  q_flash :: flash
  q_data :: u8
  q_cfg :: bool

text \<open>
  A byte at low speed: the data pipe has bit 0 of each nibble as the data line, the bits above it being
  what the same byte left there.
\<close>

definition ls_nibbles :: "u8 \<Rightarrow> u32 list" where
  "ls_nibbles b = [(drop_bit 4 (ucast b) AND 0xe) OR of_bool (bit b 7), (ucast b AND 0xe) OR of_bool (bit b 6),
     of_bool (bit b 5), of_bool (bit b 4), of_bool (bit b 3), of_bool (bit b 2), 0xa OR of_bool (bit b 1),
     of_bool (bit b 0)]"

definition send_ls :: "flash \<Rightarrow> u8 \<Rightarrow> fault + flash \<times> u8" where
  "send_ls s b = rbind (run q_bit s (ls_nibbles b)) (\<lambda>(s, bs). Inr (s, byte_of_bits bs))"

definition send_byte :: "u32 \<Rightarrow> flash \<Rightarrow> fault + flash \<times> u8" where
  "send_byte v s = (if bit v 11 then q_xfer s (ucast v) else send_ls s (ucast v))"

definition board_writeio :: "u32 \<Rightarrow> u32 \<Rightarrow> board \<Rightarrow> fault + board" where
  "board_writeio a v q =
     (if a \<noteq> R_FLASHCFG then Inr q
      else if bit v 12 \<and> \<not> bit v 8
      then rbind (send_byte v (q_flash q)) (\<lambda>(f, x). Inr (q\<lparr>q_flash := f, q_data := x, q_cfg := True\<rparr>))
      else rbind (q_deselect (q_flash q)) (\<lambda>f. Inr (q\<lparr>q_flash := f, q_cfg := bit v 12\<rparr>)))"

definition board_readio :: "u32 \<Rightarrow> board \<Rightarrow> fault + board \<times> u32" where
  "board_readio a q = Inr (q, if a = R_FLASHCFG then ucast (q_data q) else 0)"

text \<open>A read of the window: a continued quad read of \<open>n\<close> words at a word address.\<close>

definition xip_bytes :: "u32 \<Rightarrow> nat \<Rightarrow> u8 list" where
  "xip_bytes a n = [ucast (drop_bit 16 a), ucast (drop_bit 8 a), ucast a AND 0xfc, 0xa0, 0, 0] @ replicate (4 * n) 0"

definition bytes_words :: "u8 list \<Rightarrow> nat \<Rightarrow> u32 list" where
  "bytes_words bs n = map (\<lambda>k. mem_word ((!) bs) (4 * k)) [0..<n]"

definition board_readi :: "u32 \<Rightarrow> nat \<Rightarrow> board \<Rightarrow> fault + board \<times> u32 list" where
  "board_readi a n q =
     (if q_cfg q then Inr (q, replicate n (ucast (q_data q)))
      else rbind (run q_xfer (q_flash q) (xip_bytes a n)) (\<lambda>(f, os).
           rbind (q_deselect f) (\<lambda>f. Inr (q\<lparr>q_flash := f\<rparr>, bytes_words (drop 6 os) n))))"

definition Board :: "board devbus" where
  "Board = \<lparr>bus_writeio = board_writeio, bus_readio = board_readio, bus_readi = board_readi\<rparr>"

lemma Board_simps [simp]:
  "bus_writeio Board = board_writeio" "bus_readio Board = board_readio" "bus_readi Board = board_readi"
  by (simp_all add: Board_def)

section \<open>Sequences of writes\<close>

lemma cfg_writes_append: "cfg_writes B (xs @ ys) d = rbind (cfg_writes B xs d) (cfg_writes B ys)"
  by (induction xs arbitrary: d) (auto intro: rbind_cong)

lemma cfg_writes_then:
  "cfg_writes B xs d = Inr d' \<Longrightarrow> cfg_writes B ys d' = r \<Longrightarrow> cfg_writes B (xs @ ys) d = r"
  by (simp add: cfg_writes_append)

text \<open>Raising chip select, in or out of configuration mode.\<close>

lemma board_end:
  assumes "q_deselect (q_flash q) = Inr f"
  shows "cfg_writes Board [F_END] q = Inr (q\<lparr>q_flash := f, q_cfg := True\<rparr>)"
    and "cfg_writes Board [CFG_USER_CS_n] q = Inr (q\<lparr>q_flash := f, q_cfg := False\<rparr>)"
  using assms by (simp_all add: board_writeio_def F_END_def CFG_USERMODE_def CFG_USER_CS_n_def bit_simps)

text \<open>A run of bytes, each from its word.\<close>

lemma board_send:
  assumes "run (\<lambda>s v. send_byte v s) (q_flash q) vs = Inr (f, os)" "\<And>v. v \<in> set vs \<Longrightarrow> bit v 12 \<and> \<not> bit v 8" "vs \<noteq> []"
  shows "cfg_writes Board vs q = Inr \<lparr>q_flash = f, q_data = last os, q_cfg = True\<rparr>"
  using assms
proof (induction vs arbitrary: q os)
  case (Cons v vs)
  obtain f1 x os' where 1: "send_byte v (q_flash q) = Inr (f1, x)" "run (\<lambda>s v. send_byte v s) f1 vs = Inr (f, os')" "os = x # os'"
    using Cons.prems(1) by (auto split: prod.splits)
  have w: "board_writeio R_FLASHCFG v q = Inr (q\<lparr>q_flash := f1, q_data := x, q_cfg := True\<rparr>)"
    using 1(1) Cons.prems(2) by (simp add: board_writeio_def)
  show ?case
  proof (cases "vs = []")
    case True
    then show ?thesis using w 1(2,3) by (cases q) simp
  next
    case False
    then have "os' \<noteq> []" using run_length [OF 1(2)] by auto
    then show ?thesis using w 1(3) Cons.IH [of "q\<lparr>q_flash := f1, q_data := x, q_cfg := True\<rparr>" os'] 1(2) Cons.prems(2) False by simp
  qed
qed simp

lemma ls_bit_0: "map (\<lambda>n. bit n 0) (ls_nibbles b) = byte_bits b"
proof -
  have "\<not> bit (0xe :: int) 0" "\<not> bit (0xa :: int) 0" by simp_all
  then show ?thesis by (simp add: ls_nibbles_def byte_bits_def bit_simps)
qed

lemma send_ls_spi: "q_spi s \<Longrightarrow> send_ls s b = flash_xfer s b"
  using q_spi_byte [OF _ _ _ _ ls_bit_0] by (simp add: q_spi_def send_ls_def)

text \<open>A command on the serial line: its bytes at low speed are the simulator's byte steps.\<close>

lemma send_spi_from:
  assumes "run flash_xfer s (map ucast vs) = Inr (s', os)" "q_spi s" "\<And>v. v \<in> set vs \<Longrightarrow> \<not> bit v 11"
    and "m_count s \<noteq> 0" "unat (m_count s) + 8 * length vs < 2 ^ 32"
  shows "run (\<lambda>s v. send_byte v s) s vs = Inr (s', os)"
  using assms
proof (induction vs arbitrary: s os)
  case (Cons v vs)
  obtain s1 x os' where 1: "flash_xfer s (ucast v) = Inr (s1, x)" "run flash_xfer s1 (map ucast vs) = Inr (s', os')" "os = x # os'"
    using Cons.prems(1) by (auto split: prod.splits)
  have s1: "q_spi s1" "m_count s1 = m_count s + 8" using q_spi_step [OF Cons.prems(2) 1(1)] Cons.prems(4,5) by simp_all
  have u: "unat (m_count s + 8) = unat (m_count s) + 8" using Cons.prems(5) by (simp add: unat_word_ariths)
  have "run (\<lambda>s v. send_byte v s) s1 vs = Inr (s', os')"
  proof (rule Cons.IH [OF 1(2) s1(1)])
    show "\<not> bit w 11" if "w \<in> set vs" for w using Cons.prems(3) that by simp
    show "m_count s1 \<noteq> 0" using u unfolding s1(2) by auto
    show "unat (m_count s1) + 8 * length vs < 2 ^ 32" using Cons.prems(5) u unfolding s1(2) by simp
  qed
  moreover have "send_byte v s = Inr (s1, x)"
    using 1(1) Cons.prems(2,3) by (simp add: send_byte_def send_ls_spi)
  ultimately show ?case using 1(3) by simp
qed simp

lemma send_spi:
  assumes "run flash_xfer s (map ucast (v # vs)) = Inr (s', os)" "q_spi s" "\<And>w. w \<in> set (v # vs) \<Longrightarrow> \<not> bit w 11"
    and "m_count s = 0" "ucast v \<notin> {0xbb, 0xeb, 0x32 :: u8}" "8 * length vs < 2 ^ 31"
  shows "run (\<lambda>s v. send_byte v s) s (v # vs) = Inr (s', os)"
proof -
  obtain s1 x os' where 1: "flash_xfer s (ucast v) = Inr (s1, x)" "run flash_xfer s1 (map ucast vs) = Inr (s', os')" "os = x # os'"
    using assms(1) by (auto split: prod.splits)
  have s1: "q_spi s1" "m_count s1 = 8" using q_spi_step [OF assms(2) 1(1)] assms(4,5) by simp_all
  have "run (\<lambda>s v. send_byte v s) s1 vs = Inr (s', os')"
    using send_spi_from [OF 1(2) s1(1)] s1(2) assms(3,6) by simp
  moreover have "send_byte v s = Inr (s1, x)" using 1(1) assms(2,3) by (simp add: send_byte_def send_ls_spi)
  ultimately show ?thesis using 1(3) by simp
qed

section \<open>The words of a command\<close>

lemma cmd_bits:
  "bit (CFG_USERMODE OR ucast c) 12" "\<not> bit (CFG_USERMODE OR ucast c) 8" "\<not> bit (CFG_USERMODE OR ucast c) 11"
  "bit (CFG_USERMODE OR CFG_WEDIR OR ucast c) 12" "\<not> bit (CFG_USERMODE OR CFG_WEDIR OR ucast c) 8"
  "\<not> bit (CFG_USERMODE OR CFG_WEDIR OR ucast c) 11"
  for c :: u8
  using bit_imp_le_length [of c 12] bit_imp_le_length [of c 8] bit_imp_le_length [of c 11]
  by (auto simp: CFG_USERMODE_def CFG_WEDIR_def bit_simps)

lemma bit_mode: "bit CFG_USERMODE n \<longleftrightarrow> n = 12" "bit CFG_WEDIR n \<longleftrightarrow> n = 9"
  by (auto simp only: CFG_USERMODE_def CFG_WEDIR_def bit_push_bit_iff bit_1_iff) simp_all

lemma cmd_byte: "ucast (CFG_USERMODE OR ucast c) = c" "ucast (CFG_USERMODE OR CFG_WEDIR OR ucast c) = c" for c :: u8
  by (rule bit_word_eqI, auto simp: bit_mode bit_simps)+

lemma cmd_byte_at: "x AND 0xff = ucast (ucast x :: u8)" for x :: u32
  by (rule bit_word_eqI) (auto simp: bit_simps bit_0xff dest: bit_imp_le_length)

definition cmd :: "u8 \<Rightarrow> u32" where
  "cmd c = CFG_USERMODE OR ucast c"

lemma cmd_ucast [simp]: "ucast (cmd c) = c"
  by (simp only: cmd_def cmd_byte)

lemma cmd_bit [simp]: "bit (cmd c) 12" "\<not> bit (cmd c) 8" "\<not> bit (cmd c) 11"
  by (simp_all only: cmd_def cmd_bits simp_thms)

lemma cmds:
  "F_RESET = cmd 0xff" "F_EMPTY = cmd 0" "F_PP = cmd 2" "F_WRDI = cmd 4" "F_RDSR1 = cmd 5" "F_WREN = cmd 6" "F_SE = cmd 0xd8"
  "CFG_USERMODE OR 0x81 = cmd 0x81" "CFG_USERMODE OR 0xf3 = cmd 0xf3" "CFG_USERMODE OR 0xeb = cmd 0xeb" "CFG_USERMODE = cmd 0"
  "CFG_USERMODE OR 0x9f = cmd 0x9f"
  by (simp_all add: cmd_def F_RESET_def F_EMPTY_def F_PP_def F_WRDI_def F_RDSR1_def F_WREN_def F_SE_def)

lemma cfg_addr_cmds: "cfg_addr a = map cmd [ucast (drop_bit 16 a), ucast (drop_bit 8 a), ucast a]"
  by (simp only: cfg_addr_def cmd_byte_at cmd_def list.map)

section \<open>Out of the continued read\<close>

definition off :: "flash \<Rightarrow> bool" where
  "off f \<longleftrightarrow> flash_ready f \<and> q_quiet f \<and> flash_wf 24 f \<and> NDUMMY f = 6"

lemma off_spi: "off f \<Longrightarrow> q_spi f \<and> m_count f = 0"
  by (auto simp: off_def flash_ready_def q_quiet_def q_spi_def)

lemma off_deselect:
  assumes "m_mode f = FM_SPI" "m_write_count f = 0" "m_sreg f AND 0x201 = 0" "q_quiet f" "flash_wf 24 f" "NDUMMY f = 6"
  shows "\<exists>f'. q_deselect f = Inr f' \<and> off f' \<and> m_mem f' = m_mem f \<and> m_sreg f' = m_sreg f \<and> m_state f' = m_state f"
  using q_deselect_ready [OF assms(4,1,2,3)] assms(5,6) by (auto simp: off_def q_same_def flash_wf_def)

lemma off_end:
  assumes "off f"
  shows "\<exists>f'. q_deselect f = Inr f' \<and> off f' \<and> m_mem f' = m_mem f \<and> m_sreg f' = m_sreg f \<and> m_state f' = m_state f"
  using assms by (intro off_deselect) (simp_all add: off_def flash_ready_def)

text \<open>A command on the serial line, from its first byte to the end of the transaction.\<close>

lemma board_command:
  assumes "run flash_xfer (q_flash q) (c # bs) = Inr (f, os)" "q_deselect f = Inr f'" "off (q_flash q)"
    and "c \<notin> {0xbb, 0xeb, 0x32}" "length bs < 2 ^ 20"
    and "map ucast vs = c # bs" "\<And>v. v \<in> set vs \<Longrightarrow> bit v 12 \<and> \<not> bit v 8 \<and> \<not> bit v 11"
  shows "\<exists>x. cfg_writes Board (vs @ [F_END]) q = Inr \<lparr>q_flash = f', q_data = x, q_cfg = True\<rparr>"
proof -
  obtain v ws where vs: "vs = v # ws" "ucast v = c" "map ucast ws = bs" using assms(6) by auto
  then have "length ws = length bs" by auto
  then have len: "8 * length ws < 2 ^ 31" using assms(5) by simp
  have m: "map ucast (v # ws) = c # bs" using vs by simp
  have "run (\<lambda>s v. send_byte v s) (q_flash q) (v # ws) = Inr (f, os)"
  proof (rule send_spi)
    show "run flash_xfer (q_flash q) (map ucast (v # ws)) = Inr (f, os)" unfolding m by (rule assms(1))
    show "q_spi (q_flash q)" "m_count (q_flash q) = 0" using off_spi [OF assms(3)] by simp_all
    show "\<not> bit w 11" if "w \<in> set (v # ws)" for w using assms(7) that vs(1) by simp
    show "ucast v \<notin> {0xbb, 0xeb, 0x32 :: u8}" using assms(4) unfolding vs(2) .
  qed (rule len)
  then have "cfg_writes Board vs q = Inr \<lparr>q_flash = f, q_data = last os, q_cfg = True\<rparr>"
    unfolding vs(1) using assms(7) vs(1) by (intro board_send) auto
  then have "cfg_writes Board (vs @ [F_END]) q = cfg_writes Board [F_END] \<lparr>q_flash = f, q_data = last os, q_cfg = True\<rparr>"
    by (rule cfg_writes_then) simp
  then show ?thesis using board_end(1) [of "\<lparr>q_flash = f, q_data = last os, q_cfg = True\<rparr>" f'] assms(2) by auto
qed

lemma board_cmds:
  assumes "run flash_xfer (q_flash q) (c # bs) = Inr (f, os)" "q_deselect f = Inr f'" "off (q_flash q)"
    and "c \<notin> {0xbb, 0xeb, 0x32}" "length bs < 2 ^ 20"
  shows "\<exists>x. cfg_writes Board (map cmd (c # bs) @ [F_END]) q = Inr \<lparr>q_flash = f', q_data = x, q_cfg = True\<rparr>"
  using assms by (intro board_command) (auto simp: o_def cmd_def cmd_byte cmd_bits)

text \<open>A byte in the idle state is thrown away.\<close>

lemma off_idle_byte:
  assumes "m_state s = QSPIF_IDLE" "q_spi s" "m_write_count s = 0" "8 \<le> unat (m_count s)" "unat (m_count s) + 8 < 2 ^ 32"
  shows "\<exists>s' x. flash_xfer s b = Inr (s', x) \<and> m_state s' = QSPIF_IDLE \<and> q_spi s' \<and> m_write_count s' = 0
    \<and> m_count s' = m_count s + 8 \<and> m_sreg s' = m_sreg s \<and> q_same s s'"
proof -
  let ?f = "flash_fill s b"
  let ?t = "(flash_unthrottle (QOREG 0 ?f))\<lparr>m_idle_throttle := True\<rparr>"
  have s: "m_mode s = FM_SPI" "m_last_sck s = 1" "flash_not_xip s" "m_count s AND 7 = 0" using assms(2) by (simp_all add: q_spi_def)
  have u: "unat (m_count s + 8) = unat (m_count s) + 8" "(m_count s + 8) AND 7 = 0" using and_7_step [OF s(4) assms(5)] by simp_all
  have "m_count s + 8 \<noteq> 0" "m_count s + 8 \<noteq> 8" using u(1) assms(4) by auto
  then have "flash_process ?f = flash_byte ?f" using s u(2) by (intro flash_process_byte) (simp_all add: flash_not_xip_def)
  then have "flash_process ?f = Inr ?t" using assms(1) by (simp add: flash_byte_def)
  then obtain x where "flash_xfer s b = Inr (?t, x)" using flash_xfer_step [OF s assms(3), of b ?t] s assms(3) by auto
  then show ?thesis using assms(1-3) u(2) by (intro exI [of _ ?t] exI [of _ x]) (simp add: q_spi_def flash_not_xip_def q_same_def)
qed

lemma off_idle_bytes:
  assumes "m_state s = QSPIF_IDLE" "q_spi s" "m_write_count s = 0" "8 \<le> unat (m_count s)" "unat (m_count s) + 8 * length bs < 2 ^ 32"
  shows "\<exists>s' os. run flash_xfer s bs = Inr (s', os) \<and> m_state s' = QSPIF_IDLE \<and> q_spi s' \<and> m_write_count s' = 0
    \<and> m_sreg s' = m_sreg s \<and> q_same s s'"
  using assms
proof (induction bs arbitrary: s)
  case (Cons b bs)
  obtain s1 x where 1: "flash_xfer s b = Inr (s1, x)" "m_state s1 = QSPIF_IDLE" "q_spi s1" "m_write_count s1 = 0"
    "m_count s1 = m_count s + 8" "m_sreg s1 = m_sreg s" "q_same s s1"
    using off_idle_byte [OF Cons.prems(1-4), of b] Cons.prems(5) by auto
  have "unat (m_count s1) = unat (m_count s) + 8" using 1(5) Cons.prems(5) by (simp add: unat_word_ariths)
  then obtain s2 os where "run flash_xfer s1 bs = Inr (s2, os)" "m_state s2 = QSPIF_IDLE" "q_spi s2" "m_write_count s2 = 0"
    "m_sreg s2 = m_sreg s1" "q_same s1 s2"
    using Cons.IH [OF 1(2-4)] Cons.prems(4,5) by auto
  then show ?case using 1(1,6,7) by (auto simp: q_same_def)
qed (simp add: q_same_def)

lemma off_idle_command:
  assumes "off s" "flash_command (flash_fill s c) = Inr t" "m_state t = QSPIF_IDLE" "m_mode t = FM_SPI" "m_write_count t = 0"
    and "m_last_sck t = 1" "m_count t = 8" "m_sreg t AND 0x201 = 0" "q_same s t" "length bs < 2 ^ 20"
  shows "\<exists>f os f'. run flash_xfer s (c # bs) = Inr (f, os) \<and> q_deselect f = Inr f' \<and> off f' \<and> m_mem f' = m_mem s
    \<and> m_sreg f' = m_sreg t \<and> m_state f' = QSPIF_IDLE"
proof -
  have s: "m_mode s = FM_SPI" "m_last_sck s = 1" "flash_not_xip s" "m_count s AND 7 = 0" "m_write_count s = 0" "flash_ready s"
    using assms(1) by (simp_all add: off_def flash_ready_def)
  have "flash_process (flash_fill s c) = Inr t" using assms(2) flash_process_command [OF s(6)] by simp
  then obtain x where x: "flash_xfer s c = Inr (t, x)" using flash_xfer_step [OF s(1-5)] assms(5,6) by blast
  have "q_spi t" using assms(3,4,6,7) by (simp add: q_spi_def flash_not_xip_def)
  then obtain f os where f: "run flash_xfer t bs = Inr (f, os)" "m_state f = QSPIF_IDLE" "q_spi f" "m_write_count f = 0"
    "m_sreg f = m_sreg t" "q_same t f"
    using off_idle_bytes [OF assms(3) _ assms(5), of bs] assms(7,10) by auto
  have "flash_wf 24 f" "NDUMMY f = 6" "q_quiet f" "m_mode f = FM_SPI" "m_sreg f AND 0x201 = 0" "m_mem f = m_mem s"
    using f(2,3,5,6) assms(1,8,9) by (simp_all add: off_def q_same_def flash_wf_def q_quiet_def q_spi_def)
  then obtain f' where "q_deselect f = Inr f'" "off f'" "m_mem f' = m_mem s" "m_sreg f' = m_sreg t" "m_state f' = QSPIF_IDLE"
    using off_deselect [of f] f(2,4,5) by auto
  then show ?thesis using x f(1) by auto
qed

lemma off_sreg: "off s \<Longrightarrow> m_sreg s AND 0x200 = 0 \<and> m_sreg s AND 0x201 = 0"
  by (simp add: off_def flash_ready_def and_eq_0_parts)

lemma off_enable_sreg: "x AND 0x201 = 0 \<Longrightarrow> (x OR 2) AND 0x201 = 0 \<and> (x OR 2) AND 2 \<noteq> 0 \<and> (x AND NOT 2) AND 0x201 = 0" for x :: u32
proof -
  assume x: "x AND 0x201 = 0"
  have "(x OR 2) AND 0x201 = (x AND 0x201) OR (2 AND 0x201)" "(x OR 2) AND 2 = 2"
    by (simp_all add: bit.conj_disj_distrib2)
  moreover have "(x AND NOT 2) AND 0x201 = (x AND 0x201) AND NOT 2" by (simp add: and.assoc and.commute and.left_commute)
  ultimately show ?thesis using x by simp
qed

section \<open>Commands that only touch the latch\<close>

definition cell :: "nat \<Rightarrow> u32" where
  "cell i = of_nat (i - flash_lo)"

definition board_mem :: "board \<Rightarrow> nat \<Rightarrow> u8" where
  "board_mem q = (\<lambda>i. if flash_lo \<le> i \<and> i < 0x0a000000 then m_mem (q_flash q) (cell i) else 0)"

lemma board_mem_eq: "m_mem (q_flash q') = m_mem (q_flash q) \<Longrightarrow> board_mem q' = board_mem q"
  by (auto simp: board_mem_def fun_eq_iff)

lemma off_command_byte: "m_ireg (QOREG 0xa5 (flash_fill s c)) AND 0xff = ucast c"
  using flash_fill_command [of s c] by simp

lemma board_end_off:
  assumes "off (q_flash q)"
  shows "\<exists>q'. cfg_writes Board [F_END] q = Inr q' \<and> off (q_flash q') \<and> board_mem q' = board_mem q
    \<and> m_sreg (q_flash q') = m_sreg (q_flash q) \<and> m_state (q_flash q') = m_state (q_flash q)"
proof -
  obtain f' where f': "q_deselect (q_flash q) = Inr f'" "off f'" "m_mem f' = m_mem (q_flash q)" "m_sreg f' = m_sreg (q_flash q)"
    "m_state f' = m_state (q_flash q)"
    using off_end [OF assms] by blast
  let ?q = "q\<lparr>q_flash := f', q_cfg := True\<rparr>"
  have "board_mem ?q = board_mem q" using f'(3) by (intro board_mem_eq) simp
  then show ?thesis using board_end(1) [OF f'(1)] f' by (intro exI [of _ ?q]) (simp del: cfg_writes.simps)
qed

text \<open>The commands that leave the device idle: write enable and disable, reset, and 0x81 when it is idle already.\<close>

lemma board_idle:
  assumes "off (q_flash q)" "c \<in> {0x04, 0x06, 0xff} \<or> c = 0x81 \<and> m_state (q_flash q) = QSPIF_IDLE" "length bs < 2 ^ 20"
  shows "\<exists>q'. cfg_writes Board (map cmd (c # bs) @ [F_END]) q = Inr q' \<and> off (q_flash q') \<and> board_mem q' = board_mem q
    \<and> m_state (q_flash q') = QSPIF_IDLE \<and> (c = 0x06 \<longrightarrow> \<not> flash_write_protect (q_flash q'))"
proof -
  let ?s = "q_flash q"
  let ?q = "QOREG 0xa5 (flash_fill ?s c)"
  let ?t = "if c = 0x04 then ?q\<lparr>m_state := QSPIF_IDLE, m_sreg := m_sreg ?s AND NOT 2\<rparr>
    else if c = 0x06 then ?q\<lparr>m_state := QSPIF_IDLE, m_sreg := m_sreg ?s OR 2\<rparr>
    else if c = 0x81 then QOREG 0 ?q else ?q\<lparr>m_state := QSPIF_IDLE, m_mode := FM_SPI\<rparr>"
  have sreg: "m_sreg ?s AND 0x200 = 0" "m_sreg ?s AND 0x201 = 0" using off_sreg [OF assms(1)] by simp_all
  have ready: "flash_ready ?s" using assms(1) by (simp add: off_def)
  have c: "c = 0x04 \<or> c = 0x06 \<or> c = 0xff \<or> c = 0x81 \<and> m_state ?s = QSPIF_IDLE" using assms(2) by blast
  have cmd: "flash_command (flash_fill ?s c) = Inr ?t"
    using sreg c off_command_byte [of ?s c] by (elim disjE) (simp_all add: flash_command_def Let_def del: flash_fill_frame(5))
  have t: "m_state ?t = QSPIF_IDLE" "m_mode ?t = FM_SPI" "m_write_count ?t = 0" "m_last_sck ?t = 1" "m_count ?t = 8"
    using ready c by (auto simp: flash_ready_def)
  have ts: "m_sreg ?t AND 0x201 = 0" "q_same ?s ?t"
    using sreg off_enable_sreg [OF sreg(2)] by (simp_all add: q_same_def)
  obtain f os f' where f: "run flash_xfer ?s (c # bs) = Inr (f, os)" "q_deselect f = Inr f'" "off f'" "m_mem f' = m_mem ?s"
    "m_sreg f' = m_sreg ?t" "m_state f' = QSPIF_IDLE"
    using off_idle_command [OF assms(1) cmd t ts assms(3)] by blast
  have "c \<notin> {0xbb, 0xeb, 0x32}" using c by auto
  then obtain x where "cfg_writes Board (map cmd (c # bs) @ [F_END]) q = Inr \<lparr>q_flash = f', q_data = x, q_cfg = True\<rparr>"
    using board_cmds [OF f(1,2) assms(1) _ assms(3)] by blast
  moreover have "c = 0x06 \<longrightarrow> \<not> flash_write_protect f'"
    using f(5) off_enable_sreg [OF sreg(2)] by (auto simp: flash_write_protect_def)
  moreover have "board_mem \<lparr>q_flash = f', q_data = x, q_cfg = True\<rparr> = board_mem q" using f(4) by (intro board_mem_eq) simp
  ultimately show ?thesis using f(3,6) by (simp del: cfg_writes.simps)
qed

section \<open>The erase and program transactions\<close>

lemma flash_command_NDUMMY: "flash_command s = Inr t \<Longrightarrow> NDUMMY t = NDUMMY s"
  by (simp add: flash_command_def flash_write_command_def Let_def split: if_split_asm; auto)

lemma flash_byte_NDUMMY: "flash_byte s = Inr t \<Longrightarrow> NDUMMY t = NDUMMY s"
  by (cases "m_state s")
    (auto simp: flash_byte_def flash_read_byte_def flash_write_byte_def flash_fetch_def flash_latch_addr_def
       flash_page_byte_def flash_id_byte_def Let_def split: if_split_asm)

lemma flash_process_NDUMMY: "flash_process s = Inr t \<Longrightarrow> NDUMMY t = NDUMMY s"
  by (auto simp: flash_process_def flash_read_idle_def Let_def dest: flash_command_NDUMMY flash_byte_NDUMMY split: if_split_asm)

lemma flash_deselect_NDUMMY: "flash_deselect s = Inr t \<Longrightarrow> NDUMMY t = NDUMMY s"
  by (cases "m_state s") (auto simp: flash_deselect_def flash_deselect_state_def flash_begin_write_def flash_program_page_def
    flash_erase_sector_def flash_bulk_erase_def flash_end_read_def Let_def split: if_split_asm)

lemma flash_shift_NDUMMY: "NDUMMY (flash_shift d s) = NDUMMY s"
  by (cases "m_mode s") (simp_all add: flash_shift_def)

lemma flash_tick_NDUMMY: "flash_tick s csn sck dat = Inr (s', r) \<Longrightarrow> NDUMMY s' = NDUMMY s"
  by (auto simp: flash_tick_def Let_def flash_shift_NDUMMY dest!: flash_process_NDUMMY flash_deselect_NDUMMY split: if_split_asm)

lemma flash_spi_bit_NDUMMY: "flash_spi_bit s b = Inr (s', x) \<Longrightarrow> NDUMMY s' = NDUMMY s"
  by (auto simp: flash_spi_bit_def dest!: flash_tick_NDUMMY)

lemma run_keeps:
  assumes "\<And>s i s' x. f s i = Inr (s', x) \<Longrightarrow> g s' = g s" "run f s is = Inr (s', xs)"
  shows "g s' = g s"
  using assms(2) by (induction "is" arbitrary: s xs) (auto dest: assms(1) split: prod.splits)

lemma flash_xfer_NDUMMY: "flash_xfer s b = Inr (s', x) \<Longrightarrow> NDUMMY s' = NDUMMY s"
  by (auto simp: flash_xfer_def dest!: run_keeps [where g = NDUMMY, rotated] flash_spi_bit_NDUMMY)

lemma flash_transact_NDUMMY: "flash_transact s bs = Inr (s', os) \<Longrightarrow> NDUMMY s' = NDUMMY s"
  by (auto simp: flash_transact_def dest!: run_keeps [where g = NDUMMY, rotated] flash_xfer_NDUMMY flash_tick_NDUMMY)

text \<open>
  A write is under way or has just ended, whatever its timer holds: the device listens on the serial
  line, in a state that raising chip select leaves alone, and reports a write in progress as long as
  the timer runs.
\<close>

definition settled :: "qspif_state \<Rightarrow> bool" where
  "settled st \<longleftrightarrow> st \<in> {QSPIF_IDLE, QSPIF_INVALID, QSPIF_RDSR, QSPIF_RDCR, QSPIF_RDID, QSPIF_SLOW_READ, QSPIF_FAST_READ}"

definition busy :: "flash \<Rightarrow> bool" where
  "busy f \<longleftrightarrow> m_mode f = FM_SPI \<and> settled (m_state f) \<and> m_sreg f AND 0x200 = 0
     \<and> (bit (m_sreg f) 0 \<longleftrightarrow> m_write_count f \<noteq> 0) \<and> flash_wf 24 f \<and> NDUMMY f = 6"

lemma and_1_odd: "x AND 1 \<noteq> 0 \<longleftrightarrow> bit x 0" for x :: "'a :: len word"
  by (simp add: and_one_eq bit_0 odd_iff_mod_2_eq_one)

lemma sreg_busy: "x AND 0x201 = 1 \<Longrightarrow> x AND 0x200 = 0 \<and> bit x 0" for x :: u32
proof -
  assume x: "x AND 0x201 = 1"
  have "x AND 0x200 = (x AND 0x201) AND 0x200" "x AND 1 = (x AND 0x201) AND 1" by (simp_all add: and.assoc)
  then show ?thesis using x and_1_odd [of x] by simp
qed

lemma flash_busy_busy: "flash_busy t f \<Longrightarrow> flash_wf 24 f \<Longrightarrow> NDUMMY f = 6 \<Longrightarrow> busy f"
  using sreg_busy [of "m_sreg f"] by (auto simp: flash_busy_def busy_def settled_def)

lemma unat_dec: "1 < unat t \<Longrightarrow> unat (t - 1) = unat t - 1 \<and> 1 < t" for t :: u32
  using word_le_nat_alt [of 1 t] by (simp add: unat_minus word_less_nat_alt)

lemma transact_busy:
  assumes "flash_transact s bs = Inr (s', os)" "flash_busy t s'" "1 < unat t" "flash_wf 24 s'" "NDUMMY s = 6"
  shows "\<exists>f f'. run flash_xfer s bs = Inr (f, os) \<and> q_deselect f = Inr f' \<and> busy f' \<and> m_mem f' = m_mem s'"
proof -
  obtain f x where f: "run flash_xfer s bs = Inr (f, os)" "flash_tick f 1 1 0 = Inr (s', x)"
    using assms(1) by (auto simp: flash_transact_def)
  have t: "unat (t - 1) = unat t - 1" "1 < t" using unat_dec [of t] assms(3) by auto
  obtain f' y where f': "flash_idle_tick s' () = Inr (f', y)" "flash_busy (t - 1) f'" "m_mem f' = m_mem s'"
    "m_membytes f' = m_membytes s'" "m_memmask f' = m_memmask s'"
    using flash_busy_tick [OF assms(2) t(2), of "()"] by blast
  have "NDUMMY s' = 6" using flash_transact_NDUMMY [OF assms(1)] assms(5) by simp
  then have "NDUMMY f' = 6" using f'(1) by (auto simp: flash_idle_tick_def dest: flash_tick_NDUMMY)
  moreover have "flash_wf 24 f'" using assms(4) f'(4,5) by (simp add: flash_wf_def)
  ultimately have "busy f'" using f'(2) flash_busy_busy by blast
  moreover have "q_deselect f = Inr f'" using f(2) f'(1) by (simp add: q_deselect_def flash_idle_tick_def)
  ultimately show ?thesis using f(1) f'(3) by blast
qed

subsection \<open>Bus addresses and flash addresses\<close>

definition addr_byte :: "u32 \<Rightarrow> nat \<Rightarrow> u8" where
  "addr_byte a k = ucast (drop_bit (8 * k) a)"

lemma addr_word: "unat (word_of_bytes 0 (addr_byte a 2) (addr_byte a 1) (addr_byte a 0)) = unat a mod 2 ^ 24"
proof -
  have "word_of_bytes 0 (addr_byte a 2) (addr_byte a 1) (addr_byte a 0) = take_bit 24 a"
    by (rule bit_word_eqI) (auto simp: bit_word_of_bytes addr_byte_def bit_simps split: if_splits)
  then show ?thesis by (simp only: unsigned_take_bit_eq, simp only: take_bit_eq_mod)
qed

lemma flash_part_mod: "flash_lo \<le> n \<Longrightarrow> n < 0x0a000000 \<Longrightarrow> n mod 2 ^ 24 = n - flash_lo" for n :: nat
  by (simp add: mod_if)

lemma and_flash_mask: "addr_byte (a AND 0x0ffffff) 2 = addr_byte a 2" "addr_byte (a AND 0x0ffffff) 1 = addr_byte a 1"
  "addr_byte (a AND 0x0ffffff) 0 = addr_byte a 0" for a :: u32
proof -
  have "a AND 0x0ffffff = take_bit 24 a" by (simp add: take_bit_eq_mask mask_eq_exp_minus_1)
  then have "addr_byte (a AND 0x0ffffff) k = addr_byte a k" if "k < 3" for k
    using that by (intro bit_word_eqI) (auto simp: addr_byte_def bit_simps)
  then show "addr_byte (a AND 0x0ffffff) 2 = addr_byte a 2" "addr_byte (a AND 0x0ffffff) 1 = addr_byte a 1"
    "addr_byte (a AND 0x0ffffff) 0 = addr_byte a 0" by simp_all
qed

lemma cfg_addr_bytes: "cfg_addr a = map cmd [addr_byte a 2, addr_byte a 1, addr_byte a 0]"
  by (simp add: cfg_addr_cmds addr_byte_def)

lemma flash_addr_unat:
  assumes "flash_wf 24 f" "flash_lo \<le> unat a" "unat a < 0x0a000000"
  shows "unat (flash_addr f (addr_byte a 2) (addr_byte a 1) (addr_byte a 0)) = unat a - flash_lo"
proof -
  have "m_memmask f = mask 24" using assms(1) by (simp add: flash_wf_def)
  then have "flash_addr f (addr_byte a 2) (addr_byte a 1) (addr_byte a 0)
      = take_bit 24 (word_of_bytes 0 (addr_byte a 2) (addr_byte a 1) (addr_byte a 0))"
    by (simp add: flash_addr_def take_bit_eq_mask)
  then have "unat (flash_addr f (addr_byte a 2) (addr_byte a 1) (addr_byte a 0)) = take_bit 24 (unat a mod 2 ^ 24)"
    by (simp only: unsigned_take_bit_eq addr_word)
  also have "\<dots> = unat a mod 2 ^ 24" by (simp only: take_bit_eq_mod mod_mod_trivial)
  also have "\<dots> = unat a - flash_lo" by (rule flash_part_mod [OF assms(2,3)])
  finally show ?thesis .
qed

lemma unat_cell: "flash_lo \<le> i \<Longrightarrow> i < 0x0a000000 \<Longrightarrow> unat (cell i) = i - flash_lo"
  by (simp add: cell_def unat_of_nat del: of_nat_diff)

lemma sector_same: "flash_lo \<le> i \<Longrightarrow> flash_lo \<le> j \<Longrightarrow> (i - flash_lo) div 65536 = (j - flash_lo) div 65536 \<longleftrightarrow> i div 65536 = j div 65536" for i j :: nat
proof -
  assume l: "flash_lo \<le> i" "flash_lo \<le> j"
  have "n div 65536 = (n - flash_lo) div 65536 + 0x900" if "flash_lo \<le> n" for n :: nat
    using div_add_self2 [of 65536 "n - flash_lo"] that div_mult_self2 [of 65536 "n - flash_lo" "0x900"] by simp
  then show ?thesis using l by simp
qed

lemma page_same: "flash_lo \<le> i \<Longrightarrow> flash_lo \<le> j \<Longrightarrow> (i - flash_lo) div 256 = (j - flash_lo) div 256 \<longleftrightarrow> i div 256 = j div 256" for i j :: nat
proof -
  assume l: "flash_lo \<le> i" "flash_lo \<le> j"
  have "n div 256 = (n - flash_lo) div 256 + 0x90000" if "flash_lo \<le> n" for n :: nat
    using that div_mult_self2 [of 256 "n - flash_lo" "0x90000"] by simp
  then show ?thesis using l by simp
qed

lemma block_eq_iff: "block_of n x = block_of n y \<longleftrightarrow> unat x div 2 ^ n = unat y div 2 ^ n" for x y :: u32
  by (auto simp: word_unat_eq_iff unat_block_of)

lemma erased_flash:
  assumes "m_mem f' = (\<lambda>x. if block_of 16 x = block_of 16 w then 0xff else m_mem (q_flash q) x)"
    and "unat w = unat a - flash_lo" "flash_lo \<le> unat a" "unat a < 0x0a000000"
  shows "board_mem (q'\<lparr>q_flash := f'\<rparr>) = erased (unat a) (board_mem q)"
proof
  fix i
  show "board_mem (q'\<lparr>q_flash := f'\<rparr>) i = erased (unat a) (board_mem q) i"
  proof (cases "flash_lo \<le> i \<and> i < 0x0a000000")
    case True
    then have "block_of 16 (cell i) = block_of 16 w \<longleftrightarrow> i div 65536 = unat a div 65536"
      using assms(2,3) sector_same [of i "unat a"] by (simp add: block_eq_iff unat_cell)
    then show ?thesis using True assms(1) by (simp add: board_mem_def erased_def)
  next
    case False
    have "i div 65536 \<noteq> unat a div 65536"
    proof
      assume "i div 65536 = unat a div 65536"
      moreover have "0x900 \<le> unat a div 65536" "unat a div 65536 < 0xa00" using assms(3,4) by simp_all
      ultimately have "0x900 \<le> i div 65536" "i div 65536 < 0xa00" by simp_all
      then have "0x900 * 65536 \<le> i" "i < 0xa00 * 65536" by (simp_all add: less_eq_div_iff_mult_less_eq div_less_iff_less_mult)
      then have "flash_lo \<le> i" "i < 0x0a000000" by simp_all
      then show False using False by simp
    qed
    then show ?thesis using False by (auto simp: board_mem_def erased_def)
  qed
qed

lemma programmed_flash:
  assumes "m_mem f' = (\<lambda>x. if x AND NOT 0xff = w AND NOT 0xff then m_mem (q_flash q) x AND page_fill (\<lambda>_. 0xff) w bs (x AND 0xff)
      else m_mem (q_flash q) x)"
    and "unat w = unat a - flash_lo" "flash_lo \<le> unat a" "unat a < 0x0a000000" "page_fits (unat a) (length bs)"
  shows "board_mem (q'\<lparr>q_flash := f'\<rparr>) = programmed (unat a) bs (board_mem q)"
proof
  fix i
  have len: "0 < length bs" "unat a mod 256 + length bs \<le> 256" using assms(5) by (simp_all add: page_fits_def)
  have page: "(unat a + j) div 256 = unat a div 256" if "j < length bs" for j
  proof -
    have "unat a + j = 256 * (unat a div 256) + (unat a mod 256 + j)" by simp
    moreover have "(unat a mod 256 + j) div 256 = 0" using len(2) that by simp
    ultimately show ?thesis by (metis add.right_neutral div_mult_self4 zero_neq_numeral)
  qed
  show "board_mem (q'\<lparr>q_flash := f'\<rparr>) i = programmed (unat a) bs (board_mem q) i"
  proof (cases "flash_lo \<le> i \<and> i < 0x0a000000")
    case True
    let ?x = "cell i"
    have x: "unat ?x = i - flash_lo" using True by (simp add: unat_cell)
    have same: "?x AND NOT 0xff = w AND NOT 0xff \<longleftrightarrow> i div 256 = unat a div 256"
      using True assms(2,3) page_same [of i "unat a"] by (simp only: and_not_ff block_eq_iff x) simp
    show ?thesis
    proof (cases "unat a \<le> i \<and> i < unat a + length bs")
      case in_range: True
      then have "unat (w + of_nat (i - unat a)) = i - flash_lo"
        using assms(2-4) True by (simp add: unat_word_ariths unat_of_nat del: of_nat_diff)
      then have "?x = w + of_nat (i - unat a)" using x by (simp only: word_unat_eq_iff)
      then have "page_fill (\<lambda>_. 0xff) w bs (?x AND 0xff) = bs ! (i - unat a)"
        using page_fill_nth [of bs "i - unat a" "\<lambda>_. 0xff" w] len(2) less_diff_conv2 [of "unat a" i "length bs"] in_range
        by (simp add: add.commute del: of_nat_diff)
      moreover have "i div 256 = unat a div 256"
        using page [of "i - unat a"] less_diff_conv2 [of "unat a" i "length bs"] in_range by (simp add: add.commute)
      ultimately show ?thesis using True in_range same assms(1) by (simp add: board_mem_def programmed_def)
    next
      case out: False
      have "page_fill (\<lambda>_. 0xff) w bs (?x AND 0xff) = 0xff" if same_page: "i div 256 = unat a div 256"
      proof (rule page_fill_other)
        fix j assume j: "j < length bs"
        have "(unat w + j) mod 256 \<noteq> unat ?x mod 256"
        proof
          have l: "n mod 256 = (n - flash_lo) mod 256" if "flash_lo \<le> n" for n :: nat
            using that mod_mult_self2 [of "n - flash_lo" 256 "0x90000"] by simp
          assume "(unat w + j) mod 256 = unat ?x mod 256"
          then have "(unat a + j) mod 256 = i mod 256"
            using l [of "unat a + j"] l [of i] assms(2,3) True by (simp add: x)
          then have "unat a + j = i" using page [OF j] same_page by (metis div_mult_mod_eq)
          then show False using out j by simp
        qed
        then show "?x AND 0xff \<noteq> (w + of_nat j) AND 0xff" by (auto simp only: and_ff_eq_iff unat_add_mod256)
      qed
      then show ?thesis using True out same assms(1) by (auto simp: board_mem_def programmed_def and_ones)
    qed
  next
    case False
    have "\<not> (unat a \<le> i \<and> i < unat a + length bs)"
    proof
      assume i: "unat a \<le> i \<and> i < unat a + length bs"
      then have "i - unat a < length bs" "unat a + (i - unat a) = i" by linarith+
      then have "i div 256 = unat a div 256" using page [of "i - unat a"] by simp
      also have "\<dots> < 0xa0000" using assms(4) by (simp add: div_less_iff_less_mult)
      finally have "i < 0x0a000000" by (simp add: div_less_iff_less_mult)
      then show False using i False assms(3) by simp
    qed
    then show ?thesis using False by (auto simp: board_mem_def programmed_def)
  qed
qed

section \<open>Erasing and programming through the board\<close>

lemma board_enabled:
  assumes "off (q_flash q)"
  shows "\<exists>q'. cfg_writes Board [F_END, F_WREN, F_END] q = Inr q' \<and> off (q_flash q') \<and> board_mem q' = board_mem q
    \<and> \<not> flash_write_protect (q_flash q')"
proof -
  obtain q1 where 1: "cfg_writes Board [F_END] q = Inr q1" "off (q_flash q1)" "board_mem q1 = board_mem q"
    using board_end_off [OF assms] by blast
  obtain q2 where 2: "cfg_writes Board (map cmd [0x06] @ [F_END]) q1 = Inr q2" "off (q_flash q2)" "board_mem q2 = board_mem q1"
    "\<not> flash_write_protect (q_flash q2)"
    using board_idle [OF 1(2), of "0x06" "[]"] by auto
  have "cfg_writes Board ([F_END] @ (map cmd [0x06] @ [F_END])) q = Inr q2" using 1(1) 2(1) by (rule cfg_writes_then)
  then show ?thesis using 1(3) 2 by (simp add: cmds(6))
qed

lemma board_transact:
  assumes "off (q_flash q)" "flash_transact (q_flash q) (c # bs) = Inr (f, os)" "flash_busy t f" "1 < unat t"
    and "flash_wf 24 f" "c \<notin> {0xbb, 0xeb, 0x32}" "length bs < 2 ^ 20"
    and "map ucast vs = c # bs" "\<And>v. v \<in> set vs \<Longrightarrow> bit v 12 \<and> \<not> bit v 8 \<and> \<not> bit v 11"
  shows "\<exists>q' q0. cfg_writes Board (vs @ [F_END]) q = Inr q' \<and> busy (q_flash q') \<and> m_mem (q_flash q') = m_mem f"
proof -
  have "NDUMMY (q_flash q) = 6" using assms(1) by (simp add: off_def)
  then obtain g f' where f': "run flash_xfer (q_flash q) (c # bs) = Inr (g, os)" "q_deselect g = Inr f'" "busy f'" "m_mem f' = m_mem f"
    using transact_busy [OF assms(2-5)] by blast
  obtain x where "cfg_writes Board (vs @ [F_END]) q = Inr \<lparr>q_flash = f', q_data = x, q_cfg = True\<rparr>"
    using board_command [OF f'(1,2) assms(1,6,7,8,9)] by blast
  then show ?thesis using f'(3,4) by (intro exI [of _ "\<lparr>q_flash = f', q_data = x, q_cfg = True\<rparr>"]) (simp del: cfg_writes.simps)
qed

lemma board_update: "q' = q'\<lparr>q_flash := q_flash q'\<rparr>" for q' :: board
  by simp

lemma board_erase:
  assumes "off (q_flash q)" "flash_lo \<le> unat a" "unat a < flash_lo + 2 ^ 22"
  shows "\<exists>q'. cfg_writes Board ([F_END, F_WREN, F_END] @ [F_SE] @ cfg_addr (a AND 0x0ffffff) @ [F_END]) q = Inr q'
    \<and> busy (q_flash q') \<and> board_mem q' = erased (unat a) (board_mem q)"
proof -
  obtain q1 where 1: "cfg_writes Board [F_END, F_WREN, F_END] q = Inr q1" "off (q_flash q1)" "board_mem q1 = board_mem q"
    "\<not> flash_write_protect (q_flash q1)"
    using board_enabled [OF assms(1)] by blast
  let ?w = "word_of_bytes 0 (addr_byte a 2) (addr_byte a 1) (addr_byte a 0)"
  have wf: "flash_ready (q_flash q1)" "flash_wf 24 (q_flash q1)" using 1(2) by (simp_all add: off_def)
  have hi: "unat a < 0x0a000000" using assms(3) by simp
  have "unat ?w = unat a mod 2 ^ 24" by (rule addr_word)
  also have "\<dots> = unat a - flash_lo" by (rule flash_part_mod [OF assms(2) hi])
  finally have w: "unat ?w = unat a - flash_lo" .
  have "unat ?w < 2 ^ 22" using w assms(2,3) by simp
  then have "?w = take_bit 22 ?w" by (simp add: word_unat_eq_iff unsigned_take_bit_eq take_bit_nat_eq_self)
  then have low: "\<not> bit ?w n" if "22 \<le> n" for n using that by (metis bit_take_bit_iff not_less)
  have bits: "\<not> bit (addr_byte a 2) 7" "\<not> bit (addr_byte a 2) 6"
    using low [of 23] low [of 22] by (simp_all add: bit_word_of_bytes)
  have "unat ?w < 2 ^ 24" using w hi assms(2) by simp
  then obtain f os where f: "flash_transact (q_flash q1) [0xd8, addr_byte a 2, addr_byte a 1, addr_byte a 0] = Inr (f, os)"
    "m_mem f = (\<lambda>x. if block_of 16 x = block_of 16 ?w then 0xff else m_mem (q_flash q1) x)" "flash_busy tSE f" "flash_wf 24 f"
    using sector_erase_transaction [OF wf 1(4) bits] by blast
  have t: "1 < unat tSE" by (simp_all add: flash_times)
  have m: "map ucast (map cmd [0xd8, addr_byte a 2, addr_byte a 1, addr_byte a 0]) = [0xd8, addr_byte a 2, addr_byte a 1, addr_byte a 0]"
    by simp
  have bitv: "v \<in> set (map cmd [0xd8, addr_byte a 2, addr_byte a 1, addr_byte a 0]) \<Longrightarrow> bit v 12 \<and> \<not> bit v 8 \<and> \<not> bit v 11" for v
    by (auto simp: cmd_bits)
  obtain q2 where 2: "cfg_writes Board (map cmd [0xd8, addr_byte a 2, addr_byte a 1, addr_byte a 0] @ [F_END]) q1 = Inr q2"
    "busy (q_flash q2)" "m_mem (q_flash q2) = m_mem f"
    using board_transact [OF 1(2) f(1,3) t f(4) _ _ m bitv] by auto
  have "board_mem (q2\<lparr>q_flash := q_flash q2\<rparr>) = erased (unat a) (board_mem q1)"
    by (rule erased_flash [OF _ w assms(2) hi]) (simp add: 2(3) f(2))
  then have mem: "board_mem q2 = erased (unat a) (board_mem q)" using 1(3) by simp
  have "cfg_writes Board ([F_END, F_WREN, F_END] @ (map cmd [0xd8, addr_byte a 2, addr_byte a 1, addr_byte a 0] @ [F_END])) q = Inr q2"
    using 1(1) 2(1) by (rule cfg_writes_then)
  then show ?thesis using 2(2) mem by (simp only: cmds(7) cfg_addr_bytes and_flash_mask list.map append.simps) blast
qed

lemma board_program:
  assumes "off (q_flash q)" "flash_lo \<le> unat a" "unat a < 0x0a000000" "page_fits (unat a) (length bs)"
  shows "\<exists>q'. cfg_writes Board ([F_END, F_WREN, F_END] @ [F_PP] @ cfg_addr (a AND 0x0ffffff) @
       map (\<lambda>b. CFG_USERMODE OR CFG_WEDIR OR ucast b) bs @ [F_END]) q = Inr q'
    \<and> busy (q_flash q') \<and> board_mem q' = programmed (unat a) bs (board_mem q)"
proof -
  obtain q1 where 1: "cfg_writes Board [F_END, F_WREN, F_END] q = Inr q1" "off (q_flash q1)" "board_mem q1 = board_mem q"
    "\<not> flash_write_protect (q_flash q1)"
    using board_enabled [OF assms(1)] by blast
  have wf: "flash_ready (q_flash q1)" "flash_wf 24 (q_flash q1)" using 1(2) by (simp_all add: off_def)
  let ?w = "flash_addr (q_flash q1) (addr_byte a 2) (addr_byte a 1) (addr_byte a 0)"
  let ?vs = "map cmd [0x02, addr_byte a 2, addr_byte a 1, addr_byte a 0] @ map (\<lambda>b. CFG_USERMODE OR CFG_WEDIR OR ucast b) bs"
  have len: "length bs \<le> 256" using assms(4) by (simp add: page_fits_def)
  have w: "unat ?w = unat a - flash_lo" by (rule flash_addr_unat [OF wf(2) assms(2,3)])
  obtain f os where f: "flash_transact (q_flash q1) ([0x02, addr_byte a 2, addr_byte a 1, addr_byte a 0] @ bs) = Inr (f, os)"
    "m_mem f = (\<lambda>x. if x AND NOT 0xff = ?w AND NOT 0xff then m_mem (q_flash q1) x AND page_fill (\<lambda>_. 0xff) ?w bs (x AND 0xff)
      else m_mem (q_flash q1) x)" "flash_busy tPP f" "flash_wf 24 f"
    using page_program_transaction [OF wf 1(4), of bs "addr_byte a 2" "addr_byte a 1" "addr_byte a 0"] len by auto
  have t: "1 < unat tPP" by (simp_all add: flash_times)
  have m: "map ucast ?vs = 0x02 # [addr_byte a 2, addr_byte a 1, addr_byte a 0] @ bs"
    by (simp add: cmd_byte o_def)
  have bitv: "v \<in> set ?vs \<Longrightarrow> bit v 12 \<and> \<not> bit v 8 \<and> \<not> bit v 11" for v
    by (auto simp: cmd_bits)
  have tr: "flash_transact (q_flash q1) (0x02 # [addr_byte a 2, addr_byte a 1, addr_byte a 0] @ bs) = Inr (f, os)"
    using f(1) by simp
  obtain q2 where 2: "cfg_writes Board (?vs @ [F_END]) q1 = Inr q2" "busy (q_flash q2)" "m_mem (q_flash q2) = m_mem f"
    using board_transact [OF 1(2) tr f(3) t f(4) _ _ m bitv] len by auto
  have "board_mem (q2\<lparr>q_flash := q_flash q2\<rparr>) = programmed (unat a) bs (board_mem q1)"
    by (rule programmed_flash [OF _ w assms(2,3,4)]) (simp only: 2(3) f(2))
  then have mem: "board_mem q2 = programmed (unat a) bs (board_mem q)" using 1(3) by simp
  have "cfg_writes Board ([F_END, F_WREN, F_END] @ (?vs @ [F_END])) q = Inr q2"
    using 1(1) 2(1) by (rule cfg_writes_then)
  then show ?thesis using 2(2) mem by (simp only: cmds(3) cfg_addr_bytes and_flash_mask list.map append.simps append_assoc) blast
qed

section \<open>Polling\<close>

lemma timers:
  "unat (m_write_count ((flash_timer ^^ n) s)) = unat (m_write_count s) - n"
  "m_sreg ((flash_timer ^^ n) s) = (if 0 < unat (m_write_count s) \<and> unat (m_write_count s) \<le> n then m_sreg s AND 0xfc else m_sreg s)"
proof (induction n)
  case 0
  show "unat (m_write_count ((flash_timer ^^ 0) s)) = unat (m_write_count s) - 0" by simp
  show "m_sreg ((flash_timer ^^ 0) s) = (if 0 < unat (m_write_count s) \<and> unat (m_write_count s) \<le> 0 then m_sreg s AND 0xfc else m_sreg s)"
    by auto
next
  case (Suc n)
  have step: "unat (m_write_count (flash_timer t)) = unat (m_write_count t) - 1"
    "m_sreg (flash_timer t) = (if unat (m_write_count t) = 1 then m_sreg t AND 0xfc else m_sreg t)" for t
  proof -
    have "0 < m_write_count t \<Longrightarrow> unat (m_write_count t - 1) = unat (m_write_count t) - 1"
      by (simp add: unat_minus word_le_nat_alt word_less_nat_alt)
    then show "unat (m_write_count (flash_timer t)) = unat (m_write_count t) - 1"
      "m_sreg (flash_timer t) = (if unat (m_write_count t) = 1 then m_sreg t AND 0xfc else m_sreg t)"
      by (auto simp: flash_timer_def Let_def word_less_nat_alt unat_eq_0 [symmetric] simp del: unat_eq_0)
  qed
  case 1
  show ?case using Suc(1) by (simp add: step)
  case 2
  show ?case using Suc by (auto simp: step)
qed

lemma timers_more: "m_membytes ((flash_timer ^^ n) s) = m_membytes s" "m_memmask ((flash_timer ^^ n) s) = m_memmask s"
  "m_mem ((flash_timer ^^ n) s) = m_mem s" "NDUMMY ((flash_timer ^^ n) s) = NDUMMY s"
  by (induction n) simp_all

text \<open>
  A device whose status register is being read, byte after byte: eight counts of the transaction for
  sixteen of the timer, so that the 32-bit count cannot wrap before the timer has run out.
\<close>

definition polling :: "flash \<Rightarrow> bool" where
  "polling f \<longleftrightarrow> m_state f = QSPIF_RDSR \<and> q_spi f \<and> 8 \<le> unat (m_count f)
     \<and> 2 * unat (m_count f) + unat (m_write_count f) + (if bit (m_oreg f) 0 then 100 else 50) < 2 ^ 33
     \<and> m_sreg f AND 0x200 = 0 \<and> (bit (m_sreg f) 0 \<longleftrightarrow> m_write_count f \<noteq> 0) \<and> (m_write_count f \<noteq> 0 \<longrightarrow> bit (m_oreg f) 0)
     \<and> flash_wf 24 f \<and> NDUMMY f = 6"

definition poll_left :: "flash \<Rightarrow> nat" where
  "poll_left f = unat (m_write_count f) + (if bit (m_oreg f) 0 then 1 else 0)"

text \<open>A status byte is the output register of the byte before; the register it loads is the status
  fifteen ticks on.\<close>

lemma rdsr_byte:
  assumes "m_state s = QSPIF_RDSR" "q_spi s" "8 \<le> unat (m_count s)" "unat (m_count s) + 8 < 2 ^ 32"
  shows "\<exists>s' x. flash_xfer s b = Inr (s', x) \<and> (bit x 0 \<longleftrightarrow> bit (m_oreg s) 0)
    \<and> m_state s' = QSPIF_RDSR \<and> m_mem s' = m_mem s \<and> m_membytes s' = m_membytes s \<and> m_memmask s' = m_memmask s
    \<and> NDUMMY s' = NDUMMY s \<and> unat (m_write_count s') = unat (m_write_count s) - 16
    \<and> m_sreg s' = m_sreg ((flash_timer ^^ 16) s) \<and> (bit (m_oreg s') 0 \<longleftrightarrow> bit (m_sreg ((flash_timer ^^ 15) s)) 0)"
proof -
  have s: "m_mode s = FM_SPI" "m_last_sck s = 1" "flash_not_xip s" "m_count s AND 7 = 0" using assms(2) by (simp_all add: q_spi_def)
  let ?l = "flash_load_byte s b"
  let ?t = "QOREG (m_sreg ?l) (flash_unthrottle (QOREG 0 ?l))"
  let ?s' = "(flash_timer ?t)\<lparr>m_last_sck := 1\<rparr>"
  have u: "unat (m_count s + 8) = unat (m_count s) + 8" "(m_count s + 8) AND 7 = 0" using and_7_step [OF s(4) assms(4)] by simp_all
  have "m_count ?l = m_count s + 8" "flash_not_xip ?l" "m_state ?l = QSPIF_RDSR"
    using s(3) assms(1) by (simp_all add: flash_load_byte_def flash_not_xip_def)
  moreover have "m_count s + 8 \<noteq> 0" "m_count s + 8 \<noteq> 8" using u(1) assms(3) by auto
  ultimately have "flash_process ?l = flash_byte ?l" using u(2) by (intro flash_process_byte) simp_all
  then have p: "flash_process ?l = Inr ?t" using \<open>m_state ?l = _\<close> by (simp add: flash_byte_def)
  let ?x = "byte_of_bits (butlast (byte_bits (ucast (m_oreg s))) @ [bit (flash_out ?s' (of_bool (bit b 0))) 1])"
  have x: "flash_xfer s b = Inr (?s', ?x)" unfolding flash_xfer_eq [OF s] p by (simp add: flash_after_byte_def Let_def)
  have same: "flash_timer (u\<lparr>m_ireg := i, m_count := c, m_oreg := r, m_idle_throttle := h\<rparr>)
      = (flash_timer u)\<lparr>m_ireg := i, m_count := c, m_oreg := r, m_idle_throttle := h\<rparr>" for u i c r h
    by (simp add: flash_timer_def Let_def)
  have t16: "(flash_timer ^^ 16) s = flash_timer ((flash_timer ^^ 15) s)" by (simp add: numeral_eq_Suc)
  have wc: "m_write_count ?s' = m_write_count ((flash_timer ^^ 16) s)" "m_sreg ?s' = m_sreg ((flash_timer ^^ 16) s)"
    unfolding t16 by (simp_all add: flash_timer_def Let_def QOREG_def flash_unthrottle_def flash_load_byte_def)
  have o: "bit (m_oreg ?s') 0 \<longleftrightarrow> bit (m_sreg ((flash_timer ^^ 15) s)) 0"
    by (simp add: QOREG_def flash_load_byte_def bit_simps)
  have b8: "bit (m_oreg ?s') 8 = bit (m_oreg s) 0"
    by (simp add: QOREG_bit8) (simp add: flash_load_byte_def bit_simps)
  have "m_mode ?s' = FM_SPI" using s(1) by (simp add: flash_load_byte_def)
  then have "bit (flash_out ?s' (of_bool (bit b 0))) 1 = bit (m_oreg s) 0"
    using flash_out_spi [of ?s' "of_bool (bit b 0)"] b8 by (simp only: One_nat_def)
  then have "bit ?x 0 = bit (m_oreg s) 0"
    using byte_bits_butlast [of "ucast (m_oreg s)"] by (simp add: bit_simps byte_of_byte_bits)
  moreover have "m_state ?s' = QSPIF_RDSR" "m_mem ?s' = m_mem s" "m_membytes ?s' = m_membytes s" "m_memmask ?s' = m_memmask s"
    "NDUMMY ?s' = NDUMMY s"
    using assms(1) by (simp_all add: flash_load_byte_def timers_more)
  ultimately show ?thesis using x wc o timers(1) [of 16 s] by (intro exI [of _ ?s'] exI [of _ ?x]) simp
qed

definition polled :: "flash \<Rightarrow> bool" where
  "polled f \<longleftrightarrow> m_state f = QSPIF_RDSR \<and> m_mode f = FM_SPI \<and> m_write_count f = 0 \<and> m_sreg f AND 0x201 = 0
     \<and> flash_wf 24 f \<and> NDUMMY f = 6"

lemma polling_byte:
  assumes "polling f"
  shows "\<exists>f' x. flash_xfer f 0 = Inr (f', x) \<and> (bit x 0 \<longleftrightarrow> bit (m_oreg f) 0) \<and> m_mem f' = m_mem f
    \<and> (if bit (m_oreg f) 0 then polling f' \<and> poll_left f' < poll_left f else polled f')"
proof -
  have f: "m_state f = QSPIF_RDSR" "q_spi f" "8 \<le> unat (m_count f)" "m_sreg f AND 0x200 = 0"
    "bit (m_sreg f) 0 \<longleftrightarrow> m_write_count f \<noteq> 0" "m_write_count f \<noteq> 0 \<longrightarrow> bit (m_oreg f) 0" "flash_wf 24 f" "NDUMMY f = 6"
    "2 * unat (m_count f) + unat (m_write_count f) + (if bit (m_oreg f) 0 then 100 else 50) < 2 ^ 33"
    using assms by (simp_all add: polling_def)
  have c: "unat (m_count f) + 8 < 2 ^ 32" using f(9) by (simp split: if_split_asm)
  obtain f' x where f': "flash_xfer f 0 = Inr (f', x)" "bit x 0 \<longleftrightarrow> bit (m_oreg f) 0" "m_state f' = QSPIF_RDSR"
    "m_mem f' = m_mem f" "m_membytes f' = m_membytes f" "m_memmask f' = m_memmask f" "NDUMMY f' = NDUMMY f"
    "unat (m_write_count f') = unat (m_write_count f) - 16" "m_sreg f' = m_sreg ((flash_timer ^^ 16) f)"
    "bit (m_oreg f') 0 \<longleftrightarrow> bit (m_sreg ((flash_timer ^^ 15) f)) 0"
    using rdsr_byte [OF f(1-3) c, of 0] by blast
  have q: "q_spi f'" "m_count f' = m_count f + 8" using q_spi_step [OF f(2) f'(1) _ c] f(3) by auto
  have cu: "unat (m_count f') = unat (m_count f) + 8" using c unfolding q(2) by (simp add: unat_word_ariths)
  have fc: "\<not> bit (y AND 0xfc) 0" "(y AND 0xfc) AND 0x200 = 0" for y :: u32 by (simp_all add: bit_simps and.assoc)
  have w: "m_write_count f = 0 \<longleftrightarrow> unat (m_write_count f) = 0" "m_write_count f' = 0 \<longleftrightarrow> unat (m_write_count f') = 0"
    by (simp_all add: unat_eq_0)
  have sreg: "m_sreg f' AND 0x200 = 0" "bit (m_sreg f') 0 \<longleftrightarrow> 16 < unat (m_write_count f)"
    using f(4,5) fc w(1) unfolding f'(9) timers(2) by auto
  have oreg: "bit (m_oreg f') 0 \<longleftrightarrow> 15 < unat (m_write_count f)"
    using f(5) fc w(1) unfolding f'(10) timers(2) by auto
  show ?thesis
  proof (cases "bit (m_oreg f) 0")
    case True
    then have "2 * unat (m_count f') + unat (m_write_count f') + (if bit (m_oreg f') 0 then 100 else 50) < 2 ^ 33"
      using f(9) oreg unfolding cu f'(8) by (auto split: if_split_asm)
    then have "polling f'"
      unfolding polling_def using f'(3,5,6,7) q(1) cu sreg oreg f(3,7,8) f'(8) w(2) by (auto simp: flash_wf_def)
    moreover have "poll_left f' < poll_left f" using oreg f'(8) True by (auto simp: poll_left_def)
    ultimately show ?thesis using True f'(1,2,4) by auto
  next
    case False
    then have "m_write_count f = 0" using f(6) by blast
    then have "m_write_count f' = 0" "\<not> bit (m_sreg f') 0" using f'(8) w sreg(2) by auto
    then have "m_sreg f' AND 0x201 = 0" using sreg(1) and_1_odd [of "m_sreg f'"] by (simp add: and_eq_0_parts)
    then have "polled f'"
      using \<open>m_write_count f' = 0\<close> f'(3,5,6,7) q(1) f(7,8) by (simp add: polled_def q_spi_def flash_wf_def)
    then show ?thesis using False f'(1,2,4) by auto
  qed
qed

definition board_phase :: "flash_phase_of \<Rightarrow> board \<Rightarrow> bool" where
  "board_phase p q = (case p of
      Offline \<Rightarrow> off (q_flash q)
    | Online \<Rightarrow> q_at (q_flash q) QSPIF_QUAD_READ_IDLE 0 (q_flash q) \<and> m_ireg (q_flash q) = 0
        \<and> m_sreg (q_flash q) AND 0x201 = 0 \<and> flash_wf 24 (q_flash q) \<and> NDUMMY (q_flash q) = 6 \<and> \<not> q_cfg q
    | Busy \<Rightarrow> busy (q_flash q)
    | Polling \<Rightarrow> polling (q_flash q)
    | Polled \<Rightarrow> polled (q_flash q))"

lemma board_poll:
  assumes "polling (q_flash q)"
  shows "\<exists>d1 d' sr. bus_writeio Board R_FLASHCFG F_EMPTY q = Inr d1 \<and> bus_readio Board R_FLASHCFG d1 = Inr (d', sr)
    \<and> board_mem d' = board_mem q \<and> (if sr AND 1 \<noteq> 0 then polling (q_flash d') \<and> poll_left (q_flash d') < poll_left (q_flash q)
        else polled (q_flash d'))"
proof -
  obtain f' x where f': "flash_xfer (q_flash q) 0 = Inr (f', x)" "bit x 0 \<longleftrightarrow> bit (m_oreg (q_flash q)) 0"
    "m_mem f' = m_mem (q_flash q)"
    "if bit (m_oreg (q_flash q)) 0 then polling f' \<and> poll_left f' < poll_left (q_flash q) else polled f'"
    using polling_byte [OF assms] by blast
  let ?q = "q\<lparr>q_flash := f', q_data := x, q_cfg := True\<rparr>"
  have "q_spi (q_flash q)" using assms by (simp add: polling_def)
  then have "send_byte (cmd 0) (q_flash q) = Inr (f', x)" using f'(1) by (simp add: send_byte_def send_ls_spi)
  then have "board_writeio R_FLASHCFG F_EMPTY q = Inr ?q" by (simp add: board_writeio_def cmds(2))
  moreover have "board_readio R_FLASHCFG ?q = Inr (?q, ucast x)" by (simp add: board_readio_def)
  moreover have "board_mem ?q = board_mem q" using f'(3) by (intro board_mem_eq) simp
  moreover have "(ucast x :: u32) AND 1 \<noteq> 0 \<longleftrightarrow> bit x 0" unfolding and_1_odd by (simp add: bit_simps)
  ultimately show ?thesis using f'(2,4) by (intro exI [of _ ?q] exI [of _ "ucast x"]) (simp split: if_split_asm)
qed

lemma board_finish:
  assumes "polled (q_flash q)"
  shows "\<exists>q'. cfg_writes Board [F_END] q = Inr q' \<and> off (q_flash q') \<and> board_mem q' = board_mem q"
proof -
  obtain f' where f': "q_deselect (q_flash q) = Inr f'" "off f'" "m_mem f' = m_mem (q_flash q)"
    using off_deselect [of "q_flash q"] assms by (auto simp: polled_def q_quiet_def)
  have "board_mem (q\<lparr>q_flash := f', q_cfg := True\<rparr>) = board_mem q" using f'(3) by (intro board_mem_eq) simp
  then show ?thesis
    using board_end(1) [OF f'(1)] f'(2) by (intro exI [of _ "q\<lparr>q_flash := f', q_cfg := True\<rparr>"]) (simp del: cfg_writes.simps)
qed

text \<open>The timer runs on under each tick; when it runs out the progress bit goes with it.\<close>

lemma timer_busy: "busy f \<Longrightarrow> busy (flash_timer f)"
proof -
  have "\<not> bit (x AND 0xfc) 0" "(x AND 0xfc) AND 0x200 = 0" for x :: u32 by (simp_all add: bit_simps and.assoc)
  then show "busy f \<Longrightarrow> busy (flash_timer f)"
    by (auto simp: busy_def flash_timer_def Let_def flash_wf_def word_gt_0)
qed

lemma deselect_busy:
  assumes "busy f"
  shows "\<exists>f' x. flash_tick f 1 1 0 = Inr (f', x) \<and> busy f' \<and> m_count f' = 0 \<and> m_last_sck f' = 1 \<and> m_mem f' = m_mem f"
proof -
  let ?t = "flash_timer f"
  let ?d = "?t\<lparr>m_last_sck := 1, m_ireg := 0, m_oreg := 0, m_count := 0\<rparr>"
  have t: "busy ?t" using assms by (rule timer_busy)
  then have "flash_deselect_state ?d = Inr ?d"
    by (auto simp: flash_deselect_state_def busy_def settled_def)
  then have "flash_tick f 1 1 0 = Inr (?d\<lparr>m_oreg := 0xfe\<rparr>, 0)" by (simp add: flash_tick_def flash_deselect_def Let_def)
  moreover have "busy (?d\<lparr>m_oreg := 0xfe\<rparr>)" using t by (simp add: busy_def flash_wf_def)
  ultimately show ?thesis by (intro exI [of _ "?d\<lparr>m_oreg := 0xfe\<rparr>"] exI [of _ 0]) simp
qed

lemma busy_deselect:
  assumes "busy s"
  shows "\<exists>s'. q_deselect s = Inr s' \<and> busy s' \<and> m_count s' = 0 \<and> m_last_sck s' = 1 \<and> m_mem s' = m_mem s"
proof -
  obtain s1 x where 1: "flash_tick s 1 1 0 = Inr (s1, x)" "busy s1" "m_mem s1 = m_mem s"
    using deselect_busy [OF assms] by blast
  obtain s2 y where 2: "flash_tick s1 1 1 0 = Inr (s2, y)" "busy s2" "m_count s2 = 0" "m_last_sck s2 = 1" "m_mem s2 = m_mem s1"
    using deselect_busy [OF 1(2)] by blast
  have "q_deselect s = Inr s2" using 1(1) 2(1) by (simp add: q_deselect_def)
  then show ?thesis using 1(3) 2(2-) by auto
qed

lemma busy_spi: "busy s \<Longrightarrow> m_count s = 0 \<Longrightarrow> m_last_sck s = 1 \<Longrightarrow> q_spi s"
  by (auto simp: busy_def settled_def q_spi_def flash_not_xip_def)

text \<open>The read-status command: the output register has the status fifteen ticks on.\<close>

lemma busy_status:
  assumes "busy s" "m_count s = 0" "m_last_sck s = 1"
  shows "\<exists>s' x. flash_xfer s 0x05 = Inr (s', x) \<and> polling s' \<and> m_mem s' = m_mem s"
proof -
  have q: "q_spi s" using assms by (rule busy_spi)
  then have s: "m_mode s = FM_SPI" "flash_not_xip s" "m_count s AND 7 = 0" by (simp_all add: q_spi_def)
  have b: "m_sreg s AND 0x200 = 0" "bit (m_sreg s) 0 \<longleftrightarrow> m_write_count s \<noteq> 0" "flash_wf 24 s" "NDUMMY s = 6"
    using assms(1) by (simp_all add: busy_def)
  have fc: "\<not> bit (y AND 0xfc) 0" "(y AND 0xfc) AND 0x200 = 0" for y :: u32 by (simp_all add: bit_simps and.assoc)
  let ?l = "flash_load_byte s 0x05"
  let ?t = "QOREG (m_sreg ?l) ((QOREG 0xa5 ?l)\<lparr>m_state := QSPIF_RDSR\<rparr>)"
  let ?s' = "(flash_timer ?t)\<lparr>m_last_sck := 1\<rparr>"
  have l15: "m_sreg ?l = m_sreg ((flash_timer ^^ 15) s)" by (simp add: flash_load_byte_def)
  have l: "m_sreg ?l AND 0x200 = 0" "m_count ?l = 8" "flash_not_xip ?l" "m_ireg ?l AND 0xff = 5"
  proof -
    show "m_sreg ?l AND 0x200 = 0" using b(1) fc(2) unfolding l15 timers(2) by simp
    show "m_count ?l = 8" "flash_not_xip ?l" "m_ireg ?l AND 0xff = 5"
      using assms(2) s(2) command_byte [of "m_ireg s" "0x05"] by (simp_all add: flash_load_byte_def flash_not_xip_def)
  qed
  have "flash_process ?l = flash_command ?l" using l by (simp add: flash_process_def flash_not_xip_def)
  then have p: "flash_process ?l = Inr ?t" using l by (simp add: flash_command_def Let_def)
  then obtain x where x: "flash_xfer s 0x05 = Inr (?s', x)"
    using flash_xfer_eq [OF s(1) assms(3) s(2,3), of "0x05"] by (simp add: flash_after_byte_def Let_def)
  have t16: "(flash_timer ^^ 16) s = flash_timer ((flash_timer ^^ 15) s)" by (simp add: numeral_eq_Suc)
  have same: "m_write_count ?s' = m_write_count ((flash_timer ^^ 16) s)" "m_sreg ?s' = m_sreg ((flash_timer ^^ 16) s)"
    unfolding t16 by (simp_all add: flash_timer_def Let_def QOREG_def flash_load_byte_def)
  have z: "m_write_count s = 0 \<longleftrightarrow> unat (m_write_count s) = 0" "m_write_count ?s' = 0 \<longleftrightarrow> unat (m_write_count ?s') = 0"
    by (simp_all only: unat_eq_0)
  have w: "unat (m_write_count ?s') = unat (m_write_count s) - 16" unfolding same by (rule timers(1))
  have sreg: "m_sreg ?s' AND 0x200 = 0" "bit (m_sreg ?s') 0 \<longleftrightarrow> 16 < unat (m_write_count s)"
    using b(1,2) fc z(1) unfolding same(2) timers(2) by auto
  have "bit (m_oreg ?s') 0 \<longleftrightarrow> bit (m_sreg ?l) 0" by (simp add: QOREG_def bit_simps)
  then have o: "bit (m_oreg ?s') 0 \<longleftrightarrow> 15 < unat (m_write_count s)"
    using b(2) fc z(1) unfolding l15 timers(2) by auto
  have "q_spi ?s' \<and> m_count ?s' = m_count s + 8" using q_spi_step [OF q x] assms(2) by simp
  moreover have "m_state ?s' = QSPIF_RDSR" "flash_wf 24 ?s'" "NDUMMY ?s' = 6" "m_mem ?s' = m_mem s"
    using b(3,4) by (simp_all add: flash_load_byte_def timers_more flash_wf_def)
  moreover have "2 * 8 + unat (m_write_count ?s') + (if b then 100 else 50) < 2 ^ 33" for b
    using unat_bound [of "m_write_count s"] unfolding w by (cases b) simp_all
  moreover have "bit (m_sreg ?s') 0 \<longleftrightarrow> m_write_count ?s' \<noteq> 0" "m_write_count ?s' \<noteq> 0 \<longrightarrow> bit (m_oreg ?s') 0"
    unfolding z(2) w sreg(2) o by auto
  ultimately have "polling ?s'" using sreg(1) assms(2) unfolding polling_def by simp
  then show ?thesis using x \<open>m_mem ?s' = _\<close> by blast
qed

lemma board_status:
  assumes "busy (q_flash q)"
  shows "\<exists>q'. cfg_writes Board [F_END, F_RDSR1] q = Inr q' \<and> polling (q_flash q') \<and> board_mem q' = board_mem q"
proof -
  obtain f1 where 1: "q_deselect (q_flash q) = Inr f1" "busy f1" "m_count f1 = 0" "m_last_sck f1 = 1" "m_mem f1 = m_mem (q_flash q)"
    using busy_deselect [OF assms] by blast
  obtain f2 x where 2: "flash_xfer f1 0x05 = Inr (f2, x)" "polling f2" "m_mem f2 = m_mem f1"
    using busy_status [OF 1(2-4)] by blast
  have "q_spi f1" using 1(2-4) by (rule busy_spi)
  then have "run (\<lambda>s v. send_byte v s) f1 [cmd 0x05] = Inr (f2, [x])" using 2(1) by (simp add: send_byte_def send_ls_spi)
  then have "cfg_writes Board [cmd 0x05] (q\<lparr>q_flash := f1, q_cfg := True\<rparr>) = Inr \<lparr>q_flash = f2, q_data = x, q_cfg = True\<rparr>"
    using board_send [of "q\<lparr>q_flash := f1, q_cfg := True\<rparr>" "[cmd 0x05]" f2 "[x]"] by (simp del: cfg_writes.simps)
  with board_end(1) [OF 1(1)] have "cfg_writes Board ([F_END] @ [cmd 0x05]) q = Inr \<lparr>q_flash = f2, q_data = x, q_cfg = True\<rparr>"
    by (rule cfg_writes_then)
  moreover have "board_mem \<lparr>q_flash = f2, q_data = x, q_cfg = True\<rparr> = board_mem q"
    using 1(5) 2(3) by (intro board_mem_eq) simp
  ultimately show ?thesis using 2(2) by (simp add: cmds(5) del: cfg_writes.simps)
qed

section \<open>Into the continued read\<close>

lemma board_quad:
  assumes "run q_xfer (q_flash q) (map ucast vs) = Inr (f, os)" "vs \<noteq> []"
    and "\<And>v. v \<in> set vs \<Longrightarrow> bit v 12 \<and> \<not> bit v 8 \<and> bit v 11"
  shows "cfg_writes Board vs q = Inr \<lparr>q_flash = f, q_data = last os, q_cfg = True\<rparr>"
proof -
  have "run q_xfer s (map ucast vs) = run (\<lambda>s v. send_byte v s) s vs" for s
    using assms(3)
  proof (induction vs arbitrary: s)
    case (Cons v vs)
    then have "send_byte v s = q_xfer s (ucast v)" by (simp add: send_byte_def)
    moreover have "run q_xfer s' (map ucast vs) = run (\<lambda>s v. send_byte v s) s' vs" for s' using Cons by simp
    ultimately show ?case by simp
  qed simp
  then show ?thesis using assms by (intro board_send) auto
qed

text \<open>A low-speed byte in quad mode is eight clocks of whatever nibbles the pipe holds.\<close>

lemma send_ls_quad:
  assumes "run q_xfer s bs = Inr (s', os)" "ls_nibbles b = concat (map nibbles bs)"
  shows "\<exists>x. send_ls s b = Inr (s', x)"
  using run_q_xfer [OF assms(1)] by (auto simp: send_ls_def run_q_bit assms(2))

lemma ls_nibbles_0: "ls_nibbles 0 = concat (map nibbles [0, 0, 0, 0xa0])"
  by (simp add: ls_nibbles_def nibbles_def)

lemma ls_nibbles_ff: "ls_nibbles 0xff = concat (map nibbles [0xff, 0x11, 0x11, 0xb1])"
proof -
  have "bit (0xff :: u8) 0" "bit (0xff :: u8) 1" "bit (0xff :: u8) 2" "bit (0xff :: u8) 3" "bit (0xff :: u8) 4" "bit (0xff :: u8) 5"
    "bit (0xff :: u8) 6" "bit (0xff :: u8) 7" by (simp_all add: bit_numeral_word_iff bit_numeral_rec)
  then show ?thesis by (simp add: ls_nibbles_def nibbles_def)
qed

lemma quad_words:
  "map ucast (replicate 3 (CFG_USERMODE OR CFG_QSPEED OR CFG_WEDIR) @ [CFG_USERMODE OR CFG_QSPEED OR CFG_WEDIR OR 0xa0] @
     replicate 2 (CFG_USERMODE OR CFG_QSPEED) @ [CFG_USERMODE OR CFG_QSPEED]) = [0, 0, 0, 0xa0, 0, 0, 0 :: u8]"
proof -
  have "replicate 3 v = [v, v, v]" "replicate 2 v = [v, v]" for v :: u32 by (simp_all add: numeral_eq_Suc)
  moreover have "ucast (CFG_USERMODE OR CFG_QSPEED OR CFG_WEDIR) = (0 :: u8)" "ucast (CFG_USERMODE OR CFG_QSPEED) = (0 :: u8)"
    "ucast (CFG_USERMODE OR CFG_QSPEED OR CFG_WEDIR OR 0xa0) = (0xa0 :: u8)"
    by (simp_all add: CFG_USERMODE_def CFG_QSPEED_def CFG_WEDIR_def)
  ultimately show ?thesis by simp
qed

lemma board_enter:
  assumes "off (q_flash q)"
  shows "\<exists>q'. cfg_writes Board ([CFG_USERMODE OR 0xeb] @
      replicate 3 (CFG_USERMODE OR CFG_QSPEED OR CFG_WEDIR) @ [CFG_USERMODE OR CFG_QSPEED OR CFG_WEDIR OR 0xa0] @
      replicate ((FLASH_NDUMMY - 2) div 2) (CFG_USERMODE OR CFG_QSPEED) @ [CFG_USERMODE OR CFG_QSPEED] @
      [CFG_USERMODE, CFG_USER_CS_n]) q = Inr q' \<and> board_phase Online q' \<and> board_mem q' = board_mem q"
proof -
  let ?s = "q_flash q"
  let ?vs = "replicate 3 (CFG_USERMODE OR CFG_QSPEED OR CFG_WEDIR) @ [CFG_USERMODE OR CFG_QSPEED OR CFG_WEDIR OR 0xa0] @
     replicate 2 (CFG_USERMODE OR CFG_QSPEED) @ [CFG_USERMODE OR CFG_QSPEED]"
  have s: "flash_ready ?s" "flash_wf 24 ?s" "NDUMMY ?s = 6" "m_sreg ?s AND 0x201 = 0" using assms by (simp_all add: off_def flash_ready_def)
  have size: "unat (m_membytes ?s) = 2 ^ 24" using s(2) unat_push_one [of 24] by (simp add: flash_wf_def)
  then obtain f1 x f4 os f5 where f: "flash_xfer ?s 0xeb = Inr (f1, x)" "run q_xfer f1 ([0, 0, 0, 0xa0, 0, 0] @ [0, 0, 0, 0, 0xa0]) = Inr (f4, os)"
    "q_deselect f4 = Inr f5" "q_at ?s QSPIF_QUAD_READ_IDLE 0 f5" "m_ireg f5 = 0"
    using q_enter [OF s(1-3), of "[0, 0, 0, 0, 0xa0]"] by auto
  have "run q_xfer f1 ([0, 0, 0, 0xa0, 0, 0, 0] @ [0, 0, 0, 0xa0]) = Inr (f4, os)" using f(2) by simp
  then obtain f3 os1 os2 where f3: "run q_xfer f1 [0, 0, 0, 0xa0, 0, 0, 0] = Inr (f3, os1)" "run q_xfer f3 [0, 0, 0, 0xa0] = Inr (f4, os2)"
    by (rule run_append_InrE)
  obtain y where y: "send_ls f3 0 = Inr (f4, y)" using send_ls_quad [OF f3(2) ls_nibbles_0] by blast
  let ?q1 = "\<lparr>q_flash = f1, q_data = x, q_cfg = True\<rparr>" and ?q3 = "\<lparr>q_flash = f3, q_data = last os1, q_cfg = True\<rparr>"
    and ?q4 = "\<lparr>q_flash = f4, q_data = y, q_cfg = True\<rparr>"
  have c1: "cfg_writes Board [cmd 0xeb] q = Inr ?q1"
    using board_send [of q "[cmd 0xeb]" f1 "[x]"] f(1) off_spi [OF assms] by (simp add: send_byte_def send_ls_spi del: cfg_writes.simps)
  have quad: "bit v 12 \<and> \<not> bit v 8 \<and> bit v 11" if "v \<in> set ?vs" for v
    using that by (auto simp: CFG_USERMODE_def CFG_QSPEED_def CFG_WEDIR_def bit_simps)
  have c3: "cfg_writes Board ?vs ?q1 = Inr ?q3"
    by (rule board_quad) (use f3(1) quad in \<open>simp_all only: quad_words board.simps\<close>, simp_all)
  have c4: "cfg_writes Board [cmd 0] ?q3 = Inr ?q4"
    using board_send [of ?q3 "[cmd 0]" f4 "[y]"] y by (simp add: send_byte_def del: cfg_writes.simps)
  have c5: "cfg_writes Board [CFG_USER_CS_n] ?q4 = Inr (?q4\<lparr>q_flash := f5, q_cfg := False\<rparr>)"
    using f(3) by (intro board_end(2)) simp
  have "cfg_writes Board ([cmd 0xeb] @ ?vs @ [cmd 0] @ [CFG_USER_CS_n]) q = Inr (?q4\<lparr>q_flash := f5, q_cfg := False\<rparr>)"
    by (intro cfg_writes_then [OF c1] cfg_writes_then [OF c3] cfg_writes_then [OF c4] c5)
  moreover have "board_phase Online (?q4\<lparr>q_flash := f5, q_cfg := False\<rparr>)"
    using f(4,5) s by (simp add: board_phase_def q_at_def flash_wf_def)
  moreover have "board_mem (?q4\<lparr>q_flash := f5, q_cfg := False\<rparr>) = board_mem q"
    using f(4) by (intro board_mem_eq) (simp add: q_at_def)
  moreover have "(FLASH_NDUMMY - 2) div 2 = 2" by (simp add: FLASH_NDUMMY_def)
  ultimately show ?thesis by (simp only: cmds(10,11) [symmetric] append_assoc append.simps) blast
qed

lemma board_online:
  assumes "off (q_flash q)"
  shows "\<exists>q'. restore_quadio Board m_id q = Inr q' \<and> board_phase Online q' \<and> board_mem q' = board_mem q"
proof -
  let ?micron = "if MICRON_FLASHID = m_id then [F_WREN, F_END, CFG_USERMODE OR 0x81, CFG_USERMODE OR 0xf3, F_END] else []"
  obtain q1 where 1: "cfg_writes Board [F_END] q = Inr q1" "off (q_flash q1)" "board_mem q1 = board_mem q"
    using board_end_off [OF assms] by blast
  have "\<exists>q2. cfg_writes Board ?micron q1 = Inr q2 \<and> off (q_flash q2) \<and> board_mem q2 = board_mem q1"
  proof (cases "MICRON_FLASHID = m_id")
    case True
    obtain q2 where 2: "cfg_writes Board (map cmd [0x06] @ [F_END]) q1 = Inr q2" "off (q_flash q2)" "board_mem q2 = board_mem q1"
      "m_state (q_flash q2) = QSPIF_IDLE"
      using board_idle [OF 1(2), of "0x06" "[]"] by auto
    obtain q3 where 3: "cfg_writes Board (map cmd [0x81, 0xf3] @ [F_END]) q2 = Inr q3" "off (q_flash q3)" "board_mem q3 = board_mem q2"
      using board_idle [OF 2(2), of "0x81" "[0xf3]"] 2(4) by auto
    have "cfg_writes Board ((map cmd [0x06] @ [F_END]) @ (map cmd [0x81, 0xf3] @ [F_END])) q1 = Inr q3"
      using 2(1) 3(1) by (rule cfg_writes_then)
    then show ?thesis using True 2(3) 3(2,3) by (simp add: cmds(6,8,9) del: cfg_writes.simps)
  next
    case False
    then show ?thesis using 1(2) by simp
  qed
  then obtain q2 where 2: "cfg_writes Board ?micron q1 = Inr q2" "off (q_flash q2)" "board_mem q2 = board_mem q1" by blast
  obtain q3 where 3: "cfg_writes Board ([CFG_USERMODE OR 0xeb] @
      replicate 3 (CFG_USERMODE OR CFG_QSPEED OR CFG_WEDIR) @ [CFG_USERMODE OR CFG_QSPEED OR CFG_WEDIR OR 0xa0] @
      replicate ((FLASH_NDUMMY - 2) div 2) (CFG_USERMODE OR CFG_QSPEED) @ [CFG_USERMODE OR CFG_QSPEED] @
      [CFG_USERMODE, CFG_USER_CS_n]) q2 = Inr q3" "board_phase Online q3" "board_mem q3 = board_mem q2"
    using board_enter [OF 2(2)] by blast
  have "restore_quadio Board m_id q = Inr q3"
    unfolding restore_quadio_def by (intro cfg_writes_then [OF 1(1)] cfg_writes_then [OF 2(1)] 3(1))
  then show ?thesis using 1(3) 2(3) 3(2,3) by simp
qed

section \<open>Out of the continued read, through the board\<close>

lemma send_quad_bytes:
  assumes "run q_xfer s (concat (replicate n bs)) = Inr (s', os)" "ls_nibbles b = concat (map nibbles bs)"
  shows "\<exists>xs. run (\<lambda>s v. send_byte v s) s (replicate n (cmd b)) = Inr (s', xs)"
  using assms(1)
proof (induction n arbitrary: s os)
  case (Suc n)
  then obtain s1 os1 os2 where 1: "run q_xfer s bs = Inr (s1, os1)" "run q_xfer s1 (concat (replicate n bs)) = Inr (s', os2)"
    by (auto elim: run_append_InrE)
  then obtain x xs where "send_ls s b = Inr (s1, x)" "run (\<lambda>s v. send_byte v s) s1 (replicate n (cmd b)) = Inr (s', xs)"
    using send_ls_quad [OF 1(1) assms(2)] Suc.IH by blast
  then show ?case by (simp add: send_byte_def)
qed simp

lemma board_leave:
  assumes "board_phase Online q"
  shows "\<exists>q'. take_offline Board q = Inr q' \<and> off (q_flash q') \<and> board_mem q' = board_mem q"
proof -
  let ?s = "q_flash q"
  let ?bs = "concat (replicate 6 [0xff, 0x11, 0x11, 0xb1 :: u8])"
  have s: "q_at ?s QSPIF_QUAD_READ_IDLE 0 ?s" "m_ireg ?s = 0" "m_sreg ?s AND 0x201 = 0" "flash_wf 24 ?s" "NDUMMY ?s = 6"
    using assms by (simp_all add: board_phase_def)
  have size: "unat (m_membytes ?s) = 2 ^ 24" "m_memmask ?s = mask 24" using s(4) unat_push_one [of 24] by (simp_all add: flash_wf_def)
  obtain f1 where 1: "q_deselect ?s = Inr f1" "q_at ?s QSPIF_QUAD_READ_IDLE 0 f1" "m_ireg f1 = 0"
    using q_deselect_xip [OF s(1)] by blast
  have bs: "?bs = [0xff, 0x11, 0x11, 0xb1, 0xff] @ drop 5 ?bs" "length (drop 5 ?bs) = 19" by (simp_all add: numeral_eq_Suc)
  have "flash_addr ?s 0xff 0x11 0x11 = 0xff1111"
    by (simp add: flash_addr_def size(2) word_of_bytes_def mask_eq_exp_minus_1)
  then have "unat (flash_addr ?s 0xff 0x11 0x11) + length (drop 5 ?bs) \<le> unat (m_membytes ?s)"
    unfolding bs(2) size(1) by simp
  then obtain f2 os f3 where 2: "run q_xfer f1 ([0xff, 0x11, 0x11, 0xb1, 0xff] @ drop 5 ?bs) = Inr (f2, os)" "q_deselect f2 = Inr f3"
    "flash_ready f3" "q_quiet f3" "q_same ?s f3"
    using q_leave [OF 1(2,3) s(3,5), of "0xff" "0x11" "0x11" "drop 5 ?bs" "0xb1" "0xff"] unfolding bs(2) by auto
  have "run q_xfer f1 ?bs = Inr (f2, os)" using 2(1) by (simp only: bs(1) [symmetric])
  then obtain xs where xs: "run (\<lambda>s v. send_byte v s) f1 (replicate 6 (cmd 0xff)) = Inr (f2, xs)"
    using send_quad_bytes [OF _ ls_nibbles_ff] by blast
  let ?q1 = "q\<lparr>q_flash := f1, q_cfg := True\<rparr>" and ?q2 = "\<lparr>q_flash = f2, q_data = last xs, q_cfg = True\<rparr>"
  have c2: "cfg_writes Board (replicate 6 (cmd 0xff)) ?q1 = Inr ?q2"
    by (rule board_send) (use xs in simp_all)
  have c3: "cfg_writes Board [F_END] ?q2 = Inr (?q2\<lparr>q_flash := f3, q_cfg := True\<rparr>)"
    using 2(2) by (intro board_end(1)) simp
  have "take_offline Board q = Inr (?q2\<lparr>q_flash := f3, q_cfg := True\<rparr>)"
    unfolding take_offline_def cmds(1) by (intro cfg_writes_then [OF board_end(1) [OF 1(1)]] cfg_writes_then [OF c2] c3)
  moreover have "off f3" using 2(3-5) s(4,5) by (simp add: off_def q_same_def flash_wf_def)
  moreover have "board_mem (?q2\<lparr>q_flash := f3, q_cfg := True\<rparr>) = board_mem q"
    using 2(5) by (intro board_mem_eq) (simp add: q_same_def)
  ultimately show ?thesis by simp
qed

lemma board_offline:
  assumes "board_phase Offline q \<or> board_phase Online q"
  shows "\<exists>q'. take_offline Board q = Inr q' \<and> off (q_flash q') \<and> board_mem q' = board_mem q"
proof (cases "board_phase Online q")
  case False
  then have "board_phase Offline q" using assms by blast
  then have "off (q_flash q)" by (simp add: board_phase_def)
  then obtain q1 where 1: "cfg_writes Board [F_END] q = Inr q1" "off (q_flash q1)" "board_mem q1 = board_mem q"
    using board_end_off by blast
  obtain q2 where 2: "cfg_writes Board (map cmd (0xff # replicate 5 0xff) @ [F_END]) q1 = Inr q2" "off (q_flash q2)" "board_mem q2 = board_mem q1"
    using board_idle [OF 1(2), of "0xff" "replicate 5 0xff"] by auto
  have "map cmd (0xff # replicate 5 0xff) = replicate 6 (cmd 0xff)" by (simp add: numeral_eq_Suc)
  then have "cfg_writes Board (replicate 6 (cmd 0xff) @ [F_END]) q1 = Inr q2" using 2(1) by (simp only:)
  then have "take_offline Board q = Inr q2" unfolding take_offline_def cmds(1) by (rule cfg_writes_then [OF 1(1)])
  then show ?thesis using 1(3) 2(2,3) by simp
qed (rule board_leave)

section \<open>Reading the window\<close>

lemma addr_byte_fc: "4 dvd unat a \<Longrightarrow> ucast a AND 0xfc = addr_byte a 0" for a :: u32
proof -
  assume "4 dvd unat a"
  then have "take_bit 2 (unat a) = 0" by (simp add: take_bit_eq_mod)
  then have z: "take_bit 2 a = 0" by (simp add: word_unat_eq_iff unsigned_take_bit_eq)
  have low: "\<not> bit a n" if "n < 2" for n
  proof
    assume "bit a n"
    then have "bit (take_bit 2 a) n" using that by (simp only: bit_take_bit_iff)
    then show False unfolding z by simp
  qed
  have "bit (0xfc :: u8) n \<longleftrightarrow> 2 \<le> n \<and> n < 8" for n
  proof -
    have "(0xfc :: u8) = NOT (mask 2)" by (simp add: mask_eq_exp_minus_1 word_unat_eq_iff unsigned_minus_1_eq_mask)
    then show ?thesis by (simp only: bit_not_iff bit_mask_iff) auto
  qed
  then have m: "bit (ucast a AND 0xfc :: u8) n \<longleftrightarrow> bit (ucast a :: u8) n \<and> 2 \<le> n" for n
    unfolding bit_and_iff using bit_imp_le_length [of "ucast a :: u8" n] by auto
  show "ucast a AND 0xfc = addr_byte a 0"
  proof (rule bit_word_eqI)
    fix n
    show "bit (ucast a AND 0xfc :: u8) n = bit (addr_byte a 0) n"
      unfolding m using low [of n] by (cases "n < 2") (auto simp: addr_byte_def bit_simps)
  qed
qed

lemma board_read:
  assumes "board_phase Online q" "flash_lo \<le> unat a" "unat a + 4 * n \<le> flash_lo + 2 ^ 22" "4 dvd unat a"
  shows "\<exists>q'. board_readi a n q = Inr (q', map (\<lambda>k. mem_word (board_mem q) (unat a + 4 * k)) [0..<n])
    \<and> board_phase Online q' \<and> board_mem q' = board_mem q"
proof -
  let ?s = "q_flash q"
  have s: "q_at ?s QSPIF_QUAD_READ_IDLE 0 ?s" "m_ireg ?s = 0" "m_sreg ?s AND 0x201 = 0" "flash_wf 24 ?s" "NDUMMY ?s = 6" "\<not> q_cfg q"
    using assms(1) by (simp_all add: board_phase_def)
  have size: "unat (m_membytes ?s) = 2 ^ 24" using s(4) unat_push_one [of 24] by (simp add: flash_wf_def)
  let ?w = "flash_addr ?s (addr_byte a 2) (addr_byte a 1) (addr_byte a 0)"
  have hi: "unat a < 0x0a000000" using assms(3) by simp
  have w: "unat ?w = unat a - flash_lo" by (rule flash_addr_unat [OF s(4) assms(2) hi])
  have room: "unat ?w + 4 * n < unat (m_membytes ?s)" "4 * n < 2 ^ 28" using assms(2,3) unfolding w size by simp_all
  obtain f1 os f2 where f: "run q_xfer ?s ([addr_byte a 2, addr_byte a 1, addr_byte a 0, 0xa0, 0, 0] @ replicate (4 * n) 0) = Inr (f1, os)"
    "q_deselect f1 = Inr f2" "drop 6 os = map (\<lambda>i. m_mem ?s (?w + of_nat i)) [0..<4 * n]" "q_at ?s QSPIF_QUAD_READ_IDLE 0 f2" "m_ireg f2 = 0"
    using q_xip_read [OF s(1-3,5) room] by blast
  have "xip_bytes a n = [addr_byte a 2, addr_byte a 1, addr_byte a 0, 0xa0, 0, 0] @ replicate (4 * n) 0"
    unfolding xip_bytes_def addr_byte_fc [OF assms(4)] by (simp add: addr_byte_def)
  then have r: "board_readi a n q = Inr (q\<lparr>q_flash := f2\<rparr>, bytes_words (drop 6 os) n)"
    using f(1,2) s(6) by (simp add: board_readi_def del: run.simps)
  have byte: "drop 6 os ! i = board_mem q (unat a + i)" if "i < 4 * n" for i
  proof -
    have "cell (unat a + i) = ?w + of_nat i"
    proof -
      have "unat (?w + of_nat i) = unat a - flash_lo + i" using that room(1) w assms(2,3) by (simp add: unat_word_ariths unat_of_nat)
      moreover have "unat (cell (unat a + i)) = unat a + i - flash_lo" using that assms(2,3) by (intro unat_cell) simp_all
      ultimately show ?thesis using assms(2) by (simp add: word_unat_eq_iff)
    qed
    moreover have "flash_lo \<le> unat a + i" "unat a + i < 0x0a000000" using that assms(2,3) by simp_all
    ultimately show ?thesis using that by (simp add: f(3) board_mem_def)
  qed
  have "bytes_words (drop 6 os) n = map (\<lambda>k. mem_word (board_mem q) (unat a + 4 * k)) [0..<n]"
  proof -
    have "mem_word ((!) (drop 6 os)) (4 * k) = mem_word (board_mem q) (unat a + 4 * k)" if "k < n" for k
    proof (rule mem_word_cong)
      fix j :: nat assume "j < 4"
      then have "4 * k + j < 4 * n" using that by linarith
      then show "drop 6 os ! (4 * k + j) = board_mem q (unat a + 4 * k + j)" using byte [of "4 * k + j"] by (simp only: add.assoc)
    qed
    then show ?thesis by (simp add: bytes_words_def)
  qed
  moreover have "board_phase Online (q\<lparr>q_flash := f2\<rparr>)" using f(4,5) s by (simp add: board_phase_def q_at_def flash_wf_def)
  moreover have "board_mem (q\<lparr>q_flash := f2\<rparr>) = board_mem q" using f(4) by (intro board_mem_eq) (simp add: q_at_def)
  ultimately show ?thesis using r by auto
qed

section \<open>The contract holds\<close>

lemma board_disable:
  assumes "off (q_flash q)"
  shows "\<exists>q'. cfg_writes Board [F_WRDI, F_END] q = Inr q' \<and> off (q_flash q') \<and> board_mem q' = board_mem q"
  using board_idle [OF assms, of "0x04" "[]"] by (auto simp: cmds(4) simp del: cfg_writes.simps)

lemma phase_iff:
  "board_phase Offline q \<longleftrightarrow> off (q_flash q)" "board_phase Busy q \<longleftrightarrow> busy (q_flash q)"
  "board_phase Polling q \<longleftrightarrow> polling (q_flash q)" "board_phase Polled q \<longleftrightarrow> polled (q_flash q)"
  by (simp_all add: board_phase_def)

interpretation fb: flash_board Board board_phase board_mem "\<lambda>q. poll_left (q_flash q)" "flash_lo + 2 ^ 22"
proof (unfold_locales, goal_cases)
  case (3 d)
  then show ?case using board_offline [of d] by (simp only: phase_iff)
next
  case (4 d m_id)
  then show ?case using board_online [of d m_id] by (simp only: phase_iff)
next
  case (5 d a)
  then show ?case using board_erase [of d a] by (simp only: phase_iff)
next
  case (6 d a bs)
  then show ?case using board_program [of d a bs] by (simp only: phase_iff) simp
next
  case (7 d)
  then show ?case using board_status [of d] by (simp only: phase_iff)
next
  case (8 d)
  then show ?case using board_poll [of d] by (simp only: phase_iff)
next
  case (9 d)
  then show ?case using board_finish [of d] by (simp only: phase_iff)
next
  case (10 d)
  then show ?case using board_disable [of d] by (simp only: phase_iff)
next
  case (11 d a n)
  then show ?case using board_read [of d a n] by (simp only: Board_simps)
qed simp_all

section \<open>The driver on the board\<close>

definition board_online_new :: board where
  "board_online_new = \<lparr>q_flash = (flash_new flash_blank 24 False 0 6)\<lparr>m_state := QSPIF_QUAD_READ_IDLE, m_mode := FM_QSPI,
     m_count := 0\<rparr>, q_data = 0, q_cfg = False\<rparr>"

lemma board_online_new_phase: "board_phase Online board_online_new"
  by (simp add: board_phase_def board_online_new_def flash_new_def q_at_def flash_wf_def mask_eq_exp_minus_1)

lemma board_online_new_mem: "flash_lo \<le> i \<Longrightarrow> i < 0x0a000000 \<Longrightarrow> board_mem board_online_new i = 0xff"
  by (simp add: board_mem_def board_online_new_def flash_new_def)

text \<open>
  C1: the flash driver writes.  On the simulated 16 MB flash, in continued quad read behind its controller,
  a word-aligned write below 4 MB by a driver that knows the flash's identifier returns success, verified
  or not, leaves the data in the flash and the device readable again; a sector outside the range keeps its
  contents, one that had to be erased loses what it held outside the range.  The uninitialised inner
  length (\<open>stale\<close>) is any that comes out right after the clip to the page (\<open>inner_length_fits\<close>);
  \<open>flash_driver_short_write\<close> has one that does not.  With no identifier yet the
  identification faults in the simulator (\<open>flash_driver_id_faults\<close>).
\<close>

theorem flash_driver_writes:
  assumes "board_phase Online q" "m_id \<noteq> 0" "flash_lo \<le> unat a" "unat a + unat len \<le> flash_lo + 2 ^ 22"
    and "4 dvd unat a" "4 dvd unat len" "length data = unat len" "inner_length_fits a len stale"
  shows "\<exists>q'. flash_write Board junk stale m_id a len data verify q = Some (Inr (q', m_id, True))
    \<and> board_phase Online q' \<and> board_mem q' = written (unat a) data (board_mem q)"
  using assms by (rule fb.flash_write_writes)

text \<open>A page is written by an inner length of a thousand bytes too: the clip brings it down to the page.\<close>

lemma page_inner_length: "inner_length_fits 0x09000000 256 (\<lambda>_. 1000)"
  unfolding inner_length_fits_def
proof (intro allI impI)
  fix p :: u32
  assume p: "0x09000000 \<le> p \<and> p < 0x09000000 + 256"
  have u: "0x09000000 \<le> unat p" "unat p < 0x09000100" using p by (simp_all add: word_le_nat_alt word_less_nat_alt)
  have page: "PAGEOF p = 0x09000000"
  proof -
    have "unat p div 256 = 0x90000" using u by (intro div_nat_eqI) simp_all
    then show ?thesis by (simp add: word_unat_eq_iff unat_PAGEOF)
  qed
  have "PAGEOF (0x090003e7 :: u32) = 0x09000300" "PAGEOF (0x090000ff :: u32) = 0x09000000" by (simp_all add: PAGEOF_def)
  moreover have "PAGEOF (p + PGLENB) = 0x09000100"
  proof -
    have "unat (p + PGLENB) = unat p + 256" using u by (simp add: PGLENB_def unat_plus)
    moreover have "(unat p + 256) div 256 = 0x90001" using u by (intro div_nat_eqI) simp_all
    ultimately show ?thesis by (simp add: word_unat_eq_iff unat_PAGEOF)
  qed
  ultimately show "page_clip p (0x09000000 + 1000 - p) = page_clip p (0x09000000 + 256 - p)"
    by (simp add: page_clip_def page)
qed

theorem flash_driver_writes_witness:
  "\<exists>q'. flash_write Board (\<lambda>_. []) (\<lambda>_. 1000) 1 0x09000000 256 (replicate 255 7 @ [4]) True board_online_new
      = Some (Inr (q', 1, True)) \<and> board_mem q' 0x09000000 = 7 \<and> board_mem q' 0x090000ff = 4"
proof -
  let ?ds = "replicate 255 7 @ [4] :: u8 list"
  have "written (unat (0x09000000 :: u32)) ?ds m 0x09000000 = 7" "written (unat (0x09000000 :: u32)) ?ds m 0x090000ff = 4" for m
    by (simp_all add: written_def nth_append)
  then show ?thesis
    using flash_driver_writes [OF board_online_new_phase, of 1 "0x09000000" 256 ?ds "\<lambda>_. 1000" "\<lambda>_. []" True] page_inner_length
    by auto
qed

text \<open>
  C29: polling ends.  For every value of the simulator's write timer, from a bulk erase's billions of ticks
  to a write that ends during the command or has ended before it, \<open>flwait\<close> returns, with the memory as it was
  and the device ready for a command.  The device is on the serial line in any state that raising chip
  select leaves alone, powered up, with its progress bit following the timer.
\<close>

theorem flash_driver_waits:
  assumes "busy (q_flash q)"
  shows "\<exists>q'. flwait Board q = Some (Inr q') \<and> off (q_flash q') \<and> board_mem q' = board_mem q"
  using fb.flwait_returns [of q] assms by (simp only: phase_iff)

text \<open>A bulk erase that has just begun, and a page program with one tick to go.\<close>

theorem flash_driver_waits_witness:
  "\<exists>q' q''. flwait Board (board_online_new\<lparr>q_flash := (flash_new flash_blank 24 False 0 6)\<lparr>m_count := 0, m_write_count := tBE, m_sreg := 1\<rparr>\<rparr>)
      = Some (Inr q') \<and> off (q_flash q')
    \<and> flwait Board (board_online_new\<lparr>q_flash := (flash_new flash_blank 24 False 0 6)\<lparr>m_count := 0, m_write_count := 1, m_sreg := 1\<rparr>\<rparr>)
      = Some (Inr q'') \<and> off (q_flash q'')"
proof -
  have "busy (q_flash (board_online_new\<lparr>q_flash := (flash_new flash_blank 24 False 0 6)\<lparr>m_count := 0, m_write_count := t, m_sreg := 1\<rparr>\<rparr>))"
    if "t \<noteq> 0" for t
    using that by (simp add: busy_def settled_def flash_new_def flash_wf_def mask_eq_exp_minus_1)
  moreover have "tBE \<noteq> 0" by (simp add: flash_times)
  ultimately show ?thesis using flash_driver_waits by (metis zero_neq_one)
qed

text \<open>
  C36: the uninitialised length loses data.  \<open>write_pages\<close> initialises its inner \<open>len\<close> from itself; when the
  stale value happens to leave four bytes, an eight-byte write to an erased sector stores only the first four and
  still reports success, even with verification on.
\<close>

theorem flash_driver_short_write:
  assumes "board_phase Online q" "m_id \<noteq> 0" "flash_lo \<le> unat a" "unat a + 65536 \<le> flash_lo + 2 ^ 22" "65536 dvd unat a"
    and "length data = 8" "data ! 0 \<noteq> 0xff" "\<And>i. unat a \<le> i \<Longrightarrow> i < unat a + 8 \<Longrightarrow> board_mem q i = 0xff"
  shows "\<exists>q'. flash_write Board junk (\<lambda>p. p - a + 4) m_id a 8 data verify q = Some (Inr (q', m_id, True))
    \<and> board_mem q' = stored (unat a) (take 4 data) (board_mem q)"
  using assms by (rule fb.flash_write_short)

theorem flash_driver_short_write_witness:
  "\<exists>q'. flash_write Board (\<lambda>_. []) (\<lambda>p. p - 0x09000000 + 4) 1 0x09000000 8 [1, 2, 3, 4, 5, 6, 7, 8] True board_online_new
      = Some (Inr (q', 1, True)) \<and> board_mem q' 0x09000003 = 4 \<and> board_mem q' 0x09000004 = 0xff"
proof -
  have "65536 dvd unat (0x09000000 :: u32)" by simp
  moreover have "board_mem board_online_new i = 0xff" if "unat (0x09000000 :: u32) \<le> i" "i < unat (0x09000000 :: u32) + 8" for i
    using that by (intro board_online_new_mem) simp_all
  ultimately obtain q' where "flash_write Board (\<lambda>_. []) (\<lambda>p. p - 0x09000000 + 4) 1 0x09000000 8 [1, 2, 3, 4, 5, 6, 7, 8] True board_online_new
      = Some (Inr (q', 1, True))"
    "board_mem q' = stored (unat (0x09000000 :: u32)) (take 4 [1, 2, 3, 4, 5, 6, 7, 8]) (board_mem board_online_new)"
    using flash_driver_short_write [OF board_online_new_phase, of 1 "0x09000000" "[1, 2, 3, 4, 5, 6, 7, 8]" "\<lambda>_. []" True] by auto
  then show ?thesis using board_online_new_mem [of "0x09000004"] by (simp add: stored_def)
qed

section \<open>The identification\<close>

lemma rdid_byte:
  assumes "m_state s = QSPIF_RDID" "q_spi s" "m_write_count s = 0" "8 \<le> unat (m_count s)" "unat (m_count s) \<le> 24"
  shows "\<exists>s' x. flash_xfer s 0 = Inr (s', x) \<and> m_state s' = QSPIF_RDID \<and> q_spi s' \<and> m_write_count s' = 0
    \<and> unat (m_count s') = unat (m_count s) + 8"
proof -
  have s: "m_mode s = FM_SPI" "m_last_sck s = 1" "flash_not_xip s" "m_count s AND 7 = 0" using assms(2) by (simp_all add: q_spi_def)
  let ?f = "flash_unthrottle (QOREG 0 (flash_fill s 0))"
  let ?t = "QOREG (drop_bit (unat (32 - (m_count s + 8))) DEVID) ?f"
  have u: "unat (m_count s + 8) = unat (m_count s) + 8" "(m_count s + 8) AND 7 = 0" using and_7_step [OF s(4)] assms(5) by simp_all
  have n: "m_count s + 8 \<noteq> 0" "m_count s + 8 \<noteq> 8" using u(1) assms(4) by auto
  have le: "m_count s + 8 \<le> 32" using u(1) assms(5) by (simp add: word_le_nat_alt)
  have "32 - (m_count s + 8) < 32" unfolding word_less_nat_alt unat_minus [OF le] u(1) by simp
  then have "flash_byte (flash_fill s 0) = Inr ?t" using assms(1) by (simp add: flash_byte_def flash_id_byte_def Let_def)
  moreover have "flash_process (flash_fill s 0) = flash_byte (flash_fill s 0)"
    using s u(2) n by (intro flash_process_byte) (simp_all add: flash_not_xip_def)
  ultimately obtain x where x: "flash_xfer s 0 = Inr (?t, x)" using flash_xfer_step [OF s assms(3), of 0 ?t] s assms(3) by auto
  then have "q_spi ?t \<and> m_count ?t = m_count s + 8" using q_spi_step [OF assms(2) x] assms(4,5) by auto
  then show ?thesis using x u(1) assms(1,3) by (intro exI [of _ ?t] exI [of _ x]) simp
qed

lemma rdid_byte_last:
  assumes "m_state s = QSPIF_RDID" "q_spi s" "m_write_count s = 0" "unat (m_count s) = 32"
  shows "flash_xfer s 0 = Inl BadShift"
proof -
  have s: "m_mode s = FM_SPI" "m_last_sck s = 1" "flash_not_xip s" "m_count s AND 7 = 0" using assms(2) by (simp_all add: q_spi_def)
  have c: "m_count s = 32" using assms(4) by (simp add: word_unat_eq_iff)
  have "flash_process (flash_fill s 0) = flash_byte (flash_fill s 0)"
    using s by (intro flash_process_byte) (simp_all add: flash_not_xip_def c)
  also have "\<dots> = Inl BadShift" using assms(1) by (simp add: flash_byte_def flash_id_byte_def c)
  finally show ?thesis unfolding flash_xfer_eq [OF s] by (simp add: flash_load_byte_idle [OF assms(3)])
qed

lemma board_empty:
  assumes "q_spi (q_flash q)"
  shows "board_writeio R_FLASHCFG (CFG_USERMODE OR 0x00) q =
    rbind (flash_xfer (q_flash q) 0) (\<lambda>(f, x). Inr (q\<lparr>q_flash := f, q_data := x, q_cfg := True\<rparr>))"
proof -
  have "CFG_USERMODE OR 0x00 = cmd 0" by (simp add: cmds(11))
  moreover have "board_writeio R_FLASHCFG (cmd 0) q =
      rbind (flash_xfer (q_flash q) 0) (\<lambda>(f, x). Inr (q\<lparr>q_flash := f, q_data := x, q_cfg := True\<rparr>))"
    using assms by (simp add: board_writeio_def send_byte_def send_ls_spi)
  ultimately show ?thesis by (simp only:)
qed

lemma board_id_byte:
  assumes "m_state (q_flash q) = QSPIF_RDID" "q_spi (q_flash q)" "m_write_count (q_flash q) = 0"
    and "8 \<le> unat (m_count (q_flash q))" "unat (m_count (q_flash q)) \<le> 24"
  shows "\<exists>q' r'. id_byte Board r q = Inr (q', r') \<and> m_state (q_flash q') = QSPIF_RDID \<and> q_spi (q_flash q')
    \<and> m_write_count (q_flash q') = 0 \<and> unat (m_count (q_flash q')) = unat (m_count (q_flash q)) + 8"
proof -
  obtain f x where "flash_xfer (q_flash q) 0 = Inr (f, x)" "m_state f = QSPIF_RDID" "q_spi f" "m_write_count f = 0"
    "unat (m_count f) = unat (m_count (q_flash q)) + 8"
    using rdid_byte [OF assms] by blast
  then show ?thesis unfolding id_byte_def Board_simps board_empty [OF assms(2)] by (simp add: board_readio_def)
qed

lemma board_id_byte_last:
  assumes "m_state (q_flash q) = QSPIF_RDID" "q_spi (q_flash q)" "m_write_count (q_flash q) = 0" "unat (m_count (q_flash q)) = 32"
  shows "id_byte Board r q = Inl BadShift"
  unfolding id_byte_def Board_simps board_empty [OF assms(2)] rdid_byte_last [OF assms] by simp

text \<open>
  the identification faults.  \<open>flashid\<close> clocks four bytes in after the command and the simulator
  shifts its identifier by \<open>32 - m_count\<close>, which the fourth byte makes negative: undefined in C, a
  fault in the model.
\<close>

theorem flash_driver_id_faults:
  assumes "board_phase Offline q \<or> board_phase Online q"
  shows "flashid Board 0 q = Inl BadShift"
proof -
  obtain q0 where 0: "take_offline Board q = Inr q0" "off (q_flash q0)" using board_offline [OF assms] by blast
  let ?s = "q_flash q0"
  let ?t = "QOREG (drop_bit 24 DEVID AND 0xff) ((QOREG 0xa5 (flash_fill ?s 0x9f))\<lparr>m_state := QSPIF_RDID\<rparr>)"
  have s: "m_mode ?s = FM_SPI" "m_last_sck ?s = 1" "flash_not_xip ?s" "m_count ?s AND 7 = 0" "m_write_count ?s = 0" "flash_ready ?s"
    and c0: "m_count ?s = 0"
    using 0(2) by (simp_all add: off_def flash_ready_def)
  have "flash_command (flash_fill ?s 0x9f) = Inr ?t"
    using off_sreg [OF 0(2)] off_command_byte [of ?s "0x9f"] by (simp add: flash_command_def Let_def del: flash_fill_frame(5))
  then have "flash_process (flash_fill ?s 0x9f) = Inr ?t" using flash_process_command [OF s(6)] by simp
  then obtain x where x: "flash_xfer ?s 0x9f = Inr (?t, x)" using flash_xfer_step [OF s(1-5), of "0x9f" ?t] s by auto
  have t: "q_spi ?t" "m_count ?t = 8" "m_state ?t = QSPIF_RDID" "m_write_count ?t = 0"
    using q_spi_step [OF _ x] off_spi [OF 0(2)] c0 s(5) by simp_all
  let ?q1 = "q0\<lparr>q_flash := ?t, q_data := x, q_cfg := True\<rparr>"
  have 1: "cfg_writes Board [CFG_USERMODE OR 0x9f] q0 = Inr ?q1"
    using x off_spi [OF 0(2)] by (simp add: cmds(12) board_writeio_def send_byte_def send_ls_spi)
  obtain q2 r2 where 2: "id_byte Board 0 ?q1 = Inr (q2, r2)" "m_state (q_flash q2) = QSPIF_RDID" "q_spi (q_flash q2)"
    "m_write_count (q_flash q2) = 0" "unat (m_count (q_flash q2)) = 16"
    using board_id_byte [of ?q1 0] t by auto
  obtain q3 r3 where 3: "id_byte Board r2 q2 = Inr (q3, r3)" "m_state (q_flash q3) = QSPIF_RDID" "q_spi (q_flash q3)"
    "m_write_count (q_flash q3) = 0" "unat (m_count (q_flash q3)) = 24"
    using board_id_byte [OF 2(2-4), of r2] 2(5) by auto
  obtain q4 r4 where 4: "id_byte Board r3 q3 = Inr (q4, r4)" "m_state (q_flash q4) = QSPIF_RDID" "q_spi (q_flash q4)"
    "m_write_count (q_flash q4) = 0" "unat (m_count (q_flash q4)) = 32"
    using board_id_byte [OF 3(2-4), of r3] 3(5) by auto
  have "id_byte Board r4 q4 = Inl BadShift" by (rule board_id_byte_last [OF 4(2-5)])
  then show ?thesis
    unfolding flashid_def by (simp only: 0(1) 1 2(1) 3(1) 4(1) rbind_simps prod.case if_False simp_thms)
qed

theorem flash_driver_id_faults_witness: "flashid Board 0 board_online_new = Inl BadShift"
  using flash_driver_id_faults [of board_online_new] board_online_new_phase by simp

end
