(* ===== verification/Zopcodes.thy ===== *)
theory Zopcodes
  imports CText
begin

text \<open>
  The disassembler of the ZipCPU debugger, \<open>sw/host/zopcodes.cpp\<close>: the table of instruction patterns, the
  fields it names, the lines it prints, and the branch predictor \<open>zop_early_branch\<close>.  A line is the string
  left in the caller's buffer.  An index outside a table of names, a shift by 32 or more and a failed
  assertion are faults.  The lines are built by printing a buffer onto itself, which C leaves undefined;
  the model gives them the text that is meant.
\<close>

section \<open>Fields\<close>

definition ZIP_OPUNUSED :: int where "ZIP_OPUNUSED = - 1"
definition ZIP_BITFIELD :: "int \<Rightarrow> int \<Rightarrow> int" where
  "ZIP_BITFIELD ln mn = push_bit 8 (ln AND 0xff) + (mn AND 0xff)"
definition ZIP_REGFIELD :: "int \<Rightarrow> int" where "ZIP_REGFIELD mn = 0x400 + (mn AND 0xff)"
definition ZIP_URGFIELD :: "int \<Rightarrow> int" where "ZIP_URGFIELD mn = 0x100400 + (mn AND 0xff)"
definition ZIP_IMMFIELD :: "int \<Rightarrow> int \<Rightarrow> int" where
  "ZIP_IMMFIELD ln mn = 0x40000000 + (push_bit 8 (ln AND 0xff) + (mn AND 0xff))"
definition ZIP_SP :: int where "ZIP_SP = 0xd0000"

lemmas zip_fields = ZIP_OPUNUSED_def ZIP_BITFIELD_def ZIP_REGFIELD_def ZIP_URGFIELD_def ZIP_IMMFIELD_def ZIP_SP_def

record zopcode =
  s_opstr :: string
  s_mask :: u32
  s_val :: u32
  s_result :: int
  s_ra :: int
  s_rb :: int
  s_i :: int
  s_cf :: int

definition zip_regstr :: "string list" where
  "zip_regstr = [
     ''R0'', ''R1'', ''R2'', ''R3'', ''R4'', ''R5'', ''R6'', ''R7'', ''R8'', ''R9'', ''R10'', ''R11'',
     ''R12'', ''SP'', ''CC'', ''PC'',
     ''uR0'', ''uR1'', ''uR2'', ''uR3'', ''uR4'', ''uR5'', ''uR6'', ''uR7'', ''uR8'', ''uR9'', ''uR10'', ''uR11'',
     ''uR12'', ''uSP'', ''uCC'', ''uPC'',
     ''sR0'', ''sR1'', ''sR2'', ''sR3'', ''sR4'', ''sR5'', ''sR6'', ''sR7'', ''sR8'', ''sR9'', ''sR10'', ''sR11'',
     ''sR12'', ''sSP'', ''sCC'', ''sPC'', ''rILL'']"

definition zip_ccstr :: "string list" where
  "zip_ccstr = ['''', ''.Z'', ''.LT'', ''.C'', ''.V'', ''.NZ'', ''.GE'', ''.NC'']"

section \<open>The patterns\<close>

definition zip_ops_special :: "zopcode list" where
  "zip_ops_special = [
     zopcode.make ''BUSY'' 0xffc7ffff 0x7883ffff ZIP_OPUNUSED ZIP_OPUNUSED ZIP_OPUNUSED ZIP_OPUNUSED (ZIP_BITFIELD 3 19),
     zopcode.make ''BZ'' 0xfffc0000 0x78880000 ZIP_OPUNUSED ZIP_OPUNUSED ZIP_OPUNUSED (ZIP_IMMFIELD 18 0) ZIP_OPUNUSED,
     zopcode.make ''BLT'' 0xfffc0000 0x78900000 ZIP_OPUNUSED ZIP_OPUNUSED ZIP_OPUNUSED (ZIP_IMMFIELD 18 0) ZIP_OPUNUSED,
     zopcode.make ''BC'' 0xfffc0000 0x78980000 ZIP_OPUNUSED ZIP_OPUNUSED ZIP_OPUNUSED (ZIP_IMMFIELD 18 0) ZIP_OPUNUSED,
     zopcode.make ''BV'' 0xfffc0000 0x78a00000 ZIP_OPUNUSED ZIP_OPUNUSED ZIP_OPUNUSED (ZIP_IMMFIELD 18 0) ZIP_OPUNUSED,
     zopcode.make ''BNZ'' 0xfffc0000 0x78a80000 ZIP_OPUNUSED ZIP_OPUNUSED ZIP_OPUNUSED (ZIP_IMMFIELD 18 0) ZIP_OPUNUSED,
     zopcode.make ''BGE'' 0xfffc0000 0x78b00000 ZIP_OPUNUSED ZIP_OPUNUSED ZIP_OPUNUSED (ZIP_IMMFIELD 18 0) ZIP_OPUNUSED,
     zopcode.make ''BNC'' 0xfffc0000 0x78b80000 ZIP_OPUNUSED ZIP_OPUNUSED ZIP_OPUNUSED (ZIP_IMMFIELD 18 0) ZIP_OPUNUSED,
     zopcode.make ''BRA'' 0xffc40000 0x78800000 ZIP_OPUNUSED ZIP_OPUNUSED ZIP_OPUNUSED (ZIP_IMMFIELD 18 0) (ZIP_BITFIELD 3 19),
     zopcode.make ''TRAP'' 0xfffffff0 0x76000000 ZIP_OPUNUSED ZIP_OPUNUSED ZIP_OPUNUSED ZIP_OPUNUSED ZIP_OPUNUSED,
     zopcode.make ''TRAP'' 0xff800000 0x76000000 ZIP_OPUNUSED ZIP_OPUNUSED ZIP_OPUNUSED ZIP_OPUNUSED ZIP_OPUNUSED,
     zopcode.make ''TRAP'' 0xffc7ffff 0x72000000 ZIP_OPUNUSED ZIP_OPUNUSED ZIP_OPUNUSED (ZIP_IMMFIELD 18 0) (ZIP_BITFIELD 3 19),
     zopcode.make ''TRAP'' 0xffc4ffff 0x72400000 ZIP_OPUNUSED ZIP_OPUNUSED ZIP_OPUNUSED ZIP_OPUNUSED (ZIP_BITFIELD 3 19),
     zopcode.make ''TRAP'' 0xffc40000 0x72400000 ZIP_OPUNUSED ZIP_OPUNUSED ZIP_OPUNUSED (ZIP_IMMFIELD 18 0) (ZIP_BITFIELD 3 19),
     zopcode.make ''CLR'' 0x87ffffff 0x06000000 (ZIP_REGFIELD 27) ZIP_OPUNUSED ZIP_OPUNUSED ZIP_OPUNUSED ZIP_OPUNUSED,
     zopcode.make ''CLR'' 0x87c7ffff 0x02000000 (ZIP_REGFIELD 27) (ZIP_REGFIELD 27) ZIP_OPUNUSED (ZIP_IMMFIELD 18 0) (ZIP_BITFIELD 3 19),
     zopcode.make ''HALT'' 0xffc7ffff 0x70c00010 ZIP_OPUNUSED ZIP_OPUNUSED ZIP_OPUNUSED ZIP_OPUNUSED (ZIP_BITFIELD 3 19),
     zopcode.make ''WAIT'' 0xffc7ffff 0x70c00030 ZIP_OPUNUSED ZIP_OPUNUSED ZIP_OPUNUSED ZIP_OPUNUSED (ZIP_BITFIELD 3 19),
     zopcode.make ''RTU'' 0xffc7ffff 0x70c00020 ZIP_OPUNUSED ZIP_OPUNUSED ZIP_OPUNUSED ZIP_OPUNUSED (ZIP_BITFIELD 3 19),
     zopcode.make ''RTN'' 0xffc7ffff 0x7b400000 ZIP_OPUNUSED ZIP_OPUNUSED ZIP_OPUNUSED ZIP_OPUNUSED (ZIP_BITFIELD 3 19),
     zopcode.make ''JMP'' 0xffc40000 0x7b400000 ZIP_OPUNUSED ZIP_OPUNUSED (ZIP_REGFIELD 14) (ZIP_IMMFIELD 13 0) (ZIP_BITFIELD 3 19),
     zopcode.make ''JMPI'' 0xff800000 0x7e000000 (ZIP_REGFIELD 27) ZIP_OPUNUSED ZIP_OPUNUSED (ZIP_IMMFIELD 23 0) ZIP_OPUNUSED,
     zopcode.make ''LJMP'' 0xffffffff 0x7c87c000 ZIP_OPUNUSED ZIP_OPUNUSED ZIP_OPUNUSED ZIP_OPUNUSED ZIP_OPUNUSED]"

definition zip_ops_alu :: "zopcode list" where
  "zip_ops_alu = [
     zopcode.make ''SUB'' 0x87c40000 0x00000000 (ZIP_REGFIELD 27) (ZIP_REGFIELD 27) ZIP_OPUNUSED (ZIP_IMMFIELD 18 0) (ZIP_BITFIELD 3 19),
     zopcode.make ''SUB'' 0x87c40000 0x00040000 (ZIP_REGFIELD 27) (ZIP_REGFIELD 27) (ZIP_REGFIELD 14) (ZIP_IMMFIELD 14 0) (ZIP_BITFIELD 3 19),
     zopcode.make ''AND'' 0x87c40000 0x00400000 (ZIP_REGFIELD 27) (ZIP_REGFIELD 27) ZIP_OPUNUSED (ZIP_IMMFIELD 18 0) (ZIP_BITFIELD 3 19),
     zopcode.make ''AND'' 0x87c40000 0x00440000 (ZIP_REGFIELD 27) (ZIP_REGFIELD 27) (ZIP_REGFIELD 14) (ZIP_IMMFIELD 14 0) (ZIP_BITFIELD 3 19),
     zopcode.make ''ADD'' 0x87c40000 0x00800000 (ZIP_REGFIELD 27) (ZIP_REGFIELD 27) ZIP_OPUNUSED (ZIP_IMMFIELD 18 0) (ZIP_BITFIELD 3 19),
     zopcode.make ''ADD'' 0x87c40000 0x00840000 (ZIP_REGFIELD 27) (ZIP_REGFIELD 27) (ZIP_REGFIELD 14) (ZIP_IMMFIELD 14 0) (ZIP_BITFIELD 3 19),
     zopcode.make ''OR'' 0x87c40000 0x00c00000 (ZIP_REGFIELD 27) (ZIP_REGFIELD 27) ZIP_OPUNUSED (ZIP_IMMFIELD 18 0) (ZIP_BITFIELD 3 19),
     zopcode.make ''OR'' 0x87c40000 0x00c40000 (ZIP_REGFIELD 27) (ZIP_REGFIELD 27) (ZIP_REGFIELD 14) (ZIP_IMMFIELD 14 0) (ZIP_BITFIELD 3 19),
     zopcode.make ''XOR'' 0x87c40000 0x01000000 (ZIP_REGFIELD 27) (ZIP_REGFIELD 27) ZIP_OPUNUSED (ZIP_IMMFIELD 18 0) (ZIP_BITFIELD 3 19),
     zopcode.make ''XOR'' 0x87c40000 0x01040000 (ZIP_REGFIELD 27) (ZIP_REGFIELD 27) (ZIP_REGFIELD 14) (ZIP_IMMFIELD 14 0) (ZIP_BITFIELD 3 19),
     zopcode.make ''LSR'' 0x87c40000 0x01400000 (ZIP_REGFIELD 27) (ZIP_REGFIELD 27) ZIP_OPUNUSED (ZIP_IMMFIELD 18 0) (ZIP_BITFIELD 3 19),
     zopcode.make ''LSR'' 0x87c40000 0x01440000 (ZIP_REGFIELD 27) (ZIP_REGFIELD 27) (ZIP_REGFIELD 14) (ZIP_IMMFIELD 14 0) (ZIP_BITFIELD 3 19),
     zopcode.make ''LSL'' 0x87c40000 0x01800000 (ZIP_REGFIELD 27) (ZIP_REGFIELD 27) ZIP_OPUNUSED (ZIP_IMMFIELD 18 0) (ZIP_BITFIELD 3 19),
     zopcode.make ''LSL'' 0x87c40000 0x01840000 (ZIP_REGFIELD 27) (ZIP_REGFIELD 27) (ZIP_REGFIELD 14) (ZIP_IMMFIELD 14 0) (ZIP_BITFIELD 3 19),
     zopcode.make ''ASR'' 0x87c40000 0x01c00000 (ZIP_REGFIELD 27) (ZIP_REGFIELD 27) ZIP_OPUNUSED (ZIP_IMMFIELD 18 0) (ZIP_BITFIELD 3 19),
     zopcode.make ''ASR'' 0x87c40000 0x01c40000 (ZIP_REGFIELD 27) (ZIP_REGFIELD 27) (ZIP_REGFIELD 14) (ZIP_IMMFIELD 14 0) (ZIP_BITFIELD 3 19),
     zopcode.make ''BREV'' 0x87c40000 0x02000000 (ZIP_REGFIELD 27) (ZIP_REGFIELD 27) ZIP_OPUNUSED (ZIP_IMMFIELD 18 0) (ZIP_BITFIELD 3 19),
     zopcode.make ''BREV'' 0x87c40000 0x02040000 (ZIP_REGFIELD 27) (ZIP_REGFIELD 27) (ZIP_REGFIELD 14) (ZIP_IMMFIELD 14 0) (ZIP_BITFIELD 3 19),
     zopcode.make ''LDILO'' 0x87c40000 0x02400000 (ZIP_REGFIELD 27) (ZIP_REGFIELD 27) ZIP_OPUNUSED (ZIP_IMMFIELD 18 0) (ZIP_BITFIELD 3 19),
     zopcode.make ''LDILO'' 0x87c40000 0x02440000 (ZIP_REGFIELD 27) (ZIP_REGFIELD 27) (ZIP_REGFIELD 14) (ZIP_IMMFIELD 14 0) (ZIP_BITFIELD 3 19),
     zopcode.make ''MPYUHI'' 0x87c40000 0x02800000 (ZIP_REGFIELD 27) (ZIP_REGFIELD 27) ZIP_OPUNUSED (ZIP_IMMFIELD 18 0) (ZIP_BITFIELD 3 19),
     zopcode.make ''MPYUHI'' 0x87c40000 0x02840000 (ZIP_REGFIELD 27) (ZIP_REGFIELD 27) (ZIP_REGFIELD 14) (ZIP_IMMFIELD 14 0) (ZIP_BITFIELD 3 19),
     zopcode.make ''MPYSHI'' 0x87c40000 0x02c00000 (ZIP_REGFIELD 27) (ZIP_REGFIELD 27) ZIP_OPUNUSED (ZIP_IMMFIELD 18 0) (ZIP_BITFIELD 3 19),
     zopcode.make ''MPYSHI'' 0x87c40000 0x02c40000 (ZIP_REGFIELD 27) (ZIP_REGFIELD 27) (ZIP_REGFIELD 14) (ZIP_IMMFIELD 14 0) (ZIP_BITFIELD 3 19),
     zopcode.make ''MPY'' 0x87c40000 0x03000000 (ZIP_REGFIELD 27) (ZIP_REGFIELD 27) ZIP_OPUNUSED (ZIP_IMMFIELD 18 0) (ZIP_BITFIELD 3 19),
     zopcode.make ''MPY'' 0x87c40000 0x03040000 (ZIP_REGFIELD 27) (ZIP_REGFIELD 27) (ZIP_REGFIELD 14) (ZIP_IMMFIELD 14 0) (ZIP_BITFIELD 3 19),
     zopcode.make ''MOV'' 0x87c42000 0x03400000 (ZIP_REGFIELD 27) ZIP_OPUNUSED (ZIP_REGFIELD 14) (ZIP_IMMFIELD 13 0) (ZIP_BITFIELD 3 19),
     zopcode.make ''MOV'' 0x87c42000 0x03440000 (ZIP_URGFIELD 27) ZIP_OPUNUSED (ZIP_REGFIELD 14) (ZIP_IMMFIELD 13 0) (ZIP_BITFIELD 3 19),
     zopcode.make ''MOV'' 0x87c42000 0x03402000 (ZIP_REGFIELD 27) ZIP_OPUNUSED (ZIP_URGFIELD 14) (ZIP_IMMFIELD 13 0) (ZIP_BITFIELD 3 19),
     zopcode.make ''MOV'' 0x87c42000 0x03442000 (ZIP_URGFIELD 27) ZIP_OPUNUSED (ZIP_URGFIELD 14) (ZIP_IMMFIELD 13 0) (ZIP_BITFIELD 3 19),
     zopcode.make ''DIVU'' 0x87c40000 0x03800000 (ZIP_REGFIELD 27) (ZIP_REGFIELD 27) ZIP_OPUNUSED (ZIP_IMMFIELD 18 0) (ZIP_BITFIELD 3 19),
     zopcode.make ''DIVU'' 0x87c40000 0x03840000 (ZIP_REGFIELD 27) (ZIP_REGFIELD 27) (ZIP_REGFIELD 14) (ZIP_IMMFIELD 14 0) (ZIP_BITFIELD 3 19)]"

definition zip_ops_memory :: "zopcode list" where
  "zip_ops_memory = [
     zopcode.make ''DIVS'' 0x87c40000 0x03c00000 (ZIP_REGFIELD 27) (ZIP_REGFIELD 27) ZIP_OPUNUSED (ZIP_IMMFIELD 18 0) (ZIP_BITFIELD 3 19),
     zopcode.make ''DIVS'' 0x87c40000 0x03c40000 (ZIP_REGFIELD 27) (ZIP_REGFIELD 27) (ZIP_REGFIELD 14) (ZIP_IMMFIELD 14 0) (ZIP_BITFIELD 3 19),
     zopcode.make ''CMP'' 0x87c40000 0x04000000 ZIP_OPUNUSED (ZIP_REGFIELD 27) ZIP_OPUNUSED (ZIP_IMMFIELD 18 0) (ZIP_BITFIELD 3 19),
     zopcode.make ''CMP'' 0x87c40000 0x04040000 ZIP_OPUNUSED (ZIP_REGFIELD 27) (ZIP_REGFIELD 14) (ZIP_IMMFIELD 14 0) (ZIP_BITFIELD 3 19),
     zopcode.make ''TST'' 0x87c40000 0x04400000 ZIP_OPUNUSED (ZIP_REGFIELD 27) ZIP_OPUNUSED (ZIP_IMMFIELD 18 0) (ZIP_BITFIELD 3 19),
     zopcode.make ''TST'' 0x87c40000 0x04440000 ZIP_OPUNUSED (ZIP_REGFIELD 27) (ZIP_REGFIELD 14) (ZIP_IMMFIELD 14 0) (ZIP_BITFIELD 3 19),
     zopcode.make ''LW'' 0x87c40000 0x04800000 (ZIP_REGFIELD 27) ZIP_OPUNUSED ZIP_OPUNUSED (ZIP_IMMFIELD 18 0) (ZIP_BITFIELD 3 19),
     zopcode.make ''LW'' 0x87c40000 0x04840000 (ZIP_REGFIELD 27) ZIP_OPUNUSED (ZIP_REGFIELD 14) (ZIP_IMMFIELD 14 0) (ZIP_BITFIELD 3 19),
     zopcode.make ''SW'' 0x87c40000 0x04c00000 ZIP_OPUNUSED (ZIP_REGFIELD 27) ZIP_OPUNUSED (ZIP_IMMFIELD 18 0) (ZIP_BITFIELD 3 19),
     zopcode.make ''SW'' 0x87c40000 0x04c40000 ZIP_OPUNUSED (ZIP_REGFIELD 27) (ZIP_REGFIELD 14) (ZIP_IMMFIELD 14 0) (ZIP_BITFIELD 3 19),
     zopcode.make ''LH'' 0x87c40000 0x05000000 (ZIP_REGFIELD 27) ZIP_OPUNUSED ZIP_OPUNUSED (ZIP_IMMFIELD 18 0) (ZIP_BITFIELD 3 19),
     zopcode.make ''LH'' 0x87c40000 0x05040000 (ZIP_REGFIELD 27) ZIP_OPUNUSED (ZIP_REGFIELD 14) (ZIP_IMMFIELD 14 0) (ZIP_BITFIELD 3 19),
     zopcode.make ''SH'' 0x87c40000 0x05400000 ZIP_OPUNUSED (ZIP_REGFIELD 27) ZIP_OPUNUSED (ZIP_IMMFIELD 18 0) (ZIP_BITFIELD 3 19),
     zopcode.make ''SH'' 0x87c40000 0x05440000 ZIP_OPUNUSED (ZIP_REGFIELD 27) (ZIP_REGFIELD 14) (ZIP_IMMFIELD 14 0) (ZIP_BITFIELD 3 19),
     zopcode.make ''LB'' 0x87c40000 0x05800000 (ZIP_REGFIELD 27) ZIP_OPUNUSED ZIP_OPUNUSED (ZIP_IMMFIELD 18 0) (ZIP_BITFIELD 3 19),
     zopcode.make ''LB'' 0x87c40000 0x05840000 (ZIP_REGFIELD 27) ZIP_OPUNUSED (ZIP_REGFIELD 14) (ZIP_IMMFIELD 14 0) (ZIP_BITFIELD 3 19),
     zopcode.make ''SB'' 0x87c40000 0x05c00000 ZIP_OPUNUSED (ZIP_REGFIELD 27) ZIP_OPUNUSED (ZIP_IMMFIELD 18 0) (ZIP_BITFIELD 3 19),
     zopcode.make ''SB'' 0x87c40000 0x05c40000 ZIP_OPUNUSED (ZIP_REGFIELD 27) (ZIP_REGFIELD 14) (ZIP_IMMFIELD 14 0) (ZIP_BITFIELD 3 19),
     zopcode.make ''LDI'' 0x87800000 0x06000000 (ZIP_REGFIELD 27) ZIP_OPUNUSED ZIP_OPUNUSED (ZIP_IMMFIELD 23 0) ZIP_OPUNUSED]"

definition zip_ops_sim :: "zopcode list" where
  "zip_ops_sim = [
     zopcode.make ''BRK'' 0xf7ffffff 0x77000000 ZIP_OPUNUSED ZIP_OPUNUSED ZIP_OPUNUSED ZIP_OPUNUSED ZIP_OPUNUSED,
     zopcode.make ''BRK'' 0xf7c00000 0x77000000 ZIP_OPUNUSED ZIP_OPUNUSED ZIP_OPUNUSED (ZIP_IMMFIELD 22 0) ZIP_OPUNUSED,
     zopcode.make ''LOCK'' 0xf7ffffff 0x77400000 ZIP_OPUNUSED ZIP_OPUNUSED ZIP_OPUNUSED ZIP_OPUNUSED ZIP_OPUNUSED,
     zopcode.make ''LOCK'' 0xf7c00000 0x77400000 ZIP_OPUNUSED ZIP_OPUNUSED ZIP_OPUNUSED (ZIP_IMMFIELD 22 0) ZIP_OPUNUSED,
     zopcode.make ''SIM'' 0xf7ffffff 0x77800000 ZIP_OPUNUSED ZIP_OPUNUSED ZIP_OPUNUSED ZIP_OPUNUSED ZIP_OPUNUSED,
     zopcode.make ''SEXIT'' 0xf7ffffff 0x77800100 ZIP_OPUNUSED ZIP_OPUNUSED ZIP_OPUNUSED ZIP_OPUNUSED ZIP_OPUNUSED,
     zopcode.make ''SEXIT'' 0xf7fffff0 0x77800310 ZIP_OPUNUSED (ZIP_URGFIELD 0) ZIP_OPUNUSED ZIP_OPUNUSED ZIP_OPUNUSED,
     zopcode.make ''SEXIT'' 0xf7ffffe0 0x77800300 ZIP_OPUNUSED (ZIP_REGFIELD 0) ZIP_OPUNUSED ZIP_OPUNUSED ZIP_OPUNUSED,
     zopcode.make ''SEXIT'' 0xf7ffff00 0x77800100 ZIP_OPUNUSED ZIP_OPUNUSED ZIP_OPUNUSED (ZIP_IMMFIELD 8 0) ZIP_OPUNUSED,
     zopcode.make ''SDUMP'' 0xf7ffffff 0x778002ff ZIP_OPUNUSED ZIP_OPUNUSED ZIP_OPUNUSED ZIP_OPUNUSED ZIP_OPUNUSED,
     zopcode.make ''SDUMP'' 0xf7fffff0 0x77800200 ZIP_OPUNUSED (ZIP_REGFIELD 0) ZIP_OPUNUSED ZIP_OPUNUSED ZIP_OPUNUSED,
     zopcode.make ''SDUMP'' 0xf7fffff0 0x77800210 ZIP_OPUNUSED (ZIP_URGFIELD 0) ZIP_OPUNUSED ZIP_OPUNUSED ZIP_OPUNUSED,
     zopcode.make ''SOUT'' 0xf7fffff0 0x77800230 ZIP_OPUNUSED (ZIP_URGFIELD 0) ZIP_OPUNUSED ZIP_OPUNUSED ZIP_OPUNUSED,
     zopcode.make ''SOUT'' 0xf7ffffe0 0x77800220 ZIP_OPUNUSED (ZIP_REGFIELD 0) ZIP_OPUNUSED ZIP_OPUNUSED ZIP_OPUNUSED,
     zopcode.make ''SOUT'' 0xf7ffff00 0x77800400 ZIP_OPUNUSED ZIP_OPUNUSED ZIP_OPUNUSED (ZIP_IMMFIELD 8 0) ZIP_OPUNUSED,
     zopcode.make ''SDUMP'' 0xf7ffff00 0x77800200 ZIP_OPUNUSED ZIP_OPUNUSED ZIP_OPUNUSED (ZIP_IMMFIELD 8 0) ZIP_OPUNUSED,
     zopcode.make ''SIM'' 0xf7c00000 0x77800000 ZIP_OPUNUSED ZIP_OPUNUSED ZIP_OPUNUSED (ZIP_IMMFIELD 22 0) ZIP_OPUNUSED,
     zopcode.make ''NOOP'' 0xf7ffffff 0x77c00000 ZIP_OPUNUSED ZIP_OPUNUSED ZIP_OPUNUSED ZIP_OPUNUSED ZIP_OPUNUSED,
     zopcode.make ''NEXIT'' 0xf7ffffff 0x77c00100 ZIP_OPUNUSED ZIP_OPUNUSED ZIP_OPUNUSED ZIP_OPUNUSED ZIP_OPUNUSED,
     zopcode.make ''NEXIT'' 0xf7ffff00 0x77c00100 ZIP_OPUNUSED ZIP_OPUNUSED ZIP_OPUNUSED (ZIP_IMMFIELD 8 0) ZIP_OPUNUSED,
     zopcode.make ''NEXIT'' 0xf7fffff0 0x77c00310 ZIP_OPUNUSED (ZIP_URGFIELD 0) ZIP_OPUNUSED ZIP_OPUNUSED ZIP_OPUNUSED,
     zopcode.make ''NEXIT'' 0xf7ffffe0 0x77c00300 ZIP_OPUNUSED (ZIP_REGFIELD 0) ZIP_OPUNUSED ZIP_OPUNUSED ZIP_OPUNUSED,
     zopcode.make ''NDUMP'' 0xf7ffffff 0x77c002ff ZIP_OPUNUSED ZIP_OPUNUSED ZIP_OPUNUSED ZIP_OPUNUSED ZIP_OPUNUSED,
     zopcode.make ''NDUMP'' 0xf7fffff0 0x77c00200 ZIP_OPUNUSED (ZIP_REGFIELD 0) ZIP_OPUNUSED ZIP_OPUNUSED ZIP_OPUNUSED,
     zopcode.make ''NDUMP'' 0xf7fffff0 0x77c00210 ZIP_OPUNUSED (ZIP_URGFIELD 0) ZIP_OPUNUSED ZIP_OPUNUSED ZIP_OPUNUSED,
     zopcode.make ''NOUT'' 0xf7fffff0 0x77c00230 ZIP_OPUNUSED (ZIP_URGFIELD 0) ZIP_OPUNUSED ZIP_OPUNUSED ZIP_OPUNUSED,
     zopcode.make ''NOUT'' 0xf7ffffe0 0x77c00220 ZIP_OPUNUSED (ZIP_REGFIELD 0) ZIP_OPUNUSED ZIP_OPUNUSED ZIP_OPUNUSED,
     zopcode.make ''NOUT'' 0xf7ffff00 0x77c00400 ZIP_OPUNUSED ZIP_OPUNUSED ZIP_OPUNUSED (ZIP_IMMFIELD 8 0) ZIP_OPUNUSED,
     zopcode.make ''NDUMP'' 0xf7ffff00 0x77c00200 ZIP_OPUNUSED ZIP_OPUNUSED ZIP_OPUNUSED ZIP_OPUNUSED ZIP_OPUNUSED,
     zopcode.make ''NSIM'' 0xf7c00000 0x77c00000 ZIP_OPUNUSED ZIP_OPUNUSED ZIP_OPUNUSED (ZIP_IMMFIELD 22 0) ZIP_OPUNUSED]"

definition zip_ops_fp :: "zopcode list" where
  "zip_ops_fp = [
     zopcode.make ''FPADD'' 0x87c43fff 0x06840000 (ZIP_REGFIELD 27) (ZIP_REGFIELD 27) (ZIP_REGFIELD 14) ZIP_OPUNUSED (ZIP_BITFIELD 3 19),
     zopcode.make ''FPSUB'' 0x87c43fff 0x06c40000 (ZIP_REGFIELD 27) (ZIP_REGFIELD 27) (ZIP_REGFIELD 14) ZIP_OPUNUSED (ZIP_BITFIELD 3 19),
     zopcode.make ''FPMPY'' 0x87c43fff 0x07040000 (ZIP_REGFIELD 27) (ZIP_REGFIELD 27) (ZIP_REGFIELD 14) ZIP_OPUNUSED (ZIP_BITFIELD 3 19),
     zopcode.make ''FPDIV'' 0x87c43fff 0x07440000 (ZIP_REGFIELD 27) (ZIP_REGFIELD 27) (ZIP_REGFIELD 14) ZIP_OPUNUSED (ZIP_BITFIELD 3 19),
     zopcode.make ''FPI2F'' 0x87c40000 0x07800000 (ZIP_REGFIELD 27) ZIP_OPUNUSED ZIP_OPUNUSED (ZIP_IMMFIELD 18 0) (ZIP_BITFIELD 3 19),
     zopcode.make ''FPI2F'' 0x87c40000 0x07840000 (ZIP_REGFIELD 27) ZIP_OPUNUSED (ZIP_REGFIELD 14) (ZIP_IMMFIELD 14 0) (ZIP_BITFIELD 3 19),
     zopcode.make ''FPF2I'' 0x87c40000 0x07c40000 (ZIP_REGFIELD 27) ZIP_OPUNUSED (ZIP_REGFIELD 14) (ZIP_IMMFIELD 14 0) (ZIP_BITFIELD 3 19)]"

definition zip_ops_cis :: "zopcode list" where
  "zip_ops_cis = [
     zopcode.make ''BRA'' 0xff800000 0xf9000000 ZIP_OPUNUSED ZIP_OPUNUSED ZIP_OPUNUSED (ZIP_IMMFIELD 7 16) ZIP_OPUNUSED,
     zopcode.make ''CLR'' 0x87ff0000 0x86000000 (ZIP_REGFIELD 27) ZIP_OPUNUSED ZIP_OPUNUSED ZIP_OPUNUSED ZIP_OPUNUSED,
     zopcode.make ''RTN'' 0xffff0000 0xff800000 ZIP_OPUNUSED ZIP_OPUNUSED ZIP_OPUNUSED ZIP_OPUNUSED ZIP_OPUNUSED,
     zopcode.make ''JMP'' 0xff800000 0xff000000 (ZIP_REGFIELD 27) ZIP_OPUNUSED (ZIP_REGFIELD 19) (ZIP_IMMFIELD 3 16) ZIP_OPUNUSED,
     zopcode.make ''SUB'' 0x87800000 0x80000000 (ZIP_REGFIELD 27) (ZIP_REGFIELD 27) ZIP_OPUNUSED (ZIP_IMMFIELD 7 16) ZIP_OPUNUSED,
     zopcode.make ''SUB'' 0x87800000 0x80800000 (ZIP_REGFIELD 27) (ZIP_REGFIELD 27) (ZIP_REGFIELD 19) (ZIP_IMMFIELD 3 16) ZIP_OPUNUSED,
     zopcode.make ''AND'' 0x87800000 0x81000000 (ZIP_REGFIELD 27) (ZIP_REGFIELD 27) ZIP_OPUNUSED (ZIP_IMMFIELD 7 16) ZIP_OPUNUSED,
     zopcode.make ''AND'' 0x87800000 0x81800000 (ZIP_REGFIELD 27) (ZIP_REGFIELD 27) (ZIP_REGFIELD 19) (ZIP_IMMFIELD 3 16) ZIP_OPUNUSED,
     zopcode.make ''ADD'' 0x87800000 0x82000000 (ZIP_REGFIELD 27) (ZIP_REGFIELD 27) ZIP_OPUNUSED (ZIP_IMMFIELD 7 16) ZIP_OPUNUSED,
     zopcode.make ''ADD'' 0x87800000 0x82800000 (ZIP_REGFIELD 27) (ZIP_REGFIELD 27) (ZIP_REGFIELD 19) (ZIP_IMMFIELD 3 16) ZIP_OPUNUSED,
     zopcode.make ''CMP'' 0x87800000 0x83000000 (ZIP_REGFIELD 27) ZIP_OPUNUSED ZIP_OPUNUSED (ZIP_IMMFIELD 7 16) ZIP_OPUNUSED,
     zopcode.make ''CMP'' 0x87800000 0x83800000 (ZIP_REGFIELD 27) ZIP_OPUNUSED (ZIP_REGFIELD 19) (ZIP_IMMFIELD 3 16) ZIP_OPUNUSED,
     zopcode.make ''LW'' 0x87800000 0x84000000 (ZIP_REGFIELD 27) ZIP_OPUNUSED ZIP_SP (ZIP_IMMFIELD 7 16) ZIP_OPUNUSED,
     zopcode.make ''LW'' 0x87800000 0x84800000 (ZIP_REGFIELD 27) ZIP_OPUNUSED (ZIP_REGFIELD 19) (ZIP_IMMFIELD 3 16) ZIP_OPUNUSED,
     zopcode.make ''SW'' 0x87000000 0x85000000 ZIP_OPUNUSED (ZIP_REGFIELD 27) ZIP_SP (ZIP_IMMFIELD 7 16) ZIP_OPUNUSED,
     zopcode.make ''SW'' 0x87800000 0x85800000 ZIP_OPUNUSED (ZIP_REGFIELD 27) (ZIP_REGFIELD 19) (ZIP_IMMFIELD 3 16) ZIP_OPUNUSED,
     zopcode.make ''LDI'' 0x87000000 0x86000000 (ZIP_REGFIELD 27) ZIP_OPUNUSED ZIP_OPUNUSED (ZIP_IMMFIELD 8 16) ZIP_OPUNUSED,
     zopcode.make ''MOV'' 0x87800000 0x87800000 ZIP_OPUNUSED (ZIP_REGFIELD 27) (ZIP_REGFIELD 19) (ZIP_IMMFIELD 3 16) ZIP_OPUNUSED,
     zopcode.make ''ILLV'' 0x80000000 0x80000000 ZIP_OPUNUSED ZIP_OPUNUSED ZIP_OPUNUSED (ZIP_IMMFIELD 32 16) ZIP_OPUNUSED,
     zopcode.make ''ILL'' 0x00000000 0x00000000 ZIP_OPUNUSED ZIP_OPUNUSED ZIP_OPUNUSED (ZIP_IMMFIELD 32 0) ZIP_OPUNUSED]"

definition zip_opbottomlist_raw :: "zopcode list" where
  "zip_opbottomlist_raw = [
     zopcode.make ''BRA'' 0x80007f80 0x80007900 ZIP_OPUNUSED ZIP_OPUNUSED ZIP_OPUNUSED (ZIP_IMMFIELD 7 0) ZIP_OPUNUSED,
     zopcode.make ''CLR'' 0x800007ff 0x80000600 (ZIP_REGFIELD 11) ZIP_OPUNUSED ZIP_OPUNUSED ZIP_OPUNUSED ZIP_OPUNUSED,
     zopcode.make ''RTN'' 0x80007fff 0x80007f80 ZIP_OPUNUSED ZIP_OPUNUSED ZIP_OPUNUSED ZIP_OPUNUSED ZIP_OPUNUSED,
     zopcode.make ''JMP'' 0x80007f80 0x80007f00 (ZIP_REGFIELD 11) ZIP_OPUNUSED (ZIP_REGFIELD 3) (ZIP_IMMFIELD 3 0) ZIP_OPUNUSED,
     zopcode.make ''LJMP'' 0x80007fff 0x80007cf8 (ZIP_REGFIELD 11) ZIP_OPUNUSED (ZIP_REGFIELD 3) (ZIP_IMMFIELD 3 0) ZIP_OPUNUSED,
     zopcode.make ''SUB'' 0x80000780 0x80000000 (ZIP_REGFIELD 11) (ZIP_REGFIELD 11) ZIP_OPUNUSED (ZIP_IMMFIELD 7 0) ZIP_OPUNUSED,
     zopcode.make ''SUB'' 0x80000780 0x80000080 (ZIP_REGFIELD 11) (ZIP_REGFIELD 11) (ZIP_REGFIELD 3) (ZIP_IMMFIELD 3 0) ZIP_OPUNUSED,
     zopcode.make ''AND'' 0x80000780 0x80000100 (ZIP_REGFIELD 11) (ZIP_REGFIELD 11) ZIP_OPUNUSED (ZIP_IMMFIELD 7 0) ZIP_OPUNUSED,
     zopcode.make ''AND'' 0x80000780 0x80000180 (ZIP_REGFIELD 11) (ZIP_REGFIELD 11) (ZIP_REGFIELD 3) (ZIP_IMMFIELD 3 0) ZIP_OPUNUSED,
     zopcode.make ''ADD'' 0x80000780 0x80000200 (ZIP_REGFIELD 11) (ZIP_REGFIELD 11) ZIP_OPUNUSED (ZIP_IMMFIELD 7 0) ZIP_OPUNUSED,
     zopcode.make ''ADD'' 0x80000780 0x80000280 (ZIP_REGFIELD 11) (ZIP_REGFIELD 11) (ZIP_REGFIELD 3) (ZIP_IMMFIELD 3 0) ZIP_OPUNUSED,
     zopcode.make ''CMP'' 0x80000780 0x80000300 (ZIP_REGFIELD 11) ZIP_OPUNUSED ZIP_OPUNUSED (ZIP_IMMFIELD 7 0) ZIP_OPUNUSED,
     zopcode.make ''CMP'' 0x80000780 0x80000380 (ZIP_REGFIELD 11) ZIP_OPUNUSED (ZIP_REGFIELD 3) (ZIP_IMMFIELD 3 0) ZIP_OPUNUSED,
     zopcode.make ''LW'' 0x80000780 0x80000400 (ZIP_REGFIELD 11) ZIP_OPUNUSED ZIP_SP (ZIP_IMMFIELD 7 0) ZIP_OPUNUSED,
     zopcode.make ''LW'' 0x80000780 0x80000480 (ZIP_REGFIELD 11) ZIP_OPUNUSED (ZIP_REGFIELD 3) (ZIP_IMMFIELD 3 0) ZIP_OPUNUSED,
     zopcode.make ''SW'' 0x80000780 0x80000500 ZIP_OPUNUSED (ZIP_REGFIELD 11) ZIP_SP (ZIP_IMMFIELD 7 0) ZIP_OPUNUSED,
     zopcode.make ''SW'' 0x80000780 0x80000580 ZIP_OPUNUSED (ZIP_REGFIELD 11) (ZIP_REGFIELD 3) (ZIP_IMMFIELD 3 0) ZIP_OPUNUSED,
     zopcode.make ''LDI'' 0x80000700 0x80000600 (ZIP_REGFIELD 11) ZIP_OPUNUSED ZIP_OPUNUSED (ZIP_IMMFIELD 8 0) ZIP_OPUNUSED,
     zopcode.make ''MOV'' 0x80000780 0x80000780 (ZIP_REGFIELD 11) ZIP_OPUNUSED (ZIP_REGFIELD 3) (ZIP_IMMFIELD 3 0) ZIP_OPUNUSED,
     zopcode.make ''ILLV'' 0x80000000 0x80000000 ZIP_OPUNUSED ZIP_OPUNUSED ZIP_OPUNUSED (ZIP_IMMFIELD 15 0) ZIP_OPUNUSED,
     zopcode.make ''ILL'' 0x00000000 0x00000000 ZIP_OPUNUSED ZIP_OPUNUSED ZIP_OPUNUSED (ZIP_IMMFIELD 15 0) ZIP_OPUNUSED]"

definition zip_oplist_raw :: "zopcode list" where
  "zip_oplist_raw = zip_ops_special @ zip_ops_alu @ zip_ops_memory @ zip_ops_sim @ zip_ops_fp @ zip_ops_cis"

lemmas zip_tables = zip_ops_special_def zip_ops_alu_def zip_ops_memory_def zip_ops_sim_def zip_ops_fp_def
  zip_ops_cis_def zip_opbottomlist_raw_def

section \<open>Words that belong together\<close>

definition TWOWORD_LOAD :: "u32 \<Rightarrow> u32 \<Rightarrow> bool" where
  "TWOWORD_LOAD one two \<longleftrightarrow> one AND 0x87c40000 = 0x02000000 \<and> two AND 0x87c40000 = 0x02400000
     \<and> (one XOR two) AND 0xf8380000 = 0"

definition OFFSET_PC_MOV :: "u32 \<Rightarrow> bool" where
  "OFFSET_PC_MOV ins \<longleftrightarrow> ins AND 0x87c7e000 = 0x0343c000"

definition TWOWORD_LJMP :: "u32 \<Rightarrow> bool" where
  "TWOWORD_LJMP iword \<longleftrightarrow> iword = 0x7c87c000 \<or> iword AND 0x80007fff = 0x80007cf8"

definition TWOWORD_JSR :: "u32 \<Rightarrow> u32 \<Rightarrow> bool" where
  "TWOWORD_JSR iword nxtword \<longleftrightarrow> iword = 0x0343c001 \<and> nxtword AND 0xffc40000 = 0x78800000"

definition THREEWORD_LJSR :: "u32 \<Rightarrow> u32 \<Rightarrow> bool" where
  "THREEWORD_LJSR iword nxtword \<longleftrightarrow> iword = 0x0343c002 \<and> nxtword = 0x7c87c000"

definition CIS_JSR :: "u32 \<Rightarrow> bool" where
  "CIS_JSR iword \<longleftrightarrow> iword = 0x87f9fcf8"

definition POSSIBLE_TWOWORD_BEGINNING :: "u32 \<Rightarrow> bool" where
  "POSSIBLE_TWOWORD_BEGINNING iword \<longleftrightarrow> TWOWORD_LJMP iword \<or> iword = 0x0343c001 \<or> iword = 0x0343c002
     \<or> CIS_JSR iword \<or> iword AND 0x87c40000 = 0x02000000"

fun zip_bitreverse_loop :: "nat \<Rightarrow> u32 \<Rightarrow> u32 \<Rightarrow> u32" where
  "zip_bitreverse_loop 0 r v = r"
| "zip_bitreverse_loop (Suc b) r v = zip_bitreverse_loop b (push_bit 1 r OR (v AND 1)) (drop_bit 1 v)"

definition zip_bitreverse :: "u32 \<Rightarrow> u32" where
  "zip_bitreverse v = zip_bitreverse_loop 32 0 v"

definition TWOWORD_VALUE :: "u32 \<Rightarrow> u32 \<Rightarrow> u32" where
  "TWOWORD_VALUE one two = (two AND 0xffff) OR zip_bitreverse (one AND 0xffff)"

section \<open>Reading the fields\<close>

definition zip_sbits :: "int \<Rightarrow> nat \<Rightarrow> int" where
  "zip_sbits val bits =
     (let r = val AND (push_bit bits 1 - 1)
      in if r AND push_bit (bits - 1) 1 \<noteq> 0 then r OR push_bit bits (- 1) else r)"

definition zip_ubits :: "int \<Rightarrow> nat \<Rightarrow> int" where
  "zip_ubits val bits = val AND (push_bit bits 1 - 1)"

definition zip_getbits :: "u32 \<Rightarrow> int \<Rightarrow> fault + int" where
  "zip_getbits ins which =
     (let sh = nat (which AND 0x3f); bits = nat (drop_bit 8 which AND 0x3f)
      in if 32 \<le> sh then Inl BadShift
         else Inr (signed_take_bit 31
           (if which AND 0x40000000 \<noteq> 0 then zip_sbits (uint (drop_bit sh ins)) bits
            else zip_ubits (uint (drop_bit sh ins)) bits + (drop_bit 16 which AND 0xff))))"

text \<open>A field that may be unused.\<close>

definition zip_field :: "int \<Rightarrow> u32 \<Rightarrow> int \<Rightarrow> fault + int" where
  "zip_field dflt ins which = (if which = ZIP_OPUNUSED then Inr dflt else zip_getbits ins which)"

definition reg_name :: "int \<Rightarrow> fault + string" where
  "reg_name r = in_bounds (0 \<le> r \<and> r < int (length zip_regstr)) (Inr (zip_regstr ! nat r))"

definition cc_name :: "int \<Rightarrow> fault + string" where
  "cc_name c = in_bounds (0 \<le> c \<and> c < int (length zip_ccstr)) (Inr (zip_ccstr ! nat c))"

section \<open>A line\<close>

definition zop_is_store :: "zopcode \<Rightarrow> bool" where
  "zop_is_store e \<longleftrightarrow> strncaseeq ''SW'' (s_opstr e) 2 \<or> strncaseeq ''SH'' (s_opstr e) 2 \<or> strncaseeq ''SB'' (s_opstr e) 2"

definition zop_is_branch :: "zopcode \<Rightarrow> bool" where
  "zop_is_branch e \<longleftrightarrow> take 1 (s_opstr e) = ''B'' \<and> \<not> strcaseeq (s_opstr e) ''BUSY''
     \<and> \<not> strcaseeq (s_opstr e) ''BREV'' \<and> \<not> strcaseeq (s_opstr e) ''BRK''"

definition zop_is_load :: "zopcode \<Rightarrow> bool" where
  "zop_is_load e \<longleftrightarrow> map to_upper (s_opstr e) \<in> {''LW'', ''LH'', ''LB''}"

definition store_args :: "zopcode \<Rightarrow> int \<Rightarrow> int \<Rightarrow> int \<Rightarrow> fault + string" where
  "store_args e ra rb imv =
     rbind (reg_name ra) (\<lambda>a.
     rbind (if s_rb e \<noteq> ZIP_OPUNUSED then rbind (reg_name rb) (\<lambda>b. Inr (''('' @ b @ '')'')) else Inr []) (\<lambda>b.
     Inr (a @ '','' @
       (if s_i e \<noteq> ZIP_OPUNUSED
        then (if s_rb e = ZIP_OPUNUSED then ''($'' @ dec imv @ '')'' else if imv \<noteq> 0 then ''$'' @ dec imv else [])
        else []) @ b)))"

definition other_args :: "zopcode \<Rightarrow> int \<Rightarrow> int \<Rightarrow> int \<Rightarrow> int \<Rightarrow> fault + string" where
  "other_args e rr ra rb imv =
     (let memop = zop_is_load e;
          i = (if s_i e = ZIP_OPUNUSED then []
               else if memop \<and> s_rb e = ZIP_OPUNUSED then ''($'' @ dec imv @ '')''
               else if memop \<and> imv \<noteq> 0 then dec imv
               else if \<not> memop \<and> (imv \<noteq> 0 \<or> s_rb e = ZIP_OPUNUSED)
               then ''$'' @ dec imv @ (if s_rb e \<noteq> ZIP_OPUNUSED then ''+'' else [])
               else []);
          comma = (if (s_i e \<noteq> ZIP_OPUNUSED \<or> s_rb e \<noteq> ZIP_OPUNUSED) \<and> (s_ra e \<noteq> ZIP_OPUNUSED \<or> s_result e \<noteq> ZIP_OPUNUSED)
                   then '','' else [])
      in rbind (if s_rb e = ZIP_OPUNUSED then Inr []
                else rbind (reg_name rb) (\<lambda>b. Inr (if memop then ''('' @ b @ '')'' else b))) (\<lambda>b.
         rbind (if s_ra e \<noteq> ZIP_OPUNUSED then reg_name ra
                else if s_result e \<noteq> ZIP_OPUNUSED then reg_name rr else Inr []) (\<lambda>r.
         Inr (i @ b @ comma @ r))))"

definition zop_line :: "u32 \<Rightarrow> u32 \<Rightarrow> zopcode \<Rightarrow> fault + string" where
  "zop_line addr ins e =
     rbind (if s_cf e \<noteq> ZIP_OPUNUSED then rbind (zip_getbits ins (s_cf e)) cc_name else Inr []) (\<lambda>cc.
     rbind (zip_field (- 1) ins (s_result e)) (\<lambda>rr.
     rbind (zip_field (- 1) ins (s_ra e)) (\<lambda>ra.
     rbind (zip_field (- 1) ins (s_rb e)) (\<lambda>rb.
     rbind (zip_field 0 ins (s_i e)) (\<lambda>imv.
     let imv = (if s_rb e \<noteq> ZIP_OPUNUSED \<and> rb = 15 then push_bit 2 imv else imv);
         line = pad11 (s_opstr e @ cc)
     in rbind
       (if zop_is_store e then store_args e ra rb imv
        else if strncaseeq ''LJMP'' (s_opstr e) 3 then Inr []
        else if zop_is_branch e \<and> addr \<noteq> 0
        then rbind (zip_getbits ins (s_i e)) (\<lambda>v. Inr (''@0x'' @ hex8 (addr + of_int (v + 4))))
        else other_args e rr ra rb imv) (\<lambda>args. Inr (line @ args)))))))"

text \<open>The first pattern that matches, up to the one with an empty mask.\<close>

fun zip_find :: "u32 \<Rightarrow> zopcode list \<Rightarrow> fault + zopcode option" where
  "zip_find ins [] = Inl OutOfBounds"
| "zip_find ins (e # es) =
     (if s_mask e = 0 then Inr None
      else if ins AND s_mask e = s_val e then Inr (Some e)
      else zip_find ins es)"

definition zipi_to_halfstring :: "u32 \<Rightarrow> u32 \<Rightarrow> zopcode list \<Rightarrow> fault + string" where
  "zipi_to_halfstring addr ins listp =
     (if OFFSET_PC_MOV ins
      then rbind (rbind (zip_getbits ins (ZIP_BITFIELD 3 19)) cc_name) (\<lambda>cc.
           rbind (rbind (zip_getbits ins (ZIP_REGFIELD 27)) reg_name) (\<lambda>d.
           let iv = zip_sbits (uint ins) 13; ref = of_int (push_bit 2 iv) + addr + 4
           in Inr (pad11 (''MOV'' @ cc) @ ''0x'' @ hex8 ref @ '','' @ d)))
      else c_assert (list_all (\<lambda>e. NOT (s_mask e) AND s_val e = 0) zip_oplist_raw)
           (rbind (zip_find ins listp) (\<lambda>m. case m of
              Some e \<Rightarrow> zop_line addr ins e
            | None \<Rightarrow> Inr (''ILL '' @ hex8 ins))))"

definition zipi_to_double_string :: "u32 \<Rightarrow> u32 \<Rightarrow> fault + string \<times> string" where
  "zipi_to_double_string addr ins =
     rbind (zipi_to_halfstring addr ins zip_oplist_raw) (\<lambda>la.
     rbind (if ins AND 0x80000000 \<noteq> 0 then zipi_to_halfstring addr ins zip_opbottomlist_raw else Inr []) (\<lambda>lb.
     Inr (la, lb)))"

definition zop_early_branch :: "u32 \<Rightarrow> u32 \<Rightarrow> u32" where
  "zop_early_branch pc insn =
     (if insn AND 0xf8000000 \<noteq> 0x78000000 then pc + 4
      else if insn AND 0xffc60000 = 0x78800000 then pc + 4 + push_bit 2 (insn AND 0x3ffff)
      else if insn AND 0xffc60000 = 0x78820000 then pc + 4 + push_bit 2 (0x40000 - (insn AND 0x3ffff))
      else pc + 4)"

end
