(* ===== verification/ZopcodeLines.thy ===== *)
theory ZopcodeLines
  imports Zopcodes
begin

text \<open>
  The fields of an instruction word, and the first promise of the disassembler: it has a line for every
  word, and the line fits the buffer of its caller.
\<close>

section \<open>Fields\<close>

lemma zip_ubits_take: "zip_ubits v n = take_bit n v"
  by (simp add: zip_ubits_def take_bit_eq_mask mask_eq_exp_minus_1 push_bit_of_1)

lemma zip_sbits_signed:
  assumes "0 < n"
  shows "zip_sbits v n = signed_take_bit (n - 1) v"
proof -
  have low: "v AND (push_bit n 1 - 1) = take_bit n v"
    by (simp add: take_bit_eq_mask mask_eq_exp_minus_1 push_bit_of_1)
  have top: "take_bit n v AND push_bit (n - 1) 1 \<noteq> 0 \<longleftrightarrow> bit v (n - 1)"
  proof -
    have "bit (take_bit n v) (n - 1) \<longleftrightarrow> bit v (n - 1)" using assms by (simp add: bit_take_bit_iff)
    then show ?thesis using bit_iff_and_push_bit_not_eq_0 [of "take_bit n v" "n - 1"] by simp
  qed
  have eq: "zip_sbits v n = (if bit v (n - 1) then take_bit n v OR push_bit n (- 1) else take_bit n v)"
    by (simp only: zip_sbits_def Let_def low top)
  show ?thesis
  proof (rule bit_eqI)
    fix k
    show "bit (zip_sbits v n) k = bit (signed_take_bit (n - 1) v) k"
    proof (cases "k < n")
      case True
      then have "min (n - 1) k = k" by simp
      then show ?thesis using True
        by (auto simp: eq bit_signed_take_bit_iff bit_or_iff bit_push_bit_iff bit_take_bit_iff bit_not_iff bit_mask_iff)
    next
      case False
      then have "min (n - 1) k = n - 1" by simp
      then show ?thesis using False
        by (auto simp: eq bit_signed_take_bit_iff bit_or_iff bit_push_bit_iff bit_take_bit_iff bit_minus_1_iff
            bit_not_iff bit_mask_iff)
    qed
  qed
qed

text \<open>A plain field: its place, width and offset.\<close>

definition plain_field :: "nat \<Rightarrow> nat \<Rightarrow> nat \<Rightarrow> int \<Rightarrow> bool" where
  "plain_field sh n off w \<longleftrightarrow> w AND 0x40000000 = 0 \<and> nat (w AND 0x3f) = sh \<and> nat (drop_bit 8 w AND 0x3f) = n
     \<and> drop_bit 16 w AND 0xff = int off \<and> sh < 32 \<and> n \<le> 16 \<and> off < 256"

lemma getbits_plain:
  assumes "plain_field sh n off w"
  shows "zip_getbits ins w = Inr (uint (take_bit n (drop_bit sh ins)) + int off)"
proof -
  have w: "w AND 0x40000000 = 0" "nat (w AND 0x3f) = sh" "nat (drop_bit 8 w AND 0x3f) = n" "drop_bit 16 w AND 0xff = int off"
    "sh < 32" "n \<le> 16" "off < 256" using assms by (simp_all add: plain_field_def)
  let ?v = "uint (take_bit n (drop_bit sh ins))"
  have v: "zip_ubits (uint (drop_bit sh ins)) n = ?v" by (simp add: zip_ubits_take unsigned_take_bit_eq)
  have "?v = take_bit n (uint (drop_bit sh ins))" by (simp add: unsigned_take_bit_eq)
  also have "\<dots> < 2 ^ n" by simp
  also have "(2 :: int) ^ n \<le> 2 ^ 16" using w(6) by (intro power_increasing) simp_all
  finally have "?v < 65536" by simp
  moreover have "0 \<le> ?v" "0 \<le> int off" "int off < 256" using w(7) by simp_all
  ultimately have "- 2147483648 \<le> ?v + int off" "?v + int off < 2147483648" by linarith+
  then have "signed_take_bit 31 (?v + int off) = ?v + int off" by (intro signed_take_bit_int_eq_self) simp_all
  then show ?thesis using w(1,2,3,4,5) v by (simp add: zip_getbits_def Let_def)
qed

lemma getbits_immediate:
  assumes "0 < n" "n \<le> 32"
  shows "zip_getbits ins (ZIP_IMMFIELD (int n) 0) = Inr (signed_take_bit (n - 1) (uint ins))"
proof -
  let ?w = "0x40000000 + push_bit 8 (int n) :: int"
  have n: "int n AND 0xff = int n"
  proof -
    have "int n AND 0xff = take_bit 8 (int n)" by (simp add: take_bit_eq_mask mask_eq_exp_minus_1)
    then show ?thesis using assms(2) by (simp add: take_bit_int_eq_self)
  qed
  have w: "ZIP_IMMFIELD (int n) 0 = ?w" by (simp add: ZIP_IMMFIELD_def n)
  have "\<forall>n \<in> {1..<33::nat}. (0x40000000 + push_bit 8 (int n)) AND 0x40000000 \<noteq> (0 :: int)
      \<and> (0x40000000 + push_bit 8 (int n)) AND 0x3f = 0 \<and> drop_bit 8 (0x40000000 + push_bit 8 (int n)) AND 0x3f = int n"
    by code_simp
  then have "?w AND 0x40000000 \<noteq> 0 \<and> ?w AND 0x3f = 0 \<and> drop_bit 8 ?w AND 0x3f = int n" using assms by auto
  moreover have "signed_take_bit 31 (signed_take_bit (n - 1) (uint ins)) = signed_take_bit (n - 1) (uint ins)"
  proof -
    have "min 31 (n - 1) = n - 1" using assms(2) by simp
    then show ?thesis by (simp only: signed_take_bit_signed_take_bit)
  qed
  ultimately show ?thesis using assms(1) unfolding w by (simp add: zip_getbits_def Let_def zip_sbits_signed)
qed

section \<open>A line for every word\<close>

definition name_field :: "nat \<Rightarrow> int \<Rightarrow> bool" where
  "name_field lim w \<longleftrightarrow> (let sh = nat (w AND 0x3f); n = nat (drop_bit 8 w AND 0x3f); off = nat (drop_bit 16 w AND 0xff)
     in plain_field sh n off w \<and> 2 ^ n + off \<le> lim)"

lemma name_field:
  assumes "name_field lim w"
  shows "\<exists>v. zip_getbits ins w = Inr v \<and> 0 \<le> v \<and> v < int lim"
proof -
  obtain sh n off where f: "plain_field sh n off w" "2 ^ n + off \<le> lim" using assms by (auto simp: name_field_def Let_def)
  have "uint (take_bit n (drop_bit sh ins)) < 2 ^ n" by (simp add: unsigned_take_bit_eq)
  moreover have "int (2 ^ n + off) \<le> int lim" using f(2) by (simp only: of_nat_le_iff)
  ultimately have "uint (take_bit n (drop_bit sh ins)) + int off < int lim" by simp
  moreover have "0 \<le> uint (take_bit n (drop_bit sh ins)) + int off" by simp
  ultimately show ?thesis using getbits_plain [OF f(1)] by blast
qed

definition op_ok :: "zopcode \<Rightarrow> bool" where
  "op_ok e \<longleftrightarrow> (s_cf e = ZIP_OPUNUSED \<or> name_field 8 (s_cf e))
     \<and> (s_result e = ZIP_OPUNUSED \<or> name_field 49 (s_result e)) \<and> (s_ra e = ZIP_OPUNUSED \<or> name_field 49 (s_ra e))
     \<and> (s_rb e = ZIP_OPUNUSED \<or> name_field 49 (s_rb e)) \<and> (s_i e = ZIP_OPUNUSED \<or> nat (s_i e AND 0x3f) < 32)
     \<and> (zop_is_store e \<longrightarrow> s_ra e \<noteq> ZIP_OPUNUSED) \<and> (zop_is_branch e \<longrightarrow> s_i e \<noteq> ZIP_OPUNUSED)"

lemma tables_ok: "list_all op_ok zip_oplist_raw" "list_all op_ok zip_opbottomlist_raw"
  by code_simp+

lemma tables_end: "list_ex (\<lambda>e. s_mask e = 0) zip_oplist_raw" "list_ex (\<lambda>e. s_mask e = 0) zip_opbottomlist_raw"
  by code_simp+

lemma table_consistent: "list_all (\<lambda>e. NOT (s_mask e) AND s_val e = 0) zip_oplist_raw"
  by code_simp

lemma field_total:
  assumes "w = ZIP_OPUNUSED \<or> name_field 49 w"
  shows "\<exists>v. zip_field (- 1) ins w = Inr v \<and> (w \<noteq> ZIP_OPUNUSED \<longrightarrow> (\<exists>s. reg_name v = Inr s))"
proof (cases "w = ZIP_OPUNUSED")
  case True
  then show ?thesis by (simp add: zip_field_def)
next
  case False
  then obtain v where "zip_getbits ins w = Inr v" "0 \<le> v" "v < 49" using assms name_field [of 49 w ins] by auto
  then show ?thesis using False by (simp add: zip_field_def reg_name_def in_bounds_def zip_regstr_def)
qed

lemma cond_total:
  assumes "w = ZIP_OPUNUSED \<or> name_field 8 w"
  shows "\<exists>s. (if w \<noteq> ZIP_OPUNUSED then rbind (zip_getbits ins w) cc_name else Inr []) = Inr s"
proof (cases "w = ZIP_OPUNUSED")
  case False
  then obtain v where "zip_getbits ins w = Inr v" "0 \<le> v" "v < 8" using assms name_field [of 8 w ins] by auto
  then show ?thesis using False by (simp add: cc_name_def in_bounds_def zip_ccstr_def)
qed simp

lemma imm_total:
  assumes "nat (w AND 0x3f) < 32"
  shows "\<exists>v. zip_getbits ins w = Inr v"
  using assms by (simp add: zip_getbits_def Let_def)

lemma store_args_total:
  assumes "\<exists>s. reg_name ra = Inr s" "s_rb e \<noteq> ZIP_OPUNUSED \<longrightarrow> (\<exists>s. reg_name rb = Inr s)"
  shows "\<exists>s. store_args e ra rb imv = Inr s"
  using assms by (cases "s_rb e = ZIP_OPUNUSED") (auto simp: store_args_def)

lemma other_args_total:
  assumes "s_result e \<noteq> ZIP_OPUNUSED \<longrightarrow> (\<exists>s. reg_name rr = Inr s)" "s_ra e \<noteq> ZIP_OPUNUSED \<longrightarrow> (\<exists>s. reg_name ra = Inr s)"
    "s_rb e \<noteq> ZIP_OPUNUSED \<longrightarrow> (\<exists>s. reg_name rb = Inr s)"
  shows "\<exists>s. other_args e rr ra rb imv = Inr s"
proof -
  obtain b where "(if s_rb e = ZIP_OPUNUSED then Inr []
      else rbind (reg_name rb) (\<lambda>b. Inr (if zop_is_load e then ''('' @ b @ '')'' else b))) = (Inr b :: fault + string)"
    using assms(3) by (cases "s_rb e = ZIP_OPUNUSED") auto
  moreover obtain r where "(if s_ra e \<noteq> ZIP_OPUNUSED then reg_name ra
      else if s_result e \<noteq> ZIP_OPUNUSED then reg_name rr else Inr []) = Inr r"
    using assms(1,2) by (cases "s_ra e = ZIP_OPUNUSED"; cases "s_result e = ZIP_OPUNUSED") auto
  ultimately show ?thesis by (simp only: other_args_def Let_def rbind_simps) blast
qed

lemma zop_line_total:
  assumes "op_ok e"
  shows "\<exists>s. zop_line addr ins e = Inr s"
proof -
  note ok = assms [unfolded op_ok_def]
  obtain cc where cc: "(if s_cf e \<noteq> ZIP_OPUNUSED then rbind (zip_getbits ins (s_cf e)) cc_name else Inr []) = Inr cc"
    using cond_total ok by blast
  obtain rr where rr: "zip_field (- 1) ins (s_result e) = Inr rr" "s_result e \<noteq> ZIP_OPUNUSED \<longrightarrow> (\<exists>s. reg_name rr = Inr s)"
    using field_total ok by blast
  obtain ra where ra: "zip_field (- 1) ins (s_ra e) = Inr ra" "s_ra e \<noteq> ZIP_OPUNUSED \<longrightarrow> (\<exists>s. reg_name ra = Inr s)"
    using field_total ok by blast
  obtain rb where rb: "zip_field (- 1) ins (s_rb e) = Inr rb" "s_rb e \<noteq> ZIP_OPUNUSED \<longrightarrow> (\<exists>s. reg_name rb = Inr s)"
    using field_total ok by blast
  have imm: "s_i e \<noteq> ZIP_OPUNUSED \<Longrightarrow> \<exists>v. zip_getbits ins (s_i e) = Inr v" using imm_total ok by blast
  obtain imv where i: "zip_field 0 ins (s_i e) = Inr imv"
    using imm by (cases "s_i e = ZIP_OPUNUSED") (auto simp: zip_field_def)
  let ?imv = "if s_rb e \<noteq> ZIP_OPUNUSED \<and> rb = 15 then push_bit 2 imv else imv"
  let ?args = "if zop_is_store e then store_args e ra rb ?imv
        else if strncaseeq ''LJMP'' (s_opstr e) 3 then Inr []
        else if zop_is_branch e \<and> addr \<noteq> 0
        then rbind (zip_getbits ins (s_i e)) (\<lambda>v. Inr (''@0x'' @ hex8 (addr + of_int (v + 4))))
        else other_args e rr ra rb ?imv"
  have "\<exists>a. ?args = Inr a"
  proof (cases "zop_is_store e")
    case True
    then show ?thesis using store_args_total ra(2) rb(2) ok by simp
  next
    case False
    then show ?thesis using other_args_total [OF rr(2) ra(2) rb(2)] imm ok
      by (cases "zop_is_branch e \<and> addr \<noteq> 0"; cases "strncaseeq ''LJMP'' (s_opstr e) 3") auto
  qed
  then obtain a where "?args = Inr a" ..
  then show ?thesis by (simp only: zop_line_def cc rr(1) ra(1) rb(1) i rbind_simps Let_def) blast
qed

lemma zip_find_total:
  "list_ex (\<lambda>e. s_mask e = 0) es \<Longrightarrow> \<exists>m. zip_find ins es = Inr m \<and> (\<forall>e. m = Some e \<longrightarrow> e \<in> set es)"
  by (induction es) auto

lemma halfstring_total:
  assumes "list_all op_ok es" "list_ex (\<lambda>e. s_mask e = 0) es"
  shows "\<exists>s. zipi_to_halfstring addr ins es = Inr s"
proof (cases "OFFSET_PC_MOV ins")
  case True
  have "\<exists>c. rbind (zip_getbits ins (ZIP_BITFIELD 3 19)) cc_name = Inr c"
  proof -
    have "name_field 8 (ZIP_BITFIELD 3 19)" by code_simp
    moreover have "ZIP_BITFIELD 3 19 \<noteq> ZIP_OPUNUSED" by code_simp
    ultimately show ?thesis using cond_total [of "ZIP_BITFIELD 3 19" ins] by simp
  qed
  moreover have "\<exists>d. rbind (zip_getbits ins (ZIP_REGFIELD 27)) reg_name = Inr d"
  proof -
    have "name_field 49 (ZIP_REGFIELD 27)" by code_simp
    moreover have "ZIP_REGFIELD 27 \<noteq> ZIP_OPUNUSED" by code_simp
    ultimately show ?thesis using field_total [of "ZIP_REGFIELD 27" ins] by (auto simp: zip_field_def)
  qed
  ultimately show ?thesis using True by (auto simp: zipi_to_halfstring_def Let_def)
next
  case False
  obtain m where m: "zip_find ins es = Inr m" "\<forall>e. m = Some e \<longrightarrow> e \<in> set es" using zip_find_total assms(2) by blast
  show ?thesis
  proof (cases m)
    case None
    then show ?thesis using False m table_consistent by (simp add: zipi_to_halfstring_def c_assert_def)
  next
    case (Some e)
    then have "op_ok e" using m(2) assms(1) by (simp add: list_all_iff)
    then show ?thesis using False m Some table_consistent zop_line_total
      by (simp add: zipi_to_halfstring_def c_assert_def)
  qed
qed

subsection \<open>The buffers are long enough\<close>

lemma dec_nat_length: "n < 10 ^ Suc k \<Longrightarrow> length (dec_nat n) \<le> Suc k"
proof (induction k arbitrary: n)
  case 0
  then show ?case by (subst dec_nat.simps) simp
next
  case (Suc k)
  then have "n div 10 < 10 ^ Suc k" by (simp add: less_mult_imp_div_less)
  from Suc.IH [OF this] show ?case by (subst dec_nat.simps) simp
qed

lemma dec_length:
  assumes "- 10000000000 < i" "i < 10000000000"
  shows "length (dec i) \<le> 11"
proof -
  have "nat (- i) < 10 ^ Suc 9" "nat i < 10 ^ Suc 9" using assms by simp_all
  from this [THEN dec_nat_length] show ?thesis by (simp add: dec_def)
qed

lemma hex8_length [simp]: "length (hex8 w) = 8"
  by (simp add: hex8_def)

lemma reg_name_length: "reg_name r = Inr s \<Longrightarrow> length s \<le> 4"
proof -
  have "list_all (\<lambda>s. length s \<le> 4) zip_regstr" by code_simp
  then show "reg_name r = Inr s \<Longrightarrow> length s \<le> 4" by (auto simp: reg_name_def list_all_length)
qed

lemma cc_name_length: "cc_name c = Inr s \<Longrightarrow> length s \<le> 3"
proof -
  have "list_all (\<lambda>s. length s \<le> 3) zip_ccstr" by code_simp
  then show "cc_name c = Inr s \<Longrightarrow> length s \<le> 3" by (auto simp: cc_name_def list_all_length)
qed

lemma pad11_length [simp]: "length (pad11 s) = max 11 (length s)"
  by (simp add: pad11_def length_concat comp_def sum_list_triv max_def)

lemma getbits_bound: "zip_getbits ins w = Inr v \<Longrightarrow> - 2147483648 \<le> v \<and> v < 2147483648"
  using signed_take_bit_int_greater_eq_minus_exp [of 31] signed_take_bit_int_less_exp [of 31]
  by (auto simp: zip_getbits_def Let_def split: if_splits)

lemma store_args_length:
  assumes "store_args e ra rb imv = Inr s" "length (dec imv) \<le> 11"
  shows "length s \<le> 25"
proof -
  obtain a b where s: "reg_name ra = Inr a"
    "(if s_rb e \<noteq> ZIP_OPUNUSED then rbind (reg_name rb) (\<lambda>b. Inr (''('' @ b @ '')'')) else Inr []) = Inr b"
    "s = a @ '','' @ (if s_i e \<noteq> ZIP_OPUNUSED
        then (if s_rb e = ZIP_OPUNUSED then ''($'' @ dec imv @ '')'' else if imv \<noteq> 0 then ''$'' @ dec imv else [])
        else []) @ b" using assms(1) unfolding store_args_def by blast
  have "length a \<le> 4" using reg_name_length s(1) .
  moreover have "length b \<le> 6" using s(2) by (auto dest!: reg_name_length split: if_splits)
  ultimately show ?thesis using assms(2) by (simp add: s(3))
qed

lemma other_args_length:
  assumes "other_args e rr ra rb imv = Inr s" "length (dec imv) \<le> 11"
  shows "length s \<le> 25"
proof -
  let ?m = "zop_is_load e"
  let ?i = "if s_i e = ZIP_OPUNUSED then []
               else if ?m \<and> s_rb e = ZIP_OPUNUSED then ''($'' @ dec imv @ '')''
               else if ?m \<and> imv \<noteq> 0 then dec imv
               else if \<not> ?m \<and> (imv \<noteq> 0 \<or> s_rb e = ZIP_OPUNUSED)
               then ''$'' @ dec imv @ (if s_rb e \<noteq> ZIP_OPUNUSED then ''+'' else [])
               else []"
  let ?c = "if (s_i e \<noteq> ZIP_OPUNUSED \<or> s_rb e \<noteq> ZIP_OPUNUSED) \<and> (s_ra e \<noteq> ZIP_OPUNUSED \<or> s_result e \<noteq> ZIP_OPUNUSED)
                   then '','' else []"
  obtain b r where s: "s = ?i @ b @ ?c @ r"
    "(if s_rb e = ZIP_OPUNUSED then Inr [] else rbind (reg_name rb) (\<lambda>b. Inr (if ?m then ''('' @ b @ '')'' else b))) = Inr b"
    "(if s_ra e \<noteq> ZIP_OPUNUSED then reg_name ra else if s_result e \<noteq> ZIP_OPUNUSED then reg_name rr else Inr []) = Inr r"
    using assms(1) unfolding other_args_def Let_def by (blast dest: sum.inject(2) [THEN iffD1, THEN sym])
  have "length b \<le> 6" using s(2) by (auto dest!: reg_name_length split: if_splits)
  moreover have "length r \<le> 4" using s(3) by (auto dest!: reg_name_length split: if_splits)
  moreover have "length ?i \<le> 14" "length ?c \<le> 1" using assms(2) by auto
  ultimately show ?thesis unfolding s(1) length_append by linarith
qed

lemma zop_line_length:
  assumes "zop_line addr ins e = Inr s" "length (s_opstr e) \<le> 8"
  shows "length s \<le> 36"
proof -
  obtain cc rr ra rb imv args where l:
    "(if s_cf e \<noteq> ZIP_OPUNUSED then rbind (zip_getbits ins (s_cf e)) cc_name else Inr []) = Inr cc"
    "zip_field 0 ins (s_i e) = Inr imv" "s = pad11 (s_opstr e @ cc) @ args"
    "(if zop_is_store e then store_args e ra rb (if s_rb e \<noteq> ZIP_OPUNUSED \<and> rb = 15 then push_bit 2 imv else imv)
      else if strncaseeq ''LJMP'' (s_opstr e) 3 then Inr []
      else if zop_is_branch e \<and> addr \<noteq> 0
      then rbind (zip_getbits ins (s_i e)) (\<lambda>v. Inr (''@0x'' @ hex8 (addr + of_int (v + 4))))
      else other_args e rr ra rb (if s_rb e \<noteq> ZIP_OPUNUSED \<and> rb = 15 then push_bit 2 imv else imv)) = Inr args"
    using assms(1) unfolding zop_line_def Let_def by blast
  have "length cc \<le> 3" using l(1) by (auto dest!: cc_name_length split: if_splits)
  moreover have "- 2147483648 \<le> imv \<and> imv < 2147483648"
    using l(2) getbits_bound by (auto simp: zip_field_def split: if_splits)
  then have "length (dec (if s_rb e \<noteq> ZIP_OPUNUSED \<and> rb = 15 then push_bit 2 imv else imv)) \<le> 11"
    by (intro dec_length) (auto simp: push_bit_eq_mult)
  from store_args_length [OF _ this] other_args_length [OF _ this] have "length args \<le> 25"
    using l(4) by (auto split: if_splits)
  ultimately show ?thesis using assms(2) by (simp add: l(3))
qed

lemma names_short: "list_all (\<lambda>e. length (s_opstr e) \<le> 8) zip_oplist_raw" "list_all (\<lambda>e. length (s_opstr e) \<le> 8) zip_opbottomlist_raw"
  by code_simp+

lemma halfstring_length:
  assumes "zipi_to_halfstring addr ins es = Inr s" "list_ex (\<lambda>e. s_mask e = 0) es" "list_all (\<lambda>e. length (s_opstr e) \<le> 8) es"
  shows "length s < 80"
proof (cases "OFFSET_PC_MOV ins")
  case True
  then obtain cc d where "s = pad11 (''MOV'' @ cc) @ ''0x'' @ hex8 (of_int (push_bit 2 (zip_sbits (uint ins) 13)) + addr + 4) @ '','' @ d"
    "length cc \<le> 3" "length d \<le> 4"
    using assms(1) by (auto simp: zipi_to_halfstring_def Let_def dest!: reg_name_length cc_name_length)
  then show ?thesis by simp
next
  case False
  obtain m where m: "zip_find ins es = Inr m" "\<forall>e. m = Some e \<longrightarrow> e \<in> set es" using zip_find_total assms(2) by blast
  then show ?thesis
  proof (cases m)
    case None
    then show ?thesis using False m assms(1) by (auto simp: zipi_to_halfstring_def)
  next
    case (Some e)
    then have "zop_line addr ins e = Inr s" "length (s_opstr e) \<le> 8"
      using False m assms(1,3) by (auto simp: zipi_to_halfstring_def list_all_iff)
    from zop_line_length [OF this] show ?thesis by simp
  qed
qed

text \<open>C30: the disassembler has a line for every word at every address: no name is looked up outside its table,
  no word is shifted out of range, the search ends at the table's last entry, and each of the two lines fits
  the 80 bytes the debugger has for it.  The second line is empty unless the word holds two instructions.\<close>

theorem disassembler_safe:
  "\<exists>la lb. zipi_to_double_string addr ins = Inr (la, lb) \<and> length la < 80 \<and> length lb < 80
     \<and> (lb = [] \<or> bit ins 31)"
proof -
  have top: "ins AND 0x80000000 \<noteq> 0 \<longleftrightarrow> bit ins 31"
    using bit_iff_and_push_bit_not_eq_0 [of ins 31] by simp
  obtain la where la: "zipi_to_halfstring addr ins zip_oplist_raw = Inr la"
    using halfstring_total tables_ok(1) tables_end(1) by blast
  obtain lb where lb: "zipi_to_halfstring addr ins zip_opbottomlist_raw = Inr lb"
    using halfstring_total tables_ok(2) tables_end(2) by blast
  show ?thesis using la lb halfstring_length [OF la tables_end(1) names_short(1)]
      halfstring_length [OF lb tables_end(2) names_short(2)]
    by (cases "bit ins 31") (simp_all only: zipi_to_double_string_def top rbind_simps if_True if_False not_True_eq_False
        not_False_eq_True, auto)
qed

end
