(* ===== verification/ZopcodeProps.thy ===== *)
theory ZopcodeProps
  imports ZopcodeLines
begin

text \<open>
  What the disassembler prints for an assembled instruction: the lines of the two-operand instructions read
  back as what was assembled and branches name their target; and where the table and the branch predictor of
  the debugger are wrong.
\<close>

section \<open>Two-operand instructions\<close>

text \<open>
  The layout of an instruction word in the processor's manual: destination, operation, condition, operand B.
\<close>

definition asm_word :: "u32 \<Rightarrow> u32 \<Rightarrow> u32 \<Rightarrow> u32 \<Rightarrow> u32" where
  "asm_word code rd cond opb = push_bit 27 (take_bit 4 rd) OR push_bit 22 (take_bit 5 code)
     OR push_bit 19 (take_bit 3 cond) OR take_bit 19 opb"

datatype operand = Imm int | Reg nat int

definition asm_operand :: "operand \<Rightarrow> u32" where
  "asm_operand b = (case b of Imm i \<Rightarrow> take_bit 18 (of_int i)
     | Reg r i \<Rightarrow> push_bit 18 1 OR push_bit 14 (take_bit 4 (of_nat r)) OR take_bit 14 (of_int i))"

definition asm_alu :: "nat \<Rightarrow> nat \<Rightarrow> nat \<Rightarrow> operand \<Rightarrow> u32" where
  "asm_alu code rd cond b = asm_word (of_nat code) (of_nat rd) (of_nat cond) (asm_operand b)"

definition operand_fits :: "operand \<Rightarrow> bool" where
  "operand_fits b = (case b of Imm i \<Rightarrow> - (2 ^ 17) \<le> i \<and> i < 2 ^ 17 | Reg r i \<Rightarrow> r < 16 \<and> - (2 ^ 13) \<le> i \<and> i < 2 ^ 13)"

definition operand_text :: "operand \<Rightarrow> string" where
  "operand_text b = (case b of Imm i \<Rightarrow> ''$'' @ dec i
     | Reg r i \<Rightarrow> (if i = 0 then [] else ''$'' @ dec (if r = 15 then i * 4 else i) @ ''+'') @ zip_regstr ! r)"

definition alu_ops :: "(nat \<times> string) list" where
  "alu_ops = [(0, ''SUB''), (1, ''AND''), (2, ''ADD''), (3, ''OR''), (4, ''XOR''), (5, ''LSR''), (6, ''LSL''), (7, ''ASR''),
     (9, ''LDILO''), (10, ''MPYUHI''), (11, ''MPYSHI''), (12, ''MPY''), (14, ''DIVU''), (15, ''DIVS''), (16, ''CMP''), (17, ''TST'')]"

lemma asm_fields:
  "take_bit 4 (drop_bit 27 (asm_word code rd cond b)) = take_bit 4 rd"
  "take_bit 3 (drop_bit 19 (asm_word code rd cond b)) = take_bit 3 cond"
  "take_bit 19 (asm_word code rd cond b) = take_bit 19 b"
proof -
  show "take_bit 4 (drop_bit 27 (asm_word code rd cond b)) = take_bit 4 rd"
    by (rule bit_eqI) (auto simp: asm_word_def bit_simps)
  show "take_bit 3 (drop_bit 19 (asm_word code rd cond b)) = take_bit 3 cond"
    by (rule bit_eqI) (auto simp: asm_word_def bit_simps)
  show "take_bit 19 (asm_word code rd cond b) = take_bit 19 b"
    by (rule bit_eqI) (auto simp: asm_word_def bit_simps)
qed

lemma asm_opcode: "asm_word code rd cond b AND 0x87c40000 = push_bit 22 (take_bit 5 code) OR (push_bit 18 (take_bit 1 (drop_bit 18 b)))"
proof (rule bit_word_eqI)
  fix n assume n: "n < LENGTH(32)"
  have m: "(0x87c40000 :: u32) = push_bit 31 (mask 1) OR push_bit 22 (mask 5) OR push_bit 18 (mask 1)" by (simp add: mask_eq_exp_minus_1)
  have "bit (0x87c40000 :: u32) n \<longleftrightarrow> n = 31 \<or> (22 \<le> n \<and> n < 27) \<or> n = 18"
    using n by (simp only: m bit_or_iff bit_push_bit_iff bit_mask_iff) auto
  then consider "n = 31" "bit (0x87c40000 :: u32) n" | k where "n = 22 + k" "k < 5" "bit (0x87c40000 :: u32) n"
    | "n = 18" "bit (0x87c40000 :: u32) n"
    | "\<not> (22 \<le> n \<and> n - 22 < 5)" "\<not> (18 \<le> n \<and> n - 18 < 1)" "\<not> bit (0x87c40000 :: u32) n"
  proof -
    consider "n = 31" | "22 \<le> n" "n < 27" | "n = 18" | "n \<noteq> 31" "\<not> (22 \<le> n \<and> n < 27)" "n \<noteq> 18" by linarith
    then show thesis
    proof cases
      case 2
      then have "n = 22 + (n - 22)" "n - 22 < 5" by linarith+
      then show thesis using \<open>bit (0x87c40000 :: u32) n \<longleftrightarrow> _\<close> 2 that(2) by blast
    next
      case 4
      then have "\<not> (22 \<le> n \<and> n - 22 < 5)" "\<not> (18 \<le> n \<and> n - 18 < 1)" by linarith+
      then show thesis using \<open>bit (0x87c40000 :: u32) n \<longleftrightarrow> _\<close> 4 that(4) by blast
    qed (use \<open>bit (0x87c40000 :: u32) n \<longleftrightarrow> _\<close> that in blast)+
  qed
  then show "bit (asm_word code rd cond b AND 0x87c40000) n
      = bit (push_bit 22 (take_bit 5 code) OR push_bit 18 (take_bit 1 (drop_bit 18 b))) n"
  proof cases
    case 4
    then show ?thesis by (simp only: bit_and_iff bit_or_iff bit_push_bit_iff bit_take_bit_iff) blast
  qed (use n in \<open>simp_all add: asm_word_def bit_simps bit_iff_odd_drop_bit [of b 18]\<close>)
qed

lemma asm_not_special:
  assumes "rd < 14"
  shows "asm_word code (of_nat rd) cond b AND 0x70000000 \<noteq> 0x70000000"
proof
  let ?w = "asm_word code (of_nat rd) cond b"
  assume "?w AND 0x70000000 = 0x70000000"
  then have "bit (?w AND 0x70000000) k" if "k \<in> {28, 29, 30}" for k using that by auto
  then have "bit (take_bit 4 (drop_bit 27 ?w)) 1 \<and> bit (take_bit 4 (drop_bit 27 ?w)) 2 \<and> bit (take_bit 4 (drop_bit 27 ?w)) 3"
    by (simp add: bit_simps)
  then have "bit (of_nat rd :: u32) 1 \<and> bit (of_nat rd :: u32) 2 \<and> bit (of_nat rd :: u32) 3"
    unfolding asm_fields(1) by (simp add: bit_simps)
  moreover have "\<forall>r \<in> {..<14}. \<not> (bit (of_nat r :: u32) 1 \<and> bit (of_nat r :: u32) 2 \<and> bit (of_nat r :: u32) 3)" by code_simp
  ultimately show False using assms by blast
qed

text \<open>
  A pattern cannot match a word that carries the value \<open>v\<close> under the mask \<open>m\<close> and has a destination below R14,
  when the two values differ under both masks or the pattern asks for a destination of R14 or more.
\<close>

definition skips :: "u32 \<Rightarrow> u32 \<Rightarrow> zopcode \<Rightarrow> bool" where
  "skips m v e \<longleftrightarrow> s_mask e \<noteq> 0 \<and> (m AND s_mask e AND (v XOR s_val e) \<noteq> 0 \<or> 0x70000000 AND s_mask e AND s_val e = 0x70000000)"

lemma skips:
  assumes "skips m v e" "ins AND m = v" "ins AND 0x70000000 \<noteq> 0x70000000"
  shows "s_mask e \<noteq> 0 \<and> ins AND s_mask e \<noteq> s_val e"
proof -
  have "ins AND s_mask e \<noteq> s_val e"
  proof
    assume match: "ins AND s_mask e = s_val e"
    have "m AND s_mask e AND (v XOR s_val e) = 0"
      unfolding match [symmetric] assms(2) [symmetric] by (rule bit_eqI) (auto simp: bit_simps)
    moreover have "0x70000000 AND s_mask e AND s_val e = ins AND s_mask e AND 0x70000000"
      unfolding match [symmetric] by (rule bit_eqI) (auto simp: bit_simps)
    ultimately have "ins AND s_mask e AND 0x70000000 = 0x70000000" using assms(1) by (simp add: skips_def)
    moreover have "(x AND y AND c = c) \<longrightarrow> x AND c = c" for x y c :: u32
      by (metis and.assoc and.commute and.left_idem)
    ultimately show False using assms(3) by blast
  qed
  then show ?thesis using assms(1) by (simp add: skips_def)
qed

fun first_open :: "u32 \<Rightarrow> u32 \<Rightarrow> zopcode list \<Rightarrow> zopcode option" where
  "first_open m v [] = None"
| "first_open m v (e # es) = (if skips m v e then first_open m v es else Some e)"

lemma find_first_open:
  assumes "first_open m v es = Some e" "s_mask e = m" "s_val e = v" "m \<noteq> 0" "ins AND m = v" "ins AND 0x70000000 \<noteq> 0x70000000"
  shows "zip_find ins es = Inr (Some e)"
  using assms by (induction es) (auto dest: skips split: if_splits)

text \<open>The first pattern of every operation is the operation's own.\<close>

definition alu_pattern :: "nat \<Rightarrow> string \<Rightarrow> bool \<Rightarrow> zopcode" where
  "alu_pattern code nm reg = zopcode.make nm 0x87c40000 (push_bit 22 (of_nat code) OR (if reg then push_bit 18 1 else 0))
     (if code \<in> {16, 17} then ZIP_OPUNUSED else ZIP_REGFIELD 27) (ZIP_REGFIELD 27)
     (if reg then ZIP_REGFIELD 14 else ZIP_OPUNUSED) (ZIP_IMMFIELD (if reg then 14 else 18) 0) (ZIP_BITFIELD 3 19)"

definition alu_found :: "zopcode list \<Rightarrow> bool \<Rightarrow> nat \<times> string \<Rightarrow> bool" where
  "alu_found es reg p = (case p of (code, nm) \<Rightarrow> let e = alu_pattern code nm reg
     in first_open (s_mask e) (s_val e) es = Some e \<and> code < 32
        \<and> \<not> zop_is_store e \<and> \<not> zop_is_branch e \<and> \<not> zop_is_load e \<and> \<not> strncaseeq ''LJMP'' nm 3 \<and> s_val e \<noteq> 0x03400000)"

lemma alu_found_imm: "list_all (alu_found zip_oplist_raw False) alu_ops"
  by code_simp

lemma alu_found_reg: "list_all (alu_found zip_oplist_raw True) alu_ops"
  by code_simp

lemma alu_found:
  "(code, nm) \<in> set alu_ops \<Longrightarrow> alu_found zip_oplist_raw reg (code, nm)"
  using alu_found_imm alu_found_reg by (cases reg) (auto simp: list_all_iff)

lemma operand_kind: "take_bit 1 (drop_bit 18 (asm_operand b)) = (case b of Imm i \<Rightarrow> 0 | Reg r i \<Rightarrow> 1)"
proof -
  have "take_bit 1 (drop_bit 18 x) = of_bool (bit x 18)" for x :: u32 by (simp add: mod_2_eq_odd bit_iff_odd_drop_bit)
  moreover have "bit (asm_operand b) 18 \<longleftrightarrow> (case b of Imm i \<Rightarrow> False | Reg r i \<Rightarrow> True)"
    by (cases b) (simp_all add: asm_operand_def bit_simps)
  ultimately show ?thesis by (cases b) simp_all
qed

lemma operand_register: "take_bit 4 (drop_bit 14 (asm_operand (Reg r i))) = take_bit 4 (of_nat r)"
  by (rule bit_eqI) (auto simp: asm_operand_def bit_simps)

lemma operand_low:
  "take_bit 18 (asm_operand (Imm i)) = take_bit 18 (of_int i)" "take_bit 14 (asm_operand (Reg r i)) = take_bit 14 (of_int i)"
proof -
  show "take_bit 18 (asm_operand (Imm i)) = take_bit 18 (of_int i)" by (simp add: asm_operand_def)
  show "take_bit 14 (asm_operand (Reg r i)) = take_bit 14 (of_int i)"
    by (rule bit_eqI) (auto simp: asm_operand_def bit_simps)
qed

lemma take_uint_of_nat: "r < 2 ^ n \<Longrightarrow> n \<le> 32 \<Longrightarrow> uint (take_bit n (of_nat r :: u32)) = int r"
  by (simp add: unsigned_take_bit_eq unsigned_of_nat take_bit_int_eq_self min_def flip: take_bit_of_nat)

lemma signed_field:
  assumes "take_bit (Suc n) w = take_bit (Suc n) (of_int i :: u32)" "n < 32" "- (2 ^ n) \<le> i" "i < 2 ^ n"
  shows "signed_take_bit n (uint w) = i"
proof -
  have "take_bit (Suc n) (uint w) = uint (take_bit (Suc n) w)" by (simp add: unsigned_take_bit_eq)
  also have "\<dots> = take_bit (Suc n) (take_bit 32 i)" unfolding assms(1) by (simp add: unsigned_take_bit_eq unsigned_of_int)
  also have "\<dots> = take_bit (Suc n) i" using assms(2) by simp
  finally have "signed_take_bit n (uint w) = signed_take_bit n i" by (simp only: signed_take_bit_eq_iff_take_bit_eq)
  then show ?thesis using assms(3,4) by (simp add: signed_take_bit_int_eq_self)
qed

lemma asm_alu_fields:
  assumes "rd < 14" "cond < 8"
  shows "zip_getbits (asm_alu code rd cond b) (ZIP_REGFIELD 27) = Inr (int rd)"
    "zip_getbits (asm_alu code rd cond b) (ZIP_BITFIELD 3 19) = Inr (int cond)"
proof -
  have "plain_field 27 4 0 (ZIP_REGFIELD 27)" "plain_field 19 3 0 (ZIP_BITFIELD 3 19)" by code_simp+
  from this [THEN getbits_plain] show "zip_getbits (asm_alu code rd cond b) (ZIP_REGFIELD 27) = Inr (int rd)"
    "zip_getbits (asm_alu code rd cond b) (ZIP_BITFIELD 3 19) = Inr (int cond)"
    using assms by (simp_all only: asm_alu_def asm_fields) (simp_all add: take_uint_of_nat)
qed

lemma asm_alu_register:
  assumes "r < 16"
  shows "zip_getbits (asm_alu code rd cond (Reg r i)) (ZIP_REGFIELD 14) = Inr (int r)"
proof -
  have "take_bit 4 (drop_bit 14 w) = take_bit 4 (drop_bit 14 (take_bit 19 w))" for w :: u32
    by (rule bit_eqI) (auto simp: bit_simps)
  then have "take_bit 4 (drop_bit 14 (asm_alu code rd cond (Reg r i))) = take_bit 4 (of_nat r)"
    by (metis asm_alu_def asm_fields(3) operand_register)
  moreover have "plain_field 14 4 0 (ZIP_REGFIELD 14)" by code_simp
  from getbits_plain [OF this] have "zip_getbits (asm_alu code rd cond (Reg r i)) (ZIP_REGFIELD 14)
      = Inr (uint (take_bit 4 (drop_bit 14 (asm_alu code rd cond (Reg r i)))) + int 0)" .
  ultimately show ?thesis using assms by (simp add: take_uint_of_nat)
qed

lemma asm_alu_immediate:
  assumes "operand_fits b"
  shows "case b of Imm i \<Rightarrow> zip_getbits (asm_alu code rd cond b) (ZIP_IMMFIELD 18 0) = Inr i
    | Reg r i \<Rightarrow> zip_getbits (asm_alu code rd cond b) (ZIP_IMMFIELD 14 0) = Inr i"
proof -
  have low: "take_bit n w = take_bit n (take_bit 19 w)" if "n \<le> 19" for n and w :: u32 using that by (simp add: min_def)
  have w: "take_bit n (asm_alu code rd cond b) = take_bit n (asm_operand b)" if "n \<le> 19" for n
    using low [OF that] by (metis asm_alu_def asm_fields(3))
  show ?thesis
  proof (cases b)
    case (Imm i)
    then have "take_bit (Suc 17) (asm_alu code rd cond b) = take_bit (Suc 17) (of_int i)" using w [of 18] operand_low(1) by simp
    from signed_field [OF this] have "signed_take_bit (18 - 1) (uint (asm_alu code rd cond b)) = i"
      using assms Imm by (simp add: operand_fits_def)
    then show ?thesis using Imm getbits_immediate [of 18 "asm_alu code rd cond b"] by simp
  next
    case (Reg r i)
    then have "take_bit (Suc 13) (asm_alu code rd cond b) = take_bit (Suc 13) (of_int i)" using w [of 14] operand_low(2) by simp
    from signed_field [OF this] have "signed_take_bit (14 - 1) (uint (asm_alu code rd cond b)) = i"
      using assms Reg by (simp add: operand_fits_def)
    then show ?thesis using Reg getbits_immediate [of 14 "asm_alu code rd cond b"] by simp
  qed
qed

lemma alu_pattern_sel [simp]:
  "s_opstr (alu_pattern code nm reg) = nm" "s_cf (alu_pattern code nm reg) = ZIP_BITFIELD 3 19"
  "s_ra (alu_pattern code nm reg) = ZIP_REGFIELD 27"
  "s_result (alu_pattern code nm reg) = (if code \<in> {16, 17} then ZIP_OPUNUSED else ZIP_REGFIELD 27)"
  "s_rb (alu_pattern code nm reg) = (if reg then ZIP_REGFIELD 14 else ZIP_OPUNUSED)"
  "s_i (alu_pattern code nm reg) = ZIP_IMMFIELD (if reg then 14 else 18) 0"
  "s_mask (alu_pattern code nm reg) = 0x87c40000"
  "s_val (alu_pattern code nm reg) = push_bit 22 (of_nat code) OR (if reg then push_bit 18 1 else 0)"
  by (simp_all add: alu_pattern_def zopcode.make_def)

lemma fields_used [simp]:
  "ZIP_BITFIELD 3 19 \<noteq> ZIP_OPUNUSED" "ZIP_REGFIELD 27 \<noteq> ZIP_OPUNUSED" "ZIP_REGFIELD 14 \<noteq> ZIP_OPUNUSED"
  "ZIP_IMMFIELD 14 0 \<noteq> ZIP_OPUNUSED" "ZIP_IMMFIELD 18 0 \<noteq> ZIP_OPUNUSED"
  by code_simp+

lemma names_of_fields:
  "rd < 49 \<Longrightarrow> reg_name (int rd) = Inr (zip_regstr ! rd)" "c < 8 \<Longrightarrow> cc_name (int c) = Inr (zip_ccstr ! c)"
  by (simp_all add: reg_name_def cc_name_def in_bounds_def zip_regstr_def zip_ccstr_def)

lemma alu_match:
  assumes "(code, nm) \<in> set alu_ops" "rd < 14" "reg = (case b of Imm i \<Rightarrow> False | Reg r i \<Rightarrow> True)"
  shows "zip_find (asm_alu code rd cond b) zip_oplist_raw = Inr (Some (alu_pattern code nm reg))"
    "\<not> OFFSET_PC_MOV (asm_alu code rd cond b)"
proof -
  let ?e = "alu_pattern code nm reg" and ?w = "asm_alu code rd cond b"
  have ok: "first_open (s_mask ?e) (s_val ?e) zip_oplist_raw = Some ?e" "code < 32" "s_val ?e \<noteq> 0x03400000"
    using alu_found [OF assms(1), of reg] unfolding alu_found_def prod.case Let_def by blast+
  have "take_bit 5 (of_nat code :: u32) = of_nat code" using ok(2)
    by (simp add: take_bit_of_nat take_bit_nat_eq_self)
  then have v: "?w AND 0x87c40000 = s_val ?e"
    unfolding asm_alu_def asm_opcode operand_kind assms(3) by (cases b) simp_all
  have "?w AND 0x70000000 \<noteq> 0x70000000" unfolding asm_alu_def using asm_not_special assms(2) .
  from find_first_open [OF ok(1) refl refl _ _ this] v
  show "zip_find ?w zip_oplist_raw = Inr (Some ?e)" by simp
  show "\<not> OFFSET_PC_MOV ?w"
  proof
    assume "OFFSET_PC_MOV ?w"
    then have "(?w AND 0x87c7e000) AND 0x87c40000 = 0x03400000" by (simp add: OFFSET_PC_MOV_def)
    then have "?w AND 0x87c40000 = 0x03400000" by (simp add: and.assoc)
    then show False using v ok(3) by simp
  qed
qed

text \<open>C21: the disassembler prints an assembled two-operand instruction back as its source: name, condition,
  immediate or register with offset, destination.  The offset of a program-counter operand counts words and
  is printed in bytes.  The destination is one of R0 to R13: with the other two, names like BRA stand in.\<close>

theorem disassembler_alu:
  assumes "(code, nm) \<in> set alu_ops" "rd < 14" "cond < 8" "operand_fits b"
  shows "zipi_to_double_string addr (asm_alu code rd cond b)
    = Inr (pad11 (nm @ zip_ccstr ! cond) @ operand_text b @ '','' @ zip_regstr ! rd, [])"
proof -
  define reg where "reg = (case b of Imm i \<Rightarrow> False | Reg r i \<Rightarrow> True)"
  let ?e = "alu_pattern code nm reg" and ?w = "asm_alu code rd cond b"
  have kind: "\<not> zop_is_store ?e" "\<not> zop_is_branch ?e" "\<not> zop_is_load ?e" "\<not> strncaseeq ''LJMP'' nm 3"
    using alu_found [OF assms(1), of reg] unfolding alu_found_def prod.case Let_def by blast+
  note m = alu_match [OF assms(1,2) reg_def, of cond]
  note f = asm_alu_fields [OF assms(2,3), of code b]
  have line: "zop_line addr ?w ?e = Inr (pad11 (nm @ zip_ccstr ! cond) @ operand_text b @ '','' @ zip_regstr ! rd)"
  proof (cases b)
    case (Imm i)
    then show ?thesis using asm_alu_immediate [OF assms(4), of code rd cond] assms(2,3) kind f
      by (simp add: zop_line_def zip_field_def names_of_fields other_args_def reg_def operand_text_def)
  next
    case (Reg r i)
    then have "r < 16" using assms(4) by (simp add: operand_fits_def)
    then show ?thesis using Reg asm_alu_immediate [OF assms(4), of code rd cond] asm_alu_register [of r code rd cond i] assms(2,3) kind f
      by (auto simp: zop_line_def zip_field_def names_of_fields other_args_def reg_def operand_text_def push_bit_eq_mult)
  qed
  have "\<not> bit ?w 31" by (simp add: asm_alu_def asm_word_def bit_simps)
  then have "?w AND 0x80000000 = 0" using bit_iff_and_push_bit_not_eq_0 [of ?w 31] by simp
  then show ?thesis using m line table_consistent by (simp add: zipi_to_double_string_def zipi_to_halfstring_def)
qed

lemma disassembler_alu_witness:
  "zipi_to_double_string 0x1000 (asm_alu 2 5 1 (Reg 9 (- 4))) = Inr (''ADD.Z      $-4+R9,R5'', [])"
proof -
  have "(2, ''ADD'') \<in> set alu_ops" "operand_fits (Reg 9 (- 4))" by code_simp+
  moreover have "pad11 (''ADD'' @ zip_ccstr ! 1) @ operand_text (Reg 9 (- 4)) @ '','' @ zip_regstr ! 5 = ''ADD.Z      $-4+R9,R5''"
    by code_simp
  ultimately show ?thesis using disassembler_alu [of 2 "''ADD''" 5 1 "Reg 9 (- 4)" "0x1000"] by simp
qed

section \<open>Branches\<close>

text \<open>A branch on condition \<open>cond\<close> by \<open>off\<close> bytes: an addition to R15.\<close>

definition asm_branch :: "nat \<Rightarrow> int \<Rightarrow> u32" where
  "asm_branch cond off = asm_word 2 15 (of_nat cond) (take_bit 18 (of_int off))"

definition branch_names :: "string list" where
  "branch_names = [''BRA'', ''BZ'', ''BLT'', ''BC'', ''BV'', ''BNZ'', ''BGE'', ''BNC'']"

lemma asm_branch_immediate:
  assumes "- (2 ^ 17) \<le> off" "off < 2 ^ 17"
  shows "zip_getbits (asm_branch cond off) (ZIP_IMMFIELD 18 0) = Inr off"
proof -
  have "take_bit 18 (asm_branch cond off) = take_bit 18 (take_bit 19 (asm_branch cond off))" by simp
  also have "\<dots> = take_bit 18 (of_int off)" unfolding asm_branch_def asm_fields(3) by simp
  finally have "take_bit (Suc 17) (asm_branch cond off) = take_bit (Suc 17) (of_int off)" by simp
  from signed_field [OF this _ assms] have "signed_take_bit (18 - 1) (uint (asm_branch cond off)) = off" by simp
  then show ?thesis using getbits_immediate [of 18 "asm_branch cond off"] by simp
qed

lemma asm_branch_mask:
  "asm_branch cond off AND 0xfffc0000 = asm_word 2 15 (of_nat cond) 0"
proof (rule bit_word_eqI)
  fix n assume n: "n < LENGTH(32)"
  have m: "(0xfffc0000 :: u32) = NOT (mask 18)" by (simp add: mask_eq_exp_minus_1)
  have low: "n < 18 \<Longrightarrow> \<not> bit (asm_word 2 15 (of_nat cond) 0) n" 
    unfolding asm_word_def by (simp only: bit_or_iff bit_push_bit_iff bit_take_bit_iff bit_0_eq bot_apply) auto
  show "bit (asm_branch cond off AND 0xfffc0000) n = bit (asm_word 2 15 (of_nat cond) 0) n"
  proof (cases "n < 18")
    case True
    then show ?thesis using low unfolding m by (simp add: bit_and_iff bit_not_iff bit_mask_iff)
  next
    case False
    then show ?thesis unfolding m using n by (simp add: asm_branch_def asm_word_def bit_simps)
  qed
qed

lemma zip_find_masked:
  "list_all (\<lambda>e. m AND s_mask e = s_mask e) es \<Longrightarrow> zip_find ins es = zip_find (ins AND m) es"
  by (induction es) (simp_all add: and.assoc)

lemma zip_find_append: "zip_find ins es = Inr (Some e) \<Longrightarrow> zip_find ins (es @ fs) = Inr (Some e)"
  by (induction es) (auto split: if_splits)

definition branch_pattern :: "nat \<Rightarrow> zopcode" where
  "branch_pattern cond = zopcode.make (branch_names ! cond) (if cond = 0 then 0xffc40000 else 0xfffc0000)
     (asm_word 2 15 (of_nat cond) 0) ZIP_OPUNUSED ZIP_OPUNUSED ZIP_OPUNUSED (ZIP_IMMFIELD 18 0)
     (if cond = 0 then ZIP_BITFIELD 3 19 else ZIP_OPUNUSED)"

definition branch_entries :: "zopcode list" where
  "branch_entries = take 8 (drop 1 zip_ops_special)"

lemma branch_found:
  "list_all (\<lambda>cond. zip_find (asm_word 2 15 (of_nat cond) 0) branch_entries = Inr (Some (branch_pattern cond))
     \<and> \<not> zop_is_store (branch_pattern cond) \<and> zop_is_branch (branch_pattern cond)
     \<and> \<not> strncaseeq ''LJMP'' (branch_names ! cond) 3 \<and> asm_word 2 15 (of_nat cond) 0 AND 0x87c40000 \<noteq> 0x03400000) [0..<8]"
  "list_all (\<lambda>e. 0xfffc0000 AND s_mask e = s_mask e) branch_entries"
  by code_simp+

lemma branch_table:
  "zip_oplist_raw = hd zip_ops_special # branch_entries @ drop 9 zip_ops_special
     @ zip_ops_alu @ zip_ops_memory @ zip_ops_sim @ zip_ops_fp @ zip_ops_cis"
  by (simp add: zip_oplist_raw_def branch_entries_def zip_ops_special_def)

lemma asm_branch_find:
  assumes "cond < 8" "- (2 ^ 17) \<le> off" "off < 2 ^ 17" "off \<noteq> - 1"
  shows "zip_find (asm_branch cond off) zip_oplist_raw = Inr (Some (branch_pattern cond))"
proof -
  let ?w = "asm_branch cond off"
  have "zip_find ?w branch_entries = zip_find (0xfffc0000 AND ?w) branch_entries"
    using zip_find_masked [OF branch_found(2)] by (simp only: and.commute)
  also have "\<dots> = Inr (Some (branch_pattern cond))"
    using assms(1) branch_found(1) by (simp add: asm_branch_mask and.commute list_all_iff)
  finally have "zip_find ?w (branch_entries @ fs) = Inr (Some (branch_pattern cond))" for fs by (rule zip_find_append)
  moreover have "?w AND 0xffc7ffff \<noteq> 0x7883ffff"
  proof
    assume "?w AND 0xffc7ffff = 0x7883ffff"
    then have "take_bit 18 (?w AND 0xffc7ffff) = take_bit 18 0x7883ffff" by simp
    moreover have "take_bit 18 (?w AND 0xffc7ffff) = take_bit 18 ?w"
    proof -
      have "take_bit 18 (0xffc7ffff :: u32) = mask 18" by (simp add: mask_eq_exp_minus_1)
      then show ?thesis by (simp only: take_bit_and take_bit_eq_mask and.assoc and.idem)
    qed
    ultimately have "take_bit (Suc 17) ?w = take_bit (Suc 17) (of_int (- 1))" by (simp add: mask_eq_exp_minus_1)
    then have "signed_take_bit 17 (uint ?w) = - 1" by (intro signed_field) simp_all
    then show False using asm_branch_immediate [OF assms(2,3), of cond] getbits_immediate [of 18 ?w] assms(4) by simp
  qed
  ultimately show ?thesis unfolding branch_table by (simp add: zip_ops_special_def zopcode.make_def)
qed

text \<open>the disassembler prints a branch on any condition with the address of its target, except for the offset
  minus one, which the table calls BUSY.\<close>

theorem disassembler_branch:
  assumes "cond < 8" "- (2 ^ 17) \<le> off" "off < 2 ^ 17" "off \<noteq> - 1" "addr \<noteq> 0"
  shows "zipi_to_double_string addr (asm_branch cond off)
    = Inr (pad11 (branch_names ! cond) @ ''@0x'' @ hex8 (addr + of_int (off + 4)), [])"
proof -
  let ?w = "asm_branch cond off" and ?e = "branch_pattern cond"
  have kind: "\<not> zop_is_store ?e" "zop_is_branch ?e" "\<not> strncaseeq ''LJMP'' (branch_names ! cond) 3"
    and mov: "asm_word 2 15 (of_nat cond) 0 AND 0x87c40000 \<noteq> 0x03400000"
    using branch_found(1) assms(1) by (simp_all add: list_all_iff)
  have "zip_getbits ?w (ZIP_BITFIELD 3 19) = Inr (int cond)"
  proof -
    have "plain_field 19 3 0 (ZIP_BITFIELD 3 19)" by code_simp
    from getbits_plain [OF this] show ?thesis using assms(1)
      by (simp add: asm_branch_def asm_fields take_uint_of_nat)
  qed
  then have line: "zop_line addr ?w ?e = Inr (pad11 (branch_names ! cond) @ ''@0x'' @ hex8 (addr + of_int (off + 4)))"
    using kind assms(5) asm_branch_immediate [OF assms(2,3), of cond] names_of_fields(2) [of 0]
    by (cases "cond = 0") (simp_all add: zop_line_def zip_field_def branch_pattern_def zopcode.make_def zip_ccstr_def)
  have "\<not> bit ?w 31" by (simp add: asm_branch_def asm_word_def bit_simps)
  then have "?w AND 0x80000000 = 0" using bit_iff_and_push_bit_not_eq_0 [of ?w 31] by simp
  moreover have "\<not> OFFSET_PC_MOV ?w"
  proof
    assume "OFFSET_PC_MOV ?w"
    then have "(?w AND 0x87c7e000) AND 0x87c40000 = 0x03400000" by (simp add: OFFSET_PC_MOV_def)
    then have "(?w AND 0xfffc0000) AND 0x87c40000 = 0x03400000" by (simp add: and.assoc)
    then show False using mov by (simp add: asm_branch_mask)
  qed
  ultimately show ?thesis using asm_branch_find [OF assms(1-4)] line table_consistent
    by (simp add: zipi_to_double_string_def zipi_to_halfstring_def)
qed

lemma disassembler_branch_witness:
  "zipi_to_double_string 0x1000 (asm_branch 5 (- 0x24)) = Inr (''BNZ        @0x00000fe0'', [])"
proof -
  have "pad11 (branch_names ! 5) @ ''@0x'' @ hex8 (0x1000 + of_int (- 0x24 + 4)) = ''BNZ        @0x00000fe0''" by code_simp
  then show ?thesis using disassembler_branch [of 5 "- 0x24" "0x1000"] by simp
qed

lemma branch_sign:
  assumes "- (2 ^ 17) \<le> off" "off < 2 ^ 17"
  shows "bit (asm_branch cond off) 17 \<longleftrightarrow> off < 0"
proof -
  have "bit (asm_branch cond off) 17 \<longleftrightarrow> bit off 17" by (simp add: asm_branch_def asm_word_def bit_simps)
  also have "\<dots> \<longleftrightarrow> signed_take_bit 17 off < 0" by (simp add: signed_take_bit_negative_iff)
  also have "signed_take_bit 17 off = off" using assms by (simp add: signed_take_bit_int_eq_self)
  finally show ?thesis .
qed

lemma branch_low:
  assumes "- (2 ^ 17) \<le> off" "off < 2 ^ 17"
  shows "asm_branch cond off AND 0x3ffff = of_int (if off < 0 then 0x40000 + off else off)"
proof -
  have "asm_branch cond off AND 0x3ffff = take_bit 18 (asm_branch cond off)" by (simp add: take_bit_eq_mask mask_eq_exp_minus_1)
  also have "\<dots> = take_bit 18 (take_bit 19 (asm_branch cond off))" by simp
  also have "\<dots> = of_int (take_bit 18 off)" unfolding asm_branch_def asm_fields(3) by (simp add: take_bit_of_int)
  also have "take_bit 18 off = (if off < 0 then 0x40000 + off else off)"
  proof (cases "off < 0")
    case True
    have "take_bit 18 off = take_bit 18 (0x40000 + off)" by (simp add: take_bit_eq_mod)
    also have "\<dots> = 0x40000 + off" using True assms by (simp add: take_bit_int_eq_self)
    finally show ?thesis using True by simp
  qed (use assms in \<open>simp add: take_bit_int_eq_self\<close>)
  finally show ?thesis .
qed

lemma and_one_bit: "(a :: u32) AND push_bit n 1 = (if bit a n then push_bit n 1 else 0)"
  by (rule bit_word_eqI) (auto simp: bit_simps)

lemma early_branch_value:
  assumes "cond < 8" "- (2 ^ 17) \<le> off" "off < 2 ^ 17"
  shows "zop_early_branch pc (asm_branch cond off) = pc + 4 + of_int (4 * \<bar>off\<bar>)"
proof -
  let ?w = "asm_branch cond off" and ?c = "asm_word 2 15 (of_nat cond) 0"
  have c: "?c AND 0xf8000000 = 0x78000000" "?c AND 0xffc40000 = 0x78800000"
  proof -
    have "list_all (\<lambda>cond. asm_word 2 15 (of_nat cond) 0 AND 0xf8000000 = 0x78000000
        \<and> asm_word 2 15 (of_nat cond) 0 AND 0xffc40000 = 0x78800000) [0..<8]" by code_simp
    then show "?c AND 0xf8000000 = 0x78000000" "?c AND 0xffc40000 = 0x78800000" using assms(1) by (simp_all add: list_all_iff)
  qed
  have "?w AND 0xf8000000 = (?w AND 0xfffc0000) AND 0xf8000000" by (simp add: and.assoc)
  then have top: "?w AND 0xf8000000 = 0x78000000" using c(1) by (simp add: asm_branch_mask)
  have "?w AND 0xffc60000 = (?w AND 0xfffc0000) AND 0xffc40000 OR ?w AND push_bit 17 1"
    by (simp add: and.assoc flip: bit.conj_disj_distrib)
  also have "?w AND push_bit 17 1 = (if off < 0 then push_bit 17 1 else 0)"
    using branch_sign [OF assms(2,3), of cond] by (simp only: and_one_bit)
  finally have mid: "?w AND 0xffc60000 = (if off < 0 then 0x78820000 else 0x78800000)"
    using c(2) by (simp add: asm_branch_mask)
  show ?thesis using top mid branch_low [OF assms(2,3), of cond]
    by (cases "off < 0") (simp_all add: zop_early_branch_def push_bit_eq_mult)
qed

text \<open>the address at which the debugger expects the processor after a branch is not the branch's target,
  which its own disassembler prints, unless the offset is zero.\<close>

theorem early_branch_target:
  assumes "cond < 8" "- (2 ^ 17) \<le> off" "off < 2 ^ 17"
  shows "zop_early_branch pc (asm_branch cond off) = pc + of_int (off + 4) \<longleftrightarrow> off = 0"
proof -
  have "zop_early_branch pc (asm_branch cond off) = pc + of_int (off + 4) \<longleftrightarrow> of_int (4 * \<bar>off\<bar> - off) = (0 :: u32)"
  proof -
    have "pc + 4 + a = pc + (b + 4) \<longleftrightarrow> a - b = 0" for a b :: u32 by (simp add: add.assoc add.commute [of 4])
    then show ?thesis by (simp only: early_branch_value [OF assms] of_int_add [of off] of_int_diff of_int_numeral)
  qed
  also have "\<dots> \<longleftrightarrow> 2 ^ 32 dvd 4 * \<bar>off\<bar> - off" by (simp add: word_of_int_eq_0_iff del: of_int_diff)
  also have "\<dots> \<longleftrightarrow> off = 0"
  proof
    assume d: "(2 :: int) ^ 32 dvd 4 * \<bar>off\<bar> - off"
    have "0 \<le> 4 * \<bar>off\<bar> - off" "4 * \<bar>off\<bar> - off < 2 ^ 32" using assms by (cases "off < 0"; simp)+
    with d have "4 * \<bar>off\<bar> - off = 0" using zdvd_imp_le by fastforce
    then show "off = 0" by simp
  qed simp
  finally show ?thesis .
qed

lemma early_branch_target_witness:
  "zop_early_branch 0x1000 (asm_branch 0 (- 0x24)) \<noteq> 0x1000 + of_int (- 0x24 + 4)"
  using early_branch_target [of 0 "- 0x24" "0x1000"] by simp

section \<open>A store that is never printed\<close>

lemma find_match: "zip_find ins es = Inr (Some e) \<Longrightarrow> ins AND s_mask e = s_val e"
  by (induction es) (auto split: if_splits)

lemma find_earlier:
  "zip_find ins (es @ f # fs) = Inr (Some e) \<Longrightarrow> s_mask f \<noteq> 0 \<Longrightarrow> ins AND s_mask f = s_val f \<Longrightarrow> e \<in> set es \<or> e = f"
  by (induction es) (auto split: if_splits)

definition sw_register :: zopcode where
  "sw_register = zopcode.make ''SW'' 0x87800000 0x85800000 ZIP_OPUNUSED (ZIP_REGFIELD 27) (ZIP_REGFIELD 19) (ZIP_IMMFIELD 3 16) ZIP_OPUNUSED"

definition sw_stack :: zopcode where
  "sw_stack = zopcode.make ''SW'' 0x87000000 0x85000000 ZIP_OPUNUSED (ZIP_REGFIELD 27) ZIP_SP (ZIP_IMMFIELD 7 16) ZIP_OPUNUSED"

definition before_sw :: "zopcode list" where
  "before_sw = zip_ops_special @ zip_ops_alu @ zip_ops_memory @ zip_ops_sim @ zip_ops_fp @ take 14 zip_ops_cis"

lemma sw_place: "zip_oplist_raw = before_sw @ sw_stack # sw_register # drop 16 zip_ops_cis"
  by (simp add: zip_oplist_raw_def before_sw_def zip_ops_cis_def sw_stack_def sw_register_def)

lemma sw_new: "list_all (\<lambda>e. e \<noteq> sw_register) (sw_stack # before_sw)"
  by code_simp

text \<open>the pattern of a store relative to a register, in the upper half of a compressed word, is in the table
  and never found: the pattern before it, for stores relative to the stack pointer, leaves out the bit that
  tells the two apart, so that \<open>SW R3,$2(R1)\<close> is printed as a store relative to SP; the lower half has it right.\<close>

theorem store_pattern_dead:
  "sw_register \<in> set zip_oplist_raw \<and> zip_find ins zip_oplist_raw \<noteq> Inr (Some sw_register)
     \<and> zipi_to_double_string 0 0x9d8a9d8a = Inr (''SW         R3,$10(SP)'', ''SW         R3,$2(R1)'')"
proof -
  have "zip_find ins zip_oplist_raw \<noteq> Inr (Some sw_register)"
  proof
    assume f: "zip_find ins zip_oplist_raw = Inr (Some sw_register)"
    have "ins AND 0x87800000 = 0x85800000" using find_match [OF f] by (simp add: sw_register_def zopcode.make_def)
    then have "(ins AND 0x87800000) AND 0x87000000 = 0x85000000" by simp
    then have "ins AND s_mask sw_stack = s_val sw_stack" by (simp add: and.assoc sw_stack_def zopcode.make_def)
    moreover have "s_mask sw_stack \<noteq> 0" by (simp add: sw_stack_def zopcode.make_def)
    ultimately have "sw_register \<in> set before_sw \<or> sw_register = sw_stack"
      using f find_earlier unfolding sw_place by blast
    then show False using sw_new by (auto simp: list_all_iff)
  qed
  moreover have "zipi_to_double_string 0 0x9d8a9d8a = Inr (''SW         R3,$10(SP)'', ''SW         R3,$2(R1)'')" by code_simp
  ultimately show ?thesis unfolding sw_place by simp
qed

end
