(* ===== verification/Arp.thy ===== *)
theory Arp
  imports Prelude
begin

text \<open>
  The address table of the board's network programs, \<open>sw/board/arp.c\<close>: the Ethernet addresses of eight
  neighbours, their ages, and the ARP packets.  An \<open>unsigned long\<close> has 64 bits on this processor.  A system
  call that sends a packet is recorded with the words and the number of bytes it is given; the delay loop
  after it has no effect.
\<close>

section \<open>State\<close>

record arp_entry =
  valid :: int
  age :: u32
  e_ipaddr :: u32
  e_mac :: u64

definition NUM_ARP_ENTRIES :: nat where "NUM_ARP_ENTRIES = 8"
definition ETHERTYPE_IP :: u32 where "ETHERTYPE_IP = 0x0800"
definition ETHERTYPE_ARP :: u32 where "ETHERTYPE_ARP = 0x0806"

record arp =
  arp_table :: "arp_entry list"
  arp_requests_sent :: u32
  arp_logid :: int
  arp_table_log :: "(u32 \<times> u64) list"
  my_mac_addr :: u64
  router_mac_addr :: u64
  my_ip_addr :: u32
  my_ip_router :: u32
  my_ip_mask :: u32
  sent_pkts :: "(u32 list \<times> u32) list"

definition SENDPKT :: "u32 list \<Rightarrow> u32 \<Rightarrow> arp \<Rightarrow> arp" where
  "SENDPKT pkt ln s = s\<lparr>sent_pkts := sent_pkts s @ [(pkt, ln)]\<rparr>"

section \<open>Operations\<close>

definition init_arp_table :: "arp \<Rightarrow> arp" where
  "init_arp_table s = s\<lparr>arp_table := map (\<lambda>e. e\<lparr>valid := 0\<rparr>) (arp_table s)\<rparr>"

text \<open>The first unused entry, or the eldest one.\<close>

fun next_index_loop :: "nat \<Rightarrow> nat \<Rightarrow> u32 \<Rightarrow> arp_entry list \<Rightarrow> nat" where
  "next_index_loop eid eldest oldage [] = eldest"
| "next_index_loop eid eldest oldage (e # es) =
     (if valid e = 0 then eid
      else if oldage < age e then next_index_loop (Suc eid) eid (age e) es
      else next_index_loop (Suc eid) eldest oldage es)"

definition get_next_arp_index :: "arp \<Rightarrow> nat" where
  "get_next_arp_index s = next_index_loop 0 0 0 (arp_table s)"

definition arp_packet :: "u32 \<Rightarrow> u32 \<Rightarrow> u32 \<Rightarrow> u32 \<Rightarrow> u32 \<Rightarrow> u32 \<Rightarrow> arp \<Rightarrow> u32 list" where
  "arp_packet w0 w1 op hi lo ip s = [w0, w1, 0x010800, 0x06040000 OR op, ucast (drop_bit 16 (my_mac_addr s)),
     ucast (push_bit 16 (my_mac_addr s)) OR drop_bit 16 (my_ip_addr s), push_bit 16 (my_ip_addr s) OR hi, lo, ip]"

definition send_arp_request :: "u32 \<Rightarrow> arp \<Rightarrow> arp" where
  "send_arp_request ip s = SENDPKT (arp_packet 0xffffffff (0xffff0000 OR ETHERTYPE_ARP) 1 0 0 ip s) (9 * 4)
     (s\<lparr>arp_requests_sent := arp_requests_sent s + 1\<rparr>)"

definition send_arp_reply :: "u32 \<Rightarrow> u32 \<Rightarrow> u32 \<Rightarrow> arp \<Rightarrow> arp" where
  "send_arp_reply machi maclo ip s =
     SENDPKT (arp_packet (push_bit 16 machi OR drop_bit 16 maclo) (push_bit 16 maclo OR ETHERTYPE_ARP) 2 machi maclo ip s) (9 * 4) s"

text \<open>
  One pass over the table: a hit makes its entry young again and stops; every other valid entry on the way
  ages, and one older than all before it is dropped when its age has reached \<open>0x10000\<close>.
\<close>

fun lookup_loop :: "u32 \<Rightarrow> u32 \<Rightarrow> arp_entry list \<Rightarrow> u64 option \<times> arp_entry list" where
  "lookup_loop ip oldage [] = (None, [])"
| "lookup_loop ip oldage (e # es) =
     (if valid e \<noteq> 0
      then if e_ipaddr e = ip then (Some (e_mac e), e\<lparr>age := 0\<rparr> # es)
           else if oldage < age e
           then (let (r, es') = lookup_loop ip (age e) es;
                     e' = e\<lparr>age := age e + 1\<rparr>
                 in (r, (if 0x010000 \<le> sint (age e) then e'\<lparr>valid := 0\<rparr> else e') # es'))
           else (let (r, es') = lookup_loop ip oldage es in (r, e\<lparr>age := age e + 1\<rparr> # es'))
      else (let (r, es') = lookup_loop ip oldage es in (r, e # es')))"

text \<open>The address is \<open>Some\<close> where the code returns 0 and stores it, \<open>None\<close> where it returns 1.\<close>

definition via_router :: "u32 \<Rightarrow> arp \<Rightarrow> bool" where
  "via_router ip s \<longleftrightarrow> ((ip XOR my_ip_addr s) AND my_ip_mask s \<noteq> 0 \<or> ip = my_ip_router s) \<and> router_mac_addr s \<noteq> 0"

definition arp_lookup :: "u32 \<Rightarrow> arp \<Rightarrow> u64 option \<times> arp" where
  "arp_lookup ip s =
     (if via_router ip s then (Some (router_mac_addr s), s)
      else (let (r, t) = lookup_loop ip 0 (arp_table s); s = s\<lparr>arp_table := t\<rparr>
            in case r of Some m \<Rightarrow> (Some m, s) | None \<Rightarrow> (None, send_arp_request ip s)))"

text \<open>The first valid entry of an address gets a new hardware address.\<close>

fun refresh :: "u32 \<Rightarrow> u64 \<Rightarrow> arp_entry list \<Rightarrow> arp_entry list" where
  "refresh ip mac [] = []"
| "refresh ip mac (e # es) =
     (if valid e \<noteq> 0 \<and> e_ipaddr e = ip then e\<lparr>valid := 1, age := 0, e_mac := mac\<rparr> # es else e # refresh ip mac es)"

definition arp_log :: "u32 \<Rightarrow> u64 \<Rightarrow> arp \<Rightarrow> fault + arp" where
  "arp_log ip mac s = in_bounds (0 \<le> arp_logid s \<and> arp_logid s < 32)
     (Inr (s\<lparr>arp_table_log := (arp_table_log s)[nat (arp_logid s) := (ip, mac)], arp_logid := (arp_logid s + 1) AND 31\<rparr>))"

text \<open>
  The pointer to the flag of a new entry is taken before its index is known: \<open>eid\<close> is what the uninitialised
  variable holds then.
\<close>

definition arp_new_entry :: "int \<Rightarrow> u32 \<Rightarrow> u64 \<Rightarrow> arp \<Rightarrow> fault + arp" where
  "arp_new_entry eid ip mac s =
     in_bounds (0 \<le> eid \<and> eid < int NUM_ARP_ENTRIES)
       (let ev = nat eid; k = get_next_arp_index s; t = arp_table s;
            t = t[ev := (t ! ev)\<lparr>valid := 0\<rparr>];
            t = t[k := (t ! k)\<lparr>age := 0, e_ipaddr := ip, e_mac := mac\<rparr>];
            t = t[ev := (t ! ev)\<lparr>valid := 1\<rparr>]
        in Inr (s\<lparr>arp_table := t\<rparr>))"

definition arp_table_add :: "int \<Rightarrow> u32 \<Rightarrow> u64 \<Rightarrow> arp \<Rightarrow> fault + arp" where
  "arp_table_add eid ip mac s =
     rbind (arp_log ip mac s) (\<lambda>s.
       if ip = my_ip_addr s then Inr s
       else if ip = my_ip_router s then Inr (s\<lparr>router_mac_addr := mac\<rparr>)
       else case arp_lookup ip s of
         (Some lclmac, s) \<Rightarrow> Inr (if mac \<noteq> lclmac then s\<lparr>arp_table := refresh ip mac (arp_table s)\<rparr> else s)
       | (None, s) \<Rightarrow> arp_new_entry eid ip mac s)"

text \<open>The globals of the ping program when it starts: all zero but the addresses it is given.\<close>

definition IPADDR :: "u32 \<Rightarrow> u32 \<Rightarrow> u32 \<Rightarrow> u32 \<Rightarrow> u32" where
  "IPADDR a b c d = push_bit 24 (a AND 0xff) OR push_bit 16 (b AND 0xff) OR push_bit 8 (c AND 0xff) OR (d AND 0xff)"

definition arp_boot :: arp where
  "arp_boot = \<lparr>arp_table = replicate NUM_ARP_ENTRIES \<lparr>valid = 0, age = 0, e_ipaddr = 0, e_mac = 0\<rparr>, arp_requests_sent = 0,
     arp_logid = 0, arp_table_log = replicate 32 (0, 0), my_mac_addr = 0xd2d828e8b096, router_mac_addr = 0,
     my_ip_addr = IPADDR 192 168 15 22, my_ip_router = IPADDR 192 168 15 1, my_ip_mask = 0xffffff00, sent_pkts = []\<rparr>"

section \<open>The table as a map\<close>

definition live :: "u32 \<Rightarrow> arp_entry \<Rightarrow> bool" where
  "live ip e \<longleftrightarrow> valid e \<noteq> 0 \<and> e_ipaddr e = ip"

definition arp_map :: "arp_entry list \<Rightarrow> u32 \<Rightarrow> u64 option" where
  "arp_map es ip = map_option e_mac (find (live ip) es)"

lemma arp_map_simps [simp]:
  "arp_map [] ip = None"
  "arp_map (e # es) ip = (if valid e \<noteq> 0 \<and> e_ipaddr e = ip then Some (e_mac e) else arp_map es ip)"
  by (simp_all add: arp_map_def live_def)

lemma arp_map_None: "arp_map es ip = None \<longleftrightarrow> (\<forall>e \<in> set es. \<not> live ip e)"
  by (induction es) (auto simp: live_def)

text \<open>What ageing may do to an entry.\<close>

definition aged :: "arp_entry \<Rightarrow> arp_entry \<Rightarrow> bool" where
  "aged e e' \<longleftrightarrow> e_ipaddr e' = e_ipaddr e \<and> e_mac e' = e_mac e \<and> (valid e' = valid e \<or> valid e' = 0)"

lemma aged_simps [simp]:
  "aged e e" "aged e (e\<lparr>age := a\<rparr>)" "aged e (e\<lparr>age := a, valid := 0\<rparr>)" "list_all2 aged es es"
  by (simp_all add: aged_def list_all2_same)

lemma aged_not_live: "list_all2 aged es es' \<Longrightarrow> \<forall>e \<in> set es. \<not> live ip e \<Longrightarrow> \<forall>e \<in> set es'. \<not> live ip e"
  by (induction es es' rule: list_all2_induct) (auto simp: aged_def live_def)

lemma aged_unused: "list_all2 aged es es' \<Longrightarrow> \<exists>e \<in> set es. valid e = 0 \<Longrightarrow> \<exists>e \<in> set es'. valid e = 0"
  by (induction es es' rule: list_all2_induct) (auto simp: aged_def)

lemma lookup_loop_finds: "fst (lookup_loop ip old es) = arp_map es ip"
  by (induction ip old es rule: lookup_loop.induct) (auto simp: split_beta Let_def)

lemma lookup_loop_aged: "list_all2 aged es (snd (lookup_loop ip old es))"
  by (induction ip old es rule: lookup_loop.induct) (auto simp: split_beta Let_def)

lemma lookup_loop_keeps:
  "arp_map es ip = Some m \<Longrightarrow> arp_map (snd (lookup_loop ip old es)) ip = Some m"
  by (induction ip old es rule: lookup_loop.induct) (auto simp: split_beta Let_def)

lemma lookup_loop_length [simp]: "length (snd (lookup_loop ip old es)) = length es"
  using lookup_loop_aged [of es ip old] by (auto dest: list_all2_lengthD)

lemma refresh_map: "arp_map es ip \<noteq> None \<Longrightarrow> arp_map (refresh ip mac es) = (arp_map es)(ip \<mapsto> mac)"
  by (induction es) (auto simp: fun_eq_iff)

lemma refresh_length [simp]: "length (refresh ip mac es) = length es"
  by (induction es) auto

lemma next_index_range:
  "next_index_loop eid eldest old es = eldest \<or> (eid \<le> next_index_loop eid eldest old es \<and> next_index_loop eid eldest old es < eid + length es)"
  by (induction eid eldest old es rule: next_index_loop.induct) auto

lemma next_index_unused:
  "(\<exists>e \<in> set es. valid e = 0) \<Longrightarrow> eid \<le> next_index_loop eid eldest old es
     \<and> valid (es ! (next_index_loop eid eldest old es - eid)) = 0"
proof (induction eid eldest old es rule: next_index_loop.induct)
  case (2 eid eldest old e es)
  then show ?case by (auto simp: nth_Cons Suc_diff_le Suc_le_eq split: nat.splits dest: Suc_leD) (metis Suc_diff_Suc Suc_le_lessD diff_Suc_Suc nat.inject)+
qed simp

section \<open>Well-formed tables\<close>

definition arp_wf :: "arp \<Rightarrow> bool" where
  "arp_wf s \<longleftrightarrow> length (arp_table s) = NUM_ARP_ENTRIES \<and> length (arp_table_log s) = 32
     \<and> 0 \<le> arp_logid s \<and> arp_logid s < 32"

lemma next_index_bound: "arp_wf s \<Longrightarrow> get_next_arp_index s < length (arp_table s)"
  using next_index_range [of 0 0 0 "arp_table s"] by (auto simp: get_next_arp_index_def arp_wf_def NUM_ARP_ENTRIES_def)

lemma arp_wf_frame [simp]:
  "arp_wf (s\<lparr>router_mac_addr := m\<rparr>) = arp_wf s" "arp_wf (s\<lparr>sent_pkts := p\<rparr>) = arp_wf s"
  "arp_wf (s\<lparr>arp_requests_sent := n\<rparr>) = arp_wf s"
  by (simp_all add: arp_wf_def)

lemma arp_wf_table: "arp_wf s \<Longrightarrow> length t = length (arp_table s) \<Longrightarrow> arp_wf (s\<lparr>arp_table := t\<rparr>)"
  by (simp add: arp_wf_def)

lemma arp_lookup_wf: "arp_wf s \<Longrightarrow> arp_wf (snd (arp_lookup ip s))"
  by (simp add: arp_lookup_def split_beta Let_def arp_wf_table send_arp_request_def SENDPKT_def split: option.splits)

lemma arp_log_ok:
  assumes "arp_wf s"
  obtains s' where "arp_log ip mac s = Inr s'" "arp_wf s'" "arp_table s' = arp_table s" "router_mac_addr s' = router_mac_addr s"
    "my_ip_addr s' = my_ip_addr s" "my_ip_router s' = my_ip_router s" "my_ip_mask s' = my_ip_mask s"
proof -
  have "x AND 31 = take_bit 5 x" for x :: int by (simp add: take_bit_eq_mask mask_eq_exp_minus_1)
  then have "0 \<le> (arp_logid s + 1) AND 31 \<and> (arp_logid s + 1) AND 31 < 32"
    using take_bit_int_less_exp [of 5 "arp_logid s + 1"] by simp
  then show thesis using assms
    by (intro that [of "s\<lparr>arp_table_log := (arp_table_log s)[nat (arp_logid s) := (ip, mac)], arp_logid := (arp_logid s + 1) AND 31\<rparr>"])
      (simp_all add: arp_log_def arp_wf_def)
qed

lemma arp_new_entry_ok:
  assumes "arp_wf s" "0 \<le> eid" "eid < 8"
  shows "\<exists>s'. arp_new_entry eid ip mac s = Inr s' \<and> arp_wf s'"
  using assms by (simp add: arp_new_entry_def NUM_ARP_ENTRIES_def Let_def arp_wf_table)

lemma arp_table_add_ok:
  assumes "arp_wf s" "0 \<le> eid" "eid < 8"
  shows "\<exists>s'. arp_table_add eid ip mac s = Inr s' \<and> arp_wf s'"
proof -
  obtain s1 where s1: "arp_log ip mac s = Inr s1" "arp_wf s1" using arp_log_ok [OF assms(1)] by metis
  obtain r s2 where s2: "arp_lookup ip s1 = (r, s2)" "arp_wf s2" using arp_lookup_wf [OF s1(2), of ip] by (cases "arp_lookup ip s1") auto
  obtain s3 where s3: "arp_new_entry eid ip mac s2 = Inr s3" "arp_wf s3" using arp_new_entry_ok [OF s2(2) assms(2,3)] by blast
  show ?thesis using s1 s2 s3 by (auto simp: arp_table_add_def arp_wf_table split: option.splits)
qed

text \<open>The operations as the steps of one machine.\<close>

datatype arp_op = Lookup u32 | Learn int u32 u64 | Reply u32 u32 u32

fun arp_step :: "arp \<Rightarrow> arp_op \<Rightarrow> fault + arp \<times> u64 option" where
  "arp_step s (Lookup ip) = (let (r, s') = arp_lookup ip s in Inr (s', r))"
| "arp_step s (Learn eid ip mac) = rbind (arp_table_add eid ip mac s) (\<lambda>s'. Inr (s', None))"
| "arp_step s (Reply hi lo ip) = Inr (send_arp_reply hi lo ip s, None)"

definition arp_op_ok :: "arp_op \<Rightarrow> bool" where
  "arp_op_ok p = (case p of Learn eid ip mac \<Rightarrow> 0 \<le> eid \<and> eid < 8 | _ \<Rightarrow> True)"

lemma arp_step_ok: "arp_wf s \<Longrightarrow> arp_op_ok p \<Longrightarrow> \<exists>s' x. arp_step s p = Inr (s', x) \<and> arp_wf s'"
proof (cases p)
  case (Learn eid ip mac)
  moreover assume "arp_wf s" "arp_op_ok p"
  ultimately show ?thesis using arp_table_add_ok [of s eid ip mac] by (auto simp: arp_op_ok_def)
qed (auto simp: split_beta arp_lookup_wf send_arp_reply_def SENDPKT_def)

interpretation arp: step_total arp_step arp_wf arp_op_ok
proof
  show "arp_wf s'" if "arp_wf s" "arp_op_ok p" "arp_step s p = Inr (s', x)" for s p s' x
    using arp_step_ok [OF that(1,2)] that(3) by auto
  show "\<exists>s' x. arp_step s p = Inr (s', x)" if "arp_wf s" "arp_op_ok p" for s p
    using arp_step_ok [OF that] by blast
qed

section \<open>The theorems\<close>

text \<open>a run of lookups, new addresses and replies, in any order, never leaves the table or the log, as long as the
  uninitialised index of a new entry lies in the table.\<close>

theorem arp_runs:
  assumes "arp_wf s" "list_all arp_op_ok ps"
  shows "\<exists>s' xs. run arp_step s ps = Inr (s', xs) \<and> arp_wf s'"
  using assms by (rule arp.run_returns)

lemma lookup_table:
  "\<not> via_router ip s \<Longrightarrow> fst (arp_lookup ip s) = arp_map (arp_table s) ip"
  "\<not> via_router ip s \<Longrightarrow> arp_table (snd (arp_lookup ip s)) = snd (lookup_loop ip 0 (arp_table s))"
  using lookup_loop_finds [of ip 0 "arp_table s"]
  by (simp_all add: arp_lookup_def split_beta Let_def send_arp_request_def SENDPKT_def split: option.splits)

lemma via_router_frame [simp]:
  "via_router ip (s\<lparr>arp_table := t\<rparr>) = via_router ip s" "via_router ip (s\<lparr>sent_pkts := p\<rparr>) = via_router ip s"
  "via_router ip (s\<lparr>arp_requests_sent := n\<rparr>) = via_router ip s"
  by (simp_all add: via_router_def)

lemma lookup_frame:
  "via_router ip' (snd (arp_lookup ip s)) = via_router ip' s"
  by (simp add: arp_lookup_def split_beta Let_def send_arp_request_def SENDPKT_def split: option.splits)

lemma arp_map_update:
  "k < length t \<Longrightarrow> \<forall>e \<in> set t. \<not> live ip e \<Longrightarrow> live ip e \<Longrightarrow> arp_map (t[k := e]) ip = Some (e_mac e)"
  by (induction t arbitrary: k) (auto simp: live_def split: nat.splits)

lemma arp_table_add_cases:
  assumes "arp_wf s" "ip \<noteq> my_ip_addr s" "ip \<noteq> my_ip_router s" "\<not> via_router ip s"
  obtains s2 where "arp_wf s2" "arp_table s2 = snd (lookup_loop ip 0 (arp_table s))" "\<not> via_router ip s2"
    "arp_table_add eid ip mac s = (case arp_map (arp_table s) ip of
       Some m \<Rightarrow> Inr (if mac \<noteq> m then s2\<lparr>arp_table := refresh ip mac (arp_table s2)\<rparr> else s2)
     | None \<Rightarrow> arp_new_entry eid ip mac s2)"
proof -
  obtain s1 where s1: "arp_log ip mac s = Inr s1" "arp_wf s1" "arp_table s1 = arp_table s" "via_router ip s1 = via_router ip s"
    "my_ip_addr s1 = my_ip_addr s" "my_ip_router s1 = my_ip_router s"
    using arp_log_ok [OF assms(1), of ip mac] by (metis via_router_def)
  define s2 where "s2 = snd (arp_lookup ip s1)"
  have l: "arp_lookup ip s1 = (arp_map (arp_table s) ip, s2)"
    using lookup_table(1) [of ip s1] s1(3,4) assms(4) by (simp add: s2_def prod_eq_iff)
  show thesis
  proof (rule that [of s2])
    show "arp_wf s2" using arp_lookup_wf s1(2) by (simp add: s2_def)
    show "arp_table s2 = snd (lookup_loop ip 0 (arp_table s))"
      using lookup_table(2) [of ip s1] s1(3,4) assms(4) by (simp add: s2_def)
    show "\<not> via_router ip s2" using s1(4) assms(4) by (simp add: s2_def lookup_frame)
    show "arp_table_add eid ip mac s = (case arp_map (arp_table s) ip of
       Some m \<Rightarrow> Inr (if mac \<noteq> m then s2\<lparr>arp_table := refresh ip mac (arp_table s2)\<rparr> else s2)
     | None \<Rightarrow> arp_new_entry eid ip mac s2)"
      using s1 assms(2,3) l by (simp add: arp_table_add_def split: option.splits)
  qed
qed

text \<open>C26: a neighbour whose address is added is found afterwards with that address, whether it was known before,
  with the same address or another, or not at all, if the uninitialised index happens to be the one the code
  chooses for a new entry.\<close>

theorem arp_learns:
  assumes "arp_wf s" "ip \<noteq> my_ip_addr s" "ip \<noteq> my_ip_router s" "\<not> via_router ip s"
    and "eid = int (next_index_loop 0 0 0 (snd (lookup_loop ip 0 (arp_table s))))"
  shows "\<exists>s'. arp_table_add eid ip mac s = Inr s' \<and> fst (arp_lookup ip s') = Some mac"
proof -
  obtain s2 where s2: "arp_wf s2" "arp_table s2 = snd (lookup_loop ip 0 (arp_table s))" "\<not> via_router ip s2"
    "arp_table_add eid ip mac s = (case arp_map (arp_table s) ip of
       Some m \<Rightarrow> Inr (if mac \<noteq> m then s2\<lparr>arp_table := refresh ip mac (arp_table s2)\<rparr> else s2)
     | None \<Rightarrow> arp_new_entry eid ip mac s2)"
    using arp_table_add_cases [OF assms(1-4)] by blast
  show ?thesis
  proof (cases "arp_map (arp_table s) ip")
    case None
    let ?k = "get_next_arp_index s2" and ?t = "arp_table s2"
    let ?e = "(?t ! ?k)\<lparr>age := 0, e_ipaddr := ip, e_mac := mac, valid := 1\<rparr>"
    have k: "?k < length ?t" "eid = int ?k" using next_index_bound [OF s2(1)] assms(5) by (simp_all add: get_next_arp_index_def s2(2))
    have "\<forall>e \<in> set ?t. \<not> live ip e"
      unfolding s2(2) using aged_not_live [OF lookup_loop_aged] None arp_map_None by blast
    then have "arp_map (?t[?k := ?e]) ip = Some (e_mac ?e)" using k(1) by (intro arp_map_update) (simp_all add: live_def)
    moreover have "arp_new_entry eid ip mac s2 = Inr (s2\<lparr>arp_table := ?t[?k := ?e]\<rparr>)"
      using k s2(1) by (simp add: arp_new_entry_def arp_wf_def Let_def)
    ultimately show ?thesis using None s2(3,4) by (simp add: lookup_table)
  next
    case (Some m)
    then have "arp_map (arp_table s2) ip = Some m" unfolding s2(2) by (rule lookup_loop_keeps)
    then show ?thesis using Some s2(3,4) refresh_map [of "arp_table s2" ip mac] by (auto simp: lookup_table)
  qed
qed

text \<open>a new neighbour is not learned when the uninitialised index differs from the one the code chooses and an
  entry is unused: the entry written stays invalid, the entry at the stale index becomes valid with what it
  held before, and the next lookup of the neighbour fails.\<close>

theorem arp_forgets:
  assumes "arp_wf s" "ip \<noteq> my_ip_addr s" "ip \<noteq> my_ip_router s" "\<not> via_router ip s"
    and "arp_map (arp_table s) ip = None" "\<exists>e \<in> set (arp_table s). valid e = 0"
    and "eid < 8" "eid \<noteq> next_index_loop 0 0 0 (snd (lookup_loop ip 0 (arp_table s)))" "e_ipaddr (arp_table s ! eid) \<noteq> ip"
  shows "\<exists>s'. arp_table_add (int eid) ip mac s = Inr s' \<and> fst (arp_lookup ip s') = None
     \<and> valid (arp_table s' ! eid) = 1 \<and> e_ipaddr (arp_table s' ! eid) = e_ipaddr (arp_table s ! eid)"
proof -
  obtain s2 where s2: "arp_wf s2" "arp_table s2 = snd (lookup_loop ip 0 (arp_table s))" "\<not> via_router ip s2"
    "arp_table_add (int eid) ip mac s = arp_new_entry (int eid) ip mac s2"
    using arp_table_add_cases [OF assms(1-4), of "int eid" mac] assms(5) by auto
  let ?k = "get_next_arp_index s2" and ?t = "arp_table s2"
  have aged: "list_all2 aged (arp_table s) ?t" unfolding s2(2) by (rule lookup_loop_aged)
  have len: "length ?t = 8" using s2(1) by (simp add: arp_wf_def NUM_ARP_ENTRIES_def)
  have k: "?k < 8" "?k \<noteq> eid" using next_index_bound [OF s2(1)] len assms(8) by (simp_all add: get_next_arp_index_def s2(2))
  have "\<exists>e \<in> set ?t. valid e = 0"
    using aged_unused [OF aged assms(6)] .
  then have free: "valid (?t ! ?k) = 0" using next_index_unused [of ?t 0 0 0] by (simp add: get_next_arp_index_def)
  have stale: "e_ipaddr (?t ! eid) = e_ipaddr (arp_table s ! eid)"
    using list_all2_nthD2 [OF aged] assms(7) len by (simp add: aged_def)
  let ?t' = "?t[eid := (?t ! eid)\<lparr>valid := 1\<rparr>, ?k := (?t ! ?k)\<lparr>age := 0, e_ipaddr := ip, e_mac := mac\<rparr>]"
  have new: "arp_new_entry (int eid) ip mac s2 = Inr (s2\<lparr>arp_table := ?t'\<rparr>)"
    using k len assms(7) by (simp add: arp_new_entry_def NUM_ARP_ENTRIES_def Let_def list_update_swap)
  have none: "\<forall>e \<in> set ?t. \<not> live ip e" using aged_not_live [OF aged] assms(5) arp_map_None by blast
  have "\<forall>e \<in> set ?t'. \<not> live ip e"
  proof
    fix e assume "e \<in> set ?t'"
    then obtain j where "j < 8" "e = ?t' ! j" by (auto simp: in_set_conv_nth len)
    then show "\<not> live ip e" using none free stale assms(9) len k
      by (cases "j = ?k"; cases "j = eid") (simp_all add: live_def nth_list_update)
  qed
  then show ?thesis using s2(3,4) new stale k len assms(7) by (simp add: lookup_table arp_map_None)
qed

section \<open>Instances\<close>

lemma arp_boot_wf: "arp_wf arp_boot"
  by (simp add: arp_wf_def arp_boot_def)

lemma arp_runs_witness:
  "\<exists>s' xs. run arp_step arp_boot [Lookup 0xc0a80f05, Learn 3 0xc0a80f05 0x112233445566, Lookup 0xc0a80f05] = Inr (s', xs) \<and> arp_wf s'"
  by (rule arp_runs) (simp_all add: arp_boot_wf arp_op_ok_def)

lemma boot_addresses:
  "(0xc0a80f05 :: u32) \<noteq> my_ip_addr arp_boot" "(0xc0a80f05 :: u32) \<noteq> my_ip_router arp_boot" "\<not> via_router 0xc0a80f05 arp_boot"
  by (simp_all add: arp_boot_def IPADDR_def via_router_def)

lemma replicate_8: "replicate 8 x = [x, x, x, x, x, x, x, x]"
  by (simp add: eval_nat_numeral)

lemma boot_table: "arp_table arp_boot = replicate 8 \<lparr>valid = 0, age = 0, e_ipaddr = 0, e_mac = 0\<rparr>"
  by (simp add: arp_boot_def NUM_ARP_ENTRIES_def)

lemma arp_learns_witness:
  "\<exists>s'. arp_table_add 0 0xc0a80f05 0x112233445566 arp_boot = Inr s' \<and> fst (arp_lookup 0xc0a80f05 s') = Some 0x112233445566"
  by (rule arp_learns) (simp_all add: arp_boot_wf boot_addresses boot_table replicate_8)

lemma arp_forgets_witness:
  "\<exists>s'. arp_table_add (int 3) 0xc0a80f05 0x112233445566 arp_boot = Inr s' \<and> fst (arp_lookup 0xc0a80f05 s') = None
     \<and> valid (arp_table s' ! 3) = 1 \<and> e_ipaddr (arp_table s' ! 3) = e_ipaddr (arp_table arp_boot ! 3)"
  by (rule arp_forgets) (simp_all add: arp_boot_wf boot_addresses boot_table replicate_8)

end
