(* ===== verification/IpCksum.thy ===== *)
theory IpCksum
  imports Prelude
begin

text \<open>
  The internet checksum of the board's network programs, \<open>sw/board/ipcksum.c\<close>: the assembly that is built, as a
  loop over the words from the pointer on, and the C version kept beside it.  Reading past the words the
  caller has is a fault.
\<close>

section \<open>The code\<close>

text \<open>
  The loop tests its count after the decrement, so a count of zero stands for \<open>2 ^ 32\<close> words.
\<close>

fun ipcksum_loop :: "u32 \<Rightarrow> u32 \<Rightarrow> u32 list \<Rightarrow> fault + u32" where
  "ipcksum_loop n acc [] = Inl OutOfBounds"
| "ipcksum_loop n acc (m # ms) =
     (let acc' = (if acc + m < m then acc + m + 1 else acc + m)
      in if n - 1 = 0 then Inr acc' else ipcksum_loop (n - 1) acc' ms)"

definition ipcksum_fold :: "u32 \<Rightarrow> u32" where
  "ipcksum_fold acc =
     (let r = (acc AND 0xffff) + drop_bit 16 acc;
          r' = (if r AND 0xffff0000 \<noteq> 0 then r + 1 else r)
      in (r' AND 0xffff) XOR 0xffff)"

definition ipcksum :: "u32 \<Rightarrow> u32 list \<Rightarrow> fault + u32" where
  "ipcksum len ptr = rbind (ipcksum_loop len 0 ptr) (\<lambda>acc. Inr (ipcksum_fold acc))"

lemma word_halves: "unat (m AND 0xffff) = unat (m :: u32) mod 65536" "unat (drop_bit 16 m) = unat m div 65536"
proof -
  have "m AND 0xffff = take_bit 16 m" by (simp add: take_bit_eq_mask mask_eq_exp_minus_1)
  then show "unat (m AND 0xffff) = unat m mod 65536" by (simp add: unsigned_take_bit_eq) (simp add: take_bit_eq_mod)
  show "unat (drop_bit 16 m) = unat m div 65536" 
    by (simp only: unat_drop_bit_eq) (simp add: drop_bit_eq_div)
qed

lemma fits_half: "c AND NOT 0xffff = 0 \<longleftrightarrow> unat (c :: u32) < 65536"
proof -
  have m: "(0xffff :: u32) = mask 16" by (simp add: mask_eq_exp_minus_1)
  have "c AND NOT (mask 16) = push_bit 16 (drop_bit 16 c)" 
    by (rule bit_word_eqI) (auto simp: bit_simps)
  moreover have "push_bit 16 (drop_bit 16 c) = 0 \<longleftrightarrow> drop_bit 16 c = 0"
  proof
    assume "push_bit 16 (drop_bit 16 c) = 0"
    then have "drop_bit 16 (push_bit 16 (drop_bit 16 c)) = 0" by simp
    moreover have "drop_bit 16 (push_bit 16 (drop_bit 16 c)) = drop_bit 16 c"
      by (rule bit_word_eqI) (auto simp: bit_simps dest: bit_imp_le_length)
    ultimately show "drop_bit 16 c = 0" by simp
  qed simp
  ultimately have "c AND NOT 0xffff = 0 \<longleftrightarrow> unat (drop_bit 16 c) = 0" unfolding m by (simp add: unat_eq_0)
  then show ?thesis unfolding word_halves by (simp add: div_eq_0_iff)
qed

lemma unat_fold: "unat ((c AND 0xffff) + drop_bit 16 c) = unat (c :: u32) mod 65536 + unat c div 65536"
proof -
  have "unat c mod 65536 < 65536" "unat c div 65536 < 65536" using unsigned_less [of c, where 'a = nat] by (simp_all add: less_mult_imp_div_less)
  then show ?thesis by (simp add: unat_word_ariths word_halves)
qed

text \<open>The C version: a plain sum of half words, then folded until it fits.\<close>

fun ipcksum_sum :: "nat \<Rightarrow> u32 \<Rightarrow> u32 list \<Rightarrow> fault + u32" where
  "ipcksum_sum 0 acc ms = Inr acc"
| "ipcksum_sum (Suc n) acc [] = Inl OutOfBounds"
| "ipcksum_sum (Suc n) acc (m # ms) = ipcksum_sum n (acc + (m AND 0xffff) + drop_bit 16 m) ms"

lemma fold_decreases:
  assumes "c AND NOT 0xffff \<noteq> 0"
  shows "unat ((c AND 0xffff) + drop_bit 16 c) < unat (c :: u32)"
proof -
  have "\<not> unat c < 65536" using assms fits_half by blast
  then have "0 < unat c div 65536" by (simp add: div_greater_zero_iff)
  then have "unat c mod 65536 + unat c div 65536 < unat c" using mod_mult_div_eq [of "unat c" 65536] by linarith
  then show ?thesis by (simp only: unat_fold)
qed

function ipcksum_refold :: "u32 \<Rightarrow> u32" where
  "ipcksum_refold c = (if c AND NOT 0xffff = 0 then c else ipcksum_refold ((c AND 0xffff) + drop_bit 16 c))"
  by auto
termination by (relation "measure unat") (simp_all only: in_measure wf_measure fold_decreases simp_thms)

declare ipcksum_refold.simps [simp del]

definition ipcksum_c :: "int \<Rightarrow> u32 list \<Rightarrow> fault + u32" where
  "ipcksum_c len ptr = rbind (ipcksum_sum (nat len) 0 ptr) (\<lambda>c. Inr (ipcksum_refold c XOR 0xffff))"

section \<open>The sum of half words\<close>

definition halves :: "u32 \<Rightarrow> nat" where
  "halves m = unat m mod 65536 + unat m div 65536"

definition half_sum :: "u32 list \<Rightarrow> nat" where
  "half_sum ms = sum_list (map halves ms)"

lemma half_sum_simps [simp]: "half_sum [] = 0" "half_sum (m # ms) = halves m + half_sum ms"
  by (simp_all add: half_sum_def)

text \<open>The one's complement value of a sum: below 65536, zero for the sum zero only.\<close>

definition ones_value :: "nat \<Rightarrow> nat" where
  "ones_value s = (if s = 0 then 0 else (s - 1) mod 65535 + 1)"

lemma ones_value_unique:
  assumes "v < 65536" "v mod 65535 = s mod 65535" "v = 0 \<longleftrightarrow> s = 0"
  shows "v = ones_value s"
proof (cases "s = 0")
  case False
  then obtain v' s' where v: "v = Suc v'" "s = Suc s'" using assms(3) by (metis not0_implies_Suc)
  from assms(2) have "(v + 65534) mod 65535 = (s + 65534) mod 65535" by (rule mod_add_cong) simp
  then have "v' mod 65535 = s' mod 65535" unfolding v by simp
  moreover have "v' < 65535" using v assms(1) by simp
  ultimately show ?thesis using False v by (simp add: ones_value_def)
qed (use assms in \<open>simp add: ones_value_def\<close>)

lemma halves_mod: "halves m mod 65535 = unat m mod 65535"
proof -
  have "unat m = unat m mod 65536 + unat m div 65536 * 65535 + unat m div 65536"
    using mod_mult_div_eq [of "unat m" 65536] by simp
  then have "unat m mod 65535 = (halves m + unat m div 65536 * 65535) mod 65535" by (simp only: halves_def ac_simps)
  then show ?thesis by simp
qed

lemma halves_0 [simp]: "halves m = 0 \<longleftrightarrow> m = 0"
  using mod_mult_div_eq [of "unat m" 65536] by (auto simp: halves_def unat_eq_0)

lemma halves_le: "halves m \<le> 131070"
proof -
  have "unat m div 65536 < 65536" using unsigned_less [of m, where 'a = nat] by (intro less_mult_imp_div_less) simp
  moreover have "unat m mod 65536 < 65536" by simp
  ultimately show ?thesis unfolding halves_def by linarith
qed

section \<open>What the code computes\<close>

lemma end_around:
  fixes a m :: u32
  defines "a' \<equiv> if a + m < m then a + m + 1 else a + m"
  shows "unat a' mod 65535 = (unat a + unat m) mod 65535" "a' = 0 \<longleftrightarrow> a = 0 \<and> m = 0"
proof -
  note b = unsigned_less [of a, where 'a = nat] unsigned_less [of m, where 'a = nat]
  have a: "unat a' = (if unat a + unat m < 4294967296 then unat a + unat m else unat a + unat m - 4294967295)"
  proof (cases "unat a + unat m < 4294967296")
    case True
    then have "unat (a + m) = unat a + unat m" by (simp add: unat_word_ariths)
    then show ?thesis using True by (simp add: a'_def word_less_nat_alt)
  next
    case False
    then have "unat (a + m) = unat a + unat m - 4294967296" using b by (simp add: unat_word_ariths mod_if)
    moreover from this have "unat (a + m + 1) = unat a + unat m - 4294967295"
      using b False by (simp add: unat_word_ariths(1) [of "a + m"])
    ultimately show ?thesis using False b by (simp add: a'_def word_less_nat_alt)
  qed
  have over: "(unat a + unat m - 4294967295) mod 65535 = (unat a + unat m) mod 65535"
    if "\<not> unat a + unat m < 4294967296"
  proof -
    define d where "d = unat a + unat m - 4294967296"
    have d: "unat a + unat m = 4294967296 + d" using that unfolding d_def by linarith
    have "(4294967296 + d) mod 65535 = (4294967296 mod 65535 + d) mod 65535" by (rule mod_add_left_eq [symmetric])
    then show ?thesis unfolding d by simp
  qed
  show "unat a' mod 65535 = (unat a + unat m) mod 65535"
    by (cases "unat a + unat m < 4294967296") (simp_all only: a over if_True if_False simp_thms)
  have "unat a' = 0 \<longleftrightarrow> unat a = 0 \<and> unat m = 0"
    by (cases "unat a + unat m < 4294967296") (simp_all only: a if_True if_False, linarith+)
  then show "a' = 0 \<longleftrightarrow> a = 0 \<and> m = 0" by (simp only: unat_eq_0)
qed

lemma ipcksum_loop_value:
  assumes "ms \<noteq> []" "length ms < 2 ^ 32"
  shows "\<exists>acc'. ipcksum_loop (of_nat (length ms)) acc (ms @ rest) = Inr acc'
     \<and> unat acc' mod 65535 = (unat acc + half_sum ms) mod 65535 \<and> (acc' = 0 \<longleftrightarrow> acc = 0 \<and> half_sum ms = 0)"
  using assms
proof (induction ms arbitrary: acc)
  case (Cons m ms)
  define a where "a = (if acc + m < m then acc + m + 1 else acc + m)"
  note step = end_around [of acc m, folded a_def]
  have count: "of_nat (length (m # ms)) - 1 = (of_nat (length ms) :: u32)" by simp
  have zero: "(of_nat (length ms) :: u32) = 0 \<longleftrightarrow> ms = []"
    using Cons.prems(2) by (simp add: unat_of_nat flip: unat_eq_0)
  have sum: "(unat a + s) mod 65535 = (unat acc + (halves m + s)) mod 65535" for s
  proof -
    have "(unat a + s) mod 65535 = (unat acc + unat m + s) mod 65535" by (rule mod_add_cong [OF step(1) refl])
    also have "\<dots> = (unat m + (unat acc + s)) mod 65535" by (simp only: ac_simps)
    also have "\<dots> = (halves m + (unat acc + s)) mod 65535" by (rule mod_add_cong [OF halves_mod [symmetric] refl])
    finally show ?thesis by (simp only: ac_simps)
  qed
  have go: "ipcksum_loop (of_nat (length (m # ms))) acc ((m # ms) @ rest)
      = (if ms = [] then Inr a else ipcksum_loop (of_nat (length ms)) a (ms @ rest))"
    by (simp only: append_Cons ipcksum_loop.simps Let_def count zero a_def)
  show ?case
  proof (cases "ms = []")
    case True
    then show ?thesis using go step(2) sum [of 0] by simp
  next
    case False
    then obtain acc' where "ipcksum_loop (of_nat (length ms)) a (ms @ rest) = Inr acc'"
      "unat acc' mod 65535 = (unat a + half_sum ms) mod 65535" "acc' = 0 \<longleftrightarrow> a = 0 \<and> half_sum ms = 0"
      using Cons.IH [of a] Cons.prems(2) by auto
    then show ?thesis using False go step(2) sum by auto
  qed
qed simp

lemma ipcksum_loop_bounds:
  "n = 0 \<or> length ms < unat n \<Longrightarrow> length ms < 2 ^ 32 - 1 \<Longrightarrow> ipcksum_loop n acc ms = Inl OutOfBounds"
proof (induction n acc ms rule: ipcksum_loop.induct)
  case (2 n acc m ms)
  have "n \<noteq> 1" using 2(2) by auto
  have "length ms < unat (n - 1)"
  proof (cases "n = 0")
    case True
    then show ?thesis using 2(3) by (simp add: unsigned_minus_1_eq_mask mask_eq_exp_minus_1)
  next
    case False
    then have "unat (n - 1) = unat n - 1" by (simp add: unat_minus_one)
    then show ?thesis using False 2(2) by (simp add: unat_gt_0)
  qed
  then show ?case using 2 \<open>n \<noteq> 1\<close> by (simp add: Let_def)
qed simp

lemma fold_once: "65536 \<le> x \<Longrightarrow> x < 131071 \<Longrightarrow> (x + 1) mod 65536 = (x - 65535 :: nat)"
  by (simp add: mod_if)

lemma fold_mod: "\<not> x < 65536 \<Longrightarrow> (x - 65535) mod 65535 = (x mod 65535 :: nat)"
  by (simp add: le_mod_geq)

lemma unat_of_nat_word: "unat (w :: u32) = n \<Longrightarrow> w = of_nat n"
  by auto

lemma fold_value:
  "ipcksum_fold a = of_nat (if a = 0 then 0 else (unat a - 1) mod 65535 + 1) XOR 0xffff"
proof -
  let ?s = "unat a mod 65536 + unat a div 65536"
  let ?r = "(a AND 0xffff) + drop_bit 16 a"
  have s: "unat ?r = ?s" by (rule unat_fold)
  have h: "unat a mod 65536 < 65536" "unat a div 65536 < 65536"
    using unsigned_less [of a, where 'a = nat] by (simp_all add: less_mult_imp_div_less)
  define v where "v = (if ?s < 65536 then ?s else ?s - 65535)"
  have top: "?r AND 0xffff0000 = 0 \<longleftrightarrow> ?s < 65536" 
  proof -
    have "(0xffff0000 :: u32) = NOT 0xffff" by simp
    then show ?thesis by (simp only: fits_half s)
  qed
  have low: "(if ?r AND 0xffff0000 \<noteq> 0 then ?r + 1 else ?r) AND 0xffff = of_nat v"
  proof (cases "?s < 65536")
    case True
    then have "unat (?r AND 0xffff) = ?s" using s word_halves(1) [of ?r] by simp
    then have "?r AND 0xffff = of_nat ?s" by (rule unat_of_nat_word)
    then show ?thesis using True top by (simp add: v_def)
  next
    case False
    have "(?s + 1) mod 2 ^ LENGTH(32) = ?s + 1" 
    proof -
      have "2 ^ LENGTH(32) = (4294967296 :: nat)" by simp
      moreover have "?s + 1 < 4294967296" using h by linarith
      ultimately show ?thesis by (simp only: mod_less)
    qed
    then have "unat (?r + 1) = ?s + 1" by (simp only: unat_word_ariths(1) [of ?r 1] s unsigned_1)
    then have "unat ((?r + 1) AND 0xffff) = (?s + 1) mod 65536" using word_halves(1) [of "?r + 1"] by simp
    also have "\<dots> = ?s - 65535" using False h by (intro fold_once) linarith+
    also have "\<dots> = v" using False by (simp only: v_def if_False)
    finally have "(?r + 1) AND 0xffff = of_nat v" by (rule unat_of_nat_word)
    then show ?thesis using False top by simp
  qed
  have "v = (if unat a = 0 then 0 else (unat a - 1) mod 65535 + 1)"
  proof -
    have "v < 65536" using h unfolding v_def by (simp only: split: if_split) linarith
    moreover have "v mod 65535 = unat a mod 65535"
    proof -
      have "?s mod 65535 = unat a mod 65535" using halves_mod [of a] by (simp only: halves_def)
      moreover have "v mod 65535 = ?s mod 65535"
        by (cases "?s < 65536") (simp_all only: v_def fold_mod if_True if_False simp_thms)
      ultimately show ?thesis by simp
    qed
    moreover have "v = 0 \<longleftrightarrow> unat a = 0"
    proof -
      have "v = 0 \<longleftrightarrow> ?s = 0" unfolding v_def by (simp only: split: if_split) linarith
      then show ?thesis using halves_0 [of a] by (simp only: halves_def unat_eq_0)
    qed
    ultimately show ?thesis using ones_value_unique [of v "unat a"] by (simp add: ones_value_def)
  qed
  then show ?thesis using low by (simp add: ipcksum_fold_def Let_def unat_eq_0)
qed

lemma ones_value_props: "ones_value s < 65536" "ones_value s mod 65535 = s mod 65535" "ones_value s = 0 \<longleftrightarrow> s = 0"
proof -
  have "(s - 1) mod 65535 < 65535" by simp
  then show "ones_value s < 65536" unfolding ones_value_def by (simp only: split: if_split) linarith
  show "ones_value s = 0 \<longleftrightarrow> s = 0" by (simp add: ones_value_def)
  have "((s - 1) mod 65535 + 1) mod 65535 = (s - 1 + 1) mod 65535" by (rule mod_add_left_eq)
  then show "ones_value s mod 65535 = s mod 65535" by (cases "s = 0") (simp_all add: ones_value_def)
qed

lemma ones_value_cong: "s mod 65535 = t mod 65535 \<Longrightarrow> (s = 0 \<longleftrightarrow> t = 0) \<Longrightarrow> ones_value s = ones_value t"
  using ones_value_props by (intro ones_value_unique) simp_all

lemma ipcksum_value:
  assumes "ms \<noteq> []" "length ms < 2 ^ 32"
  shows "ipcksum (of_nat (length ms)) (ms @ rest) = Inr (of_nat (ones_value (half_sum ms)) XOR 0xffff)"
proof -
  obtain a where a: "ipcksum_loop (of_nat (length ms)) 0 (ms @ rest) = Inr a" "unat a mod 65535 = half_sum ms mod 65535"
    "a = 0 \<longleftrightarrow> half_sum ms = 0"
    using ipcksum_loop_value [OF assms, of 0 rest] by auto
  have "ones_value (unat a) = ones_value (half_sum ms)" using a(2,3) by (intro ones_value_cong) (simp_all add: unat_eq_0)
  moreover have "ipcksum_fold a = of_nat (ones_value (unat a)) XOR 0xffff"
    by (simp only: fold_value ones_value_def unat_eq_0)
  ultimately show ?thesis using a(1) by (simp add: ipcksum_def)
qed

lemma ipcksum_out_of_bounds:
  "n = 0 \<or> length ms < unat n \<Longrightarrow> length ms < 2 ^ 32 - 1 \<Longrightarrow> ipcksum n ms = Inl OutOfBounds"
  by (simp add: ipcksum_def ipcksum_loop_bounds)

lemma ipcksum_sum_value:
  "unat acc + half_sum ms < 2 ^ 32 \<Longrightarrow> \<exists>c. ipcksum_sum (length ms) acc (ms @ rest) = Inr c \<and> unat c = unat acc + half_sum ms"
proof (induction ms arbitrary: acc)
  case (Cons m ms)
  have "unat (acc + ((m AND 0xffff) + drop_bit 16 m)) = unat acc + halves m"
    using Cons.prems unat_fold [of m] by (simp add: unat_word_ariths(1) [of acc] halves_def)
  then have "unat (acc + (m AND 0xffff) + drop_bit 16 m) = unat acc + halves m" by (simp only: add.assoc)
  then show ?case using Cons.IH [of "acc + (m AND 0xffff) + drop_bit 16 m"] Cons.prems by (simp add: add.assoc)
qed simp

lemma ipcksum_refold_value: "ipcksum_refold c = of_nat (ones_value (unat c))"
proof (induction c rule: ipcksum_refold.induct)
  case (1 c)
  show ?case
  proof (cases "c AND NOT 0xffff = 0")
    case True
    then have "ones_value (unat c) = unat c" using ones_value_unique [of "unat c" "unat c"] fits_half by simp
    then show ?thesis using True by (simp add: ipcksum_refold.simps [of c])
  next
    case False
    have "ones_value (unat ((c AND 0xffff) + drop_bit 16 c)) = ones_value (unat c)"
      unfolding unat_fold using halves_mod [of c] halves_0 [of c]
      by (intro ones_value_cong) (simp_all only: halves_def unat_eq_0)
    then show ?thesis using False 1 by (simp add: ipcksum_refold.simps [of c])
  qed
qed

lemma half_sum_le: "half_sum ms \<le> length ms * 131070"
  by (induction ms) (use halves_le in \<open>auto intro: add_mono\<close>)

section \<open>The theorems\<close>

text \<open>C24: the assembly and the C version of the checksum agree on every packet of one to 32768 words, although one
  adds whole words with an end-around carry and folds once, and the other adds half words and folds in a loop.\<close>

theorem ipcksum_equiv:
  assumes "ms \<noteq> []" "length ms \<le> 32768"
  shows "ipcksum (of_nat (length ms)) (ms @ rest) = ipcksum_c (int (length ms)) (ms @ rest)"
proof -
  have "half_sum ms < 2 ^ 32" using half_sum_le [of ms] assms(2) by simp
  then obtain c where "ipcksum_sum (length ms) 0 (ms @ rest) = Inr c" "unat c = half_sum ms"
    using ipcksum_sum_value [of 0 ms rest] by auto
  then have "ipcksum_c (int (length ms)) (ms @ rest) = Inr (of_nat (ones_value (half_sum ms)) XOR 0xffff)"
    by (simp add: ipcksum_c_def ipcksum_refold_value)
  then show ?thesis using ipcksum_value [OF assms(1), of rest] assms(2) by simp
qed

lemma ipcksum_equiv_witness:
  "ipcksum 5 [0x4500001c, 0x1c460000, 0x80010000, 0xc0a80f16, 0xc0a80f01] = ipcksum_c 5 [0x4500001c, 0x1c460000, 0x80010000, 0xc0a80f16, 0xc0a80f01]"
  using ipcksum_equiv [of "[0x4500001c, 0x1c460000, 0x80010000, 0xc0a80f16, 0xc0a80f01]" "[]"] by simp

lemma half_sum_update:
  "k < length ms \<Longrightarrow> half_sum (ms[k := w]) + halves (ms ! k) = half_sum ms + halves w"
  by (induction ms arbitrary: k) (auto split: nat.splits)

lemma halves_or:
  assumes "w AND 0xffff = 0" "c AND NOT 0xffff = 0"
  shows "halves (w OR c) = halves w + halves c"
proof -
  have c: "unat c < 65536" using assms(2) fits_half by blast
  then have "unat (drop_bit 16 c) = 0" by (simp only: word_halves div_less)
  then have "drop_bit 16 c = 0" by (simp only: unat_eq_0)
  then have "drop_bit 16 (w OR c) = drop_bit 16 w" by (simp add: drop_bit_or)
  moreover have "(w OR c) AND 0xffff = c AND 0xffff" using assms(1) by (simp add: bit.conj_disj_distrib2)
  moreover have "unat w mod 65536 = 0" using assms(1) by (simp only: word_halves(1) [symmetric] unsigned_0)
  moreover have "unat c div 65536 = 0" using c by simp
  ultimately show ?thesis by (simp add: halves_def flip: word_halves)
qed

lemma unat_complement:
  assumes "v < 65536"
  shows "unat (of_nat v XOR 0xffff :: u32) = 65535 - v"
proof -
  let ?v = "of_nat v :: u32"
  have m: "(0xffff :: u32) = mask 16" by (simp add: mask_eq_exp_minus_1)
  have v: "unat ?v = v" using assms by (simp add: unat_of_nat)
  then have z: "?v AND NOT (mask 16) = 0" using fits_half [of ?v] assms unfolding m by simp
  have low: "bit ?v n \<Longrightarrow> n < 16" for n
  proof -
    assume b: "bit ?v n"
    then have "n < 32" using bit_imp_le_length [of ?v n] by simp
    moreover have "\<not> bit (?v AND NOT (mask 16)) n" unfolding z by simp
    ultimately show "n < 16" using b by (simp only: bit_and_iff bit_not_iff bit_mask_iff) simp
  qed
  have "?v AND (?v XOR mask 16) = 0" by (rule bit_word_eqI) (auto simp: bit_and_iff bit_xor_iff bit_mask_iff dest: low)
  moreover have "?v OR (?v XOR mask 16) = mask 16"
    by (rule bit_word_eqI) (auto simp: bit_or_iff bit_xor_iff bit_mask_iff dest: low)
  ultimately have "?v + (?v XOR mask 16) = mask 16" by (simp only: disjunctive_add_eq_or)
  then have "?v XOR 0xffff = 0xffff - ?v" unfolding m by (simp add: eq_diff_eq add.commute)
  moreover have "?v \<le> 0xffff" using v assms by (simp add: word_le_nat_alt)
  ultimately show ?thesis using v by (simp add: unat_sub)
qed

lemma ipcksum_half:
  assumes "ipcksum (of_nat (length ms)) (ms @ rest) = Inr c" "ms \<noteq> []" "length ms < 2 ^ 32"
  shows "c AND NOT 0xffff = 0"
proof -
  have "c = of_nat (ones_value (half_sum ms)) XOR 0xffff" using assms(1) ipcksum_value [OF assms(2,3)] by simp
  then have "unat c = 65535 - ones_value (half_sum ms)" using unat_complement ones_value_props(1) by simp
  then show ?thesis unfolding fits_half by linarith
qed

lemma checksum_stored:
  assumes "length ms < 2 ^ 32" "k < length ms" "ms ! k AND 0xffff = 0" "ipcksum (of_nat (length ms)) (ms @ rest) = Inr c"
  shows "ipcksum (of_nat (length ms)) (ms[k := ms ! k OR c] @ rest') = Inr 0"
proof -
  let ?v = "ones_value (half_sum ms)" and ?ms = "ms[k := ms ! k OR c]"
  have ne: "ms \<noteq> []" using assms(2) by auto
  have c: "c = of_nat ?v XOR 0xffff" using assms(4) ipcksum_value [OF ne assms(1)] by simp
  then have uc: "unat c = 65535 - ?v" using unat_complement ones_value_props(1) by simp
  then have small: "c AND NOT 0xffff = 0" unfolding fits_half by linarith
  have "halves c = 65535 - ?v" using uc by (simp add: halves_def)
  moreover have "half_sum ?ms + halves (ms ! k) = half_sum ms + (halves (ms ! k) + halves c)"
    using half_sum_update [OF assms(2), of "ms ! k OR c"] halves_or [OF assms(3) small] by simp
  ultimately have sum: "half_sum ?ms = half_sum ms + (65535 - ?v)" by simp
  have "half_sum ?ms mod 65535 = 0"
  proof -
    have "(half_sum ms + (65535 - ?v)) mod 65535 = (?v + (65535 - ?v)) mod 65535"
      using ones_value_props(2) by (intro mod_add_cong) simp_all
    also have "?v + (65535 - ?v) = 65535" using ones_value_props(1) [of "half_sum ms"] by simp
    finally show ?thesis unfolding sum by simp
  qed
  moreover have "half_sum ?ms \<noteq> 0"
    using sum ones_value_props(3) [of "half_sum ms"] by (cases "half_sum ms = 0") simp_all
  ultimately have "ones_value (half_sum ?ms) = 65535" by (intro ones_value_unique [symmetric]) simp_all
  then show ?thesis using ipcksum_value [of ?ms rest'] ne assms(1) by simp
qed

text \<open>C25: a packet into which its checksum is stored, in the low half of a word that had it clear, passes the test of
  a receiver: the checksum of the whole is then zero.\<close>

theorem ipcksum_verifies:
  assumes "length ms < 2 ^ 32" "k < length ms" "ms ! k AND 0xffff = 0" "ipcksum (of_nat (length ms)) ms = Inr c"
  shows "ipcksum (of_nat (length ms)) (ms[k := ms ! k OR c]) = Inr 0"
  using checksum_stored [OF assms(1,2,3), of "[]" c "[]"] assms(4) by simp

lemma ipcksum_verifies_witness:
  "ipcksum 5 [0x4500001c, 0x1c460000, 0x80017f33, 0xc0a80f16, 0xc0a80f01] = Inr 0"
proof -
  let ?ms = "[0x4500001c, 0x1c460000, 0x80010000, 0xc0a80f16, 0xc0a80f01]"
  have "ipcksum (of_nat (length ?ms)) ?ms = Inr 0x7f33" by (simp add: ipcksum_def ipcksum_fold_def Let_def)
  from ipcksum_verifies [OF _ _ _ this, of 2] show ?thesis by simp
qed

end
