(* ===== verification/Ping.thy ===== *)
theory Ping
  imports Arp IpCksum
begin

text \<open>
  The packet handling of the board's ping program, \<open>sw/board/simple_ping.c\<close>: what the user task does with a
  received packet, the reply to an echo request, the ping it sends, and the supervisor's answer to the system
  call that sends a packet.  Device registers that are read are arguments; the ones that are written are
  recorded in order.  The waiting loops around these operations and the setup of interrupts are left out.
\<close>

section \<open>State\<close>

datatype device = SPIO | CLRLED nat | NET_RXCMD | NET_TXCMD | ZIP_PIC

definition ENET_RXCLR :: u32 where "ENET_RXCLR = 0x004000"
definition ENET_RXBROADCAST :: u32 where "ENET_RXBROADCAST = 0x080000"
definition ENET_RXCLRERR :: u32 where "ENET_RXCLRERR = 0x078000"
definition ENET_TXCMD :: "u32 \<Rightarrow> u32" where "ENET_TXCMD ln = ln OR 0x004000"
definition BIG_PRIME :: u32 where "BIG_PRIME = 0x0134513b"
definition LED_TXACTIVE :: u32 where "LED_TXACTIVE = 0x0101"
definition LED_RXCLEAR :: u32 where "LED_RXCLEAR = 0x0200"
definition LED_RXPINGACK :: u32 where "LED_RXPINGACK = 0"
definition LED_RXPINGRX :: u32 where "LED_RXPINGRX = 0"
definition LEDC_GREEN :: u32 where "LEDC_GREEN = 0x0000700"
definition LEDC_YELLOW :: u32 where "LEDC_YELLOW = 0x0070700"
definition EINT_ENET :: u32 where "EINT_ENET = 0x80008000 OR push_bit 16 0x300"

record ping =
  net :: arp
  rxpkt :: "u32 list"
  netbtx :: "u32 list"
  pkts_received :: u32
  arp_requests_received :: u32
  arp_pkt_count :: u32
  arp_pkt_invalid :: u32
  ip_pkts_received :: u32
  ip_pkts_invalid :: u32
  icmp_echo_requests :: u32
  icmp_invalid :: u32
  ping_reply_address_not_found :: u32
  ping_replies_sent :: u32
  ping_reply_err :: u32
  user_tx_packets :: u32
  ping_mac_addr :: u64
  ping_ip_addr :: u32
  ping_tx_count :: u32
  ping_rx_count :: u32
  pkt_id :: u32
  io :: "(device \<times> u32) list"

definition ping_boot :: ping where
  "ping_boot = \<lparr>net = arp_boot, rxpkt = replicate 2048 0, netbtx = replicate 512 0, pkts_received = 0,
     arp_requests_received = 0, arp_pkt_count = 0, arp_pkt_invalid = 0, ip_pkts_received = 0, ip_pkts_invalid = 0,
     icmp_echo_requests = 0, icmp_invalid = 0, ping_reply_address_not_found = 0, ping_replies_sent = 0,
     ping_reply_err = 0, user_tx_packets = 0, ping_mac_addr = 0, ping_ip_addr = IPADDR 192 168 15 1,
     ping_tx_count = 0, ping_rx_count = 0, pkt_id = 0, io = []\<rparr>"

definition out :: "device \<Rightarrow> u32 \<Rightarrow> ping \<Rightarrow> ping" where
  "out d v s = s\<lparr>io := io s @ [(d, v)]\<rparr>"

section \<open>The reply to an echo request\<close>

text \<open>The packet before its last word is trimmed and its checksums are filled in.\<close>

definition reply_words :: "u64 \<Rightarrow> u32 \<Rightarrow> u32 list \<Rightarrow> nat \<Rightarrow> u32 list \<Rightarrow> u32 list" where
  "reply_words hwaddr i icmp pktlnw pkt =
     (let pkt = pkt[0 := ucast (drop_bit 16 hwaddr), 1 := ucast (push_bit 16 hwaddr) OR ETHERTYPE_IP,
            2 := icmp ! 0 AND 0xff00ffff, 3 := push_bit 16 (i AND 0xffff), 4 := 0xff010000, 5 := icmp ! 4, 6 := icmp ! 3];
          pkt = fold (\<lambda>k pkt. pkt[k := icmp ! (k - 2)]) [7..<pktlnw] pkt
      in pkt[7 := 0])"

definition trim_last :: "nat \<Rightarrow> nat \<Rightarrow> u32 list \<Rightarrow> u32 list" where
  "trim_last pktln pktlnw pkt =
     (if pktln mod 4 \<noteq> 0
      then pkt[pktlnw - 1 := pkt ! (pktlnw - 1) AND NOT (push_bit ((4 - pktln mod 4) * 8) 1 - 1)]
      else pkt)"

definition reply_checksums :: "nat \<Rightarrow> u32 list \<Rightarrow> fault + u32 list" where
  "reply_checksums pktlnw pkt =
     rbind (ipcksum 5 (drop 2 pkt)) (\<lambda>c.
     let pkt = pkt[4 := pkt ! 4 OR c]; pkt = pkt[7 := pkt ! 7 AND 0xffff0000]
     in rbind (ipcksum (of_int (int pktlnw - 7)) (drop 7 pkt)) (\<lambda>c. Inr (pkt[7 := pkt ! 7 OR c])))"

text \<open>
  \<open>n_rxcmd\<close> and \<open>subseconds\<close> are the registers read, \<open>stack\<close> what the packet's 2048 words hold before.
\<close>

definition uping_reply :: "u32 \<Rightarrow> u32 \<Rightarrow> u32 list \<Rightarrow> u32 \<Rightarrow> u32 list \<Rightarrow> ping \<Rightarrow> fault + ping" where
  "uping_reply n_rxcmd subseconds stack ipaddr icmp s =
     (let maxsz = min (2 ^ unat (drop_bit 24 n_rxcmd AND 0xf)) 2048;
          pktln = unat (icmp ! 0 AND 0xffff) + 8; pktlnw = (pktln + 3) div 4;
          (r, a) = arp_lookup ipaddr (net s); s = s\<lparr>net := a\<rparr>
      in case r of
        None \<Rightarrow> Inr (s\<lparr>ping_reply_address_not_found := ping_reply_address_not_found s + 1\<rparr>)
      | Some hwaddr \<Rightarrow>
          if pktlnw < maxsz \<and> drop_bit 24 (icmp ! 0) = 0x45
          then in_bounds (5 \<le> length icmp \<and> pktlnw \<le> length icmp + 2)
            (rbind (reply_checksums pktlnw (trim_last pktln pktlnw (reply_words hwaddr (pkt_id s + subseconds) icmp pktlnw stack)))
               (\<lambda>pkt. Inr (s\<lparr>ping_replies_sent := ping_replies_sent s + 1,
                  net := SENDPKT (take pktlnw pkt) (of_nat pktln) (net s)\<rparr>)))
          else Inr (s\<lparr>ping_reply_err := ping_reply_err s + 1\<rparr>))"

section \<open>A received packet\<close>

record ping_env =
  v_netbrx :: "u32 list"
  v_rxcmd :: u32
  v_rxcmd_after :: u32
  v_subseconds :: u32
  v_stack :: "u32 list"
  v_eid :: int

text \<open>Lookups once a second: the address to ping, then the router.\<close>

definition user_poll :: "ping \<Rightarrow> ping" where
  "user_poll s =
     (case arp_lookup (ping_ip_addr s) (net s) of
        (Some m, a) \<Rightarrow> s\<lparr>ping_mac_addr := m, net := snd (arp_lookup (my_ip_router a) a)\<rparr>
      | (None, a) \<Rightarrow> s\<lparr>net := a\<rparr>)"

definition user_take :: "ping_env \<Rightarrow> ping \<Rightarrow> fault + ping" where
  "user_take v s =
     (let n = (unat (v_rxcmd v AND 0x7ff) + 3) div 4
      in in_bounds (n \<le> length (v_netbrx v))
           (Inr (out SPIO LED_RXCLEAR (out NET_RXCMD (ENET_RXCLR OR ENET_RXCLRERR)
             (s\<lparr>rxpkt := take n (v_netbrx v) @ drop n (rxpkt s), pkts_received := pkts_received s + 1\<rparr>)))))"

definition user_ip :: "ping_env \<Rightarrow> ping \<Rightarrow> fault + ping" where
  "user_ip v s =
     (let ip = drop 2 (rxpkt s);
          invalid = (if drop_bit 28 (ip ! 0) AND 15 \<noteq> 4 then 1 else if ip ! 1 AND 0xbfff \<noteq> 0 then 1
                     else if ip ! 4 \<noteq> my_ip_addr (net s) then 1 else 0);
          s = s\<lparr>ip_pkts_received := ip_pkts_received s + (invalid XOR 1), ip_pkts_invalid := ip_pkts_invalid s + invalid\<rparr>
      in if invalid = 0 \<and> drop_bit 16 (ip ! 2) AND 0xff = 1
         then (let icmp_type = drop_bit 24 (ip ! unat (drop_bit 24 (ip ! 0) AND 0xf))
               in if icmp_type = 0
                  then Inr ((out SPIO LED_RXPINGACK (out (CLRLED 3) LEDC_GREEN s))\<lparr>ping_rx_count := ping_rx_count s + 1\<rparr>)
                  else if icmp_type = 8
                  then rbind (uping_reply (v_rxcmd_after v) (v_subseconds v) (v_stack v) (ip ! 3) ip s) (\<lambda>s.
                       Inr (out SPIO LED_RXPINGRX (s\<lparr>icmp_echo_requests := icmp_echo_requests s + 1\<rparr>)))
                  else Inr (s\<lparr>icmp_invalid := icmp_invalid s + 1\<rparr>))
         else Inr s)"

definition user_arp :: "ping_env \<Rightarrow> ping \<Rightarrow> fault + ping" where
  "user_arp v s =
     (let p = drop 2 (rxpkt s); s = s\<lparr>arp_pkt_count := arp_pkt_count s + 1\<rparr>; rxcmd = v_rxcmd v;
          sip = push_bit 16 (p ! 3) OR drop_bit 16 (p ! 4)
      in if p ! 0 \<noteq> 0x010800 then Inr (s\<lparr>arp_pkt_invalid := arp_pkt_invalid s + 1\<rparr>)
         else if p ! 1 = 0x06040001 \<and> rxcmd AND ENET_RXBROADCAST \<noteq> 0 \<and> p ! 6 = my_ip_addr (net s)
         then Inr (s\<lparr>arp_requests_received := arp_requests_received s + 1,
                net := send_arp_reply (drop_bit 16 (p ! 2)) (drop_bit 16 (p ! 3) OR push_bit 16 (p ! 2)) sip (net s)\<rparr>)
         else if p ! 1 = 0x06040002 \<and> rxcmd AND ENET_RXBROADCAST = 0 \<and> p ! 6 = my_ip_addr (net s)
         then (let sha = drop_bit 16 (push_bit 32 (ucast (p ! 2)) OR ucast (p ! 3)) :: u64;
                   s = (if sip = ping_ip_addr s then s\<lparr>ping_mac_addr := sha\<rparr> else s)
               in rbind (arp_table_add (v_eid v) sip sha (net s)) (\<lambda>a. Inr (s\<lparr>net := a\<rparr>)))
         else Inr s)"

definition user_receive :: "ping_env \<Rightarrow> ping \<Rightarrow> fault + ping" where
  "user_receive v s =
     (let etype = v_netbrx v ! 1 AND 0xffff
      in rbind (user_take v s) (\<lambda>s.
         if etype = ETHERTYPE_IP then user_ip v s
         else if etype = ETHERTYPE_ARP then user_arp v s
         else Inr s))"

section \<open>Sending\<close>

definition send_ping :: "ping \<Rightarrow> fault + ping" where
  "send_ping s =
     (if ping_mac_addr s = 0 then Inr (out (CLRLED 1) LEDC_YELLOW s)
      else (let i1 = pkt_id s + BIG_PRIME; i2 = i1 + BIG_PRIME;
                pkt = (netbtx s)[0 := ucast (drop_bit 16 (ping_mac_addr s)),
                  1 := ucast (push_bit 16 (ping_mac_addr s)) OR ETHERTYPE_IP, 2 := 0x4500001c, 3 := push_bit 16 (i1 AND 0xffff),
                  4 := 0x80010000, 5 := my_ip_addr (net s), 6 := ping_ip_addr s, 7 := 0x08000000, 8 := i2 + BIG_PRIME]
            in rbind (ipcksum 5 (drop 2 pkt)) (\<lambda>c.
               let pkt = pkt[4 := pkt ! 4 OR c]; pkt = pkt[7 := pkt ! 7 AND 0xffff0000]
               in rbind (ipcksum 2 (drop 7 pkt)) (\<lambda>c.
                  let pkt = pkt[7 := pkt ! 7 OR c]
                  in Inr (out NET_TXCMD (ENET_TXCMD (9 * 4)) (out SPIO LED_TXACTIVE
                       (s\<lparr>netbtx := pkt, pkt_id := i2, ping_tx_count := ping_tx_count s + 1\<rparr>)))))))"

text \<open>The supervisor hands packets of less than 1400 bytes to the network and drops the others.\<close>

definition trap_sendpkt :: "u32 list \<Rightarrow> u32 \<Rightarrow> ping \<Rightarrow> fault + ping" where
  "trap_sendpkt sptr ln s =
     (if ln < 1400
      then (let n = unat (drop_bit 2 (ln + 3))
            in in_bounds (n \<le> length sptr)
                 (Inr (out ZIP_PIC EINT_ENET (out NET_TXCMD (ENET_TXCMD ln) (out SPIO LED_TXACTIVE
                   (s\<lparr>netbtx := take n sptr @ drop n (netbtx s), user_tx_packets := user_tx_packets s + 1\<rparr>))))))
      else Inr s)"

end
