(* ===== verification/PingProps.thy ===== *)
theory PingProps
  imports Ping
begin

text \<open>
  What the ping program sends: an echo request is answered by an echo reply whose two checksums verify, an
  ARP request by an ARP reply; its own pings verify; and a request that is too short stops it.
\<close>

section \<open>A packet as bytes and fields\<close>

definition byte_of :: "u32 list \<Rightarrow> nat \<Rightarrow> u32" where
  "byte_of w i = drop_bit (24 - 8 * (i mod 4)) (w ! (i div 4)) AND 0xff"

definition sender_mac :: "u32 list \<Rightarrow> u64" where
  "sender_mac w = push_bit 16 (ucast (w ! 4)) OR ucast (drop_bit 16 (w ! 5))"
definition sender_ip :: "u32 list \<Rightarrow> u32" where
  "sender_ip w = push_bit 16 (w ! 5) OR drop_bit 16 (w ! 6)"
definition target_mac :: "u32 list \<Rightarrow> u64" where
  "target_mac w = push_bit 32 (ucast (w ! 6 AND 0xffff)) OR ucast (w ! 7)"
definition target_ip :: "u32 list \<Rightarrow> u32" where
  "target_ip w = w ! 8"
definition packet_to :: "u32 list \<Rightarrow> u64" where
  "packet_to w = push_bit 16 (ucast (w ! 0)) OR ucast (drop_bit 16 (w ! 1))"

text \<open>An echo request for the address \<open>me\<close>, of \<open>len\<close> bytes by its own header, in what the network delivers.\<close>

definition echo_request :: "u32 \<Rightarrow> nat \<Rightarrow> ping_env \<Rightarrow> bool" where
  "echo_request me len v \<longleftrightarrow> (let rx = v_netbrx v; ln = unat (v_rxcmd v AND 0x7ff) in
     rx ! 1 AND 0xffff = ETHERTYPE_IP \<and> drop_bit 24 (rx ! 2) = 0x45 \<and> unat (rx ! 2 AND 0xffff) = len
     \<and> rx ! 3 AND 0xbfff = 0 \<and> drop_bit 16 (rx ! 4) AND 0xff = 1 \<and> rx ! 6 = me \<and> drop_bit 24 (rx ! 7) = 8
     \<and> len + 8 \<le> ln \<and> 32 \<le> ln \<and> (ln + 3) div 4 \<le> length rx)"

definition echo_reply :: "u64 \<Rightarrow> nat \<Rightarrow> u32 list \<Rightarrow> u32 list \<Rightarrow> bool" where
  "echo_reply hwaddr len rx w \<longleftrightarrow> length w = (len + 11) div 4
     \<and> packet_to w = take_bit 48 hwaddr \<and> w ! 1 AND 0xffff = ETHERTYPE_IP
     \<and> drop_bit 24 (w ! 2) = 0x45 \<and> unat (w ! 2 AND 0xffff) = len
     \<and> w ! 3 AND 0xffff = 0 \<and> w ! 5 = rx ! 6 \<and> w ! 6 = rx ! 5 \<and> drop_bit 16 (w ! 4) = 0xff01 \<and> drop_bit 16 (w ! 7) = 0
     \<and> (\<forall>i \<in> {32..<len + 8}. byte_of w i = byte_of rx i)
     \<and> ipcksum 5 (drop 2 w) = Inr 0 \<and> ipcksum (of_nat (length w - 7)) (drop 7 w) = Inr 0"

section \<open>The reply\<close>

lemma fold_update:
  "length (fold (\<lambda>k p. p[k := f k]) ks p) = length p"
  "j < length p \<Longrightarrow> fold (\<lambda>k p. p[k := f k]) ks p ! j = (if j \<in> set ks then f j else p ! j)"
  by (induction ks arbitrary: p) (auto simp: nth_list_update)

lemma reply_words_nth:
  assumes "length stack = 2048" "9 \<le> n" "n < 2048"
  shows "length (reply_words hw i icmp n stack) = 2048"
    "\<And>j. j < 2048 \<Longrightarrow> reply_words hw i icmp n stack ! j
       = (if j = 7 then 0 else if 8 \<le> j \<and> j < n then icmp ! (j - 2) else
          stack[0 := ucast (drop_bit 16 hw), 1 := ucast (push_bit 16 hw) OR ETHERTYPE_IP,
            2 := icmp ! 0 AND 0xff00ffff, 3 := push_bit 16 (i AND 0xffff), 4 := 0xff010000, 5 := icmp ! 4, 6 := icmp ! 3] ! j)"
  using assms by (auto simp: reply_words_def Let_def fold_update nth_list_update)

lemma reply_checksums_ok:
  assumes "n \<le> length p" "8 \<le> n" "n \<le> 2048" "p ! 4 AND 0xffff = 0" "p ! 7 AND 0xffff = 0"
  obtains c4 c7 where "reply_checksums n p = Inr (p[4 := p ! 4 OR c4, 7 := p ! 7 OR c7])" "c4 AND NOT 0xffff = 0" "c7 AND NOT 0xffff = 0"
    "ipcksum 5 (drop 2 (take n (p[4 := p ! 4 OR c4, 7 := p ! 7 OR c7]))) = Inr 0"
    "ipcksum (of_nat (n - 7)) (drop 7 (take n (p[4 := p ! 4 OR c4, 7 := p ! 7 OR c7]))) = Inr 0"
proof -
  have high: "x AND 0xffff0000 = x" if "x AND 0xffff = 0" for x :: u32
  proof -
    have "x = (x AND 0xffff) OR (x AND NOT 0xffff)" by (simp only: bit.conj_disj_distrib [symmetric]) simp
    then have "x AND NOT 0xffff = x" using that by (simp del: bit.double_compl)
    moreover have "(0xffff0000 :: u32) = NOT 0xffff" by simp
    ultimately show ?thesis by (simp only:)
  qed
  let ?ms = "take 5 (drop 2 p)" and ?is = "take (n - 7) (drop 7 p)"
  have len: "length ?ms = 5" "length ?is = n - 7" using assms(1,2) by simp_all
  have some: "?ms \<noteq> []" "?is \<noteq> []" "length ?ms < 2 ^ 32" "length ?is < 2 ^ 32" using len assms(2,3) by auto
  obtain c4 where "ipcksum (of_nat 5) (drop 2 p) = Inr c4"
    using ipcksum_value [OF some(1,3), of "drop 5 (drop 2 p)"] unfolding append_take_drop_id len(1) by blast
  then have c4: "ipcksum 5 (drop 2 p) = Inr c4" by simp
  obtain c7 where c7: "ipcksum (of_nat (n - 7)) (drop 7 p) = Inr c7"
    using ipcksum_value [OF some(2,4), of "drop (n - 7) (drop 7 p)"] unfolding append_take_drop_id len(2) by blast
  let ?q = "p[4 := p ! 4 OR c4, 7 := p ! 7 OR c7]"
  have n7: "of_nat (n - 7) = (of_nat n - 7 :: u32)" using assms(2) by (simp add: of_nat_diff)
  have same: "drop 7 (p[4 := x, 7 := p ! 7]) = drop 7 p" "p[4 := x, 7 := p ! 7] ! 7 = p ! 7" for x
    using assms(1,2) by (auto intro!: nth_equalityI simp: nth_list_update)
  have run: "reply_checksums n p = Inr ?q"
    using c4 c7 [unfolded n7] high [OF assms(5)] assms(1) by (simp add: reply_checksums_def Let_def same)
  have s4: "ipcksum (of_nat (length ?ms)) (?ms @ drop 5 (drop 2 p)) = Inr c4"
    by (simp only: append_take_drop_id len(1) of_nat_numeral c4)
  have s7: "ipcksum (of_nat (length ?is)) (?is @ drop (n - 7) (drop 7 p)) = Inr c7"
    by (simp only: append_take_drop_id len(2) c7)
  have "drop 2 (take n ?q) = ?ms[2 := ?ms ! 2 OR c4] @ drop 7 (take n ?q)"
    using assms(1-3) by (intro nth_equalityI) (auto simp: nth_append nth_list_update)
  then have v4: "ipcksum 5 (drop 2 (take n ?q)) = Inr 0"
    using checksum_stored [OF _ _ _ s4, of 2 "drop 7 (take n ?q)"] len(1) assms(1,4) by simp
  have "drop 7 (take n ?q) = ?is[0 := ?is ! 0 OR c7] @ []"
    using assms(1-3) by (intro nth_equalityI) (auto simp: nth_list_update)
  then have v7: "ipcksum (of_nat (n - 7)) (drop 7 (take n ?q)) = Inr 0"
    using checksum_stored [OF _ _ _ s7, of 0 "[]"] len(2) assms(1-3,5) by simp
  show thesis using that [OF run _ _ v4 v7] ipcksum_half [OF s4 some(1,3)] ipcksum_half [OF s7 some(2,4)] by blast
qed

lemma trim_last_nth:
  assumes "length p = 2048" "9 \<le> n" "n < 2048"
  shows "length (trim_last m n p) = 2048" "j < 8 \<Longrightarrow> trim_last m n p ! j = p ! j"
  using assms by (simp_all add: trim_last_def)

lemma word_index:
  "32 \<le> k \<Longrightarrow> k < len + 8 \<Longrightarrow> n = (len + 11) div 4 \<Longrightarrow> 8 \<le> k div 4 \<and> k div 4 < (n :: nat)"
  by linarith

text \<open>Trimming the last word keeps the bytes of the packet.\<close>

lemma trim_last_byte:
  assumes "length p = 2048" "n = (m + 3) div 4" "n < 2048" "i < m"
  shows "byte_of (trim_last m n p) i = byte_of p i"
proof (cases "m mod 4 \<noteq> 0 \<and> i div 4 = n - 1")
  case True
  define k where "k = m mod 4"
  have k: "0 < k" "k < 4" "m = 4 * (m div 4) + k" using True by (simp_all add: k_def)
  have n: "n = m div 4 + 1"
  proof -
    have "(4 * q + k + 3) div 4 = q + 1" for q using k(1,2) by presburger
    then show ?thesis using assms(2) k(3) by metis
  qed
  have i2: "i div 4 = m div 4" using True n by simp
  have i1: "i mod 4 < k"
    using i2 assms(4) unfolding k_def by (metis div_mult_mod_eq nat_add_left_cancel_less)
  note i = i1 i2
  define d where "d = 8 * (k - i mod 4 - 1)"
  define b where "b = (4 - k) * 8"
  have db: "24 - 8 * (i mod 4) = b + d" using i(1) k(2) by (simp add: d_def b_def)
  have "drop_bit (b + d) (x AND NOT (push_bit b 1 - 1)) = drop_bit (b + d) x" for x :: u32
  proof (rule bit_word_eqI)
    fix j
    have m: "push_bit b 1 - 1 = (mask b :: u32)" by (simp add: mask_eq_exp_minus_1 push_bit_of_1)
    show "bit (drop_bit (b + d) (x AND NOT (push_bit b 1 - 1))) j = bit (drop_bit (b + d) x) j"
      unfolding m by (auto simp: bit_drop_bit_eq bit_and_iff bit_not_iff bit_mask_iff dest: bit_imp_le_length)
  qed
  then show ?thesis using True assms(1,3) n i(2) by (simp add: byte_of_def trim_last_def db b_def k_def)
next
  case False
  then have "n - 1 \<noteq> i div 4 \<or> m mod 4 = 0" by auto
  then show ?thesis using assms(1,3) by (auto simp: byte_of_def trim_last_def nth_list_update)
qed

lemma packet_to_word:
  assumes "w ! 0 = ucast (drop_bit 16 hw)" "drop_bit 16 (w ! 1) = drop_bit 16 (ucast (push_bit 16 hw) OR c)" "c AND NOT 0xffff = 0"
  shows "packet_to w = take_bit 48 (hw :: u64)"
proof -
  have "unat c < 65536" using assms(3) fits_half by blast
  then have "unat (drop_bit 16 c) = 0" by (simp only: word_halves div_less)
  then have "drop_bit 16 c = 0" by (simp only: unat_eq_0)
  then have "drop_bit 16 (w ! 1) = drop_bit 16 (ucast (push_bit 16 hw))" using assms(2) by (simp add: drop_bit_or)
  then show ?thesis unfolding packet_to_def assms(1)
    by (intro bit_word_eqI) (auto simp: bit_simps)
qed

lemma high_or:
  assumes "c AND NOT 0xffff = (0 :: u32)"
  shows "drop_bit 16 (x OR c) = drop_bit 16 x" "drop_bit 24 (x OR c) = drop_bit 24 x"
proof -
  have "unat c < 65536" using assms fits_half by blast
  then have "unat (drop_bit 16 c) = 0" by (simp only: word_halves div_less)
  then have z: "drop_bit 16 c = 0" by (simp only: unat_eq_0)
  then have "drop_bit 8 (drop_bit 16 c) = 0" by simp
  then have "drop_bit 24 c = 0" by simp
  then show "drop_bit 16 (x OR c) = drop_bit 16 x" "drop_bit 24 (x OR c) = drop_bit 24 x" using z by (simp_all add: drop_bit_or)
qed

text \<open>The packet before its checksums.\<close>

lemma reply_body:
  fixes hw i icmp
  assumes "length stack = 2048" "9 \<le> n" "n < 2048" "n = (len + 11) div 4"
  defines "p \<equiv> trim_last (len + 8) n (reply_words hw i icmp n stack)"
  shows "length p = 2048" "p ! 0 = ucast (drop_bit 16 hw)" "p ! 1 = ucast (push_bit 16 hw) OR ETHERTYPE_IP"
    "p ! 2 = icmp ! 0 AND 0xff00ffff" "p ! 3 = push_bit 16 (i AND 0xffff)" "p ! 4 = 0xff010000" "p ! 5 = icmp ! 4" "p ! 6 = icmp ! 3" "p ! 7 = 0"
    "\<And>k. 32 \<le> k \<Longrightarrow> k < len + 8 \<Longrightarrow> byte_of p k = byte_of (rx0 # rx1 # icmp) k"
proof -
  define r where "r = reply_words hw i icmp n stack"
  note rn = reply_words_nth [OF assms(1-3), where hw = hw and i = i and icmp = icmp, folded r_def]
  have t: "length p = 2048" "\<And>j. j < 8 \<Longrightarrow> p ! j = r ! j"
    using trim_last_nth [OF rn(1) assms(2,3)] by (simp_all add: p_def r_def)
  show "length p = 2048" by (rule t)
  show "p ! 0 = ucast (drop_bit 16 hw)" "p ! 1 = ucast (push_bit 16 hw) OR ETHERTYPE_IP" "p ! 2 = icmp ! 0 AND 0xff00ffff"
    "p ! 3 = push_bit 16 (i AND 0xffff)" "p ! 4 = 0xff010000" "p ! 5 = icmp ! 4" "p ! 6 = icmp ! 3" "p ! 7 = 0"
    using assms(1) by (simp_all add: t rn)
  fix k assume k: "32 \<le> k" "k < len + 8"
  have j: "8 \<le> k div 4" "k div 4 < n" using word_index [OF k assms(4)] by simp_all
  have "byte_of p k = byte_of r k" unfolding p_def r_def [symmetric]
    using k(2) assms(3,4) by (intro trim_last_byte rn(1)) simp_all
  also have "r ! (k div 4) = icmp ! (k div 4 - 2)" using j assms(3) by (simp add: rn)
  then have "byte_of r k = byte_of (rx0 # rx1 # icmp) k"
    using j by (simp add: byte_of_def nth_Cons' numeral_2_eq_2)
  finally show "byte_of p k = byte_of (rx0 # rx1 # icmp) k" .
qed

lemma push_low: "push_bit 16 x AND 0xffff = (0 :: u32)"
proof -
  have "push_bit 16 x AND (mask 16 :: u32) = 0" by (rule bit_word_eqI) (auto simp: bit_simps)
  moreover have "(0xffff :: u32) = mask 16" by (simp add: mask_eq_exp_minus_1)
  ultimately show ?thesis by simp
qed

lemma reply_ethertype: "(ucast (push_bit 16 (hw :: u64)) OR ETHERTYPE_IP) AND (0xffff :: u32) = ETHERTYPE_IP"
proof -
  have "ucast (push_bit 16 hw) = (push_bit 16 (ucast hw) :: u32)" by (rule bit_word_eqI) (auto simp: bit_simps)
  then have "ucast (push_bit 16 hw) AND (0xffff :: u32) = 0" by (simp only: push_low)
  then show ?thesis by (simp add: bit.conj_disj_distrib2 ETHERTYPE_IP_def)
qed

lemma version_kept: "drop_bit 24 (x AND 0xff00ffff) = drop_bit 24 (x :: u32)"
proof -
  have "drop_bit 24 (x AND 0xff00ffff) = drop_bit 24 x AND 0xff" by (simp add: drop_bit_and)
  also have "\<dots> = take_bit 8 (drop_bit 24 x)" by (simp add: take_bit_eq_mask mask_eq_exp_minus_1)
  also have "\<dots> = drop_bit 24 x" by (rule bit_word_eqI) (auto simp: bit_simps dest: bit_imp_le_length)
  finally show ?thesis .
qed

lemma uping_reply_ok:
  assumes "length stack = 2048" "len = unat (icmp ! 0 AND 0xffff)" "28 \<le> len" "n = (len + 11) div 4"
    "n < min (2 ^ unat (drop_bit 24 rxcmd AND 0xf)) 2048" "drop_bit 24 (icmp ! 0) = 0x45" "n \<le> length icmp + 2"
    "arp_lookup ip (net s) = (Some hw, a)"
  obtains w where "uping_reply rxcmd subs stack ip icmp s
      = Inr (s\<lparr>ping_replies_sent := ping_replies_sent s + 1, net := SENDPKT w (of_nat (len + 8)) a\<rparr>)"
    "echo_reply hw len (rx0 # rx1 # icmp) w"
proof -
  have n: "9 \<le> n" "n < 2048" "(len + 8 + 3) div 4 = n" using assms(3,4,5) by (simp_all add: div_le_mono)
  define p where "p = trim_last (len + 8) n (reply_words hw (pkt_id s + subs) icmp n stack)"
  note b = reply_body [OF assms(1) n(1,2) assms(4), where hw = hw and i = "pkt_id s + subs" and icmp = icmp, folded p_def]
  obtain c4 c7 where c: "reply_checksums n p = Inr (p[4 := p ! 4 OR c4, 7 := p ! 7 OR c7])" "c4 AND NOT 0xffff = 0" "c7 AND NOT 0xffff = 0"
    "ipcksum 5 (drop 2 (take n (p[4 := p ! 4 OR c4, 7 := p ! 7 OR c7]))) = Inr 0"
    "ipcksum (of_nat (n - 7)) (drop 7 (take n (p[4 := p ! 4 OR c4, 7 := p ! 7 OR c7]))) = Inr 0"
    using reply_checksums_ok [of n p] n b(1,6,9) by auto
  define w where "w = take n (p[4 := p ! 4 OR c4, 7 := p ! 7 OR c7])"
  have w: "length w = n" "\<And>j. j < n \<Longrightarrow> w ! j = (if j = 4 then p ! 4 OR c4 else if j = 7 then p ! 7 OR c7 else p ! j)"
    using b(1) n by (auto simp: w_def nth_list_update)
  have w0: "w ! 0 = p ! 0" "w ! 1 = p ! 1" "w ! 2 = p ! 2" "w ! 3 = p ! 3" "w ! 4 = p ! 4 OR c4" "w ! 5 = p ! 5" "w ! 6 = p ! 6" "w ! 7 = p ! 7 OR c7"
    using n by (simp_all add: w)
  have bytes: "byte_of w k = byte_of (rx0 # rx1 # icmp) k" if "32 \<le> k" "k < len + 8" for k
  proof -
    have "8 \<le> k div 4" "k div 4 < n" using word_index [OF that assms(4)] by simp_all
    then have "byte_of w k = byte_of p k" by (simp add: byte_of_def w)
    then show ?thesis using b(10) that by simp
  qed
  have "packet_to w = take_bit 48 hw"
    by (rule packet_to_word [of w hw ETHERTYPE_IP]) (simp only: w0 b, simp only: w0 b, simp add: ETHERTYPE_IP_def)
  moreover have "w ! 1 AND 0xffff = ETHERTYPE_IP" by (simp only: w0 b reply_ethertype)
  moreover have "drop_bit 24 (w ! 2) = 0x45" by (simp only: w0 b version_kept assms(6))
  moreover have "unat (w ! 2 AND 0xffff) = len" by (simp add: w0 b and.assoc assms(2))
  moreover have "w ! 3 AND 0xffff = 0" by (simp only: w0 b push_low)
  moreover have "w ! 5 = (rx0 # rx1 # icmp) ! 6" "w ! 6 = (rx0 # rx1 # icmp) ! 5" by (simp_all add: w0 b)
  moreover have "drop_bit 16 (w ! 4) = 0xff01" by (simp only: w0 b high_or [OF c(2)]) simp
  moreover have "drop_bit 16 (w ! 7) = 0" by (simp only: w0 b high_or [OF c(3)]) simp
  moreover have "ipcksum 5 (drop 2 w) = Inr 0" "ipcksum (of_nat (length w - 7)) (drop 7 w) = Inr 0"
    using c(4,5) by (simp_all only: w_def [symmetric] w(1))
  ultimately have reply: "echo_reply hw len (rx0 # rx1 # icmp) w"
    using bytes w(1) assms(4) by (simp only: echo_reply_def) simp
  show thesis
    by (rule that [OF _ reply])
      (use assms(5-8) c(1) n in \<open>simp add: uping_reply_def Let_def assms(2) [symmetric] p_def [symmetric] w_def\<close>)
qed

section \<open>Received packets\<close>

text \<open>The handler copies the packet; its words from the third on are the words of the payload.\<close>

definition rx_words :: "ping_env \<Rightarrow> nat" where
  "rx_words v = (unat (v_rxcmd v AND 0x7ff) + 3) div 4"

lemma rx_words_bound: "rx_words v \<le> 512"
proof -
  have "v_rxcmd v AND 0x7ff = take_bit 11 (v_rxcmd v)" by (simp add: take_bit_eq_mask mask_eq_exp_minus_1)
  then have "unat (v_rxcmd v AND 0x7ff) < 2 ^ 11" by (simp only: unsigned_take_bit_eq take_bit_nat_less_exp)
  then show ?thesis unfolding rx_words_def by simp
qed

lemma rx_words_enough: "4 * m \<le> unat (v_rxcmd v AND 0x7ff) \<Longrightarrow> m \<le> rx_words v" "l \<le> unat (v_rxcmd v AND 0x7ff) \<Longrightarrow> l \<le> 4 * rx_words v"
  unfolding rx_words_def by presburger+

lemma user_take_ok:
  assumes "rx_words v \<le> length (v_netbrx v)" "length (rxpkt s) = 2048"
  obtains s' where "user_take v s = Inr s'" "net s' = net s" "ping_replies_sent s' = ping_replies_sent s"
    "arp_requests_received s' = arp_requests_received s" "ping_rx_count s' = ping_rx_count s"
    "length (drop 2 (rxpkt s')) = 2046" "\<forall>j. j + 2 < rx_words v \<longrightarrow> drop 2 (rxpkt s') ! j = v_netbrx v ! (j + 2)"
proof -
  let ?s = "out SPIO LED_RXCLEAR (out NET_RXCMD (ENET_RXCLR OR ENET_RXCLRERR)
             (s\<lparr>rxpkt := take (rx_words v) (v_netbrx v) @ drop (rx_words v) (rxpkt s), pkts_received := pkts_received s + 1\<rparr>))"
  have t: "user_take v s = Inr ?s" using assms(1) by (simp add: user_take_def Let_def rx_words_def)
  have f: "net ?s = net s" "ping_replies_sent ?s = ping_replies_sent s" "arp_requests_received ?s = arp_requests_received s"
    "ping_rx_count ?s = ping_rx_count s" by (simp_all add: out_def)
  have w: "length (drop 2 (rxpkt ?s)) = 2046" "\<forall>j. j + 2 < rx_words v \<longrightarrow> drop 2 (rxpkt ?s) ! j = v_netbrx v ! (j + 2)"
    using assms rx_words_bound [of v] by (auto simp: out_def nth_append)
  show thesis by (rule that [OF t f w])
qed

lemma payload_words:
  assumes "\<forall>j. j + 2 < n \<longrightarrow> ip ! j = rx ! (j + 2)" "8 \<le> n"
  shows "ip ! 0 = rx ! 2" "ip ! 1 = rx ! 3" "ip ! 2 = rx ! 4" "ip ! 3 = rx ! 5" "ip ! 4 = rx ! 6" "ip ! 5 = rx ! 7"
    "9 \<le> n \<Longrightarrow> ip ! 6 = rx ! 8"
proof -
  have "ip ! j = rx ! k" if "k = j + 2" "k < n" for j k using assms(1) that by simp
  from this [of 2 0] this [of 3 1] this [of 4 2] this [of 5 3] this [of 6 4] this [of 7 5] this [of 8 6] assms(2)
  show "ip ! 0 = rx ! 2" "ip ! 1 = rx ! 3" "ip ! 2 = rx ! 4" "ip ! 3 = rx ! 5" "ip ! 4 = rx ! 6" "ip ! 5 = rx ! 7"
    "9 \<le> n \<Longrightarrow> ip ! 6 = rx ! 8" by simp_all
qed

text \<open>What the handler sees of an echo request: it goes to \<open>uping_reply\<close>.\<close>

lemma echo_request_goes:
  assumes "echo_request (my_ip_addr (net s)) len v" "length (rxpkt s) = 2048"
  obtains s1 ip where "net s1 = net s" "ping_replies_sent s1 = ping_replies_sent s" "ip ! 0 = v_netbrx v ! 2" "length ip = 2046"
    "\<forall>j. j + 2 < rx_words v \<longrightarrow> ip ! j = v_netbrx v ! (j + 2)"
    "user_receive v s = rbind (uping_reply (v_rxcmd_after v) (v_subseconds v) (v_stack v) (v_netbrx v ! 5) ip s1)
       (\<lambda>s. Inr (out SPIO LED_RXPINGRX (s\<lparr>icmp_echo_requests := icmp_echo_requests s + 1\<rparr>)))"
proof -
  let ?rx = "v_netbrx v"
  note e = assms(1) [unfolded echo_request_def Let_def]
  have n: "8 \<le> rx_words v" "rx_words v \<le> length ?rx" using e rx_words_enough(1) [of 8 v] by (simp_all add: rx_words_def)
  obtain s0 where s0: "user_take v s = Inr s0" "net s0 = net s" "ping_replies_sent s0 = ping_replies_sent s"
    "length (drop 2 (rxpkt s0)) = 2046" "\<forall>j. j + 2 < rx_words v \<longrightarrow> drop 2 (rxpkt s0) ! j = ?rx ! (j + 2)"
    using user_take_ok [OF n(2) assms(2)] by blast
  define ip where "ip = drop 2 (rxpkt s0)"
  note w = payload_words [OF s0(5) [folded ip_def] n(1)]
  have v4: "drop_bit 28 (?rx ! 2) AND 15 = 4"
  proof -
    have "drop_bit 28 (?rx ! 2) = drop_bit 4 (drop_bit 24 (?rx ! 2))" by simp
    then show ?thesis using e by simp
  qed
  let ?s1 = "s0\<lparr>ip_pkts_received := ip_pkts_received s0 + 1, ip_pkts_invalid := ip_pkts_invalid s0 + 0\<rparr>"
  have "user_ip v s0 = rbind (uping_reply (v_rxcmd_after v) (v_subseconds v) (v_stack v) (?rx ! 5) ip ?s1)
       (\<lambda>s. Inr (out SPIO LED_RXPINGRX (s\<lparr>icmp_echo_requests := icmp_echo_requests s + 1\<rparr>)))"
    using e v4 w s0(2) by (simp add: user_ip_def Let_def ip_def [symmetric])
  then have "user_receive v s = rbind (uping_reply (v_rxcmd_after v) (v_subseconds v) (v_stack v) (?rx ! 5) ip ?s1)
       (\<lambda>s. Inr (out SPIO LED_RXPINGRX (s\<lparr>icmp_echo_requests := icmp_echo_requests s + 1\<rparr>)))"
    using e s0(1) by (simp add: user_receive_def)
  then show thesis using that [of ?s1 ip] s0 w(1) by (simp add: ip_def)
qed

lemma echo_reply_cong:
  assumes "echo_reply hw len rx w" "\<And>j. j < m \<Longrightarrow> 2 \<le> j \<Longrightarrow> rx ! j = rx' ! j" "8 \<le> m" "len + 8 \<le> 4 * m"
  shows "echo_reply hw len rx' w"
proof -
  have "byte_of rx k = byte_of rx' k" if "32 \<le> k" "k < len + 8" for k
  proof -
    have "2 \<le> k div 4" "k div 4 < m" using that assms(4) by presburger+
    then show ?thesis using assms(2) by (simp add: byte_of_def)
  qed
  moreover have "rx ! 5 = rx' ! 5" "rx ! 6 = rx' ! 6" using assms(2,3) by simp_all
  ultimately show ?thesis using assms(1) unfolding echo_reply_def by (elim conjE, intro conjI) simp_all
qed

lemma ping_answer:
  assumes "echo_request (my_ip_addr (net s)) len v" "28 \<le> len"
    "(len + 11) div 4 < min (2 ^ unat (drop_bit 24 (v_rxcmd_after v) AND 0xf)) 2048"
    "arp_lookup (v_netbrx v ! 5) (net s) = (Some hw, a)" "length (rxpkt s) = 2048" "length (v_stack v) = 2048"
  shows "\<exists>s' w. user_receive v s = Inr s' \<and> echo_reply hw len (v_netbrx v) w
    \<and> sent_pkts (net s') = sent_pkts a @ [(w, of_nat (len + 8))] \<and> ping_replies_sent s' = ping_replies_sent s + 1"
proof -
  let ?rx = "v_netbrx v"
  obtain s1 ip where r: "net s1 = net s" "ping_replies_sent s1 = ping_replies_sent s" "ip ! 0 = ?rx ! 2" "length ip = 2046"
    "\<forall>j. j + 2 < rx_words v \<longrightarrow> ip ! j = ?rx ! (j + 2)"
    "user_receive v s = rbind (uping_reply (v_rxcmd_after v) (v_subseconds v) (v_stack v) (?rx ! 5) ip s1)
       (\<lambda>s. Inr (out SPIO LED_RXPINGRX (s\<lparr>icmp_echo_requests := icmp_echo_requests s + 1\<rparr>)))"
    using echo_request_goes [OF assms(1,5)] by blast
  note e = assms(1) [unfolded echo_request_def Let_def]
  have n: "8 \<le> rx_words v" "len + 8 \<le> 4 * rx_words v" using e rx_words_enough(1) [of 8 v] rx_words_enough(2) [of "len + 8" v] by simp_all
  have h: "len = unat (ip ! 0 AND 0xffff)" "drop_bit 24 (ip ! 0) = 0x45" "(len + 11) div 4 \<le> length ip + 2"
    using e r(3,4) assms(3) by simp_all
  have "arp_lookup (?rx ! 5) (net s1) = (Some hw, a)" using assms(4) r(1) by simp
  from uping_reply_ok [OF assms(6) h(1) assms(2) refl assms(3) h(2,3) this]
  obtain w where w: "uping_reply (v_rxcmd_after v) (v_subseconds v) (v_stack v) (?rx ! 5) ip s1
      = Inr (s1\<lparr>ping_replies_sent := ping_replies_sent s1 + 1, net := SENDPKT w (of_nat (len + 8)) a\<rparr>)"
    "echo_reply hw len (?rx ! 0 # ?rx ! 1 # ip) w" by metis
  have "(?rx ! 0 # ?rx ! 1 # ip) ! j = ?rx ! j" if "j < rx_words v" "2 \<le> j" for j
  proof -
    define i where "i = j - 2"
    have "j = i + 2" using that(2) by (simp add: i_def)
    then show ?thesis using r(5) that(1) by simp
  qed
  from echo_reply_cong [OF w(2) this n] show ?thesis using r(2,6) w(1) by (simp add: out_def SENDPKT_def)
qed

text \<open>
  What the supervisor does with a packet that the user task hands over: under 1400 bytes the words go to the
  transmit buffer and the length to the network, anything longer is left alone, without a word to the user task.
\<close>

lemma trap_sendpkt_whole:
  assumes "length w = (n + 3) div 4" "n < 2 ^ 31"
  shows "trap_sendpkt w (of_nat n) t = Inr (if n < 1400
    then t\<lparr>netbtx := w @ drop (length w) (netbtx t), user_tx_packets := user_tx_packets t + 1,
      io := io t @ [(SPIO, LED_TXACTIVE), (NET_TXCMD, ENET_TXCMD (of_nat n)), (ZIP_PIC, EINT_ENET)]\<rparr>
    else t)"
proof -
  have u: "unat (of_nat n :: u32) = n" using assms(2) by (simp add: unat_of_nat)
  have "unat (of_nat n + 3 :: u32) = n + 3" using assms(2) by (simp add: unat_word_ariths u)
  then have "unat (drop_bit 2 (of_nat n + 3 :: u32)) = length w"
    using assms(1) by (simp add: drop_bit_eq_div unat_div_distrib)
  moreover have "(of_nat n :: u32) < 1400 \<longleftrightarrow> n < 1400" by (simp add: word_less_nat_alt u)
  ultimately show ?thesis by (simp add: trap_sendpkt_def out_def Let_def)
qed

text \<open>C22: an echo request for the board, from a sender whose hardware address is known and with room for its reply, is
  answered by one packet handed to the supervisor: an echo reply to that address with the two IP addresses swapped
  and the same data, whose IP header and ICMP message both pass the receiver's checksum test.  The supervisor,
  in whatever state \<open>t\<close>, puts the packet on the network when it has less than 1400 bytes; a longer one it
  drops, with no trace, though the user task has counted it as sent.\<close>

theorem ping_answered:
  assumes "echo_request (my_ip_addr (net s)) len v" "28 \<le> len"
    "(len + 11) div 4 < min (2 ^ unat (drop_bit 24 (v_rxcmd_after v) AND 0xf)) 2048"
    "arp_lookup (v_netbrx v ! 5) (net s) = (Some hw, a)" "length (rxpkt s) = 2048" "length (v_stack v) = 2048"
  shows "\<exists>s' w. user_receive v s = Inr s' \<and> echo_reply hw len (v_netbrx v) w
    \<and> sent_pkts (net s') = sent_pkts a @ [(w, of_nat (len + 8))] \<and> ping_replies_sent s' = ping_replies_sent s + 1
    \<and> (\<forall>t. trap_sendpkt w (of_nat (len + 8)) t = Inr (if len + 8 < 1400
        then t\<lparr>netbtx := w @ drop (length w) (netbtx t), user_tx_packets := user_tx_packets t + 1,
          io := io t @ [(SPIO, LED_TXACTIVE), (NET_TXCMD, ENET_TXCMD (of_nat (len + 8))), (ZIP_PIC, EINT_ENET)]\<rparr>
        else t))"
proof -
  obtain s' w where w: "user_receive v s = Inr s'" "echo_reply hw len (v_netbrx v) w"
    "sent_pkts (net s') = sent_pkts a @ [(w, of_nat (len + 8))]" "ping_replies_sent s' = ping_replies_sent s + 1"
    using ping_answer [OF assms] by blast
  have "length w = (len + 8 + 3) div 4" using w(2) by (simp add: echo_reply_def)
  moreover have "(len + 11) div 4 < 2048" using assms(3) by simp
  then have "len + 8 < 2 ^ 31" by (simp add: div_less_iff_less_mult)
  ultimately have "length w = (len + 8 + 3) div 4" "len + 8 < 2 ^ 31" by blast+
  from trap_sendpkt_whole [OF this] w show ?thesis by blast
qed

lemma short_checksums:
  assumes "n \<le> 7" "length p = 2048"
  shows "reply_checksums n p = Inl OutOfBounds"
proof -
  have "n \<in> {0, 1, 2, 3, 4, 5, 6, 7}" using assms(1) by auto
  then have "of_int (int n - 7) = (0 :: u32) \<or> 2041 < unat (of_int (int n - 7) :: u32)"
    by (auto simp: unsigned_minus_1_eq_mask mask_eq_exp_minus_1)
  then have fault: "ipcksum (of_int (int n - 7)) q = Inl OutOfBounds" if "length q = 2041" for q
    using that by (intro ipcksum_out_of_bounds) auto
  obtain c where "ipcksum (of_nat 5) (drop 2 p) = Inr c"
  proof -
    have t: "length (take 5 (drop 2 p)) = 5" "take 5 (drop 2 p) \<noteq> []" using assms(2) by auto
    show thesis using that ipcksum_value [OF t(2), of "drop 5 (drop 2 p)"] unfolding append_take_drop_id t(1) by simp
  qed
  then have "ipcksum 5 (drop 2 p) = Inr c" by simp
  then show ?thesis using assms(2) by (simp only: reply_checksums_def Let_def rbind_simps)
    (subst fault, simp_all)
qed

text \<open>C40: an echo request whose IP header announces no more than its own 20 bytes sends the checksum of the reply
  past the end of the packet: a count of zero or less is taken for one of about \<open>2 ^ 32\<close> words.\<close>

theorem ping_short_request:
  assumes "echo_request (my_ip_addr (net s)) len v" "len \<le> 20" "8 \<le> unat (drop_bit 24 (v_rxcmd_after v) AND 0xf)"
    "arp_lookup (v_netbrx v ! 5) (net s) = (Some hw, a)" "length (rxpkt s) = 2048" "length (v_stack v) = 2048"
  shows "user_receive v s = Inl OutOfBounds"
proof -
  let ?rx = "v_netbrx v" and ?rxcmd = "v_rxcmd_after v"
  obtain s1 ip where r: "net s1 = net s" "ping_replies_sent s1 = ping_replies_sent s" "ip ! 0 = ?rx ! 2" "length ip = 2046"
    "\<forall>j. j + 2 < rx_words v \<longrightarrow> ip ! j = ?rx ! (j + 2)"
    "user_receive v s = rbind (uping_reply ?rxcmd (v_subseconds v) (v_stack v) (?rx ! 5) ip s1)
       (\<lambda>s. Inr (out SPIO LED_RXPINGRX (s\<lparr>icmp_echo_requests := icmp_echo_requests s + 1\<rparr>)))"
    using echo_request_goes [OF assms(1,5)] by blast
  note e = assms(1) [unfolded echo_request_def Let_def]
  define n where "n = (len + 11) div 4"
  have n: "n \<le> 7" "(len + 8 + 3) div 4 = n" using assms(2) by (simp_all add: n_def)
  have "(2 :: nat) ^ 8 \<le> 2 ^ unat (drop_bit 24 ?rxcmd AND 0xf)" using assms(3) by (rule power_increasing) simp
  then have big: "n < 2 ^ unat (drop_bit 24 ?rxcmd AND 0xf)" using n(1) by simp
  have len: "unat (ip ! 0 AND 0xffff) = len" "drop_bit 24 (ip ! 0) = 0x45" using e r(3) by simp_all
  have "length (trim_last (len + 8) n (reply_words hw (pkt_id s1 + v_subseconds v) ip n (v_stack v))) = 2048"
    using assms(6) by (simp add: trim_last_def reply_words_def Let_def fold_update)
  from short_checksums [OF n(1) this] show ?thesis using r(1,4,6) assms(4) len n big
    by (simp add: uping_reply_def Let_def)
qed

section \<open>ARP requests\<close>

definition arp_request :: "u32 \<Rightarrow> ping_env \<Rightarrow> bool" where
  "arp_request me v \<longleftrightarrow> (let rx = v_netbrx v; ln = unat (v_rxcmd v AND 0x7ff) in
     rx ! 1 AND 0xffff = ETHERTYPE_ARP \<and> rx ! 2 = 0x010800 \<and> rx ! 3 = 0x06040001 \<and> target_ip rx = me
     \<and> v_rxcmd v AND ENET_RXBROADCAST \<noteq> 0 \<and> 36 \<le> ln \<and> (ln + 3) div 4 \<le> length rx)"

definition arp_reply :: "u64 \<Rightarrow> u32 \<Rightarrow> u32 list \<Rightarrow> u32 list \<Rightarrow> bool" where
  "arp_reply mac ip rx w \<longleftrightarrow> length w = 9 \<and> packet_to w = sender_mac rx \<and> w ! 1 AND 0xffff = ETHERTYPE_ARP
     \<and> w ! 2 = 0x010800 \<and> w ! 3 = 0x06040002 \<and> sender_mac w = take_bit 48 mac \<and> sender_ip w = ip
     \<and> target_mac w = sender_mac rx \<and> target_ip w = sender_ip rx"

lemma mac_joined:
  fixes a b :: u32
  shows "push_bit 16 (ucast (push_bit 16 (drop_bit 16 a) OR drop_bit 16 (drop_bit 16 b OR push_bit 16 a)))
      OR ucast (drop_bit 16 (push_bit 16 (drop_bit 16 b OR push_bit 16 a))) = (push_bit 16 (ucast a) OR ucast (drop_bit 16 b) :: u64)"
    and "push_bit 32 (ucast ((push_bit 16 c OR drop_bit 16 a) AND 0xffff)) OR ucast (drop_bit 16 b OR push_bit 16 a)
      = (push_bit 16 (ucast a) OR ucast (drop_bit 16 b) :: u64)"
proof -
  show "push_bit 16 (ucast (push_bit 16 (drop_bit 16 a) OR drop_bit 16 (drop_bit 16 b OR push_bit 16 a)))
      OR ucast (drop_bit 16 (push_bit 16 (drop_bit 16 b OR push_bit 16 a))) = (push_bit 16 (ucast a) OR ucast (drop_bit 16 b) :: u64)"
    by (rule bit_word_eqI) (auto simp: bit_simps dest: bit_imp_le_length)
  have m: "(0xffff :: u32) = mask 16" by (simp add: mask_eq_exp_minus_1)
  show "push_bit 32 (ucast ((push_bit 16 c OR drop_bit 16 a) AND 0xffff)) OR ucast (drop_bit 16 b OR push_bit 16 a)
      = (push_bit 16 (ucast a) OR ucast (drop_bit 16 b) :: u64)"
    unfolding m by (rule bit_word_eqI) (auto simp: bit_simps dest: bit_imp_le_length)
qed

lemma send_arp_reply_fields:
  assumes "h = drop_bit 16 (rx ! 4)" "l = drop_bit 16 (rx ! 5) OR push_bit 16 (rx ! 4)"
  shows "\<exists>w. send_arp_reply h l (sender_ip rx) s = SENDPKT w 36 s \<and> arp_reply (my_mac_addr s) (my_ip_addr s) rx w"
proof -
  define w where "w = arp_packet (push_bit 16 h OR drop_bit 16 l) (push_bit 16 l OR ETHERTYPE_ARP) 2 h l (sender_ip rx) s"
  have w: "w ! 0 = push_bit 16 h OR drop_bit 16 l" "w ! 1 = push_bit 16 l OR ETHERTYPE_ARP" "w ! 2 = 0x010800" "w ! 3 = 0x06040002"
    "w ! 4 = ucast (drop_bit 16 (my_mac_addr s))" "w ! 5 = ucast (push_bit 16 (my_mac_addr s)) OR drop_bit 16 (my_ip_addr s)"
    "w ! 6 = push_bit 16 (my_ip_addr s) OR h" "w ! 7 = l" "w ! 8 = sender_ip rx" "length w = 9"
    by (simp_all add: w_def arp_packet_def)
  have "drop_bit 16 (w ! 1) = drop_bit 16 (push_bit 16 l)"
    unfolding w by (rule high_or) (simp add: ETHERTYPE_ARP_def)
  then have to: "packet_to w = sender_mac rx" by (simp only: packet_to_def sender_mac_def w assms mac_joined)
  have "(push_bit 16 l OR ETHERTYPE_ARP) AND 0xffff = ETHERTYPE_ARP"
    by (simp only: bit.conj_disj_distrib2 push_low) (simp add: ETHERTYPE_ARP_def)
  moreover have "sender_mac w = take_bit 48 (my_mac_addr s)" unfolding sender_mac_def w
    by (rule bit_word_eqI) (auto simp: bit_simps dest: bit_imp_le_length)
  moreover have "sender_ip w = my_ip_addr s" unfolding sender_ip_def w assms
    by (rule bit_word_eqI) (auto simp: bit_simps dest: bit_imp_le_length)
  moreover have "target_mac w = sender_mac rx" by (simp only: target_mac_def sender_mac_def w assms mac_joined)
  ultimately have "arp_reply (my_mac_addr s) (my_ip_addr s) rx w" using to w by (simp add: arp_reply_def target_ip_def)
  then show ?thesis by (auto simp: send_arp_reply_def w_def)
qed

text \<open>C23: an ARP request for the board, broadcast to the network, is answered by one ARP reply to its sender, with
  the board's addresses as the sender's and the request's sender as the target.\<close>

theorem arp_request_answered:
  assumes "arp_request (my_ip_addr (net s)) v" "length (rxpkt s) = 2048"
  shows "\<exists>s' w. user_receive v s = Inr s' \<and> net s' = SENDPKT w 36 (net s)
    \<and> arp_reply (my_mac_addr (net s)) (my_ip_addr (net s)) (v_netbrx v) w
    \<and> arp_requests_received s' = arp_requests_received s + 1"
proof -
  let ?rx = "v_netbrx v"
  note e = assms(1) [unfolded arp_request_def Let_def]
  have n: "9 \<le> rx_words v" "rx_words v \<le> length ?rx" using e rx_words_enough(1) [of 9 v] by (simp_all add: rx_words_def)
  obtain s0 where s0: "user_take v s = Inr s0" "net s0 = net s" "arp_requests_received s0 = arp_requests_received s"
    "\<forall>j. j + 2 < rx_words v \<longrightarrow> drop 2 (rxpkt s0) ! j = ?rx ! (j + 2)"
    using user_take_ok [OF n(2) assms(2)] by blast
  define p where "p = drop 2 (rxpkt s0)"
  have w: "p ! 0 = ?rx ! 2" "p ! 1 = ?rx ! 3" "p ! 2 = ?rx ! 4" "p ! 3 = ?rx ! 5" "p ! 4 = ?rx ! 6" "p ! 6 = ?rx ! 8"
    using payload_words [OF s0(4) [folded p_def]] n(1) by simp_all
  obtain w where reply: "send_arp_reply (drop_bit 16 (?rx ! 4)) (drop_bit 16 (?rx ! 5) OR push_bit 16 (?rx ! 4)) (sender_ip ?rx) (net s)
      = SENDPKT w 36 (net s)" "arp_reply (my_mac_addr (net s)) (my_ip_addr (net s)) ?rx w"
    using send_arp_reply_fields [OF refl refl] by metis
  have "user_arp v s0 = Inr (s0\<lparr>arp_pkt_count := arp_pkt_count s0 + 1, arp_requests_received := arp_requests_received s0 + 1,
      net := SENDPKT w 36 (net s)\<rparr>)"
    using e w s0(2) reply(1) by (simp add: user_arp_def Let_def p_def [symmetric] target_ip_def sender_ip_def)
  then have "user_receive v s = Inr (s0\<lparr>arp_pkt_count := arp_pkt_count s0 + 1, arp_requests_received := arp_requests_received s0 + 1,
      net := SENDPKT w 36 (net s)\<rparr>)"
    using e s0(1) by (simp add: user_receive_def ETHERTYPE_IP_def ETHERTYPE_ARP_def)
  then show ?thesis using reply(2) s0(3) by auto
qed

section \<open>A ping and its answer\<close>

definition ping_packet :: "ping \<Rightarrow> u32 list" where
  "ping_packet s = (netbtx s)[0 := ucast (drop_bit 16 (ping_mac_addr s)),
     1 := ucast (push_bit 16 (ping_mac_addr s)) OR ETHERTYPE_IP, 2 := 0x4500001c,
     3 := push_bit 16 ((pkt_id s + BIG_PRIME) AND 0xffff), 4 := 0x80010000, 5 := my_ip_addr (net s), 6 := ping_ip_addr s,
     7 := 0x08000000, 8 := pkt_id s + BIG_PRIME + BIG_PRIME + BIG_PRIME]"

lemma send_ping_checksums:
  "ping_mac_addr s \<noteq> 0 \<Longrightarrow> send_ping s = rbind (reply_checksums 9 (ping_packet s)) (\<lambda>pkt.
     Inr (out NET_TXCMD (ENET_TXCMD (9 * 4)) (out SPIO LED_TXACTIVE
       (s\<lparr>netbtx := pkt, pkt_id := pkt_id s + BIG_PRIME + BIG_PRIME, ping_tx_count := ping_tx_count s + 1\<rparr>))))"
  by (simp add: send_ping_def reply_checksums_def ping_packet_def Let_def)

lemma send_ping_ok:
  assumes "ping_mac_addr s \<noteq> 0" "length (netbtx s) = 512"
  obtains s' where "send_ping s = Inr s'" "net s' = net s" "rxpkt s' = rxpkt s" "ping_rx_count s' = ping_rx_count s"
    "packet_to (netbtx s') = take_bit 48 (ping_mac_addr s)" "netbtx s' ! 1 AND 0xffff = ETHERTYPE_IP" "netbtx s' ! 2 = 0x4500001c"
    "netbtx s' ! 3 AND 0xffff = 0" "drop_bit 16 (netbtx s' ! 4) = 0x8001" "netbtx s' ! 5 = my_ip_addr (net s)"
    "netbtx s' ! 6 = ping_ip_addr s" "drop_bit 16 (netbtx s' ! 7) = 0x0800"
    "ipcksum 5 (drop 2 (take 9 (netbtx s'))) = Inr 0" "ipcksum 2 (drop 7 (take 9 (netbtx s'))) = Inr 0" "length (netbtx s') = 512"
proof -
  define p where "p = ping_packet s"
  have l: "length p = 512" using assms(2) by (simp add: p_def ping_packet_def)
  have p: "p ! 0 = ucast (drop_bit 16 (ping_mac_addr s))" "p ! 1 = ucast (push_bit 16 (ping_mac_addr s)) OR ETHERTYPE_IP"
    "p ! 2 = 0x4500001c" "p ! 3 = push_bit 16 ((pkt_id s + BIG_PRIME) AND 0xffff)" "p ! 4 = 0x80010000"
    "p ! 5 = my_ip_addr (net s)" "p ! 6 = ping_ip_addr s" "p ! 7 = 0x08000000"
    using assms(2) by (simp_all add: p_def ping_packet_def)
  obtain c4 c7 where c: "reply_checksums 9 p = Inr (p[4 := p ! 4 OR c4, 7 := p ! 7 OR c7])" "c4 AND NOT 0xffff = 0" "c7 AND NOT 0xffff = 0"
    "ipcksum 5 (drop 2 (take 9 (p[4 := p ! 4 OR c4, 7 := p ! 7 OR c7]))) = Inr 0"
    "ipcksum (of_nat (9 - 7)) (drop 7 (take 9 (p[4 := p ! 4 OR c4, 7 := p ! 7 OR c7]))) = Inr 0"
    using reply_checksums_ok [of 9 p] l p by auto
  define q where "q = p[4 := p ! 4 OR c4, 7 := p ! 7 OR c7]"
  have q: "q ! 0 = p ! 0" "q ! 1 = p ! 1" "q ! 2 = p ! 2" "q ! 3 = p ! 3" "q ! 4 = p ! 4 OR c4" "q ! 5 = p ! 5" "q ! 6 = p ! 6" "q ! 7 = p ! 7 OR c7"
    using l by (simp_all add: q_def)
  let ?s = "out NET_TXCMD (ENET_TXCMD (9 * 4)) (out SPIO LED_TXACTIVE
       (s\<lparr>netbtx := q, pkt_id := pkt_id s + BIG_PRIME + BIG_PRIME, ping_tx_count := ping_tx_count s + 1\<rparr>))"
  have b: "netbtx ?s = q" "net ?s = net s" "rxpkt ?s = rxpkt s" "ping_rx_count ?s = ping_rx_count s" by (simp_all add: out_def)
  have to: "packet_to q = take_bit 48 (ping_mac_addr s)"
    by (rule packet_to_word [of q "ping_mac_addr s" ETHERTYPE_IP]) (simp only: q p, simp only: q p, simp add: ETHERTYPE_IP_def)
  have et: "q ! 1 AND 0xffff = ETHERTYPE_IP" by (simp only: q p reply_ethertype)
  have w3: "q ! 3 AND 0xffff = 0" by (simp only: q p push_low)
  have w4: "drop_bit 16 (q ! 4) = 0x8001" by (simp only: q p high_or [OF c(2)]) simp
  have w7: "drop_bit 16 (q ! 7) = 0x0800" by (simp only: q p high_or [OF c(3)]) simp
  have ck: "ipcksum 5 (drop 2 (take 9 q)) = Inr 0" "ipcksum 2 (drop 7 (take 9 q)) = Inr 0" using c(4,5) by (simp_all add: q_def)
  have run: "send_ping s = Inr ?s" using c(1) by (simp add: send_ping_checksums [OF assms(1)] p_def [symmetric] q_def [symmetric])
  have lq: "length q = 512" using l by (simp add: q_def)
  show thesis
    by (rule that [OF run b(2-4), unfolded b(1)]) (rule to et w3 w4 w7 ck lq | simp only: q p)+
qed

text \<open>The answer to a ping is counted.\<close>

lemma echo_reply_counted:
  assumes "echo_reply hw len rx w" "rx ! 5 = my_ip_addr (net s)" "v_netbrx v = w" "len + 8 \<le> unat (v_rxcmd v AND 0x7ff)"
    "32 \<le> unat (v_rxcmd v AND 0x7ff)" "rx_words v \<le> length w" "length (rxpkt s) = 2048"
  shows "\<exists>s'. user_receive v s = Inr s' \<and> ping_rx_count s' = ping_rx_count s + 1"
proof -
  note e = assms(1) [unfolded echo_reply_def]
  obtain s0 where s0: "user_take v s = Inr s0" "net s0 = net s" "ping_rx_count s0 = ping_rx_count s"
    "\<forall>j. j + 2 < rx_words v \<longrightarrow> drop 2 (rxpkt s0) ! j = w ! (j + 2)"
    using user_take_ok [of v s] assms(3,6,7) by blast
  define ip where "ip = drop 2 (rxpkt s0)"
  have wd: "ip ! 0 = w ! 2" "ip ! 1 = w ! 3" "ip ! 2 = w ! 4" "ip ! 3 = w ! 5" "ip ! 4 = w ! 6" "ip ! 5 = w ! 7"
    using payload_words [OF s0(4) [folded ip_def]] rx_words_enough(1) [of 8 v] assms(5) by simp_all
  have v4: "drop_bit 28 (w ! 2) AND 15 = 4"
  proof -
    have "drop_bit 28 (w ! 2) = drop_bit 4 (drop_bit 24 (w ! 2))" by simp
    then show ?thesis using e by simp
  qed
  have frag: "w ! 3 AND 0xbfff = 0"
  proof -
    have "w ! 3 AND 0xbfff = (w ! 3 AND 0xffff) AND 0xbfff" by (simp add: and.assoc)
    then show ?thesis using e by simp
  qed
  have type: "drop_bit 24 (w ! 7) = 0"
  proof -
    have "drop_bit 24 (w ! 7) = drop_bit 8 (drop_bit 16 (w ! 7))" by simp
    then show ?thesis using e by simp
  qed
  have "\<exists>s'. user_ip v s0 = Inr s' \<and> ping_rx_count s' = ping_rx_count s + 1"
    using e v4 frag type wd s0(2,3) assms(2) by (simp add: user_ip_def Let_def ip_def [symmetric] out_def)
  then show ?thesis using e s0(1) assms(3) by (simp add: user_receive_def)
qed

text \<open>What the network hands to the receiver of the words \<open>w\<close>.\<close>

definition deliver :: "u32 list \<Rightarrow> ping_env \<Rightarrow> ping_env" where
  "deliver w v = v\<lparr>v_netbrx := w, v_rxcmd := of_nat (4 * length w)\<rparr>"

lemma deliver_length: "length w = 9 \<Longrightarrow> unat (v_rxcmd (deliver w v) AND 0x7ff) = 36" "length w = 9 \<Longrightarrow> rx_words (deliver w v) = 9"
  by (simp_all add: deliver_def rx_words_def)

text \<open>C3: two boards that run the program, the second at the address the first pings and knowing the hardware address
  of the first: the ping of the first is answered by the second with one packet to the first, and the first
  counts the answer.\<close>

theorem ping_round_trip:
  assumes "ping_mac_addr a \<noteq> 0" "length (netbtx a) = 512" "length (rxpkt a) = 2048" "length (rxpkt b) = 2048"
    and "my_ip_addr (net b) = ping_ip_addr a" "arp_lookup (my_ip_addr (net a)) (net b) = (Some hw, n)"
    and "length (v_stack v) = 2048" "4 \<le> unat (drop_bit 24 (v_rxcmd_after v) AND 0xf)"
  shows "\<exists>a' b' w a''. send_ping a = Inr a' \<and> packet_to (netbtx a') = take_bit 48 (ping_mac_addr a)
    \<and> user_receive (deliver (take 9 (netbtx a')) v) b = Inr b' \<and> sent_pkts (net b') = sent_pkts n @ [(w, 36)]
    \<and> packet_to w = take_bit 48 hw
    \<and> user_receive (deliver w u) a' = Inr a'' \<and> ping_rx_count a'' = ping_rx_count a + 1"
proof -
  obtain a' where s: "send_ping a = Inr a'" "net a' = net a" "rxpkt a' = rxpkt a" "ping_rx_count a' = ping_rx_count a"
    "packet_to (netbtx a') = take_bit 48 (ping_mac_addr a)" "netbtx a' ! 1 AND 0xffff = ETHERTYPE_IP" "netbtx a' ! 2 = 0x4500001c"
    "netbtx a' ! 3 AND 0xffff = 0" "drop_bit 16 (netbtx a' ! 4) = 0x8001" "netbtx a' ! 5 = my_ip_addr (net a)"
    "netbtx a' ! 6 = ping_ip_addr a" "drop_bit 16 (netbtx a' ! 7) = 0x0800" "length (netbtx a') = 512"
    using send_ping_ok [OF assms(1,2)] by blast
  let ?w = "take 9 (netbtx a')" and ?v = "deliver (take 9 (netbtx a')) v"
  have l: "length ?w = 9" using s(13) by simp
  have frag: "netbtx a' ! 3 AND 0xbfff = 0"
  proof -
    have "netbtx a' ! 3 AND 0xbfff = (netbtx a' ! 3 AND 0xffff) AND 0xbfff" by (simp add: and.assoc)
    then show ?thesis using s(8) by simp
  qed
  have type: "drop_bit 24 (netbtx a' ! 7) = 8"
  proof -
    have "drop_bit 24 (netbtx a' ! 7) = drop_bit 8 (drop_bit 16 (netbtx a' ! 7))" by simp
    then show ?thesis using s(12) by simp
  qed
  have rx: "v_netbrx ?v = ?w" "v_stack ?v = v_stack v" "v_rxcmd_after ?v = v_rxcmd_after v" by (simp_all add: deliver_def)
  have req: "echo_request (my_ip_addr (net b)) 28 ?v"
    using s(6-11) frag type assms(5) deliver_length(1) [OF l, of v] l by (simp add: echo_request_def rx)
  have "(2 :: nat) ^ 4 \<le> 2 ^ unat (drop_bit 24 (v_rxcmd_after v) AND 0xf)" using assms(8) by (rule power_increasing) simp
  then have room: "(28 + 11 :: nat) div 4 < min (2 ^ unat (drop_bit 24 (v_rxcmd_after ?v) AND 0xf)) 2048" by (simp add: rx)
  have look: "arp_lookup (v_netbrx ?v ! 5) (net b) = (Some hw, n)" using assms(6) s(10) by (simp add: rx)
  obtain b' w where r: "user_receive ?v b = Inr b'" "echo_reply hw 28 (v_netbrx ?v) w" "sent_pkts (net b') = sent_pkts n @ [(w, 36)]"
    using ping_answer [OF req _ room look assms(4)] assms(7) rx(2) by auto
  have lw: "length w = 9" using r(2) by (simp add: echo_reply_def)
  have "v_netbrx ?v ! 5 = my_ip_addr (net a')" using s(2,10) by (simp add: rx)
  from echo_reply_counted [OF r(2) this, of "deliver w u"] obtain a'' where "user_receive (deliver w u) a' = Inr a''"
    "ping_rx_count a'' = ping_rx_count a + 1"
    using deliver_length [OF lw, of u] lw assms(3) s(3,4) by (auto simp: deliver_def)
  then show ?thesis using s(1,5) r by (auto simp: echo_reply_def)
qed

section \<open>Instances\<close>

definition known :: "ping \<Rightarrow> ping" where
  "known s = s\<lparr>net := (net s)\<lparr>router_mac_addr := 0x112233445566\<rparr>\<rparr>"

definition env0 :: ping_env where
  "env0 = \<lparr>v_netbrx = [], v_rxcmd = 0, v_rxcmd_after = 0x0b000000, v_subseconds = 0, v_stack = replicate 2048 0, v_eid = 0\<rparr>"

lemma boot_lengths [simp]:
  "length (rxpkt ping_boot) = 2048" "length (netbtx ping_boot) = 512" "length (rxpkt (known s)) = length (rxpkt s)"
  "length (netbtx (known s)) = length (netbtx s)" "length (v_stack env0) = 2048" "v_rxcmd_after env0 = 0x0b000000"
  "v_stack (deliver w v) = v_stack v" "v_rxcmd_after (deliver w v) = v_rxcmd_after v" "v_netbrx (deliver w v) = w"
  by (simp_all add: ping_boot_def known_def env0_def deliver_def)

lemma boot_lookup:
  "arp_lookup 0x08080808 (net (known ping_boot)) = (Some 0x112233445566, net (known ping_boot))"
  "my_ip_addr (net (known ping_boot)) = 0xc0a80f16"
  by (simp_all add: arp_lookup_def via_router_def known_def ping_boot_def arp_boot_def IPADDR_def)

definition echo0 :: "u32 \<Rightarrow> ping_env" where
  "echo0 len = deliver [0xd2d828e8, 0xb0960800, 0x45000000 OR len, 0x12340000, 0x40010000, 0x08080808, 0xc0a80f16, 0x08001234, 0xabcd0001] env0"

lemma echo0:
  "echo_request 0xc0a80f16 28 (echo0 28)" "echo_request 0xc0a80f16 20 (echo0 20)" "v_netbrx (echo0 len) ! 5 = 0x08080808"
  "length (v_stack (echo0 len)) = 2048" "v_rxcmd_after (echo0 len) = 0x0b000000"
  by (simp_all add: echo_request_def echo0_def) (simp_all add: deliver_def ETHERTYPE_IP_def)

text \<open>A short request that is answered on the network, and one of 1400 bytes whose reply is dropped.\<close>

definition echo1400 :: ping_env where
  "echo1400 = deliver ([0xd2d828e8, 0xb0960800, 0x45000578, 0x12340000, 0x40010000, 0x08080808, 0xc0a80f16, 0x08001234, 0xabcd0001]
     @ replicate 343 0x5a5a5a5a) env0"

lemma echo1400:
  "echo_request 0xc0a80f16 1400 echo1400" "v_netbrx echo1400 ! 5 = 0x08080808" "length (v_stack echo1400) = 2048"
  "v_rxcmd_after echo1400 = 0x0b000000"
  by (simp_all add: echo_request_def echo1400_def) (simp_all add: deliver_def ETHERTYPE_IP_def)

lemma ping_answered_witness:
  "(\<exists>s' w t'. user_receive (echo0 28) (known ping_boot) = Inr s' \<and> echo_reply 0x112233445566 28 (v_netbrx (echo0 28)) w
      \<and> sent_pkts (net s') = sent_pkts (net (known ping_boot)) @ [(w, of_nat (28 + 8))]
      \<and> trap_sendpkt w (of_nat (28 + 8)) s' = Inr t' \<and> (NET_TXCMD, ENET_TXCMD 36) \<in> set (io t'))
    \<and> (\<exists>s' w. user_receive echo1400 (known ping_boot) = Inr s' \<and> echo_reply 0x112233445566 1400 (v_netbrx echo1400) w
      \<and> ping_replies_sent s' = ping_replies_sent (known ping_boot) + 1 \<and> trap_sendpkt w (of_nat (1400 + 8)) s' = Inr s')"
proof
  show "\<exists>s' w t'. user_receive (echo0 28) (known ping_boot) = Inr s' \<and> echo_reply 0x112233445566 28 (v_netbrx (echo0 28)) w
      \<and> sent_pkts (net s') = sent_pkts (net (known ping_boot)) @ [(w, of_nat (28 + 8))]
      \<and> trap_sendpkt w (of_nat (28 + 8)) s' = Inr t' \<and> (NET_TXCMD, ENET_TXCMD 36) \<in> set (io t')"
    using ping_answered [of "known ping_boot" 28 "echo0 28" "0x112233445566" "net (known ping_boot)"] boot_lookup echo0 by fastforce
  show "\<exists>s' w. user_receive echo1400 (known ping_boot) = Inr s' \<and> echo_reply 0x112233445566 1400 (v_netbrx echo1400) w
      \<and> ping_replies_sent s' = ping_replies_sent (known ping_boot) + 1 \<and> trap_sendpkt w (of_nat (1400 + 8)) s' = Inr s'"
    using ping_answered [of "known ping_boot" 1400 echo1400 "0x112233445566" "net (known ping_boot)"] boot_lookup echo1400 by fastforce
qed

lemma ping_short_request_witness: "user_receive (echo0 20) (known ping_boot) = Inl OutOfBounds"
  by (rule ping_short_request [of _ 20]) (simp_all add: boot_lookup echo0)

definition arp0 :: ping_env where
  "arp0 = (deliver [0xffffffff, 0xffff0806, 0x010800, 0x06040001, 0x00112233, 0x4455c0a8, 0x0f050000, 0, 0xc0a80f16] env0)
     \<lparr>v_rxcmd := 0x080024\<rparr>"

lemma arp_request_answered_witness:
  "\<exists>s' w. user_receive arp0 ping_boot = Inr s' \<and> net s' = SENDPKT w 36 (net ping_boot)
    \<and> arp_reply (my_mac_addr (net ping_boot)) (my_ip_addr (net ping_boot)) (v_netbrx arp0) w
    \<and> arp_requests_received s' = arp_requests_received ping_boot + 1"
  by (rule arp_request_answered)
    (simp_all add: arp_request_def arp0_def target_ip_def ETHERTYPE_ARP_def ENET_RXBROADCAST_def deliver_def ping_boot_def
      arp_boot_def IPADDR_def)

definition pinger :: ping where
  "pinger = ping_boot\<lparr>ping_mac_addr := 0xd2d828e8b096, ping_ip_addr := 0xc0a80f16, net := (net ping_boot)\<lparr>my_ip_addr := 0x08080808\<rparr>\<rparr>"

lemma ping_round_trip_witness:
  "\<exists>a' b' w a''. send_ping pinger = Inr a' \<and> packet_to (netbtx a') = take_bit 48 (ping_mac_addr pinger)
    \<and> user_receive (deliver (take 9 (netbtx a')) env0) (known ping_boot) = Inr b'
    \<and> sent_pkts (net b') = sent_pkts (net (known ping_boot)) @ [(w, 36)] \<and> packet_to w = take_bit 48 0x112233445566
    \<and> user_receive (deliver w env0) a' = Inr a'' \<and> ping_rx_count a'' = ping_rx_count pinger + 1"
  by (rule ping_round_trip)
    (simp_all add: pinger_def boot_lookup)

end
