(* ===== verification/Ddr.thy ===== *)
theory Ddr
  imports Prelude
begin

text \<open>
  The simulated DDR3 SDRAM, class \<open>DDRSDRAMSIM\<close> of \<open>sim/verilated/ddrsdramsim.cpp\<close>: a chip
  with eight banks that checks its start-up sequence, the timing of every command and the
  driving of its data bus with assertions, and that moves data in bursts of four words, eleven
  clocks after the command that asks for them.

  Pins and fields that the code only tests for zero are booleans.  The counters are integers,
  \<open>m_state\<close> is a bag of bits and so a word, and so are addresses and data.  The two times of
  \<open>BANKINFO\<close> that the source uses and the header lacks are \<open>unsigned\<close>.  What the constructors
  leave unwritten is an argument of \<open>ddr_new\<close>.  The printouts and the two global copies of the
  reset state, which only the printouts need, are left out.
\<close>

section \<open>Constants\<close>

definition DDR_MRSET :: int where "DDR_MRSET = 0"
definition DDR_REFRESH :: int where "DDR_REFRESH = 1"
definition DDR_PRECHARGE :: int where "DDR_PRECHARGE = 2"
definition DDR_ACTIVATE :: int where "DDR_ACTIVATE = 3"
definition DDR_WRITE :: int where "DDR_WRITE = 4"
definition DDR_READ :: int where "DDR_READ = 5"
definition DDR_ZQS :: int where "DDR_ZQS = 6"
definition DDR_NOOP :: int where "DDR_NOOP = 7"

definition NBANKS :: nat where "NBANKS = 8"
definition NTIMESLOTS :: nat where "NTIMESLOTS = 32"

definition ckCL :: nat where "ckCL = 11"
definition ckRP :: nat where "ckRP = 11"
definition ckRC :: u32 where "ckRC = 10"
definition ckRAS :: u32 where "ckRAS = 7"
definition ckRFC :: int where "ckRFC = 320"
definition ckREFI :: int where "ckREFI = 1560"
definition nREF :: int where "nREF = 1"
definition ckREFIn :: int where "ckREFIn = ckREFI"

definition DDR_MR2 :: u32 where
  "DDR_MR2 = 0x040 OR push_bit 3 (of_nat (ckCL - 5) AND 7)"
definition DDR_MR1 :: u32 where "DDR_MR1 = 0x0844"
definition DDR_MR0 :: u32 where
  "DDR_MR0 = 0x0200 OR push_bit 4 (of_nat (ckCL - 4) AND 0x07) OR (if ckCL > 11 then 0x4 else 0)"

lemmas ddr_cmds = DDR_MRSET_def DDR_REFRESH_def DDR_PRECHARGE_def DDR_ACTIVATE_def DDR_WRITE_def
  DDR_READ_def DDR_ZQS_def DDR_NOOP_def

section \<open>Banks\<close>

record bank =
  m_state :: u32
  m_row :: u32
  m_wcounter :: u32
  m_min_time_before_precharge :: u32
  m_min_time_before_activate :: u32

definition bank_mask :: u32 where "bank_mask = push_bit ckRP 1 - 1"

definition bank_new :: "bank \<Rightarrow> bank" where
  "bank_new b = b\<lparr>m_state := 0, m_row := 0, m_wcounter := 0, m_min_time_before_precharge := 0\<rparr>"

definition count_times :: "bank \<Rightarrow> bank" where
  "count_times b =
     (let b = (if m_min_time_before_precharge b \<noteq> 0
               then b\<lparr>m_min_time_before_precharge := m_min_time_before_precharge b - 1\<rparr> else b)
      in if m_min_time_before_activate b \<noteq> 0
         then b\<lparr>m_min_time_before_activate := m_min_time_before_activate b - 1\<rparr> else b)"

definition bank_activate :: "u32 \<Rightarrow> bank \<Rightarrow> fault + bank" where
  "bank_activate addr b =
     c_assert (m_state b AND bank_mask = 0)
       (let b' = b\<lparr>m_state := 1, m_row := addr AND 0x7fff,
                   m_min_time_before_precharge := ckRAS, m_min_time_before_activate := ckRC\<rparr>
        in if m_state b AND 7 \<noteq> 0 \<and> addr AND 0x7fff \<noteq> m_row b
           then c_assert (m_state b AND 7 = 0) (Inr b') else Inr b')"

definition bank_access :: "bank \<Rightarrow> fault + bank" where
  "bank_access b =
     rbind (if DDR_READ \<noteq> 0 then c_assert (m_wcounter b = 0) (Inr b)
            else Inr (b\<lparr>m_wcounter := 3 + 4 + 4\<rparr>))
       (\<lambda>b. c_assert (m_state b AND bank_mask = bank_mask) (Inr (count_times b)))"

definition bank_shift :: "u32 \<Rightarrow> u32" where
  "bank_shift st =
     (let st = shl1 st; st = st OR drop_bit 1 (st AND 2) in st AND bank_mask)"

definition bank_tick :: "int \<Rightarrow> u32 \<Rightarrow> bank \<Rightarrow> fault + bank" where
  "bank_tick cmd addr b =
     (let b = (if m_wcounter b \<noteq> 0 then b\<lparr>m_wcounter := m_wcounter b - 1\<rparr> else b)
      in if cmd = DDR_REFRESH then c_assert (m_state b = 0) (Inr b)
         else if cmd = DDR_PRECHARGE then Inr (b\<lparr>m_state := m_state b AND - 2\<rparr>)
         else if cmd = DDR_ACTIVATE then bank_activate addr b
         else if cmd = DDR_READ \<or> cmd = DDR_WRITE then bank_access b
         else if cmd = DDR_ZQS then c_assert (m_state b AND bank_mask = 0) (Inr (count_times b))
         else if cmd = DDR_NOOP then Inr (count_times (b\<lparr>m_state := bank_shift (m_state b)\<rparr>))
         else Inr b)"

text \<open>The loops over the banks: all of them, one of them, all but one.\<close>

fun rmap :: "('a \<Rightarrow> 'e + 'b) \<Rightarrow> 'a list \<Rightarrow> 'e + 'b list" where
  "rmap f [] = Inr []"
| "rmap f (x # xs) = rbind (f x) (\<lambda>y. rbind (rmap f xs) (\<lambda>ys. Inr (y # ys)))"

definition tick_all :: "int \<Rightarrow> u32 \<Rightarrow> bank list \<Rightarrow> fault + bank list" where
  "tick_all cmd addr bs = rmap (bank_tick cmd addr) bs"

definition tick_one :: "nat \<Rightarrow> int \<Rightarrow> u32 \<Rightarrow> bank list \<Rightarrow> fault + bank list" where
  "tick_one ba cmd addr bs =
     in_bounds (ba < length bs) (rbind (bank_tick cmd addr (bs ! ba)) (\<lambda>b. Inr (bs[ba := b])))"

definition tick_others :: "nat \<Rightarrow> int \<Rightarrow> u32 \<Rightarrow> bank list \<Rightarrow> fault + bank list" where
  "tick_others ba cmd addr bs =
     rmap (\<lambda>i. if i \<noteq> ba then bank_tick cmd addr (bs ! i) else Inr (bs ! i)) [0..<length bs]"

section \<open>The chip\<close>

record timeslot =
  m_used :: bool
  m_read :: bool
  m_data :: u32
  m_rtt :: bool
  m_addr :: u32

record ddr =
  m_reset_state :: int
  m_reset_counts :: int
  m_memlen :: int
  m_busloc :: nat
  m_clocks_since_refresh :: int
  m_nrefresh_issued :: int
  m_last_dqs :: bool
  m_last_rtt :: bool
  m_mem :: "u32 list"
  m_bank :: "bank list"
  m_bus :: "timeslot list"

text \<open>The arguments of the call operator: the pins during one clock.\<close>

record ddr_pins =
  reset_n :: bool
  cke :: bool
  csn :: bool
  rasn :: bool
  casn :: bool
  wen :: bool
  dqs :: bool
  dm :: bool
  odt :: bool
  busoe :: bool
  addr :: u32
  ba :: u32
  data :: u32

definition ddr_new :: "nat \<Rightarrow> u32 list \<Rightarrow> ddr \<Rightarrow> ddr" where
  "ddr_new lglen mem junk =
     junk\<lparr>m_memlen := 2 ^ (lglen - 2), m_mem := mem, m_reset_state := 0, m_reset_counts := 0,
       m_bank := map bank_new (m_bank junk),
       m_bus := map (\<lambda>t. t\<lparr>m_used := False, m_rtt := False\<rparr>) (m_bus junk), m_busloc := 0\<rparr>"

definition ddr_cmd :: "ddr_pins \<Rightarrow> int" where
  "ddr_cmd p = (if reset_n p then 0 else 32) OR (if cke p then 0 else 16) OR (if csn p then 8 else 0)
     OR (if rasn p then 4 else 0) OR (if casn p then 2 else 0) OR (if wen p then 1 else 0)"

subsection \<open>Start-up\<close>

text \<open>
  The common shape of the states 2 to 7: wait for a command other than NOOP, which must not come
  before the limit and must be the right one.
\<close>

definition reset_await :: "int \<Rightarrow> bool \<Rightarrow> bool \<Rightarrow> int \<Rightarrow> ddr \<Rightarrow> fault + ddr" where
  "reset_await cmd late right next s =
     (if cmd \<noteq> DDR_NOOP
      then c_assert late (c_assert right (Inr (s\<lparr>m_reset_counts := 0, m_reset_state := next\<rparr>)))
      else Inr s)"

definition startup_step :: "ddr_pins \<Rightarrow> ddr \<Rightarrow> fault + ddr" where
  "startup_step p s =
     (let cmd = ddr_cmd p; st = m_reset_state s; n = m_reset_counts s + 1;
          s' = s\<lparr>m_reset_counts := n\<rparr>
      in if st = 0
         then (if reset_n p
               then c_assert (n > 40000) (Inr (s'\<lparr>m_reset_counts := 0, m_reset_state := 1\<rparr>))
               else Inr s')
         else if st = 1
         then (if cke p
               then c_assert (n > 100000) (Inr (s'\<lparr>m_reset_counts := 0, m_reset_state := 2\<rparr>))
               else Inr s')
         else if st = 2
         then c_assert (cke p) (reset_await cmd (n > 147)
                (cmd = DDR_MRSET \<and> ba p = 2 \<and> addr p = DDR_MR2) 3 s')
         else if st = 3
         then c_assert (cke p) (reset_await cmd True
                (cmd = DDR_MRSET \<and> ba p = 1 \<and> addr p = DDR_MR1) 4 s')
         else if st = 4
         then c_assert (cke p) (reset_await cmd (n > 3)
                (cmd = DDR_MRSET \<and> ba p = 0 \<and> addr p = DDR_MR0) 5 s')
         else if st = 5
         then c_assert (cke p) (reset_await cmd (n > 11) (cmd = DDR_ZQS \<and> addr p = 0x400) 6 s')
         else if st = 6
         then c_assert (cke p) (reset_await cmd (n > 512)
                (cmd = DDR_PRECHARGE \<and> addr p = 0x400) 7 s')
         else if st = 7
         then c_assert (cke p) (rbind (reset_await cmd (n > 3) (cmd = DDR_REFRESH) 8 s')
                (\<lambda>s. Inr (if cmd \<noteq> DDR_NOOP then s\<lparr>m_clocks_since_refresh := 0\<rparr> else s)))
         else if st = 8
         then c_assert (cke p) (c_assert (cmd = DDR_NOOP)
                (Inr (if n > 140 then s'\<lparr>m_reset_state := 16\<rparr> else s')))
         else Inr s)"

definition ddr_reset :: "ddr_pins \<Rightarrow> ddr \<Rightarrow> fault + ddr" where
  "ddr_reset p s =
     rbind (startup_step p s)
       (\<lambda>s. rbind (tick_all (ddr_cmd p) 0 (m_bank s))
          (\<lambda>bs. Inr (s\<lparr>m_nrefresh_issued := nREF,
                       m_clocks_since_refresh := m_clocks_since_refresh s + 1, m_bank := bs\<rparr>)))"

subsection \<open>Refresh\<close>

definition ddr_refresh :: "ddr_pins \<Rightarrow> ddr \<Rightarrow> fault + ddr" where
  "ddr_refresh p s =
     (let cmd = ddr_cmd p
      in rbind
           (if cmd = DDR_REFRESH
            then Inr (s\<lparr>m_clocks_since_refresh := 0,
                   m_nrefresh_issued := (if m_nrefresh_issued s \<ge> nREF then 1
                                         else m_nrefresh_issued s + 1)\<rparr>)
            else c_assert (cmd = DDR_NOOP)
                   (Inr (s\<lparr>m_clocks_since_refresh := m_clocks_since_refresh s + 1\<rparr>)))
           (\<lambda>s. rbind (tick_all cmd 0 (m_bank s)) (\<lambda>bs. Inr (s\<lparr>m_bank := bs\<rparr>))))"

subsection \<open>Bursts\<close>

definition slot :: "nat \<Rightarrow> nat" where
  "slot n = n AND (NTIMESLOTS - 1)"

definition burst_addr :: "u32 \<Rightarrow> u32 \<Rightarrow> u32 \<Rightarrow> u32" where
  "burst_addr row bk col =
     (let c = row; c = push_bit 3 c; c = c OR bk; c = push_bit 10 c; c = c OR col;
          c = c AND NOT 7
      in drop_bit 1 c)"

definition write_slot :: "u32 \<Rightarrow> nat \<Rightarrow> timeslot list \<Rightarrow> timeslot list" where
  "write_slot a n bus =
     bus[slot n := (bus ! slot n)\<lparr>m_addr := a, m_used := True, m_read := False\<rparr>]"

definition read_slot :: "u32 list \<Rightarrow> u32 \<Rightarrow> nat \<Rightarrow> timeslot list \<Rightarrow> fault + timeslot list" where
  "read_slot mem a n bus =
     in_bounds (unat a < length mem)
       (Inr (bus[slot n := (bus ! slot n)\<lparr>m_data := mem ! unat a, m_addr := a, m_used := True,
                                          m_read := True\<rparr>]))"

definition ddr_write_cmd :: "ddr_pins \<Rightarrow> ddr \<Rightarrow> fault + ddr" where
  "ddr_write_cmd p s =
     c_assert (addr p AND 7 = 0)
       (rbind (tick_one (unat (ba p)) DDR_WRITE (addr p) (m_bank s))
         (\<lambda>bs. rbind (tick_others (unat (ba p)) DDR_NOOP (addr p) bs)
         (\<lambda>bs. let caddr = burst_addr (m_row (bs ! unat (ba p))) (ba p) (addr p);
                   offset = m_busloc s + ckCL + 1
               in Inr (s\<lparr>m_bank := bs,
                    m_bus := write_slot (caddr + 3) (offset + 3) (write_slot (caddr + 2) (offset + 2)
                               (write_slot (caddr + 1) (offset + 1)
                                  (write_slot caddr offset (m_bus s))))\<rparr>))))"

definition ddr_read_cmd :: "ddr_pins \<Rightarrow> ddr \<Rightarrow> fault + ddr" where
  "ddr_read_cmd p s =
     c_assert (addr p AND 7 = 0)
       (rbind (tick_one (unat (ba p)) DDR_READ (addr p) (m_bank s))
         (\<lambda>bs. rbind (tick_others (unat (ba p)) DDR_NOOP (addr p) bs)
         (\<lambda>bs. let caddr = burst_addr (m_row (bs ! unat (ba p))) (ba p) (addr p);
                   offset = slot (m_busloc s + ckCL + 1)
               in rbind (read_slot (m_mem s) caddr offset (m_bus s))
                 (\<lambda>bus. rbind (read_slot (m_mem s) (caddr + 1) (offset + 1) bus)
                 (\<lambda>bus. rbind (read_slot (m_mem s) (caddr + 2) (offset + 2) bus)
                 (\<lambda>bus. rbind (read_slot (m_mem s) (caddr + 3) (offset + 3) bus)
                 (\<lambda>bus. Inr (s\<lparr>m_bank := bs, m_bus := bus\<rparr>))))))))"

subsection \<open>Operation\<close>

definition ddr_activate :: "ddr_pins \<Rightarrow> ddr \<Rightarrow> fault + ddr" where
  "ddr_activate p s =
     c_assert (m_clocks_since_refresh s \<ge> ckRFC)
       (rbind (tick_one (unat (ba p)) DDR_ACTIVATE (addr p) (m_bank s))
         (\<lambda>bs. rbind (tick_others (unat (ba p)) DDR_NOOP 0 bs)
         (\<lambda>bs. Inr (s\<lparr>m_bank := bs\<rparr>))))"

definition ddr_precharge :: "ddr_pins \<Rightarrow> ddr \<Rightarrow> fault + ddr" where
  "ddr_precharge p s =
     rbind (if addr p AND 0x400 \<noteq> 0 then tick_all DDR_PRECHARGE 0 (m_bank s)
            else rbind (tick_one (unat (ba p)) DDR_PRECHARGE 0 (m_bank s))
                   (tick_others (unat (ba p)) DDR_NOOP 0))
       (\<lambda>bs. Inr (s\<lparr>m_bank := bs\<rparr>))"

definition ddr_idle :: "ddr_pins \<Rightarrow> ddr \<Rightarrow> fault + ddr" where
  "ddr_idle p s = rbind (tick_all DDR_NOOP (addr p) (m_bank s)) (\<lambda>bs. Inr (s\<lparr>m_bank := bs\<rparr>))"

definition ddr_command :: "ddr_pins \<Rightarrow> ddr \<Rightarrow> fault + ddr" where
  "ddr_command p s =
     (let cmd = ddr_cmd p; s = s\<lparr>m_clocks_since_refresh := m_clocks_since_refresh s + 1\<rparr>
      in c_assert (m_clocks_since_refresh s < ckREFIn)
           (if cmd = DDR_MRSET then Inl Assertion
            else if cmd = DDR_REFRESH then Inl Assertion
            else if cmd = DDR_PRECHARGE then ddr_precharge p s
            else if cmd = DDR_ACTIVATE then ddr_activate p s
            else if cmd = DDR_WRITE then ddr_write_cmd p s
            else if cmd = DDR_READ then ddr_read_cmd p s
            else if cmd = DDR_ZQS then Inl Assertion
            else ddr_idle p s))"

definition ddr_operate :: "ddr_pins \<Rightarrow> ddr \<Rightarrow> fault + ddr" where
  "ddr_operate p s =
     rbind (ddr_command p s)
       (\<lambda>s. let ts = m_bus s ! slot (m_busloc s + 1)
            in if dqs p then c_assert (m_rtt ts \<and> m_last_rtt s) (Inr s)
               else if \<not> m_last_dqs s then c_assert (\<not> m_last_rtt s) (Inr s)
               else Inr s)"

definition ddr_phase :: "ddr_pins \<Rightarrow> ddr \<Rightarrow> fault + ddr" where
  "ddr_phase p s =
     (if m_reset_state s \<noteq> 0 \<and> \<not> reset_n p
      then Inr (s\<lparr>m_reset_state := 0, m_reset_counts := 0\<rparr>)
      else if m_reset_state s < 16 then ddr_reset p s
      else if \<not> cke p then Inl Assertion
      else if ddr_cmd p = DDR_REFRESH \<or> m_nrefresh_issued s < nREF then ddr_refresh p s
      else ddr_operate p s)"

subsection \<open>The data bus\<close>

definition dqs_ok :: "ddr_pins \<Rightarrow> timeslot \<Rightarrow> timeslot \<Rightarrow> ddr \<Rightarrow> bool" where
  "dqs_ok p ts nxtts s =
     (if m_used ts then (if m_read ts then \<not> dqs p \<and> \<not> m_last_dqs s else dqs p \<and> m_last_dqs s)
      else if \<not> m_used nxtts then \<not> dqs p else True)"

definition busoe_ok :: "ddr_pins \<Rightarrow> timeslot \<Rightarrow> bool" where
  "busoe_ok p ts \<longleftrightarrow> (\<not> m_used ts \<or> busoe p) \<or> (m_used ts \<and> m_read ts \<and> \<not> busoe p)
     \<or> (m_used ts \<and> \<not> m_read ts \<and> busoe p)"

definition ddr_bus :: "ddr_pins \<Rightarrow> ddr \<Rightarrow> fault + ddr \<times> u32" where
  "ddr_bus p s =
     (let s = s\<lparr>m_busloc := slot (m_busloc s + 1)\<rparr>; loc = m_busloc s;
          ts = m_bus s ! loc; nxtts = m_bus s ! slot (loc + 1); vl = m_data ts
      in c_assert (busoe_ok p ts)
        (let s = s\<lparr>m_last_dqs := dqs p, m_last_rtt := m_rtt ts\<rparr>
         in c_assert (dqs_ok p ts nxtts s)
           (c_assert (\<not> m_used ts \<or> uint (m_addr ts) < m_memlen s)
             (rbind
               (if m_used ts \<and> \<not> m_read ts \<and> \<not> dm p
                then in_bounds (unat (m_addr ts) < length (m_mem s))
                       (Inr (s\<lparr>m_mem := (m_mem s)[unat (m_addr ts) := data p]\<rparr>))
                else Inr s)
               (\<lambda>s. let bus = m_bus s;
                        bus = bus[slot (loc + 3) :=
                                    (bus ! slot (loc + 3))\<lparr>m_rtt := odt p \<and> reset_n p\<rparr>];
                        bus = bus[loc := (bus ! loc)\<lparr>m_used := False, m_read := False,
                                    m_addr := - 1, m_rtt := False\<rparr>]
                    in Inr (s\<lparr>m_bus := bus\<rparr>, if \<not> busoe p then vl else data p))))))"

definition ddr_step :: "ddr \<Rightarrow> ddr_pins \<Rightarrow> fault + ddr \<times> u32" where
  "ddr_step s p = rbind (ddr_phase p s) (ddr_bus p)"

end
