(* ===== verification/DdrLine.thy ===== *)
theory DdrLine
  imports Ddr
begin

text \<open>
  The data bus of the simulated SDRAM as a delay line.  The chip keeps 32 time slots in a ring
  that its location in \<open>m_busloc\<close> walks through; \<open>line_step\<close> is the same chip over a list whose
  head is the slot of this clock, without an index.  The chip refines it.
\<close>

section \<open>The delay line\<close>

definition line_write_cmd :: "ddr_pins \<Rightarrow> ddr \<Rightarrow> fault + ddr" where
  "line_write_cmd p s =
     c_assert (addr p AND 7 = 0)
       (rbind (tick_one (unat (ba p)) DDR_WRITE (addr p) (m_bank s))
         (\<lambda>bs. rbind (tick_others (unat (ba p)) DDR_NOOP (addr p) bs)
         (\<lambda>bs. let a = burst_addr (m_row (bs ! unat (ba p))) (ba p) (addr p);
                   w = (\<lambda>i l. l[i + ckCL := (l ! (i + ckCL))\<lparr>m_addr := a + of_nat i, m_used := True,
                                                             m_read := False\<rparr>])
               in Inr (s\<lparr>m_bank := bs, m_bus := w 3 (w 2 (w 1 (w 0 (m_bus s))))\<rparr>))))"

definition line_read_cmd :: "ddr_pins \<Rightarrow> ddr \<Rightarrow> fault + ddr" where
  "line_read_cmd p s =
     c_assert (addr p AND 7 = 0)
       (rbind (tick_one (unat (ba p)) DDR_READ (addr p) (m_bank s))
         (\<lambda>bs. rbind (tick_others (unat (ba p)) DDR_NOOP (addr p) bs)
         (\<lambda>bs. let a = burst_addr (m_row (bs ! unat (ba p))) (ba p) (addr p);
                   r = (\<lambda>i l. in_bounds (unat (a + of_nat i) < length (m_mem s))
                          (Inr (l[i + ckCL := (l ! (i + ckCL))\<lparr>m_data := m_mem s ! unat (a + of_nat i),
                                  m_addr := a + of_nat i, m_used := True, m_read := True\<rparr>])))
               in rbind (r 0 (m_bus s)) (\<lambda>l. rbind (r 1 l) (\<lambda>l. rbind (r 2 l) (\<lambda>l. rbind (r 3 l)
                    (\<lambda>l. Inr (s\<lparr>m_bank := bs, m_bus := l\<rparr>))))))))"

definition line_command :: "ddr_pins \<Rightarrow> ddr \<Rightarrow> fault + ddr" where
  "line_command p s =
     (let cmd = ddr_cmd p; s = s\<lparr>m_clocks_since_refresh := m_clocks_since_refresh s + 1\<rparr>
      in c_assert (m_clocks_since_refresh s < ckREFIn)
           (if cmd = DDR_PRECHARGE then ddr_precharge p s
            else if cmd = DDR_ACTIVATE then ddr_activate p s
            else if cmd = DDR_WRITE then line_write_cmd p s
            else if cmd = DDR_READ then line_read_cmd p s
            else if cmd \<in> {DDR_MRSET, DDR_REFRESH, DDR_ZQS} then Inl Assertion
            else ddr_idle p s))"

definition strobe_ok :: "ddr_pins \<Rightarrow> ddr \<Rightarrow> bool" where
  "strobe_ok p s \<longleftrightarrow>
     (if dqs p then m_rtt (hd (m_bus s)) \<and> m_last_rtt s else m_last_dqs s \<or> \<not> m_last_rtt s)"

definition line_phase :: "ddr_pins \<Rightarrow> ddr \<Rightarrow> fault + ddr" where
  "line_phase p s =
     (if m_reset_state s \<noteq> 0 \<and> \<not> reset_n p
      then Inr (s\<lparr>m_reset_state := 0, m_reset_counts := 0\<rparr>)
      else if m_reset_state s < 16 then ddr_reset p s
      else if \<not> cke p then Inl Assertion
      else if ddr_cmd p = DDR_REFRESH \<or> m_nrefresh_issued s < nREF then ddr_refresh p s
      else rbind (line_command p s) (\<lambda>s. c_assert (strobe_ok p s) (Inr s)))"

definition line_ok :: "ddr_pins \<Rightarrow> timeslot \<Rightarrow> timeslot \<Rightarrow> bool" where
  "line_ok p t next \<longleftrightarrow>
     (if m_used t then (if m_read t then \<not> dqs p else dqs p \<and> busoe p)
      else m_used next \<or> \<not> dqs p)"

definition free_slot :: "timeslot \<Rightarrow> timeslot" where
  "free_slot t = t\<lparr>m_used := False, m_read := False, m_addr := - 1, m_rtt := False\<rparr>"

definition line_bus :: "ddr_pins \<Rightarrow> ddr \<Rightarrow> fault + ddr \<times> u32" where
  "line_bus p s =
     (let l = m_bus s; t = hd l
      in c_assert (line_ok p t (l ! 1) \<and> (m_used t \<longrightarrow> uint (m_addr t) < m_memlen s))
           (Inr (s\<lparr>m_last_dqs := dqs p, m_last_rtt := m_rtt t,
                   m_mem := (if m_used t \<and> \<not> m_read t \<and> \<not> dm p
                             then (m_mem s)[unat (m_addr t) := data p] else m_mem s),
                   m_bus := tl (l[3 := (l ! 3)\<lparr>m_rtt := odt p \<and> reset_n p\<rparr>]) @ [free_slot t]\<rparr>,
                 if busoe p then data p else m_data t)))"

definition line_step :: "ddr \<Rightarrow> ddr_pins \<Rightarrow> fault + ddr \<times> u32" where
  "line_step s p = rbind (line_phase p s) (line_bus p)"

section \<open>The chip refines it\<close>

definition ddr_wf :: "ddr \<Rightarrow> bool" where
  "ddr_wf s \<longleftrightarrow> length (m_bus s) = NTIMESLOTS \<and> m_busloc s < NTIMESLOTS
     \<and> int (length (m_mem s)) = m_memlen s \<and> length (m_bank s) = NBANKS"

definition ring :: "nat \<Rightarrow> 'a list \<Rightarrow> 'a list" where
  "ring n l = rotate n l"

definition unroll :: "ddr \<Rightarrow> ddr" where
  "unroll s = s\<lparr>m_busloc := 0, m_bus := ring (m_busloc s + 1) (m_bus s)\<rparr>"

lemma slot_mod: "slot n = n mod 32"
proof -
  have "slot n = n AND mask 5" by (simp add: slot_def NTIMESLOTS_def mask_eq_exp_minus_1)
  then show ?thesis by (simp add: take_bit_eq_mask [symmetric] take_bit_eq_mod)
qed

lemma shifted_mod_eq:
  assumes "i < k" and "j < k"
  shows "(n + i) mod k = (n + j) mod k \<longleftrightarrow> i = (j :: nat)"
proof
  assume "(n + i) mod k = (n + j) mod k"
  then have "int ((n + i) mod k) = int ((n + j) mod k)" by (rule arg_cong)
  then have "(int n + int i) mod int k = (int n + int j) mod int k" by (simp add: zmod_int)
  then have d: "int k dvd int i - int j" by (simp add: mod_eq_dvd_iff)
  show "i = j"
  proof (rule ccontr)
    assume "i \<noteq> j"
    with d have "\<bar>int k\<bar> \<le> \<bar>int i - int j\<bar>" by (intro dvd_imp_le_int) auto
    with assms show False by linarith
  qed
qed simp

lemma length_ring [simp]: "length (ring n l) = length l"
  by (simp add: ring_def)

lemma ring_nth: "length l = 32 \<Longrightarrow> i < 32 \<Longrightarrow> ring n l ! i = l ! slot (n + i)"
  by (simp add: ring_def nth_rotate slot_mod)

lemma ring_update:
  assumes "length l = 32" and "i < 32"
  shows "ring n (l[slot (n + i) := x]) = (ring n l)[i := x]"
proof (rule nth_equalityI)
  fix j assume "j < length (ring n (l[slot (n + i) := x]))"
  with assms have j: "j < 32" by simp
  with assms have "slot (n + i) = slot (n + j) \<longleftrightarrow> i = j"
    by (simp only: slot_mod shifted_mod_eq)
  moreover have "slot (n + j) < 32" by (simp add: slot_mod)
  ultimately show "ring n (l[slot (n + i) := x]) ! j = (ring n l)[i := x] ! j"
    using assms j by (simp add: ring_nth nth_list_update)
qed simp

lemma slot_slot [simp]: "slot (slot n + i) = slot (n + i)" "slot (Suc (slot n)) = slot (Suc n)"
  by (simp_all add: slot_mod mod_simps)

lemma slot_less [simp]: "slot n < 32"
  by (simp add: slot_mod)

lemma ring_advance:
  assumes "length l = 32"
  shows "ring (slot n + 1) l = tl (ring n l) @ [hd (ring n l)]"
proof -
  have "rotate (slot n) l = rotate n l"
    using assms rotate_conv_mod [of n l] by (simp add: slot_mod)
  moreover have "rotate n l \<noteq> []" using assms by auto
  ultimately show ?thesis by (cases "rotate n l") (simp_all add: ring_def)
qed

subsection \<open>What does not touch the bus\<close>

definition with_bus :: "nat \<Rightarrow> timeslot list \<Rightarrow> ddr \<Rightarrow> ddr" where
  "with_bus b l s = s\<lparr>m_busloc := b, m_bus := l\<rparr>"

lemma with_bus_simps [simp]:
  "m_reset_state (with_bus b l s) = m_reset_state s"
  "m_reset_counts (with_bus b l s) = m_reset_counts s"
  "m_memlen (with_bus b l s) = m_memlen s"
  "m_busloc (with_bus b l s) = b"
  "m_clocks_since_refresh (with_bus b l s) = m_clocks_since_refresh s"
  "m_nrefresh_issued (with_bus b l s) = m_nrefresh_issued s"
  "m_last_dqs (with_bus b l s) = m_last_dqs s"
  "m_last_rtt (with_bus b l s) = m_last_rtt s"
  "m_mem (with_bus b l s) = m_mem s"
  "m_bank (with_bus b l s) = m_bank s"
  "m_bus (with_bus b l s) = l"
  by (simp_all add: with_bus_def)

lemma with_bus_update [simp]:
  "m_reset_state_update f1 (with_bus b l s) = with_bus b l (m_reset_state_update f1 s)"
  "m_reset_counts_update f2 (with_bus b l s) = with_bus b l (m_reset_counts_update f2 s)"
  "m_memlen_update f3 (with_bus b l s) = with_bus b l (m_memlen_update f3 s)"
  "m_clocks_since_refresh_update f4 (with_bus b l s) = with_bus b l (m_clocks_since_refresh_update f4 s)"
  "m_nrefresh_issued_update f5 (with_bus b l s) = with_bus b l (m_nrefresh_issued_update f5 s)"
  "m_last_dqs_update f6 (with_bus b l s) = with_bus b l (m_last_dqs_update f6 s)"
  "m_last_rtt_update f7 (with_bus b l s) = with_bus b l (m_last_rtt_update f7 s)"
  "m_mem_update f8 (with_bus b l s) = with_bus b l (m_mem_update f8 s)"
  "m_bank_update f9 (with_bus b l s) = with_bus b l (m_bank_update f9 s)"
  by (simp_all add: with_bus_def)

definition bus_free :: "(ddr \<Rightarrow> fault + ddr) \<Rightarrow> bool" where
  "bus_free f \<longleftrightarrow> (\<forall>s b l. f (with_bus b l s) = rbind (f s) (\<lambda>s'. Inr (with_bus b l s')))"

lemma bus_freeD: "bus_free f \<Longrightarrow> f (with_bus b l s) = rbind (f s) (\<lambda>s'. Inr (with_bus b l s'))"
  by (simp add: bus_free_def)

lemma bus_free_keeps:
  assumes "bus_free f" and "f s = Inr s'"
  shows "m_busloc s' = m_busloc s" and "m_bus s' = m_bus s"
proof -
  have "with_bus (m_busloc s) (m_bus s) s = s" by (simp add: with_bus_def)
  with assms have "Inr s' = rbind (f s) (\<lambda>s'. Inr (with_bus (m_busloc s) (m_bus s) s'))"
    using bus_freeD by metis
  with assms(2) have s': "s' = with_bus (m_busloc s) (m_bus s) s'" by (metis rbind_simps(2) sum.inject(2))
  show "m_busloc s' = m_busloc s" and "m_bus s' = m_bus s"
    using arg_cong [OF s', of m_busloc] arg_cong [OF s', of m_bus] by simp_all
qed

lemma bus_free_reset_step: "bus_free (startup_step p)"
  by (simp add: bus_free_def startup_step_def reset_await_def Let_def c_assert_bind)

lemma bus_free_commands:
  "bus_free (ddr_idle p)" "bus_free (ddr_precharge p)" "bus_free (ddr_activate p)"
  by (simp_all add: bus_free_def ddr_idle_def ddr_precharge_def ddr_activate_def c_assert_bind)

lemma bus_free_reset: "bus_free (ddr_reset p)"
  using bus_free_reset_step [of p, THEN bus_freeD]
  by (simp add: bus_free_def ddr_reset_def)

lemma bus_free_refresh: "bus_free (ddr_refresh p)"
  by (simp add: bus_free_def ddr_refresh_def Let_def c_assert_bind)

lemma unroll_with_bus: "unroll s = with_bus 0 (ring (m_busloc s + 1) (m_bus s)) s"
  by (simp add: unroll_def with_bus_def)

lemma bus_free_unroll:
  assumes "bus_free f"
  shows "f (unroll s) = rbind (f s) (\<lambda>s'. Inr (unroll s'))"
proof (cases "f s")
  case (Inr s')
  then show ?thesis
    using bus_free_keeps [OF assms Inr] by (simp add: unroll_with_bus bus_freeD [OF assms])
qed (simp add: unroll_with_bus bus_freeD [OF assms])

subsection \<open>Bursts, strobe and bus\<close>

lemma ring_write_slot:
  assumes "length l = 32" and "i < 4"
  shows "ring (b + 1) (write_slot a (b + ckCL + 1 + i) l) =
    (ring (b + 1) l)[i + ckCL := (ring (b + 1) l ! (i + ckCL))\<lparr>m_addr := a, m_used := True,
                                                               m_read := False\<rparr>]"
proof -
  have "b + ckCL + 1 + i = (b + 1) + (i + ckCL)" by simp
  moreover have "i + ckCL < 32" using assms by (simp add: ckCL_def)
  ultimately show ?thesis
    using assms by (simp only: write_slot_def ring_update ring_nth)
qed

lemma ring_read_slot:
  assumes "length l = 32" and "i < 4"
  shows "rbind (read_slot mem a (slot (b + ckCL + 1) + i) l) (\<lambda>l. Inr (ring (b + 1) l)) =
    in_bounds (unat a < length mem)
      (Inr ((ring (b + 1) l)[i + ckCL := (ring (b + 1) l ! (i + ckCL))
              \<lparr>m_data := mem ! unat a, m_addr := a, m_used := True, m_read := True\<rparr>]))"
proof -
  have "slot (slot (b + ckCL + 1) + i) = slot ((b + 1) + (i + ckCL))"
    by (simp only: slot_slot(1)) (simp add: add.assoc add.commute add.left_commute)
  moreover have "i + ckCL < 32" using assms by (simp add: ckCL_def)
  ultimately show ?thesis
    using assms by (simp only: read_slot_def in_bounds_bind rbind_simps ring_update ring_nth)
qed

lemma length_write_slot [simp]: "length (write_slot a n l) = length l"
  by (simp add: write_slot_def)

lemma read_slot_length: "read_slot mem a n l = Inr l' \<Longrightarrow> length l' = length l"
  by (auto simp: read_slot_def)

lemma unroll_fields [simp]:
  "m_reset_state (unroll s) = m_reset_state s"
  "m_reset_counts (unroll s) = m_reset_counts s"
  "m_memlen (unroll s) = m_memlen s"
  "m_busloc (unroll s) = 0"
  "m_clocks_since_refresh (unroll s) = m_clocks_since_refresh s"
  "m_nrefresh_issued (unroll s) = m_nrefresh_issued s"
  "m_last_dqs (unroll s) = m_last_dqs s"
  "m_last_rtt (unroll s) = m_last_rtt s"
  "m_mem (unroll s) = m_mem s"
  "m_bank (unroll s) = m_bank s"
  "m_bus (unroll s) = ring (m_busloc s + 1) (m_bus s)"
  by (simp_all add: unroll_with_bus)

lemma unroll_set_bus:
  "unroll (s\<lparr>m_bank := bs, m_bus := l\<rparr>) =
     (unroll s)\<lparr>m_bank := bs, m_bus := ring (m_busloc s + 1) l\<rparr>"
  by (simp add: unroll_def)

lemma write_cmd_unroll:
  assumes "length (m_bus s) = 32"
  shows "line_write_cmd p (unroll s) = rbind (ddr_write_cmd p s) (\<lambda>s'. Inr (unroll s'))"
  using assms ring_write_slot [of _ 0 "m_busloc s"] ring_write_slot [of _ 1 "m_busloc s"]
    ring_write_slot [of _ 2 "m_busloc s"] ring_write_slot [of _ 3 "m_busloc s"]
  by (simp add: line_write_cmd_def ddr_write_cmd_def Let_def c_assert_bind unroll_set_bus)

lemma ring_read_bind:
  assumes "length l = 32" and "i < 4"
    and "\<And>l'. length l' = 32 \<Longrightarrow> f (ring (b + 1) l') = g l'"
  shows "rbind (in_bounds (unat a < length mem)
      (Inr ((ring (b + 1) l)[i + ckCL := (ring (b + 1) l ! (i + ckCL))
              \<lparr>m_data := mem ! unat a, m_addr := a, m_used := True, m_read := True\<rparr>]))) f =
    rbind (read_slot mem a (slot (b + ckCL + 1) + i) l) g"
  using assms(1) ring_read_slot [OF assms(1,2), of mem a b, symmetric] assms(3) read_slot_length
  by (cases "read_slot mem a (slot (b + ckCL + 1) + i) l") fastforce+

lemma read_cmd_unroll:
  assumes "length (m_bus s) = 32"
  shows "line_read_cmd p (unroll s) = rbind (ddr_read_cmd p s) (\<lambda>s'. Inr (unroll s'))"
  unfolding line_read_cmd_def ddr_read_cmd_def Let_def c_assert_bind rbind_assoc unroll_fields
  apply (rule c_assert_cong, rule rbind_cong, rule rbind_cong)
  unfolding semiring_1_class.of_nat_0 of_nat_1 of_nat_numeral add_0_right
  by (rule ring_read_bind [where i = 0, unfolded add_0_right], simp add: assms, simp,
      rule ring_read_bind [where i = 1], simp, simp, rule ring_read_bind [where i = 2], simp, simp,
      rule ring_read_bind [where i = 3], simp, simp, simp add: unroll_set_bus)

lemma ring_rotated:
  assumes "length l = 32"
  shows "ring (slot n + 1)
      (l[slot (slot n + 3) := x (l ! slot (slot n + 3)),
         slot n := y (l[slot (slot n + 3) := x (l ! slot (slot n + 3))] ! slot n)]) =
    tl ((ring n l)[3 := x (ring n l ! 3)]) @ [y (hd (ring n l))]"
proof -
  let ?l = "l[slot (n + 3) := x (l ! slot (n + 3))]"
  have "(3::nat) < 32" and "(0::nat) < 32" by simp_all
  note three = this(1) and zero = this(2)
  have u: "ring n ?l = (ring n l)[3 := x (ring n l ! 3)]"
    using assms by (simp add: ring_update ring_nth)
  have "?l ! slot n = ring n ?l ! 0"
    using ring_nth [of ?l 0 n] assms by simp
  also have "\<dots> = hd (ring n l)"
    using assms by (cases "ring n l") (simp_all add: u length_ring [symmetric, of l n] del: length_ring)
  finally have h: "?l ! slot n = hd (ring n l)" .
  have "ring n (?l[slot n := y (?l ! slot n)]) = (ring n ?l)[0 := y (?l ! slot n)]"
    using ring_update [of ?l 0 n] assms by simp
  moreover have "ring n l \<noteq> []" using assms by (metis length_ring list.size(3) zero_neq_numeral)
  ultimately show ?thesis
    using assms h by (cases "ring n l") (simp_all add: ring_advance [simplified] u)
qed

lemma line_ok_bus:
  "m_last_dqs s = dqs p \<Longrightarrow> line_ok p t next \<longleftrightarrow> busoe_ok p t \<and> dqs_ok p t next s"
  by (auto simp: line_ok_def busoe_ok_def dqs_ok_def)

lemma c_assert_nest: "c_assert a (c_assert b r) = c_assert (a \<and> b) r"
  by (simp add: c_assert_def)

lemma addr_in_memory:
  assumes "ddr_wf s" and "uint (a :: u32) < m_memlen s"
  shows "unat a < length (m_mem s)"
proof -
  from assms have "uint a < int (length (m_mem s))" by (simp add: ddr_wf_def)
  then show ?thesis by (simp only: unat_eq_nat_uint nat_less_iff unsigned_greater_eq)
qed

text \<open>The bus phase in closed form: \<open>t\<close> is the slot of this clock and \<open>l\<close> the ring.\<close>

definition bus_mem :: "ddr_pins \<Rightarrow> timeslot \<Rightarrow> u32 list \<Rightarrow> u32 list" where
  "bus_mem p t mem =
     (if m_used t \<and> \<not> m_read t \<and> \<not> dm p then mem[unat (m_addr t) := data p] else mem)"

definition bus_ring :: "ddr_pins \<Rightarrow> nat \<Rightarrow> timeslot list \<Rightarrow> timeslot list" where
  "bus_ring p n l =
     (let l' = l[slot (slot n + 3) := (l ! slot (slot n + 3))\<lparr>m_rtt := odt p \<and> reset_n p\<rparr>]
      in l'[slot n := free_slot (l' ! slot n)])"

lemma bus_closed:
  assumes "ddr_wf s" and n: "Suc (m_busloc s) = n" and l: "m_bus s = l" and t: "l ! slot n = t"
  shows "ddr_bus p s =
    c_assert (line_ok p t (l ! slot (slot n + 1)) \<and> (m_used t \<longrightarrow> uint (m_addr t) < m_memlen s))
      (Inr (s\<lparr>m_busloc := slot n, m_last_dqs := dqs p, m_last_rtt := m_rtt t,
              m_mem := bus_mem p t (m_mem s), m_bus := bus_ring p n l\<rparr>,
            if busoe p then data p else m_data t))"
    (is "_ = c_assert ?ok _")
proof -
  let ?s = "s\<lparr>m_busloc := slot n, m_last_dqs := dqs p, m_last_rtt := m_rtt t\<rparr>"
  have "line_ok p t (l ! slot (slot n + 1)) \<longleftrightarrow> busoe_ok p t \<and> dqs_ok p t (l ! slot (slot n + 1)) ?s"
    by (rule line_ok_bus) simp
  then have ok: "?ok \<longleftrightarrow> busoe_ok p t \<and> dqs_ok p t (l ! slot (slot n + 1)) ?s
      \<and> (\<not> m_used t \<or> uint (m_addr t) < m_memlen s)" by blast
  show ?thesis
  proof (cases ?ok)
    case True
    then have "(if m_used t \<and> \<not> m_read t \<and> \<not> dm p
        then in_bounds (unat (m_addr t) < length (m_mem s))
               (Inr (?s\<lparr>m_mem := (m_mem s)[unat (m_addr t) := data p]\<rparr>)) else Inr ?s) =
        Inr (?s\<lparr>m_mem := bus_mem p t (m_mem s)\<rparr>)"
      using addr_in_memory [OF assms(1), of "m_addr t"] by (simp add: bus_mem_def)
    with True ok show ?thesis
      by (simp add: ddr_bus_def Let_def n l t bus_ring_def free_slot_def split del: if_split
          cong: if_cong) simp
  next
    case False
    with ok have no: "\<not> (busoe_ok p t \<and> dqs_ok p t (l ! slot (slot n + 1)) ?s
        \<and> (\<not> m_used t \<or> uint (m_addr t) < m_memlen s))" by (simp only: not_False_eq_True)
    have fails: "\<not> (a \<and> b \<and> c) \<Longrightarrow> c_assert a (c_assert b (c_assert c r)) = Inl Assertion"
      for a b c and r :: "fault + ddr \<times> u32" by (auto simp: c_assert_def)
    from no have "ddr_bus p s = Inl Assertion"
      unfolding ddr_bus_def Let_def by (intro fails) (simp add: n l t)
    with False show ?thesis by (simp only: c_assert_simps)
  qed
qed

lemma bus_unroll:
  assumes "ddr_wf s"
  shows "line_bus p (unroll s) = rbind (ddr_bus p s) (\<lambda>(s', x). Inr (unroll s', x))"
proof -
  define n where "n = Suc (m_busloc s)"
  define l where "l = m_bus s"
  define t where "t = l ! slot n"
  have l: "length l = 32" using assms by (simp add: ddr_wf_def NTIMESLOTS_def l_def)
  then have "ring n l ! 0 = t" using ring_nth [of l 0 n] by (simp add: t_def)
  moreover from l have "ring n l \<noteq> []" by (metis length_ring list.size(3) zero_neq_numeral)
  ultimately have h: "hd (ring n l) = t" by (simp add: hd_conv_nth)
  have nx: "ring n l ! 1 = l ! slot (slot n + 1)" using l ring_nth [of l 1 n] by simp
  have "ring (slot n + 1) (bus_ring p n l) =
      tl ((ring n l)[3 := (ring n l ! 3)\<lparr>m_rtt := odt p \<and> reset_n p\<rparr>]) @ [free_slot t]"
    using ring_rotated [OF l, of n "\<lambda>t. t\<lparr>m_rtt := odt p \<and> reset_n p\<rparr>" free_slot] h
    by (simp add: bus_ring_def Let_def)
  then show ?thesis
    using bus_closed [OF assms n_def [symmetric] l_def [symmetric] t_def [symmetric], of p]
    by (simp add: line_bus_def Let_def bus_mem_def n_def [symmetric] l_def [symmetric] h
        nx [simplified] c_assert_bind unroll_def split del: if_split cong: if_cong) (cases s, simp)
qed

lemma strobe_unroll:
  assumes "length (m_bus s) = 32"
  shows "c_assert (strobe_ok p (unroll s)) (Inr (unroll s)) =
    rbind (let ts = m_bus s ! slot (m_busloc s + 1)
           in if dqs p then c_assert (m_rtt ts \<and> m_last_rtt s) (Inr s)
              else if \<not> m_last_dqs s then c_assert (\<not> m_last_rtt s) (Inr s)
              else Inr s)
      (\<lambda>s. Inr (unroll s))"
proof -
  have "ring (Suc (m_busloc s)) (m_bus s) \<noteq> []"
    using assms by (metis length_ring list.size(3) zero_neq_numeral)
  then have "hd (m_bus (unroll s)) = m_bus s ! slot (m_busloc s + 1)"
    using assms ring_nth [of "m_bus s" 0 "m_busloc s + 1"] by (simp add: hd_conv_nth)
  then show ?thesis by (simp add: strobe_ok_def Let_def c_assert_def)
qed

lemma command_unroll:
  assumes "length (m_bus s) = 32"
  shows "line_command p (unroll s) = rbind (ddr_command p s) (\<lambda>s'. Inr (unroll s'))"
proof -
  let ?s = "s\<lparr>m_clocks_since_refresh := m_clocks_since_refresh s + 1\<rparr>"
  have u: "(unroll s)\<lparr>m_clocks_since_refresh := m_clocks_since_refresh s + 1\<rparr> = unroll ?s"
    by (simp add: unroll_def)
  show ?thesis
    using bus_free_commands [of p, THEN bus_free_unroll, of ?s]
      write_cmd_unroll [of ?s p] read_cmd_unroll [of ?s p] assms
    by (simp add: line_command_def ddr_command_def Let_def c_assert_bind ddr_cmds u)
qed

subsection \<open>The bus keeps its size\<close>

lemma tick_one_length: "tick_one k cmd a bs = Inr bs' \<Longrightarrow> length bs' = length bs"
  by (auto simp: tick_one_def)

lemma rmap_length: "rmap f xs = Inr ys \<Longrightarrow> length ys = length xs"
  by (induction xs arbitrary: ys) auto

lemma tick_length:
  "tick_all cmd a bs = Inr bs' \<Longrightarrow> length bs' = length bs"
  "tick_others k cmd a bs = Inr bs' \<Longrightarrow> length bs' = length bs"
  by (auto simp: tick_all_def tick_others_def dest: rmap_length)

lemmas tick_lengths = tick_length tick_one_length

definition same_size :: "ddr \<Rightarrow> ddr \<Rightarrow> bool" where
  "same_size s s' \<longleftrightarrow> length (m_bus s') = length (m_bus s) \<and> m_busloc s' = m_busloc s
     \<and> m_mem s' = m_mem s \<and> m_memlen s' = m_memlen s \<and> length (m_bank s') = length (m_bank s)"

lemma reset_step_size: "startup_step p s = Inr s' \<Longrightarrow> same_size s s'"
  by (auto simp: startup_step_def reset_await_def Let_def same_size_def split: if_splits)

lemma command_size:
  "ddr_precharge p s = Inr s' \<Longrightarrow> same_size s s'"
  "ddr_activate p s = Inr s' \<Longrightarrow> same_size s s'"
  "ddr_write_cmd p s = Inr s' \<Longrightarrow> same_size s s'"
  "ddr_read_cmd p s = Inr s' \<Longrightarrow> same_size s s'"
  "ddr_idle p s = Inr s' \<Longrightarrow> same_size s s'"
  by (auto simp: ddr_precharge_def ddr_activate_def ddr_write_cmd_def ddr_read_cmd_def ddr_idle_def
      same_size_def Let_def split: if_splits dest!: tick_lengths read_slot_length)

lemma same_size_clock [simp]:
  "same_size (s\<lparr>m_clocks_since_refresh := n\<rparr>) s' = same_size s s'"
  by (simp add: same_size_def)

lemma command_keeps_size: "ddr_command p s = Inr s' \<Longrightarrow> same_size s s'"
  by (auto simp: ddr_command_def Let_def split: if_splits dest: command_size)

lemma phase_size:
  assumes "ddr_phase p s = Inr s'"
  shows "same_size s s'"
proof -
  consider "s' = s\<lparr>m_reset_state := 0, m_reset_counts := 0\<rparr>" | "ddr_reset p s = Inr s'"
    | "ddr_refresh p s = Inr s'" | "ddr_operate p s = Inr s'"
    using assms unfolding ddr_phase_def by (metis sum.distinct(1) sum.inject(2))
  then show ?thesis
  proof cases
    case 2
    then show ?thesis
      by (auto simp: ddr_reset_def same_size_def dest!: reset_step_size tick_lengths)
  next
    case 3
    then show ?thesis
      by (auto simp: ddr_refresh_def Let_def same_size_def split: if_splits dest!: tick_lengths)
  next
    case 4
    then show ?thesis
      by (auto simp: ddr_operate_def Let_def split: if_splits dest: command_keeps_size)
  qed (simp add: same_size_def)
qed

lemma ddr_wf_size: "same_size s s' \<Longrightarrow> ddr_wf s \<Longrightarrow> ddr_wf s'"
  by (simp add: same_size_def ddr_wf_def)

lemma length_bus_mem [simp]: "length (bus_mem p t mem) = length mem"
  by (simp add: bus_mem_def)

lemma length_bus_ring [simp]: "length (bus_ring p n l) = length l"
  by (simp add: bus_ring_def Let_def)

lemma bus_wf:
  assumes "ddr_wf s" and "ddr_bus p s = Inr (s', x)"
  shows "ddr_wf s'"
proof -
  define n where "n = Suc (m_busloc s)"
  define t where "t = m_bus s ! slot n"
  have "s' = s\<lparr>m_busloc := slot n, m_last_dqs := dqs p, m_last_rtt := m_rtt t,
      m_mem := bus_mem p t (m_mem s), m_bus := bus_ring p n (m_bus s)\<rparr>"
    using assms(2) unfolding bus_closed [OF assms(1) n_def [symmetric] refl t_def [symmetric]]
    by simp
  then show ?thesis using assms(1) by (simp add: ddr_wf_def NTIMESLOTS_def)
qed

lemma ddr_step_wf: "ddr_wf s \<Longrightarrow> ddr_step s p = Inr (s', x) \<Longrightarrow> ddr_wf s'"
  by (auto simp: ddr_step_def dest: phase_size ddr_wf_size bus_wf)

lemma phase_unroll:
  assumes "length (m_bus s) = 32"
  shows "line_phase p (unroll s) = rbind (ddr_phase p s) (\<lambda>s'. Inr (unroll s'))"
proof -
  have restart: "(unroll s)\<lparr>m_reset_state := 0, m_reset_counts := 0\<rparr> =
      unroll (s\<lparr>m_reset_state := 0, m_reset_counts := 0\<rparr>)"
    by (simp add: unroll_def)
  have "rbind (line_command p (unroll s)) (\<lambda>s. c_assert (strobe_ok p s) (Inr s)) =
      rbind (ddr_operate p s) (\<lambda>s'. Inr (unroll s'))"
  proof (cases "ddr_command p s")
    case (Inr s1)
    then have "length (m_bus s1) = 32" using assms command_keeps_size by (simp add: same_size_def)
    with Inr show ?thesis
      using assms strobe_unroll [of s1 p] by (simp add: command_unroll ddr_operate_def)
  qed (simp add: ddr_operate_def command_unroll assms)
  then show ?thesis
    using restart bus_free_reset [THEN bus_free_unroll] bus_free_refresh [THEN bus_free_unroll]
    by (simp add: line_phase_def ddr_phase_def)
qed

lemma step_unroll:
  assumes "ddr_wf s"
  shows "line_step (unroll s) p = rbind (ddr_step s p) (\<lambda>(s', x). Inr (unroll s', x))"
  using assms phase_unroll [of s p]
  by (cases "ddr_phase p s")
     (auto simp: line_step_def ddr_step_def ddr_wf_def NTIMESLOTS_def
       intro!: bus_unroll dest!: phase_size simp: same_size_def)

lemma run_unroll:
  "ddr_wf s \<Longrightarrow> run line_step (unroll s) ps = rbind (run ddr_step s ps) (\<lambda>(s', xs). Inr (unroll s', xs))"
proof (induction ps arbitrary: s)
  case (Cons p ps)
  show ?case
  proof (cases "ddr_step s p")
    case (Inr r)
    obtain s1 x where r: "r = (s1, x)" by force
    with Inr have "ddr_wf s1" using ddr_step_wf [OF Cons.prems] by simp
    from Cons.IH [OF this] show ?thesis
      using step_unroll [OF Cons.prems, of p] Inr r by (cases "run ddr_step s1 ps") auto
  qed (simp add: step_unroll [OF Cons.prems])
qed simp

lemma run_wf: "ddr_wf s \<Longrightarrow> run ddr_step s ps = Inr (s', xs) \<Longrightarrow> ddr_wf s'"
  by (induction ps arbitrary: s xs) (auto dest: ddr_step_wf)

end
