(* ===== verification/DdrBank.thy ===== *)
theory DdrBank
  imports DdrLine
begin

text \<open>
  The timing rules of the banks.  A bank keeps eleven bits: the lowest says whether a row is
  open, and every clock on which the bank has nothing to do shifts it up, so that bit \<open>i\<close> says
  whether a row was open \<open>i\<close> such clocks ago.  From that the rules follow for every accepted run
  of the chip: a row must have been open for ten clocks before it is read or written, and a
  bank closed for ten before the next row is opened or a refresh is done.

  A history is a list of the commands and addresses that a bank has seen, the newest first.
\<close>

section \<open>Histories\<close>

type_synonym history = "(int \<times> u32) list"

fun opened :: "history \<Rightarrow> bool" where
  "opened [] = False"
| "opened (c # h) = (fst c = DDR_ACTIVATE \<or> fst c \<noteq> DDR_PRECHARGE \<and> opened h)"

fun opened_ago :: "nat \<Rightarrow> history \<Rightarrow> bool" where
  "opened_ago 0 h = opened h"
| "opened_ago (Suc n) [] = False"
| "opened_ago (Suc n) (c # h) =
     (if fst c = DDR_NOOP then opened_ago n h else opened_ago (Suc n) h)"

fun last_row :: "history \<Rightarrow> u32 option" where
  "last_row [] = None"
| "last_row (c # h) = (if fst c = DDR_ACTIVATE then Some (snd c AND 0x7fff) else last_row h)"

definition may_follow :: "int \<Rightarrow> history \<Rightarrow> bool" where
  "may_follow c h \<longleftrightarrow>
     (c = DDR_ACTIVATE \<or> c = DDR_REFRESH \<longrightarrow> (\<forall>i < ckRP. \<not> opened_ago i h))
     \<and> (c = DDR_READ \<or> c = DDR_WRITE \<longrightarrow> (\<forall>i < ckRP. opened_ago i h))"

fun legal :: "history \<Rightarrow> bool" where
  "legal [] = True"
| "legal (c # h) = (legal h \<and> may_follow (fst c) h)"

definition bank_inv :: "history \<Rightarrow> bank \<Rightarrow> bool" where
  "bank_inv h b \<longleftrightarrow> (\<forall>i. bit (m_state b) i \<longleftrightarrow> i < ckRP \<and> opened_ago i h)
     \<and> (\<forall>r. last_row h = Some r \<longrightarrow> m_row b = r) \<and> legal h"

section \<open>The bits of a bank\<close>

lemma bank_mask_eq: "bank_mask = mask ckRP"
  by (simp add: bank_mask_def ckRP_def mask_eq_exp_minus_1)

lemma bit_bank_mask: "bit bank_mask i \<longleftrightarrow> i < ckRP"
  by (auto simp: bank_mask_eq bit_low_mask ckRP_def)

lemma word_eq_bits: "(x :: u32) = y \<longleftrightarrow> (\<forall>i. bit x i \<longleftrightarrow> bit y i)"
  by (auto intro: bit_word_eqI)

lemma bit_two: "bit (2 :: u32) i \<longleftrightarrow> i = 1"
  using bit_exp_iff [of 1 i, where 'a = u32] by auto

lemma bit_bank_shift:
  "bit (bank_shift st) i \<longleftrightarrow> i < ckRP \<and> (if i = 0 then bit st 0 else bit st (i - 1))"
proof -
  have low: "bit (drop_bit 1 (shl1 st AND 2)) n \<longleftrightarrow> n = 0 \<and> bit st 0" for n
    by (simp only: bit_drop_bit_eq comp_def bit_and_iff bit_two bit_shl1) auto
  show ?thesis
    by (simp only: bank_shift_def Let_def bit_and_iff bit_or_iff low bit_bank_mask bit_shl1 ckRP_def) auto
qed

lemma masked_zero: "st AND bank_mask = 0 \<longleftrightarrow> (\<forall>i < ckRP. \<not> bit st i)"
  by (auto simp: word_eq_bits bit_and_iff bit_bank_mask)

lemma masked_full: "st AND bank_mask = bank_mask \<longleftrightarrow> (\<forall>i < ckRP. bit st i)"
  by (auto simp: word_eq_bits bit_and_iff bit_bank_mask)

lemma bit_clear_low: "bit ((st :: u32) AND - 2) i \<longleftrightarrow> i \<noteq> 0 \<and> bit st i"
proof -
  have "(- 2 :: u32) = NOT (mask 1)" by (simp add: mask_eq_exp_minus_1)
  then have "bit (- 2 :: u32) i \<longleftrightarrow> i < 32 \<and> i \<noteq> 0" by (simp only: bit_not_iff bit_mask_iff) auto
  then show ?thesis by (auto simp: bit_and_iff dest: bit_imp_le_length)
qed

lemma count_times_fields [simp]:
  "m_state (count_times b) = m_state b" "m_row (count_times b) = m_row b"
  "m_wcounter (count_times b) = m_wcounter b"
  by (simp_all add: count_times_def Let_def)

lemma opened_ago_Cons:
  "opened_ago i (c # h) =
     (if i = 0 then opened (c # h) else if fst c = DDR_NOOP then opened_ago (i - 1) h
      else opened_ago i h)"
  by (cases i) auto

text \<open>A command that is accepted does this to the bits and the row.\<close>

lemma bank_tick_result:
  assumes "bank_tick c a b = Inr b'"
  shows "m_state b' = (if c = DDR_PRECHARGE then m_state b AND - 2 else if c = DDR_ACTIVATE then 1
      else if c = DDR_NOOP then bank_shift (m_state b) else m_state b)"
    and "m_row b' = (if c = DDR_ACTIVATE then a AND 0x7fff else m_row b)"
    and "c = DDR_REFRESH \<Longrightarrow> m_state b = 0"
    and "c = DDR_ACTIVATE \<Longrightarrow> m_state b AND bank_mask = 0"
    and "c = DDR_READ \<or> c = DDR_WRITE \<Longrightarrow> m_state b AND bank_mask = bank_mask"
  using assms
  by (auto simp: bank_tick_def bank_activate_def bank_access_def Let_def ddr_cmds split: if_splits)

lemma bank_tick_inv:
  assumes "bank_inv h b" and "bank_tick c a b = Inr b'"
  shows "bank_inv ((c, a) # h) b'"
proof -
  note result = bank_tick_result [OF assms(2)]
  have bits: "bit (m_state b) i \<longleftrightarrow> i < ckRP \<and> opened_ago i h" for i
    using assms(1) by (simp add: bank_inv_def)
  have "m_state b = 0 \<longleftrightarrow> (\<forall>i < ckRP. \<not> opened_ago i h)" by (auto simp: word_eq_bits bits)
  then have "may_follow c h"
    using result(3,4,5) by (auto simp: may_follow_def masked_zero masked_full bits)
  moreover have "bit (m_state b') i \<longleftrightarrow> i < ckRP \<and> opened_ago i ((c, a) # h)" for i
    using calculation by (cases "i = 0")
       (auto simp: may_follow_def ckRP_def result(1) opened_ago_Cons bit_clear_low bit_bank_shift bits bit_1_iff ddr_cmds)
  ultimately show ?thesis
    using assms(1) result(2) by (auto simp: bank_inv_def)
qed

section \<open>What a legal history looks like\<close>

definition noops :: "history \<Rightarrow> nat" where
  "noops h = length (filter (\<lambda>c. fst c = DDR_NOOP) h)"

lemma opened_split:
  "opened h \<Longrightarrow> \<exists>mid act pre. h = mid @ act # pre \<and> fst act = DDR_ACTIVATE
     \<and> (\<forall>c \<in> set mid. fst c \<noteq> DDR_ACTIVATE \<and> fst c \<noteq> DDR_PRECHARGE)"
proof (induction h)
  case (Cons c h)
  show ?case
  proof (cases "fst c = DDR_ACTIVATE")
    case True
    then show ?thesis by (intro exI [of _ "[]"] exI [of _ c] exI [of _ h]) simp
  next
    case False
    with Cons obtain mid act pre where "h = mid @ act # pre" "fst act = DDR_ACTIVATE"
      "\<forall>c \<in> set mid. fst c \<noteq> DDR_ACTIVATE \<and> fst c \<noteq> DDR_PRECHARGE" by auto
    with False Cons.prems show ?thesis
      by (intro exI [of _ "c # mid"] exI [of _ act] exI [of _ pre]) auto
  qed
qed simp

lemma opened_append:
  "\<forall>c \<in> set mid. fst c \<noteq> DDR_ACTIVATE \<and> fst c \<noteq> DDR_PRECHARGE \<Longrightarrow> opened (mid @ h) = opened h"
  by (induction mid) simp_all

lemma opened_ago_skip: "opened_ago (Suc (noops mid + n)) (mid @ h) = opened_ago (Suc n) h"
  by (induction mid) (simp_all add: noops_def)

lemma legal_append: "legal (mid @ h) \<Longrightarrow> legal h"
  by (induction mid) simp_all

lemma legal_in: "legal (mid @ c # h) \<Longrightarrow> may_follow (fst c) h"
  by (induction mid) simp_all

text \<open>Reads and writes find a row that has been open for ten clocks.\<close>

lemma access_needs_open_row:
  assumes "legal ((c, a) # h)" and "c = DDR_READ \<or> c = DDR_WRITE"
  shows "\<exists>mid act pre. h = mid @ act # pre \<and> fst act = DDR_ACTIVATE
    \<and> (\<forall>c \<in> set mid. fst c \<notin> {DDR_ACTIVATE, DDR_PRECHARGE, DDR_REFRESH}) \<and> 10 \<le> noops mid"
proof -
  have all: "opened_ago i h" if "i < ckRP" for i using assms that by (auto simp: may_follow_def)
  from all [of 0] have "opened h" by (simp add: ckRP_def)
  then obtain mid act pre where h: "h = mid @ act # pre" "fst act = DDR_ACTIVATE"
      "\<forall>c \<in> set mid. fst c \<noteq> DDR_ACTIVATE \<and> fst c \<noteq> DDR_PRECHARGE"
    using opened_split by blast
  have "10 \<le> noops mid"
  proof (rule ccontr)
    assume "\<not> 10 \<le> noops mid"
    then have "opened_ago (Suc (noops mid + 0)) (mid @ act # pre)" using all h(1) by (simp add: ckRP_def)
    then have "opened_ago (Suc 0) (act # pre)" by (simp only: opened_ago_skip)
    then have "opened_ago (Suc 0) pre" using h(2) by (simp add: ddr_cmds)
    moreover have "may_follow DDR_ACTIVATE pre"
      using assms(1) legal_in [of mid act pre] h(1,2) by simp
    ultimately show False by (simp add: may_follow_def ckRP_def)
  qed
  moreover have "fst c \<noteq> DDR_REFRESH" if c: "c \<in> set mid" for c
  proof
    assume r: "fst c = DDR_REFRESH"
    from c obtain m1 m2 where m: "mid = m1 @ c # m2" by (auto dest: split_list)
    then have "may_follow DDR_REFRESH (m2 @ act # pre)"
      using assms(1) legal_in [of m1 c "m2 @ act # pre"] h(1) r by simp
    then have "\<not> opened (m2 @ act # pre)" by (auto simp: may_follow_def ckRP_def dest: spec [of _ 0])
    moreover have "opened (m2 @ act # pre)"
      using h(2,3) m opened_append [of m2] by simp
    ultimately show False by simp
  qed
  ultimately show ?thesis using h by blast
qed

section \<open>The banks of the chip\<close>

text \<open>The command that bank \<open>k\<close> of a chip in operation sees.\<close>

definition bank_sees :: "nat \<Rightarrow> ddr_pins \<Rightarrow> int" where
  "bank_sees k p =
     (let cmd = ddr_cmd p
      in if cmd = DDR_REFRESH then DDR_REFRESH
         else if cmd = DDR_PRECHARGE \<and> (addr p AND 0x400 \<noteq> 0 \<or> unat (ba p) = k)
              \<or> cmd \<in> {DDR_ACTIVATE, DDR_WRITE, DDR_READ} \<and> unat (ba p) = k then cmd
         else DDR_NOOP)"

lemma tick_addr: "cmd \<noteq> DDR_ACTIVATE \<Longrightarrow> bank_tick cmd a b = bank_tick cmd a' b"
  by (simp add: bank_tick_def Let_def)

lemma rmap_nth: "rmap f xs = Inr ys \<Longrightarrow> i < length xs \<Longrightarrow> f (xs ! i) = Inr (ys ! i)"
  by (induction xs arbitrary: ys i) (auto simp: nth_Cons split: nat.splits)

lemma tick_all_nth:
  "tick_all cmd a bs = Inr bs' \<Longrightarrow> k < length bs \<Longrightarrow> bank_tick cmd a (bs ! k) = Inr (bs' ! k)"
  by (auto simp: tick_all_def dest: rmap_nth)

lemma tick_one_others_nth:
  assumes "tick_one j cmd a bs = Inr bs1" and "tick_others j DDR_NOOP a' bs1 = Inr bs'"
    and "k < length bs"
  shows "bank_tick (if k = j then cmd else DDR_NOOP) a (bs ! k) = Inr (bs' ! k)"
proof -
  from assms(1) have b1: "length bs1 = length bs" "bank_tick cmd a (bs ! j) = Inr (bs1 ! j)"
      "k \<noteq> j \<Longrightarrow> bs1 ! k = bs ! k"
    by (auto simp: tick_one_def)
  with assms(3) have k: "k < length [0..<length bs1]" by simp
  from rmap_nth [OF assms(2) [unfolded tick_others_def] k] b1 k show ?thesis
    using tick_addr [of DDR_NOOP a _ a'] by (auto simp: ddr_cmds split: if_splits)
qed

lemma command_bank:
  assumes "ddr_command p s = Inr s'" and "k < length (m_bank s)"
  shows "bank_tick (bank_sees k p) (addr p) (m_bank s ! k) = Inr (m_bank s' ! k)"
proof -
  let ?s = "s\<lparr>m_clocks_since_refresh := m_clocks_since_refresh s + 1\<rparr>"
  consider (pre) "ddr_cmd p = DDR_PRECHARGE" "ddr_precharge p ?s = Inr s'"
    | (act) "ddr_cmd p = DDR_ACTIVATE" "ddr_activate p ?s = Inr s'"
    | (wr) "ddr_cmd p = DDR_WRITE" "ddr_write_cmd p ?s = Inr s'"
    | (rd) "ddr_cmd p = DDR_READ" "ddr_read_cmd p ?s = Inr s'"
    | (idle) "ddr_cmd p \<notin> {DDR_REFRESH, DDR_PRECHARGE, DDR_ACTIVATE, DDR_WRITE, DDR_READ}"
        "ddr_idle p ?s = Inr s'"
    using assms(1) by (auto simp: ddr_command_def Let_def split: if_splits)
  then show ?thesis
  proof cases
    case pre
    then show ?thesis
      using assms(2) tick_addr [of DDR_PRECHARGE 0 _ "addr p"] tick_addr [of DDR_NOOP 0 _ "addr p"]
      by (auto simp: ddr_precharge_def bank_sees_def ddr_cmds split: if_splits
          dest!: tick_all_nth tick_one_others_nth)
  next
    case act
    then show ?thesis using assms(2)
      by (auto simp: ddr_activate_def bank_sees_def ddr_cmds dest!: tick_one_others_nth split: if_splits)
  next
    case wr
    then show ?thesis using assms(2)
      by (auto simp: ddr_write_cmd_def Let_def bank_sees_def ddr_cmds dest!: tick_one_others_nth split: if_splits)
  next
    case rd
    then show ?thesis using assms(2)
      by (auto simp: ddr_read_cmd_def Let_def bank_sees_def ddr_cmds dest!: tick_one_others_nth split: if_splits)
  next
    case idle
    then show ?thesis using assms(2)
      by (auto simp: ddr_idle_def bank_sees_def dest!: tick_all_nth)
  qed
qed

lemma phase_bank:
  assumes "ddr_phase p s = Inr s'" and "reset_n p" and "16 \<le> m_reset_state s"
    and "k < length (m_bank s)"
  shows "bank_tick (bank_sees k p) (addr p) (m_bank s ! k) = Inr (m_bank s' ! k)"
proof -
  consider (refresh) "ddr_refresh p s = Inr s'" | (operate) "ddr_operate p s = Inr s'"
    using assms(1-3) by (auto simp: ddr_phase_def split: if_splits)
  then show ?thesis
  proof cases
    case refresh
    then have "ddr_cmd p = DDR_REFRESH \<or> ddr_cmd p = DDR_NOOP"
      and "tick_all (ddr_cmd p) 0 (m_bank s) = Inr (m_bank s')"
      by (auto simp: ddr_refresh_def Let_def split: if_splits)
    then show ?thesis
      using assms(4) tick_addr [of "ddr_cmd p" 0 _ "addr p"]
      by (auto simp: bank_sees_def ddr_cmds dest!: tick_all_nth)
  next
    case operate
    then obtain s1 where "ddr_command p s = Inr s1" "m_bank s' = m_bank s1"
      by (auto simp: ddr_operate_def Let_def split: if_splits)
    then show ?thesis using command_bank assms(4) by simp
  qed
qed

lemma bus_keeps:
  "ddr_bus p s = Inr (s', x) \<Longrightarrow> m_bank s' = m_bank s \<and> m_reset_state s' = m_reset_state s"
  unfolding ddr_bus_def Let_def by (auto split: if_splits)

lemma command_operating: "ddr_command p s = Inr s' \<Longrightarrow> m_reset_state s' = m_reset_state s"
  by (auto simp: ddr_command_def ddr_precharge_def ddr_activate_def ddr_write_cmd_def ddr_read_cmd_def
      ddr_idle_def Let_def split: if_splits)

lemma phase_operating:
  assumes "ddr_phase p s = Inr s'" and "reset_n p" and "16 \<le> m_reset_state s"
  shows "m_reset_state s' = m_reset_state s"
proof -
  consider (refresh) "ddr_refresh p s = Inr s'" | (operate) "ddr_operate p s = Inr s'"
    using assms by (auto simp: ddr_phase_def split: if_splits)
  then show ?thesis
  proof cases
    case refresh
    then show ?thesis by (auto simp: ddr_refresh_def Let_def split: if_splits)
  next
    case operate
    then show ?thesis
      by (auto simp: ddr_operate_def Let_def split: if_splits dest: command_operating)
  qed
qed

lemma step_bank:
  assumes "ddr_step s p = Inr (s', x)" and "reset_n p" and "16 \<le> m_reset_state s"
  shows "k < length (m_bank s) \<Longrightarrow>
      bank_tick (bank_sees k p) (addr p) (m_bank s ! k) = Inr (m_bank s' ! k)"
    and "length (m_bank s') = length (m_bank s)" and "16 \<le> m_reset_state s'"
proof -
  from assms(1) obtain s1 where s1: "ddr_phase p s = Inr s1" "ddr_bus p s1 = Inr (s', x)"
    by (auto simp: ddr_step_def)
  then have s': "m_bank s' = m_bank s1" "m_reset_state s' = m_reset_state s1"
    using bus_keeps by blast+
  show "bank_tick (bank_sees k p) (addr p) (m_bank s ! k) = Inr (m_bank s' ! k)"
    if "k < length (m_bank s)"
    using phase_bank [OF s1(1) assms(2,3) that] s' by simp
  show "length (m_bank s') = length (m_bank s)"
    using phase_size [OF s1(1)] s' by (simp add: same_size_def)
  show "16 \<le> m_reset_state s'" using phase_operating [OF s1(1) assms(2,3)] s' assms(3) by simp
qed

definition bank_history :: "nat \<Rightarrow> ddr_pins list \<Rightarrow> history" where
  "bank_history k ps = map (\<lambda>p. (bank_sees k p, addr p)) (rev ps)"

lemma run_bank:
  assumes "run ddr_step s ps = Inr (s', xs)" and "list_all reset_n ps" and "16 \<le> m_reset_state s"
    and "k < length (m_bank s)" and "bank_inv h (m_bank s ! k)"
  shows "bank_inv (bank_history k ps @ h) (m_bank s' ! k) \<and> length (m_bank s') = length (m_bank s)"
  using assms
proof (induction ps arbitrary: s xs h)
  case Nil
  then show ?case by (simp add: bank_history_def)
next
  case (Cons p ps)
  from Cons.prems(1) obtain s1 x ys where s1: "ddr_step s p = Inr (s1, x)"
      "run ddr_step s1 ps = Inr (s', ys)"
    by auto
  note step = step_bank [OF s1(1)]
  have "bank_inv ((bank_sees k p, addr p) # h) (m_bank s1 ! k)"
    using Cons.prems step(1) by (intro bank_tick_inv) auto
  then have "bank_inv (bank_history k ps @ (bank_sees k p, addr p) # h) (m_bank s' ! k)
      \<and> length (m_bank s') = length (m_bank s1)"
    using Cons.prems step by (intro Cons.IH [OF s1(2)]) auto
  then show ?case using Cons.prems step(2) by (simp add: bank_history_def)
qed

lemma bank_inv_idle: "m_state b = 0 \<Longrightarrow> bank_inv [] b"
proof -
  have "\<not> opened_ago i []" for i by (cases i) simp_all
  then show "m_state b = 0 \<Longrightarrow> bank_inv [] b" by (simp add: bank_inv_def)
qed

lemma last_row_append:
  "\<forall>c \<in> set mid. fst c \<noteq> DDR_ACTIVATE \<Longrightarrow> last_row (mid @ h) = last_row h"
  by (induction mid) simp_all

lemma history_split:
  assumes "bank_history k ps = mid @ act # pre"
  shows "\<exists>pre' a mid'. ps = pre' @ a # mid' \<and> mid = bank_history k mid' \<and> act = (bank_sees k a, addr a)"
proof -
  from assms obtain us a vs where r: "rev ps = us @ a # vs"
    and "map (\<lambda>p. (bank_sees k p, addr p)) us = mid" and "act = (bank_sees k a, addr a)"
    unfolding bank_history_def map_eq_append_conv map_eq_Cons_conv by blast
  moreover from r have "ps = rev vs @ a # rev us"
    by (simp add: rev_swap)
  ultimately show ?thesis
    by (intro exI [of _ "rev vs"] exI [of _ a] exI [of _ "rev us"]) (simp add: bank_history_def)
qed

end
