(* ===== verification/DdrBurst.thy ===== *)
theory DdrBurst
  imports DdrBank
begin

text \<open>
  Bursts on an open row.  While bank \<open>k\<close> has row \<open>row\<close> open and only it is used, the banks play no
  part: \<open>open_step\<close> is the data path alone, a memory and a delay line.  The chip simulates it, and
  the bursts of a controller, with the termination switched on in time, are run on it.
\<close>

section \<open>The data path\<close>

record path =
  p_clock :: int
  p_last_dqs :: bool
  p_last_rtt :: bool
  p_mem :: "u32 list"
  p_lane :: "timeslot list"

definition fill_write :: "u32 \<Rightarrow> nat \<Rightarrow> timeslot list \<Rightarrow> timeslot list" where
  "fill_write a i l =
     l[i + ckCL := (l ! (i + ckCL))\<lparr>m_addr := a + of_nat i, m_used := True, m_read := False\<rparr>]"

definition fill_read :: "u32 list \<Rightarrow> u32 \<Rightarrow> nat \<Rightarrow> timeslot list \<Rightarrow> timeslot list" where
  "fill_read mem a i l =
     l[i + ckCL := (l ! (i + ckCL))\<lparr>m_data := mem ! unat (a + of_nat i), m_addr := a + of_nat i,
                                    m_used := True, m_read := True\<rparr>]"

definition open_command :: "nat \<Rightarrow> u32 \<Rightarrow> ddr_pins \<Rightarrow> path \<Rightarrow> fault + path" where
  "open_command k row p d =
     (let cmd = ddr_cmd p; a = burst_addr row (ba p) (addr p); l = p_lane d
      in if cmd = DDR_NOOP then Inr d
         else c_assert (cmd \<in> {DDR_READ, DDR_WRITE} \<and> unat (ba p) = k \<and> addr p AND 7 = 0)
           (if cmd = DDR_WRITE
            then Inr (d\<lparr>p_lane := fill_write a 3 (fill_write a 2 (fill_write a 1 (fill_write a 0 l)))\<rparr>)
            else in_bounds (unat a < length (p_mem d) \<and> unat (a + 1) < length (p_mem d)
                      \<and> unat (a + 2) < length (p_mem d) \<and> unat (a + 3) < length (p_mem d))
                   (Inr (d\<lparr>p_lane := fill_read (p_mem d) a 3 (fill_read (p_mem d) a 2
                             (fill_read (p_mem d) a 1 (fill_read (p_mem d) a 0 l)))\<rparr>))))"

definition open_bus :: "ddr_pins \<Rightarrow> path \<Rightarrow> fault + path \<times> u32" where
  "open_bus p d =
     (let l = p_lane d; t = hd l
      in c_assert
           ((if dqs p then m_rtt t \<and> p_last_rtt d else p_last_dqs d \<or> \<not> p_last_rtt d)
            \<and> line_ok p t (l ! 1) \<and> (m_used t \<longrightarrow> unat (m_addr t) < length (p_mem d)))
           (Inr (d\<lparr>p_clock := p_clock d + 1, p_last_dqs := dqs p, p_last_rtt := m_rtt t,
                   p_mem := bus_mem p t (p_mem d),
                   p_lane := tl (l[3 := (l ! 3)\<lparr>m_rtt := odt p\<rparr>]) @ [free_slot t]\<rparr>,
                 if busoe p then data p else m_data t)))"

definition open_step :: "nat \<Rightarrow> u32 \<Rightarrow> path \<Rightarrow> ddr_pins \<Rightarrow> fault + path \<times> u32" where
  "open_step k row d p =
     c_assert (reset_n p \<and> cke p \<and> p_clock d + 1 < ckREFIn)
       (rbind (open_command k row p d) (open_bus p))"

section \<open>The chip simulates it\<close>

definition bank_open :: "nat \<Rightarrow> u32 \<Rightarrow> bank list \<Rightarrow> bool" where
  "bank_open k row bs \<longleftrightarrow> length bs = NBANKS \<and> k < NBANKS \<and> (\<forall>b \<in> set bs. m_wcounter b = 0)
     \<and> m_state (bs ! k) = bank_mask \<and> m_row (bs ! k) = row"

definition path_rel :: "nat \<Rightarrow> u32 \<Rightarrow> ddr \<Rightarrow> path \<Rightarrow> bool" where
  "path_rel k row s d \<longleftrightarrow> m_reset_state s = 16 \<and> nREF \<le> m_nrefresh_issued s
     \<and> bank_open k row (m_bank s) \<and> m_clocks_since_refresh s = p_clock d
     \<and> m_last_dqs s = p_last_dqs d \<and> m_last_rtt s = p_last_rtt d \<and> m_mem s = p_mem d
     \<and> m_bus s = p_lane d \<and> m_memlen s = int (length (p_mem d))"

lemma bank_shift_full: "bank_shift bank_mask = bank_mask"
  by (simp only: word_eq_bits bit_bank_shift bit_bank_mask) auto

lemma tick_noop: "m_wcounter b = 0 \<Longrightarrow>
  bank_tick DDR_NOOP a b = Inr (count_times (b\<lparr>m_state := bank_shift (m_state b)\<rparr>))"
  by (simp add: bank_tick_def ddr_cmds)

lemma tick_access:
  "m_wcounter b = 0 \<Longrightarrow> m_state b = bank_mask \<Longrightarrow> c = DDR_READ \<or> c = DDR_WRITE \<Longrightarrow>
     bank_tick c a b = Inr (count_times b)"
  by (auto simp: bank_tick_def bank_access_def ddr_cmds)

lemma rmap_Inr: "(\<And>x. x \<in> set xs \<Longrightarrow> f x = Inr (g x)) \<Longrightarrow> rmap f xs = Inr (map g xs)"
  by (induction xs) auto

definition noop_bank :: "bank \<Rightarrow> bank" where
  "noop_bank b = count_times (b\<lparr>m_state := bank_shift (m_state b)\<rparr>)"

lemma noop_bank_fields [simp]:
  "m_state (noop_bank b) = bank_shift (m_state b)" "m_row (noop_bank b) = m_row b"
  "m_wcounter (noop_bank b) = m_wcounter b"
  by (simp_all add: noop_bank_def)

lemma noop_all:
  assumes "\<forall>b \<in> set bs. m_wcounter b = 0"
  shows "tick_all DDR_NOOP a bs = Inr (map noop_bank bs)"
  using assms by (auto simp: tick_all_def noop_bank_def intro!: rmap_Inr tick_noop)

lemma bank_open_noop: "bank_open k row bs \<Longrightarrow> bank_open k row (map noop_bank bs)"
  by (auto simp: bank_open_def bank_shift_full)

lemma tick_others_noop:
  assumes "\<forall>b \<in> set bs. m_wcounter b = 0"
  shows "tick_others k DDR_NOOP a bs
    = Inr (map (\<lambda>i. if i = k then bs ! i else noop_bank (bs ! i)) [0..<length bs])"
  using assms by (auto simp: tick_others_def noop_bank_def intro!: rmap_Inr tick_noop)

definition access_banks :: "nat \<Rightarrow> bank list \<Rightarrow> bank list" where
  "access_banks k bs =
     map (\<lambda>i. if i = k then count_times (bs ! i) else noop_bank (bs ! i)) [0..<length bs]"

lemma bank_open_access:
  assumes "bank_open k row bs" and "c = DDR_READ \<or> c = DDR_WRITE"
  shows "tick_one k c a bs = Inr (bs[k := count_times (bs ! k)])"
    and "tick_others k DDR_NOOP a (bs[k := count_times (bs ! k)]) = Inr (access_banks k bs)"
    and "bank_open k row (access_banks k bs)"
proof -
  have k: "k < length bs" "m_wcounter (bs ! k) = 0" "m_state (bs ! k) = bank_mask"
      and w: "\<forall>b \<in> set bs. m_wcounter b = 0"
    using assms(1) by (auto simp: bank_open_def)
  show "tick_one k c a bs = Inr (bs[k := count_times (bs ! k)])"
    using k assms(2) by (simp add: tick_one_def tick_access)
  have "\<forall>b \<in> set (bs[k := count_times (bs ! k)]). m_wcounter b = 0"
    using w k by (auto dest!: set_update_subset_insert [THEN subsetD])
  then show "tick_others k DDR_NOOP a (bs[k := count_times (bs ! k)]) = Inr (access_banks k bs)"
    using k by (simp add: tick_others_noop access_banks_def cong: map_cong)
  show "bank_open k row (access_banks k bs)"
    using assms(1) by (auto simp: bank_open_def access_banks_def NBANKS_def)
qed

lemma access_row: "bank_open k row bs \<Longrightarrow> m_row (access_banks k bs ! k) = row"
  by (auto simp: bank_open_def access_banks_def)

lemma open_command_sim:
  assumes "path_rel k row s d" and "open_command k row p d = Inr d1"
    and "p_clock d + 1 < ckREFIn"
  shows "\<exists>s1. line_command p s = Inr s1 \<and> path_rel k row s1 (d1\<lparr>p_clock := p_clock d + 1\<rparr>)"
proof -
  let ?s = "s\<lparr>m_clocks_since_refresh := m_clocks_since_refresh s + 1\<rparr>"
  let ?a = "burst_addr row (ba p) (addr p)"
  have rel: "path_rel k row ?s (d\<lparr>p_clock := p_clock d + 1\<rparr>)"
    using assms(1) by (simp add: path_rel_def)
  have bo: "bank_open k row (m_bank s)" and c: "m_clocks_since_refresh s + 1 < ckREFIn"
    and mem: "p_mem d = m_mem s" and lane: "p_lane d = m_bus s"
    using assms(1,3) by (simp_all add: path_rel_def)
  consider (noop) "ddr_cmd p = DDR_NOOP" "d1 = d" | (rd) "ddr_cmd p = DDR_READ" | (wr) "ddr_cmd p = DDR_WRITE"
    using assms(2) by (auto simp: open_command_def Let_def split: if_splits)
  then show ?thesis
  proof cases
    case noop
    have "ddr_idle p ?s = Inr (?s\<lparr>m_bank := map noop_bank (m_bank s)\<rparr>)"
      using bo by (simp add: ddr_idle_def noop_all bank_open_def)
    with noop c have "line_command p s = Inr (?s\<lparr>m_bank := map noop_bank (m_bank s)\<rparr>)"
      by (simp add: line_command_def Let_def ddr_cmds)
    then show ?thesis using rel noop bank_open_noop [OF bo] by (simp add: path_rel_def)
  next
    case rd
    then have p: "unat (ba p) = k" "addr p AND 7 = 0"
      and d1: "d1 = d\<lparr>p_lane := fill_read (p_mem d) ?a 3 (fill_read (p_mem d) ?a 2
          (fill_read (p_mem d) ?a 1 (fill_read (p_mem d) ?a 0 (p_lane d))))\<rparr>"
      and b: "unat ?a < length (p_mem d)" "unat (?a + 1) < length (p_mem d)"
        "unat (?a + 2) < length (p_mem d)" "unat (?a + 3) < length (p_mem d)"
      using assms(2) by (simp_all add: open_command_def Let_def ddr_cmds)
    have "line_command p s = Inr (?s\<lparr>m_bank := access_banks k (m_bank s), m_bus := p_lane d1\<rparr>)"
      using rd c b p bank_open_access [OF bo, of DDR_READ] access_row [OF bo]
      by (simp add: line_command_def line_read_cmd_def Let_def fill_read_def d1 mem lane ddr_cmds)
    then show ?thesis
      using rel bank_open_access(3) [OF bo, of DDR_READ] d1 by (simp add: path_rel_def)
  next
    case wr
    then have p: "unat (ba p) = k" "addr p AND 7 = 0"
      and d1: "d1 = d\<lparr>p_lane := fill_write ?a 3 (fill_write ?a 2 (fill_write ?a 1
          (fill_write ?a 0 (p_lane d))))\<rparr>"
      using assms(2) by (simp_all add: open_command_def Let_def ddr_cmds)
    have "line_command p s = Inr (?s\<lparr>m_bank := access_banks k (m_bank s), m_bus := p_lane d1\<rparr>)"
      using wr c p bank_open_access [OF bo, of DDR_WRITE] access_row [OF bo]
      by (simp add: line_command_def line_write_cmd_def Let_def fill_write_def d1 lane ddr_cmds)
    then show ?thesis
      using rel bank_open_access(3) [OF bo, of DDR_WRITE] d1 by (simp add: path_rel_def)
  qed
qed

lemma open_sim:
  assumes "path_rel k row s d" and "open_step k row d p = Inr (d', x)"
  shows "\<exists>s'. line_step s p = Inr (s', x) \<and> path_rel k row s' d'"
proof -
  from assms(2) obtain d1 where p: "reset_n p" "cke p" "p_clock d + 1 < ckREFIn"
      and d1: "open_command k row p d = Inr d1" and d': "open_bus p d1 = Inr (d', x)"
    by (auto simp: open_step_def)
  obtain s1 where s1: "line_command p s = Inr s1" "path_rel k row s1 (d1\<lparr>p_clock := p_clock d + 1\<rparr>)"
    using open_command_sim [OF assms(1) d1 p(3)] by blast
  have d1_clock: "p_clock d1 = p_clock d"
    using d1 by (auto simp: open_command_def Let_def split: if_splits)
  have "ddr_cmd p \<noteq> DDR_REFRESH"
    using d1 by (auto simp: open_command_def Let_def ddr_cmds split: if_splits)
  with p s1(1) assms(1) have phase: "line_phase p s = c_assert (strobe_ok p s1) (Inr s1)"
    by (simp add: line_phase_def path_rel_def)
  have rel: "m_last_rtt s1 = p_last_rtt d1" "m_last_dqs s1 = p_last_dqs d1" "m_bus s1 = p_lane d1"
      "m_mem s1 = p_mem d1" "m_memlen s1 = int (length (p_mem d1))"
    using s1(2) by (simp_all add: path_rel_def)
  have ok: "strobe_ok p s1" "line_ok p (hd (p_lane d1)) (p_lane d1 ! 1)"
      "m_used (hd (p_lane d1)) \<Longrightarrow> unat (m_addr (hd (p_lane d1))) < length (p_mem d1)"
    using d' by (auto simp: open_bus_def Let_def strobe_ok_def rel)
  let ?s' = "s1\<lparr>m_last_dqs := dqs p, m_last_rtt := m_rtt (hd (p_lane d1)),
      m_mem := bus_mem p (hd (p_lane d1)) (p_mem d1),
      m_bus := tl ((p_lane d1)[3 := (p_lane d1 ! 3)\<lparr>m_rtt := odt p\<rparr>]) @ [free_slot (hd (p_lane d1))]\<rparr>"
  have "uint (m_addr (hd (p_lane d1))) < int (length (p_mem d1))" if "m_used (hd (p_lane d1))"
    using ok(3) [OF that] by (simp only: unat_eq_nat_uint nat_less_iff unsigned_greater_eq)
  then have "line_step s p = Inr (?s', x)"
    using d' phase ok p(1)
    by (simp add: line_step_def line_bus_def open_bus_def Let_def rel bus_mem_def split del: if_split
        cong: if_cong)
  moreover have "path_rel k row ?s' d'"
    using d' s1(2) d1_clock by (auto simp: path_rel_def open_bus_def Let_def)
  ultimately show ?thesis by blast
qed

interpretation data_path: step_simulation line_step "open_step k row" "path_rel k row" "(=)" "\<lambda>_. True"
  for k row
  using open_sim by unfold_locales blast

section \<open>Bursts of a controller\<close>

definition ddr_nop :: ddr_pins where
  "ddr_nop = \<lparr>reset_n = True, cke = True, csn = False, rasn = True, casn = True, wen = True,
     dqs = False, dm = False, odt = False, busoe = False, addr = 0, ba = 0, data = 0\<rparr>"

definition activate :: "u32 \<Rightarrow> u32 \<Rightarrow> ddr_pins" where
  "activate bk row = ddr_nop\<lparr>rasn := False, ba := bk, addr := row\<rparr>"

definition write_to :: "u32 \<Rightarrow> u32 \<Rightarrow> ddr_pins" where
  "write_to bk col = ddr_nop\<lparr>casn := False, wen := False, ba := bk, addr := col\<rparr>"

definition read_from :: "u32 \<Rightarrow> u32 \<Rightarrow> ddr_pins" where
  "read_from bk col = ddr_nop\<lparr>casn := False, ba := bk, addr := col\<rparr>"

definition drive :: "u32 \<Rightarrow> ddr_pins" where
  "drive x = ddr_nop\<lparr>dqs := True, busoe := True, data := x\<rparr>"

definition terminated :: "ddr_pins \<Rightarrow> ddr_pins" where
  "terminated p = p\<lparr>odt := True\<rparr>"

definition write_burst :: "u32 \<Rightarrow> u32 \<Rightarrow> u32 \<Rightarrow> u32 \<Rightarrow> u32 \<Rightarrow> u32 \<Rightarrow> ddr_pins list" where
  "write_burst bk col d0 d1 d2 d3 =
     write_to bk col # replicate 6 ddr_nop @ replicate 4 (terminated ddr_nop)
       @ [terminated (drive d0), drive d1, drive d2, drive d3, ddr_nop]"

definition read_burst :: "u32 \<Rightarrow> u32 \<Rightarrow> ddr_pins list" where
  "read_burst bk col = read_from bk col # replicate 14 ddr_nop"

lemmas pins_defs = ddr_nop_def activate_def write_to_def read_from_def drive_def terminated_def

definition path_quiet :: "path \<Rightarrow> bool" where
  "path_quiet d \<longleftrightarrow> length (p_lane d) = 32 \<and> (\<forall>t \<in> set (p_lane d). \<not> m_used t \<and> \<not> m_rtt t)
     \<and> \<not> p_last_dqs d \<and> \<not> p_last_rtt d"

lemma pins_cmd [simp]:
  "ddr_cmd ddr_nop = DDR_NOOP" "ddr_cmd (activate bk row) = DDR_ACTIVATE"
  "ddr_cmd (write_to bk col) = DDR_WRITE" "ddr_cmd (read_from bk col) = DDR_READ"
  "ddr_cmd (drive x) = DDR_NOOP" "ddr_cmd (terminated p) = ddr_cmd p"
  by (simp_all add: pins_defs ddr_cmd_def ddr_cmds)

subsection \<open>One clock at a time\<close>

text \<open>A clock without a command: the slot leaves, the termination is noted three slots on.\<close>

lemma open_clock:
  assumes "ddr_cmd p = DDR_NOOP" and "reset_n p" and "cke p" and "c + 1 < ckREFIn"
    and "(dqs p \<longrightarrow> m_rtt t \<and> r) \<and> (\<not> dqs p \<longrightarrow> q \<or> \<not> r)" and "line_ok p t t1"
    and "m_used t \<longrightarrow> unat (m_addr t) < length mem"
  shows "run (open_step k row) \<lparr>p_clock = c, p_last_dqs = q, p_last_rtt = r, p_mem = mem,
      p_lane = t # t1 # t2 # t3 # ts\<rparr> (p # ps) =
    rbind (run (open_step k row) \<lparr>p_clock = c + 1, p_last_dqs = dqs p, p_last_rtt = m_rtt t,
        p_mem = bus_mem p t mem,
        p_lane = t1 # t2 # t3\<lparr>m_rtt := odt p\<rparr> # (ts @ [free_slot t])\<rparr> ps)
      (\<lambda>(d, xs). Inr (d, (if busoe p then data p else m_data t) # xs))"
  using assms by (auto simp: open_step_def open_command_def open_bus_def Let_def)

lemma free_slot_fields [simp]:
  "\<not> m_used (free_slot t)" "\<not> m_rtt (free_slot t)"
  by (simp_all add: free_slot_def)

lemma pins_fields [simp]:
  "reset_n ddr_nop" "cke ddr_nop" "\<not> dqs ddr_nop" "\<not> odt ddr_nop" "\<not> busoe ddr_nop"
  "reset_n (write_to bk col)" "cke (write_to bk col)" "\<not> dqs (write_to bk col)"
  "\<not> odt (write_to bk col)" "\<not> busoe (write_to bk col)" "ba (write_to bk col) = bk"
  "addr (write_to bk col) = col"
  "reset_n (read_from bk col)" "cke (read_from bk col)" "\<not> dqs (read_from bk col)"
  "\<not> odt (read_from bk col)" "\<not> busoe (read_from bk col)" "ba (read_from bk col) = bk"
  "addr (read_from bk col) = col"
  "reset_n (drive x)" "cke (drive x)" "dqs (drive x)" "\<not> odt (drive x)" "busoe (drive x)"
  "data (drive x) = x" "\<not> dm (drive x)" "odt (terminated p)"
  "reset_n (terminated p) = reset_n p" "cke (terminated p) = cke p" "dqs (terminated p) = dqs p"
  "busoe (terminated p) = busoe p" "data (terminated p) = data p" "dm (terminated p) = dm p"
  by (simp_all add: pins_defs)

text \<open>The slots that a burst has filled.\<close>

definition write_for :: "u32 \<Rightarrow> timeslot \<Rightarrow> timeslot" where
  "write_for a t = t\<lparr>m_addr := a, m_used := True, m_read := False\<rparr>"

definition read_for :: "u32 list \<Rightarrow> u32 \<Rightarrow> timeslot \<Rightarrow> timeslot" where
  "read_for mem a t = t\<lparr>m_data := mem ! unat a, m_addr := a, m_used := True, m_read := True\<rparr>"

lemma slot_for_fields [simp]:
  "m_used (write_for a t)" "\<not> m_read (write_for a t)" "m_addr (write_for a t) = a"
  "m_rtt (write_for a t) = m_rtt t"
  "m_used (read_for mem a t)" "m_read (read_for mem a t)" "m_addr (read_for mem a t) = a"
  "m_rtt (read_for mem a t) = m_rtt t" "m_data (read_for mem a t) = mem ! unat a"
  by (simp_all add: write_for_def read_for_def)

lemma write_clock:
  assumes "unat bk = k" and "col AND 7 = 0" and "a = burst_addr row bk col" and "c + 1 < ckREFIn"
    and "\<not> m_used t0" and "\<not> q" and "\<not> r"
  shows "run (open_step k row) \<lparr>p_clock = c, p_last_dqs = q, p_last_rtt = r, p_mem = mem,
      p_lane = t0 # t1 # t2 # t3 # t4 # t5 # t6 # t7 # t8 # t9 # t10 # t11 # t12 # t13 # t14 # ts\<rparr>
      (write_to bk col # ps) =
    rbind (run (open_step k row) \<lparr>p_clock = c + 1, p_last_dqs = False, p_last_rtt = m_rtt t0, p_mem = mem,
        p_lane = t1 # t2 # t3\<lparr>m_rtt := False\<rparr> # t4 # t5 # t6 # t7 # t8 # t9 # t10 # write_for a t11
          # write_for (a + 1) t12 # write_for (a + 2) t13 # write_for (a + 3) t14
          # (ts @ [free_slot t0])\<rparr> ps)
      (\<lambda>(d, xs). Inr (d, m_data t0 # xs))"
  using assms
  by (auto simp: open_step_def open_command_def open_bus_def Let_def fill_write_def ckCL_def
      ddr_cmds write_for_def line_ok_def bus_mem_def)

lemma read_clock:
  assumes "unat bk = k" and "col AND 7 = 0" and "a = burst_addr row bk col" and "c + 1 < ckREFIn"
    and "\<not> m_used t0" and "\<not> q" and "\<not> r"
    and "unat a < length mem" and "unat (a + 1) < length mem" and "unat (a + 2) < length mem"
    and "unat (a + 3) < length mem"
  shows "run (open_step k row) \<lparr>p_clock = c, p_last_dqs = q, p_last_rtt = r, p_mem = mem,
      p_lane = t0 # t1 # t2 # t3 # t4 # t5 # t6 # t7 # t8 # t9 # t10 # t11 # t12 # t13 # t14 # ts\<rparr>
      (read_from bk col # ps) =
    rbind (run (open_step k row) \<lparr>p_clock = c + 1, p_last_dqs = False, p_last_rtt = m_rtt t0, p_mem = mem,
        p_lane = t1 # t2 # t3\<lparr>m_rtt := False\<rparr> # t4 # t5 # t6 # t7 # t8 # t9 # t10 # read_for mem a t11
          # read_for mem (a + 1) t12 # read_for mem (a + 2) t13 # read_for mem (a + 3) t14
          # (ts @ [free_slot t0])\<rparr> ps)
      (\<lambda>(d, xs). Inr (d, m_data t0 # xs))"
  using assms
  by (auto simp: open_step_def open_command_def open_bus_def Let_def fill_read_def ckCL_def
      ddr_cmds read_for_def line_ok_def bus_mem_def)

lemma lane_obtain:
  assumes "path_quiet d"
  obtains t0 t1 t2 t3 t4 t5 t6 t7 t8 t9 t10 t11 t12 t13 t14 t15 t16 t17 t18 ts where "d = \<lparr>p_clock = p_clock d, p_last_dqs = False, p_last_rtt = False,
      p_mem = p_mem d, p_lane = t0 # t1 # t2 # t3 # t4 # t5 # t6 # t7 # t8 # t9 # t10 # t11 # t12 # t13 # t14 # t15 # t16 # t17 # t18 # ts\<rparr>"
    and "length ts = 13"
    and "\<forall>t \<in> set (t0 # t1 # t2 # t3 # t4 # t5 # t6 # t7 # t8 # t9 # t10 # t11 # t12 # t13 # t14 # t15 # t16 # t17 # t18 # ts). \<not> m_used t \<and> \<not> m_rtt t"
proof -
  have "length (p_lane d) = Suc (Suc (Suc (Suc (Suc (Suc (Suc (Suc (Suc (Suc (Suc (Suc (Suc (Suc (Suc (Suc
      (Suc (Suc (Suc 13))))))))))))))))))"
    using assms by (simp add: path_quiet_def)
  then obtain t0 t1 t2 t3 t4 t5 t6 t7 t8 t9 t10 t11 t12 t13 t14 t15 t16 t17 t18 ts where l: "p_lane d = t0 # t1 # t2 # t3 # t4 # t5 # t6 # t7 # t8 # t9 # t10 # t11 # t12 # t13 # t14 # t15 # t16 # t17 # t18 # ts" "length ts = 13"
    unfolding length_Suc_conv by blast
  then show thesis
    using assms by (intro that [of t0 t1 t2 t3 t4 t5 t6 t7 t8 t9 t10 t11 t12 t13 t14 t15 t16 t17 t18 ts]) (simp_all add: path_quiet_def)
qed

definition stored_burst :: "u32 \<Rightarrow> u32 list \<Rightarrow> u32 \<Rightarrow> u32 \<Rightarrow> u32 \<Rightarrow> u32 \<Rightarrow> u32 list" where
  "stored_burst a mem d0 d1 d2 d3 =
     mem[unat a := d0, unat (a + 1) := d1, unat (a + 2) := d2, unat (a + 3) := d3]"

definition burst_fits :: "u32 \<Rightarrow> u32 list \<Rightarrow> bool" where
  "burst_fits a mem \<longleftrightarrow> unat a < length mem \<and> unat (a + 1) < length mem \<and> unat (a + 2) < length mem
     \<and> unat (a + 3) < length mem"

lemma write_burst_path:
  assumes "path_quiet d" and "p_clock d + 16 < ckREFIn" and "unat bk = k" and "col AND 7 = 0"
    and "burst_fits (burst_addr row bk col) (p_mem d)"
  shows "\<exists>d' xs. run (open_step k row) d (write_burst bk col d0 d1 d2 d3) = Inr (d', xs)
    \<and> path_quiet d' \<and> p_clock d' = p_clock d + 16
    \<and> p_mem d' = stored_burst (burst_addr row bk col) (p_mem d) d0 d1 d2 d3"
proof -
  obtain t0 t1 t2 t3 t4 t5 t6 t7 t8 t9 t10 t11 t12 t13 t14 t15 t16 t17 t18 ts where d: "d = \<lparr>p_clock = p_clock d, p_last_dqs = False, p_last_rtt = False,
      p_mem = p_mem d, p_lane = t0 # t1 # t2 # t3 # t4 # t5 # t6 # t7 # t8 # t9 # t10 # t11 # t12 # t13 # t14 # t15 # t16 # t17 # t18 # ts\<rparr>" and ts: "length ts = 13"
    and q: "\<forall>t \<in> set (t0 # t1 # t2 # t3 # t4 # t5 # t6 # t7 # t8 # t9 # t10 # t11 # t12 # t13 # t14 # t15 # t16 # t17 # t18 # ts). \<not> m_used t \<and> \<not> m_rtt t"
    by (rule lane_obtain [OF assms(1)])
  show ?thesis
    apply (subst d)
    using assms(2-5) q ts
    by (simp add: write_burst_def numeral_nat write_clock burst_fits_def del: run.simps(2))
       (simp add: open_clock line_ok_def bus_mem_def stored_burst_def path_quiet_def del: run.simps(2))
qed

lemma read_burst_path:
  assumes "path_quiet d" and "p_clock d + 15 < ckREFIn" and "unat bk = k" and "col AND 7 = 0"
    and "burst_fits (burst_addr row bk col) (p_mem d)"
  shows "\<exists>d' xs. run (open_step k row) d (read_burst bk col) = Inr (d', xs)
    \<and> path_quiet d' \<and> p_clock d' = p_clock d + 15 \<and> p_mem d' = p_mem d
    \<and> drop 11 xs = map (\<lambda>i. p_mem d ! unat (burst_addr row bk col + i)) [0, 1, 2, 3]"
proof -
  obtain t0 t1 t2 t3 t4 t5 t6 t7 t8 t9 t10 t11 t12 t13 t14 t15 t16 t17 t18 ts where d: "d = \<lparr>p_clock = p_clock d, p_last_dqs = False, p_last_rtt = False,
      p_mem = p_mem d, p_lane = t0 # t1 # t2 # t3 # t4 # t5 # t6 # t7 # t8 # t9 # t10 # t11 # t12 # t13 # t14 # t15 # t16 # t17 # t18 # ts\<rparr>" and ts: "length ts = 13"
    and q: "\<forall>t \<in> set (t0 # t1 # t2 # t3 # t4 # t5 # t6 # t7 # t8 # t9 # t10 # t11 # t12 # t13 # t14 # t15 # t16 # t17 # t18 # ts). \<not> m_used t \<and> \<not> m_rtt t"
    by (rule lane_obtain [OF assms(1)])
  show ?thesis
    apply (subst d)
    using assms(2-5) q ts
    by (simp add: read_burst_def numeral_nat read_clock burst_fits_def del: run.simps(2))
       (simp add: open_clock line_ok_def bus_mem_def path_quiet_def del: run.simps(2))
qed

lemma nop_path:
  assumes "path_quiet d" and "p_clock d + 1 < ckREFIn"
  shows "\<exists>d' x. open_step k row d ddr_nop = Inr (d', x) \<and> path_quiet d'
    \<and> p_clock d' = p_clock d + 1 \<and> p_mem d' = p_mem d"
proof -
  obtain t0 t1 t2 t3 t4 t5 t6 t7 t8 t9 t10 t11 t12 t13 t14 t15 t16 t17 t18 ts where d: "d = \<lparr>p_clock = p_clock d, p_last_dqs = False, p_last_rtt = False,
      p_mem = p_mem d, p_lane = t0 # t1 # t2 # t3 # t4 # t5 # t6 # t7 # t8 # t9 # t10 # t11 # t12 # t13 # t14 # t15 # t16 # t17 # t18 # ts\<rparr>" and ts: "length ts = 13"
    and q: "\<forall>t \<in> set (t0 # t1 # t2 # t3 # t4 # t5 # t6 # t7 # t8 # t9 # t10 # t11 # t12 # t13 # t14 # t15 # t16 # t17 # t18 # ts). \<not> m_used t \<and> \<not> m_rtt t"
    by (rule lane_obtain [OF assms(1)])
  show ?thesis
    apply (subst d)
    using assms(2) q ts
    by (simp add: open_step_def open_command_def open_bus_def Let_def line_ok_def bus_mem_def
        path_quiet_def)
qed

lemma nops_path:
  assumes "path_quiet d" and "p_clock d + int n < ckREFIn"
  shows "\<exists>d' xs. run (open_step k row) d (replicate n ddr_nop) = Inr (d', xs) \<and> path_quiet d'
    \<and> p_clock d' = p_clock d + int n \<and> p_mem d' = p_mem d"
  using assms
proof (induction n arbitrary: d)
  case (Suc n)
  then obtain d1 x where d1: "open_step k row d ddr_nop = Inr (d1, x)" "path_quiet d1"
      "p_clock d1 = p_clock d + 1" "p_mem d1 = p_mem d"
    using nop_path [of d k row] by fastforce
  moreover obtain d2 xs where "run (open_step k row) d1 (replicate n ddr_nop) = Inr (d2, xs)"
      "path_quiet d2" "p_clock d2 = p_clock d1 + int n" "p_mem d2 = p_mem d1"
    using Suc.IH [of d1] Suc.prems d1 by fastforce
  ultimately show ?case by simp
qed simp

text \<open>
  A read that comes four clocks after the write of the same words: its slots take their data from
  the memory at once, eleven clocks before the write gets there.
\<close>

definition early_read :: "u32 \<Rightarrow> u32 \<Rightarrow> u32 \<Rightarrow> u32 \<Rightarrow> u32 \<Rightarrow> u32 \<Rightarrow> ddr_pins list" where
  "early_read bk col d0 d1 d2 d3 =
     write_to bk col # replicate 3 ddr_nop @ read_from bk col # replicate 2 ddr_nop
       @ replicate 4 (terminated ddr_nop)
       @ [terminated (drive d0), drive d1, drive d2, drive d3] @ replicate 4 ddr_nop"

lemma early_read_path:
  assumes "path_quiet d" and "p_clock d + 19 < ckREFIn" and "unat bk = k" and "col AND 7 = 0"
    and "burst_fits (burst_addr row bk col) (p_mem d)"
  shows "\<exists>d' xs. run (open_step k row) d (early_read bk col d0 d1 d2 d3) = Inr (d', xs)
    \<and> path_quiet d' \<and> p_clock d' = p_clock d + 19
    \<and> p_mem d' = stored_burst (burst_addr row bk col) (p_mem d) d0 d1 d2 d3
    \<and> drop 15 xs = map (\<lambda>i. p_mem d ! unat (burst_addr row bk col + i)) [0, 1, 2, 3]"
proof -
  obtain t0 t1 t2 t3 t4 t5 t6 t7 t8 t9 t10 t11 t12 t13 t14 t15 t16 t17 t18 ts where d: "d = \<lparr>p_clock = p_clock d, p_last_dqs = False, p_last_rtt = False,
      p_mem = p_mem d, p_lane = t0 # t1 # t2 # t3 # t4 # t5 # t6 # t7 # t8 # t9 # t10 # t11 # t12 # t13 # t14 # t15 # t16 # t17 # t18 # ts\<rparr>" and ts: "length ts = 13"
    and q: "\<forall>t \<in> set (t0 # t1 # t2 # t3 # t4 # t5 # t6 # t7 # t8 # t9 # t10 # t11 # t12 # t13 # t14 # t15 # t16 # t17 # t18 # ts). \<not> m_used t \<and> \<not> m_rtt t"
    by (rule lane_obtain [OF assms(1)])
  from ts have "length ts = Suc (Suc (Suc 10))" by simp
  then obtain u0 u1 u2 us where us: "ts = u0 # u1 # u2 # us" "length us = 10"
    unfolding length_Suc_conv by blast
  show ?thesis
    apply (subst d)
    using assms(2-5) q us
    by (simp add: early_read_def numeral_nat write_clock burst_fits_def del: run.simps(2))
       (simp add: open_clock read_clock line_ok_def bus_mem_def stored_burst_def path_quiet_def
         del: run.simps(2))
qed

end
