(* ===== verification/DdrAccess.thy ===== *)
theory DdrAccess
  imports DdrBurst
begin

text \<open>
  Whole accesses of the simulated SDRAM: a row is activated in a closed bank, and data is written
  to it and read back.  The runs on the data path become runs of the delay line and then of the
  chip.
\<close>

section \<open>A chip at rest\<close>

definition line_ready :: "ddr \<Rightarrow> bool" where
  "line_ready s \<longleftrightarrow> m_reset_state s = 16 \<and> nREF \<le> m_nrefresh_issued s \<and> length (m_bank s) = NBANKS
     \<and> (\<forall>b \<in> set (m_bank s). m_wcounter b = 0) \<and> m_memlen s = int (length (m_mem s))
     \<and> length (m_bus s) = 32 \<and> (\<forall>t \<in> set (m_bus s). \<not> m_used t \<and> \<not> m_rtt t)
     \<and> \<not> m_last_dqs s \<and> \<not> m_last_rtt s"

definition path_of :: "ddr \<Rightarrow> path" where
  "path_of s = \<lparr>p_clock = m_clocks_since_refresh s, p_last_dqs = m_last_dqs s,
     p_last_rtt = m_last_rtt s, p_mem = m_mem s, p_lane = m_bus s\<rparr>"

lemma ready_path:
  assumes "line_ready s" and "k < NBANKS" and "m_state (m_bank s ! k) = bank_mask"
    and "m_row (m_bank s ! k) = row"
  shows "path_rel k row s (path_of s)" and "path_quiet (path_of s)"
  using assms by (simp_all add: line_ready_def path_of_def path_rel_def path_quiet_def bank_open_def)

lemma path_ready:
  assumes "path_rel k row s d" and "path_quiet d"
  shows "line_ready s" and "m_mem s = p_mem d" and "m_clocks_since_refresh s = p_clock d"
  using assms by (simp_all add: line_ready_def path_rel_def path_quiet_def bank_open_def)

lemma path_runs:
  assumes "path_rel k row s d" and "run (open_step k row) d ps = Inr (d', xs)"
  shows "\<exists>s'. run line_step s ps = Inr (s', xs) \<and> path_rel k row s' d'"
proof -
  have "list_all (\<lambda>_. True) ps" by (simp add: list_all_iff)
  from data_path.run_sim [OF assms(1) this assms(2)]
  show ?thesis by (auto simp: list.rel_eq)
qed

section \<open>Opening a row\<close>

lemma quiet_bus_clock:
  assumes "length l = 32" and "\<forall>t \<in> set l. \<not> m_used t \<and> \<not> m_rtt t" and "\<not> odt p"
  shows "length (tl (l[3 := (l ! 3)\<lparr>m_rtt := odt p \<and> b\<rparr>]) @ [free_slot (hd l)]) = 32"
    and "\<forall>t \<in> set (tl (l[3 := (l ! 3)\<lparr>m_rtt := odt p \<and> b\<rparr>]) @ [free_slot (hd l)]).
           \<not> m_used t \<and> \<not> m_rtt t"
proof -
  have l: "l \<noteq> []" and t3: "l ! 3 \<in> set l" using assms(1) by auto
  show "length (tl (l[3 := (l ! 3)\<lparr>m_rtt := odt p \<and> b\<rparr>]) @ [free_slot (hd l)]) = 32"
    using assms(1) by simp
  have "set (tl (l[3 := (l ! 3)\<lparr>m_rtt := odt p \<and> b\<rparr>])) \<subseteq> insert ((l ! 3)\<lparr>m_rtt := odt p \<and> b\<rparr>) (set l)"
    using set_update_subset_insert l by (metis list.set_sel(2) list_update_nonempty subset_iff)
  then show "\<forall>t \<in> set (tl (l[3 := (l ! 3)\<lparr>m_rtt := odt p \<and> b\<rparr>]) @ [free_slot (hd l)]).
      \<not> m_used t \<and> \<not> m_rtt t"
    using assms(2,3) t3 by auto
qed

text \<open>A clock on which the bus rests: the command only moves the banks.\<close>

lemma resting_clock:
  assumes "line_ready s" and "line_command p s = Inr (s\<lparr>m_clocks_since_refresh := c, m_bank := bs\<rparr>)"
    and "reset_n p" and "cke p" and "\<not> dqs p" and "\<not> odt p" and "ddr_cmd p \<noteq> DDR_REFRESH"
    and "length bs = NBANKS" and "\<forall>b \<in> set bs. m_wcounter b = 0"
  shows "\<exists>s' x. line_step s p = Inr (s', x) \<and> line_ready s' \<and> m_bank s' = bs \<and> m_mem s' = m_mem s
    \<and> m_clocks_since_refresh s' = c"
proof -
  let ?l = "m_bus s" and ?s = "s\<lparr>m_clocks_since_refresh := c, m_bank := bs\<rparr>"
  let ?s' = "?s\<lparr>m_last_dqs := False, m_last_rtt := False,
      m_bus := tl (?l[3 := (?l ! 3)\<lparr>m_rtt := odt p \<and> reset_n p\<rparr>]) @ [free_slot (hd ?l)]\<rparr>"
  have l: "length ?l = 32" "\<forall>t \<in> set ?l. \<not> m_used t \<and> \<not> m_rtt t" and r: "\<not> m_last_rtt s"
    using assms(1) by (simp_all add: line_ready_def)
  then have h: "\<not> m_used (hd ?l)" "\<not> m_rtt (hd ?l)" by (cases ?l; simp)+
  have "line_phase p s = Inr ?s"
    using assms r by (simp add: line_phase_def line_ready_def strobe_ok_def)
  then have "line_step s p = Inr (?s', if busoe p then data p else m_data (hd ?l))"
    using h assms(5) by (simp add: line_step_def line_bus_def Let_def line_ok_def)
  moreover have "line_ready ?s'"
    using assms(1,8,9) quiet_bus_clock [OF l assms(6)] by (simp add: line_ready_def)
  ultimately show ?thesis by auto
qed

lemma activate_fields:
  "reset_n (activate bk row)" "cke (activate bk row)" "\<not> dqs (activate bk row)"
  "\<not> odt (activate bk row)" "ba (activate bk row) = bk" "addr (activate bk row) = row"
  by (simp_all add: pins_defs)

lemma activate_clock:
  assumes "line_ready s" and "k < NBANKS" and "unat bk = k" and "m_state (m_bank s ! k) = 0"
    and "319 \<le> m_clocks_since_refresh s" and "m_clocks_since_refresh s + 1 < ckREFIn"
  shows "\<exists>s' x. line_step s (activate bk row) = Inr (s', x) \<and> line_ready s' \<and> m_mem s' = m_mem s
    \<and> m_clocks_since_refresh s' = m_clocks_since_refresh s + 1
    \<and> m_state (m_bank s' ! k) = 1 \<and> m_row (m_bank s' ! k) = row AND 0x7fff"
proof -
  let ?p = "activate bk row" and ?c = "m_clocks_since_refresh s + 1"
  let ?b = "(m_bank s ! k)\<lparr>m_state := 1, m_row := row AND 0x7fff,
      m_min_time_before_precharge := ckRAS, m_min_time_before_activate := ckRC\<rparr>"
  let ?bs = "map (\<lambda>i. if i = k then (m_bank s)[k := ?b] ! i else noop_bank ((m_bank s)[k := ?b] ! i))
      [0..<length ((m_bank s)[k := ?b])]"
  have bs: "\<forall>b \<in> set (m_bank s). m_wcounter b = 0" "length (m_bank s) = NBANKS"
    using assms(1) by (simp_all add: line_ready_def)
  then have w: "m_wcounter (m_bank s ! k) = 0" using assms(2) by simp
  have "tick_one k DDR_ACTIVATE row (m_bank s) = Inr ((m_bank s)[k := ?b])"
    using assms(2,4) bs(2) w by (simp add: tick_one_def bank_tick_def bank_activate_def ddr_cmds)
  moreover have upd: "\<forall>b \<in> set ((m_bank s)[k := ?b]). m_wcounter b = 0"
    using bs(1) w by (auto dest!: set_update_subset_insert [THEN subsetD])
  ultimately have "line_command ?p s = Inr (s\<lparr>m_clocks_since_refresh := ?c, m_bank := ?bs\<rparr>)"
    using assms(3,5,6) tick_others_noop [OF upd, of k 0]
    by (simp add: line_command_def Let_def ddr_activate_def ckRFC_def ddr_cmds activate_fields)
  moreover have "length ?bs = NBANKS" and "\<forall>b \<in> set ?bs. m_wcounter b = 0"
    using bs w by (auto simp: nth_list_update)
  moreover have "m_state (?bs ! k) = 1" "m_row (?bs ! k) = row AND 0x7fff"
    using assms(2) bs(2) by simp_all
  ultimately show ?thesis
    using resting_clock [OF assms(1), where p = ?p and c = ?c and bs = ?bs]
    by (auto simp: ddr_cmds activate_fields simp del: map_eq_conv)
qed

lemma nop_clock:
  assumes "line_ready s" and "m_clocks_since_refresh s + 1 < ckREFIn"
  shows "\<exists>s' x. line_step s ddr_nop = Inr (s', x) \<and> line_ready s' \<and> m_mem s' = m_mem s
    \<and> m_clocks_since_refresh s' = m_clocks_since_refresh s + 1 \<and> m_bank s' = map noop_bank (m_bank s)"
proof -
  have b: "\<forall>b \<in> set (m_bank s). m_wcounter b = 0" "length (m_bank s) = NBANKS"
    using assms(1) by (simp_all add: line_ready_def)
  let ?c = "m_clocks_since_refresh s + 1"
  have "line_command ddr_nop s = Inr (s\<lparr>m_clocks_since_refresh := ?c, m_bank := map noop_bank (m_bank s)\<rparr>)"
    using assms(2) b by (simp add: line_command_def Let_def ddr_idle_def noop_all [unfolded DDR_NOOP_def] ddr_cmds)
  then show ?thesis
    using resting_clock [OF assms(1), where p = ddr_nop and c = ?c and bs = "map noop_bank (m_bank s)"] b
    by (auto simp: ddr_cmds)
qed

lemma nop_clocks:
  assumes "line_ready s" and "m_clocks_since_refresh s + int n < ckREFIn" and "k < NBANKS"
  shows "\<exists>s' xs. run line_step s (replicate n ddr_nop) = Inr (s', xs) \<and> line_ready s'
    \<and> m_mem s' = m_mem s \<and> m_clocks_since_refresh s' = m_clocks_since_refresh s + int n
    \<and> m_state (m_bank s' ! k) = (bank_shift ^^ n) (m_state (m_bank s ! k))
    \<and> m_row (m_bank s' ! k) = m_row (m_bank s ! k)"
  using assms
proof (induction n arbitrary: s)
  case (Suc n)
  obtain s1 x where s1: "line_step s ddr_nop = Inr (s1, x)" "line_ready s1" "m_mem s1 = m_mem s"
      "m_clocks_since_refresh s1 = m_clocks_since_refresh s + 1" "m_bank s1 = map noop_bank (m_bank s)"
    using nop_clock [of s] Suc.prems by fastforce
  have "k < length (m_bank s)" using Suc.prems by (simp add: line_ready_def)
  then have b: "m_state (m_bank s1 ! k) = bank_shift (m_state (m_bank s ! k))"
      "m_row (m_bank s1 ! k) = m_row (m_bank s ! k)"
    using s1(5) by simp_all
  obtain s2 xs where "run line_step s1 (replicate n ddr_nop) = Inr (s2, xs)" "line_ready s2"
      "m_mem s2 = m_mem s1" "m_clocks_since_refresh s2 = m_clocks_since_refresh s1 + int n"
      "m_state (m_bank s2 ! k) = (bank_shift ^^ n) (m_state (m_bank s1 ! k))"
      "m_row (m_bank s2 ! k) = m_row (m_bank s1 ! k)"
    using Suc.IH [of s1] Suc.prems s1 by fastforce
  with s1 b show ?case by (simp add: funpow_swap1)
qed simp

lemma opening_bits: "bit ((bank_shift ^^ n) 1) i \<longleftrightarrow> i \<le> n \<and> i < ckRP"
proof (induction n arbitrary: i)
  case 0
  show ?case by (auto simp: bit_1_iff ckRP_def)
next
  case (Suc n)
  have "bit ((bank_shift ^^ Suc n) 1) i \<longleftrightarrow> i < ckRP \<and>
      (if i = 0 then bit ((bank_shift ^^ n) 1) 0 else bit ((bank_shift ^^ n) 1) (i - 1))"
    by (simp only: funpow.simps comp_apply bit_bank_shift)
  then show ?case by (simp only: Suc) (auto simp: ckRP_def)
qed

lemma opens_in_ten: "(bank_shift ^^ 10) 1 = bank_mask"
  by (auto simp: word_eq_bits opening_bits bit_bank_mask ckRP_def)

section \<open>Writing and reading back\<close>

definition open_row :: "u32 \<Rightarrow> u32 \<Rightarrow> ddr_pins list" where
  "open_row bk row = activate bk row # replicate 10 ddr_nop"

lemma open_row_run:
  assumes "line_ready s" and "k < NBANKS" and "unat bk = k" and "m_state (m_bank s ! k) = 0"
    and "319 \<le> m_clocks_since_refresh s" and "m_clocks_since_refresh s + 11 < ckREFIn"
  shows "\<exists>s' d xs. run line_step s (open_row bk row) = Inr (s', xs) \<and> length xs = 11
    \<and> path_rel k (row AND 0x7fff) s' d \<and> path_quiet d \<and> p_mem d = m_mem s
    \<and> p_clock d = m_clocks_since_refresh s + 11"
proof -
  obtain s1 x where s1: "line_step s (activate bk row) = Inr (s1, x)" "line_ready s1"
      "m_mem s1 = m_mem s" "m_clocks_since_refresh s1 = m_clocks_since_refresh s + 1"
      "m_state (m_bank s1 ! k) = 1" "m_row (m_bank s1 ! k) = row AND 0x7fff"
    using activate_clock [OF assms(1-5)] assms(6) by fastforce
  obtain s2 xs where s2: "run line_step s1 (replicate 10 ddr_nop) = Inr (s2, xs)" "line_ready s2"
      "m_mem s2 = m_mem s1" "m_clocks_since_refresh s2 = m_clocks_since_refresh s1 + int 10"
      "m_state (m_bank s2 ! k) = (bank_shift ^^ 10) (m_state (m_bank s1 ! k))"
      "m_row (m_bank s2 ! k) = m_row (m_bank s1 ! k)"
    using nop_clocks [OF s1(2), of 10 k] s1(4) assms(2,6) by force
  have "run line_step s (open_row bk row) = Inr (s2, x # xs)"
    unfolding open_row_def by (rule run_Cons_Inr [OF s1(1) s2(1)])
  moreover have "length xs = 10" using run_length [OF s2(1)] by simp
  moreover have "m_state (m_bank s2 ! k) = bank_mask" "m_row (m_bank s2 ! k) = row AND 0x7fff"
    using s2(5,6) s1(5,6) opens_in_ten by simp_all
  note ready_path [OF s2(2) assms(2) this]
  moreover have "p_mem (path_of s2) = m_mem s" "p_clock (path_of s2) = m_clocks_since_refresh s + 11"
    using s1(3,4) s2(3,4) by (simp_all add: path_of_def)
  ultimately show ?thesis by auto
qed

text \<open>A run on the data path after a row has been opened.\<close>

lemma access_run:
  assumes "line_ready s" and "k < NBANKS" and "unat bk = k" and "m_state (m_bank s ! k) = 0"
    and "319 \<le> m_clocks_since_refresh s" and "m_clocks_since_refresh s + 11 < ckREFIn"
    and "\<And>d. path_quiet d \<Longrightarrow> p_mem d = m_mem s \<Longrightarrow> p_clock d = m_clocks_since_refresh s + 11 \<Longrightarrow>
      \<exists>d' xs. run (open_step k (row AND 0x7fff)) d ps = Inr (d', xs) \<and> path_quiet d' \<and> P (p_mem d') xs"
  shows "\<exists>s' xs. run line_step s (open_row bk row @ ps) = Inr (s', xs) \<and> line_ready s'
    \<and> P (m_mem s') (drop 11 xs)"
proof -
  obtain s1 d xs where s1: "run line_step s (open_row bk row) = Inr (s1, xs)" "length xs = 11"
      "path_rel k (row AND 0x7fff) s1 d" and d: "path_quiet d" "p_mem d = m_mem s"
      "p_clock d = m_clocks_since_refresh s + 11"
    using open_row_run [OF assms(1-6)] by blast
  obtain d' ys where d': "run (open_step k (row AND 0x7fff)) d ps = Inr (d', ys)" "path_quiet d'"
      "P (p_mem d') ys"
    using assms(7) [OF d] by blast
  obtain s' where s': "run line_step s1 ps = Inr (s', ys)" "path_rel k (row AND 0x7fff) s' d'"
    using path_runs [OF s1(3) d'(1)] by blast
  have "run line_step s (open_row bk row @ ps) = Inr (s', xs @ ys)"
    by (rule run_append_Inr [OF s1(1) s'(1)])
  then show ?thesis using path_ready [OF s'(2) d'(2)] d'(3) s1(2) by auto
qed

lemma burst_addr_bound: "unat (burst_addr row bk col) < 2 ^ 31"
proof -
  have "unat (drop_bit 1 x) = unat x div 2" for x :: u32
    by (simp add: drop_bit_eq_div unat_div)
  then show ?thesis
    using unat_bound by (simp only: burst_addr_def Let_def) (simp add: less_mult_imp_div_less)
qed

lemma burst_addr_add:
  assumes "i < 4"
  shows "unat (burst_addr row bk col + of_nat i) = unat (burst_addr row bk col) + i"
proof -
  have "unat (burst_addr row bk col) + i < 2 ^ 32" using burst_addr_bound [of row bk col] assms by simp
  moreover have "unat (of_nat i :: u32) = i" using assms by (simp add: unat_of_nat)
  ultimately show ?thesis by (simp add: unat_word_ariths)
qed

lemma burst_addr_offsets:
  "unat (burst_addr row bk col + 1) = unat (burst_addr row bk col) + 1"
  "unat (burst_addr row bk col + 2) = unat (burst_addr row bk col) + 2"
  "unat (burst_addr row bk col + 3) = unat (burst_addr row bk col) + 3"
  using burst_addr_add [of 1] burst_addr_add [of 2] burst_addr_add [of 3] by simp_all

lemma burst_fits_addr:
  "unat (burst_addr row bk col) + 3 < length mem \<Longrightarrow> burst_fits (burst_addr row bk col) mem"
  by (simp add: burst_fits_def burst_addr_offsets)

section \<open>The chip\<close>

definition ddr_ready :: "ddr \<Rightarrow> bool" where
  "ddr_ready s \<longleftrightarrow> ddr_wf s \<and> line_ready (unroll s)"

lemma chip_run:
  assumes "ddr_wf s" and "run line_step (unroll s) ps = Inr (t, xs)"
  shows "\<exists>s'. run ddr_step s ps = Inr (s', xs) \<and> unroll s' = t \<and> ddr_wf s'"
  using assms run_unroll [OF assms(1), of ps] run_wf [OF assms(1)]
  by (cases "run ddr_step s ps") auto

lemma chip_access:
  assumes "ddr_ready s" and "unat bk < NBANKS" and "m_state (m_bank s ! unat bk) = 0"
    and "319 \<le> m_clocks_since_refresh s" and "m_clocks_since_refresh s + 11 < ckREFIn"
    and "\<And>d. path_quiet d \<Longrightarrow> p_mem d = m_mem s \<Longrightarrow> p_clock d = m_clocks_since_refresh s + 11 \<Longrightarrow>
      \<exists>d' xs. run (open_step (unat bk) (row AND 0x7fff)) d ps = Inr (d', xs) \<and> path_quiet d'
        \<and> P (p_mem d') xs"
  shows "\<exists>s' xs. run ddr_step s (open_row bk row @ ps) = Inr (s', xs) \<and> ddr_ready s'
    \<and> P (m_mem s') (drop 11 xs)"
proof -
  have wf: "ddr_wf s" using assms(1) by (simp add: ddr_ready_def)
  obtain t xs where t: "run line_step (unroll s) (open_row bk row @ ps) = Inr (t, xs)" "line_ready t"
      "P (m_mem t) (drop 11 xs)"
    using access_run [of "unroll s" "unat bk" bk row ps P] assms by (auto simp: ddr_ready_def)
  then show ?thesis using chip_run [OF wf t(1)] by (auto simp: ddr_ready_def)
qed

end
