(* ===== verification/DdrStart.thy ===== *)
theory DdrStart
  imports DdrAccess
begin

text \<open>
  The start-up of the simulated SDRAM.  \<open>progress\<close> is the sequence a controller has to follow as a
  step relation; the chip follows it clock by clock, so an accepted run that ends in operation
  contains the whole sequence, and the sequence is accepted.
\<close>

section \<open>The sequence\<close>

definition waits :: "int \<Rightarrow> ddr_pins \<Rightarrow> bool" where
  "waits st p \<longleftrightarrow> st = 0 \<and> \<not> reset_n p \<or> st = 1 \<and> reset_n p \<and> \<not> cke p
     \<or> 2 \<le> st \<and> st \<le> 8 \<and> ddr_cmd p = DDR_NOOP"

definition advances :: "int \<Rightarrow> nat \<Rightarrow> ddr_pins \<Rightarrow> bool" where
  "advances st n p \<longleftrightarrow>
     st = 0 \<and> 40000 \<le> n \<and> reset_n p
     \<or> st = 1 \<and> 100000 \<le> n \<and> reset_n p \<and> cke p
     \<or> st = 2 \<and> 147 \<le> n \<and> ddr_cmd p = DDR_MRSET \<and> ba p = 2 \<and> addr p = DDR_MR2
     \<or> st = 3 \<and> ddr_cmd p = DDR_MRSET \<and> ba p = 1 \<and> addr p = DDR_MR1
     \<or> st = 4 \<and> 3 \<le> n \<and> ddr_cmd p = DDR_MRSET \<and> ba p = 0 \<and> addr p = DDR_MR0
     \<or> st = 5 \<and> 11 \<le> n \<and> ddr_cmd p = DDR_ZQS \<and> addr p = 0x400
     \<or> st = 6 \<and> 512 \<le> n \<and> ddr_cmd p = DDR_PRECHARGE \<and> addr p = 0x400
     \<or> st = 7 \<and> 3 \<le> n \<and> ddr_cmd p = DDR_REFRESH"

inductive progress :: "int \<Rightarrow> nat \<Rightarrow> ddr_pins list \<Rightarrow> bool" where
  restart: "progress 0 0 ps"
| wait: "progress st n ps \<Longrightarrow> waits st p \<Longrightarrow> progress st (Suc n) (ps @ [p])"
| advance: "progress st n ps \<Longrightarrow> advances st n p \<Longrightarrow> progress (st + 1) 0 (ps @ [p])"

lemma ddr_cmd_pins:
  assumes "ddr_cmd p < 16"
  shows "reset_n p" and "cke p"
  using assms by (auto simp: ddr_cmd_def split: if_splits)

lemma reset_step_progress:
  assumes "startup_step p s = Inr s'" and "m_reset_state s = 0 \<or> reset_n p"
    and "progress (m_reset_state s) (nat (m_reset_counts s)) ps"
    and "0 \<le> m_reset_counts s" and "0 \<le> m_reset_state s" and "m_reset_state s \<le> 8"
  shows "m_reset_state s' = 16 \<and> 140 \<le> m_reset_counts s \<and> m_reset_state s = 8 \<and> ddr_cmd p = DDR_NOOP
    \<or> 0 \<le> m_reset_counts s' \<and> 0 \<le> m_reset_state s' \<and> m_reset_state s' \<le> 8
      \<and> progress (m_reset_state s') (nat (m_reset_counts s')) (ps @ [p])"
proof -
  let ?st = "m_reset_state s" and ?n = "m_reset_counts s"
  consider (final) "?st = 8" "140 < ?n + 1" "ddr_cmd p = DDR_NOOP" "m_reset_state s' = 16"
    | (wait) "waits ?st p" "m_reset_state s' = ?st" "m_reset_counts s' = ?n + 1"
    | (advance) "advances ?st (nat ?n) p" "m_reset_state s' = ?st + 1" "m_reset_counts s' = 0"
  proof -
    have "?st = 0 \<or> ?st = 1 \<or> ?st = 2 \<or> ?st = 3 \<or> ?st = 4 \<or> ?st = 5 \<or> ?st = 6 \<or> ?st = 7 \<or> ?st = 8"
      using assms(5,6) by linarith
    then show thesis
      using assms(1,2,4) that
      by (elim disjE; simp add: startup_step_def reset_await_def waits_def advances_def Let_def le_nat_iff
          c_assert_bind split: if_splits; force)
  qed
  then show ?thesis
  proof cases
    case wait
    then show ?thesis
      using assms(3-6) progress.wait [of ?st "nat ?n" ps p] by (simp add: nat_add_distrib)
  next
    case advance
    then have "?st < 8" by (auto simp: advances_def)
    with advance show ?thesis using assms(3-6) progress.advance by simp
  qed simp
qed

section \<open>The chip follows it\<close>

definition booted :: "ddr_pins list \<Rightarrow> bool" where
  "booted ps \<longleftrightarrow> (\<exists>pre post n. ps = pre @ post \<and> progress 8 n pre \<and> 141 \<le> n)"

definition start_inv :: "ddr_pins list \<Rightarrow> ddr \<Rightarrow> bool" where
  "start_inv ps s \<longleftrightarrow> m_reset_state s = 16 \<and> booted ps
     \<or> 0 \<le> m_reset_counts s \<and> 0 \<le> m_reset_state s \<and> m_reset_state s \<le> 8
       \<and> progress (m_reset_state s) (nat (m_reset_counts s)) ps"

lemma booted_snoc: "booted ps \<Longrightarrow> booted (ps @ [p])"
  by (auto simp: booted_def) (metis append.assoc)

lemma bus_keeps_counts: "ddr_bus p s = Inr (s', x) \<Longrightarrow> m_reset_counts s' = m_reset_counts s"
  unfolding ddr_bus_def Let_def by (auto split: if_splits)

lemma ddr_reset_state:
  assumes "ddr_reset p s = Inr s'"
  obtains s1 where "startup_step p s = Inr s1" and "m_reset_state s' = m_reset_state s1"
    and "m_reset_counts s' = m_reset_counts s1"
  using assms by (auto simp: ddr_reset_def)

lemma ddr_step_start:
  assumes "ddr_step s p = Inr (s', x)" and "start_inv ps s"
  shows "start_inv (ps @ [p]) s'"
proof -
  obtain s1 where s1: "ddr_phase p s = Inr s1" "ddr_bus p s1 = Inr (s', x)"
    using assms(1) by (auto simp: ddr_step_def)
  have s': "m_reset_state s' = m_reset_state s1" "m_reset_counts s' = m_reset_counts s1"
    using s1(2) bus_keeps bus_keeps_counts by blast+
  consider (reset) "m_reset_state s \<noteq> 0" "\<not> reset_n p"
    | (operating) "m_reset_state s = 16" "reset_n p" "booted ps"
    | (starting) "m_reset_state s = 0 \<or> reset_n p" "m_reset_state s \<le> 8"
    using assms(2) by (cases "reset_n p") (auto simp: start_inv_def)
  then have "start_inv (ps @ [p]) s1"
  proof cases
    case reset
    then have "m_reset_state s1 = 0" "m_reset_counts s1 = 0"
      using s1(1) by (auto simp: ddr_phase_def)
    then show ?thesis by (simp add: start_inv_def progress.restart)
  next
    case operating
    then show ?thesis
      using phase_operating [OF s1(1) operating(2)] booted_snoc by (simp add: start_inv_def)
  next
    case starting
    then have inv: "0 \<le> m_reset_counts s" "0 \<le> m_reset_state s"
        "progress (m_reset_state s) (nat (m_reset_counts s)) ps"
      using assms(2) by (simp_all add: start_inv_def)
    from starting s1(1) have "ddr_reset p s = Inr s1"
      by (auto simp: ddr_phase_def)
    then obtain s2 where s2: "startup_step p s = Inr s2" "m_reset_state s1 = m_reset_state s2"
        "m_reset_counts s1 = m_reset_counts s2"
      by (rule ddr_reset_state)
    from reset_step_progress [OF s2(1) starting(1) inv(3,1,2) starting(2)] show ?thesis
    proof (elim disjE conjE)
      assume f: "m_reset_state s2 = 16" "140 \<le> m_reset_counts s" "m_reset_state s = 8"
        "ddr_cmd p = DDR_NOOP"
      then have "progress 8 (Suc (nat (m_reset_counts s))) (ps @ [p])"
        using inv(3) by (intro progress.wait) (simp_all add: waits_def)
      then have "booted (ps @ [p])" using f(2) unfolding booted_def
        by (intro exI [of _ "ps @ [p]"] exI [of _ "[]"] exI [of _ "Suc (nat (m_reset_counts s))"])
           (simp add: le_nat_iff)
      with f s2 show ?thesis by (simp add: start_inv_def)
    qed (simp add: start_inv_def s2)
  qed
  then show ?thesis using s' by (simp add: start_inv_def)
qed

lemma run_start:
  "run ddr_step s qs = Inr (s', xs) \<Longrightarrow> start_inv ps s \<Longrightarrow> start_inv (ps @ qs) s'"
proof (induction qs arbitrary: s ps xs)
  case (Cons q qs)
  then obtain s1 x ys where "ddr_step s q = Inr (s1, x)" "run ddr_step s1 qs = Inr (s', ys)" by auto
  with Cons.IH [of s1 ys "ps @ [q]"] ddr_step_start [of s q s1 x ps] Cons.prems(2) show ?case by simp
qed simp

section \<open>Taking the sequence apart\<close>

lemma progress_bounds: "progress st n ps \<Longrightarrow> 0 \<le> st"
  by (induction rule: progress.induct) simp_all

lemma progress_before:
  assumes "progress st n ps" and "0 < st"
  shows "\<exists>ps' m p w. ps = ps' @ p # w \<and> progress (st - 1) m ps' \<and> advances (st - 1) m p
    \<and> length w = n \<and> (\<forall>q \<in> set w. waits st q)"
  using assms
proof (induction rule: progress.induct)
  case (wait st n ps p)
  then obtain ps' m q w where "ps = ps' @ q # w" "progress (st - 1) m ps'" "advances (st - 1) m q"
      "length w = n" "\<forall>q \<in> set w. waits st q" by blast
  with wait.hyps(2) show ?case
    by (intro exI [of _ ps'] exI [of _ m] exI [of _ q] exI [of _ "w @ [p]"]) auto
next
  case (advance st n ps p)
  then show ?case by (intro exI [of _ ps] exI [of _ n] exI [of _ p] exI [of _ "[]"]) simp
qed simp

lemma progress_first:
  "progress st n ps \<Longrightarrow> st = 0 \<Longrightarrow> \<exists>pre w. ps = pre @ w \<and> length w = n \<and> (\<forall>q \<in> set w. waits 0 q)"
proof (induction rule: progress.induct)
  case (restart ps)
  show ?case by (intro exI [of _ ps] exI [of _ "[]"]) simp
next
  case (wait st n ps p)
  then obtain pre w where "ps = pre @ w" "length w = n" "\<forall>q \<in> set w. waits 0 q" by blast
  with wait show ?case by (intro exI [of _ pre] exI [of _ "w @ [p]"]) auto
next
  case (advance st n ps p)
  then show ?case using progress_bounds by fastforce
qed

definition idle_for :: "nat \<Rightarrow> ddr_pins list \<Rightarrow> bool" where
  "idle_for n w \<longleftrightarrow> n \<le> length w \<and> (\<forall>p \<in> set w. ddr_cmd p = DDR_NOOP)"

definition sets_mode :: "u32 \<Rightarrow> u32 \<Rightarrow> ddr_pins \<Rightarrow> bool" where
  "sets_mode r v p \<longleftrightarrow> ddr_cmd p = DDR_MRSET \<and> ba p = r \<and> addr p = v"

text \<open>One stage of the sequence: the command that ended the stage before, and the wait after it.\<close>

lemma stage:
  assumes "progress st n ps" and "st = k + 1" and "0 \<le> k"
  shows "\<exists>ps' m p w. ps = ps' @ p # w \<and> progress k m ps' \<and> advances k m p
    \<and> length w = n \<and> (\<forall>q \<in> set w. waits st q)"
  using progress_before [OF assms(1)] assms(2,3) by simp

lemma stage_idle:
  assumes "length w = n" and "\<forall>q \<in> set w. waits st q" and "2 \<le> st" and "m \<le> n"
  shows "idle_for m w"
  using assms by (auto simp: idle_for_def waits_def)

end
