(* ===== verification/DdrBoot.thy ===== *)
theory DdrBoot
  imports DdrStart
begin

text \<open>
  The start-up sequence is accepted: a controller that waits long enough at every stage brings the
  simulated SDRAM from power-up to rest in operation, whatever the chip held before.  And a chip in
  operation insists on its refreshes.
\<close>

section \<open>One clock of the start-up\<close>

definition starting :: "ddr \<Rightarrow> bool" where
  "starting s \<longleftrightarrow> length (m_bank s) = NBANKS \<and> (\<forall>b \<in> set (m_bank s). m_wcounter b = 0 \<and> m_state b = 0)
     \<and> m_memlen s = int (length (m_mem s))
     \<and> length (m_bus s) = 32 \<and> (\<forall>t \<in> set (m_bus s). \<not> m_used t \<and> \<not> m_rtt t)"

lemma resting_bus:
  assumes "starting s" and "\<not> dqs p" and "\<not> odt p"
  shows "\<exists>s' x. line_bus p s = Inr (s', x) \<and> starting s' \<and> \<not> m_last_dqs s' \<and> \<not> m_last_rtt s'
    \<and> m_mem s' = m_mem s \<and> m_reset_state s' = m_reset_state s \<and> m_reset_counts s' = m_reset_counts s
    \<and> m_clocks_since_refresh s' = m_clocks_since_refresh s
    \<and> m_nrefresh_issued s' = m_nrefresh_issued s"
proof -
  let ?l = "m_bus s"
  let ?s' = "s\<lparr>m_last_dqs := False, m_last_rtt := False,
      m_bus := tl (?l[3 := (?l ! 3)\<lparr>m_rtt := odt p \<and> reset_n p\<rparr>]) @ [free_slot (hd ?l)]\<rparr>"
  have l: "length ?l = 32" "\<forall>t \<in> set ?l. \<not> m_used t \<and> \<not> m_rtt t"
    using assms(1) by (simp_all add: starting_def)
  then have h: "\<not> m_used (hd ?l)" "\<not> m_rtt (hd ?l)" by (cases ?l; simp)+
  have "line_bus p s = Inr (?s', if busoe p then data p else m_data (hd ?l))"
    using h assms(2) by (simp add: line_bus_def Let_def line_ok_def)
  moreover have "starting ?s'"
    using assms(1) quiet_bus_clock [OF l assms(3)] by (simp add: starting_def)
  ultimately show ?thesis by auto
qed

lemma closed_banks_tick:
  assumes "\<forall>b \<in> set bs. m_wcounter b = 0 \<and> m_state b = 0"
    and "cmd \<notin> {DDR_ACTIVATE, DDR_READ, DDR_WRITE}"
  shows "\<exists>bs'. tick_all cmd 0 bs = Inr bs' \<and> length bs' = length bs
    \<and> (\<forall>b \<in> set bs'. m_wcounter b = 0 \<and> m_state b = 0)"
  using assms(1)
proof (induction bs)
  case (Cons b bs)
  have "bank_shift 0 = 0" by (simp add: word_eq_bits bit_bank_shift)
  then have "\<exists>b'. bank_tick cmd 0 b = Inr b' \<and> m_wcounter b' = 0 \<and> m_state b' = 0"
    using assms(2) Cons.prems by (simp add: bank_tick_def Let_def)
  with Cons show ?case by (auto simp: tick_all_def)
qed (simp add: tick_all_def)

lemma starting_clock:
  assumes "starting s" and "m_reset_state s < 16" and "m_reset_state s = 0 \<or> reset_n p"
    and "\<not> dqs p" and "\<not> odt p" and "ddr_cmd p \<notin> {DDR_ACTIVATE, DDR_READ, DDR_WRITE}"
    and "startup_step p s = Inr (s\<lparr>m_reset_counts := n, m_reset_state := st, m_clocks_since_refresh := c\<rparr>)"
  shows "\<exists>s' x. line_step s p = Inr (s', x) \<and> starting s' \<and> \<not> m_last_dqs s' \<and> \<not> m_last_rtt s'
    \<and> m_mem s' = m_mem s \<and> m_reset_state s' = st \<and> m_reset_counts s' = n
    \<and> m_clocks_since_refresh s' = c + 1 \<and> m_nrefresh_issued s' = nREF"
proof -
  obtain bs where bs: "tick_all (ddr_cmd p) 0 (m_bank s) = Inr bs" "length bs = length (m_bank s)"
      "\<forall>b \<in> set bs. m_wcounter b = 0 \<and> m_state b = 0"
    using closed_banks_tick [of "m_bank s" "ddr_cmd p"] assms(1,6) by (auto simp: starting_def)
  let ?s = "s\<lparr>m_reset_counts := n, m_reset_state := st, m_clocks_since_refresh := c + 1,
      m_nrefresh_issued := nREF, m_bank := bs\<rparr>"
  have "ddr_reset p s = Inr ?s"
    using bs(1) by (simp add: ddr_reset_def assms(7))
  then have "line_phase p s = Inr ?s" using assms(2,3) by (auto simp: line_phase_def)
  moreover have "starting ?s" using assms(1) bs by (simp add: starting_def)
  ultimately show ?thesis
    using resting_bus [of ?s p] assms(4,5) by (auto simp: line_step_def)
qed

section \<open>The sequence of a controller\<close>

definition hold_reset :: ddr_pins where "hold_reset = ddr_nop\<lparr>reset_n := False, cke := False\<rparr>"
definition hold_clock :: ddr_pins where "hold_clock = ddr_nop\<lparr>cke := False\<rparr>"
definition load_mode :: "u32 \<Rightarrow> u32 \<Rightarrow> ddr_pins" where
  "load_mode r v = ddr_nop\<lparr>rasn := False, casn := False, wen := False, ba := r, addr := v\<rparr>"
definition calibrate :: ddr_pins where "calibrate = ddr_nop\<lparr>wen := False, addr := 0x400\<rparr>"
definition precharge_all :: ddr_pins where
  "precharge_all = ddr_nop\<lparr>rasn := False, wen := False, addr := 0x400\<rparr>"
definition auto_refresh :: ddr_pins where "auto_refresh = ddr_nop\<lparr>rasn := False, casn := False\<rparr>"

lemmas start_pins = ddr_nop_def hold_reset_def hold_clock_def load_mode_def calibrate_def
  precharge_all_def auto_refresh_def ddr_cmd_def

definition reaches :: "ddr \<Rightarrow> ddr_pins list \<Rightarrow> (ddr \<Rightarrow> bool) \<Rightarrow> bool" where
  "reaches s ps P \<longleftrightarrow> (\<exists>s' xs. run line_step s ps = Inr (s', xs) \<and> P s')"

lemma reaches_append:
  "reaches s ps P \<Longrightarrow> (\<And>s'. P s' \<Longrightarrow> reaches s' qs Q) \<Longrightarrow> reaches s (ps @ qs) Q"
  by (auto simp: reaches_def run_append) fastforce

lemma reaches_Cons:
  "reaches s [p] P \<Longrightarrow> (\<And>s'. P s' \<Longrightarrow> reaches s' qs Q) \<Longrightarrow> reaches s (p # qs) Q"
  using reaches_append [of s "[p]" P qs Q] by simp

lemma reaches_mono: "reaches s ps P \<Longrightarrow> (\<And>s'. P s' \<Longrightarrow> Q s') \<Longrightarrow> reaches s ps Q"
  by (auto simp: reaches_def)

text \<open>The chip in stage \<open>st\<close> for \<open>n\<close> clocks, \<open>c\<close> clocks after the last refresh.\<close>

definition in_stage :: "u32 list \<Rightarrow> int \<Rightarrow> int \<Rightarrow> int \<Rightarrow> ddr \<Rightarrow> bool" where
  "in_stage mem st n c s \<longleftrightarrow> starting s \<and> m_reset_state s = st \<and> m_reset_counts s = n
     \<and> m_clocks_since_refresh s = c \<and> m_mem s = mem"

definition quiet_pins :: "ddr_pins \<Rightarrow> bool" where
  "quiet_pins p \<longleftrightarrow> \<not> dqs p \<and> \<not> odt p \<and> ddr_cmd p \<notin> {DDR_ACTIVATE, DDR_READ, DDR_WRITE}"

lemma wait_clock:
  assumes "in_stage mem st n c s" and "waits st p" and "quiet_pins p" and "st = 8 \<longrightarrow> n < 140"
  shows "reaches s [p] (in_stage mem st (n + 1) (c + 1))"
proof -
  have st: "m_reset_state s = st" "m_reset_counts s = n" "m_clocks_since_refresh s = c" "m_mem s = mem"
      "starting s"
    using assms(1) by (simp_all add: in_stage_def)
  have pins: "reset_n p" "cke p" if "2 \<le> st"
    using that assms(2) ddr_cmd_pins [of p] by (auto simp: waits_def ddr_cmds)
  have "startup_step p s = Inr (s\<lparr>m_reset_counts := n + 1\<rparr>)"
  proof -
    have "st = 0 \<or> st = 1 \<or> st = 2 \<or> st = 3 \<or> st = 4 \<or> st = 5 \<or> st = 6 \<or> st = 7 \<or> st = 8"
      using assms(2) unfolding waits_def by linarith
    then show ?thesis
      using assms(2,4) pins st(1,2)
      by (elim disjE; simp add: startup_step_def reset_await_def Let_def waits_def)
  qed
  moreover have "s\<lparr>m_reset_counts := n + 1\<rparr>
      = s\<lparr>m_reset_counts := n + 1, m_reset_state := st, m_clocks_since_refresh := c\<rparr>"
    using st(1,3) by (cases s) simp
  ultimately have "startup_step p s
      = Inr (s\<lparr>m_reset_counts := n + 1, m_reset_state := st, m_clocks_since_refresh := c\<rparr>)"
    by simp
  moreover have "st < 16" "st = 0 \<or> reset_n p" using assms(2) pins by (auto simp: waits_def)
  ultimately show ?thesis
    using starting_clock [of s p, where n = "n + 1" and st = st and c = c] st assms(3)
    by (auto simp: reaches_def in_stage_def quiet_pins_def)
qed

lemma advance_clock:
  assumes "in_stage mem st n c s" and "advances st (nat n) p" and "quiet_pins p" and "0 \<le> n"
  shows "reaches s [p] (in_stage mem (st + 1) 0 (if st = 7 then 1 else c + 1))"
proof -
  have st: "m_reset_state s = st" "m_reset_counts s = n" "m_clocks_since_refresh s = c" "m_mem s = mem"
      "starting s"
    using assms(1) by (simp_all add: in_stage_def)
  have pins: "reset_n p" "cke p" if "2 \<le> st"
    using that assms(2) ddr_cmd_pins [of p] by (auto simp: advances_def ddr_cmds)
  have "startup_step p s = Inr (s\<lparr>m_reset_counts := 0, m_reset_state := st + 1,
      m_clocks_since_refresh := (if st = 7 then 0 else c)\<rparr>)"
  proof (cases "st = 7")
    case True
    then show ?thesis
      using assms(2,4) pins st(1,2)
      by (simp add: startup_step_def reset_await_def Let_def advances_def ddr_cmds le_nat_iff)
  next
    case False
    have "s\<lparr>m_reset_counts := 0, m_reset_state := st + 1\<rparr>
        = s\<lparr>m_reset_counts := 0, m_reset_state := st + 1, m_clocks_since_refresh := c\<rparr>"
      using st(3) by (cases s) simp
    moreover have "startup_step p s = Inr (s\<lparr>m_reset_counts := 0, m_reset_state := st + 1\<rparr>)"
    proof -
      have "st = 0 \<or> st = 1 \<or> st = 2 \<or> st = 3 \<or> st = 4 \<or> st = 5 \<or> st = 6"
        using assms(2) False unfolding advances_def by linarith
      then show ?thesis
        using assms(2,4) pins st(1,2)
        by (elim disjE; simp add: startup_step_def reset_await_def Let_def advances_def ddr_cmds le_nat_iff)
    qed
    ultimately show ?thesis using False by simp
  qed
  moreover have "st < 16" "reset_n p" using assms(2) pins by (auto simp: advances_def)
  ultimately show ?thesis
    using starting_clock [of s p, where n = 0 and st = "st + 1" and c = "if st = 7 then 0 else c"] st assms(3)
    by (auto simp: reaches_def in_stage_def quiet_pins_def)
qed

lemma wait_clocks:
  assumes "in_stage mem st n c s" and "waits st p" and "quiet_pins p"
    and "st = 8 \<longrightarrow> n + int k \<le> 140"
  shows "reaches s (replicate k p) (in_stage mem st (n + int k) (c + int k))"
  using assms(1,4)
proof (induction k arbitrary: s n c)
  case 0
  then show ?case by (simp add: reaches_def)
next
  case (Suc k)
  have "reaches s (p # replicate k p) (in_stage mem st (n + 1 + int k) (c + 1 + int k))"
    using Suc.prems assms(2,3) by (intro reaches_Cons [OF wait_clock] Suc.IH) auto
  then show ?case by (simp add: algebra_simps)
qed

text \<open>A stage from its first clock to the command that ends it.\<close>

definition entered :: "u32 list \<Rightarrow> int \<Rightarrow> ddr \<Rightarrow> bool" where
  "entered mem st s \<longleftrightarrow> (\<exists>c. in_stage mem st 0 c s \<and> (st = 8 \<longrightarrow> c = 1))"

lemma stage_run:
  assumes "entered mem st s" and "waits st p" and "quiet_pins p" and "advances st k q"
    and "quiet_pins q"
  shows "reaches s (replicate k p @ [q]) (entered mem (st + 1))"
proof -
  obtain c where c: "in_stage mem st 0 c s" using assms(1) by (auto simp: entered_def)
  have st: "st \<noteq> 8" using assms(4) by (auto simp: advances_def)
  have "reaches s (replicate k p) (in_stage mem st (0 + int k) (c + int k))"
    using wait_clocks [OF c assms(2,3)] st by blast
  moreover have "reaches s' [q] (entered mem (st + 1))" if "in_stage mem st (0 + int k) (c + int k) s'" for s'
    by (rule reaches_mono [OF advance_clock [OF that _ assms(5)]])
       (use assms(4) in \<open>auto simp: entered_def\<close>)
  ultimately show ?thesis by (rule reaches_append)
qed

definition hold :: "nat \<Rightarrow> ddr_pins \<Rightarrow> ddr_pins \<Rightarrow> ddr_pins list" where
  "hold n p q = replicate n p @ [q]"

abbreviation ddr_wait :: "nat \<Rightarrow> ddr_pins \<Rightarrow> ddr_pins list" where
  "ddr_wait n p \<equiv> hold n ddr_nop p"

definition ddr_startup :: "nat \<Rightarrow> nat \<Rightarrow> nat \<Rightarrow> nat \<Rightarrow> nat \<Rightarrow> nat \<Rightarrow> nat \<Rightarrow> nat \<Rightarrow> ddr_pins list" where
  "ddr_startup n0 n1 n2 n3 n4 n5 n6 n7 =
     hold n0 hold_reset hold_clock @ hold n1 hold_clock ddr_nop @ ddr_wait n2 (load_mode 2 DDR_MR2) @ ddr_wait n3 (load_mode 1 DDR_MR1)
     @ ddr_wait n4 (load_mode 0 DDR_MR0) @ ddr_wait n5 calibrate @ ddr_wait n6 precharge_all
     @ ddr_wait n7 auto_refresh @ replicate 140 ddr_nop @ [ddr_nop]"

lemma quiet_start_pins [simp]:
  "quiet_pins hold_reset" "quiet_pins hold_clock" "quiet_pins ddr_nop" "quiet_pins (load_mode r v)"
  "quiet_pins calibrate" "quiet_pins precharge_all" "quiet_pins auto_refresh"
  by (simp_all add: quiet_pins_def start_pins ddr_cmds)

lemma start_waits:
  "waits 0 hold_reset" "waits 1 hold_clock" "2 \<le> st \<Longrightarrow> st \<le> 8 \<Longrightarrow> waits st ddr_nop"
  by (simp_all add: waits_def start_pins ddr_cmds)

lemma start_advances:
  "40000 \<le> n \<Longrightarrow> advances 0 n hold_clock" "100000 \<le> n \<Longrightarrow> advances 1 n ddr_nop"
  "147 \<le> n \<Longrightarrow> advances 2 n (load_mode 2 DDR_MR2)" "advances 3 n (load_mode 1 DDR_MR1)"
  "3 \<le> n \<Longrightarrow> advances 4 n (load_mode 0 DDR_MR0)" "11 \<le> n \<Longrightarrow> advances 5 n calibrate"
  "512 \<le> n \<Longrightarrow> advances 6 n precharge_all" "3 \<le> n \<Longrightarrow> advances 7 n auto_refresh"
  by (simp_all add: advances_def start_pins ddr_cmds)

definition at_rest :: "u32 list \<Rightarrow> ddr \<Rightarrow> bool" where
  "at_rest mem s \<longleftrightarrow> line_ready s \<and> m_mem s = mem \<and> m_clocks_since_refresh s = 142
     \<and> (\<forall>b \<in> set (m_bank s). m_state b = 0)"

lemma last_stage:
  assumes "entered mem 8 s"
  shows "reaches s (replicate 140 ddr_nop @ [ddr_nop]) (at_rest mem)"
proof (rule reaches_append)
  have "in_stage mem 8 0 1 s" using assms by (auto simp: entered_def)
  from wait_clocks [OF this start_waits(3), of 140]
  show "reaches s (replicate 140 ddr_nop) (in_stage mem 8 140 141)" by simp
next
  fix s' assume s': "in_stage mem 8 140 141 s'"
  have "startup_step ddr_nop s' = Inr (s'\<lparr>m_reset_counts := 141, m_reset_state := 16\<rparr>)"
    using s' by (simp add: startup_step_def Let_def in_stage_def)
  moreover have "s'\<lparr>m_reset_counts := 141, m_reset_state := 16\<rparr>
      = s'\<lparr>m_reset_counts := 141, m_reset_state := 16, m_clocks_since_refresh := 141\<rparr>"
    using s' by (cases s') (simp add: in_stage_def)
  ultimately show "reaches s' [ddr_nop] (at_rest mem)"
    using starting_clock [of s' ddr_nop, where n = 141 and st = 16 and c = 141] s'
    by (auto simp: in_stage_def reaches_def at_rest_def line_ready_def starting_def ddr_cmds)
qed

lemma stage_append:
  assumes "entered mem st s" and "st + 1 = nxt" and "waits st p" and "quiet_pins p"
    and "advances st k q" and "quiet_pins q" and "\<And>s'. entered mem nxt s' \<Longrightarrow> reaches s' qs Q"
  shows "reaches s (hold k p q @ qs) Q"
  unfolding hold_def using reaches_append [OF stage_run [OF assms(1,3-6)]] assms(2,7) by blast

lemma startup_run:
  assumes "entered mem 0 s"
    and n: "40000 \<le> n0" "100000 \<le> n1" "147 \<le> n2" "3 \<le> n4" "11 \<le> n5" "512 \<le> n6" "3 \<le> n7"
  shows "reaches s (ddr_startup n0 n1 n2 n3 n4 n5 n6 n7) (at_rest mem)"
proof -
  note facts = start_waits start_advances n
  have 8: "reaches s (replicate 140 ddr_nop @ [ddr_nop]) (at_rest mem)" if "entered mem 8 s" for s
    by (rule last_stage [OF that])
  have 6: "reaches s (ddr_wait n6 precharge_all @ ddr_wait n7 auto_refresh
      @ replicate 140 ddr_nop @ [ddr_nop]) (at_rest mem)" if "entered mem 6 s" for s
    by (rule stage_append [OF that, of 7], (simp add: facts)+, rule stage_append [of _ 7 _ 8],
        assumption, (simp add: facts)+, erule 8)
  have 4: "reaches s (ddr_wait n4 (load_mode 0 DDR_MR0) @ ddr_wait n5 calibrate
      @ ddr_wait n6 precharge_all @ ddr_wait n7 auto_refresh @ replicate 140 ddr_nop @ [ddr_nop])
      (at_rest mem)" if "entered mem 4 s" for s
    by (rule stage_append [OF that, of 5], (simp add: facts)+, rule stage_append [of _ 5 _ 6],
        assumption, (simp add: facts)+, erule 6)
  have 2: "reaches s (ddr_wait n2 (load_mode 2 DDR_MR2) @ ddr_wait n3 (load_mode 1 DDR_MR1)
      @ ddr_wait n4 (load_mode 0 DDR_MR0) @ ddr_wait n5 calibrate
      @ ddr_wait n6 precharge_all @ ddr_wait n7 auto_refresh @ replicate 140 ddr_nop @ [ddr_nop])
      (at_rest mem)" if "entered mem 2 s" for s
    by (rule stage_append [OF that, of 3], (simp add: facts)+, rule stage_append [of _ 3 _ 4],
        assumption, (simp add: facts)+, erule 4)
  show ?thesis
    unfolding ddr_startup_def
    by (rule stage_append [OF assms(1), of 1], (simp add: facts)+, rule stage_append [of _ 1 _ 2],
        assumption, (simp add: facts)+, erule 2)
qed

section \<open>The chip\<close>

lemma new_entered:
  assumes "length mem = 2 ^ (lglen - 2)" and "length (m_bank junk) = NBANKS"
    and "length (m_bus junk) = NTIMESLOTS"
  shows "ddr_wf (ddr_new lglen mem junk)" and "entered mem 0 (unroll (ddr_new lglen mem junk))"
proof -
  show "ddr_wf (ddr_new lglen mem junk)"
    using assms by (simp add: ddr_wf_def ddr_new_def NTIMESLOTS_def)
  show "entered mem 0 (unroll (ddr_new lglen mem junk))"
    using assms
    by (auto simp: entered_def in_stage_def starting_def ddr_new_def bank_new_def ring_def
        NTIMESLOTS_def)
qed

lemma starts_up:
  assumes "length mem = 2 ^ (lglen - 2)" and "length (m_bank junk) = NBANKS"
    and "length (m_bus junk) = NTIMESLOTS"
    and "40000 \<le> n0" and "100000 \<le> n1" and "147 \<le> n2" and "3 \<le> n4" and "11 \<le> n5" and "512 \<le> n6"
    and "3 \<le> n7"
  shows "\<exists>s xs. run ddr_step (ddr_new lglen mem junk) (ddr_startup n0 n1 n2 n3 n4 n5 n6 n7)
      = Inr (s, xs)
    \<and> ddr_ready s \<and> m_mem s = mem \<and> m_clocks_since_refresh s = 142
    \<and> (\<forall>b \<in> set (m_bank s). m_state b = 0)"
proof -
  note new = new_entered [OF assms(1-3)]
  obtain t xs where t: "run line_step (unroll (ddr_new lglen mem junk))
      (ddr_startup n0 n1 n2 n3 n4 n5 n6 n7) = Inr (t, xs)" "at_rest mem t"
    using startup_run [OF new(2) assms(4-10), of n3] unfolding reaches_def by blast
  from chip_run [OF new(1) t(1)] obtain s where "run ddr_step (ddr_new lglen mem junk)
      (ddr_startup n0 n1 n2 n3 n4 n5 n6 n7) = Inr (s, xs)" "unroll s = t" "ddr_wf s"
    by blast
  with t(2) show ?thesis by (auto simp: at_rest_def ddr_ready_def)
qed

section \<open>Refreshes\<close>

lemma bus_keeps_clocks:
  "ddr_bus p s = Inr (s', x) \<Longrightarrow> m_clocks_since_refresh s' = m_clocks_since_refresh s
     \<and> m_nrefresh_issued s' = m_nrefresh_issued s"
  unfolding ddr_bus_def Let_def by (auto split: if_splits)

lemma unrefreshed_clock:
  assumes "ddr_step s p = Inr (s', x)" and "m_reset_state s = 16" and "nREF \<le> m_nrefresh_issued s"
    and "reset_n p" and "ddr_cmd p \<noteq> DDR_REFRESH"
  shows "m_reset_state s' = 16 \<and> nREF \<le> m_nrefresh_issued s'
    \<and> m_clocks_since_refresh s' = m_clocks_since_refresh s + 1 \<and> m_clocks_since_refresh s' < ckREFIn"
proof -
  obtain s1 where s1: "ddr_phase p s = Inr s1" "ddr_bus p s1 = Inr (s', x)"
    using assms(1) by (auto simp: ddr_step_def)
  then have "ddr_operate p s = Inr s1"
    using assms(2-5) by (auto simp: ddr_phase_def split: if_splits)
  then obtain s2 where s2: "ddr_command p s = Inr s2" "s1 = s2"
    by (auto simp: ddr_operate_def Let_def split: if_splits)
  have "m_clocks_since_refresh s2 = m_clocks_since_refresh s + 1 \<and> m_clocks_since_refresh s2 < ckREFIn
      \<and> m_nrefresh_issued s2 = m_nrefresh_issued s"
    using s2(1) by (auto simp: ddr_command_def ddr_precharge_def ddr_activate_def ddr_write_cmd_def
        ddr_read_cmd_def ddr_idle_def Let_def split: if_splits)
  then show ?thesis
    using command_operating [OF s2(1)] bus_keeps [OF s1(2)] bus_keeps_clocks [OF s1(2)] s2(2) assms(2,3)
    by simp
qed

end
