(* ===== verification/DdrProps.thy ===== *)
theory DdrProps
  imports DdrBoot
begin

text \<open>
  What the simulated SDRAM promises, over the definitions of \<open>Ddr\<close>: its data bus is a delay line, what
  is written is read back, rows and refreshes are timed, and it starts up as, and only as, the
  data sheet says.  The witnesses run on a chip of 16 words at rest, \<open>ddr_example\<close>.
\<close>

section \<open>A chip at rest\<close>

definition ddr_example :: ddr where
  "ddr_example = \<lparr>m_reset_state = 16, m_reset_counts = 141, m_memlen = 16, m_busloc = 31,
     m_clocks_since_refresh = 400, m_nrefresh_issued = 1, m_last_dqs = False, m_last_rtt = False,
     m_mem = replicate 16 7,
     m_bank = replicate NBANKS \<lparr>m_state = 0, m_row = 0, m_wcounter = 0,
       m_min_time_before_precharge = 0, m_min_time_before_activate = 0\<rparr>,
     m_bus = replicate NTIMESLOTS \<lparr>m_used = False, m_read = False, m_data = 0, m_rtt = False,
       m_addr = - 1\<rparr>\<rparr>"

lemma ddr_example_ready: "ddr_ready ddr_example"
  by (simp add: ddr_ready_def ddr_wf_def line_ready_def ddr_example_def ring_def NTIMESLOTS_def NBANKS_def
      nREF_def)

lemma ddr_example_facts:
  "m_clocks_since_refresh ddr_example = 400" "length (m_mem ddr_example) = 16"
  "m_mem ddr_example = replicate 16 7" "k < NBANKS \<Longrightarrow> m_state (m_bank ddr_example ! k) = 0"
  "m_reset_state ddr_example = 16" "m_nrefresh_issued ddr_example = 1"
  "length (m_bank ddr_example) = NBANKS" "\<forall>b \<in> set (m_bank ddr_example). m_state b = 0"
  by (simp_all add: ddr_example_def)

lemma first_burst: "unat (burst_addr 0 0 0) = 0"
  by (simp add: burst_addr_def)

section \<open>The data bus\<close>

text \<open>
  C17: the data bus of the simulated SDRAM is a delay line.  The chip keeps its time slots in a ring of 32
  and computes with locations modulo 32; it does on every run, faults included, what the same
  chip does over a list of slots whose head is the slot of the clock, where a command fills the
  slots eleven to fourteen places on.
\<close>

theorem ddr_delay_line:
  assumes "ddr_wf s"
  shows "run line_step (unroll s) ps = rbind (run ddr_step s ps) (\<lambda>(s', xs). Inr (unroll s', xs))"
  using assms by (rule run_unroll)

theorem ddr_delay_line_witness:
  "run line_step (unroll ddr_example) [read_from 0 0] =
     rbind (run ddr_step ddr_example [read_from 0 0]) (\<lambda>(s', xs). Inr (unroll s', xs))"
  using ddr_delay_line [of ddr_example "[read_from 0 0]"] ddr_example_ready
  by (simp only: ddr_ready_def simp_thms)

section \<open>Data\<close>

text \<open>
  C8: what is written to the simulated SDRAM is read back.  From any chip at rest in operation, at
  least 319 clocks after a refresh and with the next not due before the end, a controller opens a
  row of a closed bank, waits ten clocks, writes a burst of four words, with the termination and
  the strobe driven as the chip demands, waits as long as it likes and reads the burst: no
  assertion fails, the four words come out on the eleventh to the fourteenth clock after the
  read, the memory has changed at the four addresses only, and the chip is at rest again.
\<close>

theorem ddr_write_read_back:
  assumes "ddr_ready s" and "unat bk < NBANKS" and "m_state (m_bank s ! unat bk) = 0"
    and "319 \<le> m_clocks_since_refresh s" and "m_clocks_since_refresh s + 42 + int n < ckREFIn"
    and "col AND 7 = 0" and "a = unat (burst_addr (row AND 0x7fff) bk col)"
    and "a + 3 < length (m_mem s)"
  shows "\<exists>s' xs. run ddr_step s (open_row bk row @ write_burst bk col d0 d1 d2 d3
        @ replicate n ddr_nop @ read_burst bk col) = Inr (s', xs)
    \<and> drop (38 + n) xs = [d0, d1, d2, d3]
    \<and> m_mem s' = (m_mem s)[a := d0, a + 1 := d1, a + 2 := d2, a + 3 := d3] \<and> ddr_ready s'"
proof -
  let ?k = "unat bk" and ?row = "row AND 0x7fff" and ?a = "burst_addr (row AND 0x7fff) bk col"
  let ?mem = "(m_mem s)[a := d0, a + 1 := d1, a + 2 := d2, a + 3 := d3]"
  have fits: "burst_fits ?a (m_mem s)" using assms(7,8) by (intro burst_fits_addr) simp
  have mem: "stored_burst ?a (m_mem s) d0 d1 d2 d3 = ?mem"
    by (simp add: stored_burst_def assms(7) burst_addr_offsets)
  have fits': "burst_fits ?a ?mem" using fits by (simp add: burst_fits_def)
  have readback: "map (\<lambda>i. ?mem ! unat (?a + i)) [0, 1, 2, 3] = [d0, d1, d2, d3]"
    using assms(7,8) by (simp add: burst_addr_offsets)
  have path: "\<exists>d' xs. run (open_step ?k ?row) d (write_burst bk col d0 d1 d2 d3
        @ replicate n ddr_nop @ read_burst bk col) = Inr (d', xs) \<and> path_quiet d'
      \<and> p_mem d' = ?mem \<and> drop (27 + n) xs = [d0, d1, d2, d3]"
    if d: "path_quiet d" "p_mem d = m_mem s" "p_clock d = m_clocks_since_refresh s + 11" for d
  proof -
    obtain e xs where e: "run (open_step ?k ?row) d (write_burst bk col d0 d1 d2 d3) = Inr (e, xs)"
        "path_quiet e" "p_clock e = p_clock d + 16" "p_mem e = ?mem"
      using write_burst_path [OF d(1), of bk ?k col ?row d0 d1 d2 d3] d assms(5,6) fits mem by auto
    obtain f ys where f: "run (open_step ?k ?row) e (replicate n ddr_nop) = Inr (f, ys)"
        "path_quiet f" "p_clock f = p_clock e + int n" "p_mem f = p_mem e"
      using nops_path [OF e(2), of n ?k ?row] e d assms(5) by auto
    obtain g zs where g: "run (open_step ?k ?row) f (read_burst bk col) = Inr (g, zs)"
        "path_quiet g" "p_mem g = p_mem f" "drop 11 zs = map (\<lambda>i. p_mem f ! unat (?a + i)) [0, 1, 2, 3]"
      using read_burst_path [OF f(2), of bk ?k col ?row] d e f assms(5,6) fits' by auto
    have "length xs = 16" "length ys = n"
      using run_length [OF e(1)] run_length [OF f(1)] by (simp_all add: write_burst_def)
    then have "drop (27 + n) (xs @ ys @ zs) = [d0, d1, d2, d3]" using g(4) e(4) f(4) readback by simp
    then show ?thesis
      using run_append_Inr [OF e(1) run_append_Inr [OF f(1) g(1)]] g e f by auto
  qed
  show ?thesis
    using chip_access [OF assms(1-4), where row = row and ps = "write_burst bk col d0 d1 d2 d3
        @ replicate n ddr_nop @ read_burst bk col"
        and P = "\<lambda>m xs. m = ?mem \<and> drop (27 + n) xs = [d0, d1, d2, d3]"] assms(5) path
    by auto
qed

theorem ddr_write_read_back_witness:
  "\<exists>s' xs. run ddr_step ddr_example (open_row 0 0 @ write_burst 0 0 1 2 3 4
        @ replicate 5 ddr_nop @ read_burst 0 0) = Inr (s', xs)
    \<and> drop (38 + 5) xs = [1, 2, 3, 4]
    \<and> m_mem s' = (replicate 16 7)[0 := 1, 0 + 1 := 2, 0 + 2 := 3, 0 + 3 := 4] \<and> ddr_ready s'"
  using ddr_write_read_back [OF ddr_example_ready, of 0 5 0 0 0 1 2 3 4]
  by (simp only: ddr_example_facts) (simp add: first_burst NBANKS_def ckREFIn_def ckREFI_def)

text \<open>
  C37: the simulated SDRAM lets a read follow a write too soon.  The check that should keep a read away
  from a write in flight never fires, because the write counter it looks at is never set: a read
  of the same words four clocks after the write is accepted, and what comes out is what the
  memory held before, although the write reaches the memory before the read data is on the bus.
\<close>

theorem ddr_early_read_stale:
  assumes "ddr_ready s" and "unat bk < NBANKS" and "m_state (m_bank s ! unat bk) = 0"
    and "319 \<le> m_clocks_since_refresh s" and "m_clocks_since_refresh s + 30 < ckREFIn"
    and "col AND 7 = 0" and "a = unat (burst_addr (row AND 0x7fff) bk col)"
    and "a + 3 < length (m_mem s)"
  shows "\<exists>s' xs. run ddr_step s (open_row bk row @ early_read bk col d0 d1 d2 d3) = Inr (s', xs)
    \<and> drop 26 xs = map ((!) (m_mem s)) [a, a + 1, a + 2, a + 3]
    \<and> m_mem s' = (m_mem s)[a := d0, a + 1 := d1, a + 2 := d2, a + 3 := d3]"
proof -
  let ?a = "burst_addr (row AND 0x7fff) bk col"
  have "burst_fits ?a (m_mem s)" using assms(7,8) by (intro burst_fits_addr) simp
  then have path: "\<exists>d' xs. run (open_step (unat bk) (row AND 0x7fff)) d (early_read bk col d0 d1 d2 d3)
        = Inr (d', xs) \<and> path_quiet d'
      \<and> p_mem d' = (m_mem s)[a := d0, a + 1 := d1, a + 2 := d2, a + 3 := d3]
      \<and> drop 15 xs = map ((!) (m_mem s)) [a, a + 1, a + 2, a + 3]"
    if d: "path_quiet d" "p_mem d = m_mem s" "p_clock d = m_clocks_since_refresh s + 11" for d
    using early_read_path [OF d(1), of bk "unat bk" col "row AND 0x7fff" d0 d1 d2 d3] d assms(5,6)
    by (auto simp: stored_burst_def burst_addr_offsets assms(7))
  show ?thesis
    using chip_access [OF assms(1-4), where row = row and ps = "early_read bk col d0 d1 d2 d3"
        and P = "\<lambda>m xs. m = (m_mem s)[a := d0, a + 1 := d1, a + 2 := d2, a + 3 := d3]
          \<and> drop 15 xs = map ((!) (m_mem s)) [a, a + 1, a + 2, a + 3]"] assms(5) path
    by auto
qed

theorem ddr_early_read_stale_witness:
  "\<exists>s' xs. run ddr_step ddr_example (open_row 0 0 @ early_read 0 0 1 2 3 4) = Inr (s', xs)
    \<and> drop 26 xs = [7, 7, 7, 7]
    \<and> m_mem s' = (replicate 16 7)[0 := 1, 0 + 1 := 2, 0 + 2 := 3, 0 + 3 := 4]"
  using ddr_early_read_stale [OF ddr_example_ready, of 0 0 0 0 1 2 3 4]
  by (simp only: ddr_example_facts) (simp add: first_burst NBANKS_def ckREFIn_def ckREFI_def)

section \<open>Timing\<close>

text \<open>
  C16: the simulated SDRAM enforces the row timing.  In any accepted run of a chip that has started with
  all banks closed, a read or a write of a bank comes after an activation of that bank, with no
  precharge, refresh or other activation of it since, and with at least ten clocks in between on
  which the bank had nothing to do; and the row it uses is the one that was activated.
\<close>

theorem ddr_access_needs_open_row:
  assumes "run ddr_step s (ps @ [p]) = Inr (s', xs)"
    and "list_all reset_n (ps @ [p])" and "16 \<le> m_reset_state s"
    and "length (m_bank s) = NBANKS" and "\<forall>b \<in> set (m_bank s). m_state b = 0"
    and "ddr_cmd p = DDR_READ \<or> ddr_cmd p = DDR_WRITE" and "unat (ba p) = k" and "k < NBANKS"
  shows "\<exists>pre act mid. ps = pre @ act # mid \<and> ddr_cmd act = DDR_ACTIVATE \<and> unat (ba act) = k
    \<and> m_row (m_bank s' ! k) = addr act AND 0x7fff
    \<and> (\<forall>q \<in> set mid. bank_sees k q \<notin> {DDR_ACTIVATE, DDR_PRECHARGE, DDR_REFRESH})
    \<and> 10 \<le> length (filter (\<lambda>q. bank_sees k q = DDR_NOOP) mid)"
proof -
  have sk: "bank_sees k p = ddr_cmd p" using assms(6,7) by (auto simp: bank_sees_def Let_def ddr_cmds)
  have "bank_inv [] (m_bank s ! k)" using assms(4,5,8) by (intro bank_inv_idle) simp
  then have inv: "bank_inv ((ddr_cmd p, addr p) # bank_history k ps) (m_bank s' ! k)"
    using run_bank [OF assms(1-3), of k "[]"] assms(4,8) sk by (simp add: bank_history_def)
  then have "legal ((ddr_cmd p, addr p) # bank_history k ps)" by (simp add: bank_inv_def)
  from access_needs_open_row [OF this assms(6)] obtain mid act pre
    where h: "bank_history k ps = mid @ act # pre" "fst act = DDR_ACTIVATE"
      "\<forall>c \<in> set mid. fst c \<notin> {DDR_ACTIVATE, DDR_PRECHARGE, DDR_REFRESH}" "10 \<le> noops mid"
    by blast
  from h(1) obtain pre' a mid' where ps: "ps = pre' @ a # mid'" "mid = bank_history k mid'"
      "act = (bank_sees k a, addr a)"
    using history_split by blast
  have "m_row (m_bank s' ! k) = addr a AND 0x7fff"
    using inv assms(6) h ps(3) last_row_append [of mid "act # pre"]
    by (auto simp: bank_inv_def ddr_cmds)
  moreover have "ddr_cmd a = DDR_ACTIVATE \<and> unat (ba a) = k"
    using h(2) ps(3) by (auto simp: bank_sees_def Let_def ddr_cmds split: if_splits)
  moreover have "10 \<le> length (filter (\<lambda>q. bank_sees k q = DDR_NOOP) mid')"
    using h(4) ps(2) by (simp add: noops_def bank_history_def filter_map comp_def rev_filter [symmetric])
  ultimately show ?thesis
    using ps(1) h(3) ps(2) by (intro exI [of _ pre'] exI [of _ a] exI [of _ mid'])
      (auto simp: bank_history_def)
qed

lemma example_read:
  "\<exists>s' xs. run ddr_step ddr_example (open_row 0 0 @ [read_from 0 0]) = Inr (s', xs)"
proof -
  have "\<exists>s' xs. run ddr_step ddr_example (open_row 0 0 @ read_burst 0 0) = Inr (s', xs) \<and> ddr_ready s'
      \<and> True"
  proof (rule chip_access [OF ddr_example_ready])
    fix d assume "path_quiet d" "p_mem d = m_mem ddr_example"
      "p_clock d = m_clocks_since_refresh ddr_example + 11"
    then show "\<exists>d' xs. run (open_step (unat 0) (0 AND 0x7fff)) d (read_burst 0 0) = Inr (d', xs)
        \<and> path_quiet d' \<and> True"
      using read_burst_path [of d 0 0 0 0] burst_fits_addr [of 0 0 0 "p_mem d"]
      by (auto simp: ddr_example_facts first_burst ckREFIn_def ckREFI_def)
  qed (simp_all add: ddr_example_facts NBANKS_def ckREFIn_def ckREFI_def)
  then obtain s xs where "run ddr_step ddr_example ((open_row 0 0 @ [read_from 0 0])
      @ replicate 14 ddr_nop) = Inr (s, xs)" by (auto simp: read_burst_def)
  then show ?thesis by (rule run_append_InrE) blast
qed

theorem ddr_access_needs_open_row_witness:
  "\<exists>s' xs. run ddr_step ddr_example (open_row 0 0 @ [read_from 0 0]) = Inr (s', xs)
    \<and> (\<exists>pre act mid. open_row 0 0 = pre @ act # mid \<and> ddr_cmd act = DDR_ACTIVATE \<and> unat (ba act) = 0
      \<and> m_row (m_bank s' ! 0) = addr act AND 0x7fff
      \<and> (\<forall>q \<in> set mid. bank_sees 0 q \<notin> {DDR_ACTIVATE, DDR_PRECHARGE, DDR_REFRESH})
      \<and> 10 \<le> length (filter (\<lambda>q. bank_sees 0 q = DDR_NOOP) mid))"
proof -
  obtain s' xs where r: "run ddr_step ddr_example (open_row 0 0 @ [read_from 0 0]) = Inr (s', xs)"
    using example_read by blast
  moreover have "list_all reset_n (open_row 0 0 @ [read_from 0 0])"
    by (simp add: open_row_def activate_fields list_all_iff)
  ultimately show ?thesis
    using ddr_access_needs_open_row [OF r, of 0] by (fastforce simp: ddr_example_facts NBANKS_def)
qed

text \<open>
  the simulated SDRAM insists on its refreshes.  A run of a chip in operation that is accepted and
  has neither a reset nor a refresh ends before the 1560th clock since the last refresh.
\<close>

theorem ddr_refresh_due:
  assumes "run ddr_step s ps = Inr (s', xs)" and "ps \<noteq> []"
    and "m_reset_state s = 16" and "nREF \<le> m_nrefresh_issued s"
    and "\<forall>p \<in> set ps. reset_n p \<and> ddr_cmd p \<noteq> DDR_REFRESH"
  shows "m_clocks_since_refresh s + int (length ps) < 1560"
proof -
  have "m_clocks_since_refresh s' = m_clocks_since_refresh s + int (length ps)
      \<and> m_clocks_since_refresh s' < ckREFIn"
    using assms
  proof (induction ps arbitrary: s xs)
    case (Cons p ps)
    then obtain s1 x ys where s1: "ddr_step s p = Inr (s1, x)" "run ddr_step s1 ps = Inr (s', ys)"
      by auto
    note one = unrefreshed_clock [OF s1(1) Cons.prems(3,4)]
    show ?case
    proof (cases "ps = []")
      case True
      then show ?thesis using one s1(2) Cons.prems(5) by simp
    next
      case False
      then show ?thesis using Cons.IH [OF s1(2)] one Cons.prems(5) by simp
    qed
  qed simp
  then show ?thesis by (simp add: ckREFIn_def ckREFI_def)
qed

theorem ddr_refresh_due_witness: "m_clocks_since_refresh ddr_example + int (length (open_row 0 0)) < 1560"
proof -
  obtain s' xs where "run ddr_step ddr_example (open_row 0 0 @ [read_from 0 0]) = Inr (s', xs)"
    using example_read by blast
  then obtain s1 ys where "run ddr_step ddr_example (open_row 0 0) = Inr (s1, ys)"
    by (rule run_append_InrE)
  from ddr_refresh_due [OF this] show ?thesis
    by (simp add: open_row_def ddr_example_facts nREF_def activate_fields ddr_cmds)
qed

section \<open>Start-up\<close>

text \<open>
  C18: the simulated SDRAM starts up.  From power-up, whatever was left in its fields, a controller that
  holds the reset for 40000 clocks or more and the clock enable for 100000, and leaves at least
  the minimal idle times between the commands of the start-up sequence, brings it into operation:
  no assertion fails, the memory is as it was, all banks are closed and the data bus is at rest.
\<close>

theorem ddr_starts_up:
  assumes "length mem = 2 ^ (lglen - 2)" and "length (m_bank junk) = NBANKS"
    and "length (m_bus junk) = NTIMESLOTS"
    and "40000 \<le> n0" and "100000 \<le> n1" and "147 \<le> n2" and "3 \<le> n4" and "11 \<le> n5" and "512 \<le> n6"
    and "3 \<le> n7"
  shows "\<exists>s xs. run ddr_step (ddr_new lglen mem junk) (ddr_startup n0 n1 n2 n3 n4 n5 n6 n7)
      = Inr (s, xs)
    \<and> ddr_ready s \<and> m_mem s = mem \<and> m_clocks_since_refresh s = 142
    \<and> (\<forall>b \<in> set (m_bank s). m_state b = 0)"
  using assms by (rule starts_up)

theorem ddr_starts_up_witness:
  "\<exists>s xs. run ddr_step (ddr_new 4 [1, 2, 3, 4] ddr_example)
      (ddr_startup 40000 100000 147 0 3 11 512 3) = Inr (s, xs)
    \<and> ddr_ready s \<and> m_mem s = [1, 2, 3, 4] \<and> m_clocks_since_refresh s = 142
    \<and> (\<forall>b \<in> set (m_bank s). m_state b = 0)"
  using ddr_starts_up [of "[1, 2, 3, 4]" 4 ddr_example 40000 100000 147 3 11 512 3 0]
  by (simp add: ddr_example_def NTIMESLOTS_def)

text \<open>
  C31: the simulated SDRAM goes into operation only after the start-up sequence.  If a run from power-up
  is accepted and ends in operation, its inputs contain, one after the other: at least 40000
  clocks of reset, at least 100000 with the clock disabled, a wait, the mode registers 2, 1 and 0 in
  this order and with their values, the long calibration, a precharge of all banks, the first
  refresh, with the minimal numbers of idle clocks in between, and 141 more.
\<close>

theorem ddr_start_sequence:
  assumes "run ddr_step (ddr_new lglen mem junk) ps = Inr (s, xs)" and "m_reset_state s = 16"
  shows "\<exists>pre r0 c0 w1 c1 w2 c2 w3 c3 w4 c4 w5 c5 w6 c6 w7 c7 w8 post.
    ps = pre @ r0 @ c0 # w1 @ c1 # w2 @ c2 # w3 @ c3 # w4 @ c4 # w5 @ c5 # w6 @ c6 # w7 @ c7 # w8 @ post
    \<and> 40000 \<le> length r0 \<and> (\<forall>p \<in> set r0. \<not> reset_n p) \<and> reset_n c0
    \<and> 100000 \<le> length w1 \<and> (\<forall>p \<in> set w1. reset_n p \<and> \<not> cke p) \<and> cke c1
    \<and> idle_for 147 w2 \<and> sets_mode 2 DDR_MR2 c2 \<and> idle_for 0 w3 \<and> sets_mode 1 DDR_MR1 c3
    \<and> idle_for 3 w4 \<and> sets_mode 0 DDR_MR0 c4
    \<and> idle_for 11 w5 \<and> ddr_cmd c5 = DDR_ZQS \<and> addr c5 = 0x400
    \<and> idle_for 512 w6 \<and> ddr_cmd c6 = DDR_PRECHARGE \<and> addr c6 = 0x400
    \<and> idle_for 3 w7 \<and> ddr_cmd c7 = DDR_REFRESH \<and> idle_for 141 w8"
proof -
  have "start_inv [] (ddr_new lglen mem junk)"
    by (simp add: start_inv_def ddr_new_def progress.restart)
  from run_start [OF assms(1) this] have "booted ps" using assms(2) by (auto simp: start_inv_def)
  then obtain p8 post n8 where b: "ps = p8 @ post" "progress 8 n8 p8" "141 \<le> n8"
    by (auto simp: booted_def)
  obtain p7 n7 c7 w8 where s8: "p8 = p7 @ c7 # w8" "progress 7 n7 p7" "advances 7 n7 c7"
    "length w8 = n8" "\<forall>q \<in> set w8. waits 8 q" using stage [OF b(2), of 7] by auto
  obtain p6 n6 c6 w7 where s7: "p7 = p6 @ c6 # w7" "progress 6 n6 p6" "advances 6 n6 c6"
    "length w7 = n7" "\<forall>q \<in> set w7. waits 7 q" using stage [OF s8(2), of 6] by auto
  obtain p5 n5 c5 w6 where s6: "p6 = p5 @ c5 # w6" "progress 5 n5 p5" "advances 5 n5 c5"
    "length w6 = n6" "\<forall>q \<in> set w6. waits 6 q" using stage [OF s7(2), of 5] by auto
  obtain p4 n4 c4 w5 where s5: "p5 = p4 @ c4 # w5" "progress 4 n4 p4" "advances 4 n4 c4"
    "length w5 = n5" "\<forall>q \<in> set w5. waits 5 q" using stage [OF s6(2), of 4] by auto
  obtain p3 n3 c3 w4 where s4: "p4 = p3 @ c3 # w4" "progress 3 n3 p3" "advances 3 n3 c3"
    "length w4 = n4" "\<forall>q \<in> set w4. waits 4 q" using stage [OF s5(2), of 3] by auto
  obtain p2 n2 c2 w3 where s3: "p3 = p2 @ c2 # w3" "progress 2 n2 p2" "advances 2 n2 c2"
    "length w3 = n3" "\<forall>q \<in> set w3. waits 3 q" using stage [OF s4(2), of 2] by auto
  obtain p1 n1 c1 w2 where s2: "p2 = p1 @ c1 # w2" "progress 1 n1 p1" "advances 1 n1 c1"
    "length w2 = n2" "\<forall>q \<in> set w2. waits 2 q" using stage [OF s3(2), of 1] by auto
  obtain p0 n0 c0 w1 where s1: "p1 = p0 @ c0 # w1" "progress 0 n0 p0" "advances 0 n0 c0"
    "length w1 = n1" "\<forall>q \<in> set w1. waits 1 q" using stage [OF s2(2), of 0] by auto
  obtain pre r0 where s0: "p0 = pre @ r0" "length r0 = n0" "\<forall>q \<in> set r0. waits 0 q"
    using progress_first [OF s1(2)] by auto
  have "ps = pre @ r0 @ c0 # w1 @ c1 # w2 @ c2 # w3 @ c3 # w4 @ c4 # w5 @ c5 # w6 @ c6 # w7 @ c7 # w8 @ post"
    by (simp add: b(1) s8(1) s7(1) s6(1) s5(1) s4(1) s3(1) s2(1) s1(1) s0(1))
  moreover have "40000 \<le> length r0 \<and> (\<forall>p \<in> set r0. \<not> reset_n p) \<and> reset_n c0
      \<and> 100000 \<le> length w1 \<and> (\<forall>p \<in> set w1. reset_n p \<and> \<not> cke p) \<and> cke c1"
    using s0(2,3) s1(3-5) s2(3) by (auto simp: advances_def waits_def)
  moreover have "idle_for 147 w2 \<and> sets_mode 2 DDR_MR2 c2 \<and> idle_for 0 w3 \<and> sets_mode 1 DDR_MR1 c3"
    using stage_idle [OF s2(4,5), of 147] stage_idle [OF s3(4,5), of 0] s3(3) s4(3)
    by (simp add: advances_def sets_mode_def)
  moreover have "idle_for 3 w4 \<and> sets_mode 0 DDR_MR0 c4 \<and> idle_for 11 w5 \<and> ddr_cmd c5 = DDR_ZQS
      \<and> addr c5 = 0x400"
    using stage_idle [OF s4(4,5), of 3] stage_idle [OF s5(4,5), of 11] s5(3) s6(3)
    by (simp add: advances_def sets_mode_def)
  moreover have "idle_for 512 w6 \<and> ddr_cmd c6 = DDR_PRECHARGE \<and> addr c6 = 0x400
      \<and> idle_for 3 w7 \<and> ddr_cmd c7 = DDR_REFRESH \<and> idle_for 141 w8"
    using stage_idle [OF s6(4,5), of 512] stage_idle [OF s7(4,5), of 3] stage_idle [OF s8(4,5), of 141]
      s7(3) s8(3) b(3) by (simp add: advances_def)
  ultimately show ?thesis
    by - (rule exI [of _ pre], rule exI [of _ r0], rule exI [of _ c0], rule exI [of _ w1], rule
          exI [of _ c1], rule exI [of _ w2], rule exI [of _ c2], rule exI [of _ w3], rule exI [of
          _ c3], rule exI [of _ w4], rule exI [of _ c4], rule exI [of _ w5], rule exI [of _ c5],
          rule exI [of _ w6], rule exI [of _ c6], rule exI [of _ w7], rule exI [of _ c7], rule exI
          [of _ w8], rule exI [of _ post], intro conjI; elim conjE; assumption)
qed

theorem ddr_start_sequence_witness:
  "\<exists>pre r0 c0 w1 c1 w2 c2 w3 c3 w4 c4 w5 c5 w6 c6 w7 c7 w8 post.
    ddr_startup 40000 100000 147 0 3 11 512 3 =
      pre @ r0 @ c0 # w1 @ c1 # w2 @ c2 # w3 @ c3 # w4 @ c4 # w5 @ c5 # w6 @ c6 # w7 @ c7 # w8 @ post
    \<and> 40000 \<le> length r0 \<and> (\<forall>p \<in> set r0. \<not> reset_n p) \<and> reset_n c0
    \<and> 100000 \<le> length w1 \<and> (\<forall>p \<in> set w1. reset_n p \<and> \<not> cke p) \<and> cke c1
    \<and> idle_for 147 w2 \<and> sets_mode 2 DDR_MR2 c2 \<and> idle_for 0 w3 \<and> sets_mode 1 DDR_MR1 c3
    \<and> idle_for 3 w4 \<and> sets_mode 0 DDR_MR0 c4
    \<and> idle_for 11 w5 \<and> ddr_cmd c5 = DDR_ZQS \<and> addr c5 = 0x400
    \<and> idle_for 512 w6 \<and> ddr_cmd c6 = DDR_PRECHARGE \<and> addr c6 = 0x400
    \<and> idle_for 3 w7 \<and> ddr_cmd c7 = DDR_REFRESH \<and> idle_for 141 w8"
proof -
  have "\<exists>s xs. run ddr_step (ddr_new 4 [1, 2, 3, 4] ddr_example)
      (ddr_startup 40000 100000 147 0 3 11 512 3) = Inr (s, xs) \<and> ddr_ready s"
    using starts_up [of "[1, 2, 3, 4]" 4 ddr_example 40000 100000 147 3 11 512 3 0]
    by (auto simp: ddr_example_def NTIMESLOTS_def)
  then obtain s xs where r: "run ddr_step (ddr_new 4 [1, 2, 3, 4] ddr_example)
      (ddr_startup 40000 100000 147 0 3 11 512 3) = Inr (s, xs)" and "ddr_ready s" by blast
  then have "m_reset_state s = 16" by (simp add: ddr_ready_def line_ready_def)
  from ddr_start_sequence [OF r this] show ?thesis .
qed

end
