(* ===== verification/Dbl.thy ===== *)
theory Dbl
  imports Complex_Main Prelude
begin

text \<open>
  The doubles of the host, as far as the scope reader needs them: non-negative numbers of 53 bits,
  with every operation rounded to the nearest, ties to even.  A number is a mantissa and a binary
  exponent, so that the operations compute; underflow and overflow are out of reach of the
  quantities that the reader handles and are not modelled.
\<close>

section \<open>Numbers and rounding\<close>

record dbl =
  d_mant :: nat
  d_expo :: int

fun bits :: "nat \<Rightarrow> nat" where
  "bits n = (if n = 0 then 0 else Suc (bits (n div 2)))"

declare bits.simps [simp del]

text \<open>\<open>m / n * 2 ^ s\<close> as a quotient of natural numbers.\<close>

definition scaled :: "nat \<Rightarrow> nat \<Rightarrow> int \<Rightarrow> nat \<times> nat" where
  "scaled m n s = (if 0 \<le> s then (m * 2 ^ nat s, n) else (m, n * 2 ^ nat (- s)))"

definition quotient_scale :: "nat \<Rightarrow> nat \<Rightarrow> int" where
  "quotient_scale m n =
     (let s = 53 - (int (bits m) - int (bits n)); (p, q) = scaled m n s
      in if 2 ^ 53 \<le> p div q then s - 1 else s)"

definition round_div :: "nat \<Rightarrow> nat \<Rightarrow> nat" where
  "round_div p q =
     (let a = p div q; r = p mod q
      in if 2 * r > q \<or> 2 * r = q \<and> odd a then a + 1 else a)"

text \<open>The double nearest to \<open>m / n * 2 ^ e\<close>.\<close>

definition dbl_round :: "nat \<Rightarrow> nat \<Rightarrow> int \<Rightarrow> dbl" where
  "dbl_round m n e =
     (if m = 0 then \<lparr>d_mant = 0, d_expo = 0\<rparr>
      else let s = quotient_scale m n; (p, q) = scaled m n s
           in \<lparr>d_mant = round_div p q, d_expo = e - s\<rparr>)"

definition dbl_of_nat :: "nat \<Rightarrow> dbl" where "dbl_of_nat n = dbl_round n 1 0"

definition dbl_mult :: "dbl \<Rightarrow> dbl \<Rightarrow> dbl" where
  "dbl_mult x y = dbl_round (d_mant x * d_mant y) 1 (d_expo x + d_expo y)"

definition dbl_div :: "dbl \<Rightarrow> dbl \<Rightarrow> dbl" where
  "dbl_div x y = dbl_round (d_mant x) (d_mant y) (d_expo x - d_expo y)"

definition dbl_add :: "dbl \<Rightarrow> dbl \<Rightarrow> dbl" where
  "dbl_add x y =
     (let e = min (d_expo x) (d_expo y)
      in dbl_round (d_mant x * 2 ^ nat (d_expo x - e) + d_mant y * 2 ^ nat (d_expo y - e)) 1 e)"

definition dbl_trunc :: "dbl \<Rightarrow> nat" where
  "dbl_trunc x =
     (if 0 \<le> d_expo x then d_mant x * 2 ^ nat (d_expo x) else d_mant x div 2 ^ nat (- d_expo x))"

named_theorems dbl_eval \<open>definitions that evaluate operations on doubles\<close>

lemmas [dbl_eval] = dbl_trunc_def dbl_add_def dbl_mult_def dbl_div_def dbl_of_nat_def dbl_round_def
  quotient_scale_def scaled_def round_div_def Let_def

lemma bits_small [simp]: "bits 0 = 0" "bits (Suc 0) = 1"
  by (simp_all add: bits.simps [of 0] bits.simps [of "Suc 0"])

lemma bits_numeral [simp]:
  "bits (numeral (num.Bit0 k)) = Suc (bits (numeral k))"
  "bits (numeral (num.Bit1 k)) = Suc (bits (numeral k))"
  by (simp_all add: bits.simps [of "numeral (num.Bit0 k)"] bits.simps [of "numeral (num.Bit1 k)"])

section \<open>Accuracy\<close>

definition dbl_val :: "dbl \<Rightarrow> real" where
  "dbl_val x = real (d_mant x) * 2 powi d_expo x"

definition ulp :: real where "ulp = 1 / 2 ^ 53"

definition near :: "nat \<Rightarrow> real \<Rightarrow> real \<Rightarrow> bool" where
  "near k x v \<longleftrightarrow> x * (1 - ulp) ^ k \<le> v \<and> v \<le> x * (1 + ulp) ^ k"

lemma bits_bounds: "0 < n \<Longrightarrow> 2 ^ (bits n - 1) \<le> n \<and> n < 2 ^ bits n"
proof (induction n rule: bits.induct)
  case (1 n)
  show ?case
  proof (cases "n div 2 = 0")
    case True
    with 1 have "n = 1" by simp
    then show ?thesis by simp
  next
    case False
    with 1 have ih: "2 ^ (bits (n div 2) - 1) \<le> n div 2 \<and> n div 2 < 2 ^ bits (n div 2)" by simp
    have b: "bits n = Suc (bits (n div 2))" using 1 by (simp add: bits.simps [of n])
    have "0 < bits (n div 2)" using False by (simp add: bits.simps [of "n div 2"])
    then have "(2::nat) ^ bits (n div 2) = 2 * 2 ^ (bits (n div 2) - 1)"
      by (metis Suc_diff_1 power_Suc)
    moreover define p where "p = (2::nat) ^ (bits (n div 2) - 1)"
    ultimately have "2 ^ (bits n - 1) = 2 * p" "2 ^ bits n = 4 * p" using b by simp_all
    moreover have "p \<le> n div 2" "n div 2 < 2 * p" using ih \<open>2 ^ bits (n div 2) = _\<close> by (simp_all add: p_def)
    ultimately show ?thesis by linarith
  qed
qed

lemma scaled_value:
  assumes "0 < n" and "scaled m n s = (p, q)"
  shows "0 < q" and "real p / real q = real m / real n * 2 powi s"
  using assms by (auto simp: scaled_def power_int_def field_simps split: if_splits)

lemma round_div_near:
  assumes "0 < q"
  shows "\<bar>real (round_div p q) - real p / real q\<bar> \<le> 1 / 2"
proof -
  define a where "a = p div q"
  define r where "r = p mod q"
  have p: "real p = real a * real q + real r" and r: "r < q"
    using assms by (simp_all add: a_def r_def flip: of_nat_mult of_nat_add)
  then have x: "real p / real q = real a + real r / real q" using assms by (simp add: field_simps)
  have "real r / real q \<le> 1 / 2" if "2 * r \<le> q" using that assms by (simp add: field_simps)
  moreover have "1 / 2 \<le> real r / real q \<and> real r / real q < 1" if "q \<le> 2 * r"
    using that assms r by (simp add: field_simps)
  moreover have "0 \<le> real r / real q" by simp
  ultimately show ?thesis
    unfolding x using assms by (auto simp: round_div_def Let_def a_def [symmetric] r_def [symmetric] abs_le_iff)
qed

text \<open>An operation rounds by at most one part in \<open>2 ^ 53\<close>.\<close>

lemma quotient_scale_large:
  assumes "0 < m" and "0 < n" and "scaled m n (quotient_scale m n) = (p, q)"
  shows "2 ^ 52 \<le> real p / real q"
proof -
  define s where "s = 53 - (int (bits m) - int (bits n))"
  obtain p1 q1 where s1: "scaled m n s = (p1, q1)" by force
  have v1: "real p1 / real q1 = real m / real n * 2 powi s" "0 < q1"
    using scaled_value [OF assms(2) s1] by simp_all
  have large: "2 ^ 52 \<le> real p1 / real q1"
  proof -
    have bm: "0 < bits m" using assms(1) by (simp add: bits.simps [of m])
    have "real (2 ^ (bits m - 1)) \<le> real m" using bits_bounds [OF assms(1)] by (simp only: of_nat_le_iff)
    moreover have "(2::real) powi (int (bits m) - 1) = 2 ^ (bits m - 1)"
      using bm by (simp add: of_nat_diff flip: power_int_of_nat)
    ultimately have m: "2 powi (int (bits m) - 1) \<le> real m" by simp
    have "n \<le> 2 ^ bits n" using bits_bounds [OF assms(2)] by linarith
    then have "real n \<le> real (2 ^ bits n)" by (simp only: of_nat_le_iff)
    then have n: "real n \<le> 2 powi int (bits n)" by simp
    have "(2::real) powi (int (bits m) - 1) / 2 powi int (bits n) * 2 powi s
        = 2 powi (int (bits m) - 1 - int (bits n) + s)"
      by (simp add: power_int_add power_int_diff)
    also have "int (bits m) - 1 - int (bits n) + s = 52" by (simp add: s_def)
    finally have "2 ^ 52 = 2 powi (int (bits m) - 1) / 2 powi int (bits n) * (2::real) powi s" by simp
    also have "\<dots> \<le> real m / real n * 2 powi s"
      using m n assms(1,2) by (intro mult_right_mono frac_le) simp_all
    finally show ?thesis using v1 by simp
  qed
  show ?thesis
  proof (cases "2 ^ 53 \<le> p1 div q1")
    case True
    then have "quotient_scale m n = s - 1" by (simp add: quotient_scale_def s1 s_def [symmetric] Let_def)
    then have "real p / real q = real m / real n * 2 powi (s - 1)"
      using scaled_value [OF assms(2,3)] by simp
    also have "\<dots> = (real p1 / real q1) / 2" by (simp add: v1 power_int_diff)
    finally have h: "real p / real q = (real p1 / real q1) / 2" .
    have "real (2 ^ 53) \<le> real (p1 div q1)" using True by (simp only: of_nat_le_iff)
    also have "\<dots> \<le> real p1 / real q1" using v1(2) by (simp add: le_divide_eq flip: of_nat_mult)
    finally show ?thesis using h by simp
  next
    case False
    then have "quotient_scale m n = s" by (simp add: quotient_scale_def s1 s_def [symmetric] Let_def)
    then show ?thesis using assms(3) s1 large by simp
  qed
qed

lemma dbl_round_near: "0 < n \<Longrightarrow> near 1 (real m / real n * 2 powi e) (dbl_val (dbl_round m n e))"
proof (cases "m = 0")
  case True
  then show ?thesis by (simp add: dbl_round_def dbl_val_def near_def)
next
  case False
  assume n: "0 < n"
  define s where "s = quotient_scale m n"
  obtain p q where pq: "scaled m n s = (p, q)" by force
  have q: "0 < q" "real p / real q = real m / real n * 2 powi s"
    using scaled_value [OF n pq] by simp_all
  define x where "x = real p / real q"
  have large: "2 ^ 52 \<le> x"
    using quotient_scale_large [of m n p q] False n pq by (simp add: s_def x_def)
  define v where "v = real (round_div p q)"
  have "\<bar>v - x\<bar> \<le> 1 / 2" using round_div_near [OF q(1)] by (simp add: v_def x_def)
  moreover have "1 / 2 \<le> x * ulp" using large by (simp add: ulp_def)
  ultimately have "x - x * ulp \<le> v" "v \<le> x + x * ulp" by linarith+
  then have b: "x * (1 - ulp) \<le> v" "v \<le> x * (1 + ulp)"
    by (simp_all add: algebra_simps)
  have "dbl_val (dbl_round m n e) = v * 2 powi (e - s)"
    using False pq by (simp add: dbl_round_def dbl_val_def Let_def s_def [symmetric] v_def)
  moreover have "real m / real n * 2 powi e = x * 2 powi (e - s)"
    using q(2) by (simp add: x_def power_int_diff)
  moreover have "(0::real) \<le> 2 powi (e - s)" by simp
  ultimately show ?thesis
    using b by (simp add: near_def mult_right_mono mult.assoc mult.commute mult.left_commute)
qed

lemma ulp_bounds: "0 < ulp" "0 \<le> 1 - ulp" "ulp < 1"
  by (simp_all add: ulp_def)

lemma near_nonneg:
  assumes "near k x v" and "0 \<le> x"
  shows "0 \<le> v"
proof -
  have "0 \<le> x * (1 - ulp) ^ k" using assms(2) ulp_bounds(2) by simp
  then show ?thesis using assms(1) by (simp add: near_def)
qed

lemma near_mult:
  assumes "near j x v" and "near k y w" and "0 \<le> x" and "0 \<le> y"
  shows "near (j + k) (x * y) (v * w)"
proof -
  have v: "0 \<le> v" "0 \<le> w" using assms near_nonneg by blast+
  have "(x * (1 - ulp) ^ j) * (y * (1 - ulp) ^ k) \<le> v * w"
    using assms v ulp_bounds by (intro mult_mono) (simp_all add: near_def)
  moreover have "v * w \<le> (x * (1 + ulp) ^ j) * (y * (1 + ulp) ^ k)"
    using assms v ulp_bounds by (intro mult_mono) (simp_all add: near_def)
  ultimately show ?thesis by (simp add: near_def power_add mult.assoc mult.commute mult.left_commute)
qed

lemma near_trans:
  assumes "near j x v" and "near k v w"
  shows "near (j + k) x w"
proof -
  have "x * (1 - ulp) ^ j * (1 - ulp) ^ k \<le> v * (1 - ulp) ^ k"
    using assms(1) ulp_bounds by (intro mult_right_mono) (simp_all add: near_def)
  moreover have "v * (1 + ulp) ^ k \<le> x * (1 + ulp) ^ j * (1 + ulp) ^ k"
    using assms(1) ulp_bounds by (intro mult_right_mono) (simp_all add: near_def)
  ultimately show ?thesis using assms(2) by (auto simp: near_def power_add mult.assoc)
qed

lemma near_mono:
  assumes "near j x v" and "j \<le> k" and "0 \<le> x"
  shows "near k x v"
proof -
  have "(1 - ulp) ^ k \<le> (1 - ulp) ^ j" using assms(2) ulp_bounds by (intro power_decreasing) simp_all
  moreover have "(1 + ulp) ^ j \<le> (1 + ulp) ^ k" using assms(2) ulp_bounds by (intro power_increasing) simp_all
  ultimately have "x * (1 - ulp) ^ k \<le> x * (1 - ulp) ^ j" "x * (1 + ulp) ^ j \<le> x * (1 + ulp) ^ k"
    using assms(3) by (simp_all add: mult_left_mono)
  then show ?thesis using assms(1) by (auto simp: near_def)
qed

lemma near_add: "near k x v \<Longrightarrow> near k y w \<Longrightarrow> near k (x + y) (v + w)"
  by (auto simp: near_def algebra_simps)

lemma near_refl: "near 0 x x"
  by (simp add: near_def)

lemma dbl_mult_near: "near 1 (dbl_val x * dbl_val y) (dbl_val (dbl_mult x y))"
  using dbl_round_near [of 1 "d_mant x * d_mant y" "d_expo x + d_expo y"]
  by (simp add: dbl_mult_def dbl_val_def power_int_add mult.assoc mult.commute mult.left_commute)

lemma dbl_div_near: "0 < d_mant y \<Longrightarrow> near 1 (dbl_val x / dbl_val y) (dbl_val (dbl_div x y))"
  using dbl_round_near [of "d_mant y" "d_mant x" "d_expo x - d_expo y"]
  by (simp add: dbl_div_def dbl_val_def power_int_diff field_simps)

lemma dbl_add_near: "near 1 (dbl_val x + dbl_val y) (dbl_val (dbl_add x y))"
proof -
  define e where "e = min (d_expo x) (d_expo y)"
  have shift: "real (d_mant z) * 2 ^ nat (d_expo z - e) * 2 powi e = dbl_val z" if "e \<le> d_expo z" for z
  proof -
    have "(2::real) ^ nat (d_expo z - e) = 2 powi (d_expo z - e)" using that by (simp add: power_int_def)
    then show ?thesis by (simp add: dbl_val_def power_int_diff)
  qed
  show ?thesis
    using dbl_round_near [of 1 "d_mant x * 2 ^ nat (d_expo x - e) + d_mant y * 2 ^ nat (d_expo y - e)" e]
      shift [of x] shift [of y]
    by (simp add: dbl_add_def Let_def e_def [symmetric] distrib_right) (simp add: e_def)
qed

lemma dbl_of_nat_exact:
  assumes "n < 2 ^ 53"
  shows "dbl_val (dbl_of_nat n) = real n"
proof (cases "n = 0")
  case False
  have "(2::nat) ^ (bits n - 1) < 2 ^ 53" using bits_bounds [of n] False assms by linarith
  then have "bits n - 1 < 53" by (simp only: power_strict_increasing_iff)
  then have "0 \<le> quotient_scale n 1" by (auto simp: quotient_scale_def Let_def split: prod.splits)
  then obtain p where p: "scaled n 1 (quotient_scale n 1) = (p, 1)" by (simp add: scaled_def)
  have "real p = real n * 2 powi quotient_scale n 1" using scaled_value [OF _ p] by simp
  then show ?thesis
    using False p by (simp add: dbl_of_nat_def dbl_round_def dbl_val_def round_div_def Let_def power_int_diff
        power_int_minus)
qed (simp add: dbl_of_nat_def dbl_round_def dbl_val_def)

lemma dbl_trunc_floor: "int (dbl_trunc x) = \<lfloor>dbl_val x\<rfloor>"
proof (cases "0 \<le> d_expo x")
  case True
  then have "dbl_val x = real (dbl_trunc x)" by (simp add: dbl_val_def dbl_trunc_def power_int_def)
  then show ?thesis by simp
next
  case False
  then have "dbl_val x = real (d_mant x) / real (2 ^ nat (- d_expo x))"
    by (simp add: dbl_val_def power_int_def field_simps)
  then have "\<lfloor>dbl_val x\<rfloor> = int (d_mant x div 2 ^ nat (- d_expo x))"
    by (simp only: floor_divide_of_nat_eq)
  with False show ?thesis by (simp add: dbl_trunc_def)
qed

text \<open>Within half of a unit of a whole number: what truncation makes of a sum with a half.\<close>

lemma near_close:
  assumes "near k x v" and "0 \<le> x" and "x \<le> 2 ^ 33" and "k \<le> 8"
  shows "\<bar>v - x\<bar> < 1 / 4"
proof -
  have "near 8 x v" by (rule near_mono [OF assms(1,4,2)])
  moreover have "(1 + ulp) ^ 8 \<le> 1 + 1 / 2 ^ 40" by (simp add: ulp_def power_divide field_simps)
  moreover have "1 - 1 / 2 ^ 40 \<le> (1 - ulp) ^ 8" by (simp add: ulp_def power_divide field_simps)
  ultimately have "x * (1 - 1 / 2 ^ 40) \<le> v" and "v \<le> x * (1 + 1 / 2 ^ 40)"
    using assms(2) mult_left_mono [of _ _ x] unfolding near_def by (meson order_trans)+
  then have "x - x / 2 ^ 40 \<le> v" and "v \<le> x + x / 2 ^ 40" by (simp_all add: algebra_simps)
  moreover have "x / 2 ^ 40 < 1 / 4" using assms(3) by simp
  ultimately show ?thesis by linarith
qed

end
