(* ===== verification/Scope.thy ===== *)
theory Scope
  imports CText Dbl
begin

text \<open>
  The reader of the logic analysers in the design, class \<open>SCOPE\<close> of \<open>sw/host/scopecls.cpp\<close>: the control
  word, the buffer read over the debugging bus, the listing of \<open>print\<close> and the waveform file of
  \<open>writevcd\<close>.  What is printed is the string printed.

  The bus is the part of \<open>DEVBUS\<close> that the class calls.  A bus operation ends with a value or with an
  exception of type \<open>'e\<close>; an operation of the class ends with an exception of the bus, with a
  fault (an access through a null pointer or beyond the buffer, a shift by 32 or more, a conversion of a double
  that does not fit its target), or with its value.  The virtual methods \<open>decode\<close> and
  \<open>define_traces\<close>, which a class for one scope supplies, are arguments: the text for a word, and the traces to register.
\<close>

section \<open>The bus\<close>

record ('e, 'b) scope_bus =
  sb_readio :: "u32 \<Rightarrow> 'b \<Rightarrow> 'e \<times> 'b + u32 \<times> 'b"
  sb_readz :: "u32 \<Rightarrow> int \<Rightarrow> 'b \<Rightarrow> 'e \<times> 'b + u32 list \<times> 'b"

datatype 'e scope_stop = Bus_exception 'e | Scope_fault fault

section \<open>State\<close>

record traceinfo =
  m_name :: string
  m_key :: string
  m_nbits :: u32
  m_nshift :: u32

record scope =
  m_addr :: u32
  m_compressed :: bool
  m_vector_read :: bool
  m_scoplen :: u32
  m_holdoff :: u32
  m_data :: "u32 list option"
  m_clkfreq_hz :: u32
  m_traces :: "traceinfo list"

type_synonym ('e, 'b, 'a) scope_result = "('e scope_stop \<times> scope \<times> 'b) + ('a \<times> scope \<times> 'b)"

text \<open>The constructor leaves \<open>m_holdoff\<close> as it found it.\<close>

definition scope_new :: "u32 \<Rightarrow> u32 \<Rightarrow> bool \<Rightarrow> bool \<Rightarrow> scope" where
  "scope_new holdoff addr compressed vecread =
     \<lparr>m_addr = addr, m_compressed = compressed, m_vector_read = vecread, m_scoplen = 0, m_holdoff = holdoff,
      m_data = None, m_clkfreq_hz = 100000000, m_traces = []\<rparr>"

definition set_clkfreq_hz :: "u32 \<Rightarrow> scope \<Rightarrow> scope" where
  "set_clkfreq_hz hz s = s\<lparr>m_clkfreq_hz := hz\<rparr>"

definition read_word :: "('e, 'b) scope_bus \<Rightarrow> u32 \<Rightarrow> scope \<Rightarrow> 'b \<Rightarrow> ('e, 'b, u32) scope_result" where
  "read_word B a s b =
     (case sb_readio B a b of Inl (e, b') \<Rightarrow> Inl (Bus_exception e, s, b') | Inr (v, b') \<Rightarrow> Inr (v, s, b'))"

definition lift_fault :: "scope \<Rightarrow> 'b \<Rightarrow> fault + 'a \<Rightarrow> ('e, 'b, 'a) scope_result" where
  "lift_fault s b r = (case r of Inl f \<Rightarrow> Inl (Scope_fault f, s, b) | Inr x \<Rightarrow> Inr (x, s, b))"

section \<open>The control word\<close>

definition scope_lgln :: "u32 \<Rightarrow> nat" where "scope_lgln v = unat (drop_bit 20 v AND 0x1f)"

definition scope_ready :: "('e, 'b) scope_bus \<Rightarrow> scope \<Rightarrow> 'b \<Rightarrow> ('e, 'b, bool) scope_result" where
  "scope_ready B s b =
     rbind (read_word B (m_addr s) s b) (\<lambda>(v, s, b).
       let s = (if m_scoplen s = 0
                then s\<lparr>m_scoplen := push_bit (scope_lgln v) 1, m_holdoff := v AND 0xfffff\<rparr> else s)
       in Inr (drop_bit 28 v AND 6 = 6, s, b))"

definition flag_line :: "string \<Rightarrow> bool \<Rightarrow> string \<Rightarrow> string \<Rightarrow> string" where
  "flag_line name flag yes no = tab @ name @ '':'' @ tab @ (if flag then yes else no) @ nl"

definition decode_control :: "('e, 'b) scope_bus \<Rightarrow> scope \<Rightarrow> 'b \<Rightarrow> ('e, 'b, string) scope_result" where
  "decode_control B s b =
     rbind (read_word B (m_addr s) s b) (\<lambda>(v, s, b).
       Inr (tab @ ''CNTRL-REG:'' @ tab @ ''0x'' @ hex8 v @ nl
            @ flag_line ''31. RESET'' (v AND 0x80000000 \<noteq> 0) ''Ongoing'' ''Complete''
            @ flag_line ''30. STOPPED'' (v AND 0x40000000 \<noteq> 0) ''Yes'' ''No''
            @ flag_line ''29. TRIGGERED'' (v AND 0x20000000 \<noteq> 0) ''Yes'' ''No''
            @ flag_line ''28. PRIMED'' (v AND 0x10000000 \<noteq> 0) ''Yes'' ''No''
            @ flag_line ''27. MANUAL'' (v AND 0x08000000 \<noteq> 0) ''Yes'' ''No''
            @ flag_line ''26. DISABLED'' (v AND 0x04000000 \<noteq> 0) ''Yes'' ''No''
            @ flag_line ''25. ZERO'' (v AND 0x02000000 \<noteq> 0) ''Yes'' ''No''
            @ tab @ ''SCOPLEN:'' @ tab @ hex8 (m_scoplen s) @ '' ('' @ dec (sint (m_scoplen s)) @ '')'' @ nl
            @ tab @ ''HOLDOFF:'' @ tab @ hex8 (v AND 0xfffff) @ nl
            @ tab @ ''TRIGLOC:'' @ tab @ dec (sint (m_scoplen s - (v AND 0xfffff))) @ nl, s, b))"

definition scoplen :: "('e, 'b) scope_bus \<Rightarrow> scope \<Rightarrow> 'b \<Rightarrow> ('e, 'b, int) scope_result" where
  "scoplen B s b =
     (if m_scoplen s = 0
      then rbind (read_word B (m_addr s) s b) (\<lambda>(v, s, b).
             let s = s\<lparr>m_holdoff := v AND 0xfffff\<rparr>;
                 s = (if scope_lgln v \<noteq> 0 then s\<lparr>m_scoplen := push_bit (scope_lgln v) 1\<rparr> else s)
             in Inr (sint (m_scoplen s), s, b))
      else Inr (sint (m_scoplen s), s, b))"

section \<open>The buffer\<close>

text \<open>
  One register at a time.  The buffer is allocated before it is filled, so an exception leaves it with the
  words read so far; \<open>junk i\<close> is what the allocator left at \<open>i\<close>.
\<close>

fun read_each :: "('e, 'b) scope_bus \<Rightarrow> nat \<Rightarrow> u32 list \<Rightarrow> (nat \<Rightarrow> u32) \<Rightarrow> scope \<Rightarrow> 'b \<Rightarrow> ('e, 'b, unit) scope_result" where
  "read_each B 0 got junk s b = Inr ((), s\<lparr>m_data := Some got\<rparr>, b)"
| "read_each B (Suc n) got junk s b =
     rbind (read_word B (m_addr s + 4) (s\<lparr>m_data := Some (got @ map junk [length got..<unat (m_scoplen s)])\<rparr>) b) (\<lambda>(v, s, b).
       read_each B n (got @ [v]) junk s b)"

text \<open>
  With \<open>readz\<close>, \<open>junk\<close> is what an exception leaves in the buffer: the words it has delivered, then what the
  allocator left there.  The result is the message printed.
\<close>

definition rawread :: "('e, 'b) scope_bus \<Rightarrow> (nat \<Rightarrow> u32) \<Rightarrow> scope \<Rightarrow> 'b \<Rightarrow> ('e, 'b, string) scope_result" where
  "rawread B junk s b =
     (if m_data s \<noteq> None then Inr ([], s, b)
      else rbind (scoplen B s b) (\<lambda>(len, s, b).
        if len \<le> 4
        then Inr (''ERR: Scope has less than a minimum length.  Is it truly a scope?'' @ nl, s, b)
        else if m_vector_read s
        then (case sb_readz B (m_addr s + 4) len b of
                Inl (e, b) \<Rightarrow> Inl (Bus_exception e, s\<lparr>m_data := Some (map junk [0..<unat (m_scoplen s)])\<rparr>, b)
              | Inr (ws, b) \<Rightarrow> Inr ([], s\<lparr>m_data := Some ws\<rparr>, b))
        else rbind (read_each B (unat (m_scoplen s)) [] junk s b) (\<lambda>(_, s, b). Inr ([], s, b))))"

text \<open>The words \<open>m_data[0]\<close> to \<open>m_data[m_scoplen-1]\<close>, as the loops access them.\<close>

definition scope_words :: "scope \<Rightarrow> fault + u32 list" where
  "scope_words s =
     (let n = nat (sint (m_scoplen s)) in
      if n = 0 then Inr []
      else case m_data s of None \<Rightarrow> Inl OutOfBounds | Some d \<Rightarrow> in_bounds (n \<le> length d) (Inr (take n d)))"

definition scope_index :: "u32 \<Rightarrow> scope \<Rightarrow> fault + u32" where
  "scope_index a s =
     (case m_data s of
        None \<Rightarrow> Inr 0
      | Some d \<Rightarrow> if 0 < m_scoplen s
                 then let i = unat (a AND (m_scoplen s - 1)) in in_bounds (i < length d) (Inr (d ! i)) else Inr 0)"

fun jump_sum :: "u32 list \<Rightarrow> u32" where
  "jump_sum [] = 0"
| "jump_sum (w # ws) = (if w AND 0x80000000 \<noteq> 0 then w AND 0x7fffffff else 0) + jump_sum ws"

definition getaddresslen :: "scope \<Rightarrow> fault + u32" where
  "getaddresslen s =
     (if m_compressed s then rbind (scope_words s) (\<lambda>ws. Inr (m_scoplen s + jump_sum (tl ws)))
      else Inr (m_scoplen s))"

section \<open>The listing\<close>

datatype print_line = Sample nat u32 bool | Jump u32 | Skipped

fun line_text :: "nat \<Rightarrow> (u32 \<Rightarrow> string) \<Rightarrow> print_line \<Rightarrow> string" where
  "line_text width decode (Sample a w trigger) =
     padl width (dec (int a)) @ '' '' @ hex8 w @ '': '' @ decode w @ (if trigger then '' <--- TRIGGER'' else []) @ nl"
| "line_text width decode (Jump v) = '' ** (+0x'' @ hex8 v @ '' = '' @ padl 8 (dec (sint v)) @ '')'' @ nl"
| "line_text width decode Skipped = '' **** ****'' @ nl"

text \<open>Compressed: the address has moved on when it is compared with the trigger.\<close>

fun print_compressed :: "u32 \<Rightarrow> nat \<Rightarrow> u32 list \<Rightarrow> print_line list" where
  "print_compressed offset addrv [] = []"
| "print_compressed offset addrv (w # ws) =
     (if bit w 31 then Jump (w AND 0x7fffffff) # print_compressed offset (addrv + unat (w AND 0x7fffffff) + 1) ws
      else Sample addrv w (of_nat (addrv + 1) = offset) # print_compressed offset (addrv + 1) ws)"

definition print_item :: "u32 \<Rightarrow> u32 list \<Rightarrow> nat \<Rightarrow> print_line list" where
  "print_item offset d i =
     (if 0 < i \<and> d ! i = d ! (i - 1) \<and> i < length d - 1
      then (if 2 < i \<and> d ! i \<noteq> d ! (i - 2) then [Skipped] else [])
      else [Sample i (d ! i) (of_nat i = offset)])"

definition print_lines :: "bool \<Rightarrow> u32 \<Rightarrow> u32 list \<Rightarrow> print_line list" where
  "print_lines compressed offset d =
     (if compressed then print_compressed offset 0 d else concat (map (print_item offset d) [0..<length d]))"

definition scope_print ::
    "('e, 'b) scope_bus \<Rightarrow> (nat \<Rightarrow> u32) \<Rightarrow> (u32 \<Rightarrow> string) \<Rightarrow> scope \<Rightarrow> 'b \<Rightarrow> ('e, 'b, string) scope_result" where
  "scope_print B junk decode s b =
     rbind (rawread B junk s b) (\<lambda>(msg, s, b).
     rbind (lift_fault s b (getaddresslen s)) (\<lambda>(alen, s, b).
     let offset = alen - m_holdoff s - 1 in
     rbind (lift_fault s b (scope_words s)) (\<lambda>(d, s, b).
       Inr (msg @ concat (map (line_text (if m_compressed s then 10 else 9) decode)
                              (print_lines (m_compressed s) offset d)), s, b))))"

section \<open>The waveform file\<close>

text \<open>Durations in seconds and the moment of an event in nanoseconds, as the host's doubles.\<close>

definition clock_period :: "scope \<Rightarrow> fault + dbl" where
  "clock_period s =
     (if m_clkfreq_hz s = 0 then Inl BadConversion
      else Inr (dbl_div (dbl_of_nat 1) (dbl_of_nat (unat (m_clkfreq_hz s)))))"

definition dbl_1e9 :: dbl where "dbl_1e9 = dbl_of_nat 1000000000"
definition dbl_half :: dbl where "dbl_half = \<lparr>d_mant = 1, d_expo = - 1\<rparr>"

definition to_unsigned :: "dbl \<Rightarrow> fault + u32" where
  "to_unsigned x = (if dbl_trunc x < 2 ^ 32 then Inr (of_nat (dbl_trunc x)) else Inl BadConversion)"

definition to_unsigned_long :: "dbl \<Rightarrow> fault + u64" where
  "to_unsigned_long x = (if dbl_trunc x < 2 ^ 64 then Inr (of_nat (dbl_trunc x)) else Inl BadConversion)"

definition write_trace_timescale :: string where
  "write_trace_timescale = ''$timescale 1ns $end'' @ nl @ nl"

text \<open>A negative number of nanoseconds does not fit \<open>unsigned long\<close>; between \<open>-1\<close> and 0 it is truncated to 0.\<close>

definition write_trace_timezero :: "u32 \<Rightarrow> scope \<Rightarrow> fault + string" where
  "write_trace_timezero offset s =
     rbind (clock_period s) (\<lambda>p.
     rbind (to_unsigned_long (dbl_mult (dbl_mult p (dbl_of_nat (nat \<bar>sint offset\<bar>))) dbl_1e9)) (\<lambda>t.
       if sint offset < 0 \<and> t \<noteq> 0 then Inl BadConversion
       else Inr (''$timezero '' @ dec (- sint t) @ '' $end'' @ nl @ nl)))"

definition c_str :: "string \<Rightarrow> string" where "c_str = takeWhile (\<lambda>c. c \<noteq> CHR 0x00)"

definition trace_declaration :: "traceinfo \<Rightarrow> string" where
  "trace_declaration t =
     ''  $var wire '' @ padl 2 (dec (sint (m_nbits t))) @ '' '' @ c_str (m_key t) @ '' '' @ m_name t
     @ (if m_nbits t \<noteq> 1 \<and> CHR ''['' \<in> set (m_name t)
        then ''['' @ dec (sint (m_nbits t - 1)) @ '':0] $end'' @ nl else '' $end'' @ nl)"

text \<open>\<open>date\<close> is the text of \<open>ctime\<close>.\<close>

definition write_trace_header :: "string \<Rightarrow> u32 \<Rightarrow> scope \<Rightarrow> fault + string" where
  "write_trace_header date offset s =
     rbind (if offset \<noteq> 0 then write_trace_timezero offset s else Inr []) (\<lambda>zero.
       Inr (''$version Generated by WBScope $end'' @ nl
            @ ''$date '' @ date @ nl @ '' $end'' @ nl
            @ write_trace_timescale @ zero
            @ '' $scope module WBSCOPE $end'' @ nl
            @ (if m_compressed s
               then ''  $var wire 31 '' @ [CHR 0x27] @ ''R _raw_data [30:0] $end'' @ nl
               else ''  $var wire  1 '' @ [CHR 0x27] @ ''C clk $end'' @ nl
                    @ ''  $var wire 32 '' @ [CHR 0x27] @ ''R _raw_data [31:0] $end'' @ nl)
            @ ''  $var wire  1 '' @ [CHR 0x27] @ ''T _trigger $end'' @ nl
            @ concat (map trace_declaration (m_traces s))
            @ '' $upscope $end'' @ nl
            @ ''$enddefinitions $end'' @ nl))"

definition bit_char :: "bool \<Rightarrow> char" where "bit_char b = (if b then CHR ''1'' else CHR ''0'')"

definition write_binary_trace :: "int \<Rightarrow> u32 \<Rightarrow> string \<Rightarrow> fault + string" where
  "write_binary_trace nbits val str =
     (if nbits \<le> 1 then Inr (bit_char (bit val 0) # str @ nl)
      else if 32 < nbits then Inl BadShift
      else let val = (if nbits < 32 then val AND mask (nat nbits) else val)
           in Inr (''b'' @ map (\<lambda>i. bit_char (bit (drop_bit (nat nbits - 1 - i) val) 0)) [0..<nat nbits]
                   @ '' '' @ str @ nl))"

definition write_trace :: "traceinfo \<Rightarrow> u32 \<Rightarrow> fault + string" where
  "write_trace t val =
     (if 32 \<le> m_nshift t then Inl BadShift
      else write_binary_trace (sint (m_nbits t)) (drop_bit (unat (m_nshift t)) val) (c_str (m_key t)))"

fun write_traces :: "traceinfo list \<Rightarrow> u32 \<Rightarrow> fault + string" where
  "write_traces [] val = Inr []"
| "write_traces (t # ts) val = rbind (write_trace t val) (\<lambda>x. rbind (write_traces ts val) (\<lambda>y. Inr (x @ y)))"

definition trace_key :: "nat \<Rightarrow> string" where
  "trace_key nkey =
     [CHR ''v'',
      if nkey < 26 then char_of (97 + nkey)
      else if nkey < 26 + 26 then char_of (65 + nkey - 26)
      else char_of (48 + nkey - 26 - 26),
      CHR 0x00, CHR 0x00]"

definition register_trace :: "string \<Rightarrow> u32 \<Rightarrow> u32 \<Rightarrow> scope \<Rightarrow> scope" where
  "register_trace name nbits shift s =
     s\<lparr>m_traces := m_traces s @ [\<lparr>m_name = name, m_key = trace_key (length (m_traces s)),
                                  m_nbits = nbits, m_nshift = shift\<rparr>]\<rparr>"

definition define_traces :: "(string \<times> u32 \<times> u32) list \<Rightarrow> scope \<Rightarrow> scope" where
  "define_traces defs s = fold (\<lambda>(name, nbits, shift). register_trace name nbits shift) defs s"

text \<open>
  The lines of the waveform: the moments, the changes of the clock and of the trigger, and the values, as
  the text written.
\<close>

datatype vcd_item = Time int | Clock bool | Trigger bool | Values string

fun item_text :: "vcd_item \<Rightarrow> string" where
  "item_text (Time t) = ''#'' @ dec t @ nl"
| "item_text (Clock v) = [bit_char v, CHR 0x27] @ ''C'' @ nl"
| "item_text (Trigger v) = [bit_char v, CHR 0x27] @ ''T'' @ nl"
| "item_text (Values x) = x"

definition word_values :: "int \<Rightarrow> scope \<Rightarrow> u32 \<Rightarrow> fault + vcd_item list \<times> vcd_item list" where
  "word_values nbits s w =
     rbind (write_binary_trace nbits w (CHR 0x27 # ''R'' @ nl)) (\<lambda>raw.
     rbind (write_traces (m_traces s) w) (\<lambda>vals. Inr ([Values raw], [Values vals])))"

text \<open>The moment of the address \<open>k\<close> of a compressed scope.\<close>

definition time_of_addr :: "scope \<Rightarrow> nat \<Rightarrow> fault + int" where
  "time_of_addr s k =
     rbind (clock_period s) (\<lambda>p.
     rbind (to_unsigned_long (dbl_mult (dbl_mult p (dbl_of_nat k)) dbl_1e9)) (\<lambda>t. Inr (sint t)))"

fun vcd_compressed :: "scope \<Rightarrow> u32 \<Rightarrow> u32 \<Rightarrow> bool \<Rightarrow> nat \<Rightarrow> bool \<Rightarrow> u32 list \<Rightarrow> fault + vcd_item list" where
  "vcd_compressed s alen offset first addrv last_trigger [] = Inr []"
| "vcd_compressed s alen offset first addrv last_trigger (w # ws) =
     (if bit w 31 then
        (if first then vcd_compressed s alen offset False addrv last_trigger ws
         else
           rbind (if last_trigger then rbind (time_of_addr s (addrv + 1)) (\<lambda>t. Inr [Time t, Trigger False])
                  else Inr []) (\<lambda>drop.
           rbind (vcd_compressed s alen offset False (addrv + unat (w AND 0x7fffffff) + 1) last_trigger ws) (\<lambda>rest.
             Inr (drop @ rest))))
      else
        rbind (time_of_addr s addrv) (\<lambda>t.
        let hit = (of_nat addrv - alen = offset);
            trigger = (if hit then [Trigger True] else if last_trigger then [Trigger False] else []) in
        rbind (word_values 31 s w) (\<lambda>(raw, vals).
        rbind (vcd_compressed s alen offset False (addrv + 1) (last_trigger \<or> hit) ws) (\<lambda>rest.
          Inr (Time t # trigger @ raw @ vals @ rest)))))"

text \<open>The moments of the two edges of the clock at sample \<open>i\<close> of an uncompressed scope.\<close>

definition nearest_ns :: "dbl \<Rightarrow> fault + int" where
  "nearest_ns x = rbind (to_unsigned (dbl_add (dbl_mult x dbl_1e9) dbl_half)) (\<lambda>t. Inr (sint t))"

definition edge_times :: "scope \<Rightarrow> nat \<Rightarrow> fault + int \<times> int" where
  "edge_times s i =
     rbind (clock_period s) (\<lambda>p.
     let dnow = dbl_mult p (dbl_of_nat i) in
     rbind (nearest_ns dnow) (\<lambda>rise.
     rbind (nearest_ns (dbl_add dnow (dbl_div p (dbl_of_nat 2)))) (\<lambda>fall. Inr (rise, fall))))"

definition vcd_sample :: "scope \<Rightarrow> u32 \<Rightarrow> nat \<Rightarrow> u32 \<Rightarrow> fault + vcd_item list" where
  "vcd_sample s offset i w =
     rbind (edge_times s i) (\<lambda>(rise, fall).
     rbind (word_values 32 s w) (\<lambda>(raw, vals).
       Inr ([Time rise, Clock True] @ raw @ [Trigger (of_nat i = offset)] @ vals @ [Time fall, Clock False])))"

fun vcd_uncompressed :: "scope \<Rightarrow> u32 \<Rightarrow> nat \<Rightarrow> u32 list \<Rightarrow> fault + vcd_item list" where
  "vcd_uncompressed s offset i [] = Inr []"
| "vcd_uncompressed s offset i (w # ws) =
     rbind (vcd_sample s offset i w) (\<lambda>xs. rbind (vcd_uncompressed s offset (i + 1) ws) (\<lambda>ys. Inr (xs @ ys)))"

definition vcd_items :: "scope \<Rightarrow> u32 \<Rightarrow> u32 list \<Rightarrow> fault + vcd_item list" where
  "vcd_items s alen d =
     (let offset = alen - m_holdoff s - 1 in
      if m_compressed s then vcd_compressed s alen offset True 0 True d else vcd_uncompressed s offset 0 d)"

text \<open>The value is what is printed and what is written to the file.\<close>

definition writevcd ::
    "('e, 'b) scope_bus \<Rightarrow> (nat \<Rightarrow> u32) \<Rightarrow> (string \<times> u32 \<times> u32) list \<Rightarrow> string \<Rightarrow> scope \<Rightarrow> 'b
     \<Rightarrow> ('e, 'b, string \<times> string) scope_result" where
  "writevcd B junk defs date s b =
     rbind (if m_data s = None then rawread B junk s b else Inr ([], s, b)) (\<lambda>(msg, s, b).
     let s = (if m_traces s = [] then define_traces defs s else s) in
     rbind (lift_fault s b (getaddresslen s)) (\<lambda>(alen, s, b).
     rbind (lift_fault s b (write_trace_header date (alen - m_holdoff s - 1) s)) (\<lambda>(header, s, b).
     rbind (lift_fault s b (rbind (scope_words s) (vcd_items s alen))) (\<lambda>(items, s, b).
       Inr ((msg, header @ concat (map item_text items)), s, b)))))"

text \<open>With a name: \<open>opened\<close> says whether the file could be opened.  The value is what is printed, what is
  reported as an error, and the file.\<close>

definition writevcd_to ::
    "bool \<Rightarrow> string \<Rightarrow> ('e, 'b) scope_bus \<Rightarrow> (nat \<Rightarrow> u32) \<Rightarrow> (string \<times> u32 \<times> u32) list \<Rightarrow> string \<Rightarrow> scope \<Rightarrow> 'b
     \<Rightarrow> ('e, 'b, string \<times> string \<times> string option) scope_result" where
  "writevcd_to opened name B junk defs date s b =
     (if \<not> opened
      then Inr (([], ''ERR: Cannot open '' @ name @ '' for writing!'' @ nl @ ''ERR: Trace file not written'' @ nl, None), s, b)
      else rbind (writevcd B junk defs date s b) (\<lambda>((msg, file), s, b). Inr ((msg, [], Some file), s, b)))"

end
