(* ===== verification/ScopeList.thy ===== *)
theory ScopeList
  imports Scope TtyBus
begin

text \<open>
  What the scope reader keeps in memory and what its listing shows: the buffer always has the length the
  scope announced, the listing of an uncompressed scope determines the buffer, and what an
  exception of the bus leaves behind.  The contract of the bus is that \<open>readz\<close> delivers as many words as it was
  asked for; \<open>TTYBUS\<close> keeps it.
\<close>

section \<open>The buffer\<close>

definition scope_ok :: "scope \<Rightarrow> bool" where
  "scope_ok s \<longleftrightarrow> (m_scoplen s = 0 \<or> (\<exists>k < 32. m_scoplen s = 2 ^ k))
     \<and> (\<forall>d. m_data s = Some d \<longrightarrow> length d = unat (m_scoplen s) \<and> 4 < sint (m_scoplen s))"

text \<open>The object after an operation, however it ended.\<close>

fun leaves :: "(scope \<Rightarrow> bool) \<Rightarrow> ('e, 'b, 'a) scope_result \<Rightarrow> bool" where
  "leaves P (Inl (e, s, b)) = P s"
| "leaves P (Inr (x, s, b)) = P s"

fun outcome :: "('e, 'b, 'a) scope_result \<Rightarrow> scope" where
  "outcome (Inl (e, s, b)) = s"
| "outcome (Inr (x, s, b)) = s"

lemma leaves_outcome: "leaves P r = P (outcome r)"
  by (cases r rule: outcome.cases) simp_all

lemma leaves_rbind:
  assumes "leaves P r" and "\<And>x s b. P s \<Longrightarrow> leaves P (f (x, s, b))"
  shows "leaves P (rbind r f)"
proof (cases r)
  case (Inl e)
  then show ?thesis using assms(1) by (cases e) simp
next
  case (Inr y)
  then show ?thesis using assms by (cases y) simp
qed

lemma leaves_read_word:
  assumes "P s" and "\<And>v b. leaves P (f (v, s, b))"
  shows "leaves P (rbind (read_word B a s b) f)"
  using assms by (simp add: read_word_def split: sum.splits)

lemma leaves_lift_fault:
  assumes "P s" and "\<And>x. leaves P (f (x, s, b))"
  shows "leaves P (rbind (lift_fault s b r) f)"
  using assms by (simp add: lift_fault_def split: sum.splits)

lemma scope_lgln_bound: "scope_lgln v < 32"
proof -
  have "drop_bit 20 v AND 0x1f \<le> (0x1f :: u32)" by (rule word_and_le1)
  then have "unat (drop_bit 20 v AND 0x1f) \<le> unat (0x1f :: u32)" by (simp only: word_le_nat_alt)
  then show ?thesis by (simp add: scope_lgln_def)
qed

lemma scope_ok_len [intro]: "m_data s = None \<Longrightarrow> scope_ok (s\<lparr>m_scoplen := 2 ^ scope_lgln v\<rparr>)"
  using scope_lgln_bound [of v] by (auto simp: scope_ok_def)

lemma scope_ok_holdoff [simp]: "scope_ok (s\<lparr>m_holdoff := h\<rparr>) = scope_ok s"
  by (simp add: scope_ok_def)

lemma scope_ok_traces [simp]: "scope_ok (s\<lparr>m_traces := ts\<rparr>) = scope_ok s"
  by (simp add: scope_ok_def)

lemma register_trace_ok [simp]: "scope_ok (register_trace name nbits shift s) = scope_ok s"
  by (simp add: register_trace_def)

lemma define_traces_ok [simp]: "scope_ok (define_traces defs s) = scope_ok s"
  unfolding define_traces_def
proof (induction defs arbitrary: s)
  case (Cons d defs)
  then show ?case by (cases d) (simp add: Cons.IH)
qed simp

lemma scope_new_ok: "scope_ok (scope_new holdoff addr compressed vecread)"
  by (simp add: scope_new_def scope_ok_def)

lemma scope_ok_zero: "scope_ok s \<Longrightarrow> m_scoplen s = 0 \<Longrightarrow> m_data s = None"
  by (cases "m_data s") (auto simp: scope_ok_def)

lemma scope_ready_ok: "scope_ok s \<Longrightarrow> leaves scope_ok (scope_ready B s b)"
  using scope_ok_zero [of s] scope_ok_len [of s]
  by (auto simp: scope_ready_def Let_def intro!: leaves_read_word)

text \<open>\<open>scoplen\<close> touches neither the buffer nor the traces, and returns the length it leaves.\<close>

lemma scoplen_cases:
  assumes "scoplen B s b = r" and "scope_ok s"
  obtains e b' where "r = Inl (e, s, b')"
  | s' b' where "r = Inr (sint (m_scoplen s'), s', b')" "scope_ok s'" "m_data s' = m_data s"
      "m_vector_read s' = m_vector_read s" "m_addr s' = m_addr s"
proof -
  have "\<exists>e b'. r = Inl (e, s, b')" if "m_scoplen s = 0" "sb_readio B (m_addr s) b = Inl x" for x
    using assms(1) that by (cases x) (auto simp: scoplen_def read_word_def)
  moreover have "\<exists>s' b'. r = Inr (sint (m_scoplen s'), s', b') \<and> scope_ok s' \<and> m_data s' = m_data s
      \<and> m_vector_read s' = m_vector_read s \<and> m_addr s' = m_addr s"
    if "m_scoplen s = 0" "sb_readio B (m_addr s) b = Inr x" for x
    using assms that scope_ok_zero [OF assms(2)] scope_ok_len [of s "fst x"]
    by (cases x) (auto simp: scoplen_def read_word_def Let_def scope_ok_def)
  moreover have "r = Inr (sint (m_scoplen s), s, b)" if "m_scoplen s \<noteq> 0"
    using assms(1) that by (simp add: scoplen_def)
  ultimately show thesis using that assms(2) by (cases "m_scoplen s = 0"; cases "sb_readio B (m_addr s) b") blast+
qed

lemma scope_ok_data:
  "scope_ok s \<Longrightarrow> 4 < sint (m_scoplen s) \<Longrightarrow> length d = unat (m_scoplen s) \<Longrightarrow> scope_ok (s\<lparr>m_data := Some d\<rparr>)"
  by (simp add: scope_ok_def)

lemma read_each_ok:
  assumes "scope_ok s" and "4 < sint (m_scoplen s)" and "length got + n = unat (m_scoplen s)"
  shows "leaves scope_ok (read_each B n got junk s b)"
  using assms
proof (induction n arbitrary: got s b)
  case 0
  then show ?case by (simp add: scope_ok_data)
next
  case (Suc n)
  let ?s = "s\<lparr>m_data := Some (got @ map junk [length got..<unat (m_scoplen s)])\<rparr>"
  have "scope_ok ?s" using Suc.prems by (intro scope_ok_data) simp_all
  then show ?case
    using Suc.IH [of ?s "got @ [v]" for v] Suc.prems by (auto intro!: leaves_read_word)
qed

lemma scoplen_positive:
  assumes "0 \<le> sint w"
  shows "sint w = int (unat (w :: u32))"
  using assms sint_lt [of w] by (simp add: uint_sint [of w] take_bit_int_eq_self)

lemma scoplen_ok: "scope_ok s \<Longrightarrow> leaves scope_ok (scoplen B s b)"
  by (rule scoplen_cases [OF refl, of s B b]) simp_all

locale scope_words_bus =
  fixes B :: "('e, 'b) scope_bus"
  assumes readz_length: "sb_readz B a n b = Inr (ws, b') \<Longrightarrow> 0 \<le> n \<Longrightarrow> length ws = nat n"
begin

lemma rawread_ok:
  assumes "scope_ok s"
  shows "leaves scope_ok (rawread B junk s b)"
proof (cases "m_data s = None")
  case True
  show ?thesis
  proof (rule scoplen_cases [OF refl assms, of B b], goal_cases)
    case (2 s' b')
    then show ?thesis
      using True scoplen_positive [of "m_scoplen s'"]
      by (auto simp: rawread_def split: sum.splits intro!: leaves_rbind read_each_ok scope_ok_data dest!: readz_length)
  qed (simp add: rawread_def True assms)
qed (use assms in \<open>simp add: rawread_def\<close>)

lemma scope_print_ok: "scope_ok s \<Longrightarrow> leaves scope_ok (scope_print B junk decode s b)"
  by (auto simp: scope_print_def Let_def intro!: leaves_rbind leaves_lift_fault rawread_ok)

lemma writevcd_ok: "scope_ok s \<Longrightarrow> leaves scope_ok (writevcd B junk defs date s b)"
  by (auto simp: writevcd_def Let_def intro!: leaves_rbind leaves_lift_fault rawread_ok)

end

section \<open>On the debugging bus\<close>

definition tty_scope_bus :: "(tty_error, ttybus) scope_bus" where
  "tty_scope_bus = \<lparr>sb_readio = readio, sb_readz = readz\<rparr>"

lemma next_nrd_le: "next_nrd len cmdrd nread \<le> len - cmdrd"
  by (simp add: next_nrd_def Let_def)

lemma read_cmds_le: "read_cmds inc len nread cmdrd out = Inr (out', c) \<Longrightarrow> c \<le> len"
proof (induction inc len nread cmdrd out rule: read_cmds.induct)
  case (1 inc len nread cmdrd out)
  show ?case
    using "1.prems" "1.IH" next_nrd_le [of len cmdrd nread]
    by (subst (asm) read_cmds.simps) (fastforce simp: Let_def split: sum.splits if_splits)
qed

lemma read_words_length: "read_words a inc n got s = Inr (ws, s') \<Longrightarrow> length ws = length got + n"
  by (induction a inc n got s rule: read_words.induct) (auto split: sum.splits prod.splits tty_error.splits)

lemma readv_loop_length:
  "readv_loop a inc len cmdrd got out s = Inr (ws, s') \<Longrightarrow> int (length got) \<le> len \<Longrightarrow> int (length ws) \<le> len"
proof (induction a inc len cmdrd got out s rule: readv_loop.induct)
  case (1 a inc len cmdrd got out s)
  show ?case
  proof (cases "cmdrd < len")
    case True
    from "1.prems"(1) True obtain out' c got' t where
      c: "read_cmds inc len (int (length got)) cmdrd out = Inr (out', c)"
      and g: "rbind (stop s (terminate s (out' @ [0x0a]))) (\<lambda>out. rbind (dev_write out s) (\<lambda>(_, s).
                 read_words a inc (nat (c - READAHEAD - int (length got))) got s)) = Inr (got', t)"
      and l: "readv_loop a inc len c got' [] t = Inr (ws, s')"
      by (subst (asm) readv_loop.simps) (auto split: sum.splits prod.splits)
    from g have "length got' = length got + nat (c - READAHEAD - int (length got))"
      by (auto dest: read_words_length)
    moreover have "c \<le> len" by (rule read_cmds_le [OF c])
    ultimately have "int (length got') \<le> len" using "1.prems"(2) by (simp add: READAHEAD_def MAXRDLEN_def)
    then show ?thesis using "1.IH" [OF _ c refl g refl l] True by simp
  next
    case False
    then show ?thesis using "1.prems" by (subst (asm) readv_loop.simps) simp
  qed
qed

lemma readv_length: "readv a inc len s = Inr (ws, s') \<Longrightarrow> length ws = nat len"
  by (auto simp: readv_def split: if_splits dest!: read_words_length readv_loop_length)

interpretation tty_scope: scope_words_bus tty_scope_bus
  by unfold_locales (auto simp: tty_scope_bus_def readz_def dest: readv_length)

text \<open>The objects that a program can have: those it constructs, and what the operations make of them.\<close>

inductive scope_reachable :: "('e, 'b) scope_bus \<Rightarrow> scope \<Rightarrow> bool" for B where
  scope_constructed: "scope_reachable B (scope_new holdoff addr compressed vecread)"
| scope_called_ready: "scope_reachable B s \<Longrightarrow> scope_reachable B (outcome (scope_ready B s b))"
| scope_called_decode: "scope_reachable B s \<Longrightarrow> scope_reachable B (outcome (decode_control B s b))"
| scope_called_scoplen: "scope_reachable B s \<Longrightarrow> scope_reachable B (outcome (scoplen B s b))"
| scope_called_rawread: "scope_reachable B s \<Longrightarrow> scope_reachable B (outcome (rawread B junk s b))"
| scope_called_print: "scope_reachable B s \<Longrightarrow> scope_reachable B (outcome (scope_print B junk decode s b))"
| scope_called_writevcd: "scope_reachable B s \<Longrightarrow> scope_reachable B (outcome (writevcd B junk defs date s b))"
| scope_called_clock: "scope_reachable B s \<Longrightarrow> scope_reachable B (set_clkfreq_hz hz s)"
| scope_called_register: "scope_reachable B s \<Longrightarrow> scope_reachable B (register_trace name nbits shift s)"

context scope_words_bus
begin

lemma reachable_ok: "scope_reachable B s \<Longrightarrow> scope_ok s"
proof (induction rule: scope_reachable.induct)
  case (scope_called_decode s b)
  then show ?case by (auto simp: decode_control_def simp flip: leaves_outcome intro!: leaves_read_word)
next
  case (scope_called_clock s hz)
  then show ?case by (simp add: set_clkfreq_hz_def scope_ok_def)
next
  case (scope_called_scoplen s b)
  then show ?case by (metis leaves_outcome scoplen_ok)
qed (simp_all add: scope_new_ok scope_ready_ok rawread_ok scope_print_ok writevcd_ok flip: leaves_outcome)

text \<open>The index operator wraps around in the buffer.\<close>

lemma index_wraps:
  assumes "scope_reachable B s"
  shows "scope_index a s = Inr (case m_data s of None \<Rightarrow> 0 | Some d \<Rightarrow> d ! (unat a mod length d))"
proof (cases "m_data s")
  case (Some d)
  from reachable_ok [OF assms] Some have d: "length d = unat (m_scoplen s)" "4 < sint (m_scoplen s)"
    and "m_scoplen s = 0 \<or> (\<exists>k < 32. m_scoplen s = 2 ^ k)" by (auto simp: scope_ok_def)
  then obtain k where k: "k < 32" "m_scoplen s = 2 ^ k" by auto
  then have len: "length d = 2 ^ k" using d unat_push_one [of k] by simp
  have "a AND (m_scoplen s - 1) = take_bit k a" by (simp add: k take_bit_eq_mask mask_eq_exp_minus_1)
  moreover have "unat (take_bit k a) = unat a mod 2 ^ k"
    by (rule trans [OF unsigned_take_bit_eq take_bit_eq_mod])
  ultimately have "unat (a AND (m_scoplen s - 1)) = unat a mod length d" by (simp only: len)
  moreover have "0 < m_scoplen s" using d by (metis word_greater_zero_iff sint_0 not_less_iff_gr_or_eq zero_less_numeral less_trans)
  ultimately show ?thesis using Some len by (simp add: scope_index_def Let_def)
qed (simp add: scope_index_def)

end

section \<open>The listing of an uncompressed scope\<close>

fun samples :: "print_line list \<Rightarrow> (nat \<times> u32) list" where
  "samples [] = []"
| "samples (Sample a w m # ls) = (a, w) # samples ls"
| "samples (l # ls) = samples ls"

text \<open>What a reader of the listing makes of it: a word stands for all the indices up to that of the next.\<close>

fun expand :: "(nat \<times> u32) list \<Rightarrow> u32 list" where
  "expand [] = []"
| "expand [(a, w)] = [w]"
| "expand ((a, w) # (b, v) # r) = replicate (b - a) w @ expand ((b, v) # r)"

lemma samples_append [simp]: "samples (xs @ ys) = samples xs @ samples ys"
  by (induction xs rule: samples.induct) simp_all

lemma expand_listing:
  assumes "a < k" and "k < length d" and "\<forall>j \<in> {a..<k}. d ! j = w"
  shows "expand ((a, w) # samples (concat (map (print_item offset d) [k..<length d]))) = drop a d"
  using assms
proof (induction "length d - k" arbitrary: a k w)
  case (Suc n)
  have run: "replicate (k - a) w @ drop k d = drop a d"
  proof (rule nth_equalityI)
    fix i
    assume "i < length (replicate (k - a) w @ drop k d)"
    then show "(replicate (k - a) w @ drop k d) ! i = drop a d ! i"
      using Suc.prems by (auto simp: nth_append add.commute)
  qed (use Suc.prems in simp)
  have split: "[k..<length d] = k # [Suc k..<length d]" using Suc.prems(2) by (simp add: upt_conv_Cons)
  show ?case
  proof (cases "0 < k \<and> d ! k = d ! (k - 1) \<and> k < length d - 1")
    case True
    then have "d ! k = w" using Suc.prems(1,3) by simp
    then have "\<forall>j \<in> {a..<Suc k}. d ! j = w" using Suc.prems(3) by (auto simp: less_Suc_eq)
    then have "expand ((a, w) # samples (concat (map (print_item offset d) [Suc k..<length d]))) = drop a d"
      using Suc.hyps(1) [of "Suc k" a w] Suc.hyps(2) Suc.prems(1) True by force
    then show ?thesis using True by (simp add: split print_item_def)
  next
    case False
    then have item: "print_item offset d k = [Sample k (d ! k) (of_nat k = offset)]"
      unfolding print_item_def by (rule if_not_P)
    show ?thesis
    proof (cases "Suc k = length d")
      case True
      then have "drop k d = [d ! k]" using Suc.prems(2) by (simp add: Cons_nth_drop_Suc [symmetric])
      then show ?thesis using run True by (simp add: split item)
    next
      case last: False
      then have "expand ((k, d ! k) # samples (concat (map (print_item offset d) [Suc k..<length d]))) = drop k d"
        using Suc.hyps(1) [of "Suc k" k "d ! k"] Suc.hyps(2) Suc.prems(2) by simp
      then show ?thesis using run by (simp add: split item)
    qed
  qed
qed simp

lemma expand_print_lines:
  assumes "d \<noteq> []"
  shows "expand (samples (print_lines False offset d)) = d"
proof (cases "length d = 1")
  case True
  then obtain x where "d = [x]" by (cases d) auto
  then show ?thesis by (simp add: print_lines_def print_item_def)
next
  case False
  moreover have "[0..<length d] = 0 # [Suc 0..<length d]" using assms by (simp add: upt_conv_Cons)
  moreover have "Suc 0 < length d" using False assms by (cases d) auto
  ultimately show ?thesis
    using expand_listing [of 0 1 d "d ! 0" offset] by (simp add: print_lines_def print_item_def)
qed

text \<open>The line of the trigger, if it has one, is the one marked.\<close>

lemma of_nat_word_eq: "n < 2 ^ 32 \<Longrightarrow> of_nat n = w \<longleftrightarrow> n = unat (w :: u32)"
  by (auto simp: unsigned_of_nat take_bit_nat_eq_self)

lemma print_lines_mark:
  assumes "length d < 2 ^ 32" and "Sample i w m \<in> set (print_lines False offset d)"
  shows "i < length d \<and> w = d ! i \<and> (m \<longleftrightarrow> i = unat offset)"
proof -
  from assms(2) have i: "i < length d" "w = d ! i" "m = (of_nat i = offset)"
    by (auto simp: print_lines_def print_item_def split: if_splits)
  with assms(1) show ?thesis using of_nat_word_eq [of i offset] by simp
qed

end
