(* ===== verification/TtyReadv.thy ===== *)
theory TtyReadv
  imports TtyRead
begin

text \<open>
  Vector reads over the debugging bus, \<open>readv\<close> of \<open>ttybus.cpp\<close>: the characters it sends make the board
  perform the reads asked for, block by block, and the answers are decoded to the words sent.
  One block is lost: that of eight words at a fixed address, whose command is the board's end-of-write
  mark.
\<close>

section \<open>The words that read commands ask for\<close>

text \<open>The word addresses of \<open>n\<close> words from \<open>w\<close>, and of a list of commands.\<close>

definition read_seq :: "u32 \<Rightarrow> bool \<Rightarrow> nat \<Rightarrow> u32 list" where
  "read_seq w i n = map (\<lambda>k. w + (if i then of_nat k else 0)) [0..<n]"

definition words_read :: "(u32 \<times> nat \<times> bool) list \<Rightarrow> u32 list" where
  "words_read rs = concat (map (\<lambda>(w, n, i). read_seq w i n) rs)"

lemma words_read_simps [simp]:
  "words_read [] = []" "words_read ((w, n, i) # rs) = read_seq w i n @ words_read rs"
  "words_read (rs @ ts) = words_read rs @ words_read ts"
  by (simp_all add: words_read_def)

lemma read_seq_zero [simp]: "read_seq w i 0 = []"
  by (simp add: read_seq_def)

lemma read_seq_append: "read_seq w i (m + n) = read_seq w i m @ read_seq (w + (if i then of_nat m else 0)) i n"
proof -
  have "[0..<m + n] = [0..<m] @ map (\<lambda>k. m + k) [0..<n]"
    using upt_add_eq_append [of 0 m n] by (simp add: map_add_upt add.commute)
  then show ?thesis by (simp add: read_seq_def comp_def add.assoc)
qed

text \<open>One command.\<close>

definition read_done :: "int \<Rightarrow> board \<Rightarrow> nat \<Rightarrow> u8 list \<Rightarrow> bool" where
  "read_done inc b n cs \<longleftrightarrow> (\<exists>x rs. board_run b cs = (scratch x b)\<lparr>bus_reads := bus_reads b @ rs,
       wb_addr := wb_addr b + (if inc \<noteq> 0 then of_nat n else 0)\<rparr>
     \<and> words_read rs = read_seq (wb_addr b) (inc \<noteq> 0) n)"

lemma short_read_table:
  "list_all (\<lambda>n. let h = 0x20 + push_bit 1 ((n - 1) AND 7) + i; c = word_of_int h :: u32 in
      0 \<le> h \<and> h < 64 \<and> cw_len c = 1 \<and> (i = 0 \<and> n = 8 \<or> c \<noteq> 0x2e) \<and> drop_bit 5 c = 1 \<and> \<not> bit c 4 \<and> drop_bit 3 c \<notin> {1, 2, 3}
      \<and> drop_bit 2 c \<noteq> 0 \<and> bit c 0 = (i \<noteq> 0) \<and> 1 + unat (drop_bit 1 c AND 7) = nat n) [1..8]"
  if "i = 0 \<or> i = 1"
  using that by (elim disjE) (simp_all add: cw_len_def upto.simps)

lemma long_read_table:
  "list_all (\<lambda>q. let h = 0x30 + push_bit 1 q + i; c = word_of_int h :: u32 in
      0 \<le> h \<and> h < 64 \<and> cw_len c = 2 \<and> c \<noteq> 0x2e \<and> drop_bit 5 c = 1 \<and> bit c 4 \<and> drop_bit 3 c \<notin> {1, 2, 3}
      \<and> drop_bit 2 c \<noteq> 0 \<and> bit c 0 = (i \<noteq> 0) \<and> drop_bit 1 c AND 7 = word_of_int q) [0..7]"
  if "i = 0 \<or> i = 1"
  using that by (elim disjE) (simp_all add: cw_len_def upto.simps)

lemma board_exec_read:
  assumes "drop_bit 5 c = 1" "drop_bit 3 c \<notin> {1, 2, 3}" "drop_bit 2 c \<noteq> 0" "c \<noteq> 0x2e"
    and "n = (if bit c 4 then 9 + unat (push_bit 6 (drop_bit 1 c AND 7) OR ds ! 0) else 1 + unat (drop_bit 1 c AND 7))"
  shows "\<exists>x. board_exec (c # ds) b = (scratch x b)\<lparr>bus_reads := bus_reads b @ [(wb_addr b, n, bit c 0)],
    wb_addr := wb_addr b + (if bit c 0 then of_nat n else 0)\<rparr>"
  using assms by (intro exI [of _ "join (drop_bit 1 c AND 3) ds"]) (simp add: board_exec_def Let_def scratch_def)

lemma readcmd_short:
  assumes "1 \<le> len" "len \<le> 8" "\<not> (inc = 0 \<and> len = 8)" "inc = 0 \<or> inc = 1" "cw b = []"
  shows "\<exists>cs. readcmd inc len = Inr cs \<and> length cs = 1 \<and> read_done inc b (nat len) cs"
proof -
  let ?h = "0x20 + push_bit 1 ((len - 1) AND 7) + inc" and ?n = "nat len"
  let ?c = "word_of_int ?h :: u32"
  have n: "len \<in> set [1..8]" using assms(1,2) by simp
  note t = bspec [OF short_read_table [OF assms(4), unfolded list_all_iff Let_def] n]
  have t: "0 \<le> ?h" "?h < 64" "cw_len ?c = 1" "drop_bit 5 ?c = 1" "\<not> bit ?c 4" "drop_bit 3 ?c \<notin> {1, 2, 3}"
      "drop_bit 2 ?c \<noteq> 0" "bit ?c 0 = (inc \<noteq> 0)" "1 + unat (drop_bit 1 ?c AND 7) = ?n" "inc = 0 \<and> len = 8 \<or> ?c \<noteq> 0x2e"
    using t by - (elim conjE, assumption)+
  have ne: "?c \<noteq> 0x2e" using t(10) assms(3) by (simp only: simp_thms)
  have cmd: "readcmd inc len = Inr (map sixchar [?h])"
  proof -
    have "charencs [?h] = Inr (map sixchar [?h])" using t(1,2) by (intro charencs_ok) simp
    moreover have "(if inc \<noteq> 0 then 1 else 0) = inc" using assms(4) by auto
    ultimately show ?thesis using assms(1,2) by (simp add: readcmd_def Let_def)
  qed
  have "board_run b (map sixchar [?h]) = board_exec (map word_of_int [?h]) b"
    using t(1-3) assms(5) by (intro board_run_codeword) simp_all
  moreover obtain x where "board_exec [?c] b = (scratch x b)\<lparr>bus_reads := bus_reads b @ [(wb_addr b, ?n, inc \<noteq> 0)],
      wb_addr := wb_addr b + (if inc \<noteq> 0 then of_nat ?n else 0)\<rparr>"
    using board_exec_read [OF t(4,6,7) ne, of ?n "[]" b] t(5,8,9) by auto
  ultimately have "read_done inc b ?n (map sixchar [?h])"
    unfolding read_done_def by (intro exI [of _ x] exI [of _ "[(wb_addr b, ?n, inc \<noteq> 0)]"]) simp
  then show ?thesis using cmd by auto
qed

text \<open>The nine bits of the length of a long read, cut into the three high ones and the six low ones.\<close>

lemma long_length_parts:
  fixes m :: int
  assumes "0 \<le> m" "m < 512"
  shows "m AND 0x3f = m mod 64" "drop_bit 5 m AND 0x0e = push_bit 1 (m div 64)"
proof -
  have six: "(0x3f :: int) = mask 6" by (simp add: mask_eq_exp_minus_1)
  show "m AND 0x3f = m mod 64" unfolding six take_bit_eq_mask [symmetric] by (simp add: take_bit_eq_mod)
  have "take_bit 9 m = m" using assms by (intro take_bit_int_eq_self) auto
  then have nine: "bit m i = (i < 9 \<and> bit m i)" for i by (metis bit_take_bit_iff)
  have "(0x0e :: int) = push_bit 1 (mask 3)" by (simp add: mask_eq_exp_minus_1)
  then have e: "bit (0x0e :: int) k = (k \<in> {1, 2, 3})" for k
    by (simp only: bit_push_bit_iff bit_mask_iff) auto
  show "drop_bit 5 m AND 0x0e = push_bit 1 (m div 64)"
  proof (rule bit_eqI)
    fix k
    show "bit (drop_bit 5 m AND 0x0e) k = bit (push_bit 1 (m div 64)) k"
      unfolding bit_and_iff bit_drop_bit_eq e bit_push_bit_iff
      using nine [of "5 + k"] by (auto simp: drop_bit_eq_div [of 6 m, simplified, symmetric] bit_drop_bit_eq comp_def)
  qed
qed

lemma long_length_joined:
  fixes m :: int
  assumes "0 \<le> m" "m < 512"
  shows "unat (push_bit 6 (word_of_int (m div 64)) OR word_of_int (m mod 64) :: u32) = nat m"
proof -
  have "push_bit 6 (drop_bit 6 m) + take_bit 6 m = m" by (simp add: push_bit_eq_mult drop_bit_eq_div take_bit_eq_mod)
  moreover have "push_bit 6 (drop_bit 6 m) + take_bit 6 m = push_bit 6 (drop_bit 6 m) OR take_bit 6 m"
    by (rule disjunctive_add_eq_or) (auto simp: bit_eq_iff bit_and_iff bit_push_bit_iff bit_take_bit_iff)
  ultimately have "m = push_bit 6 (m div 64) OR (m mod 64)" by (simp add: drop_bit_eq_div take_bit_eq_mod)
  then have "push_bit 6 (word_of_int (m div 64)) OR word_of_int (m mod 64) = (word_of_int m :: u32)"
    by (metis push_bit_word_beyond of_int_push_bit of_int_or_eq)
  moreover have "uint (word_of_int m :: u32) = m" by (rule uint_small) (use assms in simp_all)
  ultimately show ?thesis by (simp only: unat_eq_nat_uint)
qed

lemma readcmd_long:
  assumes "9 \<le> len" "len < 520" "inc = 0 \<or> inc = 1" "cw b = []"
  shows "\<exists>cs. readcmd inc len = Inr cs \<and> length cs = 2 \<and> read_done inc b (nat len) cs"
proof -
  let ?m = "len - 9"
  let ?q = "?m div 64" and ?r = "?m mod 64"
  let ?h = "0x30 + push_bit 1 ?q + inc"
  let ?c = "word_of_int ?h :: u32"
  have m: "0 \<le> ?m" "?m < 512" using assms(1,2) by simp_all
  have q: "?q \<in> set [0..7]" using assms(1,2) by auto
  note t = bspec [OF long_read_table [OF assms(3), unfolded list_all_iff Let_def] q]
  have t: "0 \<le> ?h" "?h < 64" "cw_len ?c = 2" "?c \<noteq> 0x2e" "drop_bit 5 ?c = 1" "bit ?c 4" "drop_bit 3 ?c \<notin> {1, 2, 3}"
      "drop_bit 2 ?c \<noteq> 0" "bit ?c 0 = (inc \<noteq> 0)" "drop_bit 1 ?c AND 7 = word_of_int ?q"
    using t by - (elim conjE, assumption)+
  have cmd: "readcmd inc len = Inr (map sixchar [?h, ?r])"
  proof -
    have "charencs [?h, ?r] = Inr (map sixchar [?h, ?r])" using t(1,2) by (intro charencs_ok) simp
    moreover have "(if inc \<noteq> 0 then 1 else 0) = inc" using assms(3) by auto
    ultimately show ?thesis using assms(1,2) by (simp add: readcmd_def Let_def long_length_parts [OF m])
  qed
  have n: "9 + unat (push_bit 6 (word_of_int ?q) OR word_of_int ?r :: u32) = nat len"
    using long_length_joined [OF m] assms(1) by simp
  have "board_run b (map sixchar [?h, ?r]) = board_exec (map word_of_int [?h, ?r]) b"
    using t(1-3) assms(4) by (intro board_run_codeword) simp_all
  moreover obtain x where "board_exec [?c, word_of_int ?r] b = (scratch x b)\<lparr>bus_reads := bus_reads b @ [(wb_addr b, nat len, inc \<noteq> 0)],
      wb_addr := wb_addr b + (if inc \<noteq> 0 then of_nat (nat len) else 0)\<rparr>"
    using board_exec_read [OF t(5,7,8,4), of "nat len" "[word_of_int ?r]" b] t(6,9,10) n by auto
  ultimately have "read_done inc b (nat len) (map sixchar [?h, ?r])"
    unfolding read_done_def by (intro exI [of _ x] exI [of _ "[(wb_addr b, nat len, inc \<noteq> 0)]"]) simp
  then show ?thesis using cmd by auto
qed

lemma readcmd_board:
  assumes "1 \<le> len" "len \<le> 512" "\<not> (inc = 0 \<and> len = 8)" "inc = 0 \<or> inc = 1" "cw b = []"
  shows "\<exists>cs. readcmd inc len = Inr cs \<and> length cs \<le> 2 \<and> read_done inc b (nat len) cs"
proof (cases "len \<le> 8")
  case True
  then show ?thesis using readcmd_short [OF assms(1) True assms(3-5)] by auto
next
  case False
  then show ?thesis using readcmd_long [of len inc b] assms by auto
qed

lemma read_done_append:
  assumes "read_done inc b m cs" "read_done inc (board_run b cs) n ds"
  shows "read_done inc b (m + n) (cs @ ds)"
proof -
  obtain x rs where 1: "board_run b cs = (scratch x b)\<lparr>bus_reads := bus_reads b @ rs,
       wb_addr := wb_addr b + (if inc \<noteq> 0 then of_nat m else 0)\<rparr>" "words_read rs = read_seq (wb_addr b) (inc \<noteq> 0) m"
    using assms(1) by (auto simp: read_done_def)
  obtain y ts where 2: "board_run (board_run b cs) ds = (scratch y (board_run b cs))\<lparr>bus_reads := bus_reads (board_run b cs) @ ts,
       wb_addr := wb_addr (board_run b cs) + (if inc \<noteq> 0 then of_nat n else 0)\<rparr>"
      "words_read ts = read_seq (wb_addr (board_run b cs)) (inc \<noteq> 0) n"
    using assms(2) by (auto simp: read_done_def)
  have "board_run b (cs @ ds) = (scratch y b)\<lparr>bus_reads := bus_reads b @ (rs @ ts),
       wb_addr := wb_addr b + (if inc \<noteq> 0 then of_nat (m + n) else 0)\<rparr>"
    by (simp only: board_run_simps 2(1)) (simp add: 1(1) scratch_def add.assoc)
  moreover have "words_read (rs @ ts) = read_seq (wb_addr b) (inc \<noteq> 0) (m + n)"
    using 1 2(2) by (simp add: read_seq_append)
  ultimately show ?thesis unfolding read_done_def by blast
qed

lemma read_done_frame:
  assumes "read_done inc b n cs"
  shows "cw (board_run b cs) = cw b" "bus_writes (board_run b cs) = bus_writes b"
    "wb_addr (board_run b cs) = wb_addr b + (if inc \<noteq> 0 then of_nat n else 0)"
    "tbl_sync s b \<Longrightarrow> tbl_sync s (board_run b cs)"
    "\<exists>rs. bus_reads (board_run b cs) = bus_reads b @ rs \<and> words_read rs = read_seq (wb_addr b) (inc \<noteq> 0) n"
proof -
  obtain x rs where r: "board_run b cs = (scratch x b)\<lparr>bus_reads := bus_reads b @ rs,
       wb_addr := wb_addr b + (if inc \<noteq> 0 then of_nat n else 0)\<rparr>" "words_read rs = read_seq (wb_addr b) (inc \<noteq> 0) n"
    using assms by (auto simp: read_done_def)
  then show "cw (board_run b cs) = cw b" "bus_writes (board_run b cs) = bus_writes b"
    "wb_addr (board_run b cs) = wb_addr b + (if inc \<noteq> 0 then of_nat n else 0)" by simp_all
  show "\<exists>rs. bus_reads (board_run b cs) = bus_reads b @ rs \<and> words_read rs = read_seq (wb_addr b) (inc \<noteq> 0) n"
    using r by auto
  show "tbl_sync s (board_run b cs)" if "tbl_sync s b"
    using scratch_frame(5) [OF that, of x] unfolding r(1) by (simp add: tbl_sync_def)
qed

text \<open>
  The blocks: 512 words each but the last, and never more than two of them ahead of the answers.  Between two
  rounds of the loop the commands are one block ahead.
\<close>

definition ahead :: "int \<Rightarrow> int \<Rightarrow> int \<Rightarrow> bool" where
  "ahead len cmdrd nread \<longleftrightarrow> 0 \<le> nread \<and> nread \<le> cmdrd \<and> cmdrd - nread \<le> 512 \<and> cmdrd mod 512 = 0 \<and> nread mod 512 = 0 \<and> cmdrd < len"

lemma next_nrd_block:
  assumes "ahead len cmdrd nread"
  shows "next_nrd len cmdrd nread = min 512 (len - cmdrd)"
  using assms by (auto simp: next_nrd_def ahead_def READBLOCK_def READAHEAD_def MAXRDLEN_def Let_def)

lemma ahead_gap: "ahead len cmdrd nread \<Longrightarrow> cmdrd = nread \<or> cmdrd = nread + 512"
proof -
  assume h: "ahead len cmdrd nread"
  then obtain x y where "cmdrd = 512 * x" "nread = 512 * y" by (auto simp: ahead_def elim!: dvdE)
  with h show ?thesis by (auto simp: ahead_def)
qed

lemma read_cmds_board:
  assumes "ahead len cmdrd nread" "\<not> (inc = 0 \<and> len mod 512 = 8)" "inc = 0 \<or> inc = 1" "cw (board_run b out) = []"
  shows "\<exists>cs c. read_cmds inc len nread cmdrd out = Inr (out @ cs, c) \<and> length cs \<le> (if cmdrd = nread then 4 else 2)
    \<and> cmdrd < c \<and> (c = len \<and> len \<le> nread + 1024 \<or> c = nread + 1024 \<and> c < len) \<and> read_done inc (board_run b out) (nat (c - cmdrd)) cs"
  using assms
proof (induction inc len nread cmdrd out rule: read_cmds.induct)
  case (1 inc len nread cmdrd out)
  let ?n = "min 512 (len - cmdrd)"
  note nrd = next_nrd_block [OF "1.prems"(1)]
  have n: "1 \<le> ?n" "?n \<le> 512" "\<not> (inc = 0 \<and> ?n = 8)"
  proof -
    have "cmdrd < len" "cmdrd mod 512 = 0" using "1.prems"(1) by (simp_all add: ahead_def)
    moreover from this have "len mod 512 = 8" if "?n = 8"
    proof -
      have "len = cmdrd + 8" using that by (simp add: min_def split: if_splits)
      then show ?thesis using \<open>cmdrd mod 512 = 0\<close> by (simp add: mod_add_left_eq [symmetric])
    qed
    ultimately show "1 \<le> ?n" "?n \<le> 512" "\<not> (inc = 0 \<and> ?n = 8)" using "1.prems"(2) by auto
  qed
  from readcmd_board [OF n "1.prems"(3,4)] obtain cs where
    cs: "readcmd inc ?n = Inr cs" "length cs \<le> 2" "read_done inc (board_run b out) (nat ?n) cs" by blast
  show ?case
  proof (cases "cmdrd + ?n - nread < READAHEAD + READBLOCK \<and> cmdrd + ?n < len")
    case True
    then have eq: "cmdrd = nread" "?n = 512" using ahead_gap [OF "1.prems"(1)]
      by (auto simp: READBLOCK_def READAHEAD_def MAXRDLEN_def)
    then have "ahead len (cmdrd + ?n) nread" using "1.prems"(1) True by (auto simp: ahead_def)
    moreover have "cw (board_run b (out @ cs)) = []" using read_done_frame(1) [OF cs(3)] "1.prems"(4) by simp
    ultimately obtain ds c where ih: "read_cmds inc len nread (cmdrd + ?n) (out @ cs) = Inr ((out @ cs) @ ds, c)"
        "length ds \<le> 2" "cmdrd + ?n < c" "c = len \<and> len \<le> nread + 1024 \<or> c = nread + 1024 \<and> c < len"
        "read_done inc (board_run b (out @ cs)) (nat (c - (cmdrd + ?n))) ds"
      using "1.IH" [OF nrd [symmetric] cs(1)] True "1.prems"(2,3) eq by auto
    have "read_done inc (board_run b out) (nat ?n + nat (c - (cmdrd + ?n))) (cs @ ds)"
      using read_done_append [OF cs(3)] ih(5) by simp
    moreover have "nat ?n + nat (c - (cmdrd + ?n)) = nat (c - cmdrd)" using ih(3) n(1) by linarith
    moreover have "read_cmds inc len nread cmdrd out = Inr (out @ (cs @ ds), c)"
      using ih(1) True cs(1) by (subst read_cmds.simps) (simp add: nrd Let_def)
    ultimately show ?thesis using ih(2-4) cs(2) eq by (intro exI [of _ "cs @ ds"] exI [of _ c]) auto
  next
    case False
    then have "read_cmds inc len nread cmdrd out = Inr (out @ cs, cmdrd + ?n)"
      using cs(1) by (subst read_cmds.simps) (auto simp: nrd Let_def)
    moreover have "cmdrd + ?n = len \<and> len \<le> nread + 1024 \<or> cmdrd + ?n = nread + 1024 \<and> cmdrd + ?n < len"
      using False ahead_gap [OF "1.prems"(1)] n by (auto simp: READBLOCK_def READAHEAD_def MAXRDLEN_def min_def split: if_splits)
    ultimately show ?thesis using cs(2,3) n(1) by (intro exI [of _ cs] exI [of _ "cmdrd + ?n"]) auto
  qed
qed

section \<open>The answers\<close>

text \<open>The answer to each word: what precedes it, the word, and whether the address moves on.\<close>

type_synonym answer = "control list \<times> rdata \<times> bool"

fun answer_chars :: "answer list \<Rightarrow> u8 list" where
  "answer_chars [] = []"
| "answer_chars ((ctl, d, i) # as) = concat (map control_chars ctl) @ map sixchar (data_codes d i) @ answer_chars as"

fun answers_ok :: "answer list \<Rightarrow> u32 list \<Rightarrow> bool" where
  "answers_ok [] hist = True"
| "answers_ok ((ctl, d, i) # as) hist = (list_all control_ok ctl \<and> data_ok d hist \<and> answers_ok as (data_hist d hist))"

fun answer_values :: "answer list \<Rightarrow> u32 list \<Rightarrow> u32 list" where
  "answer_values [] hist = []"
| "answer_values ((ctl, d, i) # as) hist = data_value d hist # answer_values as (data_hist d hist)"

fun answers_hist :: "answer list \<Rightarrow> u32 list \<Rightarrow> u32 list" where
  "answers_hist [] hist = hist"
| "answers_hist ((ctl, d, i) # as) hist = answers_hist as (data_hist d hist)"

fun answers_addr :: "answer list \<Rightarrow> u32 \<Rightarrow> u32" where
  "answers_addr [] l = l"
| "answers_addr ((ctl, d, i) # as) l = answers_addr as (fold control_addr ctl l + (if i then 4 else 0))"

lemma answer_values_length [simp]: "length (answer_values as hist) = length as"
  by (induction as hist rule: answer_values.induct) simp_all

lemma answer_append:
  "answer_chars (as @ bs) = answer_chars as @ answer_chars bs"
  "answers_ok (as @ bs) hist = (answers_ok as hist \<and> answers_ok bs (answers_hist as hist))"
  "answer_values (as @ bs) hist = answer_values as hist @ answer_values bs (answers_hist as hist)"
  "answers_hist (as @ bs) hist = answers_hist bs (answers_hist as hist)"
  "answers_addr (as @ bs) l = answers_addr bs (answers_addr as l)"
proof -
  show "answer_chars (as @ bs) = answer_chars as @ answer_chars bs" by (induction as rule: answer_chars.induct) simp_all
  show "answers_ok (as @ bs) hist = (answers_ok as hist \<and> answers_ok bs (answers_hist as hist))"
    by (induction as hist rule: answers_ok.induct) simp_all
  show "answer_values (as @ bs) hist = answer_values as hist @ answer_values bs (answers_hist as hist)"
    by (induction as hist rule: answer_values.induct) simp_all
  show "answers_hist (as @ bs) hist = answers_hist bs (answers_hist as hist)"
    by (induction as hist rule: answers_hist.induct) simp_all
  show "answers_addr (as @ bs) l = answers_addr bs (answers_addr as l)"
    by (induction as l rule: answers_addr.induct) simp_all
qed

text \<open>Reading leaves alone what writing uses.\<close>

definition wr_same :: "ttybus \<Rightarrow> ttybus \<Rightarrow> bool" where
  "wr_same s s' \<longleftrightarrow> m_buflen s' = m_buflen s \<and> m_wraddr s' = m_wraddr s \<and> m_writetbl s' = m_writetbl s \<and> m_wrloaded s' = m_wrloaded s"

lemma wr_same_refl: "wr_same s s"
  by (simp add: wr_same_def)

lemma wr_same_trans: "wr_same s t \<Longrightarrow> wr_same t u \<Longrightarrow> wr_same s u"
  by (simp add: wr_same_def)

lemma wr_same_update [simp]:
  "wr_same s (t\<lparr>m_dev := d\<rparr>) = wr_same s t" "wr_same s (t\<lparr>m_lastaddr := a\<rparr>) = wr_same s t"
  "wr_same s (t\<lparr>m_addr_set := x\<rparr>) = wr_same s t" "wr_same s (t\<lparr>m_interrupt_flag := y\<rparr>) = wr_same s t"
  "wr_same s (t\<lparr>m_rdaddr := r\<rparr>) = wr_same s t" "wr_same s (t\<lparr>m_readtbl := tb\<rparr>) = wr_same s t"
  "wr_same s (t\<lparr>m_total_nread := n\<rparr>) = wr_same s t" "wr_same s (t\<lparr>m_bus_err := z\<rparr>) = wr_same s t"
  by (simp_all add: wr_same_def)

lemma lclreadcode_wr: "lclreadcode n s = Inr (r, s') \<Longrightarrow> wr_same s s'"
  by (auto simp: lclreadcode_def fail_in_def Let_def wr_same_refl split: sum.splits)

lemma read_codes_wr: "read_codes n buf s = Inr (r, s') \<Longrightarrow> wr_same s s'"
proof (induction n buf s arbitrary: r s' rule: read_codes.induct)
  case (1 n buf s)
  obtain bs nr t where l: "lclreadcode (n - length buf) s = Inr ((bs, nr), t)"
    using "1.prems" by (subst (asm) read_codes.simps) (auto split: sum.splits)
  show ?case
  proof (cases "length (buf @ take nr bs) < n")
    case True
    then have "read_codes n (buf @ take nr bs) t = Inr (r, s')"
      using "1.prems" l by (subst (asm) read_codes.simps) (simp add: Let_def)
    then show ?thesis using "1.IH" [OF l refl refl refl True] lclreadcode_wr [OF l] wr_same_trans by blast
  next
    case False
    then show ?thesis using "1.prems" l lclreadcode_wr [OF l] by (subst (asm) read_codes.simps) (simp add: Let_def)
  qed
qed

lemma read_data_wr: "read_data c val s = Inr (r, s') \<Longrightarrow> wr_same s s'"
  by (auto simp: read_data_def Let_def wr_same_refl split: if_splits dest!: read_codes_wr)

lemma read_control_wr: "read_control c s = Inr (r, s') \<Longrightarrow> wr_same s s'"
  by (auto simp: read_control_def read_addr_def status_char_def Let_def wr_same_refl split: if_splits dest!: read_codes_wr)

lemma readword_from_wr: "readword_from val s = Inr (r, s') \<Longrightarrow> wr_same s s'"
proof (induction val s arbitrary: r s' rule: readword_from.induct)
  case (1 val s)
  obtain buf t where t: "read_codes 1 [] s = Inr (buf, t)"
    using "1.prems" by (subst (asm) readword_from.simps) (auto split: sum.splits)
  show ?case
  proof (cases "starts_data (buf ! 0)")
    case True
    then have "read_data (buf ! 0) val t = Inr (r, s')"
      using "1.prems" t by (subst (asm) readword_from.simps) simp
    then show ?thesis using read_codes_wr [OF t] read_data_wr wr_same_trans by blast
  next
    case False
    then obtain v u where u: "read_control (buf ! 0) t = Inr (v, u)"
      using "1.prems" t by (subst (asm) readword_from.simps) (auto split: sum.splits)
    have "wr_same u s'"
    proof (cases v)
      case None
      then have "readword_from val u = Inr (r, s')"
        using "1.prems" t False u by (subst (asm) readword_from.simps) simp
      then show ?thesis using "1.IH"(1) [OF t refl False u refl None] by blast
    next
      case (Some w)
      then have "readword_from w (u\<lparr>m_addr_set := True, m_lastaddr := push_bit 2 w\<rparr>) = Inr (r, s')"
        using "1.prems" t False u by (subst (asm) readword_from.simps) simp
      then have "wr_same (u\<lparr>m_addr_set := True, m_lastaddr := push_bit 2 w\<rparr>) s'"
        using "1.IH"(2) [OF t refl False u refl Some] by blast
      then show ?thesis by (simp add: wr_same_def)
    qed
    then show ?thesis using read_codes_wr [OF t] read_control_wr [OF u] wr_same_trans by blast
  qed
qed

lemma read_words_answers:
  assumes "waiting s (answer_chars as @ rest)" "answers_ok as hist" "read_sync s hist"
  shows "\<exists>s'. read_words a inc (length as) got s = Inr (got @ answer_values as hist, s') \<and> waiting s' rest
    \<and> read_sync s' (answers_hist as hist) \<and> m_lastaddr s' = answers_addr as (m_lastaddr s)
    \<and> ll_tx (m_dev s') = ll_tx (m_dev s) \<and> wr_same s s'"
  using assms
proof (induction as arbitrary: s got hist)
  case Nil
  then show ?case by (simp add: wr_same_refl)
next
  case (Cons x as)
  obtain ctl d i where x: "x = (ctl, d, i)" by (cases x)
  have "waiting s (concat (map control_chars ctl) @ map sixchar (data_codes d i) @ answer_chars as @ rest)"
    and ok: "list_all control_ok ctl" "data_ok d hist" "answers_ok as (data_hist d hist)"
    using Cons.prems(1,2) by (simp_all add: x)
  from tty_readword_decodes [OF this(1-3) Cons.prems(3)] obtain t where
    t: "readword s = Inr (data_value d hist, t)" "waiting t (answer_chars as @ rest)" "read_sync t (data_hist d hist)"
      "m_lastaddr t = fold control_addr ctl (m_lastaddr s) + (if i then 4 else 0)" "ll_tx (m_dev t) = ll_tx (m_dev s)"
    by blast
  have "wr_same s t" using t(1) readword_from_wr by (simp add: readword_def)
  moreover obtain s' where "read_words a inc (length as) (got @ [data_value d hist]) t =
      Inr ((got @ [data_value d hist]) @ answer_values as (data_hist d hist), s')" "waiting s' rest"
      "read_sync s' (answers_hist as (data_hist d hist))" "m_lastaddr s' = answers_addr as (m_lastaddr t)"
      "ll_tx (m_dev s') = ll_tx (m_dev t)" "wr_same t s'"
    using Cons.IH [OF t(2) ok(3) t(3), of "got @ [data_value d hist]"] by blast
  ultimately show ?case using t wr_same_trans [of s t s'] by (simp add: x)
qed

section \<open>A whole read\<close>

lemma read_done_newline: "read_done inc b n cs \<Longrightarrow> cw b = [] \<Longrightarrow> read_done inc b n (cs @ [0x0a])"
  using board_newline [of "board_run b cs"] read_done_frame(1) [of inc b n cs] by (simp add: read_done_def)

definition sent :: "u8 list \<Rightarrow> ttybus \<Rightarrow> ttybus" where
  "sent cs s = s\<lparr>m_dev := (m_dev s)\<lparr>ll_tx := ll_tx (m_dev s) @ cs, ll_total_nwrit := ll_total_nwrit (m_dev s) + length cs\<rparr>\<rparr>"

lemma dev_write_sent: "cs \<noteq> [] \<Longrightarrow> dev_write cs s = Inr ((), sent cs s)"
  by (simp add: dev_write_def ll_write_def sent_def)

lemma sent_frame [simp]:
  "waiting (sent cs s) bs = waiting s bs" "read_sync (sent cs s) h = read_sync s h" "m_lastaddr (sent cs s) = m_lastaddr s"
  "ll_tx (m_dev (sent cs s)) = ll_tx (m_dev s) @ cs" "wr_same t (sent cs s) = wr_same t s" "m_buflen (sent cs s) = m_buflen s"
  by (simp_all add: sent_def waiting_def read_sync_def)

lemma tbl_sync_wr: "wr_same s s' \<Longrightarrow> tbl_sync s' b = tbl_sync s b"
  by (simp add: wr_same_def tbl_sync_def)

text \<open>One round of the loop: the commands, then the answers they leave less than a block ahead.\<close>

lemma readv_round:
  assumes "ahead len cmdrd (int (length got))" "\<not> (inc = 0 \<and> len mod 512 = 8)" "inc = 0 \<or> inc = 1"
    and "cw (board_run b out) = []" "int (length out) + 5 < m_buflen s" "length got + length as = nat len"
    and "waiting s (answer_chars as @ rest)" "answers_ok as hist" "read_sync s hist"
  shows "\<exists>c m cs t. readv_loop a inc len cmdrd got out s = readv_loop a inc len c (got @ answer_values (take m as) hist) [] t
    \<and> cmdrd < c \<and> (c = len \<or> c < len \<and> ahead len c (int (length got + m))) \<and> m \<le> length as
    \<and> read_done inc (board_run b out) (nat (c - cmdrd)) cs \<and> ll_tx (m_dev t) = ll_tx (m_dev s) @ out @ cs
    \<and> waiting t (answer_chars (drop m as) @ rest) \<and> answers_ok (drop m as) (answers_hist (take m as) hist)
    \<and> read_sync t (answers_hist (take m as) hist) \<and> m_lastaddr t = answers_addr (take m as) (m_lastaddr s) \<and> wr_same s t"
proof -
  have lt: "cmdrd < len" using assms(1) by (simp add: ahead_def)
  from read_cmds_board [OF assms(1-4)] obtain cs c where
    cs: "read_cmds inc len (int (length got)) cmdrd out = Inr (out @ cs, c)"
      "length cs \<le> (if cmdrd = int (length got) then 4 else 2)" "cmdrd < c"
      "c = len \<and> len \<le> int (length got) + 1024 \<or> c = int (length got) + 1024 \<and> c < len"
      "read_done inc (board_run b out) (nat (c - cmdrd)) cs" by blast
  have l4: "length cs \<le> 4" using cs(2) by (simp split: if_splits)
  let ?o = "out @ cs @ [0x0a]" and ?m = "nat (c - READAHEAD - int (length got))"
  have m: "?m \<le> length as" using cs(4) assms(6) by (auto simp: READAHEAD_def MAXRDLEN_def)
  have t: "terminate s ?o = Inr ?o" using assms(5) l4 by (simp add: terminate_def)
  have "as = take ?m as @ drop ?m as" by simp
  then have split: "waiting (sent ?o s) (answer_chars (take ?m as) @ answer_chars (drop ?m as) @ rest)"
      "answers_ok (take ?m as) hist" "answers_ok (drop ?m as) (answers_hist (take ?m as) hist)" "read_sync (sent ?o s) hist"
    using assms(7-9) answer_append(1,2) [of "take ?m as" "drop ?m as"] by simp_all
  from read_words_answers [OF split(1,2,4), of a inc got] m obtain t' where
    r: "read_words a inc ?m got (sent ?o s) = Inr (got @ answer_values (take ?m as) hist, t')"
      "waiting t' (answer_chars (drop ?m as) @ rest)" "read_sync t' (answers_hist (take ?m as) hist)"
      "m_lastaddr t' = answers_addr (take ?m as) (m_lastaddr s)" "ll_tx (m_dev t') = ll_tx (m_dev s) @ ?o" "wr_same (sent ?o s) t'"
    by (auto simp: min_absorb2)
  have "readv_loop a inc len cmdrd got out s = readv_loop a inc len c (got @ answer_values (take ?m as) hist) [] t'"
    using lt t r(1) by (subst readv_loop.simps) (simp add: cs(1) dev_write_sent)
  moreover have "c = len \<or> c < len \<and> ahead len c (int (length got + ?m))"
    using cs(3,4) assms(1) by (auto simp: ahead_def READAHEAD_def MAXRDLEN_def)
  moreover have "read_done inc (board_run b out) (nat (c - cmdrd)) (cs @ [0x0a])"
    by (rule read_done_newline [OF cs(5) assms(4)])
  moreover have "wr_same s t'" using r(6) by (simp add: wr_same_def sent_def)
  ultimately show ?thesis using cs(3) m r split(3)
    by (intro exI [of _ c] exI [of _ ?m] exI [of _ "cs @ [0x0a]"] exI [of _ t']) simp
qed

lemma readv_loop_board:
  assumes "ahead len cmdrd (int (length got))" "\<not> (inc = 0 \<and> len mod 512 = 8)" "inc = 0 \<or> inc = 1"
    and "cw (board_run b out) = []" "int (length out) + 5 < m_buflen s" "length got + length as = nat len"
    and "waiting s (answer_chars as @ rest)" "answers_ok as hist" "read_sync s hist"
  shows "\<exists>m cs t. readv_loop a inc len cmdrd got out s = Inr (got @ answer_values (take m as) hist, t) \<and> m \<le> length as
    \<and> read_done inc (board_run b out) (nat (len - cmdrd)) cs \<and> ll_tx (m_dev t) = ll_tx (m_dev s) @ out @ cs
    \<and> waiting t (answer_chars (drop m as) @ rest) \<and> answers_ok (drop m as) (answers_hist (take m as) hist)
    \<and> read_sync t (answers_hist (take m as) hist) \<and> m_lastaddr t = answers_addr (take m as) (m_lastaddr s) \<and> wr_same s t"
  using assms
proof (induction "nat (len - cmdrd)" arbitrary: cmdrd got out s b as hist rule: less_induct)
  case less
  from readv_round [OF less.prems, of a] obtain c m cs t where
    1: "readv_loop a inc len cmdrd got out s = readv_loop a inc len c (got @ answer_values (take m as) hist) [] t"
      "cmdrd < c" "c = len \<or> c < len \<and> ahead len c (int (length got + m))" "m \<le> length as"
      "read_done inc (board_run b out) (nat (c - cmdrd)) cs" "ll_tx (m_dev t) = ll_tx (m_dev s) @ out @ cs"
      "waiting t (answer_chars (drop m as) @ rest)" "answers_ok (drop m as) (answers_hist (take m as) hist)"
      "read_sync t (answers_hist (take m as) hist)" "m_lastaddr t = answers_addr (take m as) (m_lastaddr s)" "wr_same s t"
    by blast
  show ?case
  proof (cases "c < len")
    case False
    then have "readv_loop a inc len cmdrd got out s = Inr (got @ answer_values (take m as) hist, t)"
      unfolding 1(1) by (subst readv_loop.simps) simp
    moreover have "c = len" using 1(3) False by blast
    ultimately show ?thesis using 1 by (intro exI [of _ m] exI [of _ cs] exI [of _ t]) simp
  next
    case True
    let ?got = "got @ answer_values (take m as) hist" and ?b = "board_run b (out @ cs)"
    have "ahead len c (int (length ?got))" using 1(3,4) True by (simp add: min_absorb2)
    moreover have "cw (board_run ?b []) = []" using read_done_frame(1) [OF 1(5)] less.prems(4) by simp
    moreover have "int (length ([] :: u8 list)) + 5 < m_buflen t" using 1(11) less.prems(5) by (simp add: wr_same_def)
    moreover have "length ?got + length (drop m as) = nat len" using 1(4) less.prems(6) by (simp add: min_absorb2)
    moreover have "nat (len - c) < nat (len - cmdrd)" using 1(2) True by linarith
    ultimately obtain n ds u where
      2: "readv_loop a inc len c ?got [] t = Inr (?got @ answer_values (take n (drop m as)) (answers_hist (take m as) hist), u)"
        "n \<le> length (drop m as)" "read_done inc (board_run ?b []) (nat (len - c)) ds" "ll_tx (m_dev u) = ll_tx (m_dev t) @ [] @ ds"
        "waiting u (answer_chars (drop n (drop m as)) @ rest)"
        "answers_ok (drop n (drop m as)) (answers_hist (take n (drop m as)) (answers_hist (take m as) hist))"
        "read_sync u (answers_hist (take n (drop m as)) (answers_hist (take m as) hist))"
        "m_lastaddr u = answers_addr (take n (drop m as)) (m_lastaddr t)" "wr_same t u"
      using less.hyps [of c ?got ?b "[]" t "drop m as" "answers_hist (take m as) hist"] less.prems(2,3) 1(7-9) by blast
    have tk: "take (m + n) as = take m as @ take n (drop m as)" by (simp add: take_add)
    have "read_done inc (board_run b out) (nat (c - cmdrd) + nat (len - c)) (cs @ ds)"
      using read_done_append [OF 1(5)] 2(3) by simp
    moreover have "nat (c - cmdrd) + nat (len - c) = nat (len - cmdrd)" using 1(2) True by linarith
    ultimately show ?thesis
      using 1(1,4,6,10) 2(1,2,4-8) wr_same_trans [OF 1(11) 2(9)]
      by (intro exI [of _ "m + n"] exI [of _ "cs @ ds"] exI [of _ u]) (simp add: tk answer_append add.commute)
  qed
qed

text \<open>A read of one block: the loop sends the command, and reads nothing yet.\<close>

lemma readv_loop_small:
  assumes "0 < len" "len < 512" "\<not> (inc = 0 \<and> len = 8)" "inc = 0 \<or> inc = 1"
    and "cw (board_run b out) = []" "int (length out) + 5 < m_buflen s"
  shows "\<exists>cs. readv_loop a inc len 0 [] out s = Inr ([], sent cs s)"
proof -
  have ah: "ahead len 0 0" "\<not> (inc = 0 \<and> len mod 512 = 8)" using assms(1-3) by (auto simp: ahead_def)
  then obtain cs where cs: "read_cmds inc len 0 0 out = Inr (out @ cs, len)" "length cs \<le> 4"
    using read_cmds_board [OF ah assms(4,5)] assms(2) by force
  let ?o = "out @ cs @ [0x0a]"
  have "terminate s ?o = Inr ?o" using assms(6) cs(2) by (simp add: terminate_def)
  moreover have "nat (len - READAHEAD - 0) = 0" using assms(2) by (simp add: READAHEAD_def MAXRDLEN_def)
  ultimately have "readv_loop a inc len 0 [] out s = readv_loop a inc len len [] [] (sent ?o s)"
    using assms(1) cs(1) by (subst readv_loop.simps) (simp add: dev_write_sent)
  then show ?thesis by (subst (asm) (2) readv_loop.simps) auto
qed

text \<open>The values that the board may refer back to: those since the address was last sent.\<close>

definition refer_back :: "u32 \<Rightarrow> ttybus \<Rightarrow> u32 list \<Rightarrow> u32 list" where
  "refer_back a s hist = (if m_addr_set s \<and> a = m_lastaddr s then hist else [])"

definition read_end :: "u32 \<Rightarrow> int \<Rightarrow> nat \<Rightarrow> u32" where
  "read_end a inc n = a + (if inc \<noteq> 0 then 4 * of_nat n else 0)"

lemma read_end_sync:
  assumes "a AND 3 = 0" "unat a + 4 * n < 2 ^ 32"
  shows "read_end a inc n AND 3 = 0" "drop_bit 2 (read_end a inc n) = drop_bit 2 a + (if inc \<noteq> 0 then of_nat n else 0)"
  using assms aligned_add [of a "of_nat n"] word_addr_add [of a n] by (simp_all add: read_end_def)

lemma encode_address_keeps:
  assumes "encode_address a s = Inr (cs, s')" "read_sync s hist"
  shows "read_sync s' (refer_back a s hist)" "m_lastaddr s' = m_lastaddr s" "m_dev s' = m_dev s" "m_buflen s' = m_buflen s"
proof -
  have "read_sync (s\<lparr>m_rdaddr := 0\<rparr>) []" using assms(2) by (simp add: read_sync_def)
  then show "read_sync s' (refer_back a s hist)"
    using assms by (auto simp: encode_address_def refer_back_def split: if_splits)
  show "m_lastaddr s' = m_lastaddr s" "m_dev s' = m_dev s" "m_buflen s' = m_buflen s"
    using assms(1) by (auto simp: encode_address_def split: if_splits)
qed

lemma readv_answered:
  assumes "tbl_sync s b" "addr_sync s b" "read_sync s hist" "11 < m_buflen s" "a AND 3 = 0" "inc = 0 \<or> inc = 1"
    and "answers \<noteq> []" "\<not> (inc = 0 \<and> length answers mod 512 = 8)" "unat a + 4 * length answers < 2 ^ 32"
    and "waiting s (answer_chars answers @ rest)" "answers_ok answers (refer_back a s hist)"
    and "answers_addr answers (m_lastaddr s) = read_end a inc (length answers)"
  shows "\<exists>cs rs s'. readv a inc (int (length answers)) s = Inr (answer_values answers (refer_back a s hist), s')
    \<and> ll_tx (m_dev s') = ll_tx (m_dev s) @ cs
    \<and> bus_reads (board_run b cs) = bus_reads b @ rs \<and> words_read rs = read_seq (drop_bit 2 a) (inc \<noteq> 0) (length answers)
    \<and> bus_writes (board_run b cs) = bus_writes b \<and> waiting s' rest
    \<and> read_sync s' (answers_hist answers (refer_back a s hist)) \<and> m_lastaddr s' = read_end a inc (length answers)
    \<and> m_buflen s' = m_buflen s \<and> tbl_sync s' (board_run b cs) \<and> addr_sync s' (board_run b cs)"
proof -
  let ?n = "length answers" and ?h = "refer_back a s hist"
  have "6 < m_buflen s" using assms(4) by simp
  from encode_address_board [OF assms(1,2,5) this] obtain cs1 s1 where
    1: "encode_address a s = Inr (cs1, s1)" "length cs1 \<le> 6" "same_link s s1" "tbl_sync s1 (board_run b cs1)"
      "cw (board_run b cs1) = []" "wb_addr (board_run b cs1) = drop_bit 2 a"
      "bus_writes (board_run b cs1) = bus_writes b" "bus_reads (board_run b cs1) = bus_reads b" by blast
  note keep = encode_address_keeps [OF 1(1) assms(3)]
  have s1: "waiting s1 (answer_chars answers @ rest)" "ll_tx (m_dev s1) = ll_tx (m_dev s)" "11 < m_buflen s1"
    using assms(4,10) unfolding waiting_def keep(3,4) by simp_all
  have "ahead (int ?n) 0 (int (length ([] :: u32 list)))" using assms(7) by (simp add: ahead_def)
  moreover have "\<not> (inc = 0 \<and> int ?n mod 512 = 8)"
  proof -
    have "int ?n mod 512 = int (?n mod 512)" by (simp add: zmod_int)
    then show ?thesis using assms(8) by simp
  qed
  moreover have "int (length cs1) + 5 < m_buflen s1" using 1(2) s1(3) by simp
  moreover have "length ([] :: u32 list) + ?n = nat (int ?n)" by simp
  ultimately obtain m cs2 t where
    2: "readv_loop a inc (int ?n) 0 [] cs1 s1 = Inr ([] @ answer_values (take m answers) ?h, t)" "m \<le> ?n"
      "read_done inc (board_run b cs1) (nat (int ?n - 0)) cs2" "ll_tx (m_dev t) = ll_tx (m_dev s1) @ cs1 @ cs2"
      "waiting t (answer_chars (drop m answers) @ rest)" "answers_ok (drop m answers) (answers_hist (take m answers) ?h)"
      "read_sync t (answers_hist (take m answers) ?h)" "m_lastaddr t = answers_addr (take m answers) (m_lastaddr s1)" "wr_same s1 t"
    using readv_loop_board [OF _ _ assms(6) 1(5) _ _ s1(1) assms(11) keep(1)] by blast
  let ?got = "answer_values (take m answers) ?h"
  from read_words_answers [OF 2(5-7), of a inc ?got] obtain u where
    3: "read_words a inc (length (drop m answers)) ?got t =
        Inr (?got @ answer_values (drop m answers) (answers_hist (take m answers) ?h), u)" "waiting u rest"
      "read_sync u (answers_hist (drop m answers) (answers_hist (take m answers) ?h))"
      "m_lastaddr u = answers_addr (drop m answers) (m_lastaddr t)" "ll_tx (m_dev u) = ll_tx (m_dev t)" "wr_same t u" by blast
  note whole = answer_append [of "take m answers" "drop m answers", unfolded append_take_drop_id]
  have last: "m_lastaddr u = read_end a inc ?n" using 3(4) 2(8) whole(5) keep(2) assms(12) by simp
  have len: "nat (int ?n) - length ?got = length (drop m answers)" using 2(2) by (simp add: min_absorb2)
  have r: "read_words a inc (nat (int ?n) - length ?got) ?got t = Inr (answer_values answers ?h, u)"
    unfolding len whole(3) by (rule 3(1))
  have e: "m_lastaddr u = a + (if inc \<noteq> 0 then push_bit 2 (word_of_int (int ?n)) else 0)"
    unfolding last read_end_def by (simp add: push_bit_eq_mult mult.commute)
  have "\<not> int ?n \<le> 0" using assms(7) by simp
  then have readv: "readv a inc (int ?n) s = Inr (answer_values answers ?h, u)"
    unfolding readv_def by (simp only: 1(1) 2(1) rbind_simps prod.case append_Nil r e if_False simp_thms)
  note fin = read_done_frame [OF 2(3)]
  let ?b = "board_run b (cs1 @ cs2)"
  obtain rs where rs: "bus_reads ?b = bus_reads b @ rs" "words_read rs = read_seq (drop_bit 2 a) (inc \<noteq> 0) ?n"
    using fin(5) 1(6,8) by auto
  have "tbl_sync u ?b" using fin(4) [OF 1(4)] tbl_sync_wr [OF 2(9)] tbl_sync_wr [OF 3(6)] by simp
  moreover have "addr_sync u ?b"
    using last fin(1,3) 1(5,6) read_end_sync [OF assms(5,9), of inc] by (simp add: addr_sync_def)
  moreover have "ll_tx (m_dev u) = ll_tx (m_dev s) @ (cs1 @ cs2)" using 3(5) 2(4) s1(2) by simp
  moreover have "m_buflen u = m_buflen s" using 2(9) 3(6) keep(4) by (simp add: wr_same_def)
  ultimately show ?thesis
    using readv rs fin(2) 1(7) 3(2,3) last whole(4)
    by (intro exI [of _ "cs1 @ cs2"] exI [of _ rs] exI [of _ u]) simp
qed

text \<open>
  C6: the bus reads what it is told to.  With host and board in step, a vector read of any number of words, with
  (\<open>readi\<close>) or without (\<open>readz\<close>) incrementing the address, sends characters on which the board performs
  reads of exactly those words, in order, however they are cut into blocks; and if the stream holds an answer
  to each, whatever bursts, notices and compression it comes in, the operation returns the values the board sent,
  leaves what follows in the stream, and host and board are in step again.  The block of eight words at a fixed address is the
  exception.
\<close>

theorem tty_reads_board:
  assumes "tbl_sync s b" "addr_sync s b" "read_sync s hist" "11 < m_buflen s" "a AND 3 = 0"
    and "answers \<noteq> []" "step \<or> length answers mod 512 \<noteq> 8" "unat a + 4 * length answers < 2 ^ 32"
    and "waiting s (answer_chars answers @ rest)" "answers_ok answers (refer_back a s hist)"
    and "answers_addr answers (m_lastaddr s) = read_end a (of_bool step) (length answers)"
  shows "\<exists>cs rs s'. (if step then readi else readz) a (int (length answers)) s
        = Inr (answer_values answers (refer_back a s hist), s')
    \<and> ll_tx (m_dev s') = ll_tx (m_dev s) @ cs
    \<and> bus_reads (board_run b cs) = bus_reads b @ rs \<and> words_read rs = read_seq (drop_bit 2 a) step (length answers)
    \<and> bus_writes (board_run b cs) = bus_writes b \<and> waiting s' rest
    \<and> read_sync s' (answers_hist answers (refer_back a s hist))
    \<and> tbl_sync s' (board_run b cs) \<and> addr_sync s' (board_run b cs)"
  using readv_answered [OF assms(1-5) _ assms(6) _ assms(8-11)] assms(7)
  by (cases step) (force simp: readi_def readz_def)+

text \<open>
  Two words from \<open>0x1000\<close>: a newline, the address, a value in full; then, in another burst, a reference to it.
\<close>

definition tty_answers :: "answer list" where
  "tty_answers = [([Noise 0x0a, Address 0x400], Raw 0x12345678, True), ([Status 0], Last, True)]"

definition tty_hears :: "u8 list \<Rightarrow> ttybus" where
  "tty_hears cs = ttybus_new \<lparr>ll_rx = [Burst (take 9 cs), Pause, Burst (drop 9 cs)], ll_tx = [],
     ll_total_nread = 0, ll_total_nwrit = 0\<rparr> 0 (replicate 1024 0) (replicate 256 0)"

lemma tty_hears_sync: "tbl_sync (tty_hears cs) board_example" "addr_sync (tty_hears cs) board_example"
    "read_sync (tty_hears cs) []" "11 < m_buflen (tty_hears cs)" "waiting (tty_hears cs) cs"
    "refer_back a (tty_hears cs) hist = []" "m_lastaddr (tty_hears cs) = 0"
  by (simp_all add: tbl_sync_def addr_sync_def read_sync_def waiting_def refer_back_def tty_hears_def board_example_def
      ttybus_new_def bufalloc_def Let_def)

theorem tty_reads_board_witness:
  "\<exists>cs s'. readi 0x1000 2 (tty_hears (answer_chars tty_answers)) = Inr ([0x12345678, 0x12345678], s')
    \<and> words_read (bus_reads (board_run board_example cs)) = [0x400, 0x401]"
proof -
  have "\<not> code_char 0x0a" by code_simp
  then have "answers_ok tty_answers []" by (simp add: tty_answers_def)
  then show ?thesis
    using tty_reads_board [OF tty_hears_sync(1-4), of "0x1000" tty_answers True "answer_chars tty_answers" "[]"]
      tty_hears_sync(5) [of "answer_chars tty_answers"]
    by (auto simp: tty_hears_sync(6,7) tty_answers_def read_end_def read_seq_def board_example_def)
qed

section \<open>The block that is lost\<close>

text \<open>The command for eight words at a fixed address is the end-of-write mark, which the board does not act upon.\<close>

lemma board_eight:
  assumes "cw b = []"
  shows "\<exists>x. board_run b [sixchar 0x2e] = scratch x b"
proof -
  have "board_run b (map sixchar [0x2e]) = board_exec (map word_of_int [0x2e]) b"
    using assms by (intro board_run_codeword) (simp_all add: cw_len_def)
  also have "\<dots> = scratch (join (drop_bit 1 0x2e AND 3) []) b"
    by (simp add: board_exec_def Let_def scratch_def)
  finally show ?thesis by auto
qed

lemma read_cmds_eight: "read_cmds 0 8 0 0 out = Inr (out @ [sixchar 0x2e], 8)"
proof -
  have "charencs [0x2e] = Inr [sixchar 0x2e]" using charencs_ok [of "[0x2e]"] by simp
  then show ?thesis
    by (subst read_cmds.simps) (simp add: next_nrd_def READBLOCK_def READAHEAD_def MAXRDLEN_def Let_def readcmd_def)
qed

lemma quiet_blocks: "quiet s \<Longrightarrow> readword s = Inl (Blocked, s)"
proof -
  assume q: "quiet s"
  have "ll_take n es = Inl Blocked" if "\<forall>e \<in> set es. e = Pause" for n es
    using that by (induction n es rule: ll_take.induct) auto
  then have "lclreadcode 1 s = Inl (Blocked, s)" using q by (simp add: lclreadcode_def ll_read_def quiet_def)
  then have "read_codes 1 [] s = Inl (Blocked, s)" by (subst read_codes.simps) simp
  then show ?thesis unfolding readword_def by (subst readword_from.simps) simp
qed

text \<open>
  C35: a read of eight words at a fixed address is lost.  The command for it, \<open>0x2e\<close>, is the code that the board takes
  for the end of a write: host and board in step, the characters sent make the board read nothing, and if nothing but
  silence comes the host waits for ever.
\<close>

theorem tty_readz_eight_lost:
  assumes "tbl_sync s b" "addr_sync s b" "11 < m_buflen s" "a AND 3 = 0" "quiet s"
  shows "\<exists>cs s'. readz a 8 s = Inl (Blocked, s') \<and> ll_tx (m_dev s') = ll_tx (m_dev s) @ cs
    \<and> bus_reads (board_run b cs) = bus_reads b \<and> bus_writes (board_run b cs) = bus_writes b"
proof -
  have "6 < m_buflen s" using assms(3) by simp
  from encode_address_board [OF assms(1,2,4) this] obtain cs1 s1 where
    1: "encode_address a s = Inr (cs1, s1)" "length cs1 \<le> 6" "same_link s s1"
      "cw (board_run b cs1) = []" "bus_writes (board_run b cs1) = bus_writes b" "bus_reads (board_run b cs1) = bus_reads b"
    by blast
  obtain x where x: "board_run (board_run b cs1) [sixchar 0x2e] = scratch x (board_run b cs1)" using board_eight [OF 1(4)] by blast
  let ?o = "cs1 @ [sixchar 0x2e, 0x0a]" and ?t = "sent (cs1 @ [sixchar 0x2e, 0x0a]) s1"
  have q: "quiet ?t" using assms(5) 1(3) by (simp add: quiet_def sent_def same_link_def)
  have "terminate s1 ?o = Inr ?o" using 1(2,3) assms(3) by (simp add: terminate_def same_link_def)
  then have "readv_loop a 0 8 0 [] cs1 s1 = readv_loop a 0 8 8 [] [] ?t"
    by (subst readv_loop.simps) (simp add: read_cmds_eight dev_write_sent READAHEAD_def MAXRDLEN_def)
  also have "\<dots> = Inr ([], ?t)" by (subst readv_loop.simps) simp
  finally have "readv a 0 8 s = Inl (Blocked, ?t)"
    using 1(1) quiet_blocks [OF q] by (simp add: readv_def numeral_eq_Suc)
  moreover have "board_run b ?o = scratch x (board_run b cs1)"
    using x board_newline [of "scratch x (board_run b cs1)"] 1(4) by simp
  ultimately show ?thesis using 1(3,5,6)
    by (intro exI [of _ ?o] exI [of _ ?t]) (simp add: readz_def same_link_def)
qed

theorem tty_readz_eight_lost_witness:
  "\<exists>cs s'. readz 0x1000 8 tty_example = Inl (Blocked, s') \<and> ll_tx (m_dev s') = cs
    \<and> words_read (bus_reads (board_run board_example cs)) = []"
proof -
  have "tbl_sync tty_example board_example" "addr_sync tty_example board_example" "11 < m_buflen tty_example" "quiet tty_example"
    by (simp_all add: tbl_sync_def addr_sync_def quiet_def tty_example_def board_example_def ttybus_new_def bufalloc_def Let_def)
  from tty_readz_eight_lost [OF this(1-3) _ this(4), of "0x1000"] show ?thesis
    by (auto simp: board_example_def tty_example_def ttybus_new_def bufalloc_def Let_def)
qed

end
