(* ===== verification/ScopeProps.thy ===== *)
theory ScopeProps
  imports ScopeList TtyReadv
begin

text \<open>
  The scope reader on the debugging bus: what \<open>print\<close> lists, what a failed read leaves, the times and
  the trigger in the waveform file.
\<close>

section \<open>Reading and listing\<close>

lemma scope_length:
  assumes "k < 31"
  shows "unat (2 ^ k :: u32) = 2 ^ k" "sint (2 ^ k :: u32) = 2 ^ k" "(2 ^ k :: u32) \<noteq> 0"
proof -
  show u: "unat (2 ^ k :: u32) = 2 ^ k" using unat_push_one [of k] assms by simp
  then have "uint (2 ^ k :: u32) = 2 ^ k" using uint_nat [of "2 ^ k :: u32"] by simp
  moreover have "(2::int) ^ k < 2 ^ 31" using assms by (intro power_strict_increasing) simp_all
  moreover have "- (2 ^ 31) \<le> (2::int) ^ k" by (rule order_trans [of _ 0]) simp_all
  ultimately show "sint (2 ^ k :: u32) = 2 ^ k" by (simp add: sint_uint signed_take_bit_int_eq_self)
  show "(2 ^ k :: u32) \<noteq> 0" using u by (metis power_not_zero unat_0 zero_neq_numeral)
qed

definition scope_read :: "u32 \<Rightarrow> u32 list \<Rightarrow> scope \<Rightarrow> scope" where
  "scope_read v d s = s\<lparr>m_scoplen := 2 ^ scope_lgln v, m_holdoff := v AND 0xfffff, m_data := Some d\<rparr>"

lemma scope_read_simps [simp]:
  "m_scoplen (scope_read v d s) = 2 ^ scope_lgln v" "m_holdoff (scope_read v d s) = v AND 0xfffff"
  "m_data (scope_read v d s) = Some d" "m_compressed (scope_read v d s) = m_compressed s"
  by (simp_all add: scope_read_def)

lemma large_scope: "3 \<le> k \<Longrightarrow> \<not> (2::int) ^ k \<le> 4"
  using power_increasing [of 3 k "2 :: int"] by simp

text \<open>The first \<open>rawread\<close> of an object that trusts vector reads.\<close>

lemma rawread_fresh:
  assumes "m_data s = None" "m_scoplen s = 0" "m_vector_read s" "3 \<le> scope_lgln v" "scope_lgln v < 31"
    and "sb_readio B (m_addr s) b = Inr (v, b1)"
  shows "rawread B junk s b =
    (case sb_readz B (m_addr s + 4) (2 ^ scope_lgln v) b1 of
       Inl (e, b2) \<Rightarrow> Inl (Bus_exception e, scope_read v (map junk [0..<2 ^ scope_lgln v]) s, b2)
     | Inr (ws, b2) \<Rightarrow> Inr ([], scope_read v ws s, b2))"
  using assms scope_length [OF assms(5)] large_scope [OF assms(4)]
  by (auto simp: rawread_def scoplen_def read_word_def scope_read_def Let_def split: sum.splits)

lemma words_of_read:
  assumes "scope_lgln v < 31" "length d = 2 ^ scope_lgln v"
  shows "scope_words (scope_read v d s) = Inr d"
  using assms scope_length [OF assms(1)] by (simp add: scope_words_def Let_def nat_power_eq)

lemma print_of_read:
  assumes "scope_lgln v < 31" "length d = 2 ^ scope_lgln v" "\<not> m_compressed s"
  shows "scope_print B junk decode (scope_read v d s) b =
    Inr (concat (map (line_text 9 decode) (print_lines False (2 ^ scope_lgln v - (v AND 0xfffff) - 1) d)), scope_read v d s, b)"
  using words_of_read [OF assms(1,2), of s] assms(3)
  by (simp add: scope_print_def rawread_def getaddresslen_def lift_fault_def Let_def)

text \<open>The index of the trigger: as many samples before the last as the holdoff says.\<close>

lemma trigger_index:
  assumes "k < 31" "i < 2 ^ k"
  shows "of_nat i = (2 ^ k - (v AND 0xfffff) - 1 :: u32) \<longleftrightarrow> int i = 2 ^ k - uint (v AND 0xfffff) - 1"
proof -
  let ?h = "uint (v AND 0xfffff)" and ?t = "2 ^ k - uint (v AND 0xfffff) - 1 :: int"
  have "v AND 0xfffff \<le> 0xfffff" by (rule word_and_le1)
  then have h: "0 \<le> ?h" "?h \<le> 0xfffff" by (simp_all add: word_le_def)
  have k: "(2::int) ^ k \<le> 2 ^ 30" using assms(1) by (intro power_increasing) simp_all
  have i: "int i < 2 ^ k" using assms(2) by (metis of_nat_less_iff of_nat_numeral of_nat_power)
  have "(2 ^ k - (v AND 0xfffff) - 1 :: u32) = word_of_int ?t" by simp
  moreover have "of_nat i = (word_of_int (int i) :: u32)" by simp
  ultimately have "of_nat i = (2 ^ k - (v AND 0xfffff) - 1 :: u32) \<longleftrightarrow> (word_of_int (int i) :: u32) = word_of_int ?t"
    by simp
  also have "\<dots> \<longleftrightarrow> int i mod 2 ^ 32 = ?t mod 2 ^ 32" by (simp only: word_of_int_eq_iff take_bit_eq_mod len_num0 len_num1 len_bit0) simp
  also have "\<dots> \<longleftrightarrow> 2 ^ 32 dvd int i - ?t" by (rule mod_eq_dvd_iff)
  also have "\<dots> \<longleftrightarrow> int i = ?t"
  proof -
    have "\<bar>x - (y - z - 1)\<bar> < 2 ^ 32" if "0 \<le> z" "z \<le> 0xfffff" "y \<le> 2 ^ 30" "0 \<le> x" "x < y" for x y z :: int
      using that by auto
    from this [OF h k _ i] have "\<bar>int i - ?t\<bar> < 2 ^ 32" by simp
    then have "\<not> 2 ^ 32 dvd int i - ?t" if "int i \<noteq> ?t"
      using that dvd_imp_le_int [of "int i - ?t" "2 ^ 32"] by auto
    then show ?thesis by auto
  qed
  finally show ?thesis .
qed

text \<open>
  C27: the listing of an uncompressed scope is faithful, as lines.  On a fresh object, whose bus answers the control word and
  then the buffer, \<open>print\<close> reads each once and its text consists of lines from which the buffer is recovered,
  although repeated words are left out: each line stands for the indices up to the next, and the last sample is always
  there.  The line marked as the trigger, if it is not left out, is the one the holdoff counts back to from the end.
\<close>

theorem scope_lists_buffer:
  assumes "readio addr t = Inr (v, t1)" "3 \<le> scope_lgln v" "scope_lgln v < 31"
    and "readz (addr + 4) (2 ^ scope_lgln v) t1 = Inr (ws, t2)"
  shows "\<exists>ls. scope_print tty_scope_bus junk decode (scope_new h addr False True) t
      = Inr (concat (map (line_text 9 decode) ls), scope_read v ws (scope_new h addr False True), t2)
    \<and> expand (samples ls) = ws
    \<and> (\<forall>i w m. Sample i w m \<in> set ls \<longrightarrow> i < length ws \<and> w = ws ! i
         \<and> (m \<longleftrightarrow> int i = 2 ^ scope_lgln v - uint (v AND 0xfffff) - 1))"
proof -
  let ?s = "scope_new h addr False True" and ?n = "2 ^ scope_lgln v :: nat"
  let ?o = "2 ^ scope_lgln v - (v AND 0xfffff) - 1 :: u32"
  have len: "length ws = ?n"
    using tty_scope.readz_length [of "addr + 4" "2 ^ scope_lgln v" t1 ws t2] assms(4) by (simp add: tty_scope_bus_def nat_power_eq)
  have "rawread tty_scope_bus junk ?s t = Inr ([], scope_read v ws ?s, t2)"
    using rawread_fresh [of ?s v tty_scope_bus t t1 junk] assms by (simp add: scope_new_def tty_scope_bus_def)
  moreover have "scope_print tty_scope_bus junk decode (scope_read v ws ?s) t2 =
      Inr (concat (map (line_text 9 decode) (print_lines False ?o ws)), scope_read v ws ?s, t2)"
    by (rule print_of_read [OF assms(3) len]) (simp add: scope_new_def)
  ultimately have print: "scope_print tty_scope_bus junk decode ?s t =
      Inr (concat (map (line_text 9 decode) (print_lines False ?o ws)), scope_read v ws ?s, t2)"
    by (simp add: scope_print_def rawread_def)
  have ne: "ws \<noteq> []" using len by auto
  have "?n \<le> 2 ^ 30" using assms(3) by (intro power_increasing) simp_all
  then have "length ws < 2 ^ 32" using len by simp
  then have lt: "length ws < 2 ^ 32" .
  have "i < length ws \<and> w = ws ! i \<and> (m \<longleftrightarrow> int i = 2 ^ scope_lgln v - uint (v AND 0xfffff) - 1)"
    if "Sample i w m \<in> set (print_lines False ?o ws)" for i w m
  proof -
    have i: "i < length ws" "w = ws ! i" "m \<longleftrightarrow> i = unat ?o" using print_lines_mark [OF lt that] by blast+
    have "of_nat i = ?o \<longleftrightarrow> i = unat ?o" by (rule of_nat_word_eq) (use i(1) lt in simp)
    then show ?thesis using i trigger_index [OF assms(3), of i v] len by simp
  qed
  then show ?thesis using print expand_print_lines [OF ne, of ?o] by blast
qed

text \<open>
  C38: what a failed read leaves.  The buffer is allocated before it is filled and is taken to be read from then on: when
  the vector read ends in a bus error, every later \<open>print\<close>, on whatever state of the bus, lists what was left in the
  allocated memory without reading anything, and reports no error.
\<close>

theorem scope_failed_read_sticks:
  assumes "readio addr t = Inr (v, t1)" "3 \<le> scope_lgln v" "scope_lgln v < 31"
    and "readz (addr + 4) (2 ^ scope_lgln v) t1 = Inl (Bus_error e, t2)"
  shows "\<exists>s'. scope_print tty_scope_bus junk decode (scope_new h addr False True) t = Inl (Bus_exception (Bus_error e), s', t2)
    \<and> (\<exists>ls. expand (samples ls) = map junk [0..<2 ^ scope_lgln v]
         \<and> (\<forall>t' junk'. scope_print tty_scope_bus junk' decode s' t' = Inr (concat (map (line_text 9 decode) ls), s', t')))"
proof -
  let ?s = "scope_new h addr False True" and ?d = "map junk [0..<2 ^ scope_lgln v]"
  have "rawread tty_scope_bus junk ?s t = Inl (Bus_exception (Bus_error e), scope_read v ?d ?s, t2)"
    using rawread_fresh [of ?s v tty_scope_bus t t1 junk] assms by (simp add: scope_new_def tty_scope_bus_def)
  then have "scope_print tty_scope_bus junk decode ?s t = Inl (Bus_exception (Bus_error e), scope_read v ?d ?s, t2)"
    by (simp add: scope_print_def)
  moreover have "scope_print tty_scope_bus junk' decode (scope_read v ?d ?s) t' =
      Inr (concat (map (line_text 9 decode) (print_lines False (2 ^ scope_lgln v - (v AND 0xfffff) - 1) ?d)),
           scope_read v ?d ?s, t')" for junk' t'
    by (rule print_of_read [OF assms(3)]) (simp_all add: scope_new_def)
  moreover have "expand (samples (print_lines False (2 ^ scope_lgln v - (v AND 0xfffff) - 1) ?d)) = ?d"
    by (rule expand_print_lines) simp
  ultimately show ?thesis by (intro exI conjI allI)
qed

section \<open>The times of the waveform\<close>

fun vcd_times :: "vcd_item list \<Rightarrow> int list" where
  "vcd_times [] = []"
| "vcd_times (Time t # xs) = t # vcd_times xs"
| "vcd_times (x # xs) = vcd_times xs"

lemma vcd_times_append [simp]: "vcd_times (xs @ ys) = vcd_times xs @ vcd_times ys"
  by (induction xs rule: vcd_times.induct) simp_all

lemma dbl_constants [simp]: "dbl_val dbl_1e9 = 1000000000" "dbl_val dbl_half = 1 / 2"
proof -
  show "dbl_val dbl_1e9 = 1000000000" using dbl_of_nat_exact [of 1000000000] by (simp add: dbl_1e9_def)
  show "dbl_val dbl_half = 1 / 2" by (simp add: dbl_half_def dbl_val_def power_int_def)
qed

lemma near_exact: "0 \<le> x \<Longrightarrow> near k x x"
  using near_mono [OF near_refl] by blast

text \<open>Close enough to a whole number of nanoseconds, adding a half and truncating gives that number.\<close>

lemma nearest_ns_exact:
  assumes "near k x (dbl_val d)" "x * 1000000000 = real n" "n < 2 ^ 31" "k \<le> 6"
  shows "nearest_ns d = Inr (int n)"
proof -
  let ?m = "dbl_mult d dbl_1e9"
  have x: "0 \<le> x" using assms(2) by (metis of_nat_0_le_iff zero_le_mult_iff not_numeral_le_zero zero_less_numeral)
  have "near (k + 0) (x * 1000000000) (dbl_val d * 1000000000)"
    using assms(1) near_refl x by (rule near_mult) simp
  then have "near (k + 1) (real n) (dbl_val ?m)"
    using near_trans [OF _ dbl_mult_near [of d dbl_1e9]] assms(2) by simp
  then have "near (k + 1) (real n + 1 / 2) (dbl_val ?m + 1 / 2)"
    by (rule near_add) (simp add: near_exact)
  then have "near (k + 1 + 1) (real n + 1 / 2) (dbl_val (dbl_add ?m dbl_half))"
    using near_trans [OF _ dbl_add_near [of ?m dbl_half]] by simp
  moreover have "real n + 1 / 2 \<le> 2 ^ 33" using assms(3) by simp
  moreover have "k + 1 + 1 \<le> 8" using assms(4) by simp
  ultimately have "\<bar>dbl_val (dbl_add ?m dbl_half) - (real n + 1 / 2)\<bar> < 1 / 4"
    by (intro near_close [of "k + 1 + 1"]) simp_all
  then have "real n \<le> dbl_val (dbl_add ?m dbl_half)" "dbl_val (dbl_add ?m dbl_half) < real n + 1" by linarith+
  then have "\<lfloor>dbl_val (dbl_add ?m dbl_half)\<rfloor> = int n" by (intro floor_unique) simp_all
  then have t: "dbl_trunc (dbl_add ?m dbl_half) = n" using dbl_trunc_floor [of "dbl_add ?m dbl_half"] by simp
  have "sint (of_nat n :: u32) = int n"
    using assms(3) by (simp add: sint_uint unsigned_of_nat take_bit_nat_eq_self signed_take_bit_int_eq_self)
  then show ?thesis using assms(3) by (simp add: nearest_ns_def to_unsigned_def t)
qed

lemma dbl_of_nat_pos: "0 < n \<Longrightarrow> n < 2 ^ 53 \<Longrightarrow> 0 < d_mant (dbl_of_nat n)"
proof (rule gr0I)
  assume n: "0 < n" "n < 2 ^ 53" and "d_mant (dbl_of_nat n) = 0"
  then have "dbl_val (dbl_of_nat n) = 0" by (simp add: dbl_val_def)
  then show False using dbl_of_nat_exact [OF n(2)] n(1) by simp
qed

lemma clock_period_near:
  assumes "unat (m_clkfreq_hz s) = c" "0 < c"
  shows "\<exists>p. clock_period s = Inr p \<and> near 1 (1 / real c) (dbl_val p)"
proof -
  have c: "c < 2 ^ 53" using unat_bound [of "m_clkfreq_hz s"] assms(1) by simp
  have "clock_period s = Inr (dbl_div (dbl_of_nat 1) (dbl_of_nat c))"
    using assms by (auto simp: clock_period_def)
  then show ?thesis
    using dbl_div_near [OF dbl_of_nat_pos [OF assms(2) c], of "dbl_of_nat 1"] dbl_of_nat_exact [OF c] dbl_of_nat_exact [of 1]
    by simp
qed

lemma edge_times_exact:
  assumes "unat (m_clkfreq_hz s) = c" "2 * half * c = 1000000000" "2 * half * i + half < 2 ^ 31" "i < 2 ^ 32"
  shows "edge_times s i = Inr (int (2 * half * i), int (2 * half * i + half))"
proof -
  let ?c = "real c"
  have pos: "0 < c" using assms(2) by (auto intro: gr0I)
  then obtain p where p: "clock_period s = Inr p" "near 1 (1 / ?c) (dbl_val p)"
    using clock_period_near [OF assms(1)] by blast
  have "real (2 * half * c) = 1000000000" using assms(2) by (simp only: of_nat_numeral)
  then have c: "0 < ?c" "1000000000 = 2 * real half * ?c" using pos by simp_all
  have i: "dbl_val (dbl_of_nat i) = real i" using dbl_of_nat_exact [of i] assms(4) by simp
  let ?d = "dbl_mult p (dbl_of_nat i)" and ?h = "dbl_div p (dbl_of_nat 2)"
  have "near (1 + 0) (1 / ?c * real i) (dbl_val p * real i)" using p(2) near_refl by (rule near_mult) simp_all
  then have d: "near 2 (real i / ?c) (dbl_val ?d)"
    using near_trans [OF _ dbl_mult_near [of p "dbl_of_nat i"]] i by (simp add: numeral_2_eq_2)
  have two: "dbl_val (dbl_of_nat 2) = 2" "0 < d_mant (dbl_of_nat 2)"
    using dbl_of_nat_exact [of 2] dbl_of_nat_pos [of 2] by simp_all
  have "near (1 + 0) (1 / ?c * (1 / 2)) (dbl_val p * (1 / 2))" using p(2) near_refl by (rule near_mult) simp_all
  then have "near 2 (1 / ?c * (1 / 2)) (dbl_val ?h)"
    using near_trans [OF _ dbl_div_near [OF two(2), of p]] two(1) by (simp add: numeral_2_eq_2)
  then have "near 2 (real i / ?c + 1 / ?c * (1 / 2)) (dbl_val ?d + dbl_val ?h)" by (rule near_add [OF d])
  then have f: "near (2 + 1) (real i / ?c + 1 / ?c * (1 / 2)) (dbl_val (dbl_add ?d ?h))"
    by (rule near_trans [OF _ dbl_add_near])
  have e: "real i / ?c * 1000000000 = real (2 * half * i)" using c by (simp add: field_simps)
  have "nearest_ns ?d = Inr (int (2 * half * i))"
    by (rule nearest_ns_exact [OF d e]) (use assms(3) in simp_all)
  moreover have e: "(real i / ?c + 1 / ?c * (1 / 2)) * 1000000000 = real (2 * half * i + half)"
    unfolding c(2) using c(1) by (simp add: field_simps)
  have "nearest_ns (dbl_add ?d ?h) = Inr (int (2 * half * i + half))"
    by (rule nearest_ns_exact [OF f e]) (use assms(3) in simp_all)
  ultimately show ?thesis using p(1) by (simp add: edge_times_def Let_def)
qed

text \<open>Traces that can be written: no shift beyond the word, no more bits than it has.\<close>

definition trace_fits :: "traceinfo \<Rightarrow> bool" where
  "trace_fits t \<longleftrightarrow> m_nshift t < 32 \<and> sint (m_nbits t) \<le> 32"

lemma write_traces_fit: "\<forall>t \<in> set ts. trace_fits t \<Longrightarrow> \<exists>x. write_traces ts w = Inr x"
proof (induction ts)
  case (Cons t ts)
  then have "\<exists>x. write_trace t w = Inr x" by (auto simp: write_trace_def write_binary_trace_def trace_fits_def Let_def)
  with Cons show ?case by auto
qed simp

lemma vcd_sample_times:
  assumes "edge_times s i = Inr (r, f)" "\<forall>t \<in> set (m_traces s). trace_fits t"
  shows "\<exists>xs. vcd_sample s offset i w = Inr xs \<and> vcd_times xs = [r, f]"
proof -
  obtain x where "write_traces (m_traces s) w = Inr x" using write_traces_fit [OF assms(2)] by blast
  then show ?thesis using assms(1) by (simp add: vcd_sample_def word_values_def write_binary_trace_def Let_def)
qed

lemma vcd_uncompressed_times:
  assumes "\<And>k. i \<le> k \<Longrightarrow> k < i + length d \<Longrightarrow> edge_times s k = Inr (rise k, fall k)"
    and "\<forall>t \<in> set (m_traces s). trace_fits t"
  shows "\<exists>xs. vcd_uncompressed s offset i d = Inr xs \<and> vcd_times xs = concat (map (\<lambda>k. [rise k, fall k]) [i..<i + length d])"
  using assms
proof (induction d arbitrary: i)
  case (Cons w ws)
  obtain xs where "vcd_sample s offset i w = Inr xs" "vcd_times xs = [rise i, fall i]"
    using vcd_sample_times [OF Cons.prems(1) [of i] Cons.prems(2)] by auto
  moreover obtain ys where "vcd_uncompressed s offset (i + 1) ws = Inr ys"
      "vcd_times ys = concat (map (\<lambda>k. [rise k, fall k]) [i + 1..<i + 1 + length ws])"
    using Cons.IH [of "i + 1"] Cons.prems by auto
  moreover have "[i..<i + length (w # ws)] = i # [i + 1..<i + 1 + length ws]"
    by (simp add: upt_conv_Cons del: upt_Suc)
  ultimately show ?case by (simp del: upt_Suc)
qed simp

text \<open>
  C28: the times of the waveform of an uncompressed scope are right to the nanosecond.  With a clock whose half period is a
  whole number of nanoseconds (the default of 100 MHz, the 25 MHz of the network), sample \<open>i\<close> rises at \<open>i\<close> periods
  and falls half a period later, exactly, up to two seconds: the five roundings of the host's doubles never
  carry a time across the half nanosecond that is added before it is truncated.
\<close>

theorem vcd_edges_on_time:
  assumes "\<not> m_compressed s" "2 * half * unat (m_clkfreq_hz s) = 1000000000" "2 * half * length d < 2 ^ 31"
    and "\<forall>t \<in> set (m_traces s). trace_fits t"
  shows "\<exists>xs. vcd_items s alen d = Inr xs
    \<and> vcd_times xs = concat (map (\<lambda>i. [int (2 * half * i), int (2 * half * i + half)]) [0..<length d])"
proof -
  have "edge_times s k = Inr (int (2 * half * k), int (2 * half * k + half))" if "k < length d" for k
  proof (rule edge_times_exact [OF refl assms(2)])
    have half: "0 < half" using assms(2) by (auto intro: gr0I)
    have "2 * half * k + 2 * half = 2 * half * Suc k" by simp
    also have "\<dots> \<le> 2 * half * length d" using that by (intro mult_le_mono2) simp
    finally show b: "2 * half * k + half < 2 ^ 31" using assms(3) by linarith
    have "1 * k \<le> 2 * half * k" using half by (intro mult_le_mono1) simp
    moreover have "2 * half * k < 2 ^ 31" using b by linarith
    ultimately have "k < 2 ^ 31" by linarith
    then show "k < 2 ^ 32" by simp
  qed
  then show ?thesis
    using vcd_uncompressed_times [of 0 d s "\<lambda>k. int (2 * half * k)" "\<lambda>k. int (2 * half * k + half)"] assms(1,4)
    by (simp add: vcd_items_def Let_def)
qed

section \<open>The trigger of a compressed scope\<close>

fun jumps :: "u32 list \<Rightarrow> nat" where
  "jumps [] = 0"
| "jumps (w # ws) = (if bit w 31 then unat (w AND 0x7fffffff) else 0) + jumps ws"

lemma vcd_compressed_quiet:
  assumes "vcd_compressed s alen offset start addrv lt d = Inr xs"
    and "\<And>a. addrv \<le> a \<Longrightarrow> a < addrv + length d + jumps (if start then tl d else d) \<Longrightarrow> of_nat a - alen \<noteq> offset"
  shows "Trigger True \<notin> set xs"
  using assms
proof (induction s alen offset start addrv lt d arbitrary: xs rule: vcd_compressed.induct)
  case (2 s alen offset start addrv lt w ws)
  note range = "2.prems"(2)
  consider (skip) "bit w 31" "start" | (jump) "bit w 31" "\<not> start" | (sample) "\<not> bit w 31" by blast
  then show ?case
  proof cases
    case skip
    then have "vcd_compressed s alen offset False addrv lt ws = Inr xs" using "2.prems"(1) by simp
    then show ?thesis by (rule "2.IH"(1) [OF skip]) (use range skip in simp)
  next
    case jump
    then obtain drop rest where r: "vcd_compressed s alen offset False (addrv + unat (w AND 0x7fffffff) + 1) lt ws = Inr rest"
        "xs = drop @ rest" "Trigger True \<notin> set drop"
      using "2.prems"(1) by (auto split: if_splits)
    have "Trigger True \<notin> set rest"
      by (rule "2.IH"(2) [OF jump r(1)]) (use range jump in simp)
    then show ?thesis using r by simp
  next
    case sample
    have no: "of_nat addrv - alen \<noteq> offset" by (rule range) simp_all
    obtain t raw vals rest where r: "vcd_compressed s alen offset False (addrv + 1) lt ws = Inr rest"
        "word_values 31 s w = Inr (raw, vals)" "xs = Time t # (if lt then [Trigger False] else []) @ raw @ vals @ rest"
      using "2.prems"(1) sample no by (auto simp: Let_def)
    have "Trigger True \<notin> set raw" "Trigger True \<notin> set vals" using r(2) by (auto simp: word_values_def)
    moreover have "Trigger True \<notin> set rest"
      using "2.IH"(3) [OF sample refl refl, of rest] r(1) no range sample by auto
    ultimately show ?thesis using r(3) by simp
  qed
qed simp

lemma jump_sum_jumps: "jump_sum ws = of_nat (jumps ws)"
proof -
  have top: "w AND 0x80000000 = 0 \<longleftrightarrow> \<not> bit w 31" for w :: u32
    using and_exp_eq_0_iff_not_bit [of w 31] by simp
  show ?thesis by (induction ws rule: jumps.induct) (simp_all add: top)
qed

text \<open>
  C39: the waveform of a compressed scope never marks the trigger.  Whatever the traces and the clock, and for every
  holdoff that puts the trigger inside the buffer, the test for it compares the address counted from the
  end of the buffer with an offset counted from its start, which differ by the length.  Twice the length, in
  addresses, fits 32 bits.
\<close>

theorem vcd_trigger_never_marked:
  assumes "m_compressed s" "length d = unat (m_scoplen s)" "m_data s = Some d" "0 \<le> sint (m_scoplen s)"
    and "getaddresslen s = Inr alen" "2 * (length d + jumps (tl d)) < 2 ^ 32" "m_holdoff s < alen"
    and "vcd_items s alen d = Inr xs"
  shows "Trigger True \<notin> set xs"
proof -
  let ?n = "length d + jumps (tl d)" and ?h = "unat (m_holdoff s)"
  have "scope_words s = Inr d"
    using assms(2-4) scoplen_positive [OF assms(4)] by (auto simp: scope_words_def Let_def)
  moreover have "m_scoplen s = of_nat (length d)" using assms(2) by simp
  ultimately have alen: "alen = of_nat ?n" using assms(1,5) by (simp add: getaddresslen_def jump_sum_jumps)
  have "m < 2 ^ 32" if "2 * m < 2 ^ 32" for m :: nat using that by simp
  from this [OF assms(6)] have "?n < 2 ^ 32" .
  from of_nat_word_eq [OF this, of alen] have "unat alen = ?n" using alen by simp
  then have h: "?h < ?n" using assms(7) by (simp only: word_less_nat_alt)
  have "of_nat a - alen \<noteq> alen - m_holdoff s - 1" if "a < ?n" for a
  proof
    assume "of_nat a - alen = alen - m_holdoff s - 1"
    then have "of_nat a + (m_holdoff s + 1) = alen + alen" by (simp add: algebra_simps)
    then have "(of_nat (a + ?h + 1) :: u32) = of_nat (2 * ?n)" unfolding alen by (simp add: algebra_simps)
    moreover have lt: "x + y + 1 < 2 * z" if "x < z" "y < z" for x y z :: nat using that by simp
    ultimately have "a + ?h + 1 = 2 * ?n"
      using lt [OF that h] assms(6) of_nat_word_eq [of "a + ?h + 1" "of_nat (2 * ?n)"] of_nat_word_eq [of "2 * ?n" "of_nat (2 * ?n)"]
      by (metis less_trans)
    then show False using lt [OF that h] by simp
  qed
  then show ?thesis
    using vcd_compressed_quiet [of s alen "alen - m_holdoff s - 1" True 0 True d xs] assms(1,8)
    by (simp add: vcd_items_def Let_def)
qed

text \<open>The times of a compressed scope are truncated without the half: sample 49 at the default clock is a nanosecond early.\<close>

lemma compressed_time_early: "time_of_addr (scope_new h addr True vecread) 49 = Inr 489"
  by (simp add: time_of_addr_def clock_period_def scope_new_def dbl_1e9_def to_unsigned_long_def dbl_eval)

section \<open>Concrete runs\<close>

text \<open>A scope of 16 words at \<open>0x100\<close>, with a holdoff of 3, and what the board answers when it is asked.\<close>

definition scope_control :: "answer list" where
  "scope_control = [([Address 0x40], Raw 0x50400003, False)]"

definition scope_samples :: "answer list" where
  "scope_samples = ([Address 0x41], Raw 5, False) # replicate 9 ([], Last, False) @ [([], Raw 6, False)]
     @ replicate 5 ([], Last, False)"

lemma readio_answered:
  "readv a 0 1 s = Inr ([v], s') \<Longrightarrow> m_lastaddr s' = a \<Longrightarrow> readio a s = Inr (v, s')"
  by (simp add: readio_def)

lemma scope_control_answered:
  "\<exists>t1 b1. readio 0x100 (tty_hears (answer_chars scope_control @ rest)) = Inr (0x50400003, t1)
     \<and> tbl_sync t1 b1 \<and> addr_sync t1 b1 \<and> read_sync t1 [0x50400003] \<and> 11 < m_buflen t1 \<and> waiting t1 rest \<and> m_lastaddr t1 = 0x100"
proof -
  let ?cs = "answer_chars scope_control @ rest"
  have "answers_ok scope_control []" by (simp add: scope_control_def)
  then obtain cs rs s' where "readv 0x100 0 1 (tty_hears ?cs) = Inr ([0x50400003], s')" "m_lastaddr s' = 0x100"
      "waiting s' rest" "read_sync s' [0x50400003]" "m_buflen s' = m_buflen (tty_hears ?cs)"
      "tbl_sync s' (board_run board_example cs)" "addr_sync s' (board_run board_example cs)"
    using readv_answered [OF tty_hears_sync(1-4) [of ?cs], of "0x100" 0 scope_control rest] tty_hears_sync(5) [of ?cs]
    by (auto simp: tty_hears_sync(6,7) scope_control_def read_end_def)
  then show ?thesis using readio_answered tty_hears_sync(4) [of ?cs] by metis
qed

lemma scope_lgln_example: "scope_lgln 0x50400003 = 4"
  by (simp add: scope_lgln_def)

theorem scope_lists_buffer_witness:
  "\<exists>ls s' t2. scope_print tty_scope_bus (\<lambda>_. 0) (\<lambda>_. []) (scope_new 0 0x100 False True)
        (tty_hears (answer_chars scope_control @ answer_chars scope_samples)) = Inr (concat (map (line_text 9 (\<lambda>_. [])) ls), s', t2)
     \<and> expand (samples ls) = replicate 10 5 @ replicate 6 6"
proof -
  let ?t = "tty_hears (answer_chars scope_control @ answer_chars scope_samples)"
  obtain t1 b1 where 1: "readio 0x100 ?t = Inr (0x50400003, t1)" "tbl_sync t1 b1" "addr_sync t1 b1"
      "read_sync t1 [0x50400003]" "11 < m_buflen t1" "waiting t1 (answer_chars scope_samples @ [])" "m_lastaddr t1 = 0x100"
    using scope_control_answered [of "answer_chars scope_samples"] by auto
  have hist: "refer_back 0x104 t1 [0x50400003] = []" using 1(7) by (simp add: refer_back_def)
  have len: "length scope_samples = 16" "scope_samples \<noteq> []" by (simp_all add: scope_samples_def)
  have ok: "answers_ok scope_samples (refer_back 0x104 t1 [0x50400003])"
    unfolding hist by (simp add: scope_samples_def numeral_eq_Suc)
  have addr: "answers_addr scope_samples (m_lastaddr t1) = read_end 0x104 0 (length scope_samples)"
    by (simp add: scope_samples_def numeral_eq_Suc read_end_def)
  have "answer_values scope_samples [] = replicate 10 5 @ replicate 6 6"
    by (simp add: scope_samples_def numeral_eq_Suc)
  then obtain t2 where "readz (0x100 + 4) (2 ^ scope_lgln 0x50400003) t1 = Inr (replicate 10 5 @ replicate 6 6, t2)"
    using readv_answered [OF 1(2-5), of "0x104" 0 scope_samples "[]", OF _ _ _ _ _ 1(6) ok addr]
    by (auto simp: len hist readz_def scope_lgln_example)
  from scope_lists_buffer [OF 1(1) _ _ this, of "\<lambda>_. 0" "\<lambda>_. []" 0] show ?thesis
    by (auto simp: scope_lgln_example)
qed

lemma readword_bus_error:
  assumes "waiting s ([sixchar 5] @ rest)"
  shows "\<exists>s'. readword s = Inl (Bus_error 0, s')"
proof -
  obtain t where t: "read_codes 1 [] s = Inr ([sixchar 5], t)" using read_codes_valid [OF assms, of 1 "[]"] by auto
  have "\<not> starts_data (sixchar 5)" using starts_sixchar(1) [of 5] by simp
  then show ?thesis
    unfolding readword_def by (subst readword_from.simps) (simp add: t read_control_def status_char_def code_char_def del: One_nat_def)
qed

lemma scope_read_fails:
  "\<exists>t1 t2. readio 0x100 (tty_hears (answer_chars scope_control @ [sixchar 5])) = Inr (0x50400003, t1)
     \<and> readz 0x104 16 t1 = Inl (Bus_error 0x104, t2)"
proof -
  obtain t1 b1 where 1: "readio 0x100 (tty_hears (answer_chars scope_control @ [sixchar 5])) = Inr (0x50400003, t1)"
      "tbl_sync t1 b1" "addr_sync t1 b1" "read_sync t1 [0x50400003]" "11 < m_buflen t1" "waiting t1 [sixchar 5]"
    using scope_control_answered [of "[sixchar 5]"] by auto
  obtain cs s1 where 2: "encode_address 0x104 t1 = Inr (cs, s1)" "length cs \<le> 6" "cw (board_run b1 cs) = []"
    using encode_address_board [OF 1(2,3), of "0x104"] 1(5) by auto
  note keep = encode_address_keeps [OF 2(1) 1(4)]
  obtain ds where "readv_loop 0x104 0 16 0 [] cs s1 = Inr ([], sent ds s1)"
    using readv_loop_small [of 16 0 b1 cs s1 "0x104"] 2(2,3) 1(5) keep(4) by auto
  moreover have "waiting (sent ds s1) ([sixchar 5] @ [])" using 1(6) keep(3) by (simp add: waiting_def sent_def)
  then obtain s' where "readword (sent ds s1) = Inl (Bus_error 0, s')" using readword_bus_error by blast
  ultimately have "readv 0x104 0 16 t1 = Inl (Bus_error 0x104, s')"
    using 2(1) by (simp add: readv_def numeral_eq_Suc)
  then show ?thesis using 1(1) by (auto simp: readz_def)
qed

theorem scope_failed_read_sticks_witness:
  "\<exists>s' t2 ls. scope_print tty_scope_bus (\<lambda>i. 0xdead) (\<lambda>_. []) (scope_new 0 0x100 False True)
        (tty_hears (answer_chars scope_control @ [sixchar 5])) = Inl (Bus_exception (Bus_error 0x104), s', t2)
     \<and> (\<forall>t' junk. scope_print tty_scope_bus junk (\<lambda>_. []) s' t' = Inr (concat (map (line_text 9 (\<lambda>_. [])) ls), s', t'))
     \<and> expand (samples ls) = replicate 16 0xdead"
proof -
  obtain t1 t2 where 1: "readio 0x100 (tty_hears (answer_chars scope_control @ [sixchar 5])) = Inr (0x50400003, t1)"
      and 2: "readz (0x100 + 4) (2 ^ scope_lgln 0x50400003) t1 = Inl (Bus_error 0x104, t2)"
    using scope_read_fails by (auto simp: scope_lgln_example)
  have "map (\<lambda>_. 0xdead) [0..<2 ^ scope_lgln 0x50400003] = (replicate 16 0xdead :: u32 list)"
    by (simp add: scope_lgln_example map_replicate_const)
  then show ?thesis
    using scope_failed_read_sticks [OF 1 _ _ 2, of "\<lambda>_. 0xdead" "\<lambda>_. []" 0] by (fastforce simp: scope_lgln_example)
qed

text \<open>At the default clock: two samples of one trace.\<close>

definition scope_example :: "bool \<Rightarrow> u32 list \<Rightarrow> scope" where
  "scope_example compressed d = register_trace ''err'' 1 3 ((scope_new 0 0x100 compressed True)
     \<lparr>m_scoplen := of_nat (length d), m_data := Some d\<rparr>)"

lemma scope_example_simps [simp]:
  "m_compressed (scope_example c d) = c" "m_data (scope_example c d) = Some d" "m_scoplen (scope_example c d) = of_nat (length d)"
  "m_clkfreq_hz (scope_example c d) = 100000000" "m_holdoff (scope_example c d) = 0"
  by (simp_all add: scope_example_def register_trace_def scope_new_def)

theorem vcd_edges_on_time_witness:
  "\<exists>xs. vcd_items (scope_example False [7, 8]) 2 [7, 8] = Inr xs \<and> vcd_times xs = [0, 5, 10, 15]"
proof -
  have "\<forall>t \<in> set (m_traces (scope_example False [7, 8])). trace_fits t"
    by (simp add: scope_example_def register_trace_def scope_new_def trace_fits_def)
  from vcd_edges_on_time [of "scope_example False [7, 8]" 5 "[7, 8]" 2, OF _ _ _ this] show ?thesis
    by (simp add: upt_rec)
qed

lemma scope_example_compressed:
  "\<exists>xs. vcd_items (scope_example True [7, 0x80000003, 8, 9]) 7 [7, 0x80000003, 8, 9] = Inr xs"
proof -
  let ?s = "scope_example True [7, 0x80000003, 8, 9]"
  have t: "time_of_addr ?s 0 = Inr 0" "time_of_addr ?s 2 = Inr 20" "time_of_addr ?s 5 = Inr 50" "time_of_addr ?s 6 = Inr 60"
    by (simp_all add: time_of_addr_def clock_period_def dbl_1e9_def to_unsigned_long_def dbl_eval)
  have "\<exists>r. word_values 31 ?s w = Inr r" for w
    by (simp add: word_values_def scope_example_def register_trace_def scope_new_def write_trace_def write_binary_trace_def Let_def)
  then obtain f where "\<And>w. word_values 31 ?s w = Inr (f w)" by metis
  then show ?thesis using t(1,3,4) t(2) [unfolded numeral_2_eq_2] by (simp add: vcd_items_def split_def)
qed

theorem vcd_trigger_never_marked_witness:
  "\<exists>xs. vcd_items (scope_example True [7, 0x80000003, 8, 9]) 7 [7, 0x80000003, 8, 9] = Inr xs \<and> Trigger True \<notin> set xs"
proof -
  let ?d = "[7, 0x80000003, 8, 9] :: u32 list"
  let ?s = "scope_example True ?d"
  obtain xs where xs: "vcd_items ?s 7 ?d = Inr xs" using scope_example_compressed by blast
  have "scope_words ?s = Inr ?d" by (simp add: scope_words_def Let_def)
  then have "getaddresslen ?s = Inr 7" by (simp add: getaddresslen_def)
  from vcd_trigger_never_marked [OF _ _ _ _ this _ _ xs] xs show ?thesis by simp
qed

end
