(* ===== verification/Spec2Isabelle.thy ===== *)
theory Spec2Isabelle
  imports Byteswap Twoc Udiv TbClock FlashRead FlashWrite FlashSafe EnetCtrl MemSim Uart SdPins OledSim DblUart TtyRead FlashBoard ZopcodeProps PingProps DdrProps ScopeProps
begin

text \<open>
  A verification development for the C++ side of OpenArty.

  \<^bold>\<open>The program.\<close>  OpenArty is a ZipCPU system on a chip for the Arty board.  Its C++ has two
  halves.  Under \<open>src/sim/verilated\<close> are the simulators of the devices on the board, which a
  test bench ticks together with a Verilator model of the design: each is a class whose
  \<open>operator()\<close> (or \<open>tick\<close>, \<open>simtick\<close>, \<open>apply\<close>) takes the pins the design drives and returns the
  pins the device drives.  Under \<open>src/sw/host\<close> is the host's software, which reaches the bus of
  the board through \<open>TTYBUS\<close>, a debugging bus on a character stream; in simulation that stream
  is a TCP connection to the shared serial port \<open>DBLUARTSIM\<close>.

  \<^bold>\<open>The model.\<close>  A class is a \<open>record\<close> with the names of its members, an operation a function on
  it, and a state machine's \<open>switch\<close> a function per group of cases, composed as the code composes
  them.  \<open>unsigned\<close> values are words of their width, counters declared \<open>int\<close> are HOL integers.  A
  failed \<open>assert\<close>, a call of \<open>exit\<close> and an access outside a buffer are values of type \<open>fault\<close>, so
  every operation that can stop returns \<open>fault + 'a\<close>.  Theory \<open>Prelude\<close> has this vocabulary,
  the function \<open>run\<close> that iterates the step of a simulator over the pins of a run, and the
  locales by which a fact about one tick becomes one about a run: \<open>step_invariant\<close>,
  \<open>step_total\<close> (no fault), \<open>step_safe\<close> (no fault but a failed assertion) and \<open>step_simulation\<close>
  (a concrete step implements an abstract one).  Every device interprets the ones that hold for it
  on its own step function.

  \<^bold>\<open>The parts.\<close>

  \<^item> \<open>FlashSim\<close>: the serial flash, \<open>flashsim.cpp\<close>; \<open>flash_tick\<close> is \<open>FLASHSIM::operator()\<close>, split into
    the timers, the deselected branch, the shift register and one function per group of states.
    \<open>FlashSpi\<close> drives it a byte at a time, \<open>FlashProps\<close> describes the address phase,
    \<open>FlashRead\<close> shows what a fast read returns, \<open>FlashWrite\<close> what a page program does and
    when a write is complete, \<open>FlashSafe\<close> the sector erase and, for every run of the pins from power-up,
    that memory changes only under the write-enable latch and that a write whose command has its address stays
    inside the buffer; it also has the two ways in which the source leaves it.
  \<^item> \<open>SdSpi\<close>: the SD card, \<open>sdspisim.cpp\<close>.  \<open>SdCrc\<close> relates its two CRC loops to one polynomial
    register and shows what errors they detect; \<open>SdBlock\<close> has the order of the reset commands
    and the safety of the buffers, \<open>SdRead\<close> block reads and writes at the level of bytes, and
    \<open>SdPins\<close> shows that clocking bits through the pins refines that level, with the
    concrete runs.
  \<^item> \<open>EnetCtrl\<close>: the MDIO registers of the Ethernet PHY, \<open>enetctrlsim.cpp\<close>: a frame at any regular
    clock does what the standard says, and a preamble resynchronises a lost PHY.
  \<^item> \<open>MemSim\<close>: the Wishbone memory, \<open>memsim.cpp\<close>: a delay line that refines an atomic memory.
  \<^item> \<open>Ddr\<close>: the DDR3 memory, \<open>ddrsdramsim.cpp\<close>; \<open>ddr_step\<close> is its call operator.  \<open>DdrLine\<close> shows that its
    ring of time slots is a delay line, \<open>DdrBank\<close> what the eleven bits of a bank record, \<open>DdrBurst\<close> that
    an open row is a memory behind that line (\<open>open_step\<close>, which the chip simulates), \<open>DdrAccess\<close> whole
    accesses, \<open>DdrStart\<close> and \<open>DdrBoot\<close> that the start-up sequence is necessary and sufficient;
    \<open>DdrProps\<close> has the properties.
  \<^item> \<open>Uart\<close>: the serial port, \<open>uartsim.cpp\<close>: what a receiver reports, what a transmitter drives, and
    that one port receives what another sends.
  \<^item> \<open>DblUart\<close>: the serial port shared by a command and a console connection, \<open>dbluartsim.cpp\<close>,
    on the line code of \<open>Uart\<close>: the eighth bit of a character names its connection.
  \<^item> \<open>OledSim\<close>: the display, \<open>oledsim.cpp\<close>: messages on the SPI pins refine an interpreter of
    messages, and pixels are painted in their window.
  \<^item> \<open>TbClock\<close>: the clocks of the test bench, \<open>tbclock.h\<close>.
  \<^item> \<open>TtyBus\<close>: the host's bus, \<open>ttybus.cpp\<close>, over the stream of \<open>llcomms.cpp\<close>, given as the events
    still to come.  \<open>TtyIdle\<close> shows what \<open>readidle\<close> makes of the notices a board sends while it is
    written to.  \<open>TtyBoard\<close> states what the board makes of the characters, after the Verilog of
    \<open>rtl/wbubus\<close> (\<open>wbutohex.v\<close>, \<open>wbureadcw.v\<close>, \<open>wbudecompress.v\<close>, \<open>wbuexec.v\<close>), and shows
    that a vector write makes it perform exactly the writes asked for, in the face of any notices, which can
    end it early but not put the two out of step; \<open>TtyRead\<close> states what the
    board answers and shows that \<open>readword\<close> decodes it, and \<open>TtyReadv\<close> puts the two together: a vector read
    makes the board perform the reads asked for and returns its answers, except for eight words at a fixed address.
  \<^item> \<open>Scope\<close>: the reader of the logic analysers in the design, \<open>scopecls.cpp\<close>, over the part of the bus it calls; the
    listing and the waveform file are given line by line and as the text written.  \<open>ScopeList\<close> has the invariant of its buffer, in
    the locale \<open>scope_words_bus\<close> of the buses that deliver as many words as they are asked for, interpreted on \<open>TTYBUS\<close>, and
    shows that a listing determines the buffer.  \<open>ScopeProps\<close> has the properties on that bus: the listing, what a
    failed read leaves, the times and the trigger of a waveform.
  \<^item> \<open>FlashDrvr\<close>: the flash driver of the host, \<open>flashdrvr.cpp\<close>, over the abstract bus of \<open>devbus.h\<close>.
    \<open>FlashDrvrSpec\<close> states in the locale \<open>flash_board\<close> what the driver relies on, command by command,
    and shows there what a write leaves and that polling ends.  \<open>FlashQspi\<close> has the quad mode of the
    simulated flash, and \<open>FlashBoard\<close> interprets the contract on that flash behind a
    transaction-level abstraction of its controller (after \<open>rtl/qflexpress.v\<close>): driver and simulator
    together write what they are asked to, when the length that \<open>write_pages\<close> computes from an uninitialised
    variable comes out right, and polling ends for every value of the write timer.
  \<^item> \<open>Zopcodes\<close>: the disassembler, \<open>zopcodes.cpp\<close>: its tables, entry by entry, and the lines it prints.
    \<open>ZopcodeLines\<close> shows that every word has a line that fits its buffer, \<open>ZopcodeProps\<close> that assembled
    instructions and branches are printed as their source, and where table and branch predictor err.
  \<^item> \<open>IpCksum\<close>: the internet checksum of the board's network programs, \<open>ipcksum.c\<close>: the assembly that is built
    agrees with the C version, and a packet that carries its checksum verifies.  \<open>Arp\<close>: the table of
    neighbours, \<open>arp.c\<close>, as a map from IP to Ethernet addresses.  \<open>Ping\<close>: the packet handling of
    \<open>simple_ping.c\<close>; \<open>PingProps\<close> shows what it answers and what of that the supervisor transmits, that two boards can ping each other, and the
    request that stops it.
  \<^item> \<open>CText\<close>: the conversions of \<open>printf\<close> and the comparison of strings; \<open>Dbl\<close>: the non-negative doubles of the
    host, 53-bit significands with rounding to nearest even, and the relation \<open>near\<close> that bounds the errors of a computation.
  \<^item> \<open>Byteswap\<close> and \<open>Twoc\<close>: \<open>byteswap.cpp\<close> and \<open>twoc.cpp\<close>, with their arithmetic meaning.
  \<^item> \<open>Udiv\<close>: the 64-bit division of the board's runtime, \<open>udiv.c\<close> and \<open>umod.c\<close>: quotient and
    remainder are those of arithmetic.

  \<^bold>\<open>The environment.\<close>  What the operating system answers is an argument: the events of the host's
  stream; for the flash driver, the bus, and the two values its \<open>write\<close> reads before anything has set
  them; for the ping program, the device registers it reads, the received packet, what its stack holds and an
  index it reads before setting it; for the scope reader, what the allocator left in its buffer and the text of the date; for the serial ports, what \<open>accept\<close>, \<open>recv\<close> and \<open>send\<close> return at a tick; for the SD
  card, the contents of its file.  Storage that a constructor does not set is an argument of the
  model of the constructor.  Drawing on the display is the list of the calls made to the graphics library.

  \<^bold>\<open>Termination and bounds.\<close>  No model uses fuel.  Loops over data are structural; the loops of
  \<open>ttybus.cpp\<close> that wait for input terminate by the size of the events still to come, and waiting
  for input that never comes is the outcome \<open>Blocked\<close>.  The doubling loops of the memory's
  constructor may run forever: they are partial functions whose value is \<open>None\<close> then, and are shown
  to return for sizes up to \<open>2 ^ 31\<close>.  The polling loop of the flash driver and the loops of its \<open>write\<close>
  are partial functions too, and are shown to return on the board.  Theorems about sizes state the widths: 32-bit addresses in the
  flash, packets of at most 32768 words in the checksum, two seconds in a waveform, the \<open>2 ^ 23\<close> blocks beyond which the offsets of the SD card wrap, baud counts of 24 bits.

  \<^bold>\<open>Not modelled.\<close>  Debug printing; the creation of sockets and terminal devices; the redraw
  requests and the window class of the display.  The DDR3 simulator is commented out of the build and its header lacks
  two fields and a constructor; they are modelled as its source uses them.
  The top level of the simulation is generated and drives generated code.  Of the host's software, the
  classes for one scope are calls of \<open>printf\<close>, the register names are a generated table, the network bridge is a loop
  around \<open>poll\<close> and sockets, and the other tools parse arguments and print.  Of the ping program, the setup of \<open>main\<close> and
  its interrupt bookkeeping; the other programs of the board are demonstrations
  against device registers, inline assembly, and pictures.
\<close>

end
